(* ===== verification/Prelude.thy ===== *)
theory Prelude
  imports Main "HOL-Library.AList" "HOL-Library.Char_ord" "HOL-Library.List_Lexorder"
begin

text \<open>
  The prelude: the names, the result type and the list and dictionary helpers that every
  component theory shares.

  \<^item> A Python exception is the left value of a sum type, \<^typ>\<open>'e + 'a\<close>; \<open>bind_res\<close>,
    \<open>fold_res\<close> and \<open>map_res\<close> sequence such results the way statements, loops and
    comprehensions do: the first error wins and nothing after it runs.
  \<^item> A Python \<open>dict\<close> whose order matters is an association list updated with
    \<^const>\<open>AList.update\<close>, which overwrites a present key in place and appends a new one, as
    the insertion-ordered \<open>dict\<close> of Python does. A \<open>dict\<close> whose order is never observed
    is a map.
  \<^item> \<open>next((x for x in xs if p(x)), None)\<close> is \<^const>\<open>List.find\<close>.
  \<^item> Strings are char lists, ordered lexicographically by code (the orders of
    \<open>Char_ord\<close> and \<open>List_Lexorder\<close>), as Python compares \<open>str\<close> values.
\<close>

section \<open>Names\<close>

type_synonym agent_id = string
type_synonym run_id = string

text \<open>
  A \<open>datetime\<close> is a number of microseconds, the resolution of the Python type; a
  monotonic clock reading is a number of microseconds too.
\<close>

type_synonym timestamp = int

section \<open>Collections of facts\<close>

named_theorems state_defs \<open>definitions of the state-changing operations\<close>
named_theorems keeps \<open>an operation keeps an invariant\<close>

section \<open>Results\<close>

definition bind_res :: "'e + 'a \<Rightarrow> ('a \<Rightarrow> 'e + 'b) \<Rightarrow> 'e + 'b" where
  "bind_res r f = (case r of Inl e \<Rightarrow> Inl e | Inr x \<Rightarrow> f x)"

lemma bind_res_simps [simp]:
  "bind_res (Inl e) f = Inl e"
  "bind_res (Inr x) f = f x"
  by (simp_all add: bind_res_def)

lemma bind_res_Inr_iff:
  "bind_res r f = Inr y \<longleftrightarrow> (\<exists>x. r = Inr x \<and> f x = Inr y)"
  by (cases r) auto

lemma bind_res_Inl_iff:
  "bind_res r f = Inl e \<longleftrightarrow> r = Inl e \<or> (\<exists>x. r = Inr x \<and> f x = Inl e)"
  by (cases r) auto

definition guard_res :: "bool \<Rightarrow> 'e \<Rightarrow> 'e + unit" where
  "guard_res b e = (if b then Inr () else Inl e)"

lemma guard_res_Inr_iff [simp]: "guard_res b e = Inr u \<longleftrightarrow> b"
  by (simp add: guard_res_def)

lemma guard_res_Inl_iff [simp]: "guard_res b e = Inl e' \<longleftrightarrow> \<not> b \<and> e' = e"
  by (auto simp: guard_res_def)

text \<open>A loop over a list that threads a state and stops at the first exception.\<close>

fun fold_res :: "('a \<Rightarrow> 's \<Rightarrow> 'e + 's) \<Rightarrow> 'a list \<Rightarrow> 's \<Rightarrow> 'e + 's" where
  "fold_res f [] s = Inr s"
| "fold_res f (x # xs) s = (case f x s of Inl e \<Rightarrow> Inl e | Inr s' \<Rightarrow> fold_res f xs s')"

text \<open>A comprehension whose element expression may raise.\<close>

fun map_res :: "('a \<Rightarrow> 'e + 'b) \<Rightarrow> 'a list \<Rightarrow> 'e + 'b list" where
  "map_res f [] = Inr []"
| "map_res f (x # xs) =
     (case f x of Inl e \<Rightarrow> Inl e
      | Inr y \<Rightarrow> (case map_res f xs of Inl e \<Rightarrow> Inl e | Inr ys \<Rightarrow> Inr (y # ys)))"

lemma fold_res_invariant:
  assumes "fold_res f xs s = Inr s'" and "P s"
    and "\<And>x s t. x \<in> set xs \<Longrightarrow> P s \<Longrightarrow> f x s = Inr t \<Longrightarrow> P t"
  shows "P s'"
  using assms
proof (induction xs arbitrary: s)
  case Nil
  then show ?case by simp
next
  case (Cons x xs)
  then obtain t where t: "f x s = Inr t" "fold_res f xs t = Inr s'"
    by (auto split: sum.splits)
  have "P t" using Cons.prems(3) [OF _ Cons.prems(2) t(1)] by simp
  with t(2) show ?case by (rule Cons.IH) (use Cons.prems(3) in auto)
qed

text \<open>The same with the part of the list that has been run through.\<close>

lemma fold_res_prefix:
  assumes "fold_res f xs s = Inr s'" and "P ys s"
    and "\<And>zs x s t. x \<in> set xs \<Longrightarrow> P zs s \<Longrightarrow> f x s = Inr t \<Longrightarrow> P (zs @ [x]) t"
  shows "P (ys @ xs) s'"
  using assms
proof (induction xs arbitrary: ys s)
  case Nil
  then show ?case by simp
next
  case (Cons x xs)
  then obtain t where t: "f x s = Inr t" "fold_res f xs t = Inr s'"
    by (auto split: sum.splits)
  have "P (ys @ [x]) t" using Cons.prems(3) [OF _ Cons.prems(2) t(1)] by simp
  from Cons.IH [OF t(2) this] Cons.prems(3) show ?case by simp
qed

lemma fold_res_failure:
  assumes "fold_res f xs s = Inl e" and "P s"
    and "\<And>x s t. x \<in> set xs \<Longrightarrow> P s \<Longrightarrow> f x s = Inr t \<Longrightarrow> P t"
    and "\<And>x s. x \<in> set xs \<Longrightarrow> P s \<Longrightarrow> f x s = Inl e \<Longrightarrow> Q"
  shows Q
  using assms
proof (induction xs arbitrary: s)
  case Nil
  then show ?case by simp
next
  case (Cons x xs)
  show ?case
  proof (cases "f x s")
    case (Inl e')
    with Cons.prems(1) have "f x s = Inl e" by simp
    with Cons.prems(2) Cons.prems(4) [of x s] show ?thesis by simp
  next
    case (Inr t)
    with Cons.prems(1) have "fold_res f xs t = Inl e" by simp
    moreover have "P t" using Cons.prems(2) Cons.prems(3) [of x s t] Inr by simp
    ultimately show ?thesis
    proof (rule Cons.IH)
      fix x' s' t' assume "x' \<in> set xs" "P s'" "f x' s' = Inr t'"
      then show "P t'" using Cons.prems(3) [of x' s' t'] by simp
    next
      fix x' s' assume "x' \<in> set xs" "P s'" "f x' s' = Inl e"
      then show Q using Cons.prems(4) [of x' s'] by simp
    qed
  qed
qed

lemma fold_res_returns:
  assumes "P ys s"
    and "\<And>zs x s. x \<in> set xs \<Longrightarrow> P zs s \<Longrightarrow> \<exists>t. f x s = Inr t \<and> P (zs @ [x]) t"
  shows "\<exists>t. fold_res f xs s = Inr t \<and> P (ys @ xs) t"
  using assms
proof (induction xs arbitrary: ys s)
  case Nil
  then show ?case by simp
next
  case (Cons x xs)
  obtain t where t: "f x s = Inr t" "P (ys @ [x]) t"
    using Cons.prems(1) Cons.prems(2) [of x ys s] by auto
  have "\<exists>u. fold_res f xs t = Inr u \<and> P ((ys @ [x]) @ xs) u"
    using t(2) by (rule Cons.IH) (use Cons.prems(2) in auto)
  with t(1) show ?case by simp
qed

lemma fold_res_append:
  "fold_res f (xs @ ys) s = bind_res (fold_res f xs s) (fold_res f ys)"
  by (induction xs arbitrary: s) (auto split: sum.splits)

lemma map_res_Inr_iff:
  "map_res f xs = Inr ys \<longleftrightarrow> list_all2 (\<lambda>x y. f x = Inr y) xs ys"
proof (induction xs arbitrary: ys)
  case Nil
  then show ?case by auto
next
  case (Cons x xs)
  show ?case
    by (cases "f x"; cases "map_res f xs") (auto simp: list_all2_Cons1 Cons.IH [symmetric])
qed

lemma map_res_returns:
  assumes "\<And>x. x \<in> set xs \<Longrightarrow> \<exists>y. f x = Inr y"
  shows "\<exists>ys. map_res f xs = Inr ys"
  using assms
proof (induction xs)
  case (Cons x xs)
  then obtain y ys where "f x = Inr y" "map_res f xs = Inr ys" by fastforce
  then show ?case by simp
qed simp

lemma map_res_length: "map_res f xs = Inr ys \<Longrightarrow> length ys = length xs"
  by (auto simp: map_res_Inr_iff list_all2_lengthD)

section \<open>Lists\<close>

text \<open>\<open>list.index\<close>; the code calls it only on members, and a missing element is \<open>length xs\<close>.\<close>

fun index_of :: "'a \<Rightarrow> 'a list \<Rightarrow> nat" where
  "index_of x [] = 0"
| "index_of x (y # ys) = (if x = y then 0 else Suc (index_of x ys))"

lemma index_of_less: "x \<in> set xs \<Longrightarrow> index_of x xs < length xs"
  by (induction xs) auto

lemma nth_index_of: "x \<in> set xs \<Longrightarrow> xs ! index_of x xs = x"
  by (induction xs) auto

lemma index_of_inj:
  "x \<in> set xs \<Longrightarrow> y \<in> set xs \<Longrightarrow> index_of x xs = index_of y xs \<Longrightarrow> x = y"
  using nth_index_of by metis

lemma index_of_append:
  "index_of x (xs @ ys) = (if x \<in> set xs then index_of x xs else length xs + index_of x ys)"
  by (induction xs) auto

text \<open>A collection of pairwise related elements, in any order: the shape of the mutual-exclusion
  invariants. Positions are compared, so that equal elements at two positions count.\<close>

definition pairwise_list :: "('a \<Rightarrow> 'a \<Rightarrow> bool) \<Rightarrow> 'a list \<Rightarrow> bool" where
  "pairwise_list r xs \<longleftrightarrow> sorted_wrt r xs"

lemma pairwise_list_Nil [simp]: "pairwise_list r []"
  by (simp add: pairwise_list_def)

lemma pairwise_list_Cons [simp]:
  "pairwise_list r (x # xs) \<longleftrightarrow> (\<forall>y\<in>set xs. r x y) \<and> pairwise_list r xs"
  by (simp add: pairwise_list_def)

lemma pairwise_list_append [simp]:
  "pairwise_list r (xs @ ys) \<longleftrightarrow>
     pairwise_list r xs \<and> pairwise_list r ys \<and> (\<forall>x\<in>set xs. \<forall>y\<in>set ys. r x y)"
  by (auto simp: pairwise_list_def sorted_wrt_append)

lemma pairwise_list_remove1: "pairwise_list r xs \<Longrightarrow> pairwise_list r (remove1 x xs)"
proof (induction xs)
  case (Cons y xs)
  have "set (remove1 x xs) \<subseteq> set xs" by (rule set_remove1_subset)
  with Cons show ?case by auto
qed simp

lemma length_remove1_mem: "x \<in> set xs \<Longrightarrow> length (remove1 x xs) < length xs"
  by (metis One_nat_def diff_less length_pos_if_in_set length_remove1 zero_less_one)

lemma find_SomeD: "List.find p xs = Some x \<Longrightarrow> p x \<and> x \<in> set xs"
  by (auto simp: find_Some_iff in_set_conv_nth)

lemma find_NoneD: "List.find p xs = None \<Longrightarrow> x \<in> set xs \<Longrightarrow> \<not> p x"
  by (auto simp: find_None_iff)

lemma list_all2_set1: "list_all2 r xs ys \<Longrightarrow> x \<in> set xs \<Longrightarrow> \<exists>y\<in>set ys. r x y"
  by (induction rule: list_all2_induct) auto

lemma list_all2_set2: "list_all2 r xs ys \<Longrightarrow> y \<in> set ys \<Longrightarrow> \<exists>x\<in>set xs. r x y"
  by (induction rule: list_all2_induct) auto

lemma map_res_returns_iff: "(\<exists>ys. map_res f xs = Inr ys) \<longleftrightarrow> (\<forall>x\<in>set xs. \<exists>y. f x = Inr y)"
proof
  assume "\<exists>ys. map_res f xs = Inr ys"
  then show "\<forall>x\<in>set xs. \<exists>y. f x = Inr y" by (auto simp: map_res_Inr_iff dest: list_all2_set1)
qed (simp add: map_res_returns)

section \<open>Dictionaries\<close>

lemma map_of_update [simp]:
  "map_of (AList.update k v al) = (map_of al)(k \<mapsto> v)"
  by (rule ext) (simp add: update_conv')

lemma keys_update_subset:
  "fst ` set (AList.update k v al) = insert k (fst ` set al)"
  by (induction al) auto

lemma update_fresh: "map_of al k = None \<Longrightarrow> AList.update k v al = al @ [(k, v)]"
  by (induction al) (auto split: if_splits)

text \<open>\<open>sorted(set(xs))\<close>: the distinct elements in order.\<close>

definition sorted_set :: "'a::linorder list \<Rightarrow> 'a list" where
  "sorted_set xs = sort (remdups xs)"

lemma set_sorted_set [simp]: "set (sorted_set xs) = set xs"
  by (simp add: sorted_set_def)

lemma distinct_sorted_set [simp]: "distinct (sorted_set xs)"
  by (simp add: sorted_set_def)

lemma sorted_sorted_set [simp]: "sorted (sorted_set xs)"
  by (simp add: sorted_set_def)

end
