(* ===== verification/Messages.thy ===== *)
theory Messages
  imports Prelude
begin

text \<open>
  The coordination message of \<open>mininet_ai/coordination/contracts.py\<close>: its kinds, the intent
  payload it carries, and the checks its constructor runs. A message is built with
  \<open>new_message\<close>, which runs the field constraints and then the two model validators in the
  order the class declares them and gives the first failure.

  The payload is kept as the \<open>CoordinationIntentPayload\<close> it is dumped from and read back as;
  the free-form metadata values are a type parameter.
\<close>

datatype message_kind = IntentKind | DelegationKind | ResultKind

record 'v intent_payload =
  pl_intent :: string
  pl_requested_agent_id :: agent_id
  pl_delegation_id :: "string option"
  pl_metadata :: "(string \<times> 'v) list"

record 'v message =
  message_id :: string
  msg_run_id :: run_id
  msg_kind :: message_kind
  source_agent_id :: "agent_id option"
  target_agent_id :: agent_id
  correlation_id :: string
  causation_id :: "string option"
  parent_invocation_id :: "string option"
  triggering_event_id :: "string option"
  created_at :: timestamp
  hop_count :: int
  traversed_message_ids :: "string list"
  msg_payload :: "'v intent_payload"

datatype message_error =
    FieldConstraint
  | SourceRequired
  | TargetsItsSource
  | TraversalNotUnique
  | TraversalHoldsItself
  | HopCountMismatch
  | CausationRequired

text \<open>\<open>min_length=1\<close> on a string and on an optional string, and \<open>ge=0\<close> on the hop count.\<close>

definition nonempty_opt :: "string option \<Rightarrow> bool" where
  "nonempty_opt x = (case x of None \<Rightarrow> True | Some s \<Rightarrow> s \<noteq> [])"

definition message_fields_ok :: "'v message \<Rightarrow> bool" where
  "message_fields_ok m =
     (message_id m \<noteq> [] \<and> msg_run_id m \<noteq> [] \<and> nonempty_opt (source_agent_id m)
      \<and> target_agent_id m \<noteq> [] \<and> correlation_id m \<noteq> [] \<and> nonempty_opt (causation_id m)
      \<and> nonempty_opt (parent_invocation_id m) \<and> nonempty_opt (triggering_event_id m)
      \<and> 0 \<le> hop_count m)"

definition payload_fields_ok :: "'v intent_payload \<Rightarrow> bool" where
  "payload_fields_ok p =
     (pl_intent p \<noteq> [] \<and> pl_requested_agent_id p \<noteq> [] \<and> nonempty_opt (pl_delegation_id p))"

definition identities_match_message_kind :: "'v message \<Rightarrow> message_error + 'v message" where
  "identities_match_message_kind m =
     (if msg_kind m \<noteq> IntentKind \<and> source_agent_id m = None then Inl SourceRequired
      else if source_agent_id m = Some (target_agent_id m) then Inl TargetsItsSource
      else Inr m)"

definition traversal_is_consistent :: "'v message \<Rightarrow> message_error + 'v message" where
  "traversal_is_consistent m =
     (if length (remdups (traversed_message_ids m)) \<noteq> length (traversed_message_ids m)
      then Inl TraversalNotUnique
      else if message_id m \<in> set (traversed_message_ids m) then Inl TraversalHoldsItself
      else if hop_count m \<noteq> int (length (traversed_message_ids m)) then Inl HopCountMismatch
      else if 0 < hop_count m \<and> causation_id m = None then Inl CausationRequired
      else Inr m)"

definition new_message :: "'v message \<Rightarrow> message_error + 'v message" where
  "new_message m =
     (if \<not> message_fields_ok m then Inl FieldConstraint
      else bind_res (identities_match_message_kind m) traversal_is_consistent)"

text \<open>What a constructed message satisfies, as one predicate.\<close>

definition message_wf :: "'v message \<Rightarrow> bool" where
  "message_wf m \<longleftrightarrow> message_fields_ok m
     \<and> (msg_kind m \<noteq> IntentKind \<longrightarrow> source_agent_id m \<noteq> None)
     \<and> source_agent_id m \<noteq> Some (target_agent_id m)
     \<and> distinct (traversed_message_ids m)
     \<and> message_id m \<notin> set (traversed_message_ids m)
     \<and> hop_count m = int (length (traversed_message_ids m))
     \<and> (0 < hop_count m \<longrightarrow> causation_id m \<noteq> None)"

lemma length_remdups_eq_iff: "length (remdups xs) = length xs \<longleftrightarrow> distinct xs"
  using length_remdups_card_conv [of xs] card_distinct [of xs] distinct_card [of xs] by metis

lemma new_message_Inr_iff: "new_message m = Inr m' \<longleftrightarrow> m' = m \<and> message_wf m"
  by (auto simp: new_message_def message_wf_def identities_match_message_kind_def
      traversal_is_consistent_def length_remdups_eq_iff bind_res_def split: if_splits)

end
