(* ===== verification/Bounded_Queue.thy ===== *)
theory Bounded_Queue
  imports Prelude
begin

text \<open>
  The interface that the coordination message channel and the runtime event bus share: a
  bounded queue that appends what it accepts, hands out its elements in order and stops
  accepting once it is closed. The locale's laws are proved for both classes in their own
  theories; what follows from them for a whole run of calls is proved once, here.
\<close>

text \<open>One call of a producer or a consumer, and what a run of calls accepted and delivered.\<close>

datatype 'a queue_op = Put 'a | Take | Shut

fun queue_call ::
  "('a \<Rightarrow> 'q \<Rightarrow> 'e + 'q) \<Rightarrow> ('q \<Rightarrow> 'a option \<times> 'q) \<Rightarrow> ('q \<Rightarrow> 'q) \<Rightarrow> 'a queue_op \<Rightarrow> 'q
   \<Rightarrow> 'a list \<times> 'a list \<times> 'q" where
  "queue_call put take_next close (Put x) q =
     (case put x q of Inl _ \<Rightarrow> ([], [], q) | Inr q' \<Rightarrow> ([x], [], q'))"
| "queue_call put take_next close Take q =
     (case take_next q of (None, q') \<Rightarrow> ([], [], q') | (Some x, q') \<Rightarrow> ([], [x], q'))"
| "queue_call put take_next close Shut q = ([], [], close q)"

fun queue_calls ::
  "('a \<Rightarrow> 'q \<Rightarrow> 'e + 'q) \<Rightarrow> ('q \<Rightarrow> 'a option \<times> 'q) \<Rightarrow> ('q \<Rightarrow> 'q) \<Rightarrow> 'a queue_op list \<Rightarrow> 'q
   \<Rightarrow> 'a list \<times> 'a list \<times> 'q" where
  "queue_calls put take_next close [] q = ([], [], q)"
| "queue_calls put take_next close (c # cs) q =
     (case queue_call put take_next close c q of (acc, del, q') \<Rightarrow>
        (case queue_calls put take_next close cs q' of (acc', del', q'') \<Rightarrow>
           (acc @ acc', del @ del', q'')))"

locale bounded_queue =
  fixes items :: "'q \<Rightarrow> 'a list"
    and limit :: "'q \<Rightarrow> nat"
    and shut :: "'q \<Rightarrow> bool"
    and put :: "'a \<Rightarrow> 'q \<Rightarrow> 'e + 'q"
    and take_next :: "'q \<Rightarrow> 'a option \<times> 'q"
    and close :: "'q \<Rightarrow> 'q"
  assumes put_items: "put x q = Inr q' \<Longrightarrow> items q' = items q @ [x]"
    and put_room: "put x q = Inr q' \<Longrightarrow> length (items q) < limit q"
    and put_open: "put x q = Inr q' \<Longrightarrow> \<not> shut q \<and> \<not> shut q'"
    and put_limit: "put x q = Inr q' \<Longrightarrow> limit q' = limit q"
    and take_Some: "take_next q = (Some x, q') \<Longrightarrow> items q = x # items q'"
    and take_None: "take_next q = (None, q') \<Longrightarrow> items q = [] \<and> q' = q"
    and take_limit: "take_next q = (r, q') \<Longrightarrow> limit q' = limit q"
    and take_shut: "take_next q = (r, q') \<Longrightarrow> shut q' = shut q"
    and close_items: "items (close q) = items q"
    and close_limit: "limit (close q) = limit q"
    and close_shut: "shut (close q)"
begin

abbreviation "call \<equiv> queue_call put take_next close"

abbreviation "calls \<equiv> queue_calls put take_next close"

lemma call_limit: "call c q = (acc, del, q') \<Longrightarrow> limit q' = limit q"
  by (cases c) (auto split: sum.splits prod.splits option.splits
      simp: put_limit take_limit close_limit)

lemma call_within:
  assumes "call c q = (acc, del, q')" and "length (items q) \<le> limit q"
  shows "length (items q') \<le> limit q'"
proof (cases c)
  case (Put x)
  show ?thesis
  proof (cases "put x q")
    case (Inr r)
    with Put assms put_items [OF Inr] put_room [OF Inr] put_limit [OF Inr] show ?thesis by auto
  qed (use assms Put in auto)
next
  case Take
  obtain r q2 where t: "take_next q = (r, q2)" by force
  with Take assms take_limit [OF t] show ?thesis
    by (cases r) (auto dest: take_Some take_None)
qed (use assms in \<open>auto simp: close_items close_limit\<close>)

lemma call_fifo: "call c q = (acc, del, q') \<Longrightarrow> del @ items q' = items q @ acc"
  by (cases c) (auto split: sum.splits prod.splits option.splits
      simp: close_items dest: put_items take_Some take_None)

lemma call_shut: "call c q = (acc, del, q') \<Longrightarrow> shut q \<Longrightarrow> shut q' \<and> acc = []"
  by (cases c) (auto split: sum.splits prod.splits option.splits
      simp: close_shut dest: put_open take_shut)

lemma calls_within:
  "calls cs q = (acc, del, q') \<Longrightarrow> length (items q) \<le> limit q
   \<Longrightarrow> length (items q') \<le> limit q' \<and> limit q' = limit q"
proof (induction cs arbitrary: q acc del)
  case (Cons c cs)
  obtain a1 d1 q1 where c: "call c q = (a1, d1, q1)" by (metis prod_cases3)
  with Cons.prems(1) obtain a2 d2 where "calls cs q1 = (a2, d2, q')"
    by (auto split: prod.splits)
  with Cons.IH [OF this] call_within [OF c Cons.prems(2)] call_limit [OF c] show ?case by simp
qed simp

lemma calls_fifo: "calls cs q = (acc, del, q') \<Longrightarrow> del @ items q' = items q @ acc"
proof (induction cs arbitrary: q acc del)
  case (Cons c cs)
  obtain a1 d1 q1 where c: "call c q = (a1, d1, q1)" by (metis prod_cases3)
  with Cons.prems(1) obtain a2 d2
    where r: "calls cs q1 = (a2, d2, q')" and "acc = a1 @ a2" "del = d1 @ d2"
    by (auto split: prod.splits)
  with Cons.IH [OF r] call_fifo [OF c] show ?case by (metis append_assoc)
qed simp

lemma calls_shut: "calls cs q = (acc, del, q') \<Longrightarrow> shut q \<Longrightarrow> shut q' \<and> acc = []"
proof (induction cs arbitrary: q acc del)
  case (Cons c cs)
  obtain a1 d1 q1 where c: "call c q = (a1, d1, q1)" by (metis prod_cases3)
  with Cons.prems(1) obtain a2 d2
    where r: "calls cs q1 = (a2, d2, q')" and "acc = a1 @ a2"
    by (auto split: prod.splits)
  with Cons.IH [OF r] call_shut [OF c Cons.prems(2)] show ?case by simp
qed simp

end

end
