(* ===== verification/Channel.thy ===== *)
theory Channel
  imports Messages Bounded_Queue
begin

text \<open>
  The in-process message channel of \<open>mininet_ai/coordination/channel.py\<close>:
  \<open>InMemoryMessageChannel\<close> with its capacity, queued messages, set of accepted ids, closed
  flag and optional sink. Each method body runs under the channel's condition lock, so it is
  one atomic function on the state.

  The sink is other code: \<open>sink_writes\<close> says for which messages its \<open>write\<close> returns (it
  raises for the others), and \<open>written\<close> records what it was given. \<open>receive\<close> waits in a
  loop; \<open>receive_loop\<close> takes the list of its passes, each with the monotonic clock reading
  of the pass and what the other threads do to the channel while it waits afterwards. A list
  that runs out stands for a call that is still blocked.
\<close>

section \<open>State and operations\<close>

record 'v channel =
  chan_capacity :: nat
  chan_messages :: "'v message list"
  accepted_ids :: "string set"
  chan_closed :: bool
  sink_writes :: "('v message \<Rightarrow> bool) option"
  written :: "'v message list"

datatype channel_error =
    ChannelClosed
  | ChannelDuplicate
  | ChannelFull
  | SinkRaised
  | CapacityNotPositive
  | TimeoutNegative

text \<open>The stable codes of \<open>MessageChannelError\<close>; the other failures carry none.\<close>

fun channel_code :: "channel_error \<Rightarrow> string option" where
  "channel_code ChannelClosed = Some ''coordination.message-channel.closed''"
| "channel_code ChannelDuplicate = Some ''coordination.message-channel.duplicate''"
| "channel_code ChannelFull = Some ''coordination.message-channel.full''"
| "channel_code _ = None"

definition new_channel ::
  "int \<Rightarrow> ('v message \<Rightarrow> bool) option \<Rightarrow> channel_error + 'v channel" where
  "new_channel n sink =
     (if n \<le> 0 then Inl CapacityNotPositive
      else Inr \<lparr>chan_capacity = nat n, chan_messages = [], accepted_ids = {},
                chan_closed = False, sink_writes = sink, written = []\<rparr>)"

definition chan_size :: "'v channel \<Rightarrow> nat" where
  "chan_size c = length (chan_messages c)"

definition send :: "'v message \<Rightarrow> 'v channel \<Rightarrow> channel_error + 'v channel" where
  "send m c =
     (if chan_closed c then Inl ChannelClosed
      else if message_id m \<in> accepted_ids c then Inl ChannelDuplicate
      else if chan_capacity c \<le> length (chan_messages c) then Inl ChannelFull
      else case sink_writes c of
             None \<Rightarrow> Inr (c\<lparr>accepted_ids := insert (message_id m) (accepted_ids c),
                            chan_messages := chan_messages c @ [m]\<rparr>)
           | Some w \<Rightarrow>
               if \<not> w m then Inl SinkRaised
               else Inr (c\<lparr>written := written c @ [m],
                           accepted_ids := insert (message_id m) (accepted_ids c),
                           chan_messages := chan_messages c @ [m]\<rparr>))"

definition eligible :: "string set option \<Rightarrow> 'v message \<Rightarrow> bool" where
  "eligible ids m = (case ids of None \<Rightarrow> True | Some s \<Rightarrow> message_id m \<in> s)"

fun receive_loop ::
  "string set option \<Rightarrow> timestamp option \<Rightarrow> (timestamp \<times> ('v channel \<Rightarrow> 'v channel)) list
   \<Rightarrow> 'v channel \<Rightarrow> ('v message option \<times> 'v channel) option" where
  "receive_loop ids deadline [] c = None"
| "receive_loop ids deadline ((now, others) # passes) c =
     (case List.find (eligible ids) (chan_messages c) of
        Some m \<Rightarrow> Some (Some m, c\<lparr>chan_messages := remove1 m (chan_messages c)\<rparr>)
      | None \<Rightarrow>
          if chan_closed c then Some (None, c)
          else (case deadline of
                  None \<Rightarrow> receive_loop ids deadline passes (others c)
                | Some d \<Rightarrow>
                    if d - now \<le> 0 then Some (None, c)
                    else receive_loop ids deadline passes (others c)))"

definition receive ::
  "timestamp option \<Rightarrow> string set option \<Rightarrow> timestamp
   \<Rightarrow> (timestamp \<times> ('v channel \<Rightarrow> 'v channel)) list \<Rightarrow> 'v channel
   \<Rightarrow> channel_error + ('v message option \<times> 'v channel) option" where
  "receive timeout ids start passes c =
     (if (case timeout of None \<Rightarrow> False | Some t \<Rightarrow> t < 0) then Inl TimeoutNegative
      else Inr (receive_loop ids (map_option (\<lambda>t. start + t) timeout) passes c))"

definition close_channel :: "'v channel \<Rightarrow> 'v channel" where
  "close_channel c = c\<lparr>chan_closed := True\<rparr>"

text \<open>
  \<open>receive(timeout_seconds=0, message_ids=ids)\<close>, the call the coordination runtime makes:
  the first pass decides, because no time is left on it.
\<close>

definition receive_now :: "string set option \<Rightarrow> 'v channel \<Rightarrow> 'v message option \<times> 'v channel" where
  "receive_now ids c =
     (case List.find (eligible ids) (chan_messages c) of
        Some m \<Rightarrow> (Some m, c\<lparr>chan_messages := remove1 m (chan_messages c)\<rparr>)
      | None \<Rightarrow> (None, c))"

lemma receive_zero_timeout:
  "start \<le> now \<Longrightarrow> receive (Some 0) ids start ((now, others) # passes) c = Inr (Some (receive_now ids c))"
  by (simp add: receive_def receive_now_def split: option.splits)

section \<open>Facts\<close>

lemma send_Inr:
  assumes "send m c = Inr c'"
  shows "\<not> chan_closed c" and "message_id m \<notin> accepted_ids c"
    and "length (chan_messages c) < chan_capacity c"
    and "chan_messages c' = chan_messages c @ [m]"
    and "accepted_ids c' = insert (message_id m) (accepted_ids c)"
    and "chan_closed c' = chan_closed c" and "chan_capacity c' = chan_capacity c"
    and "sink_writes c' = sink_writes c"
    and "written c' = (if sink_writes c = None then written c else written c @ [m])"
  using assms by (auto simp: send_def split: if_splits option.splits)

lemma receive_now_Some:
  "receive_now ids c = (Some m, c') \<Longrightarrow>
     m \<in> set (chan_messages c) \<and> eligible ids m
     \<and> c' = c\<lparr>chan_messages := remove1 m (chan_messages c)\<rparr>"
  by (auto simp: receive_now_def split: option.splits dest: find_SomeD)

lemma receive_now_None:
  "receive_now ids c = (None, c') \<Longrightarrow>
     c' = c \<and> (\<forall>m\<in>set (chan_messages c). \<not> eligible ids m)"
  by (auto simp: receive_now_def find_None_iff split: option.splits)

lemma receive_now_any: "receive_now None c =
    (case chan_messages c of [] \<Rightarrow> (None, c) | m # ms \<Rightarrow> (Some m, c\<lparr>chan_messages := ms\<rparr>))"
  by (cases "chan_messages c") (auto simp: receive_now_def eligible_def)

text \<open>
  The channel's representation invariant: every queued message was accepted, no id is queued
  twice, and the queue is within capacity.
\<close>

definition channel_inv :: "'v channel \<Rightarrow> bool" where
  "channel_inv c \<longleftrightarrow>
     distinct (map message_id (chan_messages c))
     \<and> message_id ` set (chan_messages c) \<subseteq> accepted_ids c
     \<and> length (chan_messages c) \<le> chan_capacity c"

lemma distinct_map_remove1: "distinct (map f xs) \<Longrightarrow> distinct (map f (remove1 x xs))"
  by (induction xs) (auto dest: in_set_remove1 [THEN iffD1] notin_set_remove1 set_mp [OF set_remove1_subset])

lemma new_channel_inv [keeps]: "new_channel n s = Inr c \<Longrightarrow> channel_inv c"
  by (auto simp: new_channel_def channel_inv_def split: if_splits)

lemma send_inv [keeps]: "send m c = Inr c' \<Longrightarrow> channel_inv c \<Longrightarrow> channel_inv c'"
  by (auto simp: channel_inv_def send_Inr dest: send_Inr)

lemma remove_inv:
  "channel_inv c \<Longrightarrow> channel_inv (c\<lparr>chan_messages := remove1 m (chan_messages c)\<rparr>)"
  using set_remove1_subset [of m "chan_messages c"]
  by (auto simp: channel_inv_def distinct_map_remove1 length_remove1)

lemma receive_now_inv [keeps]: "receive_now ids c = (r, c') \<Longrightarrow> channel_inv c \<Longrightarrow> channel_inv c'"
  by (cases r) (auto dest: receive_now_Some receive_now_None simp: remove_inv)

lemma close_inv [keeps]: "channel_inv c \<Longrightarrow> channel_inv (close_channel c)"
  by (simp add: channel_inv_def close_channel_def)

text \<open>A blocking receive keeps the invariant as long as the other threads do.\<close>

lemma receive_loop_inv:
  "receive_loop ids d passes c = Some (r, c') \<Longrightarrow> channel_inv c
   \<Longrightarrow> (\<And>now f x. (now, f) \<in> set passes \<Longrightarrow> channel_inv x \<Longrightarrow> channel_inv (f x))
   \<Longrightarrow> channel_inv c'"
proof (induction ids d passes c rule: receive_loop.induct)
  case (2 ids d now f passes c)
  show ?case
  proof (cases "List.find (eligible ids) (chan_messages c)")
    case (Some m)
    with 2 show ?thesis by (auto simp: remove_inv)
  next
    case None
    with 2 show ?thesis by (auto split: if_splits option.splits)
  qed
qed simp

section \<open>The bounded-queue contract\<close>

interpretation mc: bounded_queue chan_messages chan_capacity chan_closed send "receive_now None" close_channel
  by unfold_locales
    (auto simp: send_Inr receive_now_any close_channel_def dest: send_Inr split: list.splits)

section \<open>Delivery over a run\<close>

text \<open>The calls of all producers and consumers in the order they take the lock.\<close>

datatype 'v channel_op = Sending "'v message" | Receiving "string set option" | Closing

fun channel_step :: "'v channel_op \<Rightarrow> 'v channel \<Rightarrow> 'v message list \<times> 'v channel" where
  "channel_step (Sending m) c = (case send m c of Inl _ \<Rightarrow> ([], c) | Inr c' \<Rightarrow> ([], c'))"
| "channel_step (Receiving ids) c =
     (case receive_now ids c of (None, c') \<Rightarrow> ([], c') | (Some m, c') \<Rightarrow> ([m], c'))"
| "channel_step Closing c = ([], close_channel c)"

fun channel_run :: "'v channel_op list \<Rightarrow> 'v channel \<Rightarrow> 'v message list \<times> 'v channel" where
  "channel_run [] c = ([], c)"
| "channel_run (x # xs) c =
     (case channel_step x c of (ms, c') \<Rightarrow>
        (case channel_run xs c' of (ms', c'') \<Rightarrow> (ms @ ms', c'')))"

text \<open>
  What is delivered so far, in front of what is queued, has no id twice and only accepted ids.
\<close>

definition delivery_inv :: "'v message list \<Rightarrow> 'v channel \<Rightarrow> bool" where
  "delivery_inv del c \<longleftrightarrow>
     distinct (map message_id (del @ chan_messages c))
     \<and> message_id ` set (del @ chan_messages c) \<subseteq> accepted_ids c"

lemma receive_delivery_inv:
  assumes "receive_now ids c = (Some m, c')" and "delivery_inv del c"
  shows "delivery_inv (del @ [m]) c'"
proof -
  from receive_now_Some [OF assms(1)] have m: "m \<in> set (chan_messages c)"
    and c': "c' = c\<lparr>chan_messages := remove1 m (chan_messages c)\<rparr>" by auto
  from m obtain us vs where split: "chan_messages c = us @ m # vs" "m \<notin> set us"
    by (meson split_list_first)
  then have "remove1 m (chan_messages c) = us @ vs" by (simp add: remove1_append)
  with assms(2) split c' show ?thesis by (auto simp: delivery_inv_def)
qed

lemma step_delivery_inv:
  assumes "channel_step x c = (ms, c')" and "delivery_inv del c"
  shows "delivery_inv (del @ ms) c'"
proof (cases x)
  case (Sending m)
  with assms show ?thesis
    by (cases "send m c") (auto simp: delivery_inv_def send_Inr dest: send_Inr)
next
  case (Receiving ids)
  obtain r c2 where r: "receive_now ids c = (r, c2)" by force
  with Receiving assms show ?thesis
    by (cases r) (auto dest: receive_delivery_inv receive_now_None)
next
  case Closing
  with assms(1) have "ms = []" "c' = close_channel c" by simp_all
  with assms(2) show ?thesis by (simp add: delivery_inv_def close_channel_def)
qed

lemma run_delivery_inv:
  "channel_run xs c = (ms, c') \<Longrightarrow> delivery_inv del c \<Longrightarrow> delivery_inv (del @ ms) c'"
proof (induction xs arbitrary: c ms del)
  case (Cons x xs)
  obtain m1 c1 where s: "channel_step x c = (m1, c1)" by force
  with Cons.prems(1) obtain m2 where r: "channel_run xs c1 = (m2, c')" and "ms = m1 @ m2"
    by (auto split: prod.splits)
  with Cons.IH [OF r step_delivery_inv [OF s Cons.prems(2)]] show ?case by simp
qed simp

section \<open>Properties\<close>

text \<open>At-most-once delivery: over any run of sends, receives (by any set of ids) and closes
  on a new channel, no message id is delivered twice, every delivered id was accepted, and
  no delivered message is still queued.\<close>

lemma channel_at_most_once:
  assumes "new_channel n sink = Inr c" and "channel_run xs c = (delivered, c')"
  shows "distinct (map message_id delivered)
     \<and> message_id ` set delivered \<subseteq> accepted_ids c'
     \<and> message_id ` set delivered \<inter> message_id ` set (chan_messages c') = {}"
proof -
  have "delivery_inv [] c" using assms(1) by (auto simp: new_channel_def delivery_inv_def split: if_splits)
  from run_delivery_inv [OF assms(2) this] show ?thesis by (auto simp: delivery_inv_def)
qed

definition sample_message :: "unit message" where
  "sample_message =
     \<lparr>message_id = ''m1'', msg_run_id = ''r'', msg_kind = IntentKind, source_agent_id = None,
      target_agent_id = ''a'', correlation_id = ''c'', causation_id = None,
      parent_invocation_id = None, triggering_event_id = None, created_at = 0, hop_count = 0,
      traversed_message_ids = [],
      msg_payload = \<lparr>pl_intent = ''go'', pl_requested_agent_id = ''a'', pl_delegation_id = None,
                     pl_metadata = []\<rparr>\<rparr>"

text \<open>The channel delivers what it accepted, first in first out, never holds more than its
  capacity, and accepts nothing once it is closed.\<close>

lemma channel_fifo_bounded:
  assumes "queue_calls send (receive_now None) close_channel cs c = (accepted, delivered, c')"
    and "length (chan_messages c) \<le> chan_capacity c"
  shows "delivered @ chan_messages c' = chan_messages c @ accepted
     \<and> length (chan_messages c') \<le> chan_capacity c
     \<and> (chan_closed c \<longrightarrow> accepted = [])"
  using mc.calls_fifo [OF assms(1)] mc.calls_within [OF assms] mc.calls_shut [OF assms(1)] by simp

end
