(* ===== verification/Sdk.thy ===== *)
theory Sdk
  imports Messages Complex_Main
begin

text \<open>
  The contracts that agents, capabilities and the runtime exchange
  (\<open>mininet_ai/sdk/contracts.py\<close>, \<open>mininet_ai/substrates/runtime.py\<close>,
  \<open>mininet_ai/outcomes.py\<close>), each with the checks its constructor runs. A check is a
  function \<open>new_...\<close> that gives back the value or the first failure.

  JSON values are a datatype; a finite float is the rational number it stands for, and the
  message texts of issues are left out: an issue is its stable code and its target.
\<close>

section \<open>JSON values\<close>

datatype json =
    JNull
  | JBool bool
  | JInt int
  | JFloat rat
  | JStr string
  | JArr "json list"
  | JObj "(string \<times> json) list"

type_synonym json_object = "(string \<times> json) list"

section \<open>Outcomes and issues\<close>

datatype action_status = ActionSucceeded | ActionRejected | ActionFailed

datatype invocation_status = InvocationSucceeded | InvocationRejected | InvocationFailed

datatype mutation_effects = Unchanged | Changed | Partial | Unknown

datatype operation_outcome =
  OutcomeSucceeded | OutcomeFailed | OutcomeRejected | OutcomeAccepted | OutcomeUnknown

datatype run_state = Deploying | Running | Stopping | Stopped | RunFailed

record issue =
  issue_code :: string
  issue_target :: "string option"

record postcondition_result =
  pr_observation :: string
  pr_path :: string
  pr_operator :: string
  pr_expected :: json
  pr_actual :: json
  pr_satisfied :: bool
  pr_attempts :: nat
  pr_completed_at :: timestamp
  pr_issue :: "issue option"

record rollback_result =
  rr_status :: action_status
  rr_completed_at :: timestamp
  rr_changed :: bool
  rr_effects :: mutation_effects
  rr_output :: json_object
  rr_issue :: "issue option"

record action_result =
  ar_run_id :: run_id
  ar_request_id :: string
  ar_status :: action_status
  ar_completed_at :: timestamp
  ar_changed :: bool
  ar_effects :: mutation_effects
  ar_output :: json_object
  ar_postconditions :: "postcondition_result list"
  ar_rollback :: "rollback_result option"
  ar_effect_latency :: "rat option"
  ar_issue :: "issue option"

datatype contract_error =
    FieldInvalid
  | SuccessWithIssue
  | FailureWithoutIssue
  | CompletedBeforeStarted
  | SuccessWithoutResponse
  | ResponseWithoutOutcome
  | ProposalIdsNotUnique
  | DelegationIdsNotUnique
  | StoppedWithoutTime
  | TimeWithoutStop
  | VerifiedWithoutEvidence
  | IncompleteWithoutResources
  | CleanupMismatch
  | StoppedWithoutProof
  | SourceAgentMissing
  | DestinationsNotUnique
  | TotalBelowParts
  | AudioTotalBelowParts
  | EmptyModelResponse
  | ProviderErrorIncomplete
  | ProviderErrorSuccessful
  | SetWithoutValue
  | DeleteWithValue
  | CustomLayerMissing
  | CustomLayerUnexpected
  | TargetsNotUnique
  | CapabilitiesNotUnique

text \<open>\<open>issue_matches_status\<close>, which \<open>ActionResult\<close> and \<open>RollbackResult\<close> share.\<close>

definition issue_matches_status :: "action_status \<Rightarrow> issue option \<Rightarrow> contract_error + unit" where
  "issue_matches_status status i =
     (if status = ActionSucceeded \<and> i \<noteq> None then Inl SuccessWithIssue
      else if status \<noteq> ActionSucceeded \<and> i = None then Inl FailureWithoutIssue
      else Inr ())"

definition new_action_result :: "action_result \<Rightarrow> contract_error + action_result" where
  "new_action_result r =
     (if ar_run_id r = [] \<or> ar_request_id r = []
         \<or> (case ar_effect_latency r of None \<Rightarrow> False | Some t \<Rightarrow> t < 0)
      then Inl FieldInvalid
      else bind_res (issue_matches_status (ar_status r) (ar_issue r)) (\<lambda>_. Inr r))"

definition action_result_wf :: "action_result \<Rightarrow> bool" where
  "action_result_wf r \<longleftrightarrow> (ar_status r = ActionSucceeded \<longleftrightarrow> ar_issue r = None)"

lemma issue_matches_status_Inr:
  "issue_matches_status st i = Inr u \<longleftrightarrow> (st = ActionSucceeded \<longleftrightarrow> i = None)"
  by (auto simp: issue_matches_status_def)

definition new_rollback_result :: "rollback_result \<Rightarrow> contract_error + rollback_result" where
  "new_rollback_result r = bind_res (issue_matches_status (rr_status r) (rr_issue r)) (\<lambda>_. Inr r)"

definition new_postcondition_result ::
  "postcondition_result \<Rightarrow> contract_error + postcondition_result" where
  "new_postcondition_result r =
     (if pr_observation r = [] \<or> pr_path r = [] \<or> pr_operator r = [] \<or> pr_attempts r < 1
      then Inl FieldInvalid else Inr r)"

lemma new_action_result_wf: "new_action_result r = Inr r' \<Longrightarrow> r' = r \<and> action_result_wf r"
  by (auto simp: new_action_result_def action_result_wf_def bind_res_Inr_iff
      issue_matches_status_Inr split: if_splits)

section \<open>Runs, cleanup and teardown\<close>

datatype cleanup_status = Verified | Incomplete | CleanupUnknown

record cleanup =
  cl_status :: cleanup_status
  cl_remaining :: "string list"
  cl_unknown :: "string list"
  cl_evidence :: "string list"
  cl_gaps :: "string list"

definition new_cleanup :: "cleanup \<Rightarrow> contract_error + cleanup" where
  "new_cleanup c =
     (if cl_status c = Verified
         \<and> (cl_evidence c = [] \<or> cl_remaining c \<noteq> [] \<or> cl_unknown c \<noteq> [] \<or> cl_gaps c \<noteq> [])
      then Inl VerifiedWithoutEvidence
      else if cl_status c = Incomplete \<and> cl_remaining c = [] then Inl IncompleteWithoutResources
      else Inr c)"

definition cleanup_verified :: "cleanup \<Rightarrow> bool" where
  "cleanup_verified c = (cl_status c = Verified)"

text \<open>The digest pattern \<open>^sha256:[0-9a-f]{64}$\<close>.\<close>

definition plan_digest_ok :: "string \<Rightarrow> bool" where
  "plan_digest_ok d =
     (take 7 d = ''sha256:'' \<and> length d = 71
      \<and> list_all (\<lambda>c. CHR ''0'' \<le> c \<and> c \<le> CHR ''9'' \<or> CHR ''a'' \<le> c \<and> c \<le> CHR ''f'') (drop 7 d))"

record run_info =
  ri_id :: run_id
  ri_substrate :: string
  ri_plan_digest :: string
  ri_state :: run_state
  ri_started_at :: timestamp
  ri_stopped_at :: "timestamp option"
  ri_issue :: "issue option"
  ri_operation :: operation_outcome
  ri_effects :: mutation_effects
  ri_cleanup :: cleanup

definition new_run_info :: "run_info \<Rightarrow> contract_error + run_info" where
  "new_run_info r =
     (if ri_id r = [] \<or> ri_substrate r = [] \<or> \<not> plan_digest_ok (ri_plan_digest r) then Inl FieldInvalid
      else if ri_state r = Stopped \<and> ri_stopped_at r = None then Inl StoppedWithoutTime
      else if ri_state r \<noteq> Stopped \<and> ri_stopped_at r \<noteq> None then Inl TimeWithoutStop
      else if ri_state r = RunFailed \<and> ri_issue r = None then Inl FailureWithoutIssue
      else Inr r)"

record teardown_result =
  td_run :: run_info
  td_operation :: operation_outcome
  td_effects :: mutation_effects
  td_cleanup :: cleanup
  td_released :: "string list"
  td_already_stopped :: bool

definition teardown_succeeded :: "teardown_result \<Rightarrow> bool" where
  "teardown_succeeded t =
     (td_operation t = OutcomeSucceeded \<and> ri_state (td_run t) = Stopped
      \<and> cleanup_verified (td_cleanup t))"

definition new_teardown_result :: "teardown_result \<Rightarrow> contract_error + teardown_result" where
  "new_teardown_result t =
     (if td_cleanup t \<noteq> ri_cleanup (td_run t) then Inl CleanupMismatch
      else if td_already_stopped t \<and> \<not> teardown_succeeded t then Inl StoppedWithoutProof
      else Inr t)"

section \<open>Models and their usage\<close>

record token_usage =
  tu_input :: int
  tu_output :: int
  tu_total :: int

definition new_token_usage :: "token_usage \<Rightarrow> contract_error + token_usage" where
  "new_token_usage u =
     (if tu_input u < 0 \<or> tu_output u < 0 \<or> tu_total u < 0 then Inl FieldInvalid
      else if tu_total u < tu_input u + tu_output u then Inl TotalBelowParts
      else Inr u)"

record token_metrics =
  tm_input :: int
  tm_output :: int
  tm_total :: int
  tm_audio_input :: int
  tm_audio_output :: int
  tm_audio_total :: int
  tm_cache_read :: int
  tm_cache_write :: int
  tm_reasoning :: int
  tm_cost :: "rat option"

definition new_token_metrics :: "token_metrics \<Rightarrow> contract_error + token_metrics" where
  "new_token_metrics t =
     (if \<not> list_all (\<lambda>n. 0 \<le> n)
           [tm_input t, tm_output t, tm_total t, tm_audio_input t, tm_audio_output t,
            tm_audio_total t, tm_cache_read t, tm_cache_write t, tm_reasoning t]
         \<or> (case tm_cost t of None \<Rightarrow> False | Some c \<Rightarrow> c < 0)
      then Inl FieldInvalid
      else if tm_total t < tm_input t + tm_output t then Inl TotalBelowParts
      else if tm_audio_total t < tm_audio_input t + tm_audio_output t then Inl AudioTotalBelowParts
      else Inr t)"

datatype model_role = SystemRole | UserRole | AssistantRole | ToolRole

record model_message =
  mm_role :: model_role
  mm_content :: string
  mm_name :: "string option"

record model_request =
  mr_provider :: string
  mr_model :: string
  mr_messages :: "model_message list"
  mr_parameters :: json_object
  mr_schema :: "json_object option"
  mr_timeout :: rat

definition new_model_request :: "model_request \<Rightarrow> contract_error + model_request" where
  "new_model_request r =
     (if mr_provider r = [] \<or> mr_model r = [] \<or> mr_messages r = [] \<or> mr_timeout r \<le> 0
      then Inl FieldInvalid else Inr r)"

record model_response =
  mo_content :: "string option"
  mo_structured :: "json option"
  mo_usage :: token_usage
  mo_request_id :: "string option"
  mo_finish_reason :: "string option"

definition new_model_response :: "model_response \<Rightarrow> contract_error + model_response" where
  "new_model_response r =
     (if mo_content r = None \<and> mo_structured r = None then Inl EmptyModelResponse else Inr r)"

text \<open>
  \<open>ModelProviderError\<close> and \<open>AgentProviderError\<close> carry a code; \<open>CapabilityProviderError\<close> a
  code and a status. The message is kept here because the constructors check it.
\<close>

definition new_provider_error :: "string \<Rightarrow> string \<Rightarrow> contract_error + string" where
  "new_provider_error msg code =
     (if msg = [] \<or> code = [] then Inl ProviderErrorIncomplete else Inr code)"

record capability_error =
  cerr_code :: string
  cerr_status :: action_status

definition new_capability_error ::
  "string \<Rightarrow> string \<Rightarrow> action_status \<Rightarrow> contract_error + capability_error" where
  "new_capability_error msg code status =
     (if msg = [] \<or> code = [] then Inl ProviderErrorIncomplete
      else if status = ActionSucceeded then Inl ProviderErrorSuccessful
      else Inr \<lparr>cerr_code = code, cerr_status = status\<rparr>)"

record capability_outcome =
  co_changed :: bool
  co_output :: json_object

section \<open>Proposals and shared-state operations\<close>

record action_proposal =
  prop_id :: string
  prop_capability :: string
  prop_target :: string
  prop_arguments :: json_object
  prop_reason :: "string option"
  prop_timeout :: rat

definition new_action_proposal :: "action_proposal \<Rightarrow> contract_error + action_proposal" where
  "new_action_proposal p =
     (if prop_id p = [] \<or> prop_capability p = [] \<or> prop_target p = []
         \<or> \<not> nonempty_opt (prop_reason p) \<or> prop_timeout p \<le> 0
      then Inl FieldInvalid else Inr p)"

record delegation_proposal =
  del_id :: string
  del_target_agent_id :: agent_id
  del_intent :: string
  del_metadata :: json_object

definition new_delegation_proposal :: "delegation_proposal \<Rightarrow> contract_error + delegation_proposal" where
  "new_delegation_proposal d =
     (if del_id d = [] \<or> del_target_agent_id d = [] \<or> del_intent d = [] then Inl FieldInvalid
      else Inr d)"

datatype state_scope = RunScope | DeploymentScope

datatype state_operation = SetOp | DeleteOp

record state_read =
  sr_scope :: state_scope
  sr_key :: string

text \<open>
  \<open>su_supplied\<close> is whether \<open>value\<close> is among the fields the constructor was given; a
  \<open>None\<close> value is the JSON null.
\<close>

record state_update =
  su_scope :: state_scope
  su_operation :: state_operation
  su_key :: string
  su_value :: json
  su_supplied :: bool
  su_expected :: "int option"

record state_change =
  sc_scope :: state_scope
  sc_operation :: state_operation
  sc_key :: string
  sc_version :: int
  sc_value :: json

record state_entry =
  se_value :: json
  se_version :: int
  se_updated_by :: string
  se_updated_at :: timestamp

definition new_state_entry :: "state_entry \<Rightarrow> contract_error + state_entry" where
  "new_state_entry e =
     (if se_version e < 1 \<or> se_updated_by e = [] then Inl FieldInvalid else Inr e)"

record state_snapshot =
  snap_scopes :: "state_scope list"
  snap_run :: "(string \<times> state_entry) list"
  snap_deployment :: "(string \<times> state_entry) list"

text \<open>The key pattern \<open>^[A-Za-z0-9][A-Za-z0-9._:/-]*$\<close> and the length bounds.\<close>

definition key_head :: "char \<Rightarrow> bool" where
  "key_head c =
     ((CHR ''a'' \<le> c \<and> c \<le> CHR ''z'') \<or> (CHR ''A'' \<le> c \<and> c \<le> CHR ''Z'')
      \<or> (CHR ''0'' \<le> c \<and> c \<le> CHR ''9''))"

definition state_key_ok :: "string \<Rightarrow> bool" where
  "state_key_ok k =
     (case k of
        [] \<Rightarrow> False
      | c # cs \<Rightarrow> length k \<le> 256 \<and> key_head c
          \<and> list_all (\<lambda>x. key_head x \<or> x \<in> set ''._:/-'') cs)"

definition new_state_read :: "state_read \<Rightarrow> contract_error + state_read" where
  "new_state_read r = (if \<not> state_key_ok (sr_key r) then Inl FieldInvalid else Inr r)"

definition new_state_change :: "state_change \<Rightarrow> contract_error + state_change" where
  "new_state_change c =
     (if \<not> state_key_ok (sc_key c) \<or> sc_version c < 1 then Inl FieldInvalid else Inr c)"

definition new_state_update :: "state_update \<Rightarrow> contract_error + state_update" where
  "new_state_update u =
     (if \<not> state_key_ok (su_key u)
         \<or> (case su_expected u of None \<Rightarrow> False | Some v \<Rightarrow> v < 0)
      then Inl FieldInvalid
      else if su_operation u = SetOp \<and> \<not> su_supplied u then Inl SetWithoutValue
      else if su_operation u = DeleteOp \<and> su_supplied u then Inl DeleteWithValue
      else Inr u)"

section \<open>Responses, contexts and invocation results\<close>

record agent_response =
  resp_reads :: "state_read list"
  resp_message :: "string option"
  resp_proposals :: "action_proposal list"
  resp_delegations :: "delegation_proposal list"
  resp_updates :: "state_update list"
  resp_metadata :: json_object

definition new_agent_response :: "agent_response \<Rightarrow> contract_error + agent_response" where
  "new_agent_response r =
     (if resp_message r = Some [] then Inl FieldInvalid
      else if resp_message r = None \<and> resp_proposals r = [] \<and> resp_delegations r = []
              \<and> resp_updates r = []
      then Inl ResponseWithoutOutcome
      else if \<not> distinct (map prop_id (resp_proposals r)) then Inl ProposalIdsNotUnique
      else if \<not> distinct (map del_id (resp_delegations r)) then Inl DelegationIdsNotUnique
      else Inr r)"

lemma new_agent_response_distinct:
  "new_agent_response r = Inr r' \<Longrightarrow>
     r' = r \<and> distinct (map prop_id (resp_proposals r)) \<and> distinct (map del_id (resp_delegations r))"
  by (auto simp: new_agent_response_def split: if_splits)

datatype attachment_layer =
    GlobalLayer | ManagementLayer | ControlLayer | DataLayer | HostLayer | ObserverLayer | CustomLayer

fun layer_value :: "attachment_layer \<Rightarrow> string" where
  "layer_value GlobalLayer = ''global''"
| "layer_value ManagementLayer = ''management''"
| "layer_value ControlLayer = ''control''"
| "layer_value DataLayer = ''data''"
| "layer_value HostLayer = ''host''"
| "layer_value ObserverLayer = ''observer''"
| "layer_value CustomLayer = ''custom''"

datatype resource_kind =
    NetworkKind | RegionKind | ControllerKind | ControllerDomainKind | SwitchKind | HostKind
  | PortKind | LinkKind | FlowKind

fun kind_value :: "resource_kind \<Rightarrow> string" where
  "kind_value NetworkKind = ''network''"
| "kind_value RegionKind = ''region''"
| "kind_value ControllerKind = ''controller''"
| "kind_value ControllerDomainKind = ''controller-domain''"
| "kind_value SwitchKind = ''switch''"
| "kind_value HostKind = ''host''"
| "kind_value PortKind = ''port''"
| "kind_value LinkKind = ''link''"
| "kind_value FlowKind = ''flow''"

datatype context_kind = IntentContext | DelegationContext

record coordination_context =
  cc_message_id :: string
  cc_correlation_id :: string
  cc_causation_id :: "string option"
  cc_kind :: context_kind
  cc_source :: "agent_id option"
  cc_requested :: agent_id
  cc_destinations :: "agent_id list"
  cc_hop_count :: int
  cc_metadata :: json_object

definition new_coordination_context ::
  "coordination_context \<Rightarrow> contract_error + coordination_context" where
  "new_coordination_context c =
     (if cc_message_id c = [] \<or> cc_correlation_id c = [] \<or> \<not> nonempty_opt (cc_causation_id c)
         \<or> \<not> nonempty_opt (cc_source c) \<or> cc_requested c = [] \<or> cc_hop_count c < 0
      then Inl FieldInvalid
      else if cc_kind c = DelegationContext \<and> cc_source c = None then Inl SourceAgentMissing
      else if \<not> distinct (cc_destinations c) then Inl DestinationsNotUnique
      else Inr c)"

record agent_context =
  ctx_invocation_id :: string
  ctx_run_id :: run_id
  ctx_agent_id :: agent_id
  ctx_deployment :: string
  ctx_layer :: attachment_layer
  ctx_custom_layer :: "string option"
  ctx_target_kind :: resource_kind
  ctx_targets :: "string list"
  ctx_capabilities :: "string list"
  ctx_observations :: json_object
  ctx_shared_state :: state_snapshot
  ctx_coordination :: "coordination_context option"
  ctx_intent :: string
  ctx_priority :: int
  ctx_invoked_at :: timestamp

definition new_agent_context :: "agent_context \<Rightarrow> contract_error + agent_context" where
  "new_agent_context c =
     (if ctx_invocation_id c = [] \<or> ctx_run_id c = [] \<or> ctx_agent_id c = []
         \<or> ctx_deployment c = [] \<or> ctx_targets c = [] \<or> ctx_intent c = []
      then Inl FieldInvalid
      else if ctx_layer c = CustomLayer \<and> (ctx_custom_layer c = None \<or> ctx_custom_layer c = Some [])
      then Inl CustomLayerMissing
      else if ctx_layer c \<noteq> CustomLayer \<and> ctx_custom_layer c \<noteq> None then Inl CustomLayerUnexpected
      else if \<not> distinct (ctx_targets c) then Inl TargetsNotUnique
      else if \<not> distinct (ctx_capabilities c) then Inl CapabilitiesNotUnique
      else Inr c)"

record timings =
  tim_event_detection :: "rat option"
  tim_context_build :: rat
  tim_model_queueing :: "rat option"
  tim_reasoning :: rat
  tim_action_execution :: rat
  tim_action_effect :: "rat option"
  tim_total :: rat

definition new_timings :: "timings \<Rightarrow> contract_error + timings" where
  "new_timings t =
     (if list_ex (\<lambda>x. case x of None \<Rightarrow> False | Some v \<Rightarrow> v < 0)
           [tim_event_detection t, Some (tim_context_build t), tim_model_queueing t,
            Some (tim_reasoning t), Some (tim_action_execution t), tim_action_effect t,
            Some (tim_total t)]
      then Inl FieldInvalid else Inr t)"

record invocation_result =
  inv_invocation_id :: string
  inv_run_id :: run_id
  inv_agent_id :: agent_id
  inv_status :: invocation_status
  inv_started_at :: timestamp
  inv_completed_at :: timestamp
  inv_response :: "agent_response option"
  inv_action_results :: "action_result list"
  inv_state_changes :: "state_change list"
  inv_timings :: timings
  inv_issue :: "issue option"

definition new_invocation_result :: "invocation_result \<Rightarrow> contract_error + invocation_result" where
  "new_invocation_result r =
     (if inv_invocation_id r = [] \<or> inv_run_id r = [] \<or> inv_agent_id r = [] then Inl FieldInvalid
      else if inv_completed_at r < inv_started_at r then Inl CompletedBeforeStarted
      else if inv_status r = InvocationSucceeded
      then (if inv_issue r \<noteq> None then Inl SuccessWithIssue
            else if inv_response r = None then Inl SuccessWithoutResponse
            else Inr r)
      else if inv_issue r = None then Inl FailureWithoutIssue
      else Inr r)"

end
