(* ===== verification/Specification.thy ===== *)
theory Specification
  imports Sdk
begin

text \<open>
  The part of the specification schema (\<open>mininet_ai/specification/models.py\<close>) that the
  runtime reads back from a deployment plan, and the duration strings of
  \<open>mininet_ai/durations.py\<close>: execution, restart, triggers, detectors, observation policies,
  postconditions, capabilities and blueprints. Each record has a function \<open>new_...\<close> with the
  checks of its constructor, in the order the fields and validators run.
\<close>

section \<open>Durations\<close>

definition ascii_digit :: "char \<Rightarrow> bool" where
  "ascii_digit c = (CHR ''0'' \<le> c \<and> c \<le> CHR ''9'')"

fun digits_value :: "string \<Rightarrow> nat \<Rightarrow> nat" where
  "digits_value [] n = n"
| "digits_value (c # cs) n = digits_value cs (10 * n + (of_char c - 48))"

text \<open>The pattern \<open>([0-9]+(?:\\.[0-9]+)?)(us|ms|s)\<close> over the whole string.\<close>

definition unit_factor :: "string \<Rightarrow> rat option" where
  "unit_factor u =
     (if u = ''us'' then Some (1 / 1000000) else if u = ''ms'' then Some (1 / 1000)
      else if u = ''s'' then Some 1 else None)"

definition duration_seconds :: "string \<Rightarrow> rat option" where
  "duration_seconds v =
     (let whole = takeWhile ascii_digit v; rest = dropWhile ascii_digit v in
      if whole = [] then None
      else case rest of
        [] \<Rightarrow> None
      | c # cs \<Rightarrow>
          if c = CHR ''.'' then
            (let frac = takeWhile ascii_digit cs in
             if frac = [] then None
             else map_option
                    (\<lambda>f. (of_nat (digits_value whole 0)
                          + of_nat (digits_value frac 0) / 10 ^ length frac) * f)
                    (unit_factor (dropWhile ascii_digit cs)))
          else map_option (\<lambda>f. of_nat (digits_value whole 0) * f) (unit_factor rest))"

section \<open>Names and errors\<close>

text \<open>The pattern \<open>^[a-zA-Z][a-zA-Z0-9_.-]*$\<close> of \<open>NAME_PATTERN\<close>, at most 128 characters.\<close>

definition name_head :: "char \<Rightarrow> bool" where
  "name_head c = ((CHR ''a'' \<le> c \<and> c \<le> CHR ''z'') \<or> (CHR ''A'' \<le> c \<and> c \<le> CHR ''Z''))"

definition name_pattern_ok :: "string \<Rightarrow> bool" where
  "name_pattern_ok n =
     (case n of
        [] \<Rightarrow> False
      | c # cs \<Rightarrow> name_head c
          \<and> list_all (\<lambda>x. name_head x \<or> ascii_digit x \<or> x \<in> set ''_.-'') cs)"

definition name_ok :: "string \<Rightarrow> bool" where
  "name_ok n = (name_pattern_ok n \<and> length n \<le> 128)"

datatype spec_error =
    SpecField
  | AttemptsWithNever
  | AttemptsMissing
  | ActionTimeoutNotPositive
  | IntervalNotPositive
  | SamplingNotPositive
  | WindowTooShort
  | DetectorNamesNotUnique
  | PollingNotPositive
  | PollingTooLong
  | RollbackTimeoutNotPositive
  | RollbackNotReversible
  | ReasoningTimeoutNotPositive
  | MemoryScopesNotUnique
  | ScenarioRequired
  | ScenarioUnexpected
  | EntrypointRequired
  | BoundedVersion
  | BoundedImplementation
  | BoundedProvider
  | BoundedModelMissing
  | BoundedMemory
  | BoundedReasoning
  | BoundedPhases
  | BoundedTiming
  | PlacementLayerMissing
  | PlacementLayerUnexpected
  | GroupMissing
  | GroupUnexpected
  | TriggerNamesNotUnique
  | CoordinatorMissing
  | CoordinatorUnexpected
  | PeersMissing
  | PeersUnexpected
  | RelationshipsMissing
  | RelationshipsUnexpected

section \<open>Restart and execution\<close>

record restart_policy =
  rp_on_failure :: bool
  rp_max_attempts :: int
  rp_backoff :: string

definition new_restart_policy :: "restart_policy \<Rightarrow> spec_error + restart_policy" where
  "new_restart_policy p =
     (if rp_max_attempts p < 0 \<or> duration_seconds (rp_backoff p) = None then Inl SpecField
      else if \<not> rp_on_failure p \<and> rp_max_attempts p \<noteq> 0 then Inl AttemptsWithNever
      else if rp_on_failure p \<and> rp_max_attempts p < 1 then Inl AttemptsMissing
      else Inr p)"

datatype overflow = RejectNew | DropOldest | Coalesce

record execution_configuration =
  ec_queue_capacity :: int
  ec_max_concurrency :: int
  ec_overflow :: overflow
  ec_action_timeout :: string
  ec_restart :: restart_policy

definition new_execution_configuration ::
  "execution_configuration \<Rightarrow> spec_error + execution_configuration" where
  "new_execution_configuration e =
     (if ec_queue_capacity e < 1 \<or> ec_max_concurrency e < 1 then Inl SpecField
      else (case duration_seconds (ec_action_timeout e) of
              None \<Rightarrow> Inl SpecField
            | Some t \<Rightarrow>
                if t \<le> 0 then Inl ActionTimeoutNotPositive
                else bind_res (new_restart_policy (ec_restart e)) (\<lambda>_. Inr e)))"

section \<open>Triggers and observation policies\<close>

datatype trigger =
    ManualTrigger string
  | IntervalTrigger (tg_name: string) (tg_every: string) (tg_initial: string)
  | EventTrigger (tg_name: string) (tg_event: string) (tg_source: "string option")
      (tg_subject: "string option") (tg_cooldown: string)

fun trigger_name :: "trigger \<Rightarrow> string" where
  "trigger_name (ManualTrigger n) = n"
| "trigger_name (IntervalTrigger n _ _) = n"
| "trigger_name (EventTrigger n _ _ _ _) = n"

fun new_trigger :: "trigger \<Rightarrow> spec_error + trigger" where
  "new_trigger (ManualTrigger n) = (if name_ok n then Inr (ManualTrigger n) else Inl SpecField)"
| "new_trigger (IntervalTrigger n every initial) =
     (case (duration_seconds every, duration_seconds initial) of
        (Some t, Some _) \<Rightarrow>
          if \<not> name_ok n then Inl SpecField
          else if t \<le> 0 then Inl IntervalNotPositive
          else Inr (IntervalTrigger n every initial)
      | _ \<Rightarrow> Inl SpecField)"
| "new_trigger (EventTrigger n event src subj cooldown) =
     (if name_ok n \<and> name_ok event \<and> nonempty_opt src \<and> nonempty_opt subj
         \<and> duration_seconds cooldown \<noteq> None
      then Inr (EventTrigger n event src subj cooldown) else Inl SpecField)"

datatype comparison = CmpGt | CmpGte | CmpLt | CmpLte | CmpEq | CmpNe

fun operator_value :: "comparison \<Rightarrow> string" where
  "operator_value CmpGt = ''gt''"
| "operator_value CmpGte = ''gte''"
| "operator_value CmpLt = ''lt''"
| "operator_value CmpLte = ''lte''"
| "operator_value CmpEq = ''eq''"
| "operator_value CmpNe = ''ne''"

datatype detector =
    Threshold (dt_name: string) (dt_event: string) (dt_path: string) (dt_operator: comparison)
      (dt_value: rat) (dt_cooldown: string)
  | Anomaly (dt_name: string) (dt_event: string) (dt_path: string) (dt_sensitivity: rat)
      (dt_min_samples: int) (dt_cooldown: string)

fun new_detector :: "detector \<Rightarrow> spec_error + detector" where
  "new_detector (Threshold n e p opr v c) =
     (if name_ok n \<and> name_ok e \<and> p \<noteq> [] \<and> duration_seconds c \<noteq> None
      then Inr (Threshold n e p opr v c) else Inl SpecField)"
| "new_detector (Anomaly n e p s m c) =
     (if name_ok n \<and> name_ok e \<and> p \<noteq> [] \<and> 0 < s \<and> 2 \<le> m \<and> duration_seconds c \<noteq> None
      then Inr (Anomaly n e p s m c) else Inl SpecField)"

datatype aggregation = Latest | Minimum | Maximum | Mean | Total

record observation_policy =
  op_observation :: string
  op_every :: string
  op_window :: string
  op_aggregation :: aggregation
  op_detectors :: "detector list"

definition new_observation_policy :: "observation_policy \<Rightarrow> spec_error + observation_policy" where
  "new_observation_policy p =
     (case (duration_seconds (op_every p), duration_seconds (op_window p)) of
        (Some every, Some window) \<Rightarrow>
          if op_observation p = [] then Inl SpecField
          else bind_res (map_res new_detector (op_detectors p)) (\<lambda>_.
            if every \<le> 0 then Inl SamplingNotPositive
            else if window < every then Inl WindowTooShort
            else if \<not> distinct (map dt_name (op_detectors p)) then Inl DetectorNamesNotUnique
            else Inr p)
      | _ \<Rightarrow> Inl SpecField)"

section \<open>Capabilities\<close>

record postcondition =
  pc_observation :: string
  pc_path :: string
  pc_operator :: comparison
  pc_expected :: json
  pc_timeout :: string
  pc_interval :: string

definition new_postcondition :: "postcondition \<Rightarrow> spec_error + postcondition" where
  "new_postcondition p =
     (case (duration_seconds (pc_timeout p), duration_seconds (pc_interval p)) of
        (Some timeout, Some interval) \<Rightarrow>
          if pc_observation p = [] \<or> pc_path p = [] then Inl SpecField
          else if timeout \<le> 0 \<or> interval \<le> 0 then Inl PollingNotPositive
          else if timeout < interval then Inl PollingTooLong
          else Inr p
      | _ \<Rightarrow> Inl SpecField)"

record capability =
  cap_name :: string
  cap_targets :: "resource_kind list"
  cap_layers :: "string list"
  cap_effects :: "string list"
  cap_input_schema :: json_object
  cap_output_schema :: json_object
  cap_reversible :: bool
  cap_provider :: "string option"
  cap_postconditions :: "postcondition list"
  cap_rollback :: "string option"

text \<open>\<open>CapabilityRollbackConfiguration\<close> has one field, the timeout.\<close>

definition new_rollback :: "string \<Rightarrow> spec_error + string" where
  "new_rollback timeout =
     (case duration_seconds timeout of
        None \<Rightarrow> Inl SpecField
      | Some t \<Rightarrow> if t \<le> 0 then Inl RollbackTimeoutNotPositive else Inr timeout)"

definition new_capability :: "capability \<Rightarrow> spec_error + capability" where
  "new_capability c =
     (if \<not> name_ok (cap_name c) \<or> cap_targets c = [] \<or> cap_layers c = [] then Inl SpecField
      else bind_res (map_res new_postcondition (cap_postconditions c)) (\<lambda>_.
           bind_res (case cap_rollback c of None \<Rightarrow> Inr [] | Some t \<Rightarrow> new_rollback t) (\<lambda>_.
             if cap_rollback c \<noteq> None \<and> \<not> cap_reversible c then Inl RollbackNotReversible
             else Inr c)))"

section \<open>Blueprints\<close>

datatype learned_scope = LearnedRun | LearnedAgent

record memory_configuration =
  mem_local :: "int option"
  mem_conversation :: "(int \<times> bool) option"
  mem_learned :: "(learned_scope \<times> bool) option"
  mem_shared :: "(state_scope list \<times> int) option"

definition new_memory_configuration :: "memory_configuration \<Rightarrow> spec_error + memory_configuration" where
  "new_memory_configuration m =
     (if (case mem_local m of None \<Rightarrow> False | Some n \<Rightarrow> n < 1)
         \<or> (case mem_conversation m of None \<Rightarrow> False | Some (n, _) \<Rightarrow> n < 1)
      then Inl SpecField
      else (case mem_shared m of
              None \<Rightarrow> Inr m
            | Some (scopes, n) \<Rightarrow>
                if scopes = [] \<or> n < 1 then Inl SpecField
                else if \<not> distinct scopes then Inl MemoryScopesNotUnique
                else Inr m))"

record reasoning_configuration =
  rc_instructions :: "string option"
  rc_output_schema :: "string option"
  rc_timeout :: "string option"

definition new_reasoning_configuration ::
  "reasoning_configuration \<Rightarrow> spec_error + reasoning_configuration" where
  "new_reasoning_configuration r =
     (case rc_timeout r of
        None \<Rightarrow> Inr r
      | Some d \<Rightarrow>
          (case duration_seconds d of
             None \<Rightarrow> Inl SpecField
           | Some t \<Rightarrow> if t \<le> 0 then Inl ReasoningTimeoutNotPositive else Inr r))"

datatype selection_kind = AgnoExecution | BoundedExecution

record execution_selection =
  sel_kind :: selection_kind
  sel_scenario :: "string option"

definition new_execution_selection :: "execution_selection \<Rightarrow> spec_error + execution_selection" where
  "new_execution_selection s =
     (if \<not> (case sel_scenario s of None \<Rightarrow> True | Some n \<Rightarrow> name_ok n) then Inl SpecField
      else if sel_kind s = BoundedExecution \<and> sel_scenario s = None then Inl ScenarioRequired
      else if sel_kind s = AgnoExecution \<and> sel_scenario s \<noteq> None then Inl ScenarioUnexpected
      else Inr s)"

text \<open>A model is configured in place, by its provider, or refers to a shared configuration.\<close>

datatype model_choice = ModelConfigured string | ModelReferenced string

record blueprint =
  bp_api_version :: string
  bp_name :: string
  bp_python :: bool
  bp_entrypoint :: "string option"
  bp_model :: "model_choice option"
  bp_reasoning :: reasoning_configuration
  bp_memory :: memory_configuration
  bp_phases :: "string list"
  bp_execution :: "execution_selection option"

definition new_implementation :: "bool \<Rightarrow> string option \<Rightarrow> spec_error + unit" where
  "new_implementation python entrypoint =
     (if python \<and> (entrypoint = None \<or> entrypoint = Some []) then Inl EntrypointRequired else Inr ())"

text \<open>The validator \<open>bounded_execution_is_explicitly_supported\<close>.\<close>

definition bounded_supported :: "blueprint \<Rightarrow> spec_error + unit" where
  "bounded_supported b =
     (case bp_execution b of
        None \<Rightarrow> Inr ()
      | Some s \<Rightarrow>
          if sel_kind s \<noteq> BoundedExecution then Inr ()
          else if bp_api_version b \<noteq> ''mininet-ai/v1alpha5'' then Inl BoundedVersion
          else if bp_python b then Inl BoundedImplementation
          else (case bp_model b of
                  None \<Rightarrow> Inl BoundedModelMissing
                | Some m \<Rightarrow>
                    if (case m of ModelConfigured p \<Rightarrow> p \<noteq> ''llamacpp-systemone''
                                | ModelReferenced _ \<Rightarrow> False)
                    then Inl BoundedProvider
                    else if mem_local (bp_memory b) \<noteq> None \<or> mem_conversation (bp_memory b) \<noteq> None
                            \<or> mem_learned (bp_memory b) \<noteq> None
                    then Inl BoundedMemory
                    else if rc_instructions (bp_reasoning b) \<noteq> None
                            \<or> rc_output_schema (bp_reasoning b) \<noteq> None
                    then Inl BoundedReasoning
                    else if bp_phases b \<noteq> [] then Inl BoundedPhases
                    else if rc_timeout (bp_reasoning b) \<noteq> None then Inl BoundedTiming
                    else Inr ()))"

definition new_blueprint :: "blueprint \<Rightarrow> spec_error + blueprint" where
  "new_blueprint b =
     (if bp_execution b \<noteq> None \<and> bp_api_version b \<noteq> ''mininet-ai/v1alpha5'' then Inl BoundedVersion
      else if \<not> name_ok (bp_name b) \<or> \<not> list_all name_ok (bp_phases b) then Inl SpecField
      else bind_res (new_implementation (bp_python b) (bp_entrypoint b)) (\<lambda>_.
           bind_res (new_reasoning_configuration (bp_reasoning b)) (\<lambda>_.
           bind_res (new_memory_configuration (bp_memory b)) (\<lambda>_.
           bind_res (case bp_execution b of None \<Rightarrow> Inr ()
                     | Some s \<Rightarrow> map_sum id (\<lambda>_. ()) (new_execution_selection s)) (\<lambda>_.
           bind_res (bounded_supported b) (\<lambda>_. Inr b))))))"

end
