(* ===== verification/Events.thy ===== *)
theory Events
  imports Complex_Main Specification Bounded_Queue
begin

text \<open>
  Runtime events (\<open>mininet_ai/runtime/contracts.py\<close>) and the bounded bus that delivers them
  (\<open>mininet_ai/runtime/events.py\<close>). The payload of an event is one of the payload models the
  runtime reads back; an event of a type it has no model for carries \<open>OtherPayload\<close>.
  The bus is modelled like the message channel: one function per method body under the lock,
  and the waiting loop of \<open>receive\<close> over an explicit list of passes.
\<close>

section \<open>Payloads\<close>

text \<open>What a telemetry observation carries (\<open>ObservationRecordedPayload\<close>).\<close>

record observation_payload =
  obp_observation :: string
  obp_targets :: "string list"
  obp_values :: json_object
  obp_agent :: "agent_id option"
  obp_aggregation :: "aggregation option"
  obp_samples :: "int option"
  obp_started :: "timestamp option"
  obp_ended :: "timestamp option"

datatype payload_error = PayloadField | WindowIncomplete | WindowReversed | DetectorIncomplete

definition new_observation_payload :: "observation_payload \<Rightarrow> payload_error + observation_payload" where
  "new_observation_payload p =
     (if obp_observation p = [] \<or> obp_targets p = [] \<or> \<not> nonempty_opt (obp_agent p)
         \<or> (case obp_samples p of None \<Rightarrow> False | Some n \<Rightarrow> n < 1)
      then Inl PayloadField
      else case (obp_started p, obp_ended p) of
          (None, None) \<Rightarrow> Inr p
        | (Some a, Some b) \<Rightarrow> if b < a then Inl WindowReversed else Inr p
        | _ \<Rightarrow> Inl WindowIncomplete)"

text \<open>
  Why a detector fired (\<open>DetectorEventPayload\<close>): the operator and threshold of a threshold
  detector, or the baseline and score of an anomaly detector. The numbers the statistics
  module computes are reals.
\<close>

record detector_payload =
  dp_agent :: agent_id
  dp_observation :: string
  dp_detector :: string
  dp_anomaly :: bool
  dp_aggregation :: aggregation
  dp_target :: string
  dp_path :: string
  dp_value :: rat
  dp_operator :: "comparison option"
  dp_threshold :: "rat option"
  dp_baseline_mean :: "real option"
  dp_baseline_stddev :: "real option"
  dp_score :: "real option"
  dp_samples :: int
  dp_started :: timestamp
  dp_ended :: timestamp

definition nonneg_opt :: "real option \<Rightarrow> bool" where
  "nonneg_opt x = (case x of None \<Rightarrow> True | Some r \<Rightarrow> 0 \<le> r)"

definition new_detector_payload :: "detector_payload \<Rightarrow> payload_error + detector_payload" where
  "new_detector_payload p =
     (if dp_agent p = [] \<or> dp_observation p = [] \<or> dp_detector p = [] \<or> dp_target p = [] \<or> dp_path p = []
         \<or> \<not> nonneg_opt (dp_baseline_stddev p) \<or> \<not> nonneg_opt (dp_score p) \<or> dp_samples p < 1
      then Inl PayloadField
      else if dp_ended p < dp_started p then Inl WindowReversed
      else if \<not> dp_anomaly p
      then (if dp_operator p = None \<or> dp_threshold p = None then Inl DetectorIncomplete else Inr p)
      else if dp_baseline_mean p = None \<or> dp_baseline_stddev p = None \<or> dp_score p = None
      then Inl DetectorIncomplete
      else Inr p)"

section \<open>Events\<close>

datatype event_payload =
    ManualIntent agent_id string
  | IntervalElapsed agent_id string timestamp
  | ObservationRecorded observation_payload
  | DetectorFired detector_payload
  | OtherPayload string

record runtime_event =
  event_id :: string
  ev_run_id :: run_id
  ev_type :: string
  ev_source :: string
  ev_subject :: "string option"
  occurred_at :: timestamp
  observed_at :: timestamp
  ev_sequence :: int
  ev_correlation_id :: "string option"
  ev_causation_id :: "string option"
  ev_payload :: event_payload

definition opt_ok :: "string option \<Rightarrow> bool" where
  "opt_ok x = (case x of None \<Rightarrow> True | Some s \<Rightarrow> s \<noteq> [])"

datatype event_error = EventField | ObservedBeforeOccurred

definition event_fields_ok :: "runtime_event \<Rightarrow> bool" where
  "event_fields_ok e =
     (event_id e \<noteq> [] \<and> ev_run_id e \<noteq> [] \<and> ev_type e \<noteq> [] \<and> ev_source e \<noteq> []
      \<and> opt_ok (ev_subject e) \<and> 0 \<le> ev_sequence e \<and> opt_ok (ev_correlation_id e)
      \<and> opt_ok (ev_causation_id e))"

definition new_event :: "runtime_event \<Rightarrow> event_error + runtime_event" where
  "new_event e =
     (if \<not> event_fields_ok e then Inl EventField
      else if observed_at e < occurred_at e then Inl ObservedBeforeOccurred
      else Inr e)"

lemma new_event_Inr_iff:
  "new_event e = Inr e' \<longleftrightarrow> e' = e \<and> event_fields_ok e \<and> occurred_at e \<le> observed_at e"
  by (auto simp: new_event_def)

section \<open>The event bus\<close>

record 'e bus =
  bus_capacity :: nat
  bus_events :: "'e list"
  bus_closed :: bool
  bus_sink :: "('e \<Rightarrow> bool) option"
  bus_written :: "'e list"

datatype bus_error = BusClosed | BusFull | BusSinkRaised | BusCapacity | BusTimeout

fun bus_code :: "bus_error \<Rightarrow> string option" where
  "bus_code BusClosed = Some ''runtime.event-bus.closed''"
| "bus_code BusFull = Some ''runtime.event-bus.full''"
| "bus_code _ = None"

definition new_bus :: "int \<Rightarrow> ('e \<Rightarrow> bool) option \<Rightarrow> bus_error + 'e bus" where
  "new_bus n sink =
     (if n \<le> 0 then Inl BusCapacity
      else Inr \<lparr>bus_capacity = nat n, bus_events = [], bus_closed = False, bus_sink = sink,
                bus_written = []\<rparr>)"

definition bus_size :: "'e bus \<Rightarrow> nat" where
  "bus_size b = length (bus_events b)"

definition bus_publish :: "'e \<Rightarrow> 'e bus \<Rightarrow> bus_error + 'e bus" where
  "bus_publish e b =
     (if bus_closed b then Inl BusClosed
      else if bus_capacity b \<le> length (bus_events b) then Inl BusFull
      else case bus_sink b of
             None \<Rightarrow> Inr (b\<lparr>bus_events := bus_events b @ [e]\<rparr>)
           | Some w \<Rightarrow>
               if \<not> w e then Inl BusSinkRaised
               else Inr (b\<lparr>bus_written := bus_written b @ [e], bus_events := bus_events b @ [e]\<rparr>))"

fun bus_receive_loop ::
  "timestamp option \<Rightarrow> (timestamp \<times> ('e bus \<Rightarrow> 'e bus)) list \<Rightarrow> 'e bus
   \<Rightarrow> ('e option \<times> 'e bus) option" where
  "bus_receive_loop deadline passes b =
     (case bus_events b of
        e # es \<Rightarrow> Some (Some e, b\<lparr>bus_events := es\<rparr>)
      | [] \<Rightarrow>
          if bus_closed b then Some (None, b)
          else (case passes of
                  [] \<Rightarrow> None
                | (now, others) # rest \<Rightarrow>
                    (case deadline of
                       None \<Rightarrow> bus_receive_loop deadline rest (others b)
                     | Some d \<Rightarrow>
                         if d - now \<le> 0 then Some (None, b)
                         else bus_receive_loop deadline rest (others b))))"

definition bus_receive ::
  "timestamp option \<Rightarrow> timestamp \<Rightarrow> (timestamp \<times> ('e bus \<Rightarrow> 'e bus)) list \<Rightarrow> 'e bus
   \<Rightarrow> bus_error + ('e option \<times> 'e bus) option" where
  "bus_receive timeout start passes b =
     (if (case timeout of None \<Rightarrow> False | Some t \<Rightarrow> t < 0) then Inl BusTimeout
      else Inr (bus_receive_loop (map_option (\<lambda>t. start + t) timeout) passes b))"

definition bus_close :: "'e bus \<Rightarrow> 'e bus" where
  "bus_close b = b\<lparr>bus_closed := True\<rparr>"

text \<open>A receive that does not wait: the head of the queue, or nothing.\<close>

definition bus_poll :: "'e bus \<Rightarrow> 'e option \<times> 'e bus" where
  "bus_poll b =
     (case bus_events b of [] \<Rightarrow> (None, b) | e # es \<Rightarrow> (Some e, b\<lparr>bus_events := es\<rparr>))"

lemma bus_receive_poll:
  "bus_events b \<noteq> [] \<or> bus_closed b \<Longrightarrow> bus_receive_loop d passes b = Some (bus_poll b)"
  by (auto simp: bus_poll_def split: list.splits)

lemma bus_publish_Inr:
  assumes "bus_publish e b = Inr b'"
  shows "\<not> bus_closed b" and "length (bus_events b) < bus_capacity b"
    and "bus_events b' = bus_events b @ [e]" and "bus_closed b' = bus_closed b"
    and "bus_capacity b' = bus_capacity b" and "bus_sink b' = bus_sink b"
  using assms by (auto simp: bus_publish_def split: if_splits option.splits)

interpretation eb: bounded_queue bus_events bus_capacity bus_closed bus_publish bus_poll bus_close
  by unfold_locales
    (auto simp: bus_publish_Inr bus_poll_def bus_close_def dest: bus_publish_Inr split: list.splits)

text \<open>The sink has seen exactly the accepted events, in order.\<close>

definition bus_recorded :: "'e bus \<Rightarrow> 'e list \<Rightarrow> bool" where
  "bus_recorded b accepted \<longleftrightarrow> (bus_sink b \<noteq> None \<longrightarrow> bus_written b = accepted)"

lemma bus_call_recorded:
  "queue_call bus_publish bus_poll bus_close x b = (acc, del, b') \<Longrightarrow> bus_recorded b done
   \<Longrightarrow> bus_recorded b' (done @ acc)"
  by (cases x) (auto simp: bus_recorded_def bus_publish_def bus_poll_def bus_close_def
      split: sum.splits if_splits option.splits list.splits)

lemma bus_calls_recorded:
  "queue_calls bus_publish bus_poll bus_close cs b = (acc, del, b') \<Longrightarrow> bus_recorded b done
   \<Longrightarrow> bus_recorded b' (done @ acc)"
proof (induction cs arbitrary: b acc del "done")
  case (Cons c cs)
  obtain a1 d1 b1 where c: "queue_call bus_publish bus_poll bus_close c b = (a1, d1, b1)"
    by (metis prod_cases3)
  with Cons.prems(1) obtain a2 d2
    where r: "queue_calls bus_publish bus_poll bus_close cs b1 = (a2, d2, b')" and "acc = a1 @ a2"
    by (auto split: prod.splits)
  with Cons.IH [OF r bus_call_recorded [OF c Cons.prems(2)]] show ?case by simp
qed simp

section \<open>Properties\<close>

text \<open>The event bus delivers the events it accepted in order, holds at most its capacity,
  accepts nothing once closed, and its sink has seen exactly the accepted events, in order.\<close>

lemma bus_fifo_bounded_recorded:
  assumes "new_bus n sink = Inr b"
    and "queue_calls bus_publish bus_poll bus_close cs b = (accepted, delivered, b')"
  shows "delivered @ bus_events b' = accepted \<and> int (length (bus_events b')) \<le> n
     \<and> (sink \<noteq> None \<longrightarrow> bus_written b' = accepted)"
proof -
  from assms(1) have b: "bus_events b = []" "bus_capacity b = nat n" "0 < n" "bus_sink b = sink"
    "bus_written b = []"
    by (auto simp: new_bus_def split: if_splits)
  have "bus_recorded b []" using b by (simp add: bus_recorded_def)
  from bus_calls_recorded [OF assms(2) this] have "bus_recorded b' accepted" by simp
  moreover have "bus_sink b' = bus_sink b"
    using assms(2)
  proof (induction cs arbitrary: b accepted delivered)
    case (Cons c cs)
    obtain a1 d1 b1 where c: "queue_call bus_publish bus_poll bus_close c b = (a1, d1, b1)"
      by (metis prod_cases3)
    then have "bus_sink b1 = bus_sink b"
      by (cases c) (auto simp: bus_publish_Inr bus_poll_def bus_close_def
          split: sum.splits list.splits)
    with c Cons show ?case by (auto split: prod.splits)
  qed simp
  ultimately show ?thesis
    using eb.calls_fifo [OF assms(2)] eb.calls_within [OF assms(2)] b by (auto simp: bus_recorded_def)
qed

end
