(* ===== verification/Graph.thy ===== *)
theory Graph
  imports Prelude
begin

text \<open>
  The coordination graph of \<open>mininet_ai/coordination/graph.py\<close>: \<open>new_graph\<close> is the
  constructor of \<open>CoordinationGraph\<close>, which validates the compiled edges of a plan against
  its mode, and \<open>entry_agent\<close>, \<open>destinations\<close>, \<open>authorize\<close> and \<open>hop_limit\<close> are
  the queries the routing runtime makes.

  The frozen set of agents is the plan's list of ids, which the constructor has checked to be
  free of duplicates; the sets built along the way are only counted, compared or asked for
  their single element. The edge dictionary keeps its insertion order.
\<close>

section \<open>Data\<close>

datatype coordination_mode = Independent | Centralized | Hierarchical | Distributed

datatype relationship = Coordinates | Parent | Peer

record coordination_edge =
  edge_source :: agent_id
  edge_target :: agent_id
  edge_relationship :: relationship

datatype plan_defect =
    DuplicateAgents
  | IndependentHasEdges
  | WrongRelationship
  | UnknownEdgeSource
  | UnknownEdgeTarget
  | SelfEdge
  | DuplicateEdge
  | NoAgents
  | SingletonHasEdges
  | NotOneCoordinator
  | CoordinatorMissesAgents
  | CyclicHierarchy
  | NoReverseEdge

datatype agent_role = RequestedRole | SourceRole | TargetRole

datatype graph_error =
    InvalidPlan plan_defect
  | AgentUnknown agent_role agent_id
  | DeliveryDenied agent_id agent_id
  | CoordinatorAssertion

text \<open>The codes of \<open>CoordinationGraphError\<close>; an \<open>AssertionError\<close> carries none.\<close>

fun graph_code :: "graph_error \<Rightarrow> string option" where
  "graph_code (InvalidPlan _) = Some ''coordination.graph.invalid-plan''"
| "graph_code (AgentUnknown _ _) = Some ''coordination.graph.agent-unknown''"
| "graph_code (DeliveryDenied _ _) = Some ''coordination.graph.delivery-denied''"
| "graph_code CoordinatorAssertion = None"

type_synonym edge_table = "((agent_id \<times> agent_id) \<times> coordination_edge) list"

record graph =
  graph_mode :: coordination_mode
  graph_agents :: "agent_id list"
  graph_edges :: edge_table
  graph_destinations :: "(agent_id \<times> agent_id list) list"
  graph_coordinator :: "agent_id option"

section \<open>Construction\<close>

fun expected_relationship :: "coordination_mode \<Rightarrow> relationship option" where
  "expected_relationship Centralized = Some Coordinates"
| "expected_relationship Hierarchical = Some Parent"
| "expected_relationship Distributed = Some Peer"
| "expected_relationship Independent = None"

definition validate_edge ::
  "agent_id list \<Rightarrow> coordination_edge \<Rightarrow> relationship option \<Rightarrow> graph_error + unit" where
  "validate_edge agents e expected =
     (case expected of
        None \<Rightarrow> Inl (InvalidPlan IndependentHasEdges)
      | Some r \<Rightarrow>
          if edge_relationship e \<noteq> r then Inl (InvalidPlan WrongRelationship)
          else if edge_source e \<notin> set agents then Inl (InvalidPlan UnknownEdgeSource)
          else if edge_target e \<notin> set agents then Inl (InvalidPlan UnknownEdgeTarget)
          else if edge_source e = edge_target e then Inl (InvalidPlan SelfEdge)
          else Inr ())"

text \<open>\<open>defaultdict(list)\<close>: the list under a key, empty when the key is new.\<close>

definition entry_list :: "('k \<times> 'a list) list \<Rightarrow> 'k \<Rightarrow> 'a list" where
  "entry_list al k = (case map_of al k of None \<Rightarrow> [] | Some xs \<Rightarrow> xs)"

definition add_edge ::
  "agent_id list \<Rightarrow> relationship option \<Rightarrow> coordination_edge
   \<Rightarrow> edge_table \<times> (agent_id \<times> agent_id list) list
   \<Rightarrow> graph_error + edge_table \<times> (agent_id \<times> agent_id list) list" where
  "add_edge agents expected e st =
     bind_res (validate_edge agents e expected) (\<lambda>_.
       let key = (edge_source e, edge_target e) in
       if map_of (fst st) key \<noteq> None then Inl (InvalidPlan DuplicateEdge)
       else Inr (AList.update key e (fst st),
                 AList.update (edge_source e)
                   (entry_list (snd st) (edge_source e) @ [edge_target e]) (snd st)))"

definition edge_keys :: "edge_table \<Rightarrow> (agent_id \<times> agent_id) list" where
  "edge_keys es = map fst es"

text \<open>\<open>_validate_centralized\<close>, which also yields the coordinator.\<close>

definition validate_centralized ::
  "agent_id list \<Rightarrow> edge_table \<Rightarrow> graph_error + agent_id option" where
  "validate_centralized agents es =
     (case agents of
        [] \<Rightarrow> Inl (InvalidPlan NoAgents)
      | [a] \<Rightarrow> if es \<noteq> [] then Inl (InvalidPlan SingletonHasEdges) else Inr (Some a)
      | _ \<Rightarrow>
          (case remdups (map fst (edge_keys es)) of
             [coordinator] \<Rightarrow>
               if set (edge_keys es) \<noteq> set (map (Pair coordinator) (filter (\<lambda>t. t \<noteq> coordinator) agents))
               then Inl (InvalidPlan CoordinatorMissesAgents)
               else Inr (Some coordinator)
           | _ \<Rightarrow> Inl (InvalidPlan NotOneCoordinator)))"

text \<open>The hierarchy check: Kahn's algorithm over the incoming-edge counts.\<close>

definition count_incoming :: "agent_id list \<Rightarrow> edge_table \<Rightarrow> (agent_id \<times> int) list" where
  "count_incoming agents es =
     map (\<lambda>a. (a, int (length (filter (\<lambda>k. snd k = a) (edge_keys es))))) agents"

definition incoming_of :: "(agent_id \<times> int) list \<Rightarrow> agent_id \<Rightarrow> int" where
  "incoming_of inc a = (case map_of inc a of None \<Rightarrow> 0 | Some n \<Rightarrow> n)"

fun relax ::
  "agent_id list \<Rightarrow> (agent_id \<times> int) list \<Rightarrow> agent_id list
   \<Rightarrow> (agent_id \<times> int) list \<times> agent_id list" where
  "relax [] inc ready = (inc, ready)"
| "relax (t # ts) inc ready =
     (let n = incoming_of inc t - 1;
          inc' = AList.update t n inc
      in relax ts inc' (if n = 0 then ready @ [t] else ready))"

definition positives :: "(agent_id \<times> int) list \<Rightarrow> nat" where
  "positives inc = length (filter (\<lambda>x. 0 < snd x) inc)"

lemma positives_update:
  "positives (AList.update t (incoming_of inc t - 1) inc)
     + (if incoming_of inc t - 1 = 0 then 1 else 0) \<le> positives inc"
  by (induction inc) (auto simp: positives_def incoming_of_def)

lemma relax_measure:
  "relax ts inc ready = (inc', ready') \<Longrightarrow>
     length ready' + positives inc' \<le> length ready + positives inc"
proof (induction ts arbitrary: inc ready)
  case (Cons t ts)
  from Cons.IH [OF Cons.prems [unfolded relax.simps Let_def]] positives_update [of t inc]
  show ?case by (auto split: if_splits)
qed simp

function kahn ::
  "(agent_id \<Rightarrow> agent_id list) \<Rightarrow> (agent_id \<times> int) list \<Rightarrow> agent_id list \<Rightarrow> nat \<Rightarrow> nat" where
  "kahn dests inc [] visited = visited"
| "kahn dests inc (source # ready) visited =
     (case relax (dests source) inc ready of
        (inc', ready') \<Rightarrow> kahn dests inc' ready' (Suc visited))"
  by pat_completeness auto
termination
  by (relation "measure (\<lambda>(dests, inc, ready, visited). length ready + positives inc)")
    (auto dest: relax_measure [OF sym])

definition validate_hierarchy ::
  "agent_id list \<Rightarrow> edge_table \<Rightarrow> (agent_id \<times> agent_id list) list \<Rightarrow> graph_error + unit" where
  "validate_hierarchy agents es dests =
     (let inc = count_incoming agents es;
          ready = sort (filter (\<lambda>a. incoming_of inc a = 0) agents)
      in if kahn (entry_list dests) inc ready 0 \<noteq> length agents
         then Inl (InvalidPlan CyclicHierarchy) else Inr ())"

definition validate_peers :: "edge_table \<Rightarrow> graph_error + unit" where
  "validate_peers es =
     (if list_all (\<lambda>(s, t). map_of es (t, s) \<noteq> None) (edge_keys es) then Inr ()
      else Inl (InvalidPlan NoReverseEdge))"

definition validate_shape ::
  "coordination_mode \<Rightarrow> agent_id list \<Rightarrow> edge_table \<Rightarrow> (agent_id \<times> agent_id list) list
   \<Rightarrow> graph_error + agent_id option" where
  "validate_shape mode agents es dests =
     (case mode of
        Independent \<Rightarrow> Inr None
      | Centralized \<Rightarrow> validate_centralized agents es
      | Hierarchical \<Rightarrow> bind_res (validate_hierarchy agents es dests) (\<lambda>_. Inr None)
      | Distributed \<Rightarrow> bind_res (validate_peers es) (\<lambda>_. Inr None))"

definition new_graph ::
  "coordination_mode \<Rightarrow> agent_id list \<Rightarrow> coordination_edge list \<Rightarrow> graph_error + graph" where
  "new_graph mode agent_ids plan_edges =
     (if \<not> distinct agent_ids then Inl (InvalidPlan DuplicateAgents)
      else bind_res
        (fold_res (add_edge agent_ids (expected_relationship mode)) plan_edges ([], []))
        (\<lambda>(es, dests).
           let sorted_dests = map (\<lambda>(s, ts). (s, sort ts)) dests in
           bind_res (validate_shape mode agent_ids es sorted_dests) (\<lambda>coordinator.
             Inr \<lparr>graph_mode = mode, graph_agents = agent_ids, graph_edges = es,
                  graph_destinations = sorted_dests, graph_coordinator = coordinator\<rparr>)))"

section \<open>Queries\<close>

definition require_agent :: "graph \<Rightarrow> agent_role \<Rightarrow> agent_id \<Rightarrow> graph_error + unit" where
  "require_agent g role a =
     (if a \<notin> set (graph_agents g) then Inl (AgentUnknown role a) else Inr ())"

definition hop_limit :: "graph \<Rightarrow> int" where
  "hop_limit g = max 1 (int (length (graph_agents g)) * 2)"

definition entry_agent :: "graph \<Rightarrow> agent_id \<Rightarrow> graph_error + agent_id" where
  "entry_agent g requested =
     bind_res (require_agent g RequestedRole requested) (\<lambda>_.
       if graph_mode g = Centralized
       then (case graph_coordinator g of Some c \<Rightarrow> Inr c | None \<Rightarrow> Inl CoordinatorAssertion)
       else Inr requested)"

definition destinations :: "graph \<Rightarrow> agent_id \<Rightarrow> graph_error + agent_id list" where
  "destinations g source =
     bind_res (require_agent g SourceRole source) (\<lambda>_.
       Inr (entry_list (graph_destinations g) source))"

definition authorize :: "graph \<Rightarrow> agent_id \<Rightarrow> agent_id \<Rightarrow> graph_error + coordination_edge" where
  "authorize g source target =
     bind_res (require_agent g SourceRole source) (\<lambda>_.
       bind_res (require_agent g TargetRole target) (\<lambda>_.
         (case map_of (graph_edges g) (source, target) of
            Some e \<Rightarrow> Inr e
          | None \<Rightarrow> Inl (DeliveryDenied source target))))"

section \<open>What construction establishes\<close>

definition edge_key :: "coordination_edge \<Rightarrow> agent_id \<times> agent_id" where
  "edge_key e = (edge_source e, edge_target e)"

definition edge_valid :: "agent_id list \<Rightarrow> relationship option \<Rightarrow> coordination_edge \<Rightarrow> bool" where
  "edge_valid agents expected e \<longleftrightarrow>
     expected = Some (edge_relationship e) \<and> edge_source e \<in> set agents
     \<and> edge_target e \<in> set agents \<and> edge_source e \<noteq> edge_target e"

lemma validate_edge_Inr [simp]: "validate_edge agents e expected = Inr u \<longleftrightarrow> edge_valid agents expected e"
  by (auto simp: validate_edge_def edge_valid_def split: option.splits)

lemma entry_list_update:
  "entry_list (AList.update k v al) k' = (if k' = k then v else entry_list al k')"
  by (simp add: entry_list_def)

lemma add_edge_Inr:
  "add_edge agents expected e (es, ds) = Inr (es', ds') \<longleftrightarrow>
     edge_valid agents expected e \<and> map_of es (edge_key e) = None
     \<and> es' = es @ [(edge_key e, e)]
     \<and> ds' = AList.update (edge_source e) (entry_list ds (edge_source e) @ [edge_target e]) ds"
  by (auto simp: add_edge_def edge_key_def bind_res_Inr_iff Let_def update_fresh)

lemma edge_keys_keyed [simp]: "edge_keys (map (\<lambda>e. (edge_key e, e)) xs) = map edge_key xs"
  by (simp add: edge_keys_def)

lemma edge_keys_append [simp]: "edge_keys (es @ es') = edge_keys es @ edge_keys es'"
  by (simp add: edge_keys_def)

lemma edge_keys_Cons [simp]: "edge_keys (x # es) = fst x # edge_keys es"
  by (simp add: edge_keys_def)

lemma edge_keys_Nil [simp]: "edge_keys [] = []"
  by (simp add: edge_keys_def)

lemma add_edges_Inr:
  "fold_res (add_edge agents expected) xs (es, ds) = Inr (es', ds') \<Longrightarrow>
     list_all (edge_valid agents expected) xs
     \<and> es' = es @ map (\<lambda>e. (edge_key e, e)) xs
     \<and> (distinct (edge_keys es) \<longrightarrow> distinct (edge_keys es'))
     \<and> (\<forall>s. entry_list ds' s = entry_list ds s @ map edge_target (filter (\<lambda>e. edge_source e = s) xs))"
proof (induction xs arbitrary: es ds)
  case (Cons e xs)
  obtain es1 ds1 where step: "add_edge agents expected e (es, ds) = Inr (es1, ds1)"
    and rest: "fold_res (add_edge agents expected) xs (es1, ds1) = Inr (es', ds')"
    using Cons.prems by (auto split: sum.splits)
  from step have s: "edge_valid agents expected e" "map_of es (edge_key e) = None"
    "es1 = es @ [(edge_key e, e)]"
    "ds1 = AList.update (edge_source e) (entry_list ds (edge_source e) @ [edge_target e]) ds"
    by (auto simp: add_edge_Inr)
  have "edge_key e \<notin> set (edge_keys es)" using s(2) by (simp add: edge_keys_def map_of_eq_None_iff)
  then have "distinct (edge_keys es) \<longrightarrow> distinct (edge_keys es1)"
    using s(3) by (simp add: edge_keys_def)
  with Cons.IH [OF rest] have "distinct (edge_keys es) \<longrightarrow> distinct (edge_keys es')" by blast
  moreover have "es' = es1 @ map (\<lambda>e. (edge_key e, e)) xs" "list_all (edge_valid agents expected) xs"
    "\<forall>s. entry_list ds' s = entry_list ds1 s @ map edge_target (filter (\<lambda>e. edge_source e = s) xs)"
    using Cons.IH [OF rest] by blast+
  ultimately show ?case using s by (simp add: entry_list_update)
qed simp

lemma add_edges_ok:
  "list_all (edge_valid agents expected) xs \<Longrightarrow> distinct (edge_keys es @ map edge_key xs) \<Longrightarrow>
     \<exists>ds'. fold_res (add_edge agents expected) xs (es, ds) = Inr (es @ map (\<lambda>e. (edge_key e, e)) xs, ds')"
proof (induction xs arbitrary: es ds)
  case (Cons e xs)
  let ?es1 = "es @ [(edge_key e, e)]"
  let ?ds1 = "AList.update (edge_source e) (entry_list ds (edge_source e) @ [edge_target e]) ds"
  have "map_of es (edge_key e) = None"
    using Cons.prems(2) by (auto simp: map_of_eq_None_iff edge_keys_def)
  then have step: "add_edge agents expected e (es, ds) = Inr (?es1, ?ds1)"
    using Cons.prems(1) by (simp add: add_edge_Inr)
  have "distinct (edge_keys ?es1 @ map edge_key xs)"
    using Cons.prems(2) by (auto simp: edge_keys_def)
  with Cons.IH [of ?es1 ?ds1] Cons.prems(1) step show ?case by auto
qed simp

lemma map_of_keyed_edges:
  "distinct (map edge_key xs) \<Longrightarrow>
     map_of (map (\<lambda>e. (edge_key e, e)) xs) k = Some e \<longleftrightarrow> e \<in> set xs \<and> edge_key e = k"
  by (subst map_of_eq_Some_iff) (auto simp: comp_def)

lemma entry_list_sorted:
  "entry_list (map (\<lambda>(s, ts). (s, sort ts)) ds) s = sort (entry_list ds s)"
  by (induction ds) (auto simp: entry_list_def)

lemma new_graph_Inr:
  assumes "new_graph mode agent_ids es = Inr g"
  shows "distinct agent_ids" and "graph_mode g = mode" and "graph_agents g = agent_ids"
    and "list_all (edge_valid agent_ids (expected_relationship mode)) es"
    and "graph_edges g = map (\<lambda>e. (edge_key e, e)) es" and "distinct (map edge_key es)"
    and "entry_list (graph_destinations g) s = sort (map edge_target (filter (\<lambda>e. edge_source e = s) es))"
    and "validate_shape mode agent_ids (graph_edges g) (graph_destinations g) = Inr (graph_coordinator g)"
proof -
  from assms obtain tbl ds where
    d: "distinct agent_ids"
    and f: "fold_res (add_edge agent_ids (expected_relationship mode)) es ([], []) = Inr (tbl, ds)"
    and g: "graph_mode g = mode" "graph_agents g = agent_ids" "graph_edges g = tbl"
      "graph_destinations g = map (\<lambda>(s, ts). (s, sort ts)) ds"
      "validate_shape mode agent_ids tbl (map (\<lambda>(s, ts). (s, sort ts)) ds) = Inr (graph_coordinator g)"
    by (auto simp: new_graph_def bind_res_Inr_iff Let_def split: if_splits)
  note facts = add_edges_Inr [OF f]
  from d show "distinct agent_ids" .
  from g show "graph_mode g = mode" "graph_agents g = agent_ids" by simp_all
  from facts show "list_all (edge_valid agent_ids (expected_relationship mode)) es" by blast
  from facts g(3) show "graph_edges g = map (\<lambda>e. (edge_key e, e)) es" by simp
  from facts have "distinct (edge_keys tbl)" and "tbl = map (\<lambda>e. (edge_key e, e)) es"
    by auto
  then show "distinct (map edge_key es)" by simp
  from facts g(4) show "entry_list (graph_destinations g) s =
      sort (map edge_target (filter (\<lambda>e. edge_source e = s) es))"
    by (simp add: entry_list_sorted) (simp add: entry_list_def)
  from g show "validate_shape mode agent_ids (graph_edges g) (graph_destinations g) = Inr (graph_coordinator g)"
    by simp
qed

section \<open>The hierarchy check decides acyclicity\<close>

lemma incoming_of_update [simp]:
  "incoming_of (AList.update t n inc) a = (if a = t then n else incoming_of inc a)"
  by (simp add: incoming_of_def)

lemma relax_result:
  "relax ts inc ready = (inc', ready') \<Longrightarrow> distinct ts \<Longrightarrow>
     ready' = ready @ filter (\<lambda>t. incoming_of inc t = 1) ts
     \<and> (\<forall>a. incoming_of inc' a = incoming_of inc a - (if a \<in> set ts then 1 else 0))"
proof (induction ts arbitrary: inc ready)
  case (Cons t ts)
  let ?n = "incoming_of inc t - 1"
  have r: "relax ts (AList.update t ?n inc) (if ?n = 0 then ready @ [t] else ready) = (inc', ready')"
    using Cons.prems(1) by (simp add: Let_def)
  have "filter (\<lambda>x. incoming_of (AList.update t ?n inc) x = 1) ts = filter (\<lambda>x. incoming_of inc x = 1) ts"
    using Cons.prems(2) by (auto intro: filter_cong)
  with Cons.IH [OF r] Cons.prems(2) show ?case by auto
qed simp

text \<open>
  The loop's invariant, over the edges \<open>E\<close> between the agents \<open>A\<close>: \<open>P\<close> lists the agents
  popped so far, in order, and every count is the number of edges from agents not yet popped.
\<close>

definition kahn_inv ::
  "(agent_id \<times> agent_id) set \<Rightarrow> agent_id set \<Rightarrow> agent_id list \<Rightarrow> (agent_id \<times> int) list
   \<Rightarrow> agent_id list \<Rightarrow> bool" where
  "kahn_inv E A P inc ready \<longleftrightarrow>
     distinct (P @ ready) \<and> set (P @ ready) \<subseteq> A
     \<and> (\<forall>a\<in>A. incoming_of inc a = int (card {s. (s, a) \<in> E \<and> s \<notin> set P}))
     \<and> (\<forall>a\<in>A. a \<in> set (P @ ready) \<longleftrightarrow> incoming_of inc a = 0)
     \<and> (\<forall>a\<in>set P. \<forall>s. (s, a) \<in> E \<longrightarrow> s \<in> set P \<and> index_of s P < index_of a P)"

lemma finite_preds: "finite (E :: ('a \<times> 'b) set) \<Longrightarrow> finite {s. (s, a) \<in> E \<and> Q s}"
  by (rule finite_subset [of _ "fst ` E"]) force+

lemma kahn_inv_pop:
  assumes inv: "kahn_inv E A P inc (p # ready)" and E: "finite E" "E \<subseteq> A \<times> A"
    and ts: "distinct ts" "set ts = {t. (p, t) \<in> E}"
    and r: "relax ts inc ready = (inc', ready')"
  shows "kahn_inv E A (P @ [p]) inc' ready'"
proof -
  note rel = relax_result [OF r ts(1)]
  from inv have p: "p \<in> A" "p \<notin> set P" "p \<notin> set ready" and z: "incoming_of inc p = 0"
    and cnt: "\<And>a. a \<in> A \<Longrightarrow> incoming_of inc a = int (card {s. (s, a) \<in> E \<and> s \<notin> set P})"
    and mem: "\<And>a. a \<in> A \<Longrightarrow> a \<in> set P \<or> a = p \<or> a \<in> set ready \<longleftrightarrow> incoming_of inc a = 0"
    by (auto simp: kahn_inv_def)
  have preds: "s \<in> set P" if "(s, p) \<in> E" for s
    using cnt [OF p(1)] z that finite_preds [OF E(1), of p "\<lambda>s. s \<notin> set P"] by auto
  have cnt': "incoming_of inc' a = int (card {s. (s, a) \<in> E \<and> s \<notin> set (P @ [p])})" if a: "a \<in> A" for a
  proof (cases "(p, a) \<in> E")
    case True
    then have split: "{s. (s, a) \<in> E \<and> s \<notin> set P} = insert p {s. (s, a) \<in> E \<and> s \<notin> set (P @ [p])}"
      using p(2) by auto
    have "card {s. (s, a) \<in> E \<and> s \<notin> set P} = Suc (card {s. (s, a) \<in> E \<and> s \<notin> set (P @ [p])})"
      unfolding split by (rule card_insert_disjoint) (simp_all add: finite_preds [OF E(1)])
    with True rel ts(2) cnt [OF a] show ?thesis by simp
  next
    case False
    then have "{s. (s, a) \<in> E \<and> s \<notin> set P} = {s. (s, a) \<in> E \<and> s \<notin> set (P @ [p])}" by auto
    with False rel ts(2) cnt [OF a] show ?thesis by simp
  qed
  have new: "t \<notin> set P \<and> t \<noteq> p \<and> t \<notin> set ready" if "t \<in> set ts" "incoming_of inc t = 1" for t
    using that mem [of t] E(2) ts(2) by force
  have mem': "a \<in> set (P @ [p]) \<or> a \<in> set ready' \<longleftrightarrow> incoming_of inc' a = 0" if a: "a \<in> A" for a
  proof (cases "a \<in> set ts")
    case True
    then have "p \<in> {s. (s, a) \<in> E \<and> s \<notin> set P}" using ts(2) p(2) by simp
    then have "incoming_of inc a \<noteq> 0"
      using cnt [OF a] finite_preds [OF E(1), of a "\<lambda>s. s \<notin> set P"] by auto
    with True mem [OF a] rel show ?thesis by auto
  next
    case False
    with mem [OF a] rel show ?thesis by auto
  qed
  show ?thesis
    unfolding kahn_inv_def
  proof (intro conjI)
    have "distinct P \<and> distinct ready \<and> set P \<inter> set ready = {}" "set P \<union> set ready \<subseteq> A"
      using inv by (auto simp: kahn_inv_def)
    moreover have "ready' = ready @ filter (\<lambda>t. incoming_of inc t = 1) ts" "set ts \<subseteq> A"
      using rel ts(2) E(2) by auto
    ultimately show "distinct ((P @ [p]) @ ready')" "set ((P @ [p]) @ ready') \<subseteq> A"
      using new p ts(1) by auto
    show "\<forall>a\<in>A. incoming_of inc' a = int (card {s. (s, a) \<in> E \<and> s \<notin> set (P @ [p])})"
      using cnt' by blast
    show "\<forall>a\<in>A. a \<in> set ((P @ [p]) @ ready') \<longleftrightarrow> incoming_of inc' a = 0" using mem' by simp
    show "\<forall>a\<in>set (P @ [p]). \<forall>s. (s, a) \<in> E \<longrightarrow>
        s \<in> set (P @ [p]) \<and> index_of s (P @ [p]) < index_of a (P @ [p])"
    proof (intro ballI allI impI)
      fix a s assume a: "a \<in> set (P @ [p])" and s: "(s, a) \<in> E"
      show "s \<in> set (P @ [p]) \<and> index_of s (P @ [p]) < index_of a (P @ [p])"
      proof (cases "a = p")
        case True
        with preds s have "s \<in> set P" by blast
        with True p(2) index_of_less [of s P] show ?thesis by (simp add: index_of_append)
      next
        case False
        with a have aP: "a \<in> set P" by simp
        with inv s have "s \<in> set P \<and> index_of s P < index_of a P" unfolding kahn_inv_def by blast
        with aP show ?thesis by (simp add: index_of_append)
      qed
    qed
  qed
qed

lemma kahn_run:
  assumes "finite E" "E \<subseteq> A \<times> A" and "\<And>s. distinct (dests s) \<and> set (dests s) = {t. (s, t) \<in> E}"
  shows "kahn_inv E A P inc ready \<Longrightarrow>
    \<exists>P' inc'. kahn_inv E A P' inc' [] \<and> kahn dests inc ready v + length P = v + length P'"
proof (induction "length ready + positives inc" arbitrary: P inc ready v rule: less_induct)
  case less
  show ?case
  proof (cases ready)
    case Nil
    with less.prems show ?thesis by auto
  next
    case (Cons p rest)
    obtain inc' ready' where r: "relax (dests p) inc rest = (inc', ready')" by force
    have "length ready' + positives inc' < length ready + positives inc"
      using relax_measure [OF r] Cons by simp
    moreover have "kahn_inv E A (P @ [p]) inc' ready'"
      using kahn_inv_pop [OF less.prems [unfolded Cons] assms(1,2) _ _ r] assms(3) by blast
    ultimately show ?thesis
      using less.hyps [of ready' inc' "P @ [p]" "Suc v"] r Cons by auto
  qed
qed

lemma kahn_inv_done:
  assumes inv: "kahn_inv E A P inc []" and E: "finite E" "E \<subseteq> A \<times> A" and A: "finite A"
  shows "length P = card A \<longleftrightarrow> acyclic E"
proof
  assume "length P = card A"
  moreover have "distinct P" "set P \<subseteq> A" using inv by (auto simp: kahn_inv_def)
  ultimately have "set P = A" using card_subset_eq [OF A] by (metis distinct_card)
  then have "E \<subseteq> measure (\<lambda>a. index_of a P)" using inv E(2) by (auto simp: kahn_inv_def)
  then show "acyclic E" using acyclic_subset wf_acyclic wf_measure by metis
next
  assume ac: "acyclic E"
  have "A \<subseteq> set P"
  proof (rule ccontr)
    assume "\<not> A \<subseteq> set P"
    then obtain a0 where "a0 \<in> A - set P" by auto
    moreover have "wf E" using finite_acyclic_wf [OF E(1) ac] .
    ultimately obtain a where a: "a \<in> A - set P" and min: "\<And>s. (s, a) \<in> E \<Longrightarrow> s \<notin> A - set P"
      using wfE_min by metis
    from min E(2) have "{s. (s, a) \<in> E \<and> s \<notin> set P} = {}" by auto
    then have "card {s. (s, a) \<in> E \<and> s \<notin> set P} = 0" by (simp only: card.empty)
    moreover have "incoming_of inc a = int (card {s. (s, a) \<in> E \<and> s \<notin> set P})"
      and "a \<in> set (P @ []) \<longleftrightarrow> incoming_of inc a = 0"
      using inv a unfolding kahn_inv_def by blast+
    ultimately show False using a by simp
  qed
  with inv have "set P = A" "distinct P" by (auto simp: kahn_inv_def)
  then show "length P = card A" by (metis distinct_card)
qed

definition delegates :: "coordination_edge list \<Rightarrow> (agent_id \<times> agent_id) set" where
  "delegates es = edge_key ` set es"

lemma count_incoming_at:
  assumes "a \<in> set agents" and "distinct (edge_keys tbl)"
  shows "incoming_of (count_incoming agents tbl) a = int (card {s. (s, a) \<in> set (edge_keys tbl)})"
proof -
  have "map_of (count_incoming agents tbl) a
      = Some (int (length (filter (\<lambda>k. snd k = a) (edge_keys tbl))))"
    using assms(1) unfolding count_incoming_def by (induction agents) auto
  moreover have "length (filter (\<lambda>k. snd k = a) (edge_keys tbl))
      = card (set (filter (\<lambda>k. snd k = a) (edge_keys tbl)))"
    using assms(2) by (metis distinct_card distinct_filter)
  moreover have "set (filter (\<lambda>k. snd k = a) (edge_keys tbl))
      = (\<lambda>s. (s, a)) ` {s. (s, a) \<in> set (edge_keys tbl)}" by force
  moreover have "inj_on (\<lambda>s. (s, a)) X" for X :: "agent_id set" by (auto simp: inj_on_def)
  ultimately show ?thesis by (simp add: incoming_of_def card_image)
qed

lemma validate_hierarchy_iff:
  assumes "distinct agents" and "distinct (map edge_key es)"
    and edges: "\<And>e. e \<in> set es \<Longrightarrow> edge_source e \<in> set agents \<and> edge_target e \<in> set agents"
    and dests: "\<And>s. entry_list ds s = sort (map edge_target (filter (\<lambda>e. edge_source e = s) es))"
  shows "validate_hierarchy agents (map (\<lambda>e. (edge_key e, e)) es) ds = Inr u \<longleftrightarrow> acyclic (delegates es)"
proof -
  let ?E = "delegates es" and ?A = "set agents" and ?tbl = "map (\<lambda>e. (edge_key e, e)) es"
  let ?inc = "count_incoming agents ?tbl"
  let ?ready = "sort (filter (\<lambda>a. incoming_of ?inc a = 0) agents)"
  have fin: "finite ?E" "?E \<subseteq> ?A \<times> ?A" using edges by (auto simp: delegates_def edge_key_def)
  have D: "distinct (entry_list ds s) \<and> set (entry_list ds s) = {t. (s, t) \<in> ?E}" for s
  proof -
    have "inj_on edge_target (set (filter (\<lambda>e. edge_source e = s) es))"
      using assms(2) by (auto simp: inj_on_def distinct_map edge_key_def)
    moreover have "distinct es" using assms(2) by (simp add: distinct_map)
    ultimately show ?thesis
      unfolding dests by (auto simp: distinct_map delegates_def edge_key_def image_iff)
  qed
  have inc: "incoming_of ?inc a = int (card {s. (s, a) \<in> ?E})" if "a \<in> ?A" for a
    using count_incoming_at [OF that, of ?tbl] assms(2) by (simp add: delegates_def)
  have "kahn_inv ?E ?A [] ?inc ?ready"
    using assms(1) inc by (auto simp: kahn_inv_def)
  from kahn_run [OF fin D this, of 0] obtain P' inc' where
    P': "kahn_inv ?E ?A P' inc' []" "kahn (entry_list ds) ?inc ?ready 0 = length P'" by auto
  have "card ?A = length agents" using assms(1) by (rule distinct_card)
  with kahn_inv_done [OF P'(1) fin] P'(2) show ?thesis by (simp add: validate_hierarchy_def)
qed

section \<open>The specification of an accepted plan\<close>

text \<open>What each mode asks of the directed edges between the agents.\<close>

definition shape_spec ::
  "coordination_mode \<Rightarrow> agent_id set \<Rightarrow> (agent_id \<times> agent_id) set \<Rightarrow> bool" where
  "shape_spec mode A E =
     (case mode of
        Independent \<Rightarrow> E = {}
      | Centralized \<Rightarrow> (\<exists>c\<in>A. E = {c} \<times> (A - {c}))
      | Hierarchical \<Rightarrow> acyclic E
      | Distributed \<Rightarrow> sym E)"

definition plan_spec ::
  "coordination_mode \<Rightarrow> agent_id list \<Rightarrow> coordination_edge list \<Rightarrow> bool" where
  "plan_spec mode ids es \<longleftrightarrow>
     distinct ids \<and> list_all (edge_valid ids (expected_relationship mode)) es
     \<and> distinct (map edge_key es) \<and> shape_spec mode (set ids) (delegates es)"

lemma remdups_singleton: "remdups xs = [c] \<longleftrightarrow> xs \<noteq> [] \<and> set xs = {c}"
proof
  assume "remdups xs = [c]"
  then show "xs \<noteq> [] \<and> set xs = {c}" using set_remdups [of xs] by auto
next
  assume r: "xs \<noteq> [] \<and> set xs = {c}"
  have "length (remdups xs) = 1" using r by (simp add: length_remdups_card_conv)
  then obtain d where "remdups xs = [d]" by (cases "remdups xs") auto
  with r show "remdups xs = [c]" using set_remdups [of xs] by auto
qed

lemma validate_centralized_iff:
  assumes "distinct ids" and "\<And>e. e \<in> set es \<Longrightarrow> edge_source e \<in> set ids"
  shows "validate_centralized ids (map (\<lambda>e. (edge_key e, e)) es) = Inr c \<longleftrightarrow>
     (\<exists>a\<in>set ids. c = Some a \<and> delegates es = {a} \<times> (set ids - {a}))"
proof -
  consider "ids = []" | a where "ids = [a]" | a b cs where "ids = a # b # cs"
    by (cases ids rule: remdups_adj.cases) auto
  then show ?thesis
  proof cases
    case 1
    then show ?thesis by (simp add: validate_centralized_def)
  next
    case 2
    then show ?thesis by (auto simp: validate_centralized_def delegates_def)
  next
    case (3 a b cs)
    have sources: "remdups (map fst (map edge_key es)) = [d] \<longleftrightarrow> es \<noteq> [] \<and> fst ` delegates es = {d}" for d
      by (auto simp: remdups_singleton delegates_def image_image)
    have targets: "set (map (Pair d) (filter (\<lambda>t. t \<noteq> d) ids)) = {d} \<times> (set ids - {d})" for d
      by auto
    have nonempty: "set ids - {d} \<noteq> {}" for d using assms(1) 3 by auto
    have one: "fst ` ({d} \<times> (set ids - {d})) = {d}" for d using nonempty [of d] by force
    have in_ids: "d \<in> set ids" if "fst ` delegates es = {d}" for d
    proof -
      from that have "d \<in> edge_source ` set es" by (simp add: delegates_def edge_key_def image_image)
      with assms(2) show ?thesis by auto
    qed
    have ne: "es \<noteq> []" if "delegates es = {d} \<times> (set ids - {d})" for d
    proof
      assume "es = []"
      then have "{d} \<times> (set ids - {d}) = {}" using that by (simp add: delegates_def)
      with nonempty [of d] show False by blast
    qed
    have eq: "validate_centralized ids (map (\<lambda>e. (edge_key e, e)) es) =
        (case remdups (map fst (map edge_key es)) of
           [d] \<Rightarrow> if delegates es \<noteq> {d} \<times> (set ids - {d}) then Inl (InvalidPlan CoordinatorMissesAgents)
                  else Inr (Some d)
         | _ \<Rightarrow> Inl (InvalidPlan NotOneCoordinator))"
      unfolding targets [symmetric]
      by (simp add: validate_centralized_def 3 delegates_def del: map_map cong: list.case_cong)
    show ?thesis
    proof (cases "\<exists>d. remdups (map fst (map edge_key es)) = [d]")
      case True
      then obtain d where d: "remdups (map fst (map edge_key es)) = [d]" by blast
      then have fst_d: "fst ` delegates es = {d}" using sources by blast
      have uniq: "a = d" if "delegates es = {a} \<times> (set ids - {a})" for a
        using one [of a] fst_d by (simp add: that)
      from in_ids [OF fst_d] uniq
      have "(\<exists>a\<in>set ids. c = Some a \<and> delegates es = {a} \<times> (set ids - {a}))
          \<longleftrightarrow> c = Some d \<and> delegates es = {d} \<times> (set ids - {d})" by blast
      then show ?thesis unfolding eq d by simp blast
    next
      case False
      have "delegates es \<noteq> {a} \<times> (set ids - {a})" for a
      proof
        assume del: "delegates es = {a} \<times> (set ids - {a})"
        then have "es \<noteq> [] \<and> fst ` delegates es = {a}" using ne [OF del] one [of a] by simp
        with sources False show False by blast
      qed
      moreover have "validate_centralized ids (map (\<lambda>e. (edge_key e, e)) es) \<noteq> Inr c"
        unfolding eq using False by (auto split: list.splits)
      ultimately show ?thesis by blast
    qed
  qed
qed

lemma validate_peers_iff:
  assumes "distinct (map edge_key es)"
  shows "validate_peers (map (\<lambda>e. (edge_key e, e)) es) = Inr u \<longleftrightarrow> sym (delegates es)"
proof -
  have "map_of (map (\<lambda>e. (edge_key e, e)) es) k \<noteq> None \<longleftrightarrow> k \<in> delegates es" for k
    by (auto simp: map_of_eq_None_iff delegates_def image_image)
  then have "validate_peers (map (\<lambda>e. (edge_key e, e)) es) = Inr u \<longleftrightarrow>
      (\<forall>(s, t)\<in>delegates es. (t, s) \<in> delegates es)"
    by (simp add: validate_peers_def list_all_iff delegates_def del: not_None_eq)
  then show ?thesis by (auto simp: sym_def)
qed

lemma new_graph_ok:
  assumes "list_all (edge_valid ids (expected_relationship mode)) es"
    and "distinct ids" and "distinct (map edge_key es)"
  shows "\<exists>ds. (\<forall>s. entry_list ds s = sort (map edge_target (filter (\<lambda>e. edge_source e = s) es)))
     \<and> new_graph mode ids es =
         bind_res (validate_shape mode ids (map (\<lambda>e. (edge_key e, e)) es) ds) (\<lambda>c.
           Inr \<lparr>graph_mode = mode, graph_agents = ids, graph_edges = map (\<lambda>e. (edge_key e, e)) es,
                graph_destinations = ds, graph_coordinator = c\<rparr>)"
proof -
  obtain ds where f: "fold_res (add_edge ids (expected_relationship mode)) es ([], [])
      = Inr (map (\<lambda>e. (edge_key e, e)) es, ds)"
    using add_edges_ok [OF assms(1), of "[]" "[]"] assms(3) by auto
  let ?ds = "map (\<lambda>(s, ts). (s, sort ts)) ds"
  have "entry_list ?ds s = sort (map edge_target (filter (\<lambda>e. edge_source e = s) es))" for s
    using add_edges_Inr [OF f] by (simp only: entry_list_sorted) (simp add: entry_list_def)
  with assms(2) f show ?thesis
    by (intro exI [of _ ?ds]) (simp add: new_graph_def Let_def)
qed

lemma validate_shape_iff:
  assumes "distinct ids" "distinct (map edge_key es)"
    and valid: "list_all (edge_valid ids (expected_relationship mode)) es"
    and ds: "\<And>s. entry_list ds s = sort (map edge_target (filter (\<lambda>e. edge_source e = s) es))"
  shows "(\<exists>c. validate_shape mode ids (map (\<lambda>e. (edge_key e, e)) es) ds = Inr c)
     \<longleftrightarrow> shape_spec mode (set ids) (delegates es)"
proof -
  have ends: "e \<in> set es \<Longrightarrow> edge_source e \<in> set ids \<and> edge_target e \<in> set ids" for e
    using valid by (auto simp: list_all_iff edge_valid_def)
  show ?thesis
  proof (cases mode)
    case Independent
    then have "es = []" using valid by (cases es) (auto simp: edge_valid_def)
    with Independent show ?thesis by (simp add: validate_shape_def shape_spec_def delegates_def)
  next
    case Centralized
    then show ?thesis
      using validate_centralized_iff [OF assms(1), of es] ends
      by (auto simp: validate_shape_def shape_spec_def)
  next
    case Hierarchical
    then show ?thesis
      using validate_hierarchy_iff [OF assms(1,2) _ ds] ends
      by (auto simp: validate_shape_def shape_spec_def bind_res_Inr_iff)
  next
    case Distributed
    then show ?thesis
      using validate_peers_iff [OF assms(2)]
      by (auto simp: validate_shape_def shape_spec_def bind_res_Inr_iff)
  qed
qed

section \<open>Properties\<close>

lemma new_graph_iff_spec:
  "(\<exists>g. new_graph mode ids es = Inr g) \<longleftrightarrow> plan_spec mode ids es"
proof
  assume "\<exists>g. new_graph mode ids es = Inr g"
  then obtain g where g: "new_graph mode ids es = Inr g" by blast
  note f = new_graph_Inr [OF g]
  have "\<exists>c. validate_shape mode ids (map (\<lambda>e. (edge_key e, e)) es) (graph_destinations g) = Inr c"
    using f(8) f(5) by auto
  with validate_shape_iff [OF f(1,6,4,7)] f show "plan_spec mode ids es" by (simp add: plan_spec_def)
next
  assume spec: "plan_spec mode ids es"
  then obtain ds where d: "\<forall>s. entry_list ds s = sort (map edge_target (filter (\<lambda>e. edge_source e = s) es))"
    and n: "new_graph mode ids es =
         bind_res (validate_shape mode ids (map (\<lambda>e. (edge_key e, e)) es) ds) (\<lambda>c.
           Inr \<lparr>graph_mode = mode, graph_agents = ids, graph_edges = map (\<lambda>e. (edge_key e, e)) es,
                graph_destinations = ds, graph_coordinator = c\<rparr>)"
    using new_graph_ok [of ids mode es] unfolding plan_spec_def by blast
  from spec obtain c where "validate_shape mode ids (map (\<lambda>e. (edge_key e, e)) es) ds = Inr c"
    using validate_shape_iff [of ids es mode ds] d unfolding plan_spec_def by blast
  with n show "\<exists>g. new_graph mode ids es = Inr g" by simp
qed

text \<open>C9. The constructor refines the specification of a plan: it accepts exactly the plans
  whose agent ids are unique, whose edges have the mode's relationship, join two different
  known agents and occur once, and whose edges have the mode's shape: none when independent,
  one coordinator to every other agent when centralized, no cycle when hierarchical, each
  edge with its reverse when distributed.\<close>

theorem new_graph_accepts_iff_spec:
  "(\<exists>g. new_graph mode ids es = Inr g) \<longleftrightarrow> plan_spec mode ids es"
  by (rule new_graph_iff_spec)

text \<open>Deliveries follow the plan: between known agents, a delivery is authorized exactly
  when the plan has that edge, and an agent's destinations are exactly the agents it may
  deliver to, sorted and without repetition.\<close>

lemma authorize_exactly_plan_edges:
  assumes "new_graph mode ids es = Inr g" and "s \<in> set ids"
  shows "(\<forall>t e. authorize g s t = Inr e \<longleftrightarrow> t \<in> set ids \<and> e \<in> set es \<and> edge_key e = (s, t))
     \<and> (\<exists>ts. destinations g s = Inr ts \<and> sorted ts \<and> distinct ts
       \<and> set ts = {t. \<exists>e. authorize g s t = Inr e})"
proof -
  note f = new_graph_Inr [OF assms(1)]
  have ends: "e \<in> set es \<Longrightarrow> edge_target e \<in> set ids" for e
    using f(4) by (auto simp: list_all_iff edge_valid_def)
  have auth: "authorize g s t = Inr e \<longleftrightarrow> t \<in> set ids \<and> e \<in> set es \<and> edge_key e = (s, t)" for t e
    using assms(2) f(3,5) map_of_keyed_edges [OF f(6), of "(s, t)" e]
    by (auto simp: authorize_def require_agent_def split: option.splits)
  let ?ts = "sort (map edge_target (filter (\<lambda>e. edge_source e = s) es))"
  have "destinations g s = Inr ?ts"
    using assms(2) f(3,7) by (simp add: destinations_def require_agent_def)
  moreover have "inj_on edge_target (set (filter (\<lambda>e. edge_source e = s) es))" "distinct es"
    using f(6) by (auto simp: inj_on_def distinct_map edge_key_def)
  then have "distinct ?ts" by (simp add: distinct_map)
  moreover have "set ?ts = {t. \<exists>e. authorize g s t = Inr e}"
    using ends unfolding auth by (auto simp: edge_key_def)
  ultimately show ?thesis using auth by auto
qed

definition sample_edges :: "coordination_edge list" where
  "sample_edges =
     [\<lparr>edge_source = ''a'', edge_target = ''c'', edge_relationship = Parent\<rparr>,
      \<lparr>edge_source = ''a'', edge_target = ''b'', edge_relationship = Parent\<rparr>]"

lemma sample_graph_exists: "\<exists>g. new_graph Hierarchical [''a'', ''b'', ''c''] sample_edges = Inr g"
proof -
  have "wf (delegates sample_edges)"
    by (rule wf_subset [OF wf_measure [of "\<lambda>a. if a = ''a'' then 0 else 1"]])
      (auto simp: delegates_def sample_edges_def edge_key_def)
  then have "acyclic (delegates sample_edges)" by (rule wf_acyclic)
  then have "plan_spec Hierarchical [''a'', ''b'', ''c''] sample_edges"
    by (simp add: plan_spec_def shape_spec_def sample_edges_def edge_valid_def edge_key_def)
  then show ?thesis using new_graph_ok [of "[''a'', ''b'', ''c'']" Hierarchical sample_edges]
      validate_shape_iff [of "[''a'', ''b'', ''c'']" sample_edges Hierarchical]
    unfolding plan_spec_def by force
qed

text \<open>In a centralized plan every external intent enters at one coordinator, whichever known agent
  was asked for, and the coordinator may deliver to every other agent.\<close>

lemma centralized_entry:
  assumes "new_graph Centralized ids es = Inr g"
  shows "\<exists>c\<in>set ids. (\<forall>a\<in>set ids. entry_agent g a = Inr c)
     \<and> (\<forall>t\<in>set ids. t \<noteq> c \<longrightarrow> (\<exists>e. authorize g c t = Inr e))"
proof -
  note f = new_graph_Inr [OF assms]
  have ends: "e \<in> set es \<Longrightarrow> edge_source e \<in> set ids" for e
    using f(4) by (auto simp: list_all_iff edge_valid_def)
  from f(8) f(5) have "validate_centralized ids (map (\<lambda>e. (edge_key e, e)) es) = Inr (graph_coordinator g)"
    by (simp add: validate_shape_def)
  then obtain c where c: "c \<in> set ids" "graph_coordinator g = Some c"
    "delegates es = {c} \<times> (set ids - {c})"
    using validate_centralized_iff [OF f(1), of es] ends by blast
  have "entry_agent g a = Inr c" if "a \<in> set ids" for a
    using that f(2,3) c(2) by (simp add: entry_agent_def require_agent_def)
  moreover have "\<exists>e. authorize g c t = Inr e" if t: "t \<in> set ids" "t \<noteq> c" for t
  proof -
    have "(c, t) \<in> delegates es" using c(3) t by simp
    then obtain e where "e \<in> set es" "edge_key e = (c, t)" by (auto simp: delegates_def)
    then have "map_of (graph_edges g) (c, t) = Some e"
      using map_of_keyed_edges [OF f(6)] f(5) by simp
    with c(1) t f(3) show ?thesis by (simp add: authorize_def require_agent_def)
  qed
  ultimately show ?thesis using c(1) by blast
qed

end
