(* ===== verification/Arbitration.thy ===== *)
theory Arbitration
  imports Sdk "HOL-Library.Sublist" "HOL-Library.Multiset"
begin

text \<open>
  Conflict arbitration (\<open>mininet_ai/coordination/arbitration.py\<close>): turning the proposals of
  one invocation into candidates with effects and conflict keys, the conflict relation, and
  the three policies. \<open>arbitrate\<close> is \<open>ConflictArbitrator.arbitrate\<close>; the catalog lookup
  of an agent's capabilities is a parameter, \<open>assigned\<close>, that may raise.
\<close>

section \<open>Data\<close>

datatype policy = RejectPolicy | SerializePolicy | PriorityPolicy

datatype disposition = Execute | Reject

record decision =
  dec_candidate_id :: string
  dec_invocation_id :: string
  dec_agent_id :: agent_id
  dec_proposal_id :: string
  dec_target :: string
  dec_effects :: "string list"
  dec_conflict_keys :: "string list"
  dec_priority :: int
  dec_admission_sequence :: nat
  dec_disposition :: disposition
  dec_commit_order :: "nat option"
  dec_winner :: "string option"

record candidate =
  cand_id :: string
  cand_context :: agent_context
  cand_proposal :: action_proposal
  cand_effects :: "string list"
  cand_conflict_keys :: "string list"
  cand_sequence :: nat

record arbitration_plan =
  plan_candidates :: "candidate list"
  plan_ordered :: "candidate list"
  plan_rejected :: "string set"
  plan_policy :: policy
  plan_decisions :: "decision list"

text \<open>What a capability definition contributes: its name, provider and effects.\<close>

record capability_effects =
  ce_name :: string
  ce_provider :: "string option"
  ce_effects :: "string list"

section \<open>Candidates and conflicts\<close>

definition candidate_id :: "string \<Rightarrow> string \<Rightarrow> string" where
  "candidate_id invocation proposal = invocation @ '':'' @ proposal"

definition candidate_effects :: "capability_effects option \<Rightarrow> string list" where
  "candidate_effects cap =
     (case cap of
        None \<Rightarrow> [''*'']
      | Some c \<Rightarrow>
          if ce_provider c = Some ''substrate.observation'' then []
          else if ce_provider c \<in> {Some ''substrate.action'', Some ''fake.openflow''}
                  \<and> ce_effects c \<noteq> []
          then sort (ce_effects c)
          else [''*''])"

definition make_candidate ::
  "(agent_id \<Rightarrow> 'e + capability_effects list) \<Rightarrow> agent_context \<Rightarrow> action_proposal \<Rightarrow> nat
   \<Rightarrow> 'e + candidate" where
  "make_candidate assigned ctx p n =
     bind_res (assigned (ctx_agent_id ctx)) (\<lambda>caps.
       let effects = candidate_effects (List.find (\<lambda>c. ce_name c = prop_capability p) caps) in
       Inr \<lparr>cand_id = candidate_id (ctx_invocation_id ctx) (prop_id p),
            cand_context = ctx, cand_proposal = p, cand_effects = effects,
            cand_conflict_keys = map (\<lambda>e. prop_target p @ '':'' @ e) effects,
            cand_sequence = n\<rparr>)"

definition conflicts :: "candidate \<Rightarrow> candidate \<Rightarrow> bool" where
  "conflicts l r =
     (if cand_effects l = [] \<or> cand_effects r = [] then False
      else if ''*'' \<in> set (cand_effects l) \<or> ''*'' \<in> set (cand_effects r) then True
      else list_ex (\<lambda>k. k \<in> set (cand_conflict_keys r)) (cand_conflict_keys l))"

lemma conflicts_sym: "conflicts l r = conflicts r l"
  by (auto simp: conflicts_def list_ex_iff)

definition make_decision ::
  "candidate \<Rightarrow> disposition \<Rightarrow> nat option \<Rightarrow> string option \<Rightarrow> decision" where
  "make_decision c d order winner =
     \<lparr>dec_candidate_id = cand_id c, dec_invocation_id = ctx_invocation_id (cand_context c),
      dec_agent_id = ctx_agent_id (cand_context c), dec_proposal_id = prop_id (cand_proposal c),
      dec_target = prop_target (cand_proposal c), dec_effects = cand_effects c,
      dec_conflict_keys = cand_conflict_keys c, dec_priority = ctx_priority (cand_context c),
      dec_admission_sequence = cand_sequence c, dec_disposition = d,
      dec_commit_order = order, dec_winner = winner\<rparr>"

section \<open>Policies\<close>

text \<open>The loop of \<open>_reject_conflicts\<close>: the winners so far, the rejected ids and the decisions.\<close>

fun reject_loop ::
  "candidate list \<Rightarrow> candidate list \<Rightarrow> string list \<Rightarrow> decision list
   \<Rightarrow> candidate list \<times> string list \<times> decision list" where
  "reject_loop [] winners rejected decisions = (winners, rejected, decisions)"
| "reject_loop (c # cs) winners rejected decisions =
     (case List.find (\<lambda>accepted. conflicts accepted c) winners of
        Some w \<Rightarrow>
          reject_loop cs winners (rejected @ [cand_id c])
            (decisions @ [make_decision c Reject None (Some (cand_id w))])
      | None \<Rightarrow>
          reject_loop cs (winners @ [c]) rejected
            (decisions @ [make_decision c Execute (Some (length winners)) None]))"

definition reject_conflicts :: "policy \<Rightarrow> candidate list \<Rightarrow> arbitration_plan" where
  "reject_conflicts pol cs =
     (case reject_loop cs [] [] [] of (winners, rejected, decisions) \<Rightarrow>
        \<lparr>plan_candidates = cs, plan_ordered = winners, plan_rejected = set rejected,
         plan_policy = pol, plan_decisions = decisions\<rparr>)"

text \<open>The sort key of the priority policy.\<close>

definition priority_key :: "candidate \<Rightarrow> int \<times> nat \<times> string \<times> string" where
  "priority_key c =
     (- ctx_priority (cand_context c), cand_sequence c, ctx_agent_id (cand_context c),
      prop_id (cand_proposal c))"

fun key_le :: "int \<times> nat \<times> string \<times> string \<Rightarrow> int \<times> nat \<times> string \<times> string \<Rightarrow> bool" where
  "key_le (p, n, a, i) (p', n', a', i') =
     (p < p' \<or> p = p' \<and> (n < n' \<or> n = n' \<and> (a < a' \<or> a = a' \<and> i \<le> i')))"

text \<open>Python's \<open>sorted\<close> is stable; insertion after the elements that are not greater is too.\<close>

fun insert_by :: "candidate \<Rightarrow> candidate list \<Rightarrow> candidate list" where
  "insert_by c [] = [c]"
| "insert_by c (d # ds) =
     (if key_le (priority_key c) (priority_key d) then c # d # ds else d # insert_by c ds)"

definition sort_by_priority :: "candidate list \<Rightarrow> candidate list" where
  "sort_by_priority cs = foldr insert_by cs []"

text \<open>\<open>dict\<close> from candidate id to index: a later index under the same id overwrites.\<close>

definition commit_orders :: "candidate list \<Rightarrow> (string \<times> nat) list" where
  "commit_orders ordered = rev (zip (map cand_id ordered) [0..<length ordered])"

definition arbitrate_candidates :: "policy \<Rightarrow> candidate list \<Rightarrow> arbitration_plan" where
  "arbitrate_candidates pol cs =
     (if pol = RejectPolicy then reject_conflicts pol cs
      else
        let ordered = (if pol = SerializePolicy then cs else sort_by_priority cs);
            orders = commit_orders ordered
        in \<lparr>plan_candidates = cs, plan_ordered = ordered, plan_rejected = {}, plan_policy = pol,
            plan_decisions =
              map (\<lambda>c. make_decision c Execute (map_of orders (cand_id c)) None) cs\<rparr>)"

definition arbitrate ::
  "(agent_id \<Rightarrow> 'e + capability_effects list) \<Rightarrow> policy
   \<Rightarrow> (agent_context \<times> action_proposal) list \<Rightarrow> 'e + arbitration_plan" where
  "arbitrate assigned pol proposals =
     bind_res
       (map_res (\<lambda>(n, ctx, p). make_candidate assigned ctx p n)
         (zip [0..<length proposals] proposals))
       (\<lambda>cs. Inr (arbitrate_candidates pol cs))"

section \<open>The reject policy\<close>

text \<open>A decision that says what the winners list says.\<close>

definition decision_sound :: "candidate list \<Rightarrow> candidate \<Rightarrow> decision \<Rightarrow> bool" where
  "decision_sound ordered c d \<longleftrightarrow>
     dec_candidate_id d = cand_id c
     \<and> (case dec_disposition d of
          Execute \<Rightarrow> \<exists>k<length ordered. dec_commit_order d = Some k \<and> ordered ! k = c \<and> dec_winner d = None
        | Reject \<Rightarrow> dec_commit_order d = None
            \<and> (\<exists>w\<in>set ordered. conflicts w c \<and> dec_winner d = Some (cand_id w)))"

abbreviation compatible :: "candidate list \<Rightarrow> bool" where
  "compatible \<equiv> pairwise_list (\<lambda>x y. \<not> conflicts x y)"

lemma reject_loop_compatible:
  "reject_loop cs ws rs ds = (ws', rs', ds') \<Longrightarrow> compatible ws \<Longrightarrow> compatible ws'"
proof (induction cs arbitrary: ws rs ds)
  case (Cons c cs)
  show ?case
  proof (cases "List.find (\<lambda>accepted. conflicts accepted c) ws")
    case None
    then have "compatible (ws @ [c])" using Cons.prems(2) by (auto simp: find_None_iff)
    with None Cons show ?thesis by auto
  next
    case (Some w)
    with Cons show ?thesis by auto
  qed
qed simp

lemma reject_loop_subseq:
  "reject_loop cs ws rs ds = (ws', rs', ds') \<Longrightarrow> \<exists>us. ws' = ws @ us \<and> subseq us cs"
proof (induction cs arbitrary: ws rs ds)
  case (Cons c cs)
  show ?case
  proof (cases "List.find (\<lambda>accepted. conflicts accepted c) ws")
    case None
    with Cons.prems obtain us where "ws' = (ws @ [c]) @ us" "subseq us cs"
      using Cons.IH by fastforce
    then show ?thesis by (intro exI [of _ "c # us"]) simp
  next
    case (Some w)
    with Cons.prems obtain us where "ws' = ws @ us" "subseq us cs" using Cons.IH by fastforce
    then show ?thesis by auto
  qed
qed simp

lemma reject_loop_decisions:
  "reject_loop cs ws rs ds = (ws', rs', ds') \<Longrightarrow>
     \<exists>es. ds' = ds @ es \<and> list_all2 (decision_sound ws') cs es
       \<and> rs' = rs @ map dec_candidate_id (filter (\<lambda>d. dec_disposition d = Reject) es)"
proof (induction cs arbitrary: ws rs ds)
  case (Cons c cs)
  show ?case
  proof (cases "List.find (\<lambda>accepted. conflicts accepted c) ws")
    case None
    let ?d = "make_decision c Execute (Some (length ws)) None"
    from None Cons.prems have r: "reject_loop cs (ws @ [c]) rs (ds @ [?d]) = (ws', rs', ds')" by simp
    from reject_loop_subseq [OF r] have "decision_sound ws' c ?d"
      by (auto simp: decision_sound_def make_decision_def nth_append)
    moreover from Cons.IH [OF r] obtain es where "ds' = (ds @ [?d]) @ es"
      "list_all2 (decision_sound ws') cs es"
      "rs' = rs @ map dec_candidate_id (filter (\<lambda>d. dec_disposition d = Reject) es)" by blast
    ultimately show ?thesis
      by (intro exI [of _ "?d # es"]) (simp add: make_decision_def)
  next
    case (Some w)
    let ?d = "make_decision c Reject None (Some (cand_id w))"
    from Some Cons.prems have r: "reject_loop cs ws (rs @ [cand_id c]) (ds @ [?d]) = (ws', rs', ds')"
      by simp
    from reject_loop_subseq [OF r] find_SomeD [OF Some] have "decision_sound ws' c ?d"
      by (auto simp: decision_sound_def make_decision_def)
    moreover from Cons.IH [OF r] obtain es where "ds' = (ds @ [?d]) @ es"
      "list_all2 (decision_sound ws') cs es"
      "rs' = (rs @ [cand_id c]) @ map dec_candidate_id (filter (\<lambda>d. dec_disposition d = Reject) es)"
      by blast
    ultimately show ?thesis
      by (intro exI [of _ "?d # es"]) (simp add: make_decision_def)
  qed
qed simp

text \<open>With ids that are not shared a refused candidate is not also among the winners.\<close>

lemma reject_loop_losers:
  "reject_loop cs ws rs ds = (ws', rs', ds') \<Longrightarrow> distinct cs \<Longrightarrow>
     \<exists>us es. ws' = ws @ us \<and> ds' = ds @ es \<and> set us \<subseteq> set cs
       \<and> list_all2 (\<lambda>c d. c \<in> set us \<longrightarrow> dec_disposition d = Execute) cs es"
proof (induction cs arbitrary: ws rs ds)
  case (Cons c cs)
  show ?case
  proof (cases "List.find (\<lambda>accepted. conflicts accepted c) ws")
    case None
    with Cons.prems obtain us es where u: "ws' = (ws @ [c]) @ us"
      "ds' = (ds @ [make_decision c Execute (Some (length ws)) None]) @ es" "set us \<subseteq> set cs"
      "list_all2 (\<lambda>c d. c \<in> set us \<longrightarrow> dec_disposition d = Execute) cs es"
      using Cons.IH by fastforce
    have "list_all2 (\<lambda>x d. x \<in> set (c # us) \<longrightarrow> dec_disposition d = Execute) cs es"
      by (rule list.rel_mono_strong [OF u(4)]) (use Cons.prems(2) in auto)
    with u(1-3) show ?thesis
      by (intro exI [of _ "c # us"] exI [of _ "make_decision c Execute (Some (length ws)) None # es"])
        (auto simp: make_decision_def)
  next
    case (Some w)
    with Cons.prems obtain us es where u: "ws' = ws @ us"
      "ds' = (ds @ [make_decision c Reject None (Some (cand_id w))]) @ es" "set us \<subseteq> set cs"
      "list_all2 (\<lambda>c d. c \<in> set us \<longrightarrow> dec_disposition d = Execute) cs es"
      using Cons.IH by fastforce
    have "c \<notin> set us" using Cons.prems(2) u(3) by auto
    with u show ?thesis
      by (intro exI [of _ us] exI [of _ "make_decision c Reject None (Some (cand_id w)) # es"]) auto
  qed
qed simp

section \<open>The ordered policies\<close>

lemma key_le_refl [simp]: "key_le k k"
  by (cases k) simp

lemma key_le_total: "key_le k l \<or> key_le l k"
  by (cases k; cases l) auto

lemma key_le_trans: "key_le k l \<Longrightarrow> key_le l m \<Longrightarrow> key_le k m"
  by (cases k; cases l; cases m) auto

abbreviation by_priority :: "candidate list \<Rightarrow> bool" where
  "by_priority \<equiv> sorted_wrt (\<lambda>c d. key_le (priority_key c) (priority_key d))"

lemma set_insert_by [simp]: "set (insert_by c ds) = insert c (set ds)"
  by (induction ds) auto

lemma insert_by_sorted: "by_priority ds \<Longrightarrow> by_priority (insert_by c ds)"
proof (induction ds)
  case (Cons d ds)
  then show ?case
    using key_le_total [of "priority_key c" "priority_key d"] by (auto intro: key_le_trans)
qed simp

lemma mset_insert_by [simp]: "mset (insert_by c ds) = add_mset c (mset ds)"
  by (induction ds) auto

lemma sort_by_priority_sorted: "by_priority (sort_by_priority cs)"
  by (induction cs) (auto simp: sort_by_priority_def insert_by_sorted)

lemma mset_sort_by_priority [simp]: "mset (sort_by_priority cs) = mset cs"
  by (induction cs) (auto simp: sort_by_priority_def)

lemma commit_orders_lookup:
  assumes "distinct (map cand_id ordered)" and "c \<in> set ordered"
  shows "\<exists>k<length ordered. map_of (commit_orders ordered) (cand_id c) = Some k \<and> ordered ! k = c"
proof -
  from assms(2) obtain k where k: "k < length ordered" "ordered ! k = c"
    by (auto simp: in_set_conv_nth)
  have "distinct (map fst (commit_orders ordered))"
    using assms(1) by (simp add: commit_orders_def rev_map [symmetric] distinct_rev)
  moreover have "(cand_id c, k) \<in> set (commit_orders ordered)"
    using k by (auto simp: commit_orders_def in_set_zip intro!: exI [of _ k])
  ultimately have "map_of (commit_orders ordered) (cand_id c) = Some k" by (rule map_of_is_SomeI)
  with k show ?thesis by blast
qed

lemma arbitrate_ordered_decisions:
  assumes "pol \<noteq> RejectPolicy" and "distinct (map cand_id cs)"
  shows "list_all2 (decision_sound (plan_ordered (arbitrate_candidates pol cs))) cs
    (plan_decisions (arbitrate_candidates pol cs))"
proof -
  let ?o = "plan_ordered (arbitrate_candidates pol cs)"
  have m: "mset ?o = mset cs" using assms(1) by (simp add: arbitrate_candidates_def Let_def)
  have "mset (map cand_id ?o) = mset (map cand_id cs)" using m by simp
  then have d: "distinct (map cand_id ?o)" using assms(2) mset_eq_imp_distinct_iff by blast
  have "plan_decisions (arbitrate_candidates pol cs)
      = map (\<lambda>c. make_decision c Execute (map_of (commit_orders ?o) (cand_id c)) None) cs"
    using assms(1) by (simp add: arbitrate_candidates_def Let_def)
  moreover have "decision_sound ?o c (make_decision c Execute (map_of (commit_orders ?o) (cand_id c)) None)"
    if "c \<in> set cs" for c
    using commit_orders_lookup [OF d, of c] that mset_eq_setD [OF m]
    by (auto simp: decision_sound_def make_decision_def)
  ultimately show ?thesis by (simp add: list_all2_map2 list_all2_same)
qed

section \<open>The candidates of one invocation\<close>

lemma make_candidate_fields:
  assumes "make_candidate assigned ctx p n = Inr c"
  shows "cand_id c = candidate_id (ctx_invocation_id ctx) (prop_id p)"
    and "cand_context c = ctx" and "cand_proposal c = p" and "cand_sequence c = n"
  using assms by (auto simp: make_candidate_def bind_res_Inr_iff Let_def)

lemma arbitrate_candidates_of [simp]: "plan_candidates (arbitrate_candidates pol cs) = cs"
  by (auto simp: arbitrate_candidates_def reject_conflicts_def Let_def split: prod.splits)

lemma arbitrate_Inr:
  assumes "arbitrate assigned pol props = Inr plan"
  shows "plan = arbitrate_candidates pol (plan_candidates plan)"
    and "length (plan_candidates plan) = length props"
    and "n < length props \<Longrightarrow>
      make_candidate assigned (fst (props ! n)) (snd (props ! n)) n = Inr (plan_candidates plan ! n)"
proof -
  obtain cs where cs: "map_res (\<lambda>(n, ctx, p). make_candidate assigned ctx p n)
      (zip [0..<length props] props) = Inr cs" and plan: "plan = arbitrate_candidates pol cs"
    using assms by (auto simp: arbitrate_def bind_res_Inr_iff)
  then show "plan = arbitrate_candidates pol (plan_candidates plan)" by simp
  from cs plan show "length (plan_candidates plan) = length props" by (auto dest: map_res_length)
  assume "n < length props"
  with cs plan show "make_candidate assigned (fst (props ! n)) (snd (props ! n)) n
      = Inr (plan_candidates plan ! n)"
    by (auto simp: map_res_Inr_iff list_all2_conv_all_nth split: prod.splits)
qed

lemma arbitrate_ids:
  assumes "arbitrate assigned pol (map (Pair ctx) ps) = Inr plan"
  shows "map cand_id (plan_candidates plan) = map (\<lambda>p. candidate_id (ctx_invocation_id ctx) (prop_id p)) ps"
proof (rule nth_equalityI)
  show "length (map cand_id (plan_candidates plan))
      = length (map (\<lambda>p. candidate_id (ctx_invocation_id ctx) (prop_id p)) ps)"
    using arbitrate_Inr(2) [OF assms] by simp
  fix i assume "i < length (map cand_id (plan_candidates plan))"
  then show "map cand_id (plan_candidates plan) ! i
      = map (\<lambda>p. candidate_id (ctx_invocation_id ctx) (prop_id p)) ps ! i"
    using arbitrate_Inr(2,3) [OF assms] make_candidate_fields by fastforce
qed

lemma candidate_id_inj: "candidate_id i p = candidate_id i q \<longleftrightarrow> p = q"
  by (simp add: candidate_id_def)

lemma arbitrate_ids_distinct:
  assumes "arbitrate assigned pol (map (Pair ctx) ps) = Inr plan" and "distinct (map prop_id ps)"
  shows "distinct (map cand_id (plan_candidates plan))"
proof -
  have "map cand_id (plan_candidates plan)
      = map (candidate_id (ctx_invocation_id ctx)) (map prop_id ps)"
    using arbitrate_ids [OF assms(1)] by simp
  then show ?thesis
    using assms(2) by (simp add: distinct_map inj_on_def candidate_id_inj del: map_map)
qed

section \<open>Properties\<close>

text \<open>The reject policy lets through a set of actions of which no two conflict, in admission
  order; every candidate gets one decision, in order, and is either committed at the position
  its decision names or refused in favour of a committed action it conflicts with.\<close>

lemma reject_policy_sound:
  assumes "plan = arbitrate_candidates RejectPolicy cs"
  shows "compatible (plan_ordered plan) \<and> subseq (plan_ordered plan) cs
     \<and> list_all2 (decision_sound (plan_ordered plan)) cs (plan_decisions plan)
     \<and> plan_rejected plan
        = dec_candidate_id ` {d \<in> set (plan_decisions plan). dec_disposition d = Reject}"
proof -
  obtain ws rs ds where r: "reject_loop cs [] [] [] = (ws, rs, ds)" by (metis prod_cases3)
  then have plan: "plan_ordered plan = ws" "plan_rejected plan = set rs" "plan_decisions plan = ds"
    using assms by (auto simp: arbitrate_candidates_def reject_conflicts_def)
  from reject_loop_compatible [OF r] reject_loop_subseq [OF r] reject_loop_decisions [OF r]
  show ?thesis unfolding plan by auto
qed

definition sample_context :: agent_context where
  "sample_context =
     \<lparr>ctx_invocation_id = ''i'', ctx_run_id = ''r'', ctx_agent_id = ''a'', ctx_deployment = ''d'',
      ctx_layer = DataLayer, ctx_custom_layer = None, ctx_target_kind = SwitchKind,
      ctx_targets = [''s1''], ctx_capabilities = [''route''],
      ctx_observations = [],
      ctx_shared_state = \<lparr>snap_scopes = [], snap_run = [], snap_deployment = []\<rparr>,
      ctx_coordination = None, ctx_intent = ''keep'', ctx_priority = 0, ctx_invoked_at = 0\<rparr>"

definition sample_proposal :: "string \<Rightarrow> action_proposal" where
  "sample_proposal i =
     \<lparr>prop_id = i, prop_capability = ''route'', prop_target = ''s1'', prop_arguments = [],
      prop_reason = None, prop_timeout = 30\<rparr>"

definition sample_candidate :: "string \<Rightarrow> nat \<Rightarrow> candidate" where
  "sample_candidate i n =
     \<lparr>cand_id = candidate_id ''i'' i, cand_context = sample_context,
      cand_proposal = sample_proposal i, cand_effects = [''flow''],
      cand_conflict_keys = [''s1:flow''], cand_sequence = n\<rparr>"

text \<open>Under the serialize and priority policies no action is refused: the committed actions
  are all the candidates, in admission order or sorted by descending priority and then
  admission order, and each candidate's decision names the position it is committed at.\<close>

lemma ordered_policies_commit_all:
  assumes "arbitrate assigned pol (map (Pair ctx) ps) = Inr plan"
    and "distinct (map prop_id ps)" and "pol \<noteq> RejectPolicy"
  shows "mset (plan_ordered plan) = mset (plan_candidates plan)
     \<and> (pol = SerializePolicy \<longrightarrow> plan_ordered plan = plan_candidates plan)
     \<and> (pol = PriorityPolicy \<longrightarrow>
          sorted_wrt (\<lambda>c d. key_le (priority_key c) (priority_key d)) (plan_ordered plan))
     \<and> list_all2 (decision_sound (plan_ordered plan)) (plan_candidates plan) (plan_decisions plan)
     \<and> list_all (\<lambda>d. dec_disposition d = Execute) (plan_decisions plan) \<and> plan_rejected plan = {}"
proof -
  let ?cs = "plan_candidates plan"
  note plan = arbitrate_Inr(1) [OF assms(1)]
  have "plan_ordered (arbitrate_candidates pol ?cs) = (if pol = SerializePolicy then ?cs else sort_by_priority ?cs)"
    "plan_rejected (arbitrate_candidates pol ?cs) = {}"
    "list_all (\<lambda>d. dec_disposition d = Execute) (plan_decisions (arbitrate_candidates pol ?cs))"
    using assms(3) by (auto simp: arbitrate_candidates_def Let_def list_all_iff make_decision_def)
  then show ?thesis
    using arbitrate_ordered_decisions [OF assms(3) arbitrate_ids_distinct [OF assms(1,2)]] plan
      sort_by_priority_sorted [of ?cs] by auto
qed

end
