(* ===== verification/Admission.thy ===== *)
theory Admission
  imports Arbitration
begin

text \<open>
  Experiment-wide action admission (\<open>mininet_ai/coordination/admission.py\<close>). \<open>ActionAdmission\<close>
  holds four lists under one condition lock: actions executing (\<open>adm_active\<close>) and waiting to
  execute (\<open>adm_pending\<close>), and commit reservations held (\<open>adm_committing\<close>) and waited for
  (\<open>adm_waiting\<close>).

  Each stretch of code that holds the lock is one function: \<open>admit_begin\<close> and
  \<open>decision_begin\<close> run from the \<open>with\<close> statement up to the first evaluation of the wait
  condition, \<open>admit_wake\<close> and \<open>decision_wake\<close> are one re-evaluation after a notification, and
  \<open>admit_end\<close> and \<open>decision_end\<close> are the \<open>finally\<close> blocks. \<open>adm_step\<close> is the interleaving
  of all threads. A reservation compares by identity in the code, so it carries the number
  \<open>res_id\<close> that stands for its identity; candidates compare by value.
\<close>

section \<open>State\<close>

type_synonym state_key = "state_scope \<times> run_id \<times> string option \<times> string"

record reservation =
  res_id :: nat
  res_reads :: "state_key set"
  res_writes :: "state_key set"
  res_candidates :: "candidate list"
  res_priority :: int

record admission =
  adm_policy :: policy
  adm_active :: "candidate list"
  adm_pending :: "candidate list"
  adm_committing :: "reservation list"
  adm_waiting :: "reservation list"

definition new_admission :: "policy \<Rightarrow> admission" where
  "new_admission pol =
     \<lparr>adm_policy = pol, adm_active = [], adm_pending = [], adm_committing = [], adm_waiting = []\<rparr>"

section \<open>Actions\<close>

text \<open>\<open>(-a, i) < (-b, j)\<close> on pairs of a priority and a position.\<close>

definition goes_first :: "int \<Rightarrow> nat \<Rightarrow> int \<Rightarrow> nat \<Rightarrow> bool" where
  "goes_first a i b j \<longleftrightarrow> - a < - b \<or> - a = - b \<and> i < j"

definition ready :: "admission \<Rightarrow> candidate \<Rightarrow> bool" where
  "ready s c =
     (if list_ex (\<lambda>other. conflicts other c) (adm_active s) then False
      else list_all
        (\<lambda>other.
           if other = c \<or> \<not> conflicts other c then True
           else if adm_policy s = PriorityPolicy
           then \<not> goes_first
                  (ctx_priority (cand_context other)) (index_of other (adm_pending s))
                  (ctx_priority (cand_context c)) (index_of c (adm_pending s))
           else \<not> index_of other (adm_pending s) < index_of c (adm_pending s))
        (adm_pending s))"

definition activate :: "candidate \<Rightarrow> admission \<Rightarrow> admission" where
  "activate c s =
     s\<lparr>adm_pending := remove1 c (adm_pending s), adm_active := adm_active s @ [c]\<rparr>"

datatype admit_outcome = Refused candidate | Admitted | Waits

definition admit_begin ::
  "candidate \<Rightarrow> candidate list \<Rightarrow> admission \<Rightarrow> admit_outcome \<times> candidate list \<times> admission" where
  "admit_begin c history s =
     (case (if adm_policy s = RejectPolicy
            then List.find (\<lambda>other. conflicts other c) (history @ adm_active s) else None) of
        Some w \<Rightarrow> (Refused w, history, s)
      | None \<Rightarrow>
          (let s' = s\<lparr>adm_pending := adm_pending s @ [c]\<rparr> in
           if ready s' c then (Admitted, history @ [c], activate c s')
           else (Waits, history, s')))"

definition admit_wake ::
  "candidate \<Rightarrow> candidate list \<Rightarrow> admission \<Rightarrow> admit_outcome \<times> candidate list \<times> admission" where
  "admit_wake c history s =
     (if ready s c then (Admitted, history @ [c], activate c s) else (Waits, history, s))"

definition admit_end :: "candidate \<Rightarrow> admission \<Rightarrow> admission" where
  "admit_end c s = s\<lparr>adm_active := remove1 c (adm_active s)\<rparr>"

section \<open>Decisions\<close>

text \<open>
  \<open>rejections\<close>: for each candidate the first admitted action it conflicts with, as the
  dictionary from candidate id to that action.
\<close>

definition admitted_before :: "candidate list \<Rightarrow> admission \<Rightarrow> candidate list" where
  "admitted_before history s =
     history @ adm_active s @ concat (map res_candidates (adm_committing s @ adm_waiting s))"

definition rejections ::
  "candidate list \<Rightarrow> candidate list \<Rightarrow> admission \<Rightarrow> (string \<times> candidate) list" where
  "rejections cs history s =
     (if adm_policy s \<noteq> RejectPolicy then []
      else fold
        (\<lambda>c d. case List.find (\<lambda>other. conflicts other c) (admitted_before history s) of
                 None \<Rightarrow> d | Some w \<Rightarrow> AList.update (cand_id c) w d)
        cs [])"

definition scope_key :: "agent_context \<Rightarrow> state_scope \<Rightarrow> string \<Rightarrow> state_key" where
  "scope_key ctx scope name =
     (scope, ctx_run_id ctx, if scope = DeploymentScope then Some (ctx_deployment ctx) else None, name)"

definition state_conflict :: "reservation \<Rightarrow> reservation \<Rightarrow> bool" where
  "state_conflict l r \<longleftrightarrow>
     res_writes l \<inter> (res_reads r \<union> res_writes r) \<noteq> {} \<or> res_writes r \<inter> res_reads l \<noteq> {}"

definition decision_conflicts :: "admission \<Rightarrow> reservation \<Rightarrow> reservation \<Rightarrow> bool" where
  "decision_conflicts s l r \<longleftrightarrow>
     state_conflict l r
     \<or> (adm_policy s \<noteq> RejectPolicy
        \<and> list_ex (\<lambda>a. list_ex (conflicts a) (res_candidates r)) (res_candidates l))"

text \<open>Positions of reservations are found by identity.\<close>

definition res_index :: "reservation \<Rightarrow> reservation list \<Rightarrow> nat" where
  "res_index r rs = index_of (res_id r) (map res_id rs)"

definition decision_ready :: "admission \<Rightarrow> reservation \<Rightarrow> bool" where
  "decision_ready s r =
     (if list_ex (decision_conflicts s r) (adm_committing s) then False
      else list_all
        (\<lambda>(i, other).
           if res_id other = res_id r \<or> \<not> decision_conflicts s r other then True
           else if adm_policy s = PriorityPolicy
           then \<not> goes_first (res_priority other) i (res_priority r) (res_index r (adm_waiting s))
           else \<not> i < res_index r (adm_waiting s))
        (zip [0..<length (adm_waiting s)] (adm_waiting s)))"

definition remove_res :: "reservation \<Rightarrow> reservation list \<Rightarrow> reservation list" where
  "remove_res r rs = filter (\<lambda>x. res_id x \<noteq> res_id r) rs"

definition commit_reservation :: "reservation \<Rightarrow> admission \<Rightarrow> admission" where
  "commit_reservation r s =
     s\<lparr>adm_waiting := remove_res r (adm_waiting s), adm_committing := adm_committing s @ [r]\<rparr>"

definition make_reservation ::
  "nat \<Rightarrow> agent_context \<Rightarrow> agent_response \<Rightarrow> candidate list \<Rightarrow> candidate list \<Rightarrow> admission
   \<Rightarrow> reservation" where
  "make_reservation rid ctx resp cs history s =
     (let kept = filter (\<lambda>c. map_of (rejections cs history s) (cand_id c) = None) cs;
          idle = (resp_proposals resp \<noteq> [] \<and> kept = [])
      in \<lparr>res_id = rid,
          res_reads = (if idle then {} else set (map (\<lambda>r. scope_key ctx (sr_scope r) (sr_key r)) (resp_reads resp))),
          res_writes = (if idle then {} else set (map (\<lambda>u. scope_key ctx (su_scope u) (su_key u)) (resp_updates resp))),
          res_candidates = kept, res_priority = ctx_priority ctx\<rparr>)"

text \<open>The reservation, whether it is granted at once, the rejections, and the new state.\<close>

definition decision_begin ::
  "nat \<Rightarrow> agent_context \<Rightarrow> agent_response \<Rightarrow> candidate list \<Rightarrow> candidate list \<Rightarrow> admission
   \<Rightarrow> bool \<times> (string \<times> candidate) list \<times> reservation \<times> admission" where
  "decision_begin rid ctx resp cs history s =
     (let r = make_reservation rid ctx resp cs history s;
          s' = s\<lparr>adm_waiting := adm_waiting s @ [r]\<rparr>
      in if decision_ready s' r then (True, rejections cs history s, r, commit_reservation r s')
         else (False, rejections cs history s, r, s'))"

definition decision_wake :: "reservation \<Rightarrow> admission \<Rightarrow> bool \<times> admission" where
  "decision_wake r s =
     (if decision_ready s r then (True, commit_reservation r s) else (False, s))"

definition decision_end :: "reservation \<Rightarrow> admission \<Rightarrow> admission" where
  "decision_end r s = s\<lparr>adm_committing := remove_res r (adm_committing s)\<rparr>"

section \<open>All threads\<close>

text \<open>
  One thread's stretch under the lock. The request histories belong to the threads, so any
  list may come with a call; a new reservation has an identity of its own.
\<close>

inductive adm_step :: "admission \<Rightarrow> admission \<Rightarrow> bool" where
  step_admit: "admit_begin c history s = (out, history', s') \<Longrightarrow> adm_step s s'"
| step_admit_wake: "c \<in> set (adm_pending s) \<Longrightarrow> admit_wake c history s = (out, history', s')
     \<Longrightarrow> adm_step s s'"
| step_admit_end: "c \<in> set (adm_active s) \<Longrightarrow> adm_step s (admit_end c s)"
| step_decision: "rid \<notin> res_id ` set (adm_committing s @ adm_waiting s)
     \<Longrightarrow> decision_begin rid ctx resp cs history s = (granted, rej, r, s') \<Longrightarrow> adm_step s s'"
| step_decision_wake: "r \<in> set (adm_waiting s) \<Longrightarrow> decision_wake r s = (granted, s')
     \<Longrightarrow> adm_step s s'"
| step_decision_end: "r \<in> set (adm_committing s) \<Longrightarrow> adm_step s (decision_end r s)"

inductive adm_reachable :: "policy \<Rightarrow> admission \<Rightarrow> bool" for pol where
  reach_new: "adm_reachable pol (new_admission pol)"
| reach_step: "adm_reachable pol s \<Longrightarrow> adm_step s s' \<Longrightarrow> adm_reachable pol s'"

inductive_cases adm_stepE: "adm_step s s'"

section \<open>Invariant\<close>

text \<open>
  What holds between any two stretches: the executing actions are pairwise compatible, so are
  the reservations being committed, identities are not shared, and under the reject policy
  nobody waits to execute and no two reservations hold actions that conflict.
\<close>

definition apart :: "reservation \<Rightarrow> reservation \<Rightarrow> bool" where
  "apart l r \<longleftrightarrow> (\<forall>a\<in>set (res_candidates l). \<forall>b\<in>set (res_candidates r). \<not> conflicts a b)"

definition adm_inv :: "admission \<Rightarrow> bool" where
  "adm_inv s \<longleftrightarrow>
     compatible (adm_active s)
     \<and> pairwise_list (\<lambda>l r. \<not> decision_conflicts s l r) (adm_committing s)
     \<and> distinct (map res_id (adm_committing s @ adm_waiting s))
     \<and> (adm_policy s = RejectPolicy \<longrightarrow>
          adm_pending s = []
          \<and> (\<forall>l\<in>set (adm_committing s @ adm_waiting s).
             \<forall>r\<in>set (adm_committing s @ adm_waiting s). res_id l \<noteq> res_id r \<longrightarrow> apart l r))"

lemma state_conflict_sym: "state_conflict l r = state_conflict r l"
  by (auto simp: state_conflict_def)

lemma apart_sym: "apart l r = apart r l"
  unfolding apart_def using conflicts_sym by blast

lemma decision_conflicts_alt:
  "decision_conflicts s l r \<longleftrightarrow> state_conflict l r \<or> adm_policy s \<noteq> RejectPolicy \<and> \<not> apart l r"
  by (auto simp: decision_conflicts_def apart_def list_ex_iff)

lemma decision_conflicts_sym: "decision_conflicts s l r = decision_conflicts s r l"
  by (simp add: decision_conflicts_alt state_conflict_sym [of l] apart_sym [of l])

lemma decision_conflicts_cong:
  "adm_policy s = adm_policy s' \<Longrightarrow> decision_conflicts s l r = decision_conflicts s' l r"
  by (simp add: decision_conflicts_def)

lemma adm_invD:
  assumes "adm_inv s"
  shows "compatible (adm_active s)"
    and "pairwise_list (\<lambda>l r. \<not> decision_conflicts s l r) (adm_committing s)"
    and "distinct (map res_id (adm_committing s @ adm_waiting s))"
    and "adm_policy s = RejectPolicy \<Longrightarrow> adm_pending s = []"
    and "adm_policy s = RejectPolicy \<Longrightarrow> l \<in> set (adm_committing s @ adm_waiting s) \<Longrightarrow>
      r \<in> set (adm_committing s @ adm_waiting s) \<Longrightarrow> res_id l \<noteq> res_id r \<Longrightarrow> apart l r"
  using assms unfolding adm_inv_def by blast+

lemma adm_inv_new: "adm_inv (new_admission pol)"
  by (simp add: adm_inv_def new_admission_def)

lemma ready_active: "ready s c \<Longrightarrow> a \<in> set (adm_active s) \<Longrightarrow> \<not> conflicts a c"
  by (auto simp: ready_def list_ex_iff split: if_splits)

lemma adm_inv_activate:
  assumes "adm_inv s" "ready s c"
  shows "adm_inv (activate c s)"
proof -
  have c: "compatible (adm_active s @ [c])"
    using adm_invD(1) [OF assms(1)] ready_active [OF assms(2)] by simp
  have d: "decision_conflicts (activate c s) = decision_conflicts s"
    by (rule ext, rule ext, rule decision_conflicts_cong) (simp add: activate_def)
  show ?thesis
    unfolding adm_inv_def d
    using c adm_invD(2-5) [OF assms(1)] by (simp add: activate_def)
qed

lemma adm_inv_pend:
  assumes "adm_inv s" "adm_policy s \<noteq> RejectPolicy"
  shows "adm_inv (s\<lparr>adm_pending := p\<rparr>)"
proof -
  have d: "decision_conflicts (s\<lparr>adm_pending := p\<rparr>) = decision_conflicts s"
    by (rule ext, rule ext, rule decision_conflicts_cong) simp
  show ?thesis unfolding adm_inv_def d using adm_invD(1-3) [OF assms(1)] assms(2) by simp
qed

text \<open>Under the reject policy an action that is not refused is ready at once.\<close>

lemma reject_ready:
  assumes "adm_inv s" "adm_policy s = RejectPolicy"
    and "List.find (\<lambda>other. conflicts other c) (history @ adm_active s) = None"
  shows "ready (s\<lparr>adm_pending := adm_pending s @ [c]\<rparr>) c"
  using adm_invD(4) [OF assms(1,2)] assms(3) by (auto simp: ready_def list_ex_iff find_None_iff)

lemma reject_activate:
  assumes "adm_inv s" "adm_policy s = RejectPolicy"
    and "List.find (\<lambda>other. conflicts other c) (history @ adm_active s) = None"
  shows "adm_inv (activate c (s\<lparr>adm_pending := adm_pending s @ [c]\<rparr>))"
proof -
  have e: "activate c (s\<lparr>adm_pending := adm_pending s @ [c]\<rparr>) = s\<lparr>adm_active := adm_active s @ [c]\<rparr>"
    using adm_invD(4) [OF assms(1,2)] by (simp add: activate_def)
  have c: "compatible (adm_active s @ [c])"
    using adm_invD(1) [OF assms(1)] assms(3) by (auto simp: find_None_iff)
  have d: "decision_conflicts (s\<lparr>adm_active := adm_active s @ [c]\<rparr>) = decision_conflicts s"
    by (rule ext, rule ext, rule decision_conflicts_cong) simp
  show ?thesis
    unfolding e adm_inv_def d using c adm_invD(2-5) [OF assms(1)] by simp
qed

lemma admit_begin_keeps [keeps]:
  assumes "adm_inv s" "admit_begin c history s = (out, history', s')"
  shows "adm_inv s'"
proof (cases "adm_policy s = RejectPolicy")
  case True
  with assms show ?thesis
    using reject_activate [OF assms(1) True] reject_ready [OF assms(1) True]
    by (auto simp: admit_begin_def Let_def split: option.splits if_splits)
next
  case False
  with assms show ?thesis
    using adm_inv_activate [OF adm_inv_pend [OF assms(1) False]] adm_inv_pend [OF assms(1) False]
    by (auto simp: admit_begin_def Let_def split: if_splits)
qed

lemma admit_wake_keeps [keeps]:
  assumes "adm_inv s" "admit_wake c history s = (out, history', s')"
  shows "adm_inv s'"
  using assms adm_inv_activate by (auto simp: admit_wake_def split: if_splits)

lemma admit_end_keeps [keeps]:
  assumes "adm_inv s"
  shows "adm_inv (admit_end c s)"
proof -
  have d: "decision_conflicts (admit_end c s) = decision_conflicts s"
    by (rule ext, rule ext, rule decision_conflicts_cong) (simp add: admit_end_def)
  show ?thesis
    unfolding adm_inv_def d using adm_invD [OF assms]
    by (simp add: admit_end_def pairwise_list_remove1)
qed

section \<open>The invariant of the decisions\<close>

definition reject_entry ::
  "candidate list \<Rightarrow> candidate \<Rightarrow> (string \<times> candidate) list \<Rightarrow> (string \<times> candidate) list" where
  "reject_entry admitted c d =
     (case List.find (\<lambda>other. conflicts other c) admitted of
        None \<Rightarrow> d | Some w \<Rightarrow> AList.update (cand_id c) w d)"

lemma reject_entry_None:
  "map_of (reject_entry admitted c d) x = None \<Longrightarrow>
     map_of d x = None \<and> (cand_id c = x \<longrightarrow> List.find (\<lambda>other. conflicts other c) admitted = None)"
  by (auto simp: reject_entry_def split: option.splits if_splits)

lemma reject_fold_None:
  "map_of (fold (reject_entry admitted) cs d) x = None \<Longrightarrow>
     map_of d x = None
     \<and> (\<forall>c\<in>set cs. cand_id c = x \<longrightarrow> List.find (\<lambda>other. conflicts other c) admitted = None)"
proof (induction cs arbitrary: d)
  case (Cons c cs)
  then have "map_of (fold (reject_entry admitted) cs (reject_entry admitted c d)) x = None" by simp
  from Cons.IH [OF this] reject_entry_None [of admitted c d x] show ?case by auto
qed simp

lemma rejections_alt:
  "adm_policy s = RejectPolicy \<Longrightarrow>
     rejections cs history s = fold (reject_entry (admitted_before history s)) cs []"
  unfolding rejections_def reject_entry_def [abs_def] by simp

lemma kept_no_conflict:
  assumes "adm_policy s = RejectPolicy" "c \<in> set cs"
    and "map_of (rejections cs history s) (cand_id c) = None" "a \<in> set (admitted_before history s)"
  shows "\<not> conflicts a c"
proof -
  have "List.find (\<lambda>other. conflicts other c) (admitted_before history s) = None"
    using reject_fold_None assms(2,3) unfolding rejections_alt [OF assms(1)] by blast
  then show ?thesis using assms(4) by (auto simp: find_None_iff)
qed

lemma make_reservation_apart:
  assumes "adm_policy s = RejectPolicy" "l \<in> set (adm_committing s @ adm_waiting s)"
  shows "apart l (make_reservation rid ctx resp cs history s)"
proof -
  have "set (res_candidates l) \<subseteq> set (admitted_before history s)"
    using assms(2) by (auto simp: admitted_before_def)
  then show ?thesis
    using kept_no_conflict [OF assms(1)]
    by (auto simp: apart_def make_reservation_def Let_def)
qed

lemma make_reservation_id [simp]: "res_id (make_reservation rid ctx resp cs history s) = rid"
  by (simp add: make_reservation_def Let_def)

lemma adm_inv_enqueue:
  assumes "adm_inv s" "res_id r \<notin> res_id ` set (adm_committing s @ adm_waiting s)"
    and "adm_policy s = RejectPolicy \<Longrightarrow> \<forall>l\<in>set (adm_committing s @ adm_waiting s). apart l r"
  shows "adm_inv (s\<lparr>adm_waiting := adm_waiting s @ [r]\<rparr>)"
proof -
  have d: "decision_conflicts (s\<lparr>adm_waiting := adm_waiting s @ [r]\<rparr>) = decision_conflicts s"
    by (rule ext, rule ext, rule decision_conflicts_cong) simp
  have "adm_policy s = RejectPolicy \<Longrightarrow>
      \<forall>l\<in>set (adm_committing s @ adm_waiting s) \<union> {r}.
      \<forall>q\<in>set (adm_committing s @ adm_waiting s) \<union> {r}. res_id l \<noteq> res_id q \<longrightarrow> apart l q"
    using assms(3) adm_invD(5) [OF assms(1)] apart_sym by blast
  then show ?thesis
    unfolding adm_inv_def d using adm_invD(1-4) [OF assms(1)] assms(2) by auto
qed

lemma decision_ready_committing:
  "decision_ready s r \<Longrightarrow> a \<in> set (adm_committing s) \<Longrightarrow> \<not> decision_conflicts s r a"
  by (auto simp: decision_ready_def list_ex_iff split: if_splits)

lemma remove_res_subset: "set (remove_res r rs) \<subseteq> set rs"
  by (auto simp: remove_res_def)

lemma remove_res_ids: "distinct (map res_id rs) \<Longrightarrow> distinct (map res_id (remove_res r rs))"
  by (simp add: remove_res_def distinct_map_filter)

lemma pairwise_list_remove_res:
  "pairwise_list q rs \<Longrightarrow> pairwise_list q (remove_res r rs)"
  by (simp add: pairwise_list_def remove_res_def sorted_wrt_filter)

lemma adm_inv_commit:
  assumes "adm_inv s" "r \<in> set (adm_waiting s)" "decision_ready s r"
  shows "adm_inv (commit_reservation r s)"
proof -
  have d: "decision_conflicts (commit_reservation r s) = decision_conflicts s"
    by (rule ext, rule ext, rule decision_conflicts_cong) (simp add: commit_reservation_def)
  have p: "pairwise_list (\<lambda>l r. \<not> decision_conflicts s l r) (adm_committing s @ [r])"
    using adm_invD(2) [OF assms(1)] decision_ready_committing [OF assms(3)]
    by (auto simp: decision_conflicts_sym [of s r])
  have i: "distinct (map res_id ((adm_committing s @ [r]) @ remove_res r (adm_waiting s)))"
    using adm_invD(3) [OF assms(1)] assms(2)
    by (auto simp: remove_res_def distinct_map_filter)
  have sub: "set ((adm_committing s @ [r]) @ remove_res r (adm_waiting s))
      \<subseteq> set (adm_committing s @ adm_waiting s)"
    using assms(2) remove_res_subset by fastforce
  have "adm_policy s = RejectPolicy \<Longrightarrow>
      \<forall>l\<in>set ((adm_committing s @ [r]) @ remove_res r (adm_waiting s)).
      \<forall>q\<in>set ((adm_committing s @ [r]) @ remove_res r (adm_waiting s)).
        res_id l \<noteq> res_id q \<longrightarrow> apart l q"
    using adm_invD(5) [OF assms(1)] sub by blast
  then show ?thesis
    unfolding adm_inv_def d using p i adm_invD(1,4) [OF assms(1)]
    by (simp add: commit_reservation_def)
qed

lemma decision_begin_keeps [keeps]:
  assumes "adm_inv s" "rid \<notin> res_id ` set (adm_committing s @ adm_waiting s)"
    and "decision_begin rid ctx resp cs history s = (granted, rej, r, s')"
  shows "adm_inv s'"
proof -
  let ?r = "make_reservation rid ctx resp cs history s"
  let ?s = "s\<lparr>adm_waiting := adm_waiting s @ [?r]\<rparr>"
  have "adm_inv ?s"
    by (rule adm_inv_enqueue [OF assms(1)]) (use assms(2) make_reservation_apart in auto)
  then show ?thesis
    using assms(3) adm_inv_commit [of ?s ?r] by (auto simp: decision_begin_def Let_def split: if_splits)
qed

lemma decision_wake_keeps [keeps]:
  assumes "adm_inv s" "r \<in> set (adm_waiting s)" "decision_wake r s = (granted, s')"
  shows "adm_inv s'"
  using assms adm_inv_commit by (auto simp: decision_wake_def split: if_splits)

lemma decision_end_keeps [keeps]:
  assumes "adm_inv s"
  shows "adm_inv (decision_end r s)"
proof -
  have d: "decision_conflicts (decision_end r s) = decision_conflicts s"
    by (rule ext, rule ext, rule decision_conflicts_cong) (simp add: decision_end_def)
  have i: "distinct (map res_id (remove_res r (adm_committing s) @ adm_waiting s))"
    using adm_invD(3) [OF assms] remove_res_subset by (fastforce simp: remove_res_ids)
  have "set (remove_res r (adm_committing s) @ adm_waiting s)
      \<subseteq> set (adm_committing s @ adm_waiting s)"
    using remove_res_subset by fastforce
  then have "adm_policy s = RejectPolicy \<Longrightarrow>
      \<forall>l\<in>set (remove_res r (adm_committing s) @ adm_waiting s).
      \<forall>q\<in>set (remove_res r (adm_committing s) @ adm_waiting s).
        res_id l \<noteq> res_id q \<longrightarrow> apart l q"
    using adm_invD(5) [OF assms] by blast
  then show ?thesis
    unfolding adm_inv_def d using i adm_invD(1,2,4) [OF assms]
    by (simp add: decision_end_def pairwise_list_remove_res)
qed

lemma adm_step_keeps:
  assumes "adm_step s s'" "adm_inv s"
  shows "adm_inv s'"
  using assms
  by (cases rule: adm_step.cases)
    (blast intro: admit_begin_keeps admit_wake_keeps admit_end_keeps decision_begin_keeps
      decision_wake_keeps decision_end_keeps)+

lemma adm_reachable_inv: "adm_reachable pol s \<Longrightarrow> adm_inv s"
  by (induction rule: adm_reachable.induct) (auto intro: adm_inv_new adm_step_keeps)

section \<open>Progress\<close>

lemma least_exists:
  fixes f :: "'a \<Rightarrow> 'b::linorder"
  assumes "finite S" "S \<noteq> {}"
  shows "\<exists>x\<in>S. \<forall>y\<in>S. f x \<le> f y"
proof -
  have "Min (f ` S) \<in> f ` S" using assms by simp
  then obtain x where "x \<in> S" "f x = Min (f ` S)" by auto
  then show ?thesis using assms(1) by (auto intro!: bexI [of _ x])
qed

lemma goes_first_least:
  assumes "finite S" "S \<noteq> {}"
  shows "\<exists>x\<in>S. \<forall>y\<in>S. \<not> goes_first (p y) (i y) (p x) (i x)"
proof -
  obtain a where a: "a \<in> S" "\<forall>y\<in>S. - p a \<le> - p y" using least_exists [OF assms, of "\<lambda>x. - p x"] by auto
  have "finite {y \<in> S. p y = p a}" "{y \<in> S. p y = p a} \<noteq> {}" using assms(1) a(1) by auto
  from least_exists [OF this, of i] obtain x where x: "x \<in> S" "p x = p a" "\<forall>y\<in>S. p y = p a \<longrightarrow> i x \<le> i y"
    by auto
  have "\<not> goes_first (p y) (i y) (p x) (i x)" if "y \<in> S" for y
    using a(2) x(2,3) that by (auto simp: goes_first_def)
  with x(1) show ?thesis by blast
qed

lemma readyI:
  assumes "\<And>a. a \<in> set (adm_active s) \<Longrightarrow> \<not> conflicts a c"
    and "\<And>other. other \<in> set (adm_pending s) \<Longrightarrow> adm_policy s = PriorityPolicy \<Longrightarrow>
      \<not> goes_first (ctx_priority (cand_context other)) (index_of other (adm_pending s))
          (ctx_priority (cand_context c)) (index_of c (adm_pending s))"
    and "\<And>other. other \<in> set (adm_pending s) \<Longrightarrow> adm_policy s \<noteq> PriorityPolicy \<Longrightarrow>
      \<not> index_of other (adm_pending s) < index_of c (adm_pending s)"
  shows "ready s c"
  using assms by (auto simp: ready_def list_ex_iff list_all_iff)

lemma some_ready:
  assumes "adm_active s = []" "adm_pending s \<noteq> []"
  shows "\<exists>c\<in>set (adm_pending s). ready s c"
proof (cases "adm_policy s = PriorityPolicy")
  case True
  obtain c where "c \<in> set (adm_pending s)" "\<forall>y\<in>set (adm_pending s).
      \<not> goes_first (ctx_priority (cand_context y)) (index_of y (adm_pending s))
          (ctx_priority (cand_context c)) (index_of c (adm_pending s))"
    using goes_first_least [of "set (adm_pending s)" "\<lambda>c. ctx_priority (cand_context c)"
      "\<lambda>c. index_of c (adm_pending s)"] assms(2) by auto
  with True assms(1) show ?thesis by (intro bexI [of _ c] readyI) auto
next
  case False
  obtain c where "c \<in> set (adm_pending s)"
    "\<forall>y\<in>set (adm_pending s). index_of c (adm_pending s) \<le> index_of y (adm_pending s)"
    using least_exists [of "set (adm_pending s)" "\<lambda>c. index_of c (adm_pending s)"] assms(2) by auto
  with False assms(1) show ?thesis by (intro bexI [of _ c] readyI) auto
qed

lemma decision_readyI:
  assumes "\<And>a. a \<in> set (adm_committing s) \<Longrightarrow> \<not> decision_conflicts s r a"
    and "\<And>i. i < length (adm_waiting s) \<Longrightarrow> adm_policy s = PriorityPolicy \<Longrightarrow>
      \<not> goes_first (res_priority (adm_waiting s ! i)) i (res_priority r) (res_index r (adm_waiting s))"
    and "\<And>i. i < length (adm_waiting s) \<Longrightarrow> adm_policy s \<noteq> PriorityPolicy \<Longrightarrow>
      \<not> i < res_index r (adm_waiting s)"
  shows "decision_ready s r"
  using assms by (auto simp: decision_ready_def list_ex_iff list_all_iff in_set_zip)

lemma index_of_nth: "distinct xs \<Longrightarrow> i < length xs \<Longrightarrow> index_of (xs ! i) xs = i"
  by (metis index_of_less nth_eq_iff_index_eq nth_index_of nth_mem)

lemma res_index_nth:
  assumes "distinct (map res_id rs)" "i < length rs"
  shows "res_index (rs ! i) rs = i"
  using index_of_nth [OF assms(1)] assms(2) by (simp add: res_index_def)

lemma some_decision_ready:
  assumes "adm_inv s" "adm_committing s = []" "adm_waiting s \<noteq> []"
  shows "\<exists>r\<in>set (adm_waiting s). decision_ready s r"
proof -
  let ?w = "adm_waiting s"
  have d: "distinct (map res_id ?w)" using adm_invD(3) [OF assms(1)] by simp
  obtain i where i: "i < length ?w"
    "\<forall>j<length ?w. \<not> goes_first (res_priority (?w ! j)) j (res_priority (?w ! i)) i"
    using goes_first_least [of "{..<length ?w}" "\<lambda>i. res_priority (?w ! i)" "\<lambda>i. i"] assms(3)
    by auto
  show ?thesis
  proof (cases "adm_policy s = PriorityPolicy")
    case True
    have "decision_ready s (?w ! i)"
      using i True assms(2) by (intro decision_readyI) (auto simp: res_index_nth [OF d])
    with i show ?thesis by auto
  next
    case False
    have "res_index (?w ! 0) ?w = 0" using assms(3) by (intro res_index_nth [OF d]) simp
    then have "decision_ready s (?w ! 0)"
      using False assms(2) by (intro decision_readyI) auto
    with assms(3) show ?thesis by auto
  qed
qed

lemma admitted_ready:
  "admit_wake c history s = (Admitted, history', s') \<Longrightarrow> ready s c \<and> s' = activate c s"
  by (auto simp: admit_wake_def split: if_splits)

lemma ready_order:
  assumes "ready s c" "other \<in> set (adm_pending s)" "other \<noteq> c" "conflicts other c"
  shows "if adm_policy s = PriorityPolicy
     then ctx_priority (cand_context other) \<le> ctx_priority (cand_context c)
       \<and> (ctx_priority (cand_context other) = ctx_priority (cand_context c) \<longrightarrow>
            index_of c (adm_pending s) \<le> index_of other (adm_pending s))
     else index_of c (adm_pending s) \<le> index_of other (adm_pending s)"
  using assms by (auto simp: ready_def list_all_iff goes_first_def split: if_splits)

section \<open>Properties\<close>

text \<open>C2. However the threads interleave, no two actions that conflict execute at the same time, and
  no two decisions that conflict, in the shared state they touch or (outside the reject policy)
  in their actions, commit at the same time; under the reject policy, where actions are not compared
  between reservations at commit time, no two reservations hold actions that conflict.\<close>

theorem admission_excludes_conflicts:
  assumes "adm_reachable pol s"
  shows "compatible (adm_active s)
    \<and> pairwise_list (\<lambda>l r. \<not> decision_conflicts s l r) (adm_committing s)
    \<and> (adm_policy s = RejectPolicy \<longrightarrow>
        (\<forall>l\<in>set (adm_committing s @ adm_waiting s). \<forall>r\<in>set (adm_committing s @ adm_waiting s).
           res_id l \<noteq> res_id r \<longrightarrow> apart l r))"
  using adm_invD [OF adm_reachable_inv [OF assms]] by blast

text \<open>C24. The admission does not deadlock by itself: in every reachable state, once nothing executes a
  waiting action is ready, and once nothing commits a waiting decision is ready; under the
  reject policy no action waits at all.\<close>

theorem admission_progress:
  assumes "adm_reachable pol s"
  shows "(adm_active s = [] \<and> adm_pending s \<noteq> [] \<longrightarrow> (\<exists>c\<in>set (adm_pending s). ready s c))
    \<and> (adm_committing s = [] \<and> adm_waiting s \<noteq> [] \<longrightarrow> (\<exists>r\<in>set (adm_waiting s). decision_ready s r))
    \<and> (adm_policy s = RejectPolicy \<longrightarrow> adm_pending s = [])"
  using adm_reachable_inv [OF assms] some_ready some_decision_ready adm_invD(4) by blast

text \<open>A waiting action starts only when nothing it conflicts with executes and, among the waiting
  actions it conflicts with, none has a higher priority and none of equal priority arrived
  earlier (under the serialize policy: none arrived earlier).\<close>

lemma admission_order:
  assumes "admit_wake c history s = (Admitted, history', s')"
  shows "(\<forall>a\<in>set (adm_active s). \<not> conflicts a c)
    \<and> (\<forall>other\<in>set (adm_pending s). other \<noteq> c \<and> conflicts other c \<longrightarrow>
        (if adm_policy s = PriorityPolicy
         then ctx_priority (cand_context other) \<le> ctx_priority (cand_context c)
           \<and> (ctx_priority (cand_context other) = ctx_priority (cand_context c) \<longrightarrow>
                index_of c (adm_pending s) \<le> index_of other (adm_pending s))
         else index_of c (adm_pending s) \<le> index_of other (adm_pending s)))
    \<and> s' = activate c s \<and> history' = history @ [c]"
proof -
  have r: "ready s c" "s' = activate c s" using admitted_ready [OF assms] by auto
  moreover have "history' = history @ [c]" using assms by (auto simp: admit_wake_def split: if_splits)
  ultimately show ?thesis using ready_active ready_order by blast
qed

section \<open>Witnesses\<close>

definition sample_waiting :: "policy \<Rightarrow> admission" where
  "sample_waiting pol =
     (new_admission pol)\<lparr>adm_active := [sample_candidate ''p'' 0], adm_pending := [sample_candidate ''q'' 1]\<rparr>"

lemma sample_waiting_reachable: "adm_reachable SerializePolicy (sample_waiting SerializePolicy)"
proof -
  let ?s = "(new_admission SerializePolicy)\<lparr>adm_active := [sample_candidate ''p'' 0]\<rparr>"
  have "admit_begin (sample_candidate ''p'' 0) [] (new_admission SerializePolicy)
      = (Admitted, [sample_candidate ''p'' 0], ?s)"
    by (simp add: admit_begin_def new_admission_def ready_def activate_def)
  then have 1: "adm_reachable SerializePolicy ?s"
    by (intro reach_step [OF reach_new] step_admit)
  have "admit_begin (sample_candidate ''q'' 1) [] ?s = (Waits, [], sample_waiting SerializePolicy)"
    by (simp add: admit_begin_def new_admission_def ready_def sample_waiting_def conflicts_def
      sample_candidate_def)
  then show ?thesis by (intro reach_step [OF 1] step_admit)
qed

theorem admission_excludes_conflicts_witness:
  "compatible (adm_active (sample_waiting SerializePolicy))"
  using admission_excludes_conflicts [OF sample_waiting_reachable] by blast

theorem admission_progress_witness:
  "\<exists>c\<in>set [sample_candidate ''q'' 1].
     ready (admit_end (sample_candidate ''p'' 0) (sample_waiting SerializePolicy)) c"
proof -
  let ?s = "admit_end (sample_candidate ''p'' 0) (sample_waiting SerializePolicy)"
  have "sample_candidate ''p'' 0 \<in> set (adm_active (sample_waiting SerializePolicy))"
    by (simp add: sample_waiting_def)
  from reach_step [OF sample_waiting_reachable step_admit_end [OF this]]
  have r: "adm_reachable SerializePolicy ?s" .
  have "adm_active ?s = []" "adm_pending ?s = [sample_candidate ''q'' 1]"
    by (simp_all add: admit_end_def sample_waiting_def)
  with admission_progress [OF r] show ?thesis by simp
qed

end
