(* ===== verification/Leases.thy ===== *)
theory Leases
  imports Channel Graph
begin

text \<open>
  The invocation budget of \<open>CoordinationRuntime\<close> (\<open>mininet_ai/coordination/routing.py\<close>): the
  counters under the \<open>_slots\<close> condition, the leases that hold a slot until they are closed,
  request sessions and shutdown. \<open>lease_step\<close> is what the threads of the runtime can do to
  the counters, one stretch under the lock at a time.

  A lease closes over its agent and a flag under a lock of its own; leases are numbered by
  their position in the list of all leases ever given out.
\<close>

section \<open>Errors\<close>

text \<open>
  What can be raised while a request is coordinated. \<open>RaisedElsewhere\<close> is an exception of the
  invoker, the catalog or the id factory, with its \<open>code\<close> attribute when it has one;
  \<open>UnknownAgent\<close> and \<open>KeyMissing\<close> are the \<open>KeyError\<close>s of the dictionary lookups,
  \<open>NotPending\<close> the \<open>ValueError\<close> of \<open>list.remove\<close>.
\<close>

datatype coord_error =
    CoordClosed
  | ChannelTooLarge
  | LeaseOfOtherAgent
  | IdentityMismatch
  | KindUnexpected
  | MessageIdEmpty
  | UnknownAgent agent_id
  | KeyMissing string
  | ChannelRaised channel_error
  | GraphRaised graph_error
  | MessageRejected message_error
  | ContractRejected
  | NotPending
  | RaisedElsewhere "string option"

fun coord_code :: "coord_error \<Rightarrow> string option" where
  "coord_code CoordClosed = Some ''coordination.closed''"
| "coord_code ChannelTooLarge = Some ''coordination.channel.limit-exceeded''"
| "coord_code LeaseOfOtherAgent = Some ''coordination.invocation.invalid-identity''"
| "coord_code IdentityMismatch = Some ''coordination.invocation.invalid-identity''"
| "coord_code KindUnexpected = Some ''coordination.message.kind-invalid''"
| "coord_code MessageIdEmpty = Some ''coordination.message.invalid-id''"
| "coord_code (UnknownAgent _) = None"
| "coord_code (KeyMissing _) = None"
| "coord_code (ChannelRaised e) = channel_code e"
| "coord_code (GraphRaised e) = graph_code e"
| "coord_code (MessageRejected _) = None"
| "coord_code ContractRejected = None"
| "coord_code NotPending = None"
| "coord_code (RaisedElsewhere c) = c"

section \<open>State and operations\<close>

record slots =
  sl_max :: int
  sl_active :: int
  sl_requests :: int
  sl_closing :: bool
  sl_agents :: "agent_id \<rightharpoonup> int"
  sl_limits :: "agent_id \<rightharpoonup> int"

record lease =
  lease_agent :: agent_id
  lease_released :: bool

definition new_slots :: "int \<Rightarrow> (agent_id \<times> int) list \<Rightarrow> slots" where
  "new_slots n limits =
     \<lparr>sl_max = n, sl_active = 0, sl_requests = 0, sl_closing = False,
      sl_agents = map_of (map (\<lambda>(a, _). (a, 0)) (rev limits)), sl_limits = map_of (rev limits)\<rparr>"

definition available :: "slots \<Rightarrow> agent_id \<Rightarrow> coord_error + bool" where
  "available s a =
     (if \<not> sl_active s < sl_max s then Inr False
      else case (sl_agents s a, sl_limits s a) of
             (Some n, Some l) \<Rightarrow> Inr (n < l)
           | _ \<Rightarrow> Inl (UnknownAgent a))"

definition allocate :: "agent_id \<Rightarrow> slots \<Rightarrow> coord_error + lease \<times> slots" where
  "allocate a s =
     (case sl_agents s a of
        None \<Rightarrow> Inl (UnknownAgent a)
      | Some n \<Rightarrow>
          Inr (\<lparr>lease_agent = a, lease_released = False\<rparr>,
               s\<lparr>sl_active := sl_active s + 1, sl_agents := (sl_agents s)(a \<mapsto> n + 1)\<rparr>))"

definition release_slot :: "agent_id \<Rightarrow> slots \<Rightarrow> slots" where
  "release_slot a s =
     s\<lparr>sl_active := sl_active s - 1,
       sl_agents := (sl_agents s)(a := map_option (\<lambda>n. n - 1) (sl_agents s a))\<rparr>"

definition close_lease :: "lease \<Rightarrow> slots \<Rightarrow> lease \<times> slots" where
  "close_lease l s =
     (if lease_released l then (l, s)
      else (l\<lparr>lease_released := True\<rparr>, release_slot (lease_agent l) s))"

definition lease_active :: "lease \<Rightarrow> bool" where
  "lease_active l = (\<not> lease_released l)"

text \<open>
  One evaluation of the wait condition of \<open>reserve_invocation\<close>, with what follows when it
  holds: \<open>Inr None\<close> is a call that goes on waiting.
\<close>

definition reserve_pass :: "agent_id \<Rightarrow> slots \<Rightarrow> coord_error + (lease \<times> slots) option" where
  "reserve_pass a s =
     (if sl_closing s then Inl CoordClosed
      else bind_res (available s a) (\<lambda>ok.
        if ok then bind_res (allocate a s) (\<lambda>r. Inr (Some r)) else Inr None))"

definition session_enter :: "slots \<Rightarrow> coord_error + slots" where
  "session_enter s =
     (if sl_closing s then Inl CoordClosed else Inr (s\<lparr>sl_requests := sl_requests s + 1\<rparr>))"

definition session_exit :: "slots \<Rightarrow> slots" where
  "session_exit s = s\<lparr>sl_requests := sl_requests s - 1\<rparr>"

definition close_begin :: "slots \<Rightarrow> slots" where
  "close_begin s = s\<lparr>sl_closing := True\<rparr>"

text \<open>Whether the wait of \<open>close\<close> ends.\<close>

definition close_ready :: "slots \<Rightarrow> bool" where
  "close_ready s = (sl_requests s = 0)"

section \<open>All threads\<close>

text \<open>
  \<open>lease_step\<close> relates the counters, the leases and the number of open sessions; an
  allocation comes from \<open>reserve_invocation\<close> or from \<open>_take_invocation\<close>, which checks
  \<open>_available\<close> under the same lock. Only a session that was entered is left.
\<close>

inductive lease_step :: "slots \<times> lease list \<times> nat \<Rightarrow> slots \<times> lease list \<times> nat \<Rightarrow> bool" where
  step_reserve: "reserve_pass a s = Inr (Some (l, s')) \<Longrightarrow> lease_step (s, ls, n) (s', ls @ [l], n)"
| step_take: "available s a = Inr True \<Longrightarrow> allocate a s = Inr (l, s')
     \<Longrightarrow> lease_step (s, ls, n) (s', ls @ [l], n)"
| step_close: "i < length ls \<Longrightarrow> close_lease (ls ! i) s = (l, s')
     \<Longrightarrow> lease_step (s, ls, n) (s', ls[i := l], n)"
| step_enter: "session_enter s = Inr s' \<Longrightarrow> lease_step (s, ls, n) (s', ls, Suc n)"
| step_exit: "lease_step (s, ls, Suc n) (session_exit s, ls, n)"
| step_shutdown: "lease_step (s, ls, n) (close_begin s, ls, n)"

inductive lease_reachable :: "int \<Rightarrow> (agent_id \<times> int) list \<Rightarrow> slots \<times> lease list \<times> nat \<Rightarrow> bool"
  for m limits where
  lr_new: "lease_reachable m limits (new_slots m limits, [], 0)"
| lr_step: "lease_reachable m limits st \<Longrightarrow> lease_step st st' \<Longrightarrow> lease_reachable m limits st'"

section \<open>Invariant\<close>

definition open_leases :: "lease list \<Rightarrow> lease list" where
  "open_leases ls = filter (\<lambda>l. \<not> lease_released l) ls"

definition open_of :: "agent_id \<Rightarrow> lease list \<Rightarrow> int" where
  "open_of a ls = int (length (filter (\<lambda>l. \<not> lease_released l \<and> lease_agent l = a) ls))"

text \<open>
  The counters are the open leases, in total and per agent, and stay within the budget; the
  request counter is the number of open sessions.
\<close>

definition slots_inv :: "int \<Rightarrow> (agent_id \<times> int) list \<Rightarrow> slots \<times> lease list \<times> nat \<Rightarrow> bool" where
  "slots_inv m limits = (\<lambda>(s, ls, n).
     sl_max s = m \<and> sl_limits s = map_of (rev limits)
     \<and> (\<forall>a. sl_agents s a = None \<longleftrightarrow> sl_limits s a = None)
     \<and> sl_active s = int (length (open_leases ls)) \<and> sl_active s \<le> max 0 m
     \<and> (\<forall>l\<in>set ls. sl_limits s (lease_agent l) \<noteq> None)
     \<and> (\<forall>a k. sl_agents s a = Some k \<longrightarrow> k = open_of a ls)
     \<and> (\<forall>a l. sl_limits s a = Some l \<longrightarrow> open_of a ls \<le> max 0 l)
     \<and> sl_requests s = int n)"

lemma open_of_append: "open_of a (ls @ [l]) =
    open_of a ls + (if \<not> lease_released l \<and> lease_agent l = a then 1 else 0)"
  by (simp add: open_of_def)

lemma open_leases_append: "length (open_leases (ls @ [l])) =
    length (open_leases ls) + (if lease_released l then 0 else 1)"
  by (simp add: open_leases_def)

lemma filter_update_length:
  assumes "i < length xs"
  shows "int (length (filter p (xs[i := x]))) =
    int (length (filter p xs)) - (if p (xs ! i) then 1 else 0) + (if p x then 1 else 0)"
proof -
  have "xs = take i xs @ xs ! i # drop (Suc i) xs" using assms by (rule id_take_nth_drop)
  then have "length (filter p xs) = length (filter p (take i xs @ xs ! i # drop (Suc i) xs))" by simp
  then show ?thesis using assms by (simp add: upd_conv_take_nth_drop)
qed

lemma open_of_update:
  assumes "i < length ls"
  shows "open_of a (ls[i := l]) = open_of a ls
    - (if \<not> lease_released (ls ! i) \<and> lease_agent (ls ! i) = a then 1 else 0)
    + (if \<not> lease_released l \<and> lease_agent l = a then 1 else 0)"
  using filter_update_length [OF assms, of "\<lambda>l. \<not> lease_released l \<and> lease_agent l = a" l]
  by (simp add: open_of_def)

lemma open_leases_update:
  assumes "i < length ls"
  shows "int (length (open_leases (ls[i := l]))) = int (length (open_leases ls))
    - (if \<not> lease_released (ls ! i) then 1 else 0) + (if \<not> lease_released l then 1 else 0)"
  using filter_update_length [OF assms, of "\<lambda>l. \<not> lease_released l" l] by (simp add: open_leases_def)

lemma map_of_zero_keys:
  "map_of (map (\<lambda>(a, _). (a, 0::int)) xs) a = map_option (\<lambda>_. 0) (map_of xs a)"
  by (induction xs) auto

lemma slots_inv_new: "slots_inv m limits (new_slots m limits, [], 0)"
  unfolding slots_inv_def new_slots_def
  by (simp add: open_leases_def open_of_def map_of_zero_keys)

lemma slots_invD:
  assumes "slots_inv m limits (s, ls, n)"
  shows "sl_max s = m" "sl_limits s = map_of (rev limits)"
    and "sl_agents s a = None \<longleftrightarrow> sl_limits s a = None"
    and "sl_active s = int (length (open_leases ls))" "sl_active s \<le> max 0 m"
    and "l \<in> set ls \<Longrightarrow> sl_limits s (lease_agent l) \<noteq> None"
    and "sl_agents s a = Some k \<Longrightarrow> k = open_of a ls"
    and "sl_limits s a = Some j \<Longrightarrow> open_of a ls \<le> max 0 j"
    and "sl_requests s = int n"
  using assms unfolding slots_inv_def by blast+

lemma slots_invI:
  assumes "sl_max s = m" "sl_limits s = map_of (rev limits)"
    and "\<And>a. sl_agents s a = None \<longleftrightarrow> sl_limits s a = None"
    and "sl_active s = int (length (open_leases ls))" "sl_active s \<le> max 0 m"
    and "\<And>l. l \<in> set ls \<Longrightarrow> sl_limits s (lease_agent l) \<noteq> None"
    and "\<And>a k. sl_agents s a = Some k \<Longrightarrow> k = open_of a ls"
    and "\<And>a j. sl_limits s a = Some j \<Longrightarrow> open_of a ls \<le> max 0 j"
    and "sl_requests s = int n"
  shows "slots_inv m limits (s, ls, n)"
  using assms unfolding slots_inv_def by blast

lemma available_True:
  assumes "available s a = Inr True"
  obtains k l where "sl_active s < sl_max s" "sl_agents s a = Some k" "sl_limits s a = Some l" "k < l"
  using assms by (auto simp: available_def split: if_splits option.splits)

lemma allocate_keeps [keeps]:
  assumes inv: "slots_inv m limits (s, ls, n)" and av: "available s a = Inr True"
    and al: "allocate a s = Inr (l, s')"
  shows "slots_inv m limits (s', ls @ [l], n)"
proof -
  obtain k lim where k: "sl_active s < sl_max s" "sl_agents s a = Some k" "sl_limits s a = Some lim" "k < lim"
    using av by (rule available_True)
  have s': "s' = s\<lparr>sl_active := sl_active s + 1, sl_agents := (sl_agents s)(a \<mapsto> k + 1)\<rparr>"
    "l = \<lparr>lease_agent = a, lease_released = False\<rparr>"
    using al k(2) by (auto simp: allocate_def)
  have ko: "k = open_of a ls" using slots_invD(7) [OF inv k(2)] .
  show ?thesis unfolding s'
  proof (rule slots_invI, goal_cases)
    case (7 b j)
    then show ?case using slots_invD(7) [OF inv, of b] ko by (auto simp: open_of_append split: if_splits)
  next
    case (8 b j)
    then show ?case using slots_invD(8) [OF inv, of b j] ko k(3,4) by (auto simp: open_of_append)
  qed (use slots_invD [OF inv] k in \<open>auto simp: open_leases_append\<close>)
qed

lemma close_lease_keeps [keeps]:
  assumes inv: "slots_inv m limits (s, ls, n)" and i: "i < length ls"
    and cl: "close_lease (ls ! i) s = (l, s')"
  shows "slots_inv m limits (s', ls[i := l], n)"
proof (cases "lease_released (ls ! i)")
  case True
  with cl have "l = ls ! i" "s' = s" by (auto simp: close_lease_def)
  with inv show ?thesis by simp
next
  case False
  let ?a = "lease_agent (ls ! i)"
  have s': "s' = release_slot ?a s" "l = (ls ! i)\<lparr>lease_released := True\<rparr>"
    using cl False by (auto simp: close_lease_def)
  have mem: "ls ! i \<in> set ls" using i by simp
  have sub: "\<exists>q'\<in>set ls. lease_agent q = lease_agent q'" if "q \<in> set (ls[i := l])" for q
  proof (cases "q = l")
    case True
    then have "lease_agent q = ?a" using s'(2) by simp
    with mem show ?thesis by blast
  next
    case False
    then have "q \<in> set ls" using that set_update_subset_insert [of ls i l] by blast
    then show ?thesis by blast
  qed
  show ?thesis unfolding s'(1)
  proof (rule slots_invI, goal_cases)
    case (6 q)
    then show ?case using sub slots_invD(6) [OF inv] by (fastforce simp: release_slot_def)
  next
    case (7 b k)
    then show ?case
      using slots_invD(7) [OF inv, of b] False
      by (auto simp: open_of_update [OF i] s'(2) release_slot_def split: if_splits)
  next
    case (8 b j)
    then have "sl_limits s b = Some j" by (simp add: release_slot_def)
    from slots_invD(8) [OF inv this] show ?case
      using False by (simp add: open_of_update [OF i] s'(2))
  qed (use slots_invD [OF inv] False in \<open>auto simp: open_leases_update [OF i] release_slot_def s'(2)\<close>)
qed

lemma lease_step_keeps:
  assumes "lease_step st st'" "slots_inv m limits st"
  shows "slots_inv m limits st'"
  using assms
proof (cases rule: lease_step.cases)
  case (step_reserve a s l s' ls n)
  then have "available s a = Inr True" "allocate a s = Inr (l, s')"
    by (auto simp: reserve_pass_def bind_res_Inr_iff split: if_splits)
  with step_reserve assms(2) show ?thesis by (auto intro: allocate_keeps)
next
  case (step_take s a l s' ls n)
  with assms(2) show ?thesis by (auto intro: allocate_keeps)
next
  case (step_close i ls s l s' n)
  with assms(2) show ?thesis by (auto intro: close_lease_keeps)
next
  case (step_enter s s' ls n)
  then have "s' = s\<lparr>sl_requests := sl_requests s + 1\<rparr>" by (auto simp: session_enter_def split: if_splits)
  moreover have "slots_inv m limits (s, ls, n)" using step_enter assms(2) by simp
  ultimately show ?thesis unfolding step_enter(2) slots_inv_def by auto
qed (use assms(2) in \<open>simp_all add: slots_inv_def session_exit_def close_begin_def\<close>)

lemma lease_reachable_inv: "lease_reachable m limits st \<Longrightarrow> slots_inv m limits st"
  by (induction rule: lease_reachable.induct) (auto intro: slots_inv_new lease_step_keeps)

section \<open>Property\<close>

text \<open>C18. However leases are reserved, taken and closed, also more than once, the invocations that hold a
  slot are never more than the deployment's limit, nor more than the agent's own limit for any
  agent, the counters are exactly the open leases, and closing a lease again changes nothing.\<close>

theorem invocation_budget_respected:
  assumes "lease_reachable m limits (s, ls, n)"
  shows "int (length (open_leases ls)) \<le> max 0 m \<and> sl_active s = int (length (open_leases ls))
    \<and> (\<forall>a l. map_of (rev limits) a = Some l \<longrightarrow>
         open_of a ls \<le> max 0 l \<and> sl_agents s a = Some (open_of a ls))
    \<and> (\<forall>l s'. close_lease l s = (l', s') \<longrightarrow> close_lease l' s' = (l', s'))
    \<and> sl_requests s = int n"
proof -
  have inv: "slots_inv m limits (s, ls, n)" using assms by (rule lease_reachable_inv)
  have "open_of a ls \<le> max 0 j \<and> sl_agents s a = Some (open_of a ls)"
    if "map_of (rev limits) a = Some j" for a j
  proof -
    have j: "sl_limits s a = Some j" using that slots_invD(2) [OF inv] by simp
    then obtain k where k: "sl_agents s a = Some k" using slots_invD(3) [OF inv, of a] by auto
    show ?thesis using slots_invD(8) [OF inv j] slots_invD(7) [OF inv k] k by simp
  qed
  moreover have "close_lease l s = (l', s') \<Longrightarrow> close_lease l' s' = (l', s')" for l s'
    by (auto simp: close_lease_def split: if_splits)
  ultimately show ?thesis using slots_invD(4,5,9) [OF inv] by simp
qed

theorem invocation_budget_respected_witness:
  "\<exists>s ls. lease_reachable 1 [(''a'', 2)] (s, ls, 0) \<and> length (open_leases ls) = 1
     \<and> sl_active s = 1 \<and> reserve_pass ''a'' s = Inr None"
proof -
  let ?s = "(new_slots 1 [(''a'', 2)])\<lparr>sl_active := 1, sl_agents := [''a'' \<mapsto> 1]\<rparr>"
  let ?l = "\<lparr>lease_agent = ''a'', lease_released = False\<rparr>"
  have "reserve_pass ''a'' (new_slots 1 [(''a'', 2)]) = Inr (Some (?l, ?s))"
    by (simp add: reserve_pass_def available_def allocate_def new_slots_def)
  then have r: "lease_reachable 1 [(''a'', 2)] (?s, [] @ [?l], 0)"
    by (intro lr_step [OF lr_new] step_reserve)
  from invocation_budget_respected [OF r] have "sl_active ?s = int (length (open_leases ([] @ [?l])))"
    by blast
  with r show ?thesis
    by (intro exI [of _ ?s] exI [of _ "[?l]"])
      (simp add: reserve_pass_def available_def new_slots_def open_leases_def)
qed

end
