(* ===== verification/Commit.thy ===== *)
theory Commit
  imports Arbitration Admission Leases
begin

text \<open>
  Committing one prepared invocation (\<open>_commit_prepared\<close> and \<open>_finish_prepared\<close> of
  \<open>mininet_ai/coordination/routing.py\<close>): validate every proposed action, arbitrate the valid
  ones, and then, in commit order, refuse or validate again, admit and execute each of them.

  The invoker, the admission of the other threads and the catalog are other code. What their
  calls return for this invocation is the record \<open>answers\<close>: each call is made at most once for
  an action (validation once before and once after arbitration), so functions of the action
  describe every run. \<open>ans_rejections\<close> is what \<open>ActionAdmission.decision\<close> yields and
  \<open>ans_admit\<close> the winner that \<open>ActionAdmission.admit\<close> yields.

  \<open>fin_fates\<close> records which branch of the loop each action took.
\<close>

section \<open>Data\<close>

record prepared =
  prep_context :: agent_context
  prep_response :: agent_response

record answers =
  ans_validate :: "action_proposal \<Rightarrow> coord_error + action_result option"
  ans_rejections :: "candidate list \<Rightarrow> (string \<times> candidate) list"
  ans_revalidate :: "action_proposal \<Rightarrow> coord_error + action_result option"
  ans_admit :: "candidate \<Rightarrow> candidate option"
  ans_execute :: "action_proposal \<Rightarrow> coord_error + action_result"
  ans_reject :: "action_proposal \<Rightarrow> string \<Rightarrow> coord_error + action_result"
  ans_complete :: "action_result list \<Rightarrow> coord_error + invocation_result"

datatype fate = BundleStopped | LostArbitration | NowInvalid | Executed action_status | LostAdmission

record finish =
  fin_results :: "string \<rightharpoonup> action_result"
  fin_decisions :: "(string \<times> decision) list"
  fin_halted :: bool
  fin_fates :: "fate list"

record arbitration_report =
  rep_policy :: policy
  rep_decisions :: "decision list"

section \<open>Operations\<close>

definition bounded_bundle :: "agent_response \<Rightarrow> bool" where
  "bounded_bundle r =
     (map_of (resp_metadata r) ''executionKind'' = Some (JStr ''bounded-decision'')
      \<and> map_of (resp_metadata r) ''selectedChoice'' = Some (JStr ''install_recovery''))"

definition keyed_decisions :: "decision list \<Rightarrow> (string \<times> decision) list" where
  "keyed_decisions ds = fold (\<lambda>d al. AList.update (dec_candidate_id d) d al) ds []"

text \<open>\<open>decisions[id].model_copy(update=...)\<close>, with a winner when the update names one.\<close>

definition revise_decision ::
  "string \<Rightarrow> string option \<Rightarrow> finish \<Rightarrow> coord_error + finish" where
  "revise_decision i winner st =
     (case map_of (fin_decisions st) i of
        None \<Rightarrow> Inl (KeyMissing i)
      | Some d \<Rightarrow>
          (let d' = d\<lparr>dec_disposition := Reject, dec_commit_order := None,
                      dec_winner := (case winner of None \<Rightarrow> dec_winner d | Some w \<Rightarrow> Some w)\<rparr>
           in Inr (st\<lparr>fin_decisions := AList.update i d' (fin_decisions st)\<rparr>)))"

definition put_result :: "string \<Rightarrow> action_result \<Rightarrow> finish \<Rightarrow> finish" where
  "put_result i r st = st\<lparr>fin_results := (fin_results st)(i \<mapsto> r)\<rparr>"

definition take_branch :: "fate \<Rightarrow> bool \<Rightarrow> finish \<Rightarrow> finish" where
  "take_branch f halt st = st\<lparr>fin_halted := (fin_halted st \<or> halt), fin_fates := fin_fates st @ [f]\<rparr>"

definition conflict_code :: string where
  "conflict_code = ''coordination.conflict.rejected''"

definition bundle_code :: string where
  "bundle_code = ''agent.bounded-decision.bundle-stopped''"

text \<open>Refuse an action, revise its decision and leave the branch.\<close>

definition refuse ::
  "answers \<Rightarrow> candidate \<Rightarrow> string \<Rightarrow> string option \<Rightarrow> fate \<Rightarrow> bool \<Rightarrow> finish
   \<Rightarrow> coord_error + finish" where
  "refuse ans c code winner f halt st =
     bind_res (ans_reject ans (cand_proposal c) code) (\<lambda>r.
     bind_res (revise_decision (cand_id c) winner (put_result (cand_id c) r st)) (\<lambda>st.
     Inr (take_branch f halt st)))"

definition commit_step ::
  "bool \<Rightarrow> (string \<times> candidate) list \<Rightarrow> answers \<Rightarrow> candidate \<Rightarrow> finish
   \<Rightarrow> coord_error + finish" where
  "commit_step bundle rej ans c st =
     (if fin_halted st then refuse ans c bundle_code None BundleStopped False st
      else case map_of rej (cand_id c) of
        Some w \<Rightarrow> refuse ans c conflict_code (Some (cand_id w)) LostArbitration bundle st
      | None \<Rightarrow>
          bind_res (ans_revalidate ans (cand_proposal c)) (\<lambda>v.
            case v of
              Some r \<Rightarrow>
                bind_res (revise_decision (cand_id c) None (put_result (cand_id c) r st)) (\<lambda>st.
                Inr (take_branch NowInvalid bundle st))
            | None \<Rightarrow>
                (case ans_admit ans c of
                   None \<Rightarrow>
                     bind_res (ans_execute ans (cand_proposal c)) (\<lambda>r.
                     Inr (take_branch (Executed (ar_status r))
                           (bundle \<and> ar_status r \<noteq> ActionSucceeded) (put_result (cand_id c) r st)))
                 | Some w \<Rightarrow> refuse ans c conflict_code (Some (cand_id w)) LostAdmission bundle st)))"

text \<open>The second loop: the actions that arbitration itself rejected.\<close>

definition refuse_rejected ::
  "answers \<Rightarrow> string set \<Rightarrow> candidate \<Rightarrow> finish \<Rightarrow> coord_error + finish" where
  "refuse_rejected ans rejected c st =
     (if cand_id c \<in> rejected
      then bind_res (ans_reject ans (cand_proposal c) conflict_code) (\<lambda>r.
             Inr (put_result (cand_id c) r st))
      else Inr st)"

definition result_of :: "string \<Rightarrow> finish \<Rightarrow> action_proposal \<Rightarrow> coord_error + action_result" where
  "result_of invocation st p =
     (case fin_results st (candidate_id invocation (prop_id p)) of
        None \<Rightarrow> Inl (KeyMissing (candidate_id invocation (prop_id p)))
      | Some r \<Rightarrow> Inr r)"

definition start_finish :: "arbitration_plan \<Rightarrow> bool \<Rightarrow> (string \<rightharpoonup> action_result) \<Rightarrow> finish" where
  "start_finish plan bundle results =
     \<lparr>fin_results = results, fin_decisions = keyed_decisions (plan_decisions plan),
      fin_halted = (bundle \<and> results \<noteq> Map.empty), fin_fates = []\<rparr>"

text \<open>Both loops; the fates stay in the state for the statements about them.\<close>

definition run_commits ::
  "prepared \<Rightarrow> answers \<Rightarrow> arbitration_plan \<Rightarrow> (string \<rightharpoonup> action_result)
   \<Rightarrow> (string \<times> candidate) list \<Rightarrow> coord_error + finish" where
  "run_commits p ans plan results rej =
     (let bundle = bounded_bundle (prep_response p) in
      bind_res (fold_res (commit_step bundle rej ans) (plan_ordered plan)
                 (start_finish plan bundle results))
        (fold_res (refuse_rejected ans (plan_rejected plan)) (plan_candidates plan)))"

definition finish_prepared ::
  "prepared \<Rightarrow> answers \<Rightarrow> arbitration_plan \<Rightarrow> (string \<rightharpoonup> action_result)
   \<Rightarrow> (string \<times> candidate) list
   \<Rightarrow> coord_error + invocation_result \<times> agent_response option \<times> arbitration_report" where
  "finish_prepared p ans plan results rej =
     bind_res (run_commits p ans plan results rej) (\<lambda>st.
     bind_res (map_res (result_of (ctx_invocation_id (prep_context p)) st)
                (resp_proposals (prep_response p))) (\<lambda>rs.
     bind_res (ans_complete ans rs) (\<lambda>result.
     Inr (result,
          (if inv_status result = InvocationSucceeded then Some (prep_response p) else None),
          \<lparr>rep_policy = plan_policy plan, rep_decisions = map snd (fin_decisions st)\<rparr>))))"

text \<open>The first loop of \<open>_commit_prepared\<close>: the results of the invalid actions and the valid ones.\<close>

definition validate_step ::
  "string \<Rightarrow> answers \<Rightarrow> action_proposal \<Rightarrow> (string \<rightharpoonup> action_result) \<times> action_proposal list
   \<Rightarrow> coord_error + (string \<rightharpoonup> action_result) \<times> action_proposal list" where
  "validate_step invocation ans p = (\<lambda>(results, admitted).
     bind_res (ans_validate ans p) (\<lambda>v.
       case v of
         None \<Rightarrow> Inr (results, admitted @ [p])
       | Some r \<Rightarrow> Inr (results(candidate_id invocation (prop_id p) \<mapsto> r), admitted)))"

definition validate_all ::
  "prepared \<Rightarrow> answers \<Rightarrow> coord_error + (string \<rightharpoonup> action_result) \<times> action_proposal list" where
  "validate_all p ans =
     fold_res (validate_step (ctx_invocation_id (prep_context p)) ans)
       (resp_proposals (prep_response p)) (Map.empty, [])"

definition commit_prepared ::
  "(agent_id \<Rightarrow> coord_error + capability_effects list) \<Rightarrow> policy \<Rightarrow> answers \<Rightarrow> prepared
   \<Rightarrow> coord_error + invocation_result \<times> agent_response option \<times> arbitration_report" where
  "commit_prepared assigned pol ans p =
     bind_res (validate_all p ans) (\<lambda>(results, admitted).
     bind_res (arbitrate assigned pol (map (Pair (prep_context p)) admitted)) (\<lambda>plan.
     finish_prepared p ans plan results (ans_rejections ans (plan_ordered plan))))"

section \<open>The plan of one invocation\<close>

definition plan_ok :: "string \<Rightarrow> action_proposal list \<Rightarrow> arbitration_plan \<Rightarrow> bool" where
  "plan_ok ivid ps plan \<longleftrightarrow>
     list_all2 (\<lambda>p c. cand_proposal c = p \<and> cand_id c = candidate_id ivid (prop_id p)) ps
       (plan_candidates plan)
     \<and> distinct (map cand_id (plan_candidates plan))
     \<and> set (plan_ordered plan) \<subseteq> set (plan_candidates plan) \<and> distinct (plan_ordered plan)
     \<and> (\<forall>c\<in>set (plan_candidates plan). c \<in> set (plan_ordered plan) \<or> cand_id c \<in> plan_rejected plan)
     \<and> list_all2 (decision_sound (plan_ordered plan)) (plan_candidates plan) (plan_decisions plan)
     \<and> list_all2 (\<lambda>c d. c \<in> set (plan_ordered plan) \<longrightarrow> dec_disposition d = Execute)
         (plan_candidates plan) (plan_decisions plan)"

lemma reject_plan_ok:
  assumes "distinct (map cand_id cs)"
  shows "set (plan_ordered (arbitrate_candidates RejectPolicy cs)) \<subseteq> set cs
    \<and> distinct (plan_ordered (arbitrate_candidates RejectPolicy cs))
    \<and> (\<forall>c\<in>set cs. c \<in> set (plan_ordered (arbitrate_candidates RejectPolicy cs))
         \<or> cand_id c \<in> plan_rejected (arbitrate_candidates RejectPolicy cs))
    \<and> list_all2 (decision_sound (plan_ordered (arbitrate_candidates RejectPolicy cs))) cs
        (plan_decisions (arbitrate_candidates RejectPolicy cs))
    \<and> list_all2 (\<lambda>c d. c \<in> set (plan_ordered (arbitrate_candidates RejectPolicy cs))
          \<longrightarrow> dec_disposition d = Execute) cs (plan_decisions (arbitrate_candidates RejectPolicy cs))"
proof -
  obtain ws rs ds where r: "reject_loop cs [] [] [] = (ws, rs, ds)" by (metis prod_cases3)
  then have plan: "plan_ordered (arbitrate_candidates RejectPolicy cs) = ws"
    "plan_rejected (arbitrate_candidates RejectPolicy cs) = set rs"
    "plan_decisions (arbitrate_candidates RejectPolicy cs) = ds"
    by (auto simp: arbitrate_candidates_def reject_conflicts_def)
  have sub: "subseq ws cs" using reject_loop_subseq [OF r] by simp
  have ds: "list_all2 (decision_sound ws) cs ds"
    "rs = map dec_candidate_id (filter (\<lambda>d. dec_disposition d = Reject) ds)"
    using reject_loop_decisions [OF r] by auto
  have "c \<in> set ws \<or> cand_id c \<in> set rs" if "c \<in> set cs" for c
  proof -
    obtain d where d: "d \<in> set ds" "decision_sound ws c d"
      using list_all2_set1 [OF ds(1) \<open>c \<in> set cs\<close>] by blast
    show ?thesis
    proof (cases "dec_disposition d")
      case Execute
      then show ?thesis using d(2) nth_mem by (fastforce simp: decision_sound_def)
    next
      case Reject
      then show ?thesis using d unfolding ds(2) by (force simp: decision_sound_def)
    qed
  qed
  moreover have "distinct ws" using sub assms by (metis distinct_map subseq_conv_nths distinct_nthsI)
  moreover have "list_all2 (\<lambda>c d. c \<in> set ws \<longrightarrow> dec_disposition d = Execute) cs ds"
    using reject_loop_losers [OF r] assms by (auto simp: distinct_map)
  moreover have "set ws \<subseteq> set cs" using sub by (metis set_nths_subset subseq_conv_nths)
  ultimately show ?thesis using ds(1) unfolding plan by blast
qed

lemma ordered_plan_ok:
  assumes "distinct (map cand_id cs)" "pol \<noteq> RejectPolicy"
  shows "set (plan_ordered (arbitrate_candidates pol cs)) = set cs
    \<and> distinct (plan_ordered (arbitrate_candidates pol cs))
    \<and> list_all2 (decision_sound (plan_ordered (arbitrate_candidates pol cs))) cs
        (plan_decisions (arbitrate_candidates pol cs))
    \<and> list_all2 (\<lambda>c d. c \<in> set (plan_ordered (arbitrate_candidates pol cs))
          \<longrightarrow> dec_disposition d = Execute) cs (plan_decisions (arbitrate_candidates pol cs))"
proof -
  have m: "mset (plan_ordered (arbitrate_candidates pol cs)) = mset cs"
    using assms(2) by (simp add: arbitrate_candidates_def Let_def)
  then have "distinct (plan_ordered (arbitrate_candidates pol cs))"
    using assms(1) by (metis distinct_map mset_eq_imp_distinct_iff)
  moreover have "list_all2 (\<lambda>c d. c \<in> set (plan_ordered (arbitrate_candidates pol cs))
      \<longrightarrow> dec_disposition d = Execute) cs (plan_decisions (arbitrate_candidates pol cs))"
    using assms(2)
    by (simp add: arbitrate_candidates_def Let_def list_all2_map2 list_all2_same make_decision_def)
  ultimately show ?thesis
    using mset_eq_setD [OF m] arbitrate_ordered_decisions [OF assms(2,1)] by blast
qed

lemma arbitrate_plan_ok:
  assumes "arbitrate assigned pol (map (Pair ctx) ps) = Inr plan" "distinct (map prop_id ps)"
  shows "plan_ok (ctx_invocation_id ctx) ps plan"
proof -
  let ?cs = "plan_candidates plan"
  have d: "distinct (map cand_id ?cs)" using arbitrate_ids_distinct [OF assms] .
  have "list_all2 (\<lambda>p c. cand_proposal c = p \<and> cand_id c = candidate_id (ctx_invocation_id ctx) (prop_id p))
      ps ?cs"
  proof (rule list_all2I)
    show "length ps = length ?cs" using arbitrate_Inr(2) [OF assms(1)] by simp
    have "cand_proposal (?cs ! i) = ps ! i
        \<and> cand_id (?cs ! i) = candidate_id (ctx_invocation_id ctx) (prop_id (ps ! i))"
      if "i < length ps" for i
      using arbitrate_Inr(3) [OF assms(1), of i] that make_candidate_fields by fastforce
    then show "\<forall>a\<in>set (zip ps ?cs). case a of (p, c) \<Rightarrow>
        cand_proposal c = p \<and> cand_id c = candidate_id (ctx_invocation_id ctx) (prop_id p)"
      by (auto simp: in_set_zip)
  qed
  moreover have "set (plan_ordered (arbitrate_candidates pol ?cs)) \<subseteq> set ?cs
    \<and> distinct (plan_ordered (arbitrate_candidates pol ?cs))
    \<and> (\<forall>c\<in>set ?cs. c \<in> set (plan_ordered (arbitrate_candidates pol ?cs))
         \<or> cand_id c \<in> plan_rejected (arbitrate_candidates pol ?cs))
    \<and> list_all2 (decision_sound (plan_ordered (arbitrate_candidates pol ?cs))) ?cs
        (plan_decisions (arbitrate_candidates pol ?cs))
    \<and> list_all2 (\<lambda>c d. c \<in> set (plan_ordered (arbitrate_candidates pol ?cs))
          \<longrightarrow> dec_disposition d = Execute) ?cs (plan_decisions (arbitrate_candidates pol ?cs))"
  proof (cases "pol = RejectPolicy")
    case True
    then show ?thesis using reject_plan_ok [OF d] by simp
  next
    case False
    then show ?thesis using ordered_plan_ok [OF d False] by blast
  qed
  moreover have "plan = arbitrate_candidates pol ?cs" by (rule arbitrate_Inr(1) [OF assms(1)])
  ultimately show ?thesis using d unfolding plan_ok_def by simp
qed

lemma plan_okD:
  assumes "plan_ok ivid ps plan"
  shows "list_all2 (\<lambda>p c. cand_proposal c = p \<and> cand_id c = candidate_id ivid (prop_id p)) ps
      (plan_candidates plan)"
    and "distinct (map cand_id (plan_candidates plan))"
    and "set (plan_ordered plan) \<subseteq> set (plan_candidates plan)" "distinct (plan_ordered plan)"
    and "c \<in> set (plan_candidates plan) \<Longrightarrow> c \<in> set (plan_ordered plan) \<or> cand_id c \<in> plan_rejected plan"
    and "list_all2 (decision_sound (plan_ordered plan)) (plan_candidates plan) (plan_decisions plan)"
    and "list_all2 (\<lambda>c d. c \<in> set (plan_ordered plan) \<longrightarrow> dec_disposition d = Execute)
      (plan_candidates plan) (plan_decisions plan)"
  using assms unfolding plan_ok_def by blast+

lemma plan_ok_proposal:
  assumes "plan_ok ivid ps plan" "c \<in> set (plan_candidates plan)"
  shows "cand_proposal c \<in> set ps \<and> cand_id c = candidate_id ivid (prop_id (cand_proposal c))"
  using list_all2_set2 [OF plan_okD(1) [OF assms(1)]] assms(2) by blast

lemma plan_ok_candidate:
  assumes "plan_ok ivid ps plan" "p \<in> set ps"
  obtains c where "c \<in> set (plan_candidates plan)" "cand_proposal c = p"
    "cand_id c = candidate_id ivid (prop_id p)"
  using list_all2_set1 [OF plan_okD(1) [OF assms(1)]] assms(2) by blast

text \<open>The decisions dictionary has exactly the candidates' ids, each with its own decision.\<close>

lemma keyed_decisions_distinct:
  assumes "distinct (map dec_candidate_id ds)"
  shows "keyed_decisions ds = map (\<lambda>d. (dec_candidate_id d, d)) ds"
proof -
  have "fold (\<lambda>d al. AList.update (dec_candidate_id d) d al) ds al
      = al @ map (\<lambda>d. (dec_candidate_id d, d)) ds"
    if "distinct (map dec_candidate_id ds)" "\<forall>d\<in>set ds. map_of al (dec_candidate_id d) = None" for al
    using that
  proof (induction ds arbitrary: al)
    case (Cons d ds)
    then have "AList.update (dec_candidate_id d) d al = al @ [(dec_candidate_id d, d)]"
      by (simp add: update_fresh)
    moreover have "\<forall>e\<in>set ds. map_of (al @ [(dec_candidate_id d, d)]) (dec_candidate_id e) = None"
      using Cons.prems by (fastforce simp: map_add_def image_iff)
    ultimately show ?case using Cons.IH [of "al @ [(dec_candidate_id d, d)]"] Cons.prems by simp
  qed simp
  from this [of "[]"] assms show ?thesis by (simp add: keyed_decisions_def)
qed

lemma decisions_ids:
  "list_all2 (decision_sound ordered) cs ds \<Longrightarrow> map dec_candidate_id ds = map cand_id cs"
  by (induction rule: list_all2_induct) (auto simp: decision_sound_def)

lemma plan_ok_decision:
  assumes ok: "plan_ok ivid ps plan" and c: "c \<in> set (plan_candidates plan)"
  shows "\<exists>d. map_of (keyed_decisions (plan_decisions plan)) (cand_id c) = Some d
    \<and> (c \<in> set (plan_ordered plan) \<longrightarrow> dec_disposition d = Execute)"
proof -
  let ?ds = "plan_decisions plan"
  have ids: "map dec_candidate_id ?ds = map cand_id (plan_candidates plan)"
    by (rule decisions_ids [OF plan_okD(6) [OF ok]])
  then have dist: "distinct (map dec_candidate_id ?ds)" using plan_okD(2) [OF ok] by simp
  have "list_all2 (\<lambda>c d. dec_candidate_id d = cand_id c
      \<and> (c \<in> set (plan_ordered plan) \<longrightarrow> dec_disposition d = Execute)) (plan_candidates plan) ?ds"
    using plan_okD(6,7) [OF ok] by (auto simp: list_all2_conv_all_nth decision_sound_def)
  from list_all2_set1 [OF this c] obtain d where d: "d \<in> set ?ds" "dec_candidate_id d = cand_id c"
    "c \<in> set (plan_ordered plan) \<longrightarrow> dec_disposition d = Execute" by blast
  have "distinct (map fst (map (\<lambda>d. (dec_candidate_id d, d)) ?ds))"
    using dist by (simp add: comp_def)
  then have "map_of (map (\<lambda>d. (dec_candidate_id d, d)) ?ds) (cand_id c) = Some d"
    using d(1,2) by (intro map_of_is_SomeI) (auto simp: image_iff)
  with d(3) show ?thesis by (simp add: keyed_decisions_distinct [OF dist])
qed

section \<open>The loops\<close>

text \<open>A result of an action is what one of the calls made for it returned.\<close>

definition accounted :: "answers \<Rightarrow> action_proposal \<Rightarrow> action_result \<Rightarrow> bool" where
  "accounted ans p r \<longleftrightarrow>
     ans_validate ans p = Inr (Some r) \<or> ans_revalidate ans p = Inr (Some r)
     \<or> ans_execute ans p = Inr r \<or> (\<exists>code. ans_reject ans p code = Inr r)"

definition was_run :: "fate \<Rightarrow> bool" where
  "was_run f = (case f of Executed _ \<Rightarrow> True | _ \<Rightarrow> False)"

lemma revise_decision_Inr:
  assumes "revise_decision i w st = Inr st'"
  shows "\<exists>d. dec_disposition d = Reject \<and> st' = st\<lparr>fin_decisions := AList.update i d (fin_decisions st)\<rparr>"
proof -
  from assms obtain d where "map_of (fin_decisions st) i = Some d"
    by (auto simp: revise_decision_def split: option.splits)
  with assms show ?thesis
    by (intro exI [of _ "d\<lparr>dec_disposition := Reject, dec_commit_order := None,
        dec_winner := (case w of None \<Rightarrow> dec_winner d | Some w \<Rightarrow> Some w)\<rparr>"])
      (simp add: revise_decision_def)
qed

lemma revise_decision_returns:
  "map_of (fin_decisions st) i \<noteq> None \<Longrightarrow> \<exists>st'. revise_decision i w st = Inr st'"
  by (auto simp: revise_decision_def)

text \<open>What one pass of the first loop does to the state, whichever branch \<open>f\<close> it takes.\<close>

definition took ::
  "answers \<Rightarrow> bool \<Rightarrow> candidate \<Rightarrow> finish \<Rightarrow> finish \<Rightarrow> action_result \<Rightarrow> fate \<Rightarrow> bool" where
  "took ans bundle c st st' r f \<longleftrightarrow>
     accounted ans (cand_proposal c) r
     \<and> fin_results st' = (fin_results st)(cand_id c \<mapsto> r) \<and> fin_fates st' = fin_fates st @ [f]
     \<and> (if was_run f then fin_decisions st' = fin_decisions st
        else \<exists>d. dec_disposition d = Reject
               \<and> fin_decisions st' = AList.update (cand_id c) d (fin_decisions st))
     \<and> (if fin_halted st then f = BundleStopped \<and> fin_halted st'
        else f \<noteq> BundleStopped \<and> fin_halted st' = (bundle \<and> f \<noteq> Executed ActionSucceeded))"

lemma revised_took:
  assumes "revise_decision (cand_id c) w (put_result (cand_id c) r st) = Inr st1"
    and "accounted ans (cand_proposal c) r" "\<not> was_run f"
    and "if fin_halted st then f = BundleStopped else f \<noteq> BundleStopped \<and> halt = bundle"
  shows "took ans bundle c st (take_branch f halt st1) r f"
proof -
  from revise_decision_Inr [OF assms(1)] obtain d where "dec_disposition d = Reject"
    "st1 = (put_result (cand_id c) r st)\<lparr>fin_decisions := AList.update (cand_id c) d (fin_decisions st)\<rparr>"
    by (auto simp: put_result_def)
  moreover have "f \<noteq> Executed ActionSucceeded" using assms(3) by (auto simp: was_run_def)
  ultimately show ?thesis
    using assms(2-4) by (auto simp: took_def put_result_def take_branch_def split: if_splits)
qed

lemma refuse_took:
  assumes "refuse ans c code w f halt st = Inr st'" "\<not> was_run f"
    and "if fin_halted st then f = BundleStopped else f \<noteq> BundleStopped \<and> halt = bundle"
  shows "\<exists>r. took ans bundle c st st' r f"
proof -
  obtain r st1 where r: "ans_reject ans (cand_proposal c) code = Inr r"
    "revise_decision (cand_id c) w (put_result (cand_id c) r st) = Inr st1"
    "st' = take_branch f halt st1"
    using assms(1) by (auto simp: refuse_def bind_res_Inr_iff)
  then have "accounted ans (cand_proposal c) r" by (auto simp: accounted_def)
  from revised_took [OF r(2) this assms(2,3)] show ?thesis unfolding r(3) by blast
qed

lemma refuse_returns:
  assumes "map_of (fin_decisions st) (cand_id c) \<noteq> None"
    and "\<And>p code. \<exists>r. ans_reject ans p code = Inr r"
  shows "\<exists>st'. refuse ans c code w f halt st = Inr st'"
proof -
  obtain r where r: "ans_reject ans (cand_proposal c) code = Inr r" using assms(2) by blast
  have "map_of (fin_decisions (put_result (cand_id c) r st)) (cand_id c) \<noteq> None"
    using assms(1) by (simp add: put_result_def)
  from revise_decision_returns [OF this, of w] r show ?thesis by (auto simp: refuse_def)
qed

lemma commit_step_took:
  assumes "commit_step bundle rej ans c st = Inr st'"
  shows "\<exists>r f. took ans bundle c st st' r f"
proof (cases "fin_halted st")
  case True
  with assms have "refuse ans c bundle_code None BundleStopped False st = Inr st'"
    by (simp add: commit_step_def)
  from refuse_took [OF this, of "bundle"] True show ?thesis by (auto simp: was_run_def)
next
  case False
  show ?thesis
  proof (cases "map_of rej (cand_id c)")
    case (Some w)
    with False assms
    have "refuse ans c conflict_code (Some (cand_id w)) LostArbitration bundle st = Inr st'"
      by (simp add: commit_step_def)
    from refuse_took [OF this, of "bundle"] False show ?thesis by (auto simp: was_run_def)
  next
    case None
    with False assms obtain v where v: "ans_revalidate ans (cand_proposal c) = Inr v"
      by (auto simp: commit_step_def bind_res_Inr_iff)
    note step = assms False None v
    show ?thesis
    proof (cases v)
      case (Some r)
      from step this obtain st1 where st1: "revise_decision (cand_id c) None (put_result (cand_id c) r st) = Inr st1"
        "st' = take_branch NowInvalid bundle st1"
        by (auto simp: commit_step_def bind_res_Inr_iff)
      have "accounted ans (cand_proposal c) r" using v Some by (simp add: accounted_def)
      from revised_took [OF st1(1) this, of NowInvalid "bundle" "bundle"] False st1(2)
      show ?thesis by (auto simp: was_run_def)
    next
      case v_None: None
      show ?thesis
      proof (cases "ans_admit ans c")
        case admit: None
        from step v_None this obtain r where r: "ans_execute ans (cand_proposal c) = Inr r"
          "st' = take_branch (Executed (ar_status r)) (bundle \<and> ar_status r \<noteq> ActionSucceeded)
             (put_result (cand_id c) r st)"
          by (auto simp: commit_step_def bind_res_Inr_iff)
        then have "took ans bundle c st st' r (Executed (ar_status r))"
          using False by (simp add: took_def accounted_def put_result_def take_branch_def was_run_def)
        then show ?thesis by blast
      next
        case (Some w)
        from step v_None this
        have "refuse ans c conflict_code (Some (cand_id w)) LostAdmission bundle st = Inr st'"
          by (simp add: commit_step_def)
        from refuse_took [OF this, of "bundle"] False show ?thesis by (auto simp: was_run_def)
      qed
    qed
  qed
qed

lemma commit_step_returns:
  assumes "map_of (fin_decisions st) (cand_id c) \<noteq> None"
    and "\<And>p. \<exists>v. ans_revalidate ans p = Inr v" "\<And>p. \<exists>r. ans_execute ans p = Inr r"
    and "\<And>p code. \<exists>r. ans_reject ans p code = Inr r"
  shows "\<exists>st'. commit_step bundle rej ans c st = Inr st'"
proof -
  note refuse = refuse_returns [OF assms(1,4)]
  obtain v r where vr: "ans_revalidate ans (cand_proposal c) = Inr v" "ans_execute ans (cand_proposal c) = Inr r"
    using assms(2,3) by blast
  have "\<exists>st'. revise_decision (cand_id c) None (put_result (cand_id c) q st) = Inr st'" for q
    by (rule revise_decision_returns) (use assms(1) in \<open>simp add: put_result_def\<close>)
  then show ?thesis
    using refuse vr by (fastforce simp: commit_step_def bind_res_Inr_iff split: option.splits)
qed

section \<open>The first loop as a whole\<close>

text \<open>\<open>h\<close> is whether an action was invalid before the loop started.\<close>

definition stops_after_failure :: "bool \<Rightarrow> bool \<Rightarrow> fate list \<Rightarrow> bool" where
  "stops_after_failure bundle h fs \<longleftrightarrow>
     (\<forall>i<length fs. fs ! i = BundleStopped \<longleftrightarrow>
        bundle \<and> (h \<or> (\<exists>j<i. fs ! j \<noteq> Executed ActionSucceeded)))"

definition loop_shape :: "bool \<Rightarrow> bool \<Rightarrow> candidate list \<Rightarrow> finish \<Rightarrow> bool" where
  "loop_shape bundle h cs st \<longleftrightarrow>
     length (fin_fates st) = length cs \<and> stops_after_failure bundle h (fin_fates st)
     \<and> fin_halted st = (bundle \<and> (h \<or> (\<exists>j<length cs. fin_fates st ! j \<noteq> Executed ActionSucceeded)))"

lemma ex_less_snoc: "(\<exists>j<Suc n. p j) \<longleftrightarrow> (\<exists>j<n. p j) \<or> p n"
  by (auto simp: less_Suc_eq)

lemma loop_shape_step:
  assumes "loop_shape bundle h zs st" "took ans bundle c st st' r f"
  shows "loop_shape bundle h (zs @ [c]) st'"
proof -
  have l: "length (fin_fates st) = length zs" and sh: "stops_after_failure bundle h (fin_fates st)"
    and hl: "fin_halted st = (bundle \<and> (h \<or> (\<exists>j<length zs. fin_fates st ! j \<noteq> Executed ActionSucceeded)))"
    using assms(1) by (simp_all add: loop_shape_def)
  have f: "fin_fates st' = fin_fates st @ [f]"
    and br: "if fin_halted st then f = BundleStopped \<and> fin_halted st'
      else f \<noteq> BundleStopped \<and> fin_halted st' = (bundle \<and> f \<noteq> Executed ActionSucceeded)"
    using assms(2) by (simp_all add: took_def)
  have old: "(\<exists>j<n. (fin_fates st @ [f]) ! j \<noteq> Executed ActionSucceeded)
      \<longleftrightarrow> (\<exists>j<n. fin_fates st ! j \<noteq> Executed ActionSucceeded)" if "n \<le> length zs" for n
    using that l by (simp add: nth_append cong: conj_cong)
  have new: "(fin_fates st @ [f]) ! length zs = f" using l by (metis nth_append_length)
  have "stops_after_failure bundle h (fin_fates st @ [f])"
    unfolding stops_after_failure_def
  proof (intro allI impI)
    fix i assume i: "i < length (fin_fates st @ [f])"
    show "((fin_fates st @ [f]) ! i = BundleStopped) =
        (bundle \<and> (h \<or> (\<exists>j<i. (fin_fates st @ [f]) ! j \<noteq> Executed ActionSucceeded)))"
    proof (cases "i < length zs")
      case True
      then show ?thesis using sh l old [of i] by (simp add: stops_after_failure_def nth_append)
    next
      case False
      then have "i = length zs" using i l by simp
      then show ?thesis using old [of i] new hl br by (simp split: if_splits)
    qed
  qed
  moreover have "fin_halted st' =
      (bundle \<and> (h \<or> (\<exists>j<length (zs @ [c]). (fin_fates st @ [f]) ! j \<noteq> Executed ActionSucceeded)))"
    using old [of "length zs"] new hl br by (auto simp add: ex_less_snoc split: if_splits)
  ultimately show ?thesis using l f by (simp add: loop_shape_def)
qed

lemma commit_loop_shape:
  assumes "fold_res (commit_step bundle rej ans) cs st = Inr st'"
    and "fin_fates st = []" "fin_halted st = (bundle \<and> h)"
  shows "loop_shape bundle h cs st'"
proof -
  have "loop_shape bundle h ([] @ cs) st'"
  proof (rule fold_res_prefix [OF assms(1)])
    show "loop_shape bundle h [] st"
      using assms(2,3) by (simp add: loop_shape_def stops_after_failure_def)
  next
    fix zs c s t
    assume "loop_shape bundle h zs s" "commit_step bundle rej ans c s = Inr t"
    with commit_step_took [of "bundle" rej ans c s t] show "loop_shape bundle h (zs @ [c]) t"
      by (blast intro: loop_shape_step)
  qed
  then show ?thesis by simp
qed

text \<open>The decisions dictionary after the loop: executed actions keep theirs, the others are refused.\<close>

definition decisions_track ::
  "(string \<times> decision) list \<Rightarrow> candidate list \<Rightarrow> finish \<Rightarrow> bool" where
  "decisions_track init zs st \<longleftrightarrow>
     length (fin_fates st) = length zs
     \<and> (\<forall>i<length zs. if was_run (fin_fates st ! i)
          then map_of (fin_decisions st) (cand_id (zs ! i)) = map_of init (cand_id (zs ! i))
          else \<exists>d. map_of (fin_decisions st) (cand_id (zs ! i)) = Some d \<and> dec_disposition d = Reject)
     \<and> (\<forall>x. x \<notin> cand_id ` set zs \<longrightarrow> map_of (fin_decisions st) x = map_of init x)"

lemma decisions_track_step:
  assumes "decisions_track init zs st" "took ans bundle c st st' r f"
    and "cand_id c \<notin> cand_id ` set zs"
  shows "decisions_track init (zs @ [c]) st'"
proof -
  have l: "length (fin_fates st) = length zs"
    and tr: "\<And>i. i < length zs \<Longrightarrow> if was_run (fin_fates st ! i)
          then map_of (fin_decisions st) (cand_id (zs ! i)) = map_of init (cand_id (zs ! i))
          else \<exists>d. map_of (fin_decisions st) (cand_id (zs ! i)) = Some d \<and> dec_disposition d = Reject"
    and out: "\<And>x. x \<notin> cand_id ` set zs \<Longrightarrow> map_of (fin_decisions st) x = map_of init x"
    using assms(1) by (simp_all add: decisions_track_def)
  have f: "fin_fates st' = fin_fates st @ [f]" using assms(2) by (simp add: took_def)
  have at: "if was_run f then map_of (fin_decisions st') (cand_id c) = map_of init (cand_id c)
      else \<exists>d. map_of (fin_decisions st') (cand_id c) = Some d \<and> dec_disposition d = Reject"
    using assms(2) out [OF assms(3)] by (auto simp: took_def split: if_splits)
  have away: "map_of (fin_decisions st') x = map_of (fin_decisions st) x" if "x \<noteq> cand_id c" for x
    using assms(2) that by (auto simp: took_def split: if_splits)
  have new: "(fin_fates st @ [f]) ! length zs = f" using l by (metis nth_append_length)
  have ne: "cand_id (zs ! i) \<noteq> cand_id c" if "i < length zs" for i
    using assms(3) that by (metis image_eqI nth_mem)
  have "if was_run ((fin_fates st @ [f]) ! i)
      then map_of (fin_decisions st') (cand_id ((zs @ [c]) ! i)) = map_of init (cand_id ((zs @ [c]) ! i))
      else \<exists>d. map_of (fin_decisions st') (cand_id ((zs @ [c]) ! i)) = Some d \<and> dec_disposition d = Reject"
    if "i < length (zs @ [c])" for i
  proof (cases "i < length zs")
    case True
    then show ?thesis using tr [OF True] away [OF ne [OF True]] l by (simp add: nth_append)
  next
    case False
    then have "i = length zs" using that by simp
    then show ?thesis using at new by simp
  qed
  then show ?thesis
    unfolding decisions_track_def f using l out away by simp
qed

lemma commit_loop_decisions:
  assumes "fold_res (commit_step bundle rej ans) cs st = Inr st'"
    and "fin_fates st = []" "distinct (map cand_id cs)"
  shows "decisions_track (fin_decisions st) cs st'"
proof -
  have "\<forall>ys zs. cs = zs @ ys \<longrightarrow> decisions_track (fin_decisions st) zs s \<longrightarrow>
      fold_res (commit_step bundle rej ans) ys s = Inr st' \<longrightarrow> decisions_track (fin_decisions st) cs st'" for s
  proof (intro allI impI)
    fix ys zs
    assume "cs = zs @ ys" "decisions_track (fin_decisions st) zs s"
      "fold_res (commit_step bundle rej ans) ys s = Inr st'"
    then show "decisions_track (fin_decisions st) cs st'"
    proof (induction ys arbitrary: zs s)
      case (Cons y ys)
      then obtain t where t: "commit_step bundle rej ans y s = Inr t"
        "fold_res (commit_step bundle rej ans) ys t = Inr st'" by (auto split: sum.splits)
      have "cand_id y \<notin> cand_id ` set zs" using assms(3) Cons.prems(1) by auto
      with commit_step_took [OF t(1)] Cons.prems(2)
      have "decisions_track (fin_decisions st) (zs @ [y]) t" using decisions_track_step by blast
      with Cons.IH [of "zs @ [y]" t] Cons.prems(1) t(2) show ?case by simp
    qed simp
  qed
  moreover have "decisions_track (fin_decisions st) [] st"
    using assms(2) by (simp add: decisions_track_def)
  ultimately show ?thesis using assms(1) by blast
qed

section \<open>The results\<close>

text \<open>Every result belongs to a proposal and is what a call for it returned.\<close>

definition results_accounted ::
  "string \<Rightarrow> answers \<Rightarrow> action_proposal list \<Rightarrow> (string \<rightharpoonup> action_result) \<Rightarrow> bool" where
  "results_accounted i ans ps results \<longleftrightarrow>
     (\<forall>x r. results x = Some r \<longrightarrow> (\<exists>p\<in>set ps. x = candidate_id i (prop_id p) \<and> accounted ans p r))"

lemma results_accounted_put:
  "results_accounted i ans ps results \<Longrightarrow> p \<in> set ps \<Longrightarrow> accounted ans p r \<Longrightarrow>
     x = candidate_id i (prop_id p) \<Longrightarrow> results_accounted i ans ps (results(x \<mapsto> r))"
  by (auto simp: results_accounted_def)

definition validated ::
  "string \<Rightarrow> answers \<Rightarrow> action_proposal list \<Rightarrow> action_proposal list
   \<Rightarrow> (string \<rightharpoonup> action_result) \<times> action_proposal list \<Rightarrow> bool" where
  "validated i ans ps zs = (\<lambda>(results, admitted).
     results_accounted i ans ps results
     \<and> set admitted \<subseteq> set zs \<and> (distinct (map prop_id zs) \<longrightarrow> distinct (map prop_id admitted))
     \<and> (\<forall>p\<in>set zs. p \<in> set admitted \<or> results (candidate_id i (prop_id p)) \<noteq> None))"

lemma validate_step_validated:
  assumes "validated i ans ps zs (results, admitted)" "p \<in> set ps" "\<exists>v. ans_validate ans p = Inr v"
  shows "\<exists>t. validate_step i ans p (results, admitted) = Inr t \<and> validated i ans ps (zs @ [p]) t"
proof -
  have ra: "results_accounted i ans ps results" and sub: "set admitted \<subseteq> set zs"
    and dist: "distinct (map prop_id zs) \<longrightarrow> distinct (map prop_id admitted)"
    and cov: "\<forall>p\<in>set zs. p \<in> set admitted \<or> results (candidate_id i (prop_id p)) \<noteq> None"
    using assms(1) by (simp_all add: validated_def)
  obtain v where v: "ans_validate ans p = Inr v" using assms(3) by blast
  show ?thesis
  proof (cases v)
    case None
    have "validated i ans ps (zs @ [p]) (results, admitted @ [p])"
      using ra sub dist cov by (auto simp: validated_def)
    with v None show ?thesis by (simp add: validate_step_def)
  next
    case (Some r)
    have "results_accounted i ans ps (results(candidate_id i (prop_id p) \<mapsto> r))"
      using ra assms(2) v Some by (intro results_accounted_put) (auto simp: accounted_def)
    then have "validated i ans ps (zs @ [p]) (results(candidate_id i (prop_id p) \<mapsto> r), admitted)"
      using sub dist cov by (auto simp: validated_def)
    with v Some show ?thesis by (simp add: validate_step_def)
  qed
qed

lemma validate_all_validated:
  assumes "\<And>p. \<exists>v. ans_validate ans p = Inr v"
  shows "\<exists>t. validate_all p ans = Inr t
    \<and> validated (ctx_invocation_id (prep_context p)) ans (resp_proposals (prep_response p))
        (resp_proposals (prep_response p)) t"
proof -
  let ?i = "ctx_invocation_id (prep_context p)" and ?ps = "resp_proposals (prep_response p)"
  have "\<exists>t. fold_res (validate_step ?i ans) ?ps (Map.empty, []) = Inr t \<and> validated ?i ans ?ps ([] @ ?ps) t"
  proof (rule fold_res_returns)
    show "validated ?i ans ?ps [] (Map.empty, [])" by (simp add: validated_def results_accounted_def)
  next
    fix zs x s assume x: "x \<in> set ?ps" and v: "validated ?i ans ?ps zs s"
    obtain results admitted where s: "s = (results, admitted)" by (cases s)
    show "\<exists>t. validate_step ?i ans x s = Inr t \<and> validated ?i ans ?ps (zs @ [x]) t"
      using validate_step_validated [OF v [unfolded s] x assms] unfolding s .
  qed
  then show ?thesis by (simp add: validate_all_def)
qed

text \<open>Through both loops: results are accounted for, none is lost, and ids keep a decision.\<close>

definition committing_ok ::
  "string \<Rightarrow> answers \<Rightarrow> action_proposal list \<Rightarrow> arbitration_plan \<Rightarrow> string set \<Rightarrow> finish \<Rightarrow> bool" where
  "committing_ok i ans ps plan D st \<longleftrightarrow>
     results_accounted i ans ps (fin_results st) \<and> (\<forall>x\<in>D. fin_results st x \<noteq> None)
     \<and> (\<forall>c\<in>set (plan_candidates plan). map_of (fin_decisions st) (cand_id c) \<noteq> None)"

lemma took_committing_ok:
  assumes "committing_ok i ans ps plan D st" "took ans bundle c st st' r f"
    and "cand_proposal c \<in> set ps" "cand_id c = candidate_id i (prop_id (cand_proposal c))"
  shows "committing_ok i ans ps plan (insert (cand_id c) D) st'"
proof -
  have r: "results_accounted i ans ps (fin_results st)"
    and d: "\<And>c. c \<in> set (plan_candidates plan) \<Longrightarrow> map_of (fin_decisions st) (cand_id c) \<noteq> None"
    and D: "\<And>x. x \<in> D \<Longrightarrow> fin_results st x \<noteq> None"
    using assms(1) by (auto simp: committing_ok_def)
  have t: "accounted ans (cand_proposal c) r" "fin_results st' = (fin_results st)(cand_id c \<mapsto> r)"
    using assms(2) by (simp_all add: took_def)
  have "map_of (fin_decisions st') x \<noteq> None" if "map_of (fin_decisions st) x \<noteq> None" for x
    using assms(2) that by (auto simp: took_def split: if_splits)
  moreover have "results_accounted i ans ps (fin_results st')"
    unfolding t(2) by (rule results_accounted_put [OF r assms(3) t(1) assms(4)])
  ultimately show ?thesis using d D t(2) by (auto simp: committing_ok_def)
qed

lemma commit_loop_returns:
  assumes "committing_ok i ans ps plan D st"
    and "\<And>c. c \<in> set cs \<Longrightarrow> c \<in> set (plan_candidates plan) \<and> cand_proposal c \<in> set ps
      \<and> cand_id c = candidate_id i (prop_id (cand_proposal c))"
    and "\<And>p. \<exists>v. ans_revalidate ans p = Inr v" "\<And>p. \<exists>r. ans_execute ans p = Inr r"
    and "\<And>p code. \<exists>r. ans_reject ans p code = Inr r"
  shows "\<exists>t. fold_res (commit_step bundle rej ans) cs st = Inr t
    \<and> committing_ok i ans ps plan (D \<union> cand_id ` set cs) t"
proof -
  have "\<exists>t. fold_res (commit_step bundle rej ans) cs st = Inr t
      \<and> committing_ok i ans ps plan (D \<union> cand_id ` set ([] @ cs)) t"
  proof (rule fold_res_returns [where P = "\<lambda>zs :: candidate list. committing_ok i ans ps plan (D \<union> cand_id ` set zs)"])
    show "committing_ok i ans ps plan (D \<union> cand_id ` set []) st" using assms(1) by simp
  next
    fix zs :: "candidate list" and c s
    assume c: "c \<in> set cs" and ok: "committing_ok i ans ps plan (D \<union> cand_id ` set zs) s"
    have "map_of (fin_decisions s) (cand_id c) \<noteq> None"
      using ok assms(2) [OF c] unfolding committing_ok_def by blast
    from commit_step_returns [OF this assms(3-5)] obtain t where t: "commit_step bundle rej ans c s = Inr t"
      by blast
    from commit_step_took [OF this] obtain r f where "took ans bundle c s t r f" by blast
    from took_committing_ok [OF ok this] assms(2) [OF c] t
    show "\<exists>t. commit_step bundle rej ans c s = Inr t
        \<and> committing_ok i ans ps plan (D \<union> cand_id ` set (zs @ [c])) t" by simp
  qed
  then show ?thesis by simp
qed

lemma refuse_loop_returns:
  assumes "committing_ok i ans ps plan D st"
    and "\<And>c. c \<in> set cs \<Longrightarrow> cand_proposal c \<in> set ps
      \<and> cand_id c = candidate_id i (prop_id (cand_proposal c))"
    and "\<And>p code. \<exists>r. ans_reject ans p code = Inr r"
  shows "\<exists>t. fold_res (refuse_rejected ans rejected) cs st = Inr t
    \<and> committing_ok i ans ps plan (D \<union> (cand_id ` set cs \<inter> rejected)) t"
proof -
  have "\<exists>t. fold_res (refuse_rejected ans rejected) cs st = Inr t
      \<and> committing_ok i ans ps plan (D \<union> (cand_id ` set ([] @ cs) \<inter> rejected)) t"
  proof (rule fold_res_returns
      [where P = "\<lambda>zs :: candidate list. committing_ok i ans ps plan (D \<union> (cand_id ` set zs \<inter> rejected))"])
    show "committing_ok i ans ps plan (D \<union> (cand_id ` set [] \<inter> rejected)) st" using assms(1) by simp
  next
    fix zs :: "candidate list" and c s
    assume c: "c \<in> set cs" and ok: "committing_ok i ans ps plan (D \<union> (cand_id ` set zs \<inter> rejected)) s"
    obtain r where r: "ans_reject ans (cand_proposal c) conflict_code = Inr r" using assms(3) by blast
    then have "accounted ans (cand_proposal c) r" by (auto simp: accounted_def)
    with ok assms(2) [OF c] have "results_accounted i ans ps ((fin_results s)(cand_id c \<mapsto> r))"
      by (intro results_accounted_put) (auto simp: committing_ok_def)
    with ok r show "\<exists>t. refuse_rejected ans rejected c s = Inr t
        \<and> committing_ok i ans ps plan (D \<union> (cand_id ` set (zs @ [c]) \<inter> rejected)) t"
      by (auto simp: refuse_rejected_def committing_ok_def put_result_def)
  qed
  then show ?thesis by simp
qed

section \<open>Committing an invocation\<close>

lemma result_of_account:
  assumes "results_accounted i ans ps results" "distinct (map prop_id ps)" "p \<in> set ps"
    and "results (candidate_id i (prop_id p)) = Some r"
  shows "accounted ans p r"
proof -
  obtain q where q: "q \<in> set ps" "candidate_id i (prop_id p) = candidate_id i (prop_id q)" "accounted ans q r"
    using assms(1,4) unfolding results_accounted_def by blast
  then have "prop_id p = prop_id q" by (simp add: candidate_id_inj)
  with assms(2,3) q(1) have "p = q" by (metis distinct_map inj_onD)
  with q(3) show ?thesis by simp
qed

lemma admitted_plan_committing:
  assumes ok: "plan_ok i admitted plan" and sub: "set admitted \<subseteq> set ps"
    and ra: "results_accounted i ans ps results"
  shows "committing_ok i ans ps plan (dom results) (start_finish plan b results)"
    and "c \<in> set (plan_candidates plan) \<Longrightarrow> cand_proposal c \<in> set ps
      \<and> cand_id c = candidate_id i (prop_id (cand_proposal c))"
proof -
  show "committing_ok i ans ps plan (dom results) (start_finish plan b results)"
    using ra plan_ok_decision [OF ok] by (fastforce simp: committing_ok_def start_finish_def)
  show "c \<in> set (plan_candidates plan) \<Longrightarrow> cand_proposal c \<in> set ps
      \<and> cand_id c = candidate_id i (prop_id (cand_proposal c))"
    using plan_ok_proposal [OF ok] sub by blast
qed

text \<open>What the calls an invocation may make return; none of them raises.\<close>

definition calls_return ::
  "(agent_id \<Rightarrow> coord_error + capability_effects list) \<Rightarrow> answers \<Rightarrow> bool" where
  "calls_return assigned ans \<longleftrightarrow>
     (\<forall>a. \<exists>caps. assigned a = Inr caps) \<and> (\<forall>p. \<exists>v. ans_validate ans p = Inr v)
     \<and> (\<forall>p. \<exists>v. ans_revalidate ans p = Inr v) \<and> (\<forall>p. \<exists>r. ans_execute ans p = Inr r)
     \<and> (\<forall>p code. \<exists>r. ans_reject ans p code = Inr r) \<and> (\<forall>rs. \<exists>r. ans_complete ans rs = Inr r)"

lemma run_commits_returns:
  assumes ok: "plan_ok (ctx_invocation_id (prep_context p)) admitted plan"
    and ret: "calls_return assigned ans"
    and v: "validated (ctx_invocation_id (prep_context p)) ans (resp_proposals (prep_response p))
      (resp_proposals (prep_response p)) (results, admitted)"
  shows "\<exists>st. run_commits p ans plan results rej = Inr st
    \<and> results_accounted (ctx_invocation_id (prep_context p)) ans (resp_proposals (prep_response p))
        (fin_results st)
    \<and> (\<forall>q\<in>set (resp_proposals (prep_response p)).
         fin_results st (candidate_id (ctx_invocation_id (prep_context p)) (prop_id q)) \<noteq> None)"
proof -
  let ?i = "ctx_invocation_id (prep_context p)" and ?ps = "resp_proposals (prep_response p)"
  let ?b = "bounded_bundle (prep_response p)"
  have sub: "set admitted \<subseteq> set ?ps" and ra: "results_accounted ?i ans ?ps results"
    and cov: "\<And>q. q \<in> set ?ps \<Longrightarrow> q \<in> set admitted \<or> results (candidate_id ?i (prop_id q)) \<noteq> None"
    using v by (auto simp: validated_def)
  note plan = admitted_plan_committing [OF ok sub ra]
  have rets: "\<And>q. \<exists>v. ans_revalidate ans q = Inr v" "\<And>q. \<exists>r. ans_execute ans q = Inr r"
    "\<And>q code. \<exists>r. ans_reject ans q code = Inr r"
    using ret unfolding calls_return_def by blast+
  have ord: "c \<in> set (plan_ordered plan) \<Longrightarrow> c \<in> set (plan_candidates plan) \<and> cand_proposal c \<in> set ?ps
      \<and> cand_id c = candidate_id ?i (prop_id (cand_proposal c))" for c
    using plan(2) plan_okD(3) [OF ok] by blast
  obtain t where t: "fold_res (commit_step ?b rej ans) (plan_ordered plan) (start_finish plan ?b results) = Inr t"
    "committing_ok ?i ans ?ps plan (dom results \<union> cand_id ` set (plan_ordered plan)) t"
    using commit_loop_returns [OF plan(1) ord rets] by blast
  obtain u where u: "fold_res (refuse_rejected ans (plan_rejected plan)) (plan_candidates plan) t = Inr u"
    "committing_ok ?i ans ?ps plan (dom results \<union> cand_id ` set (plan_ordered plan)
       \<union> cand_id ` set (plan_candidates plan) \<inter> plan_rejected plan) u"
    using refuse_loop_returns [OF t(2) plan(2) rets(3)] by blast
  have "fin_results u (candidate_id ?i (prop_id q)) \<noteq> None" if q: "q \<in> set ?ps" for q
  proof -
    have "candidate_id ?i (prop_id q) \<in> dom results \<union> cand_id ` set (plan_ordered plan)
       \<union> cand_id ` set (plan_candidates plan) \<inter> plan_rejected plan"
    proof (cases "q \<in> set admitted")
      case True
      from plan_ok_candidate [OF ok this] obtain c where c: "c \<in> set (plan_candidates plan)"
        "cand_id c = candidate_id ?i (prop_id q)" by blast
      from plan_okD(5) [OF ok c(1)] show ?thesis unfolding c(2) [symmetric] using c(1) by blast
    next
      case False
      then show ?thesis using cov [OF q] by blast
    qed
    with u(2) show ?thesis unfolding committing_ok_def by blast
  qed
  moreover have "run_commits p ans plan results rej = Inr u"
    using t(1) u(1) by (simp add: run_commits_def)
  ultimately show ?thesis using u(2) by (auto simp: committing_ok_def)
qed

lemma arbitrate_returns:
  assumes "\<And>a. \<exists>caps. assigned a = Inr caps"
  shows "\<exists>plan. arbitrate assigned pol ps = Inr plan"
proof -
  have "\<exists>c. (\<lambda>(n, ctx, p). make_candidate assigned ctx p n) x = Inr c" for x
  proof (cases x)
    case (fields n ctx p)
    obtain caps where "assigned (ctx_agent_id ctx) = Inr caps" using assms by blast
    with fields show ?thesis by (simp add: make_candidate_def Let_def)
  qed
  then show ?thesis
    using map_res_returns [of "zip [0..<length ps] ps" "\<lambda>(n, ctx, p). make_candidate assigned ctx p n"]
    by (auto simp: arbitrate_def)
qed

section \<open>Properties\<close>

text \<open>C7. Committing an invocation accounts for every action the agent proposed: when the calls it makes
  return, it returns too (no dictionary lookup fails), and the invocation is completed with one
  result per proposal, in order, each of which is what validating, executing or refusing that
  very proposal returned; the agent's response is passed on exactly when the result succeeded.\<close>

theorem commit_accounts_for_every_action:
  assumes "distinct (map prop_id (resp_proposals (prep_response p)))" and "calls_return assigned ans"
  shows "\<exists>rs result report.
     commit_prepared assigned pol ans p
       = Inr (result, if inv_status result = InvocationSucceeded then Some (prep_response p) else None, report)
     \<and> ans_complete ans rs = Inr result
     \<and> list_all2 (accounted ans) (resp_proposals (prep_response p)) rs"
proof -
  let ?i = "ctx_invocation_id (prep_context p)" and ?ps = "resp_proposals (prep_response p)"
  obtain results admitted where v: "validate_all p ans = Inr (results, admitted)"
    "validated ?i ans ?ps ?ps (results, admitted)"
    using validate_all_validated [of ans p] assms(2) unfolding calls_return_def by auto
  obtain plan where plan: "arbitrate assigned pol (map (Pair (prep_context p)) admitted) = Inr plan"
    using arbitrate_returns [of assigned] assms(2) unfolding calls_return_def by blast
  have "distinct (map prop_id admitted)" using v(2) assms(1) by (simp add: validated_def)
  note ok = arbitrate_plan_ok [OF plan this]
  obtain st where st: "run_commits p ans plan results (ans_rejections ans (plan_ordered plan)) = Inr st"
    "results_accounted ?i ans ?ps (fin_results st)"
    "\<forall>q\<in>set ?ps. fin_results st (candidate_id ?i (prop_id q)) \<noteq> None"
    using run_commits_returns [OF ok assms(2) v(2)] by blast
  have "\<exists>r. result_of ?i st q = Inr r" if "q \<in> set ?ps" for q
    using st(3) that by (auto simp: result_of_def)
  then obtain rs where rs: "map_res (result_of ?i st) ?ps = Inr rs"
    using map_res_returns [of ?ps "result_of ?i st"] by blast
  have "list_all2 (accounted ans) ?ps rs"
    using rs result_of_account [OF st(2) assms(1)]
    by (auto simp: map_res_Inr_iff list_all2_conv_all_nth result_of_def split: option.splits)
  moreover obtain result where "ans_complete ans rs = Inr result"
    using assms(2) unfolding calls_return_def by blast
  ultimately show ?thesis
    using v(1) plan st(1) rs by (auto simp: commit_prepared_def finish_prepared_def)
qed

text \<open>C13. Actions are committed one at a time in commit order, and the report tells what happened: an
  action's decision is still to execute exactly when its execution was attempted. In a recovery
  bundle, once an action did not succeed, or had been invalid from the start, no later action
  is executed; outside of one no action is skipped for that reason.\<close>

theorem bundle_stops_and_report_matches:
  assumes "arbitrate assigned pol (map (Pair (prep_context p)) admitted) = Inr plan"
    and "distinct (map prop_id admitted)"
    and "fold_res (commit_step (bounded_bundle (prep_response p)) rej ans) (plan_ordered plan)
           (start_finish plan (bounded_bundle (prep_response p)) results) = Inr st"
  shows "length (fin_fates st) = length (plan_ordered plan)
    \<and> stops_after_failure (bounded_bundle (prep_response p)) (results \<noteq> Map.empty) (fin_fates st)
    \<and> (\<forall>i<length (plan_ordered plan).
         \<exists>d. map_of (fin_decisions st) (cand_id (plan_ordered plan ! i)) = Some d
           \<and> (dec_disposition d = Execute \<longleftrightarrow> was_run (fin_fates st ! i)))"
proof -
  note ok = arbitrate_plan_ok [OF assms(1,2)]
  let ?o = "plan_ordered plan"
  have "loop_shape (bounded_bundle (prep_response p)) (results \<noteq> Map.empty) ?o st"
    by (rule commit_loop_shape [OF assms(3)]) (simp_all add: start_finish_def)
  then have shape: "length (fin_fates st) = length ?o"
    "stops_after_failure (bounded_bundle (prep_response p)) (results \<noteq> Map.empty) (fin_fates st)"
    by (simp_all add: loop_shape_def)
  have "inj_on cand_id (set ?o)"
    using plan_okD(2,3) [OF ok] by (metis distinct_map inj_on_subset)
  then have "distinct (map cand_id ?o)" using plan_okD(4) [OF ok] by (simp add: distinct_map)
  from commit_loop_decisions [OF assms(3) _ this]
  have tr: "decisions_track (keyed_decisions (plan_decisions plan)) ?o st"
    by (simp add: start_finish_def)
  have "\<exists>d. map_of (fin_decisions st) (cand_id (?o ! i)) = Some d
      \<and> (dec_disposition d = Execute \<longleftrightarrow> was_run (fin_fates st ! i))" if i: "i < length ?o" for i
  proof -
    have "?o ! i \<in> set (plan_candidates plan)" using plan_okD(3) [OF ok] i by force
    from plan_ok_decision [OF ok this] obtain d
      where "map_of (keyed_decisions (plan_decisions plan)) (cand_id (?o ! i)) = Some d"
        "dec_disposition d = Execute" using i by auto
    with tr i show ?thesis by (force simp: decisions_track_def split: if_splits)
  qed
  with shape show ?thesis by blast
qed

section \<open>Witnesses\<close>

definition sample_result :: "action_status \<Rightarrow> action_result" where
  "sample_result st =
     \<lparr>ar_run_id = ''r'', ar_request_id = ''q'', ar_status = st, ar_completed_at = 0,
      ar_changed = False, ar_effects = Unchanged, ar_output = [], ar_postconditions = [],
      ar_rollback = None, ar_effect_latency = None,
      ar_issue = (if st = ActionSucceeded then None else Some \<lparr>issue_code = ''x'', issue_target = None\<rparr>)\<rparr>"

definition sample_response :: agent_response where
  "sample_response =
     \<lparr>resp_reads = [], resp_message = None, resp_proposals = [sample_proposal ''p'', sample_proposal ''q''],
      resp_delegations = [], resp_updates = [],
      resp_metadata = [(''executionKind'', JStr ''bounded-decision''),
                       (''selectedChoice'', JStr ''install_recovery'')]\<rparr>"

definition sample_prepared :: prepared where
  "sample_prepared = \<lparr>prep_context = sample_context, prep_response = sample_response\<rparr>"

definition sample_timings :: timings where
  "sample_timings =
     \<lparr>tim_event_detection = None, tim_context_build = 0, tim_model_queueing = None,
      tim_reasoning = 0, tim_action_execution = 0, tim_action_effect = None, tim_total = 0\<rparr>"

definition sample_answers :: answers where
  "sample_answers =
     \<lparr>ans_validate = (\<lambda>_. Inr None), ans_rejections = (\<lambda>_. []), ans_revalidate = (\<lambda>_. Inr None),
      ans_admit = (\<lambda>_. None), ans_execute = (\<lambda>_. Inr (sample_result ActionFailed)),
      ans_reject = (\<lambda>_ _. Inr (sample_result ActionRejected)),
      ans_complete = (\<lambda>rs. Inr
        \<lparr>inv_invocation_id = ''i'', inv_run_id = ''r'', inv_agent_id = ''a'',
         inv_status = InvocationFailed, inv_started_at = 0, inv_completed_at = 0,
         inv_response = None, inv_action_results = rs, inv_state_changes = [],
         inv_timings = sample_timings, inv_issue = Some \<lparr>issue_code = ''x'', issue_target = None\<rparr>\<rparr>)\<rparr>"

definition sample_caps :: "agent_id \<Rightarrow> coord_error + capability_effects list" where
  "sample_caps a = Inr []"

theorem commit_accounts_for_every_action_witness:
  "\<exists>result report. commit_prepared sample_caps SerializePolicy sample_answers sample_prepared
     = Inr (result, None, report) \<and> length (inv_action_results result) = 2"
proof -
  have "distinct (map prop_id (resp_proposals (prep_response sample_prepared)))"
    by (simp add: sample_prepared_def sample_response_def sample_proposal_def)
  moreover have "calls_return sample_caps sample_answers"
    by (simp add: calls_return_def sample_caps_def sample_answers_def)
  ultimately obtain rs result report where
    r: "commit_prepared sample_caps SerializePolicy sample_answers sample_prepared
       = Inr (result, if inv_status result = InvocationSucceeded then Some (prep_response sample_prepared)
              else None, report)"
    "ans_complete sample_answers rs = Inr result"
    "list_all2 (accounted sample_answers) (resp_proposals (prep_response sample_prepared)) rs"
    using commit_accounts_for_every_action by blast
  have "inv_status result = InvocationFailed" "inv_action_results result = rs"
    using r(2) by (auto simp: sample_answers_def)
  moreover have "length rs = 2"
    using list_all2_lengthD [OF r(3)] by (simp add: sample_prepared_def sample_response_def)
  ultimately show ?thesis using r(1) by auto
qed

definition sample_plan :: arbitration_plan where
  "sample_plan = arbitrate_candidates SerializePolicy
     (map (\<lambda>n. \<lparr>cand_id = candidate_id ''i'' (if n = 0 then ''p'' else ''q''),
                cand_context = sample_context,
                cand_proposal = sample_proposal (if n = 0 then ''p'' else ''q''),
                cand_effects = [''*''], cand_conflict_keys = [''s1:*''], cand_sequence = n\<rparr>) [0, 1])"

theorem bundle_stops_and_report_matches_witness:
  "\<exists>st :: finish. fin_fates st = [Executed ActionFailed, BundleStopped]
     \<and> stops_after_failure True False (fin_fates st)"
proof -
  have b: "bounded_bundle (prep_response sample_prepared)"
    by (simp add: bounded_bundle_def sample_prepared_def sample_response_def)
  have plan: "arbitrate sample_caps SerializePolicy
      (map (Pair (prep_context sample_prepared)) [sample_proposal ''p'', sample_proposal ''q'']) = Inr sample_plan"
    by (simp add: arbitrate_def sample_caps_def make_candidate_def candidate_effects_def sample_plan_def
        Let_def sample_prepared_def sample_context_def sample_proposal_def)
  have "\<exists>st. fold_res (commit_step True [] sample_answers) (plan_ordered sample_plan)
      (start_finish sample_plan True Map.empty) = Inr st
      \<and> fin_fates st = [Executed ActionFailed, BundleStopped]"
    by (simp add: sample_plan_def arbitrate_candidates_def start_finish_def commit_step_def
        sample_answers_def sample_result_def refuse_def take_branch_def put_result_def
        revise_decision_def keyed_decisions_def candidate_id_def make_decision_def Let_def)
  then obtain st where st: "fold_res (commit_step (bounded_bundle (prep_response sample_prepared)) [] sample_answers)
      (plan_ordered sample_plan)
      (start_finish sample_plan (bounded_bundle (prep_response sample_prepared)) Map.empty) = Inr st"
    "fin_fates st = [Executed ActionFailed, BundleStopped]"
    using b by auto
  have "distinct (map prop_id [sample_proposal ''p'', sample_proposal ''q''])"
    by (simp add: sample_proposal_def)
  from bundle_stops_and_report_matches [OF plan this st(1)] b
  have "stops_after_failure True False (fin_fates st)" by simp
  with st(2) show ?thesis by blast
qed

end
