(* ===== verification/Routing.thy ===== *)
theory Routing
  imports Commit
begin

text \<open>
  Routing one external request (\<open>CoordinationRuntime\<close> of
  \<open>mininet_ai/coordination/routing.py\<close>): the root intent, the loop that takes messages from
  the channel while invocation slots are free, runs them and turns the delegations in their
  responses into further messages, and the outcome with its renumbered decisions.

  \<open>req_state\<close> holds the local variables of \<open>_coordinate\<close>; the channel and the slots are
  shared with the other requests, so each pass of the loop comes with what the others did to
  them and with the futures that completed in it. The id factory and the clock are other code:
  \<open>rt_supply n\<close> is the nth id and the clock reading taken with it.
\<close>

section \<open>Data\<close>

type_synonym msg = "json message"

record coordination_request =
  rq_run_id :: run_id
  rq_agent_id :: agent_id
  rq_intent :: string
  rq_correlation_id :: string
  rq_event_id :: "string option"
  rq_deadline_started :: "rat option"
  rq_deadline_seconds :: "rat option"

definition new_request :: "coordination_request \<Rightarrow> contract_error + coordination_request" where
  "new_request r =
     (if rq_run_id r = [] \<or> rq_agent_id r = [] \<or> rq_intent r = [] \<or> rq_correlation_id r = []
         \<or> \<not> nonempty_opt (rq_event_id r)
         \<or> (case rq_deadline_seconds r of None \<Rightarrow> False | Some d \<Rightarrow> d \<le> 0)
      then Inl FieldInvalid else Inr r)"

record coordination_issue =
  ci_code :: string
  ci_message_id :: "string option"
  ci_source :: "agent_id option"
  ci_target :: "agent_id option"

record coordinated_invocation =
  iv_message :: msg
  iv_result :: invocation_result

record coordination_outcome =
  out_run_id :: run_id
  out_correlation_id :: string
  out_requested :: agent_id
  out_entry :: agent_id
  out_messages :: "msg list"
  out_invocations :: "coordinated_invocation list"
  out_policy :: policy
  out_decisions :: "decision list"
  out_issues :: "coordination_issue list"

text \<open>What the result of a future is: an exception, or the three values of \<open>_invoke_message\<close>.\<close>

type_synonym invoked = "invocation_result \<times> agent_response option \<times> arbitration_report option"

record runtime =
  rt_graph :: graph
  rt_policy :: policy
  rt_supply :: "nat \<Rightarrow> string \<times> timestamp"

record shared =
  sh_channel :: "json channel"
  sh_slots :: slots

record req_state =
  rs_shared :: shared
  rs_taken_ids :: nat
  rs_messages :: "msg list"
  rs_submitted :: "string list"
  rs_futures :: "(msg \<times> lease) list"
  rs_issues :: "coordination_issue list"
  rs_invocations :: "coordinated_invocation list"
  rs_reports :: "arbitration_report list"

section \<open>Invoking the agent of a message\<close>

definition invocation_context :: "graph \<Rightarrow> msg \<Rightarrow> coord_error + coordination_context" where
  "invocation_context g m =
     (if \<not> payload_fields_ok (msg_payload m) then Inl (MessageRejected FieldConstraint)
      else case destinations g (target_agent_id m) of
        Inl e \<Rightarrow> Inl (GraphRaised e)
      | Inr dests \<Rightarrow>
          (case new_coordination_context
             \<lparr>cc_message_id = message_id m, cc_correlation_id = correlation_id m,
              cc_causation_id = causation_id m,
              cc_kind = (if msg_kind m = IntentKind then IntentContext else DelegationContext),
              cc_source = source_agent_id m,
              cc_requested = pl_requested_agent_id (msg_payload m), cc_destinations = dests,
              cc_hop_count = hop_count m, cc_metadata = pl_metadata (msg_payload m)\<rparr> of
             Inl _ \<Rightarrow> Inl ContractRejected
           | Inr c \<Rightarrow> Inr c))"

definition same_identity :: "msg \<Rightarrow> run_id \<Rightarrow> agent_id \<Rightarrow> bool" where
  "same_identity m run agent = (run = msg_run_id m \<and> agent = target_agent_id m)"

text \<open>
  The body of \<open>_invoke_message\<close> under its lease: \<open>prepare\<close> is the invoker's and \<open>commit\<close>
  is \<open>_commit_prepared\<close>.
\<close>

definition invoke_message ::
  "graph \<Rightarrow> (run_id \<Rightarrow> agent_id \<Rightarrow> string \<Rightarrow> coordination_context \<Rightarrow> coord_error + prepared + invocation_result)
   \<Rightarrow> (prepared \<Rightarrow> coord_error + invocation_result \<times> agent_response option \<times> arbitration_report)
   \<Rightarrow> msg \<Rightarrow> coord_error + invoked" where
  "invoke_message g prepare commit m =
     (if msg_kind m \<noteq> IntentKind \<and> msg_kind m \<noteq> DelegationKind then Inl KindUnexpected
      else bind_res (invocation_context g m) (\<lambda>ctx.
        bind_res (prepare (msg_run_id m) (target_agent_id m) (pl_intent (msg_payload m)) ctx) (\<lambda>r.
          case r of
            Inl p \<Rightarrow>
              if \<not> same_identity m (ctx_run_id (prep_context p)) (ctx_agent_id (prep_context p))
              then Inl IdentityMismatch
              else bind_res (commit p) (\<lambda>(result, response, report). Inr (result, response, Some report))
          | Inr result \<Rightarrow>
              if \<not> same_identity m (inv_run_id result) (inv_agent_id result) then Inl IdentityMismatch
              else Inr (result, None, None))))"

section \<open>Taking messages\<close>

text \<open>The ids of the pending messages whose agent has a free slot; a lookup may fail.\<close>

fun eligible_ids :: "slots \<Rightarrow> msg list \<Rightarrow> coord_error + string set" where
  "eligible_ids s [] = Inr {}"
| "eligible_ids s (m # ms) =
     bind_res (available s (target_agent_id m)) (\<lambda>ok.
     bind_res (eligible_ids s ms) (\<lambda>ids. Inr (if ok then insert (message_id m) ids else ids)))"

definition take_invocation ::
  "msg list \<Rightarrow> shared \<Rightarrow> coord_error + (msg \<times> lease \<times> shared) option" where
  "take_invocation pending sh =
     bind_res (eligible_ids (sh_slots sh) pending) (\<lambda>ids.
       if ids = {} then Inr None
       else case receive_now (Some ids) (sh_channel sh) of
              (None, _) \<Rightarrow> Inr None
            | (Some m, c) \<Rightarrow>
                bind_res (allocate (target_agent_id m) (sh_slots sh)) (\<lambda>(l, s).
                  Inr (Some (m, l, \<lparr>sh_channel = c, sh_slots = s\<rparr>))))"

text \<open>The inner loop: take, submit, and strike off the pending list.\<close>

function take_all :: "msg list \<Rightarrow> req_state \<Rightarrow> coord_error + msg list \<times> req_state" where
  "take_all pending st =
     (case take_invocation pending (rs_shared st) of
        Inl e \<Rightarrow> Inl e
      | Inr None \<Rightarrow> Inr (pending, st)
      | Inr (Some (m, l, sh)) \<Rightarrow>
          if m \<notin> set pending then Inl NotPending
          else take_all (remove1 m pending)
                 (st\<lparr>rs_shared := sh, rs_futures := rs_futures st @ [(m, l)],
                     rs_submitted := rs_submitted st @ [message_id m]\<rparr>))"
  by pat_completeness auto
termination
  by (relation "measure (\<lambda>(pending, _). length pending)") (auto simp: length_remove1_mem)

declare take_all.simps [simp del]

section \<open>Delegations\<close>

definition next_message_id :: "runtime \<Rightarrow> nat \<Rightarrow> coord_error + string \<times> timestamp" where
  "next_message_id rt n = (if fst (rt_supply rt n) = [] then Inl MessageIdEmpty else Inr (rt_supply rt n))"

definition delegated_message ::
  "msg \<Rightarrow> string \<Rightarrow> delegation_proposal \<Rightarrow> string \<Rightarrow> timestamp \<Rightarrow> coord_error + msg" where
  "delegated_message parent parent_invocation d i now =
     (let payload = \<lparr>pl_intent = del_intent d,
                     pl_requested_agent_id = pl_requested_agent_id (msg_payload parent),
                     pl_delegation_id = Some (del_id d), pl_metadata = del_metadata d\<rparr>
      in if \<not> payload_fields_ok payload then Inl (MessageRejected FieldConstraint)
         else case new_message
           \<lparr>message_id = i, msg_run_id = msg_run_id parent, msg_kind = DelegationKind,
            source_agent_id = Some (target_agent_id parent), target_agent_id = del_target_agent_id d,
            correlation_id = correlation_id parent, causation_id = Some (message_id parent),
            parent_invocation_id = Some parent_invocation,
            triggering_event_id = triggering_event_id parent, created_at = now,
            hop_count = hop_count parent + 1,
            traversed_message_ids = traversed_message_ids parent @ [message_id parent],
            msg_payload = payload\<rparr> of
           Inl e \<Rightarrow> Inl (MessageRejected e)
         | Inr m \<Rightarrow> Inr m)"

definition delegation_issue :: "string \<Rightarrow> msg \<Rightarrow> agent_id \<Rightarrow> coordination_issue" where
  "delegation_issue code parent target =
     \<lparr>ci_code = code, ci_message_id = Some (message_id parent),
      ci_source = Some (target_agent_id parent), ci_target = Some target\<rparr>"

definition message_issue :: "string \<Rightarrow> msg \<Rightarrow> coordination_issue" where
  "message_issue code m =
     \<lparr>ci_code = code, ci_message_id = Some (message_id m), ci_source = source_agent_id m,
      ci_target = Some (target_agent_id m)\<rparr>"

definition add_issue :: "coordination_issue \<Rightarrow> req_state \<Rightarrow> req_state" where
  "add_issue i st = st\<lparr>rs_issues := rs_issues st @ [i]\<rparr>"

definition delegate ::
  "runtime \<Rightarrow> msg \<Rightarrow> string \<Rightarrow> delegation_proposal \<Rightarrow> req_state \<Rightarrow> coord_error + req_state" where
  "delegate rt parent parent_invocation d st =
     (case authorize (rt_graph rt) (target_agent_id parent) (del_target_agent_id d) of
        Inl e \<Rightarrow>
          (case graph_code e of
             Some code \<Rightarrow> Inr (add_issue (delegation_issue code parent (del_target_agent_id d)) st)
           | None \<Rightarrow> Inl (GraphRaised e))
      | Inr _ \<Rightarrow>
          if hop_limit (rt_graph rt) < hop_count parent + 1
          then Inr (add_issue (delegation_issue ''coordination.message.hop-limit-exceeded'' parent
                      (del_target_agent_id d)) st)
          else bind_res (next_message_id rt (rs_taken_ids st)) (\<lambda>(i, now).
            bind_res (delegated_message parent parent_invocation d i now) (\<lambda>m.
              case send m (sh_channel (rs_shared st)) of
                Inl e \<Rightarrow>
                  (case channel_code e of
                     Some code \<Rightarrow>
                       Inr (add_issue (message_issue code m) (st\<lparr>rs_taken_ids := Suc (rs_taken_ids st)\<rparr>))
                   | None \<Rightarrow> Inl (ChannelRaised e))
              | Inr c \<Rightarrow>
                  Inr (st\<lparr>rs_taken_ids := Suc (rs_taken_ids st),
                          rs_shared := (rs_shared st)\<lparr>sh_channel := c\<rparr>,
                          rs_messages := rs_messages st @ [m]\<rparr>))))"

section \<open>Collecting futures\<close>

definition default_code :: "coord_error \<Rightarrow> string" where
  "default_code e = (case coord_code e of Some c \<Rightarrow> c | None \<Rightarrow> ''coordination.invocation.failed'')"

definition collect ::
  "runtime \<Rightarrow> msg \<Rightarrow> coord_error + invoked \<Rightarrow> req_state \<Rightarrow> coord_error + req_state" where
  "collect rt m outcome st =
     (case outcome of
        Inl e \<Rightarrow> Inr (add_issue (message_issue (default_code e) m) st)
      | Inr (result, response, report) \<Rightarrow>
          if \<not> same_identity m (inv_run_id result) (inv_agent_id result)
          then Inr (add_issue (message_issue ''coordination.invocation.invalid-identity'' m) st)
          else
            let st = st\<lparr>rs_invocations := rs_invocations st @ [\<lparr>iv_message = m, iv_result = result\<rparr>],
                        rs_reports := rs_reports st @ (case report of None \<Rightarrow> [] | Some r \<Rightarrow> [r])\<rparr>
            in (case response of
                  None \<Rightarrow> Inr st
                | Some r \<Rightarrow>
                    if \<not> payload_fields_ok (msg_payload m) then Inl (MessageRejected FieldConstraint)
                    else fold_res (delegate rt m (inv_invocation_id result)) (resp_delegations r) st))"

text \<open>
  One pass over the futures in submission order: those that are done (\<open>done m\<close> is their
  result) leave the table, and the lease of each was closed by its worker.
\<close>

definition collect_future ::
  "runtime \<Rightarrow> (msg \<Rightarrow> (coord_error + invoked) option) \<Rightarrow> msg \<times> lease \<Rightarrow> req_state
   \<Rightarrow> coord_error + req_state" where
  "collect_future rt outcome f st =
     (case outcome (fst f) of
        None \<Rightarrow> Inr st
      | Some r \<Rightarrow> collect rt (fst f) r (st\<lparr>rs_futures := remove1 f (rs_futures st)\<rparr>))"

definition close_done ::
  "(msg \<Rightarrow> (coord_error + invoked) option) \<Rightarrow> (msg \<times> lease) list \<Rightarrow> slots \<Rightarrow> slots" where
  "close_done outcome fs s =
     fold (\<lambda>f s. if outcome (fst f) = None then s else snd (close_lease (snd f) s)) fs s"

definition collect_done ::
  "runtime \<Rightarrow> (msg \<Rightarrow> (coord_error + invoked) option) \<Rightarrow> req_state \<Rightarrow> coord_error + req_state" where
  "collect_done rt outcome st =
     fold_res (collect_future rt outcome) (rs_futures st)
       (st\<lparr>rs_shared := (rs_shared st)\<lparr>sh_slots := close_done outcome (rs_futures st) (sh_slots (rs_shared st))\<rparr>\<rparr>)"

section \<open>The loop\<close>

definition pending_messages :: "req_state \<Rightarrow> msg list" where
  "pending_messages st = filter (\<lambda>m. message_id m \<notin> set (rs_submitted st)) (rs_messages st)"

text \<open>What happens around one pass: the other threads while it waits, and the futures it finds done.\<close>

record pass =
  ps_others :: "shared \<Rightarrow> shared"
  ps_done :: "msg \<Rightarrow> (coord_error + invoked) option"

text \<open>\<open>Inl\<close> is an exception, \<open>Inr (True, _)\<close> the \<open>break\<close>.\<close>

definition loop_pass :: "runtime \<Rightarrow> pass \<Rightarrow> req_state \<Rightarrow> coord_error + bool \<times> req_state" where
  "loop_pass rt p st =
     bind_res (take_all (pending_messages st) st) (\<lambda>(pending, st).
       if rs_futures st = [] then
         (if pending = [] then Inr (True, st)
          else Inr (False, st\<lparr>rs_shared := ps_others p (rs_shared st)\<rparr>))
       else bind_res (collect_done rt (ps_done p) (st\<lparr>rs_shared := ps_others p (rs_shared st)\<rparr>))
              (\<lambda>st. Inr (False, st)))"

text \<open>The passes; \<open>None\<close> is a request that is still running when the given passes are over.\<close>

fun run_loop :: "runtime \<Rightarrow> pass list \<Rightarrow> req_state \<Rightarrow> (coord_error + req_state) option" where
  "run_loop rt [] st = None"
| "run_loop rt (p # ps) st =
     (case loop_pass rt p st of
        Inl e \<Rightarrow> Some (Inl e)
      | Inr (True, st') \<Rightarrow> Some (Inr st')
      | Inr (False, st') \<Rightarrow> run_loop rt ps st')"

section \<open>Requests\<close>

definition root_metadata :: "coordination_request \<Rightarrow> json_object" where
  "root_metadata r =
     (case (rq_deadline_started r, rq_deadline_seconds r) of
        (Some t, Some d) \<Rightarrow> [(''deadlineStartedAt'', JFloat t), (''deadlineSeconds'', JFloat d)]
      | _ \<Rightarrow> [])"

definition root_message :: "runtime \<Rightarrow> coordination_request \<Rightarrow> agent_id \<Rightarrow> nat \<Rightarrow> coord_error + msg" where
  "root_message rt r entry n =
     bind_res (next_message_id rt n) (\<lambda>(i, now).
       let payload = \<lparr>pl_intent = rq_intent r, pl_requested_agent_id = rq_agent_id r,
                      pl_delegation_id = None, pl_metadata = root_metadata r\<rparr>
       in if \<not> payload_fields_ok payload then Inl (MessageRejected FieldConstraint)
          else case new_message
            \<lparr>message_id = i, msg_run_id = rq_run_id r, msg_kind = IntentKind, source_agent_id = None,
             target_agent_id = entry, correlation_id = rq_correlation_id r, causation_id = None,
             parent_invocation_id = None, triggering_event_id = rq_event_id r, created_at = now,
             hop_count = 0, traversed_message_ids = [], msg_payload = payload\<rparr> of
            Inl e \<Rightarrow> Inl (MessageRejected e)
          | Inr m \<Rightarrow> Inr m)"

text \<open>
  From the entry agent to the start of the loop. \<open>given\<close> is the lease the caller holds on
  the entry agent, if any; its message is received and submitted at once.
\<close>

definition start_request ::
  "runtime \<Rightarrow> coordination_request \<Rightarrow> lease option \<Rightarrow> nat \<Rightarrow> shared \<Rightarrow> coord_error + req_state" where
  "start_request rt r given n sh =
     (case entry_agent (rt_graph rt) (rq_agent_id r) of
        Inl e \<Rightarrow> Inl (GraphRaised e)
      | Inr entry \<Rightarrow>
          bind_res (root_message rt r entry n) (\<lambda>root.
          bind_res (session_enter (sh_slots sh)) (\<lambda>s.
          case send root (sh_channel sh) of
            Inl e \<Rightarrow> Inl (ChannelRaised e)
          | Inr c \<Rightarrow>
              (let st = \<lparr>rs_shared = \<lparr>sh_channel = c, sh_slots = s\<rparr>, rs_taken_ids = Suc n,
                         rs_messages = [root], rs_submitted = [], rs_futures = [], rs_issues = [],
                         rs_invocations = [], rs_reports = []\<rparr>
               in case given of
                    None \<Rightarrow> Inr st
                  | Some l \<Rightarrow>
                      if lease_agent l \<noteq> entry then Inl LeaseOfOtherAgent
                      else Inr (st\<lparr>rs_shared :=
                                     \<lparr>sh_channel = snd (receive_now (Some {message_id root}) c), sh_slots = s\<rparr>,
                                   rs_futures := [(root, l)], rs_submitted := [message_id root]\<rparr>)))))"

text \<open>Decisions numbered over the whole request, each executed one at its place in the history.\<close>

definition commit_place :: "candidate list \<Rightarrow> string \<Rightarrow> nat option" where
  "commit_place history i =
     List.find (\<lambda>k. cand_id (history ! k) = i) [0..<length history]"

definition final_decision :: "candidate list \<Rightarrow> nat \<Rightarrow> decision \<Rightarrow> decision" where
  "final_decision history n d =
     d\<lparr>dec_admission_sequence := n,
       dec_commit_order := (if dec_disposition d = Execute then commit_place history (dec_candidate_id d)
                            else None)\<rparr>"

definition final_decisions :: "candidate list \<Rightarrow> arbitration_report list \<Rightarrow> decision list" where
  "final_decisions history reports =
     (let ds = concat (map rep_decisions reports)
      in map (\<lambda>(n, d). final_decision history n d) (zip [0..<length ds] ds))"

definition request_outcome ::
  "runtime \<Rightarrow> coordination_request \<Rightarrow> agent_id \<Rightarrow> candidate list \<Rightarrow> req_state \<Rightarrow> coordination_outcome" where
  "request_outcome rt r entry history st =
     \<lparr>out_run_id = rq_run_id r, out_correlation_id = rq_correlation_id r,
      out_requested = rq_agent_id r, out_entry = entry, out_messages = rs_messages st,
      out_invocations = rs_invocations st, out_policy = rt_policy rt,
      out_decisions = final_decisions history (rs_reports st), out_issues = rs_issues st\<rparr>"

text \<open>The whole request, up to the passes it is given; a request that returns leaves its session.\<close>

definition coordinate ::
  "runtime \<Rightarrow> coordination_request \<Rightarrow> lease option \<Rightarrow> nat \<Rightarrow> shared \<Rightarrow> pass list \<Rightarrow> candidate list
   \<Rightarrow> (coord_error + coordination_outcome \<times> shared) option" where
  "coordinate rt r given n sh passes history =
     (case start_request rt r given n sh of
        Inl e \<Rightarrow> Some (Inl e)
      | Inr st \<Rightarrow>
          (case run_loop rt passes st of
             None \<Rightarrow> None
           | Some (Inl e) \<Rightarrow> Some (Inl e)
           | Some (Inr st') \<Rightarrow>
               (case entry_agent (rt_graph rt) (rq_agent_id r) of
                  Inl e \<Rightarrow> Some (Inl (GraphRaised e))
                | Inr entry \<Rightarrow>
                    Some (Inr (request_outcome rt r entry history st',
                               (rs_shared st')\<lparr>sh_slots := session_exit (sh_slots (rs_shared st'))\<rparr>)))))"

section \<open>Messages stay inside the plan\<close>

text \<open>
  A message of the request: the intent at the entry agent, or a delegation along an edge of
  the graph within the hop limit; run, correlation and requested agent are the request's.
\<close>

definition routed :: "graph \<Rightarrow> coordination_request \<Rightarrow> agent_id \<Rightarrow> msg \<Rightarrow> bool" where
  "routed g r entry m \<longleftrightarrow>
     message_wf m \<and> msg_run_id m = rq_run_id r \<and> correlation_id m = rq_correlation_id r
     \<and> pl_requested_agent_id (msg_payload m) = rq_agent_id r
     \<and> (msg_kind m = IntentKind \<and> source_agent_id m = None \<and> target_agent_id m = entry \<and> hop_count m = 0
        \<or> msg_kind m = DelegationKind \<and> 1 \<le> hop_count m \<and> hop_count m \<le> hop_limit g
          \<and> (\<exists>a e. source_agent_id m = Some a \<and> authorize g a (target_agent_id m) = Inr e))"

definition routed_state :: "graph \<Rightarrow> coordination_request \<Rightarrow> agent_id \<Rightarrow> req_state \<Rightarrow> bool" where
  "routed_state g r entry st \<longleftrightarrow>
     (\<forall>m\<in>set (rs_messages st). routed g r entry m)
     \<and> fst ` set (rs_futures st) \<subseteq> set (rs_messages st)"

lemma delegated_message_Inr:
  assumes "delegated_message parent inv_id d i now = Inr m"
  shows "message_wf m" "message_id m = i" "msg_run_id m = msg_run_id parent"
    "correlation_id m = correlation_id parent" "msg_kind m = DelegationKind"
    "pl_requested_agent_id (msg_payload m) = pl_requested_agent_id (msg_payload parent)"
    "source_agent_id m = Some (target_agent_id parent)" "target_agent_id m = del_target_agent_id d"
    "hop_count m = hop_count parent + 1"
    "traversed_message_ids m = traversed_message_ids parent @ [message_id parent]"
  using assms
  by (auto simp: delegated_message_def Let_def new_message_Inr_iff split: if_splits sum.splits)

text \<open>What delegating does: nothing but an issue, or one more message that the channel accepted.\<close>

definition accepted :: "msg \<Rightarrow> req_state \<Rightarrow> req_state \<Rightarrow> bool" where
  "accepted m st st' \<longleftrightarrow>
     message_id m \<notin> accepted_ids (sh_channel (rs_shared st))
     \<and> accepted_ids (sh_channel (rs_shared st'))
         = insert (message_id m) (accepted_ids (sh_channel (rs_shared st)))
     \<and> rs_messages st' = rs_messages st @ [m] \<and> rs_issues st' = rs_issues st"

definition unaccepted :: "req_state \<Rightarrow> req_state \<Rightarrow> bool" where
  "unaccepted st st' \<longleftrightarrow>
     rs_shared st' = rs_shared st \<and> rs_messages st' = rs_messages st
     \<and> (\<exists>i. rs_issues st' = rs_issues st @ [i])"

definition same_rest :: "req_state \<Rightarrow> req_state \<Rightarrow> bool" where
  "same_rest st st' \<longleftrightarrow>
     rs_submitted st' = rs_submitted st \<and> rs_futures st' = rs_futures st
     \<and> rs_invocations st' = rs_invocations st"

lemma delegate_Inr:
  assumes "delegate rt parent inv_id d st = Inr st'"
  shows "same_rest st st' \<and>
    (unaccepted st st'
     \<or> (\<exists>i now m e. delegated_message parent inv_id d i now = Inr m \<and> accepted m st st'
          \<and> authorize (rt_graph rt) (target_agent_id parent) (del_target_agent_id d) = Inr e
          \<and> hop_count parent + 1 \<le> hop_limit (rt_graph rt)))"
proof (cases "authorize (rt_graph rt) (target_agent_id parent) (del_target_agent_id d)")
  case (Inl e)
  with assms show ?thesis
    by (auto simp: delegate_def add_issue_def same_rest_def unaccepted_def split: option.splits)
next
  case (Inr e)
  show ?thesis
  proof (cases "hop_limit (rt_graph rt) < hop_count parent + 1")
    case True
    with Inr assms show ?thesis
      by (auto simp: delegate_def add_issue_def same_rest_def unaccepted_def)
  next
    case False
    with Inr assms obtain i now m where
      m: "delegated_message parent inv_id d i now = Inr m"
      and s: "(case send m (sh_channel (rs_shared st)) of
          Inl e \<Rightarrow> (case channel_code e of
             Some code \<Rightarrow> Inr (add_issue (message_issue code m) (st\<lparr>rs_taken_ids := Suc (rs_taken_ids st)\<rparr>))
           | None \<Rightarrow> Inl (ChannelRaised e))
        | Inr c \<Rightarrow> Inr (st\<lparr>rs_taken_ids := Suc (rs_taken_ids st),
              rs_shared := (rs_shared st)\<lparr>sh_channel := c\<rparr>, rs_messages := rs_messages st @ [m]\<rparr>)) = Inr st'"
      by (auto simp: delegate_def bind_res_Inr_iff)
    show ?thesis
    proof (cases "send m (sh_channel (rs_shared st))")
      case (Inl e')
      with s show ?thesis
        by (auto simp: add_issue_def same_rest_def unaccepted_def split: option.splits)
    next
      case (Inr c)
      note c = send_Inr(2,5) [OF Inr]
      from s Inr have "st' = st\<lparr>rs_taken_ids := Suc (rs_taken_ids st),
          rs_shared := (rs_shared st)\<lparr>sh_channel := c\<rparr>, rs_messages := rs_messages st @ [m]\<rparr>" by simp
      with c have "same_rest st st'" "accepted m st st'" by (simp_all add: same_rest_def accepted_def)
      with m \<open>authorize _ _ _ = Inr e\<close> False show ?thesis by (meson not_less)
    qed
  qed
qed

lemma delegate_routed:
  assumes "delegate rt parent inv_id d st = Inr st'" "routed_state (rt_graph rt) r entry st"
    and "routed (rt_graph rt) r entry parent"
  shows "routed_state (rt_graph rt) r entry st'"
proof -
  have same: "rs_futures st' = rs_futures st"
    using delegate_Inr [OF assms(1)] by (simp add: same_rest_def)
  from delegate_Inr [OF assms(1)] consider (no) "unaccepted st st'"
    | (yes) i now m e where "delegated_message parent inv_id d i now = Inr m" "accepted m st st'"
      "authorize (rt_graph rt) (target_agent_id parent) (del_target_agent_id d) = Inr e"
      "hop_count parent + 1 \<le> hop_limit (rt_graph rt)" by blast
  then show ?thesis
  proof cases
    case no
    then show ?thesis using assms(2) same by (simp add: unaccepted_def routed_state_def)
  next
    case yes
    note m = delegated_message_Inr [OF yes(1)]
    have "0 \<le> hop_count parent"
      using assms(3) by (auto simp: routed_def message_wf_def message_fields_ok_def)
    then have "routed (rt_graph rt) r entry m"
      using m yes(3,4) assms(3) by (auto simp: routed_def)
    moreover have "rs_messages st' = rs_messages st @ [m]" using yes(2) by (simp add: accepted_def)
    ultimately show ?thesis using assms(2) same by (auto simp: routed_state_def)
  qed
qed

lemma delegations_routed:
  assumes "fold_res (delegate rt parent inv_id) ds st = Inr st'" "routed_state (rt_graph rt) r entry st"
    and "routed (rt_graph rt) r entry parent"
  shows "routed_state (rt_graph rt) r entry st'"
  by (rule fold_res_invariant [OF assms(1)]) (use assms(2,3) delegate_routed in blast)+

text \<open>Collecting: an issue, or one more invocation followed by the delegations of its response.\<close>

definition recorded ::
  "msg \<Rightarrow> invocation_result \<Rightarrow> arbitration_report option \<Rightarrow> req_state \<Rightarrow> req_state" where
  "recorded m result report st =
     st\<lparr>rs_invocations := rs_invocations st @ [\<lparr>iv_message = m, iv_result = result\<rparr>],
        rs_reports := rs_reports st @ (case report of None \<Rightarrow> [] | Some r \<Rightarrow> [r])\<rparr>"

lemma collect_Inr:
  assumes "collect rt m res st = Inr st'"
  shows "(\<exists>code. st' = add_issue (message_issue code m) st)
    \<or> (\<exists>result report ds. same_identity m (inv_run_id result) (inv_agent_id result)
         \<and> fold_res (delegate rt m (inv_invocation_id result)) ds (recorded m result report st) = Inr st')"
proof (cases res)
  case (Inl e)
  with assms show ?thesis by (auto simp: collect_def)
next
  case (Inr x)
  obtain result response report where x: "x = (result, response, report)" by (cases x)
  show ?thesis
  proof (cases "same_identity m (inv_run_id result) (inv_agent_id result)")
    case False
    with assms Inr x show ?thesis by (auto simp: collect_def)
  next
    case True
    have "\<exists>ds. fold_res (delegate rt m (inv_invocation_id result)) ds (recorded m result report st) = Inr st'"
    proof (cases response)
      case None
      with assms Inr x True show ?thesis
        by (intro exI [of _ "[]"]) (simp add: collect_def recorded_def)
    next
      case (Some r)
      with assms Inr x True show ?thesis
        by (intro exI [of _ "resp_delegations r"]) (simp add: collect_def recorded_def split: if_splits)
    qed
    with True show ?thesis by blast
  qed
qed

lemma routed_state_cong:
  "rs_messages st' = rs_messages st \<Longrightarrow> rs_futures st' = rs_futures st \<Longrightarrow>
     routed_state g r entry st' = routed_state g r entry st"
  by (simp add: routed_state_def)

lemma collect_routed:
  assumes "collect rt m res st = Inr st'" "routed_state (rt_graph rt) r entry st"
    and "m \<in> set (rs_messages st)"
  shows "routed_state (rt_graph rt) r entry st'"
proof -
  have m: "routed (rt_graph rt) r entry m" using assms(2,3) by (simp add: routed_state_def)
  from collect_Inr [OF assms(1)] show ?thesis
  proof (elim disjE exE conjE)
    fix code assume "st' = add_issue (message_issue code m) st"
    with assms(2) show ?thesis by (subst routed_state_cong [of _ st]) (simp_all add: add_issue_def)
  next
    fix result report ds
    assume f: "fold_res (delegate rt m (inv_invocation_id result)) ds (recorded m result report st) = Inr st'"
    have "routed_state (rt_graph rt) r entry (recorded m result report st)"
      using assms(2) by (subst routed_state_cong [of _ st]) (simp_all add: recorded_def)
    from delegations_routed [OF f this m] show ?thesis .
  qed
qed

lemma collect_same:
  assumes "collect rt m res st = Inr st'"
  shows "rs_futures st' = rs_futures st \<and> set (rs_messages st) \<subseteq> set (rs_messages st')
    \<and> rs_submitted st' = rs_submitted st"
proof -
  have del: "rs_futures t' = rs_futures t \<and> set (rs_messages t) \<subseteq> set (rs_messages t')
      \<and> rs_submitted t' = rs_submitted t"
    if "fold_res (delegate rt m i) ds t = Inr t'" for i ds t t'
  proof (rule fold_res_invariant [OF that, where P = "\<lambda>u. rs_futures u = rs_futures t
      \<and> set (rs_messages t) \<subseteq> set (rs_messages u) \<and> rs_submitted u = rs_submitted t"])
    fix d u v assume "rs_futures u = rs_futures t \<and> set (rs_messages t) \<subseteq> set (rs_messages u)
      \<and> rs_submitted u = rs_submitted t" "delegate rt m i d u = Inr v"
    with delegate_Inr [OF this(2)] show "rs_futures v = rs_futures t
      \<and> set (rs_messages t) \<subseteq> set (rs_messages v) \<and> rs_submitted v = rs_submitted t"
      by (auto simp: same_rest_def unaccepted_def accepted_def)
  qed simp
  from collect_Inr [OF assms] show ?thesis
  proof (elim disjE exE conjE)
    fix code assume "st' = add_issue (message_issue code m) st"
    then show ?thesis by (simp add: add_issue_def)
  next
    fix result report ds
    assume "fold_res (delegate rt m (inv_invocation_id result)) ds (recorded m result report st) = Inr st'"
    from del [OF this] show ?thesis by (simp add: recorded_def)
  qed
qed

section \<open>The loop keeps what it started with\<close>

lemma take_invocation_Some:
  assumes "take_invocation pending sh = Inr (Some (m, l, sh'))"
  shows "m \<in> set (chan_messages (sh_channel sh))
    \<and> accepted_ids (sh_channel sh') = accepted_ids (sh_channel sh) \<and> lease_agent l = target_agent_id m"
  using assms
  by (auto simp: take_invocation_def bind_res_Inr_iff allocate_def
      split: if_splits prod.splits option.splits dest: receive_now_Some)

text \<open>What the inner loop does: it moves messages from the pending list to the futures.\<close>

lemma take_all_Inr:
  "take_all pending st = Inr (rest, st') \<Longrightarrow>
     \<exists>taken. rs_futures st' = rs_futures st @ taken
       \<and> rs_submitted st' = rs_submitted st @ map (message_id \<circ> fst) taken
       \<and> mset pending = mset rest + mset (map fst taken)
       \<and> rs_messages st' = rs_messages st \<and> rs_issues st' = rs_issues st
       \<and> rs_invocations st' = rs_invocations st
       \<and> accepted_ids (sh_channel (rs_shared st')) = accepted_ids (sh_channel (rs_shared st))"
proof (induction "length pending" arbitrary: pending st rule: less_induct)
  case less
  show ?case
  proof (cases "take_invocation pending (rs_shared st)")
    case (Inl e)
    with less.prems show ?thesis by (simp add: take_all.simps [of pending])
  next
    case (Inr x)
    show ?thesis
    proof (cases x)
      case None
      with less.prems Inr show ?thesis by (simp add: take_all.simps [of pending])
    next
      case (Some y)
      obtain m l sh where y: "y = (m, l, sh)" by (cases y)
      note tk = Inr [unfolded Some y]
      have mem: "m \<in> set pending"
        using less.prems tk by (auto simp: take_all.simps [of pending] split: if_splits)
      let ?st = "st\<lparr>rs_shared := sh, rs_futures := rs_futures st @ [(m, l)],
          rs_submitted := rs_submitted st @ [message_id m]\<rparr>"
      have "take_all (remove1 m pending) ?st = Inr (rest, st')"
        using less.prems tk mem by (simp add: take_all.simps [of pending])
      from less.hyps [OF length_remove1_mem [OF mem] this]
      obtain taken where t: "rs_futures st' = rs_futures ?st @ taken"
        "rs_submitted st' = rs_submitted ?st @ map (message_id \<circ> fst) taken"
        "mset (remove1 m pending) = mset rest + mset (map fst taken)"
        "rs_messages st' = rs_messages ?st" "rs_issues st' = rs_issues ?st"
        "rs_invocations st' = rs_invocations ?st"
        "accepted_ids (sh_channel (rs_shared st')) = accepted_ids (sh_channel (rs_shared ?st))"
        by auto
      have "mset pending = mset rest + mset (map fst ((m, l) # taken))"
        using t(3) mem by (metis add_mset_add_single insert_DiffM list.simps(9) mset.simps(2)
            mset_remove1 prod.sel(1) set_mset_mset union_mset_add_mset_right)
      with t take_invocation_Some [OF tk] show ?thesis
        by (intro exI [of _ "(m, l) # taken"]) simp
    qed
  qed
qed

lemma pending_subset: "set (pending_messages st) \<subseteq> set (rs_messages st)"
  by (auto simp: pending_messages_def)

lemma take_all_taken:
  assumes "mset pending = mset rest + mset (map fst taken)"
  shows "set (map fst taken) \<subseteq> set pending" "set rest \<subseteq> set pending"
  using mset_eq_setD [of pending "rest @ map fst taken"] assms by auto

lemma take_all_routed:
  assumes "take_all (pending_messages st) st = Inr (rest, st')" "routed_state g r entry st"
  shows "routed_state g r entry st'"
proof -
  obtain taken where t: "rs_futures st' = rs_futures st @ taken" "rs_messages st' = rs_messages st"
    "mset (pending_messages st) = mset rest + mset (map fst taken)"
    using take_all_Inr [OF assms(1)] by blast
  have "fst ` set taken \<subseteq> set (rs_messages st)"
    using take_all_taken(1) [OF t(3)] pending_subset [of st] by auto
  with assms(2) t(1,2) show ?thesis by (auto simp: routed_state_def)
qed

lemma collect_future_routed:
  assumes "collect_future rt done f st = Inr st'" "routed_state (rt_graph rt) r entry st"
    and "fst f \<in> set (rs_messages st)"
  shows "routed_state (rt_graph rt) r entry st' \<and> set (rs_messages st) \<subseteq> set (rs_messages st')"
proof (cases "done (fst f)")
  case None
  with assms show ?thesis by (simp add: collect_future_def)
next
  case (Some x)
  let ?st = "st\<lparr>rs_futures := remove1 f (rs_futures st)\<rparr>"
  have "routed_state (rt_graph rt) r entry ?st"
    using assms(2) set_remove1_subset [of f "rs_futures st"] by (auto simp: routed_state_def)
  moreover have "collect rt (fst f) x ?st = Inr st'" using assms(1) Some by (simp add: collect_future_def)
  ultimately show ?thesis using collect_routed [of rt _ x ?st st'] collect_same [of rt _ x ?st st'] assms(3)
    by force
qed

lemma collect_done_routed:
  assumes "collect_done rt done st = Inr st'" "routed_state (rt_graph rt) r entry st"
  shows "routed_state (rt_graph rt) r entry st'"
proof -
  let ?fs = "rs_futures st"
  let ?P = "\<lambda>s. routed_state (rt_graph rt) r entry s \<and> set (rs_messages st) \<subseteq> set (rs_messages s)"
  have "?P st'"
  proof (rule fold_res_invariant [OF assms(1) [unfolded collect_done_def], where P = ?P])
    show "?P (st\<lparr>rs_shared := (rs_shared st)\<lparr>sh_slots := close_done done ?fs (sh_slots (rs_shared st))\<rparr>\<rparr>)"
      using assms(2) by (simp add: routed_state_def)
  next
    fix f s t assume f: "f \<in> set ?fs" and s: "?P s" and step: "collect_future rt done f s = Inr t"
    have "fst f \<in> set (rs_messages s)" using f s assms(2) by (auto simp: routed_state_def)
    with collect_future_routed [OF step] s show "?P t" by blast
  qed
  then show ?thesis by blast
qed

lemma loop_pass_routed:
  assumes "loop_pass rt p st = Inr (b, st')" "routed_state (rt_graph rt) r entry st"
  shows "routed_state (rt_graph rt) r entry st'"
proof -
  obtain rest st1 where t: "take_all (pending_messages st) st = Inr (rest, st1)"
    using assms(1) by (auto simp: loop_pass_def bind_res_Inr_iff)
  note st1 = take_all_routed [OF t assms(2)]
  then have "routed_state (rt_graph rt) r entry (st1\<lparr>rs_shared := ps_others p (rs_shared st1)\<rparr>)"
    by (simp add: routed_state_def)
  with assms(1) t st1 show ?thesis
    by (auto simp: loop_pass_def bind_res_Inr_iff split: if_splits intro: collect_done_routed)
qed

lemma run_loop_routed:
  "run_loop rt ps st = Some (Inr st') \<Longrightarrow> routed_state (rt_graph rt) r entry st \<Longrightarrow>
     routed_state (rt_graph rt) r entry st'"
proof (induction ps arbitrary: st)
  case (Cons p ps)
  show ?case
  proof (cases "loop_pass rt p st")
    case (Inl e)
    with Cons.prems show ?thesis by simp
  next
    case (Inr x)
    obtain b st1 where x: "x = (b, st1)" by (cases x)
    have "routed_state (rt_graph rt) r entry st1"
      using loop_pass_routed [OF Inr [unfolded x] Cons.prems(2)] .
    with Cons Inr x show ?thesis by (cases b) auto
  qed
qed simp

lemma start_request_Inr:
  assumes "start_request rt r given n sh = Inr st"
  shows "\<exists>entry root. entry_agent (rt_graph rt) (rq_agent_id r) = Inr entry
    \<and> rs_messages st = [root] \<and> routed (rt_graph rt) r entry root
    \<and> message_id root \<in> accepted_ids (sh_channel (rs_shared st))
    \<and> rs_invocations st = [] \<and> rs_issues st = []
    \<and> (rs_futures st = [] \<and> rs_submitted st = []
       \<or> (\<exists>l. rs_futures st = [(root, l)] \<and> rs_submitted st = [message_id root]))"
proof -
  obtain entry where e: "entry_agent (rt_graph rt) (rq_agent_id r) = Inr entry"
    using assms by (auto simp: start_request_def split: sum.splits)
  obtain root where root: "root_message rt r entry n = Inr root"
    using assms e by (auto simp: start_request_def bind_res_Inr_iff)
  obtain c where c: "send root (sh_channel sh) = Inr c"
    using assms e root
    by (cases "send root (sh_channel sh)") (auto simp: start_request_def bind_res_Inr_iff)
  have "routed (rt_graph rt) r entry root"
    using root by (auto simp: root_message_def bind_res_Inr_iff Let_def routed_def new_message_Inr_iff
        split: if_splits sum.splits)
  moreover have acc: "message_id root \<in> accepted_ids c" using send_Inr(5) [OF c] by simp
  have "accepted_ids (snd (receive_now (Some {message_id root}) c)) = accepted_ids c"
    by (simp add: receive_now_def split: option.splits)
  with acc have "message_id root \<in> accepted_ids (snd (receive_now (Some {message_id root}) c))" by simp
  ultimately show ?thesis
    using assms e root c acc
    by (cases given)
      (auto simp: start_request_def bind_res_Inr_iff Let_def split: if_splits)
qed

section \<open>Every message is dealt with once\<close>

definition concerns :: "coordination_issue \<Rightarrow> msg \<Rightarrow> bool" where
  "concerns i m \<longleftrightarrow> ci_message_id i = Some (message_id m) \<and> ci_source i = source_agent_id m
     \<and> ci_target i = Some (target_agent_id m)"

definition dealt_with :: "req_state \<Rightarrow> msg \<Rightarrow> bool" where
  "dealt_with st m \<longleftrightarrow> m \<in> iv_message ` set (rs_invocations st)
     \<or> (\<exists>i\<in>set (rs_issues st). concerns i m)"

definition begun :: "req_state \<Rightarrow> string list" where
  "begun st = map (message_id \<circ> fst) (rs_futures st) @ map (message_id \<circ> iv_message) (rs_invocations st)"

text \<open>
  Message ids are distinct and known to the channel; no id is in flight or finished twice; a
  message that was submitted is in flight or dealt with, except the messages in \<open>X\<close>.
\<close>

definition once_except :: "msg set \<Rightarrow> req_state \<Rightarrow> bool" where
  "once_except X st \<longleftrightarrow>
     distinct (map message_id (rs_messages st))
     \<and> message_id ` set (rs_messages st) \<subseteq> accepted_ids (sh_channel (rs_shared st))
     \<and> distinct (begun st) \<and> set (begun st) \<subseteq> set (rs_submitted st)
     \<and> fst ` set (rs_futures st) \<subseteq> set (rs_messages st)
     \<and> iv_message ` set (rs_invocations st) \<subseteq> set (rs_messages st)
     \<and> (\<forall>m\<in>set (rs_messages st). message_id m \<in> set (rs_submitted st) \<longrightarrow>
          m \<in> X \<or> m \<in> fst ` set (rs_futures st) \<or> dealt_with st m)
     \<and> set (rs_submitted st) \<subseteq> message_id ` set (rs_messages st)
     \<and> (\<forall>i\<in>set (rs_invocations st).
          same_identity (iv_message i) (inv_run_id (iv_result i)) (inv_agent_id (iv_result i)))"

abbreviation once :: "req_state \<Rightarrow> bool" where
  "once \<equiv> once_except {}"

lemma onceD:
  assumes "once_except X st"
  shows "distinct (map message_id (rs_messages st))"
    and "message_id ` set (rs_messages st) \<subseteq> accepted_ids (sh_channel (rs_shared st))"
    and "distinct (begun st)" "set (begun st) \<subseteq> set (rs_submitted st)"
    and "fst ` set (rs_futures st) \<subseteq> set (rs_messages st)"
    and "iv_message ` set (rs_invocations st) \<subseteq> set (rs_messages st)"
    and "m \<in> set (rs_messages st) \<Longrightarrow> message_id m \<in> set (rs_submitted st) \<Longrightarrow>
      m \<in> X \<or> m \<in> fst ` set (rs_futures st) \<or> dealt_with st m"
    and "set (rs_submitted st) \<subseteq> message_id ` set (rs_messages st)"
    and "i \<in> set (rs_invocations st) \<Longrightarrow>
      same_identity (iv_message i) (inv_run_id (iv_result i)) (inv_agent_id (iv_result i))"
  using assms unfolding once_except_def by blast+

lemma take_all_once:
  assumes "take_all (pending_messages st) st = Inr (rest, st')" "once st"
  shows "once st' \<and> set rest = set (pending_messages st')"
proof -
  obtain taken where t: "rs_futures st' = rs_futures st @ taken"
    "rs_submitted st' = rs_submitted st @ map (message_id \<circ> fst) taken"
    "mset (pending_messages st) = mset rest + mset (map fst taken)"
    "rs_messages st' = rs_messages st" "rs_issues st' = rs_issues st"
    "rs_invocations st' = rs_invocations st"
    "accepted_ids (sh_channel (rs_shared st')) = accepted_ids (sh_channel (rs_shared st))"
    using take_all_Inr [OF assms(1)] by blast
  note o = onceD [OF assms(2)]
  have sub: "set (map fst taken) \<subseteq> set (pending_messages st)" using take_all_taken(1) [OF t(3)] .
  have dp: "distinct (map message_id (pending_messages st))"
    using o(1) by (simp add: pending_messages_def distinct_map_filter)
  have "mset (map message_id (pending_messages st)) = mset (map message_id (rest @ map fst taken))"
    using t(3) by (simp add: multiset.map_comp comp_def)
  then have "distinct (map message_id (rest @ map fst taken))"
    using dp mset_eq_imp_distinct_iff by blast
  then have dt: "distinct (map (message_id \<circ> fst) taken)"
    and disj: "message_id ` set rest \<inter> message_id ` fst ` set taken = {}"
    by (auto simp: image_image)
  have new: "message_id (fst f) \<notin> set (rs_submitted st)" "fst f \<in> set (rs_messages st)" if "f \<in> set taken" for f
    using sub that by (auto simp: pending_messages_def)
  have b: "set (begun st') = set (begun st) \<union> (message_id \<circ> fst) ` set taken"
    by (auto simp: begun_def t(1,6))
  have "set (begun st) \<inter> set (map (message_id \<circ> fst) taken) = {}" using o(4) new(1) by fastforce
  then have "distinct (begun st @ map (message_id \<circ> fst) taken)" using o(3) dt by (simp only: distinct_append)
  moreover have "mset (begun st') = mset (begun st @ map (message_id \<circ> fst) taken)"
    by (simp add: begun_def t(1,6))
  ultimately have "distinct (begun st')" using mset_eq_imp_distinct_iff by blast
  moreover have "set (begun st') \<subseteq> set (rs_submitted st')" using o(4) by (auto simp: b t(2))
  moreover have "m \<in> fst ` set (rs_futures st') \<or> dealt_with st' m"
    if m: "m \<in> set (rs_messages st')" "message_id m \<in> set (rs_submitted st')" for m
  proof (cases "message_id m \<in> set (rs_submitted st)")
    case True
    then have "m \<in> fst ` set (rs_futures st) \<or> dealt_with st m" using o(7) [of m] m(1) t(4) by simp
    then show ?thesis by (auto simp: t(1,5,6) dealt_with_def)
  next
    case False
    then obtain f where f: "f \<in> set taken" "message_id m = message_id (fst f)"
      using m(2) by (auto simp: t(2))
    then have "m = fst f" using new(2) [OF f(1)] o(1) m(1) t(4) by (metis distinct_map inj_onD)
    with f(1) show ?thesis by (auto simp: t(1))
  qed
  ultimately have "once st'"
    using o new(2) unfolding once_except_def by (auto simp: t(1,2,4,6,7))
  moreover have "set rest = set (pending_messages st')"
  proof -
    have "set (pending_messages st) = set rest \<union> fst ` set taken"
      using mset_eq_setD [of "pending_messages st" "rest @ map fst taken"] t(3) by simp
    moreover have "set (pending_messages st') = {m \<in> set (pending_messages st). message_id m \<notin> message_id ` fst ` set taken}"
      by (auto simp: pending_messages_def t(2,4) image_image)
    ultimately show ?thesis using disj by blast
  qed
  ultimately show ?thesis by blast
qed

lemma dealt_with_mono:
  "dealt_with st m \<Longrightarrow> set (rs_invocations st) \<subseteq> set (rs_invocations st') \<Longrightarrow>
     set (rs_issues st) \<subseteq> set (rs_issues st') \<Longrightarrow> dealt_with st' m"
  by (auto simp: dealt_with_def)

lemma delegate_once:
  assumes "delegate rt parent inv_id d st = Inr st'" "once_except X st"
  shows "once_except X st'"
proof -
  note o = onceD [OF assms(2)]
  have same: "rs_submitted st' = rs_submitted st" "rs_futures st' = rs_futures st"
    "rs_invocations st' = rs_invocations st"
    using delegate_Inr [OF assms(1)] by (simp_all add: same_rest_def)
  have bg: "begun st' = begun st" by (simp add: begun_def same)
  from delegate_Inr [OF assms(1)] consider (no) "unaccepted st st'" | (yes) m where "accepted m st st'"
    by blast
  then show ?thesis
  proof cases
    case no
    then have "rs_shared st' = rs_shared st" "rs_messages st' = rs_messages st"
      "set (rs_issues st) \<subseteq> set (rs_issues st')" by (auto simp: unaccepted_def)
    moreover have "\<And>m. dealt_with st m \<Longrightarrow> dealt_with st' m"
      using dealt_with_mono [of st _ st'] calculation(3) same(3) by simp
    moreover have "x \<in> X \<or> x \<in> fst ` set (rs_futures st') \<or> dealt_with st' x"
      if "x \<in> set (rs_messages st')" "message_id x \<in> set (rs_submitted st')" for x
      using that o(7) [of x] calculation(4) [of x] same calculation(2) by auto
    ultimately show ?thesis
      using o(1-6,8,9) unfolding once_except_def bg by (simp add: same)
  next
    case yes
    then have m: "message_id m \<notin> accepted_ids (sh_channel (rs_shared st))"
      "accepted_ids (sh_channel (rs_shared st')) = insert (message_id m) (accepted_ids (sh_channel (rs_shared st)))"
      "rs_messages st' = rs_messages st @ [m]" "rs_issues st' = rs_issues st"
      by (simp_all add: accepted_def)
    have dealt: "\<And>x. dealt_with st x \<Longrightarrow> dealt_with st' x"
      using dealt_with_mono [of st _ st'] m(4) same(3) by simp
    have fresh: "message_id m \<notin> message_id ` set (rs_messages st)" using m(1) o(2) by blast
    then have "message_id m \<notin> set (rs_submitted st)" using o(8) by blast
    then have "x \<in> X \<or> x \<in> fst ` set (rs_futures st') \<or> dealt_with st' x"
      if "x \<in> set (rs_messages st')" "message_id x \<in> set (rs_submitted st')" for x
      using that o(7) [of x] dealt [of x] by (auto simp: same m(3))
    moreover have "distinct (map message_id (rs_messages st'))" using o(1) fresh by (auto simp: m(3))
    moreover have "message_id ` set (rs_messages st') \<subseteq> accepted_ids (sh_channel (rs_shared st'))"
      using o(2) by (auto simp: m(2,3))
    ultimately show ?thesis
      using o(3-6,8,9) unfolding once_except_def bg by (auto simp: same m(3))
  qed
qed

lemma issue_once:
  assumes "once_except (insert m X) st" "concerns i m"
  shows "once_except X (add_issue i st)"
proof -
  note o = onceD [OF assms(1)]
  have "dealt_with (add_issue i st) m" using assms(2) by (auto simp: dealt_with_def add_issue_def)
  moreover have "\<And>x. dealt_with st x \<Longrightarrow> dealt_with (add_issue i st) x"
    by (auto simp: dealt_with_def add_issue_def)
  ultimately have "x \<in> X \<or> x \<in> fst ` set (rs_futures st) \<or> dealt_with (add_issue i st) x"
    if "x \<in> set (rs_messages st)" "message_id x \<in> set (rs_submitted st)" for x
    using o(7) [OF that] by blast
  moreover have "rs_messages (add_issue i st) = rs_messages st" "rs_futures (add_issue i st) = rs_futures st"
    "rs_submitted (add_issue i st) = rs_submitted st" "rs_shared (add_issue i st) = rs_shared st"
    "rs_invocations (add_issue i st) = rs_invocations st" "begun (add_issue i st) = begun st"
    by (simp_all add: add_issue_def begun_def)
  ultimately show ?thesis using o(1-6,8,9) unfolding once_except_def by simp
qed

lemma recorded_once:
  assumes "once_except (insert m X) st" "m \<in> set (rs_messages st)"
    and "message_id m \<notin> set (begun st)" "message_id m \<in> set (rs_submitted st)"
    and "same_identity m (inv_run_id result) (inv_agent_id result)"
  shows "once_except X (recorded m result report st)"
proof -
  note o = onceD [OF assms(1)]
  let ?st = "recorded m result report st"
  have f: "rs_messages ?st = rs_messages st" "rs_futures ?st = rs_futures st" "rs_submitted ?st = rs_submitted st"
    "rs_shared ?st = rs_shared st" "rs_issues ?st = rs_issues st"
    "rs_invocations ?st = rs_invocations st @ [\<lparr>iv_message = m, iv_result = result\<rparr>]"
    by (simp_all add: recorded_def)
  have "dealt_with ?st m" by (auto simp: dealt_with_def f)
  moreover have "\<And>x. dealt_with st x \<Longrightarrow> dealt_with ?st x" by (auto simp: dealt_with_def f)
  ultimately have "x \<in> X \<or> x \<in> fst ` set (rs_futures st) \<or> dealt_with ?st x"
    if "x \<in> set (rs_messages st)" "message_id x \<in> set (rs_submitted st)" for x
    using o(7) [OF that] by blast
  moreover have "distinct (begun ?st)" using o(3) assms(3) by (auto simp: begun_def f)
  moreover have "set (begun ?st) \<subseteq> set (rs_submitted st)" using o(4) assms(4) by (auto simp: begun_def f)
  ultimately show ?thesis
    using o(1,2,5,6,8,9) assms(2,5) unfolding once_except_def by (auto simp: f)
qed

lemma collect_once:
  assumes "collect rt m res st = Inr st'" "once_except (insert m X) st" "m \<in> set (rs_messages st)"
    and "message_id m \<notin> set (begun st)" "message_id m \<in> set (rs_submitted st)"
  shows "once_except X st'"
  using collect_Inr [OF assms(1)]
proof (elim disjE exE conjE)
  fix code assume "st' = add_issue (message_issue code m) st"
  moreover have "concerns (message_issue code m) m" by (simp add: concerns_def message_issue_def)
  ultimately show ?thesis using issue_once [OF assms(2)] by blast
next
  fix result :: invocation_result and report ds
  assume "same_identity m (inv_run_id result) (inv_agent_id result)"
  from recorded_once [OF assms(2-5) this]
  have "once_except X (recorded m result report st)" .
  moreover assume f: "fold_res (delegate rt m (inv_invocation_id result)) ds (recorded m result report st) = Inr st'"
  ultimately show ?thesis by - (rule fold_res_invariant [OF f]; blast intro: delegate_once)
qed

lemma removed_once:
  assumes "once st" "f \<in> set (rs_futures st)"
  shows "once_except {fst f} (st\<lparr>rs_futures := remove1 f (rs_futures st)\<rparr>)"
    and "message_id (fst f) \<notin> set (begun (st\<lparr>rs_futures := remove1 f (rs_futures st)\<rparr>))"
    and "message_id (fst f) \<in> set (rs_submitted st)" "fst f \<in> set (rs_messages st)"
proof -
  note o = onceD [OF assms(1)]
  let ?st = "st\<lparr>rs_futures := remove1 f (rs_futures st)\<rparr>"
  have "mset (begun st) = add_mset (message_id (fst f)) (mset (begun ?st))"
    using assms(2) by (simp add: begun_def image_mset_Diff)
  then have m: "mset (begun st) = mset (message_id (fst f) # begun ?st)" by simp
  then have d: "distinct (message_id (fst f) # begun ?st)" using o(3) mset_eq_imp_distinct_iff by blast
  then show "message_id (fst f) \<notin> set (begun ?st)" by simp
  have "set (begun ?st) \<subseteq> set (begun st)" using mset_eq_setD [OF m] by auto
  then have b: "set (begun ?st) \<subseteq> set (rs_submitted st)" using o(4) by blast
  show "message_id (fst f) \<in> set (rs_submitted st)" using o(4) mset_eq_setD [OF m] by auto
  show "fst f \<in> set (rs_messages st)" using o(5) assms(2) by blast
  have "set (rs_futures st) \<subseteq> insert f (set (remove1 f (rs_futures st)))"
    using in_set_remove1 by fast
  then have "fst ` set (rs_futures st) \<subseteq> insert (fst f) (fst ` set (remove1 f (rs_futures st)))"
    by blast
  then have "x \<in> {fst f} \<or> x \<in> fst ` set (rs_futures ?st) \<or> dealt_with ?st x"
    if "x \<in> set (rs_messages st)" "message_id x \<in> set (rs_submitted st)" for x
    using o(7) [OF that] by (auto simp: dealt_with_def)
  moreover have "fst ` set (rs_futures ?st) \<subseteq> set (rs_messages st)"
    using o(5) set_remove1_subset [of f "rs_futures st"] by auto
  ultimately show "once_except {fst f} ?st"
    using o(1,2,6,8,9) d b unfolding once_except_def by simp
qed

lemma collect_fold_once:
  "fold_res (collect_future rt done) fs st = Inr st' \<Longrightarrow> once st \<Longrightarrow> set fs \<subseteq> set (rs_futures st) \<Longrightarrow>
     distinct fs \<Longrightarrow> once st'"
proof (induction fs arbitrary: st)
  case (Cons f fs)
  obtain t where t: "collect_future rt done f st = Inr t" "fold_res (collect_future rt done) fs t = Inr st'"
    using Cons.prems(1) by (auto split: sum.splits)
  show ?case
  proof (cases "done (fst f)")
    case None
    with t Cons show ?thesis by (simp add: collect_future_def)
  next
    case (Some r)
    let ?st = "st\<lparr>rs_futures := remove1 f (rs_futures st)\<rparr>"
    have f: "f \<in> set (rs_futures st)" using Cons.prems(3) by simp
    note rm = removed_once [OF Cons.prems(2) f]
    have c: "collect rt (fst f) r ?st = Inr t" using t(1) Some by (simp add: collect_future_def)
    have "once t" using collect_once [OF c, of "{}"] rm by simp
    moreover have "rs_futures t = remove1 f (rs_futures st)" using collect_same [OF c] by simp
    moreover have "set fs \<subseteq> set (remove1 f (rs_futures st))"
    proof
      fix x assume x: "x \<in> set fs"
      then have "x \<noteq> f" "x \<in> set (rs_futures st)" using Cons.prems(3,4) by auto
      then show "x \<in> set (remove1 f (rs_futures st))" by (simp add: in_set_remove1)
    qed
    ultimately show ?thesis using Cons.IH [OF t(2)] Cons.prems(4) by simp
  qed
qed simp

text \<open>The other threads of the process never make the channel forget an id it accepted.\<close>

definition keeps_accepted :: "pass \<Rightarrow> bool" where
  "keeps_accepted p \<longleftrightarrow>
     (\<forall>sh. accepted_ids (sh_channel sh) \<subseteq> accepted_ids (sh_channel (ps_others p sh)))"

lemma others_once:
  assumes "once st" "accepted_ids (sh_channel (rs_shared st)) \<subseteq> accepted_ids (sh_channel sh)"
  shows "once (st\<lparr>rs_shared := sh\<rparr>)"
proof -
  have "begun (st\<lparr>rs_shared := sh\<rparr>) = begun st" "dealt_with (st\<lparr>rs_shared := sh\<rparr>) = dealt_with st"
    by (auto simp: begun_def dealt_with_def)
  then show ?thesis using onceD [OF assms(1)] assms(2) unfolding once_except_def by auto
qed

lemma collect_done_once:
  assumes "collect_done rt done st = Inr st'" "once st"
  shows "once st'"
proof -
  let ?sh = "(rs_shared st)\<lparr>sh_slots := close_done done (rs_futures st) (sh_slots (rs_shared st))\<rparr>"
  have "distinct (map (message_id \<circ> fst) (rs_futures st))"
    using onceD(3) [OF assms(2)] by (simp add: begun_def)
  then have "distinct (rs_futures st)" by (simp add: distinct_map)
  then show ?thesis
    using collect_fold_once [OF assms(1) [unfolded collect_done_def] others_once [OF assms(2), of ?sh]]
    by simp
qed

lemma loop_pass_once:
  assumes "loop_pass rt p st = Inr (b, st')" "once st" "keeps_accepted p"
  shows "once st' \<and> (b \<longrightarrow> (\<forall>m\<in>set (rs_messages st'). dealt_with st' m))"
proof -
  obtain rest st1 where t: "take_all (pending_messages st) st = Inr (rest, st1)"
    using assms(1) by (auto simp: loop_pass_def bind_res_Inr_iff)
  note st1 = take_all_once [OF t assms(2)]
  have others: "once (st1\<lparr>rs_shared := ps_others p (rs_shared st1)\<rparr>)"
    using others_once st1 assms(3) by (simp add: keeps_accepted_def)
  show ?thesis
  proof (cases "rs_futures st1 = []")
    case False
    with assms(1) t have "b = False"
      "collect_done rt (ps_done p) (st1\<lparr>rs_shared := ps_others p (rs_shared st1)\<rparr>) = Inr st'"
      by (auto simp: loop_pass_def bind_res_Inr_iff)
    with others collect_done_once show ?thesis by blast
  next
    case True
    show ?thesis
    proof (cases "rest = []")
      case False
      with True assms(1) t others show ?thesis by (auto simp: loop_pass_def)
    next
      case empty: True
      with True assms(1) t have st': "st' = st1" by (simp add: loop_pass_def)
      have "dealt_with st1 m" if m: "m \<in> set (rs_messages st1)" for m
      proof -
        have "m \<notin> set (pending_messages st1)" using st1 empty by simp
        then have "message_id m \<in> set (rs_submitted st1)" using m by (simp add: pending_messages_def)
        with onceD(7) [of "{}" st1 m] st1 m True show ?thesis by simp
      qed
      with st' st1 show ?thesis by simp
    qed
  qed
qed

lemma run_loop_once:
  "run_loop rt ps st = Some (Inr st') \<Longrightarrow> once st \<Longrightarrow> list_all keeps_accepted ps \<Longrightarrow>
     once st' \<and> (\<forall>m\<in>set (rs_messages st'). dealt_with st' m)"
proof (induction ps arbitrary: st)
  case (Cons p ps)
  show ?case
  proof (cases "loop_pass rt p st")
    case (Inl e)
    with Cons.prems show ?thesis by simp
  next
    case (Inr x)
    obtain b st1 where x: "x = (b, st1)" by (cases x)
    have "once st1 \<and> (b \<longrightarrow> (\<forall>m\<in>set (rs_messages st1). dealt_with st1 m))"
      using loop_pass_once [OF Inr [unfolded x]] Cons.prems by simp
    with Cons Inr x show ?thesis by (cases b) auto
  qed
qed simp

lemma coordinate_Inr:
  assumes "coordinate rt r given n sh ps history = Some (Inr (out, sh'))"
  shows "\<exists>st st'. start_request rt r given n sh = Inr st \<and> run_loop rt ps st = Some (Inr st')
    \<and> entry_agent (rt_graph rt) (rq_agent_id r) = Inr (out_entry out)
    \<and> out = request_outcome rt r (out_entry out) history st'"
proof -
  obtain st where st: "start_request rt r given n sh = Inr st"
    using assms by (auto simp: coordinate_def split: sum.splits)
  obtain st' where st': "run_loop rt ps st = Some (Inr st')"
    using assms st by (auto simp: coordinate_def split: sum.splits option.splits)
  obtain entry where e: "entry_agent (rt_graph rt) (rq_agent_id r) = Inr entry"
    using assms st st' by (auto simp: coordinate_def split: sum.splits)
  have out: "out = request_outcome rt r entry history st'"
    using assms st st' e by (simp add: coordinate_def)
  then have "out_entry out = entry" by (simp add: request_outcome_def)
  with out st st' e show ?thesis by simp
qed

section \<open>Properties\<close>

text \<open>C1. Routing never leaves the plan: every message of a finished request is either the intent given to the
  entry agent or a delegation along an edge the graph authorizes, within the hop limit, well
  formed, and of the same run, correlation and requested agent as the request. The other
  requests may do anything to the channel and the slots in the meantime.\<close>

theorem routing_stays_in_plan:
  assumes "coordinate rt r given n sh ps history = Some (Inr (out, sh'))"
  shows "entry_agent (rt_graph rt) (rq_agent_id r) = Inr (out_entry out)
    \<and> (\<forall>m\<in>set (out_messages out). routed (rt_graph rt) r (out_entry out) m)"
proof -
  obtain st st' where s: "start_request rt r given n sh = Inr st" "run_loop rt ps st = Some (Inr st')"
    "entry_agent (rt_graph rt) (rq_agent_id r) = Inr (out_entry out)"
    "out = request_outcome rt r (out_entry out) history st'"
    using coordinate_Inr [OF assms] by blast
  have "routed_state (rt_graph rt) r (out_entry out) st"
    using start_request_Inr [OF s(1)] s(3) by (auto simp: routed_state_def)
  from run_loop_routed [OF s(2) this] have "routed_state (rt_graph rt) r (out_entry out) st'" .
  moreover have "out_messages out = rs_messages st'" by (subst s(4)) (simp add: request_outcome_def)
  ultimately show ?thesis using s(3) by (simp add: routed_state_def)
qed

text \<open>C4. A finished request has drained everything it caused, once: its messages have distinct ids, no
  message was invoked twice, every invocation is one of its messages and came from that
  message's run and agent, and each message was invoked or has an issue that names it. The
  other threads only have to leave the ids accepted by the channel accepted.\<close>

theorem every_message_handled_once:
  assumes "coordinate rt r given n sh ps history = Some (Inr (out, sh'))"
    and "list_all keeps_accepted ps"
  shows "distinct (map message_id (out_messages out))
    \<and> distinct (map (message_id \<circ> iv_message) (out_invocations out))
    \<and> iv_message ` set (out_invocations out) \<subseteq> set (out_messages out)
    \<and> (\<forall>i\<in>set (out_invocations out).
         inv_run_id (iv_result i) = msg_run_id (iv_message i)
         \<and> inv_agent_id (iv_result i) = target_agent_id (iv_message i))
    \<and> (\<forall>m\<in>set (out_messages out).
         m \<in> iv_message ` set (out_invocations out) \<or> (\<exists>i\<in>set (out_issues out). concerns i m))"
proof -
  obtain st st' where s: "start_request rt r given n sh = Inr st" "run_loop rt ps st = Some (Inr st')"
    "out = request_outcome rt r (out_entry out) history st'"
    using coordinate_Inr [OF assms(1)] by blast
  have "once st" using start_request_Inr [OF s(1)] by (auto simp: once_except_def begun_def)
  from run_loop_once [OF s(2) this assms(2)]
  have o: "once st'" "\<forall>m\<in>set (rs_messages st'). dealt_with st' m" by auto
  have f: "out_messages out = rs_messages st'" "out_invocations out = rs_invocations st'"
    "out_issues out = rs_issues st'"
    by (subst s(3), simp add: request_outcome_def)+
  show ?thesis
    using onceD(1,3,6,9) [OF o(1)] o(2)
    by (auto simp: f begun_def dealt_with_def same_identity_def)
qed

section \<open>Witnesses\<close>

text \<open>Two peers; the first delegates to the second and to itself, and the second only answers.\<close>

definition sample_graph :: graph where
  "sample_graph =
     \<lparr>graph_mode = Distributed, graph_agents = [''a'', ''b''],
      graph_edges = [((''a'', ''b''), \<lparr>edge_source = ''a'', edge_target = ''b'', edge_relationship = Peer\<rparr>),
                     ((''b'', ''a''), \<lparr>edge_source = ''b'', edge_target = ''a'', edge_relationship = Peer\<rparr>)],
      graph_destinations = [(''a'', [''b'']), (''b'', [''a''])], graph_coordinator = None\<rparr>"

definition sample_runtime :: runtime where
  "sample_runtime = \<lparr>rt_graph = sample_graph, rt_policy = RejectPolicy,
     rt_supply = (\<lambda>n. (replicate (Suc n) (CHR ''m''), int n))\<rparr>"

definition sample_request :: coordination_request where
  "sample_request = \<lparr>rq_run_id = ''r'', rq_agent_id = ''a'', rq_intent = ''go'', rq_correlation_id = ''c'',
     rq_event_id = None, rq_deadline_started = None, rq_deadline_seconds = None\<rparr>"

definition sample_shared :: shared where
  "sample_shared = \<lparr>sh_channel = \<lparr>chan_capacity = 2, chan_messages = [], accepted_ids = {},
      chan_closed = False, sink_writes = None, written = []\<rparr>,
     sh_slots = new_slots 2 [(''a'', 1), (''b'', 1)]\<rparr>"

definition sample_reply :: "agent_id \<Rightarrow> delegation_proposal list \<Rightarrow> invoked" where
  "sample_reply a ds =
     (\<lparr>inv_invocation_id = ''i'', inv_run_id = ''r'', inv_agent_id = a, inv_status = InvocationSucceeded,
       inv_started_at = 0, inv_completed_at = 0, inv_response = None, inv_action_results = [],
       inv_state_changes = [], inv_timings = sample_timings, inv_issue = None\<rparr>,
      Some \<lparr>resp_reads = [], resp_message = Some ''ok'', resp_proposals = [], resp_delegations = ds,
            resp_updates = [], resp_metadata = []\<rparr>, None)"

definition sample_delegation :: "agent_id \<Rightarrow> delegation_proposal" where
  "sample_delegation a = \<lparr>del_id = ''d'', del_target_agent_id = a, del_intent = ''help'', del_metadata = []\<rparr>"

definition sample_pass :: pass where
  "sample_pass = \<lparr>ps_others = (\<lambda>sh. sh),
     ps_done = (\<lambda>m. if target_agent_id m = ''a''
       then Some (Inr (sample_reply ''a'' [sample_delegation ''b'', sample_delegation ''a'']))
       else Some (Inr (sample_reply ''b'' [])))\<rparr>"

lemmas sample_defs = sample_graph_def sample_runtime_def sample_request_def sample_shared_def
  sample_reply_def sample_delegation_def sample_pass_def sample_timings_def

lemma sample_coordinate_run:
  "case coordinate sample_runtime sample_request None 0 sample_shared
       [sample_pass, sample_pass, sample_pass] [] of
     Some (Inr (out, _)) \<Rightarrow> map target_agent_id (out_messages out) = [''a'', ''b'']
       \<and> map ci_code (out_issues out) = [''coordination.graph.delivery-denied'']
   | _ \<Rightarrow> False"
  by code_simp

lemma sample_coordinate:
  obtains out sh where "coordinate sample_runtime sample_request None 0 sample_shared
       [sample_pass, sample_pass, sample_pass] [] = Some (Inr (out, sh))"
    and "map target_agent_id (out_messages out) = [''a'', ''b'']"
  using sample_coordinate_run by (auto split: option.splits sum.splits)

theorem routing_stays_in_plan_witness:
  "\<exists>out :: coordination_outcome. map target_agent_id (out_messages out) = [''a'', ''b'']
     \<and> (\<forall>m\<in>set (out_messages out). routed sample_graph sample_request ''a'' m)"
proof -
  obtain out sh where o: "coordinate sample_runtime sample_request None 0 sample_shared
      [sample_pass, sample_pass, sample_pass] [] = Some (Inr (out, sh))"
    "map target_agent_id (out_messages out) = [''a'', ''b'']"
    by (rule sample_coordinate)
  from routing_stays_in_plan [OF o(1)] have r: "entry_agent sample_graph ''a'' = Inr (out_entry out)"
    "\<forall>m\<in>set (out_messages out). routed sample_graph sample_request (out_entry out) m"
    by (simp_all add: sample_runtime_def sample_request_def)
  then have "out_entry out = ''a''" by (simp add: entry_agent_def require_agent_def sample_graph_def)
  with r(2) o(2) show ?thesis by (intro exI [of _ out]) simp
qed

theorem every_message_handled_once_witness:
  "\<exists>out :: coordination_outcome. map target_agent_id (out_messages out) = [''a'', ''b'']
     \<and> distinct (map (message_id \<circ> iv_message) (out_invocations out))
     \<and> (\<forall>m\<in>set (out_messages out).
          m \<in> iv_message ` set (out_invocations out) \<or> (\<exists>i\<in>set (out_issues out). concerns i m))"
proof -
  obtain out sh where o: "coordinate sample_runtime sample_request None 0 sample_shared
      [sample_pass, sample_pass, sample_pass] [] = Some (Inr (out, sh))"
    "map target_agent_id (out_messages out) = [''a'', ''b'']"
    by (rule sample_coordinate)
  have "list_all keeps_accepted [sample_pass, sample_pass, sample_pass]"
    by (simp add: keeps_accepted_def sample_pass_def)
  from every_message_handled_once [OF o(1) this] o(2) show ?thesis
    by (intro exI [of _ out]) simp
qed

end
