(* ===== verification/Shared_State.thy ===== *)
theory Shared_State
  imports Sdk "HOL-Library.Product_Lexorder"
begin

text \<open>
  Shared operational state (\<open>mininet_ai/runtime/state.py\<close>): what an agent may access, the
  checks every store makes, \<open>InMemorySharedStateStore\<close> and \<open>SQLiteSharedStateStore\<close>.

  Both stores run an operation under their lock, so an operation is one function on the state
  that gives back its result and the state afterwards. The clock is other code: \<open>clock n\<close> is
  its reading for the nth update of the call. In the SQLite store the text columns are the values
  they are the text of (\<open>json.dumps\<close> and \<open>json.loads\<close> undo each other); \<open>db_fails\<close> says at
  which update of the call, if any, the database raises.
\<close>

section \<open>Access\<close>

datatype state_error =
    ScopeForbidden state_scope
  | UpdateDuplicate state_scope string
  | VersionRequired state_scope string
  | VersionConflict state_scope string int int
  | EntryMissing state_scope string
  | CapacityExceeded state_scope
  | StateClosed
  | StateReadFailed
  | StateWriteFailed
  | NullValue

text \<open>The codes of \<open>SharedStateError\<close>; \<open>NullValue\<close> is the \<open>TypeError\<close> of decoding a NULL.\<close>

fun state_code :: "state_error \<Rightarrow> string option" where
  "state_code (ScopeForbidden _) = Some ''state.scope.forbidden''"
| "state_code (UpdateDuplicate _ _) = Some ''state.update.duplicate''"
| "state_code (VersionRequired _ _) = Some ''state.version.required''"
| "state_code (VersionConflict _ _ _ _) = Some ''state.version.conflict''"
| "state_code (EntryMissing _ _) = Some ''state.entry.missing''"
| "state_code (CapacityExceeded _) = Some ''state.capacity.exceeded''"
| "state_code StateClosed = Some ''state.closed''"
| "state_code StateReadFailed = Some ''state.read.failed''"
| "state_code StateWriteFailed = Some ''state.write.failed''"
| "state_code NullValue = None"

text \<open>The \<open>conflict\<close> flag of \<open>SharedStateError\<close>.\<close>

fun state_conflicted :: "state_error \<Rightarrow> bool" where
  "state_conflicted StateClosed = False"
| "state_conflicted StateReadFailed = False"
| "state_conflicted StateWriteFailed = False"
| "state_conflicted NullValue = False"
| "state_conflicted _ = True"

record access =
  acc_run_id :: run_id
  acc_deployment :: string
  acc_agent_id :: agent_id
  acc_limits :: "(state_scope \<times> int) list"

definition namespace :: "access \<Rightarrow> state_scope \<Rightarrow> state_error + string" where
  "namespace a scope =
     (if map_of (acc_limits a) scope = None then Inl (ScopeForbidden scope)
      else if scope = RunScope then Inr (''run:'' @ acc_run_id a)
      else Inr (''run:'' @ acc_run_id a @ '':deployment:'' @ acc_deployment a))"

fun validate_from ::
  "access \<Rightarrow> state_update list \<Rightarrow> (state_scope \<times> string) set \<Rightarrow> state_error + unit" where
  "validate_from a [] seen = Inr ()"
| "validate_from a (u # us) seen =
     bind_res (namespace a (su_scope u)) (\<lambda>_.
       if (su_scope u, su_key u) \<in> seen then Inl (UpdateDuplicate (su_scope u) (su_key u))
       else validate_from a us (insert (su_scope u, su_key u) seen))"

definition validate_updates :: "access \<Rightarrow> state_update list \<Rightarrow> state_error + unit" where
  "validate_updates a us = validate_from a us {}"

definition check_expected :: "state_update \<Rightarrow> int option \<Rightarrow> bool \<Rightarrow> state_error + unit" where
  "check_expected u current deleted =
     (let visible = (if deleted then None else current) in
      if su_expected u = None \<and> visible \<noteq> None then Inl (VersionRequired (su_scope u) (su_key u))
      else let expected = (case su_expected u of None \<Rightarrow> 0 | Some e \<Rightarrow> e) in
        if expected = 0 \<and> visible = None then Inr ()
        else if Some expected \<noteq> visible
        then Inl (VersionConflict (su_scope u) (su_key u) expected
                    (case visible of None \<Rightarrow> 0 | Some v \<Rightarrow> v))
        else Inr ())"

section \<open>The in-memory store\<close>

record stored =
  en_value :: json
  en_version :: int
  en_deleted :: bool
  en_by :: agent_id
  en_at :: timestamp

type_synonym mem_store = "((string \<times> string) \<times> stored) list"

definition state_change_of :: "state_update \<Rightarrow> int \<Rightarrow> state_change" where
  "state_change_of u version =
     \<lparr>sc_scope = su_scope u, sc_operation = su_operation u, sc_key = su_key u, sc_version = version,
      sc_value = (if su_operation u = DeleteOp then JNull else su_value u)\<rparr>"

definition entry_of :: "stored \<Rightarrow> state_entry" where
  "entry_of e = \<lparr>se_value = en_value e, se_version = en_version e, se_updated_by = en_by e,
                 se_updated_at = en_at e\<rparr>"

text \<open>\<open>entries.get(identity)\<close>, the version and whether it counts as deleted.\<close>

definition version_of :: "stored option \<Rightarrow> int option" where
  "version_of c = (case c of None \<Rightarrow> None | Some e \<Rightarrow> Some (en_version e))"

definition deleted_of :: "stored option \<Rightarrow> bool" where
  "deleted_of c = (case c of None \<Rightarrow> True | Some e \<Rightarrow> en_deleted e)"

text \<open>\<open>(version or 0) + 1\<close>.\<close>

definition next_version :: "int option \<Rightarrow> int" where
  "next_version v = (case v of None \<Rightarrow> 0 | Some n \<Rightarrow> n) + 1"

text \<open>\<open>access.limits[scope]\<close> of a scope that \<open>namespace\<close> accepted.\<close>

definition scope_limit :: "access \<Rightarrow> state_scope \<Rightarrow> int" where
  "scope_limit a scope = (case map_of (acc_limits a) scope of None \<Rightarrow> 0 | Some n \<Rightarrow> n)"

definition mem_active :: "string \<Rightarrow> mem_store \<Rightarrow> int" where
  "mem_active ns entries =
     int (length (filter (\<lambda>((n, _), e). n = ns \<and> \<not> en_deleted e) entries))"

definition mem_update ::
  "access \<Rightarrow> timestamp \<Rightarrow> state_update \<Rightarrow> mem_store \<Rightarrow> state_error + state_change \<times> mem_store" where
  "mem_update a now u entries =
     bind_res (namespace a (su_scope u)) (\<lambda>ns.
       let current = map_of entries (ns, su_key u);
           version = version_of current; deleted = deleted_of current in
       bind_res (check_expected u version deleted) (\<lambda>_.
         if su_operation u = DeleteOp \<and> (current = None \<or> deleted)
         then Inl (EntryMissing (su_scope u) (su_key u))
         else if su_operation u = SetOp \<and> (current = None \<or> deleted)
                 \<and> scope_limit a (su_scope u) \<le> mem_active ns entries
         then Inl (CapacityExceeded (su_scope u))
         else Inr (state_change_of u (next_version version),
                   AList.update (ns, su_key u)
                     \<lparr>en_value = su_value u, en_version = next_version version,
                      en_deleted = (su_operation u = DeleteOp), en_by = acc_agent_id a, en_at = now\<rparr>
                     entries)))"

fun mem_updates ::
  "access \<Rightarrow> (nat \<Rightarrow> timestamp) \<Rightarrow> nat \<Rightarrow> state_update list \<Rightarrow> mem_store
   \<Rightarrow> state_error + state_change list \<times> mem_store" where
  "mem_updates a clock n [] entries = Inr ([], entries)"
| "mem_updates a clock n (u # us) entries =
     bind_res (mem_update a (clock n) u entries) (\<lambda>(c, entries).
     bind_res (mem_updates a clock (Suc n) us entries) (\<lambda>(cs, entries).
     Inr (c # cs, entries)))"

definition mem_apply ::
  "access \<Rightarrow> (nat \<Rightarrow> timestamp) \<Rightarrow> state_update list \<Rightarrow> mem_store
   \<Rightarrow> (state_error + state_change list) \<times> mem_store" where
  "mem_apply a clock us entries =
     (case validate_updates a us of
        Inl e \<Rightarrow> (Inl e, entries)
      | Inr _ \<Rightarrow>
          (case mem_updates a clock 0 us entries of
             Inl e \<Rightarrow> (Inl e, entries)
           | Inr (changes, staged) \<Rightarrow> (Inr changes, staged)))"

text \<open>\<open>sorted(self._entries.items())\<close>: the keys are distinct, so they alone decide the order.\<close>

definition mem_scope_snapshot ::
  "access \<Rightarrow> mem_store \<Rightarrow> state_scope \<Rightarrow> state_error + (string \<times> state_entry) list" where
  "mem_scope_snapshot a entries scope =
     bind_res (namespace a scope) (\<lambda>ns.
       Inr (map (\<lambda>((_, k), e). (k, entry_of e))
         (filter (\<lambda>((n, _), e). n = ns \<and> \<not> en_deleted e)
           (map (\<lambda>i. (i, the (map_of entries i))) (sort (map fst entries))))))"

definition snapshot_of ::
  "access \<Rightarrow> (state_scope \<times> (string \<times> state_entry) list) list \<Rightarrow> state_snapshot" where
  "snapshot_of a values =
     \<lparr>snap_scopes = map fst (acc_limits a),
      snap_run = (case map_of values RunScope of None \<Rightarrow> [] | Some d \<Rightarrow> d),
      snap_deployment = (case map_of values DeploymentScope of None \<Rightarrow> [] | Some d \<Rightarrow> d)\<rparr>"

definition mem_snapshot :: "access \<Rightarrow> mem_store \<Rightarrow> state_error + state_snapshot" where
  "mem_snapshot a entries =
     bind_res (map_res (\<lambda>scope. bind_res (mem_scope_snapshot a entries scope) (\<lambda>d. Inr (scope, d)))
                (map fst (acc_limits a)))
       (\<lambda>values. Inr (snapshot_of a values))"

section \<open>The SQLite store\<close>

record row =
  r_namespace :: string
  r_scope :: state_scope
  r_key :: string
  r_value :: "json option"
  r_version :: int
  r_deleted :: bool
  r_by :: agent_id
  r_at :: timestamp

record sql_store =
  sq_open :: bool
  sq_rows :: "row list"

definition select_row :: "string \<Rightarrow> string \<Rightarrow> row list \<Rightarrow> row option" where
  "select_row ns k rows = List.find (\<lambda>r. r_namespace r = ns \<and> r_key r = k) rows"

definition count_active :: "string \<Rightarrow> row list \<Rightarrow> int" where
  "count_active ns rows = int (length (filter (\<lambda>r. r_namespace r = ns \<and> \<not> r_deleted r) rows))"

text \<open>\<open>INSERT ... ON CONFLICT(namespace, key) DO UPDATE\<close> of every other column.\<close>

fun upsert :: "row \<Rightarrow> row list \<Rightarrow> row list" where
  "upsert r [] = [r]"
| "upsert r (q # qs) =
     (if r_namespace q = r_namespace r \<and> r_key q = r_key r then r # qs else q # upsert r qs)"

definition sql_update ::
  "access \<Rightarrow> timestamp \<Rightarrow> state_update \<Rightarrow> row list \<Rightarrow> state_error + state_change \<times> row list" where
  "sql_update a now u rows =
     bind_res (namespace a (su_scope u)) (\<lambda>ns.
       let current = select_row ns (su_key u) rows;
           version = map_option r_version current;
           deleted = (case current of None \<Rightarrow> True | Some r \<Rightarrow> r_deleted r) in
       bind_res (check_expected u version deleted) (\<lambda>_.
         if su_operation u = DeleteOp \<and> (current = None \<or> deleted)
         then Inl (EntryMissing (su_scope u) (su_key u))
         else if su_operation u = SetOp \<and> (current = None \<or> deleted)
                 \<and> scope_limit a (su_scope u) \<le> count_active ns rows
         then Inl (CapacityExceeded (su_scope u))
         else Inr (state_change_of u (next_version version),
                   upsert \<lparr>r_namespace = ns, r_scope = su_scope u, r_key = su_key u,
                           r_value = (if su_operation u = DeleteOp then None else Some (su_value u)),
                           r_version = next_version version, r_deleted = (su_operation u = DeleteOp),
                           r_by = acc_agent_id a, r_at = now\<rparr> rows)))"

fun sql_updates ::
  "access \<Rightarrow> (nat \<Rightarrow> timestamp) \<Rightarrow> nat option \<Rightarrow> nat \<Rightarrow> state_update list \<Rightarrow> row list
   \<Rightarrow> state_error + state_change list \<times> row list" where
  "sql_updates a clock db_fails n [] rows = Inr ([], rows)"
| "sql_updates a clock db_fails n (u # us) rows =
     (if db_fails = Some n then Inl StateWriteFailed
      else bind_res (sql_update a (clock n) u rows) (\<lambda>(c, rows).
           bind_res (sql_updates a clock db_fails (Suc n) us rows) (\<lambda>(cs, rows).
           Inr (c # cs, rows))))"

text \<open>Every exception rolls the transaction back.\<close>

definition sql_apply ::
  "access \<Rightarrow> (nat \<Rightarrow> timestamp) \<Rightarrow> nat option \<Rightarrow> state_update list \<Rightarrow> sql_store
   \<Rightarrow> (state_error + state_change list) \<times> sql_store" where
  "sql_apply a clock db_fails us s =
     (case validate_updates a us of
        Inl e \<Rightarrow> (Inl e, s)
      | Inr _ \<Rightarrow>
          if \<not> sq_open s then (Inl StateClosed, s)
          else (case sql_updates a clock db_fails 0 us (sq_rows s) of
                  Inl e \<Rightarrow> (Inl e, s)
                | Inr (changes, rows) \<Rightarrow> (Inr changes, s\<lparr>sq_rows := rows\<rparr>)))"

text \<open>\<open>SELECT ... ORDER BY key\<close>; a NULL value cannot be decoded.\<close>

definition row_entry :: "row \<Rightarrow> state_error + string \<times> state_entry" where
  "row_entry r =
     (case r_value r of
        None \<Rightarrow> Inl NullValue
      | Some v \<Rightarrow> Inr (r_key r, \<lparr>se_value = v, se_version = r_version r, se_updated_by = r_by r,
                                se_updated_at = r_at r\<rparr>))"

definition sql_scope_snapshot ::
  "access \<Rightarrow> row list \<Rightarrow> state_scope \<Rightarrow> state_error + (string \<times> state_entry) list" where
  "sql_scope_snapshot a rows scope =
     bind_res (namespace a scope) (\<lambda>ns.
       map_res row_entry
         (sort_key r_key (filter (\<lambda>r. r_namespace r = ns \<and> \<not> r_deleted r) rows)))"

definition sql_snapshot :: "access \<Rightarrow> bool \<Rightarrow> sql_store \<Rightarrow> state_error + state_snapshot" where
  "sql_snapshot a db_fails s =
     (if \<not> sq_open s then Inl StateClosed
      else if db_fails then Inl StateReadFailed
      else bind_res
             (map_res (\<lambda>scope. bind_res (sql_scope_snapshot a (sq_rows s) scope) (\<lambda>d. Inr (scope, d)))
               (map fst (acc_limits a)))
             (\<lambda>values. Inr (snapshot_of a values)))"

definition sql_close :: "sql_store \<Rightarrow> sql_store" where
  "sql_close s = s\<lparr>sq_open := False\<rparr>"

section \<open>The contract of a store\<close>

text \<open>
  What both stores promise, in terms of the entries a store holds: the value of a deleted entry
  is never read, so it is left out of the comparison.
\<close>

type_synonym state_view = "string \<times> string \<Rightarrow> stored option"

definition norm_entry :: "stored \<Rightarrow> stored" where
  "norm_entry e = (if en_deleted e then e\<lparr>en_value := JNull\<rparr> else e)"

text \<open>The key an update goes to, and the entry it leaves there.\<close>

definition target_key :: "access \<Rightarrow> state_update \<Rightarrow> string \<times> string" where
  "target_key a u = (case namespace a (su_scope u) of Inl _ \<Rightarrow> ([], su_key u) | Inr ns \<Rightarrow> (ns, su_key u))"

definition update_effect ::
  "access \<Rightarrow> state_view \<Rightarrow> state_view \<Rightarrow> state_update \<Rightarrow> state_change \<Rightarrow> bool" where
  "update_effect a v v' u c \<longleftrightarrow>
     (let current = v (target_key a u); version = next_version (version_of current) in
      check_expected u (version_of current) (deleted_of current) = Inr ()
      \<and> (su_operation u = DeleteOp \<longrightarrow> \<not> deleted_of current)
      \<and> c = state_change_of u version
      \<and> (\<exists>now. v' (target_key a u) =
           Some (norm_entry \<lparr>en_value = su_value u, en_version = version,
                       en_deleted = (su_operation u = DeleteOp), en_by = acc_agent_id a, en_at = now\<rparr>)))"

text \<open>A committed call: every update took effect, and nothing else changed.\<close>

definition committed ::
  "access \<Rightarrow> state_update list \<Rightarrow> state_view \<Rightarrow> state_view \<Rightarrow> state_change list \<Rightarrow> bool" where
  "committed a us v v' cs \<longleftrightarrow>
     list_all2 (update_effect a v v') us cs
     \<and> (\<forall>k. k \<notin> target_key a ` set us \<longrightarrow> v' k = v k)"

text \<open>Calls one after another, with the result of each.\<close>

fun run_calls :: "('op \<Rightarrow> 's \<Rightarrow> 'r \<times> 's) \<Rightarrow> 'op list \<Rightarrow> 's \<Rightarrow> 'r list \<times> 's" where
  "run_calls f [] s = ([], s)"
| "run_calls f (x # xs) s =
     (case f x s of (r, s') \<Rightarrow> (case run_calls f xs s' of (rs, s'') \<Rightarrow> (r # rs, s'')))"

text \<open>
  The interface: \<open>view\<close> reads the entries, \<open>inv\<close> is the store's own invariant and
  \<open>put x a us\<close> a call (\<open>x\<close> stands for what else decides it: the clock, failures).
\<close>

locale shared_state_store =
  fixes view :: "'s \<Rightarrow> state_view"
    and inv :: "'s \<Rightarrow> bool"
    and put :: "'x \<Rightarrow> access \<Rightarrow> state_update list \<Rightarrow> 's \<Rightarrow> (state_error + state_change list) \<times> 's"
  assumes put_inv: "inv s \<Longrightarrow> put x a us s = (res, s') \<Longrightarrow> inv s'"
    and put_Inl: "inv s \<Longrightarrow> put x a us s = (Inl e, s') \<Longrightarrow> view s' = view s"
    and versions_positive: "inv s \<Longrightarrow> view s k = Some entry \<Longrightarrow> 0 < en_version entry"
    and put_Inr: "inv s \<Longrightarrow> put x a us s = (Inr cs, s') \<Longrightarrow> committed a us (view s) (view s') cs"
begin

abbreviation call :: "'x \<times> access \<times> state_update list \<Rightarrow> 's \<Rightarrow> (state_error + state_change list) \<times> 's" where
  "call \<equiv> \<lambda>(x, a, us). put x a us"

lemma put_entry:
  assumes "inv s" "put x a us s = (res, s')" "view s k = Some e"
  shows "\<exists>e'. view s' k = Some e' \<and> (e' = e \<or> en_version e' = en_version e + 1)"
proof (cases res)
  case (Inl err)
  then show ?thesis using put_Inl assms by simp
next
  case (Inr cs)
  have c: "committed a us (view s) (view s') cs" using put_Inr assms(1,2) Inr by simp
  show ?thesis
  proof (cases "k \<in> target_key a ` set us")
    case False
    then have "view s' k = view s k" using c unfolding committed_def by blast
    with assms(3) show ?thesis by simp
  next
    case True
    then obtain u where u: "u \<in> set us" "k = target_key a u" by auto
    from c have "list_all2 (update_effect a (view s) (view s')) us cs" by (simp add: committed_def)
    from list_all2_set1 [OF this u(1)] obtain ch where "update_effect a (view s) (view s') u ch" by blast
    with u(2) assms(3) show ?thesis
      by (auto simp: update_effect_def Let_def norm_entry_def version_of_def next_version_def)
  qed
qed

lemma run_calls_inv: "run_calls call ops s = (rs, s') \<Longrightarrow> inv s \<Longrightarrow> inv s'"
proof (induction ops arbitrary: s rs)
  case (Cons op ops)
  obtain x a us where op: "op = (x, a, us)" by (cases op)
  obtain r s1 where r: "put x a us s = (r, s1)" by fastforce
  obtain rs1 s2 where s2: "run_calls call ops s1 = (rs1, s2)" by fastforce
  with Cons op r put_inv show ?case by auto
qed simp

text \<open>A version says which entry it is: as long as it does not change, nothing was written.\<close>

lemma versions_identify:
  "run_calls call ops s = (rs, s') \<Longrightarrow> inv s \<Longrightarrow> view s k = Some e \<Longrightarrow>
     \<exists>e'. view s' k = Some e' \<and> en_version e \<le> en_version e' \<and> (en_version e' = en_version e \<longrightarrow> e' = e)"
proof (induction ops arbitrary: s rs e)
  case (Cons op ops)
  obtain x a us where op: "op = (x, a, us)" by (cases op)
  obtain r s1 where r: "put x a us s = (r, s1)" by fastforce
  obtain rs1 s2 where s2: "run_calls call ops s1 = (rs1, s2)" by fastforce
  obtain e1 where e1: "view s1 k = Some e1" "e1 = e \<or> en_version e1 = en_version e + 1"
    using put_entry [OF Cons.prems(2) r Cons.prems(3)] by blast
  have s': "s2 = s'" using Cons.prems(1) op r s2 by simp
  from Cons.IH [OF s2 [unfolded s'] put_inv [OF Cons.prems(2) r] e1(1)] obtain e' where
    "view s' k = Some e'" "en_version e1 \<le> en_version e'" "en_version e' = en_version e1 \<longrightarrow> e' = e1"
    by blast
  with e1(2) show ?case by auto
qed simp

text \<open>
  Optimistic concurrency: an update that names the version it read succeeds only if nothing
  was written to the entry since, whatever calls ran in between.
\<close>

lemma compare_and_set:
  assumes "run_calls call ops s = (rs, s1)" "inv s"
    and "view s (target_key a u) = Some e" "su_expected u = Some (en_version e)"
    and "u \<in> set us" "put x a us s1 = (Inr cs, s2)"
  shows "view s1 (target_key a u) = Some e
    \<and> (\<exists>e2. view s2 (target_key a u) = Some e2 \<and> en_version e2 = en_version e + 1)"
proof -
  have i: "inv s1" by (rule run_calls_inv [OF assms(1,2)])
  obtain e1 where e1: "view s1 (target_key a u) = Some e1" "en_version e1 = en_version e \<longrightarrow> e1 = e"
    using versions_identify [OF assms(1-3)] by blast
  have "list_all2 (update_effect a (view s1) (view s2)) us cs"
    using put_Inr [OF i assms(6)] by (simp add: committed_def)
  from list_all2_set1 [OF this assms(5)] obtain c where c: "update_effect a (view s1) (view s2) u c" by blast
  then have "check_expected u (Some (en_version e1)) (en_deleted e1) = Inr ()"
    using e1(1) by (simp add: update_effect_def Let_def version_of_def deleted_of_def)
  with assms(4) versions_positive [OF assms(2,3)] have "en_version e1 = en_version e"
    by (auto simp: check_expected_def Let_def split: if_splits)
  with e1 c show ?thesis
    by (auto simp: update_effect_def Let_def norm_entry_def version_of_def next_version_def)
qed

end

section \<open>The in-memory store keeps the contract\<close>

definition mem_view :: "mem_store \<Rightarrow> state_view" where
  "mem_view m = (\<lambda>k. map_option norm_entry (map_of m k))"

definition mem_inv :: "mem_store \<Rightarrow> bool" where
  "mem_inv m \<longleftrightarrow> distinct (map fst m) \<and> (\<forall>(k, e)\<in>set m. 0 < en_version e)"

definition mem_put ::
  "(nat \<Rightarrow> timestamp) \<Rightarrow> access \<Rightarrow> state_update list \<Rightarrow> mem_store
   \<Rightarrow> (state_error + state_change list) \<times> mem_store" where
  "mem_put clock a us m = mem_apply a clock us m"

lemma norm_fields [simp]:
  "en_version (norm_entry e) = en_version e" "en_deleted (norm_entry e) = en_deleted e"
  by (simp_all add: norm_entry_def)

lemma version_of_view [simp]: "version_of (map_option norm_entry c) = version_of c"
  by (cases c) (simp_all add: version_of_def)

lemma deleted_of_view [simp]: "deleted_of (map_option norm_entry c) = deleted_of c"
  by (cases c) (simp_all add: deleted_of_def)

lemma next_version_positive: "mem_inv m \<Longrightarrow> 0 < next_version (version_of (map_of m k))"
  by (cases "map_of m k")
    (force simp: next_version_def version_of_def mem_inv_def dest!: map_of_SomeD)+

lemma mem_update_Inr:
  assumes "mem_update a now u m = Inr (c, m')"
  shows "update_effect a (mem_view m) (mem_view m') u c
    \<and> (\<forall>k. k \<noteq> target_key a u \<longrightarrow> mem_view m' k = mem_view m k)
    \<and> (\<exists>e. m' = AList.update (target_key a u) e m \<and> en_version e = next_version (version_of (map_of m (target_key a u))))"
proof -
  obtain ns where ns: "namespace a (su_scope u) = Inr ns"
    using assms by (auto simp: mem_update_def bind_res_Inr_iff)
  then have t: "target_key a u = (ns, su_key u)" by (simp add: target_key_def)
  let ?cur = "map_of m (ns, su_key u)"
  let ?e = "\<lparr>en_value = su_value u, en_version = next_version (version_of ?cur),
      en_deleted = (su_operation u = DeleteOp), en_by = acc_agent_id a, en_at = now\<rparr>"
  have r: "check_expected u (version_of ?cur) (deleted_of ?cur) = Inr ()"
    "\<not> (su_operation u = DeleteOp \<and> (?cur = None \<or> deleted_of ?cur))"
    "c = state_change_of u (next_version (version_of ?cur))" "m' = AList.update (ns, su_key u) ?e m"
    using assms ns by (auto simp: mem_update_def Let_def bind_res_Inr_iff split: if_splits)
  have "update_effect a (mem_view m) (mem_view m') u c"
    unfolding update_effect_def t Let_def mem_view_def
    using r(1-3) by (auto simp: r(4))
  moreover have "mem_view m' k = mem_view m k" if "k \<noteq> target_key a u" for k
    using that by (simp add: mem_view_def r(4) t)
  ultimately show ?thesis using r(4) t by (intro conjI exI [of _ ?e]) auto
qed

lemma mem_update_inv:
  assumes "mem_update a now u m = Inr (c, m')" "mem_inv m"
  shows "mem_inv m'"
proof -
  obtain e where e: "m' = AList.update (target_key a u) e m"
    "en_version e = next_version (version_of (map_of m (target_key a u)))"
    using mem_update_Inr [OF assms(1)] by blast
  have "0 < en_version e" using next_version_positive [OF assms(2)] e(2) by simp
  moreover have "distinct (map fst m')"
    using assms(2) unfolding e(1) mem_inv_def by (simp add: distinct_update)
  moreover have "set m' \<subseteq> insert (target_key a u, e) (set m)"
    unfolding e(1) by (induction m) auto
  moreover have "\<forall>(k, e)\<in>set m. 0 < en_version e" using assms(2) by (simp add: mem_inv_def)
  ultimately show ?thesis unfolding mem_inv_def by (auto dest: subsetD)
qed

lemma update_effect_cong:
  assumes "update_effect a v v' u c" "w (target_key a u) = v (target_key a u)"
    and "w' (target_key a u) = v' (target_key a u)"
  shows "update_effect a w w' u c"
  using assms by (simp add: update_effect_def)

lemma mem_updates_committed:
  "mem_updates a clock n us m = Inr (cs, m') \<Longrightarrow> distinct (map (target_key a) us) \<Longrightarrow> mem_inv m \<Longrightarrow>
     committed a us (mem_view m) (mem_view m') cs \<and> mem_inv m'"
proof (induction us arbitrary: n m cs)
  case Nil
  then show ?case by (simp add: committed_def)
next
  case (Cons u us)
  obtain c m1 cs1 where u: "mem_update a (clock n) u m = Inr (c, m1)"
    "mem_updates a clock (Suc n) us m1 = Inr (cs1, m')" "cs = c # cs1"
    using Cons.prems(1) by (auto simp: bind_res_Inr_iff)
  note e = mem_update_Inr [OF u(1)]
  have i: "mem_inv m1" by (rule mem_update_inv [OF u(1) Cons.prems(3)])
  have d: "distinct (map (target_key a) us)" "target_key a u \<notin> target_key a ` set us"
    using Cons.prems(2) by auto
  from Cons.IH [OF u(2) d(1) i]
  have IH: "list_all2 (update_effect a (mem_view m1) (mem_view m')) us cs1"
    "\<forall>k. k \<notin> target_key a ` set us \<longrightarrow> mem_view m' k = mem_view m1 k" "mem_inv m'"
    by (auto simp: committed_def)
  have "update_effect a (mem_view m) (mem_view m') u c"
  proof (rule update_effect_cong)
    show "update_effect a (mem_view m) (mem_view m1) u c" using e by blast
    show "mem_view m' (target_key a u) = mem_view m1 (target_key a u)" using IH(2) d(2) by blast
  qed simp
  moreover have "list_all2 (update_effect a (mem_view m) (mem_view m')) us cs1"
  proof (rule list.rel_mono_strong [OF IH(1)])
    fix x y assume x: "x \<in> set us" and "update_effect a (mem_view m1) (mem_view m') x y"
    have "target_key a x \<noteq> target_key a u" using d(2) x by (metis image_eqI)
    then have "mem_view m (target_key a x) = mem_view m1 (target_key a x)" using e by metis
    with \<open>update_effect a (mem_view m1) (mem_view m') x y\<close>
    show "update_effect a (mem_view m) (mem_view m') x y" by (rule update_effect_cong) simp
  qed
  moreover have "mem_view m' k = mem_view m k" if "k \<notin> target_key a ` set (u # us)" for k
  proof -
    have "k \<notin> target_key a ` set us" "k \<noteq> target_key a u" using that by simp_all
    then have "mem_view m' k = mem_view m1 k" using IH(2) by blast
    also have "\<dots> = mem_view m k" using e \<open>k \<noteq> target_key a u\<close> by metis
    finally show ?thesis .
  qed
  ultimately show ?case using IH(3) u(3) unfolding committed_def by auto
qed

text \<open>Accepted updates go to pairwise different keys.\<close>

lemma namespace_inj:
  assumes "namespace a x = Inr n" "namespace a y = Inr n"
  shows "x = y"
  using assms by (cases x; cases y) (auto simp: namespace_def split: if_splits)

lemma validate_from_distinct:
  "validate_from a us seen = Inr () \<Longrightarrow>
     (\<forall>u\<in>set us. \<exists>ns. namespace a (su_scope u) = Inr ns)
     \<and> distinct (map (\<lambda>u. (su_scope u, su_key u)) us)
     \<and> (\<forall>u\<in>set us. (su_scope u, su_key u) \<notin> seen)"
  by (induction us arbitrary: seen) (fastforce simp: bind_res_Inr_iff split: if_splits)+

lemma validate_updates_distinct:
  assumes "validate_updates a us = Inr ()"
  shows "distinct (map (target_key a) us)"
proof -
  note v = validate_from_distinct [OF assms [unfolded validate_updates_def]]
  have inj: "(su_scope u, su_key u) = (su_scope w, su_key w)"
    if asm: "u \<in> set us" "w \<in> set us" "target_key a u = target_key a w" for u w
  proof -
    obtain n n' where n: "namespace a (su_scope u) = Inr n" "namespace a (su_scope w) = Inr n'"
      using v asm(1,2) by blast
    with asm(3) have "n = n'" "su_key u = su_key w" by (auto simp: target_key_def)
    with n show ?thesis using namespace_inj by simp
  qed
  have d: "distinct us" "inj_on (\<lambda>u. (su_scope u, su_key u)) (set us)"
    using v by (simp_all add: distinct_map)
  have "inj_on (target_key a) (set us)"
  proof (rule inj_onI)
    fix u w assume "u \<in> set us" "w \<in> set us" "target_key a u = target_key a w"
    then show "u = w" using inj inj_onD [OF d(2)] by blast
  qed
  with d(1) show ?thesis by (simp add: distinct_map)
qed

lemma mem_apply_committed:
  assumes "mem_apply a clock us m = (Inr cs, m')" "mem_inv m"
  shows "committed a us (mem_view m) (mem_view m') cs \<and> mem_inv m'"
proof -
  have "validate_updates a us = Inr ()" "mem_updates a clock 0 us m = Inr (cs, m')"
    using assms(1) by (auto simp: mem_apply_def split: sum.splits)
  with mem_updates_committed validate_updates_distinct assms(2) show ?thesis by blast
qed

lemma mem_apply_Inl: "mem_apply a clock us m = (Inl e, m') \<Longrightarrow> m' = m"
  by (auto simp: mem_apply_def split: sum.splits prod.splits)

interpretation mem: shared_state_store mem_view mem_inv mem_put
proof
  fix m x a us res m'
  assume i: "mem_inv m" and p: "mem_put x a us m = (res, m')"
  show "mem_inv m'"
  proof (cases res)
    case (Inl e)
    with p have "m' = m" using mem_apply_Inl [of a x us m e m'] by (simp add: mem_put_def)
    with i show ?thesis by simp
  next
    case (Inr cs)
    with p i show ?thesis using mem_apply_committed by (auto simp: mem_put_def)
  qed
next
  fix m x a us e m'
  assume "mem_inv m" "mem_put x a us m = (Inl e, m')"
  then show "mem_view m' = mem_view m" using mem_apply_Inl [of a x us m e m'] by (simp add: mem_put_def)
next
  fix m k e assume "mem_inv m" "mem_view m k = Some e"
  then show "0 < en_version e"
    by (auto simp: mem_view_def mem_inv_def dest!: map_of_SomeD)
next
  fix m x a us cs m'
  assume "mem_inv m" "mem_put x a us m = (Inr cs, m')"
  then show "committed a us (mem_view m) (mem_view m') cs"
    using mem_apply_committed by (auto simp: mem_put_def)
qed

section \<open>The SQLite store keeps the contract\<close>

definition stored_of :: "row \<Rightarrow> stored" where
  "stored_of r = \<lparr>en_value = (case r_value r of None \<Rightarrow> JNull | Some v \<Rightarrow> v), en_version = r_version r,
                  en_deleted = r_deleted r, en_by = r_by r, en_at = r_at r\<rparr>"

definition row_key :: "row \<Rightarrow> string \<times> string" where
  "row_key r = (r_namespace r, r_key r)"

definition alist_of :: "row list \<Rightarrow> mem_store" where
  "alist_of rows = map (\<lambda>r. (row_key r, stored_of r)) rows"

definition norm_store :: "mem_store \<Rightarrow> mem_store" where
  "norm_store m = map (\<lambda>(k, e). (k, norm_entry e)) m"

definition sql_view :: "sql_store \<Rightarrow> state_view" where
  "sql_view s = map_of (alist_of (sq_rows s))"

definition rows_ok :: "row list \<Rightarrow> bool" where
  "rows_ok rows \<longleftrightarrow> mem_inv (alist_of rows) \<and> (\<forall>r\<in>set rows. r_deleted r \<longleftrightarrow> r_value r = None)"

definition sql_inv :: "sql_store \<Rightarrow> bool" where
  "sql_inv s \<longleftrightarrow> rows_ok (sq_rows s)"

definition sql_put ::
  "(nat \<Rightarrow> timestamp) \<times> nat option \<Rightarrow> access \<Rightarrow> state_update list \<Rightarrow> sql_store
   \<Rightarrow> (state_error + state_change list) \<times> sql_store" where
  "sql_put x a us s = sql_apply a (fst x) (snd x) us s"

lemma map_of_norm_store: "map_of (norm_store m) k = map_option norm_entry (map_of m k)"
  by (induction m) (auto simp: norm_store_def)

lemma mem_view_norm: "mem_view m = map_of (norm_store m)"
  by (rule ext) (simp add: mem_view_def map_of_norm_store)

lemma update_norm_store: "norm_store (AList.update k e m) = AList.update k (norm_entry e) (norm_store m)"
  by (induction m) (auto simp: norm_store_def)

lemma active_norm_store [simp]: "mem_active ns (norm_store m) = mem_active ns m"
  by (induction m) (auto simp: norm_store_def mem_active_def)

lemma mem_inv_norm_store [simp]: "mem_inv (norm_store m) = mem_inv m"
proof -
  have "map fst (norm_store m) = map fst m" by (induction m) (auto simp: norm_store_def)
  moreover have "(\<forall>(k, e)\<in>set (norm_store m). 0 < en_version e) = (\<forall>(k, e)\<in>set m. 0 < en_version e)"
    by (induction m) (auto simp: norm_store_def)
  ultimately show ?thesis by (simp add: mem_inv_def)
qed

lemma map_of_alist: "map_of (alist_of rows) (ns, k) = map_option stored_of (select_row ns k rows)"
  by (induction rows) (auto simp: alist_of_def select_row_def row_key_def)

lemma active_alist: "mem_active ns (alist_of rows) = count_active ns rows"
  by (induction rows) (auto simp: alist_of_def mem_active_def count_active_def row_key_def stored_of_def)

lemma alist_upsert: "alist_of (upsert r rows) = AList.update (row_key r) (stored_of r) (alist_of rows)"
  by (induction rows) (auto simp: alist_of_def row_key_def)

lemma set_upsert: "set (upsert r rows) \<subseteq> insert r (set rows)"
  by (induction rows) auto

lemma rows_ok_norm:
  assumes "rows_ok rows"
  shows "norm_store (alist_of rows) = alist_of rows"
proof -
  have "norm_entry (stored_of r) = stored_of r" if "r \<in> set rows" for r
    using assms that by (auto simp: rows_ok_def norm_entry_def stored_of_def)
  then show ?thesis by (auto simp: norm_store_def alist_of_def)
qed

text \<open>One update: the two stores agree, and stay in step.\<close>

lemma update_in_step:
  assumes "norm_store m = alist_of rows"
  shows "case mem_update a now u m of
      Inl e \<Rightarrow> sql_update a now u rows = Inl e
    | Inr (c, m') \<Rightarrow> \<exists>rows'. sql_update a now u rows = Inr (c, rows') \<and> norm_store m' = alist_of rows'
        \<and> ((\<forall>r\<in>set rows. r_deleted r \<longleftrightarrow> r_value r = None) \<longrightarrow>
            (\<forall>r\<in>set rows'. r_deleted r \<longleftrightarrow> r_value r = None))"
proof (cases "namespace a (su_scope u)")
  case (Inl e)
  then show ?thesis by (simp add: mem_update_def sql_update_def)
next
  case (Inr ns)
  let ?m = "map_of m (ns, su_key u)" and ?r = "select_row ns (su_key u) rows"
  have cur: "map_option norm_entry ?m = map_option stored_of ?r"
    using map_of_norm_store [of m "(ns, su_key u)"] map_of_alist [of rows ns "su_key u"] assms by simp
  then have none: "?m = None \<longleftrightarrow> ?r = None" by (cases ?m; cases ?r) auto
  have ver: "version_of ?m = map_option r_version ?r"
    unfolding version_of_view [of ?m, symmetric] cur
    by (cases ?r) (simp_all add: version_of_def stored_of_def)
  have del: "deleted_of ?m = (case ?r of None \<Rightarrow> True | Some r \<Rightarrow> r_deleted r)"
    unfolding deleted_of_view [of ?m, symmetric] cur
    by (cases ?r) (simp_all add: deleted_of_def stored_of_def)
  have act: "mem_active ns m = count_active ns rows"
    using active_norm_store [of ns m] active_alist [of ns rows] assms by simp
  let ?row = "\<lparr>r_namespace = ns, r_scope = su_scope u, r_key = su_key u,
      r_value = (if su_operation u = DeleteOp then None else Some (su_value u)),
      r_version = next_version (version_of ?m), r_deleted = (su_operation u = DeleteOp),
      r_by = acc_agent_id a, r_at = now\<rparr>"
  have st: "norm_store (AList.update (ns, su_key u)
        \<lparr>en_value = su_value u, en_version = next_version (version_of ?m),
         en_deleted = (su_operation u = DeleteOp), en_by = acc_agent_id a, en_at = now\<rparr> m)
      = alist_of (upsert ?row rows)"
    unfolding update_norm_store alist_upsert assms
    by (simp add: row_key_def stored_of_def norm_entry_def)
  have ok: "(\<forall>r\<in>set rows. r_deleted r \<longleftrightarrow> r_value r = None) \<longrightarrow>
      (\<forall>r\<in>set (upsert ?row rows). r_deleted r \<longleftrightarrow> r_value r = None)"
    using set_upsert [of ?row rows] by auto
  show ?thesis
  proof (cases "check_expected u (version_of ?m) (deleted_of ?m)")
    case (Inl e)
    with Inr show ?thesis
      by (simp add: mem_update_def sql_update_def Let_def ver [symmetric] del [symmetric])
  next
    case c: (Inr x)
    show ?thesis
    proof (cases "su_operation u = DeleteOp \<and> (?m = None \<or> deleted_of ?m)
        \<or> su_operation u = SetOp \<and> (?m = None \<or> deleted_of ?m) \<and> scope_limit a (su_scope u) \<le> mem_active ns m")
      case True
      with Inr c none act show ?thesis
        by (auto simp: mem_update_def sql_update_def Let_def ver [symmetric] del [symmetric])
    next
      case False
      have m1: "mem_update a now u m = Inr (state_change_of u (next_version (version_of ?m)),
          AList.update (ns, su_key u)
            \<lparr>en_value = su_value u, en_version = next_version (version_of ?m),
             en_deleted = (su_operation u = DeleteOp), en_by = acc_agent_id a, en_at = now\<rparr> m)"
        using False Inr c by (simp add: mem_update_def Let_def)
      have s1: "sql_update a now u rows = Inr (state_change_of u (next_version (version_of ?m)), upsert ?row rows)"
        using False Inr c none act
        by (simp add: sql_update_def Let_def ver [symmetric] del [symmetric])
      show ?thesis unfolding m1 s1 using st ok by simp
    qed
  qed
qed

lemma updates_in_step:
  "norm_store m = alist_of rows \<Longrightarrow>
   case mem_updates a clock n us m of
      Inl e \<Rightarrow> sql_updates a clock None n us rows = Inl e
    | Inr (cs, m') \<Rightarrow> \<exists>rows'. sql_updates a clock None n us rows = Inr (cs, rows')
        \<and> norm_store m' = alist_of rows'
        \<and> ((\<forall>r\<in>set rows. r_deleted r \<longleftrightarrow> r_value r = None) \<longrightarrow>
            (\<forall>r\<in>set rows'. r_deleted r \<longleftrightarrow> r_value r = None))"
proof (induction us arbitrary: n m rows)
  case (Cons u us)
  note step = update_in_step [OF Cons.prems, of a "clock n" u]
  show ?case
  proof (cases "mem_update a (clock n) u m")
    case (Inl e)
    with step show ?thesis by simp
  next
    case (Inr x)
    obtain c m1 where x: "x = (c, m1)" by (cases x)
    from step Inr x obtain rows1 where r1: "sql_update a (clock n) u rows = Inr (c, rows1)"
      "norm_store m1 = alist_of rows1"
      "(\<forall>r\<in>set rows. r_deleted r \<longleftrightarrow> r_value r = None) \<longrightarrow> (\<forall>r\<in>set rows1. r_deleted r \<longleftrightarrow> r_value r = None)"
      by auto
    from Cons.IH [OF r1(2), of "Suc n"] Inr x r1(1,3) show ?thesis
      by (cases "mem_updates a clock (Suc n) us m1") auto
  qed
qed simp

lemma sql_updates_failing:
  "sql_updates a clock f n us rows = Inr r \<Longrightarrow> sql_updates a clock None n us rows = Inr r"
proof (induction us arbitrary: n rows r)
  case (Cons u us)
  then obtain c rows1 cs rows2 where "sql_update a (clock n) u rows = Inr (c, rows1)"
    "sql_updates a clock f (Suc n) us rows1 = Inr (cs, rows2)" "r = (c # cs, rows2)"
    by (auto simp: bind_res_Inr_iff split: if_splits)
  with Cons.IH show ?case by auto
qed simp

lemma sql_apply_committed:
  assumes "sql_apply a clock f us s = (Inr cs, s')" "sql_inv s"
  shows "committed a us (sql_view s) (sql_view s') cs \<and> sql_inv s'"
proof -
  obtain rows' where r: "validate_updates a us = Inr ()"
    "sql_updates a clock f 0 us (sq_rows s) = Inr (cs, rows')" "s' = s\<lparr>sq_rows := rows'\<rparr>"
    using assms(1) by (auto simp: sql_apply_def split: sum.splits if_splits)
  have ok: "rows_ok (sq_rows s)" using assms(2) by (simp add: sql_inv_def)
  let ?m = "alist_of (sq_rows s)"
  note n = rows_ok_norm [OF ok]
  note step = updates_in_step [OF n, of a clock 0 us]
  note r' = sql_updates_failing [OF r(2)]
  obtain m' where m': "mem_updates a clock 0 us ?m = Inr (cs, m')" "norm_store m' = alist_of rows'"
    "\<forall>r\<in>set rows'. r_deleted r \<longleftrightarrow> r_value r = None"
    using step r' ok by (auto simp: rows_ok_def split: sum.splits)
  have "mem_inv ?m" using ok by (simp add: rows_ok_def)
  from mem_updates_committed [OF m'(1) validate_updates_distinct [OF r(1)] this]
  have "committed a us (mem_view ?m) (mem_view m') cs" "mem_inv m'" by auto
  moreover have "mem_view ?m = sql_view s" unfolding mem_view_norm n by (simp add: sql_view_def)
  moreover have "mem_view m' = sql_view s'" unfolding mem_view_norm m'(2) r(3) by (simp add: sql_view_def)
  moreover have "mem_inv (alist_of rows')" using \<open>mem_inv m'\<close> m'(2) mem_inv_norm_store by metis
  ultimately show ?thesis using m'(3) r(3) by (simp add: sql_inv_def rows_ok_def)
qed

lemma sql_apply_Inl: "sql_apply a clock f us s = (Inl e, s') \<Longrightarrow> s' = s"
  by (auto simp: sql_apply_def split: sum.splits prod.splits if_splits)

interpretation sql: shared_state_store sql_view sql_inv sql_put
proof
  fix s x a us res s'
  assume i: "sql_inv s" and p: "sql_put x a us s = (res, s')"
  show "sql_inv s'"
  proof (cases res)
    case (Inl e)
    with p have "s' = s" using sql_apply_Inl [of a "fst x" "snd x" us s e s'] by (simp add: sql_put_def)
    with i show ?thesis by simp
  next
    case (Inr cs)
    with p i show ?thesis using sql_apply_committed by (auto simp: sql_put_def)
  qed
next
  fix s x a us e s'
  assume "sql_inv s" "sql_put x a us s = (Inl e, s')"
  then show "sql_view s' = sql_view s"
    using sql_apply_Inl [of a "fst x" "snd x" us s e s'] by (simp add: sql_put_def)
next
  fix s k e assume "sql_inv s" "sql_view s k = Some e"
  then show "0 < en_version e"
    by (auto simp: sql_view_def sql_inv_def rows_ok_def mem_inv_def dest!: map_of_SomeD)
next
  fix s x a us cs s'
  assume "sql_inv s" "sql_put x a us s = (Inr cs, s')"
  then show "committed a us (sql_view s) (sql_view s') cs"
    using sql_apply_committed by (auto simp: sql_put_def)
qed

section \<open>Snapshots\<close>

text \<open>Lists with the same elements under the same sorted distinct keys are equal.\<close>

lemma keyed_lists_eq:
  fixes xs ys :: "('k::linorder \<times> 'v) list"
  assumes "sorted (map fst xs)" "distinct (map fst xs)" "sorted (map fst ys)" "distinct (map fst ys)"
    and "map_of xs = map_of ys"
  shows "xs = ys"
proof -
  have "set xs = set ys"
    using assms(2,4,5) map_of_eq_Some_iff [of xs] map_of_eq_Some_iff [of ys] by auto
  moreover from this have "inj_on fst (set xs \<union> set ys)" using assms(2) by (simp add: distinct_map)
  ultimately show ?thesis using map_sorted_distinct_set_unique assms(1-4) by blast
qed

definition scope_list :: "string \<Rightarrow> mem_store \<Rightarrow> (string \<times> state_entry) list" where
  "scope_list ns m =
     map (\<lambda>((_, k), e). (k, entry_of e))
       (filter (\<lambda>((n, _), e). n = ns \<and> \<not> en_deleted e)
         (map (\<lambda>i. (i, the (map_of m i))) (sort (map fst m))))"

definition rows_list :: "string \<Rightarrow> row list \<Rightarrow> (string \<times> state_entry) list" where
  "rows_list ns rows =
     map (\<lambda>r. (r_key r, entry_of (stored_of r)))
       (sort_key r_key (filter (\<lambda>r. r_namespace r = ns \<and> \<not> r_deleted r) rows))"

lemma scope_list_keys:
  assumes "distinct (map fst m)"
  shows "sorted (map fst (scope_list ns m))" "distinct (map fst (scope_list ns m))"
proof -
  let ?f = "\<lambda>i. fst i = ns \<and> \<not> en_deleted (the (map_of m i))"
  let ?ids = "filter ?f (sort (map fst m))"
  have keys: "map fst (scope_list ns m) = map snd ?ids"
    by (simp add: scope_list_def filter_map comp_def split_beta)
  have ids: "sorted ?ids" "distinct ?ids" using assms by (simp_all add: sorted_filter [where f = "\<lambda>x. x", simplified])
  have ns: "\<forall>i\<in>set ?ids. fst i = ns" by simp
  have "sorted (map snd xs)" "distinct (map snd xs)"
    if "sorted xs" "distinct xs" "\<forall>i\<in>set xs. fst i = ns" for xs :: "(string \<times> string) list"
    using that by (induction xs) (force simp: less_eq_prod_def)+
  from this [OF ids ns] show "sorted (map fst (scope_list ns m))" "distinct (map fst (scope_list ns m))"
    unfolding keys by auto
qed

lemma scope_list_lookup:
  assumes "distinct (map fst m)"
  shows "map_of (scope_list ns m) k =
    (case mem_view m (ns, k) of None \<Rightarrow> None
     | Some e \<Rightarrow> if en_deleted e then None else Some (entry_of e))"
proof -
  have mem: "(k, v) \<in> set (scope_list ns m) \<longleftrightarrow>
      (\<exists>e. map_of m (ns, k) = Some e \<and> \<not> en_deleted e \<and> v = entry_of e)" for v
  proof
    assume "(k, v) \<in> set (scope_list ns m)"
    then have i: "(ns, k) \<in> fst ` set m" "\<not> en_deleted (the (map_of m (ns, k)))"
      "v = entry_of (the (map_of m (ns, k)))"
      by (auto simp: scope_list_def image_iff Bex_def)
    then obtain e where "map_of m (ns, k) = Some e" using map_of_eq_None_iff [of m "(ns, k)"] by auto
    with i show "\<exists>e. map_of m (ns, k) = Some e \<and> \<not> en_deleted e \<and> v = entry_of e" by simp
  next
    assume "\<exists>e. map_of m (ns, k) = Some e \<and> \<not> en_deleted e \<and> v = entry_of e"
    then obtain e where e: "map_of m (ns, k) = Some e" "\<not> en_deleted e" "v = entry_of e" by blast
    then have "(ns, k) \<in> fst ` set m" by (metis map_of_eq_None_iff option.distinct(1))
    with e show "(k, v) \<in> set (scope_list ns m)" by (force simp: scope_list_def)
  qed
  show ?thesis
  proof (cases "map_of (scope_list ns m) k")
    case None
    then have "\<And>v. (k, v) \<notin> set (scope_list ns m)"
      using scope_list_keys(2) [OF assms] by (metis map_of_is_SomeI option.distinct(1))
    then show ?thesis using None mem by (auto simp: mem_view_def split: option.splits)
  next
    case (Some v)
    then have "(k, v) \<in> set (scope_list ns m)" by (rule map_of_SomeD)
    with Some mem show ?thesis by (auto simp: mem_view_def norm_entry_def)
  qed
qed

lemma rows_list_lookup:
  assumes "rows_ok rows"
  shows "map_of (rows_list ns rows) k =
      (case map_of (alist_of rows) (ns, k) of None \<Rightarrow> None
       | Some e \<Rightarrow> if en_deleted e then None else Some (entry_of e))"
    and "sorted (map fst (rows_list ns rows))" "distinct (map fst (rows_list ns rows))"
proof -
  let ?rs = "filter (\<lambda>r. r_namespace r = ns \<and> \<not> r_deleted r) rows"
  have keys: "map fst (rows_list ns rows) = map r_key (sort_key r_key ?rs)"
    by (simp add: rows_list_def comp_def)
  show "sorted (map fst (rows_list ns rows))" unfolding keys by simp
  have d: "distinct (map row_key rows)" using assms by (simp add: rows_ok_def mem_inv_def alist_of_def comp_def)
  then have "inj_on r_key (set ?rs)" "distinct ?rs"
    by (auto simp: distinct_map inj_on_def row_key_def)
  then have dk: "distinct (map r_key (sort_key r_key ?rs))" by (simp add: distinct_map)
  then show "distinct (map fst (rows_list ns rows))" unfolding keys .
  have dist: "distinct (map fst (alist_of rows))" using assms by (simp add: rows_ok_def mem_inv_def)
  have mem: "(k, v) \<in> set (rows_list ns rows) \<longleftrightarrow>
      (\<exists>e. map_of (alist_of rows) (ns, k) = Some e \<and> \<not> en_deleted e \<and> v = entry_of e)" for v
    using map_of_eq_Some_iff [OF dist]
    by (auto simp: rows_list_def alist_of_def row_key_def stored_of_def)
  have dk': "distinct (map fst (rows_list ns rows))" unfolding keys by (rule dk)
  show "map_of (rows_list ns rows) k =
      (case map_of (alist_of rows) (ns, k) of None \<Rightarrow> None
       | Some e \<Rightarrow> if en_deleted e then None else Some (entry_of e))"
  proof (cases "map_of (rows_list ns rows) k")
    case None
    then have "\<And>v. (k, v) \<notin> set (rows_list ns rows)"
      using dk' by (metis map_of_is_SomeI option.distinct(1))
    then show ?thesis using None mem by (auto split: option.splits)
  next
    case (Some v)
    then have "(k, v) \<in> set (rows_list ns rows)" by (rule map_of_SomeD)
    with Some mem show ?thesis by auto
  qed
qed

lemma scope_snapshots_agree:
  assumes "norm_store m = alist_of rows" "rows_ok rows"
  shows "scope_list ns m = rows_list ns rows"
proof (rule keyed_lists_eq)
  have "mem_inv m" using assms mem_inv_norm_store [of m] by (simp add: rows_ok_def)
  then have d: "distinct (map fst m)" by (simp add: mem_inv_def)
  show "sorted (map fst (scope_list ns m))" "distinct (map fst (scope_list ns m))"
    using scope_list_keys [OF d] by auto
  show "sorted (map fst (rows_list ns rows))" "distinct (map fst (rows_list ns rows))"
    using rows_list_lookup(2,3) [OF assms(2)] by auto
  show "map_of (scope_list ns m) = map_of (rows_list ns rows)"
    by (rule ext) (simp add: scope_list_lookup [OF d] rows_list_lookup(1) [OF assms(2)]
      mem_view_norm assms(1))
qed

lemma row_entries:
  assumes "\<And>r. r \<in> set rs \<Longrightarrow> r_value r \<noteq> None"
  shows "map_res row_entry rs = Inr (map (\<lambda>r. (r_key r, entry_of (stored_of r))) rs)"
  using assms
proof (induction rs)
  case (Cons r rs)
  then obtain v where "r_value r = Some v" by fastforce
  with Cons show ?case by (simp add: row_entry_def entry_of_def stored_of_def)
qed simp

lemma sql_scope_snapshot_eq:
  assumes "rows_ok rows"
  shows "sql_scope_snapshot a rows scope = bind_res (namespace a scope) (\<lambda>ns. Inr (rows_list ns rows))"
proof -
  have "map_res row_entry (sort_key r_key (filter (\<lambda>r. r_namespace r = ns \<and> \<not> r_deleted r) rows))
      = Inr (rows_list ns rows)" for ns
    unfolding rows_list_def by (rule row_entries) (use assms in \<open>auto simp: rows_ok_def\<close>)
  then show ?thesis by (simp add: sql_scope_snapshot_def)
qed

lemma snapshots_agree:
  assumes "norm_store m = alist_of (sq_rows s)" "rows_ok (sq_rows s)" "sq_open s"
  shows "sql_snapshot a False s = mem_snapshot a m"
proof -
  have "sql_scope_snapshot a (sq_rows s) scope = mem_scope_snapshot a m scope" for scope
    unfolding sql_scope_snapshot_eq [OF assms(2)] mem_scope_snapshot_def scope_list_def [symmetric]
      scope_snapshots_agree [OF assms(1,2)] ..
  then show ?thesis using assms(3) by (simp add: sql_snapshot_def mem_snapshot_def)
qed

section \<open>Capacity\<close>

lemma active_update:
  "mem_active ns (AList.update (n, k) e m) = mem_active ns m
     - (if n = ns \<and> \<not> deleted_of (map_of m (n, k)) then 1 else 0)
     + (if n = ns \<and> \<not> en_deleted e then 1 else 0)"
proof (induction m)
  case Nil
  then show ?case by (simp add: mem_active_def deleted_of_def)
next
  case (Cons x m)
  obtain n' k' e' where x: "x = ((n', k'), e')" by (metis prod.exhaust)
  show ?case
  proof (cases "(n', k') = (n, k)")
    case True
    then show ?thesis by (simp add: x mem_active_def deleted_of_def)
  next
    case False
    then have "mem_active ns (AList.update (n, k) e (x # m)) =
        mem_active ns (AList.update (n, k) e m) + (if n' = ns \<and> \<not> en_deleted e' then 1 else 0)"
      "mem_active ns (x # m) = mem_active ns m + (if n' = ns \<and> \<not> en_deleted e' then 1 else 0)"
      "map_of (x # m) (n, k) = map_of m (n, k)"
      by (auto simp: x mem_active_def)
    then show ?thesis using Cons.IH by simp
  qed
qed

lemma mem_update_active:
  assumes "mem_update a now u m = Inr (c, m')"
    and "\<And>scope. namespace a scope = Inr ns \<Longrightarrow> scope_limit a scope \<le> l"
  shows "mem_active ns m' \<le> max (mem_active ns m) l"
proof -
  obtain n where n: "namespace a (su_scope u) = Inr n"
    using assms(1) by (auto simp: mem_update_def bind_res_Inr_iff)
  let ?cur = "map_of m (n, su_key u)"
  obtain e where e: "m' = AList.update (n, su_key u) e m" "en_deleted e = (su_operation u = DeleteOp)"
    using assms(1) n by (auto simp: mem_update_def Let_def bind_res_Inr_iff split: if_splits)
  have room: "mem_active n m < scope_limit a (su_scope u)" if "su_operation u = SetOp" "deleted_of ?cur"
    using assms(1) n that by (auto simp: mem_update_def Let_def bind_res_Inr_iff split: if_splits)
  show ?thesis
  proof (cases "n = ns \<and> su_operation u = SetOp \<and> deleted_of ?cur")
    case True
    then have "scope_limit a (su_scope u) \<le> l" using assms(2) n by simp
    moreover have "mem_active ns m < scope_limit a (su_scope u)"
    proof -
      from True have t: "su_operation u = SetOp" "deleted_of ?cur" "n = ns" by auto
      from room [OF t(1,2)] t(3) show ?thesis by simp
    qed
    moreover have "mem_active ns m' = mem_active ns m + 1" using True e by (auto simp: active_update)
    ultimately show ?thesis by simp
  next
    case False
    then have "mem_active ns m' \<le> mem_active ns m"
      using e by (cases "su_operation u") (auto simp: active_update)
    then show ?thesis by simp
  qed
qed

lemma mem_updates_active:
  "mem_updates a clock n us m = Inr (cs, m') \<Longrightarrow>
     (\<And>scope. namespace a scope = Inr ns \<Longrightarrow> scope_limit a scope \<le> l) \<Longrightarrow>
     mem_active ns m' \<le> max (mem_active ns m) l"
proof (induction us arbitrary: n m cs)
  case (Cons u us)
  obtain c m1 cs1 where u: "mem_update a (clock n) u m = Inr (c, m1)"
    "mem_updates a clock (Suc n) us m1 = Inr (cs1, m')"
    using Cons.prems(1) by (auto simp: bind_res_Inr_iff)
  from mem_update_active [OF u(1) Cons.prems(2)] Cons.IH [OF u(2) Cons.prems(2)] show ?case by force
qed simp

lemma sql_apply_active:
  assumes "sql_apply a clock f us s = (res, s')" "sql_inv s"
    and "\<And>scope. namespace a scope = Inr ns \<Longrightarrow> scope_limit a scope \<le> l"
  shows "count_active ns (sq_rows s') \<le> max (count_active ns (sq_rows s)) l"
proof (cases res)
  case (Inl e)
  with assms(1) have "s' = s" using sql_apply_Inl by simp
  then show ?thesis by simp
next
  case (Inr cs)
  with assms(1) obtain rows' where r: "sql_updates a clock f 0 us (sq_rows s) = Inr (cs, rows')"
    "s' = s\<lparr>sq_rows := rows'\<rparr>"
    by (auto simp: sql_apply_def split: sum.splits if_splits)
  have n: "norm_store (alist_of (sq_rows s)) = alist_of (sq_rows s)"
    using assms(2) rows_ok_norm by (simp add: sql_inv_def)
  from updates_in_step [OF n, of a clock 0 us] sql_updates_failing [OF r(1)]
  obtain m' where "mem_updates a clock 0 us (alist_of (sq_rows s)) = Inr (cs, m')" "norm_store m' = alist_of rows'"
    by (auto split: sum.splits)
  with mem_updates_active [OF this(1) assms(3)] show ?thesis
    using active_norm_store [of ns m'] r(2) by (simp add: active_alist)
qed

section \<open>Reading a store\<close>

text \<open>The version a snapshot shows of a key, 0 when it shows none, and what it should show.\<close>

definition version_in :: "state_snapshot \<Rightarrow> state_scope \<Rightarrow> string \<Rightarrow> int" where
  "version_in sn scope key =
     (case map_of (if scope = RunScope then snap_run sn else snap_deployment sn) key of
        None \<Rightarrow> 0 | Some e \<Rightarrow> se_version e)"

definition visible_version :: "state_view \<Rightarrow> string \<times> string \<Rightarrow> int" where
  "visible_version v k = (case v k of None \<Rightarrow> 0 | Some e \<Rightarrow> if en_deleted e then 0 else en_version e)"

text \<open>The interface of \<open>SharedStateStore\<close> with its \<open>snapshot\<close>; \<open>y\<close> stands for what else decides it.\<close>

locale readable_store = shared_state_store view inv put
  for view :: "'s \<Rightarrow> state_view" and inv :: "'s \<Rightarrow> bool"
    and put :: "'x \<Rightarrow> access \<Rightarrow> state_update list \<Rightarrow> 's \<Rightarrow> (state_error + state_change list) \<times> 's" +
  fixes snap :: "'y \<Rightarrow> access \<Rightarrow> 's \<Rightarrow> state_error + state_snapshot"
  assumes snap_version: "inv s \<Longrightarrow> snap y a s = Inr sn \<Longrightarrow> namespace a scope = Inr ns \<Longrightarrow>
    version_in sn scope key = visible_version (view s) (ns, key)"
begin

text \<open>Updates whose versions are those of the store commit only if these are visible.\<close>

lemma checked_update:
  assumes "inv s" "put x a us s = (Inr cs, s')" "u \<in> set us" "su_expected u = Some v"
  shows "visible_version (view s) (target_key a u) = v"
proof -
  from put_Inr [OF assms(1,2)] have "list_all2 (update_effect a (view s) (view s')) us cs"
    by (simp add: committed_def)
  with assms(3) obtain c where "update_effect a (view s) (view s') u c" by (blast dest: list_all2_set1)
  with assms(4) show ?thesis
    unfolding update_effect_def
    by (auto simp: visible_version_def check_expected_def version_of_def deleted_of_def Let_def
        split: option.splits if_splits)
qed

end

lemma snapshot_values:
  assumes "map_res (\<lambda>scope. bind_res (f scope) (\<lambda>d. Inr (scope, d))) scopes = Inr vs" "scope \<in> set scopes"
  shows "\<exists>d. f scope = Inr d \<and> map_of vs scope = Some d"
  using assms
  by (induction scopes arbitrary: vs) (auto split: sum.splits simp: bind_res_Inr_iff bind_res_def)

lemma version_in_snapshot:
  assumes "map_of vs scope = Some d"
  shows "version_in (snapshot_of a vs) scope key = (case map_of d key of None \<Rightarrow> 0 | Some e \<Rightarrow> se_version e)"
  using assms by (cases scope) (auto simp: version_in_def snapshot_of_def)

lemma namespace_granted: "namespace a scope = Inr ns \<Longrightarrow> scope \<in> set (map fst (acc_limits a))"
  using map_of_eq_None_iff [of "acc_limits a" scope] by (auto simp: namespace_def split: if_splits)

definition mem_snap :: "unit \<Rightarrow> access \<Rightarrow> mem_store \<Rightarrow> state_error + state_snapshot" where
  "mem_snap u a m = mem_snapshot a m"

definition sql_snap :: "bool \<Rightarrow> access \<Rightarrow> sql_store \<Rightarrow> state_error + state_snapshot" where
  "sql_snap db_fails a s = sql_snapshot a db_fails s"

interpretation mem_read: readable_store mem_view mem_inv mem_put mem_snap
proof
  fix m y a sn scope ns key
  assume m: "mem_inv m" and sn: "mem_snap y a m = Inr sn" and ns: "namespace a scope = Inr ns"
  from sn obtain vs where "map_res (\<lambda>scope. bind_res (mem_scope_snapshot a m scope) (\<lambda>d. Inr (scope, d)))
      (map fst (acc_limits a)) = Inr vs" "sn = snapshot_of a vs"
    by (auto simp: mem_snap_def mem_snapshot_def bind_res_Inr_iff)
  moreover from snapshot_values [OF this(1) namespace_granted [OF ns]] ns
  have "map_of vs scope = Some (scope_list ns m)" by (auto simp: mem_scope_snapshot_def scope_list_def)
  moreover have "distinct (map fst m)" using m by (simp add: mem_inv_def)
  ultimately show "version_in sn scope key = visible_version (mem_view m) (ns, key)"
    by (simp add: version_in_snapshot scope_list_lookup visible_version_def entry_of_def split: option.splits)
qed

interpretation sql_read: readable_store sql_view sql_inv sql_put sql_snap
proof
  fix s y a sn scope ns key
  assume s: "sql_inv s" and sn: "sql_snap y a s = Inr sn" and ns: "namespace a scope = Inr ns"
  then have r: "rows_ok (sq_rows s)" by (simp add: sql_inv_def)
  from sn obtain vs where "map_res (\<lambda>scope. bind_res (sql_scope_snapshot a (sq_rows s) scope) (\<lambda>d. Inr (scope, d)))
      (map fst (acc_limits a)) = Inr vs" "sn = snapshot_of a vs"
    by (auto simp: sql_snap_def sql_snapshot_def bind_res_Inr_iff split: if_splits)
  moreover from snapshot_values [OF this(1) namespace_granted [OF ns]] ns
  have "map_of vs scope = Some (rows_list ns (sq_rows s))" by (auto simp: sql_scope_snapshot_eq [OF r])
  ultimately show "version_in sn scope key = visible_version (sql_view s) (ns, key)"
    by (simp add: version_in_snapshot rows_list_lookup(1) [OF r] sql_view_def visible_version_def entry_of_def
        split: option.splits)
qed

section \<open>Properties\<close>

abbreviation sql_call ::
  "((nat \<Rightarrow> timestamp) \<times> nat option) \<times> access \<times> state_update list \<Rightarrow> sql_store
   \<Rightarrow> (state_error + state_change list) \<times> sql_store" where
  "sql_call \<equiv> \<lambda>((clock, f), a, us). sql_apply a clock f us"

lemma sql_call_put: "sql_call = (\<lambda>(x, a, us). sql_put x a us)"
  by (auto simp: sql_put_def fun_eq_iff)

text \<open>C15. The in-memory and the SQLite store are interchangeable: from matching contents, and while the
  database works, every sequence of calls gives the same results on both, errors included, and
  afterwards every agent sees the same snapshot.\<close>

theorem state_stores_agree:
  assumes "norm_store m = alist_of (sq_rows s)" "rows_ok (sq_rows s)" "sq_open s"
    and "run_calls (\<lambda>(clock, a, us). mem_apply a clock us) calls m = (rs, m')"
    and "run_calls (\<lambda>(clock, a, us). sql_apply a clock None us) calls s = (rs', s')"
  shows "rs' = rs \<and> sql_snapshot a False s' = mem_snapshot a m'"
  using assms
proof (induction calls arbitrary: m s rs rs')
  case Nil
  then show ?case using snapshots_agree by simp
next
  case (Cons call calls)
  obtain clock b us where call: "call = (clock, b, us)" by (cases call)
  obtain r m1 where m1: "mem_apply b clock us m = (r, m1)" by fastforce
  obtain r' s1 where s1: "sql_apply b clock None us s = (r', s1)" by fastforce
  obtain rs1 m2 where m2: "run_calls (\<lambda>(clock, a, us). mem_apply a clock us) calls m1 = (rs1, m2)" by fastforce
  obtain rs1' s2 where s2: "run_calls (\<lambda>(clock, a, us). sql_apply a clock None us) calls s1 = (rs1', s2)"
    by fastforce
  have "r' = r \<and> norm_store m1 = alist_of (sq_rows s1) \<and> rows_ok (sq_rows s1) \<and> sq_open s1"
  proof (cases "validate_updates b us")
    case (Inl e)
    with m1 s1 Cons.prems(1-3) show ?thesis by (simp add: mem_apply_def sql_apply_def)
  next
    case (Inr u)
    note step = updates_in_step [OF Cons.prems(1), of b clock 0 us]
    show ?thesis
    proof (cases "mem_updates b clock 0 us m")
      case (Inl e)
      with step Inr m1 s1 Cons.prems(1-3) show ?thesis by (auto simp: mem_apply_def sql_apply_def)
    next
      case ups: (Inr x)
      obtain cs m3 where x: "x = (cs, m3)" by (cases x)
      from step ups x obtain rows' where rows: "sql_updates b clock None 0 us (sq_rows s) = Inr (cs, rows')"
        "norm_store m3 = alist_of rows'" "\<forall>r\<in>set rows'. r_deleted r \<longleftrightarrow> r_value r = None"
        using Cons.prems(2) by (auto simp: rows_ok_def)
      have mm: "mem_apply b clock us m = (Inr cs, m3)" using ups x Inr by (simp add: mem_apply_def)
      have "mem_inv m" using Cons.prems(1,2) mem_inv_norm_store [of m] by (simp add: rows_ok_def)
      then have "mem_inv m3" using mem_apply_committed [OF mm] by simp
      then have "rows_ok rows'" using rows(2,3) mem_inv_norm_store [of m3] by (simp add: rows_ok_def)
      with rows mm m1 s1 Inr Cons.prems(3) show ?thesis by (auto simp: sql_apply_def)
    qed
  qed
  moreover have m2': "m2 = m'" "rs = r # rs1" using Cons.prems(4) call m1 m2 by simp_all
  moreover have s2': "s2 = s'" "rs' = r' # rs1'" using Cons.prems(5) call s1 s2 by simp_all
  ultimately show ?case
    using Cons.IH [OF _ _ _ m2 [unfolded m2'(1)] s2 [unfolded s2'(1)]] by simp
qed

text \<open>C21. A call on the SQLite store is atomic, also when the database fails half way: it commits all of
  its updates, each at the next version of its key and only if the expected version was the
  visible one, and leaves every other key alone, or it changes nothing at all; and no namespace
  grows beyond the larger of its former size and the caller's limit for it.\<close>

theorem state_apply_atomic:
  assumes "sql_inv s" and "sql_apply a clock db_fails us s = (res, s')"
  shows "sql_inv s' \<and> (case res of Inl e \<Rightarrow> s' = s | Inr cs \<Rightarrow> committed a us (sql_view s) (sql_view s') cs)
    \<and> (\<forall>scope ns. namespace a scope = Inr ns \<longrightarrow>
         count_active ns (sq_rows s') \<le> max (count_active ns (sq_rows s)) (scope_limit a scope))"
proof -
  have "sql_inv s' \<and> (case res of Inl e \<Rightarrow> s' = s | Inr cs \<Rightarrow> committed a us (sql_view s) (sql_view s') cs)"
  proof (cases res)
    case (Inl e)
    with assms show ?thesis using sql_apply_Inl [of a clock db_fails us s e s'] by simp
  next
    case (Inr cs)
    with assms show ?thesis using sql_apply_committed by simp
  qed
  moreover have "count_active ns (sq_rows s') \<le> max (count_active ns (sq_rows s)) (scope_limit a scope)"
    if "namespace a scope = Inr ns" for scope ns
    by (rule sql_apply_active [OF assms(2,1)]) (use namespace_inj [OF that] in simp)
  ultimately show ?thesis by blast
qed

text \<open>Optimistic concurrency is sound on the SQLite store: an update that names the version an agent read
  commits only if the entry is still exactly the one that was read, whatever other calls ran
  in between, and then leaves the next version.\<close>

lemma state_compare_and_set:
  assumes "run_calls sql_call ops s = (rs, s1)" and "sql_inv s"
    and "sql_view s (target_key a u) = Some e" and "su_expected u = Some (en_version e)"
    and "u \<in> set us" and "sql_apply a clock db_fails us s1 = (Inr cs, s2)"
  shows "sql_view s1 (target_key a u) = Some e
    \<and> (\<exists>e2. sql_view s2 (target_key a u) = Some e2 \<and> en_version e2 = en_version e + 1)"
proof (rule sql.compare_and_set [OF _ assms(2-5)])
  show "run_calls (\<lambda>(x, a, us). sql_put x a us) ops s = (rs, s1)"
    using assms(1) by (simp add: sql_call_put)
  show "sql_put (clock, db_fails) a us s1 = (Inr cs, s2)" using assms(6) by (simp add: sql_put_def)
qed

section \<open>Witnesses\<close>

definition sample_access :: access where
  "sample_access = \<lparr>acc_run_id = ''r'', acc_deployment = ''d'', acc_agent_id = ''a'',
     acc_limits = [(RunScope, 1)]\<rparr>"

definition sample_set :: "string \<Rightarrow> int option \<Rightarrow> state_update" where
  "sample_set k v = \<lparr>su_scope = RunScope, su_operation = SetOp, su_key = k, su_value = JInt 7,
     su_supplied = True, su_expected = v\<rparr>"

definition empty_sql :: sql_store where
  "empty_sql = \<lparr>sq_open = True, sq_rows = []\<rparr>"

definition sample_row :: row where
  "sample_row = \<lparr>r_namespace = ''run:r'', r_scope = RunScope, r_key = ''k'', r_value = Some (JInt 7),
     r_version = 1, r_deleted = False, r_by = ''a'', r_at = 0\<rparr>"

lemma empty_sql_inv: "sql_inv empty_sql"
  by (simp add: sql_inv_def rows_ok_def empty_sql_def alist_of_def mem_inv_def)

lemma sample_sql_set:
  "sql_apply sample_access (\<lambda>_. 0) None [sample_set ''k'' None] empty_sql
     = (Inr [state_change_of (sample_set ''k'' None) 1], empty_sql\<lparr>sq_rows := [sample_row]\<rparr>)"
  by (simp add: sql_apply_def validate_updates_def sample_access_def sample_set_def empty_sql_def
      namespace_def sql_update_def select_row_def check_expected_def count_active_def scope_limit_def
      next_version_def sample_row_def Let_def state_change_of_def)

theorem state_stores_agree_witness:
  "fst (run_calls (\<lambda>(clock, a, us). sql_apply a clock None us)
          [(\<lambda>_. 0, sample_access, [sample_set ''k'' None]), (\<lambda>_. 0, sample_access, [sample_set ''l'' None])] empty_sql)
   = [Inr [state_change_of (sample_set ''k'' None) 1], Inl (CapacityExceeded RunScope)]"
proof -
  let ?calls = "[(\<lambda>_. 0, sample_access, [sample_set ''k'' None]), (\<lambda>_. 0, sample_access, [sample_set ''l'' None])]"
  obtain rs m' where m: "run_calls (\<lambda>(clock, a, us). mem_apply a clock us) ?calls [] = (rs, m')" by fastforce
  obtain rs' s' where s: "run_calls (\<lambda>(clock, a, us). sql_apply a clock None us) ?calls empty_sql = (rs', s')"
    by fastforce
  have "rs = [Inr [state_change_of (sample_set ''k'' None) 1], Inl (CapacityExceeded RunScope)]"
    using m by (auto simp: mem_apply_def validate_updates_def sample_access_def sample_set_def
        namespace_def mem_update_def check_expected_def mem_active_def scope_limit_def version_of_def
        deleted_of_def next_version_def Let_def state_change_of_def)
  moreover have "rs' = rs"
    by (rule conjunct1 [OF state_stores_agree [OF _ _ _ m s]])
      (simp_all add: norm_store_def alist_of_def empty_sql_def rows_ok_def mem_inv_def)
  ultimately show ?thesis using s by simp
qed

theorem state_apply_atomic_witness:
  "snd (sql_apply sample_access (\<lambda>_. 0) (Some 1) [sample_set ''k'' None, sample_set ''l'' None] empty_sql)
   = empty_sql"
proof -
  let ?us = "[sample_set ''k'' None, sample_set ''l'' None]"
  obtain res s' where r: "sql_apply sample_access (\<lambda>_. 0) (Some 1) ?us empty_sql = (res, s')" by fastforce
  have "res = Inl StateWriteFailed"
    using r by (auto simp: sql_apply_def validate_updates_def sample_access_def sample_set_def empty_sql_def
      namespace_def sql_update_def select_row_def check_expected_def count_active_def scope_limit_def Let_def)
  with state_apply_atomic [OF empty_sql_inv r] r show ?thesis by simp
qed

end
