(* ===== verification/Supervision.thy ===== *)
theory Supervision
  imports Specification "HOL-Library.Multiset"
begin

text \<open>
  Agent supervision (\<open>mininet_ai/runtime/supervision.py\<close>): \<open>AgentSupervisor\<close> with the state and the failure count of every
  agent, and the transitions its listener is given.

  Each stretch under the condition lock is one function. A transition is made under the lock
  (\<open>set_state\<close>) and given to the listener after the lock is released, so a thread that runs a
  method is a list of work still to do: locked sections, invocations and transitions to give.
  \<open>sup_act\<close> is one action of one thread, and \<open>sup_reachable\<close> is every interleaving of any
  number of them. \<open>execute\<close> is the retry loop of one worker, with what the other threads do in
  between as arguments. The clock is left to the caller as the argument \<open>now\<close>.
\<close>

section \<open>Data\<close>

datatype lifecycle =
  AgStarting | AgRunning | AgPaused | AgStopping | AgStopped | AgRestarting | AgFailed

record lifecycle_transition =
  lt_agent :: agent_id
  lt_state :: lifecycle
  lt_previous :: "lifecycle option"
  lt_attempt :: int
  lt_recorded_at :: timestamp

datatype supervision_error =
    AgentNotKnown agent_id
  | AgentNotStarted agent_id
  | AgentNotRunning agent_id
  | LifecycleInvalid agent_id

fun supervision_code :: "supervision_error \<Rightarrow> string" where
  "supervision_code (AgentNotKnown _) = ''runtime.agent.unknown''"
| "supervision_code (AgentNotStarted _) = ''runtime.agent.not-started''"
| "supervision_code (AgentNotRunning _) = ''runtime.agent.not-running''"
| "supervision_code (LifecycleInvalid _) = ''runtime.agent.lifecycle.invalid''"

text \<open>
  \<open>sup_states\<close> holds the configured agents; an agent that has not started is \<open>Some None\<close>.
\<close>

record supervisor =
  sup_policies :: "(agent_id \<times> restart_policy) list"
  sup_states :: "agent_id \<rightharpoonup> lifecycle option"
  sup_attempts :: "agent_id \<Rightarrow> int"

definition new_supervisor :: "(agent_id \<times> restart_policy) list \<Rightarrow> supervisor" where
  "new_supervisor policies =
     \<lparr>sup_policies = policies,
      sup_states = map_of (map (\<lambda>(a, _). (a, None)) policies),
      sup_attempts = (\<lambda>_. 0)\<rparr>"

section \<open>Locked sections\<close>

definition known_state :: "agent_id \<Rightarrow> supervisor \<Rightarrow> supervision_error + lifecycle option" where
  "known_state a s = (case sup_states s a of None \<Rightarrow> Inl (AgentNotKnown a) | Some st \<Rightarrow> Inr st)"

text \<open>\<open>_set_state_locked\<close>: the transition it made is returned, the listener does not have it yet.\<close>

definition set_state ::
  "agent_id \<Rightarrow> lifecycle \<Rightarrow> int \<Rightarrow> timestamp \<Rightarrow> supervisor
   \<Rightarrow> supervision_error + lifecycle_transition \<times> supervisor" where
  "set_state a st attempt now s =
     bind_res (known_state a s) (\<lambda>previous.
       Inr (\<lparr>lt_agent = a, lt_state = st, lt_previous = previous, lt_attempt = attempt,
              lt_recorded_at = now\<rparr>,
            s\<lparr>sup_states := (sup_states s)(a \<mapsto> Some st)\<rparr>))"

definition transition_from ::
  "agent_id \<Rightarrow> lifecycle \<Rightarrow> lifecycle \<Rightarrow> timestamp \<Rightarrow> supervisor
   \<Rightarrow> supervision_error + lifecycle_transition \<times> supervisor" where
  "transition_from a required st now s =
     bind_res (known_state a s) (\<lambda>current.
       if current \<noteq> Some required then Inl (LifecycleInvalid a) else set_state a st 0 now s)"

definition agent_state :: "agent_id \<Rightarrow> supervisor \<Rightarrow> supervision_error + lifecycle" where
  "agent_state a s =
     bind_res (known_state a s) (\<lambda>st.
       case st of None \<Rightarrow> Inl (AgentNotStarted a) | Some l \<Rightarrow> Inr l)"

text \<open>The agents that \<open>resume_paused\<close> and \<open>stop\<close> find when they look.\<close>

definition paused_agents :: "supervisor \<Rightarrow> agent_id list" where
  "paused_agents s = filter (\<lambda>a. sup_states s a = Some (Some AgPaused)) (map fst (sup_policies s))"

definition unstopped_agents :: "supervisor \<Rightarrow> agent_id list" where
  "unstopped_agents s = filter (\<lambda>a. sup_states s a \<noteq> Some (Some AgStopped)) (map fst (sup_policies s))"

text \<open>One evaluation of the loop of \<open>wait_until_running\<close>: \<open>Inr False\<close> waits on.\<close>

definition wait_pass :: "agent_id \<Rightarrow> supervisor \<Rightarrow> supervision_error + bool" where
  "wait_pass a s =
     bind_res (known_state a s) (\<lambda>st.
       if st \<in> {Some AgStarting, Some AgPaused, Some AgRestarting} then Inr False
       else if st \<noteq> Some AgRunning then Inl (AgentNotRunning a)
       else Inr True)"

definition policy_of :: "agent_id \<Rightarrow> supervisor \<Rightarrow> restart_policy" where
  "policy_of a s =
     (case map_of (sup_policies s) a of
        None \<Rightarrow> \<lparr>rp_on_failure = False, rp_max_attempts = 0, rp_backoff = ''1s''\<rparr>
      | Some p \<Rightarrow> p)"

datatype recovery = RecoverWaits | RecoverGivesUp | RecoverRestarts int

text \<open>
  The locked part of \<open>_recover\<close>, one evaluation of its loop: wait for another worker's
  restart, give up, or begin a restart with the attempt it counted; with the transitions it
  made.
\<close>

definition recover_begin ::
  "agent_id \<Rightarrow> timestamp \<Rightarrow> supervisor
   \<Rightarrow> supervision_error + recovery \<times> lifecycle_transition list \<times> supervisor" where
  "recover_begin a now s =
     (if sup_states s a = Some (Some AgRestarting) then Inr (RecoverWaits, [], s)
      else if sup_states s a \<noteq> Some (Some AgRunning) then Inr (RecoverGivesUp, [], s)
      else
        let attempt = sup_attempts s a + 1;
            s = s\<lparr>sup_attempts := (sup_attempts s)(a := attempt)\<rparr>
        in bind_res (set_state a AgFailed attempt now s) (\<lambda>(failed, s).
             if rp_on_failure (policy_of a s) \<and> attempt \<le> rp_max_attempts (policy_of a s)
             then bind_res (set_state a AgRestarting attempt now s) (\<lambda>(restarting, s).
                    Inr (RecoverRestarts attempt, [failed, restarting], s))
             else Inr (RecoverGivesUp, [failed], s)))"

text \<open>After the backoff.\<close>

definition recover_end ::
  "agent_id \<Rightarrow> int \<Rightarrow> timestamp \<Rightarrow> supervisor \<Rightarrow> supervision_error + lifecycle_transition \<times> supervisor" where
  "recover_end a attempt now s = set_state a AgRunning attempt now s"

definition invocation_ok :: "agent_id \<Rightarrow> supervisor \<Rightarrow> supervisor" where
  "invocation_ok a s =
     (if sup_states s a = Some (Some AgRunning) then s\<lparr>sup_attempts := (sup_attempts s)(a := 0)\<rparr> else s)"

section \<open>The retry loop of one worker\<close>

text \<open>
  What \<open>invocation()\<close> does, and how \<open>execute\<close> ends. A try of the retry loop comes with what
  the other threads do before it looks whether the agent is running, while it waits to run,
  while it runs, while it waits in \<open>_recover\<close> and during its backoff, and with whether the
  listener takes the transitions of the failure and of the restart or raises.
\<close>

datatype invocation_end = Raises | Ends invocation_status

datatype exec_end =
    ExecRaises
  | ExecRefused supervision_error
  | ExecListenerRaises
  | ExecReturns invocation_status

record invocation_try =
  tr_before :: "supervisor \<Rightarrow> supervisor"
  tr_waiting :: "(supervisor \<Rightarrow> supervisor) list"
  tr_running :: "supervisor \<Rightarrow> supervisor"
  tr_end :: invocation_end
  tr_recovering :: "(supervisor \<Rightarrow> supervisor) list"
  tr_failed_heard :: bool
  tr_backoff :: "supervisor \<Rightarrow> supervisor"
  tr_running_heard :: bool
  tr_now :: timestamp

text \<open>\<open>None\<close>: still waiting when the given notifications are over.\<close>

fun wait_running ::
  "agent_id \<Rightarrow> (supervisor \<Rightarrow> supervisor) list \<Rightarrow> supervisor
   \<Rightarrow> ((supervision_error + unit) \<times> supervisor) option" where
  "wait_running a others s =
     (case wait_pass a s of
        Inl e \<Rightarrow> Some (Inl e, s)
      | Inr True \<Rightarrow> Some (Inr (), s)
      | Inr False \<Rightarrow> (case others of [] \<Rightarrow> None | f # fs \<Rightarrow> wait_running a fs (f s)))"

fun recover_wait ::
  "agent_id \<Rightarrow> timestamp \<Rightarrow> (supervisor \<Rightarrow> supervisor) list \<Rightarrow> supervisor
   \<Rightarrow> (supervision_error + recovery \<times> lifecycle_transition list \<times> supervisor) option" where
  "recover_wait a now others s =
     (case recover_begin a now s of
        Inl e \<Rightarrow> Some (Inl e)
      | Inr (RecoverWaits, ts, s) \<Rightarrow> (case others of [] \<Rightarrow> None | f # fs \<Rightarrow> recover_wait a now fs (f s))
      | Inr r \<Rightarrow> Some (Inr r))"

text \<open>\<open>_recover\<close>: whether to try again, or the exception that leaves it.\<close>

definition recover ::
  "agent_id \<Rightarrow> invocation_try \<Rightarrow> supervisor \<Rightarrow> ((exec_end + bool) \<times> supervisor) option" where
  "recover a t s =
     (case recover_wait a (tr_now t) (tr_recovering t) s of
        None \<Rightarrow> None
      | Some (Inl e) \<Rightarrow> Some (Inl (ExecRefused e), s)
      | Some (Inr (r, made, s)) \<Rightarrow>
          if made \<noteq> [] \<and> \<not> tr_failed_heard t then Some (Inl ExecListenerRaises, s)
          else case r of
                 RecoverRestarts n \<Rightarrow>
                   (case recover_end a n (tr_now t) (tr_backoff t s) of
                      Inl e \<Rightarrow> Some (Inl (ExecRefused e), tr_backoff t s)
                    | Inr (_, s) \<Rightarrow>
                        if tr_running_heard t then Some (Inr True, s)
                        else Some (Inl ExecListenerRaises, s))
               | _ \<Rightarrow> Some (Inr False, s))"

text \<open>The retry loop; \<open>None\<close> when the given tries are over before it ends.\<close>

fun execute :: "agent_id \<Rightarrow> bool \<Rightarrow> invocation_try list \<Rightarrow> supervisor \<Rightarrow> (exec_end \<times> supervisor) option" where
  "execute a continue_after_failure [] s = None"
| "execute a continue_after_failure (t # ts) s =
     (case wait_running a (tr_waiting t) (tr_before t s) of
        None \<Rightarrow> None
      | Some (Inl e, s) \<Rightarrow> Some (ExecRefused e, s)
      | Some (Inr _, s) \<Rightarrow>
          (let s = tr_running t s in
           case tr_end t of
             Raises \<Rightarrow>
               (case recover a t s of
                  None \<Rightarrow> None
                | Some (Inl e, s) \<Rightarrow> Some (e, s)
                | Some (Inr again, s) \<Rightarrow>
                    if again then execute a continue_after_failure ts s else Some (ExecRaises, s))
           | Ends st \<Rightarrow>
               if st = InvocationFailed then
                 (if continue_after_failure then Some (ExecReturns st, s)
                  else case recover a t s of
                         None \<Rightarrow> None
                       | Some (Inl e, s) \<Rightarrow> Some (e, s)
                       | Some (Inr again, s) \<Rightarrow>
                           if again then execute a continue_after_failure ts s
                           else Some (ExecReturns st, s))
               else Some (ExecReturns st, invocation_ok a s)))"

declare wait_running.simps [simp del] recover_wait.simps [simp del]

section \<open>All threads\<close>

text \<open>
  What a thread still has to do: sections under the lock, an invocation, transitions to give
  to the listener.
\<close>

datatype sup_section =
    Transition agent_id lifecycle int
  | TransitionFrom agent_id lifecycle lifecycle
  | LookPaused
  | LookActive
  | WaitRunning agent_id
  | BeginRecover agent_id bool
  | Succeed agent_id

datatype sup_work =
    Locked sup_section
  | Invoke agent_id bool
  | Emit "lifecycle_transition list"

datatype sup_call =
    CallStart
  | CallPause agent_id
  | CallResume agent_id
  | CallResumePaused
  | CallStop
  | CallWait agent_id
  | CallExecute agent_id bool

definition start_agent :: "agent_id \<Rightarrow> sup_work list" where
  "start_agent a = [Locked (Transition a AgStarting 0), Locked (Transition a AgRunning 0)]"

definition stop_agent :: "agent_id \<Rightarrow> sup_work list" where
  "stop_agent a = [Locked (Transition a AgStopping 0), Locked (Transition a AgStopped 0)]"

definition pause_agent :: "agent_id \<Rightarrow> sup_work" where
  "pause_agent a = Locked (TransitionFrom a AgRunning AgPaused)"

definition resume_agent :: "agent_id \<Rightarrow> sup_work" where
  "resume_agent a = Locked (TransitionFrom a AgPaused AgRunning)"

definition retry_loop :: "agent_id \<Rightarrow> bool \<Rightarrow> sup_work list" where
  "retry_loop a continue_after_failure = [Locked (WaitRunning a), Invoke a continue_after_failure]"

definition call_work :: "(agent_id \<times> restart_policy) list \<Rightarrow> sup_call \<Rightarrow> sup_work list" where
  "call_work policies c =
     (case c of
        CallStart \<Rightarrow> concat (map (\<lambda>(a, _). start_agent a) policies)
      | CallPause a \<Rightarrow> [pause_agent a]
      | CallResume a \<Rightarrow> [resume_agent a]
      | CallResumePaused \<Rightarrow> [Locked LookPaused]
      | CallStop \<Rightarrow> [Locked LookActive]
      | CallWait a \<Rightarrow> [Locked (WaitRunning a)]
      | CallExecute a continue_after_failure \<Rightarrow> retry_loop a continue_after_failure)"

text \<open>
  One locked section: the work that follows it at once, the transitions it made and the new
  state, or the exception it raises.
\<close>

fun locked_section ::
  "timestamp \<Rightarrow> sup_section \<Rightarrow> supervisor
   \<Rightarrow> supervision_error + sup_work list \<times> lifecycle_transition list \<times> supervisor" where
  "locked_section now (Transition a st attempt) s =
     bind_res (set_state a st attempt now s) (\<lambda>(t, s). Inr ([Emit [t]], [t], s))"
| "locked_section now (TransitionFrom a required st) s =
     bind_res (transition_from a required st now s) (\<lambda>(t, s). Inr ([Emit [t]], [t], s))"
| "locked_section now LookPaused s = Inr (map resume_agent (paused_agents s), [], s)"
| "locked_section now LookActive s = Inr (concat (map stop_agent (unstopped_agents s)), [], s)"
| "locked_section now (WaitRunning a) s =
     bind_res (wait_pass a s) (\<lambda>running. Inr (if running then [] else [Locked (WaitRunning a)], [], s))"
| "locked_section now (BeginRecover a continue_after_failure) s =
     bind_res (recover_begin a now s) (\<lambda>(r, ts, s).
       Inr (case r of
              RecoverWaits \<Rightarrow> [Locked (BeginRecover a continue_after_failure)]
            | RecoverGivesUp \<Rightarrow> [Emit ts]
            | RecoverRestarts n \<Rightarrow>
                Emit ts # Locked (Transition a AgRunning n) # retry_loop a continue_after_failure,
            ts, s))"
| "locked_section now (Succeed a) s = Inr ([], [], invocation_ok a s)"

text \<open>How \<open>execute\<close> goes on after an invocation.\<close>

definition after_invocation :: "agent_id \<Rightarrow> bool \<Rightarrow> invocation_end \<Rightarrow> sup_work list" where
  "after_invocation a continue_after_failure e =
     (case e of
        Raises \<Rightarrow> [Locked (BeginRecover a continue_after_failure)]
      | Ends st \<Rightarrow>
          if st = InvocationFailed
          then if continue_after_failure then [] else [Locked (BeginRecover a continue_after_failure)]
          else [Locked (Succeed a)])"

text \<open>
  The supervisor with its threads. \<open>sys_made\<close> is the transitions in the order they were made
  under the lock and \<open>sys_given\<close> those the listener was called with, in the order of the
  calls; \<open>sys_lost\<close> is those nobody is given: there is no listener, or it raised before.
\<close>

record sup_system =
  sys_sup :: supervisor
  sys_listening :: bool
  sys_threads :: "sup_work list list"
  sys_made :: "lifecycle_transition list"
  sys_given :: "lifecycle_transition list"
  sys_lost :: "lifecycle_transition list"

definition new_supervision :: "(agent_id \<times> restart_policy) list \<Rightarrow> bool \<Rightarrow> sup_system" where
  "new_supervision policies listening =
     \<lparr>sys_sup = new_supervisor policies, sys_listening = listening, sys_threads = [],
      sys_made = [], sys_given = [], sys_lost = []\<rparr>"

definition thread_work :: "nat \<Rightarrow> sup_system \<Rightarrow> sup_work list" where
  "thread_work i x = (if i < length (sys_threads x) then sys_threads x ! i else [])"

definition set_thread :: "nat \<Rightarrow> sup_work list \<Rightarrow> sup_system \<Rightarrow> sup_system" where
  "set_thread i ws x = x\<lparr>sys_threads := (sys_threads x)[i := ws]\<rparr>"

fun pending :: "sup_work list \<Rightarrow> lifecycle_transition list" where
  "pending [] = []"
| "pending (Emit ts # ws) = ts @ pending ws"
| "pending (_ # ws) = pending ws"

text \<open>An exception leaves the method that a thread runs.\<close>

definition drop_thread :: "nat \<Rightarrow> sup_work list \<Rightarrow> sup_system \<Rightarrow> sup_system" where
  "drop_thread i ws x = (set_thread i [] x)\<lparr>sys_lost := sys_lost x @ pending ws\<rparr>"

text \<open>
  A thread calls a method, takes the lock for its next section, gives a transition to the
  listener, which returns or raises, is done with giving, has its \<open>before_wait\<close> callback
  raise, or sees its invocation end. \<open>None\<close>: the thread cannot do that now.
\<close>

datatype sup_action =
    Call sup_call
  | Enter nat timestamp
  | Give nat
  | ListenerRaises nat
  | DoneGiving nat
  | BeforeWaitRaises nat
  | InvocationEnds nat invocation_end

fun sup_act :: "sup_action \<Rightarrow> sup_system \<Rightarrow> sup_system option" where
  "sup_act (Call c) x =
     Some (x\<lparr>sys_threads := sys_threads x @ [call_work (sup_policies (sys_sup x)) c]\<rparr>)"
| "sup_act (Enter i now) x =
     (case thread_work i x of
        Locked w # ws \<Rightarrow>
          (case locked_section now w (sys_sup x) of
             Inl e \<Rightarrow> Some (drop_thread i ws x)
           | Inr (ws', ts, s) \<Rightarrow>
               Some ((set_thread i (ws' @ ws) x)\<lparr>sys_sup := s, sys_made := sys_made x @ ts\<rparr>))
      | _ \<Rightarrow> None)"
| "sup_act (Give i) x =
     (case thread_work i x of
        Emit (t # ts) # ws \<Rightarrow>
          if sys_listening x
          then Some ((set_thread i (Emit ts # ws) x)\<lparr>sys_given := sys_given x @ [t]\<rparr>) else None
      | _ \<Rightarrow> None)"
| "sup_act (ListenerRaises i) x =
     (case thread_work i x of
        Emit (t # ts) # ws \<Rightarrow>
          if sys_listening x
          then Some ((drop_thread i (Emit ts # ws) x)\<lparr>sys_given := sys_given x @ [t]\<rparr>) else None
      | _ \<Rightarrow> None)"
| "sup_act (DoneGiving i) x =
     (case thread_work i x of
        Emit ts # ws \<Rightarrow>
          if ts = [] \<or> \<not> sys_listening x
          then Some ((set_thread i ws x)\<lparr>sys_lost := sys_lost x @ ts\<rparr>) else None
      | _ \<Rightarrow> None)"
| "sup_act (BeforeWaitRaises i) x =
     (case thread_work i x of
        Locked (WaitRunning a) # ws \<Rightarrow>
          if wait_pass a (sys_sup x) = Inr False then Some (drop_thread i ws x) else None
      | _ \<Rightarrow> None)"
| "sup_act (InvocationEnds i e) x =
     (case thread_work i x of
        Invoke a c # ws \<Rightarrow> Some (set_thread i (after_invocation a c e @ ws) x)
      | _ \<Rightarrow> None)"

inductive sup_reachable :: "(agent_id \<times> restart_policy) list \<Rightarrow> bool \<Rightarrow> sup_system \<Rightarrow> bool"
  for policies listening where
  sr_new: "sup_reachable policies listening (new_supervision policies listening)"
| sr_act: "sup_reachable policies listening x \<Longrightarrow> sup_act act x = Some y
     \<Longrightarrow> sup_reachable policies listening y"

text \<open>A schedule of actions.\<close>

fun sup_run :: "sup_action list \<Rightarrow> sup_system \<Rightarrow> sup_system option" where
  "sup_run [] x = Some x"
| "sup_run (act # acts) x = (case sup_act act x of None \<Rightarrow> None | Some y \<Rightarrow> sup_run acts y)"

section \<open>The record of transitions\<close>

definition transitions_of :: "agent_id \<Rightarrow> lifecycle_transition list \<Rightarrow> lifecycle_transition list" where
  "transitions_of a ts = filter (\<lambda>t. lt_agent t = a) ts"

text \<open>Each transition starts where the one before it ended, the first from nothing.\<close>

fun linked :: "lifecycle option \<Rightarrow> lifecycle_transition list \<Rightarrow> bool" where
  "linked st [] = True"
| "linked st (t # ts) \<longleftrightarrow> lt_previous t = st \<and> linked (Some (lt_state t)) ts"

definition final_state :: "lifecycle_transition list \<Rightarrow> lifecycle option" where
  "final_state ts = (if ts = [] then None else Some (lt_state (last ts)))"

definition restart_within_budget :: "(agent_id \<times> restart_policy) list \<Rightarrow> lifecycle_transition \<Rightarrow> bool" where
  "restart_within_budget policies t \<longleftrightarrow>
     (lt_state t = AgRestarting \<longrightarrow>
        (\<exists>p. map_of policies (lt_agent t) = Some p \<and> rp_on_failure p
           \<and> 1 \<le> lt_attempt t \<and> lt_attempt t \<le> rp_max_attempts p \<and> lt_previous t = Some AgFailed))"

definition sup_inv ::
  "(agent_id \<times> restart_policy) list \<Rightarrow> supervisor \<Rightarrow> lifecycle_transition list \<Rightarrow> bool" where
  "sup_inv policies s made \<longleftrightarrow>
     sup_policies s = policies
     \<and> (\<forall>a. sup_states s a = map_option (\<lambda>_. final_state (transitions_of a made)) (map_of policies a))
     \<and> (\<forall>a. linked None (transitions_of a made))
     \<and> (\<forall>t\<in>set made. restart_within_budget policies t)
     \<and> (\<forall>a. 0 \<le> sup_attempts s a)"

text \<open>Only a recovery restarts, so no thread is about to set an agent restarting otherwise.\<close>

fun plain_work :: "sup_work \<Rightarrow> bool" where
  "plain_work (Locked (Transition a st n)) \<longleftrightarrow> st \<noteq> AgRestarting"
| "plain_work (Locked (TransitionFrom a required st)) \<longleftrightarrow> st \<noteq> AgRestarting"
| "plain_work _ \<longleftrightarrow> True"

definition supervision_inv :: "(agent_id \<times> restart_policy) list \<Rightarrow> sup_system \<Rightarrow> bool" where
  "supervision_inv policies x \<longleftrightarrow>
     sup_inv policies (sys_sup x) (sys_made x)
     \<and> list_all (list_all plain_work) (sys_threads x)
     \<and> mset (sys_made x) =
         mset (sys_given x) + mset (concat (map pending (sys_threads x))) + mset (sys_lost x)"

lemma linked_append: "linked st (ts @ [t]) \<longleftrightarrow>
    linked st ts \<and> lt_previous t = (if ts = [] then st else Some (lt_state (last ts)))"
  by (induction ts arbitrary: st) auto

lemma set_state_Inr:
  assumes "set_state a st n now s = Inr (t, s')"
  shows "\<exists>prev. sup_states s a = Some prev
    \<and> t = \<lparr>lt_agent = a, lt_state = st, lt_previous = prev, lt_attempt = n, lt_recorded_at = now\<rparr>
    \<and> s' = s\<lparr>sup_states := (sup_states s)(a \<mapsto> Some st)\<rparr>"
  using assms by (auto simp: set_state_def known_state_def bind_res_Inr_iff split: option.splits)

lemma set_state_inv:
  assumes "set_state a st n now s = Inr (t, s')" "sup_inv policies s made"
    and "st = AgRestarting \<Longrightarrow> sup_states s a = Some (Some AgFailed) \<and> 1 \<le> n
      \<and> (\<exists>p. map_of policies a = Some p \<and> rp_on_failure p \<and> n \<le> rp_max_attempts p)"
  shows "sup_inv policies s' (made @ [t])"
proof -
  obtain prev where p: "sup_states s a = Some prev"
    and t: "t = \<lparr>lt_agent = a, lt_state = st, lt_previous = prev, lt_attempt = n, lt_recorded_at = now\<rparr>"
    and s': "s' = s\<lparr>sup_states := (sup_states s)(a \<mapsto> Some st)\<rparr>"
    using set_state_Inr [OF assms(1)] by blast
  have f: "lt_agent t = a" "lt_state t = st" "lt_previous t = prev" "lt_attempt t = n" by (simp_all add: t)
  have tr: "transitions_of b (made @ [t]) = transitions_of b made @ (if b = a then [t] else [])" for b
    by (simp add: f transitions_of_def)
  have st: "sup_states s b = map_option (\<lambda>_. final_state (transitions_of b made)) (map_of policies b)" for b
    using assms(2) by (simp add: sup_inv_def)
  have prev: "prev = final_state (transitions_of a made)" using st [of a] p by (cases "map_of policies a") simp_all
  have known: "map_of policies a \<noteq> None" using st [of a] p by (cases "map_of policies a") simp_all
  have "linked None (transitions_of b (made @ [t]))" for b
    using assms(2) prev by (auto simp: tr f linked_append sup_inv_def final_state_def)
  moreover have "restart_within_budget policies t" using assms(3) p by (auto simp: f restart_within_budget_def)
  moreover have "sup_states s' b = map_option (\<lambda>_. final_state (transitions_of b (made @ [t]))) (map_of policies b)" for b
  proof (cases "b = a")
    case True
    then show ?thesis using known by (auto simp: tr f final_state_def) (simp add: s')
  next
    case False
    then have "sup_states s' b = sup_states s b" by (simp add: s')
    with False show ?thesis using st [of b] by (simp add: tr)
  qed
  moreover have "sup_policies s' = policies" "sup_attempts s' = sup_attempts s"
    "\<forall>t\<in>set made. restart_within_budget policies t" "\<forall>a. 0 \<le> sup_attempts s a"
    using assms(2) by (simp_all add: s' sup_inv_def)
  ultimately show ?thesis unfolding sup_inv_def by simp
qed

lemma attempts_inv:
  assumes "sup_inv policies s made" "0 \<le> n"
  shows "sup_inv policies (s\<lparr>sup_attempts := (sup_attempts s)(a := n)\<rparr>) made"
  using assms unfolding sup_inv_def by simp

lemma transition_from_Inr:
  "transition_from a required st now s = Inr r \<Longrightarrow>
     sup_states s a = Some (Some required) \<and> set_state a st 0 now s = Inr r"
  by (auto simp: transition_from_def known_state_def bind_res_Inr_iff split: if_splits option.splits)

text \<open>What the locked part of a recovery does, case by case.\<close>

lemma recover_begin_cases:
  assumes "recover_begin a now s = Inr (r, ts, s')"
  obtains
    (waits) "sup_states s a = Some (Some AgRestarting)" "r = RecoverWaits" "ts = []" "s' = s"
  | (lets_be) "sup_states s a \<noteq> Some (Some AgRestarting)" "sup_states s a \<noteq> Some (Some AgRunning)"
      "r = RecoverGivesUp" "ts = []" "s' = s"
  | (fails) t where "sup_states s a = Some (Some AgRunning)"
      "set_state a AgFailed (sup_attempts s a + 1) now
         (s\<lparr>sup_attempts := (sup_attempts s)(a := sup_attempts s a + 1)\<rparr>) = Inr (t, s')"
      "r = RecoverGivesUp" "ts = [t]"
  | (restarts) t s1 u where "sup_states s a = Some (Some AgRunning)"
      "set_state a AgFailed (sup_attempts s a + 1) now
         (s\<lparr>sup_attempts := (sup_attempts s)(a := sup_attempts s a + 1)\<rparr>) = Inr (t, s1)"
      "rp_on_failure (policy_of a s1)" "sup_attempts s a + 1 \<le> rp_max_attempts (policy_of a s1)"
      "set_state a AgRestarting (sup_attempts s a + 1) now s1 = Inr (u, s')"
      "r = RecoverRestarts (sup_attempts s a + 1)" "ts = [t, u]"
  using assms by (auto simp: recover_begin_def Let_def bind_res_Inr_iff split: if_splits prod.splits)

lemma recover_begin_inv:
  assumes "recover_begin a now s = Inr (r, ts, s')" "sup_inv policies s made"
  shows "sup_inv policies s' (made @ ts)"
  using assms(1)
proof (cases rule: recover_begin_cases)
  case (fails t)
  have "sup_inv policies (s\<lparr>sup_attempts := (sup_attempts s)(a := sup_attempts s a + 1)\<rparr>) made"
    by (rule attempts_inv [OF assms(2)]) (use assms(2) in \<open>simp add: sup_inv_def\<close>)
  from set_state_inv [OF fails(2) this] fails(4) show ?thesis by simp
next
  case (restarts t s1 u)
  have n: "1 \<le> sup_attempts s a + 1" using assms(2) by (simp add: sup_inv_def)
  have "sup_inv policies (s\<lparr>sup_attempts := (sup_attempts s)(a := sup_attempts s a + 1)\<rparr>) made"
    by (rule attempts_inv [OF assms(2)]) (use n in simp)
  from set_state_inv [OF restarts(2) this] have i1: "sup_inv policies s1 (made @ [t])" by simp
  have st1: "sup_states s1 a = Some (Some AgFailed)" using set_state_Inr [OF restarts(2)] by auto
  have "sup_policies s1 = policies" using i1 by (simp add: sup_inv_def)
  moreover have "map_of policies a \<noteq> None"
    using i1 st1 unfolding sup_inv_def by (cases "map_of policies a") auto
  ultimately have "\<exists>p. map_of policies a = Some p \<and> rp_on_failure p \<and> sup_attempts s a + 1 \<le> rp_max_attempts p"
    using restarts(3,4) by (auto simp: policy_of_def)
  with set_state_inv [OF restarts(5) i1] st1 n restarts(7) show ?thesis by simp
qed (use assms(2) in simp_all)

lemma locked_section_inv:
  assumes "locked_section now w s = Inr (ws, ts, s')" "sup_inv policies s made" "plain_work (Locked w)"
  shows "sup_inv policies s' (made @ ts)"
proof (cases w)
  case (Transition a st n)
  then show ?thesis using assms set_state_inv [of a st n now s _ s'] by (auto simp: bind_res_Inr_iff)
next
  case (TransitionFrom a required st)
  then obtain t where "transition_from a required st now s = Inr (t, s')" "ts = [t]"
    using assms(1) by (auto simp: bind_res_Inr_iff)
  moreover from this have "set_state a st 0 now s = Inr (t, s')" using transition_from_Inr by blast
  ultimately show ?thesis using set_state_inv [of a st 0 now s t s' policies made] assms(2,3) TransitionFrom by simp
next
  case (BeginRecover a c)
  then show ?thesis using assms recover_begin_inv by (auto simp: bind_res_Inr_iff)
next
  case (Succeed a)
  then show ?thesis using assms by (auto simp: invocation_ok_def attempts_inv)
qed (use assms in \<open>auto simp: bind_res_Inr_iff\<close>)

lemma pending_append [simp]: "pending (ws @ vs) = pending ws @ pending vs"
  by (induction ws rule: pending.induct) simp_all

lemma pending_plain:
  "pending (concat (map start_agent as)) = []" "pending (concat (map stop_agent as)) = []"
  "pending (map resume_agent as) = []" "pending (retry_loop a c) = []"
  "pending (after_invocation a c e) = []"
  by (induction as) (auto simp: start_agent_def stop_agent_def resume_agent_def retry_loop_def
      after_invocation_def split: invocation_end.splits)

text \<open>A section leaves exactly the transitions it made to be given.\<close>

lemma locked_section_pending:
  assumes "locked_section now w s = Inr (ws, ts, s')"
  shows "pending ws = ts"
proof (cases w)
  case (BeginRecover a c)
  then obtain r where "recover_begin a now s = Inr (r, ts, s')"
    and "ws = (case r of RecoverWaits \<Rightarrow> [Locked (BeginRecover a c)] | RecoverGivesUp \<Rightarrow> [Emit ts]
            | RecoverRestarts n \<Rightarrow> Emit ts # Locked (Transition a AgRunning n) # retry_loop a c)"
    using assms by (auto simp: bind_res_Inr_iff)
  then show ?thesis by (cases rule: recover_begin_cases) (simp_all add: pending_plain)
qed (use assms in \<open>auto simp: bind_res_Inr_iff pending_plain\<close>)

lemma plain_works:
  "list_all plain_work (concat (map start_agent as))" "list_all plain_work (concat (map stop_agent as))"
  "list_all plain_work (map resume_agent as)" "list_all plain_work (retry_loop a c)"
  "list_all plain_work (after_invocation a c e)"
  by (induction as) (auto simp: start_agent_def stop_agent_def resume_agent_def retry_loop_def
      after_invocation_def split: invocation_end.splits)

lemma locked_section_plain:
  assumes "locked_section now w s = Inr (ws, ts, s')"
  shows "list_all plain_work ws"
proof (cases w)
  case (BeginRecover a c)
  then obtain r where
    "ws = (case r of RecoverWaits \<Rightarrow> [Locked (BeginRecover a c)] | RecoverGivesUp \<Rightarrow> [Emit ts]
            | RecoverRestarts n \<Rightarrow> Emit ts # Locked (Transition a AgRunning n) # retry_loop a c)"
    using assms by (auto simp: bind_res_Inr_iff)
  then show ?thesis by (cases r) (simp_all add: plain_works)
qed (use assms in \<open>auto simp: bind_res_Inr_iff plain_works\<close>)

lemma start_all: "concat (map (\<lambda>(a, _). start_agent a) policies) = concat (map start_agent (map fst policies))"
  by (simp add: comp_def case_prod_unfold)

lemma call_work_plain: "pending (call_work policies c) = []" "list_all plain_work (call_work policies c)"
  by (cases c; simp add: call_work_def start_all pending_plain plain_works pause_agent_def resume_agent_def
      del: map_map)+

text \<open>Replacing the work of one thread.\<close>

lemma pending_update:
  "i < length xs \<Longrightarrow> mset (concat (map pending (xs[i := ws]))) + mset (pending (xs ! i))
     = mset (concat (map pending xs)) + mset (pending ws)"
  by (induction xs arbitrary: i) (auto split: nat.splits)

lemma mset_balance:
  fixes A B m g l g' l' p w t :: "'a multiset"
  assumes "A + p = B + w" "m = g + B + l" "t + p + g + l = w + g' + l'"
  shows "m + t = g' + A + l'"
proof (rule multiset_eqI)
  fix z
  show "count (m + t) z = count (g' + A + l') z"
    using arg_cong [OF assms(1), of "\<lambda>X. count X z"] arg_cong [OF assms(2), of "\<lambda>X. count X z"]
      arg_cong [OF assms(3), of "\<lambda>X. count X z"] by simp
qed

lemma set_thread_inv:
  assumes "supervision_inv policies x" "thread_work i x = vs" "vs \<noteq> []"
    and "sup_inv policies (sys_sup y) (sys_made x @ ts)" "sys_made y = sys_made x @ ts"
    and "sys_threads y = (sys_threads x)[i := ws]" "list_all plain_work ws"
    and "mset ts + mset (pending vs) + mset (sys_given x) + mset (sys_lost x)
      = mset (pending ws) + mset (sys_given y) + mset (sys_lost y)"
  shows "supervision_inv policies y"
proof -
  have i: "i < length (sys_threads x)" and vs: "sys_threads x ! i = vs"
    using assms(2,3) by (auto simp: thread_work_def split: if_splits)
  have "list_all (list_all plain_work) (sys_threads y)"
    using assms(1,6,7) by (auto simp: supervision_inv_def list_all_iff dest: set_update_subset_insert [THEN subsetD])
  moreover have "mset (sys_made x @ ts)
      = mset (sys_given y) + mset (concat (map pending (sys_threads y))) + mset (sys_lost y)"
    using mset_balance [OF _ _ assms(8)] pending_update [OF i, of ws] assms(1,6) vs
    unfolding supervision_inv_def mset_append by metis
  ultimately show ?thesis using assms(4,5) unfolding supervision_inv_def by simp
qed

lemma thread_plain: "supervision_inv policies x \<Longrightarrow> list_all plain_work (thread_work i x)"
  by (simp add: supervision_inv_def thread_work_def list_all_length)

lemma system_sup: "supervision_inv policies x \<Longrightarrow> sup_inv policies (sys_sup x) (sys_made x)"
  by (simp add: supervision_inv_def)

lemmas act_defs = set_thread_def drop_thread_def

lemma enter_inv:
  assumes "sup_act (Enter i now) x = Some y" "supervision_inv policies x"
  shows "supervision_inv policies y"
proof -
  obtain w ws where w: "thread_work i x = Locked w # ws"
    using assms(1) by (auto split: list.splits sup_work.splits)
  have p: "plain_work (Locked w)" "list_all plain_work ws" using thread_plain [OF assms(2), of i] w by simp_all
  show ?thesis
  proof (cases "locked_section now w (sys_sup x)")
    case (Inl e)
    then have "y = drop_thread i ws x" using assms(1) w by simp
    then show ?thesis
      using set_thread_inv [OF assms(2) w, of y "[]" "[]"] system_sup [OF assms(2)] by (simp add: act_defs)
  next
    case (Inr r)
    then obtain ws' ts s where r: "locked_section now w (sys_sup x) = Inr (ws', ts, s)" by (cases r) auto
    then have "y = (set_thread i (ws' @ ws) x)\<lparr>sys_sup := s, sys_made := sys_made x @ ts\<rparr>"
      using assms(1) w by simp
    then show ?thesis
      using set_thread_inv [OF assms(2) w, of y ts "ws' @ ws"] p
        locked_section_inv [OF r system_sup [OF assms(2)] p(1)] locked_section_pending [OF r]
        locked_section_plain [OF r] by (simp add: act_defs)
  qed
qed

lemma sup_act_inv:
  assumes "sup_act act x = Some y" "supervision_inv policies x"
  shows "supervision_inv policies y"
proof (cases act)
  case (Call c)
  then have "y = x\<lparr>sys_threads := sys_threads x @ [call_work (sup_policies (sys_sup x)) c]\<rparr>"
    using assms(1) by simp
  then show ?thesis using assms(2) by (simp add: supervision_inv_def call_work_plain)
next
  case (Enter i now)
  with assms enter_inv show ?thesis by blast
next
  case (Give i)
  then obtain t ts ws where w: "thread_work i x = Emit (t # ts) # ws"
    and y: "y = (set_thread i (Emit ts # ws) x)\<lparr>sys_given := sys_given x @ [t]\<rparr>"
    using assms(1) by (auto split: list.splits sup_work.splits if_splits)
  show ?thesis
    using set_thread_inv [OF assms(2) w, of y "[]" "Emit ts # ws"] system_sup [OF assms(2)]
      thread_plain [OF assms(2), of i] w by (simp add: y act_defs)
next
  case (ListenerRaises i)
  then obtain t ts ws where w: "thread_work i x = Emit (t # ts) # ws"
    and y: "y = (drop_thread i (Emit ts # ws) x)\<lparr>sys_given := sys_given x @ [t]\<rparr>"
    using assms(1) by (auto split: list.splits sup_work.splits if_splits)
  show ?thesis
    using set_thread_inv [OF assms(2) w, of y "[]" "[]"] system_sup [OF assms(2)] by (simp add: y act_defs)
next
  case (DoneGiving i)
  then obtain ts ws where w: "thread_work i x = Emit ts # ws"
    and y: "y = (set_thread i ws x)\<lparr>sys_lost := sys_lost x @ ts\<rparr>"
    using assms(1) by (auto split: list.splits sup_work.splits if_splits)
  show ?thesis
    using set_thread_inv [OF assms(2) w, of y "[]" ws] system_sup [OF assms(2)]
      thread_plain [OF assms(2), of i] w by (simp add: y act_defs)
next
  case (BeforeWaitRaises i)
  then obtain a ws where w: "thread_work i x = Locked (WaitRunning a) # ws" and y: "y = drop_thread i ws x"
    using assms(1) by (auto split: list.splits sup_work.splits sup_section.splits if_splits)
  show ?thesis
    using set_thread_inv [OF assms(2) w, of y "[]" "[]"] system_sup [OF assms(2)] by (simp add: y act_defs)
next
  case (InvocationEnds i e)
  then obtain a c ws where w: "thread_work i x = Invoke a c # ws"
    and y: "y = set_thread i (after_invocation a c e @ ws) x"
    using assms(1) by (auto split: list.splits sup_work.splits)
  show ?thesis
    using set_thread_inv [OF assms(2) w, of y "[]" "after_invocation a c e @ ws"] system_sup [OF assms(2)]
      thread_plain [OF assms(2), of i] w by (simp add: y act_defs pending_plain plain_works)
qed

lemma supervision_inv_new: "supervision_inv policies (new_supervision policies listening)"
proof -
  have "map_of (map (\<lambda>(a, _). (a, None :: lifecycle option)) policies) a = map_option (\<lambda>_. None) (map_of policies a)"
    for a by (induction policies) auto
  then show ?thesis
    unfolding supervision_inv_def sup_inv_def new_supervision_def new_supervisor_def transitions_of_def final_state_def by simp
qed

lemma sup_reachable_inv: "sup_reachable policies listening x \<Longrightarrow> supervision_inv policies x"
  by (induction rule: sup_reachable.induct) (auto intro: supervision_inv_new sup_act_inv)

lemma sup_run_reachable:
  "sup_run acts x = Some y \<Longrightarrow> sup_reachable policies listening x \<Longrightarrow> sup_reachable policies listening y"
  by (induction acts arbitrary: x) (auto split: option.splits intro: sr_act)

section \<open>Retries of one worker\<close>

text \<open>The restarts that the policy of an agent still allows.\<close>

definition budget_left :: "agent_id \<Rightarrow> supervisor \<Rightarrow> nat" where
  "budget_left a s =
     (if rp_on_failure (policy_of a s) then nat (rp_max_attempts (policy_of a s) - sup_attempts s a) else 0)"

text \<open>
  What other threads may do to the supervisor: the policies stay, and the failures counted for
  the agent are not reset. Everything they do under the lock is of this kind, except the end
  of a successful invocation of the same agent (\<open>locked_section_spares\<close>).
\<close>

definition spares :: "agent_id \<Rightarrow> (supervisor \<Rightarrow> supervisor) \<Rightarrow> bool" where
  "spares a f \<longleftrightarrow>
     (\<forall>s. sup_policies (f s) = sup_policies s \<and> sup_attempts s a \<le> sup_attempts (f s) a)"

definition spared :: "agent_id \<Rightarrow> invocation_try \<Rightarrow> bool" where
  "spared a t \<longleftrightarrow>
     spares a (tr_before t) \<and> list_all (spares a) (tr_waiting t) \<and> spares a (tr_running t)
     \<and> list_all (spares a) (tr_recovering t) \<and> spares a (tr_backoff t)"

text \<open>The waits of the try end: an agent does not stay starting, paused or restarting for ever.\<close>

definition waits_end :: "agent_id \<Rightarrow> invocation_try \<Rightarrow> bool" where
  "waits_end a t \<longleftrightarrow>
     (\<forall>s. wait_running a (tr_waiting t) s \<noteq> None \<and> recover_wait a (tr_now t) (tr_recovering t) s \<noteq> None)"

lemma set_state_budget:
  assumes "set_state b st n now s = Inr (t, s')"
  shows "sup_policies s' = sup_policies s" "sup_attempts s' = sup_attempts s"
    "sup_states s' = (sup_states s)(b \<mapsto> Some st)"
  using set_state_Inr [OF assms] by auto

lemma policy_of_eq: "sup_policies s' = sup_policies s \<Longrightarrow> policy_of a s' = policy_of a s"
  by (simp add: policy_of_def)

lemma le_budget:
  assumes "sup_policies s' = sup_policies s" "sup_attempts s a \<le> sup_attempts s' a"
  shows "budget_left a s' \<le> budget_left a s"
  using assms(2) unfolding budget_left_def policy_of_eq [OF assms(1)] by (simp add: nat_mono)

lemma spares_budget: "spares a f \<Longrightarrow> budget_left a (f s) \<le> budget_left a s"
  by (rule le_budget) (simp_all add: spares_def)

lemma recover_begin_mono:
  assumes "recover_begin b now s = Inr (r, ts, s')"
  shows "sup_policies s' = sup_policies s \<and> sup_attempts s a \<le> sup_attempts s' a"
  using assms
proof (cases rule: recover_begin_cases)
  case (fails t)
  with set_state_budget [OF fails(2)] show ?thesis by simp
next
  case (restarts t s1 u)
  with set_state_budget [OF restarts(2)] set_state_budget [OF restarts(5)] show ?thesis by simp
qed simp_all

lemma recover_begin_budget:
  assumes "recover_begin a now s = Inr (r, ts, s')"
  shows "budget_left a s' \<le> budget_left a s"
    and "\<exists>n. r = RecoverRestarts n \<Longrightarrow> budget_left a s' < budget_left a s"
    and "r = RecoverGivesUp \<Longrightarrow> sup_states s' a \<noteq> Some (Some AgRunning) \<and> sup_states s' a \<noteq> Some (Some AgRestarting)"
proof -
  have m: "sup_policies s' = sup_policies s" "sup_attempts s a \<le> sup_attempts s' a"
    using recover_begin_mono [OF assms, of a] by auto
  then show "budget_left a s' \<le> budget_left a s" by (rule le_budget)
  show "budget_left a s' < budget_left a s" if "\<exists>n. r = RecoverRestarts n"
    using assms
  proof (cases rule: recover_begin_cases)
    case (restarts t s1 u)
    have "sup_policies s1 = sup_policies s" "sup_attempts s' a = sup_attempts s a + 1"
      using set_state_budget [OF restarts(2)] set_state_budget [OF restarts(5)] by simp_all
    with restarts(3,4) policy_of_eq [of s1 s a] policy_of_eq [OF m(1), of a] show ?thesis
      by (simp add: budget_left_def)
  qed (use that in simp_all)
  show "sup_states s' a \<noteq> Some (Some AgRunning) \<and> sup_states s' a \<noteq> Some (Some AgRestarting)"
    if "r = RecoverGivesUp"
    using assms
  proof (cases rule: recover_begin_cases)
    case (fails t)
    from set_state_budget [OF fails(2)] show ?thesis by simp
  qed (use that in simp_all)
qed

lemma locked_section_spares:
  assumes "locked_section now w s = Inr (ws, ts, s')" "w \<noteq> Succeed a"
  shows "sup_policies s' = sup_policies s \<and> sup_attempts s a \<le> sup_attempts s' a"
proof (cases w)
  case (Transition b st n)
  with assms(1) show ?thesis by (auto simp: bind_res_Inr_iff set_state_budget)
next
  case (TransitionFrom b required st)
  then obtain t where "set_state b st 0 now s = Inr (t, s')"
    using assms(1) by (auto simp: bind_res_Inr_iff dest!: transition_from_Inr)
  then show ?thesis by (simp add: set_state_budget)
next
  case (BeginRecover b c)
  then obtain r where "recover_begin b now s = Inr (r, ts, s')" using assms(1) by (auto simp: bind_res_Inr_iff)
  then show ?thesis by (rule recover_begin_mono)
qed (use assms in \<open>auto simp: bind_res_Inr_iff invocation_ok_def\<close>)

lemma wait_running_budget:
  assumes "wait_running a fs s = Some (r, s')" "list_all (spares a) fs"
  shows "budget_left a s' \<le> budget_left a s"
  using assms
proof (induction fs arbitrary: s)
  case Nil
  then show ?case by (subst (asm) wait_running.simps) (auto split: sum.splits bool.splits)
next
  case (Cons f fs)
  show ?case
  proof (cases "wait_pass a s = Inr False")
    case True
    then have "wait_running a fs (f s) = Some (r, s')"
      using Cons.prems(1) by (subst (asm) wait_running.simps) simp
    with Cons.IH [of "f s"] Cons.prems(2) spares_budget [of a f s] show ?thesis by simp
  next
    case False
    with Cons.prems(1) show ?thesis by (subst (asm) wait_running.simps) (auto split: sum.splits bool.splits)
  qed
qed

lemma recover_wait_budget:
  assumes "recover_wait a now fs s = Some (Inr (r, ts, s'))" "list_all (spares a) fs"
  shows "r \<noteq> RecoverWaits \<and> budget_left a s' \<le> budget_left a s
    \<and> ((\<exists>n. r = RecoverRestarts n) \<longrightarrow> budget_left a s' < budget_left a s)
    \<and> (r = RecoverGivesUp \<longrightarrow> sup_states s' a \<noteq> Some (Some AgRunning) \<and> sup_states s' a \<noteq> Some (Some AgRestarting))"
  using assms
proof (induction fs arbitrary: s)
  case Nil
  then have "recover_begin a now s = Inr (r, ts, s') \<and> r \<noteq> RecoverWaits"
    by (subst (asm) recover_wait.simps) (auto split: sum.splits recovery.splits)
  then show ?case using recover_begin_budget [of a now s r ts s'] by auto
next
  case (Cons f fs)
  show ?case
  proof (cases "\<exists>us u. recover_begin a now s = Inr (RecoverWaits, us, u)")
    case True
    then obtain us u where b: "recover_begin a now s = Inr (RecoverWaits, us, u)" by blast
    then have "u = s" by (cases rule: recover_begin_cases) simp_all
    with b have "recover_wait a now fs (f s) = Some (Inr (r, ts, s'))"
      using Cons.prems(1) by (subst (asm) recover_wait.simps) simp
    with Cons.IH [of "f s"] Cons.prems(2) spares_budget [of a f s] show ?thesis by auto
  next
    case False
    then have "recover_begin a now s = Inr (r, ts, s') \<and> r \<noteq> RecoverWaits"
      using Cons.prems(1) by (subst (asm) recover_wait.simps) (auto split: sum.splits recovery.splits)
    then show ?thesis using recover_begin_budget [of a now s r ts s'] by auto
  qed
qed

lemma recover_budget:
  assumes "recover a t s = Some (Inr again, s')" "spared a t"
  shows "if again then budget_left a s' < budget_left a s
    else sup_states s' a \<noteq> Some (Some AgRunning) \<and> sup_states s' a \<noteq> Some (Some AgRestarting)"
proof -
  obtain r ts s1 where w: "recover_wait a (tr_now t) (tr_recovering t) s = Some (Inr (r, ts, s1))"
    using assms(1) by (auto simp: recover_def split: option.splits sum.splits)
  have sp: "list_all (spares a) (tr_recovering t)" "spares a (tr_backoff t)" using assms(2) by (simp_all add: spared_def)
  note b = recover_wait_budget [OF w sp(1)]
  show ?thesis
  proof (cases r)
    case (RecoverRestarts n)
    then obtain u where e: "recover_end a n (tr_now t) (tr_backoff t s1) = Inr (u, s')" and again
      using assms(1) w by (auto simp: recover_def split: if_splits sum.splits)
    have "budget_left a s' = budget_left a (tr_backoff t s1)"
      using set_state_budget [OF e [unfolded recover_end_def]] by (simp add: budget_left_def policy_of_def)
    with b RecoverRestarts \<open>again\<close> spares_budget [OF sp(2), of s1] show ?thesis by auto
  qed (use assms(1) w b in \<open>auto simp: recover_def split: if_splits\<close>)
qed

lemma recover_ends: "waits_end a t \<Longrightarrow> recover a t s \<noteq> None"
  by (auto simp: waits_end_def recover_def split: option.splits sum.splits recovery.splits)

text \<open>How the loop ended, whatever the other threads did.\<close>

definition gives_up :: "bool \<Rightarrow> exec_end \<Rightarrow> bool" where
  "gives_up continue_after_failure r \<longleftrightarrow>
     r = ExecRaises \<or> r = ExecReturns InvocationFailed \<and> \<not> continue_after_failure"

fun ends_of :: "exec_end \<Rightarrow> invocation_end option" where
  "ends_of ExecRaises = Some Raises"
| "ends_of (ExecReturns st) = Some (Ends st)"
| "ends_of _ = None"

definition settled :: "agent_id \<Rightarrow> bool \<Rightarrow> invocation_try list \<Rightarrow> exec_end \<times> supervisor \<Rightarrow> bool" where
  "settled a continue_after_failure ts res \<longleftrightarrow>
     (case res of (r, s) \<Rightarrow>
        (\<forall>e. ends_of r = Some e \<longrightarrow> e \<in> set (map tr_end ts))
        \<and> (gives_up continue_after_failure r \<longrightarrow>
             sup_states s a \<noteq> Some (Some AgRunning) \<and> sup_states s a \<noteq> Some (Some AgRestarting))
        \<and> (\<forall>st. r = ExecReturns st \<and> st \<noteq> InvocationFailed \<and> sup_states s a = Some (Some AgRunning)
             \<longrightarrow> sup_attempts s a = 0))"

lemma settled_Cons: "settled a c ts res \<Longrightarrow> settled a c (t # ts) res"
  by (auto simp: settled_def)

lemma execute_bounded:
  assumes "list_all (\<lambda>t. spared a t \<and> waits_end a t) ts" "budget_left a s < length ts"
  shows "\<exists>res. (\<forall>rest. execute a c (ts @ rest) s = Some res) \<and> settled a c ts res"
  using assms
proof (induction ts arbitrary: s)
  case (Cons t ts)
  have t: "spared a t" "waits_end a t" and ts: "list_all (\<lambda>t. spared a t \<and> waits_end a t) ts"
    using Cons.prems(1) by simp_all
  obtain w s1 where w: "wait_running a (tr_waiting t) (tr_before t s) = Some (w, s1)"
    using t(2) unfolding waits_end_def by (metis option.exhaust prod.exhaust)
  have b1: "budget_left a (tr_running t s1) \<le> budget_left a s"
    using wait_running_budget [OF w] t(1) spares_budget [of a "tr_before t" s] spares_budget [of a "tr_running t" s1]
    by (simp add: spared_def)
  show ?case
  proof (cases w)
    case (Inl e)
    with w show ?thesis by (intro exI [of _ "(ExecRefused e, s1)"]) (simp add: settled_def gives_up_def)
  next
    case (Inr u)
    let ?s = "tr_running t s1"
    have w': "wait_running a (tr_waiting t) (tr_before t s) = Some (Inr (), s1)" using w Inr by simp
    obtain q s2 where r: "recover a t ?s = Some (q, s2)"
      using recover_ends [OF t(2), of ?s] by (cases "recover a t ?s") auto
    have retry: ?thesis
      if fails: "\<And>rest. execute a c ((t # ts) @ rest) s =
          (case q of Inl e \<Rightarrow> Some (e, s2)
           | Inr again \<Rightarrow> if again then execute a c (ts @ rest) s2 else Some (e0, s2))"
        and e0: "ends_of e0 = Some (tr_end t)" "gives_up c e0" for e0
    proof (cases q)
      case (Inl e)
      then have "ends_of e = None" using r by (auto simp: recover_def split: option.splits sum.splits if_splits recovery.splits)
      then show ?thesis using fails Inl
        by (intro exI [of _ "(e, s2)"]) (auto simp: settled_def gives_up_def simp del: execute.simps)
    next
      case (Inr again)
      show ?thesis
      proof (cases again)
        case True
        then have "budget_left a s2 < length ts"
          using recover_budget [OF r [unfolded Inr] t(1)] b1 Cons.prems(2) by simp
        from Cons.IH [OF ts this] show ?thesis
          using fails Inr True settled_Cons by (auto simp del: execute.simps append_Cons)
      next
        case False
        then show ?thesis using recover_budget [OF r [unfolded Inr] t(1)] fails Inr e0
          by (intro exI [of _ "(e0, s2)"])
            (auto simp: settled_def gives_up_def simp del: execute.simps append_Cons)
      qed
    qed
    show ?thesis
    proof (cases "tr_end t")
      case Raises
      then have "execute a c ((t # ts) @ rest) s =
          (case q of Inl e \<Rightarrow> Some (e, s2)
           | Inr again \<Rightarrow> if again then execute a c (ts @ rest) s2 else Some (ExecRaises, s2))" for rest
        by (cases q) (simp_all add: w' r)
      from retry [OF this] Raises show ?thesis by (simp add: gives_up_def)
    next
      case (Ends st)
      consider "st = InvocationFailed" "c" | "st = InvocationFailed" "\<not> c" | "st \<noteq> InvocationFailed" by blast
      then show ?thesis
      proof cases
        case 1
        then show ?thesis using w' Ends
          by (intro exI [of _ "(ExecReturns st, ?s)"]) (auto simp: settled_def gives_up_def)
      next
        case 2
        with Ends have "execute a c ((t # ts) @ rest) s =
            (case q of Inl e \<Rightarrow> Some (e, s2)
             | Inr again \<Rightarrow> if again then execute a c (ts @ rest) s2 else Some (ExecReturns st, s2))" for rest
          by (cases q) (simp_all add: w' r)
        from retry [OF this] Ends 2 show ?thesis by (simp add: gives_up_def)
      next
        case 3
        then show ?thesis using w' Ends
          by (intro exI [of _ "(ExecReturns st, invocation_ok a ?s)"])
            (auto simp: settled_def gives_up_def invocation_ok_def Let_def)
      qed
    qed
  qed
qed simp

text \<open>
  A worker nobody disturbs: the first try that does not fail decides, or the last one the
  budget allows.
\<close>

definition undisturbed :: "invocation_try \<Rightarrow> bool" where
  "undisturbed t \<longleftrightarrow> tr_before t = (\<lambda>s. s) \<and> tr_running t = (\<lambda>s. s) \<and> tr_backoff t = (\<lambda>s. s)
     \<and> tr_failed_heard t \<and> tr_running_heard t"

definition fails :: "bool \<Rightarrow> invocation_try \<Rightarrow> bool" where
  "fails continue_after_failure t \<longleftrightarrow>
     tr_end t = Raises \<or> tr_end t = Ends InvocationFailed \<and> \<not> continue_after_failure"

definition deciding_try :: "bool \<Rightarrow> invocation_try list \<Rightarrow> invocation_try" where
  "deciding_try continue_after_failure ts =
     (case dropWhile (fails continue_after_failure) ts of [] \<Rightarrow> last ts | t # _ \<Rightarrow> t)"

lemma recover_undisturbed:
  assumes "sup_states s a = Some (Some AgRunning)" "undisturbed t"
  shows "\<exists>s'. recover a t s = Some (Inr (budget_left a s \<noteq> 0), s')
    \<and> (budget_left a s \<noteq> 0 \<longrightarrow>
        sup_states s' a = Some (Some AgRunning) \<and> Suc (budget_left a s') = budget_left a s)"
proof -
  let ?go = "rp_on_failure (policy_of a s) \<and> sup_attempts s a + 1 \<le> rp_max_attempts (policy_of a s)"
  have "recover_wait a (tr_now t) (tr_recovering t) s = Some (recover_begin a (tr_now t) s)"
    using assms(1)
    by (simp add: recover_wait.simps [of a _ "tr_recovering t"] recover_begin_def Let_def set_state_def
        known_state_def)
  moreover have "budget_left a s \<noteq> 0 \<longleftrightarrow> ?go" by (auto simp: budget_left_def)
  ultimately show ?thesis
    using assms
    by (cases ?go) (auto simp: recover_def recover_begin_def Let_def set_state_def known_state_def recover_end_def
        undisturbed_def budget_left_def policy_of_def)
qed

lemma execute_undisturbed:
  assumes "sup_states s a = Some (Some AgRunning)" "list_all undisturbed ts" "length ts = Suc (budget_left a s)"
  shows "\<exists>r s'. execute a c ts s = Some (r, s') \<and> ends_of r = Some (tr_end (deciding_try c ts))"
  using assms
proof (induction ts arbitrary: s)
  case (Cons t ts)
  have t: "undisturbed t" using Cons.prems(2) by simp
  have w: "wait_running a (tr_waiting t) (tr_before t s) = Some (Inr (), s)"
    using Cons.prems(1) t
    by (simp add: wait_running.simps [of a "tr_waiting t"] wait_pass_def known_state_def undisturbed_def)
  show ?case
  proof (cases "fails c t")
    case False
    then show ?thesis using w t
      by (cases "tr_end t") (auto simp: fails_def deciding_try_def undisturbed_def Let_def)
  next
    case True
    obtain s' where r: "recover a t s = Some (Inr (budget_left a s \<noteq> 0), s')"
      "budget_left a s \<noteq> 0 \<longrightarrow>
         sup_states s' a = Some (Some AgRunning) \<and> Suc (budget_left a s') = budget_left a s"
      using recover_undisturbed [OF Cons.prems(1) t] by blast
    have e: "\<exists>e0. ends_of e0 = Some (tr_end t) \<and> execute a c (t # ts) s =
        (if budget_left a s \<noteq> 0 then execute a c ts s' else Some (e0, s'))"
      using True w t r(1)
      by (cases "tr_end t")
        (auto simp: fails_def undisturbed_def Let_def intro: exI [of _ ExecRaises] exI [of _ "ExecReturns InvocationFailed"])
    show ?thesis
    proof (cases ts)
      case Nil
      then show ?thesis using e True Cons.prems(3) by (auto simp: deciding_try_def)
    next
      case (Cons u us)
      have "\<exists>r s''. execute a c ts s' = Some (r, s'') \<and> ends_of r = Some (tr_end (deciding_try c ts))"
        by (rule Cons.IH) (use r(2) Cons.prems(2,3) Cons in auto)
      moreover have "deciding_try c (t # ts) = deciding_try c ts" using True Cons
        by (simp add: deciding_try_def del: dropWhile_eq_Nil_conv split: list.split)
      ultimately show ?thesis using e Cons Cons.prems(3) by auto
    qed
  qed
qed simp

section \<open>Properties\<close>

text \<open>C28. However the threads that start, pause, resume, stop and run agents interleave, the transitions of
  every agent, in the order in which they are made under the lock, form one chain that ends in
  its current state, and every restart among them is within the policy: the policy restarts on
  failure, the attempt is between one and its maximum, and the agent had just failed. The
  listener is called after the lock is released, so not always in this order, but with each
  transition at most once: every transition has been given to it, is about to be given by the
  thread that made it, or is lost because the listener raised before (or there is none).\<close>

theorem lifecycle_chain_and_restart_budget:
  assumes "sup_reachable policies listening x" and "map_of policies a = Some p"
  shows "linked None (transitions_of a (sys_made x))
    \<and> sup_states (sys_sup x) a = Some (final_state (transitions_of a (sys_made x)))
    \<and> (\<forall>t\<in>set (transitions_of a (sys_made x)). lt_state t = AgRestarting \<longrightarrow>
        rp_on_failure p \<and> 1 \<le> lt_attempt t \<and> lt_attempt t \<le> rp_max_attempts p
        \<and> lt_previous t = Some AgFailed)
    \<and> mset (sys_made x) =
        mset (sys_given x) + mset (concat (map pending (sys_threads x))) + mset (sys_lost x)"
proof -
  have i: "supervision_inv policies x" by (rule sup_reachable_inv [OF assms(1)])
  then have "\<forall>t\<in>set (sys_made x). restart_within_budget policies t" by (simp add: supervision_inv_def sup_inv_def)
  then have "\<forall>t\<in>set (transitions_of a (sys_made x)). lt_state t = AgRestarting \<longrightarrow>
      rp_on_failure p \<and> 1 \<le> lt_attempt t \<and> lt_attempt t \<le> rp_max_attempts p \<and> lt_previous t = Some AgFailed"
    using assms(2) by (auto simp: transitions_of_def restart_within_budget_def)
  then show ?thesis using i assms(2) unfolding supervision_inv_def sup_inv_def by simp
qed

text \<open>C26. The retry loop is bounded by the restart budget: if no other invocation of the agent succeeds
  meanwhile (which resets the count of failures) and every wait for a paused, starting or
  restarting agent ends, one try more than the restarts that are left is enough for
  \<open>execute\<close> to end, whatever else other threads do, with either flag and under either policy. Its
  result is that of one of the tries, unless the agent may not run or the listener raised; when
  it gives up on a failure the agent is not left running or restarting, and after a success the
  count of a running agent is reset. For a worker that nobody disturbs the result is that of
  the first try that does not fail, and of the last one if they all fail.\<close>

theorem execute_stays_within_budget:
  assumes "list_all (\<lambda>t. spared a t \<and> waits_end a t) ts" and "length ts = Suc (budget_left a s)"
  shows "\<exists>res. (\<forall>rest. execute a c (ts @ rest) s = Some res) \<and> settled a c ts res
    \<and> (sup_states s a = Some (Some AgRunning) \<and> list_all undisturbed ts \<longrightarrow>
        ends_of (fst res) = Some (tr_end (deciding_try c ts)))"
proof -
  obtain res where r: "\<And>rest. execute a c (ts @ rest) s = Some res" "settled a c ts res"
    using execute_bounded [OF assms(1), of s c] assms(2) by auto
  from r(1) [of "[]"] have "ends_of (fst res) = Some (tr_end (deciding_try c ts))"
    if "sup_states s a = Some (Some AgRunning)" "list_all undisturbed ts"
    using execute_undisturbed [OF that assms(2), of c] by auto
  with r show ?thesis by blast
qed

section \<open>Witnesses and other schedules\<close>

definition sample_policy :: restart_policy where
  "sample_policy = \<lparr>rp_on_failure = True, rp_max_attempts = 1, rp_backoff = ''1s''\<rparr>"

definition sample_system :: sup_system where
  "sample_system = new_supervision [(''a'', sample_policy)] True"

lemma sample_system_reachable: "sup_reachable [(''a'', sample_policy)] True sample_system"
  unfolding sample_system_def by (rule sr_new)

lemmas run_simps =
  sample_system_def new_supervision_def new_supervisor_def sample_policy_def call_work_def start_agent_def
  stop_agent_def pause_agent_def resume_agent_def retry_loop_def thread_work_def set_thread_def
  drop_thread_def set_state_def transition_from_def known_state_def wait_pass_def recover_begin_def
  policy_of_def after_invocation_def paused_agents_def unstopped_agents_def invocation_ok_def Let_def

text \<open>An agent is started; a worker executes an invocation that raises, and begins a restart.\<close>

definition start_and_fail :: "sup_action list" where
  "start_and_fail =
     [Call CallStart, Enter 0 0, Give 0, DoneGiving 0, Enter 0 0, Give 0, DoneGiving 0,
      Call (CallExecute ''a'' False), Enter 1 0, InvocationEnds 1 Raises, Enter 1 0]"

lemma sample_restarting:
  "\<exists>x. sup_run start_and_fail sample_system = Some x
     \<and> map lt_state (sys_made x) = [AgStarting, AgRunning, AgFailed, AgRestarting]
     \<and> map lt_state (sys_given x) = [AgStarting, AgRunning]"
  by (simp add: start_and_fail_def run_simps)

theorem lifecycle_chain_and_restart_budget_witness:
  "\<exists>x :: sup_system. map lt_state (sys_made x) = [AgStarting, AgRunning, AgFailed, AgRestarting]
     \<and> linked None (transitions_of ''a'' (sys_made x))
     \<and> sup_states (sys_sup x) ''a'' = Some (final_state (transitions_of ''a'' (sys_made x)))"
proof -
  obtain x where x: "sup_run start_and_fail sample_system = Some x"
    "map lt_state (sys_made x) = [AgStarting, AgRunning, AgFailed, AgRestarting]"
    using sample_restarting by (elim exE conjE)
  have "sup_reachable [(''a'', sample_policy)] True x"
    by (rule sup_run_reachable [OF x(1) sample_system_reachable])
  from lifecycle_chain_and_restart_budget [OF this, of "''a''" sample_policy]
  have l: "linked None (transitions_of ''a'' (sys_made x))"
    "sup_states (sys_sup x) ''a'' = Some (final_state (transitions_of ''a'' (sys_made x)))"
    by simp_all
  show ?thesis by (rule exI [of _ x]) (use x(2) l in \<open>simp only: simp_thms\<close>)
qed

text \<open>
  Two threads that pause and resume an agent: the second one is first to call the listener,
  which is given the two transitions in the other order than they were made.
\<close>

lemma given_out_of_order:
  "\<exists>x. sup_run
      [Call CallStart, Enter 0 0, Give 0, DoneGiving 0, Enter 0 0, Give 0, DoneGiving 0,
       Call (CallPause ''a''), Call (CallResume ''a''), Enter 1 0, Enter 2 0, Give 2, Give 1]
      sample_system = Some x
     \<and> map lt_state (sys_made x) = [AgStarting, AgRunning, AgPaused, AgRunning]
     \<and> map lt_state (sys_given x) = [AgStarting, AgRunning, AgRunning, AgPaused]"
  by (simp add: run_simps)

text \<open>A stop does not hold against a restart that sleeps through its backoff:
  \<open>recover_end\<close> does not look at the state again, so there is an interleaving in which an
  agent is stopped while its restart waits and is running afterwards.
\<close>

lemma restart_after_stop:
  "\<exists>x. sup_run (start_and_fail @
      [Give 1, Give 1, DoneGiving 1, Call CallStop, Enter 2 0, Enter 2 0, Give 2, DoneGiving 2, Enter 2 0,
       Give 2, DoneGiving 2, Enter 1 0]) sample_system = Some x
     \<and> sys_threads x ! 2 = []
     \<and> map lt_state (sys_made x) =
         [AgStarting, AgRunning, AgFailed, AgRestarting, AgStopping, AgStopped, AgRunning]"
  by (simp add: start_and_fail_def run_simps)

text \<open>A try with another thread that lets the agent run whenever it is waited for.\<close>

definition let_run :: "supervisor \<Rightarrow> supervisor" where
  "let_run s = s\<lparr>sup_states := (sup_states s)(''a'' := Some (Some AgRunning))\<rparr>"

definition sample_try :: "invocation_end \<Rightarrow> invocation_try" where
  "sample_try e = \<lparr>tr_before = (\<lambda>s. s), tr_waiting = [let_run], tr_running = (\<lambda>s. s), tr_end = e,
     tr_recovering = [let_run], tr_failed_heard = True, tr_backoff = (\<lambda>s. s), tr_running_heard = True,
     tr_now = 0\<rparr>"

definition sample_supervisor :: supervisor where
  "sample_supervisor =
     (new_supervisor [(''a'', sample_policy)])\<lparr>sup_states := [''a'' \<mapsto> Some AgPaused]\<rparr>"

lemma sample_try_spared: "spared ''a'' (sample_try e)"
  by (simp add: spared_def spares_def sample_try_def let_run_def)

lemma sample_try_waits_end: "waits_end ''a'' (sample_try e)"
proof -
  have p: "wait_pass ''a'' (let_run s) = Inr True" for s
    by (simp add: wait_pass_def known_state_def let_run_def)
  have "wait_running ''a'' [let_run] s \<noteq> None" for s
    by (simp add: wait_running.simps [of _ "[let_run]"] wait_running.simps [of _ "[]"] p
        split: sum.splits bool.splits)
  moreover have "\<exists>r. recover_begin ''a'' now (let_run s) = r \<and> (\<forall>ts u. r \<noteq> Inr (RecoverWaits, ts, u))" for now s
    by (auto simp: recover_begin_def let_run_def Let_def bind_res_Inr_iff split: if_splits prod.splits)
  then have "recover_wait ''a'' now [] (let_run s) \<noteq> None" for now s
    by (subst recover_wait.simps) (force split: sum.splits recovery.splits)
  then have "recover_wait ''a'' now [let_run] s \<noteq> None" for now s
  proof (cases "\<exists>ts u. recover_begin ''a'' now s = Inr (RecoverWaits, ts, u)")
    case True
    then obtain ts u where r: "recover_begin ''a'' now s = Inr (RecoverWaits, ts, u)" by blast
    then have "u = s" by (cases rule: recover_begin_cases) simp_all
    with r \<open>recover_wait ''a'' now [] (let_run s) \<noteq> None\<close> show ?thesis
      by (subst recover_wait.simps) simp
  next
    case False
    then show ?thesis by (subst recover_wait.simps) (auto split: sum.splits recovery.splits)
  qed
  ultimately show ?thesis by (simp add: waits_end_def sample_try_def)
qed

theorem execute_stays_within_budget_witness:
  "\<exists>res. execute ''a'' False [sample_try Raises, sample_try (Ends InvocationSucceeded)] sample_supervisor = Some res
     \<and> settled ''a'' False [sample_try Raises, sample_try (Ends InvocationSucceeded)] res"
proof -
  have "budget_left ''a'' sample_supervisor = 1"
    by (simp add: budget_left_def policy_of_def sample_supervisor_def new_supervisor_def sample_policy_def)
  then obtain res where "\<And>rest. execute ''a'' False
      ([sample_try Raises, sample_try (Ends InvocationSucceeded)] @ rest) sample_supervisor = Some res"
    and "settled ''a'' False [sample_try Raises, sample_try (Ends InvocationSucceeded)] res"
    using execute_stays_within_budget [of "''a''" "[sample_try Raises, sample_try (Ends InvocationSucceeded)]"
        sample_supervisor False]
    by (auto simp: sample_try_spared sample_try_waits_end simp del: execute.simps)
  from this(1) [of "[]"] this(2) show ?thesis by (auto simp del: execute.simps)
qed

end
