(* ===== verification/Catalog.thy ===== *)
theory Catalog
  imports Specification Arbitration Graph
begin

text \<open>
  Execution definitions and provider plugins: \<open>ExecutionCatalog\<close> of
  \<open>mininet_ai/sdk/catalog.py\<close> over the agents of a deployment plan
  (\<open>mininet_ai/compiler/models.py\<close>), and \<open>ProviderRegistry\<close> of
  \<open>mininet_ai/plugins/registry.py\<close>.

  The schema check of a plan's snapshot is pydantic's; it is the argument \<open>snapshot\<close> of
  \<open>new_catalog\<close>, \<open>None\<close> when it raises. A plugin's factory is a function that may raise.
\<close>

section \<open>Exceptions of the runtime\<close>

text \<open>
  \<open>AgentRuntimeError\<close> with its code and message, \<open>CapabilityProviderError\<close>,
  \<open>TimeoutError\<close>, and any other \<open>Exception\<close> with its \<open>code\<close> attribute when that is a
  non-empty string.
\<close>

datatype raised =
    RuntimeRaised string string
  | ProviderRaised capability_error
  | TimedOut
  | OtherRaised "string option"

definition agent_error :: "string \<Rightarrow> raised" where
  "agent_error code = RuntimeRaised code ''message''"

text \<open>\<open>getattr(error, "code", None)\<close> when it is a non-empty string.\<close>

fun raised_code :: "raised \<Rightarrow> string option" where
  "raised_code (RuntimeRaised c _) = (if c = [] then None else Some c)"
| "raised_code (ProviderRaised e) = (if cerr_code e = [] then None else Some (cerr_code e))"
| "raised_code TimedOut = None"
| "raised_code (OtherRaised c) = c"

section \<open>Plan\<close>

record attachment =
  at_layer :: attachment_layer
  at_custom_layer :: "string option"
  at_targets :: "string list"
  at_target_kind :: resource_kind
  at_runtime :: string

record agent_instance =
  ai_id :: agent_id
  ai_deployment :: string
  ai_blueprint :: string
  ai_attachment :: attachment
  ai_observes :: "string list"
  ai_capabilities :: "string list"
  ai_privileges :: "string list"
  ai_priority :: int
  ai_triggers :: "trigger list"
  ai_observation_policies :: "observation_policy list"
  ai_memory :: memory_configuration
  ai_execution :: execution_configuration

record plan_policy =
  pp_conflicting :: policy
  pp_postcondition_check :: bool

record resource_limits =
  rl_instances :: int
  rl_invocations :: int
  rl_queued :: int

definition new_resource_limits :: "resource_limits \<Rightarrow> spec_error + resource_limits" where
  "new_resource_limits l =
     (if rl_instances l < 1 \<or> rl_invocations l < 1 \<or> rl_queued l < 1 then Inl SpecField else Inr l)"

section \<open>Catalog\<close>

text \<open>An entry of a snapshot's list is a definition or still a reference by name.\<close>

datatype 'a entry = Resolved 'a | Reference string

record snapshot =
  sn_blueprints :: "blueprint entry list"
  sn_capabilities :: "capability entry list"

record execution_definition =
  xd_instance :: agent_instance
  xd_blueprint :: blueprint
  xd_capabilities :: "capability list"
  xd_policy :: plan_policy

record catalog =
  cat_digest :: string
  cat_agents :: "(agent_id \<times> execution_definition) list"

definition resolved_definitions :: "'a entry list \<Rightarrow> raised + 'a list" where
  "resolved_definitions items =
     map_res (\<lambda>i. case i of Resolved x \<Rightarrow> Inr x
                 | Reference _ \<Rightarrow> Inl (agent_error ''agent.catalog.unresolved-reference'')) items"

definition unique_step ::
  "('a \<Rightarrow> string) \<Rightarrow> 'a \<Rightarrow> (string \<times> 'a) list \<Rightarrow> raised + (string \<times> 'a) list" where
  "unique_step nm x seen =
     (if map_of seen (nm x) \<noteq> None then Inl (agent_error ''agent.catalog.duplicate'')
      else Inr (AList.update (nm x) x seen))"

definition unique :: "('a \<Rightarrow> string) \<Rightarrow> 'a list \<Rightarrow> raised + (string \<times> 'a) list" where
  "unique nm items = fold_res (unique_step nm) items []"

definition no_model_reference :: "blueprint \<Rightarrow> raised + unit" where
  "no_model_reference b =
     (case bp_model b of
        Some (ModelReferenced _) \<Rightarrow> Inl (agent_error ''agent.catalog.unresolved-reference'')
      | _ \<Rightarrow> Inr ())"

definition resolve_instance ::
  "plan_policy \<Rightarrow> (string \<times> blueprint) list \<Rightarrow> (string \<times> capability) list
   \<Rightarrow> string \<times> agent_instance \<Rightarrow> raised + string \<times> execution_definition" where
  "resolve_instance pol blueprints capabilities = (\<lambda>(i, a).
     case map_of blueprints (ai_blueprint a) of
       None \<Rightarrow> Inl (agent_error ''agent.catalog.blueprint-missing'')
     | Some b \<Rightarrow>
         if filter (\<lambda>n. map_of capabilities n = None) (ai_capabilities a) \<noteq> []
         then Inl (agent_error ''agent.catalog.capability-missing'')
         else Inr (i, \<lparr>xd_instance = a, xd_blueprint = b,
                       xd_capabilities = map (\<lambda>n. the (map_of capabilities n)) (ai_capabilities a),
                       xd_policy = pol\<rparr>))"

text \<open>\<open>ExecutionCatalog.__init__\<close>.\<close>

definition new_catalog ::
  "string \<Rightarrow> agent_instance list \<Rightarrow> plan_policy \<Rightarrow> snapshot option \<Rightarrow> raised + catalog" where
  "new_catalog digest agents pol snapshot =
     (case snapshot of
        None \<Rightarrow> Inl (agent_error ''agent.catalog.invalid-snapshot'')
      | Some sn \<Rightarrow>
          bind_res (resolved_definitions (sn_blueprints sn)) (\<lambda>bs.
          bind_res (map_res no_model_reference bs) (\<lambda>_.
          bind_res (resolved_definitions (sn_capabilities sn)) (\<lambda>cs.
          bind_res (unique bp_name bs) (\<lambda>blueprints.
          bind_res (unique cap_name cs) (\<lambda>capabilities.
          bind_res (unique ai_id agents) (\<lambda>instances.
          bind_res (map_res (resolve_instance pol blueprints capabilities) instances) (\<lambda>resolved.
            Inr \<lparr>cat_digest = digest, cat_agents = resolved\<rparr>))))))))"

definition catalog_agent_ids :: "catalog \<Rightarrow> agent_id list" where
  "catalog_agent_ids c = sort (map fst (cat_agents c))"

definition catalog_resolve :: "catalog \<Rightarrow> agent_id \<Rightarrow> raised + execution_definition" where
  "catalog_resolve c i =
     (case map_of (cat_agents c) i of
        None \<Rightarrow> Inl (agent_error ''agent.instance.unknown'')
      | Some d \<Rightarrow> Inr d)"

section \<open>The lookups\<close>

lemma unique_run:
  assumes "distinct (map nm seen)" "al = map (\<lambda>x. (nm x, x)) seen"
  shows "fold_res (unique_step nm) items al =
    (if distinct (map nm (seen @ items)) then Inr (map (\<lambda>x. (nm x, x)) (seen @ items))
     else Inl (agent_error ''agent.catalog.duplicate''))"
  using assms
proof (induction items arbitrary: seen al)
  case Nil
  then show ?case by simp
next
  case (Cons x xs)
  show ?case
  proof (cases "nm x \<in> set (map nm seen)")
    case True
    then have "nm x \<in> fst ` set al" by (simp add: Cons.prems(2) image_image)
    then have "map_of al (nm x) \<noteq> None" by (simp add: map_of_eq_None_iff)
    moreover have "\<not> distinct (map nm (seen @ x # xs))" using True by auto
    ultimately show ?thesis by (simp add: unique_step_def)
  next
    case False
    then have free: "map_of al (nm x) = None" using Cons.prems(2) by (auto simp: map_of_eq_None_iff)
    have "fold_res (unique_step nm) (x # xs) al =
        fold_res (unique_step nm) xs (map (\<lambda>x. (nm x, x)) (seen @ [x]))"
      using free Cons.prems(2) by (simp add: unique_step_def update_fresh)
    moreover have "distinct (map nm (seen @ [x]))" using False Cons.prems(1) by auto
    ultimately show ?thesis using Cons.IH [of "seen @ [x]" "map (\<lambda>x. (nm x, x)) (seen @ [x])"] by simp
  qed
qed

lemma unique_eq:
  "unique nm items =
    (if distinct (map nm items) then Inr (map (\<lambda>x. (nm x, x)) items)
     else Inl (agent_error ''agent.catalog.duplicate''))"
  using unique_run [of nm "[]" "[]" items] by (simp add: unique_def)

lemma unique_lookup:
  assumes "unique nm items = Inr al" "x \<in> set items"
  shows "map_of al (nm x) = Some x"
proof -
  have "distinct (map nm items)" "al = map (\<lambda>x. (nm x, x)) items"
    using assms(1) by (auto simp: unique_eq split: if_splits)
  with assms(2) show ?thesis by (auto simp: map_of_eq_Some_iff o_def)
qed

lemma unique_lookup_iff:
  assumes "unique nm items = Inr al"
  shows "map_of al n = Some x \<longleftrightarrow> x \<in> set items \<and> nm x = n"
proof -
  have "distinct (map nm items)" "al = map (\<lambda>x. (nm x, x)) items"
    using assms by (auto simp: unique_eq split: if_splits)
  then show ?thesis by (auto simp: map_of_eq_Some_iff o_def)
qed

text \<open>What \<open>resolve_instance\<close> has put together for an agent.\<close>

definition resolves_to ::
  "plan_policy \<Rightarrow> blueprint list \<Rightarrow> capability list \<Rightarrow> agent_instance \<Rightarrow> execution_definition \<Rightarrow> bool" where
  "resolves_to pol bs cs a d \<longleftrightarrow>
     xd_instance d = a \<and> xd_policy d = pol
     \<and> xd_blueprint d \<in> set bs \<and> bp_name (xd_blueprint d) = ai_blueprint a
     \<and> map cap_name (xd_capabilities d) = ai_capabilities a \<and> set (xd_capabilities d) \<subseteq> set cs"

lemma resolve_instance_Inr:
  assumes "resolve_instance pol blueprints capabilities (i, a) = Inr r"
    and "unique bp_name bs = Inr blueprints" "unique cap_name cs = Inr capabilities"
  shows "fst r = i \<and> resolves_to pol bs cs a (snd r)"
proof -
  obtain b where b: "map_of blueprints (ai_blueprint a) = Some b"
    and none: "filter (\<lambda>n. map_of capabilities n = None) (ai_capabilities a) = []"
    and r: "r = (i, \<lparr>xd_instance = a, xd_blueprint = b,
      xd_capabilities = map (\<lambda>n. the (map_of capabilities n)) (ai_capabilities a), xd_policy = pol\<rparr>)"
    using assms(1) by (auto simp: resolve_instance_def split: option.splits if_splits)
  have known: "\<exists>c. map_of capabilities n = Some c \<and> c \<in> set cs \<and> cap_name c = n"
    if "n \<in> set (ai_capabilities a)" for n
    using none that unique_lookup_iff [OF assms(3), of n] by (auto simp: filter_empty_conv)
  have "map cap_name (map (\<lambda>n. the (map_of capabilities n)) (ai_capabilities a)) = ai_capabilities a"
    using known by (fastforce intro: map_idI)
  moreover have "set (map (\<lambda>n. the (map_of capabilities n)) (ai_capabilities a)) \<subseteq> set cs"
    using known by fastforce
  ultimately show ?thesis
    using b unique_lookup_iff [OF assms(2)] by (simp add: r resolves_to_def)
qed

lemma new_catalog_Inr:
  assumes "new_catalog digest agents pol (Some sn) = Inr c"
  obtains bs cs where
    "resolved_definitions (sn_blueprints sn) = Inr bs"
    "resolved_definitions (sn_capabilities sn) = Inr cs"
    "distinct (map ai_id agents)"
    "list_all2 (\<lambda>a r. fst r = ai_id a \<and> resolves_to pol bs cs a (snd r)) agents (cat_agents c)"
    "cat_digest c = digest"
proof -
  obtain bs cs blueprints capabilities instances resolved where
    bs: "resolved_definitions (sn_blueprints sn) = Inr bs" and
    cs: "resolved_definitions (sn_capabilities sn) = Inr cs" and
    u: "unique bp_name bs = Inr blueprints" "unique cap_name cs = Inr capabilities"
       "unique ai_id agents = Inr instances" and
    r: "map_res (resolve_instance pol blueprints capabilities) instances = Inr resolved" and
    c: "c = \<lparr>cat_digest = digest, cat_agents = resolved\<rparr>"
    using assms unfolding new_catalog_def by (auto simp: bind_res_Inr_iff)
  have i: "distinct (map ai_id agents)" "instances = map (\<lambda>a. (ai_id a, a)) agents"
    using u(3) by (auto simp: unique_eq split: if_splits)
  have "list_all2 (\<lambda>a r. resolve_instance pol blueprints capabilities (ai_id a, a) = Inr r) agents resolved"
    using r by (simp add: map_res_Inr_iff i(2) list_all2_map1)
  then have "list_all2 (\<lambda>a r. fst r = ai_id a \<and> resolves_to pol bs cs a (snd r)) agents resolved"
    by (rule list_all2_mono) (use resolve_instance_Inr u(1,2) in blast)
  with bs cs i(1) show thesis by (intro that) (simp_all add: c)
qed

lemma catalog_entry:
  assumes "list_all2 (\<lambda>a r. fst r = ai_id a \<and> resolves_to pol bs cs a (snd r)) agents al"
    and "distinct (map ai_id agents)"
  shows "map fst al = map ai_id agents
    \<and> (a \<in> set agents \<longrightarrow> (\<exists>d. map_of al (ai_id a) = Some d \<and> resolves_to pol bs cs a d))"
  using assms
proof (induction agents al rule: list_all2_induct)
  case Nil
  then show ?case by simp
next
  case (Cons b bs' r rs)
  obtain i d where r: "r = (i, d)" by (cases r)
  from Cons show ?case by (auto simp: r image_iff)
qed

text \<open>A catalog that was built lists exactly the agents of the plan, and resolving an agent
  of the plan gives its instance with the blueprint and the capabilities it names, all taken
  from the snapshot; any other id is refused as unknown.\<close>

lemma catalog_lookup_is_the_plan:
  assumes "new_catalog digest agents pol (Some sn) = Inr c"
  shows "catalog_agent_ids c = sort (map ai_id agents)
    \<and> (\<exists>bs cs. resolved_definitions (sn_blueprints sn) = Inr bs
        \<and> resolved_definitions (sn_capabilities sn) = Inr cs
        \<and> (\<forall>a\<in>set agents. \<exists>d. catalog_resolve c (ai_id a) = Inr d \<and> resolves_to pol bs cs a d))
    \<and> (\<forall>i. i \<notin> ai_id ` set agents \<longrightarrow>
        catalog_resolve c i = Inl (agent_error ''agent.instance.unknown''))"
proof -
  obtain bs cs where d: "resolved_definitions (sn_blueprints sn) = Inr bs"
      "resolved_definitions (sn_capabilities sn) = Inr cs" "distinct (map ai_id agents)"
    and l: "list_all2 (\<lambda>a r. fst r = ai_id a \<and> resolves_to pol bs cs a (snd r)) agents (cat_agents c)"
    using assms by (rule new_catalog_Inr)
  note e = catalog_entry [OF l d(3)]
  have ids: "map fst (cat_agents c) = map ai_id agents" using e by simp
  have "catalog_agent_ids c = sort (map ai_id agents)" by (simp add: catalog_agent_ids_def ids)
  moreover have "\<forall>a\<in>set agents. \<exists>d. catalog_resolve c (ai_id a) = Inr d \<and> resolves_to pol bs cs a d"
    using e by (fastforce simp: catalog_resolve_def)
  moreover have "map_of (cat_agents c) i = None" if "i \<notin> ai_id ` set agents" for i
    using that arg_cong [OF ids, of set] by (auto simp: map_of_eq_None_iff)
  ultimately show ?thesis using d(1,2) by (auto simp: catalog_resolve_def)
qed

text \<open>A plan with one agent, for the concrete runs.\<close>

definition sample_blueprint :: blueprint where
  "sample_blueprint = \<lparr>bp_api_version = ''mininet-ai/v1alpha4'', bp_name = ''guard'',
     bp_python = False, bp_entrypoint = None, bp_model = Some (ModelConfigured ''ollama''),
     bp_reasoning = \<lparr>rc_instructions = None, rc_output_schema = None, rc_timeout = None\<rparr>,
     bp_memory = \<lparr>mem_local = None, mem_conversation = None, mem_learned = None, mem_shared = None\<rparr>,
     bp_phases = [], bp_execution = None\<rparr>"

definition sample_postcondition :: postcondition where
  "sample_postcondition = \<lparr>pc_observation = ''link'', pc_path = ''state.0'', pc_operator = CmpEq,
     pc_expected = JStr ''up'', pc_timeout = ''1s'', pc_interval = ''500ms''\<rparr>"

definition sample_capability :: capability where
  "sample_capability = \<lparr>cap_name = ''link.enable'', cap_targets = [LinkKind], cap_layers = [''data''],
     cap_effects = [''link''], cap_input_schema = [], cap_output_schema = [], cap_reversible = True,
     cap_provider = Some ''substrate'', cap_postconditions = [sample_postcondition],
     cap_rollback = Some ''10s''\<rparr>"

definition sample_instance :: agent_instance where
  "sample_instance = \<lparr>ai_id = ''a1'', ai_deployment = ''d'', ai_blueprint = ''guard'',
     ai_attachment = \<lparr>at_layer = DataLayer, at_custom_layer = None, at_targets = [''l1''],
       at_target_kind = LinkKind, at_runtime = ''fake''\<rparr>,
     ai_observes = [''link''], ai_capabilities = [''link.enable''], ai_privileges = [''link''],
     ai_priority = 0, ai_triggers = [ManualTrigger ''manual''], ai_observation_policies = [],
     ai_memory = \<lparr>mem_local = None, mem_conversation = None, mem_learned = None, mem_shared = None\<rparr>,
     ai_execution = \<lparr>ec_queue_capacity = 64, ec_max_concurrency = 1, ec_overflow = RejectNew,
       ec_action_timeout = ''30s'',
       ec_restart = \<lparr>rp_on_failure = False, rp_max_attempts = 0, rp_backoff = ''1s''\<rparr>\<rparr>\<rparr>"

definition sample_policy_check :: plan_policy where
  "sample_policy_check = \<lparr>pp_conflicting = RejectPolicy, pp_postcondition_check = True\<rparr>"

definition sample_definition :: execution_definition where
  "sample_definition = \<lparr>xd_instance = sample_instance, xd_blueprint = sample_blueprint,
     xd_capabilities = [sample_capability], xd_policy = sample_policy_check\<rparr>"

definition sample_catalog :: catalog where
  "sample_catalog = \<lparr>cat_digest = ''d'', cat_agents = [(''a1'', sample_definition)]\<rparr>"

definition sample_snapshot :: snapshot where
  "sample_snapshot = \<lparr>sn_blueprints = [Resolved sample_blueprint],
     sn_capabilities = [Resolved sample_capability]\<rparr>"

lemma sample_catalog_built:
  "new_catalog ''d'' [sample_instance] sample_policy_check (Some sample_snapshot) = Inr sample_catalog"
  by code_simp

text \<open>The definitions a snapshot resolves to, when every entry is one.\<close>

definition entries :: "'a entry list \<Rightarrow> 'a list" where
  "entries items = concat (map (\<lambda>i. case i of Resolved x \<Rightarrow> [x] | Reference _ \<Rightarrow> []) items)"

definition entry_resolved :: "'a entry \<Rightarrow> bool" where
  "entry_resolved i = (case i of Resolved _ \<Rightarrow> True | Reference _ \<Rightarrow> False)"

lemma resolved_definitions_Inr:
  "resolved_definitions items = Inr xs \<longleftrightarrow> list_all entry_resolved items \<and> xs = entries items"
  unfolding resolved_definitions_def entries_def entry_resolved_def map_res_Inr_iff
  by (induction items arbitrary: xs) (auto simp: list_all2_Cons1 split: entry.splits)

lemma no_model_reference_Inr:
  "no_model_reference b = Inr u \<longleftrightarrow> \<not> (\<exists>n. bp_model b = Some (ModelReferenced n))"
  by (auto simp: no_model_reference_def split: option.splits model_choice.splits)

lemma resolve_instance_returns:
  assumes "unique bp_name bs = Inr blueprints" "unique cap_name cs = Inr capabilities"
  shows "(\<exists>r. resolve_instance pol blueprints capabilities (i, a) = Inr r) \<longleftrightarrow>
    ai_blueprint a \<in> bp_name ` set bs \<and> set (ai_capabilities a) \<subseteq> cap_name ` set cs"
proof -
  have b: "map_of blueprints n \<noteq> None \<longleftrightarrow> n \<in> bp_name ` set bs" for n
    using unique_lookup_iff [OF assms(1), of n] by force
  have c: "map_of capabilities n \<noteq> None \<longleftrightarrow> n \<in> cap_name ` set cs" for n
    using unique_lookup_iff [OF assms(2), of n] by force
  have "(\<exists>r. resolve_instance pol blueprints capabilities (i, a) = Inr r) \<longleftrightarrow>
      map_of blueprints (ai_blueprint a) \<noteq> None
      \<and> (\<forall>n\<in>set (ai_capabilities a). map_of capabilities n \<noteq> None)"
    by (auto simp: resolve_instance_def filter_empty_conv split: option.splits)
  then show ?thesis unfolding b c by auto
qed

lemma new_catalog_returns_iff:
  "(\<exists>c. new_catalog digest agents pol snapshot = Inr c) \<longleftrightarrow>
    (\<exists>sn. snapshot = Some sn
      \<and> list_all entry_resolved (sn_blueprints sn) \<and> list_all entry_resolved (sn_capabilities sn)
      \<and> \<not> (\<exists>b\<in>set (entries (sn_blueprints sn)). \<exists>n. bp_model b = Some (ModelReferenced n))
      \<and> distinct (map bp_name (entries (sn_blueprints sn)))
      \<and> distinct (map cap_name (entries (sn_capabilities sn)))
      \<and> distinct (map ai_id agents)
      \<and> ai_blueprint ` set agents \<subseteq> bp_name ` set (entries (sn_blueprints sn))
      \<and> \<Union> (set ` ai_capabilities ` set agents) \<subseteq> cap_name ` set (entries (sn_capabilities sn)))"
proof (cases snapshot)
  case None
  then show ?thesis by (simp add: new_catalog_def)
next
  case (Some sn)
  let ?bs = "entries (sn_blueprints sn)" and ?cs = "entries (sn_capabilities sn)"
  have models: "(\<exists>u. map_res no_model_reference ?bs = Inr u) \<longleftrightarrow>
      \<not> (\<exists>b\<in>set ?bs. \<exists>n. bp_model b = Some (ModelReferenced n))"
    by (simp add: map_res_returns_iff no_model_reference_Inr)
  have agents: "(\<exists>rs. map_res (resolve_instance pol bl ca) (map (\<lambda>a. (ai_id a, a)) agents) = Inr rs) \<longleftrightarrow>
      ai_blueprint ` set agents \<subseteq> bp_name ` set ?bs
      \<and> \<Union> (set ` ai_capabilities ` set agents) \<subseteq> cap_name ` set ?cs"
    if "unique bp_name ?bs = Inr bl" "unique cap_name ?cs = Inr ca" for bl ca
    unfolding map_res_returns_iff using resolve_instance_returns [OF that] by auto
  show ?thesis
  proof (cases "list_all entry_resolved (sn_blueprints sn) \<and> list_all entry_resolved (sn_capabilities sn)
      \<and> distinct (map bp_name ?bs) \<and> distinct (map cap_name ?cs) \<and> distinct (map ai_id agents)")
    case True
    then obtain bl ca where u: "unique bp_name ?bs = Inr bl" "unique cap_name ?cs = Inr ca"
      by (simp add: unique_eq)
    have "(\<exists>c. new_catalog digest agents pol snapshot = Inr c) \<longleftrightarrow>
        (\<exists>us. map_res no_model_reference ?bs = Inr us)
        \<and> (\<exists>rs. map_res (resolve_instance pol bl ca) (map (\<lambda>a. (ai_id a, a)) agents) = Inr rs)"
      using True by (simp add: new_catalog_def Some bind_res_Inr_iff resolved_definitions_Inr u
          unique_eq [of ai_id] del: map_res.simps)
    then show ?thesis unfolding models agents [OF u] using True by (simp add: Some)
  next
    case False
    then have "\<not> (\<exists>c. new_catalog digest agents pol snapshot = Inr c)"
      by (auto simp: new_catalog_def Some bind_res_Inr_iff resolved_definitions_Inr unique_eq
          simp del: map_res.simps split: if_splits)
    with False show ?thesis unfolding Some by blast
  qed
qed

text \<open>A catalog is refused exactly when the snapshot is invalid, has an unresolved blueprint,
  model or capability reference or a repeated name, or an agent that is listed twice or names a
  blueprint or a capability the snapshot does not define.\<close>

lemma catalog_accepts_iff:
  "(\<exists>c. new_catalog digest agents pol snapshot = Inr c) \<longleftrightarrow>
    (\<exists>sn. snapshot = Some sn
      \<and> list_all entry_resolved (sn_blueprints sn) \<and> list_all entry_resolved (sn_capabilities sn)
      \<and> \<not> (\<exists>b\<in>set (entries (sn_blueprints sn)). \<exists>n. bp_model b = Some (ModelReferenced n))
      \<and> distinct (map bp_name (entries (sn_blueprints sn)))
      \<and> distinct (map cap_name (entries (sn_capabilities sn)))
      \<and> distinct (map ai_id agents)
      \<and> ai_blueprint ` set agents \<subseteq> bp_name ` set (entries (sn_blueprints sn))
      \<and> \<Union> (set ` ai_capabilities ` set agents) \<subseteq> cap_name ` set (entries (sn_capabilities sn)))"
  by (rule new_catalog_returns_iff)

end
