(* ===== verification/Registry.thy ===== *)
theory Registry
  imports Catalog "HOL-Library.Product_Lexorder"
begin

text \<open>
  The registries of providers, drivers and runtimes (\<open>mininet_ai/plugins/registry.py\<close>,
  \<open>mininet_ai/substrates/registry.py\<close>, \<open>mininet_ai/substrates/runtime_registry.py\<close>) and the
  discovery of installed plugins (\<open>mininet_ai/plugins/discovery.py\<close>).

  A factory is a function that may raise; what it makes is an offered object: the object with
  the answers to the \<open>isinstance\<close> checks and the fields the registries read. A registry is
  its dictionary, and \<open>_clone\<close> and \<open>_replace\<close> are the copies that values are. The locale
  \<open>name_table\<close> is the contract that the three registries share.
\<close>

section \<open>Provider registries\<close>

definition agent_contract_version :: string where
  "agent_contract_version = ''mininet-ai/agent-runtime/v1alpha4''"

datatype provider_kind = AgentKind | CapabilityKind | ModelKind

record 'p offered =
  of_object :: 'p
  of_protocol :: bool
  of_version :: string

text \<open>\<open>ProviderPlugin\<close>: the kind when it is a \<open>ProviderKind\<close>, the factory when it is callable.\<close>

record ('c, 'p) plugin =
  pl_kind :: "provider_kind option"
  pl_version :: string
  pl_factory :: "('c \<Rightarrow> raised + 'p offered) option"

datatype ('c, 'p) exported = Descriptor "('c, 'p) plugin" | NotDescriptor

record ('c, 'p) provider_registry =
  rg_kind :: provider_kind
  rg_plugins :: "(string \<times> ('c, 'p) plugin) list"

definition new_registry :: "provider_kind \<Rightarrow> ('c, 'p) provider_registry" where
  "new_registry k = \<lparr>rg_kind = k, rg_plugins = []\<rparr>"

definition registry_names :: "('c, 'p) provider_registry \<Rightarrow> string list" where
  "registry_names r = sort (map fst (rg_plugins r))"

text \<open>\<open>_validate\<close>, which gives back the checked descriptor.\<close>

definition validate_plugin ::
  "string \<Rightarrow> ('c, 'p) exported \<Rightarrow> ('c, 'p) provider_registry \<Rightarrow> raised + ('c, 'p) plugin" where
  "validate_plugin name d r =
     (if 128 < length name \<or> \<not> name_pattern_ok name then Inl (agent_error ''plugin.name.invalid'')
      else if map_of (rg_plugins r) name \<noteq> None then Inl (agent_error ''plugin.provider.duplicate'')
      else case d of
        NotDescriptor \<Rightarrow> Inl (agent_error ''plugin.descriptor.invalid'')
      | Descriptor p \<Rightarrow>
          (case pl_kind p of
             None \<Rightarrow> Inl (agent_error ''plugin.descriptor.invalid'')
           | Some k \<Rightarrow>
               if k \<noteq> rg_kind r then Inl (agent_error ''plugin.kind.mismatch'')
               else if pl_version p \<noteq> agent_contract_version
               then Inl (agent_error ''plugin.version.unsupported'')
               else if pl_factory p = None then Inl (agent_error ''plugin.factory.invalid'')
               else Inr p))"

definition register_plugin ::
  "string \<Rightarrow> ('c, 'p) exported \<Rightarrow> ('c, 'p) provider_registry
   \<Rightarrow> raised + ('c, 'p) provider_registry" where
  "register_plugin name d r =
     bind_res (validate_plugin name d r) (\<lambda>p.
       Inr (r\<lparr>rg_plugins := AList.update name p (rg_plugins r)\<rparr>))"

definition create_provider ::
  "string \<Rightarrow> 'c \<Rightarrow> ('c, 'p) provider_registry \<Rightarrow> raised + 'p" where
  "create_provider name conf r =
     (case map_of (rg_plugins r) name of
        None \<Rightarrow> Inl (agent_error ''plugin.provider.unknown'')
      | Some p \<Rightarrow>
          (case pl_factory p of
             None \<Rightarrow> Inl (agent_error ''plugin.factory.failed'')
           | Some f \<Rightarrow>
               (case f conf of
                  Inl _ \<Rightarrow> Inl (agent_error ''plugin.factory.failed'')
                | Inr x \<Rightarrow>
                    if \<not> of_protocol x then Inl (agent_error ''plugin.provider.invalid'')
                    else if of_version x \<noteq> agent_contract_version
                    then Inl (agent_error ''plugin.version.unsupported'')
                    else Inr (of_object x))))"

section \<open>The three registries and discovery\<close>

record ('c, 'p) registries =
  rgs_agents :: "('c, 'p) provider_registry"
  rgs_capabilities :: "('c, 'p) provider_registry"
  rgs_models :: "('c, 'p) provider_registry"

definition new_registries :: "('c, 'p) registries" where
  "new_registries = \<lparr>rgs_agents = new_registry AgentKind,
     rgs_capabilities = new_registry CapabilityKind, rgs_models = new_registry ModelKind\<rparr>"

fun for_kind :: "provider_kind \<Rightarrow> ('c, 'p) registries \<Rightarrow> ('c, 'p) provider_registry" where
  "for_kind AgentKind rs = rgs_agents rs"
| "for_kind CapabilityKind rs = rgs_capabilities rs"
| "for_kind ModelKind rs = rgs_models rs"

fun with_kind ::
  "provider_kind \<Rightarrow> ('c, 'p) provider_registry \<Rightarrow> ('c, 'p) registries \<Rightarrow> ('c, 'p) registries" where
  "with_kind AgentKind r rs = rs\<lparr>rgs_agents := r\<rparr>"
| "with_kind CapabilityKind r rs = rs\<lparr>rgs_capabilities := r\<rparr>"
| "with_kind ModelKind r rs = rs\<lparr>rgs_models := r\<rparr>"

definition entry_point_groups :: "(provider_kind \<times> string) list" where
  "entry_point_groups = [(AgentKind, ''mininet_ai.agents''),
     (CapabilityKind, ''mininet_ai.capabilities''), (ModelKind, ''mininet_ai.models'')]"

definition kind_for_group :: "string \<Rightarrow> raised + provider_kind" where
  "kind_for_group g =
     (case List.find (\<lambda>(_, e). g = e) entry_point_groups of
        None \<Rightarrow> Inl (agent_error ''plugin.group.unsupported'')
      | Some (k, _) \<Rightarrow> Inr k)"

text \<open>An entry point and what its \<open>load()\<close> yields.\<close>

record ('c, 'p) entry_point =
  ep_name :: string
  ep_group :: string
  ep_load :: "raised + ('c, 'p) exported"

record loaded_plugin =
  lp_kind :: provider_kind
  lp_name :: string
  lp_group :: string

definition supported_points :: "('c, 'p) entry_point list \<Rightarrow> ('c, 'p) entry_point list" where
  "supported_points ps = filter (\<lambda>p. ep_group p \<in> snd ` set entry_point_groups) ps"

text \<open>\<open>staged._for_kind(kind).register(name, descriptor)\<close>.\<close>

definition staged_register ::
  "provider_kind \<times> string \<Rightarrow> ('c, 'p) exported \<Rightarrow> ('c, 'p) registries \<Rightarrow> raised + ('c, 'p) registries" where
  "staged_register kn d rs =
     bind_res (register_plugin (snd kn) d (for_kind (fst kn) rs)) (\<lambda>r. Inr (with_kind (fst kn) r rs))"

definition load_point ::
  "('c, 'p) entry_point \<Rightarrow> ('c, 'p) registries \<times> loaded_plugin list
   \<Rightarrow> raised + ('c, 'p) registries \<times> loaded_plugin list" where
  "load_point p = (\<lambda>(staged, loaded).
     bind_res (kind_for_group (ep_group p)) (\<lambda>k.
       case ep_load p of
         Inl _ \<Rightarrow> Inl (agent_error ''plugin.load.failed'')
       | Inr NotDescriptor \<Rightarrow> Inl (agent_error ''plugin.descriptor.invalid'')
       | Inr (Descriptor d) \<Rightarrow>
           bind_res (staged_register (k, ep_name p) (Descriptor d) staged) (\<lambda>staged'.
             Inr (staged',
                  loaded @ [\<lparr>lp_kind = k, lp_name = ep_name p, lp_group = ep_group p\<rparr>]))))"

text \<open>
  \<open>discover_plugins\<close> with the supplied entry points: the registries afterwards, and what the
  call returns or raises. The registries are only replaced after the last plugin is loaded.
\<close>

definition discover_plugins ::
  "('c, 'p) entry_point list \<Rightarrow> ('c, 'p) registries
   \<Rightarrow> ('c, 'p) registries \<times> (raised + loaded_plugin list)" where
  "discover_plugins ps rs =
     (case fold_res load_point (sort_key (\<lambda>p. (ep_group p, ep_name p)) (supported_points ps)) (rs, []) of
        Inl e \<Rightarrow> (rs, Inl e)
      | Inr (staged, loaded) \<Rightarrow> (staged, Inr loaded))"

section \<open>Substrate drivers and runtimes\<close>

definition substrate_contract_version :: string where
  "substrate_contract_version = ''mininet-ai/substrate/v1alpha1''"

definition runtime_contract_version :: string where
  "runtime_contract_version = ''mininet-ai/substrate-runtime/v1alpha3''"

datatype registry_error = NameEmpty | NameTaken | NameUnknown | WrongType | WrongName | WrongVersion | FactoryRaises

record 'd offered_driver =
  dr_object :: 'd
  dr_protocol :: bool
  dr_manifest :: bool
  dr_name :: string
  dr_manifest_name :: string
  dr_version :: string

type_synonym ('o, 'd) substrate_registry = "(string \<times> ('o \<Rightarrow> registry_error + 'd offered_driver)) list"

definition register_driver ::
  "string \<Rightarrow> ('o \<Rightarrow> registry_error + 'd offered_driver) \<Rightarrow> ('o, 'd) substrate_registry
   \<Rightarrow> registry_error + ('o, 'd) substrate_registry" where
  "register_driver name f r =
     (if name = [] then Inl NameEmpty
      else if map_of r name \<noteq> None then Inl NameTaken
      else Inr (AList.update name f r))"

definition create_driver :: "string \<Rightarrow> 'o \<Rightarrow> ('o, 'd) substrate_registry \<Rightarrow> registry_error + 'd" where
  "create_driver name options r =
     (case map_of r name of
        None \<Rightarrow> Inl NameUnknown
      | Some f \<Rightarrow> bind_res (f options) (\<lambda>d.
          if \<not> dr_protocol d \<or> \<not> dr_manifest d then Inl WrongType
          else if dr_name d \<noteq> name \<or> dr_manifest_name d \<noteq> name then Inl WrongName
          else if dr_version d \<noteq> substrate_contract_version then Inl WrongVersion
          else Inr (dr_object d)))"

record 'r offered_runtime =
  ru_object :: 'r
  ru_protocol :: bool
  ru_name :: string
  ru_version :: string

text \<open>A registration: the factory, and the reservation factory when one was given.\<close>

record 'r registration =
  re_factory :: "registry_error + 'r offered_runtime"
  re_reserve :: "(registry_error + run_id \<times> 'r offered_runtime) option"

type_synonym 'r runtime_registry = "(string \<times> 'r registration) list"

definition register_runtime ::
  "string \<Rightarrow> 'r registration \<Rightarrow> 'r runtime_registry \<Rightarrow> registry_error + 'r runtime_registry" where
  "register_runtime name reg r =
     (if name = [] then Inl NameEmpty
      else if map_of r name \<noteq> None then Inl NameTaken
      else Inr (AList.update name reg r))"

definition validate_runtime :: "string \<Rightarrow> 'r offered_runtime \<Rightarrow> registry_error + 'r" where
  "validate_runtime name x =
     (if \<not> ru_protocol x then Inl WrongType
      else if ru_name x \<noteq> name then Inl WrongName
      else if ru_version x \<noteq> runtime_contract_version then Inl WrongVersion
      else Inr (ru_object x))"

definition registration_of :: "string \<Rightarrow> 'r runtime_registry \<Rightarrow> registry_error + 'r registration" where
  "registration_of name r = (case map_of r name of None \<Rightarrow> Inl NameUnknown | Some reg \<Rightarrow> Inr reg)"

definition create_runtime :: "string \<Rightarrow> 'r runtime_registry \<Rightarrow> registry_error + 'r" where
  "create_runtime name r =
     bind_res (registration_of name r) (\<lambda>reg. bind_res (re_factory reg) (validate_runtime name))"

definition reserve_runtime ::
  "string \<Rightarrow> 'r runtime_registry \<Rightarrow> registry_error + run_id option \<times> 'r" where
  "reserve_runtime name r =
     bind_res (registration_of name r) (\<lambda>reg.
       case re_reserve reg of
         None \<Rightarrow> bind_res (re_factory reg) (\<lambda>x. bind_res (validate_runtime name x) (\<lambda>o'. Inr (None, o')))
       | Some reserved \<Rightarrow> bind_res reserved (\<lambda>(i, x).
           bind_res (validate_runtime name x) (\<lambda>o'. Inr (Some i, o'))))"

section \<open>The contract of a name table\<close>

text \<open>
  Registering under a free name adds that entry and nothing else; a name that is taken is
  refused. The lemmas are about a loop that registers one entry after the other.
\<close>

locale name_table =
  fixes register :: "'k \<Rightarrow> 'v \<Rightarrow> 't \<Rightarrow> 'e + 't"
    and lookup :: "'t \<Rightarrow> 'k \<Rightarrow> 'v option"
  assumes register_lookup: "register k v t = Inr t' \<Longrightarrow> lookup t' = (lookup t)(k \<mapsto> v)"
    and register_free: "register k v t = Inr t' \<Longrightarrow> lookup t k = None"
begin

lemma register_keeps:
  assumes "register k v t = Inr t'" "lookup t k' \<noteq> None"
  shows "lookup t' k' = lookup t k'"
  using assms register_lookup [OF assms(1)] register_free [OF assms(1)] by auto

lemma register_all:
  assumes "fold_res (\<lambda>(k, v). register k v) kvs t = Inr t'"
  shows "lookup t' = lookup t ++ map_of kvs \<and> distinct (map fst kvs)
    \<and> (\<forall>k\<in>fst ` set kvs. lookup t k = None)"
  using assms
proof (induction kvs arbitrary: t)
  case Nil
  then show ?case by simp
next
  case (Cons kv kvs)
  obtain k v where kv: "kv = (k, v)" by (cases kv)
  obtain u where u: "register k v t = Inr u" "fold_res (\<lambda>(k, v). register k v) kvs u = Inr t'"
    using Cons.prems by (auto simp: kv split: sum.splits)
  have ih: "lookup t' = lookup u ++ map_of kvs" "distinct (map fst kvs)"
      "\<forall>k\<in>fst ` set kvs. lookup u k = None"
    using Cons.IH [OF u(2)] by simp_all
  have new: "k \<notin> fst ` set kvs" using ih(3) register_lookup [OF u(1)] by auto
  then have "map_of kvs k = None" by (simp add: map_of_eq_None_iff)
  then have "lookup t' = lookup t ++ map_of (kv # kvs)"
    unfolding ih(1) register_lookup [OF u(1)]
    by (auto simp: kv map_add_def fun_eq_iff split: option.splits)
  moreover have "lookup t k' = None" if "k' \<in> fst ` set kvs" for k'
    using bspec [OF ih(3) that] new that by (auto simp: register_lookup [OF u(1)] split: if_splits)
  ultimately show ?case using ih(2) new register_free [OF u(1)]
    by (intro conjI) (assumption, simp add: kv, auto simp: kv)
qed

end

definition plugin_at :: "('c, 'p) provider_registry \<Rightarrow> string \<Rightarrow> ('c, 'p) exported option" where
  "plugin_at r n = map_option Descriptor (map_of (rg_plugins r) n)"

definition staged_at :: "('c, 'p) registries \<Rightarrow> provider_kind \<times> string \<Rightarrow> ('c, 'p) exported option" where
  "staged_at rs kn = plugin_at (for_kind (fst kn) rs) (snd kn)"

lemma validate_plugin_Inr:
  "validate_plugin name d r = Inr p \<longleftrightarrow>
     d = Descriptor p \<and> name_ok name \<and> map_of (rg_plugins r) name = None
     \<and> pl_kind p = Some (rg_kind r) \<and> pl_version p = agent_contract_version \<and> pl_factory p \<noteq> None"
  by (auto simp: validate_plugin_def name_ok_def split: exported.splits option.splits)

lemma register_plugin_Inr:
  "register_plugin name d r = Inr r' \<longleftrightarrow>
     (\<exists>p. validate_plugin name d r = Inr p
        \<and> r' = r\<lparr>rg_plugins := AList.update name p (rg_plugins r)\<rparr>)"
  by (auto simp: register_plugin_def bind_res_Inr_iff)

interpretation plugins: name_table register_plugin plugin_at
  by unfold_locales (auto simp: register_plugin_Inr validate_plugin_Inr plugin_at_def fun_eq_iff)

lemma for_with_kind: "for_kind k (with_kind k' r rs) = (if k = k' then r else for_kind k rs)"
  by (cases k; cases k') simp_all

lemma staged_register_Inr:
  "staged_register kn d rs = Inr rs' \<longleftrightarrow>
     (\<exists>r. register_plugin (snd kn) d (for_kind (fst kn) rs) = Inr r \<and> rs' = with_kind (fst kn) r rs)"
  by (auto simp: staged_register_def bind_res_Inr_iff)

interpretation staged: name_table staged_register staged_at
proof
  fix kn d and rs rs' :: "('c, 'p) registries"
  assume "staged_register kn d rs = Inr rs'"
  then obtain r where r: "register_plugin (snd kn) d (for_kind (fst kn) rs) = Inr r"
    "rs' = with_kind (fst kn) r rs"
    by (auto simp: staged_register_Inr)
  show "staged_at rs' = (staged_at rs)(kn \<mapsto> d)"
    using plugins.register_lookup [OF r(1)]
    by (cases kn) (auto simp: staged_at_def r(2) for_with_kind fun_eq_iff)
  show "staged_at rs kn = None"
    using plugins.register_free [OF r(1)] by (simp add: staged_at_def)
qed

interpretation drivers: name_table register_driver map_of
  by unfold_locales (auto simp: register_driver_def split: if_splits)

interpretation runtimes: name_table register_runtime map_of
  by unfold_locales (auto simp: register_runtime_def split: if_splits)

section \<open>Discovery\<close>

definition registry_ok :: "('c, 'p) provider_registry \<Rightarrow> bool" where
  "registry_ok r \<longleftrightarrow>
     (\<forall>n p. map_of (rg_plugins r) n = Some p \<longrightarrow>
        name_ok n \<and> pl_kind p = Some (rg_kind r) \<and> pl_version p = agent_contract_version
        \<and> pl_factory p \<noteq> None)"

definition registries_ok :: "('c, 'p) registries \<Rightarrow> bool" where
  "registries_ok rs \<longleftrightarrow> (\<forall>k. rg_kind (for_kind k rs) = k \<and> registry_ok (for_kind k rs))"

lemma new_registries_ok: "registries_ok new_registries"
  unfolding registries_ok_def
proof
  fix k show "rg_kind (for_kind k new_registries) = k \<and> registry_ok (for_kind k new_registries)"
    by (cases k) (simp_all add: new_registries_def new_registry_def registry_ok_def)
qed

lemma register_plugin_ok [keeps]:
  assumes "register_plugin n d r = Inr r'" "registry_ok r"
  shows "registry_ok r' \<and> rg_kind r' = rg_kind r"
  using assms by (auto simp: register_plugin_Inr validate_plugin_Inr registry_ok_def split: if_splits)

lemma staged_register_ok [keeps]:
  assumes "staged_register kn d rs = Inr rs'" "registries_ok rs"
  shows "registries_ok rs'"
proof -
  obtain r where r: "register_plugin (snd kn) d (for_kind (fst kn) rs) = Inr r"
    "rs' = with_kind (fst kn) r rs"
    using assms(1) by (auto simp: staged_register_Inr)
  with assms(2) register_plugin_ok [OF r(1)] show ?thesis
    by (auto simp: registries_ok_def for_with_kind)
qed

text \<open>The key a loaded plugin is found under, and the run of discovery as a run of registrations.\<close>

definition loaded_key :: "loaded_plugin \<Rightarrow> provider_kind \<times> string" where
  "loaded_key l = (lp_kind l, lp_name l)"

lemma loaded_key_simp [simp]: "loaded_key \<lparr>lp_kind = k, lp_name = n, lp_group = g\<rparr> = (k, n)"
  by (simp add: loaded_key_def)

lemma load_point_Inr:
  assumes "load_point p (rs, ls) = Inr (rs', ls')"
  shows "\<exists>k d. ep_load p = Inr (Descriptor d) \<and> kind_for_group (ep_group p) = Inr k
    \<and> staged_register (k, ep_name p) (Descriptor d) rs = Inr rs'
    \<and> ls' = ls @ [\<lparr>lp_kind = k, lp_name = ep_name p, lp_group = ep_group p\<rparr>]"
proof -
  obtain k where k: "kind_for_group (ep_group p) = Inr k"
    using assms by (auto simp: load_point_def bind_res_Inr_iff)
  obtain x where x: "ep_load p = Inr x"
    using assms by (cases "ep_load p") (simp_all add: load_point_def k)
  obtain d where d: "x = Descriptor d"
    using assms by (cases x) (simp_all add: load_point_def k x)
  show ?thesis using assms by (auto simp: load_point_def k x d bind_res_Inr_iff)
qed

lemma load_points:
  assumes "fold_res load_point ps (rs, ls) = Inr (rs', ls')"
  shows "\<exists>ls2 ds. ls' = ls @ ls2 \<and> map (\<lambda>l. (lp_group l, lp_name l)) ls2 = map (\<lambda>p. (ep_group p, ep_name p)) ps
    \<and> map (\<lambda>p. ep_load p) ps = map Inr ds \<and> length ds = length ls2
    \<and> fold_res (\<lambda>(k, v). staged_register k v) (zip (map loaded_key ls2) ds) rs = Inr rs'"
  using assms
proof (induction ps arbitrary: rs ls)
  case Nil
  then show ?case by auto
next
  case (Cons p ps)
  obtain rs1 ls1 where one: "load_point p (rs, ls) = Inr (rs1, ls1)"
    and rest: "fold_res load_point ps (rs1, ls1) = Inr (rs', ls')"
    using Cons.prems by (auto split: sum.splits)
  obtain k d where p: "ep_load p = Inr (Descriptor d)"
      "staged_register (k, ep_name p) (Descriptor d) rs = Inr rs1"
      "ls1 = ls @ [\<lparr>lp_kind = k, lp_name = ep_name p, lp_group = ep_group p\<rparr>]"
    using load_point_Inr [OF one] by blast
  obtain ls2 ds where ih: "ls' = ls1 @ ls2"
      "map (\<lambda>l. (lp_group l, lp_name l)) ls2 = map (\<lambda>p. (ep_group p, ep_name p)) ps"
      "map (\<lambda>p. ep_load p) ps = map Inr ds" "length ds = length ls2"
      "fold_res (\<lambda>(k, v). staged_register k v) (zip (map loaded_key ls2) ds) rs1 = Inr rs'"
    using Cons.IH [OF rest] by blast
  show ?case
    by (rule exI [of _ "\<lparr>lp_kind = k, lp_name = ep_name p, lp_group = ep_group p\<rparr> # ls2"],
        rule exI [of _ "Descriptor d # ds"]) (simp add: ih p)
qed

lemma load_points_ok:
  assumes "fold_res load_point ps (rs, ls) = Inr st" "registries_ok rs"
  shows "registries_ok (fst st)"
proof -
  have "registries_ok (fst u)"
    if "load_point p s = Inr u" "registries_ok (fst s)"
    for p and s u :: "('a, 'b) registries \<times> loaded_plugin list"
    using that load_point_Inr [of p "fst s" "snd s" "fst u" "snd u"] staged_register_ok by fastforce
  then show ?thesis
    using fold_res_invariant [OF assms(1), of "\<lambda>s. registries_ok (fst s)"] assms(2) by simp
qed

text \<open>Discovery is a transaction: when it raises, the registries are as before; when it
  returns, they hold exactly the old plugins and the loaded ones, in the order of group and
  name, no loaded name was taken before or is loaded twice, and registries that only hold
  checked plugins of their kind still do.\<close>

lemma discovery_is_all_or_nothing:
  assumes "discover_plugins ps rs = (rs', res)"
  shows "case res of
      Inl _ \<Rightarrow> rs' = rs
    | Inr loaded \<Rightarrow>
        map (\<lambda>l. (lp_group l, lp_name l)) loaded
          = sort (map (\<lambda>p. (ep_group p, ep_name p)) (supported_points ps))
        \<and> dom (staged_at rs') = dom (staged_at rs) \<union> loaded_key ` set loaded
        \<and> staged_at rs \<subseteq>\<^sub>m staged_at rs'
        \<and> distinct (map loaded_key loaded) \<and> dom (staged_at rs) \<inter> loaded_key ` set loaded = {}
        \<and> (registries_ok rs \<longrightarrow> registries_ok rs')"
proof (cases res)
  case (Inl e)
  with assms show ?thesis by (auto simp: discover_plugins_def split: sum.splits prod.splits)
next
  case (Inr loaded)
  let ?ps = "sort_key (\<lambda>p. (ep_group p, ep_name p)) (supported_points ps)"
  have run: "fold_res load_point ?ps (rs, []) = Inr (rs', loaded)"
    using assms Inr by (auto simp: discover_plugins_def split: sum.splits prod.splits)
  obtain ds where ds: "map (\<lambda>l. (lp_group l, lp_name l)) loaded = map (\<lambda>p. (ep_group p, ep_name p)) ?ps"
      "length ds = length loaded"
      "fold_res (\<lambda>(k, v). staged_register k v) (zip (map loaded_key loaded) ds) rs = Inr rs'"
    using load_points [OF run] by auto
  note all = staged.register_all [OF ds(3)]
  have keys: "map fst (zip (map loaded_key loaded) ds) = map loaded_key loaded" using ds(2) by simp
  have key_set: "fst ` set (zip (map loaded_key loaded) ds) = loaded_key ` set loaded"
    using arg_cong [OF keys, of set] by simp
  have "sort (map (\<lambda>p. (ep_group p, ep_name p)) (supported_points ps))
      = map (\<lambda>p. (ep_group p, ep_name p)) ?ps"
    by (rule properties_for_sort) simp_all
  moreover have "dom (staged_at rs') = dom (staged_at rs) \<union> loaded_key ` set loaded"
    using all by (simp add: dom_map_of_conv_image_fst key_set Un_commute)
  moreover have free: "dom (staged_at rs) \<inter> loaded_key ` set loaded = {}"
    using all unfolding key_set by auto
  moreover have "staged_at rs \<subseteq>\<^sub>m staged_at rs'"
  proof -
    have "dom (staged_at rs) \<inter> dom (map_of (zip (map loaded_key loaded) ds)) = {}"
      using free by (simp add: dom_map_of_conv_image_fst key_set)
    then have "staged_at rs' = map_of (zip (map loaded_key loaded) ds) ++ staged_at rs"
      using all map_add_comm by metis
    then show ?thesis by (simp add: map_le_map_add)
  qed
  ultimately show ?thesis
    using all keys ds(1) load_points_ok [OF run] by (simp add: Inr)
qed

definition sample_plugin :: "(unit, nat) plugin" where
  "sample_plugin = \<lparr>pl_kind = Some CapabilityKind, pl_version = agent_contract_version,
     pl_factory = Some (\<lambda>_. Inr \<lparr>of_object = 7, of_protocol = True, of_version = agent_contract_version\<rparr>)\<rparr>"

definition sample_point :: "(unit, nat) entry_point" where
  "sample_point = \<lparr>ep_name = ''process'', ep_group = ''mininet_ai.capabilities'',
     ep_load = Inr (Descriptor sample_plugin)\<rparr>"

definition sample_loaded :: loaded_plugin where
  "sample_loaded = \<lparr>lp_kind = CapabilityKind, lp_name = ''process'', lp_group = ''mininet_ai.capabilities''\<rparr>"

lemma sample_discovery:
  "discover_plugins [sample_point] new_registries =
    (with_kind CapabilityKind
       ((new_registry CapabilityKind)\<lparr>rg_plugins := [(''process'', sample_plugin)]\<rparr>) new_registries,
     Inr [sample_loaded])"
  by (simp add: discover_plugins_def supported_points_def entry_point_groups_def sample_point_def
      load_point_def kind_for_group_def staged_register_def register_plugin_def validate_plugin_def
      name_pattern_ok_def name_head_def ascii_digit_def sample_plugin_def new_registries_def
      new_registry_def sample_loaded_def)

end
