(* ===== verification/Verification.thy ===== *)
theory Verification
  imports Catalog
begin

text \<open>
  Polling verification of postconditions (\<open>mininet_ai/capabilities/verification.py\<close>):
  \<open>read_path\<close>, \<open>compare\<close>, the loop of \<open>PostconditionVerifier._verify_one\<close> and \<open>verify\<close>.

  The observer, the clocks and the sleeper are other code. What they yield for one
  postcondition is a \<open>polling\<close>: the clock when the deadline is computed, and for every
  attempt the observation and the clock after it. The loop has no bound of its own, so it is
  a partial function, \<open>None\<close> when it never returns; \<open>polling_ends\<close> shows that a clock that
  moves on by the time slept makes it return.

  Observed values are JSON. A digit of \<open>str.isdigit\<close> that \<open>int\<close> does not read (the superscripts
  of Latin-1) raises, as it does there.
\<close>

section \<open>Observations\<close>

record observation_query =
  oq_name :: string
  oq_targets :: "string list"
  oq_parameters :: json_object

record observation_result =
  or_run_id :: run_id
  or_query :: observation_query
  or_observed_at :: timestamp
  or_values :: "(string \<times> json) list"

section \<open>Paths\<close>

text \<open>\<open>path.split(".")\<close>.\<close>

fun split_dots :: "string \<Rightarrow> string list" where
  "split_dots [] = [[]]"
| "split_dots (c # cs) =
     (if c = CHR ''.'' then [] # split_dots cs
      else case split_dots cs of [] \<Rightarrow> [[c]] | p # ps \<Rightarrow> (c # p) # ps)"

definition superscript_digit :: "char \<Rightarrow> bool" where
  "superscript_digit c = (c = CHR 0xB2 \<or> c = CHR 0xB3 \<or> c = CHR 0xB9)"

definition is_digit_str :: "string \<Rightarrow> bool" where
  "is_digit_str p = (p \<noteq> [] \<and> list_all (\<lambda>c. ascii_digit c \<or> superscript_digit c) p)"

text \<open>One step of \<open>_read_path\<close>: \<open>Inr None\<close> is the missing value.\<close>

definition read_part :: "json \<Rightarrow> string \<Rightarrow> raised + json option" where
  "read_part v part =
     (case v of
        JObj kvs \<Rightarrow> Inr (map_of kvs part)
      | JArr xs \<Rightarrow>
          if \<not> is_digit_str part then Inr None
          else if \<not> list_all ascii_digit part then Inl (OtherRaised None)
          else (let i = digits_value part 0 in Inr (if i < length xs then Some (xs ! i) else None))
      | _ \<Rightarrow> Inr None)"

fun read_parts :: "json \<Rightarrow> string list \<Rightarrow> raised + json option" where
  "read_parts v [] = Inr (Some v)"
| "read_parts v (p # ps) =
     (case read_part v p of
        Inl e \<Rightarrow> Inl e
      | Inr None \<Rightarrow> Inr None
      | Inr (Some w) \<Rightarrow> read_parts w ps)"

definition read_path :: "json option \<Rightarrow> string \<Rightarrow> raised + json option" where
  "read_path base path = (case base of None \<Rightarrow> Inr None | Some v \<Rightarrow> read_parts v (split_dots path))"

section \<open>Comparison\<close>

text \<open>A number as Python compares it: booleans are 0 and 1.\<close>

fun numeric :: "json \<Rightarrow> rat option" where
  "numeric (JBool b) = Some (if b then 1 else 0)"
| "numeric (JInt i) = Some (of_int i)"
| "numeric (JFloat r) = Some r"
| "numeric _ = None"

text \<open>Python's \<open>==\<close> on JSON values.\<close>

function (sequential) py_eq :: "json \<Rightarrow> json \<Rightarrow> bool" where
  "py_eq JNull JNull = True"
| "py_eq (JStr s) (JStr t) = (s = t)"
| "py_eq (JArr xs) (JArr ys) =
     (length xs = length ys \<and> list_all (\<lambda>(x, y). py_eq x y) (zip xs ys))"
| "py_eq (JObj xs) (JObj ys) =
     (length xs = length ys
      \<and> list_all (\<lambda>(k, v). case map_of ys k of None \<Rightarrow> False | Some w \<Rightarrow> py_eq v w) xs)"
| "py_eq v w = (case (numeric v, numeric w) of (Some a, Some b) \<Rightarrow> a = b | _ \<Rightarrow> False)"
  by pat_completeness auto

lemma size_entry: "(k, v) \<in> set xs \<Longrightarrow> size v < Suc (size_list (size_prod (\<lambda>_. 0) size) xs)"
  by (induction xs) auto

termination py_eq
proof (relation "measure (\<lambda>(v, w). size v)")
  fix xs ys :: "json list" and z x y
  assume "z \<in> set (zip xs ys)" "(x, y) = z"
  then have "x \<in> set xs" by (auto dest: set_zip_leftD)
  then have "size x < Suc (size_list size xs)" by (induction xs) auto
  then show "((x, y), JArr xs, JArr ys) \<in> measure (\<lambda>(v, w). size v)" by simp
next
  fix xs ys :: "(string \<times> json) list" and z k v w
  assume "z \<in> set xs" "(k, v) = z"
  then have "(k, v) \<in> set xs" by simp
  from size_entry [OF this]
  show "((v, w), JObj xs, JObj ys) \<in> measure (\<lambda>(v, w). size v)" by simp
qed simp

fun is_number :: "json \<Rightarrow> bool" where
  "is_number (JInt _) = True"
| "is_number (JFloat _) = True"
| "is_number _ = False"

definition compare_values :: "json \<Rightarrow> comparison \<Rightarrow> json \<Rightarrow> bool" where
  "compare_values actual opr expected =
     (if opr = CmpEq then py_eq actual expected
      else if opr = CmpNe then \<not> py_eq actual expected
      else if \<not> is_number actual \<or> \<not> is_number expected then False
      else (let a = the (numeric actual); b = the (numeric expected) in
            case opr of
              CmpGt \<Rightarrow> b < a
            | CmpGte \<Rightarrow> b \<le> a
            | CmpLt \<Rightarrow> a < b
            | _ \<Rightarrow> a \<le> b))"

section \<open>The polling loop\<close>

record polling =
  po_start :: rat
  po_observe :: "nat \<Rightarrow> raised + observation_result"
  po_now :: "nat \<Rightarrow> rat"
  po_completed :: timestamp

definition issue_at :: "string \<Rightarrow> string \<Rightarrow> issue" where
  "issue_at code target = \<lparr>issue_code = code, issue_target = Some target\<rparr>"

definition raised_issue :: "string \<Rightarrow> string \<Rightarrow> raised \<Rightarrow> issue" where
  "raised_issue fallback target e =
     issue_at (case raised_code e of None \<Rightarrow> fallback | Some c \<Rightarrow> c) target"

definition query_for :: "postcondition \<Rightarrow> string \<Rightarrow> observation_query" where
  "query_for pc target =
     \<lparr>oq_name = pc_observation pc, oq_targets = [target], oq_parameters = []\<rparr>"

text \<open>The body of the loop: the value, the issue and the verdict after one attempt.\<close>

definition attempt ::
  "run_id \<Rightarrow> string \<Rightarrow> postcondition \<Rightarrow> raised + observation_result \<Rightarrow> json
   \<Rightarrow> json \<times> issue option \<times> bool" where
  "attempt rid target pc answer actual =
     (let failed = (\<lambda>e. (actual, Some (raised_issue ''capability.postcondition.observation-failed'' target e), False)) in
      case answer of
        Inl e \<Rightarrow> failed e
      | Inr r \<Rightarrow>
          if or_run_id r \<noteq> rid \<or> or_query r \<noteq> query_for pc target then failed (OtherRaised None)
          else (case read_path (map_of (or_values r) target) (pc_path pc) of
                  Inl e \<Rightarrow> failed e
                | Inr None \<Rightarrow>
                    (JNull, Some (issue_at ''capability.postcondition.path-missing'' target), False)
                | Inr (Some v) \<Rightarrow> (v, None, compare_values v (pc_operator pc) (pc_expected pc))))"

partial_function (option) poll_loop ::
  "run_id \<Rightarrow> string \<Rightarrow> postcondition \<Rightarrow> rat \<Rightarrow> polling \<Rightarrow> nat \<Rightarrow> json
   \<Rightarrow> (json \<times> issue option \<times> bool \<times> nat) option" where
  "poll_loop rid target pc deadline po n actual =
     (case attempt rid target pc (po_observe po n) actual of
        (a, i, s) \<Rightarrow>
          if s \<or> deadline \<le> po_now po n then Some (a, i, s, n)
          else poll_loop rid target pc deadline po (Suc n) a)"

definition verify_one ::
  "run_id \<Rightarrow> string \<Rightarrow> postcondition \<Rightarrow> polling \<Rightarrow> (raised + postcondition_result) option" where
  "verify_one rid target pc po =
     (case (duration_seconds (pc_timeout pc), duration_seconds (pc_interval pc)) of
        (Some timeout, Some _) \<Rightarrow>
          (case poll_loop rid target pc (po_start po + timeout) po 1 JNull of
             None \<Rightarrow> None
           | Some (a, i, s, n) \<Rightarrow>
               Some (map_sum (\<lambda>_. OtherRaised None) id (new_postcondition_result
                 \<lparr>pr_observation = pc_observation pc, pr_path = pc_path pc,
                  pr_operator = operator_value (pc_operator pc), pr_expected = pc_expected pc,
                  pr_actual = a, pr_satisfied = s, pr_attempts = n,
                  pr_completed_at = po_completed po, pr_issue = i\<rparr>)))
      | _ \<Rightarrow> Some (Inl (OtherRaised None)))"

record verification_report =
  vr_checks :: "postcondition_result list"
  vr_duration :: rat

definition report_satisfied :: "verification_report \<Rightarrow> bool" where
  "report_satisfied r = list_all pr_satisfied (vr_checks r)"

text \<open>\<open>verify\<close>: \<open>pos i\<close> is the polling of the postcondition at index \<open>i\<close>.\<close>

fun verify_all ::
  "run_id \<Rightarrow> string \<Rightarrow> (nat \<Rightarrow> polling) \<Rightarrow> nat \<Rightarrow> postcondition list
   \<Rightarrow> (raised + postcondition_result list) option" where
  "verify_all rid target pos i [] = Some (Inr [])"
| "verify_all rid target pos i (pc # pcs) =
     (case verify_one rid target pc (pos i) of
        None \<Rightarrow> None
      | Some (Inl e) \<Rightarrow> Some (Inl e)
      | Some (Inr c) \<Rightarrow>
          (case verify_all rid target pos (Suc i) pcs of
             None \<Rightarrow> None
           | Some (Inl e) \<Rightarrow> Some (Inl e)
           | Some (Inr cs) \<Rightarrow> Some (Inr (c # cs))))"

definition verify ::
  "rat \<Rightarrow> rat \<Rightarrow> (nat \<Rightarrow> polling) \<Rightarrow> agent_context \<Rightarrow> action_proposal \<Rightarrow> postcondition list
   \<Rightarrow> (raised + verification_report) option" where
  "verify started ended pos ctx p pcs =
     (case verify_all (ctx_run_id ctx) (prop_target p) pos 0 pcs of
        None \<Rightarrow> None
      | Some (Inl e) \<Rightarrow> Some (Inl e)
      | Some (Inr cs) \<Rightarrow> Some (Inr \<lparr>vr_checks = cs, vr_duration = max 0 (ended - started)\<rparr>))"

section \<open>The verdict of a run\<close>

text \<open>The value an answer holds at the path, when it is one for this query; and whether it
  meets the postcondition.\<close>

definition observed ::
  "run_id \<Rightarrow> string \<Rightarrow> postcondition \<Rightarrow> raised + observation_result \<Rightarrow> json option" where
  "observed rid target pc answer =
     (case answer of
        Inl _ \<Rightarrow> None
      | Inr r \<Rightarrow>
          if or_run_id r = rid \<and> or_query r = query_for pc target
          then (case read_path (map_of (or_values r) target) (pc_path pc) of
                  Inl _ \<Rightarrow> None | Inr v \<Rightarrow> v)
          else None)"

definition meets :: "run_id \<Rightarrow> string \<Rightarrow> postcondition \<Rightarrow> raised + observation_result \<Rightarrow> bool" where
  "meets rid target pc answer =
     (case observed rid target pc answer of
        None \<Rightarrow> False
      | Some v \<Rightarrow> compare_values v (pc_operator pc) (pc_expected pc))"

lemma attempt_verdict:
  assumes "attempt rid target pc answer actual = (a, i, s)"
  shows "s \<longleftrightarrow> meets rid target pc answer"
    and "i = None \<longleftrightarrow> observed rid target pc answer \<noteq> None"
    and "observed rid target pc answer = Some v \<Longrightarrow> a = v"
  using assms
  by (auto simp: attempt_def meets_def observed_def Let_def
      split: sum.splits option.splits if_splits)

lemma meets_observed: "meets rid target pc answer \<Longrightarrow> observed rid target pc answer \<noteq> None"
  by (cases "observed rid target pc answer") (simp_all add: meets_def)

definition loop_verdict ::
  "run_id \<Rightarrow> string \<Rightarrow> postcondition \<Rightarrow> rat \<Rightarrow> polling \<Rightarrow> nat \<Rightarrow> json \<times> issue option \<times> bool \<times> nat \<Rightarrow> bool" where
  "loop_verdict rid target pc deadline po n out \<longleftrightarrow>
     (case out of (a, i, s, m) \<Rightarrow>
        n \<le> m \<and> (s \<longleftrightarrow> meets rid target pc (po_observe po m)) \<and> (s \<or> deadline \<le> po_now po m)
        \<and> (i = None \<longleftrightarrow> observed rid target pc (po_observe po m) \<noteq> None)
        \<and> (\<forall>v. observed rid target pc (po_observe po m) = Some v \<longrightarrow> a = v)
        \<and> (\<forall>k. n \<le> k \<and> k < m \<longrightarrow> \<not> meets rid target pc (po_observe po k) \<and> po_now po k < deadline))"

lemma poll_loop_verdict:
  assumes "poll_loop rid target pc deadline po n actual = Some out"
  shows "loop_verdict rid target pc deadline po n out"
proof (rule poll_loop.raw_induct
    [where P = "\<lambda>rid target pc deadline po n actual out. loop_verdict rid target pc deadline po n out",
     OF _ assms], goal_cases)
  case (1 loop rid target pc deadline po n actual out)
  obtain a i s where one: "attempt rid target pc (po_observe po n) actual = (a, i, s)"
    by (cases "attempt rid target pc (po_observe po n) actual")
  note v = attempt_verdict [OF one]
  show ?case
  proof (cases "s \<or> deadline \<le> po_now po n")
    case True
    with 1(2) have "out = (a, i, s, n)" by (simp add: one)
    with True v show ?thesis by (auto simp: loop_verdict_def)
  next
    case False
    with 1(2) have "loop rid target pc deadline po (Suc n) a = Some out" by (simp add: one)
    note ih = 1(1) [OF this, unfolded loop_verdict_def]
    obtain b j t m where out: "out = (b, j, t, m)" by (cases out)
    have "\<not> meets rid target pc (po_observe po k) \<and> po_now po k < deadline" if "n \<le> k" "k < m" for k
      using ih that False v(1) by (cases "k = n") (auto simp: out)
    then show ?thesis using ih by (auto simp: out loop_verdict_def)
  qed
qed

lemma verify_one_Inr:
  assumes "verify_one rid target pc po = Some (Inr r)"
  obtains timeout a i s n where "duration_seconds (pc_timeout pc) = Some timeout"
    "poll_loop rid target pc (po_start po + timeout) po 1 JNull = Some (a, i, s, n)"
    "r = \<lparr>pr_observation = pc_observation pc, pr_path = pc_path pc,
                  pr_operator = operator_value (pc_operator pc), pr_expected = pc_expected pc,
                  pr_actual = a, pr_satisfied = s, pr_attempts = n,
                  pr_completed_at = po_completed po, pr_issue = i\<rparr>"
  using assms
  by (auto simp: verify_one_def new_postcondition_result_def split: option.splits if_splits)

text \<open>C31. A postcondition that was checked: it is satisfied exactly when the last observation is
  one for this run and query whose value at the path compares as asked; no earlier attempt met
  it and each of those ended before the deadline; an unsatisfied one was polled up to the
  deadline; and it carries an issue exactly when the last attempt read no value.\<close>

theorem polling_verdict:
  assumes "verify_one rid target pc po = Some (Inr r)"
    and "duration_seconds (pc_timeout pc) = Some timeout"
  shows "1 \<le> pr_attempts r
    \<and> (pr_satisfied r \<longleftrightarrow> meets rid target pc (po_observe po (pr_attempts r)))
    \<and> (pr_satisfied r \<or> po_start po + timeout \<le> po_now po (pr_attempts r))
    \<and> (\<forall>k. 1 \<le> k \<and> k < pr_attempts r \<longrightarrow>
        \<not> meets rid target pc (po_observe po k) \<and> po_now po k < po_start po + timeout)
    \<and> (pr_issue r = None \<longleftrightarrow> observed rid target pc (po_observe po (pr_attempts r)) \<noteq> None)"
proof -
  obtain a i s n where run: "poll_loop rid target pc (po_start po + timeout) po 1 JNull = Some (a, i, s, n)"
    and r: "r = \<lparr>pr_observation = pc_observation pc, pr_path = pc_path pc,
                  pr_operator = operator_value (pc_operator pc), pr_expected = pc_expected pc,
                  pr_actual = a, pr_satisfied = s, pr_attempts = n,
                  pr_completed_at = po_completed po, pr_issue = i\<rparr>"
    using verify_one_Inr [OF assms(1)] assms(2) by (metis option.inject)
  show ?thesis using poll_loop_verdict [OF run] by (auto simp: r loop_verdict_def)
qed

section \<open>The loop ends\<close>

text \<open>The clock never runs backwards over a sleep: after an attempt that does not end the loop
  it has moved on by at least the time slept.\<close>

definition clock_advances :: "polling \<Rightarrow> rat \<Rightarrow> rat \<Rightarrow> bool" where
  "clock_advances po timeout interval \<longleftrightarrow>
     po_start po \<le> po_now po 1
     \<and> (\<forall>n\<ge>1. po_now po n + min interval (max 0 (po_start po + timeout - po_now po n)) \<le> po_now po (Suc n))"

definition attempts_bound :: "rat \<Rightarrow> rat \<Rightarrow> nat" where
  "attempts_bound timeout interval = nat \<lceil>timeout / interval\<rceil> + 1"

lemma attempts_bound_enough:
  assumes "0 < interval" "0 < timeout"
  shows "timeout \<le> interval * of_nat (attempts_bound timeout interval - 1)"
proof -
  have "0 < timeout / interval" using assms by simp
  then have "0 \<le> \<lceil>timeout / interval\<rceil>" by linarith
  then have "of_nat (attempts_bound timeout interval - 1) = (of_int \<lceil>timeout / interval\<rceil> :: rat)"
    by (simp add: attempts_bound_def)
  moreover have "timeout \<le> of_int \<lceil>timeout / interval\<rceil> * interval"
    using le_of_int_ceiling [of "timeout / interval"] assms(1) by (simp only: pos_divide_le_eq)
  ultimately show ?thesis by (simp add: mult.commute)
qed

lemma poll_loop_ends:
  assumes "clock_advances po timeout interval" "0 < interval" "0 < timeout"
    and "1 \<le> n" "n \<le> attempts_bound timeout interval"
    and "min (po_start po + timeout) (po_start po + interval * of_nat (n - 1)) \<le> po_now po n"
  shows "\<exists>a i s m. poll_loop rid target pc (po_start po + timeout) po n actual = Some (a, i, s, m)
    \<and> m \<le> attempts_bound timeout interval"
  using assms(4-6)
proof (induction "attempts_bound timeout interval - n" arbitrary: n actual)
  case 0
  then have "n = attempts_bound timeout interval" by simp
  with 0 attempts_bound_enough [OF assms(2,3)] have "po_start po + timeout \<le> po_now po n"
    by simp
  then show ?case
    using 0 by (subst poll_loop.simps) (auto split: prod.splits)
next
  case (Suc d)
  obtain a i s where one: "attempt rid target pc (po_observe po n) actual = (a, i, s)"
    by (cases "attempt rid target pc (po_observe po n) actual")
  show ?case
  proof (cases "s \<or> po_start po + timeout \<le> po_now po n")
    case True
    then show ?thesis using Suc by (subst poll_loop.simps) (auto simp: one)
  next
    case False
    then have "po_start po + interval * of_nat (n - 1) \<le> po_now po n" using Suc.prems(3) by auto
    moreover have "po_now po n + min interval (po_start po + timeout - po_now po n) \<le> po_now po (Suc n)"
      using assms(1) Suc.prems(1) False by (auto simp: clock_advances_def)
    moreover have "interval * of_nat (Suc n - 1) = interval * of_nat (n - 1) + interval"
      using Suc.prems(1) by (cases n) (simp_all add: algebra_simps)
    ultimately have "min (po_start po + timeout) (po_start po + interval * of_nat (Suc n - 1))
        \<le> po_now po (Suc n)"
      by linarith
    then have "\<exists>a' i s m. poll_loop rid target pc (po_start po + timeout) po (Suc n) a = Some (a', i, s, m)
        \<and> m \<le> attempts_bound timeout interval"
      using Suc.hyps by (intro Suc.hyps(1)) simp_all
    then show ?thesis by (subst poll_loop.simps) (use False in \<open>simp add: one\<close>)
  qed
qed

lemma new_postcondition_Inr:
  assumes "new_postcondition pc = Inr pc'"
  obtains timeout interval where "duration_seconds (pc_timeout pc) = Some timeout"
    "duration_seconds (pc_interval pc) = Some interval" "0 < interval" "interval \<le> timeout"
    "pc_observation pc \<noteq> []" "pc_path pc \<noteq> []"
  using assms
  by (auto simp: new_postcondition_def not_le not_less split: option.splits if_splits)

lemma operator_value_nonempty: "operator_value c \<noteq> []"
  by (cases c) simp_all

lemma polling_returns:
  assumes "new_postcondition pc = Inr pc'"
    and "duration_seconds (pc_timeout pc) = Some timeout"
    and "duration_seconds (pc_interval pc) = Some interval"
    and "clock_advances po timeout interval"
  shows "\<exists>r. verify_one rid target pc po = Some (Inr r)
    \<and> 1 \<le> pr_attempts r \<and> pr_attempts r \<le> attempts_bound timeout interval"
proof -
  have pos: "0 < interval" "0 < timeout" "pc_observation pc \<noteq> []" "pc_path pc \<noteq> []"
    using new_postcondition_Inr [OF assms(1)] assms(2,3) by fastforce+
  have first: "po_start po \<le> po_now po 1" using assms(4) by (simp add: clock_advances_def)
  have "\<exists>a i s m. poll_loop rid target pc (po_start po + timeout) po 1 JNull = Some (a, i, s, m)
      \<and> m \<le> attempts_bound timeout interval"
    by (rule poll_loop_ends [OF assms(4) pos(1,2)]) (use first in \<open>simp_all add: attempts_bound_def\<close>)
  then obtain a i s m where run: "poll_loop rid target pc (po_start po + timeout) po 1 JNull = Some (a, i, s, m)"
      "m \<le> attempts_bound timeout interval"
    by blast
  have "1 \<le> m" using poll_loop_verdict [OF run(1)] by (simp add: loop_verdict_def)
  with run pos(3,4) show ?thesis
    by (auto simp: verify_one_def assms(2,3) new_postcondition_result_def operator_value_nonempty)
qed

text \<open>C32. Polling a postcondition the specification accepts ends: when the clock moves on by the
  time slept, the check returns a result after at most \<open>timeout / interval\<close> attempts (rounded
  up) and one more.\<close>

theorem polling_ends:
  assumes "new_postcondition pc = Inr pc'"
    and "duration_seconds (pc_timeout pc) = Some timeout"
    and "duration_seconds (pc_interval pc) = Some interval"
    and "clock_advances po timeout interval"
  shows "\<exists>r. verify_one rid target pc po = Some (Inr r)
    \<and> 1 \<le> pr_attempts r \<and> pr_attempts r \<le> attempts_bound timeout interval"
  using assms by (rule polling_returns)

section \<open>Paths compose\<close>

lemma split_dots_nonempty: "split_dots p \<noteq> []"
  by (induction p) (auto split: list.splits)

lemma split_dots_append: "split_dots (p @ CHR ''.'' # q) = split_dots p @ split_dots q"
proof (induction p)
  case Nil
  then show ?case by simp
next
  case (Cons c p)
  obtain h t where "split_dots p = h # t" using split_dots_nonempty [of p] by (cases "split_dots p") auto
  with Cons show ?case by simp
qed

lemma read_parts_append:
  "read_parts v (ps @ qs) =
    (case read_parts v ps of Inr (Some w) \<Rightarrow> read_parts w qs | r \<Rightarrow> r)"
  by (induction ps arbitrary: v) (auto split: sum.splits option.splits)

text \<open>Reading a path is reading its front and then its rest in the value found there; a
  missing value or an error on the way is the answer for the whole path.\<close>

lemma read_path_composes:
  "read_path base (p @ CHR ''.'' # q) =
    (case read_path base p of Inr (Some v) \<Rightarrow> read_path (Some v) q | r \<Rightarrow> r)"
  by (cases base) (auto simp: read_path_def split_dots_append read_parts_append split: sum.splits option.splits)

section \<open>Witnesses\<close>

definition sample_observation :: observation_result where
  "sample_observation = \<lparr>or_run_id = ''r'', or_query = query_for sample_postcondition ''l1'',
     or_observed_at = 0, or_values = [(''l1'', JObj [(''state'', JArr [JStr ''up''])])]\<rparr>"

definition sample_polling :: polling where
  "sample_polling = \<lparr>po_start = 0,
     po_observe = (\<lambda>n. if n = 1 then Inl TimedOut else Inr sample_observation),
     po_now = (\<lambda>n. of_nat n / 2), po_completed = 9\<rparr>"

definition sample_check :: postcondition_result where
  "sample_check = \<lparr>pr_observation = ''link'', pr_path = ''state.0'', pr_operator = ''eq'',
     pr_expected = JStr ''up'', pr_actual = JStr ''up'', pr_satisfied = True, pr_attempts = 2,
     pr_completed_at = 9, pr_issue = None\<rparr>"

lemma sample_durations:
  "duration_seconds (pc_timeout sample_postcondition) = Some 1"
  "duration_seconds (pc_interval sample_postcondition) = Some (1 / 2)"
  "new_postcondition sample_postcondition = Inr sample_postcondition"
  by code_simp+

lemma sample_attempts:
  "attempt ''r'' ''l1'' sample_postcondition (po_observe sample_polling 1) JNull =
    (JNull, Some (issue_at ''capability.postcondition.observation-failed'' ''l1''), False)"
  "attempt ''r'' ''l1'' sample_postcondition (po_observe sample_polling 2) JNull = (JStr ''up'', None, True)"
  by code_simp+

lemma sample_polled: "verify_one ''r'' ''l1'' sample_postcondition sample_polling = Some (Inr sample_check)"
proof -
  have start: "po_start sample_polling = 0" "po_now sample_polling 1 = 1 / 2"
    by (simp_all add: sample_polling_def)
  have "poll_loop ''r'' ''l1'' sample_postcondition 1 sample_polling 1 JNull = Some (JStr ''up'', None, True, 2)"
    using start sample_attempts by (simp add: poll_loop.simps numeral_2_eq_2)
  then show ?thesis
    by (simp add: verify_one_def sample_durations start new_postcondition_result_def sample_check_def)
      (simp add: sample_postcondition_def sample_polling_def)
qed

lemma sample_clock: "clock_advances sample_polling 1 (1 / 2)"
  by (auto simp: clock_advances_def sample_polling_def min_def max_def field_simps)

theorem polling_verdict_witness:
  "meets ''r'' ''l1'' sample_postcondition (po_observe sample_polling 2)
    \<and> \<not> meets ''r'' ''l1'' sample_postcondition (po_observe sample_polling 1)"
proof -
  have "pr_attempts sample_check = 2" "pr_satisfied sample_check" by (simp_all add: sample_check_def)
  with polling_verdict [OF sample_polled sample_durations(1)] show ?thesis by (simp add: numeral_2_eq_2)
qed

theorem polling_ends_witness:
  "\<exists>r. verify_one ''r'' ''l1'' sample_postcondition sample_polling = Some (Inr r)
    \<and> 1 \<le> pr_attempts r \<and> pr_attempts r \<le> 3"
proof -
  have "attempts_bound 1 (1 / 2) = 3" by code_simp
  with polling_ends [OF sample_durations(3) sample_durations(1,2) sample_clock] show ?thesis by metis
qed

end
