(* ===== verification/Engine.thy ===== *)
theory Engine
  imports Verification Registry
begin

text \<open>
  The capability engine (\<open>mininet_ai/capabilities/engine.py\<close>): admission of one action proposal,
  the call of its provider, the normalized result, and the check of its postconditions with the
  rollback of an action that missed them.

  A provider is the pair of its \<open>execute\<close> and its optional \<open>rollback\<close>, functions that may
  raise. The JSON-schema check is the library's and the argument \<open>eng_schema\<close>; the verifier is
  a function so that \<open>Verification.verify\<close> can be put in. Next to the result, \<open>execute\<close> gives
  back the calls it made to the provider and the verifier, in order.
\<close>

section \<open>Data\<close>

text \<open>What a provider returns: a substrate result and whether its output is JSON (\<open>ActionResult\<close>
  holds any values; \<open>ar_output\<close> then shows those that are JSON), an outcome, a mapping (\<open>None\<close>
  when it is not JSON), or something else.\<close>

datatype raw_outcome =
    RawResult action_result bool
  | RawOutcome capability_outcome
  | RawMapping "json_object option"
  | RawOther

record provider =
  prv_execute :: "agent_context \<Rightarrow> action_proposal \<Rightarrow> raised + raw_outcome"
  prv_rollback ::
    "(agent_context \<Rightarrow> action_proposal \<Rightarrow> capability_outcome \<Rightarrow> rat \<Rightarrow> raised + raw_outcome) option"

datatype schema_verdict = SchemaInvalid | ValueInvalid | SchemaRaises | ValueAccepted

record engine =
  eng_catalog :: catalog
  eng_providers :: "(capability, provider) provider_registry"
  eng_schema :: "json_object \<Rightarrow> json_object \<Rightarrow> schema_verdict"
  eng_verifier ::
    "(agent_context \<Rightarrow> action_proposal \<Rightarrow> postcondition list \<Rightarrow> raised + verification_report) option"

text \<open>The readings of the clock when the result, the rollback result and the failed or verified
  result are made.\<close>

record clock_readings =
  ck_result :: timestamp
  ck_rollback :: timestamp
  ck_final :: timestamp

datatype engine_call =
    CalledExecute string action_proposal
  | CalledVerify action_proposal
  | CalledRollback action_proposal rat

text \<open>\<open>_CapabilityError\<close> with its status and code, or another exception.\<close>

datatype engine_error = Refusal action_status string | Passed raised

section \<open>Admission\<close>

definition scope_matches :: "agent_context \<Rightarrow> agent_instance \<Rightarrow> bool" where
  "scope_matches ctx i =
     (let a = ai_attachment i in
      ctx_deployment ctx = ai_deployment i \<and> ctx_layer ctx = at_layer a
      \<and> ctx_custom_layer ctx = at_custom_layer a \<and> ctx_target_kind ctx = at_target_kind a
      \<and> set (ctx_targets ctx) = set (at_targets a)
      \<and> set (ctx_capabilities ctx) = set (ai_capabilities i))"

definition resolve_context :: "engine \<Rightarrow> agent_context \<Rightarrow> engine_error + execution_definition" where
  "resolve_context eng ctx =
     (case catalog_resolve (eng_catalog eng) (ctx_agent_id ctx) of
        Inl (RuntimeRaised code _) \<Rightarrow> Inl (Refusal ActionRejected code)
      | Inl e \<Rightarrow> Inl (Passed e)
      | Inr d \<Rightarrow>
          if \<not> scope_matches ctx (xd_instance d)
          then Inl (Refusal ActionRejected ''capability.context.invalid'')
          else Inr d)"

definition context_layer :: "agent_context \<Rightarrow> string" where
  "context_layer ctx =
     (case ctx_custom_layer ctx of
        None \<Rightarrow> layer_value (ctx_layer ctx)
      | Some l \<Rightarrow> if l = [] then layer_value (ctx_layer ctx) else l)"

text \<open>The dictionary of the capabilities by name: a later one replaces an earlier one.\<close>

definition capability_named :: "execution_definition \<Rightarrow> string \<Rightarrow> capability option" where
  "capability_named d n = map_of (rev (map (\<lambda>c. (cap_name c, c)) (xd_capabilities d))) n"

definition authorize_proposal ::
  "execution_definition \<Rightarrow> agent_context \<Rightarrow> action_proposal \<Rightarrow> engine_error + capability" where
  "authorize_proposal d ctx p =
     (case capability_named d (prop_capability p) of
        None \<Rightarrow> Inl (Refusal ActionRejected ''capability.not-assigned'')
      | Some c \<Rightarrow>
          if prop_target p \<notin> set (at_targets (ai_attachment (xd_instance d)))
          then Inl (Refusal ActionRejected ''capability.target.out-of-scope'')
          else if ctx_target_kind ctx \<notin> set (cap_targets c)
          then Inl (Refusal ActionRejected ''capability.target-kind.denied'')
          else if context_layer ctx \<notin> set (cap_layers c)
          then Inl (Refusal ActionRejected ''capability.layer.denied'')
          else if set (cap_effects c) - set (ai_privileges (xd_instance d)) \<noteq> {}
          then Inl (Refusal ActionRejected ''capability.effects.denied'')
          else Inr c)"

definition bounded_proposal ::
  "execution_definition \<Rightarrow> action_proposal \<Rightarrow> engine_error + action_proposal" where
  "bounded_proposal d p =
     (case duration_seconds (ec_action_timeout (ai_execution (xd_instance d))) of
        None \<Rightarrow> Inl (Passed (OtherRaised None))
      | Some declared \<Rightarrow> Inr (p\<lparr>prop_timeout := min (prop_timeout p) declared\<rparr>))"

definition validate_schema ::
  "engine \<Rightarrow> json_object \<Rightarrow> json_object \<Rightarrow> string \<Rightarrow> action_status \<Rightarrow> engine_error + unit" where
  "validate_schema eng schema v invalid_code invalid_status =
     (case eng_schema eng schema v of
        SchemaInvalid \<Rightarrow> Inl (Refusal ActionFailed ''capability.schema.invalid'')
      | ValueInvalid \<Rightarrow> Inl (Refusal invalid_status invalid_code)
      | SchemaRaises \<Rightarrow> Inl (Passed (OtherRaised None))
      | ValueAccepted \<Rightarrow> Inr ())"

definition admit_proposal ::
  "engine \<Rightarrow> agent_context \<Rightarrow> action_proposal
   \<Rightarrow> engine_error + execution_definition \<times> capability \<times> action_proposal" where
  "admit_proposal eng ctx p =
     bind_res (resolve_context eng ctx) (\<lambda>d.
     bind_res (authorize_proposal d ctx p) (\<lambda>c.
     bind_res (bounded_proposal d p) (\<lambda>q.
     bind_res (validate_schema eng (cap_input_schema c) (prop_arguments q)
                 ''capability.input.invalid'' ActionRejected) (\<lambda>_.
       if cap_provider c = None then Inl (Refusal ActionFailed ''capability.provider.missing'')
       else Inr (d, c, q)))))"

section \<open>Results\<close>

text \<open>\<open>_result\<close> without its constructor's checks.\<close>

definition plain_result ::
  "agent_context \<Rightarrow> action_proposal \<Rightarrow> action_status \<Rightarrow> bool \<Rightarrow> json_object \<Rightarrow> issue option
   \<Rightarrow> timestamp \<Rightarrow> action_result" where
  "plain_result ctx p status changed out i now =
     \<lparr>ar_run_id = ctx_run_id ctx, ar_request_id = prop_id p, ar_status = status,
      ar_completed_at = now, ar_changed = changed,
      ar_effects = (if status = ActionSucceeded then (if changed then Changed else Unchanged)
                    else if status = ActionRejected then Unchanged else Unknown),
      ar_output = out, ar_postconditions = [], ar_rollback = None, ar_effect_latency = None,
      ar_issue = i\<rparr>"

definition checked_result :: "action_result \<Rightarrow> raised + action_result" where
  "checked_result r = map_sum (\<lambda>_. OtherRaised None) id (new_action_result r)"

text \<open>The result of a handler: \<open>RuntimeIssue\<close> refuses an empty code or message.\<close>

definition failure_result ::
  "agent_context \<Rightarrow> action_proposal \<Rightarrow> action_status \<Rightarrow> string \<Rightarrow> string \<Rightarrow> timestamp
   \<Rightarrow> raised + action_result" where
  "failure_result ctx p status code msg now =
     (if code = [] \<or> msg = [] then Inl (OtherRaised None)
      else checked_result
             (plain_result ctx p status False [] (Some (issue_at code (prop_target p))) now))"

text \<open>The \<open>except\<close> clauses of \<open>execute\<close>, in order.\<close>

fun handle_execution ::
  "agent_context \<Rightarrow> action_proposal \<Rightarrow> timestamp \<Rightarrow> engine_error \<Rightarrow> raised + action_result" where
  "handle_execution ctx p now (Refusal status code) = failure_result ctx p status code ''message'' now"
| "handle_execution ctx p now (Passed (RuntimeRaised code msg)) =
     failure_result ctx p ActionFailed code msg now"
| "handle_execution ctx p now (Passed (ProviderRaised e)) =
     failure_result ctx p (cerr_status e) (cerr_code e) ''message'' now"
| "handle_execution ctx p now (Passed TimedOut) =
     failure_result ctx p ActionFailed ''capability.timeout'' ''message'' now"
| "handle_execution ctx p now (Passed (OtherRaised _)) =
     failure_result ctx p ActionFailed ''capability.execution.failed'' ''message'' now"

text \<open>The \<open>except\<close> clauses of \<open>validate\<close>.\<close>

fun handle_validation ::
  "agent_context \<Rightarrow> action_proposal \<Rightarrow> timestamp \<Rightarrow> engine_error \<Rightarrow> raised + action_result" where
  "handle_validation ctx p now (Refusal status code) = failure_result ctx p status code ''message'' now"
| "handle_validation ctx p now (Passed (RuntimeRaised code msg)) =
     failure_result ctx p ActionFailed code msg now"
| "handle_validation ctx p now (Passed _) =
     failure_result ctx p ActionFailed ''capability.execution.failed'' ''message'' now"

definition validate_action ::
  "engine \<Rightarrow> clock_readings \<Rightarrow> agent_context \<Rightarrow> action_proposal \<Rightarrow> raised + action_result option" where
  "validate_action eng ck ctx p =
     (case admit_proposal eng ctx p of
        Inl e \<Rightarrow> map_sum id Some (handle_validation ctx p (ck_result ck) e)
      | Inr _ \<Rightarrow> Inr None)"

section \<open>Provider outcomes\<close>

definition provider_result ::
  "agent_context \<Rightarrow> action_proposal \<Rightarrow> raw_outcome \<Rightarrow> engine_error + action_result option" where
  "provider_result ctx p raw =
     (case raw of
        RawResult r _ \<Rightarrow>
          if ar_run_id r \<noteq> ctx_run_id ctx \<or> ar_request_id r \<noteq> prop_id p
          then Inl (Refusal ActionFailed ''capability.result.invalid-identity'')
          else Inr (Some r)
      | _ \<Rightarrow> Inr None)"

fun normalize_outcome :: "raw_outcome \<Rightarrow> engine_error + capability_outcome" where
  "normalize_outcome (RawResult r json) =
     (if json then Inr \<lparr>co_changed = ar_changed r, co_output = ar_output r\<rparr>
      else Inl (Refusal ActionFailed ''capability.output.invalid''))"
| "normalize_outcome (RawOutcome out) = Inr out"
| "normalize_outcome (RawMapping (Some out)) = Inr \<lparr>co_changed = False, co_output = out\<rparr>"
| "normalize_outcome (RawMapping None) = Inl (Refusal ActionFailed ''capability.output.invalid'')"
| "normalize_outcome RawOther = Inl (Refusal ActionFailed ''capability.output.invalid'')"

section \<open>Rollback\<close>

definition failed_rollback :: "string \<Rightarrow> string \<Rightarrow> timestamp \<Rightarrow> rollback_result" where
  "failed_rollback code target now =
     \<lparr>rr_status = ActionFailed, rr_completed_at = now, rr_changed = False, rr_effects = Unknown,
      rr_output = [], rr_issue = Some (issue_at code target)\<rparr>"

text \<open>The code of the exception, when it has one.\<close>

fun engine_error_code :: "engine_error \<Rightarrow> string option" where
  "engine_error_code (Refusal _ code) = (if code = [] then None else Some code)"
| "engine_error_code (Passed e) = raised_code e"

definition rollback_failure :: "engine_error \<Rightarrow> string \<Rightarrow> timestamp \<Rightarrow> rollback_result" where
  "rollback_failure e target now =
     failed_rollback (case engine_error_code e of None \<Rightarrow> ''capability.rollback.failed'' | Some c \<Rightarrow> c)
       target now"

definition rollback_outcome ::
  "agent_context \<Rightarrow> raw_outcome \<Rightarrow> timestamp \<Rightarrow> engine_error + rollback_result" where
  "rollback_outcome ctx raw now =
     (case raw of
        RawResult r _ \<Rightarrow>
          if ar_run_id r \<noteq> ctx_run_id ctx then Inl (Passed (OtherRaised None))
          else map_sum (\<lambda>_. Passed (OtherRaised None)) id (new_rollback_result
                 \<lparr>rr_status = ar_status r, rr_completed_at = now, rr_changed = ar_changed r,
                  rr_effects = ar_effects r, rr_output = ar_output r, rr_issue = ar_issue r\<rparr>)
      | _ \<Rightarrow> bind_res (normalize_outcome raw) (\<lambda>out.
               Inr \<lparr>rr_status = ActionSucceeded, rr_completed_at = now, rr_changed = co_changed out,
                    rr_effects = (if co_changed out then Changed else Unchanged),
                    rr_output = co_output out, rr_issue = None\<rparr>))"

text \<open>\<open>_rollback\<close>, for a capability with a rollback timeout.\<close>

definition roll_back ::
  "string \<Rightarrow> provider \<Rightarrow> agent_context \<Rightarrow> action_proposal \<Rightarrow> capability_outcome \<Rightarrow> timestamp
   \<Rightarrow> engine_call list \<times> rollback_result" where
  "roll_back timeout prv ctx q out now =
     (case prv_rollback prv of
        None \<Rightarrow> ([], failed_rollback ''capability.rollback.unsupported'' (prop_target q) now)
      | Some undo \<Rightarrow>
          (case duration_seconds timeout of
             None \<Rightarrow> ([], rollback_failure (Passed (OtherRaised None)) (prop_target q) now)
           | Some t \<Rightarrow>
               ([CalledRollback q t],
                case undo ctx q out t of
                  Inl e \<Rightarrow> rollback_failure (Passed e) (prop_target q) now
                | Inr raw \<Rightarrow>
                    (case rollback_outcome ctx raw now of
                       Inl e \<Rightarrow> rollback_failure e (prop_target q) now
                     | Inr rr \<Rightarrow> rr))))"

section \<open>Postconditions\<close>

definition postcondition_failure ::
  "capability \<Rightarrow> provider \<Rightarrow> agent_context \<Rightarrow> action_proposal \<Rightarrow> capability_outcome
   \<Rightarrow> action_result \<Rightarrow> clock_readings \<Rightarrow> postcondition_result list \<Rightarrow> rat
   \<Rightarrow> engine_call list \<times> action_result" where
  "postcondition_failure c prv ctx q out result ck checks seconds =
     (let (calls, rollback) =
        (case cap_rollback c of
           None \<Rightarrow> ([], None)
         | Some timeout \<Rightarrow>
             if ar_changed result
             then (let (calls, rr) = roll_back timeout prv ctx q out (ck_rollback ck) in (calls, Some rr))
             else ([], None));
        undone = (case rollback of None \<Rightarrow> False | Some rr \<Rightarrow> rr_status rr = ActionSucceeded);
        code = (if rollback \<noteq> None \<and> \<not> undone then ''capability.rollback.failed''
                else ''capability.postcondition.failed'') in
      (calls,
       result\<lparr>ar_status := ActionFailed, ar_completed_at := ck_final ck,
              ar_changed := (ar_changed result \<and> \<not> undone),
              ar_effects := (if rollback \<noteq> None then Unknown else ar_effects result),
              ar_postconditions := checks, ar_rollback := rollback,
              ar_effect_latency := Some seconds,
              ar_issue := Some (issue_at code (prop_target q))\<rparr>))"

definition verify_effect ::
  "engine \<Rightarrow> execution_definition \<Rightarrow> capability \<Rightarrow> provider \<Rightarrow> agent_context \<Rightarrow> action_proposal
   \<Rightarrow> capability_outcome \<Rightarrow> action_result \<Rightarrow> clock_readings
   \<Rightarrow> engine_call list \<times> (raised + action_result)" where
  "verify_effect eng d c prv ctx q out result ck =
     (if \<not> pp_postcondition_check (xd_policy d) \<or> cap_postconditions c = [] then ([], Inr result)
      else case eng_verifier eng of
        None \<Rightarrow>
          (let (calls, r) = postcondition_failure c prv ctx q out result ck [] 0 in (calls, Inr r))
      | Some check \<Rightarrow>
          (case check ctx q (cap_postconditions c) of
             Inl e \<Rightarrow> ([CalledVerify q], Inl e)
           | Inr rep \<Rightarrow>
               if report_satisfied rep
               then ([CalledVerify q],
                     Inr (result\<lparr>ar_completed_at := ck_final ck, ar_postconditions := vr_checks rep,
                                 ar_effect_latency := Some (vr_duration rep)\<rparr>))
               else (let (calls, r) =
                       postcondition_failure c prv ctx q out result ck (vr_checks rep) (vr_duration rep)
                     in (CalledVerify q # calls, Inr r))))"

section \<open>Execution\<close>

text \<open>What the \<open>try\<close> block of \<open>execute\<close> comes to.\<close>

datatype execution =
    Raised engine_error
  | Returned action_result
  | Completed execution_definition capability provider action_proposal capability_outcome
      "action_result option"

text \<open>The part of the \<open>try\<close> block after the provider has returned.\<close>

definition accept_outcome ::
  "engine \<Rightarrow> execution_definition \<Rightarrow> capability \<Rightarrow> provider \<Rightarrow> agent_context \<Rightarrow> action_proposal
   \<Rightarrow> raw_outcome \<Rightarrow> execution" where
  "accept_outcome eng d c prv ctx q raw =
     (case provider_result ctx q raw of
        Inl e \<Rightarrow> Raised e
      | Inr pr \<Rightarrow>
          if (case pr of None \<Rightarrow> False | Some r \<Rightarrow> ar_status r \<noteq> ActionSucceeded)
          then Returned (the pr)
          else (case bind_res (normalize_outcome raw) (\<lambda>out.
                       bind_res (validate_schema eng (cap_output_schema c) (co_output out)
                                  ''capability.output.invalid'' ActionFailed) (\<lambda>_. Inr out)) of
                  Inl e \<Rightarrow> Raised e
                | Inr out \<Rightarrow> Completed d c prv q out pr))"

definition run_provider ::
  "engine \<Rightarrow> agent_context \<Rightarrow> action_proposal \<Rightarrow> engine_call list \<times> execution" where
  "run_provider eng ctx p =
     (case admit_proposal eng ctx p of
        Inl e \<Rightarrow> ([], Raised e)
      | Inr (d, c, q) \<Rightarrow>
          (case cap_provider c of
             None \<Rightarrow> ([], Raised (Passed (OtherRaised None)))
           | Some name \<Rightarrow>
               (case create_provider name c (eng_providers eng) of
                  Inl e \<Rightarrow> ([], Raised (Passed e))
                | Inr prv \<Rightarrow>
                    ([CalledExecute name q],
                     case prv_execute prv ctx q of
                       Inl e \<Rightarrow> Raised (Passed e)
                     | Inr raw \<Rightarrow> accept_outcome eng d c prv ctx q raw))))"

definition execute_action ::
  "engine \<Rightarrow> clock_readings \<Rightarrow> agent_context \<Rightarrow> action_proposal
   \<Rightarrow> engine_call list \<times> (raised + action_result)" where
  "execute_action eng ck ctx p =
     (case run_provider eng ctx p of
        (calls, Raised e) \<Rightarrow> (calls, handle_execution ctx p (ck_result ck) e)
      | (calls, Returned r) \<Rightarrow> (calls, Inr r)
      | (calls, Completed d c prv q out pr) \<Rightarrow>
          (case (case pr of
                   Some r \<Rightarrow> Inr r
                 | None \<Rightarrow> checked_result (plain_result ctx q ActionSucceeded (co_changed out)
                                            (co_output out) None (ck_result ck))) of
             Inl e \<Rightarrow> (calls, Inl e)
           | Inr result \<Rightarrow>
               (let (more, r) = verify_effect eng d c prv ctx q out result ck in (calls @ more, r))))"

section \<open>Admission is authorization\<close>

definition authorized ::
  "engine \<Rightarrow> agent_context \<Rightarrow> action_proposal \<Rightarrow> execution_definition \<Rightarrow> capability \<Rightarrow> action_proposal \<Rightarrow> bool" where
  "authorized eng ctx p d c q \<longleftrightarrow>
     catalog_resolve (eng_catalog eng) (ctx_agent_id ctx) = Inr d
     \<and> scope_matches ctx (xd_instance d)
     \<and> c \<in> set (xd_capabilities d) \<and> cap_name c = prop_capability p
     \<and> prop_target p \<in> set (at_targets (ai_attachment (xd_instance d)))
     \<and> ctx_target_kind ctx \<in> set (cap_targets c) \<and> context_layer ctx \<in> set (cap_layers c)
     \<and> set (cap_effects c) \<subseteq> set (ai_privileges (xd_instance d))
     \<and> (\<exists>t. duration_seconds (ec_action_timeout (ai_execution (xd_instance d))) = Some t
          \<and> q = p\<lparr>prop_timeout := min (prop_timeout p) t\<rparr>)
     \<and> eng_schema eng (cap_input_schema c) (prop_arguments p) = ValueAccepted
     \<and> cap_provider c \<noteq> None"

lemma capability_named_Some:
  "capability_named d n = Some c \<Longrightarrow> c \<in> set (xd_capabilities d) \<and> cap_name c = n"
  by (auto simp: capability_named_def dest!: map_of_SomeD)

lemma resolve_context_Inr:
  "resolve_context eng ctx = Inr d \<longleftrightarrow>
     catalog_resolve (eng_catalog eng) (ctx_agent_id ctx) = Inr d \<and> scope_matches ctx (xd_instance d)"
  by (auto simp: resolve_context_def split: sum.splits raised.splits)

lemma authorize_proposal_Inr:
  "authorize_proposal d ctx p = Inr c \<longleftrightarrow>
     capability_named d (prop_capability p) = Some c
     \<and> prop_target p \<in> set (at_targets (ai_attachment (xd_instance d)))
     \<and> ctx_target_kind ctx \<in> set (cap_targets c) \<and> context_layer ctx \<in> set (cap_layers c)
     \<and> set (cap_effects c) \<subseteq> set (ai_privileges (xd_instance d))"
  by (auto simp: authorize_proposal_def split: option.splits)

lemma bounded_proposal_Inr:
  "bounded_proposal d p = Inr q \<longleftrightarrow>
     (\<exists>t. duration_seconds (ec_action_timeout (ai_execution (xd_instance d))) = Some t
        \<and> q = p\<lparr>prop_timeout := min (prop_timeout p) t\<rparr>)"
  by (auto simp: bounded_proposal_def split: option.splits)

lemma validate_schema_Inr:
  "validate_schema eng sc v code st = Inr u \<longleftrightarrow> eng_schema eng sc v = ValueAccepted"
  by (auto simp: validate_schema_def split: schema_verdict.splits)

lemma admit_proposal_Inr:
  assumes "admit_proposal eng ctx p = Inr (d, c, q)"
  shows "authorized eng ctx p d c q"
proof -
  have "resolve_context eng ctx = Inr d" "authorize_proposal d ctx p = Inr c" "bounded_proposal d p = Inr q"
    "eng_schema eng (cap_input_schema c) (prop_arguments q) = ValueAccepted" "cap_provider c \<noteq> None"
    using assms by (auto simp: admit_proposal_def bind_res_Inr_iff validate_schema_Inr split: if_splits)
  then show ?thesis
    unfolding authorized_def resolve_context_Inr authorize_proposal_Inr bounded_proposal_Inr
    using capability_named_Some by fastforce
qed

lemma authorized_kept:
  "authorized eng ctx p d c q \<Longrightarrow>
     prop_id q = prop_id p \<and> prop_target q = prop_target p \<and> prop_arguments q = prop_arguments p
     \<and> prop_timeout q \<le> prop_timeout p"
  by (auto simp: authorized_def)

text \<open>Admission fails with a refusal or an exception without a code, nothing else.\<close>

lemma admit_proposal_Inl:
  assumes "admit_proposal eng ctx p = Inl (Passed e)"
  shows "e = OtherRaised None"
proof -
  have "resolve_context eng ctx \<noteq> Inl (Passed e)"
    by (auto simp: resolve_context_def catalog_resolve_def agent_error_def split: option.splits)
  moreover have "authorize_proposal d ctx p \<noteq> Inl (Passed e)" for d
    by (auto simp: authorize_proposal_def split: option.splits)
  moreover have "e = OtherRaised None" if "bounded_proposal d p = Inl (Passed e)" for d
    using that by (auto simp: bounded_proposal_def split: option.splits)
  moreover have "e = OtherRaised None" if "validate_schema eng sc v code st = Inl (Passed e)" for sc v code st
    using that by (auto simp: validate_schema_def split: schema_verdict.splits)
  ultimately show ?thesis
    using assms by (auto simp: admit_proposal_def bind_res_Inl_iff split: if_splits)
qed

lemma run_provider_calls:
  assumes "run_provider eng ctx p = (calls, out)"
  shows "calls = [] \<and> (\<exists>e. out = Raised e) \<or>
    (\<exists>d c q name prv. admit_proposal eng ctx p = Inr (d, c, q) \<and> cap_provider c = Some name
       \<and> create_provider name c (eng_providers eng) = Inr prv \<and> calls = [CalledExecute name q]
       \<and> out = (case prv_execute prv ctx q of Inl e \<Rightarrow> Raised (Passed e)
                | Inr raw \<Rightarrow> accept_outcome eng d c prv ctx q raw))"
proof (cases "admit_proposal eng ctx p")
  case (Inl e)
  with assms show ?thesis by (auto simp: run_provider_def)
next
  case (Inr t)
  obtain d c q where t: "t = (d, c, q)" by (cases t)
  show ?thesis
  proof (cases "cap_provider c")
    case None
    with assms Inr show ?thesis by (auto simp: run_provider_def t)
  next
    case (Some name)
    with assms Inr show ?thesis
      by (cases "create_provider name c (eng_providers eng)") (auto simp: run_provider_def t)
  qed
qed

lemma accept_outcome_Completed:
  assumes "accept_outcome eng d c prv ctx q raw = Completed d' c' prv' q' out pr"
  shows "d' = d \<and> c' = c \<and> prv' = prv \<and> q' = q \<and> provider_result ctx q raw = Inr pr
    \<and> normalize_outcome raw = Inr out
    \<and> eng_schema eng (cap_output_schema c) (co_output out) = ValueAccepted
    \<and> (\<forall>r. pr = Some r \<longrightarrow> ar_status r = ActionSucceeded)"
  using assms
  by (auto simp: accept_outcome_def bind_res_Inr_iff validate_schema_Inr
      split: sum.splits option.splits if_splits)

lemma accept_outcome_Returned:
  assumes "accept_outcome eng d c prv ctx q raw = Returned r"
  shows "(\<exists>json. raw = RawResult r json) \<and> ar_run_id r = ctx_run_id ctx \<and> ar_request_id r = prop_id q
    \<and> ar_status r \<noteq> ActionSucceeded"
  using assms
  by (auto simp: accept_outcome_def provider_result_def split: sum.splits option.splits if_splits raw_outcome.splits)

lemma run_provider_Completed:
  assumes "run_provider eng ctx p = (calls, Completed d c prv q out pr)"
  shows "authorized eng ctx p d c q
    \<and> (\<exists>name raw. cap_provider c = Some name \<and> create_provider name c (eng_providers eng) = Inr prv
        \<and> calls = [CalledExecute name q] \<and> prv_execute prv ctx q = Inr raw
        \<and> provider_result ctx q raw = Inr pr \<and> normalize_outcome raw = Inr out)
    \<and> eng_schema eng (cap_output_schema c) (co_output out) = ValueAccepted
    \<and> (\<forall>r. pr = Some r \<longrightarrow> ar_status r = ActionSucceeded)"
proof -
  obtain d' c' q' name prv' where run: "admit_proposal eng ctx p = Inr (d', c', q')"
      "cap_provider c' = Some name" "create_provider name c' (eng_providers eng) = Inr prv'"
      "calls = [CalledExecute name q']"
    and out: "Completed d c prv q out pr = (case prv_execute prv' ctx q' of Inl e \<Rightarrow> Raised (Passed e)
        | Inr raw \<Rightarrow> accept_outcome eng d' c' prv' ctx q' raw)"
    using run_provider_calls [OF assms] by blast
  obtain raw where raw: "prv_execute prv' ctx q' = Inr raw"
      "accept_outcome eng d' c' prv' ctx q' raw = Completed d c prv q out pr"
    using out by (cases "prv_execute prv' ctx q'") simp_all
  from accept_outcome_Completed [OF raw(2)] raw(1) run admit_proposal_Inr [OF run(1)]
  show ?thesis by auto
qed

lemma run_provider_Returned:
  assumes "run_provider eng ctx p = (calls, Returned r)"
  obtains d c q name prv raw where "admit_proposal eng ctx p = Inr (d, c, q)"
    "create_provider name c (eng_providers eng) = Inr prv" "prv_execute prv ctx q = Inr raw"
    "accept_outcome eng d c prv ctx q raw = Returned r"
proof -
  obtain d c q name prv where run: "admit_proposal eng ctx p = Inr (d, c, q)"
      "create_provider name c (eng_providers eng) = Inr prv"
    and out: "Returned r = (case prv_execute prv ctx q of Inl e \<Rightarrow> Raised (Passed e)
        | Inr raw \<Rightarrow> accept_outcome eng d c prv ctx q raw)"
    using run_provider_calls [OF assms] by blast
  from out that [OF run] show thesis by (cases "prv_execute prv ctx q") simp_all
qed

section \<open>The call sequence\<close>

text \<open>The calls after the provider's \<open>execute\<close>: a verification, and a rollback when one was due.\<close>

definition effect_calls :: "capability \<Rightarrow> action_proposal \<Rightarrow> engine_call list \<Rightarrow> bool" where
  "effect_calls c q calls \<longleftrightarrow>
     calls = [] \<or> calls = [CalledVerify q]
     \<or> (\<exists>timeout t. cap_rollback c = Some timeout \<and> duration_seconds timeout = Some t
          \<and> (calls = [CalledRollback q t] \<or> calls = [CalledVerify q, CalledRollback q t]))"

lemma postcondition_failure_calls:
  assumes "postcondition_failure c prv ctx q out result ck checks seconds = (calls, r)"
  shows "calls = [] \<or> (\<exists>timeout t. cap_rollback c = Some timeout \<and> duration_seconds timeout = Some t
    \<and> calls = [CalledRollback q t])"
  using assms
  by (auto simp: postcondition_failure_def roll_back_def Let_def split: option.splits if_splits prod.splits)

lemma verify_effect_calls:
  assumes "verify_effect eng d c prv ctx q out result ck = (calls, r)"
  shows "effect_calls c q calls"
  using assms postcondition_failure_calls [of c prv ctx q out result ck]
  by (fastforce simp: verify_effect_def effect_calls_def Let_def
      split: if_splits option.splits sum.splits prod.splits)

lemma execute_action_cases:
  assumes "execute_action eng ck ctx p = (calls, res)"
  obtains (raised) e where "run_provider eng ctx p = (calls, Raised e)"
      "res = handle_execution ctx p (ck_result ck) e"
  | (returned) r where "run_provider eng ctx p = (calls, Returned r)" "res = Inr r"
  | (bad) d c prv q out e where "run_provider eng ctx p = (calls, Completed d c prv q out None)"
      "checked_result (plain_result ctx q ActionSucceeded (co_changed out) (co_output out) None
         (ck_result ck)) = Inl e" "res = Inl e"
  | (completed) first d c prv q out pr result more where
      "run_provider eng ctx p = (first, Completed d c prv q out pr)"
      "(case pr of Some r \<Rightarrow> Inr r
        | None \<Rightarrow> checked_result (plain_result ctx q ActionSucceeded (co_changed out) (co_output out) None
             (ck_result ck))) = Inr result"
      "verify_effect eng d c prv ctx q out result ck = (more, res)" "calls = first @ more"
proof (cases "run_provider eng ctx p")
  case (Pair first x)
  show thesis
  proof (cases x)
    case (Raised e)
    with Pair assms raised show thesis by (simp add: execute_action_def)
  next
    case (Returned r)
    with Pair assms returned show thesis by (simp add: execute_action_def)
  next
    case (Completed d c prv q out pr)
    let ?res = "case pr of Some r \<Rightarrow> Inr r
        | None \<Rightarrow> checked_result (plain_result ctx q ActionSucceeded (co_changed out) (co_output out) None
             (ck_result ck))"
    show thesis
    proof (cases ?res)
      case (Inl e)
      then have "pr = None" by (cases pr) simp_all
      with Inl Pair assms Completed show thesis by (intro bad [of d c prv q out e]) (auto simp: execute_action_def)
    next
      case (Inr result)
      obtain more r where v: "verify_effect eng d c prv ctx q out result ck = (more, r)"
        by (cases "verify_effect eng d c prv ctx q out result ck")
      have "calls = first @ more" "res = r"
        using assms Inr by (simp_all add: execute_action_def Pair Completed v)
      with completed [of first d c prv q out pr result more] Pair Completed Inr v show thesis by simp
    qed
  qed
qed

text \<open>C10. The provider is only reached for an authorized proposal: the calls of an execution are
  none, or one \<open>execute\<close> of the provider the capability names, with the proposal bounded by
  the declared timeout, where the agent is in the catalog, the context is its compiled scope,
  the capability is assigned to it and admits the target, the target kind, the layer and the
  input, and its effects are privileges of the agent; then validation would have raised no
  objection, and what follows is at most a verification and a rollback the capability
  configures.\<close>

theorem provider_runs_only_authorized:
  assumes "execute_action eng ck ctx p = (calls, res)"
  shows "calls = [] \<or>
    (\<exists>d c q name rest. calls = CalledExecute name q # rest
       \<and> authorized eng ctx p d c q \<and> cap_provider c = Some name
       \<and> validate_action eng ck ctx p = Inr None \<and> effect_calls c q rest)"
proof -
  have first: "first = [] \<or> (\<exists>d c q name. first = [CalledExecute name q] \<and> authorized eng ctx p d c q
      \<and> cap_provider c = Some name \<and> validate_action eng ck ctx p = Inr None)"
    if run: "run_provider eng ctx p = (first, x)" for first x
  proof (cases "first = []")
    case False
    then obtain d c q name where "admit_proposal eng ctx p = Inr (d, c, q)" "cap_provider c = Some name"
      "first = [CalledExecute name q]"
      using run_provider_calls [OF run] by blast
    with admit_proposal_Inr [of eng ctx p d c q] show ?thesis by (auto simp: validate_action_def)
  qed simp
  from assms show ?thesis
  proof (cases rule: execute_action_cases)
    case (completed f d c prv q out pr result more)
    note r = run_provider_Completed [OF completed(1)]
    with first [OF completed(1)] completed(4) verify_effect_calls [OF completed(3)]
    show ?thesis by (auto simp: validate_action_def)
  qed (use first in \<open>fastforce simp: effect_calls_def\<close>)+
qed

section \<open>Results are normalized\<close>

text \<open>What the engine relies on: a provider raises runtime errors with a code and a message and
  provider errors that are not successes, and returns well-formed results; the verifier returns
  for the postconditions of the catalog's capabilities.\<close>

definition provider_sound :: "provider \<Rightarrow> bool" where
  "provider_sound prv \<longleftrightarrow>
     (\<forall>ctx q. case prv_execute prv ctx q of
        Inl (RuntimeRaised c m) \<Rightarrow> c \<noteq> [] \<and> m \<noteq> []
      | Inl (ProviderRaised e) \<Rightarrow> cerr_code e \<noteq> [] \<and> cerr_status e \<noteq> ActionSucceeded
      | Inl _ \<Rightarrow> True
      | Inr (RawResult r _) \<Rightarrow> action_result_wf r
      | Inr _ \<Rightarrow> True)"

definition engine_sound :: "engine \<Rightarrow> bool" where
  "engine_sound eng \<longleftrightarrow>
     (\<forall>name c prv. create_provider name c (eng_providers eng) = Inr prv \<longrightarrow> provider_sound prv)
     \<and> (\<forall>check i d c ctx q. eng_verifier eng = Some check \<longrightarrow>
          catalog_resolve (eng_catalog eng) i = Inr d \<longrightarrow> c \<in> set (xd_capabilities d) \<longrightarrow>
          (\<exists>rep. check ctx q (cap_postconditions c) = Inr rep))"

definition answers_proposal :: "agent_context \<Rightarrow> action_proposal \<Rightarrow> action_result \<Rightarrow> bool" where
  "answers_proposal ctx p r \<longleftrightarrow>
     ar_run_id r = ctx_run_id ctx \<and> ar_request_id r = prop_id p \<and> action_result_wf r"

lemma checked_plain_result:
  assumes "ctx_run_id ctx \<noteq> []" "prop_id p \<noteq> []" "st = ActionSucceeded \<longleftrightarrow> i = None"
  shows "\<exists>r. checked_result (plain_result ctx p st ch out i now) = Inr r \<and> answers_proposal ctx p r"
  using assms
  by (auto simp: checked_result_def plain_result_def new_action_result_def issue_matches_status_def
      answers_proposal_def action_result_wf_def bind_res_def)

lemma failure_result_returns:
  assumes "ctx_run_id ctx \<noteq> []" "prop_id p \<noteq> []" "st \<noteq> ActionSucceeded" "code \<noteq> []" "msg \<noteq> []"
  shows "\<exists>r. failure_result ctx p st code msg now = Inr r \<and> answers_proposal ctx p r"
  using assms checked_plain_result [of ctx p st "Some (issue_at code (prop_target p))"]
  by (simp add: failure_result_def)

text \<open>An error the handlers turn into a result.\<close>

fun presentable :: "engine_error \<Rightarrow> bool" where
  "presentable (Refusal st code) = (st \<noteq> ActionSucceeded \<and> code \<noteq> [])"
| "presentable (Passed (RuntimeRaised code msg)) = (code \<noteq> [] \<and> msg \<noteq> [])"
| "presentable (Passed (ProviderRaised e)) = (cerr_status e \<noteq> ActionSucceeded \<and> cerr_code e \<noteq> [])"
| "presentable (Passed _) = True"

lemma handle_execution_returns:
  assumes "presentable e" "ctx_run_id ctx \<noteq> []" "prop_id p \<noteq> []"
  shows "\<exists>r. handle_execution ctx p now e = Inr r \<and> answers_proposal ctx p r"
  using assms by (cases e rule: presentable.cases) (simp_all add: failure_result_returns)

lemma catalog_error_presentable:
  assumes "catalog_resolve c i = Inl e"
  shows "\<exists>code. e = RuntimeRaised code ''message'' \<and> code \<noteq> []"
  using assms by (auto simp: catalog_resolve_def agent_error_def split: option.splits)

lemma admit_error_presentable:
  assumes "admit_proposal eng ctx p = Inl e"
  shows "presentable e"
proof -
  have "presentable e" if "resolve_context eng ctx = Inl e"
    using that by (auto simp: resolve_context_def catalog_resolve_def agent_error_def
        split: option.splits if_splits)
  moreover have "presentable e" if "authorize_proposal d ctx p = Inl e" for d
    using that by (auto simp: authorize_proposal_def split: option.splits if_splits)
  moreover have "presentable e" if "bounded_proposal d p = Inl e" for d
    using that by (auto simp: bounded_proposal_def split: option.splits)
  moreover have "presentable e"
    if "validate_schema eng sc v ''capability.input.invalid'' ActionRejected = Inl e" for sc v
    using that by (auto simp: validate_schema_def split: schema_verdict.splits)
  ultimately show ?thesis
    using assms by (auto simp: admit_proposal_def bind_res_Inl_iff split: if_splits)
qed

lemma accept_outcome_presentable:
  assumes "accept_outcome eng d c prv ctx q raw = Raised e"
  shows "presentable e"
proof -
  have "presentable e" if "provider_result ctx q raw = Inl e"
    using that by (auto simp: provider_result_def split: raw_outcome.splits if_splits)
  moreover have "presentable e" if "normalize_outcome raw = Inl e"
    using that by (cases raw rule: normalize_outcome.cases) (auto split: if_splits)
  moreover have "presentable e"
    if "validate_schema eng sc v ''capability.output.invalid'' ActionFailed = Inl e" for sc v
    using that by (auto simp: validate_schema_def split: schema_verdict.splits)
  ultimately show ?thesis
    using assms by (auto simp: accept_outcome_def bind_res_Inl_iff split: sum.splits if_splits)
qed

lemma create_provider_presentable:
  "create_provider name c r = Inl e \<Longrightarrow> presentable (Passed e)"
  by (auto simp: create_provider_def agent_error_def split: option.splits sum.splits if_splits)

lemma run_provider_presentable:
  assumes "engine_sound eng" "run_provider eng ctx p = (calls, Raised e)"
  shows "presentable e"
proof (cases "admit_proposal eng ctx p")
  case (Inl e')
  with assms(2) admit_error_presentable show ?thesis by (auto simp: run_provider_def)
next
  case (Inr t)
  obtain d c q where t: "t = (d, c, q)" by (cases t)
  obtain name where name: "cap_provider c = Some name"
    using admit_proposal_Inr [of eng ctx p d c q] Inr by (auto simp: t authorized_def)
  show ?thesis
  proof (cases "create_provider name c (eng_providers eng)")
    case (Inl e')
    then have "e = Passed e'" using assms(2) Inr name by (auto simp: run_provider_def t)
    with create_provider_presentable [OF Inl] show ?thesis by simp
  next
    case (Inr prv)
    have sound: "provider_sound prv" using assms(1) Inr by (auto simp: engine_sound_def)
    have out: "(case prv_execute prv ctx q of Inl e \<Rightarrow> Raised (Passed e)
        | Inr raw \<Rightarrow> accept_outcome eng d c prv ctx q raw) = Raised e"
      using assms(2) \<open>admit_proposal eng ctx p = Inr t\<close> name Inr by (auto simp: run_provider_def t)
    show ?thesis
    proof (cases "prv_execute prv ctx q")
      case (Inl x)
      with out have e: "e = Passed x" by simp
      have "case prv_execute prv ctx q of
        Inl (RuntimeRaised c m) \<Rightarrow> c \<noteq> [] \<and> m \<noteq> []
      | Inl (ProviderRaised e) \<Rightarrow> cerr_code e \<noteq> [] \<and> cerr_status e \<noteq> ActionSucceeded
      | Inl _ \<Rightarrow> True
      | Inr (RawResult r _) \<Rightarrow> action_result_wf r
      | Inr _ \<Rightarrow> True"
        using sound by (simp add: provider_sound_def)
      then show ?thesis by (simp add: e Inl split: raised.splits)
    next
      case (Inr raw)
      with out show ?thesis by (auto intro: accept_outcome_presentable)
    qed
  qed
qed

lemma provider_result_Some:
  "provider_result ctx q raw = Inr (Some r) \<Longrightarrow>
     (\<exists>json. raw = RawResult r json) \<and> ar_run_id r = ctx_run_id ctx \<and> ar_request_id r = prop_id q"
  by (auto simp: provider_result_def split: raw_outcome.splits if_splits)

lemma postcondition_failure_result:
  assumes "postcondition_failure c prv ctx q out result ck checks seconds = (calls, r)"
  shows "ar_run_id r = ar_run_id result \<and> ar_request_id r = ar_request_id result
    \<and> ar_status r = ActionFailed \<and> ar_issue r \<noteq> None \<and> ar_output r = ar_output result
    \<and> ar_postconditions r = checks
    \<and> (ar_rollback r \<noteq> None \<longleftrightarrow> ar_changed result \<and> cap_rollback c \<noteq> None)
    \<and> (ar_changed r \<longleftrightarrow> ar_changed result
        \<and> \<not> (\<exists>rr. ar_rollback r = Some rr \<and> rr_status rr = ActionSucceeded))"
  using assms
  by (auto simp: postcondition_failure_def Let_def split: option.splits prod.splits if_splits)

text \<open>
  The exceptions that leave \<open>execute\<close>. An action result has passed its constructor
  (\<open>results_constructed\<close>). The provider may raise an error that no issue can be made of, a
  runtime error without a code or a message (the constructor of \<open>CapabilityProviderError\<close> refuses
  such errors and successful ones), and the verifier, which is called outside the \<open>try\<close> block,
  may raise.
\<close>

definition results_constructed :: "engine \<Rightarrow> bool" where
  "results_constructed eng \<longleftrightarrow>
     (\<forall>name c prv ctx q r json. create_provider name c (eng_providers eng) = Inr prv \<longrightarrow>
        prv_execute prv ctx q = Inr (RawResult r json) \<longrightarrow> action_result_wf r)"

definition provider_raises :: "engine \<Rightarrow> agent_context \<Rightarrow> action_proposal \<Rightarrow> raised \<Rightarrow> bool" where
  "provider_raises eng ctx p x \<longleftrightarrow>
     (\<exists>d c q name prv. admit_proposal eng ctx p = Inr (d, c, q) \<and> cap_provider c = Some name
        \<and> create_provider name c (eng_providers eng) = Inr prv \<and> prv_execute prv ctx q = Inl x)"

definition verifier_raises :: "engine \<Rightarrow> agent_context \<Rightarrow> action_proposal \<Rightarrow> raised \<Rightarrow> bool" where
  "verifier_raises eng ctx p x \<longleftrightarrow>
     (\<exists>calls d c prv q out pr check. run_provider eng ctx p = (calls, Completed d c prv q out pr)
        \<and> pp_postcondition_check (xd_policy d) \<and> cap_postconditions c \<noteq> []
        \<and> eng_verifier eng = Some check \<and> check ctx q (cap_postconditions c) = Inl x)"

definition exception_leaves :: "engine \<Rightarrow> agent_context \<Rightarrow> action_proposal \<Rightarrow> bool" where
  "exception_leaves eng ctx p \<longleftrightarrow>
     (\<exists>x. provider_raises eng ctx p x \<and> \<not> presentable (Passed x)) \<or> (\<exists>x. verifier_raises eng ctx p x)"

lemma handle_execution_raises:
  assumes "\<not> presentable e"
  shows "\<exists>x. handle_execution ctx p now e = Inl x"
  using assms
  by (cases e rule: presentable.cases)
    (auto simp: failure_result_def checked_result_def plain_result_def new_action_result_def
      bind_res_def issue_matches_status_def)

lemma exception_leaves_raised:
  assumes "run_provider eng ctx p = (calls, Raised e)"
  shows "presentable e \<longleftrightarrow> \<not> exception_leaves eng ctx p"
proof -
  have "\<not> verifier_raises eng ctx p x" for x using assms by (auto simp: verifier_raises_def)
  moreover have "presentable e \<longleftrightarrow> \<not> (\<exists>x. provider_raises eng ctx p x \<and> \<not> presentable (Passed x))"
  proof (cases "\<exists>x. provider_raises eng ctx p x")
    case True
    then obtain x where x: "provider_raises eng ctx p x" by blast
    then have "e = Passed x" using assms by (auto simp: provider_raises_def run_provider_def)
    moreover have "y = x" if "provider_raises eng ctx p y" for y
      using x that by (auto simp: provider_raises_def)
    ultimately show ?thesis using x by blast
  next
    case False
    have "presentable e"
    proof (cases "admit_proposal eng ctx p")
      case (Inl e')
      with assms admit_error_presentable show ?thesis by (auto simp: run_provider_def)
    next
      case (Inr t)
      obtain d c q where t: "t = (d, c, q)" by (cases t)
      obtain name where name: "cap_provider c = Some name"
        using admit_proposal_Inr [of eng ctx p d c q] Inr by (auto simp: t authorized_def)
      show ?thesis
      proof (cases "create_provider name c (eng_providers eng)")
        case (Inl e')
        then have "e = Passed e'" using assms Inr name by (auto simp: run_provider_def t)
        with create_provider_presentable [OF Inl] show ?thesis by simp
      next
        case (Inr prv)
        have "\<exists>raw. prv_execute prv ctx q = Inr raw"
          using False \<open>admit_proposal eng ctx p = Inr t\<close> t name Inr
          by (cases "prv_execute prv ctx q") (auto simp: provider_raises_def)
        then obtain raw where "accept_outcome eng d c prv ctx q raw = Raised e"
          using assms \<open>admit_proposal eng ctx p = Inr t\<close> name Inr by (auto simp: run_provider_def t)
        then show ?thesis by (rule accept_outcome_presentable)
      qed
    qed
    with False show ?thesis by blast
  qed
  ultimately show ?thesis unfolding exception_leaves_def by blast
qed

lemma provider_raises_Raised:
  "provider_raises eng ctx p x \<Longrightarrow> \<exists>calls. run_provider eng ctx p = (calls, Raised (Passed x))"
  by (auto simp: provider_raises_def run_provider_def)

lemma verify_effect_answers:
  assumes "answers_proposal ctx p result"
    and "verify_effect eng d c prv ctx q out result ck = (calls, res)"
  shows "case res of
      Inr r \<Rightarrow> answers_proposal ctx p r
        \<and> \<not> (pp_postcondition_check (xd_policy d) \<and> cap_postconditions c \<noteq> []
             \<and> (\<exists>check x. eng_verifier eng = Some check \<and> check ctx q (cap_postconditions c) = Inl x))
    | Inl x \<Rightarrow> pp_postcondition_check (xd_policy d) \<and> cap_postconditions c \<noteq> []
        \<and> (\<exists>check. eng_verifier eng = Some check \<and> check ctx q (cap_postconditions c) = Inl x)"
proof -
  have failed: "answers_proposal ctx p r"
    if "postcondition_failure c prv ctx q out result ck checks seconds = (cs, r)" for checks seconds cs r
    using postcondition_failure_result [OF that] assms(1)
    by (auto simp: answers_proposal_def action_result_wf_def)
  show ?thesis
  proof (cases "\<not> pp_postcondition_check (xd_policy d) \<or> cap_postconditions c = []")
    case True
    with assms show ?thesis by (auto simp: verify_effect_def)
  next
    case checked: False
    show ?thesis
    proof (cases "eng_verifier eng")
      case None
      with checked assms(2) failed show ?thesis by (auto simp: verify_effect_def split: prod.splits)
    next
      case (Some check)
      show ?thesis
      proof (cases "check ctx q (cap_postconditions c)")
        case (Inl x)
        with checked Some assms(2) show ?thesis by (auto simp: verify_effect_def)
      next
        case (Inr report)
        with checked Some assms failed show ?thesis
          by (auto simp: verify_effect_def answers_proposal_def action_result_wf_def
              split: if_splits prod.splits)
      qed
    qed
  qed
qed

text \<open>The result before the postconditions are looked at.\<close>

lemma first_result_answers:
  assumes "results_constructed eng" "run_provider eng ctx p = (calls, Completed d c prv q out pr)"
    and "ctx_run_id ctx \<noteq> []" "prop_id p \<noteq> []"
  shows "\<exists>result. (case pr of Some r \<Rightarrow> Inr r
      | None \<Rightarrow> checked_result (plain_result ctx q ActionSucceeded (co_changed out) (co_output out) None now))
      = Inr result \<and> answers_proposal ctx p result"
proof (cases pr)
  case None
  have "prop_id q = prop_id p"
    using run_provider_Completed [OF assms(2)] authorized_kept by blast
  with checked_plain_result [of ctx q ActionSucceeded None "co_changed out" "co_output out" now] assms(3,4) None
  show ?thesis by (auto simp: answers_proposal_def)
next
  case (Some r)
  note run = run_provider_Completed [OF assms(2)]
  obtain name raw where raw: "create_provider name c (eng_providers eng) = Inr prv"
      "prv_execute prv ctx q = Inr raw" "provider_result ctx q raw = Inr (Some r)"
    using run Some by blast
  obtain json where "raw = RawResult r json" "ar_run_id r = ctx_run_id ctx" "ar_request_id r = prop_id q"
    using provider_result_Some [OF raw(3)] by blast
  moreover from this raw(1,2) assms(1) have "action_result_wf r" unfolding results_constructed_def by blast
  ultimately show ?thesis using authorized_kept run by (auto simp: Some answers_proposal_def)
qed

text \<open>C16. \<open>execute\<close> returns a result that answers this proposal of this run and is well formed (a
  failure has an issue, a success has none), whatever admission, the provider, the schemas and
  the rollback do, except in exactly these cases, in which an exception leaves it: the provider
  raised a runtime error with an empty code or message (or a provider error that its constructor
  does not allow), or the verifier raised.\<close>

theorem execute_normalizes:
  assumes "results_constructed eng" "ctx_run_id ctx \<noteq> []" "prop_id p \<noteq> []"
  shows "case snd (execute_action eng ck ctx p) of
      Inr r \<Rightarrow> answers_proposal ctx p r \<and> \<not> exception_leaves eng ctx p
    | Inl e \<Rightarrow> exception_leaves eng ctx p"
proof -
  obtain calls res where x: "execute_action eng ck ctx p = (calls, res)"
    by (cases "execute_action eng ck ctx p")
  from x have "case res of Inr r \<Rightarrow> answers_proposal ctx p r \<and> \<not> exception_leaves eng ctx p
    | Inl e \<Rightarrow> exception_leaves eng ctx p"
  proof (cases rule: execute_action_cases)
    case (raised e)
    note leaves = exception_leaves_raised [OF raised(1)]
    show ?thesis
    proof (cases "presentable e")
      case True
      from handle_execution_returns [OF True assms(2,3), of "ck_result ck"] obtain r where
        "handle_execution ctx p (ck_result ck) e = Inr r" "answers_proposal ctx p r" by blast
      with True leaves raised(2) show ?thesis by simp
    next
      case False
      from handle_execution_raises [OF False, of ctx p "ck_result ck"] obtain x where
        "handle_execution ctx p (ck_result ck) e = Inl x" by blast
      with False leaves raised(2) show ?thesis by simp
    qed
  next
    case (returned r)
    obtain d c q name prv raw where a: "admit_proposal eng ctx p = Inr (d, c, q)"
        "create_provider name c (eng_providers eng) = Inr prv" "prv_execute prv ctx q = Inr raw"
        "accept_outcome eng d c prv ctx q raw = Returned r"
      by (rule run_provider_Returned [OF returned(1)])
    obtain json where r: "raw = RawResult r json" "ar_run_id r = ctx_run_id ctx" "ar_request_id r = prop_id q"
      using accept_outcome_Returned [OF a(4)] by blast
    have "action_result_wf r" using assms(1) a(2,3) r(1) unfolding results_constructed_def by blast
    moreover have "\<not> exception_leaves eng ctx p"
      using returned(1) by (auto simp: exception_leaves_def verifier_raises_def dest: provider_raises_Raised)
    ultimately show ?thesis using r returned(2) authorized_kept [OF admit_proposal_Inr [OF a(1)]]
      by (simp add: answers_proposal_def)
  next
    case (bad d c prv q out e)
    with first_result_answers [OF assms(1) bad(1) assms(2,3), of "ck_result ck"] show ?thesis by auto
  next
    case (completed f d c prv q out pr result more)
    have "answers_proposal ctx p result"
      using first_result_answers [OF assms(1) completed(1) assms(2,3), of "ck_result ck"] completed(2) by simp
    note v = verify_effect_answers [OF this completed(3)]
    have "exception_leaves eng ctx p \<longleftrightarrow> pp_postcondition_check (xd_policy d) \<and> cap_postconditions c \<noteq> []
        \<and> (\<exists>check x. eng_verifier eng = Some check \<and> check ctx q (cap_postconditions c) = Inl x)"
      using completed(1) by (auto simp: exception_leaves_def verifier_raises_def dest: provider_raises_Raised)
    with v show ?thesis by (auto split: sum.splits)
  qed
  with x show ?thesis by simp
qed

text \<open>Validation predicts execution: what \<open>validate\<close> reports, \<open>execute\<close> returns, without any
  call; and when it reports nothing, the proposal is authorized.\<close>

lemma validation_predicts_execution:
  "case validate_action eng ck ctx p of
      Inr None \<Rightarrow> \<exists>d c q. authorized eng ctx p d c q
    | Inr (Some r) \<Rightarrow> execute_action eng ck ctx p = ([], Inr r)
    | Inl e \<Rightarrow> execute_action eng ck ctx p = ([], Inl e)"
proof (cases "admit_proposal eng ctx p")
  case (Inl e)
  have same: "handle_validation ctx p (ck_result ck) e = handle_execution ctx p (ck_result ck) e"
  proof (cases e)
    case (Passed x)
    with admit_proposal_Inl Inl have "x = OtherRaised None" by blast
    then show ?thesis by (simp add: Passed)
  qed simp
  have "execute_action eng ck ctx p = ([], handle_execution ctx p (ck_result ck) e)"
    by (simp add: execute_action_def run_provider_def Inl)
  then show ?thesis
    by (cases "handle_execution ctx p (ck_result ck) e") (simp_all add: validate_action_def Inl same)
next
  case (Inr t)
  obtain d c q where "t = (d, c, q)" by (cases t)
  with Inr admit_proposal_Inr [of eng ctx p d c q] show ?thesis by (auto simp: validate_action_def)
qed

section \<open>Success and rollback\<close>

lemma verify_effect_success:
  assumes "verify_effect eng d c prv ctx q out result ck = (calls, Inr r)" "ar_status r = ActionSucceeded"
  shows "ar_output r = ar_output result \<and> ar_changed r = ar_changed result
    \<and> (pp_postcondition_check (xd_policy d) \<and> cap_postconditions c \<noteq> [] \<longrightarrow>
        (\<exists>check rep. eng_verifier eng = Some check \<and> check ctx q (cap_postconditions c) = Inr rep
           \<and> report_satisfied rep \<and> ar_postconditions r = vr_checks rep))"
  using assms postcondition_failure_result [of c prv ctx q out result ck]
  by (fastforce simp: verify_effect_def split: if_splits option.splits sum.splits prod.splits)

lemma completed_result:
  assumes "run_provider eng ctx p = (calls, Completed d c prv q out pr)"
    and "(case pr of Some r \<Rightarrow> Inr r
      | None \<Rightarrow> checked_result (plain_result ctx q ActionSucceeded (co_changed out) (co_output out) None now))
      = Inr result"
  shows "ar_output result = co_output out \<and> ar_changed result = co_changed out"
proof (cases pr)
  case None
  with assms(2) show ?thesis
    by (auto simp: checked_result_def plain_result_def new_action_result_def bind_res_def
        issue_matches_status_def split: if_splits)
next
  case (Some r)
  obtain raw where "provider_result ctx q raw = Inr (Some r)" "normalize_outcome raw = Inr out"
    using run_provider_Completed [OF assms(1)] Some by blast
  with provider_result_Some obtain json where "raw = RawResult r json" by blast
  with \<open>normalize_outcome raw = Inr out\<close> assms(2) show ?thesis by (auto simp: Some split: if_splits)
qed

lemma verified_success:
  assumes "execute_action eng ck ctx p = (calls, Inr r)" "ar_status r = ActionSucceeded"
    and "engine_sound eng"
  shows "\<exists>d c q (out :: capability_outcome). authorized eng ctx p d c q
    \<and> eng_schema eng (cap_output_schema c) (co_output out) = ValueAccepted
    \<and> ar_output r = co_output out \<and> ar_changed r = co_changed out
    \<and> (pp_postcondition_check (xd_policy d) \<and> cap_postconditions c \<noteq> [] \<longrightarrow>
        (\<exists>check rep. eng_verifier eng = Some check \<and> check ctx q (cap_postconditions c) = Inr rep
           \<and> report_satisfied rep \<and> ar_postconditions r = vr_checks rep))"
  using assms(1)
proof (cases rule: execute_action_cases)
  case (raised e)
  note present = run_provider_presentable [OF assms(3) raised(1)]
  have "ar_status r \<noteq> ActionSucceeded"
    using raised(2) present
    by (cases e rule: presentable.cases)
      (auto simp: failure_result_def checked_result_def plain_result_def new_action_result_def
        bind_res_def issue_matches_status_def split: if_splits)
  with assms(2) show ?thesis by simp
next
  case (returned r')
  with accept_outcome_Returned assms(2) show ?thesis
    by (metis run_provider_Returned sum.inject(2))
next
  case (completed f d c prv q out pr result more)
  note run = run_provider_Completed [OF completed(1)]
  with completed_result [OF completed(1,2)] verify_effect_success [OF completed(3) assms(2)]
  have "authorized eng ctx p d c q
    \<and> eng_schema eng (cap_output_schema c) (co_output out) = ValueAccepted
    \<and> ar_output r = co_output out \<and> ar_changed r = co_changed out
    \<and> (pp_postcondition_check (xd_policy d) \<and> cap_postconditions c \<noteq> [] \<longrightarrow>
        (\<exists>check rep. eng_verifier eng = Some check \<and> check ctx q (cap_postconditions c) = Inr rep
           \<and> report_satisfied rep \<and> ar_postconditions r = vr_checks rep))"
    by simp
  then show ?thesis by blast
qed simp

text \<open>A success is an earned one: when \<open>execute\<close> reports success, the proposal was authorized
  and its provider returned an outcome whose output the output schema accepts and which the
  result carries, and under a policy that requires it every postcondition was observed to
  hold.\<close>

lemma success_is_verified:
  assumes "execute_action eng ck ctx p = (calls, Inr r)" "ar_status r = ActionSucceeded"
    and "engine_sound eng"
  shows "\<exists>d c q (out :: capability_outcome). authorized eng ctx p d c q
    \<and> eng_schema eng (cap_output_schema c) (co_output out) = ValueAccepted
    \<and> ar_output r = co_output out \<and> ar_changed r = co_changed out
    \<and> (pp_postcondition_check (xd_policy d) \<and> cap_postconditions c \<noteq> [] \<longrightarrow>
        (\<exists>check rep. eng_verifier eng = Some check \<and> check ctx q (cap_postconditions c) = Inr rep
           \<and> report_satisfied rep \<and> ar_postconditions r = vr_checks rep))"
  by (rule verified_success [OF assms])

text \<open>A change is only denied after it was undone: when the provider changed something and the
  result says unchanged, the capability's rollback ran after the postconditions were missed and
  succeeded, and the result is still a failure whose effects are unknown.\<close>

lemma unchanged_only_after_rollback:
  assumes "run_provider eng ctx p = (first, Completed d c prv q out pr)" "co_changed out"
    and "execute_action eng ck ctx p = (calls, Inr r)" "\<not> ar_changed r"
  shows "\<exists>t rr. CalledRollback q t \<in> set calls \<and> prv_rollback prv \<noteq> None
    \<and> ar_rollback r = Some rr \<and> rr_status rr = ActionSucceeded
    \<and> ar_status r = ActionFailed \<and> ar_effects r = Unknown"
  using assms(3)
proof (cases rule: execute_action_cases)
  case (completed f d' c' prv' q' out' pr' result more)
  have same: "d' = d" "c' = c" "prv' = prv" "q' = q" "out' = out" "pr' = pr"
    using assms(1) completed(1) by simp_all
  have changed: "ar_changed result" using completed_result [OF completed(1,2)] assms(2) same by simp
  have undone: "\<exists>t rr. CalledRollback q t \<in> set cs \<and> prv_rollback prv \<noteq> None
      \<and> ar_rollback r = Some rr \<and> rr_status rr = ActionSucceeded
      \<and> ar_status r = ActionFailed \<and> ar_effects r = Unknown"
    if missed: "postcondition_failure c prv ctx q out result ck checks seconds = (cs, r)" for cs checks seconds
  proof -
    obtain rr where rr: "ar_rollback r = Some rr" "rr_status rr = ActionSucceeded"
      using postcondition_failure_result [OF missed] changed assms(4) by auto
    with missed show ?thesis
      by (auto simp: postcondition_failure_def roll_back_def failed_rollback_def rollback_failure_def
          Let_def split: option.splits prod.splits if_splits)
  qed
  obtain before cs checks seconds where
      "postcondition_failure c prv ctx q out result ck checks seconds = (cs, r)" "more = before @ cs"
    using completed(3) changed assms(4)
    by (fastforce simp: verify_effect_def same split: if_splits option.splits sum.splits prod.splits)
  from undone [OF this(1)] this(2) completed(4) show ?thesis by (metis UnCI set_append)
qed (use assms(1) in simp_all)

section \<open>Witnesses\<close>

definition engine_sample_context :: agent_context where
  "engine_sample_context = \<lparr>ctx_invocation_id = ''i1'', ctx_run_id = ''r'', ctx_agent_id = ''a1'',
     ctx_deployment = ''d'', ctx_layer = DataLayer, ctx_custom_layer = None,
     ctx_target_kind = LinkKind, ctx_targets = [''l1''], ctx_capabilities = [''link.enable''],
     ctx_observations = [],
     ctx_shared_state = \<lparr>snap_scopes = [], snap_run = [], snap_deployment = []\<rparr>,
     ctx_coordination = None, ctx_intent = ''repair'', ctx_priority = 0, ctx_invoked_at = 0\<rparr>"

definition engine_sample_proposal :: action_proposal where
  "engine_sample_proposal = \<lparr>prop_id = ''p1'', prop_capability = ''link.enable'', prop_target = ''l1'',
     prop_arguments = [], prop_reason = None, prop_timeout = 60\<rparr>"

definition sample_provider :: provider where
  "sample_provider = \<lparr>prv_execute = (\<lambda>_ _. Inr (RawOutcome \<lparr>co_changed = True, co_output = []\<rparr>)),
     prv_rollback = Some (\<lambda>_ _ _ _. Inr (RawMapping (Some [])))\<rparr>"

text \<open>The engine over the sample plan, with a verifier whose one check has the given verdict.\<close>

definition sample_engine :: "bool \<Rightarrow> engine" where
  "sample_engine verdict = \<lparr>eng_catalog = sample_catalog,
     eng_providers = \<lparr>rg_kind = CapabilityKind, rg_plugins = [(''substrate'',
       \<lparr>pl_kind = Some CapabilityKind, pl_version = agent_contract_version,
        pl_factory = Some (\<lambda>_. Inr \<lparr>of_object = sample_provider, of_protocol = True,
                                    of_version = agent_contract_version\<rparr>)\<rparr>)]\<rparr>,
     eng_schema = (\<lambda>_ _. ValueAccepted),
     eng_verifier = Some (\<lambda>_ _ _. Inr \<lparr>vr_checks = [sample_check\<lparr>pr_satisfied := verdict\<rparr>],
                                        vr_duration = 1\<rparr>)\<rparr>"

definition sample_clock_readings :: clock_readings where
  "sample_clock_readings = \<lparr>ck_result = 1, ck_rollback = 2, ck_final = 3\<rparr>"

lemma sample_engine_sound: "engine_sound (sample_engine v)"
proof -
  have "prv = sample_provider" if "create_provider name c (eng_providers (sample_engine v)) = Inr prv" for name c prv
    using that by (auto simp: sample_engine_def create_provider_def split: if_splits)
  moreover have "provider_sound sample_provider"
    by (simp add: provider_sound_def sample_provider_def)
  ultimately show ?thesis
    unfolding engine_sound_def by (auto simp: sample_engine_def)
qed

definition sample_bounded :: action_proposal where
  "sample_bounded = engine_sample_proposal\<lparr>prop_timeout := 30\<rparr>"

lemma sample_action_timeout:
  "duration_seconds (ec_action_timeout (ai_execution sample_instance)) = Some 30"
  "duration_seconds ''10s'' = Some 10"
  by code_simp+

lemma sample_admitted:
  "admit_proposal (sample_engine v) engine_sample_context engine_sample_proposal
    = Inr (sample_definition, sample_capability, sample_bounded)"
proof -
  have "resolve_context (sample_engine v) engine_sample_context = Inr sample_definition"
    by (simp add: resolve_context_Inr sample_engine_def sample_catalog_def catalog_resolve_def
        engine_sample_context_def scope_matches_def sample_definition_def sample_instance_def)
  moreover have "authorize_proposal sample_definition engine_sample_context engine_sample_proposal = Inr sample_capability"
    by (simp add: authorize_proposal_Inr capability_named_def sample_definition_def sample_capability_def
        engine_sample_context_def engine_sample_proposal_def sample_instance_def context_layer_def)
  moreover have "bounded_proposal sample_definition engine_sample_proposal = Inr sample_bounded"
    using sample_action_timeout(1)
    by (simp add: bounded_proposal_Inr sample_definition_def sample_bounded_def engine_sample_proposal_def)
  ultimately show ?thesis
    by (simp add: admit_proposal_def validate_schema_def sample_engine_def sample_capability_def)
qed

lemma sample_run:
  "run_provider (sample_engine v) engine_sample_context engine_sample_proposal
    = ([CalledExecute ''substrate'' sample_bounded],
       Completed sample_definition sample_capability sample_provider sample_bounded
         \<lparr>co_changed = True, co_output = []\<rparr> None)"
proof -
  have "create_provider ''substrate'' sample_capability (eng_providers (sample_engine v)) = Inr sample_provider"
    by (simp add: create_provider_def sample_engine_def)
  moreover have "cap_provider sample_capability = Some ''substrate''" by (simp add: sample_capability_def)
  ultimately show ?thesis
    by (simp add: run_provider_def sample_admitted sample_provider_def accept_outcome_def
        provider_result_def validate_schema_def) (simp add: sample_engine_def)
qed

definition sample_success :: action_result where
  "sample_success = \<lparr>ar_run_id = ''r'', ar_request_id = ''p1'', ar_status = ActionSucceeded,
     ar_completed_at = 3, ar_changed = True, ar_effects = Changed, ar_output = [],
     ar_postconditions = [sample_check], ar_rollback = None, ar_effect_latency = Some 1,
     ar_issue = None\<rparr>"

definition sample_undone :: action_result where
  "sample_undone = \<lparr>ar_run_id = ''r'', ar_request_id = ''p1'', ar_status = ActionFailed,
     ar_completed_at = 3, ar_changed = False, ar_effects = Unknown, ar_output = [],
     ar_postconditions = [sample_check\<lparr>pr_satisfied := False\<rparr>],
     ar_rollback = Some \<lparr>rr_status = ActionSucceeded, rr_completed_at = 2, rr_changed = False,
       rr_effects = Unchanged, rr_output = [], rr_issue = None\<rparr>,
     ar_effect_latency = Some 1,
     ar_issue = Some (issue_at ''capability.postcondition.failed'' ''l1'')\<rparr>"

lemmas sample_engine_simps = execute_action_def sample_run checked_result_def plain_result_def
  new_action_result_def issue_matches_status_def verify_effect_def sample_engine_def
  sample_definition_def sample_policy_check_def sample_capability_def report_satisfied_def
  postcondition_failure_def roll_back_def rollback_outcome_def sample_action_timeout
  sample_provider_def sample_clock_readings_def engine_sample_context_def sample_bounded_def
  engine_sample_proposal_def

lemma sample_execution_ok:
  "execute_action (sample_engine True) sample_clock_readings engine_sample_context engine_sample_proposal
    = ([CalledExecute ''substrate'' sample_bounded, CalledVerify sample_bounded], Inr sample_success)"
  by (simp add: execute_action_def sample_run)
    (simp add: sample_engine_simps sample_success_def sample_check_def)

lemma sample_execution_undone:
  "execute_action (sample_engine False) sample_clock_readings engine_sample_context engine_sample_proposal
    = ([CalledExecute ''substrate'' sample_bounded, CalledVerify sample_bounded,
        CalledRollback sample_bounded 10], Inr sample_undone)"
  by (simp add: execute_action_def sample_run)
    (simp add: sample_engine_simps sample_undone_def sample_check_def)

theorem provider_runs_only_authorized_witness:
  "\<exists>d c. authorized (sample_engine False) engine_sample_context engine_sample_proposal d c sample_bounded
    \<and> effect_calls c sample_bounded [CalledVerify sample_bounded, CalledRollback sample_bounded 10]"
  using provider_runs_only_authorized [OF sample_execution_undone] by auto

lemma sample_results_constructed: "results_constructed (sample_engine v)"
proof -
  have "prv = sample_provider" if "create_provider name c (eng_providers (sample_engine v)) = Inr prv" for name c prv
    using that by (auto simp: sample_engine_def create_provider_def split: if_splits)
  then show ?thesis unfolding results_constructed_def by (fastforce simp: sample_provider_def)
qed

theorem execute_normalizes_witness:
  "answers_proposal engine_sample_context engine_sample_proposal sample_undone
    \<and> \<not> exception_leaves (sample_engine False) engine_sample_context engine_sample_proposal"
  using execute_normalizes [OF sample_results_constructed, of engine_sample_context engine_sample_proposal
      False sample_clock_readings] sample_execution_undone
  by (simp add: engine_sample_context_def engine_sample_proposal_def)

section \<open>The engine with the polling verifier\<close>

text \<open>\<open>PostconditionVerifier\<close> put into the engine: it returns for valid postconditions when the
  clock of each polling moves on by the time slept.\<close>

definition postconditions_valid :: "postcondition list \<Rightarrow> bool" where
  "postconditions_valid pcs \<longleftrightarrow> (\<forall>pc\<in>set pcs. new_postcondition pc = Inr pc)"

definition pollings_advance :: "(nat \<Rightarrow> polling) \<Rightarrow> nat \<Rightarrow> postcondition list \<Rightarrow> bool" where
  "pollings_advance pos i pcs \<longleftrightarrow>
     (\<forall>k<length pcs. clock_advances (pos (i + k))
        (the (duration_seconds (pc_timeout (pcs ! k)))) (the (duration_seconds (pc_interval (pcs ! k)))))"

lemma verify_all_returns:
  assumes "postconditions_valid pcs" "pollings_advance pos i pcs"
  shows "\<exists>cs. verify_all rid target pos i pcs = Some (Inr cs) \<and> length cs = length pcs"
  using assms
proof (induction pcs arbitrary: i)
  case Nil
  then show ?case by simp
next
  case (Cons pc pcs)
  have new: "new_postcondition pc = Inr pc" using Cons.prems(1) by (simp add: postconditions_valid_def)
  then obtain timeout interval where d: "duration_seconds (pc_timeout pc) = Some timeout"
    "duration_seconds (pc_interval pc) = Some interval"
    using new_postcondition_Inr by blast
  have "clock_advances (pos i) timeout interval"
    using Cons.prems(2) d unfolding pollings_advance_def by (metis add_0_right length_greater_0_conv
        list.distinct(1) nth_Cons_0 option.sel)
  then obtain r where r: "verify_one rid target pc (pos i) = Some (Inr r)"
    using polling_returns [OF new d] by blast
  have "pollings_advance pos (Suc i) pcs"
    using Cons.prems(2) unfolding pollings_advance_def
    by (auto dest: spec [of _ "Suc k" for k])
  with Cons.IH [of "Suc i"] Cons.prems(1) obtain cs where
    "verify_all rid target pos (Suc i) pcs = Some (Inr cs)" "length cs = length pcs"
    by (auto simp: postconditions_valid_def)
  with r show ?case by simp
qed

definition polling_verifier ::
  "rat \<Rightarrow> rat \<Rightarrow> (nat \<Rightarrow> polling) \<Rightarrow> agent_context \<Rightarrow> action_proposal \<Rightarrow> postcondition list
   \<Rightarrow> raised + verification_report" where
  "polling_verifier started ended pos ctx q pcs =
     (case verify started ended pos ctx q pcs of None \<Rightarrow> Inl TimedOut | Some res \<Rightarrow> res)"

lemma polling_verifier_returns:
  assumes "postconditions_valid pcs" "pollings_advance pos 0 pcs"
  shows "\<exists>rep. polling_verifier started ended pos ctx q pcs = Inr rep"
proof -
  obtain cs where "verify_all (ctx_run_id ctx) (prop_target q) pos 0 pcs = Some (Inr cs)"
    using verify_all_returns [OF assms] by blast
  then show ?thesis by (simp add: polling_verifier_def verify_def)
qed

text \<open>So the polling verifier lets no exception leave \<open>execute\<close>.\<close>

lemma polling_verifier_never_raises:
  assumes "eng_verifier eng = Some (polling_verifier started ended pos)"
    and "\<And>i d c. catalog_resolve (eng_catalog eng) i = Inr d \<Longrightarrow> c \<in> set (xd_capabilities d) \<Longrightarrow>
      postconditions_valid (cap_postconditions c) \<and> pollings_advance pos 0 (cap_postconditions c)"
  shows "\<not> verifier_raises eng ctx p x"
proof
  assume "verifier_raises eng ctx p x"
  then obtain calls d c prv q out pr where run: "run_provider eng ctx p = (calls, Completed d c prv q out pr)"
    and raises: "polling_verifier started ended pos ctx q (cap_postconditions c) = Inl x"
    using assms(1) by (auto simp: verifier_raises_def)
  have "authorized eng ctx p d c q" using run_provider_Completed [OF run] by blast
  then have "postconditions_valid (cap_postconditions c)" "pollings_advance pos 0 (cap_postconditions c)"
    using assms(2) by (auto simp: authorized_def)
  from polling_verifier_returns [OF this, of started ended ctx q] raises show False by auto
qed

lemma verify_one_met:
  assumes "verify_one rid target pc po = Some (Inr r)" "pr_satisfied r"
  shows "\<exists>n\<ge>1. meets rid target pc (po_observe po n)"
proof -
  obtain timeout a i s n where "poll_loop rid target pc (po_start po + timeout) po 1 JNull = Some (a, i, s, n)"
    "pr_satisfied r = s"
    by (rule verify_one_Inr [OF assms(1)]) simp
  with poll_loop_verdict assms(2) show ?thesis by (fastforce simp: loop_verdict_def)
qed

lemma verify_all_met:
  assumes "verify_all rid target pos i pcs = Some (Inr cs)" "list_all pr_satisfied cs" "k < length pcs"
  shows "\<exists>n\<ge>1. meets rid target (pcs ! k) (po_observe (pos (i + k)) n)"
  using assms
proof (induction pcs arbitrary: i cs k)
  case Nil
  then show ?case by simp
next
  case (Cons pc pcs)
  obtain c ds where one: "verify_one rid target pc (pos i) = Some (Inr c)"
    and rest: "verify_all rid target pos (Suc i) pcs = Some (Inr ds)" and cs: "cs = c # ds"
    using Cons.prems(1) by (auto split: option.splits sum.splits)
  show ?case
  proof (cases k)
    case 0
    with verify_one_met [OF one] Cons.prems(2) cs show ?thesis by simp
  next
    case (Suc k')
    with Cons.IH [OF rest, of k'] Cons.prems(2,3) cs show ?thesis by simp
  qed
qed

text \<open>C22. Engine and verifier together: when an action is reported as succeeded under a policy
  that requires the check, each postcondition of its capability was met by an observation of the
  proposal's target in this run, made after the provider returned.\<close>

theorem success_was_observed:
  assumes "execute_action eng ck ctx p = (calls, Inr r)" "ar_status r = ActionSucceeded"
    and "engine_sound eng" "eng_verifier eng = Some (polling_verifier started ended pos)"
  shows "\<exists>d c q. authorized eng ctx p d c q
    \<and> (pp_postcondition_check (xd_policy d) \<longrightarrow>
        (\<forall>k<length (cap_postconditions c). \<exists>n\<ge>1.
           meets (ctx_run_id ctx) (prop_target p) (cap_postconditions c ! k) (po_observe (pos k) n)))"
proof -
  obtain d c q where auth: "authorized eng ctx p d c q"
    and rep: "pp_postcondition_check (xd_policy d) \<and> cap_postconditions c \<noteq> [] \<longrightarrow>
        (\<exists>check rep. eng_verifier eng = Some check \<and> check ctx q (cap_postconditions c) = Inr rep
           \<and> report_satisfied rep)"
    using verified_success [OF assms(1-3)] by blast
  have "\<exists>n\<ge>1. meets (ctx_run_id ctx) (prop_target p) (cap_postconditions c ! k) (po_observe (pos k) n)"
    if due: "pp_postcondition_check (xd_policy d)" "k < length (cap_postconditions c)" for k
  proof -
    have "cap_postconditions c \<noteq> []" using due(2) by auto
    then obtain rep where "polling_verifier started ended pos ctx q (cap_postconditions c) = Inr rep"
      "report_satisfied rep"
      using rep due(1) assms(4) by auto
    then obtain cs where "verify_all (ctx_run_id ctx) (prop_target q) pos 0 (cap_postconditions c) = Some (Inr cs)"
      "list_all pr_satisfied cs"
      by (auto simp: polling_verifier_def verify_def report_satisfied_def split: option.splits sum.splits)
    with verify_all_met [of "ctx_run_id ctx" "prop_target q" pos 0 "cap_postconditions c" cs k] due(2)
      authorized_kept [OF auth] show ?thesis by simp
  qed
  with auth show ?thesis by blast
qed

text \<open>The sample engine with the polling of the link's state.\<close>

definition polling_engine :: engine where
  "polling_engine = (sample_engine True)\<lparr>eng_verifier := Some (polling_verifier 0 1 (\<lambda>_. sample_polling))\<rparr>"

lemma polling_engine_sound: "engine_sound polling_engine"
proof -
  have "\<exists>rep. polling_verifier 0 1 (\<lambda>_. sample_polling) ctx q (cap_postconditions c) = Inr rep"
    if "catalog_resolve sample_catalog i = Inr d" "c \<in> set (xd_capabilities d)" for i d c ctx q
  proof -
    have "cap_postconditions c = [sample_postcondition]"
      using that by (auto simp: sample_catalog_def catalog_resolve_def sample_definition_def
          sample_capability_def split: if_splits)
    with sample_durations sample_clock show ?thesis
      by (auto intro!: polling_verifier_returns simp: postconditions_valid_def pollings_advance_def)
  qed
  with sample_engine_sound [of True] show ?thesis
    unfolding engine_sound_def by (auto simp: polling_engine_def sample_engine_def)
qed

lemma verifier_irrelevant:
  "admit_proposal (eng\<lparr>eng_verifier := v\<rparr>) ctx p = admit_proposal eng ctx p"
  "accept_outcome (eng\<lparr>eng_verifier := v\<rparr>) d c prv ctx q raw = accept_outcome eng d c prv ctx q raw"
  "run_provider (eng\<lparr>eng_verifier := v\<rparr>) ctx p = run_provider eng ctx p"
proof -
  show admit: "admit_proposal (eng\<lparr>eng_verifier := v\<rparr>) ctx p = admit_proposal eng ctx p"
    by (simp add: admit_proposal_def resolve_context_def validate_schema_def)
  have schema: "validate_schema (eng\<lparr>eng_verifier := v\<rparr>) = validate_schema eng"
    by (simp add: validate_schema_def fun_eq_iff)
  have accept: "accept_outcome (eng\<lparr>eng_verifier := v\<rparr>) d c prv ctx q raw
      = accept_outcome eng d c prv ctx q raw" for d c prv q raw
    unfolding accept_outcome_def schema ..
  then show "accept_outcome (eng\<lparr>eng_verifier := v\<rparr>) d c prv ctx q raw
      = accept_outcome eng d c prv ctx q raw" .
  show "run_provider (eng\<lparr>eng_verifier := v\<rparr>) ctx p = run_provider eng ctx p"
  proof -
    have providers: "eng_providers (eng\<lparr>eng_verifier := v\<rparr>) = eng_providers eng" by simp
    show ?thesis unfolding run_provider_def admit accept providers ..
  qed
qed

lemma polling_engine_run:
  "run_provider polling_engine engine_sample_context engine_sample_proposal
    = run_provider (sample_engine True) engine_sample_context engine_sample_proposal"
  unfolding polling_engine_def by (rule verifier_irrelevant(3))

lemma polling_engine_execution:
  "execute_action polling_engine sample_clock_readings engine_sample_context engine_sample_proposal
    = ([CalledExecute ''substrate'' sample_bounded, CalledVerify sample_bounded], Inr sample_success)"
proof -
  have "polling_verifier 0 1 (\<lambda>_. sample_polling) engine_sample_context sample_bounded [sample_postcondition]
      = Inr \<lparr>vr_checks = [sample_check], vr_duration = 1\<rparr>"
    using sample_polled
    by (simp add: polling_verifier_def verify_def engine_sample_context_def sample_bounded_def
        engine_sample_proposal_def)
  moreover have checked: "checked_result (plain_result engine_sample_context sample_bounded ActionSucceeded True [] None
      (ck_result sample_clock_readings)) = Inr (sample_success\<lparr>ar_completed_at := 1,
        ar_postconditions := [], ar_effect_latency := None\<rparr>)"
    by (simp add: sample_engine_simps sample_success_def)
  moreover have "pr_satisfied sample_check" by (simp add: sample_check_def)
  then have "report_satisfied \<lparr>vr_checks = [sample_check], vr_duration = 1\<rparr>"
    by (simp add: report_satisfied_def)
  ultimately have "verify_effect polling_engine sample_definition sample_capability sample_provider
      engine_sample_context sample_bounded out (sample_success\<lparr>ar_completed_at := 1,
        ar_postconditions := [], ar_effect_latency := None\<rparr>) sample_clock_readings
      = ([CalledVerify sample_bounded], Inr sample_success)" for out
    by (simp add: verify_effect_def polling_engine_def sample_definition_def sample_policy_check_def
        sample_capability_def) (simp add: sample_success_def sample_clock_readings_def)
  with checked show ?thesis by (simp add: execute_action_def polling_engine_run sample_run)
qed

theorem success_was_observed_witness:
  "\<exists>d c q. authorized polling_engine engine_sample_context engine_sample_proposal d c q
    \<and> (pp_postcondition_check (xd_policy d) \<longrightarrow>
        (\<forall>k<length (cap_postconditions c). \<exists>n\<ge>1.
           meets ''r'' ''l1'' (cap_postconditions c ! k) (po_observe sample_polling n)))"
proof -
  have "ar_status sample_success = ActionSucceeded"
    "eng_verifier polling_engine = Some (polling_verifier 0 1 (\<lambda>_. sample_polling))"
    by (simp_all add: sample_success_def polling_engine_def)
  from success_was_observed [OF polling_engine_execution this(1) polling_engine_sound this(2)]
  show ?thesis by (simp add: engine_sample_context_def engine_sample_proposal_def)
qed

end
