(* ===== verification/Topology.thy ===== *)
theory Topology
  imports Specification
begin

text \<open>
  The resource graph of a plan: the topology of a specification
  (\<open>mininet_ai/specification/models.py\<close>), and from \<open>mininet_ai/compiler/compiler.py\<close> the checks
  of \<open>_validate_resource_graph\<close>, the adapters of hosts and switches and the links between them.

  A dictionary in insertion order is an association list; the drafts of one owner, which the
  code also keeps under \<open>by_owner\<close> in the same order, are the drafts with that owner.
  Addresses are numbers with a prefix length; the text of an address is made where the planned
  port is.
\<close>

section \<open>Numerals\<close>

text \<open>The digits of a number in a base, and \<open>str\<close> of a non-negative integer.\<close>

definition digit_char :: "nat \<Rightarrow> char" where
  "digit_char d = char_of (if d < 10 then 48 + d else 87 + d)"

fun digits_in :: "nat \<Rightarrow> nat \<Rightarrow> string" where
  "digits_in b n = (if n < b \<or> b < 2 then [digit_char n] else digits_in b (n div b) @ [digit_char (n mod b)])"

declare digits_in.simps [simp del]

definition decimal :: "nat \<Rightarrow> string" where
  "decimal n = digits_in 10 n"

lemma digits_value_append: "digits_value (xs @ ys) n = digits_value ys (digits_value xs n)"
  by (induction xs arbitrary: n) simp_all

lemma digits_value_decimal: "digits_value (decimal n) 0 = n"
  unfolding decimal_def
proof (induction n rule: less_induct)
  case (less n)
  have digit: "of_char (digit_char d) - 48 = d" if "d < 10" for d
    using that by (simp add: digit_char_def)
  show ?case
  proof (cases "n < 10")
    case True
    then show ?thesis by (simp add: digits_in.simps [of 10 n] digit)
  next
    case False
    then have "digits_value (digits_in 10 (n div 10)) 0 = n div 10" by (intro less) simp
    with False show ?thesis by (simp add: digits_in.simps [of 10 n] digits_value_append digit)
  qed
qed

lemma decimal_inj: "decimal m = decimal n \<Longrightarrow> m = n"
  by (metis digits_value_decimal)

text \<open>A number of \<open>w\<close> hexadecimal digits, as the formats \<open>02x\<close> and \<open>016x\<close> write it.\<close>

fun hex_digits :: "nat \<Rightarrow> nat \<Rightarrow> string" where
  "hex_digits 0 n = []"
| "hex_digits (Suc w) n = hex_digits w (n div 16) @ [digit_char (n mod 16)]"

section \<open>Topology of a specification\<close>

datatype controller_type = Builtin | Remote

datatype controller_protocol = Tcp | Ssl

datatype openflow = OpenFlow10 | OpenFlow11 | OpenFlow12 | OpenFlow13 | OpenFlow14 | OpenFlow15

datatype fail_mode = Standalone | Secure

datatype datapath = Kernel | Userspace

text \<open>A port number is given or \<open>auto\<close> (\<open>None\<close>).\<close>

record switch_port =
  sp_name :: "string option"
  sp_number :: "nat option"
  sp_mtu :: nat

datatype ip_setting = IpFixed nat nat | IpAuto | IpNone

record host_interface =
  hi_name :: "string option"
  hi_ipv4 :: ip_setting
  hi_mac :: string
  hi_mtu :: nat

record switch_body =
  sw_dpid :: "string option"
  sw_fail_mode :: fail_mode
  sw_datapath :: datapath
  sw_controllers :: "string list"
  sw_protocols :: "openflow list"
  sw_ports :: "switch_port list"

record controller_body =
  cb_type :: controller_type
  cb_address :: "string option"
  cb_protocol :: controller_protocol
  cb_port :: nat

datatype node_body =
    NetworkBody
  | RegionBody
  | FlowBody
  | ControllerBody controller_body
  | DomainBody "string list"
  | SwitchBody switch_body
  | HostBody "host_interface list" "string option"

record node =
  nd_name :: string
  nd_labels :: "(string \<times> string) list"
  nd_parent :: "string option"
  nd_attributes :: json_object
  nd_body :: node_body

record link_endpoint =
  le_node :: string
  le_adapter :: "string option"

record link =
  ln_name :: string
  ln_endpoints :: "link_endpoint \<times> link_endpoint"
  ln_labels :: "(string \<times> string) list"
  ln_attributes :: json_object
  ln_bandwidth :: "rat option"
  ln_delay :: "string option"
  ln_jitter :: "string option"
  ln_loss :: rat
  ln_max_queue :: "nat option"

record subnet =
  sn_network :: nat
  sn_prefix :: nat

record topology =
  tp_subnet :: subnet
  tp_mac_prefix :: string
  tp_resources :: "node list"
  tp_links :: "link list"

datatype topology_error =
    TopologyField
  | RemoteWithoutAddress
  | PortNotPositive
  | MacMalformed
  | MacNotUnicast
  | DpidMalformed
  | DpidZero
  | PrefixMalformed
  | PrefixNotLocal
  | EndpointsEqual

section \<open>Checks of the constructors\<close>

definition hex_char :: "char \<Rightarrow> bool" where
  "hex_char c = (ascii_digit c \<or> (CHR ''a'' \<le> c \<and> c \<le> CHR ''f'') \<or> (CHR ''A'' \<le> c \<and> c \<le> CHR ''F''))"

definition lower_char :: "char \<Rightarrow> char" where
  "lower_char c = (if CHR ''A'' \<le> c \<and> c \<le> CHR ''Z'' then char_of ((of_char c :: nat) + 32) else c)"

definition lower :: "string \<Rightarrow> string" where
  "lower s = map lower_char s"

definition hex_digit_value :: "char \<Rightarrow> nat" where
  "hex_digit_value c =
     (let n = of_char (lower_char c) in if n < 58 then n - 48 else n - 87)"

text \<open>\<open>int(s, 16)\<close> on hexadecimal digits.\<close>

definition hex_value :: "string \<Rightarrow> nat" where
  "hex_value s = foldl (\<lambda>n c. 16 * n + hex_digit_value c) 0 s"

text \<open>\<open>s.split(c)\<close>.\<close>

fun split_on :: "char \<Rightarrow> string \<Rightarrow> string list" where
  "split_on c [] = [[]]"
| "split_on c (x # xs) =
     (if x = c then [] # split_on c xs
      else case split_on c xs of [] \<Rightarrow> [[x]] | p # ps \<Rightarrow> (x # p) # ps)"

text \<open>\<open>n\<close> two-digit hexadecimal octets with colons between them.\<close>

definition octets_ok :: "nat \<Rightarrow> string \<Rightarrow> bool" where
  "octets_ok n s =
     (let ps = split_on (CHR '':'') s in
      length ps = n \<and> list_all (\<lambda>p. length p = 2 \<and> list_all hex_char p) ps)"

definition mac_octets :: "string \<Rightarrow> nat list" where
  "mac_octets s = map hex_value (split_on (CHR '':'') s)"

definition valid_mac :: "string \<Rightarrow> topology_error + string" where
  "valid_mac s =
     (if s = ''auto'' then Inr s
      else if \<not> octets_ok 6 s then Inl MacMalformed
      else if odd (hd (mac_octets (lower s))) then Inl MacNotUnicast
      else Inr (lower s))"

definition valid_mac_prefix :: "string \<Rightarrow> topology_error + string" where
  "valid_mac_prefix s =
     (if \<not> octets_ok 3 s then Inl PrefixMalformed
      else if hd (mac_octets (lower s)) mod 4 \<noteq> 2 then Inl PrefixNotLocal
      else Inr (lower s))"

definition zfill :: "nat \<Rightarrow> string \<Rightarrow> string" where
  "zfill w s = replicate (w - length s) (CHR ''0'') @ s"

definition valid_dpid :: "string option \<Rightarrow> topology_error + string option" where
  "valid_dpid d =
     (case d of
        None \<Rightarrow> Inr None
      | Some s \<Rightarrow>
          if \<not> (1 \<le> length s \<and> length s \<le> 16 \<and> list_all hex_char s) then Inl DpidMalformed
          else if hex_value s = 0 then Inl DpidZero
          else Inr (Some (zfill 16 (lower s))))"

definition new_switch_port :: "switch_port \<Rightarrow> topology_error + switch_port" where
  "new_switch_port p =
     (if \<not> (case sp_name p of None \<Rightarrow> True | Some n \<Rightarrow> name_ok n) \<or> sp_mtu p < 576 \<or> 65535 < sp_mtu p
      then Inl TopologyField
      else if sp_number p = Some 0 then Inl PortNotPositive
      else Inr p)"

definition new_host_interface :: "host_interface \<Rightarrow> topology_error + host_interface" where
  "new_host_interface i =
     (if \<not> (case hi_name i of None \<Rightarrow> True | Some n \<Rightarrow> name_ok n) \<or> hi_mtu i < 576 \<or> 65535 < hi_mtu i
      then Inl TopologyField
      else bind_res (valid_mac (hi_mac i)) (\<lambda>m. Inr (i\<lparr>hi_mac := m\<rparr>)))"

definition new_controller :: "controller_body \<Rightarrow> topology_error + controller_body" where
  "new_controller c =
     (if cb_port c < 1 \<or> 65535 < cb_port c then Inl TopologyField
      else if cb_type c = Remote \<and> cb_address c = None then Inl RemoteWithoutAddress
      else Inr c)"

definition new_switch :: "switch_body \<Rightarrow> topology_error + switch_body" where
  "new_switch s =
     bind_res (valid_dpid (sw_dpid s)) (\<lambda>d.
       if \<not> list_all name_ok (sw_controllers s) then Inl TopologyField
       else bind_res (map_res new_switch_port (sw_ports s)) (\<lambda>ps.
         Inr (s\<lparr>sw_dpid := d, sw_ports := ps\<rparr>)))"

definition new_link :: "link \<Rightarrow> topology_error + link" where
  "new_link l =
     (if \<not> name_ok (ln_name l)
         \<or> \<not> list_all (\<lambda>e. name_ok (le_node e) \<and> (case le_adapter e of None \<Rightarrow> True | Some a \<Rightarrow> name_ok a))
              [fst (ln_endpoints l), snd (ln_endpoints l)]
         \<or> (case ln_bandwidth l of None \<Rightarrow> False | Some b \<Rightarrow> b \<le> 0)
         \<or> \<not> (case ln_delay l of None \<Rightarrow> True | Some d \<Rightarrow> duration_seconds d \<noteq> None)
         \<or> \<not> (case ln_jitter l of None \<Rightarrow> True | Some d \<Rightarrow> duration_seconds d \<noteq> None)
         \<or> ln_loss l < 0 \<or> 100 < ln_loss l \<or> ln_max_queue l = Some 0
      then Inl TopologyField
      else if le_node (fst (ln_endpoints l)) = le_node (snd (ln_endpoints l)) then Inl EndpointsEqual
      else Inr l)"

section \<open>The resource graph\<close>

datatype compile_error =
    DuplicateName
  | UnknownParent
  | ParentCycle
  | DuplicateLink
  | UnknownController
  | NotController
  | DuplicateAdapter
  | DuplicatePortNumbers
  | AdapterNameTaken
  | UnknownEndpoint
  | EndpointNotNode
  | UnknownAdapter
  | AdapterNotOwned
  | AdapterReused
  | AddressOutside
  | AddressReserved
  | AddressShared
  | PoolExhausted
  | MacShared
  | MacExhausted
  | DpidShared
  | SelectedNamesInvalid
  | SelectorMatchesNone
  | SingletonNotOne
  | GroupLabelMissing
  | UnknownBlueprint
  | UnknownCapability
  | BoundedRefused
  | DuplicatePolicies
  | UndeclaredPolicy
  | ObserverWithCapabilities
  | DuplicateAgentId
  | DriverRefused
  | TargetKindDenied
  | LayerDenied
  | TooManyInstances
  | UnknownCoordinator
  | CoordinatorNotOne
  | UnknownSource
  | UnknownTarget
  | ModelsUnresolved
  | NotHashable
  | EndpointMissing

text \<open>\<open>if value:\<close> on an optional string.\<close>

definition given :: "string option \<Rightarrow> string option" where
  "given v = (case v of Some s \<Rightarrow> if s = [] then None else Some s | None \<Rightarrow> None)"

definition parent_table :: "node list \<Rightarrow> (string \<times> string) list" where
  "parent_table ns = List.map_filter (\<lambda>n. map_option (\<lambda>p. (nd_name n, p)) (given (nd_parent n))) ns"

text \<open>The walk up from a resource: \<open>chain\<close> is what it has passed.\<close>

function chain_walk :: "(string \<times> string) list \<Rightarrow> string list \<Rightarrow> string \<Rightarrow> compile_error + unit" where
  "chain_walk parents chain current =
     (case map_of parents current of
        None \<Rightarrow> Inr ()
      | Some p \<Rightarrow>
          if current \<in> set chain then Inl ParentCycle
          else chain_walk parents (current # chain) p)"
  by pat_completeness auto
termination
proof (relation "measure (\<lambda>(parents, chain, current). card (fst ` set parents - set chain))")
  fix parents :: "(string \<times> string) list" and chain current p
  assume "map_of parents current = Some p" "current \<notin> set chain"
  then have "current \<in> fst ` set parents - set chain"
    by (metis DiffI domI dom_map_of_conv_image_fst)
  moreover have "fst ` set parents - set (current # chain) = (fst ` set parents - set chain) - {current}"
    by auto
  ultimately have "card (fst ` set parents - set (current # chain)) < card (fst ` set parents - set chain)"
    by (metis card_Diff1_less finite_Diff finite_imageI finite_set)
  then show "((parents, current # chain, p), parents, chain, current)
      \<in> measure (\<lambda>(parents, chain, current). card (fst ` set parents - set chain))"
    by simp
qed simp

declare chain_walk.simps [simp del]

definition node_controllers :: "node \<Rightarrow> string list" where
  "node_controllers n =
     (case nd_body n of
        DomainBody cs \<Rightarrow> cs
      | SwitchBody s \<Rightarrow> sw_controllers s
      | _ \<Rightarrow> [])"

definition check_controller :: "(string \<times> node) list \<Rightarrow> string \<Rightarrow> compile_error + unit" where
  "check_controller nodes c =
     (case map_of nodes c of
        None \<Rightarrow> Inl UnknownController
      | Some n \<Rightarrow> (case nd_body n of ControllerBody _ \<Rightarrow> Inr () | _ \<Rightarrow> Inl NotController))"

definition reserve_link :: "link \<Rightarrow> string list \<Rightarrow> compile_error + string list" where
  "reserve_link l reserved =
     (if ln_name l \<in> set reserved then Inl DuplicateLink else Inr (ln_name l # reserved))"

text \<open>\<open>_validate_resource_graph\<close>: the reserved names with those of the links.\<close>

definition validate_resource_graph ::
  "topology \<Rightarrow> (string \<times> node) list \<Rightarrow> string list \<Rightarrow> compile_error + string list" where
  "validate_resource_graph tp nodes reserved =
     bind_res (map_res (\<lambda>n. case given (nd_parent n) of
                   None \<Rightarrow> Inr ()
                 | Some p \<Rightarrow> guard_res (map_of nodes p \<noteq> None) UnknownParent) (tp_resources tp)) (\<lambda>_.
     bind_res (map_res (chain_walk (parent_table (tp_resources tp)) [])
                 (map fst (parent_table (tp_resources tp)))) (\<lambda>_.
     bind_res (fold_res reserve_link (tp_links tp) reserved) (\<lambda>reserved.
     bind_res (map_res (check_controller nodes) (concat (map node_controllers (tp_resources tp)))) (\<lambda>_.
       Inr reserved))))"

section \<open>Adapters\<close>

datatype adapter_role = HostInterface | SwitchPort

record adapter =
  ad_name :: string
  ad_owner :: string
  ad_role :: adapter_role
  ad_number :: nat
  ad_mtu :: nat
  ad_ip_setting :: "ip_setting option"
  ad_mac_setting :: "string option"
  ad_ipv4 :: "(nat \<times> nat) option"
  ad_mac :: "string option"

record drafts =
  dr_adapters :: "(string \<times> adapter) list"
  dr_reserved :: "string list"

definition owned_by :: "string \<Rightarrow> drafts \<Rightarrow> adapter list" where
  "owned_by owner d = filter (\<lambda>a. ad_owner a = owner) (map snd (dr_adapters d))"

definition register_adapter :: "adapter \<Rightarrow> drafts \<Rightarrow> compile_error + drafts" where
  "register_adapter a d =
     (if ad_name a \<in> set (dr_reserved d) then Inl DuplicateAdapter
      else Inr \<lparr>dr_adapters = AList.update (ad_name a) a (dr_adapters d),
                dr_reserved = ad_name a # dr_reserved d\<rparr>)"

definition eth_name :: "string \<Rightarrow> nat \<Rightarrow> string" where
  "eth_name owner n = owner @ ''-eth'' @ decimal n"

definition or_default :: "string option \<Rightarrow> string \<Rightarrow> string" where
  "or_default v d = (case given v of None \<Rightarrow> d | Some s \<Rightarrow> s)"

definition host_adapter :: "string \<Rightarrow> nat \<times> host_interface \<Rightarrow> adapter" where
  "host_adapter owner = (\<lambda>(n, i).
     \<lparr>ad_name = or_default (hi_name i) (eth_name owner n), ad_owner = owner, ad_role = HostInterface,
      ad_number = n, ad_mtu = hi_mtu i, ad_ip_setting = Some (hi_ipv4 i),
      ad_mac_setting = Some (hi_mac i), ad_ipv4 = None, ad_mac = None\<rparr>)"

definition port_adapter :: "string \<Rightarrow> nat \<Rightarrow> switch_port \<Rightarrow> adapter" where
  "port_adapter owner n p =
     \<lparr>ad_name = or_default (sp_name p) (eth_name owner n), ad_owner = owner, ad_role = SwitchPort,
      ad_number = n, ad_mtu = sp_mtu p, ad_ip_setting = None, ad_mac_setting = None,
      ad_ipv4 = None, ad_mac = None\<rparr>"

text \<open>\<open>while n in used: n += 1\<close>.\<close>

function next_unused :: "nat list \<Rightarrow> nat \<Rightarrow> nat" where
  "next_unused used n = (if n \<in> set used then next_unused used (n + 1) else n)"
  by pat_completeness auto
termination
proof (relation "measure (\<lambda>(used, n). length (filter (\<lambda>x. n \<le> x) used))")
  fix used :: "nat list" and n
  assume "n \<in> set used"
  have "length (filter (\<lambda>x. n + 1 \<le> x) used) < length (filter (\<lambda>x. n \<le> x) used)"
    using \<open>n \<in> set used\<close>
  proof (induction used)
    case (Cons y ys)
    have "length (filter (\<lambda>x. n + 1 \<le> x) zs) \<le> length (filter (\<lambda>x. n \<le> x) zs)" for zs :: "nat list"
      by (induction zs) auto
    then show ?case using Cons by (auto simp: less_Suc_eq_le)
  qed simp
  then show "((used, n + 1), used, n) \<in> measure (\<lambda>(used, n). length (filter (\<lambda>x. n \<le> x) used))"
    by simp
qed simp

declare next_unused.simps [simp del]

record port_state =
  ps_used :: "nat list"
  ps_next :: nat
  ps_drafts :: drafts

definition declare_port :: "string \<Rightarrow> switch_port \<Rightarrow> port_state \<Rightarrow> compile_error + port_state" where
  "declare_port owner p st =
     (case sp_number p of
        Some n \<Rightarrow>
          bind_res (register_adapter (port_adapter owner n p) (ps_drafts st)) (\<lambda>d.
            Inr (st\<lparr>ps_drafts := d\<rparr>))
      | None \<Rightarrow>
          (let n = next_unused (ps_used st) (ps_next st) in
           bind_res (register_adapter (port_adapter owner n p) (ps_drafts st)) (\<lambda>d.
             Inr \<lparr>ps_used = n # ps_used st, ps_next = n + 1, ps_drafts = d\<rparr>)))"

definition explicit_numbers :: "switch_body \<Rightarrow> nat list" where
  "explicit_numbers s = List.map_filter sp_number (sw_ports s)"

definition declare_node :: "node \<Rightarrow> drafts \<Rightarrow> compile_error + drafts" where
  "declare_node n d =
     (case nd_body n of
        HostBody is _ \<Rightarrow> fold_res (\<lambda>i. register_adapter (host_adapter (nd_name n) i)) (enumerate 0 is) d
      | SwitchBody s \<Rightarrow>
          if \<not> distinct (explicit_numbers s) then Inl DuplicatePortNumbers
          else map_sum id ps_drafts (fold_res (declare_port (nd_name n)) (sw_ports s)
                 \<lparr>ps_used = explicit_numbers s, ps_next = 1, ps_drafts = d\<rparr>)
      | _ \<Rightarrow> Inr d)"

definition declare_adapters :: "topology \<Rightarrow> string list \<Rightarrow> compile_error + drafts" where
  "declare_adapters tp reserved =
     fold_res declare_node (tp_resources tp) \<lparr>dr_adapters = [], dr_reserved = reserved\<rparr>"

section \<open>Links\<close>

definition is_host :: "node \<Rightarrow> bool" where
  "is_host n = (case nd_body n of HostBody _ _ \<Rightarrow> True | _ \<Rightarrow> False)"

definition is_switch :: "node \<Rightarrow> bool" where
  "is_switch n = (case nd_body n of SwitchBody _ \<Rightarrow> True | _ \<Rightarrow> False)"

text \<open>\<open>_create_automatic_adapter\<close>.\<close>

definition automatic_adapter :: "node \<Rightarrow> drafts \<Rightarrow> compile_error + adapter \<times> drafts" where
  "automatic_adapter n d =
     (let num = next_unused (map ad_number (owned_by (nd_name n) d)) (if is_host n then 0 else 1);
          name = eth_name (nd_name n) num in
      if name \<in> set (dr_reserved d) then Inl AdapterNameTaken
      else (let a = \<lparr>ad_name = name, ad_owner = nd_name n,
                     ad_role = (if is_host n then HostInterface else SwitchPort), ad_number = num,
                     ad_mtu = 1500, ad_ip_setting = (if is_host n then Some IpAuto else None),
                     ad_mac_setting = (if is_host n then Some ''auto'' else None),
                     ad_ipv4 = None, ad_mac = None\<rparr> in
            Inr (a, \<lparr>dr_adapters = AList.update name a (dr_adapters d), dr_reserved = name # dr_reserved d\<rparr>)))"

record link_state =
  ls_used :: "string list"
  ls_drafts :: drafts

definition resolve_endpoint ::
  "(string \<times> node) list \<Rightarrow> link_endpoint \<Rightarrow> link_state \<Rightarrow> compile_error + string \<times> link_state" where
  "resolve_endpoint nodes e st =
     (case map_of nodes (le_node e) of
        None \<Rightarrow> Inl UnknownEndpoint
      | Some n \<Rightarrow>
          if \<not> is_host n \<and> \<not> is_switch n then Inl EndpointNotNode
          else bind_res
            (case given (le_adapter e) of
               Some name \<Rightarrow>
                 (case map_of (dr_adapters (ls_drafts st)) name of
                    None \<Rightarrow> Inl UnknownAdapter
                  | Some a \<Rightarrow>
                      if ad_owner a \<noteq> le_node e then Inl AdapterNotOwned
                      else Inr (a, ls_drafts st))
             | None \<Rightarrow>
                 (case List.find (\<lambda>a. ad_name a \<notin> set (ls_used st)) (owned_by (le_node e) (ls_drafts st)) of
                    Some a \<Rightarrow> Inr (a, ls_drafts st)
                  | None \<Rightarrow> automatic_adapter n (ls_drafts st)))
            (\<lambda>(a, d).
               if ad_name a \<in> set (ls_used st) then Inl AdapterReused
               else Inr (ad_name a, \<lparr>ls_used = ad_name a # ls_used st, ls_drafts = d\<rparr>)))"

record planned_link =
  pk_name :: string
  pk_labels :: "(string \<times> string) list"
  pk_attributes :: json_object
  pk_endpoints :: "string \<times> string"
  pk_bandwidth :: "rat option"
  pk_delay :: "string option"
  pk_jitter :: "string option"
  pk_loss :: rat
  pk_max_queue :: "nat option"

definition resolve_link ::
  "(string \<times> node) list \<Rightarrow> link \<Rightarrow> planned_link list \<times> link_state
   \<Rightarrow> compile_error + planned_link list \<times> link_state" where
  "resolve_link nodes l = (\<lambda>(links, st).
     bind_res (resolve_endpoint nodes (fst (ln_endpoints l)) st) (\<lambda>(a, st).
     bind_res (resolve_endpoint nodes (snd (ln_endpoints l)) st) (\<lambda>(b, st).
       Inr (links @ [\<lparr>pk_name = ln_name l, pk_labels = ln_labels l, pk_attributes = ln_attributes l,
              pk_endpoints = (a, b), pk_bandwidth = ln_bandwidth l, pk_delay = ln_delay l,
              pk_jitter = ln_jitter l, pk_loss = ln_loss l, pk_max_queue = ln_max_queue l\<rparr>], st))))"

definition resolve_links ::
  "topology \<Rightarrow> (string \<times> node) list \<Rightarrow> drafts \<Rightarrow> compile_error + planned_link list \<times> drafts" where
  "resolve_links tp nodes d =
     bind_res (fold_res (resolve_link nodes) (tp_links tp) ([], \<lparr>ls_used = [], ls_drafts = d\<rparr>))
       (\<lambda>(links, st). Inr (links, ls_drafts st))"

end
