(* ===== verification/Addresses.thy ===== *)
theory Addresses
  imports Topology "HOL-Library.Multiset"
begin

text \<open>
  Address allocation of \<open>mininet_ai/compiler/compiler.py\<close>: the IPv4 and MAC addresses of the host
  interfaces (\<open>_allocate_addresses\<close>), the datapath ids of the switches
  (\<open>_allocate_switch_dpids\<close>), and the planned resources (\<open>_build_resources\<close>).

  IPv4 addresses are their numbers. SHA-256, from which the id of a switch without a number in
  its name starts, is the standard library's: the argument \<open>digest\<close> gives the number of its
  first eight bytes. The search for a free id has no bound in the code; here it has a
  number of steps, and \<open>probe_found\<close> shows that one more than the ids in use is enough.
\<close>

section \<open>IPv4\<close>

definition broadcast :: "subnet \<Rightarrow> nat" where
  "broadcast s = sn_network s + 2 ^ (32 - sn_prefix s) - 1"

definition in_subnet :: "nat \<Rightarrow> subnet \<Rightarrow> bool" where
  "in_subnet a s = (sn_network s \<le> a \<and> a \<le> broadcast s)"

text \<open>The dotted quad with its prefix length.\<close>

definition ipv4_text :: "nat \<times> nat \<Rightarrow> string" where
  "ipv4_text = (\<lambda>(a, p).
     decimal (a div 2 ^ 24 mod 256) @ ''.'' @ decimal (a div 2 ^ 16 mod 256) @ ''.''
     @ decimal (a div 2 ^ 8 mod 256) @ ''.'' @ decimal (a mod 256) @ ''/'' @ decimal p)"

text \<open>The host interfaces in the order of their names, each with the address it has got.\<close>

type_synonym used_ips = "(nat \<times> string) list"

definition fix_address ::
  "subnet \<Rightarrow> adapter \<Rightarrow> adapter list \<times> used_ips \<Rightarrow> compile_error + adapter list \<times> used_ips" where
  "fix_address net a = (\<lambda>(seen, used).
     case ad_ip_setting a of
       Some (IpFixed ip p) \<Rightarrow>
         if \<not> in_subnet ip net then Inl AddressOutside
         else if ip = sn_network net \<or> ip = broadcast net then Inl AddressReserved
         else if map_of used ip \<noteq> None then Inl AddressShared
         else Inr (seen @ [a\<lparr>ad_ipv4 := Some (ip, p)\<rparr>], AList.update ip (ad_name a) used)
     | _ \<Rightarrow> Inr (seen @ [a], used))"

text \<open>\<open>while candidate <= last and candidate in used: candidate += 1\<close>.\<close>

function next_address :: "used_ips \<Rightarrow> nat \<Rightarrow> nat \<Rightarrow> nat" where
  "next_address used limit c =
     (if c \<le> limit \<and> map_of used c \<noteq> None then next_address used limit (c + 1) else c)"
  by pat_completeness auto
termination by (relation "measure (\<lambda>(used, limit, c). limit + 1 - c)") auto

declare next_address.simps [simp del]

definition fill_address ::
  "subnet \<Rightarrow> adapter \<Rightarrow> adapter list \<times> used_ips \<times> nat
   \<Rightarrow> compile_error + adapter list \<times> used_ips \<times> nat" where
  "fill_address net a = (\<lambda>(seen, used, c).
     if ad_ip_setting a = Some IpNone \<or> ad_ipv4 a \<noteq> None then Inr (seen @ [a], used, c)
     else (let c = next_address used (broadcast net - 1) c in
           if broadcast net - 1 < c then Inl PoolExhausted
           else Inr (seen @ [a\<lparr>ad_ipv4 := Some (c, sn_prefix net)\<rparr>],
                     AList.update c (ad_name a) used, c + 1)))"

definition allocate_ips :: "subnet \<Rightarrow> adapter list \<Rightarrow> compile_error + adapter list" where
  "allocate_ips net as =
     bind_res (fold_res (fix_address net) as ([], [])) (\<lambda>(as, used).
     bind_res (fold_res (fill_address net) as ([], used, sn_network net + 1)) (\<lambda>(as, _, _).
       Inr as))"

section \<open>MAC addresses\<close>

definition fix_mac ::
  "adapter \<Rightarrow> adapter list \<times> (string \<times> string) list
   \<Rightarrow> compile_error + adapter list \<times> (string \<times> string) list" where
  "fix_mac a = (\<lambda>(seen, used).
     case given (ad_mac_setting a) of
       None \<Rightarrow> Inr (seen @ [a], used)
     | Some s \<Rightarrow>
         if s = ''auto'' then Inr (seen @ [a], used)
         else if map_of used (lower s) \<noteq> None then Inl MacShared
         else Inr (seen @ [a\<lparr>ad_mac := Some (lower s)\<rparr>], AList.update (lower s) (ad_name a) used))"

definition mac_of_suffix :: "string \<Rightarrow> nat \<Rightarrow> string" where
  "mac_of_suffix prefix n =
     prefix @ '':'' @ hex_digits 2 (n div 65536) @ '':'' @ hex_digits 2 (n div 256 mod 256)
     @ '':'' @ hex_digits 2 (n mod 256)"

text \<open>The first free suffix of \<open>range(n, 0x1000000)\<close>, \<open>None\<close> when the loop runs out.\<close>

function free_suffix :: "string \<Rightarrow> (string \<times> string) list \<Rightarrow> nat \<Rightarrow> nat option" where
  "free_suffix prefix used n =
     (if 16777216 \<le> n then None
      else if map_of used (mac_of_suffix prefix n) = None then Some n
      else free_suffix prefix used (n + 1))"
  by pat_completeness auto
termination by (relation "measure (\<lambda>(prefix, used, n). 16777216 - n)") auto

declare free_suffix.simps [simp del]

definition fill_mac ::
  "string \<Rightarrow> adapter \<Rightarrow> adapter list \<times> (string \<times> string) list
   \<Rightarrow> compile_error + adapter list \<times> (string \<times> string) list" where
  "fill_mac prefix a = (\<lambda>(seen, used).
     if ad_mac a \<noteq> None then Inr (seen @ [a], used)
     else case free_suffix prefix used 1 of
       None \<Rightarrow> Inl MacExhausted
     | Some n \<Rightarrow>
         Inr (seen @ [a\<lparr>ad_mac := Some (mac_of_suffix prefix n)\<rparr>],
              AList.update (mac_of_suffix prefix n) (ad_name a) used))"

definition allocate_macs :: "string \<Rightarrow> adapter list \<Rightarrow> compile_error + adapter list" where
  "allocate_macs prefix as =
     bind_res (fold_res fix_mac as ([], [])) (\<lambda>(as, used).
     bind_res (fold_res (fill_mac prefix) as ([], used)) (\<lambda>(as, _). Inr as))"

definition host_adapters :: "(string \<times> adapter) list \<Rightarrow> adapter list" where
  "host_adapters al = sort_key ad_name (filter (\<lambda>a. ad_role a = HostInterface) (map snd al))"

text \<open>\<open>_allocate_addresses\<close> writes into the drafts, so the dictionary keeps its order.\<close>

definition allocate_addresses ::
  "topology \<Rightarrow> (string \<times> adapter) list \<Rightarrow> compile_error + (string \<times> adapter) list" where
  "allocate_addresses tp al =
     bind_res (allocate_ips (tp_subnet tp) (host_adapters al)) (\<lambda>as.
     bind_res (allocate_macs (tp_mac_prefix tp) as) (\<lambda>as.
       Inr (fold (\<lambda>a. AList.update (ad_name a) a) as al)))"

section \<open>Datapath ids\<close>

definition max_dpid :: nat where
  "max_dpid = 2 ^ 64 - 1"

record dpids =
  dp_owners :: "(nat \<times> string) list"
  dp_allocated :: "(string \<times> string) list"

definition hex16 :: "nat \<Rightarrow> string" where
  "hex16 n = hex_digits 16 n"

text \<open>The fixed id of a switch: given, or the number of a name \<open>s<digits>\<close> when it is an id.\<close>

definition fixed_dpid :: "string \<Rightarrow> switch_body \<Rightarrow> nat option" where
  "fixed_dpid name s =
     (case sw_dpid s of
        Some d \<Rightarrow> Some (hex_value d)
      | None \<Rightarrow>
          (case name of
             c # cs \<Rightarrow>
               if c = CHR ''s'' \<and> cs \<noteq> [] \<and> list_all ascii_digit cs
               then (let v = digits_value cs 0 in if 0 < v \<and> v \<le> max_dpid then Some v else None)
               else None
           | [] \<Rightarrow> None))"

definition take_dpid :: "string \<Rightarrow> nat \<Rightarrow> dpids \<Rightarrow> dpids" where
  "take_dpid name v d =
     \<lparr>dp_owners = AList.update v name (dp_owners d),
      dp_allocated = AList.update name (hex16 v) (dp_allocated d)\<rparr>"

definition fix_dpid :: "string \<times> switch_body \<Rightarrow> dpids \<Rightarrow> compile_error + dpids" where
  "fix_dpid = (\<lambda>(name, s) d.
     case fixed_dpid name s of
       None \<Rightarrow> Inr d
     | Some v \<Rightarrow>
         if map_of (dp_owners d) v \<noteq> None then Inl DpidShared else Inr (take_dpid name v d))"

text \<open>\<open>while value in owners: value = value % maximum + 1\<close>, for at most \<open>k\<close> rounds.\<close>

fun probe :: "(nat \<times> string) list \<Rightarrow> nat \<Rightarrow> nat \<Rightarrow> nat option" where
  "probe owners v 0 = None"
| "probe owners v (Suc k) =
     (if map_of owners v = None then Some v else probe owners (v mod max_dpid + 1) k)"

definition probe_steps :: "(nat \<times> string) list \<Rightarrow> nat" where
  "probe_steps owners = length owners + 2"

definition fill_dpid :: "(string \<Rightarrow> nat) \<Rightarrow> string \<times> switch_body \<Rightarrow> dpids \<Rightarrow> dpids option" where
  "fill_dpid digest = (\<lambda>(name, s) d.
     if map_of (dp_allocated d) name \<noteq> None then Some d
     else map_option (\<lambda>v. take_dpid name v d)
            (probe (dp_owners d) (if digest name = 0 then 1 else digest name) (probe_steps (dp_owners d))))"

fun fill_dpids :: "(string \<Rightarrow> nat) \<Rightarrow> (string \<times> switch_body) list \<Rightarrow> dpids \<Rightarrow> dpids option" where
  "fill_dpids digest [] d = Some d"
| "fill_dpids digest (s # ss) d =
     (case fill_dpid digest s d of None \<Rightarrow> None | Some d' \<Rightarrow> fill_dpids digest ss d')"

definition switches_of :: "node list \<Rightarrow> (string \<times> switch_body) list" where
  "switches_of ns =
     sort_key fst (List.map_filter (\<lambda>n. case nd_body n of SwitchBody s \<Rightarrow> Some (nd_name n, s) | _ \<Rightarrow> None) ns)"

text \<open>\<open>_allocate_switch_dpids\<close>; the inner \<open>None\<close> is a search that does not end.\<close>

definition allocate_dpids ::
  "(string \<Rightarrow> nat) \<Rightarrow> node list \<Rightarrow> compile_error + (string \<times> string) list option" where
  "allocate_dpids digest ns =
     bind_res (fold_res fix_dpid (switches_of ns) \<lparr>dp_owners = [], dp_allocated = []\<rparr>) (\<lambda>d.
       Inr (map_option dp_allocated (fill_dpids digest (switches_of ns) d)))"

section \<open>The addresses are usable and unique\<close>

definition ips :: "adapter list \<Rightarrow> nat list" where
  "ips as = List.map_filter (\<lambda>a. map_option fst (ad_ipv4 a)) as"

definition macs :: "adapter list \<Rightarrow> string list" where
  "macs as = List.map_filter ad_mac as"

lemma ips_simps [simp]:
  "ips [] = []"
  "ips (a # as) = (case ad_ipv4 a of None \<Rightarrow> ips as | Some (i, p) \<Rightarrow> i # ips as)"
  "ips (as @ bs) = ips as @ ips bs"
  by (auto simp: ips_def map_filter_def split: option.splits)

lemma macs_simps [simp]:
  "macs [] = []"
  "macs (a # as) = (case ad_mac a of None \<Rightarrow> macs as | Some m \<Rightarrow> m # macs as)"
  "macs (as @ bs) = macs as @ macs bs"
  by (auto simp: macs_def map_filter_def split: option.splits)

text \<open>An address strictly between the network and the broadcast address.\<close>

definition usable :: "subnet \<Rightarrow> nat \<Rightarrow> bool" where
  "usable net a \<longleftrightarrow> sn_network net < a \<and> a < broadcast net"

definition fixed_ip :: "subnet \<Rightarrow> adapter \<Rightarrow> adapter \<Rightarrow> bool" where
  "fixed_ip net a b \<longleftrightarrow>
     (case ad_ip_setting a of
        Some (IpFixed i p) \<Rightarrow> b = a\<lparr>ad_ipv4 := Some (i, p)\<rparr> \<and> usable net i
      | _ \<Rightarrow> b = a)"

lemma fix_address_step:
  assumes "fix_address net a (seen, used) = Inr (out, used')" "ad_ipv4 a = None"
    and "distinct (ips seen)" "fst ` set used = set (ips seen)"
  shows "\<exists>b. out = seen @ [b] \<and> fixed_ip net a b \<and> distinct (ips out) \<and> fst ` set used' = set (ips out)"
proof (cases "\<exists>i p. ad_ip_setting a = Some (IpFixed i p)")
  case True
  then obtain i p where s: "ad_ip_setting a = Some (IpFixed i p)" by blast
  have ok: "in_subnet i net" "i \<noteq> sn_network net" "i \<noteq> broadcast net" "map_of used i = None"
      "out = seen @ [a\<lparr>ad_ipv4 := Some (i, p)\<rparr>]" "used' = AList.update i (ad_name a) used"
    using assms(1) by (auto simp: fix_address_def s split: if_splits)
  have "i \<notin> set (ips seen)" using ok(4) assms(4) by (simp add: map_of_eq_None_iff)
  moreover have "usable net i" using ok(1-3) by (auto simp: in_subnet_def usable_def)
  ultimately show ?thesis
    using assms(3,4) by (auto simp: ok(5,6) fixed_ip_def s keys_update_subset)
next
  case False
  then have "out = seen @ [a]" "used' = used"
    using assms(1) by (auto simp: fix_address_def split: option.splits ip_setting.splits)
  with assms(2-4) False show ?thesis
    by (auto simp: fixed_ip_def split: option.splits ip_setting.splits)
qed

lemma fix_addresses_run:
  assumes "fold_res (fix_address net) as (seen, used) = Inr (out, used')"
    and "list_all (\<lambda>a. ad_ipv4 a = None) as" "distinct (ips seen)" "fst ` set used = set (ips seen)"
  shows "\<exists>new. out = seen @ new \<and> list_all2 (fixed_ip net) as new \<and> distinct (ips out)
    \<and> fst ` set used' = set (ips out)"
  using assms
proof (induction as arbitrary: seen used)
  case Nil
  then show ?case by simp
next
  case (Cons a as)
  obtain mid used1 where step: "fix_address net a (seen, used) = Inr (mid, used1)"
    and rest: "fold_res (fix_address net) as (mid, used1) = Inr (out, used')"
    using Cons.prems(1) by (auto split: sum.splits)
  obtain b where b: "mid = seen @ [b]" "fixed_ip net a b" "distinct (ips mid)"
      "fst ` set used1 = set (ips mid)"
    using fix_address_step [OF step] Cons.prems(2-4) by auto
  obtain new where "out = mid @ new" "list_all2 (fixed_ip net) as new" "distinct (ips out)"
      "fst ` set used' = set (ips out)"
    using Cons.IH [OF rest _ b(3,4)] Cons.prems(2) by auto
  with b(1,2) show ?case by (intro exI [of _ "b # new"]) simp
qed

lemma next_address_result:
  "c \<le> next_address used limit c
    \<and> (next_address used limit c \<le> limit \<longrightarrow> map_of used (next_address used limit c) = None)"
proof (induction used limit c rule: next_address.induct)
  case (1 used limit c)
  show ?case
  proof (cases "c \<le> limit \<and> map_of used c \<noteq> None")
    case True
    then show ?thesis using 1 [OF True] by (simp add: next_address.simps [of used limit c])
  next
    case False
    then show ?thesis by (auto simp: next_address.simps [of used limit c])
  qed
qed

definition filled_ip :: "subnet \<Rightarrow> adapter \<Rightarrow> adapter \<Rightarrow> bool" where
  "filled_ip net a b \<longleftrightarrow>
     (if ad_ip_setting a = Some IpNone \<or> ad_ipv4 a \<noteq> None then b = a
      else \<exists>i. b = a\<lparr>ad_ipv4 := Some (i, sn_prefix net)\<rparr> \<and> usable net i)"

lemma fill_address_step:
  assumes "fill_address net a (seen, used, c) = Inr (out, used', c')"
    and "sn_network net < c" "distinct (ips (seen @ a # rest))"
    and "fst ` set used = set (ips (seen @ a # rest))"
  shows "\<exists>b. out = seen @ [b] \<and> filled_ip net a b \<and> distinct (ips (out @ rest))
    \<and> fst ` set used' = set (ips (out @ rest)) \<and> sn_network net < c'"
proof (cases "ad_ip_setting a = Some IpNone \<or> ad_ipv4 a \<noteq> None")
  case True
  with assms show ?thesis by (auto simp: fill_address_def filled_ip_def split: option.splits)
next
  case False
  define n where "n = next_address used (broadcast net - 1) c"
  have n: "c \<le> n" "n \<le> broadcast net - 1 \<Longrightarrow> map_of used n = None"
    using next_address_result [of c used "broadcast net - 1"] by (simp_all add: n_def)
  have "\<not> broadcast net - 1 < n" and out: "out = seen @ [a\<lparr>ad_ipv4 := Some (n, sn_prefix net)\<rparr>]"
      "used' = AList.update n (ad_name a) used" "c' = n + 1"
    using assms(1) False by (auto simp: fill_address_def Let_def n_def split: if_splits)
  then have free: "map_of used n = None" and le: "n \<le> broadcast net - 1" using n(2) by simp_all
  have new: "n \<notin> set (ips (seen @ a # rest))"
    using free assms(4) by (simp add: map_of_eq_None_iff)
  have "usable net n" using le n(1) assms(2) by (auto simp: usable_def)
  moreover have "ad_ipv4 a = None" using False by (cases "ad_ipv4 a") auto
  ultimately show ?thesis
    using assms(2-4) new n(1) False
    by (auto simp: out filled_ip_def keys_update_subset)
qed

lemma fill_addresses_run:
  assumes "fold_res (fill_address net) as (seen, used, c) = Inr (out, used', c')"
    and "sn_network net < c" "distinct (ips (seen @ as))" "fst ` set used = set (ips (seen @ as))"
  shows "\<exists>new. out = seen @ new \<and> list_all2 (filled_ip net) as new \<and> distinct (ips out)"
  using assms
proof (induction as arbitrary: seen used c)
  case Nil
  then show ?case by simp
next
  case (Cons a as)
  obtain mid used1 c1 where step: "fill_address net a (seen, used, c) = Inr (mid, used1, c1)"
    and rest: "fold_res (fill_address net) as (mid, used1, c1) = Inr (out, used', c')"
    using Cons.prems(1) by (auto split: sum.splits)
  obtain b where b: "mid = seen @ [b]" "filled_ip net a b" "distinct (ips (mid @ as))"
      "fst ` set used1 = set (ips (mid @ as))" "sn_network net < c1"
    using fill_address_step [OF step Cons.prems(2,3,4)] by blast
  obtain new where "out = mid @ new" "list_all2 (filled_ip net) as new" "distinct (ips out)"
    using Cons.IH [OF rest b(5,3,4)] by blast
  with b(1,2) show ?case by (intro exI [of _ "b # new"]) simp
qed

text \<open>What an interface gets: its own address, none, or a free one of the subnet.\<close>

definition ip_assigned :: "subnet \<Rightarrow> adapter \<Rightarrow> adapter \<Rightarrow> bool" where
  "ip_assigned net a b \<longleftrightarrow>
     (case ad_ip_setting a of
        Some IpNone \<Rightarrow> ad_ipv4 b = None
      | Some (IpFixed i p) \<Rightarrow> ad_ipv4 b = Some (i, p) \<and> usable net i
      | _ \<Rightarrow> \<exists>i. ad_ipv4 b = Some (i, sn_prefix net) \<and> usable net i)"

definition same_adapter :: "adapter \<Rightarrow> adapter \<Rightarrow> bool" where
  "same_adapter a b \<longleftrightarrow> (\<exists>i m. b = a\<lparr>ad_ipv4 := i, ad_mac := m\<rparr>)"

lemma ip_relations:
  assumes "ad_ipv4 a = None \<and> fixed_ip net a b" "filled_ip net b c"
  shows "ip_assigned net a c \<and> (\<exists>i. c = a\<lparr>ad_ipv4 := i\<rparr>)"
proof (cases "ad_ip_setting a")
  case None
  with assms obtain i where "c = a\<lparr>ad_ipv4 := Some (i, sn_prefix net)\<rparr>" "usable net i"
    by (auto simp: fixed_ip_def filled_ip_def)
  with None show ?thesis by (auto simp: ip_assigned_def)
next
  case (Some st)
  show ?thesis
  proof (cases st)
    case (IpFixed i p)
    with Some assms have "c = a\<lparr>ad_ipv4 := Some (i, p)\<rparr>" "usable net i"
      by (auto simp: fixed_ip_def filled_ip_def)
    with Some IpFixed show ?thesis by (auto simp: ip_assigned_def)
  next
    case IpAuto
    with Some assms obtain i where "c = a\<lparr>ad_ipv4 := Some (i, sn_prefix net)\<rparr>" "usable net i"
      by (auto simp: fixed_ip_def filled_ip_def)
    with Some IpAuto show ?thesis by (auto simp: ip_assigned_def)
  next
    case IpNone
    with Some assms have "c = a" by (simp add: fixed_ip_def filled_ip_def)
    then have "c = a\<lparr>ad_ipv4 := ad_ipv4 a\<rparr>" by simp
    with Some IpNone assms \<open>c = a\<close> show ?thesis by (auto simp: ip_assigned_def intro: exI [of _ "ad_ipv4 a"])
  qed
qed

lemma allocate_ips_result:
  assumes "allocate_ips net as = Inr out" "list_all (\<lambda>a. ad_ipv4 a = None) as"
  shows "list_all2 (\<lambda>a b. ip_assigned net a b \<and> (\<exists>i. b = a\<lparr>ad_ipv4 := i\<rparr>)) as out \<and> distinct (ips out)"
proof -
  obtain mid used used' c' where fixed: "fold_res (fix_address net) as ([], []) = Inr (mid, used)"
    and filled: "fold_res (fill_address net) mid ([], used, sn_network net + 1) = Inr (out, used', c')"
    using assms(1) by (auto simp: allocate_ips_def bind_res_Inr_iff)
  have f: "list_all2 (fixed_ip net) as mid" "distinct (ips mid)" "fst ` set used = set (ips mid)"
    using fix_addresses_run [OF fixed assms(2)] by auto
  have g: "list_all2 (filled_ip net) mid out" "distinct (ips out)"
    using fill_addresses_run [OF filled] f(2,3) by auto
  have "list_all2 (\<lambda>a b. ad_ipv4 a = None \<and> fixed_ip net a b) as mid"
    using f(1) assms(2) by (auto simp: list_all2_conv_all_nth list_all_length)
  then have "list_all2 (\<lambda>a b. ip_assigned net a b \<and> (\<exists>i. b = a\<lparr>ad_ipv4 := i\<rparr>)) as out"
    using g(1) list_all2_trans [of "\<lambda>a b. ad_ipv4 a = None \<and> fixed_ip net a b" "filled_ip net"
        "\<lambda>a b. ip_assigned net a b \<and> (\<exists>i. b = a\<lparr>ad_ipv4 := i\<rparr>)"] ip_relations by blast
  with g(2) show ?thesis by simp
qed

definition mac_fixed :: "adapter \<Rightarrow> string option" where
  "mac_fixed a =
     (case given (ad_mac_setting a) of None \<Rightarrow> None | Some s \<Rightarrow> if s = ''auto'' then None else Some (lower s))"

definition fixed_mac :: "adapter \<Rightarrow> adapter \<Rightarrow> bool" where
  "fixed_mac a b \<longleftrightarrow> (case mac_fixed a of None \<Rightarrow> b = a | Some m \<Rightarrow> b = a\<lparr>ad_mac := Some m\<rparr>)"

lemma fix_mac_step:
  assumes "fix_mac a (seen, used) = Inr (out, used')" "ad_mac a = None"
    and "distinct (macs seen)" "fst ` set used = set (macs seen)"
  shows "\<exists>b. out = seen @ [b] \<and> fixed_mac a b \<and> distinct (macs out) \<and> fst ` set used' = set (macs out)"
proof (cases "mac_fixed a")
  case None
  then have "out = seen @ [a]" "used' = used"
    using assms(1) by (auto simp: fix_mac_def mac_fixed_def split: option.splits if_splits)
  with None assms(2-4) show ?thesis by (auto simp: fixed_mac_def)
next
  case (Some m)
  then have ok: "map_of used m = None" "out = seen @ [a\<lparr>ad_mac := Some m\<rparr>]"
      "used' = AList.update m (ad_name a) used"
    using assms(1) by (auto simp: fix_mac_def mac_fixed_def split: option.splits if_splits)
  have "m \<notin> set (macs seen)" using ok(1) assms(4) by (simp add: map_of_eq_None_iff)
  with Some assms(3,4) show ?thesis by (auto simp: ok(2,3) fixed_mac_def keys_update_subset)
qed

lemma fix_macs_run:
  assumes "fold_res fix_mac as (seen, used) = Inr (out, used')"
    and "list_all (\<lambda>a. ad_mac a = None) as" "distinct (macs seen)" "fst ` set used = set (macs seen)"
  shows "\<exists>new. out = seen @ new \<and> list_all2 fixed_mac as new \<and> distinct (macs out)
    \<and> fst ` set used' = set (macs out)"
  using assms
proof (induction as arbitrary: seen used)
  case Nil
  then show ?case by simp
next
  case (Cons a as)
  obtain mid used1 where step: "fix_mac a (seen, used) = Inr (mid, used1)"
    and rest: "fold_res fix_mac as (mid, used1) = Inr (out, used')"
    using Cons.prems(1) by (auto split: sum.splits)
  obtain b where b: "mid = seen @ [b]" "fixed_mac a b" "distinct (macs mid)"
      "fst ` set used1 = set (macs mid)"
    using fix_mac_step [OF step] Cons.prems(2-4) by auto
  obtain new where "out = mid @ new" "list_all2 fixed_mac as new" "distinct (macs out)"
      "fst ` set used' = set (macs out)"
    using Cons.IH [OF rest _ b(3,4)] Cons.prems(2) by auto
  with b(1,2) show ?case by (intro exI [of _ "b # new"]) simp
qed

lemma free_suffix_Some:
  "free_suffix prefix used n = Some k \<Longrightarrow>
     n \<le> k \<and> k < 16777216 \<and> map_of used (mac_of_suffix prefix k) = None"
proof (induction prefix used n rule: free_suffix.induct)
  case (1 prefix used n)
  show ?case
  proof (cases "16777216 \<le> n \<or> map_of used (mac_of_suffix prefix n) = None")
    case True
    then show ?thesis using 1(2) by (auto simp: free_suffix.simps [of prefix used n] split: if_splits)
  next
    case False
    then have "free_suffix prefix used (n + 1) = Some k"
      using 1(2) by (auto simp: free_suffix.simps [of prefix used n] split: if_splits)
    with 1(1) False show ?thesis by auto
  qed
qed

definition filled_mac :: "string \<Rightarrow> adapter \<Rightarrow> adapter \<Rightarrow> bool" where
  "filled_mac prefix a b \<longleftrightarrow>
     (if ad_mac a \<noteq> None then b = a
      else \<exists>k. 1 \<le> k \<and> k < 16777216 \<and> b = a\<lparr>ad_mac := Some (mac_of_suffix prefix k)\<rparr>)"

lemma fill_mac_step:
  assumes "fill_mac prefix a (seen, used) = Inr (out, used')"
    and "distinct (macs (seen @ a # rest))" "fst ` set used = set (macs (seen @ a # rest))"
  shows "\<exists>b. out = seen @ [b] \<and> filled_mac prefix a b \<and> distinct (macs (out @ rest))
    \<and> fst ` set used' = set (macs (out @ rest))"
proof (cases "ad_mac a")
  case (Some m)
  with assms show ?thesis by (auto simp: fill_mac_def filled_mac_def)
next
  case None
  obtain k where k: "free_suffix prefix used 1 = Some k"
      "out = seen @ [a\<lparr>ad_mac := Some (mac_of_suffix prefix k)\<rparr>]"
      "used' = AList.update (mac_of_suffix prefix k) (ad_name a) used"
    using assms(1) None by (auto simp: fill_mac_def split: option.splits)
  note free = free_suffix_Some [OF k(1)]
  have "mac_of_suffix prefix k \<notin> set (macs (seen @ a # rest))"
    using free assms(3) by (simp add: map_of_eq_None_iff)
  with free None assms(2,3) show ?thesis
    by (auto simp: k(2,3) filled_mac_def keys_update_subset)
qed

lemma fill_macs_run:
  assumes "fold_res (fill_mac prefix) as (seen, used) = Inr (out, used')"
    and "distinct (macs (seen @ as))" "fst ` set used = set (macs (seen @ as))"
  shows "\<exists>new. out = seen @ new \<and> list_all2 (filled_mac prefix) as new \<and> distinct (macs out)"
  using assms
proof (induction as arbitrary: seen used)
  case Nil
  then show ?case by simp
next
  case (Cons a as)
  obtain mid used1 where step: "fill_mac prefix a (seen, used) = Inr (mid, used1)"
    and rest: "fold_res (fill_mac prefix) as (mid, used1) = Inr (out, used')"
    using Cons.prems(1) by (auto split: sum.splits)
  obtain b where b: "mid = seen @ [b]" "filled_mac prefix a b" "distinct (macs (mid @ as))"
      "fst ` set used1 = set (macs (mid @ as))"
    using fill_mac_step [OF step Cons.prems(2,3)] by blast
  obtain new where "out = mid @ new" "list_all2 (filled_mac prefix) as new" "distinct (macs out)"
    using Cons.IH [OF rest b(3,4)] by blast
  with b(1,2) show ?case by (intro exI [of _ "b # new"]) simp
qed

definition mac_assigned :: "string \<Rightarrow> adapter \<Rightarrow> adapter \<Rightarrow> bool" where
  "mac_assigned prefix a b \<longleftrightarrow>
     (case mac_fixed a of
        Some m \<Rightarrow> ad_mac b = Some m
      | None \<Rightarrow> \<exists>k. 1 \<le> k \<and> k < 16777216 \<and> ad_mac b = Some (mac_of_suffix prefix k))"

lemma mac_relations:
  assumes "ad_mac a = None \<and> fixed_mac a b" "filled_mac prefix b c"
  shows "mac_assigned prefix a c \<and> (\<exists>m. c = a\<lparr>ad_mac := m\<rparr>)"
  using assms by (cases "mac_fixed a") (auto simp: fixed_mac_def filled_mac_def mac_assigned_def)

lemma allocate_macs_result:
  assumes "allocate_macs prefix as = Inr out" "list_all (\<lambda>a. ad_mac a = None) as"
  shows "list_all2 (\<lambda>a b. mac_assigned prefix a b \<and> (\<exists>m. b = a\<lparr>ad_mac := m\<rparr>)) as out
    \<and> distinct (macs out)"
proof -
  obtain mid used used' where fixed: "fold_res fix_mac as ([], []) = Inr (mid, used)"
    and filled: "fold_res (fill_mac prefix) mid ([], used) = Inr (out, used')"
    using assms(1) by (auto simp: allocate_macs_def bind_res_Inr_iff)
  have f: "list_all2 fixed_mac as mid" "distinct (macs mid)" "fst ` set used = set (macs mid)"
    using fix_macs_run [OF fixed assms(2)] by auto
  have g: "list_all2 (filled_mac prefix) mid out" "distinct (macs out)"
    using fill_macs_run [OF filled] f(2,3) by auto
  have "list_all2 (\<lambda>a b. ad_mac a = None \<and> fixed_mac a b) as mid"
    using f(1) assms(2) by (auto simp: list_all2_conv_all_nth list_all_length)
  then have "list_all2 (\<lambda>a b. mac_assigned prefix a b \<and> (\<exists>m. b = a\<lparr>ad_mac := m\<rparr>)) as out"
    using g(1) list_all2_trans [of "\<lambda>a b. ad_mac a = None \<and> fixed_mac a b" "filled_mac prefix"
        "\<lambda>a b. mac_assigned prefix a b \<and> (\<exists>m. b = a\<lparr>ad_mac := m\<rparr>)"] mac_relations by blast
  with g(2) show ?thesis by simp
qed

section \<open>The drafts with their addresses\<close>

definition fresh_drafts :: "(string \<times> adapter) list \<Rightarrow> bool" where
  "fresh_drafts al \<longleftrightarrow> distinct (map fst al)
     \<and> list_all (\<lambda>(n, a). ad_name a = n \<and> ad_ipv4 a = None \<and> ad_mac a = None) al"

lemma map_of_fold_update:
  "map_of (fold (\<lambda>a. AList.update (ad_name a) a) as al) n =
    (case List.find (\<lambda>a. ad_name a = n) (rev as) of Some a \<Rightarrow> Some a | None \<Rightarrow> map_of al n)"
  by (induction as rule: rev_induct) auto

lemma find_rev_Some:
  "List.find p (rev as) = Some a \<Longrightarrow> a \<in> set as \<and> p a"
  using find_SomeD [of p "rev as" a] by simp

lemma ips_unique:
  assumes "distinct (ips as)" "a \<in> set as" "b \<in> set as" "ad_ipv4 a = Some (i, p)" "ad_ipv4 b = Some (i, q)"
  shows "a = b"
proof -
  have mem: "i \<in> set (ips cs)" if "c \<in> set cs" "ad_ipv4 c = Some (i, r)" for c cs r
    using that by (induction cs) (auto split: option.splits)
  show ?thesis using assms
  proof (induction as)
    case (Cons c as)
    then show ?case using mem [of a as p] mem [of b as q] by (auto split: option.splits)
  qed simp
qed

lemma macs_unique:
  assumes "distinct (macs as)" "a \<in> set as" "b \<in> set as" "ad_mac a = Some m" "ad_mac b = Some m"
  shows "a = b"
proof -
  have mem: "m \<in> set (macs cs)" if "c \<in> set cs" "ad_mac c = Some m" for c cs
    using that by (induction cs) (auto split: option.splits)
  show ?thesis using assms
  proof (induction as)
    case (Cons c as)
    then show ?case using mem [of a as] mem [of b as] by (auto split: option.splits)
  qed simp
qed

lemma mac_assigned_ip:
  "mac_fixed (a\<lparr>ad_ipv4 := i\<rparr>) = mac_fixed a"
  by (simp add: mac_fixed_def)

text \<open>The host adapters before and after, one by one.\<close>

definition addressed :: "topology \<Rightarrow> adapter \<Rightarrow> adapter \<Rightarrow> bool" where
  "addressed tp a b \<longleftrightarrow>
     ip_assigned (tp_subnet tp) a b \<and> mac_assigned (tp_mac_prefix tp) a b \<and> same_adapter a b"

lemma allocate_hosts:
  assumes "allocate_ips (tp_subnet tp) as = Inr bs" "allocate_macs (tp_mac_prefix tp) bs = Inr cs"
    and "list_all (\<lambda>a. ad_ipv4 a = None \<and> ad_mac a = None) as"
  shows "list_all2 (addressed tp) as cs \<and> distinct (ips cs) \<and> distinct (macs cs)"
proof -
  note i = allocate_ips_result [OF assms(1)]
  have ip: "list_all2 (\<lambda>a b. ip_assigned (tp_subnet tp) a b \<and> (\<exists>i. b = a\<lparr>ad_ipv4 := i\<rparr>)) as bs"
      "distinct (ips bs)"
    using i assms(3) by (auto simp: list_all_iff)
  have none: "list_all (\<lambda>b. ad_mac b = None) bs"
    using ip(1) assms(3) by (fastforce simp: list_all_iff dest: list_all2_set2)
  have mac: "list_all2 (\<lambda>a b. mac_assigned (tp_mac_prefix tp) a b \<and> (\<exists>m. b = a\<lparr>ad_mac := m\<rparr>)) bs cs"
      "distinct (macs cs)"
    using allocate_macs_result [OF assms(2) none] by simp_all
  have "list_all2 (addressed tp) as cs"
  proof (rule list_all2_trans [OF _ ip(1) mac(1)])
    fix a b c
    assume b: "ip_assigned (tp_subnet tp) a b \<and> (\<exists>i. b = a\<lparr>ad_ipv4 := i\<rparr>)"
      and c: "mac_assigned (tp_mac_prefix tp) b c \<and> (\<exists>m. c = b\<lparr>ad_mac := m\<rparr>)"
    obtain i m where e: "b = a\<lparr>ad_ipv4 := i\<rparr>" "c = b\<lparr>ad_mac := m\<rparr>" using b c by blast
    have "ad_ipv4 c = ad_ipv4 b" by (simp add: e(2))
    then have "ip_assigned (tp_subnet tp) a c" using b by (simp only: ip_assigned_def)
    moreover have "mac_assigned (tp_mac_prefix tp) a c"
      using c e by (simp add: mac_assigned_def mac_assigned_ip)
    moreover have "same_adapter a c" unfolding same_adapter_def e by blast
    ultimately show "addressed tp a c" by (simp add: addressed_def)
  qed
  moreover have "ips cs = ips bs"
    using mac(1) by (induction rule: list_all2_induct) (auto split: option.splits)
  ultimately show ?thesis using ip(2) mac(2) by simp
qed

lemma fresh_draftsD:
  assumes "fresh_drafts al"
  shows "distinct (map fst al)"
    and "map_of al n = Some a \<Longrightarrow> ad_name a = n \<and> ad_ipv4 a = None \<and> ad_mac a = None"
    and "a \<in> set (host_adapters al) \<longleftrightarrow> map_of al (ad_name a) = Some a \<and> ad_role a = HostInterface"
proof -
  show dist: "distinct (map fst al)" using assms by (simp add: fresh_drafts_def)
  show "map_of al n = Some a \<Longrightarrow> ad_name a = n \<and> ad_ipv4 a = None \<and> ad_mac a = None"
    using assms map_of_SomeD [of al n a] by (auto simp: fresh_drafts_def list_all_iff)
  show "a \<in> set (host_adapters al) \<longleftrightarrow> map_of al (ad_name a) = Some a \<and> ad_role a = HostInterface"
    using assms dist
    by (auto simp: host_adapters_def fresh_drafts_def list_all_iff intro: rev_image_eqI)
qed

text \<open>The new draft under a name: a host interface with its addresses, or the old switch port.\<close>

lemma allocate_addresses_run:
  assumes "allocate_addresses tp al = Inr al'" "fresh_drafts al"
  obtains cs where "list_all2 (addressed tp) (host_adapters al) cs" "distinct (ips cs)" "distinct (macs cs)"
    "map fst al' = map fst al"
    "\<And>c. c \<in> set cs \<Longrightarrow>
       \<exists>a. map_of al (ad_name c) = Some a \<and> ad_role a = HostInterface \<and> addressed tp a c"
    "\<And>n b. map_of al' n = Some b \<Longrightarrow>
       b \<in> set cs \<and> ad_name b = n \<or> map_of al n = Some b \<and> n \<notin> ad_name ` set cs"
proof -
  note fresh = fresh_draftsD [OF assms(2)]
  obtain bs cs where run: "allocate_ips (tp_subnet tp) (host_adapters al) = Inr bs"
      "allocate_macs (tp_mac_prefix tp) bs = Inr cs"
    and al': "al' = fold (\<lambda>a. AList.update (ad_name a) a) cs al"
    using assms(1) by (auto simp: allocate_addresses_def bind_res_Inr_iff)
  have "list_all (\<lambda>a. ad_ipv4 a = None \<and> ad_mac a = None) (host_adapters al)"
    using fresh(2,3) by (auto simp: list_all_iff)
  from allocate_hosts [OF run this]
  have cs: "list_all2 (addressed tp) (host_adapters al) cs" "distinct (ips cs)" "distinct (macs cs)"
    by simp_all
  have from_host: "\<exists>a. map_of al (ad_name c) = Some a \<and> ad_role a = HostInterface \<and> addressed tp a c"
    if c: "c \<in> set cs" for c
  proof -
    obtain a where a: "a \<in> set (host_adapters al)" "addressed tp a c"
      using list_all2_set2 [OF cs(1) c] by blast
    then have "ad_name c = ad_name a" by (auto simp: addressed_def same_adapter_def)
    with a fresh(3) show ?thesis by auto
  qed
  have found: "b \<in> set cs \<and> ad_name b = n \<or> map_of al n = Some b \<and> n \<notin> ad_name ` set cs"
    if b: "map_of al' n = Some b" for n b
  proof (cases "List.find (\<lambda>a. ad_name a = n) (rev cs)")
    case None
    have "n \<notin> ad_name ` set cs" using None by (auto simp: find_None_iff)
    moreover have "map_of al n = Some b" using b None by (simp add: al' map_of_fold_update)
    ultimately show ?thesis by blast
  next
    case (Some c)
    then show ?thesis using b find_rev_Some [OF Some] by (auto simp: al' map_of_fold_update)
  qed
  have "map fst (fold (\<lambda>a. AList.update (ad_name a) a) ds al) = map fst al"
    if "ad_name ` set ds \<subseteq> fst ` set al" for ds
    using that by (induction ds rule: rev_induct) (auto simp: update_keys)
  moreover have "ad_name ` set cs \<subseteq> fst ` set al"
    using from_host by (force dest: map_of_SomeD)
  ultimately have "map fst al' = map fst al" by (simp add: al')
  with cs from_host found show thesis by (intro that)
qed

text \<open>C40. Address allocation: every host interface has the address it asks for, a free address of
  the subnet or none, and the MAC address it asks for or a free one under the prefix; addresses
  lie strictly between the network and the broadcast address, no two interfaces share an address
  or a MAC, and the switch ports and all other fields are as before.\<close>

theorem addresses_usable_and_unique:
  assumes "allocate_addresses tp al = Inr al'" "fresh_drafts al"
  shows "map fst al' = map fst al
    \<and> (\<forall>n a. map_of al n = Some a \<longrightarrow> (\<exists>b. map_of al' n = Some b
         \<and> (if ad_role a = HostInterface then addressed tp a b else b = a)))
    \<and> (\<forall>n m a b i p q. map_of al' n = Some a \<and> map_of al' m = Some b
         \<and> ad_ipv4 a = Some (i, p) \<and> ad_ipv4 b = Some (i, q) \<longrightarrow> n = m)
    \<and> (\<forall>n m a b h. map_of al' n = Some a \<and> map_of al' m = Some b
         \<and> ad_mac a = Some h \<and> ad_mac b = Some h \<longrightarrow> n = m)"
proof -
  note fresh = fresh_draftsD [OF assms(2)]
  obtain cs where cs: "list_all2 (addressed tp) (host_adapters al) cs" "distinct (ips cs)" "distinct (macs cs)"
    and same: "map fst al' = map fst al"
    and from_host: "\<And>c. c \<in> set cs \<Longrightarrow>
       \<exists>a. map_of al (ad_name c) = Some a \<and> ad_role a = HostInterface \<and> addressed tp a c"
    and found: "\<And>n b. map_of al' n = Some b \<Longrightarrow>
       b \<in> set cs \<and> ad_name b = n \<or> map_of al n = Some b \<and> n \<notin> ad_name ` set cs"
    by (rule allocate_addresses_run [OF assms]) (rule that)
  have each: "\<exists>b. map_of al' n = Some b \<and> (if ad_role a = HostInterface then addressed tp a b else b = a)"
    if a: "map_of al n = Some a" for n a
  proof -
    obtain b where b: "map_of al' n = Some b"
      using a same by (metis dom_map_of_conv_image_fst domIff image_set not_Some_eq)
    from found [OF b] show ?thesis
    proof
      assume "b \<in> set cs \<and> ad_name b = n"
      with from_host [of b] a b show ?thesis by auto
    next
      assume old: "map_of al n = Some b \<and> n \<notin> ad_name ` set cs"
      have "ad_role a \<noteq> HostInterface"
      proof
        assume "ad_role a = HostInterface"
        then have "a \<in> set (host_adapters al)" using fresh(2) [OF a] a by (simp add: fresh(3))
        then obtain c where c: "c \<in> set cs" "addressed tp a c" using list_all2_set1 [OF cs(1)] by blast
        then have "ad_name c = n" using fresh(2) [OF a] by (auto simp: addressed_def same_adapter_def)
        with c(1) old show False by blast
      qed
      with old a b show ?thesis by simp
    qed
  qed
  have host_only: "b \<in> set cs \<and> ad_name b = n"
    if "map_of al' n = Some b" "ad_ipv4 b \<noteq> None \<or> ad_mac b \<noteq> None" for n b
  proof (rule ccontr)
    assume "\<not> (b \<in> set cs \<and> ad_name b = n)"
    with found [OF that(1)] have "map_of al n = Some b" by blast
    from fresh(2) [OF this] that(2) show False by simp
  qed
  have "n = m" if "map_of al' n = Some a" "map_of al' m = Some b"
      "ad_ipv4 a = Some (i, p)" "ad_ipv4 b = Some (i, q)" for n m a b i p q
    using host_only [OF that(1)] host_only [OF that(2)] that(3,4)
      ips_unique [OF cs(2), of a b i p q] by auto
  moreover have "n = m" if "map_of al' n = Some a" "map_of al' m = Some b"
      "ad_mac a = Some h" "ad_mac b = Some h" for n m a b h
    using host_only [OF that(1)] host_only [OF that(2)] that(3,4)
      macs_unique [OF cs(3), of a b h] by auto
  ultimately show ?thesis using same each by (intro conjI allI impI) metis+
qed

section \<open>Datapath ids are unique\<close>

text \<open>The probe sequence: \<open>walk v i\<close> is the value after \<open>i\<close> rounds.\<close>

definition walk :: "nat \<Rightarrow> nat \<Rightarrow> nat" where
  "walk v i = (v - 1 + i) mod max_dpid + 1"

lemma max_dpid_pos: "0 < max_dpid" by (simp add: max_dpid_def)

lemma walk_0: "0 < v \<Longrightarrow> v \<le> max_dpid \<Longrightarrow> walk v 0 = v"
  by (simp add: walk_def)

lemma walk_Suc: "walk v (Suc i) = walk v i mod max_dpid + 1"
  by (simp add: walk_def mod_Suc_eq)

lemma walk_range: "0 < walk v i \<and> walk v i \<le> max_dpid"
  using max_dpid_pos by (auto simp: walk_def Suc_le_eq)

lemma walk_inj:
  assumes "i < j" "j < max_dpid"
  shows "walk v i \<noteq> walk v j"
proof
  assume "walk v i = walk v j"
  then have "(v - 1 + i) mod max_dpid = (v - 1 + j) mod max_dpid" by (simp add: walk_def)
  then have "max_dpid dvd (v - 1 + j) - (v - 1 + i)"
    using assms(1) by (metis add_le_cancel_left less_imp_le mod_eq_dvd_iff_nat)
  then have "max_dpid dvd j - i" using assms(1) by (simp add: diff_add_inverse)
  with assms show False by (auto dest!: dvd_imp_le)
qed

lemma probe_Some:
  "probe owners (walk v i) k = Some w \<Longrightarrow> map_of owners w = None \<and> (\<exists>j. w = walk v j)"
proof (induction k arbitrary: i)
  case (Suc k)
  show ?case
  proof (cases "map_of owners (walk v i) = None")
    case True
    with Suc.prems show ?thesis by auto
  next
    case False
    with Suc.prems have "probe owners (walk v (Suc i)) k = Some w" by (simp add: walk_Suc)
    then show ?thesis by (rule Suc.IH)
  qed
qed simp

lemma probe_None:
  assumes "probe owners (walk v i) k = None" "j < k"
  shows "map_of owners (walk v (i + j)) \<noteq> None"
  using assms
proof (induction k arbitrary: i j)
  case (Suc k)
  have taken: "map_of owners (walk v i) \<noteq> None" and rest: "probe owners (walk v (Suc i)) k = None"
    using Suc.prems(1) by (auto simp: walk_Suc split: if_splits)
  show ?case
  proof (cases j)
    case 0
    with taken show ?thesis by simp
  next
    case (Suc j')
    with Suc.IH [OF rest, of j'] Suc.prems(2) show ?thesis by simp
  qed
qed simp

text \<open>One more probe than there are ids in use finds a free one.\<close>

lemma probe_found:
  assumes "length owners + 2 \<le> max_dpid"
  shows "\<exists>w. probe owners (walk v 0) (probe_steps owners) = Some w"
proof (rule ccontr)
  assume "\<nexists>w. probe owners (walk v 0) (probe_steps owners) = Some w"
  then have none: "probe owners (walk v 0) (probe_steps owners) = None" by simp
  have "walk v ` {..length owners} \<subseteq> fst ` set owners"
  proof
    fix w assume "w \<in> walk v ` {..length owners}"
    then obtain j where "w = walk v j" "j < probe_steps owners" by (auto simp: probe_steps_def)
    with probe_None [OF none, of j] show "w \<in> fst ` set owners"
      by (simp add: map_of_eq_None_iff)
  qed
  then have "card (walk v ` {..length owners}) \<le> length owners"
    by (meson card_image_le card_length card_mono dual_order.trans finite_imageI finite_set)
  moreover have "inj_on (walk v) {..length owners}"
  proof (rule inj_onI)
    fix i j assume "i \<in> {..length owners}" "j \<in> {..length owners}" "walk v i = walk v j"
    with assms walk_inj [of i j v] walk_inj [of j i v] show "i = j"
      by (cases i j rule: linorder_cases) auto
  qed
  ultimately show False by (simp add: card_image)
qed

text \<open>The text of an id determines it.\<close>

lemma digit_char_inj: "a < 16 \<Longrightarrow> b < 16 \<Longrightarrow> digit_char a = digit_char b \<Longrightarrow> a = b"
  by (auto simp: digit_char_def split: if_splits dest!: arg_cong [of "char_of _" _ "of_char :: char \<Rightarrow> nat"])

lemma length_hex_digits [simp]: "length (hex_digits w n) = w"
  by (induction w arbitrary: n) auto

lemma hex_digits_inj:
  "n < 16 ^ w \<Longrightarrow> m < 16 ^ w \<Longrightarrow> hex_digits w n = hex_digits w m \<Longrightarrow> n = m"
proof (induction w arbitrary: n m)
  case (Suc w)
  have "n div 16 = m div 16" using Suc.prems by (intro Suc.IH) (auto simp: less_mult_imp_div_less)
  moreover have "n mod 16 = m mod 16" using Suc.prems(3) by (auto intro: digit_char_inj)
  ultimately show ?case by (metis div_mult_mod_eq)
qed simp

lemma hex16_inj: "v \<le> max_dpid \<Longrightarrow> w \<le> max_dpid \<Longrightarrow> hex16 v = hex16 w \<Longrightarrow> v = w"
  unfolding hex16_def by (rule hex_digits_inj [where w = 16]) (auto simp: max_dpid_def)

definition dpids_ok :: "dpids \<Rightarrow> bool" where
  "dpids_ok d \<longleftrightarrow>
     (\<forall>n t. map_of (dp_allocated d) n = Some t \<longleftrightarrow> (\<exists>v. map_of (dp_owners d) v = Some n \<and> t = hex16 v))
     \<and> (\<forall>v n. map_of (dp_owners d) v = Some n \<longrightarrow> 0 < v \<and> v \<le> max_dpid)"

lemma take_dpid_simps [simp]:
  "map_of (dp_owners (take_dpid n v d)) = (map_of (dp_owners d))(v \<mapsto> n)"
  "map_of (dp_allocated (take_dpid n v d)) = (map_of (dp_allocated d))(n \<mapsto> hex16 v)"
  by (simp_all add: take_dpid_def update_conv)

lemma take_dpid_ok:
  assumes "dpids_ok d" "map_of (dp_owners d) v = None" "map_of (dp_allocated d) n = None"
    and "0 < v" "v \<le> max_dpid"
  shows "dpids_ok (take_dpid n v d)"
proof -
  have "map_of (dp_owners d) w \<noteq> Some n" for w
    using assms(1,3) unfolding dpids_ok_def by (metis option.distinct(1))
  then show ?thesis using assms unfolding dpids_ok_def by (auto; metis option.distinct(1))
qed

lemma take_dpid_length:
  "map_of (dp_owners d) v = None \<Longrightarrow> length (dp_owners (take_dpid n v d)) = length (dp_owners d) + 1"
  by (simp add: take_dpid_def update_fresh)

lemma fix_dpids_run:
  assumes "fold_res fix_dpid ss d = Inr d'" "distinct (map fst ss)" "dpids_ok d"
    and "\<And>n. n \<in> fst ` set ss \<Longrightarrow> map_of (dp_allocated d) n = None"
    and "\<And>n s v. (n, s) \<in> set ss \<Longrightarrow> fixed_dpid n s = Some v \<Longrightarrow> 0 < v \<and> v \<le> max_dpid"
  shows "dpids_ok d' \<and> length (dp_owners d') \<le> length (dp_owners d) + length ss
    \<and> (\<forall>n. n \<notin> fst ` set ss \<longrightarrow> map_of (dp_allocated d') n = map_of (dp_allocated d) n)
    \<and> (\<forall>(n, s) \<in> set ss. map_of (dp_allocated d') n = map_option hex16 (fixed_dpid n s))"
  using assms
proof (induction ss arbitrary: d)
  case (Cons p ss)
  obtain n s where p: "p = (n, s)" by force
  have fresh: "map_of (dp_allocated d) n = None" using Cons.prems(4) [of n] by (simp add: p)
  obtain d1 where d1: "fix_dpid (n, s) d = Inr d1" and rest: "fold_res fix_dpid ss d1 = Inr d'"
    using Cons.prems(1) by (auto simp: p split: sum.splits)
  have step: "dpids_ok d1 \<and> length (dp_owners d1) \<le> length (dp_owners d) + 1
      \<and> map_of (dp_allocated d1) = (map_of (dp_allocated d))(n := map_option hex16 (fixed_dpid n s))"
  proof (cases "fixed_dpid n s")
    case None
    then have "d1 = d" using d1 by (simp add: fix_dpid_def)
    with None fresh Cons.prems(3) show ?thesis by auto
  next
    case (Some v)
    then have "map_of (dp_owners d) v = None" "d1 = take_dpid n v d"
      using d1 by (auto simp: fix_dpid_def split: if_splits)
    with Some fresh Cons.prems(3) Cons.prems(5) [of n s v] p show ?thesis
      by (simp add: take_dpid_ok take_dpid_length)
  qed
  have out: "m \<noteq> n" if "m \<in> fst ` set ss" for m using that Cons.prems(2) by (auto simp: p)
  have none: "map_of (dp_allocated d1) m = None" if "m \<in> fst ` set ss" for m
    using that out [OF that] step Cons.prems(4) [of m] by simp
  have "dpids_ok d' \<and> length (dp_owners d') \<le> length (dp_owners d1) + length ss
    \<and> (\<forall>n. n \<notin> fst ` set ss \<longrightarrow> map_of (dp_allocated d') n = map_of (dp_allocated d1) n)
    \<and> (\<forall>(n, s) \<in> set ss. map_of (dp_allocated d') n = map_option hex16 (fixed_dpid n s))"
  proof (rule Cons.IH [OF rest _ _ none])
    show "distinct (map fst ss)" "dpids_ok d1" using Cons.prems(2) step by simp_all
    show "0 < v \<and> v \<le> max_dpid" if "(n, s) \<in> set ss" "fixed_dpid n s = Some v" for n s v
      using Cons.prems(5) [of n s v] that by simp
  qed
  moreover have "n \<notin> fst ` set ss" using out by blast
  ultimately show ?case using step by (auto simp: p)
qed simp

lemma fill_dpids_run:
  assumes "dpids_ok d" "length (dp_owners d) + length ss + 2 \<le> max_dpid"
    and digest: "\<And>n. digest n \<le> max_dpid"
  shows "\<exists>d'. fill_dpids digest ss d = Some d' \<and> dpids_ok d'
    \<and> (\<forall>n t. map_of (dp_allocated d) n = Some t \<longrightarrow> map_of (dp_allocated d') n = Some t)
    \<and> (\<forall>n. map_of (dp_allocated d') n \<noteq> None
          \<longleftrightarrow> map_of (dp_allocated d) n \<noteq> None \<or> n \<in> fst ` set ss)"
  using assms(1,2)
proof (induction ss arbitrary: d)
  case (Cons p ss)
  obtain n s where p: "p = (n, s)" by force
  have "\<exists>d1. fill_dpid digest p d = Some d1 \<and> dpids_ok d1
      \<and> length (dp_owners d1) \<le> length (dp_owners d) + 1
      \<and> (map_of (dp_allocated d) n \<noteq> None \<and> d1 = d
         \<or> map_of (dp_allocated d) n = None
           \<and> (\<exists>t. map_of (dp_allocated d1) = (map_of (dp_allocated d))(n \<mapsto> t)))"
  proof (cases "map_of (dp_allocated d) n")
    case None
    define v where "v = (if digest n = 0 then 1 else digest n)"
    have v: "0 < v" "v \<le> max_dpid" using digest [of n] by (auto simp: v_def max_dpid_def)
    obtain w where w: "probe (dp_owners d) v (probe_steps (dp_owners d)) = Some w"
      using probe_found [of "dp_owners d" v] Cons.prems(2) walk_0 [OF v] by auto
    then have free: "map_of (dp_owners d) w = None" "0 < w" "w \<le> max_dpid"
      using probe_Some [of "dp_owners d" v 0] walk_0 [OF v] walk_range by fastforce+
    have "fill_dpid digest p d = Some (take_dpid n w d)"
      using None w by (simp add: fill_dpid_def p v_def split: if_splits)
    with None free Cons.prems(1) show ?thesis
      by (auto simp: take_dpid_ok take_dpid_length)
  next
    case (Some t)
    with Cons.prems(1) show ?thesis by (simp add: fill_dpid_def p)
  qed
  then obtain d1 where d1: "fill_dpid digest p d = Some d1" "dpids_ok d1"
      "length (dp_owners d1) \<le> length (dp_owners d) + 1"
      "map_of (dp_allocated d) n \<noteq> None \<and> d1 = d
       \<or> map_of (dp_allocated d) n = None
         \<and> (\<exists>t. map_of (dp_allocated d1) = (map_of (dp_allocated d))(n \<mapsto> t))"
    by blast
  have "length (dp_owners d1) + length ss + 2 \<le> max_dpid" using d1(3) Cons.prems(2) by simp
  from Cons.IH [OF d1(2) this] obtain d' where d': "fill_dpids digest ss d1 = Some d'" "dpids_ok d'"
    and kept: "\<And>n t. map_of (dp_allocated d1) n = Some t \<Longrightarrow> map_of (dp_allocated d') n = Some t"
    and names: "\<And>n. map_of (dp_allocated d') n \<noteq> None
          \<longleftrightarrow> map_of (dp_allocated d1) n \<noteq> None \<or> n \<in> fst ` set ss"
    by blast
  have "map_of (dp_allocated d1) m = Some t" if "map_of (dp_allocated d) m = Some t" for m t
    using d1(4) that by (cases "m = n") auto
  moreover have "map_of (dp_allocated d1) m \<noteq> None \<longleftrightarrow> map_of (dp_allocated d) m \<noteq> None \<or> m = n" for m
    using d1(4) by auto
  ultimately show ?case using d' kept names d1(1) by (auto simp: p)
qed simp

lemma fix_dpids_accepts:
  "(\<exists>d'. fold_res fix_dpid ss d = Inr d')
    \<longleftrightarrow> distinct (List.map_filter (\<lambda>(n, s). fixed_dpid n s) ss)
      \<and> set (List.map_filter (\<lambda>(n, s). fixed_dpid n s) ss) \<inter> fst ` set (dp_owners d) = {}"
proof (induction ss arbitrary: d)
  case (Cons p ss)
  obtain n s where p: "p = (n, s)" by force
  show ?case
  proof (cases "fixed_dpid n s")
    case None
    then show ?thesis using Cons.IH [of d] by (simp add: p fix_dpid_def map_filter_def)
  next
    case (Some v)
    show ?thesis
    proof (cases "map_of (dp_owners d) v")
      case None
      then have "fst ` set (dp_owners (take_dpid n v d)) = insert v (fst ` set (dp_owners d))"
        by (simp add: take_dpid_def keys_update_subset)
      moreover have "v \<notin> fst ` set (dp_owners d)" using None by (simp add: map_of_eq_None_iff)
      ultimately show ?thesis
        using Cons.IH [of "take_dpid n v d"] None Some by (auto simp: p fix_dpid_def map_filter_def)
    next
      case (Some m)
      then have "v \<in> fst ` set (dp_owners d)" by (force dest: map_of_SomeD)
      then show ?thesis
        using \<open>fixed_dpid n s = Some v\<close> Some by (auto simp: p fix_dpid_def map_filter_def)
    qed
  qed
qed (simp add: map_filter_def)

lemma fix_dpids_error: "fold_res fix_dpid ss d = Inl e \<Longrightarrow> e = DpidShared"
proof (induction ss arbitrary: d)
  case (Cons p ss)
  then show ?case by (cases "fix_dpid p d") (auto simp: fix_dpid_def split: prod.splits option.splits if_splits)
qed simp

text \<open>A fixed id of a validated switch is a 64-bit number other than 0.\<close>

lemma hex_digit_value_less: "hex_char c \<Longrightarrow> hex_digit_value c < 16"
  by (auto simp: hex_char_def hex_digit_value_def lower_char_def ascii_digit_def less_eq_char_def Let_def)

lemma hex_value_bound: "list_all hex_char s \<Longrightarrow> hex_value s < 16 ^ length s"
  unfolding hex_value_def
proof (induction s rule: rev_induct)
  case (snoc c s)
  have "hex_digit_value c < 16" using snoc.prems by (simp add: hex_digit_value_less)
  moreover have "foldl (\<lambda>n c. 16 * n + hex_digit_value c) 0 s < 16 ^ length s"
    using snoc by simp
  ultimately show ?case by (simp add: algebra_simps)
qed simp

lemma fixed_dpid_range:
  assumes "valid_dpid (sw_dpid s) = Inr (sw_dpid s)" "fixed_dpid n s = Some v"
  shows "0 < v \<and> v \<le> max_dpid"
proof (cases "sw_dpid s")
  case None
  with assms(2) show ?thesis
    by (auto simp: fixed_dpid_def Let_def split: list.splits if_splits)
next
  case (Some d)
  then have d: "length d \<le> 16" "list_all hex_char d" "hex_value d \<noteq> 0" "v = hex_value d"
    using assms by (auto simp: valid_dpid_def fixed_dpid_def split: if_splits)
  have "hex_value d < 16 ^ length d" by (rule hex_value_bound [OF d(2)])
  also have "\<dots> \<le> (16::nat) ^ 16" using d(1) by (intro power_increasing) simp_all
  finally show ?thesis using d(3,4) by (simp add: max_dpid_def)
qed

lemma switches_of_mem:
  "(n, s) \<in> set (switches_of ns) \<longleftrightarrow> (\<exists>x\<in>set ns. nd_name x = n \<and> nd_body x = SwitchBody s)"
proof -
  define f where "f = (\<lambda>n :: node. case nd_body n of SwitchBody s \<Rightarrow> Some (nd_name n, s) | _ \<Rightarrow> None)"
  have f: "f x = Some (n, s) \<longleftrightarrow> nd_name x = n \<and> nd_body x = SwitchBody s" for x
    by (auto simp: f_def split: node_body.splits)
  have "(n, s) \<in> set (List.map_filter f ns) \<longleftrightarrow> (\<exists>x\<in>set ns. f x = Some (n, s))"
    by (force simp: map_filter_def)
  then show ?thesis by (simp add: switches_of_def f_def [symmetric] f)
qed

lemma switches_of_distinct:
  assumes "distinct (map nd_name ns)"
  shows "distinct (map fst (switches_of ns))"
proof -
  define f where "f = (\<lambda>n :: node. case nd_body n of SwitchBody s \<Rightarrow> Some (nd_name n, s) | _ \<Rightarrow> None)"
  have "fst ` set (List.map_filter f ns) \<subseteq> nd_name ` set ns"
    for ns
    by (force simp: map_filter_def f_def split: node_body.splits)
  then have "distinct (map fst (List.map_filter f ns))"
    using assms by (induction ns) (fastforce simp: map_filter_def f_def split: node_body.splits)+
  then have "distinct (map fst (sort_key fst (List.map_filter f ns)))"
    by (metis (no_types, lifting) distinct_map distinct_sort set_sort)
  then show ?thesis by (simp add: switches_of_def f_def)
qed

lemma length_switches_of: "length (switches_of ns) \<le> length ns"
  by (simp add: switches_of_def map_filter_def)

text \<open>C39. Datapath ids: for switches whose ids the specification has validated, allocation is
  refused exactly when two of the fixed ids agree; otherwise it ends, gives every switch and
  nothing else an id, keeps the fixed ones, and all ids are different non-zero 64-bit numbers.\<close>

theorem dpids_unique_and_nonzero:
  assumes "distinct (map nd_name ns)"
    and "list_all (\<lambda>(n, s). valid_dpid (sw_dpid s) = Inr (sw_dpid s)) (switches_of ns)"
    and "\<And>n. digest n \<le> max_dpid" "2 * length ns + 2 \<le> max_dpid"
  shows "if distinct (List.map_filter (\<lambda>(n, s). fixed_dpid n s) (switches_of ns))
    then \<exists>ids. allocate_dpids digest ns = Inr (Some ids)
       \<and> (\<forall>n. map_of ids n \<noteq> None \<longleftrightarrow> n \<in> fst ` set (switches_of ns))
       \<and> (\<forall>n s v. (n, s) \<in> set (switches_of ns) \<and> fixed_dpid n s = Some v \<longrightarrow> map_of ids n = Some (hex16 v))
       \<and> (\<forall>n t. map_of ids n = Some t \<longrightarrow> (\<exists>v. 0 < v \<and> v \<le> max_dpid \<and> t = hex16 v))
       \<and> (\<forall>n m t. map_of ids n = Some t \<and> map_of ids m = Some t \<longrightarrow> n = m)
    else allocate_dpids digest ns = Inl DpidShared"
proof -
  define ss where "ss = switches_of ns"
  define d0 where "d0 = \<lparr>dp_owners = [] :: (nat \<times> string) list, dp_allocated = []\<rparr>"
  have range: "0 < v \<and> v \<le> max_dpid" if "(n, s) \<in> set ss" "fixed_dpid n s = Some v" for n s v
    using assms(2) that fixed_dpid_range by (fastforce simp: ss_def list_all_iff)
  show ?thesis
  proof (cases "distinct (List.map_filter (\<lambda>(n, s). fixed_dpid n s) ss)")
    case True
    then obtain d where d: "fold_res fix_dpid ss d0 = Inr d"
      using fix_dpids_accepts [of ss d0] by (auto simp: d0_def)
    have "distinct (map fst ss)" using switches_of_distinct [OF assms(1)] by (simp add: ss_def)
    moreover have "dpids_ok d0" by (simp add: dpids_ok_def d0_def)
    ultimately have "dpids_ok d \<and> length (dp_owners d) \<le> length (dp_owners d0) + length ss
        \<and> (\<forall>n. n \<notin> fst ` set ss \<longrightarrow> map_of (dp_allocated d) n = map_of (dp_allocated d0) n)
        \<and> (\<forall>(n, s) \<in> set ss. map_of (dp_allocated d) n = map_option hex16 (fixed_dpid n s))"
      by (intro fix_dpids_run [OF d]) (auto simp: d0_def dest: range)
    then have ok: "dpids_ok d" "length (dp_owners d) \<le> length ss"
      and none: "\<And>n. n \<notin> fst ` set ss \<Longrightarrow> map_of (dp_allocated d) n = None"
      and fixed: "\<And>n s. (n, s) \<in> set ss \<Longrightarrow> map_of (dp_allocated d) n = map_option hex16 (fixed_dpid n s)"
      by (auto simp: d0_def)
    have "length (dp_owners d) + length ss + 2 \<le> max_dpid"
      using ok(2) assms(4) length_switches_of [of ns] by (simp add: ss_def)
    from fill_dpids_run [where digest = digest, OF ok(1) this assms(3)]
    obtain d' where d': "fill_dpids digest ss d = Some d'" "dpids_ok d'"
      and kept: "\<And>n t. map_of (dp_allocated d) n = Some t \<Longrightarrow> map_of (dp_allocated d') n = Some t"
      and names: "\<And>n. map_of (dp_allocated d') n \<noteq> None
            \<longleftrightarrow> map_of (dp_allocated d) n \<noteq> None \<or> n \<in> fst ` set ss"
      by blast
    have ids: "map_of (dp_allocated d') n = Some t \<longleftrightarrow> (\<exists>v. map_of (dp_owners d') v = Some n \<and> t = hex16 v)"
      and pos: "map_of (dp_owners d') v = Some n \<Longrightarrow> 0 < v \<and> v \<le> max_dpid" for n t v
      using d'(2) unfolding dpids_ok_def by blast+
    have run: "allocate_dpids digest ns = Inr (Some (dp_allocated d'))"
      using d d'(1) by (simp add: allocate_dpids_def ss_def d0_def)
    have every: "map_of (dp_allocated d') n \<noteq> None \<longleftrightarrow> n \<in> fst ` set ss" for n
      using names [of n] none [of n] by metis
    have kept_fixed: "map_of (dp_allocated d') n = Some (hex16 v)"
      if "(n, s) \<in> set ss" "fixed_dpid n s = Some v" for n s v
      using fixed [OF that(1)] that(2) by (intro kept) simp
    have usable: "\<exists>v. 0 < v \<and> v \<le> max_dpid \<and> t = hex16 v" if "map_of (dp_allocated d') n = Some t" for n t
      using that pos by (auto simp: ids)
    have unique: "n = m"
      if a: "map_of (dp_allocated d') n = Some t" and b: "map_of (dp_allocated d') m = Some t" for n m t
    proof -
      obtain v w where vw: "map_of (dp_owners d') v = Some n" "map_of (dp_owners d') w = Some m"
          "hex16 v = hex16 w"
        using ids [THEN iffD1, OF a] ids [THEN iffD1, OF b] by blast
      then have "v = w" using pos by (intro hex16_inj) blast+
      with vw show ?thesis by simp
    qed
    have "\<exists>ids. allocate_dpids digest ns = Inr (Some ids)
       \<and> (\<forall>n. map_of ids n \<noteq> None \<longleftrightarrow> n \<in> fst ` set ss)
       \<and> (\<forall>n s v. (n, s) \<in> set ss \<and> fixed_dpid n s = Some v \<longrightarrow> map_of ids n = Some (hex16 v))
       \<and> (\<forall>n t. map_of ids n = Some t \<longrightarrow> (\<exists>v. 0 < v \<and> v \<le> max_dpid \<and> t = hex16 v))
       \<and> (\<forall>n m t. map_of ids n = Some t \<and> map_of ids m = Some t \<longrightarrow> n = m)"
      by (intro exI [of _ "dp_allocated d'"] conjI allI impI)
         (rule run, rule every, blast intro: kept_fixed, rule usable, blast, blast intro: unique)
    then show ?thesis using True by (simp only: ss_def if_True)
  next
    case False
    then have "\<nexists>d. fold_res fix_dpid ss d0 = Inr d"
      using fix_dpids_accepts [of ss d0] by blast
    then have "fold_res fix_dpid ss d0 = Inl DpidShared"
      using fix_dpids_error [of ss d0] by (cases "fold_res fix_dpid ss d0") auto
    then show ?thesis using False by (simp add: allocate_dpids_def ss_def d0_def)
  qed
qed

text \<open>The ids do not depend on the order in which a topology declares its resources.\<close>

lemma dpids_order_independent:
  assumes "mset ns = mset ms" "distinct (map nd_name ns)"
  shows "allocate_dpids digest ns = allocate_dpids digest ms"
proof -
  define f where "f = (\<lambda>n :: node. case nd_body n of SwitchBody s \<Rightarrow> Some (nd_name n, s) | _ \<Rightarrow> None)"
  have same: "mset (List.map_filter f ns) = mset (List.map_filter f ms)"
    using assms(1) by (simp add: map_filter_def)
  have "distinct (map fst (sort_key fst (List.map_filter f ns)))"
    using switches_of_distinct [OF assms(2)] by (simp add: switches_of_def f_def)
  then have "inj_on fst (set (List.map_filter f ns))" by (simp add: distinct_map)
  then have "sort_key fst (List.map_filter f ns) = sort_key fst (List.map_filter f ms)"
    using same by (intro sort_key_inj_key_eq) simp_all
  then have "switches_of ns = switches_of ms" by (simp add: switches_of_def f_def)
  then show ?thesis by (simp add: allocate_dpids_def)
qed

section \<open>A small topology\<close>

definition sample_switch :: "string option \<Rightarrow> switch_body" where
  "sample_switch d = \<lparr>sw_dpid = d, sw_fail_mode = Secure, sw_datapath = Kernel, sw_controllers = [],
     sw_protocols = [OpenFlow13], sw_ports = []\<rparr>"

definition sample_node :: "string \<Rightarrow> node_body \<Rightarrow> node" where
  "sample_node n b = \<lparr>nd_name = n, nd_labels = [], nd_parent = None, nd_attributes = [], nd_body = b\<rparr>"

definition sample_endpoint :: "string \<Rightarrow> link_endpoint" where
  "sample_endpoint n = \<lparr>le_node = n, le_adapter = None\<rparr>"

definition sample_link :: "string \<Rightarrow> string \<Rightarrow> string \<Rightarrow> link" where
  "sample_link n a b = \<lparr>ln_name = n, ln_endpoints = (sample_endpoint a, sample_endpoint b), ln_labels = [],
     ln_attributes = [], ln_bandwidth = None, ln_delay = None, ln_jitter = None, ln_loss = 0,
     ln_max_queue = None\<rparr>"

text \<open>Two hosts on a switch, in 10.0.0.0/29; the first host asks for 10.0.0.1.\<close>

definition sample_topology :: topology where
  "sample_topology =
     \<lparr>tp_subnet = \<lparr>sn_network = 167772160, sn_prefix = 29\<rparr>, tp_mac_prefix = ''02:00:00'',
      tp_resources =
        [sample_node ''h1'' (HostBody [\<lparr>hi_name = None, hi_ipv4 = IpFixed 167772161 29,
            hi_mac = ''auto'', hi_mtu = 1500\<rparr>] None),
         sample_node ''h2'' (HostBody [] None),
         sample_node ''s1'' (SwitchBody (sample_switch None)),
         sample_node ''edge'' (SwitchBody (sample_switch None))],
      tp_links = [sample_link ''l1'' ''h1'' ''s1'', sample_link ''l2'' ''h2'' ''s1'']\<rparr>"

definition sample_host_adapter :: "string \<Rightarrow> string \<Rightarrow> ip_setting \<Rightarrow> adapter" where
  "sample_host_adapter n owner ip =
     \<lparr>ad_name = n, ad_owner = owner, ad_role = HostInterface, ad_number = 0, ad_mtu = 1500,
      ad_ip_setting = Some ip, ad_mac_setting = Some ''auto'', ad_ipv4 = None, ad_mac = None\<rparr>"

definition sample_drafts :: "(string \<times> adapter) list" where
  "sample_drafts = [(''h1-eth0'', sample_host_adapter ''h1-eth0'' ''h1'' (IpFixed 167772161 29)),
     (''h2-eth0'', sample_host_adapter ''h2-eth0'' ''h2'' IpAuto)]"

lemma hex_digits_two: "hex_digits 2 n = [digit_char (n div 16 mod 16), digit_char (n mod 16)]"
  by (simp add: numeral_2_eq_2)

lemma digit_chars:
  "digit_char 0 = CHR ''0''" "digit_char 1 = CHR ''1''" "digit_char 2 = CHR ''2''" "digit_char (Suc 0) = CHR ''1''"
  by code_simp+

lemma sample_hosts: "host_adapters sample_drafts = map snd sample_drafts"
  by (simp add: host_adapters_def sample_drafts_def sample_host_adapter_def)

lemma sample_ips: "allocate_ips (tp_subnet sample_topology) (map snd sample_drafts) =
   Inr [(sample_host_adapter ''h1-eth0'' ''h1'' (IpFixed 167772161 29))\<lparr>ad_ipv4 := Some (167772161, 29)\<rparr>,
       (sample_host_adapter ''h2-eth0'' ''h2'' IpAuto)\<lparr>ad_ipv4 := Some (167772162, 29)\<rparr>]"
  by (simp add: allocate_ips_def sample_topology_def
      sample_drafts_def sample_host_adapter_def fix_address_def fill_address_def in_subnet_def broadcast_def
       next_address.simps [of _ _ 167772161] next_address.simps [of _ _ 167772162])

lemma sample_mac_texts: "mac_of_suffix ''02:00:00'' 1 = ''02:00:00:00:00:01''"
  "mac_of_suffix ''02:00:00'' 2 = ''02:00:00:00:00:02''"
  by (simp_all add: mac_of_suffix_def hex_digits_two digit_chars)

lemma sample_first_suffix: "free_suffix ''02:00:00'' [] (Suc 0) = Some (Suc 0)"
  by (subst free_suffix.simps) simp

lemma sample_second_suffix: "free_suffix ''02:00:00'' [(''02:00:00:00:00:01'', n)] (Suc 0) = Some 2"
proof -
  have "free_suffix ''02:00:00'' [(''02:00:00:00:00:01'', n)] 2 = Some 2"
    by (subst free_suffix.simps) (simp add: sample_mac_texts)
  then show ?thesis by (subst free_suffix.simps) (simp add: sample_mac_texts [simplified] numeral_2_eq_2 del: One_nat_def)
qed

lemma sample_macs: "allocate_macs (tp_mac_prefix sample_topology)
   [(sample_host_adapter ''h1-eth0'' ''h1'' (IpFixed 167772161 29))\<lparr>ad_ipv4 := Some (167772161, 29)\<rparr>,
       (sample_host_adapter ''h2-eth0'' ''h2'' IpAuto)\<lparr>ad_ipv4 := Some (167772162, 29)\<rparr>] =
   Inr [(sample_host_adapter ''h1-eth0'' ''h1'' (IpFixed 167772161 29))\<lparr>ad_ipv4 := Some (167772161, 29), ad_mac := Some ''02:00:00:00:00:01''\<rparr>,
       (sample_host_adapter ''h2-eth0'' ''h2'' IpAuto)\<lparr>ad_ipv4 := Some (167772162, 29), ad_mac := Some ''02:00:00:00:00:02''\<rparr>]"
  by (simp add: allocate_macs_def sample_topology_def
      sample_host_adapter_def fix_mac_def fill_mac_def given_def sample_mac_texts [simplified] sample_first_suffix sample_second_suffix)

lemma sample_addresses_run:
  "allocate_addresses sample_topology sample_drafts =
    Inr [(''h1-eth0'', (sample_host_adapter ''h1-eth0'' ''h1'' (IpFixed 167772161 29))
           \<lparr>ad_ipv4 := Some (167772161, 29), ad_mac := Some ''02:00:00:00:00:01''\<rparr>),
         (''h2-eth0'', (sample_host_adapter ''h2-eth0'' ''h2'' IpAuto)
           \<lparr>ad_ipv4 := Some (167772162, 29), ad_mac := Some ''02:00:00:00:00:02''\<rparr>)]"
proof -
  have "allocate_addresses sample_topology sample_drafts =
      Inr (fold (\<lambda>a. AList.update (ad_name a) a)
        [(sample_host_adapter ''h1-eth0'' ''h1'' (IpFixed 167772161 29))
           \<lparr>ad_ipv4 := Some (167772161, 29), ad_mac := Some ''02:00:00:00:00:01''\<rparr>,
         (sample_host_adapter ''h2-eth0'' ''h2'' IpAuto)
           \<lparr>ad_ipv4 := Some (167772162, 29), ad_mac := Some ''02:00:00:00:00:02''\<rparr>] sample_drafts)"
    unfolding allocate_addresses_def sample_hosts sample_ips bind_res_simps sample_macs ..
  then show ?thesis by (simp add: sample_drafts_def sample_host_adapter_def)
qed

theorem addresses_usable_and_unique_witness:
  "\<exists>al. allocate_addresses sample_topology sample_drafts = Inr al
    \<and> (\<exists>b. map_of al ''h2-eth0'' = Some b
        \<and> addressed sample_topology (sample_host_adapter ''h2-eth0'' ''h2'' IpAuto) b)"
proof -
  have fresh: "fresh_drafts sample_drafts"
    by (simp add: fresh_drafts_def sample_drafts_def sample_host_adapter_def)
  have "map_of sample_drafts ''h2-eth0'' = Some (sample_host_adapter ''h2-eth0'' ''h2'' IpAuto)"
    "ad_role (sample_host_adapter ''h2-eth0'' ''h2'' IpAuto) = HostInterface"
    by (simp_all add: sample_drafts_def sample_host_adapter_def)
  with addresses_usable_and_unique [OF sample_addresses_run fresh, THEN conjunct2, THEN conjunct1, rule_format,
      of "''h2-eth0''" "sample_host_adapter ''h2-eth0'' ''h2'' IpAuto"]
  show ?thesis by (simp add: sample_addresses_run)
qed

theorem dpids_unique_and_nonzero_witness:
  "\<exists>ids. allocate_dpids (\<lambda>_. 1) (tp_resources sample_topology) = Inr (Some ids)
    \<and> map_of ids ''s1'' = Some (hex16 1) \<and> map_of ids ''edge'' \<noteq> map_of ids ''s1''"
proof -
  have ss: "switches_of (tp_resources sample_topology) = [(''edge'', sample_switch None), (''s1'', sample_switch None)]"
    by (simp add: switches_of_def sample_topology_def sample_node_def map_filter_def)
  have free: "fixed_dpid ''edge'' (sample_switch None) = None" and one: "fixed_dpid ''s1'' (sample_switch None) = Some 1"
    by (simp_all add: fixed_dpid_def sample_switch_def ascii_digit_def max_dpid_def)
  have valid: "list_all (\<lambda>(n, s). valid_dpid (sw_dpid s) = Inr (sw_dpid s))
      (switches_of (tp_resources sample_topology))"
    by (simp add: ss sample_switch_def valid_dpid_def)
  have names: "distinct (map nd_name (tp_resources sample_topology))"
    by (simp add: sample_topology_def sample_node_def)
  have small: "2 * length (tp_resources sample_topology) + 2 \<le> max_dpid" "(1::nat) \<le> max_dpid"
    by (simp_all add: sample_topology_def max_dpid_def)
  have "distinct (List.map_filter (\<lambda>(n, s). fixed_dpid n s) (switches_of (tp_resources sample_topology)))"
    by (simp add: ss free one map_filter_def)
  note result = dpids_unique_and_nonzero [where digest = "\<lambda>_. 1", OF names valid small(2,1), unfolded if_P [OF this]]
  then obtain ids where run: "allocate_dpids (\<lambda>_. 1) (tp_resources sample_topology) = Inr (Some ids)"
    and fixed: "\<And>n s v. (n, s) \<in> set (switches_of (tp_resources sample_topology)) \<and> fixed_dpid n s = Some v
      \<Longrightarrow> map_of ids n = Some (hex16 v)"
    and unique: "\<And>n m t. map_of ids n = Some t \<and> map_of ids m = Some t \<Longrightarrow> n = m"
    by blast
  have "map_of ids ''s1'' = Some (hex16 1)" using fixed [of "''s1''" "sample_switch None" 1] one by (simp add: ss)
  moreover have "map_of ids ''edge'' \<noteq> map_of ids ''s1''"
    using unique [of "''edge''" _ "''s1''"] calculation by auto
  ultimately show ?thesis using run by blast
qed

end
