(* ===== verification/Resources.thy ===== *)
theory Resources
  imports Addresses "HOL-Library.Product_Lexorder"
begin

text \<open>
  The resources of a plan (\<open>_build_resources\<close> of \<open>mininet_ai/compiler/compiler.py\<close>, the
  planned resources of \<open>mininet_ai/compiler/models.py\<close>): the steps of \<open>Topology\<close> and
  \<open>Addresses\<close> in the order of the code, and what they guarantee together. The resource graph
  is accepted exactly when it is a forest of known resources; names are unique in a plan; each
  end of a link is a port of its own on the node the link names.
\<close>

section \<open>Planned resources\<close>

datatype planned_body =
    PlannedNetwork
  | PlannedRegion
  | PlannedFlow
  | PlannedController controller_body
  | PlannedDomain "string list"
  | PlannedSwitch string fail_mode datapath "string list" "openflow list"
  | PlannedHost "string option"

record planned_node =
  pn_name :: string
  pn_labels :: "(string \<times> string) list"
  pn_parent :: "string option"
  pn_attributes :: json_object
  pn_body :: planned_body

record planned_port =
  pp_name :: string
  pp_parent :: string
  pp_role :: adapter_role
  pp_number :: nat
  pp_ipv4 :: "string option"
  pp_mac :: "string option"
  pp_mtu :: nat

datatype planned_resource =
    NodeResource planned_node
  | PortResource planned_port
  | LinkResource planned_link

fun body_kind :: "planned_body \<Rightarrow> resource_kind" where
  "body_kind PlannedNetwork = NetworkKind"
| "body_kind PlannedRegion = RegionKind"
| "body_kind PlannedFlow = FlowKind"
| "body_kind (PlannedController _) = ControllerKind"
| "body_kind (PlannedDomain _) = ControllerDomainKind"
| "body_kind (PlannedSwitch _ _ _ _ _) = SwitchKind"
| "body_kind (PlannedHost _) = HostKind"

fun res_kind :: "planned_resource \<Rightarrow> resource_kind" where
  "res_kind (NodeResource n) = body_kind (pn_body n)"
| "res_kind (PortResource _) = PortKind"
| "res_kind (LinkResource _) = LinkKind"

fun res_name :: "planned_resource \<Rightarrow> string" where
  "res_name (NodeResource n) = pn_name n"
| "res_name (PortResource p) = pp_name p"
| "res_name (LinkResource l) = pk_name l"

fun res_parent :: "planned_resource \<Rightarrow> string option" where
  "res_parent (NodeResource n) = pn_parent n"
| "res_parent (PortResource p) = Some (pp_parent p)"
| "res_parent (LinkResource _) = None"

fun res_labels :: "planned_resource \<Rightarrow> (string \<times> string) list" where
  "res_labels (NodeResource n) = pn_labels n"
| "res_labels (PortResource _) = []"
| "res_labels (LinkResource l) = pk_labels l"

definition planned_body_of :: "(string \<times> string) list \<Rightarrow> node \<Rightarrow> planned_body" where
  "planned_body_of dpids n =
     (case nd_body n of
        NetworkBody \<Rightarrow> PlannedNetwork
      | RegionBody \<Rightarrow> PlannedRegion
      | FlowBody \<Rightarrow> PlannedFlow
      | ControllerBody c \<Rightarrow> PlannedController (c\<lparr>cb_address := given (cb_address c)\<rparr>)
      | DomainBody cs \<Rightarrow> PlannedDomain cs
      | SwitchBody s \<Rightarrow>
          PlannedSwitch (the (map_of dpids (nd_name n))) (sw_fail_mode s) (sw_datapath s) (sw_controllers s)
            (sw_protocols s)
      | HostBody _ r \<Rightarrow> PlannedHost r)"

definition planned_node_of :: "(string \<times> string) list \<Rightarrow> node \<Rightarrow> planned_node" where
  "planned_node_of dpids n =
     \<lparr>pn_name = nd_name n, pn_labels = nd_labels n, pn_parent = nd_parent n,
      pn_attributes = nd_attributes n, pn_body = planned_body_of dpids n\<rparr>"

definition port_of :: "adapter \<Rightarrow> planned_port" where
  "port_of a =
     \<lparr>pp_name = ad_name a, pp_parent = ad_owner a, pp_role = ad_role a, pp_number = ad_number a,
      pp_ipv4 = map_option ipv4_text (ad_ipv4 a), pp_mac = ad_mac a, pp_mtu = ad_mtu a\<rparr>"

definition declare_name :: "node \<Rightarrow> (string \<times> node) list \<Rightarrow> compile_error + (string \<times> node) list" where
  "declare_name n nodes =
     (if map_of nodes (nd_name n) \<noteq> None then Inl DuplicateName
      else Inr (AList.update (nd_name n) n nodes))"

definition sort_resources :: "planned_resource list \<Rightarrow> planned_resource list" where
  "sort_resources rs = sort_key (\<lambda>r. (kind_value (res_kind r), res_name r)) rs"

text \<open>\<open>_build_resources\<close>; the inner \<open>None\<close> is the search for an id that does not end.\<close>

definition build_resources ::
  "(string \<Rightarrow> nat) \<Rightarrow> topology \<Rightarrow> compile_error + planned_resource list option" where
  "build_resources digest tp =
     bind_res (fold_res declare_name (tp_resources tp) []) (\<lambda>nodes.
     bind_res (validate_resource_graph tp nodes (map fst nodes)) (\<lambda>reserved.
     bind_res (declare_adapters tp reserved) (\<lambda>d.
     bind_res (resolve_links tp nodes d) (\<lambda>(links, d).
     bind_res (allocate_addresses tp (dr_adapters d)) (\<lambda>adapters.
     bind_res (allocate_dpids digest (map snd nodes)) (\<lambda>ids.
       Inr (map_option (\<lambda>ids. sort_resources
              (map (\<lambda>n. NodeResource (planned_node_of ids n)) (tp_resources tp)
               @ map (\<lambda>(_, a). PortResource (port_of a)) adapters
               @ map LinkResource links)) ids)))))))"

section \<open>The resource graph is a forest\<close>

definition parent_edges :: "(string \<times> string) list \<Rightarrow> (string \<times> string) set" where
  "parent_edges parents = {(n, p). map_of parents n = Some p}"

inductive ends :: "(string \<times> string) list \<Rightarrow> string \<Rightarrow> bool" for parents where
  top: "map_of parents n = None \<Longrightarrow> ends parents n"
| up: "map_of parents n = Some p \<Longrightarrow> ends parents p \<Longrightarrow> ends parents n"

lemma chain_walk_ends: "chain_walk parents chain n = Inr u \<Longrightarrow> ends parents n"
proof (induction parents chain n rule: chain_walk.induct)
  case (1 parents chain n)
  then show ?case
    by (cases "map_of parents n")
       (auto simp: chain_walk.simps [of parents chain n] split: if_splits intro: ends.intros)
qed

lemma ends_not_cyclic: "ends parents n \<Longrightarrow> (n, n) \<notin> (parent_edges parents)\<^sup>+"
proof (induction rule: ends.induct)
  case (top n)
  then show ?case by (auto simp: parent_edges_def dest: tranclD)
next
  case (up n p)
  show ?case
  proof
    assume "(n, n) \<in> (parent_edges parents)\<^sup>+"
    then obtain q where "(n, q) \<in> parent_edges parents" "(q, n) \<in> (parent_edges parents)\<^sup>*"
      by (blast dest: tranclD)
    moreover have "q = p" using calculation(1) up.hyps(1) by (simp add: parent_edges_def)
    ultimately have "(p, p) \<in> (parent_edges parents)\<^sup>+" by (blast intro: rtrancl_into_trancl1)
    with up.IH show False by blast
  qed
qed

lemma chain_walk_accepts:
  assumes "acyclic (parent_edges parents)" "\<forall>x\<in>set chain. (x, n) \<in> (parent_edges parents)\<^sup>+"
  shows "chain_walk parents chain n = Inr ()"
  using assms
proof (induction parents chain n rule: chain_walk.induct)
  case (1 parents chain n)
  show ?case
  proof (cases "map_of parents n")
    case None
    then show ?thesis by (simp add: chain_walk.simps)
  next
    case (Some p)
    have new: "n \<notin> set chain" using 1(2,3) by (auto simp: acyclic_def)
    have edge: "(n, p) \<in> parent_edges parents" using Some by (simp add: parent_edges_def)
    have "chain_walk parents (n # chain) p = Inr ()"
      using 1(1) [OF Some new 1(2)] 1(3) edge by (auto intro: trancl_into_trancl)
    with Some new show ?thesis by (simp add: chain_walk.simps [of parents chain n])
  qed
qed

lemma chains_accepted_iff:
  "(\<exists>us. map_res (chain_walk parents []) (map fst parents) = Inr us) \<longleftrightarrow> acyclic (parent_edges parents)"
proof
  assume run: "\<exists>us. map_res (chain_walk parents []) (map fst parents) = Inr us"
  have "(n, n) \<notin> (parent_edges parents)\<^sup>+" for n
  proof
    assume cycle: "(n, n) \<in> (parent_edges parents)\<^sup>+"
    then have "n \<in> set (map fst parents)"
      by (auto simp: parent_edges_def dest!: tranclD) (force dest: map_of_SomeD)
    then have "ends parents n" using run by (auto simp: map_res_returns_iff dest: chain_walk_ends)
    with ends_not_cyclic cycle show False by blast
  qed
  then show "acyclic (parent_edges parents)" by (simp add: acyclic_def)
next
  assume "acyclic (parent_edges parents)"
  then show "\<exists>us. map_res (chain_walk parents []) (map fst parents) = Inr us"
    by (auto simp: map_res_returns_iff chain_walk_accepts)
qed

lemma reserve_links_iff:
  "fold_res reserve_link ls reserved = Inr out
    \<longleftrightarrow> distinct (map ln_name ls) \<and> set (map ln_name ls) \<inter> set reserved = {}
        \<and> out = rev (map ln_name ls) @ reserved"
  by (induction ls arbitrary: reserved) (auto simp: reserve_link_def)

definition known_parent :: "(string \<times> node) list \<Rightarrow> node \<Rightarrow> bool" where
  "known_parent nodes n \<longleftrightarrow>
     (case given (nd_parent n) of None \<Rightarrow> True | Some p \<Rightarrow> map_of nodes p \<noteq> None)"

definition known_controllers :: "(string \<times> node) list \<Rightarrow> node \<Rightarrow> bool" where
  "known_controllers nodes n \<longleftrightarrow>
     list_all (\<lambda>c. \<exists>k b. map_of nodes c = Some k \<and> nd_body k = ControllerBody b) (node_controllers n)"

text \<open>The resource graph of a topology is accepted exactly when every parent is a declared
  resource, no resource is its own ancestor, the links have names of their own that no
  resource has, and every controller a switch or a domain names is a declared controller; the
  names of the links are then reserved.\<close>

lemma resource_graph_accepted_iff:
  "(\<exists>out. validate_resource_graph tp nodes reserved = Inr out)
    \<longleftrightarrow> list_all (known_parent nodes) (tp_resources tp)
      \<and> acyclic (parent_edges (parent_table (tp_resources tp)))
      \<and> distinct (map ln_name (tp_links tp)) \<and> set (map ln_name (tp_links tp)) \<inter> set reserved = {}
      \<and> list_all (known_controllers nodes) (tp_resources tp)"
proof -
  have parents: "(\<exists>us. map_res (\<lambda>n. case given (nd_parent n) of
                   None \<Rightarrow> Inr ()
                 | Some p \<Rightarrow> guard_res (map_of nodes p \<noteq> None) UnknownParent) (tp_resources tp) = Inr us)
      \<longleftrightarrow> list_all (known_parent nodes) (tp_resources tp)"
    unfolding map_res_returns_iff list_all_iff
    by (intro ball_cong refl) (auto simp: known_parent_def split: option.splits)
  have controllers: "(\<exists>us. map_res (check_controller nodes) (concat (map node_controllers (tp_resources tp))) = Inr us)
      \<longleftrightarrow> list_all (known_controllers nodes) (tp_resources tp)"
  proof -
    have "(\<exists>u. check_controller nodes c = Inr u)
        \<longleftrightarrow> (\<exists>k b. map_of nodes c = Some k \<and> nd_body k = ControllerBody b)" for c
      by (auto simp: check_controller_def split: option.splits node_body.splits)
    then show ?thesis by (simp add: map_res_returns_iff list_all_iff known_controllers_def)
  qed
  have "(\<exists>out. validate_resource_graph tp nodes reserved = Inr out)
      \<longleftrightarrow> (\<exists>us. map_res (\<lambda>n. case given (nd_parent n) of
                   None \<Rightarrow> Inr ()
                 | Some p \<Rightarrow> guard_res (map_of nodes p \<noteq> None) UnknownParent) (tp_resources tp) = Inr us)
        \<and> (\<exists>us. map_res (chain_walk (parent_table (tp_resources tp)) [])
              (map fst (parent_table (tp_resources tp))) = Inr us)
        \<and> (\<exists>out. fold_res reserve_link (tp_links tp) reserved = Inr out)
        \<and> (\<exists>us. map_res (check_controller nodes) (concat (map node_controllers (tp_resources tp))) = Inr us)"
    unfolding validate_resource_graph_def bind_res_Inr_iff by blast
  then show ?thesis by (simp only: parents controllers chains_accepted_iff reserve_links_iff) blast
qed

section \<open>Adapters belong to hosts and switches\<close>

definition fits :: "(string \<times> node) list \<Rightarrow> adapter \<Rightarrow> bool" where
  "fits nodes a \<longleftrightarrow>
     (\<exists>n. map_of nodes (ad_owner a) = Some n
        \<and> (if ad_role a = HostInterface then is_host n else is_switch n))"

text \<open>\<open>taken\<close> are the names of the resources and links.\<close>

definition drafts_ok :: "(string \<times> node) list \<Rightarrow> string list \<Rightarrow> drafts \<Rightarrow> bool" where
  "drafts_ok nodes taken d \<longleftrightarrow>
     fresh_drafts (dr_adapters d) \<and> list_all (\<lambda>(_, a). fits nodes a) (dr_adapters d)
     \<and> set (dr_reserved d) = set taken \<union> fst ` set (dr_adapters d)
     \<and> set taken \<inter> fst ` set (dr_adapters d) = {}"

definition add_draft :: "adapter \<Rightarrow> drafts \<Rightarrow> drafts" where
  "add_draft a d = \<lparr>dr_adapters = AList.update (ad_name a) a (dr_adapters d),
     dr_reserved = ad_name a # dr_reserved d\<rparr>"

definition fresh_adapter :: "adapter \<Rightarrow> bool" where
  "fresh_adapter a \<longleftrightarrow> ad_ipv4 a = None \<and> ad_mac a = None"

lemma add_draft_ok:
  assumes "drafts_ok nodes taken d" "ad_name a \<notin> set (dr_reserved d)" "fits nodes a" "fresh_adapter a"
  shows "drafts_ok nodes taken (add_draft a d)"
    and "map_of (dr_adapters d) \<subseteq>\<^sub>m map_of (dr_adapters (add_draft a d))"
    and "map_of (dr_adapters (add_draft a d)) (ad_name a) = Some a"
proof -
  have "ad_name a \<notin> fst ` set (dr_adapters d)" using assms(1,2) by (auto simp: drafts_ok_def)
  then have none: "map_of (dr_adapters d) (ad_name a) = None" by (simp add: map_of_eq_None_iff)
  with assms show "drafts_ok nodes taken (add_draft a d)"
    by (auto simp: drafts_ok_def add_draft_def fresh_drafts_def fresh_adapter_def update_fresh)
  show "map_of (dr_adapters d) \<subseteq>\<^sub>m map_of (dr_adapters (add_draft a d))"
    using none by (auto simp: add_draft_def map_le_def update_conv)
  show "map_of (dr_adapters (add_draft a d)) (ad_name a) = Some a"
    by (simp add: add_draft_def update_conv)
qed

lemma register_adapter_Inr:
  "register_adapter a d = Inr d' \<longleftrightarrow> ad_name a \<notin> set (dr_reserved d) \<and> d' = add_draft a d"
  by (auto simp: register_adapter_def add_draft_def)

lemma register_adapter_ok:
  "register_adapter a d = Inr d' \<Longrightarrow> drafts_ok nodes taken d \<Longrightarrow> fits nodes a \<Longrightarrow> fresh_adapter a
    \<Longrightarrow> drafts_ok nodes taken d'"
  by (simp add: register_adapter_Inr add_draft_ok)

lemma host_adapter_fits:
  "map_of nodes owner = Some n \<Longrightarrow> is_host n \<Longrightarrow> fits nodes (host_adapter owner i) \<and> fresh_adapter (host_adapter owner i)"
  by (cases i) (simp add: fits_def host_adapter_def fresh_adapter_def)

lemma port_adapter_fits:
  "map_of nodes owner = Some n \<Longrightarrow> is_switch n \<Longrightarrow> fits nodes (port_adapter owner k p) \<and> fresh_adapter (port_adapter owner k p)"
  by (simp add: fits_def port_adapter_def fresh_adapter_def)

lemma declare_node_ok:
  assumes "declare_node n d = Inr d'" "map_of nodes (nd_name n) = Some n" "drafts_ok nodes taken d"
  shows "drafts_ok nodes taken d'"
proof (cases "nd_body n")
  case (HostBody ifs r)
  then have "is_host n" by (simp add: is_host_def)
  then have fit: "fits nodes (host_adapter (nd_name n) i) \<and> fresh_adapter (host_adapter (nd_name n) i)" for i
    by (rule host_adapter_fits [OF assms(2)])
  have run: "fold_res (\<lambda>i. register_adapter (host_adapter (nd_name n) i)) (enumerate 0 ifs) d = Inr d'"
    using assms(1) HostBody by (simp add: declare_node_def)
  show ?thesis
    by (rule fold_res_invariant [where P = "drafts_ok nodes taken", OF run assms(3)])
       (use fit in \<open>blast intro: register_adapter_ok\<close>)
next
  case (SwitchBody s)
  then have switch: "is_switch n" by (simp add: is_switch_def)
  let ?start = "\<lparr>ps_used = explicit_numbers s, ps_next = 1, ps_drafts = d\<rparr>"
  obtain st where st: "fold_res (declare_port (nd_name n)) (sw_ports s) ?start = Inr st" "d' = ps_drafts st"
    using assms(1) SwitchBody by (auto simp: declare_node_def map_sum_def split: if_splits sum.splits)
  have "drafts_ok nodes taken (ps_drafts st)"
  proof (rule fold_res_invariant [where P = "\<lambda>st. drafts_ok nodes taken (ps_drafts st)", OF st(1)])
    show "drafts_ok nodes taken (ps_drafts ?start)" using assms(3) by simp
    show "drafts_ok nodes taken (ps_drafts u)"
      if "declare_port (nd_name n) p t = Inr u" "drafts_ok nodes taken (ps_drafts t)" for p t u
      using that port_adapter_fits [OF assms(2) switch]
      by (auto simp: declare_port_def Let_def bind_res_Inr_iff split: option.splits
          dest!: register_adapter_ok)
  qed
  with st(2) show ?thesis by simp
qed (use assms in \<open>simp_all add: declare_node_def\<close>)

lemma declare_adapters_ok:
  assumes "declare_adapters tp taken = Inr d" "\<And>n. n \<in> set (tp_resources tp) \<Longrightarrow> map_of nodes (nd_name n) = Some n"
  shows "drafts_ok nodes taken d"
proof -
  have "drafts_ok nodes taken \<lparr>dr_adapters = [], dr_reserved = taken\<rparr>"
    by (simp add: drafts_ok_def fresh_drafts_def)
  moreover have "fold_res declare_node ns d = Inr d' \<Longrightarrow> set ns \<subseteq> set (tp_resources tp)
      \<Longrightarrow> drafts_ok nodes taken d \<Longrightarrow> drafts_ok nodes taken d'" for ns d d'
    by (induction ns arbitrary: d) (auto split: sum.splits dest: declare_node_ok assms(2))
  ultimately show ?thesis using assms(1) unfolding declare_adapters_def by blast
qed

section \<open>Links\<close>

definition end_ok :: "(string \<times> adapter) list \<Rightarrow> link_endpoint \<Rightarrow> string \<Rightarrow> bool" where
  "end_ok al e name \<longleftrightarrow>
     (\<exists>a. map_of al name = Some a \<and> ad_owner a = le_node e)
     \<and> (given (le_adapter e) = None \<or> given (le_adapter e) = Some name)"

lemma end_ok_mono: "end_ok al e name \<Longrightarrow> map_of al \<subseteq>\<^sub>m map_of bl \<Longrightarrow> end_ok bl e name"
  by (auto simp: end_ok_def map_le_def dom_def)

lemma owned_by_mem:
  "drafts_ok nodes taken d \<Longrightarrow> a \<in> set (owned_by owner d)
    \<Longrightarrow> map_of (dr_adapters d) (ad_name a) = Some a \<and> ad_owner a = owner"
  by (auto simp: owned_by_def drafts_ok_def fresh_drafts_def list_all_iff)

lemma automatic_adapter_ok:
  assumes "automatic_adapter n d = Inr (a, d')" "drafts_ok nodes taken d"
    and "map_of nodes (nd_name n) = Some n" "is_host n \<or> is_switch n"
  shows "drafts_ok nodes taken d' \<and> map_of (dr_adapters d) \<subseteq>\<^sub>m map_of (dr_adapters d')
    \<and> map_of (dr_adapters d') (ad_name a) = Some a \<and> ad_owner a = nd_name n"
proof -
  have a: "ad_name a \<notin> set (dr_reserved d)" "d' = add_draft a d" "ad_owner a = nd_name n" "fresh_adapter a"
      "ad_role a = (if is_host n then HostInterface else SwitchPort)"
    using assms(1) by (auto simp: automatic_adapter_def Let_def add_draft_def fresh_adapter_def split: if_splits)
  have "fits nodes a" using assms(3,4) a(3,5) by (auto simp: fits_def)
  with add_draft_ok [OF assms(2) a(1) _ a(4)] show ?thesis by (simp add: a(2,3))
qed

lemma resolve_endpoint_ok:
  assumes "resolve_endpoint nodes e st = Inr (name, st')" "drafts_ok nodes taken (ls_drafts st)"
    and keys: "\<And>m n. map_of nodes m = Some n \<Longrightarrow> nd_name n = m"
  shows "drafts_ok nodes taken (ls_drafts st')
    \<and> map_of (dr_adapters (ls_drafts st)) \<subseteq>\<^sub>m map_of (dr_adapters (ls_drafts st'))
    \<and> ls_used st' = name # ls_used st \<and> name \<notin> set (ls_used st)
    \<and> end_ok (dr_adapters (ls_drafts st')) e name"
proof -
  obtain n where n: "map_of nodes (le_node e) = Some n" "is_host n \<or> is_switch n"
    using assms(1) by (auto simp: resolve_endpoint_def split: option.splits if_splits)
  have nm: "nd_name n = le_node e" by (rule keys [OF n(1)])
  obtain a d where choice: "(case given (le_adapter e) of
               Some name \<Rightarrow>
                 (case map_of (dr_adapters (ls_drafts st)) name of
                    None \<Rightarrow> Inl UnknownAdapter
                  | Some a \<Rightarrow>
                      if ad_owner a \<noteq> le_node e then Inl AdapterNotOwned
                      else Inr (a, ls_drafts st))
             | None \<Rightarrow>
                 (case List.find (\<lambda>a. ad_name a \<notin> set (ls_used st)) (owned_by (le_node e) (ls_drafts st)) of
                    Some a \<Rightarrow> Inr (a, ls_drafts st)
                  | None \<Rightarrow> automatic_adapter n (ls_drafts st))) = Inr (a, d)"
    and st': "name = ad_name a" "ad_name a \<notin> set (ls_used st)"
      "st' = \<lparr>ls_used = ad_name a # ls_used st, ls_drafts = d\<rparr>"
    using assms(1) n by (auto simp: resolve_endpoint_def bind_res_Inr_iff split: if_splits)
  have "drafts_ok nodes taken d \<and> map_of (dr_adapters (ls_drafts st)) \<subseteq>\<^sub>m map_of (dr_adapters d)
      \<and> map_of (dr_adapters d) (ad_name a) = Some a \<and> ad_owner a = le_node e
      \<and> (given (le_adapter e) = None \<or> given (le_adapter e) = Some (ad_name a))"
  proof (cases "given (le_adapter e)")
    case (Some m)
    then have m: "map_of (dr_adapters (ls_drafts st)) m = Some a" "ad_owner a = le_node e" "d = ls_drafts st"
      using choice by (auto split: option.splits if_splits)
    have "ad_name a = m" using assms(2) m(1) by (auto simp: drafts_ok_def dest: fresh_draftsD(2))
    with m Some assms(2) show ?thesis by simp
  next
    case None
    show ?thesis
    proof (cases "List.find (\<lambda>a. ad_name a \<notin> set (ls_used st)) (owned_by (le_node e) (ls_drafts st))")
      case None
      then have "automatic_adapter n (ls_drafts st) = Inr (a, d)"
        using choice \<open>given (le_adapter e) = None\<close> by simp
      from automatic_adapter_ok [OF this assms(2)] n nm \<open>given (le_adapter e) = None\<close>
      show ?thesis by simp
    next
      case (Some b)
      then have "b = a" "d = ls_drafts st" using choice \<open>given (le_adapter e) = None\<close> by simp_all
      with find_SomeD [OF Some] owned_by_mem [OF assms(2)] \<open>given (le_adapter e) = None\<close> assms(2)
      show ?thesis by auto
    qed
  qed
  then show ?thesis using st' by (auto simp: end_ok_def)
qed

definition link_ok :: "(string \<times> adapter) list \<Rightarrow> link \<Rightarrow> planned_link \<Rightarrow> bool" where
  "link_ok al l k \<longleftrightarrow> pk_name k = ln_name l
     \<and> end_ok al (fst (ln_endpoints l)) (fst (pk_endpoints k))
     \<and> end_ok al (snd (ln_endpoints l)) (snd (pk_endpoints k))"

lemma link_ok_mono: "link_ok al l k \<Longrightarrow> map_of al \<subseteq>\<^sub>m map_of bl \<Longrightarrow> link_ok bl l k"
  by (auto simp: link_ok_def intro: end_ok_mono)

definition link_ends :: "planned_link list \<Rightarrow> string list" where
  "link_ends ks = concat (map (\<lambda>k. [fst (pk_endpoints k), snd (pk_endpoints k)]) ks)"

lemma resolve_link_fold_ok:
  assumes "fold_res (resolve_link nodes) ls (ks, st) = Inr (ks', st')" "drafts_ok nodes taken (ls_drafts st)"
    and keys: "\<And>m n. map_of nodes m = Some n \<Longrightarrow> nd_name n = m"
    and "distinct (link_ends ks)" "set (link_ends ks) = set (ls_used st)"
    and "list_all2 (link_ok (dr_adapters (ls_drafts st))) done_ls ks"
  shows "drafts_ok nodes taken (ls_drafts st') \<and> distinct (link_ends ks')
    \<and> list_all2 (link_ok (dr_adapters (ls_drafts st'))) (done_ls @ ls) ks'"
  using assms(1,2,4-)
proof (induction ls arbitrary: ks st done_ls)
  case (Cons l ls)
  obtain mid where step: "resolve_link nodes l (ks, st) = Inr mid"
    and run: "fold_res (resolve_link nodes) ls mid = Inr (ks', st')"
    using Cons.prems(1) by (auto split: sum.splits)
  obtain a st1 b st2 k where ab: "resolve_endpoint nodes (fst (ln_endpoints l)) st = Inr (a, st1)"
      "resolve_endpoint nodes (snd (ln_endpoints l)) st1 = Inr (b, st2)"
    and mid: "mid = (ks @ [k], st2)" and k: "pk_name k = ln_name l" "pk_endpoints k = (a, b)"
    using step by (auto simp: resolve_link_def bind_res_Inr_iff)
  note rest = run [unfolded mid]
  note one = resolve_endpoint_ok [OF ab(1) Cons.prems(2) keys]
  note two = resolve_endpoint_ok [OF ab(2) one [THEN conjunct1] keys]
  have grow: "map_of (dr_adapters (ls_drafts st)) \<subseteq>\<^sub>m map_of (dr_adapters (ls_drafts st2))"
    using one two by (blast intro: map_le_trans)
  have old: "list_all2 (link_ok (dr_adapters (ls_drafts st2))) done_ls ks"
    using Cons.prems(5) by (rule list_all2_mono) (rule link_ok_mono [OF _ grow])
  have "list_all2 (link_ok (dr_adapters (ls_drafts st2))) (done_ls @ [l])
      (ks @ [k])"
    using old one two k by (auto simp: link_ok_def intro!: list_all2_appendI intro: end_ok_mono)
  from Cons.IH [OF rest two [THEN conjunct1] _ _ this] show ?case
    using Cons.prems(3,4) one two k by (auto simp: link_ends_def)
qed simp

lemma resolve_links_ok:
  assumes "resolve_links tp nodes d = Inr (ks, d')" "drafts_ok nodes taken d"
    and "\<And>m n. map_of nodes m = Some n \<Longrightarrow> nd_name n = m"
  shows "drafts_ok nodes taken d' \<and> distinct (link_ends ks) \<and> list_all2 (link_ok (dr_adapters d')) (tp_links tp) ks"
proof -
  obtain st where st: "fold_res (resolve_link nodes) (tp_links tp) ([], \<lparr>ls_used = [], ls_drafts = d\<rparr>) = Inr (ks, st)"
      "d' = ls_drafts st"
    using assms(1) by (auto simp: resolve_links_def bind_res_Inr_iff)
  show ?thesis
    using resolve_link_fold_ok [OF st(1) _ assms(3), of taken "[]"] assms(2) by (simp add: st(2) link_ends_def)
qed

section \<open>The resources of a plan\<close>

lemma declare_names_result:
  assumes "fold_res declare_name ns [] = Inr nodes"
  shows "nodes = map (\<lambda>n. (nd_name n, n)) ns" and "distinct (map nd_name ns)"
proof -
  have "fold_res declare_name ns (map (\<lambda>n. (nd_name n, n)) ms) = Inr nodes \<Longrightarrow> distinct (map nd_name ms)
      \<Longrightarrow> nodes = map (\<lambda>n. (nd_name n, n)) (ms @ ns) \<and> distinct (map nd_name (ms @ ns))" for ms
  proof (induction ns arbitrary: ms)
    case (Cons n ns)
    have new: "map_of (map (\<lambda>n. (nd_name n, n)) ms) (nd_name n) = None"
      using Cons.prems(1) by (auto simp: declare_name_def split: if_splits)
    then have "nd_name n \<notin> nd_name ` set ms" by (auto simp: map_of_eq_None_iff image_image)
    moreover have "fold_res declare_name ns (map (\<lambda>n. (nd_name n, n)) (ms @ [n])) = Inr nodes"
    proof -
      have "declare_name n (map (\<lambda>n. (nd_name n, n)) ms) = Inr (map (\<lambda>n. (nd_name n, n)) (ms @ [n]))"
        by (simp add: declare_name_def new update_fresh)
      with Cons.prems(1) show ?thesis by simp
    qed
    ultimately show ?case using Cons.IH [of "ms @ [n]"] Cons.prems(2) by simp
  qed simp
  from this [of "[]"] assms show "nodes = map (\<lambda>n. (nd_name n, n)) ns" "distinct (map nd_name ns)"
    by simp_all
qed

lemma allocate_addresses_entry:
  assumes "allocate_addresses tp al = Inr al'" "fresh_drafts al"
  shows "map fst al' = map fst al"
    and "map_of al' n = Some b \<Longrightarrow> \<exists>a. map_of al n = Some a \<and> same_adapter a b"
proof -
  obtain cs where same: "map fst al' = map fst al"
    and from_host: "\<And>c. c \<in> set cs \<Longrightarrow>
       \<exists>a. map_of al (ad_name c) = Some a \<and> ad_role a = HostInterface \<and> addressed tp a c"
    and found: "\<And>n b. map_of al' n = Some b \<Longrightarrow>
       b \<in> set cs \<and> ad_name b = n \<or> map_of al n = Some b \<and> n \<notin> ad_name ` set cs"
    by (rule allocate_addresses_run [OF assms]) (rule that)
  show "map fst al' = map fst al" by (rule same)
  have refl: "same_adapter a a" for a
    unfolding same_adapter_def by (intro exI [of _ "ad_ipv4 a"] exI [of _ "ad_mac a"]) simp
  show "\<exists>a. map_of al n = Some a \<and> same_adapter a b" if "map_of al' n = Some b"
    using found [OF that] from_host refl by (auto simp: addressed_def)
qed

text \<open>A resource is a port of a plan's resources with this name on this node.\<close>

definition port_on :: "planned_resource list \<Rightarrow> string \<Rightarrow> string \<Rightarrow> bool" where
  "port_on rs owner name \<longleftrightarrow> (\<exists>p. PortResource p \<in> set rs \<and> pp_name p = name \<and> pp_parent p = owner)"

definition plan_resources ::
  "topology \<Rightarrow> (string \<times> string) list \<Rightarrow> (string \<times> adapter) list \<Rightarrow> planned_link list \<Rightarrow> planned_resource list" where
  "plan_resources tp ids adapters links =
     map (\<lambda>n. NodeResource (planned_node_of ids n)) (tp_resources tp)
     @ map (\<lambda>(_, a). PortResource (port_of a)) adapters @ map LinkResource links"

lemma build_resources_run:
  assumes "build_resources digest tp = Inr (Some rs)"
  obtains ids al links where "rs = sort_resources (plan_resources tp ids al links)"
    "distinct (map nd_name (tp_resources tp) @ map fst al @ map ln_name (tp_links tp))"
    "\<And>m a. map_of al m = Some a \<Longrightarrow> ad_name a = m
       \<and> (\<exists>n\<in>set (tp_resources tp). nd_name n = ad_owner a
            \<and> (if ad_role a = HostInterface then is_host n else is_switch n))"
    "distinct (link_ends links)" "list_all2 (link_ok al) (tp_links tp) links"
proof -
  obtain nodes reserved d links d' al ids where
      run: "fold_res declare_name (tp_resources tp) [] = Inr nodes"
        "validate_resource_graph tp nodes (map fst nodes) = Inr reserved"
        "declare_adapters tp reserved = Inr d" "resolve_links tp nodes d = Inr (links, d')"
        "allocate_addresses tp (dr_adapters d') = Inr al"
      and rs: "rs = sort_resources (plan_resources tp ids al links)"
  proof -
    obtain nodes where n: "fold_res declare_name (tp_resources tp) [] = Inr nodes"
      using assms unfolding build_resources_def bind_res_Inr_iff by blast
    obtain reserved where r: "validate_resource_graph tp nodes (map fst nodes) = Inr reserved"
      using assms n unfolding build_resources_def by (auto simp: bind_res_Inr_iff)
    obtain d where d: "declare_adapters tp reserved = Inr d"
      using assms n r unfolding build_resources_def by (auto simp: bind_res_Inr_iff)
    obtain links d' where l: "resolve_links tp nodes d = Inr (links, d')"
      using assms n r d unfolding build_resources_def by (auto simp: bind_res_Inr_iff)
    obtain al where a: "allocate_addresses tp (dr_adapters d') = Inr al"
      using assms n r d l unfolding build_resources_def by (auto simp: bind_res_Inr_iff)
    obtain ids where i: "allocate_dpids digest (map snd nodes) = Inr (Some ids)"
      using assms n r d l a unfolding build_resources_def by (auto simp: bind_res_Inr_iff)
    have "rs = sort_resources (plan_resources tp ids al links)"
      using assms n r d l a i unfolding build_resources_def by (simp add: plan_resources_def)
    with n r d l a show thesis by (rule that)
  qed
  have nodes_def: "nodes = map (\<lambda>n. (nd_name n, n)) (tp_resources tp)"
    by (rule declare_names_result(1) [OF run(1)])
  have names: "distinct (map nd_name (tp_resources tp))" by (rule declare_names_result(2) [OF run(1)])
  have fst_nodes: "map fst nodes = map nd_name (tp_resources tp)" by (simp add: nodes_def comp_def)
  have node: "map_of nodes (nd_name n) = Some n" if "n \<in> set (tp_resources tp)" for n
    using that names by (auto simp: nodes_def map_of_eq_Some_iff comp_def)
  have key: "nd_name n = m \<and> n \<in> set (tp_resources tp)" if "map_of nodes m = Some n" for m n
    using map_of_SomeD [OF that] by (auto simp: nodes_def)
  have reserved: "distinct (map ln_name (tp_links tp))"
      "set (map ln_name (tp_links tp)) \<inter> set (map fst nodes) = {}"
      "reserved = rev (map ln_name (tp_links tp)) @ map fst nodes"
    using run(2) by (auto simp: validate_resource_graph_def bind_res_Inr_iff reserve_links_iff)
  have d: "drafts_ok nodes reserved d" by (rule declare_adapters_ok [OF run(3) node])
  have links: "drafts_ok nodes reserved d'" "distinct (link_ends links)"
      "list_all2 (link_ok (dr_adapters d')) (tp_links tp) links"
    using resolve_links_ok [OF run(4) d] key by blast+
  have fresh: "fresh_drafts (dr_adapters d')" using links(1) by (simp add: drafts_ok_def)
  note entry = allocate_addresses_entry [OF run(5) fresh]
  have old: "\<exists>a. map_of (dr_adapters d') m = Some a \<and> ad_name b = m \<and> ad_owner b = ad_owner a \<and> ad_role b = ad_role a"
    if "map_of al m = Some b" for m b
    using entry(2) [OF that] fresh_draftsD(2) [OF fresh] by (auto simp: same_adapter_def)
  have still: "\<exists>b. map_of al m = Some b" if "map_of (dr_adapters d') m = Some a" for m a
    using that entry(1) by (metis dom_map_of_conv_image_fst domD domI list.set_map)
  show thesis
  proof (rule that [OF rs])
    show "distinct (map nd_name (tp_resources tp) @ map fst al @ map ln_name (tp_links tp))"
      using names reserved fresh links(1) fst_nodes entry(1)
      by (auto simp: drafts_ok_def fresh_drafts_def list.set_map simp del: set_map)
    show "distinct (link_ends links)" by (rule links(2))
    show "ad_name a = m \<and> (\<exists>n\<in>set (tp_resources tp). nd_name n = ad_owner a
        \<and> (if ad_role a = HostInterface then is_host n else is_switch n))" if a: "map_of al m = Some a" for m a
    proof -
      obtain b where b: "map_of (dr_adapters d') m = Some b" "ad_name a = m" "ad_owner a = ad_owner b"
          "ad_role a = ad_role b"
        using old [OF a] by blast
      have "fits nodes b"
        using links(1) map_of_SomeD [OF b(1)] by (auto simp: drafts_ok_def list_all_iff)
      then obtain n where "map_of nodes (ad_owner b) = Some n"
          "if ad_role b = HostInterface then is_host n else is_switch n"
        unfolding fits_def by blast
      with b key show ?thesis by metis
    qed
    have "end_ok al e n" if e: "end_ok (dr_adapters d') e n" for e n
    proof -
      obtain a where a: "map_of (dr_adapters d') n = Some a" "ad_owner a = le_node e"
        using e by (auto simp: end_ok_def)
      obtain b where b: "map_of al n = Some b" using still [OF a(1)] by blast
      have "ad_owner b = le_node e" using old [OF b] a by auto
      with b e show ?thesis by (simp add: end_ok_def)
    qed
    then have "link_ok al l k" if "link_ok (dr_adapters d') l k" for l k
      using that by (simp add: link_ok_def)
    then show "list_all2 (link_ok al) (tp_links tp) links" using links(3) by (blast intro: list_all2_mono)
  qed
qed

lemma res_name_sorted: "set (sort_resources rs) = set rs"
  by (simp add: sort_resources_def)

lemma plan_resources_mem:
  "PortResource p \<in> set (plan_resources tp ids al links) \<longleftrightarrow> (\<exists>m a. (m, a) \<in> set al \<and> p = port_of a)"
  "LinkResource k \<in> set (plan_resources tp ids al links) \<longleftrightarrow> k \<in> set links"
  "NodeResource n \<in> set (plan_resources tp ids al links)
    \<longleftrightarrow> (\<exists>m\<in>set (tp_resources tp). n = planned_node_of ids m)"
  by (force simp: plan_resources_def)+

text \<open>C38. The resources of a plan: names are unique, the list is sorted by kind and name, every
  resource and link of the topology is there once, every port stands on a declared host or switch
  of its role, and each end of a link is a port of its own on the node the link names.\<close>

theorem plan_resources_consistent:
  assumes "build_resources digest tp = Inr (Some rs)"
  shows "distinct (map res_name rs)
    \<and> sorted (map (\<lambda>r. (kind_value (res_kind r), res_name r)) rs)
    \<and> (\<forall>p. PortResource p \<in> set rs \<longrightarrow> (\<exists>n\<in>set (tp_resources tp). nd_name n = pp_parent p
          \<and> (if pp_role p = HostInterface then is_host n else is_switch n)))
    \<and> (\<exists>nodes ports links.
          mset rs = mset (map NodeResource nodes @ map PortResource ports @ map LinkResource links)
          \<and> map pn_name nodes = map nd_name (tp_resources tp)
          \<and> map pk_name links = map ln_name (tp_links tp)
          \<and> distinct (link_ends links)
          \<and> list_all2 (\<lambda>l k. port_on rs (le_node (fst (ln_endpoints l))) (fst (pk_endpoints k))
                \<and> port_on rs (le_node (snd (ln_endpoints l))) (snd (pk_endpoints k))) (tp_links tp) links)"
proof -
  obtain ids al links where rs: "rs = sort_resources (plan_resources tp ids al links)"
    and names: "distinct (map nd_name (tp_resources tp) @ map fst al @ map ln_name (tp_links tp))"
    and adapter: "\<And>m a. map_of al m = Some a \<Longrightarrow> ad_name a = m
       \<and> (\<exists>n\<in>set (tp_resources tp). nd_name n = ad_owner a
            \<and> (if ad_role a = HostInterface then is_host n else is_switch n))"
    and ends: "distinct (link_ends links)" and links: "list_all2 (link_ok al) (tp_links tp) links"
    by (rule build_resources_run [OF assms]) (rule that)
  have entry: "map_of al m = Some a" if "(m, a) \<in> set al" for m a
    using names that by simp
  have nm: "map (ad_name o snd) al = map fst al"
    using adapter entry by (fastforce intro: map_cong)
  have "map ln_name (tp_links tp) = map pk_name links"
    using links by (induction rule: list_all2_induct) (simp_all add: link_ok_def)
  note same = this
  have all: "map res_name (plan_resources tp ids al links)
      = map nd_name (tp_resources tp) @ map fst al @ map ln_name (tp_links tp)"
    using nm by (simp add: plan_resources_def comp_def split_beta port_of_def planned_node_of_def same)
  have mset: "mset rs = mset (plan_resources tp ids al links)" by (simp add: rs sort_resources_def)
  have unique: "distinct (map res_name rs)"
    using names all mset by (metis mset_map distinct_count_atmost_1 mset_eq_imp_distinct_iff)
  have sorted: "sorted (map (\<lambda>r. (kind_value (res_kind r), res_name r)) rs)"
    by (simp add: rs sort_resources_def)
  have ports: "\<exists>n\<in>set (tp_resources tp). nd_name n = pp_parent p
      \<and> (if pp_role p = HostInterface then is_host n else is_switch n)" if "PortResource p \<in> set rs" for p
    using that entry adapter unfolding rs res_name_sorted plan_resources_mem port_of_def by fastforce
  have "port_on rs (le_node e) name" if e: "end_ok al e name" for e name
  proof -
    obtain a where a: "map_of al name = Some a" "ad_owner a = le_node e" using e by (auto simp: end_ok_def)
    then have "PortResource (port_of a) \<in> set rs"
      unfolding rs res_name_sorted plan_resources_mem by (blast dest: map_of_SomeD)
    then show ?thesis unfolding port_on_def
      by (rule_tac exI [of _ "port_of a"]) (use a adapter [OF a(1)] in \<open>simp add: port_of_def\<close>)
  qed
  then have ends_on: "list_all2 (\<lambda>l k. port_on rs (le_node (fst (ln_endpoints l))) (fst (pk_endpoints k))
        \<and> port_on rs (le_node (snd (ln_endpoints l))) (snd (pk_endpoints k))) (tp_links tp) links"
    using links by (auto simp: link_ok_def elim!: list_all2_mono)
  have whole: "mset rs = mset (map NodeResource (map (planned_node_of ids) (tp_resources tp))
      @ map PortResource (map (port_of o snd) al) @ map LinkResource links)"
    by (simp add: mset plan_resources_def case_prod_unfold comp_def)
  have nodes: "map pn_name (map (planned_node_of ids) (tp_resources tp)) = map nd_name (tp_resources tp)"
    by (simp add: planned_node_of_def comp_def)
  show ?thesis
    by (intro conjI allI impI exI)
       (rule unique, rule sorted, erule ports, rule whole, rule nodes, rule same [symmetric], rule ends, rule ends_on)
qed

section \<open>The resources of the sample\<close>

definition sample_port_adapter :: "string \<Rightarrow> nat \<Rightarrow> adapter" where
  "sample_port_adapter n k =
     \<lparr>ad_name = n, ad_owner = ''s1'', ad_role = SwitchPort, ad_number = k, ad_mtu = 1500,
      ad_ip_setting = None, ad_mac_setting = None, ad_ipv4 = None, ad_mac = None\<rparr>"

definition sample_adapters :: "(string \<times> adapter) list" where
  "sample_adapters =
     [(''h1-eth0'', sample_host_adapter ''h1-eth0'' ''h1'' (IpFixed 167772161 29)),
      (''s1-eth1'', sample_port_adapter ''s1-eth1'' 1),
      (''h2-eth0'', sample_host_adapter ''h2-eth0'' ''h2'' IpAuto),
      (''s1-eth2'', sample_port_adapter ''s1-eth2'' 2)]"

lemma decimals: "decimal 0 = ''0''" "decimal 1 = ''1''" "decimal (Suc 0) = ''1''" "decimal 2 = ''2''" "decimal (Suc (Suc 0)) = ''2''"
  by (simp_all add: decimal_def digits_in.simps digit_chars flip: numeral_2_eq_2)

lemma sample_nodes:
  "fold_res declare_name (tp_resources sample_topology) []
    = Inr (map (\<lambda>n. (nd_name n, n)) (tp_resources sample_topology))"
  by (simp add: sample_topology_def sample_node_def declare_name_def)

lemma sample_graph:
  "validate_resource_graph sample_topology (map (\<lambda>n. (nd_name n, n)) (tp_resources sample_topology))
      (map fst (map (\<lambda>n. (nd_name n, n)) (tp_resources sample_topology)))
    = Inr [''l2'', ''l1'', ''h1'', ''h2'', ''s1'', ''edge'']"
  by (simp add: validate_resource_graph_def sample_topology_def sample_node_def sample_switch_def given_def
      parent_table_def map_filter_def sample_link_def reserve_link_def node_controllers_def)

lemma sample_declared:
  "declare_adapters sample_topology [''l2'', ''l1'', ''h1'', ''h2'', ''s1'', ''edge'']
    = Inr \<lparr>dr_adapters = [(''h1-eth0'', sample_host_adapter ''h1-eth0'' ''h1'' (IpFixed 167772161 29))],
           dr_reserved = [''h1-eth0'', ''l2'', ''l1'', ''h1'', ''h2'', ''s1'', ''edge'']\<rparr>"
  by (simp add: declare_adapters_def sample_topology_def sample_node_def declare_node_def host_adapter_def
      or_default_def given_def eth_name_def decimals register_adapter_def sample_host_adapter_def
      sample_switch_def explicit_numbers_def map_filter_def)

lemma sample_linked:
  "\<exists>links d. resolve_links sample_topology (map (\<lambda>n. (nd_name n, n)) (tp_resources sample_topology))
      \<lparr>dr_adapters = [(''h1-eth0'', sample_host_adapter ''h1-eth0'' ''h1'' (IpFixed 167772161 29))],
       dr_reserved = [''h1-eth0'', ''l2'', ''l1'', ''h1'', ''h2'', ''s1'', ''edge'']\<rparr> = Inr (links, d)
    \<and> dr_adapters d = sample_adapters"
  by (simp add: resolve_links_def resolve_link_def resolve_endpoint_def sample_topology_def sample_node_def
      sample_link_def sample_endpoint_def is_host_def is_switch_def given_def owned_by_def automatic_adapter_def
      next_unused.simps eth_name_def decimals sample_adapters_def sample_host_adapter_def sample_port_adapter_def
      Let_def)

lemma sample_dpids:
  "allocate_dpids (\<lambda>_. 1) (map snd (map (\<lambda>n. (nd_name n, n)) (tp_resources sample_topology)))
    = Inr (Some [(''s1'', hex16 1), (''edge'', hex16 2)])"
proof -
  have ss: "switches_of (tp_resources sample_topology) = [(''edge'', sample_switch None), (''s1'', sample_switch None)]"
    by (simp add: switches_of_def sample_topology_def sample_node_def map_filter_def)
  have "fixed_dpid ''edge'' (sample_switch None) = None" "fixed_dpid ''s1'' (sample_switch None) = Some 1"
    by (simp_all add: fixed_dpid_def sample_switch_def ascii_digit_def max_dpid_def)
  moreover have two: "hex16 (Suc (Suc 0)) = hex16 2" by (simp only: numeral_2_eq_2)
  ultimately show ?thesis
    by (simp add: allocate_dpids_def comp_def ss fix_dpid_def take_dpid_def fill_dpid_def probe_steps_def
        max_dpid_def numeral_3_eq_3 two)
qed

lemma sample_addressed:
  "\<exists>al. allocate_addresses sample_topology sample_adapters = Inr al"
proof -
  have "host_adapters sample_adapters = map snd sample_drafts"
    by (simp add: host_adapters_def sample_adapters_def sample_drafts_def sample_host_adapter_def
        sample_port_adapter_def)
  then show ?thesis by (simp add: allocate_addresses_def sample_ips sample_macs)
qed

lemma sample_build: "\<exists>rs. build_resources (\<lambda>_. 1) sample_topology = Inr (Some rs)"
proof -
  obtain links d where l: "resolve_links sample_topology (map (\<lambda>n. (nd_name n, n)) (tp_resources sample_topology))
      \<lparr>dr_adapters = [(''h1-eth0'', sample_host_adapter ''h1-eth0'' ''h1'' (IpFixed 167772161 29))],
       dr_reserved = [''h1-eth0'', ''l2'', ''l1'', ''h1'', ''h2'', ''s1'', ''edge'']\<rparr> = Inr (links, d)"
    "dr_adapters d = sample_adapters"
    using sample_linked by blast
  obtain al where "allocate_addresses sample_topology sample_adapters = Inr al" using sample_addressed by blast
  then show ?thesis
    unfolding build_resources_def sample_nodes bind_res_simps sample_graph sample_declared l(1) prod.case l(2)
      sample_dpids by simp
qed

theorem plan_resources_consistent_witness:
  "\<exists>rs. build_resources (\<lambda>_. 1) sample_topology = Inr (Some rs) \<and> distinct (map res_name rs)"
  using sample_build plan_resources_consistent by blast

end
