(* ===== verification/Scenario.thy ===== *)
theory Scenario
  imports Verification Topology
begin

text \<open>
  Decision scenarios of bounded execution: \<open>DecisionChoice\<close>, \<open>DiagnosticContext\<close> and
  \<open>DecisionScenario\<close> of \<open>mininet_ai/specification/models.py\<close> with the checks their constructors
  run, in that order. What the schema leaves as \<open>Any\<close> is a JSON value, and the keys of nested
  objects are strings.
\<close>

section \<open>Data\<close>

datatype input_mode = RecoveryHistory | CurrentOnly

record choice =
  ch_id :: string
  ch_description :: string
  ch_proposals :: "json_object list"

record flow_role =
  fr_purpose :: string
  fr_required :: json
  fr_requirement :: string

text \<open>\<open>DiagnosticContext\<close> is its \<open>flowRoles\<close>; the two other fields are constants.\<close>

type_synonym diagnostic_context = "(string \<times> (string \<times> flow_role) list) list"

record scenario =
  sc_name :: string
  sc_input_mode :: input_mode
  sc_instructions :: string
  sc_choices :: "choice list"
  sc_paths :: json_object
  sc_observations :: json_object
  sc_timing :: json_object
  sc_policy :: json_object
  sc_local_expectations :: "(string \<times> json_object) list"
  sc_context :: "diagnostic_context option"

datatype scenario_error =
    ScenarioField
  | ProposalShape
  | RecoveryWithoutProposal
  | ExpectationShape
  | ExpectedFlowShape
  | RolesMismatch
  | ChoiceIds
  | DiagnosisProposals
  | DiagnosisPaths
  | DiagnosisObservations
  | ContextUnexpected
  | ExpectationsUnexpected
  | NoActionProposals
  | PathsShape
  | ObservationsShape
  | HistoryNotFixed
  | PolicyShape
  | TimingShape

section \<open>Choices\<close>

definition has_keys :: "json_object \<Rightarrow> string list \<Rightarrow> bool" where
  "has_keys o' ks = (set (map fst o') = set ks)"

fun str_of :: "json \<Rightarrow> string option" where
  "str_of (JStr s) = Some s"
| "str_of _ = None"

fun is_obj :: "json \<Rightarrow> bool" where
  "is_obj (JObj _) = True"
| "is_obj _ = False"

text \<open>\<open>isinstance(v, str) and re.fullmatch(NAME_PATTERN, v)\<close> on a field.\<close>

definition name_field :: "json_object \<Rightarrow> string \<Rightarrow> bool" where
  "name_field o' k =
     (case map_of o' k of Some (JStr s) \<Rightarrow> name_pattern_ok s | _ \<Rightarrow> False)"

definition proposal_ok :: "json_object \<Rightarrow> bool" where
  "proposal_ok p =
     (has_keys p [''capability'', ''target'', ''arguments'']
      \<and> (case map_of p ''arguments'' of Some v \<Rightarrow> is_obj v | None \<Rightarrow> False)
      \<and> name_field p ''capability'' \<and> name_field p ''target'')"

definition new_choice :: "choice \<Rightarrow> scenario_error + choice" where
  "new_choice c =
     (if \<not> name_ok (ch_id c) \<or> ch_description c = [] then Inl ScenarioField
      else if \<not> list_all proposal_ok (ch_proposals c) then Inl ProposalShape
      else if ch_id c = ''install_recovery'' \<and> ch_proposals c = [] then Inl RecoveryWithoutProposal
      else Inr c)"

section \<open>Expected local configuration\<close>

text \<open>\<open>0x[0-9a-fA-F]+\<close>.\<close>

definition cookie_ok :: "string \<Rightarrow> bool" where
  "cookie_ok s =
     (case s of
        c # d # cs \<Rightarrow> c = CHR ''0'' \<and> d = CHR ''x'' \<and> cs \<noteq> [] \<and> list_all hex_char cs
      | _ \<Rightarrow> False)"

fun nonempty_str :: "json \<Rightarrow> bool" where
  "nonempty_str (JStr s) = (s \<noteq> [])"
| "nonempty_str _ = False"

definition ports_ok :: "json \<Rightarrow> bool" where
  "ports_ok v =
     (case v of
        JArr ps \<Rightarrow> ps \<noteq> [] \<and> list_all nonempty_str ps \<and> distinct (map (the o str_of) ps)
      | _ \<Rightarrow> False)"

fun flow_ok :: "json \<Rightarrow> bool" where
  "flow_ok (JObj f) =
     (has_keys f [''cookie'', ''table'', ''priority'', ''match'', ''actions'']
      \<and> (case map_of f ''cookie'' of Some (JStr c) \<Rightarrow> cookie_ok c | _ \<Rightarrow> False)
      \<and> (case map_of f ''table'' of Some (JInt t) \<Rightarrow> 0 \<le> t | _ \<Rightarrow> False)
      \<and> (case map_of f ''priority'' of Some (JInt p) \<Rightarrow> 0 \<le> p \<and> p \<le> 65535 | _ \<Rightarrow> False)
      \<and> (case map_of f ''match'' of
           Some (JObj m) \<Rightarrow> list_all (\<lambda>(_, v). case v of JStr _ \<Rightarrow> True | JBool _ \<Rightarrow> True | _ \<Rightarrow> False) m
         | _ \<Rightarrow> False)
      \<and> (case map_of f ''actions'' of Some v \<Rightarrow> nonempty_str v | None \<Rightarrow> False))"
| "flow_ok _ = False"

definition expected_list :: "json_object \<Rightarrow> string \<Rightarrow> json list" where
  "expected_list e k = (case map_of e k of Some (JArr xs) \<Rightarrow> xs | _ \<Rightarrow> [])"

text \<open>The loop over \<open>localExpectations\<close>: ports and flows first, then each flow.\<close>

definition check_expectation :: "json_object \<Rightarrow> scenario_error + unit" where
  "check_expectation e =
     (if \<not> has_keys e [''ports'', ''flows'']
         \<or> \<not> (case map_of e ''ports'' of Some v \<Rightarrow> ports_ok v | None \<Rightarrow> False)
         \<or> expected_list e ''flows'' = []
      then Inl ExpectationShape
      else if \<not> list_all flow_ok (expected_list e ''flows'') then Inl ExpectedFlowShape
      else Inr ())"

definition flow_cookie :: "json \<Rightarrow> string" where
  "flow_cookie f =
     (case f of JObj o' \<Rightarrow> (case map_of o' ''cookie'' of Some (JStr c) \<Rightarrow> c | _ \<Rightarrow> []) | _ \<Rightarrow> [])"

definition roles_match :: "diagnostic_context \<Rightarrow> string \<times> json_object \<Rightarrow> bool" where
  "roles_match roles = (\<lambda>(target, e).
     let cookies = map flow_cookie (expected_list e ''flows'') in
     distinct cookies
     \<and> (case map_of roles target of None \<Rightarrow> False | Some rs \<Rightarrow> set (map fst rs) = set cookies))"

definition role_ok :: "flow_role \<Rightarrow> bool" where
  "role_ok r = (fr_purpose r \<noteq> [] \<and> fr_required r = JBool True \<and> fr_requirement r \<noteq> [])"

definition context_ok :: "diagnostic_context \<Rightarrow> bool" where
  "context_ok roles =
     (roles \<noteq> []
      \<and> list_all (\<lambda>(t, rs). name_ok t \<and> list_all (\<lambda>(c, r). cookie_ok c \<and> role_ok r) rs) roles)"

section \<open>The contract of a scenario\<close>

definition check_timing :: "json_object \<Rightarrow> scenario_error + unit" where
  "check_timing t =
     (if has_keys t [''cadence'', ''decisionDeadline'']
         \<and> map_of t ''cadence'' = Some (JStr ''1s'')
         \<and> (case map_of t ''decisionDeadline'' of
              Some (JStr d) \<Rightarrow> (case duration_seconds d of Some s \<Rightarrow> 0 < s | None \<Rightarrow> False)
            | _ \<Rightarrow> False)
      then Inr () else Inl TimingShape)"

definition check_current_only :: "scenario \<Rightarrow> scenario_error + unit" where
  "check_current_only s =
     bind_res (map_res (\<lambda>(_, e). check_expectation e) (sc_local_expectations s)) (\<lambda>_.
       if (case sc_context s of
             None \<Rightarrow> False
           | Some roles \<Rightarrow>
               set (map fst roles) \<noteq> set (map fst (sc_local_expectations s))
               \<or> \<not> list_all (roles_match roles) (sc_local_expectations s))
       then Inl RolesMismatch
       else if length (remdups (map ch_id (sc_choices s))) \<noteq> 2 then Inl ChoiceIds
       else if list_ex (\<lambda>c. ch_proposals c \<noteq> []) (sc_choices s) then Inl DiagnosisProposals
       else if sc_paths s \<noteq> [] \<or> sc_policy s \<noteq> [] then Inl DiagnosisPaths
       else if sc_observations s = []
            \<or> \<not> list_all (\<lambda>(k, v). k \<noteq> [] \<and> nonempty_str v) (sc_observations s)
       then Inl DiagnosisObservations
       else check_timing (sc_timing s))"

definition logical_inputs :: "string list" where
  "logical_inputs = [''pathProbes'', ''linkStates'', ''policyState'', ''actionOutcomes'']"

definition check_recovery :: "scenario \<Rightarrow> scenario_error + unit" where
  "check_recovery s =
     (if sc_context s \<noteq> None then Inl ContextUnexpected
      else if sc_local_expectations s \<noteq> [] then Inl ExpectationsUnexpected
      else if map ch_id (sc_choices s) \<noteq> [''no_action'', ''install_recovery''] then Inl ChoiceIds
      else if ch_proposals (hd (sc_choices s)) \<noteq> [] then Inl NoActionProposals
      else if \<not> has_keys (sc_paths s) [''primary'', ''recovery''] then Inl PathsShape
      else if \<not> list_all (\<lambda>(_, p). case p of JArr ns \<Rightarrow> 2 \<le> length ns | _ \<Rightarrow> False) (sc_paths s)
      then Inl PathsShape
      else if \<not> has_keys (sc_observations s) (logical_inputs @ [''historyRounds'', ''maxAge''])
      then Inl ObservationsShape
      else if \<not> list_all (\<lambda>k. case map_of (sc_observations s) k of Some v \<Rightarrow> nonempty_str v | None \<Rightarrow> False)
                 logical_inputs
      then Inl ObservationsShape
      else if \<not> (case map_of (sc_observations s) ''historyRounds'' of Some v \<Rightarrow> py_eq v (JInt 3) | None \<Rightarrow> False)
            \<or> map_of (sc_observations s) ''maxAge'' \<noteq> Some (JStr ''2s'')
      then Inl HistoryNotFixed
      else if \<not> has_keys (sc_policy s) [''initial'', ''recovery'', ''probePolicy''] then Inl PolicyShape
      else check_timing (sc_timing s))"

definition new_scenario :: "scenario \<Rightarrow> scenario_error + scenario" where
  "new_scenario s =
     (if \<not> name_ok (sc_name s) \<or> sc_instructions s = [] \<or> length (sc_choices s) \<noteq> 2
         \<or> \<not> list_all (\<lambda>(k, _). name_ok k) (sc_local_expectations s)
         \<or> \<not> (case sc_context s of None \<Rightarrow> True | Some r \<Rightarrow> context_ok r)
      then Inl ScenarioField
      else bind_res (map_res new_choice (sc_choices s)) (\<lambda>_.
           bind_res (if sc_input_mode s = CurrentOnly then check_current_only s else check_recovery s) (\<lambda>_.
             Inr s)))"

section \<open>What an accepted scenario can choose\<close>

lemma new_scenario_choices:
  assumes "new_scenario s = Inr t"
  shows "t = s" and "length (sc_choices s) = 2" and "distinct (map ch_id (sc_choices s))"
    and "\<And>c. c \<in> set (sc_choices s) \<Longrightarrow> list_all proposal_ok (ch_proposals c)"
    and "\<And>c. c \<in> set (sc_choices s) \<Longrightarrow> ch_proposals c \<noteq> [] \<longleftrightarrow>
           sc_input_mode s = RecoveryHistory \<and> ch_id c = ''install_recovery''"
proof -
  show "t = s" and two: "length (sc_choices s) = 2"
    using assms by (auto simp: new_scenario_def bind_res_Inr_iff split: if_splits)
  then obtain c d where cd: "sc_choices s = [c, d]"
    by (auto simp: numeral_2_eq_2 length_Suc_conv)
  have each: "new_choice c = Inr c \<and> new_choice d = Inr d"
    using assms by (auto simp: new_scenario_def cd bind_res_Inr_iff new_choice_def split: if_splits sum.splits)
  then show "list_all proposal_ok (ch_proposals x)" if "x \<in> set (sc_choices s)" for x
    using that by (auto simp: cd new_choice_def split: if_splits)
  have "distinct (map ch_id (sc_choices s)) \<and> (\<forall>x\<in>{c, d}. ch_proposals x \<noteq> [] \<longleftrightarrow>
           sc_input_mode s = RecoveryHistory \<and> ch_id x = ''install_recovery'')"
  proof (cases "sc_input_mode s")
    case RecoveryHistory
    then have "check_recovery s = Inr ()"
      using assms by (auto simp: new_scenario_def bind_res_Inr_iff split: if_splits)
    then show ?thesis
      using RecoveryHistory each by (auto simp: check_recovery_def cd new_choice_def split: if_splits)
  next
    case CurrentOnly
    then have "check_current_only s = Inr ()"
      using assms by (auto simp: new_scenario_def bind_res_Inr_iff split: if_splits)
    then show ?thesis
      using CurrentOnly by (auto simp: check_current_only_def cd bind_res_Inr_iff split: if_splits)
  qed
  then show "distinct (map ch_id (sc_choices s))"
    and "\<And>x. x \<in> set (sc_choices s) \<Longrightarrow> ch_proposals x \<noteq> [] \<longleftrightarrow>
           sc_input_mode s = RecoveryHistory \<and> ch_id x = ''install_recovery''"
    by (auto simp: cd)
qed

end
