(* ===== verification/Deployment.thy ===== *)
theory Deployment
  imports Resources Scenario
begin

text \<open>
  Agent deployments: the placement, deployment and coordination records of
  \<open>mininet_ai/specification/models.py\<close>, the compile-time contract of substrate drivers
  (\<open>mininet_ai/substrates/protocol.py\<close>), and from \<open>mininet_ai/compiler/compiler.py\<close> the
  selection of targets (\<open>_select\<close>, \<open>_slug\<close>, \<open>_target_groups\<close>) and the compilation of
  deployments into agent instances (\<open>_compile_instances\<close>).

  The check of a proposal's arguments against a capability's input schema is the jsonschema
  package's; it is the argument \<open>conforms\<close>.
\<close>

section \<open>Specification\<close>

datatype cardinality = Singleton | PerTarget | PerGroup

record placement =
  pl_layer :: attachment_layer
  pl_custom_layer :: "string option"
  pl_kind :: resource_kind
  pl_names :: "string list"
  pl_labels :: "(string \<times> string) list"
  pl_cardinality :: cardinality
  pl_runtime :: string
  pl_group_by :: "string option"

definition new_placement :: "placement \<Rightarrow> spec_error + placement" where
  "new_placement p =
     (if \<not> (case pl_custom_layer p of None \<Rightarrow> True | Some n \<Rightarrow> name_ok n) \<or> \<not> name_ok (pl_runtime p)
         \<or> \<not> list_all name_ok (pl_names p)
      then Inl SpecField
      else if pl_layer p = CustomLayer \<and> given (pl_custom_layer p) = None then Inl PlacementLayerMissing
      else if pl_layer p \<noteq> CustomLayer \<and> given (pl_custom_layer p) \<noteq> None then Inl PlacementLayerUnexpected
      else if pl_cardinality p = PerGroup \<and> given (pl_group_by p) = None then Inl GroupMissing
      else if pl_cardinality p \<noteq> PerGroup \<and> given (pl_group_by p) \<noteq> None then Inl GroupUnexpected
      else Inr p)"

record deployment =
  ag_name :: string
  ag_blueprint :: string
  ag_placement :: placement
  ag_observe :: "string list"
  ag_capabilities :: "string list"
  ag_priority :: int
  ag_triggers :: "trigger list"
  ag_policies :: "observation_policy list"
  ag_execution :: execution_configuration
  ag_inputs :: "(string \<times> string) list"

definition new_deployment :: "deployment \<Rightarrow> spec_error + deployment" where
  "new_deployment d =
     (if \<not> name_ok (ag_name d) then Inl SpecField
      else bind_res (new_placement (ag_placement d)) (\<lambda>_.
           bind_res (map_res new_trigger (ag_triggers d)) (\<lambda>_.
           bind_res (map_res new_observation_policy (ag_policies d)) (\<lambda>_.
           bind_res (new_execution_configuration (ag_execution d)) (\<lambda>_.
             if \<not> distinct (map trigger_name (ag_triggers d)) then Inl TriggerNamesNotUnique
             else Inr d)))))"

datatype peers = PeersAll | PeersNeighbors

record coordination_spec =
  co_mode :: coordination_mode
  co_coordinator :: "string option"
  co_peers :: "peers option"
  co_relationships :: "(string \<times> string list) list"

definition new_coordination :: "coordination_spec \<Rightarrow> spec_error + coordination_spec" where
  "new_coordination c =
     (if \<not> (case co_coordinator c of None \<Rightarrow> True | Some n \<Rightarrow> name_ok n)
         \<or> \<not> list_all (\<lambda>(s, ts). name_ok s \<and> ts \<noteq> [] \<and> list_all name_ok ts) (co_relationships c)
      then Inl SpecField
      else if co_mode c = Centralized \<and> given (co_coordinator c) = None then Inl CoordinatorMissing
      else if co_mode c \<noteq> Centralized \<and> given (co_coordinator c) \<noteq> None then Inl CoordinatorUnexpected
      else if co_mode c = Distributed \<and> co_peers c = None then Inl PeersMissing
      else if co_mode c \<noteq> Distributed \<and> co_peers c \<noteq> None then Inl PeersUnexpected
      else if co_mode c = Hierarchical \<and> co_relationships c = [] then Inl RelationshipsMissing
      else if co_mode c \<noteq> Hierarchical \<and> co_relationships c \<noteq> [] then Inl RelationshipsUnexpected
      else Inr c)"

section \<open>Substrate drivers\<close>

record substrate_issue =
  si_code :: string
  si_path :: "string option"

record layer_support =
  lsu_targets :: "resource_kind list"
  lsu_runtimes :: "string list"
  lsu_observations :: "string list"

record substrate_manifest =
  mf_name :: string
  mf_kinds :: "resource_kind list"
  mf_layers :: "(attachment_layer \<times> layer_support) list"
  mf_custom :: "(string \<times> layer_support) list"

text \<open>A driver as the compiler sees it.\<close>

record substrate_driver =
  drv_name :: string
  drv_options :: "substrate_issue list"
  drv_resources :: "planned_resource list \<Rightarrow> substrate_issue list"
  drv_attachment :: "attachment_layer \<Rightarrow> string option \<Rightarrow> resource_kind \<Rightarrow> string \<Rightarrow> substrate_issue list"
  drv_observation :: "attachment_layer \<Rightarrow> string option \<Rightarrow> string \<Rightarrow> substrate_issue list"

definition plain_issue :: "string \<Rightarrow> substrate_issue" where
  "plain_issue c = \<lparr>si_code = c, si_path = None\<rparr>"

definition unsupported_resources :: "substrate_manifest \<Rightarrow> planned_resource list \<Rightarrow> substrate_issue list" where
  "unsupported_resources mf rs =
     List.map_filter (\<lambda>(i, r).
       if res_kind r \<notin> set (mf_kinds mf)
       then Some \<lparr>si_code = ''substrate.resource.unsupported'', si_path = Some (''resources.'' @ decimal i)\<rparr>
       else None) (enumerate 0 rs)"

definition find_layer ::
  "substrate_manifest \<Rightarrow> attachment_layer \<Rightarrow> string option \<Rightarrow> substrate_issue list + layer_support" where
  "find_layer mf layer custom =
     (if layer = CustomLayer then
        (case map_of (mf_custom mf) (or_default custom []) of
           None \<Rightarrow> Inl [plain_issue ''substrate.layer.unknown'']
         | Some s \<Rightarrow> Inr s)
      else
        (case map_of (mf_layers mf) layer of
           None \<Rightarrow> Inl [plain_issue ''substrate.layer.unsupported'']
         | Some s \<Rightarrow> Inr s))"

definition attachment_issues ::
  "substrate_manifest \<Rightarrow> attachment_layer \<Rightarrow> string option \<Rightarrow> resource_kind \<Rightarrow> string \<Rightarrow> substrate_issue list" where
  "attachment_issues mf layer custom kind runtime =
     (case find_layer mf layer custom of
        Inl issues \<Rightarrow> issues
      | Inr s \<Rightarrow>
          (if kind \<notin> set (lsu_targets s) then [plain_issue ''substrate.attachment.target''] else [])
          @ (if runtime \<notin> set (lsu_runtimes s) then [plain_issue ''substrate.attachment.runtime''] else []))"

definition observation_issues ::
  "substrate_manifest \<Rightarrow> attachment_layer \<Rightarrow> string option \<Rightarrow> string \<Rightarrow> substrate_issue list" where
  "observation_issues mf layer custom observation =
     (case find_layer mf layer custom of
        Inl issues \<Rightarrow> issues
      | Inr s \<Rightarrow>
          if observation \<in> set (lsu_observations s) then []
          else [plain_issue ''substrate.observation.unsupported''])"

definition manifest_driver :: "substrate_manifest \<Rightarrow> substrate_driver" where
  "manifest_driver mf =
     \<lparr>drv_name = mf_name mf, drv_options = [], drv_resources = unsupported_resources mf,
      drv_attachment = attachment_issues mf, drv_observation = observation_issues mf\<rparr>"

section \<open>Selection\<close>

definition select_targets :: "deployment \<Rightarrow> planned_resource list \<Rightarrow> compile_error + planned_resource list" where
  "select_targets d rs =
     (let p = ag_placement d;
          kinds = filter (\<lambda>r. res_kind r = pl_kind p) rs in
      if pl_names p \<noteq> [] \<and> set (pl_names p) - set (map res_name kinds) \<noteq> {} then Inl SelectedNamesInvalid
      else (let named = (if pl_names p \<noteq> [] then filter (\<lambda>r. res_name r \<in> set (pl_names p)) kinds else kinds);
                selected = fold (\<lambda>(k, v) sel. filter (\<lambda>r. map_of (res_labels r) k = Some v) sel)
                             (pl_labels p) named in
            if selected = [] then Inl SelectorMatchesNone else Inr (sort_key res_name selected)))"

text \<open>\<open>re.sub(r"[^a-zA-Z0-9_.-]+", "-", value).strip("-")\<close>; \<open>gap\<close> is set after a dash for a run.\<close>

definition slug_char :: "char \<Rightarrow> bool" where
  "slug_char c = (name_head c \<or> ascii_digit c \<or> c \<in> set ''_.-'')"

fun slug_text :: "bool \<Rightarrow> string \<Rightarrow> string" where
  "slug_text gap [] = []"
| "slug_text gap (c # cs) =
     (if slug_char c then c # slug_text False cs
      else if gap then slug_text True cs else CHR ''-'' # slug_text True cs)"

definition slug :: "string \<Rightarrow> string" where
  "slug v = rev (dropWhile (\<lambda>c. c = CHR ''-'') (rev (dropWhile (\<lambda>c. c = CHR ''-'') (slug_text False v))))"

type_synonym target_group = "string \<times> planned_resource list"

definition add_group_member ::
  "string \<Rightarrow> planned_resource \<Rightarrow> (string \<times> planned_resource list) list
   \<Rightarrow> compile_error + (string \<times> planned_resource list) list" where
  "add_group_member label r groups =
     (case map_of (res_labels r) label of
        None \<Rightarrow> Inl GroupLabelMissing
      | Some v \<Rightarrow>
          Inr (AList.update v ((case map_of groups v of None \<Rightarrow> [] | Some g \<Rightarrow> g) @ [r]) groups))"

definition target_groups ::
  "deployment \<Rightarrow> planned_resource list \<Rightarrow> compile_error + target_group list" where
  "target_groups d selected =
     (case pl_cardinality (ag_placement d) of
        Singleton \<Rightarrow>
          (case selected of
             [r] \<Rightarrow> Inr [(ag_name d, [r])]
           | _ \<Rightarrow> Inl SingletonNotOne)
      | PerTarget \<Rightarrow> Inr (map (\<lambda>r. (ag_name d @ ''@'' @ res_name r, [r])) selected)
      | PerGroup \<Rightarrow>
          (let label = or_default (pl_group_by (ag_placement d)) [] in
           bind_res (fold_res (add_group_member label) selected []) (\<lambda>groups.
             Inr (map (\<lambda>(v, g). (ag_name d @ ''@'' @ label @ ''-'' @ slug v, sort_key res_name g))
                   (sort_key fst groups)))))"

section \<open>Bounded deployments\<close>

record compiled_agent =
  ca_instance :: agent_instance
  ca_scenario :: "scenario option"
  ca_inputs :: "(string \<times> string) list"

definition ca_id :: "compiled_agent \<Rightarrow> agent_id" where
  "ca_id a = ai_id (ca_instance a)"

record experiment_spec =
  xp_api_version :: string
  xp_agents :: "deployment list"
  xp_coordination :: coordination_spec
  xp_policy :: plan_policy
  xp_limits :: resource_limits

record loaded =
  ld_experiment :: experiment_spec
  ld_topology :: topology
  ld_blueprints :: "blueprint list"
  ld_capabilities :: "capability list"
  ld_scenarios :: "scenario list"

definition is_bounded :: "blueprint \<Rightarrow> bool" where
  "is_bounded b = (case bp_execution b of None \<Rightarrow> False | Some s \<Rightarrow> sel_kind s = BoundedExecution)"

text \<open>
  Whether a path names only declared resources. A list or an object in a path has no hash:
  looking it up in the set raises a \<open>TypeError\<close>, which is no \<open>CompilationError\<close>.
\<close>

fun path_declared :: "string list \<Rightarrow> json list \<Rightarrow> compile_error + bool" where
  "path_declared declared [] = Inr True"
| "path_declared declared (v # vs) =
     (case v of
        JArr _ \<Rightarrow> Inl NotHashable
      | JObj _ \<Rightarrow> Inl NotHashable
      | JStr s \<Rightarrow> if s \<in> set declared then path_declared declared vs else Inr False
      | _ \<Rightarrow> Inr False)"

definition path_nodes :: "scenario \<Rightarrow> json list" where
  "path_nodes s = concat (map (\<lambda>(_, p). case p of JArr vs \<Rightarrow> vs | _ \<Rightarrow> []) (sc_paths s))"

definition required_inputs :: "scenario \<Rightarrow> string list" where
  "required_inputs s =
     (if sc_input_mode s = CurrentOnly then map fst (sc_observations s) else logical_inputs)"

definition one_second_interval :: "trigger list \<Rightarrow> bool" where
  "one_second_interval ts =
     (case ts of [IntervalTrigger _ every _] \<Rightarrow> duration_seconds every = Some 1 | _ \<Rightarrow> False)"

text \<open>The checks of a deployment whose blueprint selects bounded execution.\<close>

definition check_bounded ::
  "loaded \<Rightarrow> planned_resource list \<Rightarrow> deployment \<Rightarrow> blueprint \<Rightarrow> compile_error + scenario option" where
  "check_bounded ld rs d b =
     (if \<not> is_bounded b then Inr None
      else if xp_api_version (ld_experiment ld) \<noteq> ''mininet-ai/v1alpha5'' then Inl BoundedRefused
      else (case map_of (map (\<lambda>s. (sc_name s, s)) (ld_scenarios ld))
                   (or_default (sel_scenario (the (bp_execution b))) []) of
              None \<Rightarrow> Inl BoundedRefused
            | Some s \<Rightarrow>
                bind_res (path_declared (map res_name rs) (path_nodes s)) (\<lambda>known.
                  if \<not> known then Inl BoundedRefused
                  else if set (map fst (ag_inputs d)) \<noteq> set (required_inputs s) then Inl BoundedRefused
                  else if set (map snd (ag_inputs d)) - set (ag_observe d) \<noteq> {} then Inl BoundedRefused
                  else if ec_max_concurrency (ag_execution d) \<noteq> 1 then Inl BoundedRefused
                  else if (if sc_input_mode s = CurrentOnly
                           then pl_cardinality (ag_placement d) \<noteq> PerTarget
                           else pl_cardinality (ag_placement d) = PerTarget)
                  then Inl BoundedRefused
                  else if \<not> one_second_interval (ag_triggers d) then Inl BoundedRefused
                  else if bp_model b \<noteq> Some (ModelConfigured ''llamacpp-systemone'') then Inl BoundedRefused
                  else Inr (Some s))))"

definition check_policies :: "deployment \<Rightarrow> compile_error + unit" where
  "check_policies d =
     (let names = map op_observation (ag_policies d) in
      if \<not> distinct names then Inl DuplicatePolicies
      else guard_res (set names \<subseteq> set (ag_observe d)) UndeclaredPolicy)"

section \<open>Instances\<close>

definition expected_ports :: "scenario \<Rightarrow> string \<Rightarrow> string list" where
  "expected_ports s target =
     List.map_filter str_of
       (expected_list (case map_of (sc_local_expectations s) target of None \<Rightarrow> [] | Some e \<Rightarrow> e) ''ports'')"

definition actual_ports :: "planned_resource list \<Rightarrow> string \<Rightarrow> string list" where
  "actual_ports rs target =
     map res_name (filter (\<lambda>r. res_kind r = PortKind \<and> res_parent r = Some target) rs)"

definition check_expectations ::
  "planned_resource list \<Rightarrow> target_group list \<Rightarrow> planned_resource list \<Rightarrow> scenario \<Rightarrow> compile_error + unit" where
  "check_expectations rs groups targets s =
     (if sc_local_expectations s = [] then Inr ()
      else if set (map fst (sc_local_expectations s)) \<noteq> set (map res_name (concat (map snd groups)))
      then Inl BoundedRefused
      else guard_res
        (list_all (\<lambda>t. set (expected_ports s (res_name t)) = set (actual_ports rs (res_name t))) targets)
        BoundedRefused)"

definition proposal_field :: "json_object \<Rightarrow> string \<Rightarrow> string" where
  "proposal_field p k = (case map_of p k of Some (JStr s) \<Rightarrow> s | _ \<Rightarrow> [])"

definition check_proposal ::
  "(json_object \<Rightarrow> json \<Rightarrow> bool) \<Rightarrow> (string \<times> capability) list \<Rightarrow> deployment \<Rightarrow> planned_resource list
   \<Rightarrow> json_object \<Rightarrow> compile_error + unit" where
  "check_proposal conforms capabilities d targets p =
     (case map_of capabilities (proposal_field p ''capability'') of
        None \<Rightarrow> Inl BoundedRefused
      | Some c \<Rightarrow>
          if proposal_field p ''capability'' \<notin> set (ag_capabilities d) then Inl BoundedRefused
          else if proposal_field p ''target'' \<notin> set (map res_name targets) then Inl BoundedRefused
          else guard_res (conforms (cap_input_schema c) (the (map_of p ''arguments''))) BoundedRefused)"

definition check_scenario ::
  "(json_object \<Rightarrow> json \<Rightarrow> bool) \<Rightarrow> planned_resource list \<Rightarrow> (string \<times> capability) list \<Rightarrow> deployment
   \<Rightarrow> target_group list \<Rightarrow> planned_resource list \<Rightarrow> scenario option \<Rightarrow> compile_error + unit" where
  "check_scenario conforms rs capabilities d groups targets sc =
     (case sc of
        None \<Rightarrow> Inr ()
      | Some s \<Rightarrow>
          bind_res (check_expectations rs groups targets s) (\<lambda>_.
          bind_res (map_res (check_proposal conforms capabilities d targets)
                      (concat (map ch_proposals (sc_choices s)))) (\<lambda>_. Inr ())))"

definition layer_name :: "placement \<Rightarrow> string" where
  "layer_name p = or_default (pl_custom_layer p) (layer_value (pl_layer p))"

definition no_issues :: "substrate_issue list \<Rightarrow> compile_error + unit" where
  "no_issues issues = guard_res (issues = []) DriverRefused"

definition check_capability ::
  "substrate_driver \<Rightarrow> placement \<Rightarrow> resource_kind \<Rightarrow> capability \<Rightarrow> compile_error + unit" where
  "check_capability drv p kind c =
     (if kind \<notin> set (cap_targets c) then Inl TargetKindDenied
      else if layer_name p \<notin> set (cap_layers c) then Inl LayerDenied
      else bind_res (map_res (\<lambda>pc. no_issues (drv_observation drv (pl_layer p) (pl_custom_layer p) (pc_observation pc)))
                       (cap_postconditions c)) (\<lambda>_. Inr ()))"

definition compile_instance ::
  "(json_object \<Rightarrow> json \<Rightarrow> bool) \<Rightarrow> substrate_driver \<Rightarrow> planned_resource list \<Rightarrow> (string \<times> capability) list
   \<Rightarrow> deployment \<Rightarrow> blueprint \<Rightarrow> scenario option \<Rightarrow> target_group list
   \<Rightarrow> target_group \<Rightarrow> compiled_agent list \<Rightarrow> compile_error + compiled_agent list" where
  "compile_instance conforms drv rs capabilities d b sc groups = (\<lambda>(i, targets) done_agents.
     let p = ag_placement d; kind = res_kind (hd targets);
         caps = map (\<lambda>n. the (map_of capabilities n)) (ag_capabilities d) in
     bind_res (check_scenario conforms rs capabilities d groups targets sc) (\<lambda>_.
     if i \<in> set (map ca_id done_agents) then Inl DuplicateAgentId
     else bind_res (no_issues (drv_attachment drv (pl_layer p) (pl_custom_layer p) kind (pl_runtime p))) (\<lambda>_.
          bind_res (map_res (\<lambda>o'. no_issues (drv_observation drv (pl_layer p) (pl_custom_layer p) o'))
                      (ag_observe d)) (\<lambda>_.
          bind_res (map_res (check_capability drv p kind) caps) (\<lambda>_.
            Inr (done_agents @
              [\<lparr>ca_instance =
                  \<lparr>ai_id = i, ai_deployment = ag_name d, ai_blueprint = bp_name b,
                   ai_attachment = \<lparr>at_layer = pl_layer p, at_custom_layer = pl_custom_layer p,
                     at_targets = map res_name targets, at_target_kind = kind, at_runtime = pl_runtime p\<rparr>,
                   ai_observes = sorted_set (ag_observe d), ai_capabilities = sorted_set (ag_capabilities d),
                   ai_privileges = sorted_set (concat (map cap_effects caps)), ai_priority = ag_priority d,
                   ai_triggers = ag_triggers d, ai_observation_policies = ag_policies d,
                   ai_memory = bp_memory b, ai_execution = ag_execution d\<rparr>,
                ca_scenario = sc, ca_inputs = (if sc = None then [] else ag_inputs d)\<rparr>]))))))"

definition compile_deployment ::
  "(json_object \<Rightarrow> json \<Rightarrow> bool) \<Rightarrow> substrate_driver \<Rightarrow> loaded \<Rightarrow> planned_resource list
   \<Rightarrow> (string \<times> blueprint) list \<Rightarrow> (string \<times> capability) list
   \<Rightarrow> deployment \<Rightarrow> compiled_agent list \<Rightarrow> compile_error + compiled_agent list" where
  "compile_deployment conforms drv ld rs blueprints capabilities d done_agents =
     (case map_of blueprints (ag_blueprint d) of
        None \<Rightarrow> Inl UnknownBlueprint
      | Some b \<Rightarrow>
          if list_ex (\<lambda>n. map_of capabilities n = None) (ag_capabilities d) then Inl UnknownCapability
          else bind_res (check_bounded ld rs d b) (\<lambda>sc.
               bind_res (check_policies d) (\<lambda>_.
               bind_res (select_targets d rs) (\<lambda>selected.
               if pl_layer (ag_placement d) = ObserverLayer \<and> ag_capabilities d \<noteq> []
               then Inl ObserverWithCapabilities
               else bind_res (target_groups d selected) (\<lambda>groups.
               if (case sc of None \<Rightarrow> False | Some s \<Rightarrow> sc_input_mode s \<noteq> CurrentOnly \<and> length groups \<noteq> 1)
               then Inl BoundedRefused
               else fold_res (compile_instance conforms drv rs capabilities d b sc groups) groups done_agents)))))"

definition bounded_deployments :: "(string \<times> blueprint) list \<Rightarrow> deployment list \<Rightarrow> deployment list" where
  "bounded_deployments blueprints ds =
     filter (\<lambda>d. case map_of blueprints (ag_blueprint d) of None \<Rightarrow> False | Some b \<Rightarrow> is_bounded b) ds"

definition compile_instances ::
  "(json_object \<Rightarrow> json \<Rightarrow> bool) \<Rightarrow> substrate_driver \<Rightarrow> loaded \<Rightarrow> planned_resource list
   \<Rightarrow> (string \<times> blueprint) list \<Rightarrow> (string \<times> capability) list \<Rightarrow> compile_error + compiled_agent list" where
  "compile_instances conforms drv ld rs blueprints capabilities =
     (let ds = xp_agents (ld_experiment ld) in
      if \<not> distinct (map ag_name ds) then Inl DuplicateName
      else if \<not> distinct (map sc_name (ld_scenarios ld)) then Inl BoundedRefused
      else if 1 < length (bounded_deployments blueprints ds) then Inl BoundedRefused
      else bind_res (fold_res (compile_deployment conforms drv ld rs blueprints capabilities) ds []) (\<lambda>agents.
        if rl_instances (xp_limits (ld_experiment ld)) < int (length agents) then Inl TooManyInstances
        else Inr (sort_key ca_id agents)))"

section \<open>Selection and grouping\<close>

definition selects :: "deployment \<Rightarrow> planned_resource \<Rightarrow> bool" where
  "selects d r \<longleftrightarrow>
     (let p = ag_placement d in
      res_kind r = pl_kind p \<and> (pl_names p = [] \<or> res_name r \<in> set (pl_names p))
      \<and> list_all (\<lambda>(k, v). map_of (res_labels r) k = Some v) (pl_labels p))"

lemma fold_label_filter:
  "fold (\<lambda>(k, v) sel. filter (\<lambda>r. map_of (res_labels r) k = Some v) sel) ls rs
    = filter (\<lambda>r. list_all (\<lambda>(k, v). map_of (res_labels r) k = Some v) ls) rs"
  by (induction ls arbitrary: rs) (auto intro: filter_cong)

lemma select_targets_result:
  assumes "select_targets d rs = Inr sel"
  shows "sel = sort_key res_name (filter (selects d) rs)" and "sel \<noteq> []"
    and "set (pl_names (ag_placement d)) \<subseteq> res_name ` set (filter (\<lambda>r. res_kind r = pl_kind (ag_placement d)) rs)"
proof -
  have f: "filter (\<lambda>r. list_all (\<lambda>(k, v). map_of (res_labels r) k = Some v) (pl_labels (ag_placement d)))
      (if pl_names (ag_placement d) \<noteq> []
       then filter (\<lambda>r. res_name r \<in> set (pl_names (ag_placement d)))
              (filter (\<lambda>r. res_kind r = pl_kind (ag_placement d)) rs)
       else filter (\<lambda>r. res_kind r = pl_kind (ag_placement d)) rs) = filter (selects d) rs"
    by (auto simp: selects_def Let_def intro: filter_cong)
  from assms show "sel = sort_key res_name (filter (selects d) rs)" "sel \<noteq> []"
    unfolding select_targets_def Let_def fold_label_filter f
    by (auto split: if_splits simp flip: set_empty)
  from assms show "set (pl_names (ag_placement d)) \<subseteq> res_name ` set (filter (\<lambda>r. res_kind r = pl_kind (ag_placement d)) rs)"
    by (auto simp: select_targets_def Let_def split: if_splits)
qed

definition grouped_by :: "string \<Rightarrow> (string \<times> planned_resource list) list \<Rightarrow> bool" where
  "grouped_by label groups \<longleftrightarrow> distinct (map fst groups)
     \<and> list_all (\<lambda>(v, g). g \<noteq> [] \<and> list_all (\<lambda>r. map_of (res_labels r) label = Some v) g) groups"

lemma concat_update:
  "mset (concat (map snd (AList.update v (g @ [r]) groups)))
    = (if map_of groups v = Some g then add_mset r (mset (concat (map snd groups)))
       else mset (concat (map snd (AList.update v (g @ [r]) groups))))"
  by (induction groups) auto

lemma group_members_run:
  assumes "fold_res (add_group_member label) sel groups = Inr out" "grouped_by label groups"
  shows "grouped_by label out
    \<and> mset (concat (map snd out)) = mset (concat (map snd groups)) + mset sel"
  using assms
proof (induction sel arbitrary: groups)
  case (Cons r sel)
  obtain v where v: "map_of (res_labels r) label = Some v"
    using Cons.prems(1) by (auto simp: add_group_member_def split: option.splits)
  define g where "g = (case map_of groups v of None \<Rightarrow> [] | Some g \<Rightarrow> g)"
  have rest: "fold_res (add_group_member label) sel (AList.update v (g @ [r]) groups) = Inr out"
  proof -
    have "add_group_member label r groups = Inr (AList.update v (g @ [r]) groups)"
      by (simp add: add_group_member_def v g_def)
    with Cons.prems(1) show ?thesis by simp
  qed
  have old: "list_all (\<lambda>r. map_of (res_labels r) label = Some v) g"
    using Cons.prems(2) map_of_SomeD [of groups v]
    by (auto simp: g_def grouped_by_def list_all_iff split: option.splits)
  have entry: "x \<in> set groups \<or> x = (v, g @ [r])" if "x \<in> set (AList.update v (g @ [r]) groups)" for x
    using that by (induction groups) (auto split: if_splits)
  have "grouped_by label (AList.update v (g @ [r]) groups)"
    using Cons.prems(2) old v entry distinct_update [of groups v "g @ [r]"]
    by (fastforce simp: grouped_by_def list_all_iff)
  moreover have "mset (concat (map snd (AList.update v (g @ [r]) groups)))
      = add_mset r (mset (concat (map snd groups)))"
  proof (cases "map_of groups v")
    case None
    then show ?thesis by (simp add: g_def update_fresh)
  next
    case (Some h)
    then show ?thesis using concat_update [of v g r groups] by (simp add: g_def)
  qed
  ultimately show ?case using Cons.IH [OF rest] by simp
qed simp

text \<open>What the groups of a deployment are: one resource, each resource, or the resources of a label.\<close>

definition groups_of :: "deployment \<Rightarrow> target_group list \<Rightarrow> bool" where
  "groups_of d groups \<longleftrightarrow>
     (case pl_cardinality (ag_placement d) of
        Singleton \<Rightarrow> \<exists>r. groups = [(ag_name d, [r])]
      | PerTarget \<Rightarrow> list_all (\<lambda>(i, g). \<exists>r. g = [r] \<and> i = ag_name d @ ''@'' @ res_name r) groups
      | PerGroup \<Rightarrow>
          (let label = or_default (pl_group_by (ag_placement d)) [] in
           \<exists>values. sorted values \<and> distinct values
             \<and> list_all2 (\<lambda>(i, g) v. i = ag_name d @ ''@'' @ label @ ''-'' @ slug v
                  \<and> list_all (\<lambda>r. map_of (res_labels r) label = Some v) g) groups values))"

lemma target_groups_result:
  assumes "target_groups d sel = Inr groups"
  shows "mset (concat (map snd groups)) = mset sel \<and> list_all (\<lambda>(i, g). g \<noteq> []) groups \<and> groups_of d groups"
proof (cases "pl_cardinality (ag_placement d)")
  case Singleton
  with assms show ?thesis by (auto simp: target_groups_def groups_of_def split: list.splits)
next
  case PerTarget
  with assms show ?thesis
    by (auto simp: target_groups_def groups_of_def list_all_iff comp_def)
next
  case PerGroup
  define label where "label = or_default (pl_group_by (ag_placement d)) []"
  obtain gs where gs: "fold_res (add_group_member label) sel [] = Inr gs"
    and groups: "groups = map (\<lambda>(v, g). (ag_name d @ ''@'' @ label @ ''-'' @ slug v, sort_key res_name g)) (sort_key fst gs)"
    using assms PerGroup by (auto simp: target_groups_def Let_def bind_res_Inr_iff label_def)
  have ok: "grouped_by label gs" "mset (concat (map snd gs)) = mset sel"
    using group_members_run [OF gs] by (simp_all add: grouped_by_def)
  have "mset (concat (map snd groups)) = mset (concat (map snd (sort_key fst gs)))"
  proof -
    have "mset (concat (map snd (map (\<lambda>(v, g). (f v, sort_key res_name g)) xs))) = mset (concat (map snd xs))"
      for f :: "string \<Rightarrow> string" and xs :: "(string \<times> planned_resource list) list"
      by (induction xs) auto
    then show ?thesis unfolding groups .
  qed
  also have "\<dots> = mset (concat (map snd gs))" by (simp add: mset_concat flip: sum_mset_sum_list)
  finally have "mset (concat (map snd groups)) = mset sel" using ok(2) by simp
  moreover have "list_all (\<lambda>(i, g). g \<noteq> []) groups"
  proof -
    have "sort_key res_name g \<noteq> []" if "g \<noteq> []" for g :: "planned_resource list"
      using that by (metis set_empty set_sort)
    with ok(1) show ?thesis by (auto simp: groups grouped_by_def list_all_iff)
  qed
  moreover have "distinct (map fst (sort_key fst gs))"
    using ok(1) unfolding grouped_by_def by (metis mset_map mset_sort mset_eq_imp_distinct_iff)
  moreover have "list_all2 (\<lambda>(i, g) v. i = ag_name d @ ''@'' @ label @ ''-'' @ slug v
      \<and> list_all (\<lambda>r. map_of (res_labels r) label = Some v) g) groups (map fst (sort_key fst gs))"
  proof -
    have "map_of (res_labels r) label = Some v" if "(v, g) \<in> set gs" "r \<in> set g" for v g r
      using ok(1) that by (fastforce simp: grouped_by_def list_all_iff)
    then show ?thesis
      by (auto simp: groups list_all2_map1 list_all2_map2 list_all_iff intro!: list.rel_refl_strong)
  qed
  ultimately show ?thesis
    using PerGroup unfolding groups_of_def by (auto simp: label_def Let_def intro!: exI [of _ "map fst (sort_key fst gs)"])
qed

text \<open>Placement: the groups of a deployment divide exactly the resources its selector matches
  (of its kind, with its names and labels), none twice and no group empty; a singleton has one
  resource, a per-target group one each, a per-group group those with one value of the label, one
  group per value in order. Every name the selector asks for is a resource of its kind.\<close>

lemma targets_selected_and_grouped:
  assumes "select_targets d rs = Inr selected" "target_groups d selected = Inr groups"
  shows "mset (concat (map snd groups)) = filter_mset (selects d) (mset rs)
    \<and> groups \<noteq> [] \<and> list_all (\<lambda>(i, g). g \<noteq> []) groups \<and> groups_of d groups
    \<and> set (pl_names (ag_placement d)) \<subseteq> res_name ` {r \<in> set rs. res_kind r = pl_kind (ag_placement d)}"
proof -
  note sel = select_targets_result [OF assms(1)]
  note grp = target_groups_result [OF assms(2)]
  have whole: "mset (concat (map snd groups)) = filter_mset (selects d) (mset rs)"
    using grp by (simp add: sel(1))
  have "groups \<noteq> []" using grp sel(2) by auto
  then show ?thesis using whole grp sel(3) by simp
qed

section \<open>Compiled agents\<close>

text \<open>What the compiler has established of an agent when it accepts it.\<close>

definition caps_allow ::
  "substrate_driver \<Rightarrow> (string \<times> capability) list \<Rightarrow> agent_instance \<Rightarrow> bool" where
  "caps_allow drv capabilities a \<longleftrightarrow>
     (let pos = ai_attachment a in
      \<forall>n\<in>set (ai_capabilities a). \<exists>c. map_of capabilities n = Some c
        \<and> at_target_kind pos \<in> set (cap_targets c)
        \<and> or_default (at_custom_layer pos) (layer_value (at_layer pos)) \<in> set (cap_layers c)
        \<and> set (cap_effects c) \<subseteq> set (ai_privileges a)
        \<and> (\<forall>pc\<in>set (cap_postconditions c).
              drv_observation drv (at_layer pos) (at_custom_layer pos) (pc_observation pc) = []))"

definition placed_on :: "substrate_driver \<Rightarrow> planned_resource list \<Rightarrow> agent_instance \<Rightarrow> bool" where
  "placed_on drv rs a \<longleftrightarrow>
     (let pos = ai_attachment a in
      at_targets pos \<noteq> []
      \<and> (\<forall>t\<in>set (at_targets pos). \<exists>r\<in>set rs. res_name r = t \<and> res_kind r = at_target_kind pos)
      \<and> drv_attachment drv (at_layer pos) (at_custom_layer pos) (at_target_kind pos) (at_runtime pos) = []
      \<and> (\<forall>o'\<in>set (ai_observes a). drv_observation drv (at_layer pos) (at_custom_layer pos) o' = [])
      \<and> (at_layer pos = ObserverLayer \<longrightarrow> ai_capabilities a = []))"

definition proposals_granted ::
  "(json_object \<Rightarrow> json \<Rightarrow> bool) \<Rightarrow> (string \<times> capability) list \<Rightarrow> compiled_agent \<Rightarrow> bool" where
  "proposals_granted conforms capabilities a \<longleftrightarrow>
     (\<forall>s ch p. ca_scenario a = Some s \<and> ch \<in> set (sc_choices s) \<and> p \<in> set (ch_proposals ch) \<longrightarrow>
        proposal_field p ''capability'' \<in> set (ai_capabilities (ca_instance a))
        \<and> proposal_field p ''target'' \<in> set (at_targets (ai_attachment (ca_instance a)))
        \<and> (\<exists>c. map_of capabilities (proposal_field p ''capability'') = Some c
              \<and> conforms (cap_input_schema c) (the (map_of p ''arguments''))))"

lemma check_scenario_granted:
  assumes "check_scenario conforms rs capabilities d groups targets (Some s) = Inr u"
    and "ch \<in> set (sc_choices s)" "p \<in> set (ch_proposals ch)"
  shows "proposal_field p ''capability'' \<in> set (ag_capabilities d)
    \<and> proposal_field p ''target'' \<in> set (map res_name targets)
    \<and> (\<exists>c. map_of capabilities (proposal_field p ''capability'') = Some c
          \<and> conforms (cap_input_schema c) (the (map_of p ''arguments'')))"
proof -
  obtain us where "map_res (check_proposal conforms capabilities d targets)
      (concat (map ch_proposals (sc_choices s))) = Inr us"
    using assms(1) by (auto simp: check_scenario_def bind_res_Inr_iff)
  then have "\<forall>p\<in>set (concat (map ch_proposals (sc_choices s))).
      \<exists>u. check_proposal conforms capabilities d targets p = Inr u"
    unfolding map_res_returns_iff [symmetric] by blast
  moreover have "p \<in> set (concat (map ch_proposals (sc_choices s)))" using assms(2,3) by auto
  ultimately have "\<exists>u. check_proposal conforms capabilities d targets p = Inr u" by blast
  then show ?thesis by (auto simp: check_proposal_def split: option.splits if_splits)
qed

lemma check_capability_allows:
  assumes "check_capability drv p kind c = Inr u"
  shows "kind \<in> set (cap_targets c)" and "layer_name p \<in> set (cap_layers c)"
    and "pc \<in> set (cap_postconditions c) \<Longrightarrow> drv_observation drv (pl_layer p) (pl_custom_layer p) (pc_observation pc) = []"
proof -
  show "kind \<in> set (cap_targets c)" "layer_name p \<in> set (cap_layers c)"
    using assms by (auto simp: check_capability_def split: if_splits)
  have "\<exists>us. map_res (\<lambda>pc. no_issues (drv_observation drv (pl_layer p) (pl_custom_layer p) (pc_observation pc)))
      (cap_postconditions c) = Inr us"
    using assms by (auto simp: check_capability_def bind_res_Inr_iff split: if_splits)
  then show "drv_observation drv (pl_layer p) (pl_custom_layer p) (pc_observation pc) = []"
    if "pc \<in> set (cap_postconditions c)"
    using that by (auto simp: map_res_returns_iff no_issues_def)
qed

definition agent_of :: "deployment \<Rightarrow> compiled_agent \<Rightarrow> bool" where
  "agent_of d a \<longleftrightarrow> ai_deployment (ca_instance a) = ag_name d \<and> ai_priority (ca_instance a) = ag_priority d
     \<and> set (ai_capabilities (ca_instance a)) = set (ag_capabilities d)
     \<and> set (ai_observes (ca_instance a)) = set (ag_observe d)
     \<and> ai_execution (ca_instance a) = ag_execution d \<and> ai_triggers (ca_instance a) = ag_triggers d"

definition agent_ok ::
  "(json_object \<Rightarrow> json \<Rightarrow> bool) \<Rightarrow> substrate_driver \<Rightarrow> planned_resource list \<Rightarrow> (string \<times> blueprint) list
   \<Rightarrow> (string \<times> capability) list \<Rightarrow> compiled_agent \<Rightarrow> bool" where
  "agent_ok conforms drv rs blueprints capabilities a \<longleftrightarrow>
     caps_allow drv capabilities (ca_instance a) \<and> placed_on drv rs (ca_instance a)
     \<and> proposals_granted conforms capabilities a
     \<and> (\<exists>b. b \<in> snd ` set blueprints \<and> bp_name b = ai_blueprint (ca_instance a))"

lemma compile_instance_step:
  assumes "compile_instance conforms drv rs capabilities d b sc groups (i, targets) done_agents = Inr out"
    and targets: "targets \<noteq> []" "\<And>r. r \<in> set targets \<Longrightarrow> r \<in> set rs \<and> res_kind r = pl_kind (ag_placement d)"
    and known: "\<And>n. n \<in> set (ag_capabilities d) \<Longrightarrow> map_of capabilities n \<noteq> None"
    and obs: "pl_layer (ag_placement d) = ObserverLayer \<Longrightarrow> ag_capabilities d = []"
    and b: "b \<in> snd ` set blueprints"
  shows "\<exists>a. out = done_agents @ [a] \<and> ca_id a = i
    \<and> i \<notin> set (map ca_id done_agents) \<and> agent_of d a
    \<and> agent_ok conforms drv rs blueprints capabilities a"
proof -
  let ?p = "ag_placement d"
  let ?caps = "map (\<lambda>n. the (map_of capabilities n)) (ag_capabilities d)"
  have kind: "res_kind (hd targets) = pl_kind ?p" using targets by simp
  define a where "a = \<lparr>ca_instance =
                  \<lparr>ai_id = i, ai_deployment = ag_name d, ai_blueprint = bp_name b,
                   ai_attachment = \<lparr>at_layer = pl_layer ?p, at_custom_layer = pl_custom_layer ?p,
                     at_targets = map res_name targets, at_target_kind = pl_kind ?p, at_runtime = pl_runtime ?p\<rparr>,
                   ai_observes = sorted_set (ag_observe d), ai_capabilities = sorted_set (ag_capabilities d),
                   ai_privileges = sorted_set (concat (map cap_effects ?caps)), ai_priority = ag_priority d,
                   ai_triggers = ag_triggers d, ai_observation_policies = ag_policies d,
                   ai_memory = bp_memory b, ai_execution = ag_execution d\<rparr>,
                ca_scenario = sc, ca_inputs = (if sc = None then [] else ag_inputs d)\<rparr>"
  have run: "\<exists>u. check_scenario conforms rs capabilities d groups targets sc = Inr u"
      "i \<notin> set (map ca_id done_agents)"
      "drv_attachment drv (pl_layer ?p) (pl_custom_layer ?p) (pl_kind ?p) (pl_runtime ?p) = []"
      "\<exists>us. map_res (\<lambda>o'. no_issues (drv_observation drv (pl_layer ?p) (pl_custom_layer ?p) o')) (ag_observe d) = Inr us"
      "\<exists>us. map_res (check_capability drv ?p (pl_kind ?p)) ?caps = Inr us"
      "out = done_agents @ [a]"
    using assms(1) by (auto simp: compile_instance_def Let_def bind_res_Inr_iff kind no_issues_def a_def
        split: if_splits)
  have allow: "\<exists>u. check_capability drv ?p (pl_kind ?p) c = Inr u" if "c \<in> set ?caps" for c
    using run(5) that unfolding map_res_returns_iff by blast
  have allowed: "caps_allow drv capabilities (ca_instance a)"
    unfolding caps_allow_def Let_def
  proof
    fix n assume "n \<in> set (ai_capabilities (ca_instance a))"
    then have n: "n \<in> set (ag_capabilities d)" by (simp add: a_def)
    then obtain c where c: "map_of capabilities n = Some c" using known by blast
    have mem: "c \<in> set ?caps" using n c by force
    obtain u where u: "check_capability drv ?p (pl_kind ?p) c = Inr u" using allow [OF mem] by blast
    have "set (cap_effects c) \<subseteq> set (ai_privileges (ca_instance a))" using mem by (auto simp: a_def)
    with c check_capability_allows [OF u] show "\<exists>c. map_of capabilities n = Some c
        \<and> at_target_kind (ai_attachment (ca_instance a)) \<in> set (cap_targets c)
        \<and> or_default (at_custom_layer (ai_attachment (ca_instance a)))
            (layer_value (at_layer (ai_attachment (ca_instance a)))) \<in> set (cap_layers c)
        \<and> set (cap_effects c) \<subseteq> set (ai_privileges (ca_instance a))
        \<and> (\<forall>pc\<in>set (cap_postconditions c).
              drv_observation drv (at_layer (ai_attachment (ca_instance a)))
                (at_custom_layer (ai_attachment (ca_instance a))) (pc_observation pc) = [])"
      by (simp add: a_def layer_name_def)
  qed
  have placed: "placed_on drv rs (ca_instance a)"
    using run(3,4) targets obs
    by (auto simp: placed_on_def Let_def a_def map_res_returns_iff no_issues_def sorted_set_def)
  have granted: "proposals_granted conforms capabilities a"
    using run(1) check_scenario_granted
    unfolding proposals_granted_def by (fastforce simp: a_def)
  have "agent_of d a" by (simp add: agent_of_def a_def)
  moreover have i: "ca_id a = i" "bp_name b = ai_blueprint (ca_instance a)" by (simp_all add: a_def ca_id_def)
  moreover have "agent_ok conforms drv rs blueprints capabilities a"
    unfolding agent_ok_def using allowed placed granted b i(2) by metis
  ultimately show ?thesis using run(2,6) by (intro exI [of _ a] conjI)
qed

lemma compile_groups_run:
  assumes "fold_res (compile_instance conforms drv rs capabilities d b sc groups) gs done_agents = Inr out"
    and groups: "\<And>i g. (i, g) \<in> set gs \<Longrightarrow>
      g \<noteq> [] \<and> (\<forall>r\<in>set g. r \<in> set rs \<and> res_kind r = pl_kind (ag_placement d))"
    and known: "\<And>n. n \<in> set (ag_capabilities d) \<Longrightarrow> map_of capabilities n \<noteq> None"
    and obs: "pl_layer (ag_placement d) = ObserverLayer \<Longrightarrow> ag_capabilities d = []"
    and b: "b \<in> snd ` set blueprints"
    and "distinct (map ca_id done_agents)"
  shows "\<exists>new. out = done_agents @ new \<and> map ca_id new = map fst gs
    \<and> distinct (map ca_id out)
    \<and> (\<forall>a\<in>set new. agent_of d a \<and> agent_ok conforms drv rs blueprints capabilities a)"
  using assms(1,2,6)
proof (induction gs arbitrary: done_agents)
  case (Cons x gs)
  obtain i g where x: "x = (i, g)" by force
  obtain mid where step: "compile_instance conforms drv rs capabilities d b sc groups (i, g) done_agents = Inr mid"
    and rest: "fold_res (compile_instance conforms drv rs capabilities d b sc groups) gs mid = Inr out"
    using Cons.prems(1) by (auto simp: x split: sum.splits)
  have g: "g \<noteq> []" "\<And>r. r \<in> set g \<Longrightarrow> r \<in> set rs \<and> res_kind r = pl_kind (ag_placement d)"
    using Cons.prems(2) [of i g] by (auto simp: x)
  obtain a where a: "mid = done_agents @ [a]" "ca_id a = i"
      "i \<notin> set (map ca_id done_agents)" "agent_of d a"
      "agent_ok conforms drv rs blueprints capabilities a"
    using compile_instance_step [OF step g known obs b] by blast
  have "distinct (map ca_id mid)" using Cons.prems(3) a by simp
  moreover have "g \<noteq> [] \<and> (\<forall>r\<in>set g. r \<in> set rs \<and> res_kind r = pl_kind (ag_placement d))"
    if "(i, g) \<in> set gs" for i g
    using Cons.prems(2) [of i g] that by simp
  ultimately obtain new where "out = mid @ new" "map ca_id new = map fst gs"
      "distinct (map ca_id out)"
      "\<forall>a\<in>set new. agent_of d a \<and> agent_ok conforms drv rs blueprints capabilities a"
    using Cons.IH [OF rest] by blast
  then show ?case using a x by (intro exI [of _ "a # new"]) auto
qed simp

lemma compile_deployment_run:
  assumes "compile_deployment conforms drv ld rs blueprints capabilities d done_agents = Inr out"
    and "distinct (map ca_id done_agents)"
  shows "\<exists>new. out = done_agents @ new \<and> new \<noteq> [] \<and> distinct (map ca_id out)
    \<and> (\<forall>a\<in>set new. agent_of d a \<and> agent_ok conforms drv rs blueprints capabilities a)"
proof -
  obtain b sc selected groups where
      b: "map_of blueprints (ag_blueprint d) = Some b"
    and known: "\<not> list_ex (\<lambda>n. map_of capabilities n = None) (ag_capabilities d)"
    and sel: "select_targets d rs = Inr selected"
    and obs: "\<not> (pl_layer (ag_placement d) = ObserverLayer \<and> ag_capabilities d \<noteq> [])"
    and groups: "target_groups d selected = Inr groups"
    and run: "fold_res (compile_instance conforms drv rs capabilities d b sc groups) groups done_agents = Inr out"
    using assms(1) unfolding compile_deployment_def
    by (auto simp: bind_res_Inr_iff split: option.splits if_splits)
  note s = select_targets_result [OF sel]
  note g = target_groups_result [OF groups]
  have in_groups: "r \<in> set rs \<and> selects d r" if "(i, h) \<in> set groups" "r \<in> set h" for i h r
  proof -
    have "r \<in> set (concat (map snd groups))" using that by force
    also have "\<dots> = set selected" using g by (metis set_mset_mset)
    finally show ?thesis by (simp add: s(1))
  qed
  have each: "h \<noteq> [] \<and> (\<forall>r\<in>set h. r \<in> set rs \<and> res_kind r = pl_kind (ag_placement d))"
    if "(i, h) \<in> set groups" for i h
    using in_groups [OF that] that g by (auto simp: selects_def Let_def list_all_iff)
  have "groups \<noteq> []" using g s(2) by auto
  moreover have "b \<in> snd ` set blueprints" using b by (force dest: map_of_SomeD)
  moreover have "map_of capabilities n \<noteq> None" if "n \<in> set (ag_capabilities d)" for n
    using known that unfolding list_ex_iff by metis
  moreover have "ag_capabilities d = []" if "pl_layer (ag_placement d) = ObserverLayer"
    using obs that by blast
  ultimately have "\<exists>new. out = done_agents @ new \<and> map ca_id new = map fst groups
    \<and> distinct (map ca_id out)
    \<and> (\<forall>a\<in>set new. agent_of d a \<and> agent_ok conforms drv rs blueprints capabilities a)"
    by (intro compile_groups_run [OF run each _ _ _ assms(2)]) blast+
  moreover have "new \<noteq> []" if "map ca_id new = map fst groups" for new
    using that \<open>groups \<noteq> []\<close> by auto
  ultimately show ?thesis by blast
qed

definition agents_ok ::
  "(json_object \<Rightarrow> json \<Rightarrow> bool) \<Rightarrow> substrate_driver \<Rightarrow> planned_resource list \<Rightarrow> (string \<times> blueprint) list
   \<Rightarrow> (string \<times> capability) list \<Rightarrow> deployment list \<Rightarrow> compiled_agent list \<Rightarrow> bool" where
  "agents_ok conforms drv rs blueprints capabilities ds as \<longleftrightarrow>
     distinct (map ca_id as) \<and> (\<forall>d\<in>set ds. \<exists>a\<in>set as. agent_of d a)
     \<and> (\<forall>a\<in>set as. (\<exists>d\<in>set ds. agent_of d a) \<and> agent_ok conforms drv rs blueprints capabilities a)"

lemma compile_deployment_ok:
  assumes "compile_deployment conforms drv ld rs blueprints capabilities d as = Inr out"
    and "agents_ok conforms drv rs blueprints capabilities ds as"
  shows "agents_ok conforms drv rs blueprints capabilities (ds @ [d]) out"
proof -
  obtain new where new: "out = as @ new" "new \<noteq> []" "distinct (map ca_id out)"
      "\<forall>a\<in>set new. agent_of d a \<and> agent_ok conforms drv rs blueprints capabilities a"
    using compile_deployment_run [OF assms(1)] assms(2) unfolding agents_ok_def by blast
  moreover obtain a where "a \<in> set new" using \<open>new \<noteq> []\<close> by (cases new) auto
  ultimately show ?thesis using assms(2) unfolding agents_ok_def by auto
qed

lemma compile_instances_ok:
  assumes "compile_instances conforms drv ld rs blueprints capabilities = Inr agents"
  shows "sorted (map ca_id agents) \<and> int (length agents) \<le> rl_instances (xp_limits (ld_experiment ld))
    \<and> agents_ok conforms drv rs blueprints capabilities (xp_agents (ld_experiment ld)) agents"
proof -
  obtain all where run: "fold_res (compile_deployment conforms drv ld rs blueprints capabilities)
      (xp_agents (ld_experiment ld)) [] = Inr all"
    and agents: "agents = sort_key ca_id all"
    and limit: "int (length all) \<le> rl_instances (xp_limits (ld_experiment ld))"
    using assms by (auto simp: compile_instances_def Let_def bind_res_Inr_iff split: if_splits)
  have "agents_ok conforms drv rs blueprints capabilities [] []" by (simp add: agents_ok_def)
  from fold_res_prefix [where P = "agents_ok conforms drv rs blueprints capabilities", OF run this]
  have "agents_ok conforms drv rs blueprints capabilities (xp_agents (ld_experiment ld)) all"
    using compile_deployment_ok by (metis append_Nil)
  moreover have "distinct (map ca_id agents) \<longleftrightarrow> distinct (map ca_id all)"
    unfolding agents by (metis mset_map mset_sort mset_eq_imp_distinct_iff)
  ultimately show ?thesis using limit by (simp add: agents agents_ok_def)
qed

text \<open>C37. Compiled agents: ids are unique and sorted and within the limit of instances; every
  deployment has an agent and every agent belongs to one; an agent stands on existing resources
  of one kind that the driver can attach it to and observe from, its blueprint is a declared one,
  each of its capabilities is declared, may act on that kind at that layer, has postconditions
  that can be observed and effects within its privileges, an observer has none; and every
  proposal a decision scenario can make is granted, on a target of the agent, with arguments the
  schema accepts.\<close>

theorem compiled_agents_permitted:
  assumes "compile_instances conforms drv ld rs blueprints capabilities = Inr agents"
  shows "distinct (map ca_id agents) \<and> sorted (map ca_id agents)
    \<and> int (length agents) \<le> rl_instances (xp_limits (ld_experiment ld))
    \<and> (\<forall>d\<in>set (xp_agents (ld_experiment ld)). \<exists>a\<in>set agents. agent_of d a)
    \<and> (\<forall>a\<in>set agents. (\<exists>d\<in>set (xp_agents (ld_experiment ld)). agent_of d a)
          \<and> agent_ok conforms drv rs blueprints capabilities a)"
  using compile_instances_ok [OF assms] unfolding agents_ok_def by blast

section \<open>A small deployment\<close>

definition sample_link_resource :: "string \<Rightarrow> planned_resource" where
  "sample_link_resource n = LinkResource \<lparr>pk_name = n, pk_labels = [(''tier'', ''core'')], pk_attributes = [],
     pk_endpoints = (''a'', ''b''), pk_bandwidth = None, pk_delay = None, pk_jitter = None, pk_loss = 0,
     pk_max_queue = None\<rparr>"

definition sample_placement :: placement where
  "sample_placement = \<lparr>pl_layer = DataLayer, pl_custom_layer = None, pl_kind = LinkKind, pl_names = [],
     pl_labels = [(''tier'', ''core'')], pl_cardinality = PerTarget, pl_runtime = ''process'', pl_group_by = None\<rparr>"

definition sample_deployment :: deployment where
  "sample_deployment = \<lparr>ag_name = ''guards'', ag_blueprint = ''guard'', ag_placement = sample_placement,
     ag_observe = [''link''], ag_capabilities = [''link.enable''], ag_priority = 0,
     ag_triggers = [ManualTrigger ''manual''], ag_policies = [],
     ag_execution = ai_execution sample_instance, ag_inputs = []\<rparr>"

definition sample_manifest :: substrate_manifest where
  "sample_manifest = \<lparr>mf_name = ''sample'', mf_kinds = [LinkKind],
     mf_layers = [(DataLayer, \<lparr>lsu_targets = [LinkKind], lsu_runtimes = [''process''],
        lsu_observations = [''link'']\<rparr>)], mf_custom = []\<rparr>"

definition sample_loaded :: loaded where
  "sample_loaded = \<lparr>ld_experiment =
      \<lparr>xp_api_version = ''mininet-ai/v1alpha5'', xp_agents = [sample_deployment],
       xp_coordination = \<lparr>co_mode = Distributed, co_coordinator = None, co_peers = Some PeersAll, co_relationships = []\<rparr>,
       xp_policy = sample_policy_check, xp_limits = \<lparr>rl_instances = 8, rl_invocations = 4, rl_queued = 16\<rparr>\<rparr>,
     ld_topology = sample_topology, ld_blueprints = [sample_blueprint], ld_capabilities = [sample_capability],
     ld_scenarios = []\<rparr>"

definition sample_resources :: "planned_resource list" where
  "sample_resources = [sample_link_resource ''l2'', sample_link_resource ''l1'']"

lemma sample_selected:
  "select_targets sample_deployment sample_resources
    = Inr [sample_link_resource ''l1'', sample_link_resource ''l2'']"
  by (simp add: select_targets_def sample_deployment_def sample_placement_def sample_resources_def
      sample_link_resource_def)

lemma sample_grouped:
  "target_groups sample_deployment [sample_link_resource ''l1'', sample_link_resource ''l2'']
    = Inr [(''guards@l1'', [sample_link_resource ''l1'']), (''guards@l2'', [sample_link_resource ''l2''])]"
  by (simp add: target_groups_def sample_deployment_def sample_placement_def sample_link_resource_def)

lemma sample_compiled:
  "\<exists>agents. compile_instances (\<lambda>_ _. True) (manifest_driver sample_manifest) sample_loaded sample_resources
     [(''guard'', sample_blueprint)] [(''link.enable'', sample_capability)] = Inr agents
   \<and> map ca_id agents = [''guards@l1'', ''guards@l2'']"
proof -
  have "check_bounded sample_loaded sample_resources sample_deployment sample_blueprint = Inr None"
    by (simp add: check_bounded_def is_bounded_def sample_blueprint_def)
  moreover have "check_policies sample_deployment = Inr ()"
    by (simp add: check_policies_def sample_deployment_def guard_res_def)
  moreover obtain as where as: "fold_res (compile_instance (\<lambda>_ _. True) (manifest_driver sample_manifest)
      sample_resources [(''link.enable'', sample_capability)] sample_deployment sample_blueprint None
      [(''guards@l1'', [sample_link_resource ''l1'']), (''guards@l2'', [sample_link_resource ''l2''])])
      [(''guards@l1'', [sample_link_resource ''l1'']), (''guards@l2'', [sample_link_resource ''l2''])] [] = Inr as"
      and ids: "map ca_id as = [''guards@l1'', ''guards@l2'']"
    by (simp add: compile_instance_def check_scenario_def sample_deployment_def sample_placement_def
        sample_link_resource_def manifest_driver_def attachment_issues_def observation_issues_def find_layer_def
        sample_manifest_def no_issues_def guard_res_def check_capability_def sample_capability_def
        sample_postcondition_def layer_name_def or_default_def given_def ca_id_def)
  moreover have fields: "ag_blueprint sample_deployment = ''guard''" "ag_capabilities sample_deployment = [''link.enable'']"
      "pl_layer (ag_placement sample_deployment) = DataLayer"
    by (simp_all add: sample_deployment_def sample_placement_def)
  ultimately have run: "compile_deployment (\<lambda>_ _. True) (manifest_driver sample_manifest) sample_loaded sample_resources
      [(''guard'', sample_blueprint)] [(''link.enable'', sample_capability)] sample_deployment [] = Inr as"
    using sample_selected sample_grouped by (simp add: compile_deployment_def del: fold_res.simps)
  have two: "length as = 2" using arg_cong [OF ids, of length] by simp
  have "xp_agents (ld_experiment sample_loaded) = [sample_deployment]" "ld_scenarios sample_loaded = []"
      "rl_instances (xp_limits (ld_experiment sample_loaded)) = 8"
    by (simp_all add: sample_loaded_def)
  moreover have "length (bounded_deployments [(''guard'', sample_blueprint)] [sample_deployment]) \<le> 1"
    by (simp add: bounded_deployments_def)
  ultimately have "compile_instances (\<lambda>_ _. True) (manifest_driver sample_manifest) sample_loaded sample_resources
     [(''guard'', sample_blueprint)] [(''link.enable'', sample_capability)] = Inr (sort_key ca_id as)"
    using run two by (simp add: compile_instances_def)
  moreover have "map ca_id (sort_key ca_id as) = [''guards@l1'', ''guards@l2'']"
  proof -
    have "sorted (map ca_id as)" by (simp add: ids)
    then have "sort_key ca_id as = as" by (simp add: sort_key_id_if_sorted)
    then show ?thesis by (simp add: ids)
  qed
  ultimately show ?thesis by (intro exI [of _ "sort_key ca_id as"] conjI)
qed

theorem compiled_agents_permitted_witness:
  "\<exists>agents. compile_instances (\<lambda>_ _. True) (manifest_driver sample_manifest) sample_loaded sample_resources
     [(''guard'', sample_blueprint)] [(''link.enable'', sample_capability)] = Inr agents
   \<and> (\<forall>a\<in>set agents. placed_on (manifest_driver sample_manifest) sample_resources (ca_instance a))"
proof -
  obtain agents where run: "compile_instances (\<lambda>_ _. True) (manifest_driver sample_manifest) sample_loaded
      sample_resources [(''guard'', sample_blueprint)] [(''link.enable'', sample_capability)] = Inr agents"
    using sample_compiled by blast
  from compiled_agents_permitted [OF run] show ?thesis using run unfolding agent_ok_def by blast
qed

end
