(* ===== verification/Compile.thy ===== *)
theory Compile
  imports Deployment
begin

text \<open>
  The coordination plan and the compilation of an experiment as a whole (\<open>_coordination\<close>,
  \<open>_unique_by_name\<close>, \<open>_snapshot\<close>, \<open>compile_experiment\<close> of \<open>mininet_ai/compiler/compiler.py\<close>). What
  runs before it is the argument \<open>loaded\<close>: the loader has read the files and the model
  configurations are resolved. The driver is the result of the driver registry; the digest of
  the canonical JSON is a function of the loaded experiment.

  The main theorem joins the compiler to the runtime: a plan that was compiled is accepted by the
  execution catalog and by the coordination graph, unless its hierarchy has a cycle, which only
  the runtime looks for.
\<close>

section \<open>Coordination\<close>

definition agents_of :: "string \<Rightarrow> compiled_agent list \<Rightarrow> compiled_agent list" where
  "agents_of n as = filter (\<lambda>a. ai_deployment (ca_instance a) = n) as"

definition deployed :: "compiled_agent list \<Rightarrow> string list" where
  "deployed as = map (\<lambda>a. ai_deployment (ca_instance a)) as"

definition centralized_edges ::
  "string option \<Rightarrow> compiled_agent list \<Rightarrow> compile_error + (agent_id \<times> agent_id) list" where
  "centralized_edges coordinator as =
     (case coordinator of
        None \<Rightarrow> Inl UnknownCoordinator
      | Some n \<Rightarrow>
          if n \<notin> set (deployed as) then Inl UnknownCoordinator
          else (case agents_of n as of
                  [c] \<Rightarrow> Inr (map (\<lambda>t. (ca_id c, ca_id t)) (filter (\<lambda>t. ca_id t \<noteq> ca_id c) as))
                | _ \<Rightarrow> Inl CoordinatorNotOne))"

definition relate ::
  "compiled_agent list \<Rightarrow> string \<Rightarrow> string \<Rightarrow> (agent_id \<times> agent_id) list
   \<Rightarrow> compile_error + (agent_id \<times> agent_id) list" where
  "relate as source target edges =
     (if target \<notin> set (deployed as) then Inl UnknownTarget
      else Inr (edges @ map (\<lambda>(s, t). (ca_id s, ca_id t)) (List.product (agents_of source as) (agents_of target as))))"

definition hierarchical_edges ::
  "(string \<times> string list) list \<Rightarrow> compiled_agent list \<Rightarrow> compile_error + (agent_id \<times> agent_id) list" where
  "hierarchical_edges relationships as =
     fold_res (\<lambda>(source, targets) edges.
       if source \<notin> set (deployed as) then Inl UnknownSource
       else fold_res (relate as source) targets edges) relationships []"

text \<open>\<open>for index, source in enumerate(instances): ... instances[index + 1:]\<close>.\<close>

fun later_pairs :: "'a list \<Rightarrow> ('a \<times> 'a) list" where
  "later_pairs [] = []"
| "later_pairs (x # xs) = map (Pair x) xs @ later_pairs xs"

text \<open>The node an end of a link stands on; a missing name would raise a \<open>KeyError\<close>.\<close>

definition end_node :: "planned_resource list \<Rightarrow> string \<Rightarrow> compile_error + string" where
  "end_node rs n =
     (case map_of (map (\<lambda>r. (res_name r, r)) (rev rs)) n of
        None \<Rightarrow> Inl EndpointMissing
      | Some r \<Rightarrow> Inr (or_default (res_parent r) (res_name r)))"

definition links_of :: "planned_resource list \<Rightarrow> planned_link list" where
  "links_of rs = List.map_filter (\<lambda>r. case r of LinkResource l \<Rightarrow> Some l | _ \<Rightarrow> None) rs"

text \<open>A neighbourhood is an unordered pair of nodes.\<close>

definition neighbors :: "planned_resource list \<Rightarrow> compile_error + (string \<times> string) list" where
  "neighbors rs =
     map_res (\<lambda>l. bind_res (end_node rs (fst (pk_endpoints l))) (\<lambda>a.
                  bind_res (end_node rs (snd (pk_endpoints l))) (\<lambda>b. Inr (a, b)))) (links_of rs)"

definition are_neighbors :: "(string \<times> string) list \<Rightarrow> compiled_agent \<Rightarrow> compiled_agent \<Rightarrow> bool" where
  "are_neighbors ns s t =
     list_ex (\<lambda>l. list_ex (\<lambda>r. (l, r) \<in> set ns \<or> (r, l) \<in> set ns) (at_targets (ai_attachment (ca_instance t))))
       (at_targets (ai_attachment (ca_instance s)))"

definition distributed_edges ::
  "peers option \<Rightarrow> planned_resource list \<Rightarrow> compiled_agent list \<Rightarrow> compile_error + (agent_id \<times> agent_id) list" where
  "distributed_edges ps rs as =
     bind_res
       (if ps = Some PeersAll then Inr (later_pairs as)
        else bind_res (neighbors rs) (\<lambda>ns. Inr (filter (\<lambda>(s, t). are_neighbors ns s t) (later_pairs as))))
       (\<lambda>pairs. Inr (concat (map (\<lambda>(s, t). [(ca_id s, ca_id t), (ca_id t, ca_id s)]) pairs)))"

fun mode_relationship :: "coordination_mode \<Rightarrow> relationship" where
  "mode_relationship Hierarchical = Parent"
| "mode_relationship Distributed = Peer"
| "mode_relationship _ = Coordinates"

definition coordination ::
  "coordination_spec \<Rightarrow> planned_resource list \<Rightarrow> compiled_agent list \<Rightarrow> compile_error + coordination_edge list" where
  "coordination spec rs as =
     bind_res
       (case co_mode spec of
          Centralized \<Rightarrow> centralized_edges (co_coordinator spec) as
        | Hierarchical \<Rightarrow> hierarchical_edges (co_relationships spec) as
        | Distributed \<Rightarrow> distributed_edges (co_peers spec) rs as
        | Independent \<Rightarrow> Inr [])
       (\<lambda>edges. Inr (map (\<lambda>(s, t). \<lparr>edge_source = s, edge_target = t,
                                    edge_relationship = mode_relationship (co_mode spec)\<rparr>)
                       (sorted_set edges)))"

section \<open>Experiment\<close>

record deployment_plan =
  dpl_digest :: string
  dpl_substrate :: string
  dpl_resources :: "planned_resource list"
  dpl_agents :: "compiled_agent list"
  dpl_mode :: coordination_mode
  dpl_edges :: "coordination_edge list"
  dpl_policy :: plan_policy
  dpl_limits :: resource_limits
  dpl_snapshot :: snapshot

definition unique_name_step :: "('a \<Rightarrow> string) \<Rightarrow> 'a \<Rightarrow> (string \<times> 'a) list \<Rightarrow> compile_error + (string \<times> 'a) list" where
  "unique_name_step nm x seen =
     (if map_of seen (nm x) \<noteq> None then Inl DuplicateName else Inr (AList.update (nm x) x seen))"

definition unique_by_name :: "('a \<Rightarrow> string) \<Rightarrow> 'a list \<Rightarrow> compile_error + (string \<times> 'a) list" where
  "unique_by_name nm items = fold_res (unique_name_step nm) items []"

text \<open>The definitions of the snapshot: sorted by name, the blueprints under the current version.\<close>

definition plan_snapshot :: "loaded \<Rightarrow> snapshot" where
  "plan_snapshot ld =
     \<lparr>sn_blueprints = map (\<lambda>b. Resolved (b\<lparr>bp_api_version := ''mininet-ai/v1alpha5''\<rparr>))
        (sort_key bp_name (ld_blueprints ld)),
      sn_capabilities = map Resolved (sort_key cap_name (ld_capabilities ld))\<rparr>"

text \<open>\<open>compile_experiment\<close>; the inner \<open>None\<close> is the search for a datapath id that does not end.\<close>

definition compile_experiment ::
  "(json_object \<Rightarrow> json \<Rightarrow> bool) \<Rightarrow> (string \<Rightarrow> nat) \<Rightarrow> (loaded \<Rightarrow> string) \<Rightarrow> substrate_driver option
   \<Rightarrow> loaded \<Rightarrow> compile_error + deployment_plan option" where
  "compile_experiment conforms digest digest_of driver ld =
     (case driver of
        None \<Rightarrow> Inl DriverRefused
      | Some drv \<Rightarrow>
          bind_res (no_issues (drv_options drv)) (\<lambda>_.
          bind_res (unique_by_name bp_name (ld_blueprints ld)) (\<lambda>blueprints.
          bind_res (unique_by_name cap_name (ld_capabilities ld)) (\<lambda>capabilities.
          bind_res (build_resources digest (ld_topology ld)) (\<lambda>built.
          (case built of
             None \<Rightarrow> Inr None
           | Some rs \<Rightarrow>
               bind_res (no_issues (drv_resources drv rs)) (\<lambda>_.
               bind_res (compile_instances conforms drv ld rs blueprints capabilities) (\<lambda>agents.
               bind_res (coordination (xp_coordination (ld_experiment ld)) rs agents) (\<lambda>edges.
                 Inr (Some \<lparr>dpl_digest = digest_of ld, dpl_substrate = drv_name drv, dpl_resources = rs,
                   dpl_agents = agents, dpl_mode = co_mode (xp_coordination (ld_experiment ld)),
                   dpl_edges = edges, dpl_policy = xp_policy (ld_experiment ld),
                   dpl_limits = xp_limits (ld_experiment ld), dpl_snapshot = plan_snapshot ld\<rparr>))))))))))"

section \<open>The edges of a compiled plan\<close>

lemma unique_by_name_result:
  assumes "unique_by_name nm items = Inr al"
  shows "al = map (\<lambda>x. (nm x, x)) items" and "distinct (map nm items)"
proof -
  have "fold_res (unique_name_step nm) xs (map (\<lambda>x. (nm x, x)) ys) = Inr al \<Longrightarrow> distinct (map nm ys)
      \<Longrightarrow> al = map (\<lambda>x. (nm x, x)) (ys @ xs) \<and> distinct (map nm (ys @ xs))" for xs ys
  proof (induction xs arbitrary: ys)
    case (Cons x xs)
    have new: "map_of (map (\<lambda>x. (nm x, x)) ys) (nm x) = None"
      using Cons.prems(1) by (auto simp: unique_name_step_def split: if_splits)
    then have "nm x \<notin> nm ` set ys" by (auto simp: map_of_eq_None_iff image_image)
    moreover have "unique_name_step nm x (map (\<lambda>x. (nm x, x)) ys) = Inr (map (\<lambda>x. (nm x, x)) (ys @ [x]))"
      by (simp add: unique_name_step_def new update_fresh)
    ultimately show ?case using Cons.IH [of "ys @ [x]"] Cons.prems by simp
  qed simp
  from this [of items "[]"] assms
  show "al = map (\<lambda>x. (nm x, x)) items" "distinct (map nm items)" by (simp_all add: unique_by_name_def)
qed

definition edge_pairs :: "coordination_edge list \<Rightarrow> (agent_id \<times> agent_id) set" where
  "edge_pairs es = edge_key ` set es"

lemma coordination_result:
  assumes "coordination spec rs as = Inr es"
  obtains edges where
    "(case co_mode spec of
        Centralized \<Rightarrow> centralized_edges (co_coordinator spec) as
      | Hierarchical \<Rightarrow> hierarchical_edges (co_relationships spec) as
      | Distributed \<Rightarrow> distributed_edges (co_peers spec) rs as
      | Independent \<Rightarrow> Inr []) = Inr edges"
    "map edge_key es = sorted_set edges"
    "\<And>e. e \<in> set es \<Longrightarrow> edge_relationship e = mode_relationship (co_mode spec)"
proof -
  obtain edges where "(case co_mode spec of
        Centralized \<Rightarrow> centralized_edges (co_coordinator spec) as
      | Hierarchical \<Rightarrow> hierarchical_edges (co_relationships spec) as
      | Distributed \<Rightarrow> distributed_edges (co_peers spec) rs as
      | Independent \<Rightarrow> Inr []) = Inr edges"
    and es: "es = map (\<lambda>(s, t). \<lparr>edge_source = s, edge_target = t,
                                    edge_relationship = mode_relationship (co_mode spec)\<rparr>) (sorted_set edges)"
    using assms unfolding coordination_def bind_res_Inr_iff by auto
  moreover have "map edge_key es = sorted_set edges"
    by (simp add: es comp_def edge_key_def split_beta)
  ultimately show thesis by (intro that) auto
qed

lemma centralized_edges_result:
  assumes "centralized_edges coordinator as = Inr edges"
  shows "\<exists>c\<in>set as. set edges = {ca_id c} \<times> (ca_id ` set as - {ca_id c})"
proof -
  obtain n c where "agents_of n as = [c]"
    "edges = map (\<lambda>t. (ca_id c, ca_id t)) (filter (\<lambda>t. ca_id t \<noteq> ca_id c) as)"
    using assms by (auto simp: centralized_edges_def split: option.splits if_splits list.splits)
  moreover from this(1) have "c \<in> set (agents_of n as)" by simp
  then have "c \<in> set as" by (simp add: agents_of_def)
  ultimately show ?thesis by (intro bexI [of _ c]) auto
qed

lemma later_pairs_mem: "(x, y) \<in> set (later_pairs xs) \<Longrightarrow> x \<in> set xs \<and> y \<in> set xs"
  by (induction xs) auto

lemma later_pairs_distinct:
  "distinct (map f xs) \<Longrightarrow> (x, y) \<in> set (later_pairs xs) \<Longrightarrow> f x \<noteq> f y"
  by (induction xs) (auto dest: later_pairs_mem)

lemma distributed_edges_result:
  assumes "distributed_edges ps rs as = Inr edges" "distinct (map ca_id as)"
  shows "sym (set edges)" and "\<And>s t. (s, t) \<in> set edges \<Longrightarrow> s \<noteq> t \<and> s \<in> ca_id ` set as \<and> t \<in> ca_id ` set as"
proof -
  obtain pairs where sub: "set pairs \<subseteq> set (later_pairs as)"
    and edges: "edges = concat (map (\<lambda>(s, t). [(ca_id s, ca_id t), (ca_id t, ca_id s)]) pairs)"
  proof (cases "ps = Some PeersAll")
    case True
    with assms(1) show thesis by (intro that [of "later_pairs as"]) (auto simp: distributed_edges_def)
  next
    case False
    then obtain ns where "edges = concat (map (\<lambda>(s, t). [(ca_id s, ca_id t), (ca_id t, ca_id s)])
        (filter (\<lambda>(s, t). are_neighbors ns s t) (later_pairs as)))"
      using assms(1) by (auto simp: distributed_edges_def bind_res_Inr_iff)
    then show thesis by (intro that) auto
  qed
  show "sym (set edges)" unfolding edges by (rule symI) auto
  show "s \<noteq> t \<and> s \<in> ca_id ` set as \<and> t \<in> ca_id ` set as" if st: "(s, t) \<in> set edges" for s t
  proof -
    obtain x y where xy: "(x, y) \<in> set pairs" "(s, t) = (ca_id x, ca_id y) \<or> (s, t) = (ca_id y, ca_id x)"
      using st unfolding edges by auto
    with sub have "(x, y) \<in> set (later_pairs as)" by blast
    from later_pairs_mem [OF this] later_pairs_distinct [OF assms(2) this] xy(2) show ?thesis by auto
  qed
qed

definition between :: "compiled_agent list \<Rightarrow> (agent_id \<times> agent_id) list \<Rightarrow> bool" where
  "between as es \<longleftrightarrow> set es \<subseteq> ca_id ` set as \<times> ca_id ` set as"

lemma hierarchical_edges_ends:
  assumes "hierarchical_edges rels as = Inr edges"
  shows "between as edges"
proof -
  have rel: "between as out" if "relate as source target es = Inr out" "between as es" for source target es out
    using that by (auto simp: relate_def agents_of_def between_def split: if_splits)
  have targets: "between as out" if "fold_res (relate as source) ts es = Inr out" "between as es" for source ts es out
    using that by (rule fold_res_invariant) (rule rel)
  show ?thesis
  proof (rule fold_res_invariant [where P = "between as", OF assms [unfolded hierarchical_edges_def]])
    show "between as []" by (simp add: between_def)
    show "between as out" if "between as es"
      "(case x of (source, targets) \<Rightarrow> \<lambda>edges. if source \<notin> set (deployed as) then Inl UnknownSource
          else fold_res (relate as source) targets edges) es = Inr out" for x es out
      using that targets by (cases x) (simp split: if_splits)
  qed
qed

text \<open>Which plans the coordination graph accepts: all but cyclic hierarchies.\<close>

lemma coordination_accepted:
  assumes "coordination spec rs as = Inr es" "distinct (map ca_id as)"
  shows "plan_spec (co_mode spec) (map ca_id as) es
    \<longleftrightarrow> co_mode spec \<noteq> Hierarchical \<or> acyclic (edge_pairs es)"
proof -
  obtain edges where run: "(case co_mode spec of
        Centralized \<Rightarrow> centralized_edges (co_coordinator spec) as
      | Hierarchical \<Rightarrow> hierarchical_edges (co_relationships spec) as
      | Distributed \<Rightarrow> distributed_edges (co_peers spec) rs as
      | Independent \<Rightarrow> Inr []) = Inr edges"
    and keys: "map edge_key es = sorted_set edges"
    and rel: "\<And>e. e \<in> set es \<Longrightarrow> edge_relationship e = mode_relationship (co_mode spec)"
    by (rule coordination_result [OF assms(1)]) (rule that)
  have dist: "distinct (map edge_key es)" by (simp add: keys)
  have pairs: "delegates es = set edges" "edge_pairs es = set edges"
    using arg_cong [OF keys, of set] by (auto simp: delegates_def edge_pairs_def)
  have key: "edge_key e \<in> set edges" if "e \<in> set es" for e
    using that arg_cong [OF keys, of set] by auto
  have valid: "list_all (edge_valid (map ca_id as) (Some (mode_relationship (co_mode spec)))) es"
    if "\<And>s t. (s, t) \<in> set edges \<Longrightarrow> s \<noteq> t \<and> s \<in> ca_id ` set as \<and> t \<in> ca_id ` set as"
    unfolding list_all_iff
  proof
    fix e assume e: "e \<in> set es"
    from that [of "edge_source e" "edge_target e"] key [OF e] rel [OF e]
    show "edge_valid (map ca_id as) (Some (mode_relationship (co_mode spec))) e"
      by (auto simp: edge_valid_def edge_key_def)
  qed
  show ?thesis
  proof (cases "co_mode spec")
    case Independent
    then have "edges = []" using run by simp
    then have "es = []" using keys by (simp add: sorted_set_def)
    then show ?thesis using Independent assms(2) by (simp add: plan_spec_def shape_spec_def delegates_def)
  next
    case Centralized
    then have "centralized_edges (co_coordinator spec) as = Inr edges" using run by simp
    then obtain c where c: "c \<in> set as" "set edges = {ca_id c} \<times> (ca_id ` set as - {ca_id c})"
      using centralized_edges_result by blast
    have cond: "s \<noteq> t \<and> s \<in> ca_id ` set as \<and> t \<in> ca_id ` set as" if "(s, t) \<in> set edges" for s t
    proof -
      from that have "(s, t) \<in> {ca_id c} \<times> (ca_id ` set as - {ca_id c})" by (simp only: c(2))
      with c(1) show ?thesis by blast
    qed
    have "list_all (edge_valid (map ca_id as) (expected_relationship Centralized)) es"
      using valid [OF cond] Centralized by simp
    moreover have "shape_spec Centralized (set (map ca_id as)) (delegates es)"
      using c by (auto simp: shape_spec_def pairs)
    ultimately show ?thesis using Centralized assms(2) dist by (simp add: plan_spec_def)
  next
    case Distributed
    then have "distributed_edges (co_peers spec) rs as = Inr edges" using run by simp
    note d = distributed_edges_result [OF this assms(2)]
    have "list_all (edge_valid (map ca_id as) (Some Peer)) es" using valid [OF d(2)] Distributed by simp
    then show ?thesis using Distributed assms(2) dist d(1) by (simp add: plan_spec_def shape_spec_def pairs)
  next
    case Hierarchical
    then have "between as edges" using run hierarchical_edges_ends by simp
    then have ends: "s \<in> ca_id ` set as \<and> t \<in> ca_id ` set as" if "(s, t) \<in> set edges" for s t
      using that by (auto simp: between_def)
    have "list_all (edge_valid (map ca_id as) (Some Parent)) es" if "acyclic (set edges)"
      using valid ends that Hierarchical by (force simp: acyclic_def)
    then show ?thesis using Hierarchical assms(2) dist by (auto simp: plan_spec_def shape_spec_def pairs)
  qed
qed

section \<open>A compiled plan can be started\<close>

lemma compile_experiment_run:
  assumes "compile_experiment conforms digest digest_of driver ld = Inr (Some plan)"
  obtains drv where "driver = Some drv"
    "distinct (map bp_name (ld_blueprints ld))" "distinct (map cap_name (ld_capabilities ld))"
    "build_resources digest (ld_topology ld) = Inr (Some (dpl_resources plan))"
    "compile_instances conforms drv ld (dpl_resources plan) (map (\<lambda>b. (bp_name b, b)) (ld_blueprints ld))
        (map (\<lambda>c. (cap_name c, c)) (ld_capabilities ld)) = Inr (dpl_agents plan)"
    "coordination (xp_coordination (ld_experiment ld)) (dpl_resources plan) (dpl_agents plan) = Inr (dpl_edges plan)"
    "dpl_mode plan = co_mode (xp_coordination (ld_experiment ld))" "dpl_snapshot plan = plan_snapshot ld"
proof -
  obtain drv where drv: "driver = Some drv" using assms by (cases driver) (auto simp: compile_experiment_def)
  obtain blueprints where b: "unique_by_name bp_name (ld_blueprints ld) = Inr blueprints"
    using assms by (auto simp: compile_experiment_def drv bind_res_Inr_iff)
  obtain capabilities where c: "unique_by_name cap_name (ld_capabilities ld) = Inr capabilities"
    using assms by (auto simp: compile_experiment_def drv bind_res_Inr_iff)
  obtain rs where r: "build_resources digest (ld_topology ld) = Inr (Some rs)"
    using assms by (auto simp: compile_experiment_def drv bind_res_Inr_iff split: option.splits)
  obtain agents where a: "compile_instances conforms drv ld rs blueprints capabilities = Inr agents"
    using assms by (auto simp: compile_experiment_def drv b c r bind_res_Inr_iff)
  obtain edges where e: "coordination (xp_coordination (ld_experiment ld)) rs agents = Inr edges"
    using assms by (auto simp: compile_experiment_def drv b c r a bind_res_Inr_iff)
  have plan: "dpl_resources plan = rs" "dpl_agents plan = agents" "dpl_edges plan = edges"
      "dpl_mode plan = co_mode (xp_coordination (ld_experiment ld))" "dpl_snapshot plan = plan_snapshot ld"
    using assms by (auto simp: compile_experiment_def drv b c r a e bind_res_Inr_iff)
  show thesis
    using that drv unique_by_name_result [OF b] unique_by_name_result [OF c] r a e plan by simp
qed

text \<open>The end of a link is always found, so listing the neighbours does not fail.\<close>

lemma neighbors_found:
  assumes "build_resources digest tp = Inr (Some rs)"
  shows "\<exists>ns. neighbors rs = Inr ns"
proof -
  obtain ids al links where rs: "rs = sort_resources (plan_resources tp ids al links)"
    and links: "list_all2 (link_ok al) (tp_links tp) links"
    and adapter: "\<And>m a. map_of al m = Some a \<Longrightarrow> ad_name a = m
       \<and> (\<exists>n\<in>set (tp_resources tp). nd_name n = ad_owner a
            \<and> (if ad_role a = HostInterface then is_host n else is_switch n))"
    by (rule build_resources_run [OF assms]) (rule that)
  have found: "\<exists>n. end_node rs name = Inr n" if e: "end_ok al e name" for e name
  proof -
    obtain a where a: "map_of al name = Some a" using e by (auto simp: end_ok_def)
    then have mem: "PortResource (port_of a) \<in> set rs"
      unfolding rs res_name_sorted plan_resources_mem by (blast dest: map_of_SomeD)
    have "res_name (PortResource (port_of a)) = name" using adapter [OF a] by (simp add: port_of_def)
    with mem have "name \<in> res_name ` set rs" by force
    then have "map_of (map (\<lambda>r. (res_name r, r)) (rev rs)) name \<noteq> None"
      by (simp add: map_of_eq_None_iff image_image del: not_None_eq)
    then show ?thesis by (auto simp: end_node_def)
  qed
  have each: "\<exists>x. bind_res (end_node rs (fst (pk_endpoints l))) (\<lambda>a.
                  bind_res (end_node rs (snd (pk_endpoints l))) (\<lambda>b. Inr (a, b))) = Inr x"
    if "l \<in> set (links_of rs)" for l
  proof -
    have "LinkResource l \<in> set rs"
      using that by (auto simp: links_of_def map_filter_def split: planned_resource.splits)
    then have "l \<in> set links" by (simp add: rs res_name_sorted plan_resources_mem)
    then obtain k where "link_ok al k l" using list_all2_set2 [OF links] by blast
    then show ?thesis using found unfolding link_ok_def by (fastforce simp: bind_res_Inr_iff)
  qed
  then show ?thesis unfolding neighbors_def map_res_returns_iff by blast
qed

text \<open>What the compiler leaves to the catalog: the blueprints and capabilities of its agents.\<close>

lemma compiled_agents_resolve:
  assumes "compile_instances conforms drv ld rs (map (\<lambda>b. (bp_name b, b)) bs) (map (\<lambda>c. (cap_name c, c)) cs) = Inr as"
  shows "distinct (map ca_id as) \<and> ai_blueprint ` ca_instance ` set as \<subseteq> bp_name ` set bs
    \<and> (\<forall>a\<in>set as. set (ai_capabilities (ca_instance a)) \<subseteq> cap_name ` set cs)"
proof -
  note ok = compile_instances_ok [OF assms]
  have "set (ai_capabilities (ca_instance a)) \<subseteq> cap_name ` set cs" if a: "a \<in> set as" for a
  proof
    fix n assume n: "n \<in> set (ai_capabilities (ca_instance a))"
    have "caps_allow drv (map (\<lambda>c. (cap_name c, c)) cs) (ca_instance a)"
      using ok a unfolding agents_ok_def agent_ok_def by blast
    then obtain c where "map_of (map (\<lambda>c. (cap_name c, c)) cs) n = Some c"
      using n unfolding caps_allow_def Let_def by blast
    then have "(n, c) \<in> set (map (\<lambda>c. (cap_name c, c)) cs)" by (rule map_of_SomeD)
    then show "n \<in> cap_name ` set cs" by auto
  qed
  moreover have "ai_blueprint (ca_instance a) \<in> bp_name ` set bs" if a: "a \<in> set as" for a
  proof -
    obtain b where "b \<in> snd ` set (map (\<lambda>b. (bp_name b, b)) bs)" "bp_name b = ai_blueprint (ca_instance a)"
      using ok a unfolding agents_ok_def agent_ok_def by blast
    then have "b \<in> set bs" "ai_blueprint (ca_instance a) = bp_name b" by auto
    then show ?thesis by blast
  qed
  ultimately show ?thesis using ok unfolding agents_ok_def by blast
qed

lemma snapshot_entries:
  "list_all entry_resolved (sn_blueprints (plan_snapshot ld))"
  "list_all entry_resolved (sn_capabilities (plan_snapshot ld))"
  "bp_name ` set (entries (sn_blueprints (plan_snapshot ld))) = bp_name ` set (ld_blueprints ld)"
  "cap_name ` set (entries (sn_capabilities (plan_snapshot ld))) = cap_name ` set (ld_capabilities ld)"
  "distinct (map bp_name (ld_blueprints ld)) \<Longrightarrow> distinct (map bp_name (entries (sn_blueprints (plan_snapshot ld))))"
  "distinct (map cap_name (ld_capabilities ld)) \<Longrightarrow> distinct (map cap_name (entries (sn_capabilities (plan_snapshot ld))))"
proof -
  have e: "entries (map (\<lambda>x. Resolved (f x)) xs) = map f xs" for f :: "'b \<Rightarrow> 'c" and xs
    by (induction xs) (simp_all add: entries_def)
  have b: "map bp_name (entries (sn_blueprints (plan_snapshot ld))) = map bp_name (sort_key bp_name (ld_blueprints ld))"
    by (simp add: plan_snapshot_def e comp_def)
  have c: "entries (sn_capabilities (plan_snapshot ld)) = sort_key cap_name (ld_capabilities ld)"
    using e [of id] by (simp add: plan_snapshot_def)
  have perm: "distinct (map f (sort_key g xs)) \<longleftrightarrow> distinct (map f xs)"
    for f :: "'d \<Rightarrow> string" and g :: "'d \<Rightarrow> string" and xs
    by (metis mset_map mset_sort mset_eq_imp_distinct_iff)
  show "list_all entry_resolved (sn_blueprints (plan_snapshot ld))"
    "list_all entry_resolved (sn_capabilities (plan_snapshot ld))"
    by (simp_all add: plan_snapshot_def list_all_iff entry_resolved_def)
  show "bp_name ` set (entries (sn_blueprints (plan_snapshot ld))) = bp_name ` set (ld_blueprints ld)"
    using arg_cong [OF b, of set] by simp
  show "cap_name ` set (entries (sn_capabilities (plan_snapshot ld))) = cap_name ` set (ld_capabilities ld)"
    by (simp add: c)
  show "distinct (map bp_name (ld_blueprints ld)) \<Longrightarrow> distinct (map bp_name (entries (sn_blueprints (plan_snapshot ld))))"
    by (simp only: b perm)
  show "distinct (map cap_name (ld_capabilities ld)) \<Longrightarrow> distinct (map cap_name (entries (sn_capabilities (plan_snapshot ld))))"
    by (simp only: c perm)
qed

lemma snapshot_models:
  assumes "list_all (\<lambda>b. \<forall>n. bp_model b \<noteq> Some (ModelReferenced n)) (ld_blueprints ld)"
  shows "\<not> (\<exists>b\<in>set (entries (sn_blueprints (plan_snapshot ld))). \<exists>n. bp_model b = Some (ModelReferenced n))"
  using assms by (auto simp: plan_snapshot_def entries_def list_all_iff)

text \<open>C36. What a compiled plan still has to pass before it can be started. With the model
  configurations resolved, the execution catalog accepts its agents and definitions. The
  coordination graph accepts its agents and edges exactly when the plan is not hierarchical or
  its edges have no cycle: the compiler does not look for cycles, so it returns a cyclic
  hierarchy, and this one the graph refuses.\<close>

theorem compiled_plan_can_be_started:
  assumes "compile_experiment conforms digest digest_of driver ld = Inr (Some plan)"
    and "list_all (\<lambda>b. \<forall>n. bp_model b \<noteq> Some (ModelReferenced n)) (ld_blueprints ld)"
  shows "(\<exists>c. new_catalog (dpl_digest plan) (map ca_instance (dpl_agents plan)) (dpl_policy plan)
            (Some (dpl_snapshot plan)) = Inr c)
    \<and> ((\<exists>g. new_graph (dpl_mode plan) (map ca_id (dpl_agents plan)) (dpl_edges plan) = Inr g)
        \<longleftrightarrow> dpl_mode plan \<noteq> Hierarchical \<or> acyclic (edge_pairs (dpl_edges plan)))"
proof -
  obtain drv where names: "distinct (map bp_name (ld_blueprints ld))" "distinct (map cap_name (ld_capabilities ld))"
    and agents: "compile_instances conforms drv ld (dpl_resources plan) (map (\<lambda>b. (bp_name b, b)) (ld_blueprints ld))
        (map (\<lambda>c. (cap_name c, c)) (ld_capabilities ld)) = Inr (dpl_agents plan)"
    and edges: "coordination (xp_coordination (ld_experiment ld)) (dpl_resources plan) (dpl_agents plan)
        = Inr (dpl_edges plan)"
    and mode: "dpl_mode plan = co_mode (xp_coordination (ld_experiment ld))" and sn: "dpl_snapshot plan = plan_snapshot ld"
    by (rule compile_experiment_run [OF assms(1)]) (rule that)
  note res = compiled_agents_resolve [OF agents]
  have "distinct (map ai_id (map ca_instance (dpl_agents plan)))"
  proof -
    have "map ai_id (map ca_instance (dpl_agents plan)) = map ca_id (dpl_agents plan)"
      by (simp add: ca_id_def)
    with res show ?thesis by (simp only:)
  qed
  then have "\<exists>c. new_catalog (dpl_digest plan) (map ca_instance (dpl_agents plan)) (dpl_policy plan)
            (Some (dpl_snapshot plan)) = Inr c"
    unfolding new_catalog_returns_iff sn
    using res snapshot_entries [of ld] names snapshot_models [OF assms(2)]
    by (intro exI [of _ "plan_snapshot ld"] conjI) auto
  moreover have "(\<exists>g. new_graph (dpl_mode plan) (map ca_id (dpl_agents plan)) (dpl_edges plan) = Inr g)
        \<longleftrightarrow> dpl_mode plan \<noteq> Hierarchical \<or> acyclic (edge_pairs (dpl_edges plan))"
    unfolding new_graph_iff_spec mode using coordination_accepted [OF edges] res by blast
  ultimately show ?thesis by blast
qed

section \<open>A small experiment\<close>

text \<open>Two networks, a guard on each, peers of one another.\<close>

definition small_capability :: capability where
  "small_capability = sample_capability\<lparr>cap_targets := [NetworkKind], cap_layers := [''management'']\<rparr>"

definition small_deployment :: deployment where
  "small_deployment = sample_deployment\<lparr>ag_placement :=
     sample_placement\<lparr>pl_layer := ManagementLayer, pl_kind := NetworkKind, pl_labels := []\<rparr>\<rparr>"

definition small_manifest :: substrate_manifest where
  "small_manifest = \<lparr>mf_name = ''small'', mf_kinds = [NetworkKind],
     mf_layers = [(ManagementLayer, \<lparr>lsu_targets = [NetworkKind], lsu_runtimes = [''process''],
        lsu_observations = [''link'']\<rparr>)], mf_custom = []\<rparr>"

definition small_loaded :: loaded where
  "small_loaded = sample_loaded
     \<lparr>ld_experiment := (ld_experiment sample_loaded)\<lparr>xp_agents := [small_deployment]\<rparr>,
      ld_topology := sample_topology\<lparr>tp_resources := [sample_node ''n2'' NetworkBody, sample_node ''n1'' NetworkBody],
        tp_links := []\<rparr>,
      ld_capabilities := [small_capability]\<rparr>"

definition small_resource :: "string \<Rightarrow> planned_resource" where
  "small_resource n = NodeResource (planned_node_of [] (sample_node n NetworkBody))"

lemma small_resource_simps [simp]:
  "res_name (small_resource n) = n" "res_kind (small_resource n) = NetworkKind"
  by (simp_all add: small_resource_def planned_node_of_def planned_body_of_def sample_node_def)

lemma small_built:
  "build_resources (\<lambda>_. 1) (ld_topology small_loaded) = Inr (Some [small_resource ''n1'', small_resource ''n2''])"
proof -
  have "sort_resources [small_resource ''n2'', small_resource ''n1''] = [small_resource ''n1'', small_resource ''n2'']"
    by (simp add: sort_resources_def)
  then show ?thesis
    by (simp add: build_resources_def small_loaded_def sample_loaded_def sample_topology_def declare_name_def
        sample_node_def validate_resource_graph_def given_def parent_table_def map_filter_def
        node_controllers_def declare_adapters_def declare_node_def resolve_links_def allocate_addresses_def
        host_adapters_def allocate_ips_def allocate_macs_def allocate_dpids_def switches_of_def
        small_resource_def [unfolded sample_node_def])
qed

lemma small_groups:
  "select_targets small_deployment [small_resource ''n1'', small_resource ''n2'']
    = Inr [small_resource ''n1'', small_resource ''n2'']"
  "target_groups small_deployment [small_resource ''n1'', small_resource ''n2'']
    = Inr [(''guards@n1'', [small_resource ''n1'']), (''guards@n2'', [small_resource ''n2''])]"
  by (simp_all add: select_targets_def target_groups_def small_deployment_def sample_deployment_def
      sample_placement_def)

lemma small_agents:
  "\<exists>a b. fold_res (compile_instance (\<lambda>_ _. True) (manifest_driver small_manifest)
      [small_resource ''n1'', small_resource ''n2''] [(''link.enable'', small_capability)] small_deployment
      sample_blueprint None [(''guards@n1'', [small_resource ''n1'']), (''guards@n2'', [small_resource ''n2''])])
      [(''guards@n1'', [small_resource ''n1'']), (''guards@n2'', [small_resource ''n2''])] [] = Inr [a, b]
    \<and> ca_id a = ''guards@n1'' \<and> ca_id b = ''guards@n2''"
  by (simp add: compile_instance_def check_scenario_def small_deployment_def sample_deployment_def
      sample_placement_def manifest_driver_def attachment_issues_def observation_issues_def find_layer_def
      small_manifest_def no_issues_def guard_res_def check_capability_def small_capability_def sample_capability_def
      sample_postcondition_def layer_name_def or_default_def given_def ca_id_def)

lemma small_instances:
  "\<exists>a b. compile_instances (\<lambda>_ _. True) (manifest_driver small_manifest) small_loaded
      [small_resource ''n1'', small_resource ''n2''] [(''guard'', sample_blueprint)]
      [(''link.enable'', small_capability)] = Inr [a, b] \<and> ca_id a = ''guards@n1'' \<and> ca_id b = ''guards@n2''"
proof -
  obtain a b where run: "fold_res (compile_instance (\<lambda>_ _. True) (manifest_driver small_manifest)
      [small_resource ''n1'', small_resource ''n2''] [(''link.enable'', small_capability)] small_deployment
      sample_blueprint None [(''guards@n1'', [small_resource ''n1'']), (''guards@n2'', [small_resource ''n2''])])
      [(''guards@n1'', [small_resource ''n1'']), (''guards@n2'', [small_resource ''n2''])] [] = Inr [a, b]"
    and ids: "ca_id a = ''guards@n1''" "ca_id b = ''guards@n2''"
    using small_agents by blast
  have "check_bounded small_loaded [small_resource ''n1'', small_resource ''n2''] small_deployment sample_blueprint
      = Inr None"
    by (simp add: check_bounded_def is_bounded_def sample_blueprint_def)
  moreover have "check_policies small_deployment = Inr ()"
    by (simp add: check_policies_def small_deployment_def sample_deployment_def guard_res_def)
  moreover have "ag_blueprint small_deployment = ''guard''" "ag_capabilities small_deployment = [''link.enable'']"
      "pl_layer (ag_placement small_deployment) = ManagementLayer"
    by (simp_all add: small_deployment_def sample_deployment_def sample_placement_def)
  ultimately have "compile_deployment (\<lambda>_ _. True) (manifest_driver small_manifest) small_loaded
      [small_resource ''n1'', small_resource ''n2''] [(''guard'', sample_blueprint)]
      [(''link.enable'', small_capability)] small_deployment [] = Inr [a, b]"
    using small_groups run by (simp add: compile_deployment_def del: fold_res.simps)
  moreover have "xp_agents (ld_experiment small_loaded) = [small_deployment]" "ld_scenarios small_loaded = []"
      "rl_instances (xp_limits (ld_experiment small_loaded)) = 8"
    by (simp_all add: small_loaded_def sample_loaded_def)
  moreover have "length (bounded_deployments [(''guard'', sample_blueprint)] [small_deployment]) \<le> 1"
    by (simp add: bounded_deployments_def)
  moreover have "sort_key ca_id [a, b] = [a, b]" by (simp add: ids)
  ultimately show ?thesis using ids by (simp add: compile_instances_def)
qed

lemma small_compiled:
  "\<exists>plan. compile_experiment (\<lambda>_ _. True) (\<lambda>_. 1) (\<lambda>_. ''d'') (Some (manifest_driver small_manifest)) small_loaded
     = Inr (Some plan) \<and> dpl_mode plan = Distributed"
proof -
  obtain a b where ab: "compile_instances (\<lambda>_ _. True) (manifest_driver small_manifest) small_loaded
      [small_resource ''n1'', small_resource ''n2''] [(''guard'', sample_blueprint)]
      [(''link.enable'', small_capability)] = Inr [a, b]"
    using small_instances by blast
  have fields: "unique_by_name bp_name (ld_blueprints small_loaded) = Inr [(''guard'', sample_blueprint)]"
      "unique_by_name cap_name (ld_capabilities small_loaded) = Inr [(''link.enable'', small_capability)]"
    by (simp_all add: small_loaded_def sample_loaded_def unique_by_name_def unique_name_step_def
        sample_blueprint_def small_capability_def sample_capability_def)
  have drv: "no_issues (drv_options (manifest_driver small_manifest)) = Inr ()"
      "no_issues (drv_resources (manifest_driver small_manifest) [small_resource ''n1'', small_resource ''n2'']) = Inr ()"
    by (simp_all add: no_issues_def guard_res_def manifest_driver_def unsupported_resources_def small_manifest_def
        map_filter_def)
  have spec: "xp_coordination (ld_experiment small_loaded) =
      \<lparr>co_mode = Distributed, co_coordinator = None, co_peers = Some PeersAll, co_relationships = []\<rparr>"
    by (simp add: small_loaded_def sample_loaded_def)
  then have "\<exists>es. coordination (xp_coordination (ld_experiment small_loaded))
      [small_resource ''n1'', small_resource ''n2''] [a, b] = Inr es"
    by (simp add: coordination_def distributed_edges_def)
  then show ?thesis
    using spec by (auto simp: compile_experiment_def drv fields small_built [simplified] ab)
qed

theorem compiled_plan_can_be_started_witness:
  "\<exists>plan. compile_experiment (\<lambda>_ _. True) (\<lambda>_. 1) (\<lambda>_. ''d'') (Some (manifest_driver small_manifest)) small_loaded
     = Inr (Some plan)
   \<and> (\<exists>g. new_graph (dpl_mode plan) (map ca_id (dpl_agents plan)) (dpl_edges plan) = Inr g)"
proof -
  obtain plan where plan: "compile_experiment (\<lambda>_ _. True) (\<lambda>_. 1) (\<lambda>_. ''d'')
      (Some (manifest_driver small_manifest)) small_loaded = Inr (Some plan)" "dpl_mode plan = Distributed"
    using small_compiled by blast
  have "list_all (\<lambda>b. \<forall>n. bp_model b \<noteq> Some (ModelReferenced n)) (ld_blueprints small_loaded)"
    by (simp add: small_loaded_def sample_loaded_def sample_blueprint_def)
  from compiled_plan_can_be_started [OF plan(1) this] plan show ?thesis by auto
qed

end
