(* ===== verification/Continuous.thy ===== *)
theory Continuous
  imports Compile Events Supervision Routing
begin

text \<open>
  The continuous runtime (\<open>mininet_ai/runtime/continuous.py\<close>): events from the bus are checked for
  the order of their source, matched with the triggers of the plan's agents, and queued for the
  agent that executes them under its overflow policy; workers take the queued items.

  \<open>continuous\<close> holds the fields of \<open>ContinuousAgentRuntime\<close>. Each stretch under one of its locks is
  one function, and \<open>cr_step\<close> is the interleaving of the dispatcher, the interval threads, the
  workers and the caller. The bus is the one of \<^theory_text>\<open>Events\<close>, the coordination graph the one of
  \<^theory_text>\<open>Graph\<close>. What an invocation returns is other code (\<^theory_text>\<open>Routing\<close>, \<^theory_text>\<open>Supervision\<close>) and comes as an
  argument. Listeners are told each issue and record once; one that raises is not modelled.
\<close>

section \<open>Data\<close>

text \<open>The intent of an item, before it is written out as a text.\<close>

datatype work_intent =
    GivenIntent string
  | IntervalIntent string timestamp
  | EventIntent runtime_event

record work_item =
  wi_event :: runtime_event
  wi_agent :: compiled_agent
  wi_trigger :: string
  wi_intent :: work_intent
  wi_key :: "string \<times> string option"
  wi_tick :: "rat option"

record continuous_issue =
  is_code :: string
  is_event :: "string option"
  is_agent :: "agent_id option"
  is_trigger :: "string option"

record invocation_record =
  ir_event :: string
  ir_agent :: agent_id
  ir_trigger :: string
  ir_result :: invocation_result
  ir_coordination :: "coordination_outcome option"

record counts =
  ct_received :: nat
  ct_matched :: nat
  ct_enqueued :: nat
  ct_coalesced :: nat
  ct_dropped :: nat
  ct_rejected :: nat
  ct_completed :: nat
  ct_failed :: nat

datatype runtime_state = RtCreated | RtRunning | RtStopping | RtStopped

text \<open>What the invoker is: an \<open>AgentInvoker\<close>, a \<open>Coordinator\<close>, a \<open>BudgetedCoordinator\<close>.\<close>

datatype invoker_kind = PlainInvoker | PlainCoordinator | BudgetedInvoker

record continuous =
  cr_plan :: deployment_plan
  cr_run_id :: run_id
  cr_kind :: invoker_kind
  cr_graph :: "graph option"
  cr_bus :: "runtime_event bus"
  cr_ticks :: "string \<rightharpoonup> rat"
  cr_queues :: "agent_id \<rightharpoonup> work_item list"
  cr_bounded_active :: "agent_id set"
  cr_free_slots :: int
  cr_free_requests :: int
  cr_active_requests :: int
  cr_queued :: int
  cr_workers_closed :: bool
  cr_drain :: bool
  cr_last_sequences :: "string \<rightharpoonup> int"
  cr_last_triggered :: "agent_id \<times> string \<rightharpoonup> timestamp"
  cr_state :: runtime_state
  cr_counts :: counts
  cr_invocations :: "invocation_record list"
  cr_issues :: "continuous_issue list"

datatype continuous_error =
    RunIdEmpty
  | QueueLimitExceeded
  | GraphRaised graph_error
  | BusRaised bus_error
  | RuntimeLifecycle
  | RuntimeNotRunning
  | EventRunMismatch
  | StopTimeoutNotPositive
  | RequestsActive
  | NoSuchKey
  | RootMissing

fun continuous_code :: "continuous_error \<Rightarrow> string option" where
  "continuous_code QueueLimitExceeded = Some ''runtime.queue.limit-exceeded''"
| "continuous_code RuntimeLifecycle = Some ''runtime.lifecycle.invalid''"
| "continuous_code RuntimeNotRunning = Some ''runtime.lifecycle.not-running''"
| "continuous_code EventRunMismatch = Some ''runtime.event.run-mismatch''"
| "continuous_code RequestsActive = Some ''runtime.stop.timeout''"
| "continuous_code RootMissing = Some ''runtime.coordination.root-missing''"
| "continuous_code (BusRaised e) = bus_code e"
| "continuous_code _ = None"

section \<open>Construction and life cycle\<close>

definition no_counts :: counts where
  "no_counts = \<lparr>ct_received = 0, ct_matched = 0, ct_enqueued = 0, ct_coalesced = 0, ct_dropped = 0,
     ct_rejected = 0, ct_completed = 0, ct_failed = 0\<rparr>"

definition plan_agents :: "continuous \<Rightarrow> agent_id \<rightharpoonup> compiled_agent" where
  "plan_agents rt = map_of (rev (map (\<lambda>a. (ca_id a, a)) (dpl_agents (cr_plan rt))))"

definition request_capacity :: "deployment_plan \<Rightarrow> int" where
  "request_capacity plan = rl_queued (dpl_limits plan) + rl_invocations (dpl_limits plan)"

text \<open>\<open>given_bus\<close> is the \<open>event_bus\<close> argument.\<close>

definition new_continuous ::
  "deployment_plan \<Rightarrow> run_id \<Rightarrow> invoker_kind \<Rightarrow> runtime_event bus option \<Rightarrow> continuous_error + continuous" where
  "new_continuous plan run kind given_bus =
     (if run = [] then Inl RunIdEmpty
      else bind_res
        (case given_bus of
           Some b \<Rightarrow> Inr b
         | None \<Rightarrow>
             (case new_bus (rl_queued (dpl_limits plan)) None of Inl e \<Rightarrow> Inl (BusRaised e) | Inr b \<Rightarrow> Inr b))
        (\<lambda>b.
          if rl_queued (dpl_limits plan) < int (bus_capacity b) then Inl QueueLimitExceeded
          else bind_res
            (if kind = PlainInvoker then Inr None
             else (case new_graph (dpl_mode plan) (map ca_id (dpl_agents plan)) (dpl_edges plan) of
                     Inl e \<Rightarrow> Inl (GraphRaised e) | Inr g \<Rightarrow> Inr (Some g)))
            (\<lambda>g. Inr
              \<lparr>cr_plan = plan, cr_run_id = run, cr_kind = kind, cr_graph = g, cr_bus = b,
               cr_ticks = (\<lambda>_. None),
               cr_queues = (\<lambda>a. if a \<in> ca_id ` set (dpl_agents plan) then Some [] else None),
               cr_bounded_active = {}, cr_free_slots = rl_invocations (dpl_limits plan),
               cr_free_requests = request_capacity plan,
               cr_active_requests = 0, cr_queued = 0, cr_workers_closed = False, cr_drain = True,
               cr_last_sequences = (\<lambda>_. None), cr_last_triggered = (\<lambda>_. None),
               cr_state = RtCreated, cr_counts = no_counts, cr_invocations = [], cr_issues = []\<rparr>)))"

definition start_runtime :: "continuous \<Rightarrow> continuous_error + continuous" where
  "start_runtime rt =
     (if cr_state rt \<noteq> RtCreated then Inl RuntimeLifecycle else Inr (rt\<lparr>cr_state := RtRunning\<rparr>))"

text \<open>The workers \<open>start\<close> makes for an agent.\<close>

definition worker_count :: "invoker_kind \<Rightarrow> compiled_agent \<Rightarrow> int" where
  "worker_count kind a =
     (if kind = BudgetedInvoker then 1 else ec_max_concurrency (ai_execution (ca_instance a)))"

definition require_running :: "continuous \<Rightarrow> continuous_error + unit" where
  "require_running rt = guard_res (cr_state rt = RtRunning) RuntimeNotRunning"

definition publish_event :: "runtime_event \<Rightarrow> continuous \<Rightarrow> continuous_error + continuous" where
  "publish_event e rt =
     (if cr_state rt \<noteq> RtRunning then Inl RuntimeNotRunning
      else if ev_run_id e \<noteq> cr_run_id rt then Inl EventRunMismatch
      else (case bus_publish e (cr_bus rt) of
              Inl x \<Rightarrow> Inl (BusRaised x)
            | Inr b \<Rightarrow> Inr (rt\<lparr>cr_bus := b\<rparr>)))"

text \<open>\<open>stop\<close> up to the first wait, the closing of the bus, and its end after the threads are joined.\<close>

definition stop_begin :: "bool \<Rightarrow> rat \<Rightarrow> continuous \<Rightarrow> continuous_error + continuous" where
  "stop_begin drain timeout rt =
     (if timeout \<le> 0 then Inl StopTimeoutNotPositive
      else if cr_state rt = RtStopped then Inr rt
      else if cr_state rt = RtCreated then Inl RuntimeLifecycle
      else if cr_state rt = RtRunning then Inr (rt\<lparr>cr_state := RtStopping, cr_drain := drain\<rparr>)
      else Inr rt)"

definition stop_bus :: "continuous \<Rightarrow> continuous" where
  "stop_bus rt = rt\<lparr>cr_bus := bus_close (cr_bus rt)\<rparr>"

definition stop_end :: "continuous \<Rightarrow> continuous_error + continuous" where
  "stop_end rt =
     (if cr_active_requests rt \<noteq> 0 then Inl RequestsActive else Inr (rt\<lparr>cr_state := RtStopped\<rparr>))"

section \<open>Issues and counters\<close>

definition count_up :: "(counts \<Rightarrow> counts) \<Rightarrow> continuous \<Rightarrow> continuous" where
  "count_up f rt = rt\<lparr>cr_counts := f (cr_counts rt)\<rparr>"

definition put_issue ::
  "string \<Rightarrow> runtime_event option \<Rightarrow> agent_id option \<Rightarrow> string option \<Rightarrow> bool \<Rightarrow> bool \<Rightarrow> continuous \<Rightarrow> continuous" where
  "put_issue code e a tr dropped rejected rt =
     rt\<lparr>cr_issues := cr_issues rt @
          [\<lparr>is_code = code, is_event = map_option event_id e, is_agent = a, is_trigger = tr\<rparr>],
        cr_counts := (cr_counts rt)
          \<lparr>ct_dropped := ct_dropped (cr_counts rt) + of_bool dropped,
           ct_rejected := ct_rejected (cr_counts rt) + of_bool rejected\<rparr>\<rparr>"

definition item_issue :: "string \<Rightarrow> work_item \<Rightarrow> bool \<Rightarrow> bool \<Rightarrow> continuous \<Rightarrow> continuous" where
  "item_issue code i dropped rejected =
     put_issue code (Some (wi_event i)) (Some (ca_id (wi_agent i))) (Some (wi_trigger i)) dropped rejected"

section \<open>Interval threads\<close>

text \<open>One round of \<open>_interval\<close>: \<open>id\<close>, \<open>now\<close> and \<open>tick\<close> come from the factory and the clocks.\<close>

definition interval_event ::
  "run_id \<Rightarrow> agent_id \<Rightarrow> string \<Rightarrow> string \<Rightarrow> timestamp \<Rightarrow> int \<Rightarrow> runtime_event" where
  "interval_event run a tr ident now seq =
     \<lparr>event_id = ident, ev_run_id = run, ev_type = ''trigger.interval.elapsed'',
      ev_source = ''interval:'' @ a @ '':'' @ tr, ev_subject = Some a, occurred_at = now, observed_at = now,
      ev_sequence = seq, ev_correlation_id = None, ev_causation_id = None,
      ev_payload = IntervalElapsed a tr now\<rparr>"

definition interval_round ::
  "agent_id \<Rightarrow> string \<Rightarrow> string \<Rightarrow> timestamp \<Rightarrow> rat \<Rightarrow> int \<Rightarrow> continuous \<Rightarrow> continuous" where
  "interval_round a tr ident now tick seq rt =
     (let e = interval_event (cr_run_id rt) a tr ident now seq;
          rt = rt\<lparr>cr_ticks := (cr_ticks rt)(ident \<mapsto> tick)\<rparr> in
      case publish_event e rt of
        Inl _ \<Rightarrow> put_issue ''runtime.interval.publish-failed'' (Some e) (Some a) (Some tr) False True rt
      | Inr rt' \<Rightarrow> rt')"

section \<open>Matching\<close>

text \<open>\<open>payload_as\<close> for the two payloads the runtime reads; \<open>None\<close> is a validation error.\<close>

fun manual_payload :: "event_payload \<Rightarrow> (agent_id \<times> string) option" where
  "manual_payload (ManualIntent a i) = (if a = [] \<or> i = [] then None else Some (a, i))"
| "manual_payload _ = None"

fun interval_payload :: "event_payload \<Rightarrow> (agent_id \<times> string \<times> timestamp) option" where
  "interval_payload (IntervalElapsed a tr t) = (if a = [] \<or> tr = [] then None else Some (a, tr, t))"
| "interval_payload _ = None"

definition is_manual :: "trigger \<Rightarrow> bool" where
  "is_manual t = (case t of ManualTrigger _ \<Rightarrow> True | _ \<Rightarrow> False)"

definition is_interval :: "string \<Rightarrow> trigger \<Rightarrow> bool" where
  "is_interval n t = (case t of IntervalTrigger m _ _ \<Rightarrow> m = n | _ \<Rightarrow> False)"

definition item_for :: "runtime_event \<Rightarrow> compiled_agent \<Rightarrow> trigger \<Rightarrow> work_intent \<Rightarrow> rat option \<Rightarrow> work_item" where
  "item_for e a t intent tick =
     \<lparr>wi_event = e, wi_agent = a, wi_trigger = trigger_name t, wi_intent = intent,
      wi_key = (trigger_name t, ev_subject e), wi_tick = tick\<rparr>"

text \<open>The conditions on an event trigger other than its cooldown.\<close>

definition trigger_fires :: "runtime_event \<Rightarrow> compiled_agent \<Rightarrow> trigger \<Rightarrow> bool" where
  "trigger_fires e a t =
     (case t of
        EventTrigger n event src subj cooldown \<Rightarrow>
          event = ev_type e
          \<and> (src = None \<or> src = Some (ev_source e))
          \<and> (subj = None \<or> subj = ev_subject e)
          \<and> (subj = None \<longrightarrow>
               (case ev_subject e of
                  None \<Rightarrow> True
                | Some s \<Rightarrow> s \<in> {ca_id a, ai_deployment (ca_instance a)} \<union> set (at_targets (ai_attachment (ca_instance a)))))
      | _ \<Rightarrow> False)"

definition trigger_cooldown :: "trigger \<Rightarrow> rat" where
  "trigger_cooldown t =
     (case t of EventTrigger _ _ _ _ c \<Rightarrow> (case duration_seconds c of Some s \<Rightarrow> s | None \<Rightarrow> 0) | _ \<Rightarrow> 0)"

definition cooling :: "continuous \<Rightarrow> runtime_event \<Rightarrow> compiled_agent \<Rightarrow> trigger \<Rightarrow> bool" where
  "cooling rt e a t =
     (case cr_last_triggered rt (ca_id a, trigger_name t) of
        None \<Rightarrow> False
      | Some l \<Rightarrow> rat_of_int (observed_at e - l) / 1000000 < trigger_cooldown t)"

definition fired :: "continuous \<Rightarrow> runtime_event \<Rightarrow> (compiled_agent \<times> trigger) list" where
  "fired rt e =
     concat (map (\<lambda>a. map (Pair a) (filter (trigger_fires e a) (ai_triggers (ca_instance a))))
       (dpl_agents (cr_plan rt)))"

text \<open>
  \<open>_matches\<close>: the items and the agents and triggers still cooling down; \<open>None\<close> is the
  validation error of the payload or the unknown agent of a payload.
\<close>

definition event_matches ::
  "continuous \<Rightarrow> runtime_event \<Rightarrow> (work_item list \<times> (compiled_agent \<times> trigger) list) option" where
  "event_matches rt e =
     (if ev_type e = ''intent.manual'' then
        (case manual_payload (ev_payload e) of
           None \<Rightarrow> None
         | Some (a, intent) \<Rightarrow>
             (case plan_agents rt a of
                None \<Rightarrow> None
              | Some ag \<Rightarrow>
                  (case List.find is_manual (ai_triggers (ca_instance ag)) of
                     None \<Rightarrow> Some ([], [])
                   | Some t \<Rightarrow> Some ([item_for e ag t (GivenIntent intent) (cr_ticks rt (event_id e))], []))))
      else if ev_type e = ''trigger.interval.elapsed'' then
        (case interval_payload (ev_payload e) of
           None \<Rightarrow> None
         | Some (a, n, scheduled) \<Rightarrow>
             (case plan_agents rt a of
                None \<Rightarrow> None
              | Some ag \<Rightarrow>
                  (case List.find (is_interval n) (ai_triggers (ca_instance ag)) of
                     None \<Rightarrow> Some ([], [])
                   | Some t \<Rightarrow>
                       Some ([item_for e ag t (IntervalIntent n scheduled) (cr_ticks rt (event_id e))], []))))
      else Some
        (map (\<lambda>(a, t). item_for e a t (EventIntent e) None)
           (filter (\<lambda>(a, t). \<not> cooling rt e a t) (fired rt e)),
         filter (\<lambda>(a, t). cooling rt e a t) (fired rt e)))"

text \<open>
  \<open>_dispatch\<close> up to its loop over the matches: the order of the source, the matches, their
  count. The items are what the loop goes on with.
\<close>

definition accept_event :: "runtime_event \<Rightarrow> continuous \<Rightarrow> work_item list \<times> continuous" where
  "accept_event e rt0 =
     (let rt = count_up (\<lambda>c. c\<lparr>ct_received := ct_received c + 1\<rparr>) rt0 in
      if (case cr_last_sequences rt (ev_source e) of None \<Rightarrow> False | Some p \<Rightarrow> ev_sequence e \<le> p)
      then ([], put_issue ''runtime.event.out-of-order'' (Some e) None None False True rt)
      else
        (let rt = rt\<lparr>cr_last_sequences := (cr_last_sequences rt)(ev_source e \<mapsto> ev_sequence e)\<rparr> in
         case event_matches rt e of
           None \<Rightarrow> ([], put_issue ''runtime.event.payload-invalid'' (Some e) None None False True rt)
         | Some (items, cool) \<Rightarrow>
             (items,
              count_up (\<lambda>c. c\<lparr>ct_matched := ct_matched c + length items\<rparr>)
                (fold (\<lambda>(a, t). put_issue ''runtime.trigger.cooldown'' (Some e) (Some (ca_id a))
                                  (Some (trigger_name t)) False False) cool rt))))"

section \<open>Queueing\<close>

definition bounded_tick :: "work_item \<Rightarrow> bool" where
  "bounded_tick i = (wi_tick i \<noteq> None \<and> ca_scenario (wi_agent i) \<noteq> None)"

definition execution_agent :: "continuous \<Rightarrow> agent_id \<Rightarrow> continuous_error + agent_id" where
  "execution_agent rt a =
     (case cr_graph rt of
        None \<Rightarrow> Inr a
      | Some g \<Rightarrow> (case entry_agent g a of Inl e \<Rightarrow> Inl (GraphRaised e) | Inr x \<Rightarrow> Inr x))"

text \<open>The first queued item with the same key is replaced where it stands.\<close>

fun replace_key :: "work_item \<Rightarrow> work_item list \<Rightarrow> work_item list option" where
  "replace_key i [] = None"
| "replace_key i (q # qs) = (if wi_key q = wi_key i then Some (i # qs) else map_option ((#) q) (replace_key i qs))"

definition triggered :: "work_item \<Rightarrow> continuous \<Rightarrow> continuous" where
  "triggered i rt =
     rt\<lparr>cr_last_triggered :=
          (cr_last_triggered rt)((ca_id (wi_agent i), wi_trigger i) \<mapsto> observed_at (wi_event i))\<rparr>"

definition set_queue :: "agent_id \<Rightarrow> work_item list \<Rightarrow> int \<Rightarrow> continuous \<Rightarrow> continuous" where
  "set_queue x q d rt = rt\<lparr>cr_queues := (cr_queues rt)(x \<mapsto> q), cr_queued := cr_queued rt + d\<rparr>"

text \<open>What \<open>_enqueue\<close> did with its item.\<close>

datatype enqueued = TickDropped | Replaced | Appended | OldestDropped | QueueFull

definition append_item :: "agent_id \<Rightarrow> work_item list \<Rightarrow> work_item \<Rightarrow> continuous \<Rightarrow> continuous" where
  "append_item x q i rt =
     count_up (\<lambda>c. c\<lparr>ct_enqueued := ct_enqueued c + 1\<rparr>) (triggered i (set_queue x (q @ [i]) 1 rt))"

definition count_coalesced :: "continuous \<Rightarrow> continuous" where
  "count_coalesced = count_up (\<lambda>c. c\<lparr>ct_coalesced := ct_coalesced c + 1\<rparr>)"

definition enqueue_at :: "agent_id \<Rightarrow> execution_configuration \<Rightarrow> work_item list \<Rightarrow> work_item \<Rightarrow> continuous \<Rightarrow> enqueued \<times> continuous" where
  "enqueue_at x ec q i rt =
     (if bounded_tick i \<and> (x \<in> cr_bounded_active rt \<or> q \<noteq> []) then
        (TickDropped, item_issue ''runtime.bounded-decision.tick-coalesced'' i True False (count_coalesced rt))
      else
        case (if ec_overflow ec = Coalesce then replace_key i q else None) of
          Some q' \<Rightarrow> (Replaced, triggered i (count_coalesced (set_queue x q' 0 rt)))
        | None \<Rightarrow>
            if ec_queue_capacity ec \<le> int (length q) \<or> rl_queued (dpl_limits (cr_plan rt)) \<le> cr_queued rt then
              (if ec_overflow ec = DropOldest \<and> q \<noteq> [] then
                 (OldestDropped, append_item x (tl q) i
                    (item_issue ''runtime.queue.drop-oldest'' (hd q) True False (set_queue x (tl q) (- 1) rt)))
               else (QueueFull, item_issue ''runtime.queue.full'' i False True rt))
            else (Appended, append_item x q i rt))"

definition enqueue :: "work_item \<Rightarrow> continuous \<Rightarrow> continuous_error + enqueued \<times> continuous" where
  "enqueue i rt =
     bind_res (execution_agent rt (ca_id (wi_agent i))) (\<lambda>x.
       (case (plan_agents rt x, cr_queues rt x) of
          (Some ag, Some q) \<Rightarrow> Inr (enqueue_at x (ai_execution (ca_instance ag)) q i rt)
        | _ \<Rightarrow> Inl NoSuchKey))"

section \<open>The dispatcher\<close>

text \<open>One event with nothing else running in between: \<open>_dispatch\<close>.\<close>

definition dispatch :: "runtime_event \<Rightarrow> continuous \<Rightarrow> continuous_error + continuous" where
  "dispatch e rt =
     (let (items, rt) = accept_event e rt in
      fold_res (\<lambda>i rt. bind_res (enqueue i rt) (\<lambda>(_, rt). Inr rt)) items rt)"

text \<open>An event received while a stop discards the rest.\<close>

definition drop_event :: "runtime_event \<Rightarrow> continuous \<Rightarrow> continuous" where
  "drop_event e = put_issue ''runtime.queue.dropped-on-stop'' (Some e) None None True False"

text \<open>The end of \<open>_dispatch_loop\<close>.\<close>

definition drop_queue :: "agent_id \<Rightarrow> continuous \<Rightarrow> continuous" where
  "drop_queue x rt =
     (let q = (case cr_queues rt x of None \<Rightarrow> [] | Some q \<Rightarrow> q) in
      fold (\<lambda>i. item_issue ''runtime.queue.dropped-on-stop'' i True False) q
        (set_queue x [] (- int (length q)) rt))"

definition close_workers :: "continuous \<Rightarrow> continuous" where
  "close_workers rt =
     (let rt = (if cr_drain rt then rt else fold drop_queue (remdups (map ca_id (dpl_agents (cr_plan rt)))) rt)
      in rt\<lparr>cr_workers_closed := True\<rparr>)"

section \<open>Workers\<close>

text \<open>
  The pop of a worker; \<open>mark\<close> is False on the path of a coordinated worker whose agent does
  not run, which takes the item only to have it refused.
\<close>

definition take_item :: "bool \<Rightarrow> agent_id \<Rightarrow> continuous \<Rightarrow> (work_item \<times> continuous) option" where
  "take_item mark x rt =
     (case cr_queues rt x of
        Some (i # q) \<Rightarrow>
          (let rt = set_queue x q (- 1) rt in
           Some (i, if mark \<and> bounded_tick i
                    then rt\<lparr>cr_bounded_active := insert x (cr_bounded_active rt)\<rparr> else rt))
      | _ \<Rightarrow> None)"

text \<open>The request slots of a coordinated worker.\<close>

definition acquire_request :: "continuous \<Rightarrow> continuous option" where
  "acquire_request rt =
     (if cr_free_requests rt \<le> 0 then None else Some (rt\<lparr>cr_free_requests := cr_free_requests rt - 1\<rparr>))"

definition release_request :: "continuous \<Rightarrow> continuous" where
  "release_request rt = rt\<lparr>cr_free_requests := cr_free_requests rt + 1\<rparr>"

definition begin_request :: "continuous \<Rightarrow> continuous" where
  "begin_request rt = rt\<lparr>cr_active_requests := cr_active_requests rt + 1\<rparr>"

definition finish_item :: "agent_id \<Rightarrow> work_item \<Rightarrow> continuous \<Rightarrow> continuous" where
  "finish_item x i rt =
     (if bounded_tick i then rt\<lparr>cr_bounded_active := cr_bounded_active rt - {x}\<rparr> else rt)"

definition end_request :: "continuous \<Rightarrow> continuous" where
  "end_request rt =
     (release_request rt)\<lparr>cr_active_requests := cr_active_requests rt - 1\<rparr>"

section \<open>Invocations\<close>

text \<open>The request an item becomes; \<open>text_of\<close> writes an intent out.\<close>

definition deadline_of :: "work_item \<Rightarrow> rat option" where
  "deadline_of i =
     (if \<not> bounded_tick i then None
      else case ca_scenario (wi_agent i) of
          None \<Rightarrow> None
        | Some sc \<Rightarrow>
            (case map_of (sc_timing sc) ''decisionDeadline'' of
               Some (JStr d) \<Rightarrow> duration_seconds d
             | _ \<Rightarrow> None))"

definition request_of :: "(work_intent \<Rightarrow> string) \<Rightarrow> run_id \<Rightarrow> work_item \<Rightarrow> coordination_request" where
  "request_of text_of run i =
     \<lparr>rq_run_id = run, rq_agent_id = ca_id (wi_agent i), rq_intent = text_of (wi_intent i),
      rq_correlation_id =
        (case ev_correlation_id (wi_event i) of
           None \<Rightarrow> event_id (wi_event i)
         | Some c \<Rightarrow> if c = [] then event_id (wi_event i) else c),
      rq_event_id = Some (event_id (wi_event i)),
      rq_deadline_started = (if bounded_tick i then wi_tick i else None),
      rq_deadline_seconds = deadline_of i\<rparr>"

definition root_result :: "coordination_outcome \<Rightarrow> continuous_error + invocation_result" where
  "root_result out =
     (case out_messages out of
        [] \<Rightarrow> Inl RootMissing
      | m # _ \<Rightarrow>
          (case List.find (\<lambda>iv. message_id (iv_message iv) = message_id m) (out_invocations out) of
             None \<Rightarrow> Inl RootMissing
           | Some iv \<Rightarrow> Inr (iv_result iv)))"

definition replace_result :: "invocation_result \<Rightarrow> coordination_outcome \<Rightarrow> coordination_outcome" where
  "replace_result r out =
     out\<lparr>out_invocations :=
           map (\<lambda>iv. if inv_invocation_id (iv_result iv) = inv_invocation_id r
                     then \<lparr>iv_message = iv_message iv, iv_result = r\<rparr> else iv) (out_invocations out)\<rparr>"

definition detected :: "runtime_event \<Rightarrow> invocation_result \<Rightarrow> invocation_result" where
  "detected e r =
     r\<lparr>inv_timings := (inv_timings r)
         \<lparr>tim_event_detection := Some (max 0 (rat_of_int (observed_at e - occurred_at e) / 1000000))\<rparr>\<rparr>"

text \<open>
  \<open>_process_item\<close> with what the supervised invocation raised or returned: the result and, under
  a coordinator, the outcome.
\<close>

definition process_item ::
  "work_item \<Rightarrow> 'x + invocation_result \<times> coordination_outcome option \<Rightarrow> continuous \<Rightarrow> continuous" where
  "process_item i ended rt =
     (case ended of
        Inl _ \<Rightarrow>
          count_up (\<lambda>c. c\<lparr>ct_failed := ct_failed c + 1\<rparr>) (item_issue ''runtime.invocation.failed'' i False False rt)
      | Inr (r, out) \<Rightarrow>
          (let r = detected (wi_event i) r;
               rt = rt\<lparr>cr_invocations := cr_invocations rt @
                 [\<lparr>ir_event = event_id (wi_event i), ir_agent = ca_id (wi_agent i), ir_trigger = wi_trigger i,
                   ir_result = r, ir_coordination = map_option (replace_result r) out\<rparr>]\<rparr>
           in count_up (\<lambda>c. c\<lparr>ct_completed := ct_completed c + 1,
                              ct_failed := ct_failed c + of_bool (inv_status r \<noteq> InvocationSucceeded)\<rparr>) rt))"

text \<open>The slots around an invocation that goes to a plain agent invoker.\<close>

definition take_slot :: "continuous \<Rightarrow> continuous option" where
  "take_slot rt =
     (if cr_free_slots rt \<le> 0 then None else Some (rt\<lparr>cr_free_slots := cr_free_slots rt - 1\<rparr>))"

definition give_slot :: "continuous \<Rightarrow> continuous" where
  "give_slot rt = rt\<lparr>cr_free_slots := cr_free_slots rt + 1\<rparr>"

section \<open>All threads\<close>

text \<open>
  An item a worker has taken: for which agent, whether as a coordinated request or only to be
  refused, whether an invocation slot is held for it and whether its result is recorded.
\<close>

datatype taken_as = ByWorker | AsRequest | ToRefuse

record running =
  rn_agent :: agent_id
  rn_item :: work_item
  rn_as :: taken_as
  rn_invoking :: bool
  rn_processed :: bool

text \<open>
  The runtime with the items the dispatcher still has to queue, the taken items, and the number of
  coordinated workers that hold a request slot without an item; \<open>sy_accepted\<close> is the history of
  the items that went into a queue.
\<close>

record system =
  sy_rt :: continuous
  sy_pending :: "work_item list"
  sy_running :: "running list"
  sy_holding :: nat
  sy_accepted :: "work_item list"

definition busy :: "system \<Rightarrow> agent_id \<Rightarrow> int" where
  "busy s x = int (length (filter (\<lambda>r. rn_agent r = x) (sy_running s)))"

definition accepts :: "enqueued \<Rightarrow> bool" where
  "accepts w = (w \<in> {Replaced, Appended, OldestDropped})"

definition new_running :: "agent_id \<Rightarrow> work_item \<Rightarrow> taken_as \<Rightarrow> running" where
  "new_running x i how = \<lparr>rn_agent = x, rn_item = i, rn_as = how, rn_invoking = False, rn_processed = False\<rparr>"

inductive cr_step :: "system \<Rightarrow> system \<Rightarrow> bool" where
  cs_start: "start_runtime (sy_rt s) = Inr rt \<Longrightarrow> cr_step s (s\<lparr>sy_rt := rt\<rparr>)"
| cs_publish: "publish_event e (sy_rt s) = Inr rt \<Longrightarrow> cr_step s (s\<lparr>sy_rt := rt\<rparr>)"
| cs_interval: "cr_step s (s\<lparr>sy_rt := interval_round a tr ident now tick seq (sy_rt s)\<rparr>)"
| cs_stop_begin: "stop_begin drain timeout (sy_rt s) = Inr rt \<Longrightarrow> cr_step s (s\<lparr>sy_rt := rt\<rparr>)"
| cs_stop_bus: "cr_state (sy_rt s) = RtStopping \<Longrightarrow> cr_step s (s\<lparr>sy_rt := stop_bus (sy_rt s)\<rparr>)"
| cs_stop_end: "cr_workers_closed (sy_rt s) \<Longrightarrow> stop_end (sy_rt s) = Inr rt \<Longrightarrow> cr_step s (s\<lparr>sy_rt := rt\<rparr>)"
| cs_receive: "sy_pending s = [] \<Longrightarrow> bus_poll (cr_bus (sy_rt s)) = (Some e, b) \<Longrightarrow> cr_drain (sy_rt s)
    \<Longrightarrow> accept_event e ((sy_rt s)\<lparr>cr_bus := b\<rparr>) = (items, rt)
    \<Longrightarrow> cr_step s (s\<lparr>sy_rt := rt, sy_pending := items\<rparr>)"
| cs_discard: "sy_pending s = [] \<Longrightarrow> bus_poll (cr_bus (sy_rt s)) = (Some e, b) \<Longrightarrow> \<not> cr_drain (sy_rt s)
    \<Longrightarrow> cr_step s (s\<lparr>sy_rt := drop_event e ((sy_rt s)\<lparr>cr_bus := b\<rparr>)\<rparr>)"
| cs_enqueue: "sy_pending s = i # is \<Longrightarrow> enqueue i (sy_rt s) = Inr (w, rt)
    \<Longrightarrow> cr_step s (s\<lparr>sy_rt := rt, sy_pending := is,
                      sy_accepted := sy_accepted s @ (if accepts w then [i] else [])\<rparr>)"
| cs_close: "sy_pending s = [] \<Longrightarrow> bus_closed (cr_bus (sy_rt s)) \<Longrightarrow> bus_events (cr_bus (sy_rt s)) = []
    \<Longrightarrow> cr_step s (s\<lparr>sy_rt := close_workers (sy_rt s)\<rparr>)"
| cs_take: "cr_kind (sy_rt s) \<noteq> BudgetedInvoker \<Longrightarrow> plan_agents (sy_rt s) x = Some ag
    \<Longrightarrow> busy s x < worker_count (cr_kind (sy_rt s)) ag \<Longrightarrow> take_item True x (sy_rt s) = Some (i, rt)
    \<Longrightarrow> cr_step s (s\<lparr>sy_rt := rt, sy_running := new_running x i ByWorker # sy_running s\<rparr>)"
| cs_acquire: "cr_kind (sy_rt s) = BudgetedInvoker \<Longrightarrow> cr_drain (sy_rt s) \<or> cr_state (sy_rt s) = RtRunning
    \<Longrightarrow> acquire_request (sy_rt s) = Some rt
    \<Longrightarrow> cr_step s (s\<lparr>sy_rt := rt, sy_holding := sy_holding s + 1\<rparr>)"
| cs_request: "0 < sy_holding s \<Longrightarrow> take_item True x (sy_rt s) = Some (i, rt)
    \<Longrightarrow> cr_step s (s\<lparr>sy_rt := begin_request rt, sy_holding := sy_holding s - 1,
                      sy_running := new_running x i AsRequest # sy_running s\<rparr>)"
| cs_release: "0 < sy_holding s \<Longrightarrow> cr_queues (sy_rt s) x = Some []
    \<Longrightarrow> cr_step s (s\<lparr>sy_rt := release_request (sy_rt s), sy_holding := sy_holding s - 1\<rparr>)"
| cs_refuse: "cr_kind (sy_rt s) = BudgetedInvoker \<Longrightarrow> take_item False x (sy_rt s) = Some (i, rt)
    \<Longrightarrow> cr_step s (s\<lparr>sy_rt := rt, sy_running := new_running x i ToRefuse # sy_running s\<rparr>)"
| cs_slot: "cr_kind (sy_rt s) = PlainInvoker \<Longrightarrow> sy_running s = rs @ r # rs' \<Longrightarrow> \<not> rn_invoking r
    \<Longrightarrow> \<not> rn_processed r \<Longrightarrow> take_slot (sy_rt s) = Some rt
    \<Longrightarrow> cr_step s (s\<lparr>sy_rt := rt, sy_running := rs @ r\<lparr>rn_invoking := True\<rparr> # rs'\<rparr>)"
| cs_slot_back: "sy_running s = rs @ r # rs' \<Longrightarrow> rn_invoking r
    \<Longrightarrow> cr_step s (s\<lparr>sy_rt := give_slot (sy_rt s), sy_running := rs @ r\<lparr>rn_invoking := False\<rparr> # rs'\<rparr>)"
| cs_process: "sy_running s = rs @ r # rs' \<Longrightarrow> \<not> rn_invoking r \<Longrightarrow> \<not> rn_processed r
    \<Longrightarrow> cr_step s (s\<lparr>sy_rt := process_item (rn_item r) (ended :: unit + _) (sy_rt s),
                      sy_running := rs @ r\<lparr>rn_processed := True\<rparr> # rs'\<rparr>)"
| cs_finish: "sy_running s = rs @ r # rs' \<Longrightarrow> rn_processed r \<Longrightarrow> \<not> rn_invoking r
    \<Longrightarrow> cr_step s (s\<lparr>sy_rt :=
          (case rn_as r of
             ByWorker \<Rightarrow> finish_item (rn_agent r) (rn_item r) (sy_rt s)
           | AsRequest \<Rightarrow> end_request (finish_item (rn_agent r) (rn_item r) (sy_rt s))
           | ToRefuse \<Rightarrow> sy_rt s), sy_running := rs @ rs'\<rparr>)"

definition new_system :: "continuous \<Rightarrow> system" where
  "new_system rt = \<lparr>sy_rt = rt, sy_pending = [], sy_running = [], sy_holding = 0, sy_accepted = []\<rparr>"

inductive cr_reachable ::
  "deployment_plan \<Rightarrow> run_id \<Rightarrow> invoker_kind \<Rightarrow> runtime_event bus option \<Rightarrow> system \<Rightarrow> bool"
  for plan run kind given_bus where
  cr_new: "new_continuous plan run kind given_bus = Inr rt \<Longrightarrow> cr_reachable plan run kind given_bus (new_system rt)"
| cr_next: "cr_reachable plan run kind given_bus s \<Longrightarrow> cr_step s t \<Longrightarrow> cr_reachable plan run kind given_bus t"

section \<open>What the operations change\<close>

definition queue_of :: "continuous \<Rightarrow> agent_id \<Rightarrow> work_item list" where
  "queue_of rt x = (case cr_queues rt x of None \<Rightarrow> [] | Some q \<Rightarrow> q)"

definition issues_of :: "string \<Rightarrow> continuous \<Rightarrow> nat" where
  "issues_of code rt = length (filter (\<lambda>i. is_code i = code) (cr_issues rt))"

text \<open>Queued items dropped by a stop, as opposed to events that were not dispatched.\<close>

definition stop_drops :: "continuous_issue list \<Rightarrow> nat" where
  "stop_drops is = length (filter (\<lambda>i. is_code i = ''runtime.queue.dropped-on-stop'' \<and> is_agent i \<noteq> None) is)"

definition issue_of :: "string \<Rightarrow> runtime_event \<Rightarrow> compiled_agent \<times> trigger \<Rightarrow> continuous_issue" where
  "issue_of code e = (\<lambda>(a, t). \<lparr>is_code = code, is_event = Some (event_id e), is_agent = Some (ca_id a),
     is_trigger = Some (trigger_name t)\<rparr>)"

lemma put_cooldowns:
  "fold (\<lambda>(a, t). put_issue code (Some e) (Some (ca_id a)) (Some (trigger_name t)) False False) cool rt
   = rt\<lparr>cr_issues := cr_issues rt @ map (issue_of code e) cool\<rparr>"
proof (induction cool arbitrary: rt)
  case (Cons x cool)
  obtain a t where x: "x = (a, t)" by (cases x)
  have "put_issue code (Some e) (Some (ca_id a)) (Some (trigger_name t)) False False rt
      = rt\<lparr>cr_issues := cr_issues rt @ [issue_of code e (a, t)]\<rparr>"
    by (simp add: put_issue_def issue_of_def)
  then show ?case by (simp add: x Cons.IH)
qed simp

text \<open>
  Accepting an event changes the counts, the sequences and the issues only; the issues it adds
  are of the three codes below, and what it matched it counted.
\<close>

definition accept_issue :: "continuous_issue \<Rightarrow> bool" where
  "accept_issue i = (is_code i \<in> {''runtime.event.out-of-order'', ''runtime.event.payload-invalid'',
     ''runtime.trigger.cooldown''})"

lemma event_matches_agents:
  assumes "event_matches rt e = Some (items, cool)" "i \<in> set items"
  shows "wi_agent i \<in> set (dpl_agents (cr_plan rt))"
proof -
  have known: "ag \<in> set (dpl_agents (cr_plan rt))" if "plan_agents rt a = Some ag" for a ag
    using map_of_SomeD [OF that [unfolded plan_agents_def]] by auto
  show ?thesis
    using assms
    by (auto simp: event_matches_def item_for_def fired_def split: if_splits option.splits) (blast dest: known)+
qed

lemma accept_event_effect:
  assumes "accept_event e rt = (items, rt')"
  shows "\<exists>ls is. rt' = rt\<lparr>cr_counts := (cr_counts rt)
              \<lparr>ct_received := ct_received (cr_counts rt) + 1,
               ct_matched := ct_matched (cr_counts rt) + length items,
               ct_rejected := ct_rejected (cr_counts rt) + length (filter (\<lambda>i. is_code i \<noteq> ''runtime.trigger.cooldown'') is)\<rparr>,
            cr_last_sequences := ls, cr_issues := cr_issues rt @ is\<rparr>
        \<and> list_all accept_issue is"
    and "i \<in> set items \<Longrightarrow> wi_agent i \<in> set (dpl_agents (cr_plan rt))"
proof -
  let ?r = "count_up (\<lambda>c. c\<lparr>ct_received := ct_received c + 1\<rparr>) rt"
  let ?q = "?r\<lparr>cr_last_sequences := (cr_last_sequences ?r)(ev_source e \<mapsto> ev_sequence e)\<rparr>"
  consider (old) "items = []" "rt' = put_issue ''runtime.event.out-of-order'' (Some e) None None False True ?r"
    | (bad) "items = []" "rt' = put_issue ''runtime.event.payload-invalid'' (Some e) None None False True ?q"
    | (good) cool where "event_matches ?q e = Some (items, cool)"
        "rt' = count_up (\<lambda>c. c\<lparr>ct_matched := ct_matched c + length items\<rparr>)
           (?q\<lparr>cr_issues := cr_issues ?q @ map (issue_of ''runtime.trigger.cooldown'' e) cool\<rparr>)"
    using assms by (auto simp: accept_event_def Let_def put_cooldowns split: if_splits option.splits prod.splits)
  then show "\<exists>ls is. rt' = rt\<lparr>cr_counts := (cr_counts rt)
              \<lparr>ct_received := ct_received (cr_counts rt) + 1,
               ct_matched := ct_matched (cr_counts rt) + length items,
               ct_rejected := ct_rejected (cr_counts rt) + length (filter (\<lambda>i. is_code i \<noteq> ''runtime.trigger.cooldown'') is)\<rparr>,
            cr_last_sequences := ls, cr_issues := cr_issues rt @ is\<rparr>
        \<and> list_all accept_issue is"
  proof cases
    case old
    show ?thesis
      by (rule exI [of _ "cr_last_sequences rt"], rule exI [of _ "[\<lparr>is_code = ''runtime.event.out-of-order'',
            is_event = Some (event_id e), is_agent = None, is_trigger = None\<rparr>]"])
        (simp add: old put_issue_def count_up_def accept_issue_def)
  next
    case bad
    show ?thesis
      by (rule exI [of _ "cr_last_sequences ?q"], rule exI [of _ "[\<lparr>is_code = ''runtime.event.payload-invalid'',
            is_event = Some (event_id e), is_agent = None, is_trigger = None\<rparr>]"])
        (simp add: bad put_issue_def count_up_def accept_issue_def)
  next
    case good
    have none: "filter (\<lambda>i. is_code i \<noteq> ''runtime.trigger.cooldown'') (map (issue_of ''runtime.trigger.cooldown'' e) cool) = []"
      by (auto simp: filter_empty_conv issue_of_def)
    show ?thesis
      by (rule exI [of _ "cr_last_sequences ?q"], rule exI [of _ "map (issue_of ''runtime.trigger.cooldown'' e) cool"])
        (simp only: none good, auto simp: count_up_def accept_issue_def list_all_iff issue_of_def)
  qed
  show "wi_agent i \<in> set (dpl_agents (cr_plan rt))" if "i \<in> set items"
    using that assms event_matches_agents [of ?q e]
    by (auto simp: accept_event_def Let_def put_cooldowns count_up_def split: if_splits option.splits prod.splits)
qed

lemmas runtime_moves = start_runtime_def publish_event_def stop_begin_def stop_bus_def stop_end_def
  drop_event_def put_issue_def item_issue_def count_up_def interval_round_def Let_def finish_item_def
  end_request_def release_request_def begin_request_def acquire_request_def take_slot_def
  give_slot_def process_item_def

lemma fold_same:
  assumes "\<And>x s. f (g x s) = f s"
  shows "f (fold g xs s) = f s"
  using assms by (induction xs arbitrary: s) simp_all

section \<open>The agents of the plan\<close>

definition plan_ids :: "deployment_plan \<Rightarrow> agent_id set" where
  "plan_ids plan = ca_id ` set (dpl_agents plan)"

definition graph_fits :: "deployment_plan \<Rightarrow> continuous \<Rightarrow> bool" where
  "graph_fits plan rt \<longleftrightarrow>
     (case cr_graph rt of
        None \<Rightarrow> cr_kind rt = PlainInvoker
      | Some g \<Rightarrow> new_graph (dpl_mode plan) (map ca_id (dpl_agents plan)) (dpl_edges plan) = Inr g)"

definition runtime_of :: "deployment_plan \<Rightarrow> continuous \<Rightarrow> bool" where
  "runtime_of plan rt \<longleftrightarrow> cr_plan rt = plan \<and> graph_fits plan rt \<and> dom (cr_queues rt) = plan_ids plan"

definition pending_known :: "deployment_plan \<Rightarrow> system \<Rightarrow> bool" where
  "pending_known plan s \<longleftrightarrow> (\<forall>i\<in>set (sy_pending s). wi_agent i \<in> set (dpl_agents plan))"

lemma execution_agent_known:
  assumes "graph_fits plan rt" "a \<in> plan_ids plan"
  shows "\<exists>x\<in>plan_ids plan. execution_agent rt a = Inr x"
proof (cases "cr_graph rt")
  case None
  with assms(2) show ?thesis by (simp add: execution_agent_def)
next
  case (Some g)
  with assms(1) have g: "new_graph (dpl_mode plan) (map ca_id (dpl_agents plan)) (dpl_edges plan) = Inr g"
    by (simp add: graph_fits_def)
  have "\<exists>x\<in>plan_ids plan. entry_agent g a = Inr x"
  proof (cases "dpl_mode plan = Centralized")
    case True
    with g have "new_graph Centralized (map ca_id (dpl_agents plan)) (dpl_edges plan) = Inr g" by simp
    from centralized_entry [OF this] assms(2) show ?thesis by (auto simp: plan_ids_def)
  next
    case False
    with new_graph_Inr(2,3) [OF g] assms(2) show ?thesis
      by (auto simp: entry_agent_def require_agent_def plan_ids_def)
  qed
  with Some show ?thesis by (auto simp: execution_agent_def)
qed

lemma plan_agents_known:
  assumes "x \<in> plan_ids (cr_plan rt)"
  shows "\<exists>ag\<in>set (dpl_agents (cr_plan rt)). plan_agents rt x = Some ag \<and> ca_id ag = x"
proof -
  have "plan_agents rt x \<noteq> None"
    using assms by (auto simp: plan_agents_def plan_ids_def map_of_eq_None_iff image_image)
  then obtain ag where "plan_agents rt x = Some ag" by blast
  with map_of_SomeD [OF this [unfolded plan_agents_def]] show ?thesis by auto
qed

text \<open>The queueing of an item of the plan never raises.\<close>

lemma enqueue_runs:
  assumes "runtime_of plan rt" "wi_agent i \<in> set (dpl_agents plan)"
  shows "\<exists>x ag q. x \<in> plan_ids plan \<and> ag \<in> set (dpl_agents plan) \<and> plan_agents rt x = Some ag
    \<and> cr_queues rt x = Some q \<and> enqueue i rt = Inr (enqueue_at x (ai_execution (ca_instance ag)) q i rt)"
proof -
  have p: "cr_plan rt = plan" "graph_fits plan rt" "dom (cr_queues rt) = plan_ids plan"
    using assms(1) by (simp_all add: runtime_of_def)
  have "ca_id (wi_agent i) \<in> plan_ids plan" using assms(2) by (simp add: plan_ids_def)
  from execution_agent_known [OF p(2) this]
  obtain x where x: "x \<in> plan_ids plan" "execution_agent rt (ca_id (wi_agent i)) = Inr x" by blast
  moreover obtain ag where "ag \<in> set (dpl_agents plan)" "plan_agents rt x = Some ag"
    using plan_agents_known [of x rt] x(1) p(1) by auto
  moreover obtain q where "cr_queues rt x = Some q" using x(1) p(3) by blast
  ultimately show ?thesis by (auto simp: enqueue_def)
qed

text \<open>What each outcome of the queueing does.\<close>

lemma enqueue_at_effect:
  assumes "enqueue_at x ec q i rt = (w, rt')"
  shows "w = TickDropped \<Longrightarrow> bounded_tick i \<and> (x \<in> cr_bounded_active rt \<or> q \<noteq> [])
      \<and> rt' = item_issue ''runtime.bounded-decision.tick-coalesced'' i True False (count_coalesced rt)"
    and "w = Replaced \<Longrightarrow> \<exists>q'. replace_key i q = Some q' \<and> rt' = triggered i (count_coalesced (set_queue x q' 0 rt))"
    and "w = Appended \<Longrightarrow> int (length q) < ec_queue_capacity ec \<and> cr_queued rt < rl_queued (dpl_limits (cr_plan rt))
      \<and> rt' = append_item x q i rt"
    and "w = OldestDropped \<Longrightarrow> q \<noteq> [] \<and> rt' = append_item x (tl q) i
        (item_issue ''runtime.queue.drop-oldest'' (hd q) True False (set_queue x (tl q) (- 1) rt))"
    and "w = QueueFull \<Longrightarrow> rt' = item_issue ''runtime.queue.full'' i False True rt"
    and "accepts w \<Longrightarrow> bounded_tick i \<longrightarrow> x \<notin> cr_bounded_active rt \<and> q = []"
  using assms unfolding enqueue_at_def accepts_def
  by (simp_all split: if_split_asm option.split_asm)

section \<open>Reachable runtimes\<close>

text \<open>The fields that only the queueing, the pops of the workers and the end of the dispatcher change.\<close>

definition queue_part :: "continuous \<Rightarrow> (agent_id \<rightharpoonup> work_item list) \<times> int \<times> agent_id set" where
  "queue_part rt = (cr_queues rt, cr_queued rt, cr_bounded_active rt)"

definition frame_part :: "continuous \<Rightarrow> deployment_plan \<times> invoker_kind \<times> graph option" where
  "frame_part rt = (cr_plan rt, cr_kind rt, cr_graph rt)"

lemma frame_moves [simp]:
  "frame_part (put_issue c e a tr d r rt) = frame_part rt"
  "frame_part (item_issue c i d r rt) = frame_part rt"
  "frame_part (count_up f rt) = frame_part rt"
  "frame_part (count_coalesced rt) = frame_part rt"
  "frame_part (triggered i rt) = frame_part rt"
  "frame_part (set_queue x q n rt) = frame_part rt"
  "frame_part (append_item x q i rt) = frame_part rt"
  "frame_part (process_item i ended rt) = frame_part rt"
  "frame_part (finish_item x i rt) = frame_part rt"
  "frame_part (begin_request rt) = frame_part rt"
  "frame_part (end_request rt) = frame_part rt"
  "frame_part (release_request rt) = frame_part rt"
  "frame_part (give_slot rt) = frame_part rt"
  "frame_part (drop_event evt rt) = frame_part rt"
  "frame_part (stop_bus rt) = frame_part rt"
  by (simp_all add: frame_part_def runtime_moves count_coalesced_def triggered_def set_queue_def
      append_item_def split: sum.split)

lemma queue_moves [simp]:
  "queue_part (put_issue c e a tr d r rt) = queue_part rt"
  "queue_part (item_issue c i d r rt) = queue_part rt"
  "queue_part (count_up f rt) = queue_part rt"
  "queue_part (count_coalesced rt) = queue_part rt"
  "queue_part (triggered i rt) = queue_part rt"
  "queue_part (process_item i ended rt) = queue_part rt"
  "queue_part (begin_request rt) = queue_part rt"
  "queue_part (end_request rt) = queue_part rt"
  "queue_part (release_request rt) = queue_part rt"
  "queue_part (give_slot rt) = queue_part rt"
  "queue_part (drop_event evt rt) = queue_part rt"
  "queue_part (stop_bus rt) = queue_part rt"
  by (simp_all add: queue_part_def runtime_moves count_coalesced_def triggered_def split: sum.split)

lemma drop_queue_frame: "frame_part (drop_queue x rt) = frame_part rt"
  by (simp add: drop_queue_def Let_def fold_same [where f = frame_part])

lemma close_workers_frame: "frame_part (close_workers rt) = frame_part rt"
proof -
  have "frame_part (fold drop_queue xs r) = frame_part r" for xs r
    by (rule fold_same) (rule drop_queue_frame)
  then show ?thesis by (simp add: close_workers_def Let_def) (simp add: frame_part_def)
qed

lemma enqueue_at_frame:
  assumes "enqueue_at x ec q i rt = (w, rt')"
  shows "frame_part rt' = frame_part rt"
  using enqueue_at_effect(1-5) [OF assms] by (cases w) auto

lemma take_item_frame: "take_item m x rt = Some (i, rt') \<Longrightarrow> frame_part rt' = frame_part rt"
  by (auto simp: take_item_def frame_part_def set_queue_def Let_def split: option.splits list.splits)

lemma accept_frame:
  assumes "accept_event e rt = (items, rt')"
  shows "frame_part rt' = frame_part rt" and "queue_part rt' = queue_part rt"
  using accept_event_effect(1) [OF assms] by (auto simp: frame_part_def queue_part_def)

lemma enqueue_cases:
  assumes "enqueue i rt = Inr (w, rt')"
  obtains x ag q where "execution_agent rt (ca_id (wi_agent i)) = Inr x" "plan_agents rt x = Some ag"
    "cr_queues rt x = Some q" "enqueue_at x (ai_execution (ca_instance ag)) q i rt = (w, rt')"
  using assms by (force simp: enqueue_def bind_res_Inr_iff split: option.splits)

lemma enqueue_at_of:
  assumes "enqueue i rt = Inr (w, rt')"
  shows "\<exists>x ag q. cr_queues rt x = Some q \<and> plan_agents rt x = Some ag
    \<and> execution_agent rt (ca_id (wi_agent i)) = Inr x
    \<and> enqueue_at x (ai_execution (ca_instance ag)) q i rt = (w, rt')"
  by (rule enqueue_cases [OF assms]) (intro exI conjI)

lemma enqueue_frame:
  assumes "enqueue i rt = Inr (w, rt')"
  shows "frame_part rt' = frame_part rt"
  by (rule enqueue_cases [OF assms]) (rule enqueue_at_frame)

lemma interval_frame:
  "frame_part (interval_round a tr ident now tick seq rt) = frame_part rt"
  "queue_part (interval_round a tr ident now tick seq rt) = queue_part rt"
  by (auto simp: interval_round_def Let_def publish_event_def frame_part_def queue_part_def put_issue_def
      split: sum.splits if_splits)

lemma step_frame: "cr_step s t \<Longrightarrow> frame_part (sy_rt t) = frame_part (sy_rt s)"
proof (induction rule: cr_step.induct)
  case (cs_receive s e b items rt)
  then show ?case by (simp add: accept_frame(1) [OF cs_receive(4)]) (simp add: frame_part_def)
next
  case (cs_discard s e b)
  then show ?case by simp (simp add: frame_part_def)
next
  case (cs_finish s rs r rs')
  then show ?case by (cases "rn_as r") simp_all
qed (auto simp: interval_frame enqueue_frame close_workers_frame take_item_frame,
     auto simp: frame_part_def start_runtime_def publish_event_def stop_begin_def stop_end_def
       acquire_request_def take_slot_def split: if_splits sum.splits)

text \<open>The effect of a step on the queues: none, or one of four operations.\<close>

lemma step_queue_cases:
  assumes "cr_step s t"
  obtains (quiet) "queue_part (sy_rt t) = queue_part (sy_rt s)"
  | (enqueue) i "is" w where "sy_pending s = i # is" "enqueue i (sy_rt s) = Inr (w, sy_rt t)"
  | (take_one) m x i rt where "take_item m x (sy_rt s) = Some (i, rt)" "queue_part (sy_rt t) = queue_part rt"
  | (close) "sy_rt t = close_workers (sy_rt s)"
  | (finish) r where "r \<in> set (sy_running s)"
      "queue_part (sy_rt t) = queue_part (finish_item (rn_agent r) (rn_item r) (sy_rt s))"
  using assms
proof cases
  case (cs_receive e b items rt)
  then have "queue_part rt = queue_part (sy_rt s)"
    by (simp add: accept_frame(2) [OF cs_receive(5)]) (simp add: queue_part_def)
  with cs_receive quiet show ?thesis by simp
next
  case (cs_discard e b)
  with quiet show ?thesis by (simp add: queue_part_def drop_event_def put_issue_def)
next
  case (cs_enqueue i "is" w rt)
  with enqueue show ?thesis by simp
next
  case (cs_close)
  with close show ?thesis by simp
next
  case (cs_take x ag i rt)
  with take_one show ?thesis by simp
next
  case (cs_request x i rt)
  with take_one show ?thesis by simp
next
  case (cs_refuse x i rt)
  with take_one show ?thesis by simp
next
  case (cs_finish rs r rs')
  with finish [of r] quiet show ?thesis by (cases "rn_as r") simp_all
next
  case cs_interval
  with quiet show ?thesis by (simp add: interval_frame)
qed (auto intro!: quiet simp: queue_part_def start_runtime_def publish_event_def stop_begin_def stop_end_def
       acquire_request_def take_slot_def stop_bus_def release_request_def give_slot_def process_item_def
       count_up_def item_issue_def put_issue_def Let_def split: if_splits sum.splits)

lemma take_item_cases:
  assumes "take_item m x rt = Some (i, rt')"
  obtains q where "cr_queues rt x = Some (i # q)"
    "rt' = (if m \<and> bounded_tick i
            then (set_queue x q (- 1) rt)\<lparr>cr_bounded_active := insert x (cr_bounded_active rt)\<rparr>
            else set_queue x q (- 1) rt)"
  using assms that by (auto simp: take_item_def Let_def set_queue_def split: option.splits list.splits)

lemma finish_item_queues [simp]:
  "cr_queues (finish_item x i rt) = cr_queues rt" "cr_queued (finish_item x i rt) = cr_queued rt"
  by (simp_all add: finish_item_def)

lemma queue_part_fields:
  "queue_part rt = queue_part rt' \<longleftrightarrow> cr_queues rt = cr_queues rt' \<and> cr_queued rt = cr_queued rt'
     \<and> cr_bounded_active rt = cr_bounded_active rt'"
  by (auto simp: queue_part_def)

lemma frame_part_fields:
  "frame_part rt = frame_part rt' \<longleftrightarrow> cr_plan rt = cr_plan rt' \<and> cr_kind rt = cr_kind rt' \<and> cr_graph rt = cr_graph rt'"
  by (auto simp: frame_part_def)

subsection \<open>Queues within their limits\<close>

definition queues_within :: "deployment_plan \<Rightarrow> continuous \<Rightarrow> bool" where
  "queues_within plan rt \<longleftrightarrow>
     (\<forall>ag\<in>set (dpl_agents plan).
        int (length (queue_of rt (ca_id ag))) \<le> ec_queue_capacity (ai_execution (ca_instance ag)))
     \<and> cr_queued rt = (\<Sum>x\<in>plan_ids plan. int (length (queue_of rt x)))
     \<and> cr_queued rt \<le> rl_queued (dpl_limits plan)"

lemma finite_plan_ids [simp]: "finite (plan_ids plan)"
  by (simp add: plan_ids_def)

lemma sum_changed:
  fixes f :: "'a \<Rightarrow> int"
  assumes "finite A" "x \<in> A" and "\<And>y. y \<noteq> x \<Longrightarrow> g y = f y"
  shows "sum g A = sum f A + (g x - f x)"
proof -
  have "sum g (A - {x}) = sum f (A - {x})" using assms(3) by (auto intro: sum.cong)
  with sum.remove [OF assms(1,2), of g] sum.remove [OF assms(1,2), of f] show ?thesis by simp
qed

lemma queue_of_set_queue: "queue_of (set_queue x q n rt) y = (if y = x then q else queue_of rt y)"
  by (simp add: queue_of_def set_queue_def)

lemma queues_within_cong:
  "cr_queues rt = cr_queues rt' \<Longrightarrow> cr_queued rt = cr_queued rt' \<Longrightarrow> queues_within plan rt = queues_within plan rt'"
  by (simp add: queues_within_def queue_of_def)

lemma queues_within_set:
  assumes "queues_within plan rt" "x \<in> plan_ids plan" "n = int (length q) - int (length (queue_of rt x))"
    and "cr_queued rt + n \<le> rl_queued (dpl_limits plan)"
    and "\<And>ag. ag \<in> set (dpl_agents plan) \<Longrightarrow> ca_id ag = x
      \<Longrightarrow> int (length q) \<le> ec_queue_capacity (ai_execution (ca_instance ag))"
  shows "queues_within plan (set_queue x q n rt)"
proof -
  have "(\<Sum>y\<in>plan_ids plan. int (length (queue_of (set_queue x q n rt) y)))
      = (\<Sum>y\<in>plan_ids plan. int (length (queue_of rt y))) + n"
    by (subst sum_changed [where x = x and f = "\<lambda>y. int (length (queue_of rt y))"])
      (use assms(2,3) in \<open>simp_all add: queue_of_set_queue\<close>)
  moreover have "cr_queued (set_queue x q n rt) = cr_queued rt + n" by (simp add: set_queue_def)
  ultimately show ?thesis
    using assms(1,4,5) by (auto simp: queues_within_def queue_of_set_queue)
qed

lemma replace_key_length: "replace_key i q = Some q' \<Longrightarrow> length q' = length q"
  by (induction q arbitrary: q') (auto split: if_splits)

lemma queued_within_item:
  "queues_within plan (item_issue c i d r rt) = queues_within plan rt"
  "queues_within plan (count_up f rt) = queues_within plan rt"
  "queues_within plan (triggered i rt) = queues_within plan rt"
  "queues_within plan (count_coalesced rt) = queues_within plan rt"
  by (rule queues_within_cong; simp add: item_issue_def put_issue_def count_up_def triggered_def count_coalesced_def)+

lemma queue_of_item [simp]:
  "queue_of (item_issue c i d r rt) = queue_of rt" "queue_of (count_up f rt) = queue_of rt"
  "queue_of (triggered i rt) = queue_of rt" "queue_of (count_coalesced rt) = queue_of rt"
  by (rule ext, simp add: queue_of_def item_issue_def put_issue_def count_up_def triggered_def count_coalesced_def)+

lemma queued_item [simp]:
  "cr_queued (item_issue c i d r rt) = cr_queued rt" "cr_queued (count_up f rt) = cr_queued rt"
  "cr_queued (triggered i rt) = cr_queued rt" "cr_queued (count_coalesced rt) = cr_queued rt"
  "cr_queued (set_queue x q n rt) = cr_queued rt + n"
  by (simp_all add: item_issue_def put_issue_def count_up_def triggered_def count_coalesced_def set_queue_def)

lemma queues_item [simp]:
  "cr_queues (item_issue c i d r rt) = cr_queues rt" "cr_queues (count_up f rt) = cr_queues rt"
  "cr_queues (triggered i rt) = cr_queues rt" "cr_queues (count_coalesced rt) = cr_queues rt"
  "cr_queues (set_queue x q n rt) = (cr_queues rt)(x \<mapsto> q)"
  "cr_queues (append_item x q i rt) = (cr_queues rt)(x \<mapsto> q @ [i])"
  by (simp_all add: item_issue_def put_issue_def count_up_def triggered_def count_coalesced_def set_queue_def
      append_item_def)

text \<open>What the constructors of the specification guarantee of a plan.\<close>

definition plan_valid :: "deployment_plan \<Rightarrow> bool" where
  "plan_valid plan \<longleftrightarrow>
     distinct (map ca_id (dpl_agents plan)) \<and> 1 \<le> rl_queued (dpl_limits plan) \<and> 1 \<le> rl_invocations (dpl_limits plan)
     \<and> (\<forall>ag\<in>set (dpl_agents plan). 1 \<le> ec_queue_capacity (ai_execution (ca_instance ag))
          \<and> 1 \<le> ec_max_concurrency (ai_execution (ca_instance ag))
          \<and> distinct (map trigger_name (ai_triggers (ca_instance ag))))"

lemma same_agent:
  assumes "plan_valid plan" "a \<in> set (dpl_agents plan)" "b \<in> set (dpl_agents plan)" "ca_id a = ca_id b"
  shows "a = b"
  using assms by (auto simp: plan_valid_def distinct_map dest: inj_onD)

lemma queue_part_append:
  "queues_within plan (append_item x q i rt) = queues_within plan (set_queue x (q @ [i]) 1 rt)"
  by (simp add: append_item_def queued_within_item)

lemma set_queue_twice: "set_queue x q' n (item_issue c i d r (set_queue x q m rt)) =
    item_issue c i d r (set_queue x q' (m + n) rt)"
  by (simp add: set_queue_def item_issue_def put_issue_def)

lemma enqueue_at_within:
  assumes "queues_within plan rt" "runtime_of plan rt" "plan_valid plan"
    and "x \<in> plan_ids plan" "ag \<in> set (dpl_agents plan)" "ca_id ag = x" "cr_queues rt x = Some q"
    and "enqueue_at x (ai_execution (ca_instance ag)) q i rt = (w, rt')"
  shows "queues_within plan rt'"
proof -
  note e = enqueue_at_effect [OF assms(8)]
  have q: "queue_of rt x = q" using assms(7) by (simp add: queue_of_def)
  have cap: "int (length q) \<le> ec_queue_capacity (ai_execution (ca_instance ag))"
    and total: "cr_queued rt \<le> rl_queued (dpl_limits plan)"
    using assms(1,5,6) q by (auto simp: queues_within_def)
  have only: "a = ag" if "a \<in> set (dpl_agents plan)" "ca_id a = x" for a
    using same_agent [OF assms(3) that(1) assms(5)] that(2) assms(6) by simp
  have set: "queues_within plan (set_queue x q' n rt)"
    if "n = int (length q') - int (length q)" "cr_queued rt + n \<le> rl_queued (dpl_limits plan)"
      "int (length q') \<le> ec_queue_capacity (ai_execution (ca_instance ag))" for q' n
    using that by (intro queues_within_set [OF assms(1,4)]) (auto simp: q dest: only)
  show ?thesis
  proof (cases w)
    case TickDropped
    with e(1) assms(1) show ?thesis by (simp add: queued_within_item)
  next
    case Replaced
    then obtain q' where q': "replace_key i q = Some q'" "rt' = triggered i (count_coalesced (set_queue x q' 0 rt))"
      using e(2) by blast
    with set [of 0 q'] cap total replace_key_length [OF q'(1)] show ?thesis by (simp add: queued_within_item)
  next
    case Appended
    with e(3) assms(2) have "int (length q) < ec_queue_capacity (ai_execution (ca_instance ag))"
      "cr_queued rt < rl_queued (dpl_limits plan)" "rt' = append_item x q i rt"
      by (simp_all add: runtime_of_def)
    with set [of 1 "q @ [i]"] show ?thesis by (simp add: queue_part_append)
  next
    case OldestDropped
    with e(4) have rt': "q \<noteq> []" "rt' = append_item x (tl q) i
        (item_issue ''runtime.queue.drop-oldest'' (hd q) True False (set_queue x (tl q) (- 1) rt))"
      by simp_all
    have "int (length (tl q @ [i])) = int (length q)" using rt'(1) by (cases q) simp_all
    with set [of 0 "tl q @ [i]"] cap total rt'(2) show ?thesis
      by (simp add: queue_part_append set_queue_twice queued_within_item)
  next
    case QueueFull
    with e(5) assms(1) show ?thesis by (simp add: queued_within_item)
  qed
qed

lemma enqueue_within:
  assumes "queues_within plan rt" "runtime_of plan rt" "plan_valid plan"
    and "wi_agent i \<in> set (dpl_agents plan)" "enqueue i rt = Inr (w, rt')"
  shows "queues_within plan rt'"
proof -
  obtain x ag q where x: "x \<in> plan_ids plan" "ag \<in> set (dpl_agents plan)" "plan_agents rt x = Some ag"
    "cr_queues rt x = Some q" "enqueue_at x (ai_execution (ca_instance ag)) q i rt = (w, rt')"
    using enqueue_runs [OF assms(2,4)] assms(5) by auto
  have "ca_id ag = x"
    using map_of_SomeD [OF x(3) [unfolded plan_agents_def]] by auto
  from enqueue_at_within [OF assms(1-3) x(1,2) this x(4,5)] show ?thesis .
qed

lemma take_item_within:
  assumes "queues_within plan rt" "runtime_of plan rt" "plan_valid plan" "take_item m x rt = Some (i, rt')"
  shows "queues_within plan rt'"
proof -
  obtain q where q: "cr_queues rt x = Some (i # q)"
    and rt': "rt' = (if m \<and> bounded_tick i
            then (set_queue x q (- 1) rt)\<lparr>cr_bounded_active := insert x (cr_bounded_active rt)\<rparr>
            else set_queue x q (- 1) rt)"
    using assms(4) by (rule take_item_cases)
  have x: "x \<in> plan_ids plan" using q assms(2) by (auto simp: runtime_of_def)
  have old: "queue_of rt x = i # q" using q by (simp add: queue_of_def)
  have "queues_within plan (set_queue x q (- 1) rt)"
  proof (rule queues_within_set [OF assms(1) x])
    fix ag assume "ag \<in> set (dpl_agents plan)" "ca_id ag = x"
    with assms(1) old show "int (length q) \<le> ec_queue_capacity (ai_execution (ca_instance ag))"
      by (auto simp: queues_within_def)
  qed (use assms(1) old in \<open>simp_all add: queues_within_def\<close>)
  then show ?thesis
    unfolding rt' by (auto simp: queues_within_def queue_of_def set_queue_def)
qed

definition item_record :: "string \<Rightarrow> work_item \<Rightarrow> continuous_issue" where
  "item_record code i = \<lparr>is_code = code, is_event = Some (event_id (wi_event i)),
     is_agent = Some (ca_id (wi_agent i)), is_trigger = Some (wi_trigger i)\<rparr>"

lemma drop_items:
  "\<exists>c. fold (\<lambda>i. item_issue code i True False) q rt
     = rt\<lparr>cr_issues := cr_issues rt @ map (item_record code) q, cr_counts := (cr_counts rt)\<lparr>ct_dropped := c\<rparr>\<rparr>"
proof (induction q arbitrary: rt)
  case Nil
  show ?case by (rule exI [of _ "ct_dropped (cr_counts rt)"]) simp
next
  case (Cons i q)
  have one: "\<exists>d. item_issue code i True False rt
      = rt\<lparr>cr_issues := cr_issues rt @ [item_record code i], cr_counts := (cr_counts rt)\<lparr>ct_dropped := d\<rparr>\<rparr>"
    by (rule exI [of _ "ct_dropped (cr_counts rt) + 1"]) (simp add: item_issue_def put_issue_def item_record_def)
  then obtain d where d: "item_issue code i True False rt
      = rt\<lparr>cr_issues := cr_issues rt @ [item_record code i], cr_counts := (cr_counts rt)\<lparr>ct_dropped := d\<rparr>\<rparr>" ..
  show ?case using Cons.IH [of "item_issue code i True False rt"] by (simp add: d)
qed

lemma drop_queue_effect:
  "\<exists>c. drop_queue x rt = (set_queue x [] (- int (length (queue_of rt x))) rt)
     \<lparr>cr_issues := cr_issues rt @ map (item_record ''runtime.queue.dropped-on-stop'') (queue_of rt x),
      cr_counts := (cr_counts rt)\<lparr>ct_dropped := c\<rparr>\<rparr>"
  using drop_items [of "''runtime.queue.dropped-on-stop''" "queue_of rt x"
      "set_queue x [] (- int (length (queue_of rt x))) rt"]
  by (simp add: drop_queue_def queue_of_def set_queue_def Let_def)

lemma drop_queue_within:
  assumes "queues_within plan rt" "x \<in> plan_ids plan" "plan_valid plan"
  shows "queues_within plan (drop_queue x rt)"
proof -
  have "0 \<le> int (length (queue_of rt x))" by simp
  have "queues_within plan (set_queue x [] (- int (length (queue_of rt x))) rt)"
    by (rule queues_within_set [OF assms(1,2)])
      (use assms in \<open>auto simp: queues_within_def plan_valid_def\<close>)
  moreover obtain f g where "drop_queue x rt = (set_queue x [] (- int (length (queue_of rt x))) rt)
     \<lparr>cr_issues := f, cr_counts := g\<rparr>"
    using drop_queue_effect [of x rt] by blast
  ultimately show ?thesis by (simp add: queues_within_def queue_of_def)
qed

lemma close_workers_within:
  assumes "queues_within plan rt" "cr_plan rt = plan" "plan_valid plan"
  shows "queues_within plan (close_workers rt)"
proof -
  have "set xs \<subseteq> plan_ids plan \<Longrightarrow> queues_within plan r \<Longrightarrow> queues_within plan (fold drop_queue xs r)" for xs r
    by (induction xs arbitrary: r) (simp_all add: drop_queue_within assms(3))
  with assms(1,2) have "queues_within plan (fold drop_queue (remdups (map ca_id (dpl_agents plan))) rt)"
    by (simp add: plan_ids_def)
  with assms(1,2) show ?thesis
    by (simp add: close_workers_def Let_def queues_within_def queue_of_def)
qed

lemma step_within:
  assumes "cr_step s t" "queues_within plan (sy_rt s)" "runtime_of plan (sy_rt s)" "pending_known plan s" "plan_valid plan"
  shows "queues_within plan (sy_rt t)"
  using assms(1)
proof (cases rule: step_queue_cases)
  case quiet
  with assms(2) queues_within_cong [of "sy_rt t" "sy_rt s" plan] show ?thesis by (simp add: queue_part_fields)
next
  case (enqueue i "is" w)
  with assms enqueue_within show ?thesis by (auto simp: pending_known_def)
next
  case (take_one m x i rt)
  from take_item_within [OF assms(2,3,5) take_one(1)] take_one(2) queues_within_cong [of "sy_rt t" rt plan]
  show ?thesis by (simp add: queue_part_fields)
next
  case close
  with close_workers_within [OF assms(2) _ assms(5)] assms(3) show ?thesis by (simp add: runtime_of_def)
next
  case (finish r)
  with assms(2) queues_within_cong [of "sy_rt t" "sy_rt s" plan] show ?thesis by (simp add: queue_part_fields)
qed

lemma step_runtime_of:
  assumes "cr_step s t" "runtime_of plan (sy_rt s)"
  shows "runtime_of plan (sy_rt t)"
proof -
  have f: "cr_plan (sy_rt t) = cr_plan (sy_rt s)" "cr_kind (sy_rt t) = cr_kind (sy_rt s)"
    "cr_graph (sy_rt t) = cr_graph (sy_rt s)"
    using step_frame [OF assms(1)] by (simp_all add: frame_part_fields)
  have keep: "dom (cr_queues (drop_queue x rt)) = dom (cr_queues rt)" if "x \<in> dom (cr_queues rt)" for x rt
  proof -
    obtain f g where "drop_queue x rt = (set_queue x [] (- int (length (queue_of rt x))) rt)
        \<lparr>cr_issues := f, cr_counts := g\<rparr>"
      using drop_queue_effect [of x rt] by blast
    with that show ?thesis by (auto simp: set_queue_def)
  qed
  have drops: "set xs \<subseteq> dom (cr_queues rt) \<Longrightarrow> dom (cr_queues (fold drop_queue xs rt)) = dom (cr_queues rt)" for xs rt
    by (induction xs arbitrary: rt) (simp_all add: keep)
  have "dom (cr_queues (sy_rt t)) = dom (cr_queues (sy_rt s))"
    using assms(1)
  proof (cases rule: step_queue_cases)
    case (enqueue i "is" w)
    obtain x q and ag :: compiled_agent where x: "cr_queues (sy_rt s) x = Some q"
      "enqueue_at x (ai_execution (ca_instance ag)) q i (sy_rt s) = (w, sy_rt t)"
      using enqueue_at_of [OF enqueue(2)] by auto
    have "cr_queues (sy_rt t) = cr_queues (sy_rt s) \<or> (\<exists>q'. cr_queues (sy_rt t) = (cr_queues (sy_rt s))(x \<mapsto> q'))"
      using enqueue_at_effect(1-5) [OF x(2)] by (cases w) auto
    with x(1) show ?thesis by (auto split: if_splits)
  next
    case (take_one m x i rt)
    then show ?thesis by (auto simp: queue_part_fields set_queue_def elim!: take_item_cases split: if_splits)
  next
    case close
    then show ?thesis
      using drops [of "remdups (map ca_id (dpl_agents plan))" "sy_rt s"] assms(2)
      by (simp add: close_workers_def Let_def runtime_of_def plan_ids_def)
  qed (simp_all add: queue_part_fields)
  with f assms(2) show ?thesis by (auto simp: runtime_of_def graph_fits_def split: option.splits)
qed

lemma step_pending_known:
  assumes "cr_step s t" "runtime_of plan (sy_rt s)" "pending_known plan s"
  shows "pending_known plan t"
  using assms(1)
proof cases
  case (cs_receive e b items rt)
  have "wi_agent i \<in> set (dpl_agents plan)" if "i \<in> set items" for i
    using accept_event_effect(2) [OF cs_receive(5) that] assms(2) by (simp add: runtime_of_def)
  with cs_receive show ?thesis by (simp add: pending_known_def)
qed (use assms(3) in \<open>simp_all add: pending_known_def\<close>)

subsection \<open>Every matched item is accounted for\<close>

definition unprocessed :: "system \<Rightarrow> nat" where
  "unprocessed s = length (filter (\<lambda>r. \<not> rn_processed r) (sy_running s))"

text \<open>
  A matched item still waits for the dispatcher, was queued, was coalesced or found its queue
  full; a queued one is in a queue, was taken and is being processed or has ended, or was dropped.
\<close>

definition items_accounted :: "system \<Rightarrow> bool" where
  "items_accounted s \<longleftrightarrow>
     (let rt = sy_rt s; c = cr_counts rt in
      ct_matched c = length (sy_pending s) + ct_enqueued c + ct_coalesced c + issues_of ''runtime.queue.full'' rt
      \<and> int (ct_enqueued c) = cr_queued rt + int (unprocessed s) + int (ct_completed c)
          + int (issues_of ''runtime.invocation.failed'' rt) + int (issues_of ''runtime.queue.drop-oldest'' rt)
          + int (stop_drops (cr_issues rt)))"

text \<open>The numbers \<open>items_accounted\<close> is about.\<close>

definition tally :: "continuous \<Rightarrow> nat \<times> nat \<times> nat \<times> nat \<times> int \<times> nat \<times> nat \<times> nat \<times> nat" where
  "tally rt = (ct_matched (cr_counts rt), ct_enqueued (cr_counts rt), ct_coalesced (cr_counts rt),
     ct_completed (cr_counts rt), cr_queued rt, issues_of ''runtime.queue.full'' rt,
     issues_of ''runtime.invocation.failed'' rt, issues_of ''runtime.queue.drop-oldest'' rt,
     stop_drops (cr_issues rt))"

lemma accounted_tally:
  "tally (sy_rt s) = (m, e, c, d, q, full, failed, oldest, stopped) \<Longrightarrow>
     items_accounted s \<longleftrightarrow> m = length (sy_pending s) + e + c + full
       \<and> int e = q + int (unprocessed s) + int d + int failed + int oldest + int stopped"
  by (simp add: items_accounted_def tally_def Let_def)

lemma stop_drops_simps [simp]:
  "stop_drops [] = 0"
  "stop_drops (is @ js) = stop_drops is + stop_drops js"
  "stop_drops (i # is) = of_bool (is_code i = ''runtime.queue.dropped-on-stop'' \<and> is_agent i \<noteq> None) + stop_drops is"
  by (simp_all add: stop_drops_def)

lemma issues_of_append:
  "cr_issues rt' = cr_issues rt @ is \<Longrightarrow> issues_of c rt' = issues_of c rt + length (filter (\<lambda>i. is_code i = c) is)"
  by (simp add: issues_of_def)

lemma tally_quiet:
  assumes "cr_queued rt' = cr_queued rt" "cr_issues rt' = cr_issues rt @ new"
    and "list_all (\<lambda>i. is_code i \<notin> {''runtime.queue.full'', ''runtime.invocation.failed'', ''runtime.queue.drop-oldest''}
           \<and> (is_code i = ''runtime.queue.dropped-on-stop'' \<longrightarrow> is_agent i = None)) new"
    and "ct_matched (cr_counts rt') = ct_matched (cr_counts rt)"
      "ct_enqueued (cr_counts rt') = ct_enqueued (cr_counts rt)"
      "ct_coalesced (cr_counts rt') = ct_coalesced (cr_counts rt)"
      "ct_completed (cr_counts rt') = ct_completed (cr_counts rt)"
  shows "tally rt' = tally rt"
proof -
  have "filter (\<lambda>i. is_code i = c) new = []"
    if "c \<in> {''runtime.queue.full'', ''runtime.invocation.failed'', ''runtime.queue.drop-oldest''}" for c
    using that assms(3) by (auto simp: filter_empty_conv list_all_iff)
  moreover have "stop_drops new = 0"
    using assms(3) by (auto simp: stop_drops_def filter_empty_conv list_all_iff)
  ultimately show ?thesis
    using assms by (simp add: tally_def issues_of_append)
qed

lemma tally_accept:
  assumes "accept_event e rt = (items, rt')" "tally rt = (m, en, c, d, q, full, failed, oldest, stopped)"
  shows "tally rt' = (m + length items, en, c, d, q, full, failed, oldest, stopped)"
proof -
  obtain ls "is" where rt': "rt' = rt\<lparr>cr_counts := (cr_counts rt)
              \<lparr>ct_received := ct_received (cr_counts rt) + 1,
               ct_matched := ct_matched (cr_counts rt) + length items,
               ct_rejected := ct_rejected (cr_counts rt) + length (filter (\<lambda>i. is_code i \<noteq> ''runtime.trigger.cooldown'') is)\<rparr>,
            cr_last_sequences := ls, cr_issues := cr_issues rt @ is\<rparr>" and "list_all accept_issue is"
    using accept_event_effect(1) [OF assms(1)] by blast
  then have "tally (rt'\<lparr>cr_counts := (cr_counts rt')\<lparr>ct_matched := ct_matched (cr_counts rt)\<rparr>\<rparr>) = tally rt"
    by (intro tally_quiet [where new = "is"]) (auto simp: list_all_iff accept_issue_def)
  with assms(2) rt' show ?thesis by (auto simp: tally_def issues_of_def)
qed

lemma tally_simps [simp]:
  "tally (count_coalesced rt) = (case tally rt of (m, e, c, x) \<Rightarrow> (m, e, c + 1, x))"
  "tally (triggered i rt) = tally rt"
  "tally (set_queue x q n rt) = (case tally rt of (m, e, c, d, q, x) \<Rightarrow> (m, e, c, d, q + n, x))"
  "tally (append_item x q i rt) = (case tally rt of (m, e, c, d, q, x) \<Rightarrow> (m, e + 1, c, d, q + 1, x))"
  "tally (item_issue code i d r rt) =
     (case tally rt of (m, e, c, d, q, full, failed, oldest, stopped) \<Rightarrow>
        (m, e, c, d, q, full + of_bool (code = ''runtime.queue.full''),
         failed + of_bool (code = ''runtime.invocation.failed''),
         oldest + of_bool (code = ''runtime.queue.drop-oldest''),
         stopped + of_bool (code = ''runtime.queue.dropped-on-stop'')))"
  by (simp_all add: tally_def count_coalesced_def count_up_def triggered_def set_queue_def append_item_def
      item_issue_def put_issue_def issues_of_def)

lemma tally_enqueue:
  assumes "enqueue i rt = Inr (w, rt')" "tally rt = (m, e, c, d, q, full, failed, oldest, stopped)"
  shows "tally rt' =
    (case w of
       TickDropped \<Rightarrow> (m, e, c + 1, d, q, full, failed, oldest, stopped)
     | Replaced \<Rightarrow> (m, e, c + 1, d, q, full, failed, oldest, stopped)
     | Appended \<Rightarrow> (m, e + 1, c, d, q + 1, full, failed, oldest, stopped)
     | OldestDropped \<Rightarrow> (m, e + 1, c, d, q, full, failed, oldest + 1, stopped)
     | QueueFull \<Rightarrow> (m, e, c, d, q, full + 1, failed, oldest, stopped))"
proof -
  obtain x qs and ag :: compiled_agent where "enqueue_at x (ai_execution (ca_instance ag)) qs i rt = (w, rt')"
    using enqueue_at_of [OF assms(1)] by auto
  from enqueue_at_effect(1-5) [OF this] assms(2) show ?thesis by (cases w) auto
qed

lemma tally_take:
  assumes "take_item mk x rt = Some (i, rt')" "tally rt = (m, e, c, d, q, y)"
  shows "tally rt' = (m, e, c, d, q - 1, y)"
proof -
  have "tally (r\<lparr>cr_bounded_active := b\<rparr>) = tally r" for r b
    by (simp add: tally_def issues_of_def)
  with assms show ?thesis by (auto elim!: take_item_cases split: if_splits)
qed

lemma tally_process:
  assumes "tally rt = (m, e, c, d, q, full, failed, oldest, stopped)"
  shows "tally (process_item i ended rt) =
    (case ended of Inl _ \<Rightarrow> (m, e, c, d, q, full, failed + 1, oldest, stopped)
     | Inr _ \<Rightarrow> (m, e, c, d + 1, q, full, failed, oldest, stopped))"
proof (cases ended)
  case (Inl x)
  have "tally (count_up (\<lambda>c. c\<lparr>ct_failed := ct_failed c + 1\<rparr>) r) = tally r" for r
    by (simp add: tally_def issues_of_def count_up_def)
  with Inl assms show ?thesis by (simp add: process_item_def)
next
  case (Inr y)
  with assms show ?thesis
    by (cases y) (simp add: process_item_def Let_def tally_def issues_of_def count_up_def)
qed

lemma tally_drop_queue:
  assumes "tally rt = (m, e, c, d, q, full, failed, oldest, stopped)"
  shows "\<exists>n. tally (drop_queue x rt) = (m, e, c, d, q - int n, full, failed, oldest, stopped + n)"
proof -
  obtain f where f: "drop_queue x rt = (set_queue x [] (- int (length (queue_of rt x))) rt)
     \<lparr>cr_issues := cr_issues rt @ map (item_record ''runtime.queue.dropped-on-stop'') (queue_of rt x),
      cr_counts := (cr_counts rt)\<lparr>ct_dropped := f\<rparr>\<rparr>"
    using drop_queue_effect [of x rt] by blast
  have none: "filter (\<lambda>i. is_code i = c) (map (item_record ''runtime.queue.dropped-on-stop'') is) = []"
    if "c \<noteq> ''runtime.queue.dropped-on-stop''" for c "is"
    using that by (auto simp: filter_empty_conv item_record_def)
  have all: "stop_drops (map (item_record ''runtime.queue.dropped-on-stop'') is) = length is" for "is"
    by (induction "is") (simp_all add: item_record_def)
  show ?thesis
    using assms
    by (intro exI [of _ "length (queue_of rt x)"])
      (auto simp: tally_def f issues_of_def none all set_queue_def)
qed

lemma tally_close:
  assumes "tally rt = (m, e, c, d, q, full, failed, oldest, stopped)"
  shows "\<exists>n. tally (close_workers rt) = (m, e, c, d, q - int n, full, failed, oldest, stopped + n)"
proof -
  have "\<exists>n. tally (fold drop_queue xs r) = (m, e, c, d, q - int n, full, failed, oldest, stopped + n)"
    if "tally r = (m, e, c, d, q, full, failed, oldest, stopped)" for xs r q stopped
    using that
  proof (induction xs arbitrary: r q stopped)
    case Nil
    then show ?case by (intro exI [of _ 0]) simp
  next
    case (Cons x xs)
    obtain n where "tally (drop_queue x r) = (m, e, c, d, q - int n, full, failed, oldest, stopped + n)"
      using tally_drop_queue [OF Cons.prems, of x] by blast
    from Cons.IH [OF this] obtain k where
      "tally (fold drop_queue xs (drop_queue x r))
         = (m, e, c, d, q - int n - int k, full, failed, oldest, stopped + n + k)" by blast
    then show ?case by (intro exI [of _ "n + k"]) simp
  qed
  moreover have "tally (r\<lparr>cr_workers_closed := b\<rparr>) = tally r" for r b
    by (simp add: tally_def issues_of_def)
  moreover have "\<exists>n. tally rt = (m, e, c, d, q - int n, full, failed, oldest, stopped + n)"
    using assms by (intro exI [of _ 0]) simp
  ultimately show ?thesis
    using assms by (simp add: close_workers_def Let_def)
qed

lemma step_accounted:
  assumes "cr_step s t" "items_accounted s"
  shows "items_accounted t"
proof -
  obtain m e c d q full y where "tally (sy_rt s) = (m, e, c, d, q, full, y)" by (rule prod_cases7)
  moreover obtain failed oldest stopped where "y = (failed, oldest, stopped)" by (rule prod_cases3)
  ultimately have t0: "tally (sy_rt s) = (m, e, c, d, q, full, failed, oldest, stopped)" by simp
  have s0: "m = length (sy_pending s) + e + c + full"
    "int e = q + int (unprocessed s) + int d + int failed + int oldest + int stopped"
    using assms(2) accounted_tally [OF t0] by simp_all
  note at = accounted_tally [of t]
  have same: "items_accounted t"
    if "tally (sy_rt t) = tally (sy_rt s)" "sy_pending t = sy_pending s" "unprocessed t = unprocessed s"
    using that assms(2) accounted_tally [OF t0] at t0 by metis
  show ?thesis
    using assms(1)
  proof cases
    case (cs_receive ev b items rt)
    have "tally ((sy_rt s)\<lparr>cr_bus := b\<rparr>) = tally (sy_rt s)" by (simp add: tally_def issues_of_def)
    with tally_accept [OF cs_receive(5)] t0
    have "tally (sy_rt t) = (m + length items, e, c, d, q, full, failed, oldest, stopped)"
      using cs_receive(1) by simp
    from at [OF this] s0 cs_receive show ?thesis by (simp add: unprocessed_def)
  next
    case (cs_discard ev b)
    then show ?thesis
      by (intro same) (simp_all add: unprocessed_def drop_event_def put_issue_def tally_def issues_of_def)
  next
    case (cs_enqueue i "is" w rt)
    have w: "tally (sy_rt t) = z" if "tally rt = z" for z using that cs_enqueue(1) by simp
    have "unprocessed t = unprocessed s" "sy_pending s = i # sy_pending t"
      using cs_enqueue(1,2) by (simp_all add: unprocessed_def)
    with w [OF tally_enqueue [OF cs_enqueue(3) t0]] s0 show ?thesis
      by (cases w) (auto dest!: at)
  next
    case cs_close
    obtain n where "tally (sy_rt t) = (m, e, c, d, q - int n, full, failed, oldest, stopped + n)"
      using tally_close [OF t0] cs_close(1) by auto
    from at [OF this] s0 cs_close(1) show ?thesis by (simp add: unprocessed_def)
  next
    case (cs_take x ag i rt)
    have "tally (sy_rt t) = (m, e, c, d, q - 1, full, failed, oldest, stopped)"
      using tally_take [OF cs_take(5) t0] cs_take(1) by simp
    from at [OF this] cs_take(1) s0 show ?thesis by (simp add: unprocessed_def new_running_def)
  next
    case (cs_request x i rt)
    have "tally (begin_request rt) = tally rt" by (simp add: begin_request_def tally_def issues_of_def)
    with tally_take [OF cs_request(3) t0] cs_request(1)
    have "tally (sy_rt t) = (m, e, c, d, q - 1, full, failed, oldest, stopped)" by simp
    from at [OF this] cs_request(1) s0 show ?thesis by (simp add: unprocessed_def new_running_def)
  next
    case (cs_refuse x i rt)
    have "tally (sy_rt t) = (m, e, c, d, q - 1, full, failed, oldest, stopped)"
      using tally_take [OF cs_refuse(3) t0] cs_refuse(1) by simp
    from at [OF this] cs_refuse(1) s0 show ?thesis by (simp add: unprocessed_def new_running_def)
  next
    case (cs_process rs r rs' ended)
    have u: "unprocessed s = Suc (unprocessed t)" "sy_pending t = sy_pending s"
      using cs_process(1-4) by (simp_all add: unprocessed_def)
    have p: "tally (sy_rt t) = tally (process_item (rn_item r) ended (sy_rt s))" using cs_process(1) by simp
    show ?thesis
    proof (cases ended)
      case (Inl x)
      with p tally_process [OF t0, of "rn_item r" ended]
      have "tally (sy_rt t) = (m, e, c, d, q, full, failed + 1, oldest, stopped)" by simp
      from at [OF this] u s0 show ?thesis by simp
    next
      case (Inr x)
      with p tally_process [OF t0, of "rn_item r" ended]
      have "tally (sy_rt t) = (m, e, c, d + 1, q, full, failed, oldest, stopped)" by simp
      from at [OF this] u s0 show ?thesis by simp
    qed
  next
    case (cs_finish rs r rs')
    have "tally (finish_item x i rt) = tally rt" "tally (end_request rt) = tally rt" for x i rt
      by (simp_all add: finish_item_def end_request_def release_request_def tally_def issues_of_def)
    then have "tally (sy_rt t) = tally (sy_rt s)" using cs_finish(1) by (cases "rn_as r") simp_all
    with cs_finish show ?thesis by (intro same) (simp_all add: unprocessed_def)
  next
    case (cs_slot rs r rs' rt)
    then show ?thesis
      by (intro same) (auto simp: unprocessed_def take_slot_def tally_def issues_of_def split: if_splits)
  next
    case (cs_interval a tr ident now tick seq)
    have "tally (sy_rt t) = tally (sy_rt s)"
      unfolding cs_interval
      by (auto simp: interval_round_def Let_def publish_event_def tally_def issues_of_def put_issue_def
          split: sum.splits if_splits)
    with cs_interval show ?thesis by (intro same) (simp_all add: unprocessed_def)
  qed (rule same; auto simp: unprocessed_def tally_def issues_of_def start_runtime_def publish_event_def
         stop_begin_def stop_bus_def stop_end_def acquire_request_def release_request_def give_slot_def
         split: if_splits sum.splits)+
qed

subsection \<open>Slots\<close>

definition requests :: "system \<Rightarrow> nat" where
  "requests s = length (filter (\<lambda>r. rn_as r = AsRequest) (sy_running s))"

definition invocations :: "system \<Rightarrow> nat" where
  "invocations s = length (filter rn_invoking (sy_running s))"

definition at_work :: "system \<Rightarrow> agent_id \<Rightarrow> nat" where
  "at_work s x = length (filter (\<lambda>r. rn_agent r = x \<and> rn_as r = ByWorker) (sy_running s))"

text \<open>No request, no invocation of a plain invoker and no worker without its slot.\<close>

definition slots_kept :: "deployment_plan \<Rightarrow> system \<Rightarrow> bool" where
  "slots_kept plan s \<longleftrightarrow>
     cr_free_requests (sy_rt s) + int (sy_holding s) + int (requests s) = request_capacity plan
     \<and> 0 \<le> cr_free_requests (sy_rt s) \<and> cr_active_requests (sy_rt s) = int (requests s)
     \<and> cr_free_slots (sy_rt s) + int (invocations s) = rl_invocations (dpl_limits plan)
     \<and> 0 \<le> cr_free_slots (sy_rt s)
     \<and> (\<forall>ag\<in>set (dpl_agents plan). int (at_work s (ca_id ag)) \<le> ec_max_concurrency (ai_execution (ca_instance ag)))"

definition slot_part :: "continuous \<Rightarrow> int \<times> int \<times> int" where
  "slot_part rt = (cr_free_requests rt, cr_active_requests rt, cr_free_slots rt)"

lemma filter_both_le: "length (filter (\<lambda>r. P r \<and> Q r) xs) \<le> length (filter P xs)"
  by (induction xs) auto

lemma slot_part_fields:
  "slot_part rt = slot_part rt' \<longleftrightarrow> cr_free_requests rt = cr_free_requests rt'
     \<and> cr_active_requests rt = cr_active_requests rt' \<and> cr_free_slots rt = cr_free_slots rt'"
  by (auto simp: slot_part_def)

lemma slot_moves [simp]:
  "slot_part (put_issue c ev a tr d r rt) = slot_part rt"
  "slot_part (item_issue c i d r rt) = slot_part rt"
  "slot_part (count_up f rt) = slot_part rt"
  "slot_part (count_coalesced rt) = slot_part rt"
  "slot_part (triggered i rt) = slot_part rt"
  "slot_part (set_queue x q n rt) = slot_part rt"
  "slot_part (append_item x q i rt) = slot_part rt"
  "slot_part (process_item i ended rt) = slot_part rt"
  "slot_part (finish_item x i rt) = slot_part rt"
  "slot_part (drop_event evt rt) = slot_part rt"
  "slot_part (stop_bus rt) = slot_part rt"
  "slot_part (interval_round a' tr' ident now tick seq rt) = slot_part rt"
  by (simp_all add: slot_part_def runtime_moves count_coalesced_def triggered_def set_queue_def
      append_item_def split: sum.split)

lemma close_workers_slots: "slot_part (close_workers rt) = slot_part rt"
proof -
  have "slot_part (drop_queue x r) = slot_part r" for x r
    by (simp add: drop_queue_def Let_def fold_same [where f = slot_part])
  then have "slot_part (fold drop_queue xs r) = slot_part r" for xs r by (rule fold_same)
  then show ?thesis by (simp add: close_workers_def Let_def) (simp add: slot_part_def)
qed

lemma enqueue_slots:
  assumes "enqueue i rt = Inr (w, rt')"
  shows "slot_part rt' = slot_part rt"
proof -
  obtain x q and ag :: compiled_agent where "enqueue_at x (ai_execution (ca_instance ag)) q i rt = (w, rt')"
    using enqueue_at_of [OF assms] by auto
  from enqueue_at_effect(1-5) [OF this] show ?thesis by (cases w) auto
qed

lemma take_item_slots: "take_item m x rt = Some (i, rt') \<Longrightarrow> slot_part rt' = slot_part rt"
  by (auto simp: slot_part_def set_queue_def elim!: take_item_cases split: if_splits)

lemma step_slots:
  assumes "cr_step s t" "slots_kept plan s" "plan_valid plan" "cr_plan (sy_rt s) = plan"
  shows "slots_kept plan t"
proof -
  have same: "slots_kept plan t"
    if "slot_part (sy_rt t) = slot_part (sy_rt s)" "sy_holding t = sy_holding s"
      "requests t = requests s" "invocations t = invocations s" "\<And>x. at_work t x \<le> at_work s x"
    using that(1-4) assms(2) that(5) order_trans [OF of_nat_mono]
    by (fastforce simp: slots_kept_def slot_part_fields)
  show ?thesis
    using assms(1)
  proof cases
    case (cs_receive ev b items rt)
    have "slot_part rt = slot_part ((sy_rt s)\<lparr>cr_bus := b\<rparr>)"
      using accept_event_effect(1) [OF cs_receive(5)] by (auto simp: slot_part_def)
    with cs_receive(1) show ?thesis
      by (intro same) (simp_all add: requests_def invocations_def at_work_def slot_part_def)
  next
    case (cs_discard ev b)
    then show ?thesis by (intro same) (simp_all add: requests_def invocations_def at_work_def, simp add: slot_part_def)
  next
    case (cs_enqueue i "is" w rt)
    then show ?thesis
      by (intro same) (simp_all add: requests_def invocations_def at_work_def enqueue_slots [OF cs_enqueue(3)])
  next
    case cs_close
    then show ?thesis
      by (intro same) (simp_all add: requests_def invocations_def at_work_def close_workers_slots)
  next
    case (cs_take x ag i rt)
    have "ag \<in> set (dpl_agents plan)" "ca_id ag = x"
      using map_of_SomeD [OF cs_take(3) [unfolded plan_agents_def]] assms(4) by auto
    then have only: "a = ag" if "a \<in> set (dpl_agents plan)" "ca_id a = x" for a
      using same_agent [OF assms(3)] that by blast
    have "at_work s x \<le> length (filter (\<lambda>r. rn_agent r = x) (sy_running s))"
      unfolding at_work_def by (rule filter_both_le)
    with cs_take(2,4) have "int (at_work s x) + 1 \<le> ec_max_concurrency (ai_execution (ca_instance ag))"
      by (simp add: busy_def worker_count_def)
    moreover have "slot_part (sy_rt t) = slot_part (sy_rt s)" using take_item_slots [OF cs_take(5)] cs_take(1) by simp
    moreover have "at_work t y = (if y = x then at_work s x + 1 else at_work s y)" for y
      using cs_take(1) by (simp add: at_work_def new_running_def)
    ultimately show ?thesis
      using assms(2) only cs_take(1)
      by (auto simp: slots_kept_def slot_part_fields requests_def invocations_def new_running_def)
  next
    case (cs_acquire rt)
    then show ?thesis
      using assms(2)
      by (auto simp: slots_kept_def acquire_request_def requests_def invocations_def at_work_def split: if_splits)
  next
    case (cs_request x i rt)
    then show ?thesis
      using assms(2) take_item_slots [OF cs_request(3)]
      by (auto simp: slots_kept_def slot_part_fields begin_request_def requests_def invocations_def at_work_def
          new_running_def)
  next
    case (cs_release x)
    then show ?thesis
      using assms(2) by (auto simp: slots_kept_def release_request_def requests_def invocations_def at_work_def)
  next
    case (cs_refuse x i rt)
    then show ?thesis
      by (intro same) (simp_all add: take_item_slots requests_def invocations_def at_work_def new_running_def)
  next
    case (cs_slot rs r rs' rt)
    then show ?thesis
      using assms(2)
      by (auto simp: slots_kept_def take_slot_def requests_def invocations_def at_work_def split: if_splits)
  next
    case (cs_slot_back rs r rs')
    then show ?thesis
      using assms(2) by (auto simp: slots_kept_def give_slot_def requests_def invocations_def at_work_def)
  next
    case (cs_process rs r rs' ended)
    then show ?thesis by (intro same) (simp_all add: requests_def invocations_def at_work_def)
  next
    case (cs_finish rs r rs')
    note fin = cs_finish
    have less: "at_work t x \<le> at_work s x" for x using fin by (simp add: at_work_def)
    show ?thesis
    proof (cases "rn_as r")
      case AsRequest
      have "slot_part (sy_rt t) = (cr_free_requests (sy_rt s) + 1, cr_active_requests (sy_rt s) - 1, cr_free_slots (sy_rt s))"
        using fin(1) AsRequest by (simp add: slot_part_def end_request_def release_request_def finish_item_def)
      moreover have "requests s = Suc (requests t)" "invocations t = invocations s" "sy_holding t = sy_holding s"
        using fin AsRequest by (simp_all add: requests_def invocations_def)
      moreover have "int (at_work t x) \<le> n" if "int (at_work s x) \<le> n" for x n using less [of x] that by simp
      ultimately show ?thesis using assms(2) by (auto simp: slots_kept_def slot_part_def)
    qed (use fin less in \<open>intro same; simp add: requests_def invocations_def\<close>)+
  qed (rule same; auto simp: slot_part_def requests_def invocations_def at_work_def start_runtime_def publish_event_def
         stop_begin_def stop_end_def stop_bus_def interval_round_def Let_def put_issue_def split: if_splits sum.splits)+
qed

subsection \<open>One bounded tick at a time\<close>

definition ticks :: "continuous \<Rightarrow> agent_id \<Rightarrow> nat" where
  "ticks rt x = length (filter bounded_tick (queue_of rt x))"

definition flights :: "system \<Rightarrow> agent_id \<Rightarrow> nat" where
  "flights s x = length (filter (\<lambda>r. rn_agent r = x \<and> rn_as r \<noteq> ToRefuse \<and> bounded_tick (rn_item r)) (sy_running s))"

definition ticks_exclusive :: "system \<Rightarrow> bool" where
  "ticks_exclusive s \<longleftrightarrow>
     (\<forall>x. ticks (sy_rt s) x + flights s x \<le> 1 \<and> (x \<in> cr_bounded_active (sy_rt s) \<longleftrightarrow> flights s x \<noteq> 0))"

lemma ticks_cong: "cr_queues rt = cr_queues rt' \<Longrightarrow> ticks rt = ticks rt'"
  by (rule ext) (simp add: ticks_def queue_of_def)

lemma ticks_set_queue: "cr_queues rt' = (cr_queues rt)(x \<mapsto> q) \<Longrightarrow>
    ticks rt' y = (if y = x then length (filter bounded_tick q) else ticks rt y)"
  by (simp add: ticks_def queue_of_def)

lemma replace_key_ticks:
  "replace_key i q = Some q' \<Longrightarrow> \<not> bounded_tick i \<Longrightarrow> length (filter bounded_tick q') \<le> length (filter bounded_tick q)"
proof (induction q arbitrary: q')
  case (Cons a q)
  show ?case
  proof (cases "wi_key a = wi_key i")
    case True
    with Cons.prems show ?thesis by auto
  next
    case False
    with Cons.prems(1) obtain z where z: "replace_key i q = Some z" "q' = a # z" by auto
    from Cons.IH [OF z(1) Cons.prems(2)] z(2) show ?thesis by simp
  qed
qed simp

lemma active_item [simp]:
  "cr_bounded_active (item_issue c i d r rt) = cr_bounded_active rt"
  "cr_bounded_active (count_up f rt) = cr_bounded_active rt"
  "cr_bounded_active (triggered i rt) = cr_bounded_active rt"
  "cr_bounded_active (count_coalesced rt) = cr_bounded_active rt"
  "cr_bounded_active (set_queue x q n rt) = cr_bounded_active rt"
  "cr_bounded_active (append_item x q i rt) = cr_bounded_active rt"
  by (simp_all add: item_issue_def put_issue_def count_up_def triggered_def count_coalesced_def set_queue_def
      append_item_def)

lemma enqueue_ticks:
  assumes "enqueue i rt = Inr (w, rt')"
  shows "cr_bounded_active rt' = cr_bounded_active rt
    \<and> (\<forall>y. ticks rt' y \<le> ticks rt y \<or> ticks rt' y = 1 \<and> ticks rt y = 0 \<and> y \<notin> cr_bounded_active rt)"
proof -
  obtain x q and ag :: compiled_agent where x: "cr_queues rt x = Some q"
    "enqueue_at x (ai_execution (ca_instance ag)) q i rt = (w, rt')"
    using enqueue_at_of [OF assms] by auto
  note e = enqueue_at_effect [OF x(2)]
  have old: "ticks rt x = length (filter bounded_tick q)" using x(1) by (simp add: ticks_def queue_of_def)
  have tl: "length (filter bounded_tick (tl q)) \<le> length (filter bounded_tick q)" by (cases q) auto
  have changed: ?thesis
    if "cr_bounded_active rt' = cr_bounded_active rt" "cr_queues rt' = (cr_queues rt)(x \<mapsto> q')"
      "length (filter bounded_tick q') \<le> length (filter bounded_tick q)
         \<or> bounded_tick i \<and> accepts w \<and> length (filter bounded_tick q') \<le> 1 + length (filter bounded_tick q)" for q'
  proof -
    have "ticks rt' y \<le> ticks rt y \<or> ticks rt' y = 1 \<and> ticks rt y = 0 \<and> y \<notin> cr_bounded_active rt" for y
    proof (cases "y = x \<and> \<not> ticks rt' y \<le> ticks rt y")
      case True
      with that(3) old ticks_set_queue [OF that(2), of y]
      have "bounded_tick i" "accepts w" "ticks rt' x \<le> 1 + ticks rt x" by auto
      with e(6) True old show ?thesis by auto
    next
      case False
      with ticks_set_queue [OF that(2), of y] show ?thesis by auto
    qed
    with that(1) show ?thesis by simp
  qed
  show ?thesis
  proof (cases w)
    case TickDropped
    with e(1) ticks_cong [of rt' rt] show ?thesis by simp
  next
    case QueueFull
    with e(5) ticks_cong [of rt' rt] show ?thesis by simp
  next
    case Replaced
    then obtain q' where q': "replace_key i q = Some q'" "rt' = triggered i (count_coalesced (set_queue x q' 0 rt))"
      using e(2) by blast
    have "q = [] \<Longrightarrow> False" using q'(1) by auto
    then have "\<not> bounded_tick i" using e(6) Replaced by (auto simp: accepts_def)
    with q' replace_key_ticks [OF q'(1)] show ?thesis by (intro changed [of q']) simp_all
  next
    case Appended
    with e(3) show ?thesis by (intro changed [of "q @ [i]"]) (auto simp: accepts_def)
  next
    case OldestDropped
    with e(4) tl show ?thesis by (intro changed [of "tl q @ [i]"]) (auto simp: accepts_def)
  qed
qed

lemma close_workers_ticks:
  "cr_bounded_active (close_workers rt) = cr_bounded_active rt \<and> ticks (close_workers rt) y \<le> ticks rt y"
proof -
  have one: "cr_bounded_active (drop_queue x r) = cr_bounded_active r \<and> ticks (drop_queue x r) y \<le> ticks r y" for x r
  proof -
    obtain f g where d: "drop_queue x r = (set_queue x [] (- int (length (queue_of r x))) r)
        \<lparr>cr_issues := f, cr_counts := g\<rparr>"
      using drop_queue_effect [of x r] by blast
    have "cr_queues (drop_queue x r) = (cr_queues r)(x \<mapsto> [])" by (simp add: d)
    from ticks_set_queue [OF this] show ?thesis by (simp add: d)
  qed
  have "cr_bounded_active (fold drop_queue xs r) = cr_bounded_active r \<and> ticks (fold drop_queue xs r) y \<le> ticks r y"
    for xs r
  proof (induction xs arbitrary: r)
    case (Cons x xs)
    from Cons.IH [of "drop_queue x r"] one [of x r] show ?case by auto
  qed simp
  then show ?thesis by (simp add: close_workers_def Let_def ticks_def queue_of_def)
qed

lemma take_item_ticks:
  assumes "take_item m x rt = Some (i, rt')"
  shows "ticks rt y = ticks rt' y + of_bool (y = x \<and> bounded_tick i)"
    and "cr_bounded_active rt' = (if m \<and> bounded_tick i then insert x (cr_bounded_active rt) else cr_bounded_active rt)"
proof -
  obtain q where q: "cr_queues rt x = Some (i # q)"
    and rt': "rt' = (if m \<and> bounded_tick i
            then (set_queue x q (- 1) rt)\<lparr>cr_bounded_active := insert x (cr_bounded_active rt)\<rparr>
            else set_queue x q (- 1) rt)"
    using assms by (rule take_item_cases)
  have "cr_queues rt' = (cr_queues rt)(x \<mapsto> q)" by (simp add: rt')
  from ticks_set_queue [OF this] q show "ticks rt y = ticks rt' y + of_bool (y = x \<and> bounded_tick i)"
    by (simp add: ticks_def queue_of_def)
  show "cr_bounded_active rt' = (if m \<and> bounded_tick i then insert x (cr_bounded_active rt) else cr_bounded_active rt)"
    by (simp add: rt')
qed

lemma step_ticks:
  assumes "cr_step s t" "ticks_exclusive s"
  shows "ticks_exclusive t"
proof -
  have inv: "ticks (sy_rt s) y + flights s y \<le> 1" "y \<in> cr_bounded_active (sy_rt s) \<longleftrightarrow> flights s y \<noteq> 0" for y
    using assms(2) by (simp_all add: ticks_exclusive_def)
  have same: "ticks_exclusive t"
    if "queue_part (sy_rt t) = queue_part (sy_rt s)" "\<And>x. flights t x = flights s x"
    using that assms(2) ticks_cong [of "sy_rt t" "sy_rt s"] by (simp add: ticks_exclusive_def queue_part_fields)
  have fewer: "ticks_exclusive t"
    if "\<And>y. ticks (sy_rt t) y \<le> ticks (sy_rt s) y" "cr_bounded_active (sy_rt t) = cr_bounded_active (sy_rt s)"
      "\<And>y. flights t y = flights s y"
    using that inv by (auto simp: ticks_exclusive_def intro!: order_trans [OF add_right_mono [OF that(1)]])
  have marked: "ticks_exclusive t"
    if "take_item True x (sy_rt s) = Some (i, rt)" "queue_part (sy_rt t) = queue_part rt"
      "\<And>y. flights t y = flights s y + of_bool (y = x \<and> bounded_tick i)" for x i rt
  proof -
    have t: "ticks (sy_rt t) y = ticks rt y" "cr_bounded_active (sy_rt t) = cr_bounded_active rt" for y
      using that(2) ticks_cong [of "sy_rt t" rt] by (simp_all add: queue_part_fields)
    have "ticks (sy_rt t) y + flights t y \<le> 1" for y
      using take_item_ticks(1) [OF that(1), of y] t(1) [of y] that(3) [of y] inv(1) [of y] by simp
    moreover have "y \<in> cr_bounded_active (sy_rt t) \<longleftrightarrow> flights t y \<noteq> 0" for y
      using take_item_ticks(2) [OF that(1)] t(2) that(3) [of y] inv(2) [of y] by auto
    ultimately show ?thesis by (simp add: ticks_exclusive_def)
  qed
  show ?thesis
    using assms(1)
  proof cases
    case (cs_receive ev b items rt)
    have "queue_part rt = queue_part (sy_rt s)"
      by (simp add: accept_frame(2) [OF cs_receive(5)]) (simp add: queue_part_def)
    with cs_receive show ?thesis by (intro same) (simp_all add: flights_def)
  next
    case (cs_discard ev b)
    then show ?thesis by (intro same) (simp_all add: flights_def, simp add: queue_part_def)
  next
    case (cs_enqueue i "is" w rt)
    have f: "flights t y = flights s y" for y using cs_enqueue(1) by (simp add: flights_def)
    have "ticks rt y + flights s y \<le> 1" for y
    proof (cases "ticks rt y \<le> ticks (sy_rt s) y")
      case False
      with enqueue_ticks [OF cs_enqueue(3)] have "ticks rt y = 1" "y \<notin> cr_bounded_active (sy_rt s)" by auto
      with inv(2) [of y] show ?thesis by simp
    qed (use inv(1) [of y] in simp)
    with enqueue_ticks [OF cs_enqueue(3)] inv(2) cs_enqueue(1) f show ?thesis by (simp add: ticks_exclusive_def)
  next
    case cs_close
    with close_workers_ticks [of "sy_rt s"] show ?thesis by (intro fewer) (simp_all add: flights_def)
  next
    case (cs_take x ag i rt)
    then show ?thesis by (intro marked [OF cs_take(5)]) (simp_all add: flights_def new_running_def)
  next
    case (cs_request x i rt)
    then show ?thesis by (intro marked [OF cs_request(3)]) (simp_all add: flights_def new_running_def)
  next
    case (cs_refuse x i rt)
    have "ticks rt y \<le> ticks (sy_rt s) y" for y using take_item_ticks(1) [OF cs_refuse(3), of y] by simp
    with take_item_ticks(2) [OF cs_refuse(3)] cs_refuse(1) show ?thesis
      by (intro fewer) (simp_all add: flights_def new_running_def)
  next
    case (cs_finish rs r rs')
    show ?thesis
    proof (cases "rn_as r = ToRefuse \<or> \<not> bounded_tick (rn_item r)")
      case True
      with cs_finish show ?thesis
        by (intro same; cases "rn_as r") (auto simp: flights_def finish_item_def)
    next
      case False
      then have f: "flights s y = flights t y + of_bool (y = rn_agent r)" for y
        using cs_finish(1,2) by (simp add: flights_def)
      have q: "queue_part (sy_rt t) = queue_part (finish_item (rn_agent r) (rn_item r) (sy_rt s))"
        using False cs_finish(1) by (cases "rn_as r") simp_all
      then have t: "ticks (sy_rt t) y = ticks (sy_rt s) y"
        "cr_bounded_active (sy_rt t) = cr_bounded_active (sy_rt s) - {rn_agent r}" for y
        using ticks_cong [of "sy_rt t" "sy_rt s"] False by (simp_all add: queue_part_fields, simp add: finish_item_def)
      have "ticks (sy_rt t) y + flights t y \<le> 1" for y using t(1) inv(1) [of y] f [of y] by simp
      moreover have "y \<in> cr_bounded_active (sy_rt t) \<longleftrightarrow> flights t y \<noteq> 0" for y
        using t inv [of y] f [of y] by auto
      ultimately show ?thesis by (simp add: ticks_exclusive_def)
    qed
  next
    case (cs_interval a tr ident now tick seq)
    then show ?thesis by (intro same) (simp_all add: interval_frame flights_def)
  qed (rule same; auto simp: flights_def queue_part_def start_runtime_def publish_event_def stop_begin_def
         stop_bus_def stop_end_def acquire_request_def release_request_def take_slot_def give_slot_def
         process_item_def item_issue_def put_issue_def count_up_def Let_def split: if_splits sum.splits)+
qed

subsection \<open>Cooldowns\<close>

definition item_key :: "work_item \<Rightarrow> agent_id \<times> string" where
  "item_key i = (ca_id (wi_agent i), wi_trigger i)"

text \<open>Whether an event trigger made the item, and the cooldown of that trigger in seconds.\<close>

definition by_event :: "work_item \<Rightarrow> bool" where
  "by_event i = (case wi_intent i of EventIntent _ \<Rightarrow> True | _ \<Rightarrow> False)"

definition item_cooldown :: "work_item \<Rightarrow> rat" where
  "item_cooldown i =
     (case List.find (\<lambda>t. trigger_name t = wi_trigger i) (ai_triggers (ca_instance (wi_agent i))) of
        None \<Rightarrow> 0 | Some t \<Rightarrow> trigger_cooldown t)"

definition too_soon :: "work_item \<Rightarrow> timestamp option \<Rightarrow> bool" where
  "too_soon i earlier =
     (case earlier of None \<Rightarrow> False
      | Some l \<Rightarrow> rat_of_int (observed_at (wi_event i) - l) / 1000000 < item_cooldown i)"

text \<open>When a trigger of an agent was last accepted.\<close>

definition last_at :: "work_item list \<Rightarrow> agent_id \<times> string \<Rightarrow> timestamp option" where
  "last_at acc k =
     (case filter (\<lambda>i. item_key i = k) acc of [] \<Rightarrow> None | xs \<Rightarrow> Some (observed_at (wi_event (last xs))))"

definition spaced :: "work_item list \<Rightarrow> bool" where
  "spaced acc \<longleftrightarrow>
     (\<forall>ys i zs. acc = ys @ i # zs \<longrightarrow> by_event i \<longrightarrow> \<not> too_soon i (last_at ys (item_key i)))"

definition cooldowns_kept :: "system \<Rightarrow> bool" where
  "cooldowns_kept s \<longleftrightarrow>
     cr_last_triggered (sy_rt s) = last_at (sy_accepted s) \<and> spaced (sy_accepted s)
     \<and> (\<forall>i\<in>set (sy_pending s). by_event i \<longrightarrow> \<not> too_soon i (last_at (sy_accepted s) (item_key i)))
     \<and> distinct (map item_key (sy_pending s))"

lemma last_at_Nil [simp]: "last_at [] = (\<lambda>_. None)"
  by (rule ext) (simp add: last_at_def)

lemma last_at_append [simp]:
  "last_at (acc @ [i]) = (last_at acc)(item_key i \<mapsto> observed_at (wi_event i))"
proof (rule ext)
  fix k
  show "last_at (acc @ [i]) k = ((last_at acc)(item_key i \<mapsto> observed_at (wi_event i))) k"
    by (cases "filter (\<lambda>i. item_key i = k) acc") (auto simp: last_at_def)
qed

lemma spaced_append:
  "spaced acc \<Longrightarrow> by_event i \<longrightarrow> \<not> too_soon i (last_at acc (item_key i)) \<Longrightarrow> spaced (acc @ [i])"
  unfolding spaced_def
proof (intro allI impI)
  fix ys j zs
  assume acc: "\<forall>ys i zs. acc = ys @ i # zs \<longrightarrow> by_event i \<longrightarrow> \<not> too_soon i (last_at ys (item_key i))"
    and new: "by_event i \<longrightarrow> \<not> too_soon i (last_at acc (item_key i))"
    and eq: "acc @ [i] = ys @ j # zs" and j: "by_event j"
  show "\<not> too_soon j (last_at ys (item_key j))"
  proof (cases zs rule: rev_cases)
    case Nil
    with eq have "acc = ys" "i = j" by simp_all
    with new j show ?thesis by simp
  next
    case (snoc zs' z)
    with eq have "acc = ys @ j # zs'" by simp
    with acc j show ?thesis by blast
  qed
qed

lemma triggered_item [simp]:
  "cr_last_triggered (item_issue c i d r rt) = cr_last_triggered rt"
  "cr_last_triggered (count_up f rt) = cr_last_triggered rt"
  "cr_last_triggered (count_coalesced rt) = cr_last_triggered rt"
  "cr_last_triggered (set_queue x q n rt) = cr_last_triggered rt"
  "cr_last_triggered (triggered i rt) = (cr_last_triggered rt)(item_key i \<mapsto> observed_at (wi_event i))"
  "cr_last_triggered (append_item x q i rt) = (cr_last_triggered rt)(item_key i \<mapsto> observed_at (wi_event i))"
  by (simp_all add: item_issue_def put_issue_def count_up_def triggered_def count_coalesced_def set_queue_def
      append_item_def item_key_def)

lemma enqueue_triggered:
  assumes "enqueue i rt = Inr (w, rt')"
  shows "cr_last_triggered rt' =
    (if accepts w then (cr_last_triggered rt)(item_key i \<mapsto> observed_at (wi_event i)) else cr_last_triggered rt)"
proof -
  obtain x q and ag :: compiled_agent where "enqueue_at x (ai_execution (ca_instance ag)) q i rt = (w, rt')"
    using enqueue_at_of [OF assms] by auto
  from enqueue_at_effect(1-5) [OF this] show ?thesis by (cases w) (auto simp: accepts_def)
qed

lemma find_named:
  "distinct (map f xs) \<Longrightarrow> x \<in> set xs \<Longrightarrow> List.find (\<lambda>y. f y = f x) xs = Some x"
  by (induction xs) auto

lemma fired_keys:
  assumes "plan_valid (cr_plan rt)"
  shows "distinct (map (\<lambda>(a, t). (ca_id a, trigger_name t)) (fired rt e))"
proof -
  have "distinct (map (\<lambda>(a, t). (ca_id a, trigger_name t))
      (concat (map (\<lambda>a. map (Pair a) (filter (trigger_fires e a) (ai_triggers (ca_instance a)))) as)))"
    if "distinct (map ca_id as)" "\<forall>ag\<in>set as. distinct (map trigger_name (ai_triggers (ca_instance ag)))"
    for as :: "compiled_agent list"
    using that
  proof (induction as)
    case (Cons a as)
    have "distinct (map trigger_name (filter (trigger_fires e a) (ai_triggers (ca_instance a))))"
      using Cons.prems(2) by (simp add: distinct_map_filter)
    then have "distinct (map (\<lambda>t. (ca_id a, trigger_name t)) (filter (trigger_fires e a) (ai_triggers (ca_instance a))))"
      by (auto simp: distinct_map inj_on_def)
    with Cons show ?case by (auto simp: comp_def)
  qed simp
  with assms show ?thesis by (simp add: fired_def plan_valid_def)
qed

lemma fired_set: "(a, t) \<in> set (fired rt e) \<Longrightarrow>
    a \<in> set (dpl_agents (cr_plan rt)) \<and> t \<in> set (ai_triggers (ca_instance a)) \<and> trigger_fires e a t"
  by (auto simp: fired_def)

lemma event_matches_cool:
  assumes "event_matches rt e = Some (items, cool)" "plan_valid (cr_plan rt)"
  shows "distinct (map item_key items)"
    and "i \<in> set items \<Longrightarrow> by_event i \<Longrightarrow> \<not> too_soon i (cr_last_triggered rt (item_key i))"
proof -
  let ?new = "map (\<lambda>(a, t). item_for e a t (EventIntent e) None) (filter (\<lambda>(a, t). \<not> cooling rt e a t) (fired rt e))"
  have items: "items = ?new \<or> items = [] \<or> (\<exists>i. items = [i] \<and> \<not> by_event i)"
    using assms(1) by (auto simp: event_matches_def item_for_def by_event_def split: if_splits option.splits)
  have "map item_key ?new = map (\<lambda>(a, t). (ca_id a, trigger_name t)) (filter (\<lambda>(a, t). \<not> cooling rt e a t) (fired rt e))"
    by (auto simp: item_key_def item_for_def)
  then have "distinct (map item_key ?new)"
    using distinct_map_filter [OF fired_keys [OF assms(2), of e]] by metis
  with items show "distinct (map item_key items)" by auto
  have new: "\<not> too_soon i (cr_last_triggered rt (item_key i))" if "i \<in> set ?new" for i
  proof -
    obtain a t where i: "i = item_for e a t (EventIntent e) None" and at: "(a, t) \<in> set (fired rt e)"
      and "\<not> cooling rt e a t"
      using \<open>i \<in> set ?new\<close> by auto
    have f: "item_key i = (ca_id a, trigger_name t)" "wi_event i = e" "wi_agent i = a" "wi_trigger i = trigger_name t"
      by (simp_all add: i item_key_def item_for_def)
    have "distinct (map trigger_name (ai_triggers (ca_instance a)))"
      using fired_set [OF at] assms(2) by (simp add: plan_valid_def)
    with find_named [of trigger_name] fired_set [OF at]
    have "item_cooldown i = trigger_cooldown t" by (simp add: item_cooldown_def f)
    with \<open>\<not> cooling rt e a t\<close> show ?thesis by (auto simp: too_soon_def cooling_def f split: option.splits)
  qed
  show "\<not> too_soon i (cr_last_triggered rt (item_key i))" if "i \<in> set items" "by_event i"
    using items that new by auto
qed

lemma accept_event_cool:
  assumes "accept_event e rt = (items, rt')" "plan_valid (cr_plan rt)"
  shows "distinct (map item_key items)" and "cr_last_triggered rt' = cr_last_triggered rt"
    and "i \<in> set items \<Longrightarrow> by_event i \<Longrightarrow> \<not> too_soon i (cr_last_triggered rt (item_key i))"
proof -
  let ?q = "rt\<lparr>cr_counts := (cr_counts rt)\<lparr>ct_received := ct_received (cr_counts rt) + 1\<rparr>,
      cr_last_sequences := (cr_last_sequences rt)(ev_source e \<mapsto> ev_sequence e)\<rparr>"
  show "cr_last_triggered rt' = cr_last_triggered rt" using accept_event_effect(1) [OF assms(1)] by auto
  have items: "items = [] \<or> (\<exists>cool. event_matches ?q e = Some (items, cool))"
    using assms(1) by (auto simp: accept_event_def Let_def put_cooldowns count_up_def
        split: if_splits option.splits prod.splits)
  with event_matches_cool [of ?q e items] assms(2)
  show "distinct (map item_key items)"
    and "i \<in> set items \<Longrightarrow> by_event i \<Longrightarrow> \<not> too_soon i (cr_last_triggered rt (item_key i))"
    by auto
qed

lemma step_cooldowns:
  assumes "cr_step s t" "cooldowns_kept s" "plan_valid plan" "cr_plan (sy_rt s) = plan"
  shows "cooldowns_kept t"
proof -
  have same: "cooldowns_kept t"
    if "cr_last_triggered (sy_rt t) = cr_last_triggered (sy_rt s)" "sy_pending t = sy_pending s"
      "sy_accepted t = sy_accepted s"
    using that assms(2) by (simp add: cooldowns_kept_def)
  show ?thesis
    using assms(1)
  proof cases
    case (cs_receive ev b items rt)
    with accept_event_cool [OF cs_receive(5)] assms(2-4) show ?thesis by (auto simp: cooldowns_kept_def)
  next
    case (cs_enqueue i "is" w rt)
    have i: "by_event i \<longrightarrow> \<not> too_soon i (last_at (sy_accepted s) (item_key i))"
      using assms(2) cs_enqueue(2) by (simp add: cooldowns_kept_def)
    have others: "item_key j \<noteq> item_key i" if "j \<in> set is" for j
    proof -
      have "item_key i \<notin> item_key ` set is" using assms(2) cs_enqueue(2) by (simp add: cooldowns_kept_def)
      with that show ?thesis by (metis imageI)
    qed
    have d: "distinct (map item_key is)" using assms(2) cs_enqueue(2) by (simp add: cooldowns_kept_def)
    show ?thesis
    proof (cases "accepts w")
      case True
      with enqueue_triggered [OF cs_enqueue(3)] cs_enqueue(1,2) assms(2) d
        spaced_append [OF _ i] others
      show ?thesis by (auto simp: cooldowns_kept_def)
    next
      case False
      with enqueue_triggered [OF cs_enqueue(3)] cs_enqueue(1,2) assms(2) d show ?thesis
        by (auto simp: cooldowns_kept_def)
    qed
  next
    case cs_close
    have "cr_last_triggered (drop_queue x r) = cr_last_triggered r" for x r
      by (simp add: drop_queue_def Let_def fold_same [where f = cr_last_triggered])
    then have "cr_last_triggered (fold drop_queue xs r) = cr_last_triggered r" for xs r by (rule fold_same)
    with cs_close show ?thesis by (intro same) (simp_all add: close_workers_def Let_def)
  qed (rule same; auto simp: start_runtime_def publish_event_def stop_begin_def stop_bus_def stop_end_def
      acquire_request_def release_request_def take_slot_def give_slot_def process_item_def item_issue_def
      put_issue_def count_up_def Let_def drop_event_def begin_request_def end_request_def finish_item_def
      set_queue_def interval_round_def elim!: take_item_cases split: if_splits sum.splits taken_as.splits)+
qed

section \<open>Reachable systems\<close>

definition system_inv :: "deployment_plan \<Rightarrow> system \<Rightarrow> bool" where
  "system_inv plan s \<longleftrightarrow>
     runtime_of plan (sy_rt s) \<and> pending_known plan s \<and> queues_within plan (sy_rt s) \<and> items_accounted s
     \<and> slots_kept plan s \<and> ticks_exclusive s \<and> cooldowns_kept s"

lemma new_system_inv:
  assumes "new_continuous plan run kind given_bus = Inr rt" "plan_valid plan"
  shows "system_inv plan (new_system rt)"
proof -
  obtain g b where rt: "rt = \<lparr>cr_plan = plan, cr_run_id = run, cr_kind = kind, cr_graph = g, cr_bus = b,
               cr_ticks = (\<lambda>_. None),
               cr_queues = (\<lambda>a. if a \<in> ca_id ` set (dpl_agents plan) then Some [] else None),
               cr_bounded_active = {}, cr_free_slots = rl_invocations (dpl_limits plan),
               cr_free_requests = request_capacity plan,
               cr_active_requests = 0, cr_queued = 0, cr_workers_closed = False, cr_drain = True,
               cr_last_sequences = (\<lambda>_. None), cr_last_triggered = (\<lambda>_. None),
               cr_state = RtCreated, cr_counts = no_counts, cr_invocations = [], cr_issues = []\<rparr>"
    and g: "if kind = PlainInvoker then g = None
      else \<exists>h. g = Some h \<and> new_graph (dpl_mode plan) (map ca_id (dpl_agents plan)) (dpl_edges plan) = Inr h"
    using assms(1) by (auto simp: new_continuous_def bind_res_Inr_iff split: if_splits option.splits sum.splits)
  have q: "queue_of rt x = []" for x by (simp add: queue_of_def rt)
  have "runtime_of plan rt"
    using g by (auto simp: runtime_of_def graph_fits_def rt plan_ids_def split: if_splits)
  moreover have "queues_within plan rt"
    using assms(2) by (auto simp: queues_within_def q plan_valid_def) (simp_all add: rt)
  moreover have "slots_kept plan (new_system rt)"
    using assms(2)
    by (auto simp: slots_kept_def new_system_def rt requests_def invocations_def at_work_def request_capacity_def
        plan_valid_def)
  moreover have "items_accounted (new_system rt)"
    by (simp add: items_accounted_def new_system_def rt no_counts_def issues_of_def stop_drops_def unprocessed_def)
  moreover have "ticks_exclusive (new_system rt)"
    by (simp add: ticks_exclusive_def new_system_def ticks_def q flights_def) (simp add: rt)
  moreover have "cooldowns_kept (new_system rt)"
    by (simp add: cooldowns_kept_def new_system_def rt spaced_def)
  ultimately show ?thesis by (simp add: system_inv_def new_system_def pending_known_def)
qed

lemma reachable_inv:
  assumes "cr_reachable plan run kind given_bus s" "plan_valid plan"
  shows "system_inv plan s"
  using assms(1)
proof induction
  case (cr_new rt)
  then show ?case by (rule new_system_inv [OF _ assms(2)])
next
  case (cr_next s t)
  note inv = cr_next.IH [unfolded system_inv_def] and st = cr_next.hyps(2)
  have "cr_plan (sy_rt s) = plan" using inv by (simp add: runtime_of_def)
  with inv step_runtime_of [OF st] step_pending_known [OF st] step_within [OF st _ _ _ assms(2)]
    step_accounted [OF st] step_slots [OF st _ assms(2)] step_ticks [OF st] step_cooldowns [OF st _ assms(2)]
  show ?case by (simp add: system_inv_def)
qed

text \<open>Nothing of a source is dispatched twice or out of order.\<close>

lemma accepted_in_order:
  assumes "accept_event e rt = (items, rt')" "items \<noteq> []"
  shows "cr_last_sequences rt' (ev_source e) = Some (ev_sequence e)
    \<and> (\<forall>p. cr_last_sequences rt (ev_source e) = Some p \<longrightarrow> p < ev_sequence e)"
  using assms
  by (auto simp: accept_event_def Let_def put_cooldowns count_up_def not_le put_issue_def
      split: if_splits option.splits prod.splits)

section \<open>Properties\<close>

text \<open>C5. No work is lost: in every reachable state of the runtime each matched item still waits for
  the dispatcher, was queued, was coalesced or is recorded as refused by a full queue; and each
  queued item is in a queue, is being processed, has ended with a record or a failure issue, or is
  recorded as dropped. Queueing an item never raises.\<close>

theorem continuous_accounts_for_items:
  assumes "cr_reachable plan run kind given_bus s" "plan_valid plan"
  shows "ct_matched (cr_counts (sy_rt s)) = length (sy_pending s) + ct_enqueued (cr_counts (sy_rt s))
        + ct_coalesced (cr_counts (sy_rt s)) + issues_of ''runtime.queue.full'' (sy_rt s)
    \<and> int (ct_enqueued (cr_counts (sy_rt s))) = cr_queued (sy_rt s) + int (unprocessed s)
        + int (ct_completed (cr_counts (sy_rt s))) + int (issues_of ''runtime.invocation.failed'' (sy_rt s))
        + int (issues_of ''runtime.queue.drop-oldest'' (sy_rt s)) + int (stop_drops (cr_issues (sy_rt s)))
    \<and> (\<forall>i\<in>set (sy_pending s). \<exists>w rt. enqueue i (sy_rt s) = Inr (w, rt))"
proof (intro conjI ballI)
  have inv: "items_accounted s" "runtime_of plan (sy_rt s)" "pending_known plan s"
    using reachable_inv [OF assms] by (simp_all add: system_inv_def)
  show "ct_matched (cr_counts (sy_rt s)) = length (sy_pending s) + ct_enqueued (cr_counts (sy_rt s))
        + ct_coalesced (cr_counts (sy_rt s)) + issues_of ''runtime.queue.full'' (sy_rt s)"
    and "int (ct_enqueued (cr_counts (sy_rt s))) = cr_queued (sy_rt s) + int (unprocessed s)
        + int (ct_completed (cr_counts (sy_rt s))) + int (issues_of ''runtime.invocation.failed'' (sy_rt s))
        + int (issues_of ''runtime.queue.drop-oldest'' (sy_rt s)) + int (stop_drops (cr_issues (sy_rt s)))"
    using inv(1) by (simp_all add: items_accounted_def Let_def)
  fix i assume "i \<in> set (sy_pending s)"
  then have "wi_agent i \<in> set (dpl_agents plan)" using inv(3) by (simp add: pending_known_def)
  from enqueue_runs [OF inv(2) this] show "\<exists>w rt. enqueue i (sy_rt s) = Inr (w, rt)"
    by (metis surj_pair)
qed

text \<open>C29. The runtime stays within its limits: no queue is longer than the capacity of its agent, the
  queues together hold what the counter says and at most the queued events the plan allows, and
  the requests in flight, the invocations of a plain invoker and the workers of an agent stay
  within their limits.\<close>

theorem continuous_within_limits:
  assumes "cr_reachable plan run kind given_bus s" "plan_valid plan"
  shows "(\<forall>ag\<in>set (dpl_agents plan).
        int (length (queue_of (sy_rt s) (ca_id ag))) \<le> ec_queue_capacity (ai_execution (ca_instance ag))
        \<and> int (at_work s (ca_id ag)) \<le> ec_max_concurrency (ai_execution (ca_instance ag)))
    \<and> cr_queued (sy_rt s) = (\<Sum>x\<in>plan_ids plan. int (length (queue_of (sy_rt s) x)))
    \<and> cr_queued (sy_rt s) \<le> rl_queued (dpl_limits plan)
    \<and> int (requests s) \<le> request_capacity plan \<and> int (invocations s) \<le> rl_invocations (dpl_limits plan)"
proof -
  have "queues_within plan (sy_rt s)" "slots_kept plan s"
    using reachable_inv [OF assms] by (simp_all add: system_inv_def)
  then show ?thesis by (auto simp: queues_within_def slots_kept_def)
qed

text \<open>C19. Ticks of a bounded decision never pile up: an executing agent has at most one of them queued
  or in flight, in every interleaving.\<close>

theorem bounded_ticks_exclusive:
  assumes "cr_reachable plan run kind given_bus s" "plan_valid plan"
  shows "ticks (sy_rt s) x + flights s x \<le> 1"
  using reachable_inv [OF assms] by (simp add: system_inv_def ticks_exclusive_def)

text \<open>Cooldowns hold: an item of an event trigger goes into a queue only if at least the
  trigger's cooldown has passed since the event with which that trigger of that agent was last
  accepted.\<close>

lemma event_triggers_cool_down:
  assumes "cr_reachable plan run kind given_bus s" "plan_valid plan"
    and "sy_accepted s = ys @ i # zs" "by_event i" "last_at ys (item_key i) = Some earlier"
  shows "item_cooldown i \<le> rat_of_int (observed_at (wi_event i) - earlier) / 1000000"
proof -
  have "spaced (sy_accepted s)"
    using reachable_inv [OF assms(1,2)] by (simp add: system_inv_def cooldowns_kept_def)
  with assms(3-5) have "\<not> too_soon i (Some earlier)" unfolding spaced_def by metis
  then show ?thesis by (simp add: too_soon_def not_less)
qed

section \<open>A small run\<close>

text \<open>An agent with a bounded decision every second that also listens for alarms.\<close>

definition watch_agent :: compiled_agent where
  "watch_agent = \<lparr>ca_instance = sample_instance
       \<lparr>ai_id := ''w'',
        ai_triggers := [IntervalTrigger ''poll'' ''1s'' ''0s'', EventTrigger ''alarm'' ''net.alarm'' None None ''1s'']\<rparr>,
     ca_scenario = Some \<lparr>sc_name = ''s'', sc_input_mode = CurrentOnly, sc_instructions = ''i'', sc_choices = [],
       sc_paths = [], sc_observations = [], sc_timing = [], sc_policy = [], sc_local_expectations = [],
       sc_context = None\<rparr>, ca_inputs = []\<rparr>"

definition watch_plan :: deployment_plan where
  "watch_plan = \<lparr>dpl_digest = ''d'', dpl_substrate = ''fake'', dpl_resources = [], dpl_agents = [watch_agent],
     dpl_mode = Independent, dpl_edges = [], dpl_policy = sample_policy_check,
     dpl_limits = \<lparr>rl_instances = 8, rl_invocations = 4, rl_queued = 16\<rparr>,
     dpl_snapshot = \<lparr>sn_blueprints = [], sn_capabilities = []\<rparr>\<rparr>"

definition alarm :: "int \<Rightarrow> timestamp \<Rightarrow> runtime_event" where
  "alarm n t = \<lparr>event_id = ''e'' @ decimal (nat n), ev_run_id = ''run'', ev_type = ''net.alarm'', ev_source = ''net'',
     ev_subject = None, occurred_at = t, observed_at = t, ev_sequence = n, ev_correlation_id = None,
     ev_causation_id = None, ev_payload = OtherPayload ''down''\<rparr>"

definition watch_rt :: continuous where
  "watch_rt = \<lparr>cr_plan = watch_plan, cr_run_id = ''run'', cr_kind = PlainInvoker, cr_graph = None,
     cr_bus = \<lparr>bus_capacity = 16, bus_events = [], bus_closed = False, bus_sink = None, bus_written = []\<rparr>,
     cr_ticks = (\<lambda>_. None), cr_queues = (\<lambda>a. if a = ''w'' then Some [] else None),
     cr_bounded_active = {}, cr_free_slots = 4, cr_free_requests = 20,
     cr_active_requests = 0, cr_queued = 0, cr_workers_closed = False, cr_drain = True,
     cr_last_sequences = (\<lambda>_. None), cr_last_triggered = (\<lambda>_. None),
     cr_state = RtRunning, cr_counts = no_counts, cr_invocations = [], cr_issues = []\<rparr>"

lemma watch_plan_valid: "plan_valid watch_plan"
  by (simp add: plan_valid_def watch_plan_def watch_agent_def sample_instance_def)

lemma watch_started: "cr_reachable watch_plan ''run'' PlainInvoker None (new_system watch_rt)"
proof -
  let ?rt = "watch_rt\<lparr>cr_state := RtCreated\<rparr>"
  have "new_continuous watch_plan ''run'' PlainInvoker None = Inr ?rt"
    by (simp add: new_continuous_def new_bus_def watch_rt_def request_capacity_def watch_plan_def ca_id_def
        watch_agent_def)
  then have r: "cr_reachable watch_plan ''run'' PlainInvoker None (new_system ?rt)" by (rule cr_new)
  have "start_runtime (sy_rt (new_system ?rt)) = Inr watch_rt"
    by (simp add: start_runtime_def new_system_def watch_rt_def)
  from cr_next [OF r cs_start [OF this]] show ?thesis by (simp add: new_system_def)
qed

text \<open>An event that is published to an empty bus, received and queued before anything else happens.\<close>

lemma event_run:
  assumes "cr_reachable plan run kind given_bus s" "sy_pending s = []" "cr_state (sy_rt s) = RtRunning"
    and "cr_drain (sy_rt s)" "ev_run_id e = cr_run_id (sy_rt s)"
    and "bus_events (cr_bus (sy_rt s)) = []" "\<not> bus_closed (cr_bus (sy_rt s))" "0 < bus_capacity (cr_bus (sy_rt s))"
    and "bus_sink (cr_bus (sy_rt s)) = None"
    and "accept_event e (sy_rt s) = ([i], rt)" "enqueue i rt = Inr (w, rt')"
  shows "cr_reachable plan run kind given_bus
    (s\<lparr>sy_rt := rt', sy_pending := [], sy_accepted := sy_accepted s @ (if accepts w then [i] else [])\<rparr>)"
proof -
  let ?b = "(cr_bus (sy_rt s))\<lparr>bus_events := [e]\<rparr>"
  let ?s1 = "s\<lparr>sy_rt := (sy_rt s)\<lparr>cr_bus := ?b\<rparr>\<rparr>"
  have "publish_event e (sy_rt s) = Inr ((sy_rt s)\<lparr>cr_bus := ?b\<rparr>)"
    using assms(3,5-9) by (simp add: publish_event_def bus_publish_def)
  from cr_next [OF assms(1) cs_publish [OF this]]
  have r1: "cr_reachable plan run kind given_bus ?s1" by simp
  have poll: "bus_poll (cr_bus (sy_rt ?s1)) = (Some e, cr_bus (sy_rt s))"
    using assms(6) by (simp add: bus_poll_def)
  have "accept_event e ((sy_rt ?s1)\<lparr>cr_bus := cr_bus (sy_rt s)\<rparr>) = ([i], rt)"
    using assms(10) by simp
  from cr_next [OF r1 cs_receive [OF _ poll _ this]] assms(2,4)
  have r2: "cr_reachable plan run kind given_bus (s\<lparr>sy_rt := rt, sy_pending := [i]\<rparr>)" by simp
  have "enqueue i (sy_rt (s\<lparr>sy_rt := rt, sy_pending := [i]\<rparr>)) = Inr (w, rt')" using assms(11) by simp
  from cr_next [OF r2 cs_enqueue [OF _ this, of "[]"]] show ?thesis by simp
qed

definition alarm_item :: "int \<Rightarrow> timestamp \<Rightarrow> work_item" where
  "alarm_item n t = item_for (alarm n t) watch_agent (EventTrigger ''alarm'' ''net.alarm'' None None ''1s'')
     (EventIntent (alarm n t)) None"

lemma watch_ids [simp]: "ca_id watch_agent = ''w''" "ca_instance watch_agent = sample_instance
       \<lparr>ai_id := ''w'',
        ai_triggers := [IntervalTrigger ''poll'' ''1s'' ''0s'', EventTrigger ''alarm'' ''net.alarm'' None None ''1s'']\<rparr>"
  by (simp_all add: ca_id_def watch_agent_def)

lemma one_second: "duration_seconds ''1s'' = Some 1"
  by (simp add: duration_seconds_def unit_factor_def ascii_digit_def Let_def)

lemma alarm_accepted:
  assumes "cr_plan rt = watch_plan" "case cr_last_sequences rt ''net'' of None \<Rightarrow> True | Some p \<Rightarrow> p < n"
    and "case cr_last_triggered rt (''w'', ''alarm'') of None \<Rightarrow> True | Some l \<Rightarrow> l + 1000000 \<le> t"
  shows "accept_event (alarm n t) rt = ([alarm_item n t],
    rt\<lparr>cr_counts := (cr_counts rt)\<lparr>ct_received := ct_received (cr_counts rt) + 1,
                                     ct_matched := ct_matched (cr_counts rt) + 1\<rparr>,
       cr_last_sequences := (cr_last_sequences rt)(''net'' \<mapsto> n)\<rparr>)"
proof -
  let ?t = "EventTrigger ''alarm'' ''net.alarm'' None None ''1s''"
  have fired: "fired r (alarm n t) = [(watch_agent, ?t)]" if "cr_plan r = watch_plan" for r
    by (simp add: fired_def that watch_plan_def trigger_fires_def alarm_def)
  have "rat_of_int (t - l) / 1000000 < 1 \<longleftrightarrow> t - l < 1000000" for l
    by (simp add: field_simps flip: of_int_less_iff [where 'a = rat])
  then have cool: "\<not> cooling r (alarm n t) watch_agent ?t"
    if "cr_last_triggered r = cr_last_triggered rt" for r
    using assms(3) that by (auto simp: cooling_def trigger_cooldown_def one_second alarm_def split: option.splits)
  have type: "ev_type (alarm n t) = ''net.alarm''" "ev_source (alarm n t) = ''net''" "ev_sequence (alarm n t) = n"
    by (simp_all add: alarm_def)
  have old: "\<not> (case cr_last_sequences rt ''net'' of None \<Rightarrow> False | Some p \<Rightarrow> ev_sequence (alarm n t) \<le> p)"
    using assms(2) type(3) by (auto split: option.splits)
  have "event_matches r (alarm n t) = Some ([alarm_item n t], [])"
    if "cr_plan r = watch_plan" "cr_last_triggered r = cr_last_triggered rt" for r
    by (simp add: event_matches_def type fired [OF that(1)] cool [OF that(2)] alarm_item_def)
  with assms(1) old show ?thesis
    by (simp add: accept_event_def Let_def count_up_def type)
qed

lemma alarm_queued:
  assumes "cr_plan rt = watch_plan" "cr_graph rt = None" "cr_queues rt ''w'' = Some q" "length q < 2" "cr_queued rt < 3"
  shows "enqueue (alarm_item n t) rt = Inr (Appended, append_item ''w'' q (alarm_item n t) rt)"
proof -
  have "plan_agents rt ''w'' = Some watch_agent"
    by (simp add: plan_agents_def assms(1) watch_plan_def)
  moreover have "\<not> bounded_tick (alarm_item n t)" "wi_agent (alarm_item n t) = watch_agent"
    by (simp_all add: bounded_tick_def alarm_item_def item_for_def)
  ultimately show ?thesis
    using assms(1-5) by (simp add: enqueue_def execution_agent_def enqueue_at_def watch_plan_def sample_instance_def)
qed

text \<open>The runtime with \<open>k\<close> queued alarms, the last one with the given sequence and time.\<close>

definition watching :: "nat \<Rightarrow> (int \<times> timestamp) option \<Rightarrow> continuous \<Rightarrow> bool" where
  "watching k latest rt \<longleftrightarrow>
     cr_plan rt = watch_plan \<and> cr_graph rt = None \<and> cr_run_id rt = ''run'' \<and> cr_state rt = RtRunning
     \<and> cr_drain rt \<and> cr_bus rt = cr_bus watch_rt \<and> (\<exists>q. cr_queues rt ''w'' = Some q \<and> length q = k)
     \<and> cr_queued rt = int k \<and> cr_last_sequences rt ''net'' = map_option fst latest
     \<and> cr_last_triggered rt (''w'', ''alarm'') = map_option snd latest"

lemma alarm_step:
  assumes "cr_reachable watch_plan ''run'' PlainInvoker None s" "watching k latest (sy_rt s)" "sy_pending s = []"
    and "k < 2" "case latest of None \<Rightarrow> True | Some (p, l) \<Rightarrow> p < n \<and> l + 1000000 \<le> t"
  shows "\<exists>s'. cr_reachable watch_plan ''run'' PlainInvoker None s' \<and> watching (k + 1) (Some (n, t)) (sy_rt s')
     \<and> sy_pending s' = [] \<and> sy_accepted s' = sy_accepted s @ [alarm_item n t]"
proof -
  let ?rt = "sy_rt s"
  obtain q where q: "cr_queues ?rt ''w'' = Some q" "length q = k"
    and w: "cr_plan ?rt = watch_plan" "cr_graph ?rt = None" "cr_run_id ?rt = ''run''" "cr_state ?rt = RtRunning"
      "cr_drain ?rt" "cr_bus ?rt = cr_bus watch_rt" "cr_queued ?rt = int k"
      "cr_last_sequences ?rt ''net'' = map_option fst latest"
      "cr_last_triggered ?rt (''w'', ''alarm'') = map_option snd latest"
    using assms(2) unfolding watching_def by blast
  let ?r1 = "?rt\<lparr>cr_counts := (cr_counts ?rt)\<lparr>ct_received := ct_received (cr_counts ?rt) + 1,
        ct_matched := ct_matched (cr_counts ?rt) + 1\<rparr>,
      cr_last_sequences := (cr_last_sequences ?rt)(''net'' \<mapsto> n)\<rparr>"
  let ?r2 = "append_item ''w'' q (alarm_item n t) ?r1"
  have a: "accept_event (alarm n t) ?rt = ([alarm_item n t], ?r1)"
    using assms(5) by (intro alarm_accepted) (auto simp: w split: option.splits)
  have e: "enqueue (alarm_item n t) ?r1 = Inr (Appended, ?r2)"
    using assms(4) q by (intro alarm_queued) (simp_all add: w)
  have bus: "bus_events (cr_bus watch_rt) = []" "\<not> bus_closed (cr_bus watch_rt)" "0 < bus_capacity (cr_bus watch_rt)"
    "bus_sink (cr_bus watch_rt) = None"
    by (simp_all add: watch_rt_def)
  have run: "ev_run_id (alarm n t) = ''run''" by (simp add: alarm_def)
  have "cr_reachable watch_plan ''run'' PlainInvoker None
      (s\<lparr>sy_rt := ?r2, sy_pending := [], sy_accepted := sy_accepted s @ [alarm_item n t]\<rparr>)"
    using event_run [OF assms(1,3) w(4,5) _ _ _ _ _ a e] by (simp add: w bus run accepts_def)
  moreover have "watching (k + 1) (Some (n, t)) ?r2"
    using w q by (auto simp: watching_def append_item_def count_up_def triggered_def set_queue_def
        alarm_item_def item_for_def alarm_def)
  ultimately show ?thesis by (intro exI conjI) (assumption, simp_all)
qed

lemma watch_run:
  "\<exists>s. cr_reachable watch_plan ''run'' PlainInvoker None s
     \<and> sy_accepted s = [alarm_item 1 0, alarm_item 2 2000000] \<and> cr_queued (sy_rt s) = 2"
proof -
  have "watching 0 None (sy_rt (new_system watch_rt))" by (simp add: watching_def new_system_def watch_rt_def)
  from alarm_step [OF watch_started this, of 1 0]
  obtain s where s: "cr_reachable watch_plan ''run'' PlainInvoker None s" "watching 1 (Some (1, 0)) (sy_rt s)"
    "sy_pending s = []" "sy_accepted s = [alarm_item 1 0]"
    by (auto simp: new_system_def)
  from alarm_step [OF s(1-3), of 2 2000000] s(4) show ?thesis by (auto simp: watching_def)
qed

theorem continuous_accounts_for_items_witness:
  "\<exists>s. sy_accepted s = [alarm_item 1 0, alarm_item 2 2000000]
     \<and> int (ct_enqueued (cr_counts (sy_rt s))) = 2 + int (unprocessed s)
        + int (ct_completed (cr_counts (sy_rt s))) + int (issues_of ''runtime.invocation.failed'' (sy_rt s))
        + int (issues_of ''runtime.queue.drop-oldest'' (sy_rt s)) + int (stop_drops (cr_issues (sy_rt s)))"
proof -
  obtain s where s: "cr_reachable watch_plan ''run'' PlainInvoker None s"
    "sy_accepted s = [alarm_item 1 0, alarm_item 2 2000000]" "cr_queued (sy_rt s) = 2"
    using watch_run by blast
  from continuous_accounts_for_items [OF s(1) watch_plan_valid] s(2,3) show ?thesis by auto
qed

theorem continuous_within_limits_witness:
  "\<exists>s. sy_accepted s = [alarm_item 1 0, alarm_item 2 2000000]
     \<and> int (length (queue_of (sy_rt s) ''w'')) \<le> 64 \<and> int (at_work s ''w'') \<le> 1"
proof -
  obtain s where s: "cr_reachable watch_plan ''run'' PlainInvoker None s"
    "sy_accepted s = [alarm_item 1 0, alarm_item 2 2000000]"
    using watch_run by blast
  from continuous_within_limits [OF s(1) watch_plan_valid] s(2) show ?thesis
    by (intro exI [of _ s]) (simp add: watch_plan_def sample_instance_def)
qed

theorem bounded_ticks_exclusive_witness:
  "\<exists>s. sy_accepted s = [alarm_item 1 0, alarm_item 2 2000000] \<and> ticks (sy_rt s) ''w'' + flights s ''w'' \<le> 1"
proof -
  obtain s where s: "cr_reachable watch_plan ''run'' PlainInvoker None s"
    "sy_accepted s = [alarm_item 1 0, alarm_item 2 2000000]"
    using watch_run by blast
  from bounded_ticks_exclusive [OF s(1) watch_plan_valid] s(2) show ?thesis by blast
qed

section \<open>Coalescing in a centralized plan\<close>

text \<open>
  The key under which items coalesce names the trigger and the subject of the event but not the
  agent. In a centralized plan the items of all agents wait in the queue of the coordinator, so
  an event two agents listen to under the same trigger name leaves only the item of the second:
  the first agent's item is replaced, without an issue.
\<close>

definition central_agent :: "string \<Rightarrow> trigger list \<Rightarrow> compiled_agent" where
  "central_agent n ts = \<lparr>ca_instance = sample_instance\<lparr>ai_id := n, ai_triggers := ts,
       ai_execution := (ai_execution sample_instance)\<lparr>ec_overflow := Coalesce\<rparr>\<rparr>,
     ca_scenario = None, ca_inputs = []\<rparr>"

definition alarm_trigger :: trigger where
  "alarm_trigger = EventTrigger ''alarm'' ''net.alarm'' None None ''1s''"

definition central_plan :: deployment_plan where
  "central_plan = watch_plan\<lparr>dpl_mode := Centralized,
     dpl_agents := [central_agent ''a'' [alarm_trigger], central_agent ''b'' [alarm_trigger], central_agent ''c'' []],
     dpl_edges := [\<lparr>edge_source = ''c'', edge_target = ''a'', edge_relationship = Coordinates\<rparr>,
                   \<lparr>edge_source = ''c'', edge_target = ''b'', edge_relationship = Coordinates\<rparr>]\<rparr>"

lemma central_ids [simp]:
  "ca_id (central_agent n ts) = n" "ai_triggers (ca_instance (central_agent n ts)) = ts"
  "ai_execution (ca_instance (central_agent n ts)) = (ai_execution sample_instance)\<lparr>ec_overflow := Coalesce\<rparr>"
  "ca_scenario (central_agent n ts) = None"
  by (simp_all add: central_agent_def ca_id_def)

lemma central_started:
  "\<exists>rt. new_continuous central_plan ''run'' PlainCoordinator None = Inr rt
     \<and> cr_plan rt = central_plan \<and> (\<exists>g. cr_graph rt = Some g \<and> (\<forall>a\<in>{''a'', ''b'', ''c''}. entry_agent g a = Inr ''c''))
     \<and> cr_queues rt ''c'' = Some [] \<and> cr_queued rt = 0 \<and> cr_counts rt = no_counts
     \<and> cr_issues rt = [] \<and> cr_last_sequences rt = (\<lambda>_. None) \<and> cr_last_triggered rt = (\<lambda>_. None)"
proof -
  have "\<exists>g. new_graph Centralized [''a'', ''b'', ''c''] (dpl_edges central_plan) = Inr g \<and> graph_coordinator g = Some ''c''"
    by (simp add: new_graph_def central_plan_def add_edge_def validate_edge_def validate_shape_def
        validate_centralized_def edge_keys_def entry_list_def Let_def)
  then obtain g where g: "new_graph Centralized [''a'', ''b'', ''c''] (dpl_edges central_plan) = Inr g"
    "graph_coordinator g = Some ''c''" by blast
  have ids: "map ca_id (dpl_agents central_plan) = [''a'', ''b'', ''c'']"
    "dpl_mode central_plan = Centralized" "rl_queued (dpl_limits central_plan) = 16"
    by (simp_all add: central_plan_def watch_plan_def)
  have "ca_id ` set (dpl_agents central_plan) = {''a'', ''b'', ''c''}" by (simp add: central_plan_def)
  moreover have "\<forall>a\<in>{''a'', ''b'', ''c''}. entry_agent g a = Inr ''c''"
    using new_graph_Inr(2,3) [OF g(1)] g(2) by (simp add: entry_agent_def require_agent_def)
  ultimately show ?thesis
    by (simp add: new_continuous_def new_bus_def ids g)
qed

lemma central_coalescing_mixes_agents:
  "\<exists>rt rt'. new_continuous central_plan ''run'' PlainCoordinator None = Inr rt
     \<and> dispatch (alarm 1 0) rt = Inr rt'
     \<and> ct_matched (cr_counts rt') = 2 \<and> map (\<lambda>i. ca_id (wi_agent i)) (queue_of rt' ''c'') = [''b'']
     \<and> cr_issues rt' = []"
proof -
  obtain rt g where rt: "new_continuous central_plan ''run'' PlainCoordinator None = Inr rt"
    "cr_plan rt = central_plan" "cr_graph rt = Some g"
    "entry_agent g ''a'' = Inr ''c''" "entry_agent g ''b'' = Inr ''c''"
    "cr_queues rt ''c'' = Some []" "cr_queued rt = 0" "cr_counts rt = no_counts"
    "cr_issues rt = []" "cr_last_sequences rt = (\<lambda>_. None)" "cr_last_triggered rt = (\<lambda>_. None)"
    using central_started by auto
  have type: "ev_type (alarm 1 0) = ''net.alarm''" "ev_subject (alarm 1 0) = None"
    by (simp_all add: alarm_def)
  let ?i = "\<lambda>n. item_for (alarm 1 0) (central_agent n [alarm_trigger]) alarm_trigger (EventIntent (alarm 1 0)) None"
  have fired: "fired r (alarm 1 0) = [(central_agent ''a'' [alarm_trigger], alarm_trigger),
      (central_agent ''b'' [alarm_trigger], alarm_trigger)]" if "cr_plan r = central_plan" for r
    by (simp add: fired_def that central_plan_def trigger_fires_def alarm_trigger_def type)
  have "event_matches r (alarm 1 0) = Some ([?i ''a'', ?i ''b''], [])"
    if "cr_plan r = central_plan" "cr_last_triggered r = (\<lambda>_. None)" for r
    by (simp add: event_matches_def type fired [OF that(1)] cooling_def that(2))
  then obtain r where r: "accept_event (alarm 1 0) rt = ([?i ''a'', ?i ''b''], r)"
    "r = rt\<lparr>cr_counts := cr_counts r, cr_last_sequences := cr_last_sequences r\<rparr>" "ct_matched (cr_counts r) = 2"
    by (simp add: accept_event_def Let_def count_up_def rt no_counts_def)
  let ?r1 = "append_item ''c'' [] (?i ''a'') r"
  let ?r2 = "triggered (?i ''b'') (count_coalesced (set_queue ''c'' [?i ''b''] 0 ?r1))"
  have f: "cr_plan r = central_plan" "cr_graph r = Some g" "cr_queues r ''c'' = Some []" "cr_queued r = 0"
    "cr_issues r = []"
    by (subst r(2), simp add: rt)+
  have agents: "plan_agents s ''c'' = Some (central_agent ''c'' [])" if "cr_plan s = central_plan" for s
    by (simp add: plan_agents_def that central_plan_def)
  have i: "ca_id (wi_agent (?i n)) = n" "\<not> bounded_tick (?i n)" "wi_key (?i n) = (''alarm'', None)" for n
    by (simp_all add: item_for_def bounded_tick_def alarm_trigger_def type)
  have ex: "enqueue (?i ''a'') r = Inr (Appended, ?r1)"
    using agents [OF f(1)]
    by (simp add: enqueue_def execution_agent_def f rt(4) i enqueue_at_def central_plan_def watch_plan_def sample_instance_def)
  have f1: "cr_plan ?r1 = central_plan" "cr_graph ?r1 = Some g" "cr_queues ?r1 ''c'' = Some [?i ''a'']"
    by (simp_all add: append_item_def count_up_def triggered_def set_queue_def f)
  have "enqueue (?i ''b'') ?r1 = Inr (Replaced, ?r2)"
    using agents [OF f1(1)]
    by (simp add: enqueue_def execution_agent_def f1 rt(5) i enqueue_at_def)
  with ex r(1) have "dispatch (alarm 1 0) rt = Inr ?r2" by (simp add: dispatch_def)
  moreover have "queue_of ?r2 ''c'' = [?i ''b'']" by (simp add: queue_of_def)
  moreover have "ct_matched (cr_counts ?r2) = 2" "cr_issues ?r2 = []"
    using r(3) f(5) by (simp_all add: append_item_def count_up_def triggered_def set_queue_def count_coalesced_def)
  ultimately show ?thesis using rt(1) i(1) by auto
qed

end
