(* ===== verification/Aggregation.thy ===== *)
theory Aggregation
  imports Verification Specification "HOL-Library.Product_Lexorder" "HOL-Library.Sublist"
begin

text \<open>
  How the telemetry pipeline aggregates a window of samples (\<open>_flatten\<close>, \<open>_assign\<close>,
  \<open>_aggregate_samples\<close> and \<open>_numeric_path\<close> of \<open>mininet_ai/runtime/telemetry.py\<close>): each sample is
  flattened to dotted paths, the values of a path are aggregated, and the nested objects are built
  again from the paths.
\<close>

section \<open>Samples\<close>

record telemetry_sample =
  sm_at :: timestamp
  sm_values :: json_object

section \<open>Aggregation\<close>

text \<open>\<open>dict.update\<close>.\<close>

definition update_all :: "(string \<times> 'v) list \<Rightarrow> (string \<times> 'v) list \<Rightarrow> (string \<times> 'v) list" where
  "update_all al bs = fold (\<lambda>(k, v). AList.update k v) bs al"

function flatten :: "string \<Rightarrow> json \<Rightarrow> json_object" where
  "flatten pre value =
     (case value of
        JObj kvs \<Rightarrow>
          fold (\<lambda>(k, child) result.
                  update_all result (flatten (if pre = [] then k else pre @ ''.'' @ k) child)) kvs []
      | _ \<Rightarrow> if pre = [] then [] else [(pre, value)])"
  by pat_completeness auto

termination flatten
proof (relation "measure (\<lambda>(p, v). size v)")
  fix pre :: string and v kvs and x k child and r :: json_object
  assume v: "v = JObj kvs" and x: "x \<in> set kvs" "(k, child) = x"
  then have "(k, child) \<in> set kvs" by simp
  from size_entry [OF this] v
  show "((if pre = [] then k else pre @ ''.'' @ k, child), pre, v) \<in> measure (\<lambda>(p, v). size v)" by simp
qed simp

declare flatten.simps [simp del]

fun assign_path :: "json_object \<Rightarrow> string list \<Rightarrow> json \<Rightarrow> json_object" where
  "assign_path r [] v = r"
| "assign_path r [p] v = AList.update p v r"
| "assign_path r (p # q # ps) v =
     AList.update p (JObj (assign_path (case map_of r p of Some (JObj c) \<Rightarrow> c | _ \<Rightarrow> []) (q # ps) v)) r"

text \<open>The leaves of a sample under their target and path.\<close>

definition leaves :: "telemetry_sample \<Rightarrow> ((string \<times> string) \<times> json) list" where
  "leaves s = concat (map (\<lambda>(t, v). map (\<lambda>(p, l). ((t, p), l)) (flatten [] v)) (sm_values s))"

definition number_of :: "json \<Rightarrow> rat option" where
  "number_of v = (case v of JInt i \<Rightarrow> Some (of_int i) | JFloat r \<Rightarrow> Some r | _ \<Rightarrow> None)"

definition aggregate_values :: "aggregation \<Rightarrow> json list \<Rightarrow> json" where
  "aggregate_values how vs =
     (let ns = List.map_filter number_of vs in
      if how = Latest \<or> length ns \<noteq> length vs then last vs
      else JFloat (case how of
             Minimum \<Rightarrow> Min (set ns)
           | Maximum \<Rightarrow> Max (set ns)
           | Mean \<Rightarrow> sum_list ns / of_nat (length ns)
           | _ \<Rightarrow> sum_list ns))"

definition assign_value ::
  "(string \<times> string) \<times> json \<Rightarrow> json_object \<Rightarrow> json_object" where
  "assign_value = (\<lambda>((t, p), v) result.
     AList.update t (JObj (assign_path (case map_of result t of Some (JObj c) \<Rightarrow> c | _ \<Rightarrow> []) (split_dots p) v)) result)"

definition aggregate_samples :: "telemetry_sample list \<Rightarrow> aggregation \<Rightarrow> json_object" where
  "aggregate_samples samples how =
     (let all = concat (map leaves samples);
          paths = map (\<lambda>k. (k, aggregate_values how (map snd (filter (\<lambda>x. fst x = k) all))))
                    (sorted_set (map fst all))
      in fold assign_value paths [])"

fun object_path :: "json \<Rightarrow> string list \<Rightarrow> json option" where
  "object_path v [] = Some v"
| "object_path v (p # ps) =
     (case v of JObj kvs \<Rightarrow> (case map_of kvs p of None \<Rightarrow> None | Some w \<Rightarrow> object_path w ps) | _ \<Rightarrow> None)"

definition numeric_path :: "json option \<Rightarrow> string \<Rightarrow> rat option" where
  "numeric_path v path =
     (case v of None \<Rightarrow> None
      | Some v \<Rightarrow> (case object_path v (split_dots path) of None \<Rightarrow> None | Some w \<Rightarrow> number_of w))"

section \<open>Aggregation reads back\<close>

definition is_leaf :: "json \<Rightarrow> bool" where
  "is_leaf v = (case v of JObj _ \<Rightarrow> False | _ \<Rightarrow> True)"

definition leaf_at :: "json \<Rightarrow> string list \<Rightarrow> json option" where
  "leaf_at v ps = (case object_path v ps of Some w \<Rightarrow> if is_leaf w then Some w else None | None \<Rightarrow> None)"

definition clean_key :: "string \<Rightarrow> bool" where
  "clean_key k = (k \<noteq> [] \<and> CHR ''.'' \<notin> set k)"

text \<open>JSON whose objects have distinct keys without dots, as a dictionary of plain names has.\<close>

function clean :: "json \<Rightarrow> bool" where
  "clean v =
     (case v of
        JObj kvs \<Rightarrow> distinct (map fst kvs) \<and> list_all (\<lambda>(k, c). clean_key k \<and> clean c) kvs
      | _ \<Rightarrow> True)"
  by pat_completeness auto

termination clean
proof (relation "measure size")
  fix v and kvs and x k child
  assume v: "v = JObj kvs" and x: "x \<in> set kvs" "(k, child) = x"
  then have "(k, child) \<in> set kvs" by simp
  from size_entry [OF this] v show "(child, v) \<in> measure size" by simp
qed simp

declare clean.simps [simp del]

lemma clean_object:
  "clean (JObj kvs) \<longleftrightarrow> distinct (map fst kvs) \<and> (\<forall>(k, c)\<in>set kvs. clean_key k \<and> clean c)"
  by (subst clean.simps) (auto simp: list_all_iff)

definition below :: "string \<Rightarrow> string \<Rightarrow> string" where
  "below pre k = (if pre = [] then k else pre @ ''.'' @ k)"

definition dotted :: "string \<Rightarrow> string list \<Rightarrow> string" where
  "dotted pre ps = fold (\<lambda>p k. below k p) ps pre"

lemma dotted_simps [simp]:
  "dotted pre [] = pre" "dotted pre (p # ps) = dotted (below pre p) ps"
  by (simp_all add: dotted_def)

lemma split_dots_key: "CHR ''.'' \<notin> set k \<Longrightarrow> split_dots k = [k]"
  by (induction k) auto

lemma split_dots_below:
  "clean_key k \<Longrightarrow> split_dots (below pre k) = (if pre = [] then [] else split_dots pre) @ [k]"
  "clean_key k \<Longrightarrow> below pre k \<noteq> []"
  by (auto simp: below_def clean_key_def split_dots_append split_dots_key)

lemma split_dots_dotted:
  "list_all clean_key ps \<Longrightarrow> pre \<noteq> [] \<Longrightarrow> split_dots (dotted pre ps) = split_dots pre @ ps"
  by (induction ps arbitrary: pre) (simp_all add: split_dots_below)

lemma dotted_nonempty: "list_all clean_key ps \<Longrightarrow> pre \<noteq> [] \<Longrightarrow> dotted pre ps \<noteq> []"
  by (induction ps arbitrary: pre) (simp_all add: split_dots_below)

lemma leaf_at_path:
  assumes "clean v" "leaf_at v ps = Some l"
  shows "list_all clean_key ps"
  using assms
proof (induction ps arbitrary: v)
  case (Cons p ps)
  then obtain kvs c where v: "v = JObj kvs" "map_of kvs p = Some c" "leaf_at c ps = Some l"
    by (auto simp: leaf_at_def split: json.splits option.splits)
  with Cons.prems(1) map_of_SomeD [OF v(2)] have "clean_key p" "clean c" by (auto simp: clean_object)
  with Cons.IH v(3) show ?case by simp
qed simp

lemma leaf_at_object:
  "leaf_at (JObj kvs) ps = (case ps of [] \<Rightarrow> None
     | p # qs \<Rightarrow> (case map_of kvs p of None \<Rightarrow> None | Some c \<Rightarrow> leaf_at c qs))"
  by (auto simp: leaf_at_def is_leaf_def split: list.splits option.splits)

lemma leaf_at_leaf: "is_leaf v \<Longrightarrow> leaf_at v ps = (if ps = [] then Some v else None)"
  by (cases ps) (auto simp: leaf_at_def is_leaf_def split: json.splits)

lemma set_update_all:
  assumes "distinct (map fst r)" "distinct (map fst xs)" "fst ` set r \<inter> fst ` set xs = {}"
  shows "distinct (map fst (update_all r xs)) \<and> set (update_all r xs) = set r \<union> set xs"
  using assms
proof (induction xs arbitrary: r)
  case Nil
  then show ?case by (simp add: update_all_def)
next
  case (Cons x xs)
  obtain k v where x: "x = (k, v)" by (cases x)
  from Cons.prems(3) have "k \<notin> fst ` set r" by (auto simp: x)
  then have up: "AList.update k v r = r @ [(k, v)]" by (induction r) auto
  have "distinct (map fst (update_all (r @ [(k, v)]) xs)) \<and> set (update_all (r @ [(k, v)]) xs) = set (r @ [(k, v)]) \<union> set xs"
    by (rule Cons.IH) (use Cons.prems in \<open>auto simp: x\<close>)
  then show ?case by (auto simp: update_all_def x up)
qed

definition leaf_list :: "string \<Rightarrow> json \<Rightarrow> (string \<times> json) list \<Rightarrow> bool" where
  "leaf_list pre v ls \<longleftrightarrow>
     distinct (map fst ls) \<and> set ls = {(dotted pre ps, l) |ps l. leaf_at v ps = Some l \<and> dotted pre ps \<noteq> []}"

lemma flatten_object:
  assumes "clean (JObj kvs)"
    and "\<And>k c. (k, c) \<in> set kvs \<Longrightarrow> leaf_list (below pre k) c (flatten (below pre k) c)"
    and "distinct (map fst r)" "\<And>k c ps l. (k, c) \<in> set kvs \<Longrightarrow> leaf_at c ps = Some l \<Longrightarrow> dotted (below pre k) ps \<notin> fst ` set r"
  shows "distinct (map fst (fold (\<lambda>(k, c) r. update_all r (flatten (below pre k) c)) kvs r))
    \<and> set (fold (\<lambda>(k, c) r. update_all r (flatten (below pre k) c)) kvs r)
        = set r \<union> {(dotted pre ps, l) |ps l. leaf_at (JObj kvs) ps = Some l}"
  using assms
proof (induction kvs arbitrary: r)
  case Nil
  have "leaf_at (JObj []) ps = None" for ps by (cases ps) (simp_all add: leaf_at_object)
  with Nil show ?case by simp
next
  case (Cons x kvs)
  obtain k c where x: "x = (k, c)" by (cases x)
  let ?new = "flatten (below pre k) c"
  have key: "clean_key k" "clean c" and rest: "clean (JObj kvs)" and fresh: "k \<notin> fst ` set kvs"
    using Cons.prems(1) by (auto simp: clean_object x)
  have path: "dotted (below pre k) ps \<noteq> []" if "leaf_at c ps = Some l" for ps l
    using dotted_nonempty [OF leaf_at_path [OF key(2) that] split_dots_below(2) [OF key(1)]] .
  have new: "distinct (map fst ?new)" "set ?new = {(dotted (below pre k) ps, l) |ps l. leaf_at c ps = Some l}"
    using Cons.prems(2) [of k c] path by (auto simp: leaf_list_def x)
  have up: "distinct (map fst (update_all r ?new)) \<and> set (update_all r ?new) = set r \<union> set ?new"
    by (rule set_update_all [OF Cons.prems(3) new(1)]) (use Cons.prems(4) [of k c] new(2) in \<open>force simp: x\<close>)
  have "distinct (map fst (fold (\<lambda>(k, c) r. update_all r (flatten (below pre k) c)) kvs (update_all r ?new)))
    \<and> set (fold (\<lambda>(k, c) r. update_all r (flatten (below pre k) c)) kvs (update_all r ?new))
        = set (update_all r ?new) \<union> {(dotted pre ps, l) |ps l. leaf_at (JObj kvs) ps = Some l}"
  proof (rule Cons.IH [OF rest])
    fix k' c' ps l
    assume k': "(k', c') \<in> set kvs" and l: "leaf_at c' ps = Some l"
    have clean: "clean_key k'" "clean c'" using rest k' by (auto simp: clean_object)
    have differ: "dotted (below pre k') ps \<noteq> dotted (below pre k) qs" if "leaf_at c qs = Some m" for qs m
    proof
      assume "dotted (below pre k') ps = dotted (below pre k) qs"
      then have "split_dots (below pre k') @ ps = split_dots (below pre k) @ qs"
        using arg_cong [of _ _ split_dots]
          split_dots_dotted [OF leaf_at_path [OF clean(2) l] split_dots_below(2) [OF clean(1), of pre]]
          split_dots_dotted [OF leaf_at_path [OF key(2) that] split_dots_below(2) [OF key(1), of pre]] by simp
      then have "k = k'" by (simp add: split_dots_below(1) clean(1) key(1))
      with fresh k' show False by force
    qed
    have "dotted (below pre k') ps \<notin> fst ` set r" using Cons.prems(4) [of k' c'] k' l by simp
    moreover have "dotted (below pre k') ps \<notin> fst ` set ?new"
    proof
      assume "dotted (below pre k') ps \<in> fst ` set ?new"
      then obtain qs m where "leaf_at c qs = Some m" "dotted (below pre k') ps = dotted (below pre k) qs"
        unfolding new(2) by auto
      with differ show False by blast
    qed
    ultimately show "dotted (below pre k') ps \<notin> fst ` set (update_all r ?new)" using up by (simp add: image_Un)
  qed (use Cons.prems(2) up in auto)
  moreover have "set (update_all r ?new) \<union> {(dotted pre ps, l) |ps l. leaf_at (JObj kvs) ps = Some l}
      = set r \<union> {(dotted pre ps, l) |ps l. leaf_at (JObj (x # kvs)) ps = Some l}"
  proof -
    have other: "map_of kvs k = None" using fresh by (simp add: map_of_eq_None_iff)
    have split: "leaf_at (JObj (x # kvs)) ps = Some l
        \<longleftrightarrow> (\<exists>qs. ps = k # qs \<and> leaf_at c qs = Some l) \<or> leaf_at (JObj kvs) ps = Some l" for ps l
      using other by (cases ps) (auto simp: leaf_at_object x)
    then have "{(dotted pre ps, l) |ps l. leaf_at (JObj (x # kvs)) ps = Some l}
        = {(dotted (below pre k) qs, l) |qs l. leaf_at c qs = Some l}
          \<union> {(dotted pre ps, l) |ps l. leaf_at (JObj kvs) ps = Some l}"
      unfolding split dotted_simps(2) [symmetric] by blast
    with up new(2) show ?thesis by auto
  qed
  ultimately show ?case by (simp add: x)
qed

lemma flatten_leaves: "clean v \<Longrightarrow> leaf_list pre v (flatten pre v)"
proof (induction pre v rule: flatten.induct)
  case (1 pre v)
  show ?case
  proof (cases "\<exists>kvs. v = JObj kvs")
    case True
    then obtain kvs where v: "v = JObj kvs" by blast
    have step: "flatten pre v = fold (\<lambda>(k, c) r. update_all r (flatten (below pre k) c)) kvs []"
      by (subst flatten.simps) (simp add: v below_def)
    have "leaf_list (below pre k) c (flatten (below pre k) c)" if "(k, c) \<in> set kvs" for k c
      using "1.IH" [OF v that] "1.prems" that v by (force simp: clean_object below_def)
    from flatten_object [OF "1.prems" [unfolded v] this, where r = "[]"]
    have flat: "distinct (map fst (flatten pre v))"
      "set (flatten pre v) = {(dotted pre ps, l) |ps l. leaf_at v ps = Some l}"
      unfolding step by (simp_all add: v)
    have "dotted pre ps \<noteq> []" if l: "leaf_at v ps = Some l" for ps l
    proof -
      have path: "list_all clean_key ps" by (rule leaf_at_path [OF "1.prems" l])
      obtain p qs where ps: "ps = p # qs" using l v by (cases ps) (auto simp: leaf_at_object)
      with path dotted_nonempty [of qs "below pre p"] show ?thesis by (simp add: split_dots_below)
    qed
    then have "{(dotted pre ps, l) |ps l. leaf_at v ps = Some l}
        = {(dotted pre ps, l) |ps l. leaf_at v ps = Some l \<and> dotted pre ps \<noteq> []}" by blast
    with flat show ?thesis by (simp add: leaf_list_def)
  next
    case False
    then have "is_leaf v" by (cases v) (auto simp: is_leaf_def)
    moreover have "flatten pre v = (if pre = [] then [] else [(pre, v)])"
      using False by (subst flatten.simps) (auto split: json.splits)
    ultimately show ?thesis by (auto simp: leaf_list_def leaf_at_leaf)
  qed
qed

subsection \<open>Assigning paths\<close>

definition related :: "string list \<Rightarrow> string list \<Rightarrow> bool" where
  "related p q \<longleftrightarrow> prefix p q \<or> prefix q p"

lemma related_Cons [simp]:
  "related [] q" "related q []" "related (x # p) (y # q) \<longleftrightarrow> x = y \<and> related p q"
  by (auto simp: related_def)

lemma related_refl [simp]: "related p p"
  by (simp add: related_def)

lemma leaf_at_update:
  "leaf_at (JObj (AList.update x w r)) q
    = (case q of [] \<Rightarrow> None | z # qs \<Rightarrow> if z = x then leaf_at w qs else leaf_at (JObj r) q)"
  by (auto simp: leaf_at_object update_conv' split: list.splits)

lemma assign_path_leaf:
  assumes "is_leaf v" "p \<noteq> []"
  shows "leaf_at (JObj (assign_path r p v)) q
    = (if q = p then Some v else if related p q then None else leaf_at (JObj r) q)"
  using assms
proof (induction r p v arbitrary: q rule: assign_path.induct)
  case (2 r x v)
  then show ?case
    by (cases q) (auto simp: leaf_at_update leaf_at_leaf)
next
  case (3 r x y ps v)
  show ?case
  proof (cases q)
    case Nil
    then show ?thesis by (simp add: leaf_at_object)
  next
    case (Cons z qs)
    have empty: "leaf_at (JObj []) qs = None" by (cases qs) (simp_all add: leaf_at_object)
    have leaf: "leaf_at c qs = None" if "is_leaf c" "\<not> related (y # ps) qs" for c
      using that by (cases qs) (auto simp: leaf_at_leaf)
    let ?inner = "case map_of r x of Some (JObj c) \<Rightarrow> c | _ \<Rightarrow> []"
    have "leaf_at (JObj ?inner) qs = (case map_of r x of None \<Rightarrow> None | Some c \<Rightarrow> leaf_at c qs)"
      if "\<not> related (y # ps) qs"
      using empty leaf [OF _ that] by (auto simp: is_leaf_def split: option.splits json.splits)
    moreover have "leaf_at (JObj r) (x # qs) = (case map_of r x of None \<Rightarrow> None | Some c \<Rightarrow> leaf_at c qs)"
      by (simp add: leaf_at_object)
    ultimately show ?thesis using "3.IH" [OF "3.prems"(1), of qs] by (cases "qs = y # ps") (simp_all add: Cons leaf_at_update)
  qed
qed simp

lemma assign_all_leaf:
  assumes "\<forall>(p, v)\<in>set xs. is_leaf v \<and> p \<noteq> []" "sorted_wrt (\<lambda>x y. \<not> related (fst x) (fst y)) xs"
  shows "leaf_at (JObj (fold (\<lambda>(p, v) r. assign_path r p v) xs r)) q
    = (case map_of xs q of Some v \<Rightarrow> Some v
       | None \<Rightarrow> if \<exists>x\<in>set xs. related (fst x) q then None else leaf_at (JObj r) q)"
  using assms
proof (induction xs arbitrary: r)
  case (Cons x xs)
  obtain p v where x: "x = (p, v)" by (cases x)
  have v: "is_leaf v" "p \<noteq> []" using Cons.prems(1) by (simp_all add: x)
  have apart: "\<forall>y\<in>set xs. \<not> related (fst y) p" using Cons.prems(2) by (auto simp: x related_def)
  have self: "related p p" for p by (simp add: related_def)
  have "map_of xs p = None" using apart self by (force simp: map_of_eq_None_iff)
  moreover have "leaf_at (JObj (fold (\<lambda>(p, v) r. assign_path r p v) xs (assign_path r p v))) q
    = (case map_of xs q of Some v \<Rightarrow> Some v
       | None \<Rightarrow> if \<exists>x\<in>set xs. related (fst x) q then None else leaf_at (JObj (assign_path r p v)) q)"
    by (rule Cons.IH) (use Cons.prems in \<open>auto simp: x\<close>)
  ultimately show ?case using assign_path_leaf [OF v, of r q] apart by (auto simp: x split: option.splits)
qed simp

subsection \<open>The leaves of a sample\<close>

definition clean_sample :: "telemetry_sample \<Rightarrow> bool" where
  "clean_sample s \<longleftrightarrow> distinct (map fst (sm_values s)) \<and> (\<forall>(t, v)\<in>set (sm_values s). clean v)"

definition sample_leaf :: "telemetry_sample \<Rightarrow> string list \<Rightarrow> json option" where
  "sample_leaf s p = (case p of t # q # qs \<Rightarrow> leaf_at (JObj (sm_values s)) p | _ \<Rightarrow> None)"

definition path_of :: "string \<times> string \<Rightarrow> string list" where
  "path_of k = fst k # split_dots (snd k)"

definition key_of :: "string list \<Rightarrow> string \<times> string" where
  "key_of p = (hd p, dotted [] (tl p))"

lemma sample_leaf_key:
  assumes "clean_sample s" "sample_leaf s p = Some l"
  shows "path_of (key_of p) = p" "is_leaf l"
proof -
  obtain t q qs where p: "p = t # q # qs" "leaf_at (JObj (sm_values s)) p = Some l"
    using assms(2) by (auto simp: sample_leaf_def split: list.splits)
  then obtain v where v: "map_of (sm_values s) t = Some v" "leaf_at v (q # qs) = Some l"
    by (auto simp: leaf_at_object split: option.splits)
  with assms(1) have "clean v" by (auto simp: clean_sample_def dest: map_of_SomeD)
  from leaf_at_path [OF this v(2)] show "path_of (key_of p) = p"
    by (simp add: p path_of_def key_of_def split_dots_dotted split_dots_below)
  show "is_leaf l" using v(2) by (auto simp: leaf_at_def split: option.splits if_splits)
qed

lemma leaves_distinct:
  assumes "\<forall>(t, v)\<in>set kvs. clean v" "distinct (map fst kvs)"
  shows "distinct (map fst (concat (map (\<lambda>(t, v). map (\<lambda>(p, l). ((t, p), l)) (flatten [] v)) kvs)))"
  using assms
proof (induction kvs)
  case (Cons x kvs)
  obtain t v where x: "x = (t, v)" by (cases x)
  have "distinct (map fst (flatten [] v))"
    using flatten_leaves [of v "[]"] Cons.prems(1) by (simp add: x leaf_list_def)
  then have "distinct (map fst (map (\<lambda>(p, l). ((t, p), l)) (flatten [] v)))"
    by (auto simp: distinct_map comp_def split_beta inj_on_def)
  with Cons show ?case by (force simp: x)
qed simp

lemma leaves_set:
  assumes "clean_sample s"
  shows "distinct (map fst (leaves s))"
    and "set (leaves s) = {(key_of p, l) |p l. sample_leaf s p = Some l}"
proof -
  have clean: "\<forall>(t, v)\<in>set (sm_values s). clean v" and dist: "distinct (map fst (sm_values s))"
    using assms by (simp_all add: clean_sample_def)
  show "distinct (map fst (leaves s))" unfolding leaves_def by (rule leaves_distinct [OF clean dist])
  have below: "below [] k = k" for k by (simp add: below_def)
  have path: "ps \<noteq> [] \<Longrightarrow> clean v \<Longrightarrow> leaf_at v ps = Some l \<Longrightarrow> dotted [] ps \<noteq> []" for v ps l
    using leaf_at_path [of v ps l] dotted_nonempty [of "tl ps" "hd ps"]
    by (cases ps) (auto simp: below clean_key_def)
  have flat: "set (flatten [] v) = {(dotted [] ps, l) |ps l. leaf_at v ps = Some l \<and> ps \<noteq> []}" if "clean v" for v
  proof -
    have "leaf_at v ps = Some l \<and> dotted [] ps \<noteq> [] \<longleftrightarrow> leaf_at v ps = Some l \<and> ps \<noteq> []" for ps l
      using path [OF _ that, of ps l] by (cases "ps = []") auto
    with flatten_leaves [OF that, of "[]"] show ?thesis by (simp add: leaf_list_def)
  qed
  have leaf: "sample_leaf s p = Some l \<longleftrightarrow>
      (\<exists>t v ps. (t, v) \<in> set (sm_values s) \<and> p = t # ps \<and> ps \<noteq> [] \<and> leaf_at v ps = Some l)" for p l
    unfolding map_of_eq_Some_iff [OF dist, symmetric]
    by (auto simp: sample_leaf_def leaf_at_object neq_Nil_conv split: list.splits option.splits)
  have mem: "(k, l) \<in> set (leaves s) \<longleftrightarrow> (\<exists>t v p. (t, v) \<in> set (sm_values s) \<and> k = (t, p) \<and> (p, l) \<in> set (flatten [] v))"
    for k l
  proof
    assume "\<exists>t v p. (t, v) \<in> set (sm_values s) \<and> k = (t, p) \<and> (p, l) \<in> set (flatten [] v)"
    then obtain t v p where v: "(t, v) \<in> set (sm_values s)" "k = (t, p)" "(p, l) \<in> set (flatten [] v)" by blast
    then have "(k, l) \<in> set ((\<lambda>(t, v). map (\<lambda>(p, l). ((t, p), l)) (flatten [] v)) (t, v))" by force
    with v(1) show "(k, l) \<in> set (leaves s)" unfolding leaves_def set_concat set_map by blast
  qed (auto simp: leaves_def)
  have "(k, l) \<in> set (leaves s) \<longleftrightarrow> (\<exists>p. k = key_of p \<and> sample_leaf s p = Some l)" for k l
  proof
    assume "(k, l) \<in> set (leaves s)"
    then obtain t v p where v: "(t, v) \<in> set (sm_values s)" "k = (t, p)" "(p, l) \<in> set (flatten [] v)"
      unfolding mem by blast
    from v(1) clean have "clean v" by blast
    with v(3) obtain ps where "p = dotted [] ps" "leaf_at v ps = Some l" "ps \<noteq> []" by (auto simp: flat)
    with v have "k = key_of (t # ps)" "sample_leaf s (t # ps) = Some l" unfolding leaf by (auto simp: key_of_def)
    then show "\<exists>p. k = key_of p \<and> sample_leaf s p = Some l" by blast
  next
    assume "\<exists>p. k = key_of p \<and> sample_leaf s p = Some l"
    then obtain t v ps where v: "(t, v) \<in> set (sm_values s)" "k = key_of (t # ps)" "ps \<noteq> []" "leaf_at v ps = Some l"
      unfolding leaf by blast
    from v(1) clean have "clean v" by blast
    with v(3,4) have "(dotted [] ps, l) \<in> set (flatten [] v)" by (auto simp: flat)
    with v(1,2) show "(k, l) \<in> set (leaves s)" unfolding mem by (auto simp: key_of_def)
  qed
  then show "set (leaves s) = {(key_of p, l) |p l. sample_leaf s p = Some l}" by auto
qed

subsection \<open>The aggregate of a window\<close>

text \<open>No leaf path of one sample runs through a leaf of another.\<close>

definition shaped :: "telemetry_sample list \<Rightarrow> bool" where
  "shaped w \<longleftrightarrow>
     (\<forall>s\<in>set w. clean_sample s)
     \<and> (\<forall>s\<in>set w. \<forall>s'\<in>set w. \<forall>p q. sample_leaf s p \<noteq> None \<and> sample_leaf s' q \<noteq> None \<and> related p q \<longrightarrow> p = q)"

definition leaf_values :: "telemetry_sample list \<Rightarrow> string list \<Rightarrow> json list" where
  "leaf_values w p = List.map_filter (\<lambda>s. sample_leaf s p) w"

lemma filter_single:
  assumes "distinct (map fst xs)"
  shows "map snd (filter (\<lambda>x. fst x = k) xs) = (case map_of xs k of None \<Rightarrow> [] | Some v \<Rightarrow> [v])"
  using assms
proof (induction xs)
  case (Cons x xs)
  then have "filter (\<lambda>y. fst y = k) xs = []" if "fst x = k"
    using that by (simp add: filter_empty_conv) (metis imageI)
  with Cons show ?case by (cases x) auto
qed simp

lemma values_of_key:
  assumes "clean_sample s" "path_of (key_of p) = p"
  shows "map snd (filter (\<lambda>x. fst x = key_of p) (leaves s)) = (case sample_leaf s p of None \<Rightarrow> [] | Some v \<Rightarrow> [v])"
proof -
  note ls = leaves_set [OF assms(1)]
  have "map_of (leaves s) (key_of p) = Some l \<longleftrightarrow> sample_leaf s p = Some l" for l
  proof -
    have "map_of (leaves s) (key_of p) = Some l \<longleftrightarrow> (\<exists>q. key_of p = key_of q \<and> sample_leaf s q = Some l)"
      using ls by simp
    moreover have "q = p" if "key_of p = key_of q" "sample_leaf s q = Some l" for q
      using sample_leaf_key(1) [OF assms(1) that(2)] assms(2) that(1) by simp
    ultimately show ?thesis by blast
  qed
  then have "map_of (leaves s) (key_of p) = sample_leaf s p" by (metis option.exhaust)
  with filter_single [OF ls(1)] show ?thesis by simp
qed

lemma values_of_window:
  assumes "\<forall>s\<in>set w. clean_sample s" "path_of (key_of p) = p"
  shows "map snd (filter (\<lambda>x. fst x = key_of p) (concat (map leaves w))) = leaf_values w p"
  using assms(1)
  by (induction w) (auto simp: leaf_values_def List.map_filter_simps values_of_key [OF _ assms(2)] split: option.splits)

lemma window_keys:
  assumes "\<forall>s\<in>set w. clean_sample s"
  shows "fst ` set (concat (map leaves w)) = {key_of p |p. leaf_values w p \<noteq> []}"
proof -
  have "leaf_values w p \<noteq> [] \<longleftrightarrow> (\<exists>s\<in>set w. \<exists>l. sample_leaf s p = Some l)" for p
    by (induction w) (auto simp: leaf_values_def List.map_filter_simps split: option.splits)
  moreover have "fst ` set (concat (map leaves w)) = {key_of p |p. \<exists>s\<in>set w. \<exists>l. sample_leaf s p = Some l}"
    using assms leaves_set(2) by (fastforce simp: image_iff)
  ultimately show ?thesis by simp
qed

lemma leaf_values_member:
  "leaf_values w p \<noteq> [] \<Longrightarrow> \<exists>s\<in>set w. sample_leaf s p \<noteq> None"
  "v \<in> set (leaf_values w p) \<Longrightarrow> \<exists>s\<in>set w. sample_leaf s p = Some v"
  by (induction w) (auto simp: leaf_values_def List.map_filter_simps split: option.splits)

lemma aggregate_values_leaf:
  assumes "vs \<noteq> []" "\<forall>v\<in>set vs. is_leaf v"
  shows "is_leaf (aggregate_values how vs)"
  using assms last_in_set [OF assms(1)]
  by (auto simp: aggregate_values_def Let_def is_leaf_def split: aggregation.splits)

lemma assign_value_path: "assign_value (k, v) = (\<lambda>r. assign_path r (path_of k) v)"
  using split_dots_nonempty [of "snd k"]
  by (cases k; cases "split_dots (snd k)") (simp_all add: fun_eq_iff assign_value_def path_of_def)

lemma aggregate_leaf:
  assumes "shaped w"
  shows "leaf_at (JObj (aggregate_samples w how)) p
    = (if leaf_values w p = [] then None else Some (aggregate_values how (leaf_values w p)))"
proof -
  define all where "all = concat (map leaves w)"
  define ks where "ks = sorted_set (map fst all)"
  let ?val = "\<lambda>k. aggregate_values how (map snd (filter (\<lambda>x. fst x = k) all))"
  define xs where "xs = map (\<lambda>k. (path_of k, ?val k)) ks"
  have clean: "\<forall>s\<in>set w. clean_sample s" using assms by (simp add: shaped_def)
  have keys: "set ks = {key_of p |p. leaf_values w p \<noteq> []}"
    using window_keys [OF clean] by (simp add: ks_def all_def)
  have own: "path_of (key_of p) = p" if "leaf_values w p \<noteq> []" for p
    using leaf_values_member(1) [OF that] sample_leaf_key(1) clean by blast
  have leaf: "is_leaf (aggregate_values how (leaf_values w p))" if "leaf_values w p \<noteq> []" for p
    using leaf_values_member(2) [of _ w p] sample_leaf_key(2) clean
    by (intro aggregate_values_leaf [OF that]) blast
  have agg: "aggregate_samples w how = fold (\<lambda>(p, v) r. assign_path r p v) xs []"
    by (simp add: aggregate_samples_def Let_def all_def ks_def xs_def fold_map comp_def assign_value_path)
  have val_of: "?val (key_of p) = aggregate_values how (leaf_values w p)" if "leaf_values w p \<noteq> []" for p
    using values_of_window [OF clean own [OF that]] by (simp add: all_def)
  have xs: "set xs = {(p, aggregate_values how (leaf_values w p)) |p. leaf_values w p \<noteq> []}"
    using own val_of by (force simp: xs_def keys)
  have pairs: "p = q" if "leaf_values w p \<noteq> []" "leaf_values w q \<noteq> []" "related p q" for p q
    using assms leaf_values_member(1) [OF that(1)] leaf_values_member(1) [OF that(2)] that(3)
    unfolding shaped_def by fast
  have "distinct ks" by (simp add: ks_def)
  moreover have "inj_on path_of (set ks)"
    by (rule inj_on_inverseI [where g = key_of]) (use own keys in auto)
  ultimately have dist: "distinct (map fst xs)" by (simp add: xs_def comp_def distinct_map)
  have "sorted_wrt (\<lambda>x y. \<not> related (fst x) (fst y)) xs"
    unfolding sorted_wrt_iff_nth_less
  proof (intro allI impI)
    fix i j assume ij: "i < j" "j < length xs"
    then have "fst (xs ! i) \<noteq> fst (xs ! j)" using dist nth_eq_iff_index_eq [OF dist, of i j] by simp
    moreover have "xs ! i \<in> set xs" "xs ! j \<in> set xs" using ij by simp_all
    ultimately show "\<not> related (fst (xs ! i)) (fst (xs ! j))" using pairs unfolding xs by auto
  qed
  moreover have "\<forall>(p, v)\<in>set xs. is_leaf v \<and> p \<noteq> []" using own leaf by (auto simp: xs path_of_def)
  ultimately have res: "leaf_at (JObj (aggregate_samples w how)) p = (case map_of xs p of Some v \<Rightarrow> Some v
       | None \<Rightarrow> if \<exists>x\<in>set xs. related (fst x) p then None else leaf_at (JObj []) p)"
    unfolding agg by (intro assign_all_leaf)
  have empty: "leaf_at (JObj []) p = None" by (cases p) (simp_all add: leaf_at_object)
  show ?thesis
  proof (cases "leaf_values w p = []")
    case True
    then have "map_of xs p = None" by (auto simp: map_of_eq_None_iff xs)
    with res empty True show ?thesis by simp
  next
    case False
    then have "map_of xs p = Some (aggregate_values how (leaf_values w p))"
      using xs dist by (subst map_of_eq_Some_iff) auto
    with res False show ?thesis by simp
  qed
qed

lemma numeric_path_leaf:
  "numeric_path (map_of r t) path = (case leaf_at (JObj r) (t # split_dots path) of None \<Rightarrow> None | Some v \<Rightarrow> number_of v)"
  by (auto simp: numeric_path_def leaf_at_def is_leaf_def number_of_def split: option.splits json.splits)

lemma aggregate_reads:
  assumes "shaped w"
  shows "numeric_path (map_of (aggregate_samples w how) t) path
    = (case leaf_values w (t # split_dots path) of [] \<Rightarrow> None | vs \<Rightarrow> number_of (aggregate_values how vs))"
  by (simp add: numeric_path_leaf aggregate_leaf [OF assms] split: list.splits)

lemma sample_leaf_at: "sample_leaf s (t # split_dots path) = leaf_at (JObj (sm_values s)) (t # split_dots path)"
  using split_dots_nonempty [of path] by (auto simp: sample_leaf_def split: list.splits)

lemma leaf_at_prefix: "leaf_at v p \<noteq> None \<Longrightarrow> leaf_at v q \<noteq> None \<Longrightarrow> related p q \<Longrightarrow> p = q"
proof (induction p arbitrary: v q)
  case Nil
  then have "is_leaf v" by (auto simp: leaf_at_def split: if_splits)
  with Nil show ?case by (simp add: leaf_at_leaf split: if_splits)
next
  case (Cons x p)
  then have "\<not> is_leaf v" by (auto simp: leaf_at_leaf)
  then obtain kvs where v: "v = JObj kvs" by (cases v) (auto simp: is_leaf_def)
  show ?case
  proof (cases q)
    case Nil
    with Cons.prems v show ?thesis by (simp add: leaf_at_object)
  next
    case (Cons y qs)
    with Cons.prems v have "x = y" "related p qs" by simp_all
    with Cons.prems Cons v Cons.IH show ?thesis by (auto simp: leaf_at_object split: option.splits)
  qed
qed

lemma shaped_single: "clean_sample s \<Longrightarrow> shaped [s]"
proof -
  have "leaf_at (JObj (sm_values s)) p \<noteq> None" if "sample_leaf s p \<noteq> None" for p
    using that by (auto simp: sample_leaf_def split: list.splits)
  with leaf_at_prefix have "p = q" if "sample_leaf s p \<noteq> None" "sample_leaf s q \<noteq> None" "related p q" for p q
    using that by blast
  then show ?thesis if "clean_sample s" using that by (auto simp: shaped_def)
qed

text \<open>A key with a dot hides the leaf at its first part: the interface \<open>s1-eth0\<close> loses its counter to its VLAN.\<close>

lemma dotted_key_loses_value:
  "map_of (aggregate_samples [\<lparr>sm_at = 0, sm_values = [(''s1'',
      JObj [(''s1-eth0'', JInt 5), (''s1-eth0.10'', JInt 7)])]\<rparr>] Latest) ''s1''
   = Some (JObj [(''s1-eth0'', JObj [(''10'', JInt 7)])])"
  by code_simp

section \<open>Properties\<close>

text \<open>What is read at a path of an aggregated window is the aggregate of the values its samples
  have at that path, and nothing where no sample has one, as long as no path runs through a leaf
  of another sample: flattening, aggregating and building the objects again lose and mix nothing.\<close>

lemma aggregate_is_pathwise:
  assumes "shaped w"
  shows "numeric_path (map_of (aggregate_samples w how) t) path
    = (case leaf_values w (t # split_dots path) of [] \<Rightarrow> None | vs \<Rightarrow> number_of (aggregate_values how vs))"
  by (rule aggregate_reads [OF assms])

definition two_ports :: "int \<Rightarrow> telemetry_sample" where
  "two_ports n = \<lparr>sm_at = n, sm_values = [(''l1'', JObj [(''rx'', JObj [(''bytes'', JInt n)])]),
     (''l2'', JObj [(''up'', JBool True)])]\<rparr>"

lemma two_ports_leaf:
  "sample_leaf (two_ports n) p = (if p = [''l1'', ''rx'', ''bytes''] then Some (JInt n)
     else if p = [''l2'', ''up''] then Some (JBool True) else None)"
proof -
  have "leaf_at v q = (if q = [] then Some v else None)" if "v = JInt n \<or> v = JBool True" for q v
    using that by (auto simp: leaf_at_leaf is_leaf_def)
  then show ?thesis
    by (auto simp: sample_leaf_def two_ports_def leaf_at_object split: list.splits)
qed

lemma two_ports_shaped: "shaped [two_ports 4, two_ports 9]"
proof -
  have "clean_sample (two_ports n)" for n by (simp add: clean_sample_def two_ports_def clean.simps clean_key_def)
  then show ?thesis by (auto simp: shaped_def two_ports_leaf split: if_splits)
qed

text \<open>Flattening a sample of plain names to paths and building its objects again loses nothing a
  detector can read.\<close>

lemma flatten_assign_roundtrip:
  assumes "clean_sample s"
  shows "numeric_path (map_of (aggregate_samples [s] Latest) t) path = numeric_path (map_of (sm_values s) t) path"
  unfolding aggregate_reads [OF shaped_single [OF assms]]
  unfolding numeric_path_leaf
  by (auto simp: leaf_values_def List.map_filter_simps sample_leaf_at aggregate_values_def split: option.splits)

end
