(* ===== verification/Telemetry.thy ===== *)
theory Telemetry
  imports Aggregation Events Topology
begin

text \<open>
  The telemetry pipeline (\<open>mininet_ai/runtime/telemetry.py\<close>): for each observation policy of
  each agent it samples the substrate, keeps a sliding window, aggregates it and lets the
  policy's detectors fire.

  \<open>telemetry\<close> holds the fields of \<open>TelemetryPipeline\<close>; \<open>take_sample\<close> is \<open>_sample\<close> with the
  observation the substrate gave, and \<open>run_rounds\<close> a history of the rounds of all samplers, in
  the order they took the data lock. The nth event a pipeline makes has the nth id and clock reading of a
  supply. Numbers are exact: floats are rationals, and the mean and standard deviation of a
  baseline are reals. Observed values are JSON by their type.
\<close>

section \<open>Data\<close>

record policy_binding =
  bi_identity :: string
  bi_agent :: agent_instance
  bi_policy :: observation_policy

datatype pipeline_state = PipeCreated | PipeRunning | PipeStopping | PipeStopped

datatype telemetry_error =
    TelemetryRunId
  | TelemetryLifecycle
  | PolicyUnknown
  | StopTimeout
  | ObserverRaised raised
  | IdentityMismatch
  | TargetMismatch
  | OutOfOrder

fun telemetry_code :: "telemetry_error \<Rightarrow> string option" where
  "telemetry_code TelemetryLifecycle = Some ''telemetry.lifecycle.invalid''"
| "telemetry_code PolicyUnknown = Some ''telemetry.policy.unknown''"
| "telemetry_code IdentityMismatch = Some ''telemetry.observation.identity-mismatch''"
| "telemetry_code TargetMismatch = Some ''telemetry.observation.target-mismatch''"
| "telemetry_code OutOfOrder = Some ''telemetry.observation.out-of-order''"
| "telemetry_code _ = None"

record telemetry_issue =
  ti_code :: string
  ti_agent :: agent_id
  ti_observation :: string

text \<open>The key of a detector's history and cooldown: binding, detector and target.\<close>

type_synonym detector_key = "string \<times> string \<times> string"

record telemetry =
  te_run_id :: run_id
  te_bindings :: "policy_binding list"
  te_state :: pipeline_state
  te_windows :: "string \<Rightarrow> telemetry_sample list"
  te_history :: "detector_key \<Rightarrow> (timestamp \<times> rat) list"
  te_last :: "detector_key \<rightharpoonup> timestamp"
  te_sequence :: nat
  te_samples :: nat
  te_observations :: nat
  te_detector_events :: nat
  te_failures :: nat
  te_issues :: "telemetry_issue list"

definition bindings_of :: "agent_instance list \<Rightarrow> policy_binding list" where
  "bindings_of agents =
     concat (map (\<lambda>a. map (\<lambda>(n, p). \<lparr>bi_identity = ai_id a @ '':'' @ decimal n @ '':'' @ op_observation p,
                                     bi_agent = a, bi_policy = p\<rparr>)
                        (enumerate 0 (ai_observation_policies a))) agents)"

definition new_telemetry :: "agent_instance list \<Rightarrow> run_id \<Rightarrow> telemetry_error + telemetry" where
  "new_telemetry agents run =
     (if run = [] then Inl TelemetryRunId
      else Inr \<lparr>te_run_id = run, te_bindings = bindings_of agents, te_state = PipeCreated,
                te_windows = (\<lambda>_. []), te_history = (\<lambda>_. []), te_last = (\<lambda>_. None), te_sequence = 0,
                te_samples = 0, te_observations = 0, te_detector_events = 0, te_failures = 0, te_issues = []\<rparr>)"

definition start_telemetry :: "telemetry \<Rightarrow> telemetry_error + telemetry" where
  "start_telemetry t =
     (if te_state t \<noteq> PipeCreated then Inl TelemetryLifecycle else Inr (t\<lparr>te_state := PipeRunning\<rparr>))"

text \<open>\<open>stop\<close> before and after the samplers are joined.\<close>

definition stop_telemetry :: "rat \<Rightarrow> telemetry \<Rightarrow> telemetry_error + telemetry" where
  "stop_telemetry timeout t =
     (if timeout \<le> 0 then Inl StopTimeout
      else if te_state t = PipeStopped then Inr t
      else if te_state t = PipeCreated then Inl TelemetryLifecycle
      else Inr (t\<lparr>te_state := PipeStopping\<rparr>))"

definition stopped_telemetry :: "telemetry \<Rightarrow> telemetry" where
  "stopped_telemetry t = t\<lparr>te_state := PipeStopped\<rparr>"

definition pipe_issue :: "string \<Rightarrow> policy_binding \<Rightarrow> telemetry \<Rightarrow> telemetry" where
  "pipe_issue code b t =
     t\<lparr>te_issues := te_issues t @ [\<lparr>ti_code = code, ti_agent = ai_id (bi_agent b),
                                    ti_observation = op_observation (bi_policy b)\<rparr>],
       te_failures := te_failures t + 1\<rparr>"

section \<open>Detectors\<close>

definition compare_numbers :: "rat \<Rightarrow> comparison \<Rightarrow> rat \<Rightarrow> bool" where
  "compare_numbers a opr b =
     (case opr of CmpGt \<Rightarrow> b < a | CmpGte \<Rightarrow> b \<le> a | CmpLt \<Rightarrow> a < b | CmpLte \<Rightarrow> a \<le> b
      | CmpEq \<Rightarrow> a = b | CmpNe \<Rightarrow> a \<noteq> b)"

definition mean_of :: "rat list \<Rightarrow> rat" where
  "mean_of xs = sum_list xs / of_nat (length xs)"

definition deviation_of :: "rat list \<Rightarrow> real" where
  "deviation_of xs = sqrt (of_rat (sum_list (map (\<lambda>x. (x - mean_of xs) ^ 2) xs) / of_nat (length xs)))"

definition float_max :: real where
  "float_max = (2 ^ 53 - 1) * 2 ^ 971"

definition anomaly :: "rat \<Rightarrow> rat list \<Rightarrow> rat \<Rightarrow> int \<Rightarrow> (rat \<times> real \<times> real) option" where
  "anomaly value baseline sensitivity min_samples =
     (if int (length baseline) < min_samples then None
      else
        let mean = mean_of baseline; dev = deviation_of baseline;
            score = (if dev = 0 then (if value = mean then 0 else float_max)
                     else \<bar>of_rat (value - mean)\<bar> / dev)
        in if score < of_rat sensitivity then None else Some (mean, dev, score))"

text \<open>\<open>timedelta(seconds=x)\<close> in microseconds: to the nearest, ties to even.\<close>

definition round_even :: "rat \<Rightarrow> int" where
  "round_even x =
     (let f = \<lfloor>x\<rfloor>; d = x - of_int f in
      if d < 1 / 2 then f else if 1 / 2 < d then f + 1 else if even f then f else f + 1)"

definition seconds_of :: "string \<Rightarrow> rat" where
  "seconds_of d = (case duration_seconds d of Some s \<Rightarrow> s | None \<Rightarrow> 0)"

definition window_micros :: "observation_policy \<Rightarrow> int" where
  "window_micros p = round_even (seconds_of (op_window p) * 1000000)"

definition max_samples :: "observation_policy \<Rightarrow> int" where
  "max_samples p = \<lceil>seconds_of (op_window p) / seconds_of (op_every p)\<rceil> + 1"

text \<open>What a detector found: the parts of its payload that depend on its kind.\<close>

record finding =
  fd_operator :: "comparison option"
  fd_threshold :: "rat option"
  fd_mean :: "real option"
  fd_deviation :: "real option"
  fd_score :: "real option"
  fd_samples :: int

text \<open>
  The evaluation of one detector at one target: the finding, if there is one, and the history,
  which an anomaly detector extends even when it stays silent.
\<close>

definition evaluate ::
  "observation_policy \<Rightarrow> nat \<Rightarrow> timestamp \<Rightarrow> detector \<Rightarrow> rat \<Rightarrow> (timestamp \<times> rat) list
   \<Rightarrow> finding option \<times> (timestamp \<times> rat) list" where
  "evaluate p samples ended d value history =
     (case d of
        Threshold _ _ _ opr threshold _ \<Rightarrow>
          (if compare_numbers value opr threshold
           then Some \<lparr>fd_operator = Some opr, fd_threshold = Some threshold, fd_mean = None, fd_deviation = None,
                      fd_score = None, fd_samples = int samples\<rparr>
           else None, history)
      | Anomaly _ _ _ sensitivity min_samples _ \<Rightarrow>
          (let kept = dropWhile (\<lambda>(seen, _). seen < ended - window_micros p) history;
               baseline = map snd kept
           in (map_option (\<lambda>(mean, dev, score).
                 \<lparr>fd_operator = None, fd_threshold = None, fd_mean = Some (of_rat mean), fd_deviation = Some dev,
                  fd_score = Some score, fd_samples = int (length baseline)\<rparr>)
                 (anomaly value baseline sensitivity min_samples),
               kept @ [(ended, value)])))"

definition cooling_down :: "detector \<Rightarrow> timestamp \<Rightarrow> timestamp option \<Rightarrow> bool" where
  "cooling_down d ended earlier =
     (case earlier of None \<Rightarrow> False
      | Some l \<Rightarrow> rat_of_int (ended - l) / 1000000 < seconds_of (dt_cooldown d))"

definition is_anomaly :: "detector \<Rightarrow> bool" where
  "is_anomaly d = (case d of Anomaly _ _ _ _ _ _ \<Rightarrow> True | _ \<Rightarrow> False)"

section \<open>Events\<close>

text \<open>The ids and clock readings the pipeline's nth event is made with.\<close>

type_synonym event_supply = "nat \<Rightarrow> string \<times> timestamp"

definition observation_event ::
  "event_supply \<Rightarrow> policy_binding \<Rightarrow> telemetry_sample list \<Rightarrow> json_object \<Rightarrow> telemetry \<Rightarrow> runtime_event" where
  "observation_event supply b samples aggregated t =
     (let p = bi_policy b; started = sm_at (hd samples); ended = sm_at (last samples) in
      \<lparr>event_id = fst (supply (te_sequence t)), ev_run_id = te_run_id t, ev_type = ''observation.recorded'',
       ev_source = ''telemetry'', ev_subject = Some (ai_id (bi_agent b)), occurred_at = ended,
       observed_at = max (snd (supply (te_sequence t))) ended, ev_sequence = int (te_sequence t),
       ev_correlation_id = None, ev_causation_id = None,
       ev_payload = ObservationRecorded
         \<lparr>obp_observation = op_observation p, obp_targets = at_targets (ai_attachment (bi_agent b)),
          obp_values = aggregated, obp_agent = Some (ai_id (bi_agent b)), obp_aggregation = Some (op_aggregation p),
          obp_samples = Some (int (length samples)), obp_started = Some started, obp_ended = Some ended\<rparr>\<rparr>)"

definition detector_event ::
  "event_supply \<Rightarrow> policy_binding \<Rightarrow> telemetry_sample list \<Rightarrow> string \<Rightarrow> detector \<Rightarrow> string \<Rightarrow> rat \<Rightarrow> finding
   \<Rightarrow> telemetry \<Rightarrow> runtime_event" where
  "detector_event supply b samples cause d target value f t =
     (let p = bi_policy b; started = sm_at (hd samples); ended = sm_at (last samples) in
      \<lparr>event_id = fst (supply (te_sequence t)), ev_run_id = te_run_id t, ev_type = dt_event d,
       ev_source = ''telemetry'', ev_subject = Some target, occurred_at = ended,
       observed_at = max (snd (supply (te_sequence t))) ended, ev_sequence = int (te_sequence t),
       ev_correlation_id = Some cause, ev_causation_id = Some cause,
       ev_payload = DetectorFired
         \<lparr>dp_agent = ai_id (bi_agent b), dp_observation = op_observation p, dp_detector = dt_name d,
          dp_anomaly = is_anomaly d, dp_aggregation = op_aggregation p, dp_target = target, dp_path = dt_path d,
          dp_value = value, dp_operator = fd_operator f, dp_threshold = fd_threshold f,
          dp_baseline_mean = fd_mean f, dp_baseline_stddev = fd_deviation f, dp_score = fd_score f,
          dp_samples = fd_samples f, dp_started = started, dp_ended = ended\<rparr>\<rparr>)"

text \<open>One round of the loops of \<open>_detector_events\<close>.\<close>

definition detect ::
  "event_supply \<Rightarrow> policy_binding \<Rightarrow> telemetry_sample list \<Rightarrow> json_object \<Rightarrow> string \<Rightarrow> detector \<times> string
   \<Rightarrow> runtime_event list \<times> telemetry \<Rightarrow> runtime_event list \<times> telemetry" where
  "detect supply b samples aggregated cause = (\<lambda>(d, target) (events, t).
     (case numeric_path (map_of aggregated target) (dt_path d) of
        None \<Rightarrow> (events, t)
      | Some value \<Rightarrow>
          (let key = (bi_identity b, dt_name d, target);
               ended = sm_at (last samples);
               (found, history) = evaluate (bi_policy b) (length samples) ended d value (te_history t key);
               t = t\<lparr>te_history := (te_history t)(key := history)\<rparr> in
           case found of
             None \<Rightarrow> (events, t)
           | Some f \<Rightarrow>
               if cooling_down d ended (te_last t key) then (events, t)
               else (events @ [detector_event supply b samples cause d target value f t],
                     t\<lparr>te_last := (te_last t)(key \<mapsto> ended), te_sequence := te_sequence t + 1\<rparr>))))"

definition make_events ::
  "event_supply \<Rightarrow> policy_binding \<Rightarrow> telemetry_sample list \<Rightarrow> json_object \<Rightarrow> telemetry
   \<Rightarrow> runtime_event list \<times> telemetry" where
  "make_events supply b samples aggregated t =
     (let e = observation_event supply b samples aggregated t in
      fold (detect supply b samples aggregated (event_id e))
        (List.product (op_detectors (bi_policy b)) (at_targets (ai_attachment (bi_agent b))))
        ([e], t\<lparr>te_sequence := te_sequence t + 1\<rparr>))"

section \<open>Sampling\<close>

definition sample_query :: "policy_binding \<Rightarrow> observation_query" where
  "sample_query b = \<lparr>oq_name = op_observation (bi_policy b),
     oq_targets = at_targets (ai_attachment (bi_agent b)), oq_parameters = []\<rparr>"

definition slide_window ::
  "observation_policy \<Rightarrow> telemetry_sample \<Rightarrow> telemetry_sample list \<Rightarrow> telemetry_sample list" where
  "slide_window p s window =
     (let kept = dropWhile (\<lambda>x. sm_at x < sm_at s - window_micros p) (window @ [s])
      in drop (length kept - nat (max_samples p)) kept)"

text \<open>The checks of \<open>_sample\<close> on what the substrate returned, and the part under the data lock.\<close>

definition check_observation ::
  "policy_binding \<Rightarrow> raised + observation_result \<Rightarrow> telemetry \<Rightarrow> telemetry_error + telemetry_sample" where
  "check_observation b answer t =
     (case answer of
        Inl e \<Rightarrow> Inl (ObserverRaised e)
      | Inr r \<Rightarrow>
          if or_run_id r \<noteq> te_run_id t \<or> or_query r \<noteq> sample_query b then Inl IdentityMismatch
          else if \<not> fst ` set (or_values r) \<subseteq> set (oq_targets (sample_query b)) then Inl TargetMismatch
          else if te_windows t (bi_identity b) \<noteq> []
                  \<and> or_observed_at r < sm_at (last (te_windows t (bi_identity b))) then Inl OutOfOrder
          else Inr \<lparr>sm_at = or_observed_at r, sm_values = or_values r\<rparr>)"

definition record_sample ::
  "event_supply \<Rightarrow> policy_binding \<Rightarrow> telemetry_sample \<Rightarrow> telemetry \<Rightarrow> runtime_event list \<times> telemetry" where
  "record_sample supply b s t =
     (let window = slide_window (bi_policy b) s (te_windows t (bi_identity b));
          t = t\<lparr>te_windows := (te_windows t)(bi_identity b := window)\<rparr>
      in make_events supply b window (aggregate_samples window (op_aggregation (bi_policy b))) t)"

text \<open>The publishing loop: \<open>accepts\<close> says which events the publisher takes without raising.\<close>

definition publish_one ::
  "(runtime_event \<Rightarrow> bool) \<Rightarrow> policy_binding \<Rightarrow> runtime_event
   \<Rightarrow> runtime_event list \<times> telemetry \<Rightarrow> runtime_event list \<times> telemetry" where
  "publish_one accepts b e = (\<lambda>(emitted, t).
     if \<not> accepts e then (emitted, pipe_issue ''telemetry.publish.failed'' b t)
     else (emitted @ [e],
           if ev_type e = ''observation.recorded'' then t\<lparr>te_observations := te_observations t + 1\<rparr>
           else t\<lparr>te_detector_events := te_detector_events t + 1\<rparr>))"

definition take_sample ::
  "event_supply \<Rightarrow> (runtime_event \<Rightarrow> bool) \<Rightarrow> policy_binding \<Rightarrow> raised + observation_result \<Rightarrow> telemetry
   \<Rightarrow> telemetry_error + runtime_event list \<times> telemetry" where
  "take_sample supply accepts b answer t =
     bind_res (check_observation b answer t) (\<lambda>s.
       (let (events, t) = record_sample supply b s t;
            t = t\<lparr>te_samples := te_samples t + 1\<rparr>
        in Inr (fold (publish_one accepts b) events ([], t))))"

text \<open>
  \<open>sample_once\<close>, with what the substrate gives for each matching binding; a binding that raises
  ends the loop and keeps what the earlier ones did.
\<close>

fun sample_each ::
  "event_supply \<Rightarrow> (runtime_event \<Rightarrow> bool) \<Rightarrow> (string \<Rightarrow> raised + observation_result) \<Rightarrow> policy_binding list
   \<Rightarrow> runtime_event list \<Rightarrow> telemetry \<Rightarrow> (telemetry_error + runtime_event list) \<times> telemetry" where
  "sample_each supply accepts observe [] emitted t = (Inr emitted, t)"
| "sample_each supply accepts observe (b # bs) emitted t =
     (case take_sample supply accepts b (observe (bi_identity b)) t of
        Inl e \<Rightarrow> (Inl e, t)
      | Inr (es, t) \<Rightarrow> sample_each supply accepts observe bs (emitted @ es) t)"

definition sample_once ::
  "event_supply \<Rightarrow> (runtime_event \<Rightarrow> bool) \<Rightarrow> agent_id \<Rightarrow> string \<Rightarrow> (string \<Rightarrow> raised + observation_result)
   \<Rightarrow> telemetry \<Rightarrow> (telemetry_error + runtime_event list) \<times> telemetry" where
  "sample_once supply accepts agent observation observe t =
     (let bs = filter (\<lambda>b. ai_id (bi_agent b) = agent \<and> op_observation (bi_policy b) = observation) (te_bindings t) in
      if bs = [] then (Inl PolicyUnknown, t) else sample_each supply accepts observe bs [] t)"

text \<open>One round of \<open>_sampling_loop\<close>: a failed sample is an issue and the loop goes on.\<close>

definition sampling_round ::
  "event_supply \<Rightarrow> (runtime_event \<Rightarrow> bool) \<Rightarrow> policy_binding \<Rightarrow> raised + observation_result \<Rightarrow> telemetry
   \<Rightarrow> runtime_event list \<times> telemetry" where
  "sampling_round supply accepts b answer t =
     (case take_sample supply accepts b answer t of
        Inl _ \<Rightarrow> ([], pipe_issue ''telemetry.sample.failed'' b t)
      | Inr r \<Rightarrow> r)"

text \<open>A history of rounds of all samplers; the first component is every event made so far.\<close>

definition run_round ::
  "event_supply \<Rightarrow> (runtime_event \<Rightarrow> bool) \<Rightarrow> policy_binding \<times> (raised + observation_result)
   \<Rightarrow> runtime_event list \<times> telemetry \<Rightarrow> runtime_event list \<times> telemetry" where
  "run_round supply accepts = (\<lambda>(b, answer) (made, t).
     (case check_observation b answer t of
        Inl _ \<Rightarrow> made
      | Inr s \<Rightarrow> made @ fst (record_sample supply b s t),
      snd (sampling_round supply accepts b answer t)))"

definition run_rounds ::
  "event_supply \<Rightarrow> (runtime_event \<Rightarrow> bool) \<Rightarrow> (policy_binding \<times> (raised + observation_result)) list \<Rightarrow> telemetry
   \<Rightarrow> runtime_event list \<times> telemetry" where
  "run_rounds supply accepts rounds t = fold (run_round supply accepts) rounds ([], t)"

section \<open>Windows\<close>

lemma policy_valid:
  assumes "new_observation_policy p = Inr q"
  shows "op_observation p \<noteq> []" "0 < seconds_of (op_every p)" "seconds_of (op_every p) \<le> seconds_of (op_window p)"
    "distinct (map dt_name (op_detectors p))" "d \<in> set (op_detectors p) \<Longrightarrow> \<exists>d'. new_detector d = Inr d'"
proof -
  obtain every window where t: "duration_seconds (op_every p) = Some every" "duration_seconds (op_window p) = Some window"
    using assms by (auto simp: new_observation_policy_def split: option.splits)
  with assms have r: "op_observation p \<noteq> []" "\<exists>ds. map_res new_detector (op_detectors p) = Inr ds" "0 < every"
      "every \<le> window" "distinct (map dt_name (op_detectors p))"
    by (auto simp: new_observation_policy_def bind_res_Inr_iff split: if_splits)
  then show "op_observation p \<noteq> []" "0 < seconds_of (op_every p)" "distinct (map dt_name (op_detectors p))"
    "seconds_of (op_every p) \<le> seconds_of (op_window p)"
    by (simp_all add: seconds_of_def t)
  show "d \<in> set (op_detectors p) \<Longrightarrow> \<exists>d'. new_detector d = Inr d'"
    using r(2) by (auto simp: map_res_returns_iff)
qed

lemma round_even_nonneg: "0 \<le> x \<Longrightarrow> 0 \<le> round_even x"
  by (auto simp: round_even_def Let_def)

lemma window_positive:
  assumes "new_observation_policy p = Inr q"
  shows "0 \<le> window_micros p" "1 \<le> max_samples p"
proof -
  note v = policy_valid(2,3) [OF assms]
  then have "0 \<le> seconds_of (op_window p)" by simp
  then show "0 \<le> window_micros p" by (simp add: window_micros_def round_even_nonneg)
  have "0 \<le> seconds_of (op_window p) / seconds_of (op_every p)" using v by simp
  then show "1 \<le> max_samples p" by (simp add: max_samples_def ceiling_mono [of 0, simplified])
qed

definition window_ok :: "observation_policy \<Rightarrow> telemetry_sample list \<Rightarrow> bool" where
  "window_ok p w \<longleftrightarrow>
     sorted (map sm_at w) \<and> int (length w) \<le> max_samples p
     \<and> (\<forall>x\<in>set w. sm_at (last w) - window_micros p \<le> sm_at x)"

lemma dropWhile_sorted:
  "sorted (map f xs) \<Longrightarrow> x \<in> set (dropWhile (\<lambda>x. f x < c) xs) \<Longrightarrow> c \<le> f x"
proof (induction xs)
  case (Cons a xs)
  show ?case
  proof (cases "f a < c")
    case True
    with Cons show ?thesis by simp
  next
    case False
    with Cons.prems show ?thesis by (auto simp: not_less)
  qed
qed simp

lemma last_dropWhile: "\<not> P (last xs) \<Longrightarrow> xs \<noteq> [] \<Longrightarrow> dropWhile P xs \<noteq> [] \<and> last (dropWhile P xs) = last xs"
  by (induction xs) (auto split: if_splits)

lemma slide_window_ok:
  assumes "new_observation_policy p = Inr q" "sorted (map sm_at w)" "\<forall>x\<in>set w. sm_at x \<le> sm_at s"
  shows "window_ok p (slide_window p s w)" "slide_window p s w \<noteq> []" "last (slide_window p s w) = s"
proof -
  define kept where "kept = dropWhile (\<lambda>x. sm_at x < sm_at s - window_micros p) (w @ [s])"
  define k where "k = nat (max_samples p)"
  note v = window_positive [OF assms(1)]
  have slide: "slide_window p s w = drop (length kept - k) kept"
    by (simp add: slide_window_def Let_def kept_def k_def)
  have sorted: "sorted (map sm_at (w @ [s]))" using assms(2,3) by (simp add: sorted_append)
  have kept: "kept \<noteq> []" "last kept = s"
    using last_dropWhile [of "\<lambda>x. sm_at x < sm_at s - window_micros p" "w @ [s]"] v(1) by (simp_all add: kept_def)
  have k: "0 < k" using v(2) by (simp add: k_def)
  then have less: "length kept - k < length kept" using kept(1) by simp
  with slide show ne: "slide_window p s w \<noteq> []" by simp
  show last: "last (slide_window p s w) = s" using kept(2) less by (simp add: slide last_drop)
  have "sorted (map sm_at kept)"
    using sorted unfolding kept_def dropWhile_eq_drop by (metis drop_map sorted_wrt_drop)
  then have "sorted (map sm_at (slide_window p s w))" unfolding slide by (metis drop_map sorted_wrt_drop)
  moreover have "int (length (slide_window p s w)) \<le> max_samples p" using v(2) by (simp add: slide k_def)
  moreover have "sm_at s - window_micros p \<le> sm_at x" if "x \<in> set (slide_window p s w)" for x
  proof -
    have "x \<in> set kept" using that unfolding slide by (rule in_set_dropD)
    with dropWhile_sorted [OF sorted] show ?thesis by (auto simp: kept_def)
  qed
  ultimately show "window_ok p (slide_window p s w)" by (simp add: window_ok_def last)
qed

text \<open>Making events leaves the windows alone, and publishing leaves all but the counts.\<close>

lemma detect_windows: "te_windows (snd (detect supply b samples agg cause x acc)) = te_windows (snd acc)
    \<and> te_bindings (snd (detect supply b samples agg cause x acc)) = te_bindings (snd acc)
    \<and> te_run_id (snd (detect supply b samples agg cause x acc)) = te_run_id (snd acc)"
  by (cases x; cases acc) (auto simp: detect_def Let_def split: option.splits prod.splits)

lemma detect_all_windows:
  "te_windows (snd (fold (detect supply b samples agg cause) xs acc)) = te_windows (snd acc)
    \<and> te_bindings (snd (fold (detect supply b samples agg cause) xs acc)) = te_bindings (snd acc)
    \<and> te_run_id (snd (fold (detect supply b samples agg cause) xs acc)) = te_run_id (snd acc)"
  by (induction xs arbitrary: acc) (simp_all add: detect_windows)

lemma record_sample_windows:
  "te_windows (snd (record_sample supply b s t))
     = (te_windows t)(bi_identity b := slide_window (bi_policy b) s (te_windows t (bi_identity b)))"
  "te_bindings (snd (record_sample supply b s t)) = te_bindings t"
  "te_run_id (snd (record_sample supply b s t)) = te_run_id t"
  by (simp_all add: record_sample_def make_events_def Let_def detect_all_windows)

definition core :: "telemetry \<Rightarrow> run_id \<times> policy_binding list \<times> (string \<Rightarrow> telemetry_sample list)
    \<times> (detector_key \<Rightarrow> (timestamp \<times> rat) list) \<times> (detector_key \<rightharpoonup> timestamp) \<times> nat" where
  "core t = (te_run_id t, te_bindings t, te_windows t, te_history t, te_last t, te_sequence t)"

lemma publish_core: "core (snd (fold (publish_one accepts b) es acc)) = core (snd acc)"
proof (induction es arbitrary: acc)
  case (Cons e es)
  have "core (snd (publish_one accepts b e acc)) = core (snd acc)"
    by (cases acc) (auto simp: publish_one_def core_def pipe_issue_def)
  with Cons show ?case by simp
qed simp

text \<open>A round either leaves the core of the state alone or changes it as recording its sample does.\<close>

lemma round_cases:
  assumes "run_round supply accepts (b, answer) (made, t) = (made', t')"
  obtains (refused) e where "check_observation b answer t = Inl e" "made' = made" "core t' = core t"
  | (sampled) s where "check_observation b answer t = Inr s"
      "made' = made @ fst (record_sample supply b s t)" "core t' = core (snd (record_sample supply b s t))"
proof (cases "check_observation b answer t")
  case (Inl e)
  show ?thesis
    by (rule refused [OF Inl])
      (use assms Inl in \<open>auto simp: run_round_def sampling_round_def take_sample_def core_def pipe_issue_def\<close>)
next
  case (Inr s)
  obtain es u where r: "record_sample supply b s t = (es, u)" by (cases "record_sample supply b s t")
  have "core t' = core (u\<lparr>te_samples := te_samples u + 1\<rparr>)"
    using assms Inr r publish_core [of accepts b es "([], u\<lparr>te_samples := te_samples u + 1\<rparr>)"]
    by (auto simp: run_round_def sampling_round_def take_sample_def Let_def)
  then have "core t' = core u" by (simp add: core_def)
  with sampled [OF Inr] assms Inr r show ?thesis by (simp add: run_round_def)
qed

section \<open>Identities of bindings\<close>

lemma decimal_digits: "list_all (\<lambda>c. c \<noteq> CHR '':'') (decimal n)"
  unfolding decimal_def
proof (induction n rule: less_induct)
  case (less n)
  have digit: "digit_char d \<noteq> CHR '':''" if "d < 10" for d
  proof
    assume "digit_char d = CHR '':''"
    then have "(of_char (digit_char d) :: nat) = of_char CHR '':''" by simp
    with that show False by (simp add: digit_char_def)
  qed
  show ?case
  proof (cases "n < 10")
    case True
    then show ?thesis by (simp add: digits_in.simps [of 10 n] digit)
  next
    case False
    then have "list_all (\<lambda>c. c \<noteq> CHR '':'') (digits_in 10 (n div 10))" by (intro less) simp
    with False show ?thesis by (simp add: digits_in.simps [of 10 n] digit)
  qed
qed

lemma same_up_to_colon:
  assumes "x @ '':'' @ xs = y @ '':'' @ ys" "CHR '':'' \<notin> set x" "CHR '':'' \<notin> set y"
  shows "x = y \<and> xs = ys"
  using assms
proof (induction x arbitrary: y)
  case Nil
  then show ?case by (cases y) auto
next
  case (Cons c x)
  then show ?case by (cases y) auto
qed

text \<open>What compilation guarantees of the agents and their policies.\<close>

definition policies_ok :: "agent_instance list \<Rightarrow> bool" where
  "policies_ok agents \<longleftrightarrow>
     distinct (map ai_id agents)
     \<and> (\<forall>a\<in>set agents. ai_id a \<noteq> [] \<and> CHR '':'' \<notin> set (ai_id a)
          \<and> at_targets (ai_attachment a) \<noteq> [] \<and> [] \<notin> set (at_targets (ai_attachment a))
          \<and> distinct (map op_observation (ai_observation_policies a))
          \<and> (\<forall>p\<in>set (ai_observation_policies a). new_observation_policy p = Inr p))"

lemma bindings_of_mem:
  "b \<in> set (bindings_of agents) \<longleftrightarrow>
     (\<exists>a\<in>set agents. \<exists>n<length (ai_observation_policies a).
        b = \<lparr>bi_identity = ai_id a @ '':'' @ decimal n @ '':'' @ op_observation (ai_observation_policies a ! n),
             bi_agent = a, bi_policy = ai_observation_policies a ! n\<rparr>)"
  by (force simp: bindings_of_def in_set_enumerate_eq)

lemma same_agent_id:
  assumes "policies_ok agents" "a \<in> set agents" "a' \<in> set agents" "ai_id a = ai_id a'"
  shows "a = a'"
  using assms by (auto simp: policies_ok_def distinct_map dest: inj_onD)

lemma binding_identity_unique:
  assumes "policies_ok agents" "b \<in> set (bindings_of agents)" "b' \<in> set (bindings_of agents)"
    and "bi_identity b = bi_identity b'"
  shows "b = b'"
proof -
  obtain a n where b: "a \<in> set agents"
    "b = \<lparr>bi_identity = ai_id a @ '':'' @ decimal n @ '':'' @ op_observation (ai_observation_policies a ! n),
             bi_agent = a, bi_policy = ai_observation_policies a ! n\<rparr>"
    using assms(2) by (auto simp: bindings_of_mem)
  obtain a' n' where b': "a' \<in> set agents"
    "b' = \<lparr>bi_identity = ai_id a' @ '':'' @ decimal n' @ '':'' @ op_observation (ai_observation_policies a' ! n'),
             bi_agent = a', bi_policy = ai_observation_policies a' ! n'\<rparr>"
    using assms(3) by (auto simp: bindings_of_mem)
  have "CHR '':'' \<notin> set (ai_id a)" "CHR '':'' \<notin> set (ai_id a')"
    using assms(1) b(1) b'(1) by (simp_all add: policies_ok_def)
  with assms(4) b(2) b'(2) same_up_to_colon
  have ids: "ai_id a = ai_id a'" and rest: "decimal n @ '':'' @ op_observation (ai_observation_policies a ! n)
      = decimal n' @ '':'' @ op_observation (ai_observation_policies a' ! n')"
    by (metis policy_binding.select_convs(1))+
  have "a = a'" using same_agent_id [OF assms(1) b(1) b'(1) ids] .
  moreover have "decimal n = decimal n'"
    using same_up_to_colon [OF rest] decimal_digits by (auto simp: list_all_iff)
  ultimately show ?thesis using decimal_inj [of n n'] b(2) b'(2) by simp
qed

lemma same_subject:
  assumes "policies_ok agents" "b \<in> set (bindings_of agents)" "b' \<in> set (bindings_of agents)"
    and "ai_id (bi_agent b) = ai_id (bi_agent b')" "op_observation (bi_policy b) = op_observation (bi_policy b')"
  shows "b = b'"
proof -
  obtain a n where b: "a \<in> set agents" "n < length (ai_observation_policies a)"
    "b = \<lparr>bi_identity = ai_id a @ '':'' @ decimal n @ '':'' @ op_observation (ai_observation_policies a ! n),
             bi_agent = a, bi_policy = ai_observation_policies a ! n\<rparr>"
    using assms(2) by (auto simp: bindings_of_mem)
  obtain a' n' where b': "a' \<in> set agents" "n' < length (ai_observation_policies a')"
    "b' = \<lparr>bi_identity = ai_id a' @ '':'' @ decimal n' @ '':'' @ op_observation (ai_observation_policies a' ! n'),
             bi_agent = a', bi_policy = ai_observation_policies a' ! n'\<rparr>"
    using assms(3) by (auto simp: bindings_of_mem)
  have "a = a'" using same_agent_id [OF assms(1) b(1) b'(1)] assms(4) b(3) b'(3) by simp
  moreover have "distinct (map op_observation (ai_observation_policies a))"
    using assms(1) b(1) by (simp add: policies_ok_def)
  then have "n = n'"
    using assms(5) b(2,3) b'(2,3) \<open>a = a'\<close> nth_eq_iff_index_eq [of "map op_observation (ai_observation_policies a)" n n']
    by simp
  ultimately show ?thesis using b(3) b'(3) by simp
qed

lemma binding_policy:
  assumes "policies_ok agents" "b \<in> set (bindings_of agents)"
  shows "new_observation_policy (bi_policy b) = Inr (bi_policy b)" "bi_agent b \<in> set agents"
proof -
  obtain a n where b: "a \<in> set agents" "n < length (ai_observation_policies a)" "bi_agent b = a"
    "bi_policy b = ai_observation_policies a ! n"
    using assms(2) by (auto simp: bindings_of_mem)
  with assms(1) show "new_observation_policy (bi_policy b) = Inr (bi_policy b)" "bi_agent b \<in> set agents"
    by (simp_all add: policies_ok_def)
qed

section \<open>Runs\<close>

definition rounds_of :: "agent_instance list \<Rightarrow> (policy_binding \<times> (raised + observation_result)) list \<Rightarrow> bool" where
  "rounds_of agents rounds \<longleftrightarrow> fst ` set rounds \<subseteq> set (bindings_of agents)"

lemma core_eq: "core t = core u \<longleftrightarrow> te_run_id t = te_run_id u \<and> te_bindings t = te_bindings u
    \<and> te_windows t = te_windows u \<and> te_history t = te_history u \<and> te_last t = te_last u
    \<and> te_sequence t = te_sequence u"
  by (auto simp: core_def)

text \<open>An invariant of the events made and the core of the state.\<close>

lemma run_rounds_invariant:
  assumes "run_rounds supply accepts rounds t0 = (made, t)" "rounds_of agents rounds" "P [] t0"
    and core: "\<And>made t u. P made t \<Longrightarrow> core u = core t \<Longrightarrow> P made u"
    and step: "\<And>b answer s made t. b \<in> set (bindings_of agents) \<Longrightarrow> P made t
      \<Longrightarrow> check_observation b answer t = Inr s
      \<Longrightarrow> P (made @ fst (record_sample supply b s t)) (snd (record_sample supply b s t))"
  shows "P made t"
proof -
  have "P made' t'"
    if "fold (run_round supply accepts) rs (made0, t0) = (made', t')" "fst ` set rs \<subseteq> set (bindings_of agents)"
      "P made0 t0" for rs made0 t0 made' t'
    using that
  proof (induction rs arbitrary: made0 t0)
    case (Cons r rs)
    obtain b answer where r: "r = (b, answer)" by (cases r)
    obtain made1 t1 where one: "run_round supply accepts (b, answer) (made0, t0) = (made1, t1)"
      by (cases "run_round supply accepts (b, answer) (made0, t0)")
    have "P made1 t1"
      using one
    proof (cases rule: round_cases)
      case (refused e)
      with core [OF Cons.prems(3)] show ?thesis by simp
    next
      case (sampled s)
      have "b \<in> set (bindings_of agents)" using Cons.prems(2) by (simp add: r)
      from core [OF step [OF this Cons.prems(3) sampled(1)] sampled(3)] sampled(2) show ?thesis by simp
    qed
    with Cons.IH [of made1 t1] Cons.prems(1,2) one show ?case by (simp add: r)
  qed simp
  with assms(1-3) show ?thesis unfolding run_rounds_def rounds_of_def by blast
qed

definition windows_ok :: "agent_instance list \<Rightarrow> telemetry \<Rightarrow> bool" where
  "windows_ok agents t \<longleftrightarrow>
     (\<forall>b\<in>set (bindings_of agents). let w = te_windows t (bi_identity b) in
        w = [] \<or> window_ok (bi_policy b) w)"

lemma sorted_last: "sorted (map f xs) \<Longrightarrow> x \<in> set xs \<Longrightarrow> f x \<le> f (last xs)"
  by (induction xs) auto

lemma checked_sample:
  assumes "windows_ok agents t" "b \<in> set (bindings_of agents)" "check_observation b answer t = Inr s"
  shows "sorted (map sm_at (te_windows t (bi_identity b)))"
    and "\<forall>x\<in>set (te_windows t (bi_identity b)). sm_at x \<le> sm_at s"
proof -
  let ?w = "te_windows t (bi_identity b)"
  show sorted: "sorted (map sm_at ?w)"
    using assms(1,2) by (auto simp: windows_ok_def window_ok_def Let_def)
  have "?w \<noteq> [] \<Longrightarrow> sm_at (last ?w) \<le> sm_at s"
    using assms(3) by (auto simp: check_observation_def split: sum.splits if_splits)
  with sorted_last [OF sorted] show "\<forall>x\<in>set ?w. sm_at x \<le> sm_at s" by force
qed

lemma record_sample_ok:
  assumes "policies_ok agents" "windows_ok agents t" "b \<in> set (bindings_of agents)" "check_observation b answer t = Inr s"
  shows "windows_ok agents (snd (record_sample supply b s t))"
proof -
  have "window_ok (bi_policy b) (slide_window (bi_policy b) s (te_windows t (bi_identity b)))"
    using slide_window_ok(1) [OF binding_policy(1) [OF assms(1,3)] checked_sample [OF assms(2-4)]] .
  moreover have "c = b" if "c \<in> set (bindings_of agents)" "bi_identity c = bi_identity b" for c
    using binding_identity_unique [OF assms(1) that(1) assms(3) that(2)] .
  ultimately show ?thesis
    using assms(2) by (auto simp: windows_ok_def record_sample_windows Let_def)
qed

lemma windows_ok_new: "new_telemetry agents run = Inr t \<Longrightarrow> windows_ok agents t"
  by (auto simp: new_telemetry_def windows_ok_def Let_def split: if_splits)

lemma windows_ok_core: "core t = core u \<Longrightarrow> windows_ok agents t = windows_ok agents u"
  by (simp add: windows_ok_def core_eq)

lemma run_windows_ok:
  assumes "new_telemetry agents run = Inr t0" "policies_ok agents" "rounds_of agents rounds"
    and "run_rounds supply accepts rounds t0 = (made, t)"
  shows "windows_ok agents t"
  using assms(4,3) windows_ok_new [OF assms(1)]
  by (rule run_rounds_invariant [where P = "\<lambda>_. windows_ok agents"])
    (use windows_ok_core record_sample_ok [OF assms(2)] in blast)+

subsection \<open>The events of one sample\<close>

text \<open>What one round of the detector loops adds.\<close>

definition fires ::
  "policy_binding \<Rightarrow> telemetry_sample list \<Rightarrow> json_object \<Rightarrow> detector \<Rightarrow> string \<Rightarrow> telemetry \<Rightarrow> (rat \<times> finding) option" where
  "fires b samples agg d target t =
     (case numeric_path (map_of agg target) (dt_path d) of
        None \<Rightarrow> None
      | Some value \<Rightarrow>
          (let key = (bi_identity b, dt_name d, target); ended = sm_at (last samples) in
           case fst (evaluate (bi_policy b) (length samples) ended d value (te_history t key)) of
             None \<Rightarrow> None
           | Some f \<Rightarrow> if cooling_down d ended (te_last t key) then None else Some (value, f)))"

lemma detect_effect:
  obtains (silent) h where "fires b samples agg d target t = None"
      "detect ids b samples agg cause (d, target) (es, t) = (es, t\<lparr>te_history := h\<rparr>)"
  | (fired) v f h where "fires b samples agg d target t = Some (v, f)"
      "detect ids b samples agg cause (d, target) (es, t)
        = (es @ [detector_event ids b samples cause d target v f t],
           t\<lparr>te_history := h, te_last := (te_last t)((bi_identity b, dt_name d, target) \<mapsto> sm_at (last samples)),
             te_sequence := te_sequence t + 1\<rparr>)"
proof (cases "numeric_path (map_of agg target) (dt_path d)")
  case None
  then have "fires b samples agg d target t = None"
      "detect ids b samples agg cause (d, target) (es, t) = (es, t\<lparr>te_history := te_history t\<rparr>)"
    by (simp_all add: fires_def detect_def)
  then show ?thesis by (rule silent)
next
  case (Some v)
  let ?key = "(bi_identity b, dt_name d, target)"
  obtain found h where ev: "evaluate (bi_policy b) (length samples) (sm_at (last samples)) d v (te_history t ?key) = (found, h)"
    by (cases "evaluate (bi_policy b) (length samples) (sm_at (last samples)) d v (te_history t ?key)")
  have event: "detector_event ids b samples cause d target v f (t\<lparr>te_history := g\<rparr>)
      = detector_event ids b samples cause d target v f t" for f g
    by (simp add: detector_event_def Let_def)
  show ?thesis
  proof (cases "found = None \<or> cooling_down d (sm_at (last samples)) (te_last t ?key)")
    case True
    then have "fires b samples agg d target t = None"
      "detect ids b samples agg cause (d, target) (es, t) = (es, t\<lparr>te_history := (te_history t)(?key := h)\<rparr>)"
      using Some ev by (auto simp: fires_def detect_def Let_def split: option.splits)
    then show ?thesis by (rule silent)
  next
    case False
    then obtain f where "found = Some f" by (cases found) auto
    with False Some ev have "fires b samples agg d target t = Some (v, f)"
      "detect ids b samples agg cause (d, target) (es, t)
        = (es @ [detector_event ids b samples cause d target v f t],
           t\<lparr>te_history := (te_history t)(?key := h), te_last := (te_last t)(?key \<mapsto> sm_at (last samples)),
             te_sequence := te_sequence t + 1\<rparr>)"
      by (auto simp: fires_def detect_def Let_def event)
    then show ?thesis by (rule fired)
  qed
qed

lemma fold_detect_invariant:
  assumes "Q es t"
    and "\<And>d target es t es' t'. (d, target) \<in> set xs \<Longrightarrow> Q es t
      \<Longrightarrow> detect supply b samples agg cause (d, target) (es, t) = (es', t') \<Longrightarrow> Q es' t'"
    and "fold (detect supply b samples agg cause) xs (es, t) = (es', t')"
  shows "Q es' t'"
  using assms
proof (induction xs arbitrary: es t)
  case (Cons x xs)
  obtain d target where x: "x = (d, target)" by (cases x)
  obtain es1 t1 where one: "detect supply b samples agg cause (d, target) (es, t) = (es1, t1)"
    by (cases "detect supply b samples agg cause (d, target) (es, t)")
  have "Q es1 t1" using Cons.prems(2) [OF _ Cons.prems(1) one] by (simp add: x)
  then show ?case
  proof (rule Cons.IH)
    fix d' target' es t es' t'
    assume "(d', target') \<in> set xs" and step: "Q es t" "detect supply b samples agg cause (d', target') (es, t) = (es', t')"
    then have "(d', target') \<in> set (x # xs)" by simp
    from Cons.prems(2) [OF this step] show "Q es' t'" .
  next
    show "fold (detect supply b samples agg cause) xs (es1, t1) = (es', t')" using Cons.prems(3) one by (simp add: x)
  qed
qed simp

lemma record_sample_parts:
  assumes "record_sample supply b s t = (es, t')"
  obtains w u where "w = slide_window (bi_policy b) s (te_windows t (bi_identity b))"
    "u = t\<lparr>te_windows := (te_windows t)(bi_identity b := w)\<rparr>"
    "fold (detect supply b w (aggregate_samples w (op_aggregation (bi_policy b)))
        (event_id (observation_event supply b w (aggregate_samples w (op_aggregation (bi_policy b))) u)))
       (List.product (op_detectors (bi_policy b)) (at_targets (ai_attachment (bi_agent b))))
       ([observation_event supply b w (aggregate_samples w (op_aggregation (bi_policy b))) u],
        u\<lparr>te_sequence := te_sequence u + 1\<rparr>) = (es, t')"
  using assms that by (simp add: record_sample_def make_events_def Let_def)

subsection \<open>Numbering\<close>

definition numbered :: "nat \<Rightarrow> runtime_event list \<Rightarrow> telemetry \<Rightarrow> bool" where
  "numbered n es t \<longleftrightarrow> map ev_sequence es = map int [n..<n + length es] \<and> te_sequence t = n + length es"

lemma numbered_append:
  "numbered n es t \<Longrightarrow> ev_sequence e = int (te_sequence t) \<Longrightarrow> te_sequence u = te_sequence t + 1
   \<Longrightarrow> numbered n (es @ [e]) u"
  by (simp add: numbered_def)

lemma record_sample_numbered:
  assumes "record_sample supply b s t = (es, t')"
  shows "numbered (te_sequence t) es t'"
proof -
  obtain w u where u: "u = t\<lparr>te_windows := (te_windows t)(bi_identity b := w)\<rparr>"
    and f: "fold (detect supply b w (aggregate_samples w (op_aggregation (bi_policy b)))
        (event_id (observation_event supply b w (aggregate_samples w (op_aggregation (bi_policy b))) u)))
       (List.product (op_detectors (bi_policy b)) (at_targets (ai_attachment (bi_agent b))))
       ([observation_event supply b w (aggregate_samples w (op_aggregation (bi_policy b))) u],
        u\<lparr>te_sequence := te_sequence u + 1\<rparr>) = (es, t')"
    using assms by (rule record_sample_parts)
  show ?thesis
  proof (rule fold_detect_invariant [OF _ _ f])
    show "numbered (te_sequence t) [observation_event supply b w (aggregate_samples w (op_aggregation (bi_policy b))) u]
        (u\<lparr>te_sequence := te_sequence u + 1\<rparr>)"
      by (simp add: numbered_def u observation_event_def Let_def)
  next
    fix d target es t1 es' t'
    assume "numbered (te_sequence t) es t1"
      "detect supply b w (aggregate_samples w (op_aggregation (bi_policy b)))
        (event_id (observation_event supply b w (aggregate_samples w (op_aggregation (bi_policy b))) u)) (d, target) (es, t1)
       = (es', t')"
    then show "numbered (te_sequence t) es' t'"
      by (cases rule: detect_effect [where b = b and samples = w and d = d and target = target and t = t1 and es = es
            and ids = "supply" and agg = "aggregate_samples w (op_aggregation (bi_policy b))"
            and cause = "event_id (observation_event supply b w (aggregate_samples w (op_aggregation (bi_policy b))) u)"])
        (auto simp: numbered_def detector_event_def Let_def)
  qed
qed

lemma run_numbered:
  assumes "new_telemetry agents run = Inr t0" "rounds_of agents rounds" "run_rounds supply accepts rounds t0 = (made, t)"
  shows "numbered 0 made t"
  using assms(3,2)
proof (rule run_rounds_invariant [where P = "numbered 0"])
  show "numbered 0 [] t0" using assms(1) by (auto simp: new_telemetry_def numbered_def split: if_splits)
next
  fix made t u assume "numbered 0 made t" "core u = core t"
  then show "numbered 0 made u" by (simp add: numbered_def core_eq)
next
  fix b answer s made t assume n: "numbered 0 made t"
  obtain es t' where r: "record_sample supply b s t = (es, t')" by (cases "record_sample supply b s t")
  from record_sample_numbered [OF r] n
  show "numbered 0 (made @ fst (record_sample supply b s t)) (snd (record_sample supply b s t))"
    by (simp add: r numbered_def) (metis map_append upt_add_eq_append le0 add_0)
qed

subsection \<open>Cooldowns\<close>

lemma seconds_of_nonneg: "0 \<le> seconds_of d"
proof -
  have unit: "0 \<le> f" if "Specification.unit_factor u = Some f" for u f
    using that by (auto simp: Specification.unit_factor_def split: if_splits)
  have "0 \<le> s" if "duration_seconds d = Some s" for s
    using that by (fastforce simp: duration_seconds_def Let_def split: if_splits list.splits dest: unit)
  then show ?thesis by (auto simp: seconds_of_def split: option.splits)
qed

text \<open>The detector a payload names, and that two of its events are a cooldown apart.\<close>

definition fired_by :: "policy_binding \<Rightarrow> detector \<Rightarrow> detector_payload \<Rightarrow> bool" where
  "fired_by b d p \<longleftrightarrow>
     dp_agent p = ai_id (bi_agent b) \<and> dp_observation p = op_observation (bi_policy b) \<and> dp_detector p = dt_name d"

definition rested :: "agent_instance list \<Rightarrow> runtime_event \<Rightarrow> runtime_event \<Rightarrow> bool" where
  "rested agents e e' \<longleftrightarrow>
     (\<forall>p q b d. ev_payload e = DetectorFired p \<and> ev_payload e' = DetectorFired q \<and> dp_target p = dp_target q
        \<and> b \<in> set (bindings_of agents) \<and> d \<in> set (op_detectors (bi_policy b)) \<and> fired_by b d p \<and> fired_by b d q
        \<longrightarrow> seconds_of (dt_cooldown d) \<le> rat_of_int (dp_ended q - dp_ended p) / 1000000)"

definition remembered :: "agent_instance list \<Rightarrow> runtime_event list \<Rightarrow> telemetry \<Rightarrow> bool" where
  "remembered agents es t \<longleftrightarrow>
     (\<forall>e\<in>set es. \<forall>p b d. ev_payload e = DetectorFired p \<and> b \<in> set (bindings_of agents)
        \<and> d \<in> set (op_detectors (bi_policy b)) \<and> fired_by b d p
        \<longrightarrow> (\<exists>l. te_last t (bi_identity b, dt_name d, dp_target p) = Some l \<and> dp_ended p \<le> l))"

definition cooled :: "agent_instance list \<Rightarrow> runtime_event list \<Rightarrow> telemetry \<Rightarrow> bool" where
  "cooled agents es t \<longleftrightarrow> sorted_wrt (rested agents) es \<and> remembered agents es t"

lemma cooled_te_last: "te_last u = te_last t \<Longrightarrow> cooled agents es u = cooled agents es t"
  by (simp add: cooled_def remembered_def)

lemma same_detector:
  assumes "policies_ok agents" "b \<in> set (bindings_of agents)" "d \<in> set (op_detectors (bi_policy b))"
    and "c \<in> set (bindings_of agents)" "d' \<in> set (op_detectors (bi_policy c))" "fired_by b d p" "fired_by c d' p"
  shows "c = b" "d' = d"
proof -
  have names: "ai_id (bi_agent c) = ai_id (bi_agent b)" "op_observation (bi_policy c) = op_observation (bi_policy b)"
    "dt_name d' = dt_name d"
    using assms(6,7) unfolding fired_by_def by (elim conjE, simp only:)+
  show c: "c = b" by (rule same_subject [OF assms(1,4,2) names(1,2)])
  have "inj_on dt_name (set (op_detectors (bi_policy b)))"
    using policy_valid(4) [OF binding_policy(1) [OF assms(1,2)]] by (simp add: distinct_map)
  then show "d' = d" using names(3) assms(5,3) unfolding c by (rule inj_onD)
qed

lemma detector_payload_of:
  "ev_payload (detector_event supply b w cause d target v f t) = DetectorFired q
   \<Longrightarrow> fired_by b d q \<and> dp_target q = target \<and> dp_ended q = sm_at (last w)"
  by (auto simp: detector_event_def Let_def fired_by_def)

lemma detect_cooled:
  assumes ok: "policies_ok agents" and b: "b \<in> set (bindings_of agents)" "d \<in> set (op_detectors (bi_policy b))"
    and cooled: "cooled agents (made @ es) t"
    and step: "detect supply b w agg cause (d, target) (es, t) = (es', t')"
  shows "cooled agents (made @ es') t'"
proof (cases rule: detect_effect [where b = b and samples = w and d = d and target = target and t = t and es = es
      and ids = "supply" and agg = agg and cause = cause])
  case (silent h)
  with step cooled show ?thesis by (auto simp: cooled_te_last [of "t\<lparr>te_history := h\<rparr>" t])
next
  case (fired v f h)
  let ?e = "detector_event supply b w cause d target v f t" and ?key = "(bi_identity b, dt_name d, target)"
  have res: "es' = es @ [?e]" "te_last t' = (te_last t)(?key \<mapsto> sm_at (last w))" using step fired(2) by auto
  have cool: "\<not> cooling_down d (sm_at (last w)) (te_last t ?key)"
    using fired(1) by (auto simp: fires_def Let_def split: option.splits if_splits)
  have later: "seconds_of (dt_cooldown d) \<le> rat_of_int (sm_at (last w) - l) / 1000000" "l \<le> sm_at (last w)"
    if "te_last t ?key = Some l" for l
  proof -
    show c: "seconds_of (dt_cooldown d) \<le> rat_of_int (sm_at (last w) - l) / 1000000"
      using cool that by (simp add: cooling_down_def not_less)
    have "0 \<le> rat_of_int (sm_at (last w) - l) / 1000000"
      using seconds_of_nonneg c by (rule order_trans)
    then show "l \<le> sm_at (last w)" by (simp add: zero_le_divide_iff)
  qed
  have old: "\<exists>l. te_last t (bi_identity c, dt_name d', dp_target p) = Some l \<and> dp_ended p \<le> l"
    if "e \<in> set (made @ es)" "ev_payload e = DetectorFired p" "c \<in> set (bindings_of agents)"
      "d' \<in> set (op_detectors (bi_policy c))" "fired_by c d' p" for e p c d'
    using cooled that unfolding cooled_def remembered_def by blast
  have "rested agents e ?e" if e: "e \<in> set (made @ es)" for e
    unfolding rested_def
  proof (intro allI impI, elim conjE)
    fix p q c d'
    assume p: "ev_payload e = DetectorFired p" and q: "ev_payload ?e = DetectorFired q"
      and target: "dp_target p = dp_target q" and c: "c \<in> set (bindings_of agents)" "d' \<in> set (op_detectors (bi_policy c))"
      and f: "fired_by c d' p" "fired_by c d' q"
    note same = same_detector [OF ok b c conjunct1 [OF detector_payload_of [OF q]] f(2)]
    obtain l where l: "te_last t ?key = Some l" "dp_ended p \<le> l"
      using old [OF e p c f(1)] target detector_payload_of [OF q] same by auto
    have "rat_of_int (sm_at (last w) - l) / 1000000 \<le> rat_of_int (sm_at (last w) - dp_ended p) / 1000000"
      using l(2) by (simp add: divide_right_mono)
    with later(1) [OF l(1)] show "seconds_of (dt_cooldown d') \<le> rat_of_int (dp_ended q - dp_ended p) / 1000000"
      using detector_payload_of [OF q] same(2) by simp
  qed
  moreover have "remembered agents (made @ es') t'"
    unfolding remembered_def
  proof (intro ballI allI impI, elim conjE)
    fix e p c d'
    assume e: "e \<in> set (made @ es')" and p: "ev_payload e = DetectorFired p" and c: "c \<in> set (bindings_of agents)"
      "d' \<in> set (op_detectors (bi_policy c))" and f: "fired_by c d' p"
    show "\<exists>l. te_last t' (bi_identity c, dt_name d', dp_target p) = Some l \<and> dp_ended p \<le> l"
    proof (cases "e = ?e")
      case True
      note q = detector_payload_of [OF p [unfolded True]]
      note same = same_detector [OF ok b c conjunct1 [OF q] f]
      show ?thesis using q by (simp add: res(2) same)
    next
      case False
      with e res(1) have "e \<in> set (made @ es)" by auto
      then obtain l where l: "te_last t (bi_identity c, dt_name d', dp_target p) = Some l" "dp_ended p \<le> l"
        using old [OF _ p c f] by blast
      show ?thesis
      proof (cases "(bi_identity c, dt_name d', dp_target p) = ?key")
        case True
        with l later(2) [of l] show ?thesis by (auto simp: res(2))
      next
        case False
        then have "te_last t' (bi_identity c, dt_name d', dp_target p) = Some l"
          using l(1) unfolding res(2) fun_upd_def by (simp only: if_False)
        with l(2) show ?thesis by blast
      qed
    qed
  qed
  ultimately show ?thesis using cooled by (auto simp: cooled_def res(1) sorted_wrt_append)
qed

lemma observation_silent: "ev_payload (observation_event supply b w agg t) \<noteq> DetectorFired p"
  by (simp add: observation_event_def Let_def)

lemma record_sample_cooled:
  assumes "policies_ok agents" "b \<in> set (bindings_of agents)" "cooled agents made t"
    and "record_sample supply b s t = (es, t')"
  shows "cooled agents (made @ es) t'"
proof -
  obtain w u where u: "u = t\<lparr>te_windows := (te_windows t)(bi_identity b := w)\<rparr>"
    and f: "fold (detect supply b w (aggregate_samples w (op_aggregation (bi_policy b)))
        (event_id (observation_event supply b w (aggregate_samples w (op_aggregation (bi_policy b))) u)))
       (List.product (op_detectors (bi_policy b)) (at_targets (ai_attachment (bi_agent b))))
       ([observation_event supply b w (aggregate_samples w (op_aggregation (bi_policy b))) u],
        u\<lparr>te_sequence := te_sequence u + 1\<rparr>) = (es, t')"
    using assms(4) by (rule record_sample_parts)
  show ?thesis
  proof (rule fold_detect_invariant [where Q = "\<lambda>es. cooled agents (made @ es)", OF _ _ f])
    show "cooled agents (made @ [observation_event supply b w (aggregate_samples w (op_aggregation (bi_policy b))) u])
        (u\<lparr>te_sequence := te_sequence u + 1\<rparr>)"
      using assms(3)
      by (auto simp: cooled_def remembered_def u sorted_wrt_append rested_def observation_silent)
  next
    fix d target es t es' t'
    assume x: "(d, target) \<in> set (List.product (op_detectors (bi_policy b)) (at_targets (ai_attachment (bi_agent b))))"
      and "cooled agents (made @ es) t"
      and "detect supply b w (aggregate_samples w (op_aggregation (bi_policy b)))
        (event_id (observation_event supply b w (aggregate_samples w (op_aggregation (bi_policy b))) u)) (d, target) (es, t)
        = (es', t')"
    moreover have "d \<in> set (op_detectors (bi_policy b))" using x by simp
    ultimately show "cooled agents (made @ es') t'" using detect_cooled [OF assms(1,2)] by blast
  qed
qed

lemma run_cooled:
  assumes "new_telemetry agents run = Inr t0" "policies_ok agents" "rounds_of agents rounds"
    and "run_rounds supply accepts rounds t0 = (made, t)"
  shows "cooled agents made t"
  using assms(4,3)
proof (rule run_rounds_invariant [where P = "cooled agents"])
  show "cooled agents [] t0" by (simp add: cooled_def remembered_def)
next
  fix made t u assume "cooled agents made t" "core u = core t"
  then show "cooled agents made u" using cooled_te_last [of u t agents made] by (simp add: core_eq)
next
  fix b answer s made t assume b: "b \<in> set (bindings_of agents)" and c: "cooled agents made t"
  show "cooled agents (made @ fst (record_sample supply b s t)) (snd (record_sample supply b s t))"
    using record_sample_cooled [OF assms(2) b c] by simp
qed

subsection \<open>Validity of the events\<close>

definition event_valid :: "runtime_event \<Rightarrow> bool" where
  "event_valid e \<longleftrightarrow>
     new_event e = Inr e
     \<and> (case ev_payload e of
          ObservationRecorded p \<Rightarrow> new_observation_payload p = Inr p
        | DetectorFired p \<Rightarrow> new_detector_payload p = Inr p
        | _ \<Rightarrow> True)"

lemma deviation_nonneg: "0 \<le> deviation_of xs"
  by (auto simp: deviation_of_def intro!: divide_nonneg_nonneg sum_list_nonneg)

lemma anomaly_found:
  assumes "anomaly v baseline sensitivity min_samples = Some (mean, dev, score)"
  shows "min_samples \<le> int (length baseline)" "0 \<le> dev" "0 \<le> score"
proof -
  have found: "min_samples \<le> int (length baseline)" "dev = deviation_of baseline"
    "score = (if dev = 0 then (if v = mean_of baseline then 0 else float_max)
              else \<bar>of_rat (v - mean_of baseline)\<bar> / dev)"
    using assms by (auto simp: anomaly_def Let_def split: if_splits)
  then show "min_samples \<le> int (length baseline)" "0 \<le> dev" by (simp_all add: deviation_nonneg)
  then show "0 \<le> score" by (simp add: found(3) float_max_def)
qed

lemma evaluate_found:
  assumes "new_detector d = Inr d'" "1 \<le> n" "fst (evaluate p n ended d v history) = Some f"
  shows "1 \<le> fd_samples f"
    and "if is_anomaly d then fd_mean f \<noteq> None \<and> (\<exists>r\<ge>0. fd_deviation f = Some r) \<and> (\<exists>r\<ge>0. fd_score f = Some r)
         else fd_operator f \<noteq> None \<and> fd_threshold f \<noteq> None \<and> fd_deviation f = None \<and> fd_score f = None"
proof -
  have "1 \<le> fd_samples f
    \<and> (if is_anomaly d then fd_mean f \<noteq> None \<and> (\<exists>r\<ge>0. fd_deviation f = Some r) \<and> (\<exists>r\<ge>0. fd_score f = Some r)
         else fd_operator f \<noteq> None \<and> fd_threshold f \<noteq> None \<and> fd_deviation f = None \<and> fd_score f = None)"
  proof (cases d)
    case (Threshold a b c opr threshold e)
    with assms(2,3) show ?thesis by (auto simp: evaluate_def is_anomaly_def split: if_splits)
  next
    case (Anomaly a b c sensitivity least e)
    from assms(1) Anomaly have "2 \<le> least" by (simp split: if_splits)
    with assms(3) Anomaly show ?thesis
      by (auto simp: evaluate_def is_anomaly_def Let_def dest: anomaly_found)
  qed
  then show "1 \<le> fd_samples f"
    and "if is_anomaly d then fd_mean f \<noteq> None \<and> (\<exists>r\<ge>0. fd_deviation f = Some r) \<and> (\<exists>r\<ge>0. fd_score f = Some r)
         else fd_operator f \<noteq> None \<and> fd_threshold f \<noteq> None \<and> fd_deviation f = None \<and> fd_score f = None"
    by (rule conjunct1, rule conjunct2)
qed

lemma detector_names:
  assumes "new_detector d = Inr d'"
  shows "dt_name d \<noteq> []" "dt_event d \<noteq> []" "dt_path d \<noteq> []"
  using assms by (cases d; auto simp: name_ok_def name_pattern_ok_def split: if_splits)+

lemma fires_found:
  assumes "fires b w agg d target t = Some (v, f)"
  obtains history where "fst (evaluate (bi_policy b) (length w) (sm_at (last w)) d v history) = Some f"
  using assms by (auto simp: fires_def Let_def split: option.splits if_splits)

lemma sorted_ends: "sorted (map f xs) \<Longrightarrow> xs \<noteq> [] \<Longrightarrow> f (hd xs) \<le> f (last xs)"
  by (cases xs) auto

lemma detector_event_valid:
  assumes "new_detector d = Inr d'" "fires b w agg d target t = Some (v, f)" "w \<noteq> []" "sorted (map sm_at w)"
    and "fst (supply (te_sequence t)) \<noteq> []" "te_run_id t \<noteq> []" "cause \<noteq> []" "target \<noteq> []"
    and "ai_id (bi_agent b) \<noteq> []" "op_observation (bi_policy b) \<noteq> []"
  shows "event_valid (detector_event supply b w cause d target v f t)"
proof -
  have "1 \<le> length w" using assms(3) by (cases w) simp_all
  moreover obtain history where "fst (evaluate (bi_policy b) (length w) (sm_at (last w)) d v history) = Some f"
    using assms(2) by (rule fires_found)
  ultimately have f: "1 \<le> fd_samples f"
    "if is_anomaly d then fd_mean f \<noteq> None \<and> (\<exists>r\<ge>0. fd_deviation f = Some r) \<and> (\<exists>r\<ge>0. fd_score f = Some r)
     else fd_operator f \<noteq> None \<and> fd_threshold f \<noteq> None \<and> fd_deviation f = None \<and> fd_score f = None"
    by (rule evaluate_found [OF assms(1)])+
  let ?e = "detector_event supply b w cause d target v f t"
  have "new_event ?e = Inr ?e"
    using detector_names(2) [OF assms(1)] assms(5-8)
    by (simp add: new_event_Inr_iff event_fields_ok_def opt_ok_def detector_event_def Let_def)
  moreover have "\<not> sm_at (last w) < sm_at (hd w)" using sorted_ends [OF assms(4,3)] by simp
  ultimately show ?thesis
    using detector_names [OF assms(1)] assms(5-10) f
    by (auto simp: event_valid_def detector_event_def Let_def new_detector_payload_def nonneg_opt_def)
qed

lemma observation_event_valid:
  assumes "w \<noteq> []" "sorted (map sm_at w)" "fst (supply (te_sequence t)) \<noteq> []" "te_run_id t \<noteq> []"
    and "ai_id (bi_agent b) \<noteq> []" "op_observation (bi_policy b) \<noteq> []" "at_targets (ai_attachment (bi_agent b)) \<noteq> []"
  shows "event_valid (observation_event supply b w agg t)"
proof -
  have "0 < length w" "\<not> sm_at (last w) < sm_at (hd w)" using sorted_ends [OF assms(2,1)] assms(1) by simp_all
  then show ?thesis
    using assms by (simp add: event_valid_def observation_event_def Let_def new_event_Inr_iff event_fields_ok_def
        opt_ok_def nonempty_opt_def new_observation_payload_def)
qed

lemma record_sample_valid:
  assumes "policies_ok agents" "windows_ok agents t" "b \<in> set (bindings_of agents)" "check_observation b answer t = Inr s"
    and "\<And>n. fst (supply n) \<noteq> []" "te_run_id t \<noteq> []" "record_sample supply b s t = (es, t')"
  shows "list_all event_valid es"
proof -
  define w where "w = slide_window (bi_policy b) s (te_windows t (bi_identity b))"
  define u where "u = t\<lparr>te_windows := (te_windows t)(bi_identity b := w)\<rparr>"
  let ?agg = "aggregate_samples w (op_aggregation (bi_policy b))"
  let ?e = "observation_event supply b w ?agg u"
  note policy = binding_policy [OF assms(1,3)]
  note slid = slide_window_ok [OF policy(1) checked_sample [OF assms(2-4)], folded w_def]
  have w: "w \<noteq> []" "sorted (map sm_at w)" using slid by (simp_all add: window_ok_def)
  have agent: "ai_id (bi_agent b) \<noteq> []" "op_observation (bi_policy b) \<noteq> []"
    "at_targets (ai_attachment (bi_agent b)) \<noteq> []" "[] \<notin> set (at_targets (ai_attachment (bi_agent b)))"
    using assms(1) policy(2) policy_valid(1) [OF policy(1)] by (simp_all add: policies_ok_def)
  have f: "fold (detect supply b w ?agg (event_id ?e))
       (List.product (op_detectors (bi_policy b)) (at_targets (ai_attachment (bi_agent b))))
       ([?e], u\<lparr>te_sequence := te_sequence u + 1\<rparr>) = (es, t')"
    using assms(7) by (simp add: record_sample_def make_events_def Let_def w_def u_def)
  have "list_all event_valid es \<and> te_run_id t' = te_run_id t"
  proof (rule fold_detect_invariant [where Q = "\<lambda>es t'. list_all event_valid es \<and> te_run_id t' = te_run_id t", OF _ _ f])
    have "event_valid ?e"
      by (rule observation_event_valid [OF w _ _ agent(1-3)]) (simp_all add: assms(5,6) u_def)
    then show "list_all event_valid [?e] \<and> te_run_id (u\<lparr>te_sequence := te_sequence u + 1\<rparr>) = te_run_id t"
      by (simp add: u_def)
  next
    fix d target es t1 es' t1'
    assume x: "(d, target) \<in> set (List.product (op_detectors (bi_policy b)) (at_targets (ai_attachment (bi_agent b))))"
      and q: "list_all event_valid es \<and> te_run_id t1 = te_run_id t"
      and step: "detect supply b w ?agg (event_id ?e) (d, target) (es, t1) = (es', t1')"
    have id: "event_id ?e \<noteq> []" using assms(5) by (simp add: observation_event_def Let_def)
    obtain d' where d: "new_detector d = Inr d'" using policy_valid(5) [OF policy(1), of d] x by auto
    have target: "target \<noteq> []" using x agent(4) by auto
    show "list_all event_valid es' \<and> te_run_id t1' = te_run_id t"
    proof (cases rule: detect_effect [where b = b and samples = w and d = d and target = target and t = t1 and es = es
          and ids = "supply" and agg = ?agg and cause = "event_id ?e"])
      case (silent h)
      with step q show ?thesis by auto
    next
      case (fired v f h)
      have "event_valid (detector_event supply b w (event_id ?e) d target v f t1)"
        by (rule detector_event_valid [OF d fired(1) w _ _ id target agent(1,2)]) (simp_all add: assms(5,6) q)
      with fired(2) step q show ?thesis by auto
    qed
  qed
  then show ?thesis ..
qed

lemma run_valid:
  assumes "new_telemetry agents run = Inr t0" "policies_ok agents" "rounds_of agents rounds"
    and "\<And>n. fst (supply n) \<noteq> []" "run_rounds supply accepts rounds t0 = (made, t)"
  shows "list_all event_valid made"
proof -
  have "list_all event_valid made \<and> windows_ok agents t \<and> te_run_id t = run"
    using assms(5,3)
  proof (rule run_rounds_invariant [where P = "\<lambda>es u. list_all event_valid es \<and> windows_ok agents u \<and> te_run_id u = run"])
    show "list_all event_valid [] \<and> windows_ok agents t0 \<and> te_run_id t0 = run"
      using assms(1) windows_ok_new [OF assms(1)] by (auto simp: new_telemetry_def split: if_splits)
  next
    fix es t u
    assume "list_all event_valid es \<and> windows_ok agents t \<and> te_run_id t = run" and core: "core u = core t"
    then show "list_all event_valid es \<and> windows_ok agents u \<and> te_run_id u = run"
      using windows_ok_core [OF core] by (simp add: core_eq)
  next
    fix b answer s es t
    assume b: "b \<in> set (bindings_of agents)"
      and q: "list_all event_valid es \<and> windows_ok agents t \<and> te_run_id t = run"
      and check: "check_observation b answer t = Inr s"
    have run: "run \<noteq> []" using assms(1) by (simp add: new_telemetry_def split: if_splits)
    obtain fs t' where r: "record_sample supply b s t = (fs, t')" by (cases "record_sample supply b s t")
    have "list_all event_valid fs"
      by (rule record_sample_valid [OF assms(2) _ b check assms(4) _ r]) (use q run in simp_all)
    moreover have "windows_ok agents (snd (record_sample supply b s t))"
      using record_sample_ok [OF assms(2) _ b check] q by blast
    ultimately show "list_all event_valid (es @ fst (record_sample supply b s t))
        \<and> windows_ok agents (snd (record_sample supply b s t)) \<and> te_run_id (snd (record_sample supply b s t)) = run"
      using q r record_sample_windows(3) [of "supply" b s t] by simp
  qed
  then show ?thesis ..
qed

section \<open>Properties\<close>

definition watched :: agent_instance where
  "watched = sample_instance\<lparr>ai_observation_policies :=
     [\<lparr>op_observation = ''ports'', op_every = ''1s'', op_window = ''2s'', op_aggregation = Latest,
       op_detectors = [Threshold ''busy'' ''port.busy'' ''rx.bytes'' CmpGt 10 ''1s'']\<rparr>]\<rparr>"

definition watcher :: policy_binding where
  "watcher = \<lparr>bi_identity = ''a1:0:ports'', bi_agent = watched, bi_policy = hd (ai_observation_policies watched)\<rparr>"

definition seen_at :: "timestamp \<Rightarrow> int \<Rightarrow> policy_binding \<times> (raised + observation_result)" where
  "seen_at now n = (watcher, Inr \<lparr>or_run_id = ''r'', or_query = sample_query watcher, or_observed_at = now,
     or_values = [(hd (oq_targets (sample_query watcher)), JObj [(''rx'', JObj [(''bytes'', JInt n)])])]\<rparr>)"

definition watched_start :: telemetry where
  "watched_start = (case new_telemetry [watched] ''r'' of Inr t \<Rightarrow> t)"

lemma watched_policy:
  "seconds_of ''1s'' = 1" "seconds_of ''2s'' = 2"
  by (simp_all add: seconds_of_def duration_seconds_def Specification.unit_factor_def ascii_digit_def Let_def)

lemma watched_window: "window_micros (bi_policy watcher) = 2000000" "max_samples (bi_policy watcher) = 3"
  by (simp_all add: window_micros_def max_samples_def watcher_def watched_def watched_policy round_even_def)

definition byte_sample :: "timestamp \<Rightarrow> int \<Rightarrow> telemetry_sample" where
  "byte_sample now n = \<lparr>sm_at = now, sm_values = [(''l1'', JObj [(''rx'', JObj [(''bytes'', JInt n)])])]\<rparr>"

lemma watched_fields:
  "bi_identity watcher = ''a1:0:ports''" "op_aggregation (bi_policy watcher) = Latest"
  "op_detectors (bi_policy watcher) = [Threshold ''busy'' ''port.busy'' ''rx.bytes'' CmpGt 10 ''1s'']"
  "at_targets (ai_attachment (bi_agent watcher)) = [''l1'']" "ai_id (bi_agent watcher) = ''a1''"
  "op_observation (bi_policy watcher) = ''ports''"
  by (simp_all add: watcher_def watched_def sample_instance_def)

lemma byte_leaf:
  "sample_leaf (byte_sample now n) p = (if p = [''l1'', ''rx'', ''bytes''] then Some (JInt n) else None)"
proof -
  have "leaf_at (JInt n) q = (if q = [] then Some (JInt n) else None)" for q
    by (simp add: leaf_at_leaf is_leaf_def)
  then show ?thesis
    by (auto simp: sample_leaf_def byte_sample_def leaf_at_object split: list.splits)
qed

lemma byte_window:
  assumes "w \<noteq> []" "\<forall>s\<in>set w. \<exists>now n. s = byte_sample now n" "last w = byte_sample now n"
  shows "numeric_path (map_of (aggregate_samples w Latest) ''l1'') ''rx.bytes'' = Some (of_int n)"
proof -
  have "clean_sample (byte_sample now n)" for now n
    by (simp add: clean_sample_def byte_sample_def clean.simps clean_key_def)
  moreover have "p = [''l1'', ''rx'', ''bytes'']" if "s \<in> set w" "sample_leaf s p \<noteq> None" for s p
    using that assms(2) by (auto simp: byte_leaf split: if_splits)
  ultimately have "shaped w" using assms(2) unfolding shaped_def by metis
  moreover have "split_dots ''rx.bytes'' = [''rx'', ''bytes'']" by simp
  moreover obtain xs where "w = xs @ [byte_sample now n]" using assms(1,3) append_butlast_last_id by metis
  then have "leaf_values w [''l1'', ''rx'', ''bytes''] = leaf_values xs [''l1'', ''rx'', ''bytes''] @ [JInt n]"
    by (simp add: leaf_values_def List.map_filter_def byte_leaf)
  ultimately show ?thesis
    by (cases "leaf_values xs [''l1'', ''rx'', ''bytes'']")
      (simp_all add: aggregate_reads aggregate_values_def Let_def number_of_def)
qed

lemma watched_record:
  assumes "slide_window (bi_policy watcher) s (te_windows t ''a1:0:ports'') = w"
    and "numeric_path (map_of (aggregate_samples w Latest) ''l1'') ''rx.bytes'' = Some v" "10 < v"
    and "te_last t (''a1:0:ports'', ''busy'', ''l1'') = l"
    and "case l of None \<Rightarrow> True | Some l \<Rightarrow> 1000000 \<le> sm_at (last w) - l"
  obtains e d p t' where "record_sample supply watcher s t = ([e, d], t')" "ev_payload d = DetectorFired p"
    "dp_ended p = sm_at (last w)" "dp_target p = ''l1''"
    "fired_by watcher (Threshold ''busy'' ''port.busy'' ''rx.bytes'' CmpGt 10 ''1s'') p"
    "te_last t' (''a1:0:ports'', ''busy'', ''l1'') = Some (sm_at (last w))"
    "te_windows t' = (te_windows t)(''a1:0:ports'' := w)" "te_run_id t' = te_run_id t"
proof -
  let ?d = "Threshold ''busy'' ''port.busy'' ''rx.bytes'' CmpGt 10 ''1s''"
  let ?agg = "aggregate_samples w Latest" and ?u = "t\<lparr>te_windows := (te_windows t)(''a1:0:ports'' := w)\<rparr>"
  let ?e = "observation_event supply watcher w ?agg ?u"
  have cool: "\<not> cooling_down ?d (sm_at (last w)) l"
    using assms(5) by (auto simp: cooling_down_def watched_policy(1) divide_less_eq split: option.splits)
  have rec: "record_sample supply watcher s t
      = detect supply watcher w ?agg (event_id ?e) (?d, ''l1'') ([?e], ?u\<lparr>te_sequence := te_sequence ?u + 1\<rparr>)"
    by (simp add: record_sample_def make_events_def Let_def watched_fields assms(1))
  show ?thesis
  proof (cases rule: detect_effect [where b = watcher and samples = w and d = ?d and target = "''l1''"
        and t = "?u\<lparr>te_sequence := te_sequence ?u + 1\<rparr>" and es = "[?e]" and ids = "supply" and agg = ?agg
        and cause = "event_id ?e"])
    case (silent h)
    then show ?thesis
      using assms(2,3,4) cool
      by (simp add: fires_def Let_def evaluate_def compare_numbers_def watched_fields split: if_splits)
  next
    case (fired v f h)
    let ?f = "detector_event supply watcher w (event_id ?e) ?d ''l1'' v f (?u\<lparr>te_sequence := te_sequence ?u + 1\<rparr>)"
    obtain p where p: "ev_payload ?f = DetectorFired p" by (simp add: detector_event_def Let_def)
    note payload = detector_payload_of [OF p]
    show ?thesis
      by (rule that [OF trans [OF rec fired(2) [unfolded append.simps]] p]) (use payload in \<open>simp_all add: watched_fields\<close>)
  qed
qed

lemma watched_binding: "bindings_of [watched] = [watcher]"
proof -
  have "decimal 0 = ''0''" by code_simp
  then show ?thesis by (simp add: bindings_of_def watcher_def watched_def sample_instance_def)
qed

lemma watched_ok: "policies_ok [watched]"
  by (simp add: policies_ok_def watched_def sample_instance_def new_observation_policy_def duration_seconds_def
      Specification.unit_factor_def ascii_digit_def name_ok_def name_pattern_ok_def name_head_def Let_def bind_res_def)

lemma watched_runs: "rounds_of [watched] [seen_at 0 20, seen_at 1000000 30]"
  by (simp add: rounds_of_def watched_binding seen_at_def)

lemma watched_started: "new_telemetry [watched] ''r'' = Inr watched_start"
  by (simp add: watched_start_def new_telemetry_def)

lemma watched_two_rounds:
  obtains made t e1 d1 e2 d2 p q where "run_rounds supply accepts [seen_at 0 20, seen_at 1000000 30] watched_start = (made, t)"
    "made = [e1, d1, e2, d2]" "ev_payload d1 = DetectorFired p" "ev_payload d2 = DetectorFired q"
    "dp_target p = ''l1''" "dp_target q = ''l1''" "dp_ended p = 0" "dp_ended q = 1000000"
    "fired_by watcher (Threshold ''busy'' ''port.busy'' ''rx.bytes'' CmpGt 10 ''1s'') p"
    "fired_by watcher (Threshold ''busy'' ''port.busy'' ''rx.bytes'' CmpGt 10 ''1s'') q"
    "te_windows t ''a1:0:ports'' = [byte_sample 0 20, byte_sample 1000000 30]"
proof -
  have start: "te_windows watched_start ''a1:0:ports'' = []" "te_run_id watched_start = ''r''"
    "te_last watched_start (''a1:0:ports'', ''busy'', ''l1'') = None"
    by (simp_all add: watched_start_def new_telemetry_def)
  have query: "oq_targets (sample_query watcher) = [''l1'']" by (simp add: sample_query_def watched_fields)
  have first: "check_observation watcher (snd (seen_at 0 20)) watched_start = Inr (byte_sample 0 20)"
    by (simp add: check_observation_def seen_at_def query start watched_fields byte_sample_def)
  have slide: "slide_window (bi_policy watcher) (byte_sample 0 20) (te_windows watched_start ''a1:0:ports'') = [byte_sample 0 20]"
    by (simp add: slide_window_def watched_window start byte_sample_def)
  have value1: "numeric_path (map_of (aggregate_samples [byte_sample 0 20] Latest) ''l1'') ''rx.bytes'' = Some (of_int 20)"
    by (rule byte_window) auto
  obtain e1 d1 p t1 where one: "record_sample supply watcher (byte_sample 0 20) watched_start = ([e1, d1], t1)"
    "ev_payload d1 = DetectorFired p" "dp_ended p = sm_at (last [byte_sample 0 20])" "dp_target p = ''l1''"
    "fired_by watcher (Threshold ''busy'' ''port.busy'' ''rx.bytes'' CmpGt 10 ''1s'') p"
    "te_last t1 (''a1:0:ports'', ''busy'', ''l1'') = Some (sm_at (last [byte_sample 0 20]))"
    "te_windows t1 = (te_windows watched_start)(''a1:0:ports'' := [byte_sample 0 20])" "te_run_id t1 = te_run_id watched_start"
    by (rule watched_record [OF slide value1 _ start(3)]) simp_all
  obtain made1 u1 where run1: "run_round supply accepts (seen_at 0 20) ([], watched_start) = (made1, u1)"
    by (cases "run_round supply accepts (seen_at 0 20) ([], watched_start)")
  have u1: "made1 = [e1, d1]" "core u1 = core t1"
    using run1 [unfolded seen_at_def] first [unfolded seen_at_def]
    by (auto elim!: round_cases simp: one(1))
  have state: "te_windows u1 ''a1:0:ports'' = [byte_sample 0 20]" "te_run_id u1 = ''r''"
    "te_last u1 (''a1:0:ports'', ''busy'', ''l1'') = Some 0"
    using u1(2) one(6-8) start(2) by (simp_all add: core_eq byte_sample_def)
  have second: "check_observation watcher (snd (seen_at 1000000 30)) u1 = Inr (byte_sample 1000000 30)"
    by (simp add: check_observation_def seen_at_def query state watched_fields byte_sample_def)
  have slide2: "slide_window (bi_policy watcher) (byte_sample 1000000 30) (te_windows u1 ''a1:0:ports'')
      = [byte_sample 0 20, byte_sample 1000000 30]"
    by (simp add: slide_window_def watched_window state byte_sample_def)
  have value2: "numeric_path (map_of (aggregate_samples [byte_sample 0 20, byte_sample 1000000 30] Latest) ''l1'') ''rx.bytes''
      = Some (of_int 30)"
    by (rule byte_window) auto
  obtain e2 d2 q t2 where two: "record_sample supply watcher (byte_sample 1000000 30) u1 = ([e2, d2], t2)"
    "ev_payload d2 = DetectorFired q" "dp_ended q = sm_at (last [byte_sample 0 20, byte_sample 1000000 30])"
    "dp_target q = ''l1''" "fired_by watcher (Threshold ''busy'' ''port.busy'' ''rx.bytes'' CmpGt 10 ''1s'') q"
    "te_windows t2 = (te_windows u1)(''a1:0:ports'' := [byte_sample 0 20, byte_sample 1000000 30])"
    by (rule watched_record [OF slide2 value2 _ state(3)]) (simp_all add: byte_sample_def)
  obtain made t where run2: "run_round supply accepts (seen_at 1000000 30) ([e1, d1], u1) = (made, t)"
    by (cases "run_round supply accepts (seen_at 1000000 30) ([e1, d1], u1)")
  have t: "made = [e1, d1, e2, d2]" "core t = core t2"
    using run2 [unfolded seen_at_def] second [unfolded seen_at_def]
    by (auto elim!: round_cases simp: two(1))
  show ?thesis
  proof (rule that [OF _ t(1) one(2) two(2) one(4) two(4) _ _ one(5) two(5)])
    show "run_rounds supply accepts [seen_at 0 20, seen_at 1000000 30] watched_start = (made, t)"
      using run1 run2 u1(1) by (simp add: run_rounds_def)
    show "te_windows t ''a1:0:ports'' = [byte_sample 0 20, byte_sample 1000000 30]"
      using t(2) two(6) by (simp add: core_eq)
  qed (use one(3) two(3) in \<open>simp_all add: byte_sample_def\<close>)
qed

text \<open>After any rounds of the samplers the window of each observation policy is in the order of
  time, holds no more samples than the policy's window divided by its sampling interval allows, and
  none that is older than the window.\<close>

lemma windows_stay_bounded:
  assumes "new_telemetry agents run = Inr t0" "policies_ok agents" "rounds_of agents rounds"
    and "run_rounds supply accepts rounds t0 = (made, t)"
    and "b \<in> set (bindings_of agents)"
  shows "sorted (map sm_at (te_windows t (bi_identity b)))
     \<and> int (length (te_windows t (bi_identity b))) \<le> max_samples (bi_policy b)
     \<and> (\<forall>x\<in>set (te_windows t (bi_identity b)).
           sm_at (last (te_windows t (bi_identity b))) - window_micros (bi_policy b) \<le> sm_at x)"
proof -
  have "0 \<le> max_samples (bi_policy b)"
    using window_positive(2) [OF binding_policy(1) [OF assms(2,5)]] by simp
  with run_windows_ok [OF assms(1-4)] assms(5) show ?thesis
    by (auto simp: windows_ok_def window_ok_def Let_def)
qed

text \<open>Two events that the same detector made for the same target are at least the detector's
  cooldown apart, whatever samplers ran between them.\<close>

lemma detectors_cool_down:
  assumes "new_telemetry agents run = Inr t0" "policies_ok agents" "rounds_of agents rounds"
    and "run_rounds supply accepts rounds t0 = (made, t)"
    and "i < j" "j < length made" "ev_payload (made ! i) = DetectorFired p" "ev_payload (made ! j) = DetectorFired q"
    and "b \<in> set (bindings_of agents)" "d \<in> set (op_detectors (bi_policy b))"
    and "fired_by b d p" "fired_by b d q" "dp_target p = dp_target q"
  shows "seconds_of (dt_cooldown d) \<le> rat_of_int (dp_ended q - dp_ended p) / 1000000"
proof -
  have "sorted_wrt (rested agents) made" using run_cooled [OF assms(1-4)] by (simp add: cooled_def)
  then have "rested agents (made ! i) (made ! j)" using assms(5,6) by (simp add: sorted_wrt_iff_nth_less)
  with assms(7-13) show ?thesis unfolding rested_def by blast
qed

text \<open>C33. Every event the pipeline makes is one its contract accepts: the fields of the event, and of
  the payload of a detector or an observation, pass their validation, and the events are numbered
  from 0 without a gap.\<close>

theorem telemetry_events_valid:
  assumes "new_telemetry agents run = Inr t0" "policies_ok agents" "rounds_of agents rounds"
    and "\<And>n. fst (supply n) \<noteq> []" "run_rounds supply accepts rounds t0 = (made, t)"
  shows "list_all event_valid made \<and> map ev_sequence made = map int [0..<length made]"
  using run_valid [OF assms] run_numbered [OF assms(1,3,5)] by (simp add: numbered_def)

lemma telemetry_events_valid_witness:
  "\<exists>made t. run_rounds (\<lambda>n. (''e'', 0)) (\<lambda>_. True) [seen_at 0 20, seen_at 1000000 30] watched_start = (made, t)
     \<and> list_all event_valid made \<and> map ev_sequence made = [0, 1, 2, 3]"
proof (rule watched_two_rounds [of "\<lambda>n. (''e'', 0)" "\<lambda>_. True"])
  fix made t e1 d1 e2 d2
  assume run: "run_rounds (\<lambda>n. (''e'', 0)) (\<lambda>_. True) [seen_at 0 20, seen_at 1000000 30] watched_start = (made, t)"
    and made: "made = [e1, d1, e2, d2]"
  have "[0..<4] = [0, 1, 2, 3::nat]" by (simp add: upt_rec)
  with telemetry_events_valid [OF watched_started watched_ok watched_runs _ run] run made show ?thesis
    by auto
qed

end
