(* ===== verification/Decision_Client.thy ===== *)
theory Decision_Client
  imports Scenario
begin

text \<open>
  The client of the decision service (\<open>mininet_ai/agents/bounded.py\<close>): \<open>parse_response\<close>,
  \<open>map_choice\<close> and \<open>NativeSystemOneClient\<close>.

  The transport and the service are other code: \<open>post_answer\<close> and \<open>get_answer\<close> are what a
  call of the transport yields. \<open>loads\<close> stands for \<open>json.loads\<close> on a text, with \<open>None\<close> for a
  syntax error or a constant that is not JSON, and with the members of each object as the pairs
  the hook receives. Numbers are exact, so all of them are finite.
\<close>

section \<open>Errors\<close>

datatype decision_error =
    InvalidOutput
  | ContractViolation
  | ConfigurationInvalid
  | DecisionTimeout
  | RequestRejected
  | ServiceUnavailable
  | StartupUnavailable
  | StartupInterfaceInvalid
  | StartupIdentityMismatch
  | StartupTimeout
  | DecisionCancelled
  | ReconciliationFailed
  | RedundantRecovery
  | RetryIneligible
  | DecisionRaised raised

fun decision_code :: "decision_error \<Rightarrow> string option" where
  "decision_code InvalidOutput = Some ''agent.bounded-decision.invalid-output''"
| "decision_code ContractViolation = Some ''agent.bounded-decision.native-contract-violation''"
| "decision_code ConfigurationInvalid = Some ''agent.bounded-decision.configuration-invalid''"
| "decision_code DecisionTimeout = Some ''agent.bounded-decision.timeout''"
| "decision_code RequestRejected = Some ''agent.bounded-decision.request-rejected''"
| "decision_code ServiceUnavailable = Some ''agent.bounded-decision.service-unavailable''"
| "decision_code StartupUnavailable = Some ''agent.bounded-decision.startup-unavailable''"
| "decision_code StartupInterfaceInvalid = Some ''agent.bounded-decision.startup-interface-invalid''"
| "decision_code StartupIdentityMismatch = Some ''agent.bounded-decision.startup-identity-mismatch''"
| "decision_code StartupTimeout = Some ''agent.bounded-decision.startup-timeout''"
| "decision_code DecisionCancelled = Some ''agent.bounded-decision.cancelled''"
| "decision_code ReconciliationFailed = Some ''agent.bounded-decision.reconciliation-failed''"
| "decision_code RedundantRecovery = Some ''agent.bounded-decision.redundant-recovery''"
| "decision_code RetryIneligible = Some ''agent.bounded-decision.retry-ineligible''"
| "decision_code (DecisionRaised e) = raised_code e"

section \<open>Parsing\<close>

text \<open>No object of a parsed text repeats a key (\<open>_unique_object\<close>).\<close>

function unique_keys :: "json \<Rightarrow> bool" where
  "unique_keys v =
     (case v of
        JObj kvs \<Rightarrow> distinct (map fst kvs) \<and> list_all (\<lambda>(k, c). unique_keys c) kvs
      | JArr xs \<Rightarrow> list_all unique_keys xs
      | _ \<Rightarrow> True)"
  by pat_completeness auto

termination unique_keys
proof (relation "measure size")
  fix v and kvs and x k child
  assume v: "v = JObj kvs" and x: "x \<in> set kvs" "(k, child) = x"
  then have "(k, child) \<in> set kvs" by simp
  from size_entry [OF this] v show "(child, v) \<in> measure size" by simp
next
  fix v xs child assume "v = JArr xs" "child \<in> set xs"
  then show "(child, v) \<in> measure size" using size_list_estimation' [of child xs "size child" size] by auto
qed simp

declare unique_keys.simps [simp del]

type_synonym loads = "string \<Rightarrow> json option"

definition parse_response :: "loads \<Rightarrow> json \<Rightarrow> decision_error + json_object" where
  "parse_response loads payload =
     (let parsed = (case payload of
          JStr s \<Rightarrow> (case loads s of None \<Rightarrow> None | Some v \<Rightarrow> if unique_keys v then Some v else None)
        | _ \<Rightarrow> Some payload)
      in case parsed of Some (JObj r) \<Rightarrow> Inr r | _ \<Rightarrow> Inl InvalidOutput)"

section \<open>Choices\<close>

record choice_result =
  cr_choice :: string
  cr_proposals :: "json_object list"
  cr_probabilities :: "(string \<times> rat) list option"
  cr_probability :: "rat option"
  cr_confidence :: "rat option"
  cr_response :: json_object

type_synonym choice_table = "(string \<times> json_object list) list"

text \<open>A number between 0 and 1 that is not a truth value.\<close>

fun unit_number :: "json \<Rightarrow> rat option" where
  "unit_number (JInt i) = (if 0 \<le> i \<and> i \<le> 1 then Some (of_int i) else None)"
| "unit_number (JFloat r) = (if 0 \<le> r \<and> r \<le> 1 then Some r else None)"
| "unit_number _ = None"

text \<open>The usage of generated tokens: what \<open>usage\<close> names, 0 without a usage.\<close>

definition output_tokens :: "json_object \<Rightarrow> decision_error + json" where
  "output_tokens response =
     (case map_of response ''usage'' of
        None \<Rightarrow> Inr (JInt 0)
      | Some JNull \<Rightarrow> Inr (JInt 0)
      | Some (JObj u) \<Rightarrow>
          Inr (case map_of u ''output_tokens'' of
                 Some v \<Rightarrow> v
               | None \<Rightarrow> (case map_of u ''outputTokens'' of Some v \<Rightarrow> v | None \<Rightarrow> JInt 0))
      | Some _ \<Rightarrow> Inl InvalidOutput)"

definition check_tokens :: "json \<Rightarrow> decision_error + unit" where
  "check_tokens v =
     (case v of
        JInt n \<Rightarrow> if n < 0 then Inl InvalidOutput else if n \<noteq> 0 then Inl ContractViolation else Inr ()
      | _ \<Rightarrow> Inl InvalidOutput)"

definition answer_fields :: "string list" where
  "answer_fields = [''type'', ''choice'', ''probability'', ''probabilities'', ''confidence'']"

text \<open>The single answer, an object that says it is a choice and has no other fields.\<close>

definition choice_answer :: "json_object \<Rightarrow> decision_error + json_object" where
  "choice_answer answers =
     (case map_of answers ''next_action'' of
        Some (JObj answer) \<Rightarrow>
          if map_of answer ''type'' \<noteq> Some (JStr ''choice'') then Inl InvalidOutput
          else if \<not> fst ` set answer \<subseteq> set answer_fields then Inl InvalidOutput
          else Inr answer
      | _ \<Rightarrow> Inl InvalidOutput)"

definition chosen :: "choice_table \<Rightarrow> json_object \<Rightarrow> decision_error + string \<times> json_object list" where
  "chosen choices answer =
     (case map_of answer ''choice'' of
        Some (JStr c) \<Rightarrow>
          (case map_of choices c of
             None \<Rightarrow> Inl InvalidOutput
           | Some ps \<Rightarrow> if c = ''no_action'' \<and> ps \<noteq> [] then Inl ConfigurationInvalid else Inr (c, ps))
      | _ \<Rightarrow> Inl InvalidOutput)"

text \<open>The probabilities: the answer's come before the response's.\<close>

definition named_probabilities ::
  "choice_table \<Rightarrow> json_object \<Rightarrow> json_object \<Rightarrow> decision_error + (string \<times> rat) list option" where
  "named_probabilities choices response answer =
     (case (case map_of answer ''probabilities'' of
              None \<Rightarrow> map_of response ''probabilities'' | Some v \<Rightarrow> Some v) of
        None \<Rightarrow> Inr None
      | Some (JObj ps) \<Rightarrow>
          if \<not> fst ` set ps \<subseteq> fst ` set choices then Inl InvalidOutput
          else bind_res (map_res (\<lambda>(k, v). case unit_number v of
                                     None \<Rightarrow> Inl InvalidOutput | Some r \<Rightarrow> Inr (k, r)) ps)
                 (\<lambda>ps. Inr (Some ps))
      | Some _ \<Rightarrow> Inl InvalidOutput)"

definition unit_field :: "json option \<Rightarrow> decision_error + rat option" where
  "unit_field v =
     (case v of
        None \<Rightarrow> Inr None
      | Some v \<Rightarrow> (case unit_number v of None \<Rightarrow> Inl InvalidOutput | Some r \<Rightarrow> Inr (Some r)))"

definition map_choice :: "loads \<Rightarrow> json \<Rightarrow> choice_table \<Rightarrow> decision_error + choice_result" where
  "map_choice loads payload choices =
     bind_res (parse_response loads payload) (\<lambda>response.
       case map_of response ''answers'' of
         Some (JObj answers) \<Rightarrow>
           if fst ` set answers \<noteq> {''next_action''} then Inl InvalidOutput
           else
             bind_res (output_tokens response) (\<lambda>tokens.
             bind_res (check_tokens tokens) (\<lambda>_.
             bind_res (choice_answer answers) (\<lambda>answer.
             bind_res (chosen choices answer) (\<lambda>(c, ps).
             bind_res (named_probabilities choices response answer) (\<lambda>probabilities.
             bind_res (unit_field (case map_of response ''confidence'' of
                                     None \<Rightarrow> map_of answer ''confidence'' | Some v \<Rightarrow> Some v)) (\<lambda>confidence.
             bind_res (unit_field (map_of answer ''probability'')) (\<lambda>probability.
               Inr \<lparr>cr_choice = c, cr_proposals = ps, cr_probabilities = probabilities,
                    cr_probability = probability, cr_confidence = confidence, cr_response = response\<rparr>)))))))
       | _ \<Rightarrow> Inl InvalidOutput)"

section \<open>Deciding\<close>

text \<open>What \<open>post_json\<close> yields: \<open>TimeoutError\<close>, another exception with its code and HTTP status, or JSON.\<close>

datatype post_answer =
    PostTimedOut
  | PostFailed "string option" "int option"
  | PostReturned json

text \<open>Errors with the native response that a \<open>NativeResponseError\<close> carries.\<close>

type_synonym native_error = "decision_error \<times> json option"

definition transport_error :: "post_answer \<Rightarrow> decision_error" where
  "transport_error a =
     (case a of
        PostTimedOut \<Rightarrow> DecisionTimeout
      | PostFailed code status \<Rightarrow>
          if code = Some ''invalid-json'' \<or> code = Some ''response-too-large'' then InvalidOutput
          else (case status of
                  None \<Rightarrow> ServiceUnavailable
                | Some s \<Rightarrow> if 400 \<le> s \<and> s < 500 \<and> s \<noteq> 408 \<and> s \<noteq> 429 then RequestRejected
                            else ServiceUnavailable)
      | PostReturned _ \<Rightarrow> ServiceUnavailable)"

definition decide ::
  "loads \<Rightarrow> (string \<times> string) list \<Rightarrow> choice_table \<Rightarrow> post_answer \<Rightarrow> native_error + choice_result" where
  "decide loads criteria choices answer =
     (if map fst choices \<noteq> map fst criteria \<or> \<not> list_all (\<lambda>(_, d). d \<noteq> []) criteria
      then Inl (ConfigurationInvalid, None)
      else case answer of
             PostReturned v \<Rightarrow>
               (case map_choice loads v choices of Inl e \<Rightarrow> Inl (e, Some v) | Inr r \<Rightarrow> Inr r)
           | _ \<Rightarrow> Inl (transport_error answer, None))"

text \<open>The response a \<open>NativeResponseError\<close> keeps.\<close>

definition native_record :: "json \<Rightarrow> json_object" where
  "native_record v = (case v of JObj kvs \<Rightarrow> kvs | _ \<Rightarrow> [(''invalidNativePayload'', v)])"

section \<open>Start-up\<close>

datatype startup_status = IdentityVerified | IdentityUnverified

record startup_report =
  sr_status :: startup_status
  sr_expected_model :: string
  sr_observed_model :: "json option"
  sr_expected_identity :: json_object
  sr_observed_identity :: json_object
  sr_response :: json_object

text \<open>Python's truth value of JSON.\<close>

fun truthy :: "json \<Rightarrow> bool" where
  "truthy JNull = False"
| "truthy (JBool b) = b"
| "truthy (JInt i) = (i \<noteq> 0)"
| "truthy (JFloat r) = (r \<noteq> 0)"
| "truthy (JStr s) = (s \<noteq> [])"
| "truthy (JArr xs) = (xs \<noteq> [])"
| "truthy (JObj kvs) = (kvs \<noteq> [])"

text \<open>\<open>PurePath(s).name\<close>: the last part that is not empty or \<open>.\<close>\<close>

definition path_name :: "string \<Rightarrow> string" where
  "path_name s =
     (case filter (\<lambda>p. p \<noteq> [] \<and> p \<noteq> ''.'') (split_on (CHR ''/'') s) of [] \<Rightarrow> [] | ps \<Rightarrow> last ps)"

definition observable_fields :: "(string \<times> string) list" where
  "observable_fields =
     [(''serverVersion'', ''version''), (''serverCommit'', ''commit''), (''artifact'', ''model_path''),
      (''sha256'', ''model_sha256''), (''revision'', ''model_revision''), (''repository'', ''model_repository'')]"

text \<open>\<open>d.get(k)\<close>: a missing member and a null are the same.\<close>

definition field_of :: "json_object \<Rightarrow> string \<Rightarrow> json option" where
  "field_of o' k = (case map_of o' k of Some JNull \<Rightarrow> None | v \<Rightarrow> v)"

definition identity_matches :: "string \<Rightarrow> json \<Rightarrow> json \<Rightarrow> bool" where
  "identity_matches key expected v =
     (py_eq expected v
      \<or> key = ''artifact'' \<and> (case v of JStr s \<Rightarrow> py_eq (JStr (path_name s)) expected | _ \<Rightarrow> False))"

definition observe_field ::
  "json_object \<Rightarrow> json_object \<Rightarrow> string \<times> string \<Rightarrow> json_object \<Rightarrow> decision_error + json_object" where
  "observe_field expected props = (\<lambda>(key, name) seen.
     (case (field_of expected key, field_of props name) of
        (Some e, Some o') \<Rightarrow>
          if identity_matches key e o' then Inr (AList.update key o' seen) else Inl StartupIdentityMismatch
      | _ \<Rightarrow> Inr seen))"

definition served_model :: "json_object \<Rightarrow> json option" where
  "served_model props =
     (case field_of props ''model_alias'' of
        Some v \<Rightarrow> if truthy v then Some v else field_of props ''model''
      | None \<Rightarrow> field_of props ''model'')"

text \<open>The readiness of the service; a status that cannot be hashed raises.\<close>

definition check_health :: "json_object \<Rightarrow> decision_error + unit" where
  "check_health health =
     (case map_of health ''status'' of
        Some (JStr s) \<Rightarrow> if s = ''ok'' \<or> s = ''ready'' then Inr () else Inl StartupUnavailable
      | Some (JArr _) \<Rightarrow> Inl (DecisionRaised (OtherRaised None))
      | Some (JObj _) \<Rightarrow> Inl (DecisionRaised (OtherRaised None))
      | _ \<Rightarrow> Inl StartupUnavailable)"

definition verify_startup ::
  "loads \<Rightarrow> string \<Rightarrow> json_object \<Rightarrow> (string \<times> string) list \<Rightarrow> raised + json \<Rightarrow> raised + json \<Rightarrow> post_answer
   \<Rightarrow> decision_error + startup_report" where
  "verify_startup loads model expected criteria health props probe =
     (case (health, props) of
        (Inr health, Inr props) \<Rightarrow>
          (case (health, props) of
             (JObj health, JObj props) \<Rightarrow>
               bind_res (check_health health) (\<lambda>_.
               if (case served_model props of None \<Rightarrow> False | Some v \<Rightarrow> \<not> py_eq v (JStr model))
               then Inl StartupIdentityMismatch
               else
                 bind_res (fold_res (observe_field expected props) observable_fields []) (\<lambda>seen.
                 case decide loads criteria (map (\<lambda>(k, _). (k, [])) criteria) probe of
                   Inl (e, _) \<Rightarrow> Inl (if e = DecisionTimeout then StartupTimeout else StartupInterfaceInvalid)
                 | Inr r \<Rightarrow>
                     Inr \<lparr>sr_status = (if length seen = length expected then IdentityVerified else IdentityUnverified),
                          sr_expected_model = model, sr_observed_model = served_model props,
                          sr_expected_identity = expected, sr_observed_identity = seen,
                          sr_response = cr_response r\<rparr>))
           | _ \<Rightarrow> Inl StartupInterfaceInvalid)
      | _ \<Rightarrow> Inl StartupUnavailable)"

section \<open>What an accepted response says\<close>

lemma unit_number_range: "unit_number v = Some r \<Longrightarrow> 0 \<le> r \<and> r \<le> 1"
  by (cases v) (auto split: if_splits)

lemma map_choice_Inr:
  assumes "map_choice loads payload choices = Inr r"
  obtains response answers answer where "parse_response loads payload = Inr response"
    "map_of response ''answers'' = Some (JObj answers)" "fst ` set answers = {''next_action''}"
    "map_of answers ''next_action'' = Some (JObj answer)" "map_of answer ''choice'' = Some (JStr (cr_choice r))"
    "output_tokens response = Inr (JInt 0)" "map_of choices (cr_choice r) = Some (cr_proposals r)"
    "cr_choice r = ''no_action'' \<Longrightarrow> cr_proposals r = []" "cr_response r = response"
    "named_probabilities choices response answer = Inr (cr_probabilities r)"
proof -
  obtain response where r: "parse_response loads payload = Inr response"
    using assms by (auto simp: map_choice_def bind_res_Inr_iff)
  then obtain answers where a: "map_of response ''answers'' = Some (JObj answers)"
    using assms by (auto simp: map_choice_def split: option.splits json.splits)
  have "fst ` set answers = {''next_action''}"
    using assms r a by (simp add: map_choice_def split: if_splits)
  moreover obtain tokens answer where "output_tokens response = Inr tokens" "check_tokens tokens = Inr ()"
    "choice_answer answers = Inr answer" "chosen choices answer = Inr (cr_choice r, cr_proposals r)"
    "cr_response r = response" "named_probabilities choices response answer = Inr (cr_probabilities r)"
    using assms r a by (auto simp: map_choice_def bind_res_Inr_iff split: if_splits)
  ultimately show ?thesis
    using r a
    by (intro that [of response answers answer])
      (auto simp: check_tokens_def choice_answer_def chosen_def split: json.splits option.splits if_splits)
qed

lemma decide_Inr:
  assumes "decide loads criteria choices answer = Inr r"
  obtains v where "answer = PostReturned v" "map_choice loads v choices = Inr r"
  using assms by (auto simp: decide_def split: if_splits post_answer.splits sum.splits)

end
