(* ===== verification/Bounded.thy ===== *)
theory Bounded
  imports Decision_Client Deployment
begin

text \<open>
  Bounded decisions (\<open>mininet_ai/agents/bounded.py\<close>, \<open>bounded_contracts.py\<close> and
  \<open>reconciliation.py\<close>): the authority that ties the start of actions to a deadline and to
  cancellation, the reconciliation of a partly applied bundle, and one run of a bounded agent
  from its inputs to its proposals, with the record it keeps when it refuses.

  The service, the substrate and the clocks are other code: a \<open>world\<close> says what they yield and
  a \<open>ticks\<close> record holds the readings of the monotonic clock. \<open>w_others\<close> are the revocations
  other threads asked for up to a point of the run. Texts of errors are left out.
\<close>

section \<open>Authority\<close>

datatype revocation = Cancelled | Expired

record authority =
  au_deadline :: rat
  au_revocation :: "revocation option"
  au_starts :: "rat list"

definition new_authority :: "rat \<Rightarrow> authority" where
  "new_authority deadline = \<lparr>au_deadline = deadline, au_revocation = None, au_starts = []\<rparr>"

definition revoke :: "revocation \<Rightarrow> authority \<Rightarrow> bool \<times> authority" where
  "revoke reason a =
     (if au_revocation a \<noteq> None then (False, a) else (True, a\<lparr>au_revocation := Some reason\<rparr>))"

text \<open>\<open>execute_if_authorized\<close> up to the start of the action, with the clock read under the lock.\<close>

definition try_start :: "rat \<Rightarrow> authority \<Rightarrow> bool \<times> authority" where
  "try_start tick a =
     (if au_revocation a \<noteq> None then (False, a)
      else if au_deadline a \<le> tick then (False, a\<lparr>au_revocation := Some Expired\<rparr>)
      else (True, a\<lparr>au_starts := au_starts a @ [tick]\<rparr>))"

definition validate_response :: "rat \<Rightarrow> authority \<Rightarrow> revocation option \<times> authority" where
  "validate_response tick a =
     (let a = (if au_revocation a = None \<and> au_deadline a \<le> tick
               then a\<lparr>au_revocation := Some Expired\<rparr> else a)
      in (au_revocation a, a))"

text \<open>
  The authority with the threads that use it: the clock moves on, anyone may revoke or validate,
  and one action at a time may start and end. \<open>as_done\<close> counts the actions that ended.
\<close>

record authority_system =
  as_authority :: authority
  as_now :: rat
  as_busy :: bool
  as_done :: nat

inductive authority_step :: "authority_system \<Rightarrow> authority_system \<Rightarrow> bool" where
  as_tick: "as_now s \<le> now \<Longrightarrow> authority_step s (s\<lparr>as_now := now\<rparr>)"
| as_revoke: "authority_step s (s\<lparr>as_authority := snd (revoke reason (as_authority s))\<rparr>)"
| as_validate: "authority_step s (s\<lparr>as_authority := snd (validate_response (as_now s) (as_authority s))\<rparr>)"
| as_start: "\<not> as_busy s \<Longrightarrow> try_start (as_now s) (as_authority s) = (True, a)
    \<Longrightarrow> authority_step s (s\<lparr>as_authority := a, as_busy := True\<rparr>)"
| as_refuse: "\<not> as_busy s \<Longrightarrow> try_start (as_now s) (as_authority s) = (False, a)
    \<Longrightarrow> authority_step s (s\<lparr>as_authority := a\<rparr>)"
| as_end: "as_busy s \<Longrightarrow> authority_step s (s\<lparr>as_busy := False, as_done := as_done s + 1\<rparr>)"

definition new_authority_system :: "rat \<Rightarrow> rat \<Rightarrow> authority_system" where
  "new_authority_system deadline now =
     \<lparr>as_authority = new_authority deadline, as_now = now, as_busy = False, as_done = 0\<rparr>"

section \<open>Reconciliation\<close>

datatype policy_state = PolicyUnknown | VerifiedPrimary | VerifiedRecovery | PartlyApplied

record reconciled =
  re_policy :: policy_state
  re_present :: "nat list"
  re_missing :: "nat list"

definition reconcile_bundle :: "string list \<Rightarrow> reconciled" where
  "reconcile_bundle states =
     (let indices = [0..<length states];
          unknown = \<lparr>re_policy = PolicyUnknown, re_present = [], re_missing = indices\<rparr>;
          present = filter (\<lambda>i. states ! i = ''present'') indices;
          missing = filter (\<lambda>i. states ! i = ''missing'') indices
      in if list_ex (\<lambda>s. s \<noteq> ''present'' \<and> s \<noteq> ''missing'') states then unknown
         else if present \<noteq> [0..<length present] then unknown
         else \<lparr>re_policy = (if present = [] then VerifiedPrimary
                            else if missing = [] then VerifiedRecovery else PartlyApplied),
               re_present = present, re_missing = missing\<rparr>)"

section \<open>The adapter\<close>

record bundle_request =
  br_id :: string
  br_name :: string
  br_target :: string
  br_parameters :: json_object

datatype local_cancellation = NotRequested | TransportAttempted | TransportFailed | AuthorityRevoked

datatype inspection_status = InspectionExpired | InspectionUnsupported | InspectionRecorded | InspectionUnreadable

record retry_evidence =
  rv_eligible :: bool
  rv_refusal :: string
  rv_signals :: "bool list"

record reconciliation =
  rc_status :: inspection_status
  rc_policy :: policy_state
  rc_states :: "string list"
  rc_present :: "nat list"
  rc_missing :: "nat list"
  rc_evidence :: "retry_evidence option"

record mapped_proposal =
  mp_id :: string
  mp_step :: nat
  mp_capability :: string
  mp_target :: string
  mp_arguments :: json_object

text \<open>\<open>BoundedDecisionRecord\<close> and its envelope, without the constants and the texts.\<close>

record decision_record =
  dr_run_id :: run_id
  dr_agent_id :: agent_id
  dr_invocation_id :: string
  dr_correlation_id :: string
  dr_selected :: string
  dr_response :: json_object
  dr_mapping :: "mapped_proposal list"
  dr_reconciliation :: "reconciliation option"
  dr_refusal :: "string option"
  dr_authorization :: string
  dr_authorization_results :: "(string \<times> string) list"
  dr_admission :: string
  dr_outcomes :: "(string \<times> string) list"
  dr_phases :: "(string \<times> rat) list"
  dr_cancelled :: bool
  dr_expired :: bool
  dr_late :: bool
  dr_incomplete :: "(string \<times> action_status \<times> mutation_effects) list"
  dr_after :: "reconciliation option"
  dr_correctness :: bool
  dr_issue :: "string option"
  dr_succeeded :: bool

record bounded_adapter =
  ba_agent :: compiled_agent
  ba_scenario :: scenario
  ba_metadata :: json_object
  ba_bundle :: "bundle_request list"
  ba_substrate :: bool
  ba_authority :: "authority option"
  ba_reconciliation :: "reconciliation option"
  ba_failure :: "decision_record option"
  ba_record :: "decision_record option"
  ba_cancellation :: local_cancellation

definition str_field :: "json_object \<Rightarrow> string \<Rightarrow> string" where
  "str_field o' k = (case map_of o' k of Some (JStr s) \<Rightarrow> s | _ \<Rightarrow> [])"

definition obj_field :: "json_object \<Rightarrow> string \<Rightarrow> json_object" where
  "obj_field o' k = (case map_of o' k of Some (JObj m) \<Rightarrow> m | _ \<Rightarrow> [])"

definition step_id :: "nat \<Rightarrow> string" where
  "step_id i = ''bounded-'' @ decimal (i + 1)"

definition bundle_requests :: "scenario \<Rightarrow> bundle_request list" where
  "bundle_requests s =
     (case find (\<lambda>c. ch_id c = ''install_recovery'') (sc_choices s) of
        None \<Rightarrow> []
      | Some c \<Rightarrow> map (\<lambda>(i, p). \<lparr>br_id = step_id i, br_name = str_field p ''capability'',
                                br_target = str_field p ''target'', br_parameters = obj_field p ''arguments''\<rparr>)
                    (enumerate 0 (ch_proposals c)))"

text \<open>The constructor; \<open>resolved\<close> says that the blueprint's model is a resolved one of the native provider.\<close>

definition new_adapter ::
  "compiled_agent \<Rightarrow> json_object \<Rightarrow> bool \<Rightarrow> bool \<Rightarrow> decision_error + bounded_adapter" where
  "new_adapter agent metadata resolved substrate =
     (case ca_scenario agent of
        None \<Rightarrow> Inl ConfigurationInvalid
      | Some s \<Rightarrow>
          if \<not> resolved then Inl ConfigurationInvalid
          else Inr \<lparr>ba_agent = agent, ba_scenario = s, ba_metadata = metadata, ba_bundle = bundle_requests s,
                    ba_substrate = substrate, ba_authority = None, ba_reconciliation = None,
                    ba_failure = None, ba_record = None, ba_cancellation = NotRequested\<rparr>)"

definition bind_authority :: "authority \<Rightarrow> bounded_adapter \<Rightarrow> bounded_adapter" where
  "bind_authority a ad = ad\<lparr>ba_authority := Some a\<rparr>"

text \<open>
  \<open>cancel_local\<close>: \<open>cancels\<close> says that the transport can cancel requests. The thread that asks it
  to may record its failure before or after this returns.
\<close>

definition revoke_bound :: "revocation \<Rightarrow> bounded_adapter \<Rightarrow> bounded_adapter" where
  "revoke_bound reason ad = ad\<lparr>ba_authority := map_option (\<lambda>a. snd (revoke reason a)) (ba_authority ad)\<rparr>"

definition cancel_local :: "bool \<Rightarrow> bounded_adapter \<Rightarrow> bounded_adapter" where
  "cancel_local cancels ad =
     (revoke_bound Cancelled ad)
       \<lparr>ba_cancellation := (if cancels then TransportAttempted else AuthorityRevoked)\<rparr>"

definition transport_cancel_failed :: "bounded_adapter \<Rightarrow> bounded_adapter" where
  "transport_cancel_failed ad = ad\<lparr>ba_cancellation := TransportFailed\<rparr>"

section \<open>The decision context\<close>

text \<open>What the other code yields during a run.\<close>

datatype inspection =
    NoInspector
  | InspectorRaised
  | InspectorStates "string list"

datatype run_point = DuringInference | DuringRecheck

record world =
  w_loads :: loads
  w_iso :: "timestamp \<Rightarrow> string"
  w_float :: "string \<Rightarrow> rat option"
  w_post :: "rat \<Rightarrow> post_answer"
  w_inspect :: inspection
  w_observe :: "string \<Rightarrow> raised + observation_result"
  w_now :: "string \<Rightarrow> timestamp"
  w_others :: "run_point \<Rightarrow> revocation list"

record ticks =
  tk_created :: rat
  tk_started :: rat
  tk_policy :: rat
  tk_budget :: rat
  tk_inference :: rat
  tk_error :: rat
  tk_failure :: rat
  tk_completed :: rat
  tk_validated :: rat
  tk_recheck :: rat
  tk_rechecked :: rat
  tk_revalidated :: rat

text \<open>\<open>metadata.get("deadlineStartedAt")\<close> and \<open>float\<close> of it.\<close>

definition scheduled_tick :: "world \<Rightarrow> agent_context \<Rightarrow> decision_error + rat option" where
  "scheduled_tick w ctx =
     (case ctx_coordination ctx of
        None \<Rightarrow> Inr None
      | Some c \<Rightarrow>
          (case field_of (cc_metadata c) ''deadlineStartedAt'' of
             None \<Rightarrow> Inr None
           | Some (JInt i) \<Rightarrow> Inr (Some (of_int i))
           | Some (JFloat r) \<Rightarrow> Inr (Some r)
           | Some (JBool b) \<Rightarrow> Inr (Some (if b then 1 else 0))
           | Some (JStr s) \<Rightarrow> (case w_float w s of
                                 None \<Rightarrow> Inl (DecisionRaised (OtherRaised None)) | Some r \<Rightarrow> Inr (Some r))
           | Some _ \<Rightarrow> Inl (DecisionRaised (OtherRaised None))))"

text \<open>\<open>duration_seconds(scenario["timing"]["decisionDeadline"])\<close>; the scenario's contract makes it positive.\<close>

definition decision_deadline :: "scenario \<Rightarrow> rat" where
  "decision_deadline s =
     (case duration_seconds (str_field (sc_timing s) ''decisionDeadline'') of Some d \<Rightarrow> d | None \<Rightarrow> 0)"

definition targets_of :: "bounded_adapter \<Rightarrow> string list" where
  "targets_of ad = at_targets (ai_attachment (ca_instance (ba_agent ad)))"

definition input_available :: "bounded_adapter \<Rightarrow> agent_context \<Rightarrow> string \<Rightarrow> bool" where
  "input_available ad ctx source =
     (case field_of (ctx_observations ctx) source of
        None \<Rightarrow> False
      | Some (JObj o') \<Rightarrow>
          sc_input_mode (ba_scenario ad) \<noteq> CurrentOnly \<or> list_all (\<lambda>t. field_of o' t \<noteq> None) (targets_of ad)
      | Some _ \<Rightarrow> True)"

definition latest_inputs :: "bounded_adapter \<Rightarrow> agent_context \<Rightarrow> json_object" where
  "latest_inputs ad ctx =
     map (\<lambda>(logical, source).
       (logical, JObj [(''source'', JStr source),
                       (''availability'', JStr (if input_available ad ctx source then ''available'' else ''missing'')),
                       (''value'', case map_of (ctx_observations ctx) source of None \<Rightarrow> JNull | Some v \<Rightarrow> v),
                       (''observedAt'', JNull)]))
       (ca_inputs (ba_agent ad))"

definition correlation_of :: "agent_context \<Rightarrow> string" where
  "correlation_of ctx =
     (case ctx_coordination ctx of None \<Rightarrow> ctx_invocation_id ctx | Some c \<Rightarrow> cc_correlation_id c)"

definition identity_json :: "world \<Rightarrow> agent_context \<Rightarrow> json_object" where
  "identity_json w ctx =
     [(''runId'', JStr (ctx_run_id ctx)), (''agentId'', JStr (ctx_agent_id ctx)),
      (''invocationId'', JStr (ctx_invocation_id ctx)), (''tickId'', JStr (correlation_of ctx)),
      (''invokedAt'', JStr (w_iso w (ctx_invoked_at ctx)))]"

definition context_version :: "string \<Rightarrow> json" where
  "context_version v = JStr (''mininet-ai/bounded-decision-context/'' @ v)"

definition role_json :: "flow_role \<Rightarrow> json" where
  "role_json r = JObj [(''purpose'', JStr (fr_purpose r)), (''required'', fr_required r),
                       (''requirement'', JStr (fr_requirement r))]"

text \<open>\<open>_current_only_context\<close>.\<close>

definition current_only_context ::
  "bounded_adapter \<Rightarrow> json_object \<Rightarrow> json_object \<Rightarrow> decision_error + json" where
  "current_only_context ad identity diagnosis =
     (let s = ba_scenario ad; targets = targets_of ad;
          switch = [(''targets'', JArr (map JStr targets)), (''diagnosis'', JObj diagnosis)]
                   @ (case map_of (sc_local_expectations s) (hd targets) of
                        None \<Rightarrow> []
                      | Some e \<Rightarrow> if e = [] then [] else [(''expectations'', JObj e)]);
          envelope = (\<lambda>version switch. JObj [(''apiVersion'', context_version version),
            (''scenario'', JObj (ba_metadata ad)), (''identity'', JObj identity), (''switch'', JObj switch)])
      in case sc_context s of
           None \<Rightarrow> Inr (envelope ''v1alpha1'' switch)
         | Some roles \<Rightarrow>
             (case map_of roles (hd targets) of
                None \<Rightarrow> Inl ConfigurationInvalid
              | Some rs \<Rightarrow>
                  if length targets \<noteq> 1 then Inl ConfigurationInvalid
                  else Inr (envelope ''v1alpha2'' (switch
                         @ [(''diagnosticScope'', JStr ''required-local-configuration''),
                            (''flowRoles'', JObj (map (\<lambda>(c, r). (c, role_json r)) rs))]))))"

section \<open>Inspection\<close>

definition inspect_states :: "bool \<Rightarrow> inspection \<Rightarrow> nat \<Rightarrow> inspection_status \<times> string list" where
  "inspect_states expired i n =
     (if expired then (InspectionExpired, replicate n ''unreadable'')
      else case i of
             NoInspector \<Rightarrow> (InspectionUnsupported, replicate n ''unknown'')
           | InspectorRaised \<Rightarrow> (InspectionUnreadable, replicate n ''unreadable'')
           | InspectorStates states \<Rightarrow>
               if length states \<noteq> n then (InspectionUnreadable, replicate n ''unreadable'')
               else (InspectionRecorded, states))"

definition inspect_policy :: "bool \<Rightarrow> inspection \<Rightarrow> bounded_adapter \<Rightarrow> reconciliation" where
  "inspect_policy expired i ad =
     (let (status, states) = inspect_states expired (if ba_substrate ad then i else NoInspector) (length (ba_bundle ad));
          r = reconcile_bundle states
      in \<lparr>rc_status = status, rc_policy = re_policy r, rc_states = states, rc_present = re_present r,
          rc_missing = re_missing r, rc_evidence = None\<rparr>)"

fun policy_text :: "policy_state \<Rightarrow> string" where
  "policy_text PolicyUnknown = ''unknown''"
| "policy_text VerifiedPrimary = ''verified-primary''"
| "policy_text VerifiedRecovery = ''verified-recovery''"
| "policy_text PartlyApplied = ''partial''"

fun inspection_text :: "inspection_status \<Rightarrow> string" where
  "inspection_text InspectionExpired = ''expired''"
| "inspection_text InspectionUnsupported = ''unsupported''"
| "inspection_text InspectionRecorded = ''recorded''"
| "inspection_text InspectionUnreadable = ''unreadable''"

definition recovery_context ::
  "bounded_adapter \<Rightarrow> json_object \<Rightarrow> json_object \<Rightarrow> run_id \<Rightarrow> reconciliation \<Rightarrow> json" where
  "recovery_context ad identity latest run r =
     (let s = ba_scenario ad; indices = (\<lambda>is. JArr (map (\<lambda>i. JInt (int i)) is));
          current = JObj [(''identity'', JObj [(''runId'', JStr run), (''scenario'', JStr (sc_name s)),
                             (''bundleRequestIds'', JArr (map (\<lambda>b. JStr (br_id b)) (ba_bundle ad)))]),
                          (''inspectionStatus'', JStr (inspection_text (rc_status r))),
                          (''policy'', JStr (policy_text (rc_policy r))),
                          (''stepStates'', JArr (map JStr (rc_states r))),
                          (''presentIndexes'', indices (rc_present r)),
                          (''missingIndexes'', indices (rc_missing r))]
      in JObj [(''apiVersion'', context_version ''v1alpha1''), (''scenario'', JObj (ba_metadata ad)),
               (''identity'', JObj identity), (''paths'', JObj (sc_paths s)),
               (''latestObservations'', JObj latest),
               (''history'', JObj [(''requiredRounds'', JInt 3), (''completedRounds'', JArr []),
                  (''gaps'', JArr [JStr ''scheduled round history is not available from the agent-runtime contract''])]),
               (''policy'', JObj (AList.update ''current'' current (sc_policy s)))])"

section \<open>Evidence for a retry\<close>

text \<open>\<open>_eligibility_signals\<close>: the truth values under every \<open>eligible\<close> member, and whether one is malformed.\<close>

function eligibility_signals :: "json \<Rightarrow> bool list \<times> bool" where
  "eligibility_signals v =
     (case v of
        JObj kvs \<Rightarrow>
          fold (\<lambda>(k, c) (signals, bad).
                  if k = ''eligible'' \<and> (case c of JBool _ \<Rightarrow> True | _ \<Rightarrow> False)
                  then (signals @ (case c of JBool b \<Rightarrow> [b] | _ \<Rightarrow> []), bad)
                  else (signals @ fst (eligibility_signals c),
                        bad \<or> k = ''eligible'' \<or> snd (eligibility_signals c))) kvs ([], False)
      | JArr xs \<Rightarrow>
          fold (\<lambda>c (signals, bad).
                  (signals @ fst (eligibility_signals c), bad \<or> snd (eligibility_signals c))) xs ([], False)
      | _ \<Rightarrow> ([], False))"
  by pat_completeness auto

termination eligibility_signals
proof (relation "measure size")
  fix v xs child assume "v = JArr xs" "child \<in> set xs"
  then show "(child, v) \<in> measure size" using size_list_estimation' [of child xs "size child" size] by auto
next
  fix v xs child assume "v = JArr xs" "child \<in> set xs"
  then show "(child, v) \<in> measure size" using size_list_estimation' [of child xs "size child" size] by auto
qed (auto dest: size_entry)

declare eligibility_signals.simps [simp del]

definition max_age :: "scenario \<Rightarrow> rat" where
  "max_age s =
     (case duration_seconds (str_field (sc_observations s) ''maxAge'') of Some d \<Rightarrow> d | None \<Rightarrow> 0)"

text \<open>\<open>dict.fromkeys\<close>: the first occurrence of each.\<close>

definition from_keys :: "'a list \<Rightarrow> 'a list" where
  "from_keys xs = rev (remdups (rev xs))"

text \<open>The refresh of the observations, \<open>Inl\<close> the code of a refusal.\<close>

definition refresh_one ::
  "world \<Rightarrow> bounded_adapter \<Rightarrow> run_id \<Rightarrow> string \<Rightarrow> (string \<times> json_object) list
   \<Rightarrow> string + (string \<times> json_object) list" where
  "refresh_one w ad run source refreshed =
     (case w_observe w source of
        Inl _ \<Rightarrow> Inl ''evidence-unavailable''
      | Inr r \<Rightarrow>
          let age = rat_of_int (w_now w source - or_observed_at r) / 1000000 in
          if or_run_id r \<noteq> run
             \<or> or_query r \<noteq> \<lparr>oq_name = source, oq_targets = targets_of ad, oq_parameters = []\<rparr>
          then Inl ''evidence-unavailable''
          else if age < 0 \<or> max_age (ba_scenario ad) < age then Inl ''stale-evidence''
          else Inr (AList.update source (or_values r) refreshed))"

text \<open>What the probes say of each target: its signals, and whether they are missing or malformed.\<close>

definition target_signals :: "json_object \<Rightarrow> string \<Rightarrow> bool list \<times> bool" where
  "target_signals probes t =
     (case map_of probes t of None \<Rightarrow> ([], False) | Some v \<Rightarrow> eligibility_signals v)"

definition judge_signals :: "json_object \<Rightarrow> string list \<Rightarrow> retry_evidence" where
  "judge_signals probes targets =
     (let per = map (target_signals probes) targets; signals = concat (map fst per);
          code = (if list_ex snd per then ''malformed-eligibility''
                  else if list_ex (\<lambda>p. fst p = []) per then ''missing-eligibility''
                  else if 1 < card (set signals) then ''conflicting-eligibility''
                  else if False \<in> set signals then ''ineligible-evidence''
                  else [])
      in \<lparr>rv_eligible = (code = []), rv_refusal = code, rv_signals = signals\<rparr>)"

definition refused_evidence :: "string \<Rightarrow> retry_evidence" where
  "refused_evidence code = \<lparr>rv_eligible = False, rv_refusal = code, rv_signals = []\<rparr>"

definition note_evidence :: "retry_evidence \<Rightarrow> bounded_adapter \<Rightarrow> bounded_adapter" where
  "note_evidence e ad =
     ad\<lparr>ba_reconciliation := map_option (\<lambda>r. r\<lparr>rc_evidence := Some e\<rparr>) (ba_reconciliation ad)\<rparr>"

definition recheck_evidence ::
  "world \<Rightarrow> bool \<Rightarrow> run_id \<Rightarrow> bounded_adapter \<Rightarrow> retry_evidence \<times> bounded_adapter" where
  "recheck_evidence w expired run ad =
     (if expired \<or> \<not> ba_substrate ad then (refused_evidence ''evidence-unavailable'', ad)
      else
        let bindings = ca_inputs (ba_agent ad) in
        case fold_res (refresh_one w ad run) (from_keys (map snd bindings)) [] of
          Inl code \<Rightarrow>
            (refused_evidence code,
             if code = ''stale-evidence'' then note_evidence (refused_evidence code) ad else ad)
        | Inr refreshed \<Rightarrow>
            let probes = (case map_of bindings ''pathProbes'' of
                            None \<Rightarrow> []
                          | Some source \<Rightarrow> (case map_of refreshed source of None \<Rightarrow> [] | Some v \<Rightarrow> v));
                e = judge_signals probes (targets_of ad)
            in (e, note_evidence e ad))"

section \<open>One run\<close>

record bounded_execution =
  be_response :: agent_response
  be_record :: decision_record
  be_authority :: authority

definition revocation_of :: "bounded_adapter \<Rightarrow> revocation option" where
  "revocation_of ad = (case ba_authority ad of None \<Rightarrow> None | Some a \<Rightarrow> au_revocation a)"

text \<open>\<open>_retain_failure\<close>: the record of a refused decision.\<close>

definition failure_record ::
  "agent_context \<Rightarrow> ticks \<Rightarrow> string \<Rightarrow> string \<Rightarrow> json_object \<Rightarrow> bool \<Rightarrow> string \<Rightarrow> bounded_adapter
   \<Rightarrow> decision_record" where
  "failure_record ctx t reason phase native late selected ad =
     \<lparr>dr_run_id = ctx_run_id ctx, dr_agent_id = ctx_agent_id ctx, dr_invocation_id = ctx_invocation_id ctx,
      dr_correlation_id = correlation_of ctx, dr_selected = selected, dr_response = native, dr_mapping = [],
      dr_reconciliation = ba_reconciliation ad, dr_refusal = None, dr_authorization = ''not-reached'',
      dr_authorization_results = [], dr_admission = reason, dr_outcomes = [],
      dr_phases = [(''input-assembly'', tk_started t), (phase, tk_failure t)],
      dr_cancelled = (reason = ''cancelled''), dr_expired = (reason = ''timeout''), dr_late = late,
      dr_incomplete = [], dr_after = None, dr_correctness = True, dr_issue = None, dr_succeeded = False\<rparr>"

definition retain_failure ::
  "agent_context \<Rightarrow> ticks \<Rightarrow> string \<Rightarrow> string \<Rightarrow> json_object \<Rightarrow> bool \<Rightarrow> string \<Rightarrow> bounded_adapter
   \<Rightarrow> bounded_adapter" where
  "retain_failure ctx t reason phase native late selected ad =
     ad\<lparr>ba_failure := Some (failure_record ctx t reason phase native late selected ad)\<rparr>"

definition others_revoke :: "revocation list \<Rightarrow> bounded_adapter \<Rightarrow> bounded_adapter" where
  "others_revoke rs ad = fold revoke_bound rs ad"

text \<open>The authority of the run: the one bound before, or one made for the run's own deadline.\<close>

definition own_authority :: "rat option \<Rightarrow> ticks \<Rightarrow> bounded_adapter \<Rightarrow> authority" where
  "own_authority scheduled t ad =
     (case ba_authority ad of
        Some a \<Rightarrow> a
      | None \<Rightarrow> new_authority ((case scheduled of Some s \<Rightarrow> s | None \<Rightarrow> tk_created t)
                              + decision_deadline (ba_scenario ad)))"

text \<open>Up to the state that is sent: the adapter with its authority and, unless current-only, its inspection.\<close>

definition assemble ::
  "world \<Rightarrow> ticks \<Rightarrow> agent_context \<Rightarrow> authority \<Rightarrow> bounded_adapter \<Rightarrow> decision_error + json \<times> bounded_adapter" where
  "assemble w t ctx a ad =
     (let ad = ad\<lparr>ba_authority := Some a\<rparr>; latest = latest_inputs ad ctx; identity = identity_json w ctx in
      if sc_input_mode (ba_scenario ad) = CurrentOnly
      then bind_res (current_only_context ad identity latest) (\<lambda>state. Inr (state, ad))
      else let r = inspect_policy (au_deadline a - tk_policy t \<le> 0) (w_inspect w) ad;
               ad = ad\<lparr>ba_reconciliation := Some r\<rparr>
           in Inr (recovery_context ad identity latest (ctx_run_id ctx) r, ad))"

definition choice_criteria :: "scenario \<Rightarrow> (string \<times> string) list" where
  "choice_criteria s = fold (\<lambda>c. AList.update (ch_id c) (ch_description c)) (sc_choices s) []"

definition choice_table_of :: "scenario \<Rightarrow> choice_table" where
  "choice_table_of s = fold (\<lambda>c. AList.update (ch_id c) (ch_proposals c)) (sc_choices s) []"

fun revocation_text :: "revocation \<Rightarrow> string" where
  "revocation_text Cancelled = ''cancelled''"
| "revocation_text Expired = ''timeout''"

fun revocation_error :: "revocation \<Rightarrow> decision_error" where
  "revocation_error Cancelled = DecisionCancelled"
| "revocation_error Expired = DecisionTimeout"

text \<open>Validate the authority and refuse a result that came too late.\<close>

definition refuse_late ::
  "agent_context \<Rightarrow> ticks \<Rightarrow> rat \<Rightarrow> rat \<Rightarrow> string \<Rightarrow> string \<Rightarrow> choice_result \<Rightarrow> authority \<Rightarrow> bounded_adapter
   \<Rightarrow> (decision_error + unit) \<times> bounded_adapter" where
  "refuse_late ctx t completed validated phase selected r a ad =
     (let (revoked, a) = validate_response validated a; ad = ad\<lparr>ba_authority := Some a\<rparr> in
      if revoked \<noteq> None \<or> au_deadline a \<le> completed
      then let reason = (case revoked of None \<Rightarrow> Expired | Some x \<Rightarrow> x); ad = revoke_bound reason ad
           in (Inl (revocation_error reason),
               retain_failure ctx t (revocation_text reason) phase (cr_response r) True selected ad)
      else (Inr (), ad))"

text \<open>The inference and what is refused before the choice is looked at.\<close>

definition infer ::
  "world \<Rightarrow> ticks \<Rightarrow> agent_context \<Rightarrow> rat \<Rightarrow> bounded_adapter \<Rightarrow> (decision_error + choice_result) \<times> bounded_adapter" where
  "infer w t ctx deadline ad =
     (let budget = deadline - tk_budget t; s = ba_scenario ad in
      if budget \<le> 0
      then (Inl DecisionTimeout, retain_failure ctx t ''timeout'' ''input-assembly'' [] False ''unavailable''
                                   (revoke_bound Expired ad))
      else
        let answer = decide (w_loads w) (choice_criteria s) (choice_table_of s) (w_post w budget);
            ad = others_revoke (w_others w DuringInference) ad
        in case answer of
             Inl (e, native) \<Rightarrow>
               let native = (case native of None \<Rightarrow> [] | Some v \<Rightarrow> native_record v) in
               if revocation_of ad = Some Cancelled
               then (Inl e, retain_failure ctx t ''cancelled'' ''inference'' native False ''unavailable'' ad)
               else if e = DecisionTimeout \<or> deadline \<le> tk_error t
               then (Inl e, retain_failure ctx t ''timeout'' ''inference'' native False ''unavailable''
                              (revoke_bound Expired ad))
               else (Inl e, retain_failure ctx t ''failed'' ''inference'' native False ''unavailable'' ad)
           | Inr r \<Rightarrow>
               if cr_choice r = ''no_action'' \<and> cr_proposals r \<noteq> [] then (Inl ContractViolation, ad)
               else (case ba_authority ad of
                       None \<Rightarrow> (Inr r, ad)
                     | Some a \<Rightarrow>
                         (case refuse_late ctx t (tk_completed t) (tk_validated t) ''inference'' ''unavailable'' r a ad of
                            (Inl e, ad) \<Rightarrow> (Inl e, ad)
                          | (Inr _, ad) \<Rightarrow> (Inr r, ad))))"

definition inspected_policy :: "bounded_adapter \<Rightarrow> policy_state" where
  "inspected_policy ad = (case ba_reconciliation ad of None \<Rightarrow> PolicyUnknown | Some r \<Rightarrow> rc_policy r)"

definition refuse_choice ::
  "agent_context \<Rightarrow> ticks \<Rightarrow> string \<Rightarrow> choice_result \<Rightarrow> bounded_adapter \<Rightarrow> bounded_adapter" where
  "refuse_choice ctx t reason r ad =
     retain_failure ctx t reason ''reconciliation'' (cr_response r) False (cr_choice r) ad"

definition note_refusal :: "string \<Rightarrow> bounded_adapter \<Rightarrow> bounded_adapter" where
  "note_refusal code ad =
     ad\<lparr>ba_failure := map_option (\<lambda>d. d\<lparr>dr_refusal := Some code\<rparr>) (ba_failure ad)\<rparr>"

text \<open>The checks of a chosen recovery: its policy is known and not complete, and fresh evidence permits it.\<close>

definition admit_recovery ::
  "world \<Rightarrow> ticks \<Rightarrow> agent_context \<Rightarrow> rat \<Rightarrow> choice_result \<Rightarrow> bounded_adapter
   \<Rightarrow> (decision_error + unit) \<times> bounded_adapter" where
  "admit_recovery w t ctx deadline r ad =
     (if cr_choice r \<noteq> ''install_recovery'' then (Inr (), ad)
      else if inspected_policy ad = PolicyUnknown
      then (Inl ReconciliationFailed, refuse_choice ctx t ''reconciliation-failed'' r ad)
      else if inspected_policy ad = VerifiedRecovery
      then (Inl RedundantRecovery, refuse_choice ctx t ''redundant-recovery'' r ad)
      else
        let (e, ad) = recheck_evidence w (deadline - tk_recheck t \<le> 0) (ctx_run_id ctx) ad;
            ad = others_revoke (w_others w DuringRecheck) ad
        in case ba_authority ad of
             None \<Rightarrow> (Inr (), ad)
           | Some a \<Rightarrow>
               (case refuse_late ctx t (tk_rechecked t) (tk_revalidated t) ''reconciliation'' (cr_choice r) r a ad of
                  (Inl err, ad) \<Rightarrow> (Inl err, ad)
                | (Inr _, ad) \<Rightarrow>
                    if rv_eligible e then (Inr (), ad)
                    else (Inl RetryIneligible,
                          note_refusal (rv_refusal e) (refuse_choice ctx t ''retry-ineligible'' r ad))))"

text \<open>The steps that are proposed: of a partly applied bundle those that are not present.\<close>

definition proposed_steps :: "choice_result \<Rightarrow> bounded_adapter \<Rightarrow> nat list" where
  "proposed_steps r ad =
     (let present = (case ba_reconciliation ad of None \<Rightarrow> [] | Some c \<Rightarrow> rc_present c);
          all = [0..<length (cr_proposals r)]
      in if cr_choice r = ''install_recovery'' \<and> inspected_policy ad = PartlyApplied
         then filter (\<lambda>i. i \<notin> set present) all else all)"

definition mapped_step :: "json_object list \<Rightarrow> nat \<Rightarrow> mapped_proposal" where
  "mapped_step ps i =
     (let p = ps ! i in
      \<lparr>mp_id = step_id i, mp_step = i + 1, mp_capability = str_field p ''capability'',
       mp_target = str_field p ''target'', mp_arguments = obj_field p ''arguments''\<rparr>)"

definition proposal_of :: "mapped_proposal \<Rightarrow> action_proposal" where
  "proposal_of m = \<lparr>prop_id = mp_id m, prop_capability = mp_capability m, prop_target = mp_target m,
     prop_arguments = mp_arguments m, prop_reason = None, prop_timeout = 30\<rparr>"

definition decided_record ::
  "agent_context \<Rightarrow> ticks \<Rightarrow> choice_result \<Rightarrow> bounded_adapter \<Rightarrow> decision_record" where
  "decided_record ctx t r ad =
     (let status = (if cr_proposals r = [] then ''not-required'' else ''pending'') in
      \<lparr>dr_run_id = ctx_run_id ctx, dr_agent_id = ctx_agent_id ctx, dr_invocation_id = ctx_invocation_id ctx,
       dr_correlation_id = correlation_of ctx, dr_selected = cr_choice r, dr_response = cr_response r,
       dr_mapping = map (mapped_step (cr_proposals r)) (proposed_steps r ad), dr_reconciliation = ba_reconciliation ad,
       dr_refusal = None, dr_authorization = status, dr_authorization_results = [], dr_admission = status,
       dr_outcomes = [],
       dr_phases = [(''input-assembly'', tk_started t), (''inference'', tk_inference t),
                    (''decision-complete'', if cr_choice r = ''install_recovery'' then tk_rechecked t
                                            else tk_completed t)],
       dr_cancelled = False, dr_expired = False, dr_late = False, dr_incomplete = [], dr_after = None,
       dr_correctness = True, dr_issue = None, dr_succeeded = True\<rparr>)"

definition contract_raised :: "contract_error + 'a \<Rightarrow> decision_error + 'a" where
  "contract_raised r = (case r of Inl _ \<Rightarrow> Inl (DecisionRaised (OtherRaised None)) | Inr x \<Rightarrow> Inr x)"

definition propose ::
  "agent_context \<Rightarrow> ticks \<Rightarrow> choice_result \<Rightarrow> bounded_adapter
   \<Rightarrow> (decision_error + bounded_execution) \<times> bounded_adapter" where
  "propose ctx t r ad =
     (let record = decided_record ctx t r ad; ad = ad\<lparr>ba_record := Some record\<rparr> in
      (bind_res (contract_raised (map_res (\<lambda>m. new_action_proposal (proposal_of m)) (dr_mapping record))) (\<lambda>ps.
       bind_res (contract_raised (new_agent_response
         \<lparr>resp_reads = [], resp_message = Some (''bounded decision selected '' @ cr_choice r), resp_proposals = ps,
          resp_delegations = [], resp_updates = [],
          resp_metadata = [(''executionKind'', JStr ''bounded-decision''), (''selectedChoice'', JStr (cr_choice r))]\<rparr>))
         (\<lambda>response. case ba_authority ad of
            None \<Rightarrow> Inl (DecisionRaised (OtherRaised None))
          | Some a \<Rightarrow> Inr \<lparr>be_response = response, be_record = record, be_authority = a\<rparr>)), ad))"

definition run_bounded ::
  "world \<Rightarrow> ticks \<Rightarrow> agent_context \<Rightarrow> bounded_adapter \<Rightarrow> (decision_error + bounded_execution) \<times> bounded_adapter" where
  "run_bounded w t ctx ad =
     (case scheduled_tick w ctx of
        Inl e \<Rightarrow> (Inl e, ad)
      | Inr scheduled \<Rightarrow>
          let a = own_authority scheduled t ad in
          case assemble w t ctx a ad of
            Inl e \<Rightarrow> (Inl e, ad\<lparr>ba_authority := Some a\<rparr>)
          | Inr (_, ad) \<Rightarrow>
              (case infer w t ctx (au_deadline a) ad of
                 (Inl e, ad) \<Rightarrow> (Inl e, ad)
               | (Inr r, ad) \<Rightarrow>
                   (case admit_recovery w t ctx (au_deadline a) r ad of
                      (Inl e, ad) \<Rightarrow> (Inl e, ad)
                    | (Inr _, ad) \<Rightarrow> propose ctx t r ad)))"

text \<open>\<open>failure_response\<close>: the record with the error's code, when the run kept one.\<close>

definition failure_response :: "decision_error \<Rightarrow> bounded_adapter \<Rightarrow> decision_record option" where
  "failure_response e ad =
     map_option (\<lambda>d. d\<lparr>dr_issue := Some (case decision_code e of Some c \<Rightarrow> c
                                        | None \<Rightarrow> ''agent.bounded-decision.failed'')\<rparr>) (ba_failure ad)"

section \<open>The outcome of the actions\<close>

definition issue_code_of :: "action_result \<Rightarrow> string option" where
  "issue_code_of r = map_option issue_code (ar_issue r)"

definition bundle_stopped :: "action_result \<Rightarrow> bool" where
  "bundle_stopped r = (issue_code_of r = Some ''agent.bounded-decision.bundle-stopped'')"

definition step_status :: "action_result \<Rightarrow> string" where
  "step_status r =
     (if issue_code_of r \<in> {Some ''agent.bounded-decision.bundle-stopped'', Some ''agent.bounded-decision.timeout'',
                            Some ''agent.bounded-decision.cancelled''}
      then ''not-started''
      else case ar_status r of ActionSucceeded \<Rightarrow> ''completed'' | ActionFailed \<Rightarrow> ''failed''
             | ActionRejected \<Rightarrow> ''rejected'')"

definition authorization_status :: "action_result \<Rightarrow> string" where
  "authorization_status r =
     (if bundle_stopped r then ''not-started''
      else if ar_status r = ActionRejected
              \<and> (case issue_code_of r of None \<Rightarrow> False | Some c \<Rightarrow> take 11 c = ''capability.'')
      then ''rejected'' else ''authorized'')"

definition admission_status :: "revocation option \<Rightarrow> action_result list \<Rightarrow> string" where
  "admission_status revoked rs =
     (case revoked of
        Some Cancelled \<Rightarrow> ''cancelled''
      | Some Expired \<Rightarrow> ''expired''
      | None \<Rightarrow>
          if list_ex (\<lambda>r. ar_status r = ActionRejected \<and> \<not> bundle_stopped r) rs then ''rejected''
          else if list_ex (\<lambda>r. ar_status r = ActionFailed) rs then ''failed''
          else ''completed'')"

definition all_succeeded :: "action_result list \<Rightarrow> bool" where
  "all_succeeded rs = list_all (\<lambda>r. ar_status r = ActionSucceeded) rs"

definition recorded_results ::
  "revocation option \<Rightarrow> rat list \<Rightarrow> action_result list \<Rightarrow> decision_record \<Rightarrow> decision_record" where
  "recorded_results revoked starts rs d =
     d\<lparr>dr_outcomes := map (\<lambda>r. (ar_request_id r, step_status r)) rs,
       dr_authorization_results := map (\<lambda>r. (ar_request_id r, authorization_status r)) rs,
       dr_authorization := (if list_ex (\<lambda>r. authorization_status r = ''rejected'') rs then ''rejected''
                            else ''authorized''),
       dr_admission := admission_status revoked rs,
       dr_succeeded := all_succeeded rs,
       dr_cancelled := (revoked = Some Cancelled),
       dr_expired := (revoked = Some Expired),
       dr_phases := dr_phases d @ map (\<lambda>tick. (''action-start'', tick)) starts,
       dr_incomplete := map (\<lambda>r. (ar_request_id r, ar_status r, ar_effects r))
         (filter (\<lambda>r. ar_status r \<noteq> ActionSucceeded \<or> ar_effects r \<notin> {Changed, Unchanged}) rs)\<rparr>"

definition starts_of :: "bounded_adapter \<Rightarrow> rat list" where
  "starts_of ad = (case ba_authority ad of None \<Rightarrow> [] | Some a \<Rightarrow> au_starts a)"

text \<open>\<open>record_action_results\<close>; the policy is inspected again after a recovery.\<close>

definition record_action_results ::
  "inspection \<Rightarrow> action_result list \<Rightarrow> bounded_adapter
   \<Rightarrow> (decision_error + decision_record option) \<times> bounded_adapter" where
  "record_action_results i rs ad =
     (if rs = [] then (Inr None, ad)
      else case ba_record ad of
             None \<Rightarrow> (Inl (DecisionRaised (OtherRaised None)), ad)
           | Some d \<Rightarrow>
               let d = recorded_results (revocation_of ad) (starts_of ad) rs d in
               if dr_selected d = ''install_recovery''
               then let after = inspect_policy False i ad; d = d\<lparr>dr_after := Some after\<rparr>;
                        ok = (all_succeeded rs \<longrightarrow> rc_policy after = VerifiedRecovery);
                        d = (if ok then d else d\<lparr>dr_succeeded := False, dr_correctness := False\<rparr>)
                    in (Inr (Some d), ad\<lparr>ba_record := Some d, ba_reconciliation := Some after\<rparr>)
               else (Inr (Some d), ad\<lparr>ba_record := Some d\<rparr>))"

section \<open>The authority is respected\<close>

lemma revoke_keeps:
  "au_starts (snd (revoke r a)) = au_starts a" "au_deadline (snd (revoke r a)) = au_deadline a"
  "au_revocation a = Some x \<Longrightarrow> snd (revoke r a) = a" "au_revocation (snd (revoke r a)) \<noteq> None"
  by (auto simp: revoke_def)

lemma validate_response_keeps:
  "au_starts (snd (validate_response k a)) = au_starts a" "au_deadline (snd (validate_response k a)) = au_deadline a"
  "au_revocation a = Some x \<Longrightarrow> snd (validate_response k a) = a"
  "fst (validate_response k a) = au_revocation (snd (validate_response k a))"
  "fst (validate_response k a) = None \<Longrightarrow> snd (validate_response k a) = a \<and> k < au_deadline a"
  by (auto simp: validate_response_def Let_def split: if_splits)

definition authority_ok :: "rat \<Rightarrow> authority_system \<Rightarrow> bool" where
  "authority_ok deadline s \<longleftrightarrow>
     (let a = as_authority s in
      au_deadline a = deadline \<and> sorted (au_starts a) \<and> (\<forall>x\<in>set (au_starts a). x < deadline \<and> x \<le> as_now s)
      \<and> length (au_starts a) = as_done s + of_bool (as_busy s))"

lemma authority_step_ok: "authority_step s u \<Longrightarrow> authority_ok deadline s \<Longrightarrow> authority_ok deadline u"
proof (induction rule: authority_step.induct)
  case (as_start s a)
  then have "as_now s < deadline" "a = (as_authority s)\<lparr>au_starts := au_starts (as_authority s) @ [as_now s]\<rparr>"
    by (auto simp: try_start_def authority_ok_def Let_def split: if_splits)
  with as_start show ?case by (auto simp: authority_ok_def Let_def sorted_append)
next
  case (as_refuse s a)
  then have "au_starts a = au_starts (as_authority s)" "au_deadline a = au_deadline (as_authority s)"
    by (auto simp: try_start_def split: if_splits)
  with as_refuse show ?case by (simp add: authority_ok_def Let_def)
qed (fastforce simp: authority_ok_def Let_def revoke_keeps validate_response_keeps)+

lemma authority_steps_ok:
  "authority_step\<^sup>*\<^sup>* s u \<Longrightarrow> authority_ok deadline s \<Longrightarrow> authority_ok deadline u"
  by (induction rule: rtranclp_induct) (auto intro: authority_step_ok)

text \<open>Once revoked, an authority does not change any more.\<close>

lemma authority_step_revoked:
  "authority_step s u \<Longrightarrow> au_revocation (as_authority s) = Some r \<Longrightarrow> as_authority u = as_authority s"
  by (induction rule: authority_step.induct) (auto simp: revoke_keeps validate_response_keeps try_start_def)

lemma authority_steps_revoked:
  "authority_step\<^sup>*\<^sup>* s u \<Longrightarrow> au_revocation (as_authority s) = Some r \<Longrightarrow> as_authority u = as_authority s"
  by (induction rule: rtranclp_induct) (auto dest: authority_step_revoked)

section \<open>Reconciliation\<close>

lemma filter_upt_prefix:
  assumes "\<And>i. i < n \<Longrightarrow> P i \<longleftrightarrow> i < k" "k \<le> n"
  shows "filter P [0..<n] = [0..<k]" "filter (\<lambda>i. \<not> P i) [0..<n] = [k..<n]"
proof -
  have n: "[0..<n] = [0..<k] @ [k..<n]" using assms(2) by (metis le_add_diff_inverse upt_add_eq_append le0)
  have "filter P [0..<k] = [0..<k]" "filter P [k..<n] = []" "filter (\<lambda>i. \<not> P i) [0..<k] = []"
    "filter (\<lambda>i. \<not> P i) [k..<n] = [k..<n]"
    using assms by (auto simp: filter_id_conv filter_empty_conv)
  then show "filter P [0..<n] = [0..<k]" "filter (\<lambda>i. \<not> P i) [0..<n] = [k..<n]" unfolding n by simp_all
qed

text \<open>\<open>k\<close> steps in place and the other \<open>m\<close> not.\<close>

definition applied :: "nat \<Rightarrow> nat \<Rightarrow> string list" where
  "applied k m = replicate k ''present'' @ replicate m ''missing''"

lemma reconcile_applied:
  "reconcile_bundle (applied k m)
     = \<lparr>re_policy = (if k = 0 then VerifiedPrimary else if m = 0 then VerifiedRecovery else PartlyApplied),
        re_present = [0..<k], re_missing = [k..<k + m]\<rparr>"
proof -
  have nth: "applied k m ! i = (if i < k then ''present'' else ''missing'')" if "i < k + m" for i
    using that by (auto simp: applied_def nth_append)
  have "filter (\<lambda>i. applied k m ! i = ''present'') [0..<k + m] = [0..<k]"
    "filter (\<lambda>i. \<not> applied k m ! i = ''present'') [0..<k + m] = [k..<k + m]"
    by (rule filter_upt_prefix; simp add: nth)+
  moreover have "filter (\<lambda>i. applied k m ! i = ''missing'') [0..<k + m]
      = filter (\<lambda>i. \<not> applied k m ! i = ''present'') [0..<k + m]"
    by (rule filter_cong) (auto simp: nth)
  moreover have "\<not> list_ex (\<lambda>s. s \<noteq> ''present'' \<and> s \<noteq> ''missing'') (applied k m)"
    by (auto simp: applied_def list_ex_iff)
  moreover have "length (applied k m) = k + m" by (simp add: applied_def)
  ultimately show ?thesis by (auto simp: reconcile_bundle_def Let_def)
qed

lemma reconcile_known:
  assumes "re_policy (reconcile_bundle states) \<noteq> PolicyUnknown"
  obtains k m where "states = applied k m"
proof -
  define present where "present = filter (\<lambda>i. states ! i = ''present'') [0..<length states]"
  have known: "\<forall>s\<in>set states. s = ''present'' \<or> s = ''missing''" and pre: "present = [0..<length present]"
    using assms by (auto simp: reconcile_bundle_def Let_def present_def list_ex_iff split: if_splits)
  define k where "k = length present"
  have k: "k \<le> length states" unfolding k_def present_def by (metis length_filter_le length_upt minus_nat.diff_0)
  have "i < length states \<Longrightarrow> states ! i = ''present'' \<longleftrightarrow> i < k" for i
  proof -
    assume "i < length states"
    then have "states ! i = ''present'' \<longleftrightarrow> i \<in> set present" by (simp add: present_def)
    also have "set present = {0..<k}" using pre by (metis k_def set_upt)
    finally show ?thesis by simp
  qed
  moreover have "states ! i = ''present'' \<or> states ! i = ''missing''" if "i < length states" for i
    using known that by simp
  ultimately have "states ! i = applied k (length states - k) ! i" if "i < length states" for i
    using that k by (cases "i < k") (auto simp: applied_def nth_append)
  then have "states = applied k (length states - k)"
    by (rule nth_equalityI [rotated]) (use k in \<open>simp_all add: applied_def\<close>)
  then show ?thesis by (rule that)
qed

section \<open>Runs\<close>

lemma revoke_bound_fields [simp]:
  "ba_scenario (revoke_bound r ad) = ba_scenario ad" "ba_bundle (revoke_bound r ad) = ba_bundle ad"
  "ba_reconciliation (revoke_bound r ad) = ba_reconciliation ad" "ba_agent (revoke_bound r ad) = ba_agent ad"
  "ba_substrate (revoke_bound r ad) = ba_substrate ad" "ba_failure (revoke_bound r ad) = ba_failure ad"
  "ba_record (revoke_bound r ad) = ba_record ad"
  by (simp_all add: revoke_bound_def)

lemma others_revoke_fields [simp]:
  "ba_scenario (others_revoke rs ad) = ba_scenario ad" "ba_bundle (others_revoke rs ad) = ba_bundle ad"
  "ba_reconciliation (others_revoke rs ad) = ba_reconciliation ad" "ba_agent (others_revoke rs ad) = ba_agent ad"
  "ba_substrate (others_revoke rs ad) = ba_substrate ad" "ba_failure (others_revoke rs ad) = ba_failure ad"
  "ba_record (others_revoke rs ad) = ba_record ad"
  by (induction rs arbitrary: ad) (simp_all add: others_revoke_def)

text \<open>The deadline of a bound authority stays, whoever revokes it.\<close>

definition bound_until :: "rat \<Rightarrow> bounded_adapter \<Rightarrow> bool" where
  "bound_until deadline ad \<longleftrightarrow> (\<exists>a. ba_authority ad = Some a \<and> au_deadline a = deadline)"

lemma bound_until_revoke: "bound_until dl ad \<Longrightarrow> bound_until dl (revoke_bound r ad)"
  by (auto simp: bound_until_def revoke_bound_def revoke_keeps)

lemma bound_until_others: "bound_until dl ad \<Longrightarrow> bound_until dl (others_revoke rs ad)"
  by (induction rs arbitrary: ad) (auto simp: others_revoke_def bound_until_revoke)

lemma refuse_late_Inr:
  assumes "refuse_late ctx t completed validated phase selected r a ad = (Inr u, ad')"
  shows "ad' = ad\<lparr>ba_authority := Some a\<rparr>" "au_revocation a = None" "completed < au_deadline a"
    "validated < au_deadline a"
proof -
  obtain v b where vb: "validate_response validated a = (v, b)" by (cases "validate_response validated a")
  with assms have v: "v = None" "completed < au_deadline b" "ad' = ad\<lparr>ba_authority := Some b\<rparr>"
    by (auto simp: refuse_late_def Let_def split: if_splits)
  then have "b = a" "validated < au_deadline a" "au_revocation a = None"
    using validate_response_keeps(4,5) [of validated a] by (auto simp: vb)
  with v show "ad' = ad\<lparr>ba_authority := Some a\<rparr>" "au_revocation a = None" "completed < au_deadline a"
    "validated < au_deadline a" by simp_all
qed

lemma infer_Inr:
  assumes "infer w t ctx dl ad = (Inr r, ad')" "bound_until dl ad"
  shows "\<exists>v. map_choice (w_loads w) v (choice_table_of (ba_scenario ad)) = Inr r"
    "bound_until dl ad'" "revocation_of ad' = None" "tk_completed t < dl"
    "ba_scenario ad' = ba_scenario ad" "ba_reconciliation ad' = ba_reconciliation ad" "ba_agent ad' = ba_agent ad"
    "ba_substrate ad' = ba_substrate ad"
proof -
  let ?ad = "others_revoke (w_others w DuringInference) ad"
  obtain a where a: "ba_authority ?ad = Some a" "au_deadline a = dl"
    using bound_until_others [OF assms(2)] by (auto simp: bound_until_def)
  obtain u where d: "decide (w_loads w) (choice_criteria (ba_scenario ad)) (choice_table_of (ba_scenario ad))
      (w_post w (dl - tk_budget t)) = Inr r"
    and late: "refuse_late ctx t (tk_completed t) (tk_validated t) ''inference'' ''unavailable'' r a ?ad = (Inr u, ad')"
    using assms(1) a(1)
    by (auto simp: infer_def Let_def split: if_splits sum.splits prod.splits option.splits)
  show "\<exists>v. map_choice (w_loads w) v (choice_table_of (ba_scenario ad)) = Inr r"
    by (rule decide_Inr [OF d]) blast
  note l = refuse_late_Inr [OF late]
  show "bound_until dl ad'" "revocation_of ad' = None" "tk_completed t < dl"
    "ba_scenario ad' = ba_scenario ad" "ba_reconciliation ad' = ba_reconciliation ad" "ba_agent ad' = ba_agent ad"
    "ba_substrate ad' = ba_substrate ad"
    using l a by (simp_all add: bound_until_def revocation_of_def)
qed

lemma recheck_fields [simp]:
  assumes "recheck_evidence w expired run ad = (e, ad')"
  shows "ba_scenario ad' = ba_scenario ad" "ba_agent ad' = ba_agent ad" "ba_authority ad' = ba_authority ad"
    "inspected_policy ad' = inspected_policy ad"
    "map_option rc_present (ba_reconciliation ad') = map_option rc_present (ba_reconciliation ad)"
  using assms
  by (auto simp: recheck_evidence_def note_evidence_def inspected_policy_def Let_def map_option_case
      split: if_splits sum.splits option.splits)

text \<open>What the probes must say of a target for a recovery to go on.\<close>

definition target_eligible :: "world \<Rightarrow> bounded_adapter \<Rightarrow> run_id \<Rightarrow> string \<Rightarrow> bool" where
  "target_eligible w ad run target \<longleftrightarrow>
     (\<exists>source r signals v. map_of (ca_inputs (ba_agent ad)) ''pathProbes'' = Some source
        \<and> w_observe w source = Inr r \<and> or_run_id r = run
        \<and> or_observed_at r \<le> w_now w source
        \<and> rat_of_int (w_now w source - or_observed_at r) / 1000000 \<le> max_age (ba_scenario ad)
        \<and> map_of (or_values r) target = Some v \<and> eligibility_signals v = (signals, False)
        \<and> signals \<noteq> [] \<and> set signals = {True})"

lemma judged_eligible:
  assumes "rv_eligible (judge_signals probes targets)" "x \<in> set targets"
  obtains v signals where "map_of probes x = Some v" "eligibility_signals v = (signals, False)" "signals \<noteq> []"
    "set signals = {True}"
proof -
  let ?per = "map (target_signals probes) targets" and ?sig = "target_signals probes x"
  have no: "\<not> list_ex snd ?per" "\<not> list_ex (\<lambda>p. fst p = []) ?per" "False \<notin> set (concat (map fst ?per))"
    using assms(1) by (auto simp: judge_signals_def Let_def split: if_splits)
  then have sig: "\<not> snd ?sig" "fst ?sig \<noteq> []" "False \<notin> set (fst ?sig)"
    using assms(2) by (auto simp: list_ex_iff)
  then obtain v where v: "map_of probes x = Some v" "?sig = eligibility_signals v"
    by (auto simp: target_signals_def split: option.splits)
  have "y = True" if "y \<in> set (fst ?sig)" for y using that sig(3) by metis
  then have "set (fst ?sig) \<subseteq> {True}" by blast
  then have "set (fst ?sig) = {True}" using sig(2) by (metis set_empty subset_singleton_iff)
  with v sig show ?thesis by (intro that [of v "fst ?sig"]) (auto simp: prod_eq_iff)
qed

lemma refresh_one_Inr:
  assumes "refresh_one w ad run s refreshed = Inr out"
  obtains r where "w_observe w s = Inr r" "or_run_id r = run" "or_observed_at r \<le> w_now w s"
    "rat_of_int (w_now w s - or_observed_at r) / 1000000 \<le> max_age (ba_scenario ad)"
    "out = AList.update s (or_values r) refreshed"
proof -
  obtain r where r: "w_observe w s = Inr r"
    using assms by (cases "w_observe w s") (simp_all add: refresh_one_def)
  let ?age = "rat_of_int (w_now w s - or_observed_at r) / 1000000"
  have "or_run_id r = run" "\<not> ?age < 0" "\<not> max_age (ba_scenario ad) < ?age" "out = AList.update s (or_values r) refreshed"
    using assms unfolding refresh_one_def r Let_def by (simp_all split: if_splits)
  with r show ?thesis by (intro that [of r]) (simp_all add: not_less zero_le_divide_iff)
qed

lemma fold_update_member:
  assumes "fold_res (refresh_one w ad run) sources refreshed = Inr out" "map_of out source = Some v"
    and "\<And>s x. map_of refreshed s = Some x \<Longrightarrow> P s x"
    and "\<And>s r. w_observe w s = Inr r \<Longrightarrow> or_run_id r = run \<Longrightarrow> or_observed_at r \<le> w_now w s
      \<Longrightarrow> rat_of_int (w_now w s - or_observed_at r) / 1000000 \<le> max_age (ba_scenario ad) \<Longrightarrow> P s (or_values r)"
  shows "P source v"
  using assms(1-3)
proof (induction sources arbitrary: refreshed)
  case (Cons s ss)
  then obtain r1 where one: "refresh_one w ad run s refreshed = Inr r1"
    and rest: "fold_res (refresh_one w ad run) ss r1 = Inr out"
    by (auto split: sum.splits)
  obtain r where r: "w_observe w s = Inr r" "or_run_id r = run" "or_observed_at r \<le> w_now w s"
    "rat_of_int (w_now w s - or_observed_at r) / 1000000 \<le> max_age (ba_scenario ad)"
    and r1: "r1 = AList.update s (or_values r) refreshed"
    using one by (rule refresh_one_Inr)
  have "P s (or_values r)" by (rule assms(4) [OF r])
  then show ?case
    by (intro Cons.IH [OF rest Cons.prems(2)]) (use Cons.prems(3) in \<open>auto simp: r1 update_conv' split: if_splits\<close>)
qed auto

lemma recheck_eligible:
  assumes "recheck_evidence w expired run ad = (e, ad')" "rv_eligible e" "x \<in> set (targets_of ad)"
  shows "target_eligible w ad run x"
proof -
  let ?sources = "from_keys (map snd (ca_inputs (ba_agent ad)))"
  have never: "\<not> rv_eligible (refused_evidence c)" for c by (simp add: refused_evidence_def)
  have live: "\<not> (expired \<or> \<not> ba_substrate ad)"
  proof
    assume "expired \<or> \<not> ba_substrate ad"
    then have "e = refused_evidence ''evidence-unavailable''"
      using assms(1) unfolding recheck_evidence_def if_P by simp
    with assms(2) never show False by blast
  qed
  obtain refreshed where f: "fold_res (refresh_one w ad run) ?sources [] = Inr refreshed"
  proof (cases "fold_res (refresh_one w ad run) ?sources []")
    case (Inl c)
    then have "e = refused_evidence c" using assms(1) live unfolding recheck_evidence_def Let_def by simp
    with assms(2) never show ?thesis by blast
  qed blast
  have e: "e = judge_signals (case map_of (ca_inputs (ba_agent ad)) ''pathProbes'' of None \<Rightarrow> []
              | Some source \<Rightarrow> (case map_of refreshed source of None \<Rightarrow> [] | Some v \<Rightarrow> v)) (targets_of ad)"
    using assms(1) live unfolding recheck_evidence_def Let_def f by simp
  obtain v signals where v: "map_of (case map_of (ca_inputs (ba_agent ad)) ''pathProbes'' of None \<Rightarrow> []
              | Some source \<Rightarrow> (case map_of refreshed source of None \<Rightarrow> [] | Some v \<Rightarrow> v)) x = Some v"
    "eligibility_signals v = (signals, False)" "signals \<noteq> []" "set signals = {True}"
    by (rule judged_eligible [OF assms(2) [unfolded e] assms(3)])
  obtain source vals where s: "map_of (ca_inputs (ba_agent ad)) ''pathProbes'' = Some source"
    "map_of refreshed source = Some vals" "map_of vals x = Some v"
    using v(1) by (auto split: option.splits)
  show ?thesis
  proof (rule fold_update_member [OF f s(2), where P = "\<lambda>s vals. s = source \<and> map_of vals x = Some v \<longrightarrow> target_eligible w ad run x",
        THEN mp])
    fix s r assume "w_observe w s = Inr r" "or_run_id r = run" "or_observed_at r \<le> w_now w s"
      "rat_of_int (w_now w s - or_observed_at r) / 1000000 \<le> max_age (ba_scenario ad)"
    then show "s = source \<and> map_of (or_values r) x = Some v \<longrightarrow> target_eligible w ad run x"
      unfolding target_eligible_def using s(1) v(2-4) by blast
  qed (use s(3) in auto)
qed

lemma admit_recovery_Inr:
  assumes "admit_recovery w t ctx dl r ad = (Inr u, ad')" "bound_until dl ad" "revocation_of ad = None"
  shows "ba_scenario ad' = ba_scenario ad" "inspected_policy ad' = inspected_policy ad" "bound_until dl ad'" "revocation_of ad' = None"
    "map_option rc_present (ba_reconciliation ad') = map_option rc_present (ba_reconciliation ad)"
    "cr_choice r = ''install_recovery'' \<Longrightarrow> inspected_policy ad \<in> {VerifiedPrimary, PartlyApplied} \<and> tk_rechecked t < dl
       \<and> (\<forall>x\<in>set (targets_of ad). target_eligible w ad (ctx_run_id ctx) x)"
proof -
  have "ba_scenario ad' = ba_scenario ad \<and> inspected_policy ad' = inspected_policy ad \<and> bound_until dl ad' \<and> revocation_of ad' = None
    \<and> map_option rc_present (ba_reconciliation ad') = map_option rc_present (ba_reconciliation ad)
    \<and> (cr_choice r = ''install_recovery'' \<longrightarrow> inspected_policy ad \<in> {VerifiedPrimary, PartlyApplied} \<and> tk_rechecked t < dl
       \<and> (\<forall>x\<in>set (targets_of ad). target_eligible w ad (ctx_run_id ctx) x))"
  proof (cases "cr_choice r = ''install_recovery''")
    case False
    with assms show ?thesis by (simp add: admit_recovery_def)
  next
    case True
    obtain e ad1 where re: "recheck_evidence w (dl - tk_recheck t \<le> 0) (ctx_run_id ctx) ad = (e, ad1)"
      by (cases "recheck_evidence w (dl - tk_recheck t \<le> 0) (ctx_run_id ctx) ad")
    let ?ad = "others_revoke (w_others w DuringRecheck) ad1"
    note f = recheck_fields [OF re]
    have "bound_until dl ad1" using assms(2) f(3) by (simp add: bound_until_def)
    from bound_until_others [OF this] obtain a where a: "ba_authority ?ad = Some a" "au_deadline a = dl"
      unfolding bound_until_def by blast
    have pol: "inspected_policy ad \<noteq> PolicyUnknown" "inspected_policy ad \<noteq> VerifiedRecovery"
      using assms(1) True by (auto simp: admit_recovery_def split: if_splits)
    with assms(1) True re a obtain v where
      late: "refuse_late ctx t (tk_rechecked t) (tk_revalidated t) ''reconciliation'' (cr_choice r) r a ?ad = (Inr v, ad')"
      and e: "rv_eligible e"
      by (auto simp: admit_recovery_def Let_def split: if_splits sum.splits prod.splits)
    note l = refuse_late_Inr [OF late]
    have "inspected_policy ad \<in> {VerifiedPrimary, PartlyApplied}" using pol by (cases "inspected_policy ad") auto
    moreover have "inspected_policy ad' = inspected_policy ad"
      using f(4) by (simp add: l(1) inspected_policy_def)
    ultimately show ?thesis
      using l a f recheck_eligible [OF re e]
      by (simp add: bound_until_def revocation_of_def)
  qed
  then show "ba_scenario ad' = ba_scenario ad" "inspected_policy ad' = inspected_policy ad" "bound_until dl ad'" "revocation_of ad' = None"
    "map_option rc_present (ba_reconciliation ad') = map_option rc_present (ba_reconciliation ad)"
    "cr_choice r = ''install_recovery'' \<Longrightarrow> inspected_policy ad \<in> {VerifiedPrimary, PartlyApplied} \<and> tk_rechecked t < dl
       \<and> (\<forall>x\<in>set (targets_of ad). target_eligible w ad (ctx_run_id ctx) x)"
    by blast+
qed

lemma map_of_fold_updates:
  "map_of (fold (\<lambda>c. AList.update (f c) (g c)) cs al) k = Some v
   \<Longrightarrow> map_of al k = Some v \<or> (\<exists>c\<in>set cs. f c = k \<and> g c = v)"
proof (induction cs arbitrary: al)
  case (Cons c cs)
  have "map_of (AList.update (f c) (g c) al) k = Some v \<or> (\<exists>c\<in>set cs. f c = k \<and> g c = v)"
    by (rule Cons.IH) (use Cons.prems in simp)
  then show ?case by (auto simp: update_conv' split: if_splits)
qed simp

lemma choice_table_member:
  "map_of (choice_table_of s) c = Some ps \<Longrightarrow> \<exists>ch\<in>set (sc_choices s). ch_id ch = c \<and> ch_proposals ch = ps"
  using map_of_fold_updates [of ch_id ch_proposals "sc_choices s" "[]" c ps] by (simp add: choice_table_of_def)

lemma find_distinct:
  "distinct (map f xs) \<Longrightarrow> x \<in> set xs \<Longrightarrow> find (\<lambda>y. f y = f x) xs = Some x"
  by (induction xs) (auto simp: image_iff)

lemma bundle_length:
  assumes "new_scenario s = Inr s'" "c \<in> set (sc_choices s)" "ch_id c = ''install_recovery''"
  shows "length (bundle_requests s) = length (ch_proposals c)"
proof -
  have "find (\<lambda>c. ch_id c = ''install_recovery'') (sc_choices s) = Some c"
    using find_distinct [OF new_scenario_choices(3) [OF assms(1)] assms(2)] assms(3) by simp
  then show ?thesis by (simp add: bundle_requests_def)
qed

lemma recovery_nonempty:
  assumes "new_scenario s = Inr s'" "c \<in> set (sc_choices s)" "ch_id c = ''install_recovery''"
  shows "ch_proposals c \<noteq> []" "sc_input_mode s = RecoveryHistory"
proof -
  have "map_res new_choice (sc_choices s) \<noteq> Inl e" for e
    using assms(1) by (auto simp: new_scenario_def bind_res_def split: if_splits sum.splits)
  then obtain cs where "map_res new_choice (sc_choices s) = Inr cs" by (cases "map_res new_choice (sc_choices s)") auto
  then have "\<exists>d. new_choice c = Inr d" using assms(2) map_res_returns_iff by metis
  with assms(3) show "ch_proposals c \<noteq> []" by (auto simp: new_choice_def split: if_splits)
  with new_scenario_choices(5) [OF assms(1,2)] show "sc_input_mode s = RecoveryHistory" by blast
qed

lemma inspection_known:
  assumes "rc_policy (inspect_policy expired i ad) \<noteq> PolicyUnknown" "ba_bundle ad \<noteq> []"
  obtains k m where "i = InspectorStates (applied k m)" "length (ba_bundle ad) = k + m" "ba_substrate ad"
    "rc_policy (inspect_policy expired i ad)
       = (if k = 0 then VerifiedPrimary else if m = 0 then VerifiedRecovery else PartlyApplied)"
    "rc_present (inspect_policy expired i ad) = [0..<k]"
proof -
  define j where "j = (if ba_substrate ad then i else NoInspector)"
  obtain status states where st: "inspect_states expired j (length (ba_bundle ad)) = (status, states)"
    by (cases "inspect_states expired j (length (ba_bundle ad))")
  have pol: "rc_policy (inspect_policy expired i ad) = re_policy (reconcile_bundle states)"
    "rc_present (inspect_policy expired i ad) = re_present (reconcile_bundle states)"
    using st by (simp_all add: inspect_policy_def Let_def j_def)
  obtain k m where km: "states = applied k m" using reconcile_known assms(1) pol(1) by metis
  have "states \<noteq> replicate (length (ba_bundle ad)) x" if "x \<noteq> ''present''" "x \<noteq> ''missing''" for x
  proof
    assume r: "states = replicate (length (ba_bundle ad)) x"
    with assms(2) have "x \<in> set states" by simp
    with km that show False by (auto simp: applied_def)
  qed
  note no = this [of "''unreadable''"] this [of "''unknown''"]
  have "j = InspectorStates states" "length states = length (ba_bundle ad)"
    using st no by (auto simp: inspect_states_def split: if_splits inspection.splits)
  moreover from this have "ba_substrate ad" "i = InspectorStates states" by (auto simp: j_def split: if_splits)
  moreover have "rc_policy (inspect_policy expired i ad)
       = (if k = 0 then VerifiedPrimary else if m = 0 then VerifiedRecovery else PartlyApplied)"
    "rc_present (inspect_policy expired i ad) = [0..<k]"
    by (simp_all only: pol km reconcile_applied reconciled.select_convs)
  moreover have "length states = k + m" by (simp add: km applied_def)
  ultimately show ?thesis
    using km by (intro that [of k m]) simp_all
qed

lemma map_res_same:
  assumes "map_res f xs = Inr ys" "\<And>x y. f x = Inr y \<Longrightarrow> y = g x"
  shows "ys = map g xs"
  using assms(1) by (induction xs arbitrary: ys) (auto split: sum.splits dest: assms(2))

lemma propose_Inr:
  assumes "propose ctx t r ad = (Inr ex, ad')"
  shows "be_record ex = decided_record ctx t r ad" "ba_authority ad = Some (be_authority ex)"
    "resp_proposals (be_response ex) = map (\<lambda>i. proposal_of (mapped_step (cr_proposals r) i)) (proposed_steps r ad)"
proof -
  let ?d = "decided_record ctx t r ad"
  obtain ps where ps: "map_res (\<lambda>m. new_action_proposal (proposal_of m)) (dr_mapping ?d) = Inr ps"
    using assms by (auto simp: propose_def Let_def contract_raised_def bind_res_Inr_iff split: sum.splits)
  have "ps = map proposal_of (dr_mapping ?d)"
    by (rule map_res_same [OF ps]) (auto simp: new_action_proposal_def split: if_splits)
  moreover have "be_record ex = ?d \<and> ba_authority ad = Some (be_authority ex) \<and> resp_proposals (be_response ex) = ps"
    using assms ps
    by (auto simp: propose_def Let_def contract_raised_def bind_res_Inr_iff new_agent_response_def
        split: sum.splits option.splits if_splits)
  ultimately show "be_record ex = ?d" "ba_authority ad = Some (be_authority ex)"
    "resp_proposals (be_response ex) = map (\<lambda>i. proposal_of (mapped_step (cr_proposals r) i)) (proposed_steps r ad)"
    by (simp_all add: decided_record_def Let_def)
qed

lemma run_bounded_Inr:
  assumes "run_bounded w t ctx ad = (Inr ex, ad')"
  obtains r ad1 ad2 ad3 a state where "assemble w t ctx a ad = Inr (state, ad1)"
    "infer w t ctx (au_deadline a) ad1 = (Inr r, ad2)" "admit_recovery w t ctx (au_deadline a) r ad2 = (Inr (), ad3)"
    "propose ctx t r ad3 = (Inr ex, ad')"
  using assms
  by (auto simp: run_bounded_def Let_def split: sum.splits prod.splits)

lemma assemble_Inr:
  assumes "assemble w t ctx a ad = Inr (state, ad1)"
  shows "ba_authority ad1 = Some a" "ba_scenario ad1 = ba_scenario ad" "ba_agent ad1 = ba_agent ad"
    "sc_input_mode (ba_scenario ad) = RecoveryHistory
     \<Longrightarrow> \<exists>expired. ba_reconciliation ad1 = Some (inspect_policy expired (w_inspect w) ad)"
  using assms
  by (auto simp: assemble_def Let_def bind_res_Inr_iff inspect_policy_def split: if_splits)

lemma assembled_recovery:
  assumes "assemble w t ctx a ad = Inr (state, ad1)" "sc_input_mode (ba_scenario ad) = RecoveryHistory"
    and "inspected_policy ad1 \<in> {VerifiedPrimary, PartlyApplied}" "ba_bundle ad \<noteq> []"
  obtains k m where "w_inspect w = InspectorStates (applied k m)" "length (ba_bundle ad) = k + m" "0 < m"
    "inspected_policy ad1 = (if k = 0 then VerifiedPrimary else PartlyApplied)"
    "map_option rc_present (ba_reconciliation ad1) = Some [0..<k]"
proof -
  obtain expired where r: "ba_reconciliation ad1 = Some (inspect_policy expired (w_inspect w) ad)"
    using assemble_Inr(4) [OF assms(1,2)] by blast
  then have known: "rc_policy (inspect_policy expired (w_inspect w) ad) \<noteq> PolicyUnknown"
    using assms(3) by (auto simp: inspected_policy_def)
  obtain k m where km: "w_inspect w = InspectorStates (applied k m)" "length (ba_bundle ad) = k + m"
    "rc_policy (inspect_policy expired (w_inspect w) ad)
       = (if k = 0 then VerifiedPrimary else if m = 0 then VerifiedRecovery else PartlyApplied)"
    "rc_present (inspect_policy expired (w_inspect w) ad) = [0..<k]"
    by (rule inspection_known [OF known assms(4)])
  have "0 < m"
  proof (rule ccontr)
    assume "\<not> 0 < m"
    with km(2) assms(4) have "0 < k" "m = 0" by (auto simp: length_greater_0_conv [symmetric])
    with km(3) assms(3) r show False by (simp add: inspected_policy_def)
  qed
  with km r show ?thesis by (intro that [of k m]) (simp_all add: inspected_policy_def)
qed

lemma run_proposes_missing:
  assumes "run_bounded w t ctx ad = (Inr ex, ad')" "new_scenario (ba_scenario ad) = Inr s"
    and "ba_bundle ad = bundle_requests (ba_scenario ad)"
  shows "\<exists>c\<in>set (sc_choices (ba_scenario ad)). dr_selected (be_record ex) = ch_id c
    \<and> au_revocation (be_authority ex) = None \<and> tk_completed t < au_deadline (be_authority ex)
    \<and> (if ch_id c = ''install_recovery''
       then \<exists>k m. 0 < m \<and> k + m = length (ch_proposals c) \<and> w_inspect w = InspectorStates (applied k m)
          \<and> resp_proposals (be_response ex) = map (\<lambda>i. proposal_of (mapped_step (ch_proposals c) i)) [k..<k + m]
          \<and> (\<forall>x\<in>set (targets_of ad). target_eligible w ad (ctx_run_id ctx) x)
       else resp_proposals (be_response ex) = [])"
proof -
  obtain r ad1 ad2 ad3 a state where one: "assemble w t ctx a ad = Inr (state, ad1)"
    and two: "infer w t ctx (au_deadline a) ad1 = (Inr r, ad2)"
    and three: "admit_recovery w t ctx (au_deadline a) r ad2 = (Inr (), ad3)"
    and four: "propose ctx t r ad3 = (Inr ex, ad')"
    using assms(1) by (rule run_bounded_Inr)
  note asm = assemble_Inr [OF one]
  have "bound_until (au_deadline a) ad1" using asm(1) by (simp add: bound_until_def)
  note inf = infer_Inr [OF two this]
  note adm = admit_recovery_Inr [OF three inf(2,3)]
  note pro = propose_Inr [OF four]
  obtain v where v: "map_choice (w_loads w) v (choice_table_of (ba_scenario ad)) = Inr r"
    using inf(1) asm(2) by auto
  have "map_of (choice_table_of (ba_scenario ad)) (cr_choice r) = Some (cr_proposals r)"
    by (rule map_choice_Inr [OF v])
  then obtain c where c: "c \<in> set (sc_choices (ba_scenario ad))" "ch_id c = cr_choice r" "ch_proposals c = cr_proposals r"
    using choice_table_member by blast
  have live: "au_revocation (be_authority ex) = None" "au_deadline (be_authority ex) = au_deadline a"
    using adm(3,4) pro(2) by (simp_all add: revocation_of_def bound_until_def)
  have selected: "dr_selected (be_record ex) = ch_id c" by (simp add: pro(1) decided_record_def Let_def c(2))
  show ?thesis
  proof (cases "ch_id c = ''install_recovery''")
    case True
    note rec = adm(6) [unfolded c(2) [symmetric], OF True]
    note nonempty = recovery_nonempty [OF assms(2) c(1) True] and len = bundle_length [OF assms(2) c(1) True]
    have "inspected_policy ad1 = inspected_policy ad2" using inf(6) by (simp add: inspected_policy_def)
    then have pol: "inspected_policy ad1 \<in> {VerifiedPrimary, PartlyApplied}" using rec by simp
    have "ba_bundle ad \<noteq> []" using nonempty(1) len assms(3) by auto
    from assembled_recovery [OF one nonempty(2) pol this] obtain k m
      where km: "w_inspect w = InspectorStates (applied k m)" "length (ba_bundle ad) = k + m" "0 < m"
        "inspected_policy ad1 = (if k = 0 then VerifiedPrimary else PartlyApplied)"
        "map_option rc_present (ba_reconciliation ad1) = Some [0..<k]"
      by blast
    have pol3: "inspected_policy ad3 = (if k = 0 then VerifiedPrimary else PartlyApplied)"
      using adm(2) \<open>inspected_policy ad1 = inspected_policy ad2\<close> km(4) by simp
    have present: "map_option rc_present (ba_reconciliation ad3) = Some [0..<k]" using adm(5) inf(6) km(5) by simp
    have n: "length (cr_proposals r) = k + m" using len assms(3) km(2) c(3) by simp
    have "filter (\<lambda>i. \<not> i < k) [0..<k + m] = [k..<k + m]" by (rule filter_upt_prefix(2)) simp_all
    then have steps: "proposed_steps r ad3 = [k..<k + m]"
      using present True c(2) n by (auto simp: proposed_steps_def Let_def pol3)
    have "targets_of ad2 = targets_of ad" using inf(7) asm(3) by (simp add: targets_of_def)
    moreover have "target_eligible w ad2 = target_eligible w ad"
      by (intro ext) (simp add: target_eligible_def inf(5,7) asm(2,3))
    ultimately have "\<forall>x\<in>set (targets_of ad). target_eligible w ad (ctx_run_id ctx) x" using rec by simp
    moreover have "resp_proposals (be_response ex) = map (\<lambda>i. proposal_of (mapped_step (ch_proposals c) i)) [k..<k + m]"
      by (simp add: pro(3) steps c(3))
    ultimately show ?thesis
      using c(1,3) True live selected inf(4) km(1,3) n by (intro bexI [OF _ c(1)]) auto
  next
    case False
    then have "cr_proposals r = []" using new_scenario_choices(5) [OF assms(2) c(1)] c(3) by auto
    then have "resp_proposals (be_response ex) = []" by (simp add: pro(3) proposed_steps_def Let_def)
    with False live selected inf(4) show ?thesis by (intro bexI [OF _ c(1)]) simp_all
  qed
qed

section \<open>Refusals\<close>

text \<open>The reason that a record must give for an error.\<close>

definition recorded_policy :: "decision_record \<Rightarrow> policy_state" where
  "recorded_policy d = (case dr_reconciliation d of None \<Rightarrow> PolicyUnknown | Some r \<Rightarrow> rc_policy r)"

definition refusal_fits :: "ticks \<Rightarrow> rat \<Rightarrow> decision_error \<Rightarrow> revocation option \<Rightarrow> decision_record \<Rightarrow> bool" where
  "refusal_fits t deadline e revoked d \<longleftrightarrow>
     (case e of
        ReconciliationFailed \<Rightarrow>
          dr_admission d = ''reconciliation-failed'' \<and> dr_selected d = ''install_recovery''
          \<and> recorded_policy d = PolicyUnknown
      | RedundantRecovery \<Rightarrow>
          dr_admission d = ''redundant-recovery'' \<and> dr_selected d = ''install_recovery''
          \<and> recorded_policy d = VerifiedRecovery
      | RetryIneligible \<Rightarrow>
          dr_admission d = ''retry-ineligible'' \<and> dr_selected d = ''install_recovery''
          \<and> recorded_policy d \<in> {VerifiedPrimary, PartlyApplied} \<and> dr_refusal d \<notin> {None, Some []}
      | DecisionCancelled \<Rightarrow> dr_admission d = ''cancelled'' \<and> revoked = Some Cancelled \<and> dr_late d
      | DecisionTimeout \<Rightarrow>
          dr_admission d = ''timeout''
          \<or> dr_admission d = ''cancelled'' \<and> revoked = Some Cancelled \<and> \<not> dr_late d
      | _ \<Rightarrow>
          dr_selected d = ''unavailable'' \<and> \<not> dr_late d
          \<and> dr_admission d = (if revoked = Some Cancelled then ''cancelled''
                            else if deadline \<le> tk_error t then ''timeout'' else ''failed''))"

text \<open>The record a refused run keeps: nothing was proposed, and why it was refused.\<close>

definition refusal_kept :: "agent_context \<Rightarrow> ticks \<Rightarrow> rat \<Rightarrow> decision_error \<Rightarrow> bounded_adapter \<Rightarrow> bool" where
  "refusal_kept ctx t deadline e ad \<longleftrightarrow>
     (\<exists>d. ba_failure ad = Some d \<and> dr_run_id d = ctx_run_id ctx \<and> dr_agent_id d = ctx_agent_id ctx
        \<and> dr_invocation_id d = ctx_invocation_id ctx \<and> dr_mapping d = [] \<and> \<not> dr_succeeded d
        \<and> dr_authorization d = ''not-reached''
        \<and> (dr_admission d \<in> {''timeout'', ''cancelled''} \<longrightarrow> revocation_of ad \<noteq> None)
        \<and> refusal_fits t deadline e (revocation_of ad) d)"

lemma retain_failure_kept:
  assumes "reason \<in> {''timeout'', ''cancelled''} \<Longrightarrow> revocation_of ad \<noteq> None"
    and "refusal_fits t dl e (revocation_of ad) (failure_record ctx t reason phase native late selected ad)"
  shows "refusal_kept ctx t dl e (retain_failure ctx t reason phase native late selected ad)"
  using assms by (auto simp: refusal_kept_def retain_failure_def failure_record_def revocation_of_def)

text \<open>The errors a decision can come back with.\<close>

definition inference_error :: "decision_error \<Rightarrow> bool" where
  "inference_error e \<longleftrightarrow>
     e \<in> {InvalidOutput, ContractViolation, ConfigurationInvalid, DecisionTimeout, RequestRejected, ServiceUnavailable}"

lemma bind_res_inference:
  assumes "bind_res r f = Inl e" "r = Inl e \<Longrightarrow> inference_error e" "\<And>x. f x = Inl e \<Longrightarrow> inference_error e"
  shows "inference_error e"
  using assms by (auto simp: bind_res_Inl_iff)

lemma map_choice_error:
  assumes "map_choice loads v choices = Inl e"
  shows "inference_error e"
proof -
  have "inference_error e" if "parse_response loads v = Inl e"
    using that by (auto simp: parse_response_def inference_error_def Let_def split: option.splits json.splits)
  moreover have "inference_error e" if "output_tokens r = Inl e" for r
    using that by (auto simp: output_tokens_def inference_error_def split: option.splits json.splits)
  moreover have "inference_error e" if "check_tokens x = Inl e" for x
    using that by (auto simp: check_tokens_def inference_error_def split: json.splits if_splits)
  moreover have "inference_error e" if "choice_answer x = Inl e" for x
    using that by (auto simp: choice_answer_def inference_error_def split: option.splits json.splits if_splits)
  moreover have "inference_error e" if "chosen choices x = Inl e" for x
    using that by (auto simp: chosen_def inference_error_def split: option.splits json.splits if_splits)
  moreover have unit: "inference_error e" if "unit_field x = Inl e" for x
    using that by (auto simp: unit_field_def inference_error_def split: option.splits)
  moreover have "inference_error e"
    if "map_res (\<lambda>(k, v). case unit_number v of None \<Rightarrow> Inl InvalidOutput | Some r \<Rightarrow> Inr (k, r)) ps = Inl e" for ps
    using that by (induction ps) (auto simp: inference_error_def split: option.splits sum.splits)
  then have "inference_error e" if "named_probabilities choices r x = Inl e" for r x
    using that by (auto simp: named_probabilities_def bind_res_Inl_iff split: option.splits json.splits if_splits)
      (auto simp: inference_error_def)
  moreover have "inference_error InvalidOutput" by (simp add: inference_error_def)
  ultimately show ?thesis
    using assms unfolding map_choice_def
    by (elim bind_res_inference)
      (auto split: option.split_asm json.split_asm if_split_asm prod.split_asm elim!: bind_res_inference)
qed

lemma decide_error:
  assumes "decide loads criteria choices answer = Inl (e, native)"
  shows "inference_error e"
proof -
  have "inference_error (transport_error answer)"
    by (auto simp: inference_error_def transport_error_def split: post_answer.splits option.splits)
  moreover have "inference_error ConfigurationInvalid" by (simp add: inference_error_def)
  ultimately show ?thesis
    using assms by (auto simp: decide_def split: if_splits post_answer.splits sum.splits dest: map_choice_error)
qed

lemma refusal_fits_inference:
  assumes "inference_error e"
    and "dr_selected d = ''unavailable''" "\<not> dr_late d"
    and "dr_admission d = (if revoked = Some Cancelled then ''cancelled''
          else if e = DecisionTimeout \<or> dl \<le> tk_error t then ''timeout'' else ''failed'')"
  shows "refusal_fits t dl e revoked d"
  using assms by (auto simp: inference_error_def refusal_fits_def)

lemma revocation_after:
  "revocation_of (revoke_bound r ad) = Some Cancelled \<longleftrightarrow>
     revocation_of ad = Some Cancelled \<or> r = Cancelled \<and> ba_authority ad \<noteq> None \<and> revocation_of ad = None"
  by (auto simp: revocation_of_def revoke_bound_def revoke_def split: option.splits)

lemma revoke_bound_revoked: "bound_until dl ad \<Longrightarrow> revocation_of (revoke_bound r ad) \<noteq> None"
  using revoke_keeps(4) [of r "the (ba_authority ad)"]
  by (auto simp: bound_until_def revocation_of_def revoke_bound_def)

lemma revocation_text_cases: "revocation_text r = ''cancelled'' \<or> revocation_text r = ''timeout''"
  by (cases r) simp_all

lemma refuse_late_kept:
  assumes "refuse_late ctx t completed validated phase selected r a ad = (Inl e, ad')"
  shows "refusal_kept ctx t dl e ad'"
proof -
  obtain v b where vb: "validate_response validated a = (v, b)" by (cases "validate_response validated a")
  define reason where "reason = (case v of None \<Rightarrow> Expired | Some x \<Rightarrow> x)"
  let ?ad = "revoke_bound reason (ad\<lparr>ba_authority := Some b\<rparr>)"
  have res: "e = revocation_error reason"
    "ad' = retain_failure ctx t (revocation_text reason) phase (cr_response r) True selected ?ad"
    using assms vb by (auto simp: refuse_late_def Let_def reason_def split: if_splits)
  have "bound_until (au_deadline b) (ad\<lparr>ba_authority := Some b\<rparr>)" by (simp add: bound_until_def)
  note revoked = revoke_bound_revoked [OF this]
  have v: "v = au_revocation b" using validate_response_keeps(4) [of validated a] vb by simp
  have "refusal_fits t dl e (revocation_of ?ad)
      (failure_record ctx t (revocation_text reason) phase (cr_response r) True selected ?ad)"
    by (cases v; cases reason)
      (use v in \<open>auto simp: res(1) reason_def refusal_fits_def failure_record_def revocation_of_def revoke_bound_def revoke_def\<close>)
  with revoked show ?thesis unfolding res(2) by (intro retain_failure_kept) auto
qed

lemma infer_kept:
  assumes "infer w t ctx dl ad = (Inl e, ad')" "bound_until dl ad"
    and "\<And>v r. map_choice (w_loads w) v (choice_table_of (ba_scenario ad)) = Inr r
      \<Longrightarrow> cr_choice r = ''no_action'' \<Longrightarrow> cr_proposals r = []"
  shows "refusal_kept ctx t dl e ad'"
proof (cases "dl - tk_budget t \<le> 0")
  case True
  then have "e = DecisionTimeout" using assms(1) by (simp add: infer_def Let_def)
  moreover from True have "ad' = retain_failure ctx t ''timeout'' ''input-assembly'' [] False ''unavailable'' (revoke_bound Expired ad)"
    using assms(1) by (simp add: infer_def Let_def)
  ultimately show ?thesis using revoke_bound_revoked [OF assms(2)]
    by (auto simp: refusal_fits_def failure_record_def intro!: retain_failure_kept)
next
  case False
  let ?ad = "others_revoke (w_others w DuringInference) ad"
  let ?answer = "decide (w_loads w) (choice_criteria (ba_scenario ad)) (choice_table_of (ba_scenario ad))
      (w_post w (dl - tk_budget t))"
  note bound = bound_until_others [OF assms(2), of "w_others w DuringInference"]
  show ?thesis
  proof (cases ?answer)
    case (Inl x)
    obtain err native where x: "x = (err, native)" by (cases x)
    let ?native = "case native of None \<Rightarrow> [] | Some v \<Rightarrow> native_record v"
    have e: "e = err" using assms(1) False Inl x by (auto simp: infer_def Let_def split: if_splits)
    then have ok: "inference_error e" using decide_error Inl x by blast
    consider (cancelled) "revocation_of ?ad = Some Cancelled"
        "ad' = retain_failure ctx t ''cancelled'' ''inference'' ?native False ''unavailable'' ?ad"
      | (expired) "revocation_of ?ad \<noteq> Some Cancelled" "e = DecisionTimeout \<or> dl \<le> tk_error t"
        "ad' = retain_failure ctx t ''timeout'' ''inference'' ?native False ''unavailable'' (revoke_bound Expired ?ad)"
      | (failed) "revocation_of ?ad \<noteq> Some Cancelled" "\<not> (e = DecisionTimeout \<or> dl \<le> tk_error t)"
        "ad' = retain_failure ctx t ''failed'' ''inference'' ?native False ''unavailable'' ?ad"
      using assms(1) False Inl x e by (auto simp: infer_def Let_def split: if_splits)
    then show ?thesis
    proof cases
      case cancelled
      then show ?thesis
        by (auto simp: failure_record_def intro!: retain_failure_kept refusal_fits_inference [OF ok])
    next
      case expired
      have "refusal_fits t dl e (revocation_of (revoke_bound Expired ?ad))
          (failure_record ctx t ''timeout'' ''inference'' ?native False ''unavailable'' (revoke_bound Expired ?ad))"
        by (rule refusal_fits_inference [OF ok]) (use expired in \<open>simp_all add: failure_record_def revocation_after\<close>)
      with expired(3) revoke_bound_revoked [OF bound, of Expired] show ?thesis
        by (auto intro: retain_failure_kept)
    next
      case failed
      then show ?thesis
        by (auto simp: failure_record_def intro!: retain_failure_kept refusal_fits_inference [OF ok])
    qed
  next
    case (Inr r)
    obtain a where a: "ba_authority ?ad = Some a" using bound by (auto simp: bound_until_def)
    have "\<not> (cr_choice r = ''no_action'' \<and> cr_proposals r \<noteq> [])"
      using decide_Inr [OF Inr] assms(3) by metis
    with assms(1) False Inr a
    have "refuse_late ctx t (tk_completed t) (tk_validated t) ''inference'' ''unavailable'' r a ?ad = (Inl e, ad')"
      by (auto simp: infer_def Let_def split: sum.splits prod.splits if_splits)
    then show ?thesis by (rule refuse_late_kept)
  qed
qed

lemma recheck_refusal:
  assumes "recheck_evidence w expired run ad = (e, ad')" "\<not> rv_eligible e"
  shows "rv_refusal e \<noteq> []"
proof (cases "expired \<or> \<not> ba_substrate ad")
  case True
  then show ?thesis using assms by (auto simp: recheck_evidence_def refused_evidence_def simp del: recheck_fields)
next
  case False
  let ?bindings = "ca_inputs (ba_agent ad)"
  show ?thesis
  proof (cases "fold_res (refresh_one w ad run) (from_keys (map snd ?bindings)) []")
    case (Inl code)
    have "code \<noteq> []"
      by (rule fold_res_failure [OF Inl, of "\<lambda>_. True"])
        (auto simp: refresh_one_def Let_def split: sum.splits if_splits)
    with assms(1) False Inl show ?thesis
      by (auto simp: recheck_evidence_def refused_evidence_def Let_def simp del: recheck_fields split: if_splits)
  next
    case (Inr refreshed)
    with assms False show ?thesis
      by (auto simp: recheck_evidence_def judge_signals_def Let_def simp del: recheck_fields)
  qed
qed

lemma refuse_choice_kept:
  assumes "reason \<notin> {''timeout'', ''cancelled''}"
    and "refusal_fits t dl e (revocation_of ad)
      (failure_record ctx t reason ''reconciliation'' (cr_response r) False (cr_choice r) ad)"
  shows "refusal_kept ctx t dl e (refuse_choice ctx t reason r ad)"
  unfolding refuse_choice_def by (rule retain_failure_kept) (use assms in auto)

lemma inspected_policy_others [simp]: "inspected_policy (others_revoke rs ad) = inspected_policy ad"
  unfolding others_revoke_def
  by (induction rs arbitrary: ad) (simp_all add: inspected_policy_def revoke_bound_def)

lemma refuse_late_policy:
  "refuse_late ctx t completed validated phase selected r a ad = (Inr u, ad') \<Longrightarrow>
     inspected_policy ad' = inspected_policy ad"
  by (auto simp: refuse_late_def inspected_policy_def Let_def split: if_splits prod.splits)

lemma admit_recovery_kept:
  assumes "admit_recovery w t ctx dl r ad = (Inl e, ad')" "bound_until dl ad"
  shows "refusal_kept ctx t dl e ad'"
proof -
  have choice: "cr_choice r = ''install_recovery''" using assms(1) by (auto simp: admit_recovery_def split: if_splits)
  have policy: "recorded_policy (failure_record ctx t reason ''reconciliation'' (cr_response r) False (cr_choice r) x)
      = inspected_policy x" for reason x
    by (simp add: recorded_policy_def failure_record_def inspected_policy_def)
  consider (unknown) "inspected_policy ad = PolicyUnknown" | (redundant) "inspected_policy ad = VerifiedRecovery"
    | (late) "inspected_policy ad \<noteq> PolicyUnknown" "inspected_policy ad \<noteq> VerifiedRecovery" by blast
  then show ?thesis
  proof cases
    case unknown
    then have "e = ReconciliationFailed" "ad' = refuse_choice ctx t ''reconciliation-failed'' r ad"
      using assms(1) choice by (auto simp: admit_recovery_def)
    then show ?thesis using unknown choice policy
      by (auto simp: refusal_fits_def intro!: refuse_choice_kept) (simp_all add: failure_record_def)
  next
    case redundant
    then have "e = RedundantRecovery" "ad' = refuse_choice ctx t ''redundant-recovery'' r ad"
      using assms(1) choice by (auto simp: admit_recovery_def)
    then show ?thesis using redundant choice policy
      by (auto simp: refusal_fits_def intro!: refuse_choice_kept) (simp_all add: failure_record_def)
  next
    case late
    obtain ev ad1 where re: "recheck_evidence w (dl - tk_recheck t \<le> 0) (ctx_run_id ctx) ad = (ev, ad1)"
      by (cases "recheck_evidence w (dl - tk_recheck t \<le> 0) (ctx_run_id ctx) ad")
    let ?ad = "others_revoke (w_others w DuringRecheck) ad1"
    have "bound_until dl ad1" using assms(2) recheck_fields(3) [OF re] by (simp add: bound_until_def)
    from bound_until_others [OF this] obtain a where a: "ba_authority ?ad = Some a" unfolding bound_until_def by blast
    obtain x ad2 where l: "refuse_late ctx t (tk_rechecked t) (tk_revalidated t) ''reconciliation'' (cr_choice r) r a ?ad = (x, ad2)"
      by (cases "refuse_late ctx t (tk_rechecked t) (tk_revalidated t) ''reconciliation'' (cr_choice r) r a ?ad")
    show ?thesis
    proof (cases x)
      case (Inl err)
      then have "ad' = ad2" "e = err" using assms(1) choice late re a l by (simp_all add: admit_recovery_def Let_def)
      with refuse_late_kept [OF l [unfolded Inl]] show ?thesis by simp
    next
      case (Inr u)
      have "(if rv_eligible ev then (Inr (), ad2)
          else (Inl RetryIneligible, note_refusal (rv_refusal ev) (refuse_choice ctx t ''retry-ineligible'' r ad2)))
          = (Inl e, ad')"
        using assms(1) choice late re a l Inr by (simp add: admit_recovery_def)
      then have e: "\<not> rv_eligible ev" "e = RetryIneligible"
        and ad': "ad' = note_refusal (rv_refusal ev) (refuse_choice ctx t ''retry-ineligible'' r ad2)"
        by (cases "rv_eligible ev"; simp)+
      have "inspected_policy ad2 = inspected_policy ad"
        using refuse_late_policy [OF l [unfolded Inr]] recheck_fields(4) [OF re] by simp
      then have "inspected_policy ad2 \<in> {VerifiedPrimary, PartlyApplied}"
        using late by (cases "inspected_policy ad") simp_all
      then show ?thesis using recheck_refusal [OF re e(1)] choice
        by (simp add: ad' e(2) refusal_kept_def refusal_fits_def note_refusal_def refuse_choice_def retain_failure_def
            failure_record_def recorded_policy_def inspected_policy_def)
    qed
  qed
qed

text \<open>An accepted scenario's proposals make a valid response, so nothing is refused after admission.\<close>

lemma step_id_inj: "step_id i = step_id j \<Longrightarrow> i = j"
  by (auto simp: step_id_def dest: decimal_inj)

lemma name_field_nonempty: "name_field p k \<Longrightarrow> str_field p k \<noteq> []"
  by (auto simp: name_field_def str_field_def name_pattern_ok_def split: option.splits json.splits)

lemma propose_returns:
  assumes "list_all proposal_ok (cr_proposals r)" "ba_authority ad = Some a" "distinct (proposed_steps r ad)"
    and "set (proposed_steps r ad) \<subseteq> {0..<length (cr_proposals r)}"
  shows "\<exists>ex ad'. propose ctx t r ad = (Inr ex, ad')"
proof -
  let ?ms = "map (mapped_step (cr_proposals r)) (proposed_steps r ad)"
  have "new_action_proposal (proposal_of m) = Inr (proposal_of m)" if m: "m \<in> set ?ms" for m
  proof -
    obtain i where "i \<in> set (proposed_steps r ad)" "m = mapped_step (cr_proposals r) i" using m by auto
    with assms(4) have i: "i < length (cr_proposals r)" "m = mapped_step (cr_proposals r) i" by auto
    then have "proposal_ok (cr_proposals r ! i)" using assms(1) by (simp add: list_all_length)
    then have "str_field (cr_proposals r ! i) ''capability'' \<noteq> []" "str_field (cr_proposals r ! i) ''target'' \<noteq> []"
      by (auto simp: proposal_ok_def dest: name_field_nonempty)
    then show ?thesis
      by (simp add: new_action_proposal_def proposal_of_def i(2) mapped_step_def Let_def step_id_def nonempty_opt_def)
  qed
  then obtain ps where ps: "map_res (\<lambda>m. new_action_proposal (proposal_of m)) ?ms = Inr ps"
    using map_res_returns [of ?ms "\<lambda>m. new_action_proposal (proposal_of m)"] by blast
  have "ps = map proposal_of ?ms"
    by (rule map_res_same [OF ps]) (auto simp: new_action_proposal_def split: if_splits)
  then have "map prop_id ps = map step_id (proposed_steps r ad)"
    by (simp add: proposal_of_def mapped_step_def Let_def)
  then have "distinct (map prop_id ps)"
    using assms(3) by (simp add: distinct_map inj_on_def step_id_inj)
  with ps assms(2) show ?thesis
    by (simp add: propose_def Let_def decided_record_def contract_raised_def new_agent_response_def)
qed

lemma refused_run_kept:
  assumes "run_bounded w t ctx ad = (Inl e, ad')" "new_scenario (ba_scenario ad) = Inr s"
    and "sc_input_mode (ba_scenario ad) = RecoveryHistory" "scheduled_tick w ctx = Inr x"
  shows "refusal_kept ctx t (au_deadline (own_authority x t ad)) e ad'"
proof -
  let ?a = "own_authority x t ad"
  obtain state ad1 where one: "assemble w t ctx ?a ad = Inr (state, ad1)"
    using assms(3) by (auto simp: assemble_def Let_def)
  note asm = assemble_Inr [OF one]
  have bound: "bound_until (au_deadline ?a) ad1" using asm(1) by (simp add: bound_until_def)
  have none: "cr_proposals r = []"
    if "map_choice (w_loads w) v (choice_table_of (ba_scenario ad1)) = Inr r" "cr_choice r = ''no_action''" for v r
    by (rule map_choice_Inr [OF that(1)]) (use that(2) in blast)
  obtain y ad2 where two: "infer w t ctx (au_deadline ?a) ad1 = (y, ad2)" by (cases "infer w t ctx (au_deadline ?a) ad1")
  show ?thesis
  proof (cases y)
    case (Inl err)
    then have "ad' = ad2" "e = err" using assms(1,4) one two by (simp_all add: run_bounded_def Let_def)
    with infer_kept [OF two [unfolded Inl] bound none] show ?thesis by simp
  next
    case (Inr r)
    note inf = infer_Inr [OF two [unfolded Inr] bound]
    obtain z ad3 where three: "admit_recovery w t ctx (au_deadline ?a) r ad2 = (z, ad3)"
      by (cases "admit_recovery w t ctx (au_deadline ?a) r ad2")
    show ?thesis
    proof (cases z)
      case (Inl err)
      then have "ad' = ad3" "e = err" using assms(1,4) one two Inr three by (simp_all add: run_bounded_def Let_def)
      with admit_recovery_kept [OF three [unfolded Inl] inf(2)] show ?thesis by simp
    next
      case z: (Inr u)
      note adm = admit_recovery_Inr [OF three [unfolded z] inf(2,3)]
      obtain v where v: "map_choice (w_loads w) v (choice_table_of (ba_scenario ad)) = Inr r"
        using inf(1) asm(2) by auto
      have "map_of (choice_table_of (ba_scenario ad)) (cr_choice r) = Some (cr_proposals r)"
        by (rule map_choice_Inr [OF v])
      then obtain c where "c \<in> set (sc_choices (ba_scenario ad))" "ch_proposals c = cr_proposals r"
        using choice_table_member by blast
      then have "list_all proposal_ok (cr_proposals r)" using new_scenario_choices(4) [OF assms(2)] by metis
      moreover obtain b where "ba_authority ad3 = Some b" using adm(3) by (auto simp: bound_until_def)
      moreover have "distinct (proposed_steps r ad3)" "set (proposed_steps r ad3) \<subseteq> {0..<length (cr_proposals r)}"
        by (auto simp: proposed_steps_def Let_def)
      ultimately obtain ex ad4 where "propose ctx t r ad3 = (Inr ex, ad4)" using propose_returns by blast
      with assms(1,4) one two Inr three z show ?thesis by (simp add: run_bounded_def Let_def)
    qed
  qed
qed

lemma verified_result:
  assumes "record_action_results i rs ad = (Inr (Some d), ad')" "dr_selected d = ''install_recovery''"
    and "dr_succeeded d" "ba_bundle ad \<noteq> []"
  shows "all_succeeded rs" "i = InspectorStates (replicate (length (ba_bundle ad)) ''present'')"
proof -
  obtain d0 where d0: "rs \<noteq> []" "ba_record ad = Some d0"
    using assms(1) by (auto simp: record_action_results_def split: if_splits option.splits)
  have sel: "dr_selected d0 = ''install_recovery''"
    using assms(1,2) d0 by (auto simp: record_action_results_def Let_def recorded_results_def split: if_splits)
  have "all_succeeded rs \<and> rc_policy (inspect_policy False i ad) = VerifiedRecovery"
    using assms(1,3) d0 sel
    by (auto simp: record_action_results_def Let_def recorded_results_def split: if_splits)
  then have all: "all_succeeded rs" and pol: "rc_policy (inspect_policy False i ad) = VerifiedRecovery" by auto
  then have known: "rc_policy (inspect_policy False i ad) \<noteq> PolicyUnknown" by simp
  show "all_succeeded rs" by (rule all)
  obtain k m where "i = InspectorStates (applied k m)" "length (ba_bundle ad) = k + m"
    "rc_policy (inspect_policy False i ad) = (if k = 0 then VerifiedPrimary else if m = 0 then VerifiedRecovery else PartlyApplied)"
    by (rule inspection_known [OF known assms(4)])
  with pol show "i = InspectorStates (replicate (length (ba_bundle ad)) ''present'')"
    by (auto simp: applied_def split: if_splits)
qed

section \<open>A sample recovery\<close>

definition sample_step :: "string \<Rightarrow> json_object" where
  "sample_step target = [(''capability'', JStr ''flow.install''), (''target'', JStr target), (''arguments'', JObj [])]"

definition sample_choices :: "choice list" where
  "sample_choices =
     [\<lparr>ch_id = ''no_action'', ch_description = ''wait'', ch_proposals = []\<rparr>,
      \<lparr>ch_id = ''install_recovery'', ch_description = ''repair'', ch_proposals = [sample_step ''s1'', sample_step ''s2'']\<rparr>]"

definition sample_scenario :: scenario where
  "sample_scenario = \<lparr>sc_name = ''diamond'', sc_input_mode = RecoveryHistory, sc_instructions = ''choose'',
     sc_choices = sample_choices,
     sc_paths = [(''primary'', JArr [JStr ''h1'', JStr ''h2'']), (''recovery'', JArr [JStr ''h1'', JStr ''h2''])],
     sc_observations = [(''pathProbes'', JStr ''probes''), (''linkStates'', JStr ''links''), (''policyState'', JStr ''policy''),
       (''actionOutcomes'', JStr ''outcomes''), (''historyRounds'', JInt 3), (''maxAge'', JStr ''2s'')],
     sc_timing = [(''cadence'', JStr ''1s''), (''decisionDeadline'', JStr ''1s'')],
     sc_policy = [(''initial'', JStr ''p''), (''recovery'', JStr ''r''), (''probePolicy'', JStr ''q'')],
     sc_local_expectations = [], sc_context = None\<rparr>"

definition sample_adapter :: bounded_adapter where
  "sample_adapter =
     \<lparr>ba_agent = \<lparr>ca_instance = sample_instance, ca_scenario = Some sample_scenario, ca_inputs = [(''pathProbes'', ''probes'')]\<rparr>,
      ba_scenario = sample_scenario, ba_metadata = [(''name'', JStr ''diamond'')],
      ba_bundle = bundle_requests sample_scenario, ba_substrate = True, ba_authority = Some (new_authority 10),
      ba_reconciliation = None, ba_failure = None, ba_record = None, ba_cancellation = NotRequested\<rparr>"

definition sample_bounded_context :: agent_context where
  "sample_bounded_context = \<lparr>ctx_invocation_id = ''i'', ctx_run_id = ''r'', ctx_agent_id = ''a1'', ctx_deployment = ''d'',
     ctx_layer = DataLayer, ctx_custom_layer = None, ctx_target_kind = LinkKind, ctx_targets = [''l1''],
     ctx_capabilities = [''link.enable''], ctx_observations = [],
     ctx_shared_state = \<lparr>snap_scopes = [], snap_run = [], snap_deployment = []\<rparr>, ctx_coordination = None,
     ctx_intent = ''go'', ctx_priority = 0, ctx_invoked_at = 0\<rparr>"

definition sample_answer :: "string \<Rightarrow> json" where
  "sample_answer c = JObj [(''answers'', JObj [(''next_action'', JObj [(''type'', JStr ''choice''), (''choice'', JStr c)])])]"

definition sample_world :: "string \<Rightarrow> bool \<Rightarrow> world" where
  "sample_world c eligible = \<lparr>w_loads = (\<lambda>_. None), w_iso = (\<lambda>_. []), w_float = (\<lambda>_. None),
     w_post = (\<lambda>_. PostReturned (sample_answer c)), w_inspect = InspectorStates [''present'', ''missing''],
     w_observe = (\<lambda>s. Inr \<lparr>or_run_id = ''r'', or_query = \<lparr>oq_name = s, oq_targets = [''l1''], oq_parameters = []\<rparr>,
       or_observed_at = 0, or_values = [(''l1'', JObj [(''eligible'', JBool eligible)])]\<rparr>),
     w_now = (\<lambda>_. 0), w_others = (\<lambda>_. [])\<rparr>"

definition sample_ticks :: ticks where
  "sample_ticks = \<lparr>tk_created = 0, tk_started = 0, tk_policy = 0, tk_budget = 1, tk_inference = 1, tk_error = 2,
     tk_failure = 2, tk_completed = 2, tk_validated = 2, tk_recheck = 3, tk_rechecked = 4, tk_revalidated = 4\<rparr>"

lemma sample_scenario_valid: "new_scenario sample_scenario = Inr sample_scenario"
  by code_simp

lemma sample_partial_run:
  "map (\<lambda>p. (prop_id p, prop_target p)) (resp_proposals (be_response (projr
      (fst (run_bounded (sample_world ''install_recovery'' True) sample_ticks sample_bounded_context sample_adapter)))))
   = [(''bounded-2'', ''s2'')]"
  by code_simp

lemma sample_run_accepted:
  "\<not> isl (fst (run_bounded (sample_world ''install_recovery'' True) sample_ticks sample_bounded_context sample_adapter))"
  by code_simp

lemma sample_run_refused:
  "fst (run_bounded (sample_world ''install_recovery'' False) sample_ticks sample_bounded_context sample_adapter)
   = Inl RetryIneligible"
  by code_simp

lemma sample_scheduled: "scheduled_tick w sample_bounded_context = Inr None"
  by (simp add: scheduled_tick_def sample_bounded_context_def)

definition sample_recorded :: bounded_adapter where
  "sample_recorded = snd (run_bounded (sample_world ''install_recovery'' True) sample_ticks sample_bounded_context sample_adapter)"

definition sample_step_result :: action_result where
  "sample_step_result = \<lparr>ar_run_id = ''r'', ar_request_id = ''bounded-2'', ar_status = ActionSucceeded, ar_completed_at = 5,
     ar_changed = True, ar_effects = Changed, ar_output = [], ar_postconditions = [], ar_rollback = None,
     ar_effect_latency = None, ar_issue = None\<rparr>"

lemma sample_recording:
  "map_option (\<lambda>d. (dr_selected d, dr_succeeded d))
     (projr (fst (record_action_results (InspectorStates [''present'', ''present'']) [sample_step_result] sample_recorded)))
   = Some (''install_recovery'', True)"
  "\<not> isl (fst (record_action_results (InspectorStates [''present'', ''present'']) [sample_step_result] sample_recorded))"
  "length (ba_bundle sample_recorded) = 2"
  by code_simp+

section \<open>Properties\<close>

text \<open>C23. Whatever threads revoke, validate and start actions: an authority's actions start one at a
  time, in the order of the clock and before the deadline, and once it is revoked no action
  starts and the reason does not change.\<close>

theorem authority_is_respected:
  assumes "authority_step\<^sup>*\<^sup>* (new_authority_system deadline now) s" "authority_step\<^sup>*\<^sup>* s u"
  shows "sorted (au_starts (as_authority u)) \<and> (\<forall>x\<in>set (au_starts (as_authority u)). x < deadline)
     \<and> length (au_starts (as_authority u)) = as_done u + of_bool (as_busy u)
     \<and> (au_revocation (as_authority s) \<noteq> None \<longrightarrow> as_authority u = as_authority s)"
proof -
  have "authority_ok deadline (new_authority_system deadline now)"
    by (simp add: authority_ok_def new_authority_system_def new_authority_def)
  from authority_steps_ok [OF assms(2) authority_steps_ok [OF assms(1) this]]
  have "authority_ok deadline u" .
  then show ?thesis using authority_steps_revoked [OF assms(2)] by (auto simp: authority_ok_def Let_def)
qed

lemma authority_is_respected_witness:
  "\<exists>s u. authority_step\<^sup>*\<^sup>* (new_authority_system 5 1) s \<and> authority_step\<^sup>*\<^sup>* s u
     \<and> au_starts (as_authority u) = [1] \<and> as_authority u = as_authority s \<and> as_done u = 1"
proof -
  let ?a = "(new_authority 5)\<lparr>au_starts := [1]\<rparr>"
  let ?b = "?a\<lparr>au_revocation := Some Cancelled\<rparr>"
  let ?s = "\<lparr>as_authority = ?b, as_now = 1, as_busy = True, as_done = 0\<rparr>"
  let ?u = "\<lparr>as_authority = ?b, as_now = 1, as_busy = False, as_done = 1\<rparr>"
  have "authority_step (new_authority_system 5 1) \<lparr>as_authority = ?a, as_now = 1, as_busy = True, as_done = 0\<rparr>"
    using as_start [of "new_authority_system 5 1" ?a]
    by (simp add: new_authority_system_def new_authority_def try_start_def)
  moreover have "authority_step \<lparr>as_authority = ?a, as_now = 1, as_busy = True, as_done = 0\<rparr> ?s"
    using as_revoke [of "\<lparr>as_authority = ?a, as_now = 1, as_busy = True, as_done = 0\<rparr>" Cancelled]
    by (simp add: revoke_def new_authority_def)
  ultimately have s: "authority_step\<^sup>*\<^sup>* (new_authority_system 5 1) ?s" by (rule converse_rtranclp_into_rtranclp [OF _ r_into_rtranclp])
  have "authority_step ?s ?u" using as_end [of ?s] by simp
  then have u: "authority_step\<^sup>*\<^sup>* ?s ?u" by (rule r_into_rtranclp)
  from authority_is_respected [OF s u] s u show ?thesis by (intro exI [of _ ?s] exI [of _ ?u]) simp
qed

text \<open>C3. A run that proposes anything chose one of the scenario's choices in time and unrevoked.
  For a recovery the substrate has reported the first steps of the bundle as present and the
  others as missing, fresh probes say of every target that it is eligible, and exactly the
  missing steps are proposed, in order; any other choice proposes nothing.\<close>

theorem bounded_run_proposes_missing_steps:
  assumes "run_bounded w t ctx ad = (Inr ex, ad')" "new_scenario (ba_scenario ad) = Inr s"
    and "ba_bundle ad = bundle_requests (ba_scenario ad)"
  shows "\<exists>c\<in>set (sc_choices (ba_scenario ad)). dr_selected (be_record ex) = ch_id c
    \<and> au_revocation (be_authority ex) = None \<and> tk_completed t < au_deadline (be_authority ex)
    \<and> (if ch_id c = ''install_recovery''
       then \<exists>k m. 0 < m \<and> k + m = length (ch_proposals c) \<and> w_inspect w = InspectorStates (applied k m)
          \<and> resp_proposals (be_response ex) = map (\<lambda>i. proposal_of (mapped_step (ch_proposals c) i)) [k..<k + m]
          \<and> (\<forall>x\<in>set (targets_of ad). target_eligible w ad (ctx_run_id ctx) x)
       else resp_proposals (be_response ex) = [])"
  by (rule run_proposes_missing [OF assms])

lemma bounded_run_proposes_missing_steps_witness:
  "\<exists>ex ad'. run_bounded (sample_world ''install_recovery'' True) sample_ticks sample_bounded_context sample_adapter = (Inr ex, ad')
     \<and> map prop_id (resp_proposals (be_response ex)) = [''bounded-2''] \<and> au_revocation (be_authority ex) = None"
proof -
  let ?run = "run_bounded (sample_world ''install_recovery'' True) sample_ticks sample_bounded_context sample_adapter"
  obtain ex ad' where run: "?run = (Inr ex, ad')" using sample_run_accepted by (cases ?run; cases "fst ?run") auto
  have "new_scenario (ba_scenario sample_adapter) = Inr sample_scenario"
    "ba_bundle sample_adapter = bundle_requests (ba_scenario sample_adapter)"
    by (simp_all add: sample_adapter_def sample_scenario_valid)
  from bounded_run_proposes_missing_steps [OF run this] run sample_partial_run show ?thesis
    by (auto simp: map_eq_Cons_conv)
qed



text \<open>A recovery that is recorded as succeeded was seen in place: every action succeeded and the
  inspection afterwards reported each step of the bundle as present.\<close>

lemma recovery_success_is_verified:
  assumes "record_action_results i rs ad = (Inr (Some d), ad')" "dr_selected d = ''install_recovery''"
    and "dr_succeeded d" "ba_bundle ad \<noteq> []"
  shows "(\<forall>r\<in>set rs. ar_status r = ActionSucceeded)
     \<and> i = InspectorStates (replicate (length (ba_bundle ad)) ''present'')"
  using verified_result [OF assms] by (simp add: all_succeeded_def list_all_iff)

end
