(* ===== verification/Agent_Runtime.thy ===== *)
theory Agent_Runtime
  imports Bounded Shared_State Engine Commit
begin

text \<open>
  The one-shot agent runtime (\<open>mininet_ai/agents/runtime.py\<close>): the preparation of an invocation
  (its context, its reasoning and the authority of a bounded decision), the execution and
  validation of its actions, and its completion with the shared state it commits.

  The substrate, the reasoning runtimes and the shared store are other parts: fields of
  \<open>oneshot_runtime\<close> say what they answer, and every operation gets the clock readings it
  takes. Authorities are objects that several threads hold: the state keeps them in a list, and
  a preparation and the table of active decisions hold an index into it. The audit log and the
  texts of errors are left out.
\<close>

section \<open>Interfaces\<close>

text \<open>\<open>SharedStateStore\<close>.\<close>

record 's shared_store =
  sh_snapshot :: "access \<Rightarrow> 's \<Rightarrow> state_error + state_snapshot"
  sh_apply :: "access \<Rightarrow> state_update list \<Rightarrow> 's \<Rightarrow> (state_error + state_change list) \<times> 's"

text \<open>
  One reasoning: the response and the seconds it queued for the model, or what it raised, with
  \<open>failure_response\<close> of that error; the authority afterwards; and \<open>record_action_results\<close>, given
  the authority at that time.
\<close>

record reasoning =
  ra_outcome :: "raised + agent_response \<times> rat"
  ra_failure :: "agent_response option"
  ra_authority :: "authority option"
  ra_record :: "authority option \<Rightarrow> action_result list \<Rightarrow> raised + json_object option"

text \<open>\<open>AgentExecutionAdapter\<close>; \<open>aa_binds\<close> says that it has \<open>bind_authority\<close>.\<close>

record agent_adapter =
  aa_binds :: bool
  aa_run :: "agent_context \<Rightarrow> authority option \<Rightarrow> reasoning"

record 's oneshot_runtime =
  osr_catalog :: catalog
  osr_agents :: "agent_instance list"
  osr_scenario :: "agent_id \<Rightarrow> scenario option"
  osr_inspect :: "run_id \<Rightarrow> raised + run_info"
  osr_observe :: "run_id \<Rightarrow> observation_query \<Rightarrow> raised + observation_result"
  osr_adapter :: "execution_definition \<Rightarrow> raised + agent_adapter"
  osr_engine :: engine
  osr_store :: "'s shared_store option"

record active_decision =
  acd_authority :: nat
  acd_invocation :: string

record 's oneshot_state =
  oss_store :: 's
  oss_authorities :: "authority list"
  oss_active :: "agent_id \<rightharpoonup> active_decision"

text \<open>\<open>_OneShotPreparation\<close>.\<close>

record preparation =
  osp_context :: agent_context
  osp_response :: agent_response
  osp_record :: "authority option \<Rightarrow> action_result list \<Rightarrow> raised + json_object option"
  osp_started_at :: timestamp
  osp_started :: rat
  osp_context_seconds :: rat
  osp_queueing :: rat
  osp_reasoning :: rat
  osp_changes :: "state_change list"
  osp_authority :: "nat option"
  osp_action_total :: rat

text \<open>The readings of the clocks by \<open>prepare\<close>, \<open>execute\<close> and \<open>complete\<close>.\<close>

record prepare_ticks =
  ptk_started_at :: timestamp
  ptk_started :: rat
  ptk_context :: rat
  ptk_context_end :: rat
  ptk_reasoning :: rat
  ptk_deadline :: rat
  ptk_reasoning_end :: rat
  ptk_total :: rat
  ptk_failed_at :: timestamp

record action_ticks =
  atk_begin :: rat
  atk_start :: rat
  atk_end :: rat
  atk_results :: clock_readings
  atk_refused_at :: timestamp

record complete_ticks =
  ctk_begin :: rat
  ctk_end :: rat
  ctk_total :: rat
  ctk_completed_at :: timestamp

section \<open>Construction\<close>

text \<open>The constructor; \<open>rt\<close> holds the parts it is given.\<close>

definition new_oneshot_runtime ::
  "string \<Rightarrow> agent_instance list \<Rightarrow> plan_policy \<Rightarrow> snapshot option \<Rightarrow> 's oneshot_runtime
   \<Rightarrow> raised + 's oneshot_runtime" where
  "new_oneshot_runtime digest agents pol snapshot rt =
     bind_res (new_catalog digest agents pol snapshot) (\<lambda>c.
       if osr_store rt = None \<and> list_ex (\<lambda>a. mem_shared (ai_memory a) \<noteq> None) agents
       then Inl (agent_error ''state.store.required'')
       else Inr (rt\<lparr>osr_catalog := c, osr_agents := agents,
                    osr_engine := (osr_engine rt)\<lparr>eng_catalog := c\<rparr>\<rparr>))"

section \<open>Failures\<close>

text \<open>A \<open>SharedStateError\<close> of the runtime or of the store, or another exception.\<close>

datatype state_failure = StoreMissing | StoreRefused state_error | StatePassed raised

text \<open>The code and the \<open>conflict\<close> flag of a \<open>SharedStateError\<close>.\<close>

fun shared_error :: "state_failure \<Rightarrow> (string \<times> bool) option" where
  "shared_error StoreMissing = Some (''state.store.required'', False)"
| "shared_error (StoreRefused e) = map_option (\<lambda>c. (c, state_conflicted e)) (state_code e)"
| "shared_error (StatePassed e) = None"

fun state_raised :: "state_failure \<Rightarrow> raised" where
  "state_raised StoreMissing = agent_error ''state.store.required''"
| "state_raised (StoreRefused e) =
     (case state_code e of None \<Rightarrow> OtherRaised None | Some c \<Rightarrow> agent_error c)"
| "state_raised (StatePassed e) = e"

definition in_store :: "state_error + 'a \<Rightarrow> state_failure + 'a" where
  "in_store r = map_sum StoreRefused id r"

definition passing :: "raised + 'a \<Rightarrow> state_failure + 'a" where
  "passing r = map_sum StatePassed id r"

text \<open>\<open>_error_code\<close>.\<close>

definition error_code :: "raised \<Rightarrow> string" where
  "error_code e =
     (case raised_code e of
        Some c \<Rightarrow> c
      | None \<Rightarrow> if e = TimedOut then ''agent.invocation.timeout'' else ''agent.invocation.failed'')"

definition checked :: "contract_error + 'a \<Rightarrow> raised + 'a" where
  "checked r = map_sum (\<lambda>_. OtherRaised None) id r"

section \<open>Timings\<close>

text \<open>\<open>_elapsed\<close>, from the reading \<open>started\<close> to the reading \<open>now\<close>.\<close>

definition elapsed :: "rat \<Rightarrow> rat \<Rightarrow> rat" where
  "elapsed started now = max 0 (now - started)"

definition invocation_timings ::
  "rat \<Rightarrow> rat option \<Rightarrow> rat \<Rightarrow> rat \<Rightarrow> rat option \<Rightarrow> rat \<Rightarrow> raised + timings" where
  "invocation_timings context queueing reasoning action effect spent =
     checked (new_timings
       \<lparr>tim_event_detection = None, tim_context_build = context, tim_model_queueing = queueing,
        tim_reasoning = reasoning, tim_action_execution = action, tim_action_effect = effect,
        tim_total = spent\<rparr>)"

section \<open>Context\<close>

text \<open>The candidates and the limits of \<open>_shared_access\<close>; \<open>min\<close> raises on an empty list.\<close>

definition limit_candidates :: "agent_instance list \<Rightarrow> agent_instance \<Rightarrow> state_scope \<Rightarrow> int list" where
  "limit_candidates agents inst scope =
     List.map_filter (\<lambda>a. case mem_shared (ai_memory a) of
         None \<Rightarrow> None
       | Some (scopes, n) \<Rightarrow>
           if scope \<notin> set scopes
              \<or> scope = DeploymentScope \<and> ai_deployment a \<noteq> ai_deployment inst
           then None else Some n) agents"

definition scope_limits ::
  "agent_instance list \<Rightarrow> agent_instance \<Rightarrow> raised + (state_scope \<times> int) list" where
  "scope_limits agents inst =
     (case mem_shared (ai_memory inst) of
        None \<Rightarrow> Inr []
      | Some (scopes, _) \<Rightarrow>
          fold_res (\<lambda>scope limits.
            case limit_candidates agents inst scope of
              [] \<Rightarrow> Inl (OtherRaised None)
            | n # ns \<Rightarrow> Inr (AList.update scope (fold min ns n) limits)) scopes [])"

definition shared_access :: "'s oneshot_runtime \<Rightarrow> run_id \<Rightarrow> execution_definition \<Rightarrow> raised + access" where
  "shared_access rt run d =
     bind_res (scope_limits (osr_agents rt) (xd_instance d)) (\<lambda>limits.
       Inr \<lparr>acc_run_id = run, acc_deployment = ai_deployment (xd_instance d),
            acc_agent_id = ai_id (xd_instance d), acc_limits = limits\<rparr>)"

text \<open>\<open>_observe\<close>; the values are JSON in the model.\<close>

definition observe_one ::
  "'s oneshot_runtime \<Rightarrow> run_id \<Rightarrow> agent_instance \<Rightarrow> string \<Rightarrow> json_object \<Rightarrow> raised + json_object" where
  "observe_one rt run inst nm found =
     (let q = \<lparr>oq_name = nm, oq_targets = at_targets (ai_attachment inst), oq_parameters = []\<rparr> in
      bind_res (osr_observe rt run q) (\<lambda>r.
        if or_run_id r \<noteq> run \<or> or_query r \<noteq> q
        then Inl (agent_error ''agent.observation.invalid-identity'')
        else Inr (AList.update nm (JObj (or_values r)) found)))"

definition observe_all ::
  "'s oneshot_runtime \<Rightarrow> run_id \<Rightarrow> agent_instance \<Rightarrow> raised + json_object" where
  "observe_all rt run inst = fold_res (observe_one rt run inst) (ai_observes inst) []"

definition empty_snapshot :: state_snapshot where
  "empty_snapshot = \<lparr>snap_scopes = [], snap_run = [], snap_deployment = []\<rparr>"

definition read_shared ::
  "'s oneshot_runtime \<Rightarrow> access \<Rightarrow> 's \<Rightarrow> raised + state_snapshot" where
  "read_shared rt a store =
     (case osr_store rt of
        None \<Rightarrow> Inr empty_snapshot
      | Some sh \<Rightarrow>
          if acc_limits a = [] then Inr empty_snapshot
          else map_sum (\<lambda>e. state_raised (StoreRefused e)) id (sh_snapshot sh a store))"

text \<open>\<open>_context\<close>.\<close>

definition context_for ::
  "execution_definition \<Rightarrow> string \<Rightarrow> run_id \<Rightarrow> string \<Rightarrow> timestamp \<Rightarrow> json_object \<Rightarrow> state_snapshot
   \<Rightarrow> coordination_context option \<Rightarrow> raised + agent_context" where
  "context_for d inv_id run intent at' obs shared coord =
     (let a = xd_instance d; att = ai_attachment a in
      checked (new_agent_context
        \<lparr>ctx_invocation_id = inv_id, ctx_run_id = run, ctx_agent_id = ai_id a,
         ctx_deployment = ai_deployment a, ctx_layer = at_layer att,
         ctx_custom_layer = at_custom_layer att, ctx_target_kind = at_target_kind att,
         ctx_targets = at_targets att, ctx_capabilities = ai_capabilities a,
         ctx_observations = obs, ctx_shared_state = shared, ctx_coordination = coord,
         ctx_intent = intent, ctx_priority = ai_priority a, ctx_invoked_at = at'\<rparr>))"

text \<open>\<open>prepare\<close> up to the context.\<close>

definition build_context ::
  "'s oneshot_runtime \<Rightarrow> timestamp \<Rightarrow> string \<Rightarrow> run_id \<Rightarrow> agent_id \<Rightarrow> string \<Rightarrow> coordination_context option
   \<Rightarrow> 's \<Rightarrow> raised + execution_definition \<times> agent_context" where
  "build_context rt now inv_id run agent intent coord store =
     (if intent = [] then Inl (agent_error ''agent.intent.invalid'')
      else if inv_id = [] then Inl (agent_error ''agent.invocation.invalid-id'')
      else
        bind_res (catalog_resolve (osr_catalog rt) agent) (\<lambda>d.
        bind_res (osr_inspect rt run) (\<lambda>info.
          if ri_id info \<noteq> run then Inl (agent_error ''agent.run.invalid-identity'')
          else if ri_plan_digest info \<noteq> cat_digest (osr_catalog rt)
          then Inl (agent_error ''agent.run.plan-mismatch'')
          else if ri_state info \<noteq> Running then Inl (agent_error ''agent.run.not-running'')
          else
            bind_res (observe_all rt run (xd_instance d)) (\<lambda>obs.
            bind_res (shared_access rt run d) (\<lambda>a.
            bind_res (read_shared rt a store) (\<lambda>shared.
            bind_res (context_for d inv_id run intent now obs shared coord) (\<lambda>ctx.
              Inr (d, ctx))))))))"

section \<open>Preparing\<close>

datatype preparing = Ready prepared preparation | GaveUp invocation_result

text \<open>\<open>isinstance(scheduled_tick, (int, float))\<close>, which a \<open>bool\<close> is too.\<close>

definition numeric_tick :: "coordination_context option \<Rightarrow> rat option" where
  "numeric_tick coord =
     (case coord of
        None \<Rightarrow> None
      | Some c \<Rightarrow>
          (case map_of (cc_metadata c) ''deadlineStartedAt'' of
             Some (JInt i) \<Rightarrow> Some (of_int i)
           | Some (JFloat r) \<Rightarrow> Some r
           | Some (JBool b) \<Rightarrow> Some (of_bool b)
           | _ \<Rightarrow> None))"

definition decision_authority ::
  "'s oneshot_runtime \<Rightarrow> rat \<Rightarrow> agent_id \<Rightarrow> coordination_context option \<Rightarrow> authority option" where
  "decision_authority rt now agent coord =
     map_option (\<lambda>s. new_authority ((case numeric_tick coord of Some k \<Rightarrow> k | None \<Rightarrow> now) + decision_deadline s))
       (osr_scenario rt agent)"

definition put_authority :: "nat \<Rightarrow> authority \<Rightarrow> 's oneshot_state \<Rightarrow> 's oneshot_state" where
  "put_authority n a s = s\<lparr>oss_authorities := (oss_authorities s)[n := a]\<rparr>"

text \<open>The new authority and, when it is bound, its entry in the table of active decisions.\<close>

definition open_authority ::
  "bool \<Rightarrow> agent_id \<Rightarrow> string \<Rightarrow> authority \<Rightarrow> 's oneshot_state \<Rightarrow> 's oneshot_state" where
  "open_authority binds agent inv_id a s =
     (let n = length (oss_authorities s); s = s\<lparr>oss_authorities := oss_authorities s @ [a]\<rparr> in
      if binds then s\<lparr>oss_active := (oss_active s)(agent \<mapsto> \<lparr>acd_authority = n, acd_invocation = inv_id\<rparr>)\<rparr>
      else s)"

definition release_authority :: "agent_id \<Rightarrow> nat option \<Rightarrow> 's oneshot_state \<Rightarrow> 's oneshot_state" where
  "release_authority agent ref s =
     (case ref of
        None \<Rightarrow> s
      | Some n \<Rightarrow>
          (case oss_active s agent of
             None \<Rightarrow> s
           | Some d \<Rightarrow> if acd_authority d = n then s\<lparr>oss_active := (oss_active s)(agent := None)\<rparr> else s))"

text \<open>\<open>_failure\<close>.\<close>

definition reasoning_failure ::
  "agent_context \<Rightarrow> prepare_ticks \<Rightarrow> raised \<Rightarrow> agent_response option \<Rightarrow> raised + invocation_result" where
  "reasoning_failure ctx t e resp =
     bind_res (invocation_timings (elapsed (ptk_context t) (ptk_context_end t)) None
                 (elapsed (ptk_reasoning t) (ptk_reasoning_end t)) 0 None (elapsed (ptk_started t) (ptk_total t)))
       (\<lambda>tm. checked (new_invocation_result
          \<lparr>inv_invocation_id = ctx_invocation_id ctx, inv_run_id = ctx_run_id ctx, inv_agent_id = ctx_agent_id ctx,
           inv_status = InvocationFailed, inv_started_at = ptk_started_at t, inv_completed_at = ptk_failed_at t,
           inv_response = resp, inv_action_results = [], inv_state_changes = [], inv_timings = tm,
           inv_issue = Some \<lparr>issue_code = error_code e, issue_target = None\<rparr>\<rparr>))"

text \<open>What follows a reasoning: the preparation, or the result of a failed one.\<close>

definition conclude_reasoning ::
  "prepare_ticks \<Rightarrow> agent_id \<Rightarrow> agent_context \<Rightarrow> nat option \<Rightarrow> reasoning \<Rightarrow> 's oneshot_state
   \<Rightarrow> (raised + preparing) \<times> 's oneshot_state" where
  "conclude_reasoning t agent ctx ref r s =
     (case ra_outcome r of
        Inl e \<Rightarrow>
          (case reasoning_failure ctx t e (ra_failure r) of
             Inl x \<Rightarrow> (Inl x, s)
           | Inr res \<Rightarrow> (Inr (GaveUp res), release_authority agent ref s))
      | Inr (resp, queueing) \<Rightarrow>
          (Inr (Ready \<lparr>prep_context = ctx, prep_response = resp\<rparr>
             \<lparr>osp_context = ctx, osp_response = resp, osp_record = ra_record r,
              osp_started_at = ptk_started_at t, osp_started = ptk_started t,
              osp_context_seconds = elapsed (ptk_context t) (ptk_context_end t), osp_queueing = queueing,
              osp_reasoning = elapsed (ptk_reasoning t) (ptk_reasoning_end t), osp_changes = [],
              osp_authority = ref, osp_action_total = 0\<rparr>), s))"

definition raising :: "raised \<Rightarrow> reasoning" where
  "raising e = \<lparr>ra_outcome = Inl e, ra_failure = None, ra_authority = None, ra_record = (\<lambda>_ _. Inr None)\<rparr>"

definition reason_about ::
  "'s oneshot_runtime \<Rightarrow> prepare_ticks \<Rightarrow> agent_id \<Rightarrow> execution_definition \<Rightarrow> agent_context \<Rightarrow> 's oneshot_state
   \<Rightarrow> (raised + preparing) \<times> 's oneshot_state" where
  "reason_about rt t agent d ctx s =
     (case osr_adapter rt d of
        Inl e \<Rightarrow> conclude_reasoning t agent ctx None (raising e) s
      | Inr ad \<Rightarrow>
          (case decision_authority rt (ptk_deadline t) agent (ctx_coordination ctx) of
             None \<Rightarrow> conclude_reasoning t agent ctx None (aa_run ad ctx None) s
           | Some a \<Rightarrow>
               let n = length (oss_authorities s);
                   s = open_authority (aa_binds ad) agent (ctx_invocation_id ctx) a s;
                   r = aa_run ad ctx (if aa_binds ad then Some a else None);
                   s = (case ra_authority r of
                          None \<Rightarrow> s | Some a \<Rightarrow> if aa_binds ad then put_authority n a s else s)
               in conclude_reasoning t agent ctx (Some n) r s))"

definition prepare_agent ::
  "'s oneshot_runtime \<Rightarrow> prepare_ticks \<Rightarrow> string \<Rightarrow> run_id \<Rightarrow> agent_id \<Rightarrow> string \<Rightarrow> coordination_context option
   \<Rightarrow> 's oneshot_state \<Rightarrow> (raised + preparing) \<times> 's oneshot_state" where
  "prepare_agent rt t inv_id run agent intent coord s =
     (case build_context rt (ptk_started_at t) inv_id run agent intent coord (oss_store s) of
        Inl e \<Rightarrow> (Inl e, s)
      | Inr (d, ctx) \<Rightarrow> reason_about rt t agent d ctx s)"

section \<open>Actions\<close>

text \<open>\<open>_prepared_state\<close>, with the preparation the token holds, if it is one.\<close>

definition prepared_state :: "prepared \<Rightarrow> preparation option \<Rightarrow> raised + preparation" where
  "prepared_state p token =
     (case token of
        None \<Rightarrow> Inl (agent_error ''agent.invocation.invalid-preparation'')
      | Some q \<Rightarrow>
          if osp_context q \<noteq> prep_context p \<or> osp_response q \<noteq> prep_response p
          then Inl (agent_error ''agent.invocation.invalid-preparation'') else Inr q)"

text \<open>An \<open>ActionResult\<close> made by the runtime itself, with the default effects.\<close>

definition own_result ::
  "agent_context \<Rightarrow> action_proposal \<Rightarrow> action_status \<Rightarrow> string \<Rightarrow> timestamp \<Rightarrow> raised + action_result" where
  "own_result ctx a status code now =
     (if code = [] then Inl (OtherRaised None)
      else checked_result ((plain_result ctx a status False [] (Some (issue_at code (prop_target a))) now)
                             \<lparr>ar_effects := Unknown\<rparr>))"

definition reject_action ::
  "prepared \<Rightarrow> preparation option \<Rightarrow> action_proposal \<Rightarrow> string \<Rightarrow> timestamp \<Rightarrow> raised + action_result" where
  "reject_action p token a code now =
     bind_res (prepared_state p token) (\<lambda>_. own_result (prep_context p) a ActionRejected code now)"

definition add_action_time :: "action_ticks \<Rightarrow> preparation \<Rightarrow> preparation" where
  "add_action_time t q = q\<lparr>osp_action_total := osp_action_total q + elapsed (atk_begin t) (atk_end t)\<rparr>"

definition run_capability ::
  "'s oneshot_runtime \<Rightarrow> action_ticks \<Rightarrow> prepared \<Rightarrow> preparation \<Rightarrow> action_proposal
   \<Rightarrow> engine_call list \<times> (raised + action_result) \<times> preparation" where
  "run_capability rt t p q a =
     (case execute_action (osr_engine rt) (atk_results t) (prep_context p) a of
        (calls, Inl e) \<Rightarrow> (calls, Inl e, q)
      | (calls, Inr r) \<Rightarrow> (calls, Inr r, add_action_time t q))"

text \<open>\<open>execute\<close>: the calls of the engine, the result, and the preparation and state afterwards.\<close>

definition execute_prepared ::
  "'s oneshot_runtime \<Rightarrow> action_ticks \<Rightarrow> prepared \<Rightarrow> preparation \<Rightarrow> action_proposal \<Rightarrow> 's oneshot_state
   \<Rightarrow> engine_call list \<times> (raised + action_result) \<times> preparation \<times> 's oneshot_state" where
  "execute_prepared rt t p q a s =
     (case prepared_state p (Some q) of
        Inl e \<Rightarrow> ([], Inl e, q, s)
      | Inr _ \<Rightarrow>
          (case osp_authority q of
             None \<Rightarrow> (case run_capability rt t p q a of (calls, r, q) \<Rightarrow> (calls, r, q, s))
           | Some n \<Rightarrow>
               (case try_start (atk_start t) (oss_authorities s ! n) of
                  (True, au) \<Rightarrow>
                    (case run_capability rt t p q a of (calls, r, q) \<Rightarrow> (calls, r, q, put_authority n au s))
                | (False, au) \<Rightarrow>
                    ([], own_result (prep_context p) a ActionFailed
                           (if au_revocation au = Some Cancelled then ''agent.bounded-decision.cancelled''
                            else ''agent.bounded-decision.timeout'') (atk_refused_at t),
                     q, put_authority n au s))))"

section \<open>Shared state\<close>

text \<open>The version an update names, or else the one the invocation saw.\<close>

definition expected_version :: "agent_context \<Rightarrow> state_update list \<Rightarrow> state_scope \<Rightarrow> string \<Rightarrow> int" where
  "expected_version ctx us scope key =
     (case map_of (rev (map (\<lambda>u. ((su_scope u, su_key u), su_expected u)) us)) (scope, key) of
        Some (Some v) \<Rightarrow> v
      | _ \<Rightarrow> version_in (ctx_shared_state ctx) scope key)"

definition stale_key :: "agent_context \<Rightarrow> state_update list \<Rightarrow> state_snapshot \<Rightarrow> state_scope \<times> string \<Rightarrow> bool" where
  "stale_key ctx us current = (\<lambda>(scope, key).
     let expected = expected_version ctx us scope key in
     version_in current scope key \<noteq> expected \<or> expected \<noteq> version_in (ctx_shared_state ctx) scope key)"

definition touched_keys :: "agent_response \<Rightarrow> (state_scope \<times> string) list" where
  "touched_keys r = map (\<lambda>x. (sr_scope x, sr_key x)) (resp_reads r) @ map (\<lambda>u. (su_scope u, su_key u)) (resp_updates r)"

definition agent_access :: "'s oneshot_runtime \<Rightarrow> agent_context \<Rightarrow> raised + access" where
  "agent_access rt ctx =
     bind_res (catalog_resolve (osr_catalog rt) (ctx_agent_id ctx)) (shared_access rt (ctx_run_id ctx))"

text \<open>\<open>_check_shared_state\<close>.\<close>

definition check_shared :: "'s oneshot_runtime \<Rightarrow> prepared \<Rightarrow> 's \<Rightarrow> state_failure + unit" where
  "check_shared rt p store =
     (let ctx = prep_context p; resp = prep_response p; us = resp_updates resp in
      case osr_store rt of
        None \<Rightarrow> if us \<noteq> [] then Inl StoreMissing else Inr ()
      | Some sh \<Rightarrow>
          bind_res (passing (agent_access rt ctx)) (\<lambda>a.
          bind_res (in_store (sh_snapshot sh a store)) (\<lambda>current.
          bind_res (in_store (map_res (\<lambda>u. namespace a (su_scope u)) us)) (\<lambda>_.
          bind_res (in_store (map_res (\<lambda>x. namespace a (sr_scope x)) (resp_reads resp))) (\<lambda>_.
            case find (stale_key ctx us current) (touched_keys resp) of
              None \<Rightarrow> Inr ()
            | Some (scope, key) \<Rightarrow>
                Inl (StoreRefused (VersionConflict scope key (expected_version ctx us scope key)
                                     (version_in current scope key))))))))"

definition validate_prepared ::
  "'s oneshot_runtime \<Rightarrow> clock_readings \<Rightarrow> prepared \<Rightarrow> preparation \<Rightarrow> action_proposal \<Rightarrow> 's oneshot_state
   \<Rightarrow> raised + action_result option" where
  "validate_prepared rt ck p q a s =
     bind_res (prepared_state p (Some q)) (\<lambda>_.
       case check_shared rt p (oss_store s) of
         Inl f \<Rightarrow>
           (case shared_error f of
              None \<Rightarrow> Inl (state_raised f)
            | Some (code, _) \<Rightarrow> map_sum id Some (reject_action p (Some q) a code (ck_result ck)))
       | Inr _ \<Rightarrow> validate_action (osr_engine rt) ck (prep_context p) a)"

text \<open>\<open>_apply_shared_state\<close>, every update bound to a version.\<close>

definition versioned :: "agent_context \<Rightarrow> state_update list \<Rightarrow> state_update list" where
  "versioned ctx us =
     map (\<lambda>u. u\<lparr>su_expected := Some (case su_expected u of
                 Some v \<Rightarrow> v | None \<Rightarrow> version_in (ctx_shared_state ctx) (su_scope u) (su_key u))\<rparr>) us"

definition apply_shared ::
  "'s oneshot_runtime \<Rightarrow> agent_context \<Rightarrow> access \<Rightarrow> state_update list \<Rightarrow> 's
   \<Rightarrow> (state_failure + state_change list) \<times> 's" where
  "apply_shared rt ctx a us store =
     (if us = [] then (Inr [], store)
      else case osr_store rt of
             None \<Rightarrow> (Inl StoreMissing, store)
           | Some sh \<Rightarrow> (case sh_apply sh a (versioned ctx us) store of (r, store) \<Rightarrow> (in_store r, store)))"

text \<open>
  The shared state of a completion; \<open>others\<close> is what other threads do to the store between the
  check and the update.
\<close>

definition commit_shared ::
  "'s oneshot_runtime \<Rightarrow> ('s \<Rightarrow> 's) \<Rightarrow> prepared \<Rightarrow> 's \<Rightarrow> (state_failure + state_change list) \<times> 's" where
  "commit_shared rt others p store =
     (let ctx = prep_context p; resp = prep_response p in
      case (if resp_updates resp \<noteq> [] \<or> resp_reads resp \<noteq> [] then check_shared rt p store else Inr ()) of
        Inl f \<Rightarrow> (Inl f, store)
      | Inr _ \<Rightarrow>
          (case passing (agent_access rt ctx) of
             Inl f \<Rightarrow> (Inl f, store)
           | Inr a \<Rightarrow> apply_shared rt ctx a (resp_updates resp) (others store)))"

section \<open>Completion\<close>

text \<open>\<open>dict(v)\<close>: of an object, or of a sequence of pairs whose keys are strings.\<close>

fun pair_of :: "json \<Rightarrow> (string \<times> json) option" where
  "pair_of (JArr [JStr k, v]) = Some (k, v)"
| "pair_of (JStr [a, b]) = Some ([a], JStr [b])"
| "pair_of (JObj [(k, _), (l, _)]) = Some (k, JStr l)"
| "pair_of _ = None"

definition dict_of :: "json \<Rightarrow> raised + json_object" where
  "dict_of v =
     (case v of
        JObj kvs \<Rightarrow> Inr kvs
      | JArr xs \<Rightarrow>
          fold_res (\<lambda>x d. case pair_of x of None \<Rightarrow> Inl (OtherRaised None)
                          | Some (k, y) \<Rightarrow> Inr (AList.update k y d)) xs []
      | JStr [] \<Rightarrow> Inr []
      | _ \<Rightarrow> Inl (OtherRaised None))"

definition get_or :: "json_object \<Rightarrow> string \<Rightarrow> json \<Rightarrow> json" where
  "get_or d k v = (case map_of d k of None \<Rightarrow> v | Some x \<Rightarrow> x)"

text \<open>The response with the runtime's update of its execution record, and that record.\<close>

definition updated_response ::
  "agent_response \<Rightarrow> json_object \<Rightarrow> raised + json_object \<times> agent_response" where
  "updated_response resp upd =
     bind_res (dict_of (get_or (resp_metadata resp) ''executionRecord'' (JObj []))) (\<lambda>er.
       let er = AList.update ''runtime'' (get_or upd ''runtime'' (JObj [])) er;
           er = AList.update ''outcome'' (get_or upd ''outcome'' (get_or er ''outcome'' JNull)) er
       in Inr (er, resp\<lparr>resp_metadata := AList.update ''executionRecord'' (JObj er) (resp_metadata resp)\<rparr>))"

definition object_of :: "json \<Rightarrow> raised + json_object" where
  "object_of v = (case v of JObj kvs \<Rightarrow> Inr kvs | _ \<Rightarrow> Inl (OtherRaised None))"

text \<open>The code of the correctness failure that makes the invocation fail, if there is one.\<close>

definition correctness_failure :: "json_object \<Rightarrow> raised + string option" where
  "correctness_failure er =
     bind_res (object_of (get_or er ''runtime'' (JObj []))) (\<lambda>runtime.
     bind_res (object_of (get_or runtime ''boundedDecision'' (JObj []))) (\<lambda>decision.
       case map_of decision ''correctnessFailure'' of
         None \<Rightarrow> Inr None
       | Some cf \<Rightarrow>
           if map_of er ''outcome'' \<noteq> Some (JStr ''failed'') \<or> \<not> truthy cf then Inr None
           else (case cf of
                   JObj kvs \<Rightarrow>
                     (case (map_of kvs ''code'', map_of kvs ''message'') of
                        (Some (JStr c), Some (JStr m)) \<Rightarrow>
                          if c = [] \<or> m = [] then Inl (OtherRaised None) else Inr (Some c)
                      | _ \<Rightarrow> Inl (OtherRaised None))
                 | _ \<Rightarrow> Inl (OtherRaised None))))"

text \<open>The recording of the results: the response afterwards and the code of a failure.\<close>

definition record_results ::
  "preparation \<Rightarrow> authority option \<Rightarrow> action_result list \<Rightarrow> agent_response \<times> string option" where
  "record_results q au rs =
     (let resp = osp_response q in
      case osp_record q au rs of
        Inl e \<Rightarrow> (resp, Some (error_code e))
      | Inr None \<Rightarrow> (resp, None)
      | Inr (Some upd) \<Rightarrow>
          (case updated_response resp upd of
             Inl e \<Rightarrow> (resp, Some (error_code e))
           | Inr (er, resp) \<Rightarrow>
               (case correctness_failure er of
                  Inl e \<Rightarrow> (resp, Some (error_code e))
                | Inr c \<Rightarrow> (resp, c))))"

text \<open>The result of an invocation that came as far as its actions.\<close>

definition finished_result ::
  "preparation \<Rightarrow> complete_ticks \<Rightarrow> timings \<Rightarrow> agent_response \<Rightarrow> invocation_status \<Rightarrow> issue option
   \<Rightarrow> action_result list \<Rightarrow> state_change list \<Rightarrow> raised + invocation_result" where
  "finished_result q t tm resp status i rs cs =
     (let ctx = osp_context q in
      checked (new_invocation_result
        \<lparr>inv_invocation_id = ctx_invocation_id ctx, inv_run_id = ctx_run_id ctx, inv_agent_id = ctx_agent_id ctx,
         inv_status = status, inv_started_at = osp_started_at q, inv_completed_at = ctk_completed_at t,
         inv_response = Some resp, inv_action_results = rs, inv_state_changes = cs, inv_timings = tm,
         inv_issue = i\<rparr>))"

definition effect_seconds :: "action_result list \<Rightarrow> rat option" where
  "effect_seconds rs =
     (let xs = List.map_filter ar_effect_latency rs in if xs = [] then None else Some (sum_list xs))"

text \<open>\<open>_result\<close>.\<close>

definition outcome_result ::
  "preparation \<Rightarrow> complete_ticks \<Rightarrow> timings \<Rightarrow> agent_response \<Rightarrow> action_result list \<Rightarrow> state_change list
   \<Rightarrow> raised + invocation_result" where
  "outcome_result q t tm resp rs cs =
     (case find (\<lambda>r. ar_status r \<noteq> ActionSucceeded) rs of
        None \<Rightarrow> finished_result q t tm resp InvocationSucceeded None rs cs
      | Some r \<Rightarrow>
          (case ar_issue r of
             None \<Rightarrow> Inl (OtherRaised None)
           | Some i \<Rightarrow>
               finished_result q t tm resp
                 (if ar_status r = ActionRejected then InvocationRejected else InvocationFailed) (Some i) rs cs))"

definition with_actions :: "action_result list \<Rightarrow> invocation_result \<Rightarrow> invocation_result" where
  "with_actions rs r = r\<lparr>inv_action_results := rs\<rparr>"

definition total_action_seconds :: "complete_ticks \<Rightarrow> preparation \<Rightarrow> rat" where
  "total_action_seconds t q =
     (if osp_action_total q = 0 then elapsed (ctk_begin t) (ctk_end t) else osp_action_total q)"

definition complete_timings ::
  "complete_ticks \<Rightarrow> preparation \<Rightarrow> action_result list \<Rightarrow> raised + timings" where
  "complete_timings t q rs =
     (let effect = effect_seconds rs in
      invocation_timings (osp_context_seconds q) (Some (osp_queueing q)) (osp_reasoning q)
        (max 0 (total_action_seconds t q - (case effect of None \<Rightarrow> 0 | Some x \<Rightarrow> x))) effect
        (elapsed (osp_started q) (ctk_total t)))"

definition authority_at :: "preparation \<Rightarrow> 's oneshot_state \<Rightarrow> authority option" where
  "authority_at q s = map_option (\<lambda>n. oss_authorities s ! n) (osp_authority q)"

text \<open>A result that is returned releases the authority; an exception does not.\<close>

definition return_result ::
  "preparation \<Rightarrow> raised + invocation_result \<Rightarrow> 's oneshot_state \<Rightarrow> (raised + invocation_result) \<times> 's oneshot_state" where
  "return_result q r s =
     (case r of
        Inl e \<Rightarrow> (Inl e, s)
      | Inr res \<Rightarrow> (Inr res, release_authority (ctx_agent_id (osp_context q)) (osp_authority q) s))"

definition close_invocation ::
  "complete_ticks \<Rightarrow> preparation \<Rightarrow> timings \<Rightarrow> action_result list \<Rightarrow> 's oneshot_state
   \<Rightarrow> (raised + invocation_result) \<times> preparation \<times> 's oneshot_state" where
  "close_invocation t q tm rs s =
     (case record_results q (authority_at q s) rs of
        (resp, failure) \<Rightarrow>
          let q = q\<lparr>osp_response := resp\<rparr>;
              r = (case failure of
                     None \<Rightarrow> outcome_result q t tm resp rs (osp_changes q)
                   | Some c \<Rightarrow> finished_result q t tm resp InvocationFailed
                                 (Some \<lparr>issue_code = c, issue_target = None\<rparr>) rs (osp_changes q))
          in case return_result q r s of (r, s) \<Rightarrow> (r, q, s))"

text \<open>The commit of the shared state after actions that all succeeded, and what follows it.\<close>

definition after_actions ::
  "'s oneshot_runtime \<Rightarrow> complete_ticks \<Rightarrow> ('s \<Rightarrow> 's) \<Rightarrow> prepared \<Rightarrow> preparation \<Rightarrow> timings
   \<Rightarrow> action_result list \<Rightarrow> 's oneshot_state \<Rightarrow> (raised + invocation_result) \<times> preparation \<times> 's oneshot_state" where
  "after_actions rt t others p q tm rs s =
     (case commit_shared rt others p (oss_store s) of
        (Inr cs, store) \<Rightarrow> close_invocation t (q\<lparr>osp_changes := cs\<rparr>) tm rs (s\<lparr>oss_store := store\<rparr>)
      | (Inl f, store) \<Rightarrow>
          let s = s\<lparr>oss_store := store\<rparr> in
          (case shared_error f of
             None \<Rightarrow> (Inl (state_raised f), q, s)
           | Some (code, conflict) \<Rightarrow>
               (case return_result q (map_sum id (with_actions rs)
                  (finished_result q t tm (osp_response q)
                    (if conflict then InvocationRejected else InvocationFailed)
                    (Some \<lparr>issue_code = code, issue_target = None\<rparr>) [] [])) s of
                  (r, s) \<Rightarrow> (r, q, s))))"

text \<open>\<open>complete\<close>.\<close>

definition complete_prepared ::
  "'s oneshot_runtime \<Rightarrow> complete_ticks \<Rightarrow> ('s \<Rightarrow> 's) \<Rightarrow> prepared \<Rightarrow> preparation \<Rightarrow> action_result list
   \<Rightarrow> 's oneshot_state \<Rightarrow> (raised + invocation_result) \<times> preparation \<times> 's oneshot_state" where
  "complete_prepared rt t others p q rs s =
     (case prepared_state p (Some q) of
        Inl e \<Rightarrow> (Inl e, q, s)
      | Inr _ \<Rightarrow>
          if map ar_request_id rs \<noteq> map prop_id (resp_proposals (osp_response q))
          then (Inl (agent_error ''agent.actions.result-mismatch''), q, s)
          else
            let spent = q\<lparr>osp_action_total := total_action_seconds t q\<rparr> in
            (case complete_timings t q rs of
               Inl e \<Rightarrow> (Inl e, spent, s)
             | Inr tm \<Rightarrow>
                 if list_ex (\<lambda>r. ar_status r \<noteq> ActionSucceeded) rs then close_invocation t spent tm rs s
                 else after_actions rt t others p spent tm rs s))"

section \<open>Cancellation\<close>

text \<open>
  \<open>cancel_bounded_decision\<close>: the adapter's \<open>cancel_local\<close> revokes the authority that was bound to it,
  which is the one of the table, and without one the runtime revokes it itself.
\<close>

definition cancel_decision :: "agent_id \<Rightarrow> 's oneshot_state \<Rightarrow> bool \<times> 's oneshot_state" where
  "cancel_decision agent s =
     (case oss_active s agent of
        None \<Rightarrow> (False, s)
      | Some d \<Rightarrow>
          let n = acd_authority d in (True, put_authority n (snd (revoke Cancelled (oss_authorities s ! n))) s))"

section \<open>A whole invocation\<close>

record invoke_ticks =
  itk_prepare :: prepare_ticks
  itk_validate :: "action_proposal \<Rightarrow> clock_readings"
  itk_execute :: "action_proposal \<Rightarrow> action_ticks"
  itk_complete :: complete_ticks

definition invoke_action ::
  "'s oneshot_runtime \<Rightarrow> invoke_ticks \<Rightarrow> prepared \<Rightarrow> action_proposal
   \<Rightarrow> (action_proposal \<times> engine_call list) list \<times> action_result list \<times> preparation \<times> 's oneshot_state
   \<Rightarrow> raised + (action_proposal \<times> engine_call list) list \<times> action_result list \<times> preparation \<times> 's oneshot_state" where
  "invoke_action rt t p a = (\<lambda>(log, rs, q, s).
     bind_res (validate_prepared rt (itk_validate t a) p q a s) (\<lambda>v.
       case v of
         Some r \<Rightarrow> Inr (log @ [(a, [])], rs @ [r], q, s)
       | None \<Rightarrow>
           (case execute_prepared rt (itk_execute t a) p q a s of
              (calls, Inl e, q, s) \<Rightarrow> Inl e
            | (calls, Inr r, q, s) \<Rightarrow> Inr (log @ [(a, calls)], rs @ [r], q, s))))"

text \<open>\<open>invoke\<close>; what an exception leaves of the state is not followed.\<close>

definition invoke_agent ::
  "'s oneshot_runtime \<Rightarrow> invoke_ticks \<Rightarrow> ('s \<Rightarrow> 's) \<Rightarrow> string \<Rightarrow> run_id \<Rightarrow> agent_id \<Rightarrow> string
   \<Rightarrow> coordination_context option \<Rightarrow> 's oneshot_state
   \<Rightarrow> raised + (action_proposal \<times> engine_call list) list \<times> invocation_result \<times> 's oneshot_state" where
  "invoke_agent rt t others inv_id run agent intent coord s =
     (case prepare_agent rt (itk_prepare t) inv_id run agent intent coord s of
        (Inl e, _) \<Rightarrow> Inl e
      | (Inr (GaveUp res), s) \<Rightarrow> Inr ([], res, s)
      | (Inr (Ready p q), s) \<Rightarrow>
          bind_res (fold_res (invoke_action rt t p) (resp_proposals (prep_response p)) ([], [], q, s))
            (\<lambda>(log, rs, q, s).
              case complete_prepared rt (itk_complete t) others p q rs s of
                (Inl e, _, _) \<Rightarrow> Inl e
              | (Inr res, _, s) \<Rightarrow> Inr (log, res, s)))"

section \<open>The adapter of a bounded decision\<close>

text \<open>
  \<open>_create_execution_adapter\<close> for a bounded decision: its run, its failure and the record of its
  results. \<open>w\<close>, \<open>t\<close> and \<open>i\<close> are the answers, the clock readings and the inspection after the
  actions that \<open>Bounded\<close> takes; \<open>dump\<close> is \<open>model_dump\<close> of the record.
\<close>

fun decision_raised :: "decision_error \<Rightarrow> raised" where
  "decision_raised (DecisionRaised e) = e"
| "decision_raised e = (case decision_code e of None \<Rightarrow> OtherRaised None | Some c \<Rightarrow> agent_error c)"

definition recovery_failure :: json where
  "recovery_failure =
     JObj [(''code'', JStr ''agent.bounded-decision.recovery-verification-failed''), (''message'', JStr ''message'')]"

definition execution_record :: "(decision_record \<Rightarrow> json_object) \<Rightarrow> decision_record \<Rightarrow> json_object" where
  "execution_record dump d =
     [(''executionKind'', JStr ''bounded-decision''),
      (''outcome'', JStr (if dr_succeeded d then ''succeeded'' else ''failed'')),
      (''runtime'', JObj [(''boundedDecision'',
         JObj ((if dr_correctness d then [] else [(''correctnessFailure'', recovery_failure)]) @ dump d))])]"

definition with_record :: "(decision_record \<Rightarrow> json_object) \<Rightarrow> decision_record \<Rightarrow> agent_response \<Rightarrow> agent_response" where
  "with_record dump d r =
     r\<lparr>resp_metadata := AList.update ''executionRecord'' (JObj (execution_record dump d)) (resp_metadata r)\<rparr>"

definition failed_decision_response :: "(decision_record \<Rightarrow> json_object) \<Rightarrow> decision_record \<Rightarrow> agent_response" where
  "failed_decision_response dump d =
     with_record dump d \<lparr>resp_reads = [], resp_message = Some ''bounded decision failed before action admission'',
       resp_proposals = [], resp_delegations = [], resp_updates = [],
       resp_metadata = [(''executionKind'', JStr ''bounded-decision''), (''selectedChoice'', JStr ''unavailable'')]\<rparr>"

definition record_decision ::
  "inspection \<Rightarrow> (decision_record \<Rightarrow> json_object) \<Rightarrow> bounded_adapter \<Rightarrow> authority option \<Rightarrow> action_result list
   \<Rightarrow> raised + json_object option" where
  "record_decision i dump ad au rs =
     (case fst (record_action_results i rs (ad\<lparr>ba_authority := au\<rparr>)) of
        Inl e \<Rightarrow> Inl (decision_raised e)
      | Inr d \<Rightarrow> Inr (map_option (execution_record dump) d))"

definition bounded_reasoning ::
  "world \<Rightarrow> ticks \<Rightarrow> inspection \<Rightarrow> (decision_record \<Rightarrow> json_object) \<Rightarrow> bounded_adapter \<Rightarrow> agent_context
   \<Rightarrow> authority option \<Rightarrow> reasoning" where
  "bounded_reasoning w t i dump ad ctx au =
     (case run_bounded w t ctx (case au of None \<Rightarrow> ad | Some a \<Rightarrow> bind_authority a ad) of (r, ad) \<Rightarrow>
        \<lparr>ra_outcome = (case r of Inl e \<Rightarrow> Inl (decision_raised e)
                       | Inr ex \<Rightarrow> Inr (with_record dump (be_record ex) (be_response ex), 0)),
         ra_failure = (case r of Inl e \<Rightarrow> map_option (failed_decision_response dump) (failure_response e ad)
                       | Inr _ \<Rightarrow> None),
         ra_authority = ba_authority ad, ra_record = record_decision i dump ad\<rparr>)"

definition decision_adapter ::
  "world \<Rightarrow> ticks \<Rightarrow> inspection \<Rightarrow> (decision_record \<Rightarrow> json_object) \<Rightarrow> bounded_adapter \<Rightarrow> agent_adapter" where
  "decision_adapter w t i dump ad = \<lparr>aa_binds = True, aa_run = bounded_reasoning w t i dump ad\<rparr>"

end
