(* ===== verification/Invocations.thy ===== *)
theory Invocations
  imports Agent_Runtime
begin

text \<open>
  What the one-shot runtime guarantees: when shared state is committed and what a completion
  reports, that a cancelled decision starts nothing more, that a prepared context is the one the
  plan gives its agent, and that a recovery reported as successful is in place.
  \<open>oneshot_step\<close> lets the operations of all threads happen in any order.
\<close>

section \<open>What a completion commits\<close>

definition sql_shared :: "(nat \<Rightarrow> timestamp) \<Rightarrow> nat option \<Rightarrow> bool \<Rightarrow> sql_store shared_store" where
  "sql_shared clock db_fails read_fails =
     \<lparr>sh_snapshot = (\<lambda>a. sql_snapshot a read_fails), sh_apply = (\<lambda>a us. sql_apply a clock db_fails us)\<rparr>"

lemma find_stale_None:
  assumes "find (stale_key ctx us current) keys = None" "(scope, key) \<in> set keys"
  shows "version_in current scope key = version_in (ctx_shared_state ctx) scope key"
    and "expected_version ctx us scope key = version_in (ctx_shared_state ctx) scope key"
proof -
  from assms have "\<not> stale_key ctx us current (scope, key)" by (auto simp: find_None_iff)
  then show "version_in current scope key = version_in (ctx_shared_state ctx) scope key"
    "expected_version ctx us scope key = version_in (ctx_shared_state ctx) scope key"
    by (simp_all add: stale_key_def Let_def)
qed

lemma lifted_Inr [simp]: "passing r = Inr x \<longleftrightarrow> r = Inr x" "in_store z = Inr y \<longleftrightarrow> z = Inr y"
  by (cases r; simp add: passing_def) (cases z; simp add: in_store_def)

lemma in_store_Inl: "in_store z = Inl f \<longleftrightarrow> (\<exists>e. z = Inl e \<and> f = StoreRefused e)"
  by (cases z) (auto simp: in_store_def)

lemma no_pair: "(\<forall>a b. x \<noteq> Some (a, b)) \<longleftrightarrow> x = None"
  by (cases x) auto

lemma last_update_of_key:
  assumes "u \<in> set us"
  shows "\<exists>w\<in>set us. su_scope w = su_scope u \<and> su_key w = su_key u \<and>
    expected_version ctx us (su_scope u) (su_key u) =
      (case su_expected w of Some v \<Rightarrow> v | None \<Rightarrow> version_in (ctx_shared_state ctx) (su_scope w) (su_key w))"
proof -
  let ?al = "rev (map (\<lambda>u. ((su_scope u, su_key u), su_expected u)) us)"
  have "(su_scope u, su_key u) \<in> fst ` set ?al" using assms by (simp add: image_image)
  then obtain e where e: "map_of ?al (su_scope u, su_key u) = Some e"
    by (cases "map_of ?al (su_scope u, su_key u)") (simp_all only: map_of_eq_None_iff, blast)
  then obtain w where "w \<in> set us" "su_scope w = su_scope u" "su_key w = su_key u" "su_expected w = e"
    by (auto dest!: map_of_SomeD)
  with e show ?thesis by (intro bexI [of _ w]) (auto simp: expected_version_def split: option.splits)
qed

lemma check_shared_Inr:
  assumes "check_shared rt p store = Inr u" "osr_store rt = Some sh"
  shows "\<exists>a current. agent_access rt (prep_context p) = Inr a \<and> sh_snapshot sh a store = Inr current
    \<and> (\<forall>(scope, key)\<in>set (touched_keys (prep_response p)). (\<exists>ns. namespace a scope = Inr ns)
        \<and> version_in current scope key = version_in (ctx_shared_state (prep_context p)) scope key
        \<and> expected_version (prep_context p) (resp_updates (prep_response p)) scope key
            = version_in (ctx_shared_state (prep_context p)) scope key)"
proof -
  let ?ctx = "prep_context p" and ?resp = "prep_response p"
  from assms obtain a current ns ms where
    a: "agent_access rt ?ctx = Inr a" and c: "sh_snapshot sh a store = Inr current"
    and ns: "map_res (\<lambda>u. namespace a (su_scope u)) (resp_updates ?resp) = Inr ns"
    and ms: "map_res (\<lambda>x. namespace a (sr_scope x)) (resp_reads ?resp) = Inr ms"
    and f: "find (stale_key ?ctx (resp_updates ?resp) current) (touched_keys ?resp) = None"
    by (auto simp: check_shared_def Let_def bind_res_Inr_iff no_pair split: option.splits)
  have "\<exists>n. namespace a scope = Inr n" if "(scope, key) \<in> set (touched_keys ?resp)" for scope key
  proof -
    from ns have "\<forall>u\<in>set (resp_updates ?resp). \<exists>n. namespace a (su_scope u) = Inr n"
      unfolding map_res_Inr_iff by (blast dest: list_all2_set1)
    moreover from ms have "\<forall>x\<in>set (resp_reads ?resp). \<exists>n. namespace a (sr_scope x) = Inr n"
      unfolding map_res_Inr_iff by (blast dest: list_all2_set1)
    ultimately show ?thesis using that by (auto simp: touched_keys_def)
  qed
  with a c find_stale_None [OF f] show ?thesis by (intro exI [of _ a] exI [of _ current]) blast
qed


lemma versioned_update:
  assumes "u \<in> set us"
  shows "\<exists>w\<in>set (versioned ctx us). su_scope w = su_scope u \<and> su_key w = su_key u
    \<and> su_expected w = Some (expected_version ctx us (su_scope u) (su_key u))"
proof -
  obtain w where w: "w \<in> set us" "su_scope w = su_scope u" "su_key w = su_key u"
    "expected_version ctx us (su_scope u) (su_key u) =
      (case su_expected w of Some v \<Rightarrow> v | None \<Rightarrow> version_in (ctx_shared_state ctx) (su_scope w) (su_key w))"
    using last_update_of_key [OF assms] by blast
  then show ?thesis
    by (intro bexI [of _ "w\<lparr>su_expected := Some (expected_version ctx us (su_scope u) (su_key u))\<rparr>"])
      (auto simp: versioned_def)
qed

text \<open>What a successful commit rests on: the keys the agent read or updates are as it saw them.\<close>

definition sees_current ::
  "access \<Rightarrow> agent_context \<Rightarrow> state_view \<Rightarrow> (state_scope \<times> string) list \<Rightarrow> bool" where
  "sees_current a ctx v keys \<longleftrightarrow>
     (\<forall>(scope, key)\<in>set keys. \<exists>ns. namespace a scope = Inr ns
        \<and> visible_version v (ns, key) = version_in (ctx_shared_state ctx) scope key)"

context readable_store
begin

lemma checked_keys:
  assumes "inv s" "check_shared rt p s = Inr u" "osr_store rt = Some sh" "sh_snapshot sh = snap y"
  shows "\<exists>a. agent_access rt (prep_context p) = Inr a
    \<and> sees_current a (prep_context p) (view s) (touched_keys (prep_response p))"
  using check_shared_Inr [OF assms(2,3)] snap_version [OF assms(1)] assms(4)
  unfolding sees_current_def by fastforce

lemma expected_keys:
  assumes "inv s" "check_shared rt p s = Inr u" "osr_store rt = Some sh"
    and "x \<in> set (resp_updates (prep_response p))"
  shows "expected_version (prep_context p) (resp_updates (prep_response p)) (su_scope x) (su_key x)
    = version_in (ctx_shared_state (prep_context p)) (su_scope x) (su_key x)"
  using check_shared_Inr [OF assms(2,3)] assms(4) unfolding touched_keys_def by fastforce

lemma commit_shared_result:
  assumes "inv s" "inv (others s)" "osr_store rt = Some sh" "sh_snapshot sh = snap y" "sh_apply sh = put x"
    and "commit_shared rt others p s = (Inr cs, s')"
  shows "\<exists>a. agent_access rt (prep_context p) = Inr a
    \<and> committed a (versioned (prep_context p) (resp_updates (prep_response p))) (view (others s)) (view s') cs
    \<and> sees_current a (prep_context p) (view s) (touched_keys (prep_response p))
    \<and> sees_current a (prep_context p) (view (others s))
        (map (\<lambda>u. (su_scope u, su_key u)) (resp_updates (prep_response p)))"
proof -
  let ?ctx = "prep_context p" and ?us = "resp_updates (prep_response p)" and ?rs = "resp_reads (prep_response p)"
  from assms(6) obtain a where a: "agent_access rt ?ctx = Inr a"
    and ap: "apply_shared rt ?ctx a ?us (others s) = (Inr cs, s')"
    and ch: "?us \<noteq> [] \<or> ?rs \<noteq> [] \<Longrightarrow> check_shared rt p s = Inr ()"
    by (auto simp: commit_shared_def Let_def split: sum.splits if_splits)
  have seen: "sees_current a ?ctx (view s) (touched_keys (prep_response p))"
  proof (cases "?us \<noteq> [] \<or> ?rs \<noteq> []")
    case True
    from checked_keys [OF assms(1) ch [OF this] assms(3,4)] a show ?thesis by auto
  next
    case False
    then show ?thesis by (simp add: sees_current_def touched_keys_def)
  qed
  show ?thesis
  proof (cases "?us = []")
    case True
    with ap have "cs = []" "s' = others s" by (auto simp: apply_shared_def)
    with True a seen show ?thesis by (auto simp: committed_def versioned_def sees_current_def)
  next
    case False
    with ap assms(3,5) have pt: "put x a (versioned ?ctx ?us) (others s) = (Inr cs, s')"
      by (auto simp: apply_shared_def split: prod.splits)
    have "\<exists>ns. namespace a (su_scope u) = Inr ns
      \<and> visible_version (view (others s)) (ns, su_key u) = version_in (ctx_shared_state ?ctx) (su_scope u) (su_key u)"
      if u: "u \<in> set ?us" for u
    proof -
      obtain w where w: "w \<in> set (versioned ?ctx ?us)" "su_scope w = su_scope u" "su_key w = su_key u"
        "su_expected w = Some (expected_version ?ctx ?us (su_scope u) (su_key u))"
        using versioned_update [OF u] by blast
      from seen u obtain ns where ns: "namespace a (su_scope u) = Inr ns"
        by (fastforce simp: sees_current_def touched_keys_def)
      with w(2,3) have "target_key a w = (ns, su_key u)" by (simp add: target_key_def)
      with checked_update [OF assms(2) pt w(1,4)] ns expected_keys [OF assms(1) ch assms(3) u] False
      show ?thesis by auto
    qed
    then have "sees_current a ?ctx (view (others s)) (map (\<lambda>u. (su_scope u, su_key u)) ?us)"
      by (auto simp: sees_current_def)
    with a seen put_Inr [OF assms(2) pt] show ?thesis by blast
  qed
qed

lemma commit_shared_refused:
  assumes "inv (others s)" "osr_store rt = Some sh" "sh_apply sh = put x"
    and "commit_shared rt others p s = (Inl f, s')"
  shows "view s' \<in> {view s, view (others s)}"
  using assms put_Inl [OF assms(1)]
  by (auto simp: commit_shared_def apply_shared_def Let_def in_store_Inl split: sum.splits if_splits prod.splits)

end


section \<open>What a completion returns\<close>

lemma release_store [simp]: "oss_store (release_authority agent ref s) = oss_store s"
  by (auto simp: release_authority_def split: option.splits)

lemma release_authorities [simp]: "oss_authorities (release_authority agent ref s) = oss_authorities s"
  by (auto simp: release_authority_def split: option.splits)

lemma release_active: "oss_active (release_authority agent (Some n) s) agent = Some d \<Longrightarrow> acd_authority d \<noteq> n"
  by (auto simp: release_authority_def split: option.splits if_splits)

lemma checked_Inr [simp]: "checked r = Inr x \<longleftrightarrow> r = Inr x"
  by (cases r) (simp_all add: checked_def)

lemma new_invocation_result_same: "new_invocation_result r = Inr x \<Longrightarrow> x = r"
  by (auto simp: new_invocation_result_def split: if_splits)

lemma new_invocation_result_actions:
  "new_invocation_result r = Inr r \<Longrightarrow> new_invocation_result (with_actions rs r) = Inr (with_actions rs r)"
  by (auto simp: new_invocation_result_def with_actions_def split: if_splits)

lemma finished_result_Inr:
  assumes "finished_result q t tm resp status i rs cs = Inr res"
  shows "new_invocation_result res = Inr res" "inv_status res = status" "inv_action_results res = rs"
    "inv_state_changes res = cs" "inv_invocation_id res = ctx_invocation_id (osp_context q)" "inv_issue res = i"
  using assms new_invocation_result_same by (fastforce simp: finished_result_def Let_def)+

lemma outcome_result_Inr:
  assumes "outcome_result q t tm resp rs cs = Inr res"
  shows "new_invocation_result res = Inr res" "inv_action_results res = rs" "inv_state_changes res = cs"
    "inv_invocation_id res = ctx_invocation_id (osp_context q)"
    "inv_status res = (case find (\<lambda>r. ar_status r \<noteq> ActionSucceeded) rs of
        None \<Rightarrow> InvocationSucceeded
      | Some r \<Rightarrow> if ar_status r = ActionRejected then InvocationRejected else InvocationFailed)"
  using assms by (auto simp: outcome_result_def finished_result_Inr split: option.splits)

text \<open>The result of a completion as far as it follows from the actions and the shared state.\<close>

definition reports :: "preparation \<Rightarrow> action_result list \<Rightarrow> state_change list \<Rightarrow> invocation_result \<Rightarrow> bool" where
  "reports q rs cs res \<longleftrightarrow>
     new_invocation_result res = Inr res \<and> inv_action_results res = rs \<and> inv_state_changes res = cs
     \<and> inv_invocation_id res = ctx_invocation_id (osp_context q)
     \<and> (inv_status res = InvocationSucceeded \<longrightarrow> (\<forall>r\<in>set rs. ar_status r = ActionSucceeded))"

lemma close_invocation_Inr:
  assumes "close_invocation t q tm rs s = (Inr res, q', s')"
  shows "reports q rs (osp_changes q) res" "s' = release_authority (ctx_agent_id (osp_context q)) (osp_authority q) s"
proof -
  obtain resp c where rec: "record_results q (authority_at q s) rs = (resp, c)" by fastforce
  let ?q = "q\<lparr>osp_response := resp\<rparr>"
  from assms rec have s': "s' = release_authority (ctx_agent_id (osp_context q)) (osp_authority q) s"
    by (auto simp: close_invocation_def return_result_def Let_def split: sum.splits option.splits)
  have "reports q rs (osp_changes q) res"
  proof (cases c)
    case None
    with assms rec have "outcome_result ?q t tm resp rs (osp_changes q) = Inr res"
      by (auto simp: close_invocation_def return_result_def Let_def split: sum.splits)
    from outcome_result_Inr [OF this] show ?thesis
      by (auto simp: reports_def find_None_iff split: option.splits if_splits)
  next
    case (Some e)
    with assms rec have "finished_result ?q t tm resp InvocationFailed (Some \<lparr>issue_code = e, issue_target = None\<rparr>)
        rs (osp_changes q) = Inr res"
      by (auto simp: close_invocation_def return_result_def Let_def split: sum.splits)
    from finished_result_Inr [OF this] show ?thesis by (simp add: reports_def)
  qed
  with s' show "reports q rs (osp_changes q) res" "s' = release_authority (ctx_agent_id (osp_context q)) (osp_authority q) s"
    by auto
qed

lemma close_invocation_store:
  "close_invocation t q tm rs s = (r, q', s') \<Longrightarrow> oss_store s' = oss_store s \<and> oss_authorities s' = oss_authorities s"
  by (auto simp: close_invocation_def return_result_def Let_def split: sum.splits prod.splits)

text \<open>The ways a completion can go.\<close>

lemma complete_prepared_stages:
  assumes "complete_prepared rt t others p q rs s = (r, q', s')"
  obtains (stopped) e where "r = Inl e" "s' = s"
  | (unsuccessful) tm where "list_ex (\<lambda>x. ar_status x \<noteq> ActionSucceeded) rs"
      "close_invocation t (q\<lparr>osp_action_total := total_action_seconds t q\<rparr>) tm rs s = (r, q', s')"
  | (successful) tm where "\<forall>x\<in>set rs. ar_status x = ActionSucceeded"
      "after_actions rt t others p (q\<lparr>osp_action_total := total_action_seconds t q\<rparr>) tm rs s = (r, q', s')"
  using assms
  by (auto simp: complete_prepared_def Let_def list_ex_iff split: sum.splits if_splits)

lemma refused_return:
  assumes "return_result q (map_sum id (with_actions rs) (finished_result q t tm resp status i [] [])) s = (r, s')"
    and "status \<noteq> InvocationSucceeded"
  shows "oss_store s' = oss_store s \<and> oss_authorities s' = oss_authorities s
    \<and> (\<forall>res. r = Inr res \<longrightarrow> reports q rs [] res \<and> inv_status res \<noteq> InvocationSucceeded
        \<and> s' = release_authority (ctx_agent_id (osp_context q)) (osp_authority q) s)"
proof (cases "finished_result q t tm resp status i [] []")
  case (Inl x)
  with assms show ?thesis by (auto simp: return_result_def)
next
  case (Inr res)
  note f = finished_result_Inr [OF this]
  from assms Inr have "r = Inr (with_actions rs res)"
    "s' = release_authority (ctx_agent_id (osp_context q)) (osp_authority q) s"
    by (auto simp: return_result_def)
  with f new_invocation_result_actions [OF f(1)] assms(2) show ?thesis
    by (auto simp: reports_def with_actions_def)
qed

lemma after_actions_cases:
  assumes "after_actions rt t others p q tm rs s = (r, q', s')"
  obtains (committed) cs store where "commit_shared rt others p (oss_store s) = (Inr cs, store)"
      "close_invocation t (q\<lparr>osp_changes := cs\<rparr>) tm rs (s\<lparr>oss_store := store\<rparr>) = (r, q', s')"
  | (refused) f store where "commit_shared rt others p (oss_store s) = (Inl f, store)" "oss_store s' = store"
      "oss_authorities s' = oss_authorities s"
      "\<And>res. r = Inr res \<Longrightarrow> reports q rs [] res \<and> inv_status res \<noteq> InvocationSucceeded
         \<and> s' = release_authority (ctx_agent_id (osp_context q)) (osp_authority q) (s\<lparr>oss_store := store\<rparr>)"
proof -
  obtain c store where c: "commit_shared rt others p (oss_store s) = (c, store)" by fastforce
  show thesis
  proof (cases c)
    case (Inr cs)
    with assms c committed show ?thesis by (auto simp: after_actions_def)
  next
    case (Inl f)
    show ?thesis
    proof (cases "shared_error f")
      case None
      with assms c Inl refused show ?thesis by (auto simp: after_actions_def Let_def)
    next
      case (Some e)
      obtain code conflict where "e = (code, conflict)" by (cases e)
      with assms c Inl Some have "return_result q (map_sum id (with_actions rs) (finished_result q t tm (osp_response q)
          (if conflict then InvocationRejected else InvocationFailed)
          (Some \<lparr>issue_code = code, issue_target = None\<rparr>) [] [])) (s\<lparr>oss_store := store\<rparr>) = (r, s')"
        by (auto simp: after_actions_def Let_def split: prod.splits)
      from refused_return [OF this] have "oss_store s' = store" "oss_authorities s' = oss_authorities s"
        "\<And>res. r = Inr res \<Longrightarrow> reports q rs [] res \<and> inv_status res \<noteq> InvocationSucceeded
         \<and> s' = release_authority (ctx_agent_id (osp_context q)) (osp_authority q) (s\<lparr>oss_store := store\<rparr>)" by auto
      with c Inl refused show ?thesis by blast
    qed
  qed
qed

lemma reports_cong:
  "osp_context q = osp_context q' \<Longrightarrow> reports q rs cs res = reports q' rs cs res"
  by (simp add: reports_def)

text \<open>What is reported and what becomes of the store.\<close>

definition changes_accounted ::
  "(state_failure + state_change list) \<times> 's \<Rightarrow> action_result list \<Rightarrow> 's \<Rightarrow> 's \<Rightarrow> invocation_result \<Rightarrow> bool" where
  "changes_accounted commit rs before after res \<longleftrightarrow>
     (if \<forall>r\<in>set rs. ar_status r = ActionSucceeded
      then (case commit of
              (Inr cs, store) \<Rightarrow> inv_state_changes res = cs \<and> after = store
            | (Inl _, store) \<Rightarrow>
                inv_state_changes res = [] \<and> after = store \<and> inv_status res \<noteq> InvocationSucceeded)
      else inv_state_changes res = [] \<and> after = before \<and> inv_status res \<noteq> InvocationSucceeded)"

lemma completion_result:
  assumes "complete_prepared rt t others p q rs s = (Inr res, q', s')" "osp_changes q = []"
  shows "reports q rs (inv_state_changes res) res
    \<and> changes_accounted (commit_shared rt others p (oss_store s)) rs (oss_store s) (oss_store s') res
    \<and> oss_active s' = oss_active (release_authority (ctx_agent_id (osp_context q)) (osp_authority q) s)"
  using assms(1)
proof (cases rule: complete_prepared_stages)
  case (unsuccessful tm)
  note c = close_invocation_Inr [OF this(2)]
  then have r: "reports q rs [] res" using assms(2) by (simp add: reports_def)
  moreover have "\<not> (\<forall>x\<in>set rs. ar_status x = ActionSucceeded)" using unsuccessful(1) by (auto simp: list_ex_iff)
  ultimately show ?thesis using c(2) by (auto simp: reports_def changes_accounted_def)
next
  case (successful tm)
  from successful(2) show ?thesis
  proof (cases rule: after_actions_cases)
    case (committed cs store)
    note c = close_invocation_Inr [OF this(2)]
    then have r: "reports q rs cs res" by (simp add: reports_def)
    with c(2) committed(1) successful(1) show ?thesis
      by (simp add: changes_accounted_def release_authority_def reports_def split: option.splits)
  next
    case (refused f store)
    from refused(4) [OF refl] have "reports q rs [] res" "inv_status res \<noteq> InvocationSucceeded"
      "s' = release_authority (ctx_agent_id (osp_context q)) (osp_authority q) (s\<lparr>oss_store := store\<rparr>)"
      by (auto simp: reports_def)
    with refused(1) successful(1) show ?thesis
      by (simp add: changes_accounted_def release_authority_def reports_def split: option.splits)
  qed
qed auto

lemma sql_shared_store:
  "sh_snapshot (sql_shared clock f g) = sql_snap g" "sh_apply (sql_shared clock f g) = sql_put (clock, f)"
  by (simp_all add: sql_shared_def sql_snap_def sql_put_def fun_eq_iff)

section \<open>Cancelled decisions\<close>

definition new_oneshot_state :: "'s \<Rightarrow> 's oneshot_state" where
  "new_oneshot_state store = \<lparr>oss_store = store, oss_authorities = [], oss_active = (\<lambda>_. None)\<rparr>"

text \<open>The operations of the runtime, in the order in which the threads that use it make them.\<close>

inductive oneshot_step :: "'s oneshot_runtime \<Rightarrow> 's oneshot_state \<Rightarrow> 's oneshot_state \<Rightarrow> bool" for rt where
  os_prepare: "prepare_agent rt t inv_id run agent intent coord s = (r, s') \<Longrightarrow> oneshot_step rt s s'"
| os_execute: "execute_prepared rt t p q a s = (calls, r, q', s') \<Longrightarrow> oneshot_step rt s s'"
| os_complete: "complete_prepared rt t others p q rs s = (r, q', s') \<Longrightarrow> oneshot_step rt s s'"
| os_cancel: "cancel_decision agent s = (found, s') \<Longrightarrow> oneshot_step rt s s'"
| os_store: "oneshot_step rt s (s\<lparr>oss_store := store\<rparr>)"

definition active_valid :: "'s oneshot_state \<Rightarrow> bool" where
  "active_valid s \<longleftrightarrow> (\<forall>agent d. oss_active s agent = Some d \<longrightarrow> acd_authority d < length (oss_authorities s))"

text \<open>Authorities are only added, and a revoked one stays as it is.\<close>

definition authorities_kept :: "'s oneshot_state \<Rightarrow> 's oneshot_state \<Rightarrow> bool" where
  "authorities_kept s s' \<longleftrightarrow>
     length (oss_authorities s) \<le> length (oss_authorities s')
     \<and> (\<forall>n<length (oss_authorities s). au_revocation (oss_authorities s ! n) \<noteq> None
          \<longrightarrow> oss_authorities s' ! n = oss_authorities s ! n)
     \<and> (active_valid s \<longrightarrow> active_valid s')"

lemma authorities_kept_refl: "authorities_kept s s"
  by (simp add: authorities_kept_def)

lemma authorities_kept_trans: "authorities_kept s u \<Longrightarrow> authorities_kept u v \<Longrightarrow> authorities_kept s v"
  unfolding authorities_kept_def by (metis order_less_le_trans order_trans)

lemma authorities_kept_same:
  "oss_authorities s' = oss_authorities s \<Longrightarrow> oss_active s' = oss_active s \<Longrightarrow> authorities_kept s s'"
  by (simp add: authorities_kept_def active_valid_def)

lemma release_kept: "authorities_kept s (release_authority agent ref s)"
  by (auto simp: authorities_kept_def active_valid_def release_authority_def split: option.splits if_splits)

lemma put_authority_kept:
  assumes "au_revocation (oss_authorities s ! n) \<noteq> None \<Longrightarrow> a = oss_authorities s ! n"
  shows "authorities_kept s (put_authority n a s)"
proof -
  have "(oss_authorities s)[n := a] ! m = oss_authorities s ! m" if "au_revocation (oss_authorities s ! m) \<noteq> None" for m
    using assms that by (cases "m = n") auto
  then show ?thesis by (simp add: authorities_kept_def put_authority_def active_valid_def)
qed

lemma open_authority_kept: "authorities_kept s (open_authority binds agent inv_id a s)"
  by (auto simp: authorities_kept_def open_authority_def Let_def active_valid_def nth_append less_SucI)

lemma put_own_kept:
  assumes "length (oss_authorities s) \<le> n" "authorities_kept s u"
  shows "authorities_kept s (put_authority n a u)"
  using assms by (auto simp: authorities_kept_def put_authority_def active_valid_def)

lemma conclude_kept: "conclude_reasoning t agent ctx ref r s = (res, s') \<Longrightarrow> authorities_kept s s'"
  by (auto simp: conclude_reasoning_def release_kept authorities_kept_refl split: sum.splits)

lemma reason_kept: "reason_about rt t agent d ctx s = (r, s') \<Longrightarrow> authorities_kept s s'"
proof -
  assume r: "reason_about rt t agent d ctx s = (r, s')"
  have own: "authorities_kept s (case x of None \<Rightarrow> u | Some a \<Rightarrow> if b then put_authority (length (oss_authorities s)) a u else u)"
    if "authorities_kept s u" for x b u
    using that by (auto simp: put_own_kept split: option.splits)
  have conclude: "authorities_kept s s'" if "conclude_reasoning t agent ctx ref z u = (r, s')" "authorities_kept s u" for ref z u
    using authorities_kept_trans [OF that(2) conclude_kept [OF that(1)]] .
  show "authorities_kept s s'"
  proof (cases "osr_adapter rt d")
    case (Inl e)
    with r show ?thesis by (auto simp: reason_about_def intro: conclude authorities_kept_refl)
  next
    case (Inr ad)
    show ?thesis
    proof (cases "decision_authority rt (ptk_deadline t) agent (ctx_coordination ctx)")
      case None
      with r Inr show ?thesis by (auto simp: reason_about_def intro: conclude authorities_kept_refl)
    next
      case (Some a)
      let ?z = "aa_run ad ctx (if aa_binds ad then Some a else None)"
      let ?s = "open_authority (aa_binds ad) agent (ctx_invocation_id ctx) a s"
      from r Inr Some have "conclude_reasoning t agent ctx (Some (length (oss_authorities s))) ?z
          (case ra_authority ?z of None \<Rightarrow> ?s
           | Some a \<Rightarrow> if aa_binds ad then put_authority (length (oss_authorities s)) a ?s else ?s) = (r, s')"
        by (simp add: reason_about_def Let_def)
      from conclude [OF this own [OF open_authority_kept]] show ?thesis .
    qed
  qed
qed

lemma prepare_kept: "prepare_agent rt t inv_id run agent intent coord s = (r, s') \<Longrightarrow> authorities_kept s s'"
  by (auto simp: prepare_agent_def authorities_kept_refl split: sum.splits dest: reason_kept)

lemma try_start_revoked: "au_revocation a \<noteq> None \<Longrightarrow> try_start k a = (False, a)"
  by (simp add: try_start_def)

lemma execute_kept: "execute_prepared rt t p q a s = (calls, r, q', s') \<Longrightarrow> authorities_kept s s'"
  unfolding execute_prepared_def
  by (auto simp: authorities_kept_refl try_start_revoked intro!: put_authority_kept
      split: sum.splits option.splits prod.splits bool.splits)

lemma return_kept: "return_result q r s = (r', s') \<Longrightarrow> authorities_kept s s'"
  by (auto simp: return_result_def authorities_kept_refl release_kept split: sum.splits)

lemma close_kept: "close_invocation t q tm rs s = (r, q', s') \<Longrightarrow> authorities_kept s s'"
  by (auto simp: close_invocation_def Let_def split: prod.splits dest: return_kept)

lemma store_kept: "authorities_kept (s\<lparr>oss_store := store\<rparr>) s' \<Longrightarrow> authorities_kept s s'"
  by (simp add: authorities_kept_def active_valid_def)

lemma after_actions_kept: "after_actions rt t others p q tm rs s = (r, q', s') \<Longrightarrow> authorities_kept s s'"
  by (auto simp: after_actions_def Let_def authorities_kept_same split: sum.splits prod.splits option.splits
      dest!: close_kept return_kept intro: store_kept)

lemma completion_kept:
  assumes "complete_prepared rt t others p q rs s = (r, q', s')"
  shows "authorities_kept s s'"
  using assms
  by (cases rule: complete_prepared_stages) (auto simp: authorities_kept_refl dest: close_kept after_actions_kept)

lemma cancel_kept: "cancel_decision agent s = (found, s') \<Longrightarrow> authorities_kept s s'"
  by (auto simp: cancel_decision_def Let_def authorities_kept_refl revoke_keeps(3) intro!: put_authority_kept
      split: option.splits)

lemma oneshot_step_kept: "oneshot_step rt s s' \<Longrightarrow> authorities_kept s s'"
proof (induction rule: oneshot_step.induct)
  case (os_store s store)
  then show ?case by (simp add: authorities_kept_same)
qed (auto dest: prepare_kept execute_kept completion_kept cancel_kept)

lemma oneshot_steps_kept: "(oneshot_step rt)\<^sup>*\<^sup>* s s' \<Longrightarrow> authorities_kept s s'"
  by (induction rule: rtranclp_induct) (auto intro: authorities_kept_refl authorities_kept_trans oneshot_step_kept)


lemma new_oneshot_active: "active_valid (new_oneshot_state store)"
  by (simp add: active_valid_def new_oneshot_state_def)

lemma cancelled_revokes:
  assumes "cancel_decision agent s = (True, s')" "oss_active s agent = Some d" "active_valid s"
  shows "au_revocation (oss_authorities s' ! acd_authority d) \<noteq> None" "acd_authority d < length (oss_authorities s')"
  using assms revoke_keeps(4) by (auto simp: cancel_decision_def put_authority_def Let_def active_valid_def)

lemma checked_result_Inr: "checked_result r = Inr x \<longleftrightarrow> new_action_result r = Inr x"
  by (cases "new_action_result r") (simp_all add: checked_result_def)

lemma own_result_Inr: "own_result ctx a status code now = Inr r \<Longrightarrow> ar_status r = status"
  by (auto simp: own_result_def checked_result_Inr plain_result_def split: if_splits dest!: new_action_result_wf)

lemma execute_revoked:
  assumes e: "execute_prepared rt t p q a s = (calls, r, q', s')" and n: "osp_authority q = Some n"
    and "au_revocation (oss_authorities s ! n) \<noteq> None"
  shows "calls = [] \<and> (\<forall>res. r = Inr res \<longrightarrow> ar_status res = ActionFailed)
    \<and> oss_authorities s' = oss_authorities s"
proof (cases "prepared_state p (Some q)")
  case (Inl x)
  with e show ?thesis by (auto simp: execute_prepared_def)
next
  case (Inr x)
  note t = try_start_revoked [OF assms(3), of "atk_start t"]
  from e Inr n t have "calls = []" "s' = put_authority n (oss_authorities s ! n) s"
    "r = own_result (prep_context p) a ActionFailed
         (if au_revocation (oss_authorities s ! n) = Some Cancelled then ''agent.bounded-decision.cancelled''
          else ''agent.bounded-decision.timeout'') (atk_refused_at t)"
    by (simp_all add: execute_prepared_def)
  then show ?thesis using own_result_Inr by (auto simp: put_authority_def)
qed

section \<open>The context of a preparation\<close>

lemma new_agent_context_same: "new_agent_context c = Inr x \<Longrightarrow> x = c"
  by (auto simp: new_agent_context_def split: if_splits)

lemma observe_one_Inr:
  "observe_one rt run inst x found = Inr o1 \<Longrightarrow> set (map fst o1) = insert x (set (map fst found))"
  by (clarsimp simp: observe_one_def Let_def bind_res_Inr_iff dom_update split: if_splits)

lemma observe_all_names:
  assumes "fold_res (observe_one rt run inst) names found = Inr obs"
  shows "set (map fst obs) = set (map fst found) \<union> set names"
  using assms
proof (induction names arbitrary: found)
  case (Cons x xs)
  from Cons.prems obtain o1 where "observe_one rt run inst x found = Inr o1"
    "fold_res (observe_one rt run inst) xs o1 = Inr obs" by (auto split: sum.splits)
  with Cons.IH [OF this(2)] observe_one_Inr [OF this(1)] show ?case by simp
qed simp

lemma context_for_Inr:
  assumes "context_for d inv_id run intent now obs shared coord = Inr ctx"
  shows "new_agent_context ctx = Inr ctx" "ctx_agent_id ctx = ai_id (xd_instance d)" "ctx_run_id ctx = run"
    "ctx_observations ctx = obs" "scope_matches ctx (xd_instance d)"
proof -
  let ?c = "\<lparr>ctx_invocation_id = inv_id, ctx_run_id = run, ctx_agent_id = ai_id (xd_instance d),
         ctx_deployment = ai_deployment (xd_instance d), ctx_layer = at_layer (ai_attachment (xd_instance d)),
         ctx_custom_layer = at_custom_layer (ai_attachment (xd_instance d)),
         ctx_target_kind = at_target_kind (ai_attachment (xd_instance d)),
         ctx_targets = at_targets (ai_attachment (xd_instance d)), ctx_capabilities = ai_capabilities (xd_instance d),
         ctx_observations = obs, ctx_shared_state = shared, ctx_coordination = coord,
         ctx_intent = intent, ctx_priority = ai_priority (xd_instance d), ctx_invoked_at = now\<rparr>"
  have "new_agent_context ?c = Inr ctx" using assms by (simp add: context_for_def Let_def)
  moreover from new_agent_context_same [OF this] have c: "ctx = ?c" .
  ultimately show "new_agent_context ctx = Inr ctx" by simp
  show "ctx_agent_id ctx = ai_id (xd_instance d)" "ctx_run_id ctx = run" "ctx_observations ctx = obs"
    "scope_matches ctx (xd_instance d)"
    by (simp_all add: c scope_matches_def)
qed

lemma build_context_Inr:
  assumes "build_context rt now inv_id run agent intent coord store = Inr (d, ctx)"
  shows "catalog_resolve (osr_catalog rt) agent = Inr d"
    "\<exists>info. osr_inspect rt run = Inr info \<and> ri_id info = run \<and> ri_state info = Running
      \<and> ri_plan_digest info = cat_digest (osr_catalog rt)"
    "set (map fst (ctx_observations ctx)) = set (ai_observes (xd_instance d))"
    "new_agent_context ctx = Inr ctx" "ctx_agent_id ctx = ai_id (xd_instance d)" "ctx_run_id ctx = run"
    "scope_matches ctx (xd_instance d)"
proof -
  from assms obtain info obs a shared where d: "catalog_resolve (osr_catalog rt) agent = Inr d"
    and i: "osr_inspect rt run = Inr info" "ri_id info = run" "ri_state info = Running"
      "ri_plan_digest info = cat_digest (osr_catalog rt)"
    and o: "fold_res (observe_one rt run (xd_instance d)) (ai_observes (xd_instance d)) [] = Inr obs"
    and c: "context_for d inv_id run intent now obs shared coord = Inr ctx"
    by (auto simp: build_context_def bind_res_Inr_iff observe_all_def split: if_splits)
  show "catalog_resolve (osr_catalog rt) agent = Inr d" by (rule d)
  show "\<exists>info. osr_inspect rt run = Inr info \<and> ri_id info = run \<and> ri_state info = Running
      \<and> ri_plan_digest info = cat_digest (osr_catalog rt)" using i by blast
  show "set (map fst (ctx_observations ctx)) = set (ai_observes (xd_instance d))"
    using observe_all_names [OF o] context_for_Inr(4) [OF c] by simp
  show "new_agent_context ctx = Inr ctx" "ctx_agent_id ctx = ai_id (xd_instance d)" "ctx_run_id ctx = run"
    "scope_matches ctx (xd_instance d)" using context_for_Inr [OF c] by simp_all
qed

lemma conclude_Ready:
  assumes "conclude_reasoning t agent ctx ref r s = (Inr (Ready p q), s')"
  shows "prep_context p = ctx" "osp_context q = ctx" "osp_response q = prep_response p" "osp_changes q = []"
    "osp_authority q = ref" "s' = s"
  using assms by (auto simp: conclude_reasoning_def split: sum.splits)

lemma reason_concludes:
  assumes "reason_about rt t agent d ctx s = (r, s')"
  obtains ref z u where "conclude_reasoning t agent ctx ref z u = (r, s')" "oss_store u = oss_store s"
proof (cases "osr_adapter rt d")
  case (Inl e)
  with assms that show ?thesis by (simp add: reason_about_def)
next
  case (Inr ad)
  show ?thesis
  proof (cases "decision_authority rt (ptk_deadline t) agent (ctx_coordination ctx)")
    case None
    with assms Inr that show ?thesis by (simp add: reason_about_def)
  next
    case (Some a)
    let ?z = "aa_run ad ctx (if aa_binds ad then Some a else None)"
    let ?s = "open_authority (aa_binds ad) agent (ctx_invocation_id ctx) a s"
    let ?u = "case ra_authority ?z of None \<Rightarrow> ?s
           | Some a \<Rightarrow> if aa_binds ad then put_authority (length (oss_authorities s)) a ?s else ?s"
    have "oss_store ?u = oss_store s"
      by (simp add: open_authority_def put_authority_def Let_def split: option.splits)
    moreover from assms Inr Some have "conclude_reasoning t agent ctx (Some (length (oss_authorities s))) ?z ?u = (r, s')"
      by (simp add: reason_about_def Let_def)
    ultimately show ?thesis using that by blast
  qed
qed

lemma prepare_Ready:
  assumes "prepare_agent rt t inv_id run agent intent coord s = (Inr (Ready p q), s')"
  obtains d where "build_context rt (ptk_started_at t) inv_id run agent intent coord (oss_store s) = Inr (d, prep_context p)"
    "prepared_state p (Some q) = Inr q" "osp_changes q = []" "oss_store s' = oss_store s"
proof -
  from assms obtain d ctx where d: "build_context rt (ptk_started_at t) inv_id run agent intent coord (oss_store s) = Inr (d, ctx)"
    and r: "reason_about rt t agent d ctx s = (Inr (Ready p q), s')"
    by (auto simp: prepare_agent_def split: sum.splits)
  from r obtain ref z u where "conclude_reasoning t agent ctx ref z u = (Inr (Ready p q), s')" "oss_store u = oss_store s"
    by (rule reason_concludes)
  note z = conclude_Ready [OF this(1)] this(2)
  show ?thesis by (rule that [of d]) (use z d in \<open>simp_all add: prepared_state_def\<close>)
qed


lemma new_oneshot_runtime_Inr:
  assumes "new_oneshot_runtime digest agents pol snapshot parts = Inr rt"
  obtains sn where "snapshot = Some sn" "new_catalog digest agents pol (Some sn) = Inr (osr_catalog rt)"
    "eng_catalog (osr_engine rt) = osr_catalog rt" "cat_digest (osr_catalog rt) = digest"
  using assms
  by (auto simp: new_oneshot_runtime_def new_catalog_def bind_res_Inr_iff split: option.splits if_splits)

section \<open>Recoveries that are not in place\<close>

lemma bundle_revoked [simp]: "ba_bundle (revoke_bound x ad) = ba_bundle ad"
  by (simp add: revoke_bound_def)

lemma bundle_others [simp]: "ba_bundle (others_revoke xs ad) = ba_bundle ad"
  unfolding others_revoke_def by (induction xs arbitrary: ad) simp_all

lemma bundle_retained [simp]: "ba_bundle (retain_failure ctx t reason phase native late selected ad) = ba_bundle ad"
  by (simp add: retain_failure_def)

lemma bundle_assembled: "assemble w t ctx a ad = Inr (state, ad') \<Longrightarrow> ba_bundle ad' = ba_bundle ad"
  by (auto simp: assemble_def Let_def bind_res_Inr_iff split: if_splits)

lemma bundle_late: "refuse_late ctx t c v phase selected r a ad = (x, ad') \<Longrightarrow> ba_bundle ad' = ba_bundle ad"
  by (auto simp: refuse_late_def Let_def split: prod.splits if_splits)

lemma bundle_inferred: "infer w t ctx dl ad = (x, ad') \<Longrightarrow> ba_bundle ad' = ba_bundle ad"
  by (auto simp: infer_def Let_def dest!: bundle_late split: if_splits sum.splits prod.splits option.splits)

lemma bundle_noted [simp]: "ba_bundle (note_evidence e ad) = ba_bundle ad"
  by (simp add: note_evidence_def)

lemma bundle_rechecked:
  assumes "recheck_evidence w expired run ad = (e, ad')"
  shows "ba_bundle ad' = ba_bundle ad"
proof (cases "expired \<or> \<not> ba_substrate ad")
  case True
  with assms show ?thesis by (simp add: recheck_evidence_def del: recheck_fields)
next
  case False
  with assms show ?thesis
    by (cases "fold_res (refresh_one w ad run) (from_keys (map snd (ca_inputs (ba_agent ad)))) []")
      (auto simp: recheck_evidence_def Let_def simp del: recheck_fields)
qed

lemma bundle_admitted:
  assumes "admit_recovery w t ctx dl r ad = (Inr u, ad')"
  shows "ba_bundle ad' = ba_bundle ad"
proof (cases "cr_choice r = ''install_recovery''")
  case False
  with assms show ?thesis by (simp add: admit_recovery_def)
next
  case True
  obtain e ad1 where e: "recheck_evidence w (dl - tk_recheck t \<le> 0) (ctx_run_id ctx) ad = (e, ad1)" by fastforce
  let ?ad = "others_revoke (w_others w DuringRecheck) ad1"
  have ad1: "ba_bundle ?ad = ba_bundle ad" using bundle_rechecked [OF e] by simp
  show ?thesis
  proof (cases "ba_authority ?ad")
    case None
    with assms True e have "ad' = ?ad" by (simp add: admit_recovery_def split: if_splits)
    with ad1 show ?thesis by (simp only:)
  next
    case (Some a)
    obtain x ad2 where x: "refuse_late ctx t (tk_rechecked t) (tk_revalidated t) ''reconciliation'' (cr_choice r) r a ?ad
        = (x, ad2)" by fastforce
    with assms True e Some have "ad' = ad2" by (cases x) (simp_all add: admit_recovery_def split: if_splits)
    with bundle_late [OF x] ad1 show ?thesis by simp
  qed
qed

lemma proposed_record:
  assumes "propose ctx t r ad = (Inr ex, ad')"
  shows "ba_bundle ad' = ba_bundle ad" "ba_record ad' = Some (be_record ex)" "dr_correctness (be_record ex)"
    "map_of (resp_metadata (be_response ex)) ''selectedChoice'' = Some (JStr (dr_selected (be_record ex)))"
  using assms
  by (auto simp: propose_def decided_record_def Let_def contract_raised_def bind_res_Inr_iff new_agent_response_def
      split: sum.splits option.splits if_splits)

lemma run_bounded_record:
  assumes "run_bounded w t ctx ad = (Inr ex, ad')"
  shows "ba_bundle ad' = ba_bundle ad" "ba_record ad' = Some (be_record ex)" "dr_correctness (be_record ex)"
    "map_of (resp_metadata (be_response ex)) ''selectedChoice'' = Some (JStr (dr_selected (be_record ex)))"
proof -
  obtain r ad1 ad2 ad3 a state where st: "assemble w t ctx a ad = Inr (state, ad1)"
    "infer w t ctx (au_deadline a) ad1 = (Inr r, ad2)" "admit_recovery w t ctx (au_deadline a) r ad2 = (Inr (), ad3)"
    "propose ctx t r ad3 = (Inr ex, ad')"
    by (rule run_bounded_Inr [OF assms])
  note p = proposed_record [OF st(4)]
  show "ba_bundle ad' = ba_bundle ad"
    using p(1) bundle_admitted [OF st(3)] bundle_inferred [OF st(2)] bundle_assembled [OF st(1)] by simp
  show "ba_record ad' = Some (be_record ex)" "dr_correctness (be_record ex)"
    "map_of (resp_metadata (be_response ex)) ''selectedChoice'' = Some (JStr (dr_selected (be_record ex)))"
    using p(2-4) by auto
qed

lemma record_decision_Inr:
  assumes "record_decision i dump ad au rs = Inr u"
  obtains d ad' where "record_action_results i rs (ad\<lparr>ba_authority := au\<rparr>) = (Inr d, ad')"
    "u = map_option (execution_record dump) d"
  using assms
  by (cases "record_action_results i rs (ad\<lparr>ba_authority := au\<rparr>)") (auto simp: record_decision_def split: sum.splits)

lemma recorded_correctness:
  assumes "record_action_results i rs ad = (Inr u, ad')" "all_succeeded rs" "rs \<noteq> []"
    and "ba_record ad = Some d0" "dr_correctness d0"
  obtains d where "u = Some d" "dr_selected d = dr_selected d0" "dr_correctness d \<longrightarrow> dr_succeeded d"
  using assms by (auto simp: record_action_results_def recorded_results_def Let_def split: if_splits)

lemma correctness_failure_none:
  assumes "updated_response resp (execution_record dump d) = Inr (er, resp')" "correctness_failure er = Inr None"
  shows "dr_correctness d \<or> dr_succeeded d"
proof -
  let ?runtime = "JObj [(''boundedDecision'',
         JObj ((if dr_correctness d then [] else [(''correctnessFailure'', recovery_failure)]) @ dump d))]"
  from assms(1) have "map_of er ''runtime'' = Some ?runtime"
    "map_of er ''outcome'' = Some (JStr (if dr_succeeded d then ''succeeded'' else ''failed''))"
    by (auto simp: updated_response_def bind_res_Inr_iff Let_def execution_record_def get_or_def map_of_update)
  with assms(2) show ?thesis
    by (auto simp: correctness_failure_def get_or_def object_of_def recovery_failure_def split: if_splits)
qed

text \<open>A recording that reports no failure of a recovery has seen it in place.\<close>

lemma recorded_recovery:
  assumes "record_results q au rs = (resp, None)" "osp_record q = record_decision i dump ad" "all_succeeded rs" "rs \<noteq> []"
    and "ba_record ad = Some d0" "dr_correctness d0" "dr_selected d0 = ''install_recovery''" "ba_bundle ad \<noteq> []"
  shows "i = InspectorStates (replicate (length (ba_bundle ad)) ''present'')"
proof -
  from assms(1) obtain u where u: "osp_record q au rs = Inr u"
    by (auto simp: record_results_def Let_def split: sum.splits)
  let ?ad = "ad\<lparr>ba_authority := au\<rparr>"
  obtain x ad' where x: "record_action_results i rs ?ad = (Inr x, ad')" "u = map_option (execution_record dump) x"
    by (rule record_decision_Inr [OF u [unfolded assms(2)]])
  have d0: "ba_record ?ad = Some d0" using assms(5) by simp
  obtain d where d: "x = Some d" "dr_selected d = dr_selected d0" "dr_correctness d \<longrightarrow> dr_succeeded d"
    by (rule recorded_correctness [OF x(1) assms(3,4) d0 assms(6)])
  from assms(1) u x(2) d(1) obtain er resp' where "updated_response (osp_response q) (execution_record dump d) = Inr (er, resp')"
    "correctness_failure er = Inr None"
    by (auto simp: record_results_def Let_def split: sum.splits prod.splits)
  from correctness_failure_none [OF this] d(3) have "dr_succeeded d" by blast
  with verified_result [OF x(1) [unfolded d(1)]] d(2) assms(7,8) show ?thesis by simp
qed

lemma close_succeeded:
  assumes "close_invocation t q tm rs s = (Inr res, q', s')" "inv_status res = InvocationSucceeded"
  shows "\<exists>au resp. record_results q au rs = (resp, None)" "all_succeeded rs"
proof -
  obtain resp c where rec: "record_results q (authority_at q s) rs = (resp, c)" by fastforce
  have "c = None"
  proof (cases c)
    case (Some e)
    with assms(1) rec have "finished_result (q\<lparr>osp_response := resp\<rparr>) t tm resp InvocationFailed
        (Some \<lparr>issue_code = e, issue_target = None\<rparr>) rs (osp_changes q) = Inr res"
      by (auto simp: close_invocation_def return_result_def Let_def split: sum.splits)
    from finished_result_Inr(2) [OF this] assms(2) show ?thesis by simp
  qed
  with rec show "\<exists>au resp. record_results q au rs = (resp, None)" by blast
  show "all_succeeded rs"
    using close_invocation_Inr(1) [OF assms(1)] assms(2) by (simp add: reports_def all_succeeded_def list_all_iff)
qed

lemma record_results_cong: "osp_record q = osp_record q' \<Longrightarrow> osp_response q = osp_response q' \<Longrightarrow>
    record_results q au rs = record_results q' au rs"
  by (simp add: record_results_def)

lemma completed_succeeded:
  assumes "complete_prepared rt t others p q rs s = (Inr res, q', s')" "inv_status res = InvocationSucceeded"
  shows "\<exists>au resp. record_results q au rs = (resp, None)" "all_succeeded rs"
proof -
  have "(\<exists>au resp. record_results q au rs = (resp, None)) \<and> all_succeeded rs"
    using assms(1)
  proof (cases rule: complete_prepared_stages)
    case (unsuccessful tm)
    from close_succeeded [OF this(2) assms(2)] show ?thesis by (simp add: record_results_def)
  next
    case (successful tm)
    from successful(2) show ?thesis
    proof (cases rule: after_actions_cases)
      case (committed cs store)
      from close_succeeded [OF this(2) assms(2)] show ?thesis by (simp add: record_results_def)
    next
      case (refused f store)
      from refused(4) [OF refl] assms(2) show ?thesis by simp
    qed
  qed simp
  then show "\<exists>au resp. record_results q au rs = (resp, None)" "all_succeeded rs" by auto
qed

text \<open>A prepared bounded decision holds the record of a run of its adapter.\<close>

lemma prepared_decision:
  assumes "prepare_agent rt pt inv_id run agent intent coord s = (Inr (Ready p q), s')"
    and "catalog_resolve (osr_catalog rt) agent = Inr d" "osr_adapter rt d = Inr (decision_adapter w t i dump ad)"
  obtains ctx au ex ad' where "run_bounded w t ctx (case au of None \<Rightarrow> ad | Some a \<Rightarrow> bind_authority a ad) = (Inr ex, ad')"
    "osp_record q = record_decision i dump ad'" "prep_response p = with_record dump (be_record ex) (be_response ex)"
proof -
  from assms(1) obtain d' ctx where d': "build_context rt (ptk_started_at pt) inv_id run agent intent coord (oss_store s) = Inr (d', ctx)"
    and r: "reason_about rt pt agent d' ctx s = (Inr (Ready p q), s')"
    by (auto simp: prepare_agent_def split: sum.splits)
  from build_context_Inr(1) [OF d'] assms(2) have "d' = d" by simp
  with r assms(3) obtain ref au u where "conclude_reasoning pt agent ctx ref (bounded_reasoning w t i dump ad ctx au) u
      = (Inr (Ready p q), s')"
    by (cases "decision_authority rt (ptk_deadline pt) agent (ctx_coordination ctx)")
      (auto simp: reason_about_def decision_adapter_def Let_def)
  moreover obtain x ad' where x: "run_bounded w t ctx (case au of None \<Rightarrow> ad | Some a \<Rightarrow> bind_authority a ad) = (x, ad')"
    by fastforce
  ultimately obtain ex where "x = Inr ex" "osp_record q = record_decision i dump ad'"
    "prep_response p = with_record dump (be_record ex) (be_response ex)"
    by (auto simp: conclude_reasoning_def bounded_reasoning_def split: sum.splits)
  with x that show ?thesis by blast
qed

section \<open>A sample invocation\<close>

text \<open>The agent of the sample plan with shared state; \<open>bounded\<close> makes it a bounded decision.\<close>

definition sharing_instance :: agent_instance where
  "sharing_instance = sample_instance\<lparr>ai_memory := (ai_memory sample_instance)\<lparr>mem_shared := Some ([RunScope], 5)\<rparr>\<rparr>"

definition sharing_response :: agent_response where
  "sharing_response = \<lparr>resp_reads = [], resp_message = None, resp_proposals = [engine_sample_proposal],
     resp_delegations = [], resp_updates = [sample_set ''k'' None], resp_metadata = []\<rparr>"

definition sharing_parts :: "bool \<Rightarrow> sql_store oneshot_runtime" where
  "sharing_parts bounded =
     \<lparr>osr_catalog = sample_catalog, osr_agents = [],
      osr_scenario = (\<lambda>_. if bounded then Some sample_scenario else None),
      osr_inspect = (\<lambda>r. Inr \<lparr>ri_id = r, ri_substrate = ''fake'', ri_plan_digest = ''d'', ri_state = Running,
        ri_started_at = 0, ri_stopped_at = None, ri_issue = None, ri_operation = OutcomeSucceeded, ri_effects = Changed,
        ri_cleanup = \<lparr>cl_status = CleanupUnknown, cl_remaining = [], cl_unknown = [], cl_evidence = [], cl_gaps = []\<rparr>\<rparr>),
      osr_observe = (\<lambda>r q. Inr \<lparr>or_run_id = r, or_query = q, or_observed_at = 0, or_values = []\<rparr>),
      osr_adapter = (\<lambda>_. Inr \<lparr>aa_binds = bounded, aa_run = (\<lambda>_ a. \<lparr>ra_outcome = Inr (sharing_response, 0),
        ra_failure = None, ra_authority = a, ra_record = (\<lambda>_ _. Inr None)\<rparr>)\<rparr>),
      osr_engine = sample_engine True, osr_store = Some (sql_shared (\<lambda>_. 9) None False)\<rparr>"

definition sharing_runtime :: "bool \<Rightarrow> raised + sql_store oneshot_runtime" where
  "sharing_runtime bounded =
     new_oneshot_runtime ''d'' [sharing_instance] sample_policy_check (Some sample_snapshot) (sharing_parts bounded)"

definition sharing_prepare_ticks :: prepare_ticks where
  "sharing_prepare_ticks = \<lparr>ptk_started_at = 0, ptk_started = 0, ptk_context = 0, ptk_context_end = 1, ptk_reasoning = 1,
     ptk_deadline = 1, ptk_reasoning_end = 2, ptk_total = 2, ptk_failed_at = 2\<rparr>"

definition stocked :: "sql_store oneshot_state" where
  "stocked = new_oneshot_state (empty_sql\<lparr>sq_rows := [sample_row]\<rparr>)"

definition sharing_ready :: "bool \<Rightarrow> (raised + preparing) \<times> sql_store oneshot_state" where
  "sharing_ready bounded =
     prepare_agent (projr (sharing_runtime bounded)) sharing_prepare_ticks ''i1'' ''r'' ''a1'' ''go'' None stocked"

definition sharing_prepared :: "bool \<Rightarrow> prepared \<times> preparation" where
  "sharing_prepared bounded = (case projr (fst (sharing_ready bounded)) of Ready p q \<Rightarrow> (p, q))"

definition sharing_action_ticks :: action_ticks where
  "sharing_action_ticks = \<lparr>atk_begin = 2, atk_start = 2, atk_end = 3, atk_results = sample_clock_readings, atk_refused_at = 3\<rparr>"

definition sharing_complete_ticks :: complete_ticks where
  "sharing_complete_ticks = \<lparr>ctk_begin = 3, ctk_end = 4, ctk_total = 5, ctk_completed_at = 5\<rparr>"

lemma sharing_runtime_built: "\<not> isl (sharing_runtime False)" "\<not> isl (sharing_runtime True)"
  by code_simp+

lemma sharing_is_ready:
  "\<not> isl (fst (sharing_ready False)) \<and> (case projr (fst (sharing_ready False)) of Ready p q \<Rightarrow> True | _ \<Rightarrow> False)"
  "\<not> isl (fst (sharing_ready True)) \<and> (case projr (fst (sharing_ready True)) of Ready p q \<Rightarrow> True | _ \<Rightarrow> False)"
  by code_simp+

definition sharing_completed :: "(raised + invocation_result) \<times> preparation \<times> sql_store oneshot_state" where
  "sharing_completed = (case sharing_prepared False of (p, q) \<Rightarrow>
     complete_prepared (projr (sharing_runtime False)) sharing_complete_ticks id p q [sample_success] stocked)"

lemma sharing_commits:
  "map_option en_version (sql_view (oss_store (snd (snd sharing_completed))) (''run:r'', ''k'')) = Some 2"
  "map_sum id inv_status (fst sharing_completed) = Inr InvocationSucceeded"
  by code_simp+

definition sharing_cancelled :: "sql_store oneshot_state" where
  "sharing_cancelled = snd (cancel_decision ''a1'' (snd (sharing_ready True)))"

lemma sharing_cancels:
  "fst (cancel_decision ''a1'' (snd (sharing_ready True)))"
  "oss_active (snd (sharing_ready True)) ''a1'' = Some \<lparr>acd_authority = 0, acd_invocation = ''i1''\<rparr>"
  "osp_authority (snd (sharing_prepared True)) = Some 0" "osp_changes (snd (sharing_prepared False)) = []"
  by code_simp+

lemma new_oneshot_runtime_store: "new_oneshot_runtime digest agents pol snapshot parts = Inr rt \<Longrightarrow> osr_store rt = osr_store parts"
  by (auto simp: new_oneshot_runtime_def bind_res_Inr_iff split: if_splits)

lemma sharing_built: "sharing_runtime False = Inr (projr (sharing_runtime False))" "sharing_runtime True = Inr (projr (sharing_runtime True))"
  using sharing_runtime_built by simp_all

lemma sharing_store: "osr_store (projr (sharing_runtime False)) = Some (sql_shared (\<lambda>_. 9) None False)"
  using new_oneshot_runtime_store [OF sharing_built(1) [unfolded sharing_runtime_def]]
  by (simp add: sharing_runtime_def sharing_parts_def)

lemma stocked_inv: "sql_inv (oss_store stocked)"
  by (simp add: stocked_def new_oneshot_state_def sql_inv_def rows_ok_def alist_of_def mem_inv_def sample_row_def stored_of_def)

lemma stocked_version: "map_option en_version (sql_view (oss_store stocked) (''run:r'', ''k'')) = Some 1"
  by code_simp

lemma ready_parts:
  assumes "\<not> isl (fst x) \<and> (case projr (fst x) of Ready p q \<Rightarrow> True | _ \<Rightarrow> False)"
  obtains p q where "x = (Inr (Ready p q), snd x)" "(case projr (fst x) of Ready p q \<Rightarrow> (p, q)) = (p, q)"
proof (cases x)
  case (Pair r s)
  with assms that show ?thesis by (cases r) (auto split: preparing.splits)
qed

text \<open>The sample recovery of \<open>Bounded\<close>, run by the agent of the sample plan.\<close>

definition recovery_runtime :: "sql_store oneshot_runtime" where
  "recovery_runtime = (projr (sharing_runtime True))\<lparr>osr_store := None,
     osr_adapter := (\<lambda>_. Inr (decision_adapter (sample_world ''install_recovery'' True) sample_ticks
       (InspectorStates [''present'', ''present'']) (\<lambda>_. []) sample_adapter))\<rparr>"

definition recovery_ready :: "(raised + preparing) \<times> sql_store oneshot_state" where
  "recovery_ready = prepare_agent recovery_runtime (sharing_prepare_ticks\<lparr>ptk_deadline := 9\<rparr>) ''i1'' ''r'' ''a1'' ''go'' None stocked"

definition recovery_prepared :: "prepared \<times> preparation" where
  "recovery_prepared = (case projr (fst recovery_ready) of Ready p q \<Rightarrow> (p, q))"

definition recovery_completed :: "(raised + invocation_result) \<times> preparation \<times> sql_store oneshot_state" where
  "recovery_completed = (case recovery_prepared of (p, q) \<Rightarrow>
     complete_prepared recovery_runtime sharing_complete_ticks id p q [sample_step_result] (snd recovery_ready))"

lemma recovery_is_ready:
  "\<not> isl (fst recovery_ready) \<and> (case projr (fst recovery_ready) of Ready p q \<Rightarrow> True | _ \<Rightarrow> False)"
  "map_sum id inv_status (fst recovery_completed) = Inr InvocationSucceeded"
  "map_of (resp_metadata (prep_response (fst recovery_prepared))) ''selectedChoice'' = Some (JStr ''install_recovery'')"
  "ba_bundle sample_adapter \<noteq> []" "\<not> isl (catalog_resolve (osr_catalog recovery_runtime) ''a1'')"
  by code_simp+

section \<open>Properties\<close>

text \<open>C11. The shared state of an invocation is committed only after all of its actions succeeded, and
  then all of its updates at once: every key it read or updates was at the version its context
  showed when it was checked, and the updated keys still were when they were written, whatever
  other threads did in between.\<close>

theorem shared_state_commits_last:
  assumes "osr_store rt = Some (sql_shared clock f g)" "sql_inv (oss_store s)" "sql_inv (others (oss_store s))"
    and "complete_prepared rt t others p q rs s = (r, q', s')"
  shows "sql_view (oss_store s') \<in> {sql_view (oss_store s), sql_view (others (oss_store s))}
    \<or> (\<forall>x\<in>set rs. ar_status x = ActionSucceeded)
      \<and> (\<exists>a cs. agent_access rt (prep_context p) = Inr a
         \<and> committed a (versioned (prep_context p) (resp_updates (prep_response p)))
             (sql_view (others (oss_store s))) (sql_view (oss_store s')) cs
         \<and> sees_current a (prep_context p) (sql_view (oss_store s)) (touched_keys (prep_response p))
         \<and> sees_current a (prep_context p) (sql_view (others (oss_store s)))
             (map (\<lambda>u. (su_scope u, su_key u)) (resp_updates (prep_response p))))"
  using assms(4)
proof (cases rule: complete_prepared_stages)
  case (unsuccessful tm)
  then show ?thesis using close_invocation_store by fastforce
next
  case (successful tm)
  from successful(2) show ?thesis
  proof (cases rule: after_actions_cases)
    case (committed cs store)
    from close_invocation_store [OF committed(2)] have "oss_store s' = store" by simp
    with sql_read.commit_shared_result [where sh = "sql_shared clock f g", OF assms(2,3,1) sql_shared_store committed(1)] successful(1)
    show ?thesis by blast
  next
    case (refused f' store)
    from sql_read.commit_shared_refused [where sh = "sql_shared clock f g", OF assms(3,1) sql_shared_store(2) refused(1)]
    show ?thesis by (simp add: refused(2))
  qed
qed simp

text \<open>C20. The result of a completed invocation keeps the contract and has exactly the results of its
  proposals, in order. When every action succeeded, the shared state is committed and the result
  lists exactly the changes of this commit, also when it is a failure because the outcome could
  not be recorded; a refused commit is not a success. When an action did not succeed, nothing is
  committed, the result lists no changes and is not a success. In the end its authority is active
  no more.\<close>

theorem completion_is_accounted:
  assumes "complete_prepared rt t others p q rs s = (Inr res, q', s')" "osp_changes q = []"
  shows "new_invocation_result res = Inr res \<and> inv_action_results res = rs
    \<and> map ar_request_id rs = map prop_id (resp_proposals (prep_response p))
    \<and> (if \<forall>x\<in>set rs. ar_status x = ActionSucceeded
       then (case commit_shared rt others p (oss_store s) of
               (Inr cs, store) \<Rightarrow> inv_state_changes res = cs \<and> oss_store s' = store
             | (Inl _, store) \<Rightarrow>
                 inv_state_changes res = [] \<and> oss_store s' = store \<and> inv_status res \<noteq> InvocationSucceeded)
       else inv_state_changes res = [] \<and> oss_store s' = oss_store s \<and> inv_status res \<noteq> InvocationSucceeded)
    \<and> (\<forall>n d. osp_authority q = Some n \<longrightarrow> oss_active s' (ctx_agent_id (prep_context p)) = Some d
        \<longrightarrow> acd_authority d \<noteq> n)"
proof -
  have p: "prepared_state p (Some q) = Inr q" "map ar_request_id rs = map prop_id (resp_proposals (osp_response q))"
    using assms(1) by (auto simp: complete_prepared_def prepared_state_def split: if_splits)
  then have c: "osp_context q = prep_context p" "osp_response q = prep_response p"
    by (auto simp: prepared_state_def split: if_splits)
  from completion_result [OF assms] have r: "reports q rs (inv_state_changes res) res"
    and a: "changes_accounted (commit_shared rt others p (oss_store s)) rs (oss_store s) (oss_store s') res"
    and act: "oss_active s' = oss_active (release_authority (ctx_agent_id (osp_context q)) (osp_authority q) s)" by auto
  have "acd_authority d \<noteq> n"
    if "osp_authority q = Some n" "oss_active s' (ctx_agent_id (prep_context p)) = Some d" for n d
    using that act c(1) release_active by metis
  then show ?thesis using r a [unfolded changes_accounted_def] p(2) c(2) by (simp add: reports_def)
qed

text \<open>C17. Once a decision is cancelled none of its actions starts: whatever the threads do afterwards,
  executing one makes no call of the engine, fails, and leaves the starts as they were.\<close>

theorem cancelled_decisions_never_start:
  assumes "(oneshot_step rt)\<^sup>*\<^sup>* (new_oneshot_state store) s" "oss_active s agent = Some d"
    and "cancel_decision agent s = (True, s1)" "(oneshot_step rt)\<^sup>*\<^sup>* s1 s2"
    and "osp_authority q = Some (acd_authority d)" "execute_prepared rt t p q a s2 = (calls, r, q', s3)"
  shows "calls = [] \<and> (\<forall>res. r = Inr res \<longrightarrow> ar_status res = ActionFailed)
    \<and> oss_authorities s3 ! acd_authority d = oss_authorities s1 ! acd_authority d"
proof -
  have "active_valid s" using oneshot_steps_kept [OF assms(1)] new_oneshot_active [of store] by (simp add: authorities_kept_def)
  note c = cancelled_revokes [OF assms(3,2) this]
  then have "oss_authorities s2 ! acd_authority d = oss_authorities s1 ! acd_authority d"
    using oneshot_steps_kept [OF assms(4)] by (simp add: authorities_kept_def)
  with c execute_revoked [OF assms(6,5)] show ?thesis by simp
qed

text \<open>C34. An agent of the plan that is prepared gets a context the capability engine accepts as its own:
  of its instance in the plan, for a running run of this very plan, with exactly the
  observations it declares; and preparing it leaves the shared state alone.\<close>

theorem prepared_contexts_resolve:
  assumes "new_oneshot_runtime digest agents pol snapshot parts = Inr rt"
    and "prepare_agent rt t inv_id run agent intent coord s = (Inr (Ready p q), s')"
  shows "(\<exists>a\<in>set agents. ai_id a = agent \<and> set (map fst (ctx_observations (prep_context p))) = set (ai_observes a)
      \<and> (\<exists>d. xd_instance d = a \<and> resolve_context (osr_engine rt) (prep_context p) = Inr d))
    \<and> (\<exists>info. osr_inspect rt run = Inr info \<and> ri_state info = Running \<and> ri_plan_digest info = digest)
    \<and> ctx_run_id (prep_context p) = run \<and> oss_store s' = oss_store s"
proof -
  obtain sn where c: "new_catalog digest agents pol (Some sn) = Inr (osr_catalog rt)"
    "eng_catalog (osr_engine rt) = osr_catalog rt" "cat_digest (osr_catalog rt) = digest"
    using new_oneshot_runtime_Inr [OF assms(1)] by metis
  obtain d where b: "build_context rt (ptk_started_at t) inv_id run agent intent coord (oss_store s) = Inr (d, prep_context p)"
    and s: "oss_store s' = oss_store s"
    using prepare_Ready [OF assms(2)] by metis
  note ctx = build_context_Inr [OF b]
  note plan = catalog_lookup_is_the_plan [OF c(1)]
  from plan ctx(1) have "agent \<in> ai_id ` set agents" by (metis sum.distinct(1))
  then obtain a where a: "a \<in> set agents" "ai_id a = agent" by blast
  with plan ctx(1) have d: "xd_instance d = a" by (auto simp: resolves_to_def)
  with a ctx c(2) have "resolve_context (osr_engine rt) (prep_context p) = Inr d"
    by (simp add: resolve_context_def)
  with a d ctx s c(3) show ?thesis by fastforce
qed

text \<open>C8. A bounded recovery whose invocation is reported as successful is in place: all of its actions
  succeeded and the inspection after them found every step of its bundle, or else the
  invocation is reported as failed.\<close>

theorem successful_recoveries_are_in_place:
  assumes "prepare_agent rt pt inv_id run agent intent coord s = (Inr (Ready p q0), s0)"
    and "catalog_resolve (osr_catalog rt) agent = Inr d" "osr_adapter rt d = Inr (decision_adapter w t i dump ad)"
    and "map_of (resp_metadata (prep_response p)) ''selectedChoice'' = Some (JStr ''install_recovery'')"
    and "osp_record q = osp_record q0" "complete_prepared rt ct others p q rs s1 = (Inr res, q', s')"
    and "inv_status res = InvocationSucceeded" "rs \<noteq> []" "ba_bundle ad \<noteq> []"
  shows "(\<forall>x\<in>set rs. ar_status x = ActionSucceeded)
    \<and> i = InspectorStates (replicate (length (ba_bundle ad)) ''present'')"
proof -
  obtain ctx au ex ad' where r: "run_bounded w t ctx (case au of None \<Rightarrow> ad | Some a \<Rightarrow> bind_authority a ad) = (Inr ex, ad')"
    and q: "osp_record q0 = record_decision i dump ad'" "prep_response p = with_record dump (be_record ex) (be_response ex)"
    by (rule prepared_decision [OF assms(1-3)])
  note b = run_bounded_record [OF r]
  have sel: "dr_selected (be_record ex) = ''install_recovery''"
    using assms(4) b(4) by (simp add: q(2) with_record_def map_of_update)
  have same: "ba_bundle ad' = ba_bundle ad" using b(1) by (cases au) (simp_all add: bind_authority_def)
  note c = completed_succeeded [OF assms(6,7)]
  then obtain au' resp where "record_results q au' rs = (resp, None)" by blast
  from recorded_recovery [OF this _ c(2) assms(8) b(2,3) sel] q(1) assms(5,9) same c(2)
  show ?thesis by (simp add: all_succeeded_def list_all_iff)
qed

lemma shared_state_commits_last_witness:
  "\<exists>p r q' s'. p = fst (sharing_prepared False) \<and> sharing_completed = (r, q', s')
     \<and> (\<exists>a. sees_current a (prep_context p) (sql_view (oss_store stocked)) (touched_keys (prep_response p)))"
proof -
  obtain p q where pq: "sharing_prepared False = (p, q)" by fastforce
  obtain r q' s' where c: "sharing_completed = (r, q', s')" by (cases sharing_completed)
  then have "complete_prepared (projr (sharing_runtime False)) sharing_complete_ticks id p q [sample_success] stocked = (r, q', s')"
    by (simp add: sharing_completed_def pq)
  from shared_state_commits_last [OF sharing_store stocked_inv _ this] stocked_inv
  have "sql_view (oss_store s') = sql_view (oss_store stocked)
    \<or> (\<exists>a. sees_current a (prep_context p) (sql_view (oss_store stocked)) (touched_keys (prep_response p)))" by auto
  moreover have "map_option en_version (sql_view (oss_store s') (''run:r'', ''k'')) = Some 2"
    using sharing_commits(1) by (simp add: c)
  ultimately show ?thesis using stocked_version pq c by auto
qed

lemma completion_is_accounted_witness:
  "\<exists>res q' s'. sharing_completed = (Inr res, q', s') \<and> inv_action_results res = [sample_success]
     \<and> commit_shared (projr (sharing_runtime False)) id (fst (sharing_prepared False)) (oss_store stocked)
         = (Inr (inv_state_changes res), oss_store s')"
proof -
  obtain p q where pq: "sharing_prepared False = (p, q)" by fastforce
  obtain r q' s' where c: "sharing_completed = (r, q', s')" by (cases sharing_completed)
  from sharing_commits(2) [unfolded c] obtain res where r: "r = Inr res" "inv_status res = InvocationSucceeded" by (cases r) auto
  with c have "complete_prepared (projr (sharing_runtime False)) sharing_complete_ticks id p q [sample_success] stocked = (Inr res, q', s')"
    by (simp add: sharing_completed_def pq)
  moreover have "ar_status sample_success = ActionSucceeded" by (simp add: sample_success_def)
  ultimately show ?thesis using completion_is_accounted [of "projr (sharing_runtime False)" sharing_complete_ticks id p q
      "[sample_success]" stocked res q' s'] sharing_cancels(4) r c pq
    by (cases "commit_shared (projr (sharing_runtime False)) id p (oss_store stocked)") (auto split: sum.splits)
qed

lemma cancelled_decisions_never_start_witness:
  "\<exists>calls r q' s'. execute_prepared (projr (sharing_runtime True)) sharing_action_ticks (fst (sharing_prepared True))
       (snd (sharing_prepared True)) engine_sample_proposal sharing_cancelled = (calls, r, q', s') \<and> calls = []"
proof -
  obtain p q where pq: "sharing_ready True = (Inr (Ready p q), snd (sharing_ready True))" "sharing_prepared True = (p, q)"
    by (rule ready_parts [OF sharing_is_ready(2)]) (simp add: sharing_prepared_def)
  have s: "(oneshot_step (projr (sharing_runtime True)))\<^sup>*\<^sup>* (new_oneshot_state (empty_sql\<lparr>sq_rows := [sample_row]\<rparr>)) (snd (sharing_ready True))"
    using os_prepare [OF pq(1) [unfolded sharing_ready_def]] by (simp add: sharing_ready_def stocked_def r_into_rtranclp)
  have c: "cancel_decision ''a1'' (snd (sharing_ready True)) = (True, sharing_cancelled)"
    using sharing_cancels(1) by (simp add: sharing_cancelled_def prod_eq_iff)
  obtain calls r q' s' where e: "execute_prepared (projr (sharing_runtime True)) sharing_action_ticks p q engine_sample_proposal
      sharing_cancelled = (calls, r, q', s')" by (rule prod_cases4)
  have "osp_authority q = Some (acd_authority \<lparr>acd_authority = 0, acd_invocation = ''i1''\<rparr>)"
    using sharing_cancels(3) by (simp add: pq(2))
  from cancelled_decisions_never_start [OF s sharing_cancels(2) c rtranclp.rtrancl_refl this e] e pq(2)
  show ?thesis by simp
qed

lemma prepared_contexts_resolve_witness:
  "\<exists>p q s'. sharing_ready True = (Inr (Ready p q), s') \<and> ctx_run_id (prep_context p) = ''r''
     \<and> (\<exists>d. xd_instance d = sharing_instance
          \<and> resolve_context (osr_engine (projr (sharing_runtime True))) (prep_context p) = Inr d)"
proof -
  obtain p q where pq: "sharing_ready True = (Inr (Ready p q), snd (sharing_ready True))"
    by (rule ready_parts [OF sharing_is_ready(2)])
  from prepared_contexts_resolve [OF sharing_built(2) [unfolded sharing_runtime_def] pq [unfolded sharing_ready_def sharing_runtime_def]]
  show ?thesis using pq by (auto simp: sharing_ready_def sharing_runtime_def)
qed

lemma successful_recoveries_are_in_place_witness:
  "\<exists>p q res q' s'. recovery_ready = (Inr (Ready p q), snd recovery_ready) \<and> recovery_completed = (Inr res, q', s')
     \<and> inv_status res = InvocationSucceeded
     \<and> InspectorStates [''present'', ''present''] = InspectorStates (replicate (length (ba_bundle sample_adapter)) ''present'')"
proof -
  obtain p q where pq: "recovery_ready = (Inr (Ready p q), snd recovery_ready)" "recovery_prepared = (p, q)"
    by (rule ready_parts [OF recovery_is_ready(1)]) (simp add: recovery_prepared_def)
  obtain r q' s' where c: "recovery_completed = (r, q', s')" by (cases recovery_completed)
  from recovery_is_ready(2) [unfolded c] obtain res where r: "r = Inr res" "inv_status res = InvocationSucceeded" by (cases r) auto
  with c have fin: "complete_prepared recovery_runtime sharing_complete_ticks id p q [sample_step_result] (snd recovery_ready)
      = (Inr res, q', s')" by (simp add: recovery_completed_def pq(2))
  obtain d where d: "catalog_resolve (osr_catalog recovery_runtime) ''a1'' = Inr d"
    using recovery_is_ready(5) by (cases "catalog_resolve (osr_catalog recovery_runtime) ''a1''") auto
  have a: "osr_adapter recovery_runtime d = Inr (decision_adapter (sample_world ''install_recovery'' True) sample_ticks
       (InspectorStates [''present'', ''present'']) (\<lambda>_. []) sample_adapter)" by (simp add: recovery_runtime_def)
  have m: "map_of (resp_metadata (prep_response p)) ''selectedChoice'' = Some (JStr ''install_recovery'')"
    using recovery_is_ready(3) by (simp add: pq(2))
  from successful_recoveries_are_in_place [OF pq(1) [unfolded recovery_ready_def] d a m refl fin r(2) _ recovery_is_ready(4)]
  show ?thesis using pq(1) c r by auto
qed

end
