(* ===== verification/Text.thy ===== *)
theory Text
  imports Topology
begin

text \<open>
  The text functions of Python that the Open vSwitch driver uses: \<open>str.strip\<close>,
  \<open>str.splitlines\<close>, \<open>','.join\<close>, \<open>int(s, 0)\<close> and the formats of integers, on strings of the
  256 characters of Latin-1. The lemmas say what a printed number reads back as and what a
  joined list splits into.
\<close>

section \<open>White space and lines\<close>

text \<open>\<open>str.isspace\<close>, which is also what \<open>\s\<close> matches in a pattern.\<close>

definition blank :: "char \<Rightarrow> bool" where
  "blank c =
     (let n = of_char c :: nat in
      (9 \<le> n \<and> n \<le> 13) \<or> (28 \<le> n \<and> n \<le> 32) \<or> n = 133 \<or> n = 160)"

definition lstrip :: "string \<Rightarrow> string" where
  "lstrip s = dropWhile blank s"

definition strip :: "string \<Rightarrow> string" where
  "strip s = rev (lstrip (rev (lstrip s)))"

definition line_end :: "char \<Rightarrow> bool" where
  "line_end c =
     (let n = of_char c :: nat in
      (10 \<le> n \<and> n \<le> 13) \<or> (28 \<le> n \<and> n \<le> 30) \<or> n = 133)"

fun split_lines :: "string \<Rightarrow> string list" where
  "split_lines [] = []"
| "split_lines (c # s) =
     (if c = CHR 0x0D \<and> take 1 s = [CHR 0x0A] then split_lines s
      else if line_end c then [] # split_lines s
      else (case split_lines s of [] \<Rightarrow> [[c]] | l # ls \<Rightarrow> (c # l) # ls))"

text \<open>\<open>',' .join(parts)\<close> for a separator of one character.\<close>

fun join_with :: "char \<Rightarrow> string list \<Rightarrow> string" where
  "join_with c [] = []"
| "join_with c [p] = p"
| "join_with c (p # q # ps) = p @ c # join_with c (q # ps)"

text \<open>\<open>sub in s\<close> for strings.\<close>

fun has_text :: "string \<Rightarrow> string \<Rightarrow> bool" where
  "has_text sub [] = (sub = [])"
| "has_text sub (c # s) = (take (length sub) (c # s) = sub \<or> has_text sub s)"

section \<open>Integers\<close>

definition digit_of :: "char \<Rightarrow> nat option" where
  "digit_of c =
     (let n = of_char c :: nat in
      if 48 \<le> n \<and> n \<le> 57 then Some (n - 48)
      else if 97 \<le> n \<and> n \<le> 122 then Some (n - 87)
      else if 65 \<le> n \<and> n \<le> 90 then Some (n - 55)
      else None)"

text \<open>Digits of a base with single underscores between them; the flag is whether an underscore or
  the end may follow.\<close>

fun number_in :: "nat \<Rightarrow> nat \<Rightarrow> bool \<Rightarrow> string \<Rightarrow> nat option" where
  "number_in b n go [] = (if go then Some n else None)"
| "number_in b n go (c # s) =
     (if c = CHR ''_'' then (if go then number_in b n False s else None)
      else case digit_of c of
             None \<Rightarrow> None
           | Some d \<Rightarrow> if d < b then number_in b (b * n + d) True s else None)"

definition base_of :: "char \<Rightarrow> nat option" where
  "base_of c =
     (if c = CHR ''x'' \<or> c = CHR ''X'' then Some 16
      else if c = CHR ''o'' \<or> c = CHR ''O'' then Some 8
      else if c = CHR ''b'' \<or> c = CHR ''B'' then Some 2
      else None)"

text \<open>Without a base prefix a number is decimal, and only zero may start with a zero.\<close>

definition plain_number :: "string \<Rightarrow> nat option" where
  "plain_number s =
     (case number_in 10 0 False s of
        None \<Rightarrow> None
      | Some n \<Rightarrow> if take 1 s = ''0'' \<and> n \<noteq> 0 then None else Some n)"

definition unsigned_number :: "string \<Rightarrow> nat option" where
  "unsigned_number s =
     (case s of
        z # x # rest \<Rightarrow>
          (case base_of x of
             None \<Rightarrow> plain_number s
           | Some b \<Rightarrow>
               if z = CHR ''0'' then (if rest = [] then None else number_in b 0 True rest)
               else plain_number s)
      | _ \<Rightarrow> plain_number s)"

text \<open>\<open>int(s, 0)\<close>. Here the separators 28 to 31 are no white space.\<close>

definition int_blank :: "char \<Rightarrow> bool" where
  "int_blank c = (blank c \<and> \<not> (28 \<le> (of_char c :: nat) \<and> (of_char c :: nat) \<le> 31))"

definition int_literal :: "string \<Rightarrow> int option" where
  "int_literal s =
     (let t = rev (dropWhile int_blank (rev (dropWhile int_blank s))) in
      case t of
        [] \<Rightarrow> None
      | c # rest \<Rightarrow>
          if c = CHR ''-'' then map_option (\<lambda>n. - int n) (unsigned_number rest)
          else if c = CHR ''+'' then map_option int (unsigned_number rest)
          else map_option int (unsigned_number t))"

text \<open>The format \<open>#x\<close> of a non-negative integer and \<open>str\<close> of an integer.\<close>

definition hex_text :: "nat \<Rightarrow> string" where
  "hex_text n = ''0x'' @ digits_in 16 n"

definition int_text :: "int \<Rightarrow> string" where
  "int_text i = (if i < 0 then ''-'' @ decimal (nat (- i)) else decimal (nat i))"

section \<open>Facts about white space\<close>

definition trimmed :: "string \<Rightarrow> bool" where
  "trimmed s = (s = [] \<or> (\<not> blank (hd s) \<and> \<not> blank (last s)))"

lemma dropWhile_hd: "s \<noteq> [] \<Longrightarrow> \<not> p (hd s) \<Longrightarrow> dropWhile p s = s"
  by (cases s) auto

lemma strip_trimmed: "trimmed s \<Longrightarrow> strip s = s"
proof (cases "s = []")
  case False
  assume "trimmed s"
  with False have "lstrip s = s" "lstrip (rev s) = rev s"
    by (auto simp: trimmed_def lstrip_def hd_rev intro!: dropWhile_hd)
  then show ?thesis by (simp add: strip_def)
qed (simp add: strip_def lstrip_def)

lemma no_blank_trimmed: "list_all (\<lambda>c. \<not> blank c) s \<Longrightarrow> trimmed s"
  by (cases "s = []") (auto simp: trimmed_def list_all_iff)

lemma strip_no_blank: "list_all (\<lambda>c. \<not> blank c) s \<Longrightarrow> strip s = s"
  by (simp add: no_blank_trimmed strip_trimmed)

section \<open>Facts about joined lists\<close>

lemma split_on_fresh: "c \<notin> set p \<Longrightarrow> split_on c p = [p]"
  by (induction p) auto

lemma split_on_append:
  assumes "c \<notin> set p"
  shows "split_on c (p @ c # s) = p # split_on c s"
  using assms by (induction p) auto

lemma split_on_join:
  assumes "ps \<noteq> []" and "\<And>p. p \<in> set ps \<Longrightarrow> c \<notin> set p"
  shows "split_on c (join_with c ps) = ps"
  using assms by (induction c ps rule: join_with.induct) (auto simp: split_on_fresh split_on_append)

lemma join_with_snoc:
  "join_with c (ps @ [q]) = (if ps = [] then q else join_with c ps @ c # q)"
  by (induction c ps rule: join_with.induct) auto

lemma set_join_with: "x \<in> set (join_with c ps) \<Longrightarrow> x = c \<or> (\<exists>p\<in>set ps. x \<in> set p)"
  by (induction c ps rule: join_with.induct) auto

section \<open>Facts about integers\<close>

text \<open>The printed digits of a base up to 16 are digits of that base, and read back as the number.\<close>

definition digit_in :: "nat \<Rightarrow> char \<Rightarrow> bool" where
  "digit_in b c = (case digit_of c of None \<Rightarrow> False | Some d \<Rightarrow> d < b)"

text \<open>What a digit is not.\<close>

definition ordinary_digit :: "char \<Rightarrow> bool" where
  "ordinary_digit c = (\<not> blank c \<and> c \<notin> set '',_-+=/'')"

lemma code_digit_char: "d < 16 \<Longrightarrow> of_char (digit_char d) = (if d < 10 then 48 + d else 87 + d)"
  by (simp add: digit_char_def)

lemma digit_char_facts:
  assumes "d < 16"
  shows "digit_of (digit_char d) = Some d \<and> ordinary_digit (digit_char d)"
proof
  show "digit_of (digit_char d) = Some d"
    using assms by (simp add: digit_of_def code_digit_char Let_def)
  have "digit_char d \<noteq> c" if "of_char c \<noteq> (if d < 10 then 48 + d else 87 + d)" for c
    using that code_digit_char [OF assms] by auto
  then show "ordinary_digit (digit_char d)"
    using assms by (auto simp: ordinary_digit_def blank_def code_digit_char Let_def)
qed

lemma set_digits_in:
  assumes "2 \<le> b" and "b \<le> 16"
  shows "c \<in> set (digits_in b n) \<Longrightarrow> \<exists>d<b. c = digit_char d"
proof (induction n rule: less_induct)
  case (less n)
  show ?case
  proof (cases "n < b")
    case True
    with less.prems assms show ?thesis by (auto simp: digits_in.simps [of b n])
  next
    case False
    with less.prems assms have "c \<in> set (digits_in b (n div b)) \<or> c = digit_char (n mod b)"
      by (auto simp: digits_in.simps [of b n] split: if_splits)
    then show ?thesis
    proof
      assume "c \<in> set (digits_in b (n div b))"
      moreover from False assms have "n div b < n" by simp
      ultimately show ?thesis by (rule less.IH [rotated])
    next
      assume "c = digit_char (n mod b)"
      moreover from assms have "n mod b < b" by simp
      ultimately show ?thesis by blast
    qed
  qed
qed

lemma digits_in_not_Nil [simp]: "digits_in b n \<noteq> []"
  by (simp add: digits_in.simps [of b n])

lemma number_in_digits:
  assumes "2 \<le> b" and "b \<le> 16"
  shows "number_in b 0 go (digits_in b n @ s) = number_in b n True s"
proof (induction n arbitrary: s rule: less_induct)
  case (less n)
  have one: "number_in b k m (digit_char d # s) = number_in b (b * k + d) True s"
    if "d < b" for k m d s
    using that assms digit_char_facts [of d] by (auto simp: ordinary_digit_def)
  show ?case
  proof (cases "n < b")
    case True
    then show ?thesis by (simp add: digits_in.simps [of b n] one del: number_in.simps)
  next
    case False
    with assms have "n div b < n" by simp
    from less.IH [OF this, of "digit_char (n mod b) # s"] False assms show ?thesis
      by (simp add: digits_in.simps [of b n] one del: number_in.simps)
  qed
qed

lemma number_in_print: "2 \<le> b \<Longrightarrow> b \<le> 16 \<Longrightarrow> number_in b 0 go (digits_in b n) = Some n"
  using number_in_digits [of b go n "[]"] by simp

lemma digits_in_ordinary:
  assumes "2 \<le> b" and "b \<le> 16" and "c \<in> set (digits_in b n)"
  shows "ordinary_digit c"
proof -
  from set_digits_in [OF assms] obtain d where "d < b" "c = digit_char d" by blast
  with assms(2) digit_char_facts [of d] show ?thesis by simp
qed

lemma digits_in_print:
  assumes "2 \<le> b" and "b \<le> 16"
  shows "list_all ordinary_digit (digits_in b n)"
  using digits_in_ordinary [OF assms] by (simp add: list_all_iff)

text \<open>A decimal number starts with zero only if it is zero.\<close>

lemma hd_digits_in:
  assumes "2 \<le> b" and "b \<le> 16" and "n \<noteq> 0"
  shows "\<exists>d. 0 < d \<and> d < b \<and> hd (digits_in b n) = digit_char d"
  using assms(3)
proof (induction n rule: less_induct)
  case (less n)
  show ?case
  proof (cases "n < b")
    case True
    with less.prems show ?thesis by (auto simp: digits_in.simps [of b n])
  next
    case False
    with assms have "n div b < n" "n div b \<noteq> 0" by (auto simp: div_eq_0_iff)
    from less.IH [OF this] False assms show ?thesis by (simp add: digits_in.simps [of b n])
  qed
qed

lemma plain_number_decimal: "plain_number (decimal n) = Some n"
proof (cases "n = 0")
  case True
  have "plain_number (decimal 0) = Some 0" by code_simp
  with True show ?thesis by simp
next
  case False
  then obtain d where d: "0 < d" "d < 10" "hd (decimal n) = digit_char d"
    using hd_digits_in [of 10 n] by (auto simp: decimal_def)
  have "digit_char d \<noteq> CHR ''0''"
    using d code_digit_char [of d] by auto
  with d(3) have "take 1 (decimal n) \<noteq> ''0''" by (cases "decimal n") auto
  then show ?thesis by (simp add: plain_number_def decimal_def number_in_print)
qed

lemma int_literal_unsigned:
  assumes "list_all (\<lambda>c. \<not> blank c) s" and "s \<noteq> []" and "hd s \<noteq> CHR ''-''" and "hd s \<noteq> CHR ''+''"
  shows "int_literal s = map_option int (unsigned_number s)"
proof -
  from assms(1,2) have "\<not> int_blank (hd s)" "\<not> int_blank (hd (rev s))"
    by (simp_all add: int_blank_def list_all_iff hd_rev)
  with assms(2) have "dropWhile int_blank s = s" "dropWhile int_blank (rev s) = rev s"
    by (auto intro: dropWhile_hd)
  with assms(2,3,4) show ?thesis by (cases s) (auto simp: int_literal_def)
qed

lemma ordinary_text:
  assumes "list_all ordinary_digit s" and "s \<noteq> []"
  shows "list_all (\<lambda>c. \<not> blank c) s" and "hd s \<noteq> CHR ''-''" and "hd s \<noteq> CHR ''+''"
  using assms by (cases s; auto simp: ordinary_digit_def list_all_iff)+

lemma int_literal_decimal: "int_literal (decimal n) = Some (int n)"
proof -
  have ordinary: "list_all ordinary_digit (decimal n)" by (simp add: decimal_def digits_in_print)
  have "unsigned_number (decimal n) = plain_number (decimal n)"
  proof (cases "decimal n")
    case Nil
    then show ?thesis by (simp add: unsigned_number_def)
  next
    case (Cons c s)
    show ?thesis
    proof (cases s)
      case (Cons x rest)
      with \<open>decimal n = c # s\<close> have "x \<in> set (decimal n)" by simp
      then obtain d where "d < 10" "x = digit_char d"
        using set_digits_in [of 10 x n] by (auto simp: decimal_def)
      then have "base_of x = None"
        using code_digit_char [of d] by (auto simp: base_of_def)
      with Cons \<open>decimal n = c # s\<close> show ?thesis by (simp add: unsigned_number_def)
    qed (simp add: unsigned_number_def \<open>decimal n = c # s\<close>)
  qed
  then show ?thesis
    using int_literal_unsigned ordinary_text [OF ordinary]
    by (simp add: decimal_def plain_number_decimal [unfolded decimal_def])
qed

lemma int_literal_hex: "int_literal (hex_text n) = Some (int n)"
proof -
  have "list_all (\<lambda>c. \<not> blank c) (hex_text n)"
    using ordinary_text(1) [OF digits_in_print [of 16 n]] by (simp add: hex_text_def blank_def)
  then have "int_literal (hex_text n) = map_option int (unsigned_number (hex_text n))"
    by (rule int_literal_unsigned) (simp_all add: hex_text_def)
  also have "unsigned_number (hex_text n) = Some n"
    by (simp add: unsigned_number_def hex_text_def base_of_def number_in_print)
  finally show ?thesis by simp
qed

lemma decimal_plain: "list_all ordinary_digit (decimal n)"
  by (simp add: decimal_def digits_in_print)

end
