(* ===== verification/Flows.thy ===== *)
theory Flows
  imports Resources Text
begin

text \<open>
  The OpenFlow rules of the Open vSwitch driver
  (\<open>mininet_ai/substrates/mininet_ovs/actions.py\<close>): writing the parameters of a rule as the text
  that \<open>ovs-ofctl\<close> takes (\<open>_flow_expression\<close>), reading a rule back from a flow dump
  (\<open>_parse_flow_expression\<close>, \<open>_parse_flow_dump\<close>), installing and removing a rule, and the
  comparison of the rules of a scenario with what a switch holds
  (\<open>inspect_scenario_actions\<close>).

  Running a command is an argument: it maps the state of the world, the command line, the name of
  the node to run it on and a time limit to what happened and the next state of the world.
  \<open>shown\<close> is \<open>str\<close> on the JSON values whose text is not written out here (floats, arrays and
  objects). An \<open>ActionExecutionError\<close> is its code and status; other exceptions that leave the
  driver are errors of their own.
\<close>

section \<open>Requests, outcomes and errors\<close>

record action_request =
  aq_id :: string
  aq_name :: string
  aq_target :: string
  aq_parameters :: json_object
  aq_timeout :: rat

record action_outcome =
  ao_changed :: bool
  ao_output :: json_object

datatype ovs_error =
    ActionError string action_status
  | NoSuchResource
  | InvalidField string
  | NoActionsField
  | OtherError

definition reject :: ovs_error where
  "reject = ActionError ''runtime.action.invalid-parameters'' ActionRejected"

definition action_failed :: ovs_error where
  "action_failed = ActionError ''runtime.action.failed'' ActionFailed"

definition action_timeout :: ovs_error where
  "action_timeout = ActionError ''runtime.action.timeout'' ActionFailed"

text \<open>\<open>parameters.get(name)\<close> compared with \<open>None\<close>.\<close>

definition parameter :: "string \<Rightarrow> json_object \<Rightarrow> json option" where
  "parameter name ps = (case map_of ps name of Some JNull \<Rightarrow> None | v \<Rightarrow> v)"

section \<open>Writing a rule\<close>

definition flow_integer :: "int \<Rightarrow> json \<Rightarrow> ovs_error + nat" where
  "flow_integer maximum v =
     (let bounded = (\<lambda>i. if 0 \<le> i \<and> i \<le> maximum then Inr (nat i) else Inl reject) in
      case v of
        JInt i \<Rightarrow> bounded i
      | JStr s \<Rightarrow> (case int_literal s of None \<Rightarrow> Inl reject | Some i \<Rightarrow> bounded i)
      | _ \<Rightarrow> Inl reject)"

definition flow_token :: "string \<Rightarrow> bool" where
  "flow_token s =
     (s \<noteq> [] \<and> list_all (\<lambda>c. c \<noteq> CHR 0x00 \<and> c \<noteq> CHR 0x0D \<and> c \<noteq> CHR 0x0A) s)"

definition require_flow_token :: "string \<Rightarrow> ovs_error + string" where
  "require_flow_token s = (if flow_token s then Inr s else Inl reject)"

definition cookie_field :: "json_object \<Rightarrow> ovs_error + string list" where
  "cookie_field ps =
     (case (parameter ''cookie'' ps, parameter ''cookieMask'' ps) of
        (None, Some _) \<Rightarrow> Inl reject
      | (None, None) \<Rightarrow> Inr []
      | (Some c, given_mask) \<Rightarrow>
          bind_res (flow_integer (2 ^ 64 - 1) c)
            (\<lambda>n. case given_mask of
                    None \<Rightarrow> Inr [''cookie='' @ hex_text n]
                  | Some k \<Rightarrow>
                      bind_res (flow_integer (2 ^ 64 - 1) k)
                        (\<lambda>m. Inr [''cookie='' @ hex_text n @ ''/'' @ hex_text m])))"

definition integer_fields :: "(string \<times> string \<times> int) list" where
  "integer_fields =
     [(''table'', ''table'', 254), (''priority'', ''priority'', 65535),
      (''idleTimeout'', ''idle_timeout'', 65535), (''hardTimeout'', ''hard_timeout'', 65535)]"

definition integer_field ::
  "json_object \<Rightarrow> string \<times> string \<times> int \<Rightarrow> ovs_error + string list" where
  "integer_field ps = (\<lambda>(name, field, maximum).
     case map_of ps name of
       None \<Rightarrow> Inr []
     | Some v \<Rightarrow> bind_res (flow_integer maximum v) (\<lambda>n. Inr [field @ ''='' @ decimal n]))"

text \<open>The value in a format string.\<close>

definition shown_text :: "(json \<Rightarrow> string) \<Rightarrow> json \<Rightarrow> string" where
  "shown_text shown v =
     (case v of
        JStr s \<Rightarrow> s
      | JInt i \<Rightarrow> int_text i
      | JBool b \<Rightarrow> (if b then ''True'' else ''False'')
      | JNull \<Rightarrow> ''None''
      | _ \<Rightarrow> shown v)"

definition match_token :: "(json \<Rightarrow> string) \<Rightarrow> string \<times> json \<Rightarrow> ovs_error + string" where
  "match_token shown = (\<lambda>(name, v).
     if name = [] then Inl reject
     else require_flow_token
            (if v = JBool True then name else name @ ''='' @ shown_text shown v))"

definition match_fields :: "(json \<Rightarrow> string) \<Rightarrow> json \<Rightarrow> ovs_error + string list" where
  "match_fields shown m =
     (case m of
        JObj items \<Rightarrow> map_res (match_token shown) (sort_key fst items)
      | JStr s \<Rightarrow> if s = [] then Inr [] else bind_res (require_flow_token s) (\<lambda>t. Inr [t])
      | _ \<Rightarrow> Inl reject)"

definition action_field :: "json_object \<Rightarrow> ovs_error + string list" where
  "action_field ps =
     (case map_of ps ''actions'' of
        Some (JStr a) \<Rightarrow>
          if a = [] then Inl reject
          else bind_res (require_flow_token a) (\<lambda>t. Inr [''actions='' @ t])
      | _ \<Rightarrow> Inl reject)"

definition flow_parameters :: "bool \<Rightarrow> string list" where
  "flow_parameters require_actions =
     [''match'', ''cookie'', ''cookieMask'', ''table'', ''priority'']
     @ (if require_actions then [''actions'', ''idleTimeout'', ''hardTimeout''] else [])"

definition flow_fields ::
  "(json \<Rightarrow> string) \<Rightarrow> json_object \<Rightarrow> bool \<Rightarrow> ovs_error + string list" where
  "flow_fields shown ps require_actions =
     (if \<not> list_all (\<lambda>(k, _). k \<in> set (flow_parameters require_actions)) ps then Inl reject
      else case map_of ps ''match'' of
             None \<Rightarrow> Inl reject
           | Some m \<Rightarrow>
               bind_res (cookie_field ps) (\<lambda>cookie.
               bind_res (map_res (integer_field ps) integer_fields) (\<lambda>numbers.
               bind_res (match_fields shown m) (\<lambda>matches.
               bind_res (if require_actions then action_field ps else Inr []) (\<lambda>actions.
                 Inr (cookie @ concat numbers @ matches @ actions))))))"

definition flow_expression ::
  "(json \<Rightarrow> string) \<Rightarrow> json_object \<Rightarrow> bool \<Rightarrow> ovs_error + string" where
  "flow_expression shown ps require_actions =
     bind_res (flow_fields shown ps require_actions) (\<lambda>fields. Inr (join_with (CHR '','') fields))"

section \<open>Reading a rule\<close>

datatype flow_value = FlowText string | FlowFlag | FlowNumber int

type_synonym flow_rule = "(string \<times> flow_value) list"

text \<open>
  The leftmost match of the pattern: a comma or a space, \<open>actions=\<close> and the rest of the line. The
  text before it and the rest.
\<close>

fun actions_at :: "string \<Rightarrow> (string \<times> string) option" where
  "actions_at [] = None"
| "actions_at (c # s) =
     (if (c = CHR '','' \<or> blank c) \<and> take 8 s = ''actions='' \<and> CHR 0x0A \<notin> set (drop 8 s)
      then Some ([], drop 8 s)
      else map_option (\<lambda>(before, rest). (c # before, rest)) (actions_at s))"

definition ignored_fields :: "string list" where
  "ignored_fields = [''duration'', ''n_packets'', ''n_bytes'', ''idle_age'', ''hard_age'']"

definition read_field :: "string \<Rightarrow> flow_rule \<Rightarrow> flow_rule" where
  "read_field field rule =
     (let token = strip field in
      if token = [] then rule
      else if CHR ''='' \<in> set token then
        (let name = strip (takeWhile (\<lambda>c. c \<noteq> CHR ''='') token);
             text = strip (tl (dropWhile (\<lambda>c. c \<noteq> CHR ''='') token)) in
         if name \<in> set ignored_fields then rule else AList.update name (FlowText text) rule)
      else AList.update token FlowFlag rule)"

definition number_defaults :: "(string \<times> string) list" where
  "number_defaults =
     [(''cookie'', ''0''), (''table'', ''0''), (''priority'', ''32768''), (''idle_timeout'', ''0''),
      (''hard_timeout'', ''0'')]"

definition set_default :: "string \<times> string \<Rightarrow> flow_rule \<Rightarrow> flow_rule" where
  "set_default = (\<lambda>(name, otherwise) rule.
     if map_of rule name = None then AList.update name (FlowText otherwise) rule else rule)"

definition read_number :: "string \<Rightarrow> flow_rule \<Rightarrow> ovs_error + flow_rule" where
  "read_number name rule =
     (case map_of rule name of
        Some (FlowText s) \<Rightarrow>
          (case int_literal s of
             None \<Rightarrow> Inl (InvalidField name)
           | Some i \<Rightarrow> Inr (AList.update name (FlowNumber i) rule))
      | _ \<Rightarrow> Inl (InvalidField name))"

definition parse_flow_expression :: "string \<Rightarrow> ovs_error + flow_rule" where
  "parse_flow_expression s =
     (case actions_at (strip s) of
        None \<Rightarrow> Inr []
      | Some (before, rest) \<Rightarrow>
          (let rule = fold read_field (split_on (CHR '','') before)
                        [(''actions'', FlowText (strip rest))] in
           fold_res read_number (map fst number_defaults) (fold set_default number_defaults rule)))"

fun parse_lines :: "string list \<Rightarrow> ovs_error + flow_rule list" where
  "parse_lines [] = Inr []"
| "parse_lines (line # ls) =
     (if has_text ''cookie='' line \<and> \<not> has_text ''actions='' line then Inl NoActionsField
      else bind_res (parse_flow_expression line) (\<lambda>rule.
           bind_res (parse_lines ls) (\<lambda>rules.
             Inr (if rule = [] then rules else rule # rules))))"

definition parse_flow_dump :: "string \<Rightarrow> ovs_error + flow_rule list" where
  "parse_flow_dump output = parse_lines (split_lines output)"

text \<open>Equality of two dictionaries.\<close>

definition same_dict :: "flow_rule \<Rightarrow> flow_rule \<Rightarrow> bool" where
  "same_dict a b =
     (list_all (\<lambda>k. map_of a k = map_of b k) (map fst a)
      \<and> list_all (\<lambda>k. map_of a k = map_of b k) (map fst b))"

definition rule_metadata :: "string list" where
  "rule_metadata = [''actions'', ''cookie'', ''table'', ''priority'', ''idle_timeout'', ''hard_timeout'']"

definition match_part :: "flow_rule \<Rightarrow> flow_rule" where
  "match_part rule = filter (\<lambda>(k, _). k \<notin> set rule_metadata) rule"

definition same_rule_identity :: "flow_rule \<Rightarrow> flow_rule \<Rightarrow> bool" where
  "same_rule_identity actual expected =
     ((case map_of expected ''cookie'' of
         None \<Rightarrow> False
       | Some c \<Rightarrow> c \<noteq> FlowNumber 0 \<and> map_of actual ''cookie'' = Some c)
      \<or> same_dict (match_part actual) (match_part expected))"

section \<open>Commands\<close>

record command_result =
  cr_out :: string
  cr_err :: string
  cr_code :: int

text \<open>A command ends with a result, runs out of time, or cannot be run.\<close>

datatype command_outcome = CommandDone command_result | CommandTimeout | CommandBroken

type_synonym 'w executor = "'w \<Rightarrow> string list \<Rightarrow> string option \<Rightarrow> rat \<Rightarrow> command_outcome \<times> 'w"

definition run_command ::
  "'w executor \<Rightarrow> string list \<Rightarrow> string option \<Rightarrow> rat option \<Rightarrow> 'w
   \<Rightarrow> (ovs_error + command_result) \<times> 'w" where
  "run_command exec argv on limit w =
     (case exec w argv on (case limit of None \<Rightarrow> 10 | Some t \<Rightarrow> if t = 0 then 10 else t) of
        (CommandTimeout, w') \<Rightarrow> (Inl action_timeout, w')
      | (CommandBroken, w') \<Rightarrow> (Inl action_failed, w')
      | (CommandDone r, w') \<Rightarrow> (if cr_code r = 0 then Inr r else Inl action_failed, w'))"

text \<open>The dictionary of planned resources, and the resource of an action.\<close>

definition resource_table :: "planned_resource list \<Rightarrow> string \<Rightarrow> planned_resource option" where
  "resource_table rs = map_of (rev (map (\<lambda>r. (res_name r, r)) rs))"

definition require_kind ::
  "planned_resource list \<Rightarrow> string \<Rightarrow> resource_kind \<Rightarrow> ovs_error + planned_resource" where
  "require_kind rs name kind =
     (case resource_table rs name of
        None \<Rightarrow> Inl NoSuchResource
      | Some r \<Rightarrow> if res_kind r = kind then Inr r else Inl reject)"

fun openflow_text :: "openflow \<Rightarrow> string" where
  "openflow_text OpenFlow10 = ''OpenFlow10''"
| "openflow_text OpenFlow11 = ''OpenFlow11''"
| "openflow_text OpenFlow12 = ''OpenFlow12''"
| "openflow_text OpenFlow13 = ''OpenFlow13''"
| "openflow_text OpenFlow14 = ''OpenFlow14''"
| "openflow_text OpenFlow15 = ''OpenFlow15''"

fun switch_protocols :: "planned_resource \<Rightarrow> openflow list" where
  "switch_protocols (NodeResource n) =
     (case pn_body n of PlannedSwitch _ _ _ _ ps \<Rightarrow> ps | _ \<Rightarrow> [])"
| "switch_protocols _ = []"

definition ofctl_prefix :: "planned_resource \<Rightarrow> string list" where
  "ofctl_prefix sw =
     ''ovs-ofctl'' #
     (case switch_protocols sw of [] \<Rightarrow> [] | ps \<Rightarrow> [''-O'', openflow_text (last ps)])"

definition ofctl_command :: "planned_resource \<Rightarrow> string \<Rightarrow> string \<Rightarrow> string list" where
  "ofctl_command sw operation flow = ofctl_prefix sw @ [operation, res_name sw, flow]"

definition dump_command :: "planned_resource \<Rightarrow> string list" where
  "dump_command sw = ofctl_prefix sw @ [''dump-flows'', res_name sw]"

section \<open>Installing and removing a rule\<close>

definition install_flow ::
  "(json \<Rightarrow> string) \<Rightarrow> 'w executor \<Rightarrow> planned_resource list \<Rightarrow> action_request \<Rightarrow> 'w
   \<Rightarrow> (ovs_error + action_outcome) \<times> 'w" where
  "install_flow shown exec rs r w =
     (case require_kind rs (aq_target r) SwitchKind of
        Inl e \<Rightarrow> (Inl e, w)
      | Inr sw \<Rightarrow>
          (case flow_expression shown (aq_parameters r) True of
             Inl e \<Rightarrow> (Inl e, w)
           | Inr flow \<Rightarrow>
               (case run_command exec (ofctl_command sw ''add-flow'' flow) None (Some (aq_timeout r)) w of
                  (Inl e, w') \<Rightarrow> (Inl e, w')
                | (Inr _, w') \<Rightarrow>
                    (Inr \<lparr>ao_changed = True,
                          ao_output = [(''switch'', JStr (res_name sw)), (''flow'', JStr flow)]\<rparr>, w'))))"

text \<open>\<open>--strict\<close> is put before the first argument \<open>del-flows\<close>.\<close>

definition insert_strict :: "string list \<Rightarrow> string list" where
  "insert_strict argv =
     (let i = index_of ''del-flows'' argv in take i argv @ ''--strict'' # drop i argv)"

definition remove_flow ::
  "(json \<Rightarrow> string) \<Rightarrow> 'w executor \<Rightarrow> planned_resource list \<Rightarrow> action_request \<Rightarrow> 'w
   \<Rightarrow> (ovs_error + action_outcome) \<times> 'w" where
  "remove_flow shown exec rs r w =
     (case require_kind rs (aq_target r) SwitchKind of
        Inl e \<Rightarrow> (Inl e, w)
      | Inr sw \<Rightarrow>
          (let ps = AList.delete ''strict'' (aq_parameters r) in
           case (case map_of (aq_parameters r) ''strict'' of None \<Rightarrow> JBool False | Some v \<Rightarrow> v) of
             JBool strict \<Rightarrow>
               (case flow_expression shown ps False of
                  Inl e \<Rightarrow> (Inl e, w)
                | Inr selector \<Rightarrow>
                    (let command = ofctl_command sw ''del-flows'' selector in
                     case run_command exec (if strict then insert_strict command else command) None
                            (Some (aq_timeout r)) w of
                       (Inl e, w') \<Rightarrow> (Inl e, w')
                     | (Inr _, w') \<Rightarrow>
                         (Inr \<lparr>ao_changed = True,
                               ao_output = [(''switch'', JStr (res_name sw)),
                                            (''selector'', JStr selector),
                                            (''strict'', JBool strict)]\<rparr>, w')))
           | _ \<Rightarrow> (Inl reject, w)))"

section \<open>Inspecting the rules of a scenario\<close>

type_synonym flow_dumps = "(string \<times> flow_rule list) list"

definition read_dump ::
  "'w executor \<Rightarrow> planned_resource list \<Rightarrow> rat option \<Rightarrow> action_request \<Rightarrow> flow_dumps \<Rightarrow> 'w
   \<Rightarrow> (ovs_error + flow_dumps) \<times> 'w" where
  "read_dump exec rs limit r dumps w =
     (if aq_name r \<noteq> ''openflow.flow.install''
      then (Inl (ActionError ''runtime.reconciliation.unsupported'' ActionFailed), w)
      else if map_of dumps (aq_target r) \<noteq> None then (Inr dumps, w)
      else case require_kind rs (aq_target r) SwitchKind of
             Inl e \<Rightarrow> (Inl e, w)
           | Inr sw \<Rightarrow>
               (let t = (case limit of None \<Rightarrow> aq_timeout r | Some l \<Rightarrow> min (aq_timeout r) l) in
                case run_command exec (dump_command sw) None (Some t) w of
                  (Inl e, w') \<Rightarrow> (Inl e, w')
                | (Inr out, w') \<Rightarrow>
                    (case parse_flow_dump (cr_out out) of
                       Inl _ \<Rightarrow>
                         (Inl (ActionError ''runtime.reconciliation.invalid-output'' ActionFailed), w')
                     | Inr rules \<Rightarrow> (Inr (dumps @ [(aq_target r, rules)]), w'))))"

fun read_dumps ::
  "'w executor \<Rightarrow> planned_resource list \<Rightarrow> rat option \<Rightarrow> action_request list \<Rightarrow> flow_dumps \<Rightarrow> 'w
   \<Rightarrow> (ovs_error + flow_dumps) \<times> 'w" where
  "read_dumps exec rs limit [] dumps w = (Inr dumps, w)"
| "read_dumps exec rs limit (r # requests) dumps w =
     (case read_dump exec rs limit r dumps w of
        (Inl e, w') \<Rightarrow> (Inl e, w')
      | (Inr dumps', w') \<Rightarrow> read_dumps exec rs limit requests dumps' w')"

definition expected_rule :: "(json \<Rightarrow> string) \<Rightarrow> json_object \<Rightarrow> ovs_error + flow_rule" where
  "expected_rule shown ps = bind_res (flow_expression shown ps True) parse_flow_expression"

definition rule_state :: "flow_rule list \<Rightarrow> flow_rule \<Rightarrow> string" where
  "rule_state rules expected =
     (case filter (\<lambda>rule. same_rule_identity rule expected) rules of
        [] \<Rightarrow> ''missing''
      | [rule] \<Rightarrow> if same_dict rule expected then ''present'' else ''wrong''
      | _ \<Rightarrow> ''conflicting'')"

definition inspect_rules ::
  "(json \<Rightarrow> string) \<Rightarrow> 'w executor \<Rightarrow> planned_resource list \<Rightarrow> rat option \<Rightarrow> action_request list
   \<Rightarrow> 'w \<Rightarrow> (ovs_error + string list) \<times> 'w" where
  "inspect_rules shown exec rs limit requests w =
     (case read_dumps exec rs limit requests [] w of
        (Inl e, w') \<Rightarrow> (Inl e, w')
      | (Inr dumps, w') \<Rightarrow>
          (map_res (\<lambda>r. bind_res (expected_rule shown (aq_parameters r))
                          (\<lambda>expected. Inr (rule_state (the (map_of dumps (aq_target r))) expected)))
             requests, w'))"

section \<open>A written rule reads back\<close>

text \<open>
  The meaning of the parameters of a rule whose match is an object, as a dictionary of fields:
  the abstract rule that writing and reading back must preserve.
\<close>

fun match_value :: "(json \<Rightarrow> string) \<Rightarrow> json \<Rightarrow> flow_value" where
  "match_value shown v = (if v = JBool True then FlowFlag else FlowText (shown_text shown v))"

declare match_value.simps [simp del]

definition match_items :: "json_object \<Rightarrow> json_object" where
  "match_items ps = (case map_of ps ''match'' of Some (JObj items) \<Rightarrow> items | _ \<Rightarrow> [])"

fun given_number :: "json \<Rightarrow> int" where
  "given_number (JInt i) = i"
| "given_number (JStr s) = (case int_literal s of None \<Rightarrow> 0 | Some i \<Rightarrow> i)"
| "given_number _ = 0"

definition number_given :: "string \<Rightarrow> int \<Rightarrow> json_object \<Rightarrow> flow_value option" where
  "number_given name otherwise ps =
     Some (FlowNumber (case parameter name ps of None \<Rightarrow> otherwise | Some v \<Rightarrow> given_number v))"

definition rule_meaning :: "(json \<Rightarrow> string) \<Rightarrow> json_object \<Rightarrow> string \<Rightarrow> flow_value option" where
  "rule_meaning shown ps k =
     (if k = ''actions'' then
        (case map_of ps ''actions'' of Some (JStr a) \<Rightarrow> Some (FlowText a) | _ \<Rightarrow> None)
      else if k = ''cookie'' then number_given ''cookie'' 0 ps
      else if k = ''table'' then number_given ''table'' 0 ps
      else if k = ''priority'' then number_given ''priority'' 32768 ps
      else if k = ''idle_timeout'' then number_given ''idleTimeout'' 0 ps
      else if k = ''hard_timeout'' then number_given ''hardTimeout'' 0 ps
      else map_option (match_value shown) (map_of (match_items ps) k))"

text \<open>
  Parameters whose text is unambiguous: an object as match, with keys and values free of spaces and
  commas, keys that are no metadata of a dump, an action text without space at its ends, and no mask.
\<close>

definition plain_text :: "string \<Rightarrow> bool" where
  "plain_text s = list_all (\<lambda>c. \<not> blank c \<and> c \<noteq> CHR '','') s"

definition plain_item :: "(json \<Rightarrow> string) \<Rightarrow> string \<times> json \<Rightarrow> bool" where
  "plain_item shown = (\<lambda>(k, v).
     plain_text k \<and> CHR ''='' \<notin> set k \<and> k \<notin> set rule_metadata \<and> k \<notin> set ignored_fields
     \<and> (v \<noteq> JBool True \<longrightarrow> plain_text (shown_text shown v)))"

definition plain_rule :: "(json \<Rightarrow> string) \<Rightarrow> json_object \<Rightarrow> bool" where
  "plain_rule shown ps =
     ((case map_of ps ''match'' of Some (JObj items) \<Rightarrow>
          distinct (map fst items) \<and> list_all (plain_item shown) items | _ \<Rightarrow> False)
      \<and> (case map_of ps ''actions'' of Some (JStr a) \<Rightarrow> trimmed a | _ \<Rightarrow> True)
      \<and> parameter ''cookieMask'' ps = None)"

text \<open>A rule of which nothing but the actions is given.\<close>

definition bare_rule :: "json_object \<Rightarrow> bool" where
  "bare_rule ps =
     (match_items ps = [] \<and> parameter ''cookie'' ps = None
      \<and> list_all (\<lambda>(name, _, _). map_of ps name = None) integer_fields)"

text \<open>The fields in the order they are written.\<close>

definition number_entries :: "json_object \<Rightarrow> flow_rule" where
  "number_entries ps = concat (map (\<lambda>(name, field, _).
     case map_of ps name of
       None \<Rightarrow> [] | Some v \<Rightarrow> [(field, FlowText (decimal (nat (given_number v))))]) integer_fields)"

definition rule_entries :: "(json \<Rightarrow> string) \<Rightarrow> json_object \<Rightarrow> flow_rule" where
  "rule_entries shown ps =
     (case parameter ''cookie'' ps of
        None \<Rightarrow> [] | Some c \<Rightarrow> [(''cookie'', FlowText (hex_text (nat (given_number c))))])
     @ number_entries ps
     @ map (\<lambda>(k, v). (k, match_value shown v)) (sort_key fst (match_items ps))"

fun print_entry :: "string \<times> flow_value \<Rightarrow> string" where
  "print_entry (k, FlowText t) = k @ ''='' @ t"
| "print_entry (k, _) = k"

lemma flow_integer_Inr:
  "flow_integer maximum v = Inr n \<Longrightarrow> n = nat (given_number v) \<and> 0 \<le> given_number v \<and> v \<noteq> JNull"
  by (auto simp: flow_integer_def Let_def split: json.splits option.splits if_splits)

lemma cookie_field_Inr:
  assumes "cookie_field ps = Inr fs" and "parameter ''cookieMask'' ps = None"
  shows "fs = map print_entry (case parameter ''cookie'' ps of
           None \<Rightarrow> [] | Some c \<Rightarrow> [(''cookie'', FlowText (hex_text (nat (given_number c))))])"
  using assms by (auto simp: cookie_field_def bind_res_Inr_iff dest: flow_integer_Inr split: option.splits)

lemma integer_fields_Inr:
  assumes "list_all2 (\<lambda>f r. integer_field ps f = Inr r) fds rs"
  shows "concat rs = map print_entry (concat (map (\<lambda>(name, field, _).
          case map_of ps name of
            None \<Rightarrow> [] | Some v \<Rightarrow> [(field, FlowText (decimal (nat (given_number v))))]) fds))"
  using assms
proof (induction rule: list_all2_induct)
  case (Cons f fs r rs)
  obtain name field maximum where f: "f = (name, field, maximum)" by (cases f)
  with Cons.hyps(1) have "r = map print_entry (case map_of ps name of
      None \<Rightarrow> [] | Some v \<Rightarrow> [(field, FlowText (decimal (nat (given_number v))))])"
    by (auto simp: integer_field_def bind_res_Inr_iff dest: flow_integer_Inr split: option.splits)
  with Cons.IH f show ?case by simp
qed simp

lemma match_token_Inr:
  "match_token shown (k, v) = Inr t \<Longrightarrow> t = print_entry (k, match_value shown v) \<and> k \<noteq> []"
  by (auto simp: match_token_def require_flow_token_def match_value.simps split: if_splits)

lemma match_tokens_Inr:
  assumes "list_all2 (\<lambda>i t. match_token shown i = Inr t) items ts"
  shows "ts = map print_entry (map (\<lambda>(k, v). (k, match_value shown v)) items)
         \<and> list_all (\<lambda>(k, _). k \<noteq> []) items"
  using assms by (induction rule: list_all2_induct) (auto dest: match_token_Inr)

lemma flow_fields_Inr:
  assumes "flow_fields shown ps True = Inr fs" and "plain_rule shown ps"
  obtains a where "map_of ps ''actions'' = Some (JStr a)" and "flow_token a"
    and "fs = map print_entry (rule_entries shown ps) @ [''actions='' @ a]"
    and "list_all (\<lambda>(k, _). k \<noteq> []) (match_items ps)"
    and "\<And>v. parameter ''cookie'' ps = Some v \<Longrightarrow> 0 \<le> given_number v"
    and "\<And>name field m v. (name, field, m) \<in> set integer_fields \<Longrightarrow> map_of ps name = Some v
           \<Longrightarrow> 0 \<le> given_number v \<and> v \<noteq> JNull"
proof -
  from assms(2) obtain items where items: "map_of ps ''match'' = Some (JObj items)"
    by (auto simp: plain_rule_def split: option.splits json.splits)
  then have same: "match_items ps = items" by (simp add: match_items_def)
  from assms(2) have unmasked: "parameter ''cookieMask'' ps = None" by (simp add: plain_rule_def)
  from assms(1) items obtain cookie numbers matches actions where parts:
    "cookie_field ps = Inr cookie" "map_res (integer_field ps) integer_fields = Inr numbers"
    "map_res (match_token shown) (sort_key fst items) = Inr matches" "action_field ps = Inr actions"
    "fs = cookie @ concat numbers @ matches @ actions"
    by (auto simp: flow_fields_def match_fields_def bind_res_Inr_iff split: if_splits)
  from parts(4) obtain a where a: "map_of ps ''actions'' = Some (JStr a)" "flow_token a"
    "actions = [''actions='' @ a]"
    by (auto simp: action_field_def require_flow_token_def bind_res_Inr_iff
        split: option.splits json.splits if_splits)
  from match_tokens_Inr [OF parts(3) [unfolded map_res_Inr_iff]]
  have ts: "matches = map print_entry (map (\<lambda>(k, v). (k, match_value shown v)) (sort_key fst items))"
    and ks: "list_all (\<lambda>(k, _). k \<noteq> []) items"
    by (simp_all add: list_all_iff)
  have "fs = map print_entry (rule_entries shown ps) @ [''actions='' @ a]"
    unfolding parts(5) a(3) ts cookie_field_Inr [OF parts(1) unmasked]
      integer_fields_Inr [OF parts(2) [unfolded map_res_Inr_iff]] rule_entries_def number_entries_def same
    by simp
  moreover have "0 \<le> given_number v" if "parameter ''cookie'' ps = Some v" for v
    using that parts(1) unmasked by (auto simp: cookie_field_def bind_res_Inr_iff dest: flow_integer_Inr)
  moreover have "0 \<le> given_number v \<and> v \<noteq> JNull"
    if field: "(name, field, m) \<in> set integer_fields" and given: "map_of ps name = Some v" for name field m v
  proof -
    from list_all2_set1 [OF parts(2) [unfolded map_res_Inr_iff] field]
    obtain r where "integer_field ps (name, field, m) = Inr r" by blast
    with given show ?thesis by (auto simp: integer_field_def bind_res_Inr_iff dest: flow_integer_Inr)
  qed
  ultimately show thesis using a ks that same by simp
qed

text \<open>An entry as the parser finds it in a plain text: its key, and its value up to the next comma.\<close>

fun plain_entry :: "string \<times> flow_value \<Rightarrow> bool" where
  "plain_entry (k, v) =
     (plain_text k \<and> k \<noteq> [] \<and> CHR ''='' \<notin> set k \<and> k \<notin> set ignored_fields \<and> k \<noteq> ''actions''
      \<and> (case v of FlowText t \<Rightarrow> plain_text t | FlowFlag \<Rightarrow> True | FlowNumber _ \<Rightarrow> False))"

lemma plain_text_simps [simp]:
  "plain_text []"
  "plain_text (c # s) \<longleftrightarrow> \<not> blank c \<and> c \<noteq> CHR '','' \<and> plain_text s"
  "plain_text (s @ t) \<longleftrightarrow> plain_text s \<and> plain_text t"
  by (simp_all add: plain_text_def)

lemma plain_text_strip: "plain_text s \<Longrightarrow> strip s = s"
  by (intro strip_no_blank) (simp add: plain_text_def list_all_iff)

lemma ordinary_plain: "list_all ordinary_digit s \<Longrightarrow> plain_text s"
  by (auto simp: plain_text_def ordinary_digit_def list_all_iff)

lemma hex_plain: "plain_text (hex_text n)"
  using ordinary_plain [OF digits_in_print [of 16 n]] by (simp add: hex_text_def blank_def)

lemma print_entry_plain: "plain_entry e \<Longrightarrow> plain_text (print_entry e) \<and> print_entry e \<noteq> []"
  by (cases e rule: print_entry.cases) (auto simp: blank_def)

definition key_char :: "char \<Rightarrow> bool" where
  "key_char c = (c \<noteq> CHR ''='' \<and> c \<noteq> CHR '','')"

lemma key_of_actions:
  assumes "take 8 t = ''actions=''"
  shows "takeWhile key_char t = ''actions''"
proof -
  from assms have "t = ''actions='' @ drop 8 t" using append_take_drop_id [of 8 t] by simp
  then obtain u where "t = ''actions='' @ u" ..
  then show ?thesis by (simp add: key_char_def)
qed

lemma key_of_entry:
  assumes "plain_entry (k, v)" and "rest = [] \<or> hd rest = CHR '',''"
  shows "takeWhile key_char (print_entry (k, v) @ rest) = k"
proof -
  have front: "\<And>c. c \<in> set k \<Longrightarrow> key_char c"
    using assms(1) by (auto simp: key_char_def plain_text_def list_all_iff)
  have "takeWhile key_char (k @ u) = k" if "u = [] \<or> \<not> key_char (hd u)" for u
    using that by (cases u) (auto simp: takeWhile_append2 [OF front] takeWhile_eq_all_conv front)
  from this [of "rest"] this [of "CHR ''='' # u @ rest" for u] assms(2) show ?thesis
    by (cases v) (auto simp: key_char_def)
qed

lemma print_entry_actions:
  assumes "plain_entry e" and "rest = [] \<or> hd rest = CHR '',''"
  shows "take 8 (print_entry e @ rest) \<noteq> ''actions=''"
proof
  assume "take 8 (print_entry e @ rest) = ''actions=''"
  from key_of_actions [OF this] key_of_entry [of "fst e" "snd e" "rest"] assms show False
    by (cases e) simp
qed

lemma split_entry_text:
  assumes "CHR ''='' \<notin> set k"
  shows "takeWhile (\<lambda>c. c \<noteq> CHR ''='') (k @ CHR ''='' # t) = k"
    and "dropWhile (\<lambda>c. c \<noteq> CHR ''='') (k @ CHR ''='' # t) = CHR ''='' # t"
  using assms by (induction k) auto

lemma read_field_entry:
  assumes "plain_entry e"
  shows "read_field (print_entry e) rule = AList.update (fst e) (snd e) rule"
proof -
  obtain k v where e: "e = (k, v)" by (cases e)
  have stripped: "strip (print_entry e) = print_entry e" "print_entry e \<noteq> []"
    using print_entry_plain [OF assms] plain_text_strip by auto
  show ?thesis
  proof (cases v)
    case (FlowText t)
    from assms e have "CHR ''='' \<notin> set k" by simp
    note parts = split_entry_text [OF this, of t]
    with assms e FlowText stripped show ?thesis
      by (simp add: read_field_def parts plain_text_strip)
  next
    case FlowFlag
    with assms e stripped show ?thesis by (simp add: read_field_def)
  next
    case (FlowNumber i)
    with assms e show ?thesis by simp
  qed
qed

lemma read_entries:
  "list_all plain_entry es \<Longrightarrow>
     fold read_field (map print_entry es) rule = fold (\<lambda>(k, v). AList.update k v) es rule"
  by (induction es arbitrary: rule) (auto simp: read_field_entry split_beta)

lemma map_of_updates:
  "distinct (map fst es) \<Longrightarrow>
     map_of (fold (\<lambda>(k, v). AList.update k v) es rule) = map_of rule ++ map_of es"
proof (induction es arbitrary: rule)
  case (Cons e es)
  obtain k v where e: "e = (k, v)" by (cases e)
  with Cons.prems have "map_of es k = None" by (simp add: map_of_eq_None_iff)
  with Cons e show ?case by (auto simp: map_add_def fun_eq_iff split: option.splits)
qed simp

text \<open>The pattern matches where the fields of a plain rule end.\<close>

lemma actions_at_plain:
  "plain_text p \<Longrightarrow> actions_at (p @ u) = map_option (\<lambda>(before, rest). (p @ before, rest)) (actions_at u)"
proof (induction p)
  case Nil
  then show ?case by (cases "actions_at u") auto
next
  case (Cons c p)
  then show ?case by (cases "actions_at u") auto
qed

lemma join_entries_tail:
  "\<exists>rest. join_with (CHR '','') (map print_entry (e # es)) @ CHR '','' # t = print_entry e @ rest
          \<and> hd rest = CHR '',''"
  by (cases es) auto

lemma actions_at_entries:
  assumes "list_all plain_entry es" and "es \<noteq> []" and "CHR 0x0A \<notin> set a"
  shows "actions_at (join_with (CHR '','') (map print_entry es) @ CHR '','' # ''actions='' @ a)
           = Some (join_with (CHR '','') (map print_entry es), a)"
  using assms(1,2)
proof (induction es)
  case (Cons e es)
  from Cons.prems have e: "plain_text (print_entry e)" by (simp add: print_entry_plain)
  show ?case
  proof (cases es)
    case Nil
    have "actions_at (CHR '','' # ''actions='' @ a) = Some ([], a)" using assms(3) by simp
    with Nil actions_at_plain [OF e] show ?thesis by simp
  next
    case (Cons f fs)
    let ?tail = "join_with (CHR '','') (map print_entry es) @ CHR '','' # ''actions='' @ a"
    from Cons obtain rest where tail: "?tail = print_entry f @ rest" "hd rest = CHR '',''"
      using join_entries_tail [of f fs "''actions='' @ a"] by auto
    have "take 8 ?tail \<noteq> ''actions=''"
      unfolding tail(1) by (rule print_entry_actions) (use Cons.prems Cons tail(2) in auto)
    moreover have "actions_at ?tail = Some (join_with (CHR '','') (map print_entry es), a)"
      using Cons.prems Cons by (intro Cons.IH) auto
    ultimately have "actions_at (CHR '','' # ?tail)
        = Some (CHR '','' # join_with (CHR '','') (map print_entry es), a)" by simp
    with actions_at_plain [OF e, of "CHR '','' # ?tail"] Cons show ?thesis by simp
  qed
qed simp

text \<open>A rule with nothing before its actions is not matched at all.\<close>

lemma has_text_front: "take (length sub) s = sub \<Longrightarrow> has_text sub s"
  by (cases s) auto

lemma actions_at_None: "\<not> has_text ''actions='' s \<Longrightarrow> actions_at s = None"
proof (induction s)
  case (Cons c s)
  from Cons.prems have rest: "\<not> has_text ''actions='' s" by simp
  then have "take 8 s \<noteq> ''actions=''" using has_text_front [of "''actions=''" s] by (auto simp: eval_nat_numeral)
  with Cons.IH [OF rest] show ?case by simp
qed simp

lemma actions_at_bare:
  assumes "\<not> has_text ''actions='' a"
  shows "actions_at (''actions='' @ a) = None"
proof -
  have "plain_text ''actions=''" by (simp add: blank_def)
  from actions_at_plain [OF this, of a] actions_at_None [OF assms] show ?thesis by simp
qed

text \<open>Filling in the defaults and reading the numbers.\<close>

lemma set_defaults_map:
  "map_of (fold set_default ds rule) k =
     (case map_of rule k of Some v \<Rightarrow> Some v | None \<Rightarrow> map_option FlowText (map_of ds k))"
proof (induction ds arbitrary: rule)
  case (Cons d ds)
  obtain name t where "d = (name, t)" by (cases d)
  with Cons show ?case by (auto simp: set_default_def split: option.splits)
qed (simp split: option.splits)

lemma read_numbers:
  assumes "distinct names"
    and "\<And>name. name \<in> set names \<Longrightarrow> \<exists>t. map_of rule name = Some (FlowText t) \<and> int_literal t = Some (value_of name)"
  shows "\<exists>rule'. fold_res read_number names rule = Inr rule'
           \<and> (\<forall>k. map_of rule' k = (if k \<in> set names then Some (FlowNumber (value_of k)) else map_of rule k))"
  using assms
proof (induction names arbitrary: rule)
  case (Cons name names)
  let ?r = "AList.update name (FlowNumber (value_of name)) rule"
  from Cons.prems(2) [of name] have one: "read_number name rule = Inr ?r"
    by (auto simp: read_number_def)
  have "\<exists>rule'. fold_res read_number names ?r = Inr rule'
      \<and> (\<forall>k. map_of rule' k = (if k \<in> set names then Some (FlowNumber (value_of k)) else map_of ?r k))"
  proof (rule Cons.IH)
    show "distinct names" using Cons.prems(1) by simp
    fix n assume "n \<in> set names"
    then show "\<exists>t. map_of ?r n = Some (FlowText t) \<and> int_literal t = Some (value_of n)"
      using Cons.prems(1) Cons.prems(2) [of n] by auto
  qed
  with one Cons.prems(1) show ?case by (auto simp: fun_eq_iff)
qed simp

text \<open>The parser on plain entries and an action text.\<close>

lemma parse_entries:
  assumes "list_all plain_entry es" and "es \<noteq> []" and "distinct (map fst es)"
    and "flow_token a" and "trimmed a"
    and "\<And>name. name \<in> fst ` set number_defaults \<Longrightarrow>
          \<exists>t. (case map_of es name of Some v \<Rightarrow> v | None \<Rightarrow> FlowText (the (map_of number_defaults name))) = FlowText t
              \<and> int_literal t = Some (value_of name)"
  shows "\<exists>rule. parse_flow_expression (join_with (CHR '','') (map print_entry es @ [''actions='' @ a])) = Inr rule
           \<and> (\<forall>k. map_of rule k =
                 (if k \<in> fst ` set number_defaults then Some (FlowNumber (value_of k))
                  else if k = ''actions'' then Some (FlowText a) else map_of es k))"
proof -
  let ?before = "join_with (CHR '','') (map print_entry es)"
  let ?s = "join_with (CHR '','') (map print_entry es @ [''actions='' @ a])"
  have s: "?s = ?before @ CHR '','' # ''actions='' @ a"
    using assms(2) by (simp add: join_with_snoc)
  from assms(4) have a: "a \<noteq> []" "CHR 0x0A \<notin> set a" by (auto simp: flow_token_def list_all_iff)
  from assms(2) obtain e fs where es: "es = e # fs" by (cases es) auto
  with assms(1) have e: "plain_text (print_entry e)" "print_entry e \<noteq> []" by (simp_all add: print_entry_plain)
  have "hd ?s = hd (print_entry e)"
    using es e(2) by (cases fs) auto
  moreover have "\<not> blank (hd (print_entry e))"
    using e by (cases "print_entry e") auto
  moreover have "\<not> blank (last ?s)"
    unfolding s using assms(5) a(1) by (simp add: trimmed_def)
  ultimately have "trimmed ?s" by (simp add: trimmed_def)
  then have at: "actions_at (strip ?s) = Some (?before, a)"
    using actions_at_entries [OF assms(1,2) a(2)] s by (simp add: strip_trimmed)
  have "\<And>p. p \<in> set (map print_entry es) \<Longrightarrow> CHR '','' \<notin> set p"
    using assms(1) print_entry_plain by (auto simp: list_all_iff plain_text_def)
  then have fields: "split_on (CHR '','') ?before = map print_entry es"
    using assms(2) by (intro split_on_join) auto
  let ?rule = "fold read_field (split_on (CHR '','') ?before) [(''actions'', FlowText (strip a))]"
  have "map_of es ''actions'' = None"
    using assms(1) by (auto simp: map_of_eq_None_iff list_all_iff)
  then have rule: "map_of ?rule k = (if k = ''actions'' then Some (FlowText a) else map_of es k)" for k
    using assms(5) by (auto simp: fields read_entries [OF assms(1)] map_of_updates [OF assms(3)]
        strip_trimmed map_add_def split: option.splits)
  have filled: "map_of (fold set_default number_defaults ?rule) k =
      (case (if k = ''actions'' then Some (FlowText a) else map_of es k) of
         Some v \<Rightarrow> Some v | None \<Rightarrow> map_option FlowText (map_of number_defaults k))" for k
    by (simp only: set_defaults_map rule)
  have parsed: "parse_flow_expression ?s =
      fold_res read_number (map fst number_defaults) (fold set_default number_defaults ?rule)"
    unfolding parse_flow_expression_def at by (simp add: Let_def)
  have "\<exists>rule'. fold_res read_number (map fst number_defaults) (fold set_default number_defaults ?rule) = Inr rule'
      \<and> (\<forall>k. map_of rule' k = (if k \<in> set (map fst number_defaults) then Some (FlowNumber (value_of k))
               else map_of (fold set_default number_defaults ?rule) k))"
  proof (rule read_numbers)
    show "distinct (map fst number_defaults)" by (simp add: number_defaults_def)
    fix name assume "name \<in> set (map fst number_defaults)"
    moreover from this have "name \<noteq> ''actions''" "map_of number_defaults name \<noteq> None"
      by (auto simp: number_defaults_def)
    ultimately show "\<exists>t. map_of (fold set_default number_defaults ?rule) name = Some (FlowText t)
        \<and> int_literal t = Some (value_of name)"
      using assms(6) [of name] unfolding filled by (auto split: option.splits)
  qed
  moreover have "map_of (fold set_default number_defaults ?rule) k =
      (if k = ''actions'' then Some (FlowText a) else map_of es k)"
    if "k \<notin> fst ` set number_defaults" for k
  proof -
    from that have "map_of number_defaults k = None" by (simp add: map_of_eq_None_iff)
    then show ?thesis by (simp add: filled split: option.splits)
  qed
  ultimately show ?thesis unfolding parsed by auto
qed

lemma map_of_sorted_items:
  "distinct (map fst items) \<Longrightarrow> map_of (sort_key fst items) = map_of items"
proof -
  assume d: "distinct (map fst items)"
  have "mset (map fst (sort_key fst items)) = mset (map fst items)" by simp
  then have "distinct (map fst (sort_key fst items))" using d by (metis mset_eq_imp_distinct_iff)
  with d show ?thesis by (subst map_of_inject_set) simp_all
qed

lemma map_of_entries:
  assumes "distinct (map fst (match_items ps))"
  shows "map_of (rule_entries shown ps) k =
    (case map_of (case parameter ''cookie'' ps of
               None \<Rightarrow> [] | Some c \<Rightarrow> [(''cookie'', FlowText (hex_text (nat (given_number c))))]) k of
       Some v \<Rightarrow> Some v
     | None \<Rightarrow>
         (case map_of (number_entries ps) k of
            Some v \<Rightarrow> Some v
          | None \<Rightarrow> map_option (match_value shown) (map_of (match_items ps) k)))"
  by (simp only: rule_entries_def map_of_append map_add_def map_of_map map_of_sorted_items [OF assms] comp_def)

lemma number_entries_keys:
  "fst ` set (number_entries ps) \<subseteq> {''table'', ''priority'', ''idle_timeout'', ''hard_timeout''}"
  by (auto simp: number_entries_def integer_fields_def split: option.splits)

lemma number_entries_distinct: "distinct (map fst (number_entries ps))"
  by (simp add: number_entries_def integer_fields_def split: option.split)

lemma number_entries_plain: "list_all plain_entry (number_entries ps)"
proof -
  have "plain_entry (field, FlowText (decimal n))" if "(name, field, m) \<in> set integer_fields" for name field m n
    using that by (auto simp: integer_fields_def ignored_fields_def blank_def ordinary_plain [OF decimal_plain])
  then show ?thesis by (auto simp: number_entries_def list_all_iff split: option.splits)
qed

lemma distinct_three:
  assumes "distinct as" "distinct bs" "distinct cs" "set as \<subseteq> {x}" "set bs \<subseteq> m - {x}" "set cs \<inter> m = {}" "x \<in> m"
  shows "distinct (as @ bs @ cs)"
  using assms by auto

lemma entries_plain:
  assumes "plain_rule shown ps" and "list_all (\<lambda>(k, _). k \<noteq> []) (match_items ps)"
  shows "list_all plain_entry (rule_entries shown ps)" and "distinct (map fst (rule_entries shown ps))"
proof -
  let ?items = "map (\<lambda>(k, v). (k, match_value shown v)) (sort_key fst (match_items ps))"
  let ?cookie = "case parameter ''cookie'' ps of
    None \<Rightarrow> [] | Some c \<Rightarrow> [(''cookie'', FlowText (hex_text (nat (given_number c))))]"
  from assms(1) have items: "distinct (map fst (match_items ps))" "list_all (plain_item shown) (match_items ps)"
    by (auto simp: plain_rule_def match_items_def split: option.splits json.splits)
  have "plain_entry (k, match_value shown v)" if "(k, v) \<in> set (match_items ps)" for k v
  proof -
    from that items(2) assms(2) have "plain_item shown (k, v)" "k \<noteq> []" by (auto simp: list_all_iff)
    then show ?thesis by (simp add: plain_item_def rule_metadata_def match_value.simps)
  qed
  then have "list_all plain_entry ?items" by (auto simp: list_all_iff simp del: plain_entry.simps)
  moreover have "list_all plain_entry ?cookie"
    by (simp add: hex_plain ignored_fields_def blank_def split: option.split)
  ultimately show "list_all plain_entry (rule_entries shown ps)"
    by (simp only: rule_entries_def list_all_append number_entries_plain simp_thms)
  have keys: "map fst ?items = map fst (sort_key fst (match_items ps))" by (simp add: split_beta comp_def)
  have "distinct (map fst (sort_key fst (match_items ps)))"
    using items(1) by (metis mset_eq_imp_distinct_iff mset_map mset_sort)
  then have c: "distinct (map fst ?items)" unfolding keys .
  have d: "set (map fst ?items) \<inter> set rule_metadata = {}"
    using items(2) by (force simp: list_all_iff plain_item_def)
  have e: "set (map fst (number_entries ps)) \<subseteq> set rule_metadata - {''cookie''}"
    using number_entries_keys [of ps] by (auto simp: rule_metadata_def)
  have f: "distinct (map fst ?cookie)" "set (map fst ?cookie) \<subseteq> {''cookie''}"
    by (cases "parameter ''cookie'' ps"; simp)+
  have g: "''cookie'' \<in> set rule_metadata" by (simp add: rule_metadata_def)
  show "distinct (map fst (rule_entries shown ps))"
    unfolding rule_entries_def map_append
    by (rule distinct_three [OF f(1) number_entries_distinct c f(2) e d g])
qed

lemma map_of_optional:
  "map_of (case x of None \<Rightarrow> [] | Some v \<Rightarrow> [(f, g v)]) k = (if k = f then map_option g x else None)"
  by (cases x) auto

lemma number_entries_map:
  "map_of (number_entries ps) k =
     (case map_of [(''table'', ''table''), (''priority'', ''priority''),
                   (''idle_timeout'', ''idleTimeout''), (''hard_timeout'', ''hardTimeout'')] k of
        None \<Rightarrow> None
      | Some name \<Rightarrow> map_option (\<lambda>v. FlowText (decimal (nat (given_number v)))) (map_of ps name))"
proof -
  have case_self: "(case x of None \<Rightarrow> None | Some v \<Rightarrow> Some v) = x" for x :: "flow_value option"
    by (cases x) auto
  have entries: "map_of (number_entries ps) k =
      (let pick = (\<lambda>f name. if k = f then map_option (\<lambda>v. FlowText (decimal (nat (given_number v)))) (map_of ps name) else None)
       in case pick ''table'' ''table'' of Some v \<Rightarrow> Some v | None \<Rightarrow>
          case pick ''priority'' ''priority'' of Some v \<Rightarrow> Some v | None \<Rightarrow>
          case pick ''idle_timeout'' ''idleTimeout'' of Some v \<Rightarrow> Some v | None \<Rightarrow>
            pick ''hard_timeout'' ''hardTimeout'')"
    by (simp add: number_entries_def integer_fields_def map_of_optional map_add_def Let_def
        split del: if_split cong: if_cong option.case_cong)
  consider "k = ''table''" | "k = ''priority''" | "k = ''idle_timeout''" | "k = ''hard_timeout''"
    | "k \<notin> {''table'', ''priority'', ''idle_timeout'', ''hard_timeout''}" by blast
  then show ?thesis unfolding entries Let_def by cases (simp_all add: case_self split: option.split)
qed

lemma bare_iff: "bare_rule ps \<longleftrightarrow> rule_entries shown ps = []"
proof -
  have "sort_key fst xs = [] \<longleftrightarrow> xs = []" for xs :: json_object
    by (metis length_0_conv length_sort)
  moreover have "number_entries ps = [] \<longleftrightarrow> list_all (\<lambda>(name, _, _). map_of ps name = None) integer_fields"
    by (auto simp: number_entries_def list_all_iff split: option.splits)
  ultimately show ?thesis
    unfolding bare_rule_def rule_entries_def
    by (auto split: option.splits)
qed

lemma number_meaning:
  assumes "plain_rule shown ps" and "k \<in> fst ` set number_defaults"
    and "\<And>v. parameter ''cookie'' ps = Some v \<Longrightarrow> 0 \<le> given_number v"
    and "\<And>name field m v. (name, field, m) \<in> set integer_fields \<Longrightarrow> map_of ps name = Some v
           \<Longrightarrow> 0 \<le> given_number v \<and> v \<noteq> JNull"
  shows "\<exists>t i. (case map_of (rule_entries shown ps) k of
                  Some v \<Rightarrow> v | None \<Rightarrow> FlowText (the (map_of number_defaults k))) = FlowText t
             \<and> int_literal t = Some i \<and> rule_meaning shown ps k = Some (FlowNumber i)"
proof -
  from assms(1) have items: "distinct (map fst (match_items ps))" "list_all (plain_item shown) (match_items ps)"
    by (auto simp: plain_rule_def match_items_def split: option.splits json.splits)
  from assms(2) have "k \<in> set rule_metadata" by (auto simp: number_defaults_def rule_metadata_def)
  with items(2) have fresh: "map_of (match_items ps) k = None"
    by (auto simp: map_of_eq_None_iff list_all_iff plain_item_def)
  have literals: "int_literal ''0'' = Some 0" "int_literal ''32768'' = Some 32768"
    by (simp_all add: int_literal_def int_blank_def blank_def unsigned_number_def plain_number_def
        base_of_def digit_of_def)
  note entry = map_of_entries [OF items(1), of shown k, unfolded fresh number_entries_map]
  show ?thesis
  proof (cases "k = ''cookie''")
    case True
    show ?thesis
    proof (cases "parameter ''cookie'' ps")
      case None
      with True entry show ?thesis
        by (simp add: number_defaults_def literals rule_meaning_def number_given_def)
    next
      case (Some v)
      with True entry assms(3) show ?thesis by (simp add: int_literal_hex rule_meaning_def number_given_def)
    qed
  next
    case False
    with assms(2) obtain name m d i where name: "(name, k, m) \<in> set integer_fields"
      "map_of [(''table'', ''table''), (''priority'', ''priority''),
         (''idle_timeout'', ''idleTimeout''), (''hard_timeout'', ''hardTimeout'')] k = Some name"
      "map_of number_defaults k = Some d" "int_literal d = Some i"
      "rule_meaning shown ps k = number_given name i ps"
    proof -
      from False assms(2)
      have "k = ''table'' \<or> k = ''priority'' \<or> k = ''idle_timeout'' \<or> k = ''hard_timeout''"
        by (auto simp: number_defaults_def)
      then show thesis
      proof (elim disjE)
        assume "k = ''table''"
        then show thesis
          by (intro that [of "''table''" 254 "''0''" 0])
            (simp_all add: number_defaults_def integer_fields_def rule_meaning_def literals)
      next
        assume "k = ''priority''"
        then show thesis
          by (intro that [of "''priority''" 65535 "''32768''" 32768])
            (simp_all add: number_defaults_def integer_fields_def rule_meaning_def literals)
      next
        assume "k = ''idle_timeout''"
        then show thesis
          by (intro that [of "''idleTimeout''" 65535 "''0''" 0])
            (simp_all add: number_defaults_def integer_fields_def rule_meaning_def literals)
      next
        assume "k = ''hard_timeout''"
        then show thesis
          by (intro that [of "''hardTimeout''" 65535 "''0''" 0])
            (simp_all add: number_defaults_def integer_fields_def rule_meaning_def literals)
      qed
    qed
    have no_cookie: "map_of (case parameter ''cookie'' ps of
        None \<Rightarrow> [] | Some c \<Rightarrow> [(''cookie'', FlowText (hex_text (nat (given_number c))))]) k = None"
      using False by (simp add: map_of_optional)
    show ?thesis
    proof (cases "map_of ps name")
      case None
      then have "parameter name ps = None" by (simp add: parameter_def)
      with None entry name no_cookie show ?thesis
        by (simp add: number_given_def)
    next
      case (Some v)
      with assms(4) [OF name(1)] have "0 \<le> given_number v" "parameter name ps = Some v"
        by (auto simp: parameter_def split: json.splits)
      with Some no_cookie entry name show ?thesis
        by (simp add: int_literal_decimal number_given_def)
    qed
  qed
qed

lemma flow_expression_fields:
  "flow_expression shown ps b = Inr e \<longleftrightarrow>
     (\<exists>fs. flow_fields shown ps b = Inr fs \<and> e = join_with (CHR '','') fs)"
  by (auto simp: flow_expression_def bind_res_Inr_iff)

lemma written_rule_parsed:
  assumes "flow_expression shown ps True = Inr e" and "plain_rule shown ps" and "\<not> bare_rule ps"
  shows "\<exists>rule. parse_flow_expression e = Inr rule \<and> map_of rule = rule_meaning shown ps"
proof -
  from assms(1) obtain fs where fs: "flow_fields shown ps True = Inr fs" "e = join_with (CHR '','') fs"
    by (auto simp: flow_expression_fields)
  obtain a where a: "map_of ps ''actions'' = Some (JStr a)" "flow_token a"
    "fs = map print_entry (rule_entries shown ps) @ [''actions='' @ a]"
    and ks: "list_all (\<lambda>(k, _). k \<noteq> []) (match_items ps)"
    and cookie: "\<And>v. parameter ''cookie'' ps = Some v \<Longrightarrow> 0 \<le> given_number v"
    and numbers: "\<And>name field m v. (name, field, m) \<in> set integer_fields \<Longrightarrow> map_of ps name = Some v
           \<Longrightarrow> 0 \<le> given_number v \<and> v \<noteq> JNull"
    by (rule flow_fields_Inr [OF fs(1) assms(2)]) blast
  let ?n = "\<lambda>k. case rule_meaning shown ps k of Some (FlowNumber i) \<Rightarrow> i | _ \<Rightarrow> 0"
  have meaning: "\<exists>t i. (case map_of (rule_entries shown ps) k of
                  Some v \<Rightarrow> v | None \<Rightarrow> FlowText (the (map_of number_defaults k))) = FlowText t
             \<and> int_literal t = Some i \<and> rule_meaning shown ps k = Some (FlowNumber i)"
    if "k \<in> fst ` set number_defaults" for k
    using assms(2) that cookie numbers by (rule number_meaning)
  have trimmed: "trimmed a" using assms(2) a(1) by (simp add: plain_rule_def)
  have entries: "rule_entries shown ps \<noteq> []" using assms(3) bare_iff [of ps shown] by simp
  have "\<exists>rule. parse_flow_expression (join_with (CHR '','') (map print_entry (rule_entries shown ps) @ [''actions='' @ a])) = Inr rule
      \<and> (\<forall>k. map_of rule k = (if k \<in> fst ` set number_defaults then Some (FlowNumber (?n k))
        else if k = ''actions'' then Some (FlowText a) else map_of (rule_entries shown ps) k))"
  proof (rule parse_entries)
    show "list_all plain_entry (rule_entries shown ps)" "distinct (map fst (rule_entries shown ps))"
      using entries_plain [OF assms(2) ks] .
    show "rule_entries shown ps \<noteq> []" "flow_token a" "trimmed a"
      using entries a(2) trimmed .
    fix name assume "name \<in> fst ` set number_defaults"
    from meaning [OF this] show "\<exists>t. (case map_of (rule_entries shown ps) name of
          Some v \<Rightarrow> v | None \<Rightarrow> FlowText (the (map_of number_defaults name))) = FlowText t
        \<and> int_literal t = Some (?n name)" by auto
  qed
  then obtain rule where rule: "parse_flow_expression e = Inr rule"
    "\<And>k. map_of rule k = (if k \<in> fst ` set number_defaults then Some (FlowNumber (?n k))
        else if k = ''actions'' then Some (FlowText a) else map_of (rule_entries shown ps) k)"
    unfolding fs(2) a(3) by blast
  have "map_of rule k = rule_meaning shown ps k" for k
  proof (cases "k \<in> fst ` set number_defaults")
    case True
    from meaning [OF this] obtain i where "rule_meaning shown ps k = Some (FlowNumber i)" by blast
    with True show ?thesis by (simp add: rule(2))
  next
    case False
    have items: "distinct (map fst (match_items ps))"
      using assms(2) by (auto simp: plain_rule_def match_items_def split: option.splits json.splits)
    have "map_of (number_entries ps) k = None"
      using False number_entries_keys [of ps] by (auto simp: map_of_eq_None_iff number_defaults_def)
    with False a(1) show ?thesis
      by (auto simp: rule(2) map_of_entries [OF items] rule_meaning_def number_defaults_def split: option.split)
  qed
  with rule(1) show ?thesis by auto
qed

section \<open>What an inspection reports\<close>

lemma list_all2_mono':
  "list_all2 p xs ys \<Longrightarrow> (\<And>x y. x \<in> set xs \<Longrightarrow> p x y \<Longrightarrow> q x y) \<Longrightarrow> list_all2 q xs ys"
  by (induction rule: list_all2_induct) auto

text \<open>
  The abstract view of a switch: the meanings of the rules it holds. Two rules are the same flow if
  they carry the same cookie other than 0, or if they match the same packets.
\<close>

type_synonym meaning = "string \<Rightarrow> flow_value option"

definition same_flow :: "meaning \<Rightarrow> meaning \<Rightarrow> bool" where
  "same_flow actual wanted =
     ((wanted ''cookie'' \<noteq> Some (FlowNumber 0) \<and> actual ''cookie'' = wanted ''cookie'')
      \<or> (\<forall>k. k \<notin> set rule_metadata \<longrightarrow> actual k = wanted k))"

definition state_of_rule :: "meaning list \<Rightarrow> meaning \<Rightarrow> string" where
  "state_of_rule held wanted =
     (case filter (\<lambda>m. same_flow m wanted) held of
        [] \<Rightarrow> ''missing''
      | [m] \<Rightarrow> if m = wanted then ''present'' else ''wrong''
      | _ \<Rightarrow> ''conflicting'')"

lemma same_dict_iff: "same_dict a b \<longleftrightarrow> map_of a = map_of b"
proof
  assume same: "same_dict a b"
  show "map_of a = map_of b"
  proof
    fix k
    show "map_of a k = map_of b k"
    proof (cases "k \<in> fst ` set a \<union> fst ` set b")
      case True
      with same show ?thesis by (auto simp: same_dict_def list_all_iff)
    next
      case False
      then have "map_of a k = None" "map_of b k = None" by (auto simp: map_of_eq_None_iff)
      then show ?thesis by simp
    qed
  qed
qed (simp add: same_dict_def list_all_iff)

lemma map_of_match_part: "map_of (match_part r) k = (if k \<in> set rule_metadata then None else map_of r k)"
  unfolding match_part_def by (induction r) auto

lemma same_rule_identity_iff:
  assumes "map_of b ''cookie'' \<noteq> None"
  shows "same_rule_identity a b \<longleftrightarrow> same_flow (map_of a) (map_of b)"
  using assms
  by (auto simp: same_rule_identity_def same_flow_def same_dict_iff map_of_match_part fun_eq_iff
      split: option.splits)

lemma rule_state_abstract:
  assumes "map_of wanted ''cookie'' \<noteq> None"
  shows "rule_state rules wanted = state_of_rule (map map_of rules) (map_of wanted)"
proof -
  have "filter (\<lambda>m. same_flow m (map_of wanted)) (map map_of rules)
      = map map_of (filter (\<lambda>r. same_rule_identity r wanted) rules)"
    using same_rule_identity_iff [OF assms] by (simp add: filter_map comp_def)
  then show ?thesis
    by (auto simp: rule_state_def state_of_rule_def same_dict_iff split: list.split)
qed

lemma expected_rule_meaning:
  assumes "expected_rule shown ps = Inr rule" and "plain_rule shown ps" and "\<not> bare_rule ps"
  shows "map_of rule = rule_meaning shown ps" and "map_of rule ''cookie'' \<noteq> None"
proof -
  from assms(1) obtain e where e: "flow_expression shown ps True = Inr e" "parse_flow_expression e = Inr rule"
    by (auto simp: expected_rule_def bind_res_Inr_iff)
  with written_rule_parsed [OF e(1) assms(2,3)] show m: "map_of rule = rule_meaning shown ps" by simp
  show "map_of rule ''cookie'' \<noteq> None" by (simp add: m rule_meaning_def number_given_def)
qed

text \<open>Where a dump comes from: an answer of the switch of the request.\<close>

definition reported ::
  "'w executor \<Rightarrow> planned_resource list \<Rightarrow> string \<Rightarrow> flow_rule list \<Rightarrow> bool" where
  "reported exec rs name rules \<longleftrightarrow>
     (\<exists>sw limit v v' out. require_kind rs name SwitchKind = Inr sw
        \<and> exec v (dump_command sw) None limit = (CommandDone out, v') \<and> cr_code out = 0
        \<and> parse_flow_dump (cr_out out) = Inr rules)"

lemma reportedI:
  "require_kind rs name SwitchKind = Inr sw \<Longrightarrow> exec v (dump_command sw) None limit = (CommandDone out, v')
   \<Longrightarrow> cr_code out = 0 \<Longrightarrow> parse_flow_dump (cr_out out) = Inr rules \<Longrightarrow> reported exec rs name rules"
  unfolding reported_def by blast

lemma run_command_Inr:
  assumes "run_command exec argv on limit w = (Inr out, w')"
  shows "\<exists>t. exec w argv on t = (CommandDone out, w') \<and> cr_code out = 0"
  using assms by (auto simp: run_command_def split: prod.splits command_outcome.splits if_splits)

lemma read_dump_Inr:
  assumes "read_dump exec rs limit r dumps w = (Inr dumps', w')"
  shows "aq_name r = ''openflow.flow.install'' \<and>
     ((dumps' = dumps \<and> map_of dumps (aq_target r) \<noteq> None)
      \<or> (map_of dumps (aq_target r) = None
         \<and> (\<exists>rules. dumps' = dumps @ [(aq_target r, rules)] \<and> reported exec rs (aq_target r) rules)))"
  using assms
  by (auto simp: read_dump_def Let_def dest!: run_command_Inr intro: reportedI
      split: if_splits sum.splits prod.splits)

lemma read_dumps_Inr:
  assumes "read_dumps exec rs limit requests dumps w = (Inr dumps', w')"
    and "\<And>name rules. map_of dumps name = Some rules \<Longrightarrow> reported exec rs name rules"
  shows "(\<forall>r\<in>set requests. aq_name r = ''openflow.flow.install''
            \<and> (\<exists>rules. map_of dumps' (aq_target r) = Some rules \<and> reported exec rs (aq_target r) rules))
         \<and> (\<forall>name rules. map_of dumps name = Some rules \<longrightarrow> map_of dumps' name = Some rules)"
  using assms
proof (induction requests arbitrary: dumps w)
  case (Cons r requests)
  then obtain d v where d: "read_dump exec rs limit r dumps w = (Inr d, v)"
    "read_dumps exec rs limit requests d v = (Inr dumps', w')"
    by (auto split: prod.splits sum.splits)
  note step = read_dump_Inr [OF d(1)]
  have "reported exec rs name rules" if "map_of d name = Some rules" for name rules
    using step that Cons.prems(2) by (auto simp: map_add_def split: option.splits if_splits)
  note later = Cons.IH [OF d(2) this]
  from step Cons.prems(2) have "\<exists>rules. map_of d (aq_target r) = Some rules \<and> reported exec rs (aq_target r) rules"
    by (auto simp: map_add_def split: option.splits)
  moreover have "map_of d name = Some rules" if "map_of dumps name = Some rules" for name rules
    using step that by (auto simp: map_add_def)
  ultimately show ?case using later step by auto
qed simp

lemma inspect_rules_report:
  assumes "inspect_rules shown exec rs limit requests w = (Inr states, w')"
    and "\<And>r. r \<in> set requests \<Longrightarrow> plain_rule shown (aq_parameters r) \<and> \<not> bare_rule (aq_parameters r)"
  shows "\<exists>held. (\<forall>r\<in>set requests. reported exec rs (aq_target r) (held (aq_target r)))
           \<and> states = map (\<lambda>r. state_of_rule (map map_of (held (aq_target r)))
                               (rule_meaning shown (aq_parameters r))) requests"
proof -
  from assms(1) obtain dumps where dumps: "read_dumps exec rs limit requests [] w = (Inr dumps, w')"
    and states: "map_res (\<lambda>r. bind_res (expected_rule shown (aq_parameters r))
                          (\<lambda>e. Inr (rule_state (the (map_of dumps (aq_target r))) e))) requests = Inr states"
    by (auto simp: inspect_rules_def split: prod.splits sum.splits)
  let ?held = "\<lambda>name. the (map_of dumps name)"
  from read_dumps_Inr [OF dumps] have "\<forall>r\<in>set requests. reported exec rs (aq_target r) (?held (aq_target r))"
    by fastforce
  moreover have "list_all2 (\<lambda>r s. s = state_of_rule (map map_of (?held (aq_target r)))
                               (rule_meaning shown (aq_parameters r))) requests states"
  proof (rule list_all2_mono' [OF states [unfolded map_res_Inr_iff]])
    fix r s assume r: "r \<in> set requests"
      and "bind_res (expected_rule shown (aq_parameters r)) (\<lambda>e. Inr (rule_state (?held (aq_target r)) e)) = Inr s"
    then obtain e where e: "expected_rule shown (aq_parameters r) = Inr e" "s = rule_state (?held (aq_target r)) e"
      by (auto simp: bind_res_Inr_iff)
    from assms(2) [OF r] expected_rule_meaning [OF e(1)]
    show "s = state_of_rule (map map_of (?held (aq_target r))) (rule_meaning shown (aq_parameters r))"
      by (simp add: e(2) rule_state_abstract)
  qed
  then have "states = map (\<lambda>r. state_of_rule (map map_of (?held (aq_target r)))
                               (rule_meaning shown (aq_parameters r))) requests"
    by (induction rule: list_all2_induct) auto
  ultimately show ?thesis by (intro exI [of _ ?held] conjI)
qed

section \<open>A concrete rule\<close>

definition sample_parameters :: json_object where
  "sample_parameters =
     [(''match'', JObj [(''in_port'', JStr ''1''), (''ip'', JBool True)]), (''actions'', JStr ''output:2''),
      (''priority'', JInt 7), (''cookie'', JStr ''0xa'')]"

definition sample_text :: "json \<Rightarrow> string" where
  "sample_text v = []"

definition sample_install :: action_request where
  "sample_install = \<lparr>aq_id = ''bounded-1'', aq_name = ''openflow.flow.install'', aq_target = ''s1'',
     aq_parameters = sample_parameters, aq_timeout = 30\<rparr>"

definition sample_rule_switch :: planned_resource where
  "sample_rule_switch = NodeResource \<lparr>pn_name = ''s1'', pn_labels = [], pn_parent = None, pn_attributes = [],
     pn_body = PlannedSwitch ''0000000000000001'' Secure Kernel [] [OpenFlow13]\<rparr>"

text \<open>A switch that answers a dump with one rule, and anything else with nothing.\<close>

definition sample_executor :: "unit executor" where
  "sample_executor w argv on limit =
     (CommandDone \<lparr>cr_out = (if argv = [''ovs-ofctl'', ''-O'', ''OpenFlow13'', ''dump-flows'', ''s1'']
        then '' cookie=0xa, duration=1.5s, table=0, n_packets=0, n_bytes=0, priority=7,ip,in_port=1 actions=output:2''
        else []), cr_err = [], cr_code = 0\<rparr>, w)"

lemma sample_expression: "flow_expression sample_text sample_parameters True
    = Inr ''cookie=0xa,priority=7,in_port=1,ip,actions=output:2''"
  by code_simp

lemma sample_inspection:
  "inspect_rules sample_text sample_executor [sample_rule_switch] None [sample_install] () = (Inr [''present''], ())"
  by code_simp

section \<open>Properties\<close>

lemma bare_rule_unread:
  assumes "flow_expression shown ps True = Inr e" and "plain_rule shown ps" and "bare_rule ps"
    and "map_of ps ''actions'' = Some (JStr a)" and "\<not> has_text ''actions='' a"
  shows "parse_flow_expression e = Inr []"
proof -
  from assms(1) obtain fs where fs: "flow_fields shown ps True = Inr fs" "e = join_with (CHR '','') fs"
    by (auto simp: flow_expression_fields)
  have e: "e = ''actions='' @ a" and a: "flow_token a"
    by (rule flow_fields_Inr [OF fs(1) assms(2)]; use fs(2) assms(3,4) bare_iff [of ps shown] in auto)+
  from a have "a \<noteq> []" by (simp add: flow_token_def)
  then have "trimmed e" using assms(2,4) by (simp add: e plain_rule_def trimmed_def blank_def)
  then have "strip e = e" by (rule strip_trimmed)
  then have "actions_at (strip e) = None" unfolding e using actions_at_bare [OF assms(5)] by (simp only:)
  then show ?thesis by (simp only: parse_flow_expression_def option.case)
qed

text \<open>C12. A rule that the driver writes for \<open>ovs-ofctl\<close> reads back as what its parameters mean: the
  parser finds in the written text the given cookie, table, priority, timeouts and action text, the
  defaults for what is not given, and every field of the match. This holds for every rule with plain
  fields that has some field before its actions. Of a rule with nothing but actions the
  parser reads nothing at all, since its pattern wants a separator before \<open>actions=\<close>.
\<close>

theorem written_rules_read_back:
  assumes "flow_expression shown ps True = Inr e" and "plain_rule shown ps"
    and "map_of ps ''actions'' = Some (JStr a)" and "\<not> has_text ''actions='' a"
  shows "if bare_rule ps then parse_flow_expression e = Inr []
         else \<exists>rule. parse_flow_expression e = Inr rule \<and> map_of rule = rule_meaning shown ps"
  using bare_rule_unread [OF assms(1,2) _ assms(3,4)] written_rule_parsed [OF assms(1,2)] by simp

lemma sample_plain: "plain_rule sample_text sample_parameters" "\<not> bare_rule sample_parameters"
  by code_simp+

theorem written_rules_read_back_witness:
  "\<exists>rule. parse_flow_expression ''cookie=0xa,priority=7,in_port=1,ip,actions=output:2'' = Inr rule
     \<and> map_of rule = rule_meaning sample_text sample_parameters"
proof -
  have "map_of sample_parameters ''actions'' = Some (JStr ''output:2'')" "\<not> has_text ''actions='' ''output:2''"
    by code_simp+
  from written_rules_read_back [OF sample_expression sample_plain(1) this] sample_plain(2) show ?thesis by simp
qed

end
