(* ===== verification/Rule_Inspection.thy ===== *)
theory Rule_Inspection
  imports Flows Bounded
begin

text \<open>
  The inspection of a scenario's rules that a bounded decision asks the Open vSwitch runtime for
  (\<open>inspect_scenario_actions\<close> of \<open>mininet_ai/substrates/mininet_ovs/runtime.py\<close>, called by
  \<open>_inspect_policy\<close> of \<open>mininet_ai/agents/bounded.py\<close>), and what a policy verified by it says of
  the switches. The inspector of \<open>Bounded\<close>, an argument there, is the driver of \<open>Flows\<close> here.
\<close>

text \<open>The request of a bundle, with the default time limit of a request.\<close>

definition rule_request :: "bundle_request \<Rightarrow> action_request" where
  "rule_request b =
     \<lparr>aq_id = br_id b, aq_name = br_name b, aq_target = br_target b, aq_parameters = br_parameters b,
      aq_timeout = 30\<rparr>"

text \<open>Every exception of the driver becomes one that says the rules are unreadable.\<close>

definition driver_inspection ::
  "(json \<Rightarrow> string) \<Rightarrow> 'w executor \<Rightarrow> planned_resource list \<Rightarrow> rat option \<Rightarrow> bundle_request list
   \<Rightarrow> 'w \<Rightarrow> inspection" where
  "driver_inspection shown exec rs limit bundle w =
     (case fst (inspect_rules shown exec rs limit (map rule_request bundle) w) of
        Inl _ \<Rightarrow> InspectorRaised
      | Inr states \<Rightarrow> InspectorStates states)"

text \<open>A switch holds a rule: one rule of its table is the same flow, and it is that very rule.\<close>

definition holds_rule :: "flow_rule list \<Rightarrow> meaning \<Rightarrow> bool" where
  "holds_rule rules wanted \<longleftrightarrow> filter (\<lambda>m. same_flow m wanted) (map map_of rules) = [wanted]"

lemma present_holds: "state_of_rule (map map_of rules) wanted = ''present'' \<longleftrightarrow> holds_rule rules wanted"
  by (auto simp: state_of_rule_def holds_rule_def split: list.splits)

lemma verified_recovery_states:
  assumes "rc_policy (inspect_policy expired i ad) = VerifiedRecovery"
  obtains states where "i = InspectorStates states" "states = replicate (length (ba_bundle ad)) ''present''"
proof -
  have "ba_bundle ad \<noteq> []"
  proof
    assume "ba_bundle ad = []"
    with assms show False
      by (auto simp: inspect_policy_def inspect_states_def reconcile_bundle_def Let_def
          split: if_splits inspection.splits)
  qed
  moreover have "rc_policy (inspect_policy expired i ad) \<noteq> PolicyUnknown" by (simp add: assms)
  ultimately obtain k m where km: "i = InspectorStates (applied k m)" "length (ba_bundle ad) = k + m"
    "rc_policy (inspect_policy expired i ad)
       = (if k = 0 then VerifiedPrimary else if m = 0 then VerifiedRecovery else PartlyApplied)"
    using inspection_known by metis
  with assms have "m = 0" by (simp split: if_splits)
  with km show thesis by (intro that [of "applied k m"]) (simp_all add: applied_def)
qed

text \<open>C6. A recovery that a bounded decision takes as verified is in place on the switches: for
  every rule of the bundle, the switch of the rule has reported, during the inspection, a flow table in
  which exactly one rule is the same flow, and that rule is what the parameters of the step mean, in
  every field.
\<close>

theorem verified_recovery_is_installed:
  assumes "rc_policy (inspect_policy expired (driver_inspection shown exec rs limit (ba_bundle ad) w) ad)
             = VerifiedRecovery"
    and "\<And>b. b \<in> set (ba_bundle ad) \<Longrightarrow> plain_rule shown (br_parameters b) \<and> \<not> bare_rule (br_parameters b)"
    and "b \<in> set (ba_bundle ad)"
  shows "\<exists>rules. reported exec rs (br_target b) rules \<and> holds_rule rules (rule_meaning shown (br_parameters b))"
proof -
  let ?requests = "map rule_request (ba_bundle ad)"
  obtain states where states: "driver_inspection shown exec rs limit (ba_bundle ad) w = InspectorStates states"
    "states = replicate (length (ba_bundle ad)) ''present''"
    using verified_recovery_states [OF assms(1)] .
  have "fst (inspect_rules shown exec rs limit ?requests w) = Inr states"
    using states(1) by (simp add: driver_inspection_def split: sum.splits)
  then have "inspect_rules shown exec rs limit ?requests w
      = (Inr states, snd (inspect_rules shown exec rs limit ?requests w))" by (simp add: prod_eq_iff)
  moreover have "plain_rule shown (aq_parameters r) \<and> \<not> bare_rule (aq_parameters r)" if "r \<in> set ?requests" for r
    using that assms(2) by (auto simp: rule_request_def)
  ultimately obtain held where held: "\<forall>r\<in>set ?requests. reported exec rs (aq_target r) (held (aq_target r))"
    "states = map (\<lambda>r. state_of_rule (map map_of (held (aq_target r)))
                          (rule_meaning shown (aq_parameters r))) ?requests"
    using inspect_rules_report [of shown exec rs limit ?requests w states] by blast
  have "state_of_rule (map map_of (held (br_target b))) (rule_meaning shown (br_parameters b)) \<in> set states"
    using assms(3) by (auto simp: held(2) rule_request_def image_iff)
  with states(2) assms(3) have "holds_rule (held (br_target b)) (rule_meaning shown (br_parameters b))"
    by (simp add: present_holds)
  moreover have "reported exec rs (br_target b) (held (br_target b))"
    using held(1) assms(3) by (auto simp: rule_request_def)
  ultimately show ?thesis by blast
qed

definition sample_bundle :: bounded_adapter where
  "sample_bundle = sample_adapter\<lparr>ba_substrate := True, ba_bundle :=
     [\<lparr>br_id = ''bounded-1'', br_name = ''openflow.flow.install'', br_target = ''s1'',
       br_parameters = sample_parameters\<rparr>]\<rparr>"

lemma sample_verified:
  "rc_policy (inspect_policy False
     (driver_inspection sample_text sample_executor [sample_rule_switch] None (ba_bundle sample_bundle) ()) sample_bundle)
   = VerifiedRecovery"
proof -
  have "driver_inspection sample_text sample_executor [sample_rule_switch] None (ba_bundle sample_bundle) ()
      = InspectorStates [''present'']"
    using sample_inspection by (simp add: driver_inspection_def sample_bundle_def rule_request_def sample_install_def)
  then show ?thesis
    by (simp add: inspect_policy_def inspect_states_def reconcile_bundle_def sample_bundle_def Let_def)
qed

theorem verified_recovery_is_installed_witness:
  "\<exists>rules. reported sample_executor [sample_rule_switch] ''s1'' rules
     \<and> holds_rule rules (rule_meaning sample_text sample_parameters)"
proof -
  have "plain_rule sample_text (br_parameters b) \<and> \<not> bare_rule (br_parameters b)"
    if "b \<in> set (ba_bundle sample_bundle)" for b
    using that sample_plain by (simp add: sample_bundle_def)
  from verified_recovery_is_installed [OF sample_verified this] show ?thesis
    by (simp add: sample_bundle_def)
qed

end
