(* ===== verification/Link_Actions.thy ===== *)
theory Link_Actions
  imports Flows Decision_Client
begin

text \<open>
  The link actions of the Open vSwitch driver (\<open>mininet_ai/substrates/mininet_ovs/actions.py\<close>):
  taking both ends of a link up or down with undo after a failure (\<open>_set_link_state\<close>), and
  changing the shaping parameters of a link (\<open>_configure_link\<close>, \<open>_validate_link_parameters\<close>).

  Mininet is an argument, a record of what the driver calls on it: the live interfaces, the
  lookup of a node, \<open>config\<close> of an interface (with whether it returned), the command executor of
  \<open>Flows\<close> and \<open>json.loads\<close>. The state of the world is threaded through every call.
\<close>

section \<open>The network\<close>

record 'w network =
  nw_exec :: "'w executor"
  nw_loads :: loads
  nw_interfaces :: "string list"
  nw_node :: "string \<Rightarrow> bool"
  nw_config :: "string \<Rightarrow> json_object \<Rightarrow> 'w \<Rightarrow> bool \<times> 'w"

text \<open>An end of a link: the interface and the node it is on.\<close>

type_synonym link_end = "string \<times> string"

definition node_name :: "'w network \<Rightarrow> string \<Rightarrow> ovs_error + string" where
  "node_name nw name = (if nw_node nw name then Inr name else Inl action_failed)"

definition link_end_of ::
  "'w network \<Rightarrow> planned_resource list \<Rightarrow> string \<Rightarrow> ovs_error + link_end" where
  "link_end_of nw rs port =
     (case resource_table rs port of
        None \<Rightarrow> Inl NoSuchResource
      | Some r \<Rightarrow>
          if port \<notin> set (nw_interfaces nw) then Inl action_failed
          else bind_res (node_name nw (case res_parent r of None \<Rightarrow> [] | Some p \<Rightarrow> p))
                 (\<lambda>n. Inr (port, n)))"

fun link_ports :: "planned_resource \<Rightarrow> string list" where
  "link_ports (LinkResource l) = [fst (pk_endpoints l), snd (pk_endpoints l)]"
| "link_ports _ = []"

definition link_interfaces ::
  "'w network \<Rightarrow> planned_resource list \<Rightarrow> planned_resource \<Rightarrow> ovs_error + link_end list" where
  "link_interfaces nw rs link = map_res (link_end_of nw rs) (link_ports link)"

section \<open>Reading the state of an interface\<close>

definition show_command :: "string \<Rightarrow> string list" where
  "show_command name = [''ip'', ''-j'', ''link'', ''show'', ''dev'', name]"

text \<open>\<open>value[0]["flags"]\<close>, with the exceptions that are caught.\<close>

definition interface_flags :: "loads \<Rightarrow> string \<Rightarrow> ovs_error + json" where
  "interface_flags loads out =
     (case loads out of
        Some (JArr (JObj o' # _)) \<Rightarrow>
          (case map_of o' ''flags'' of
             Some v \<Rightarrow> Inr v
           | None \<Rightarrow> Inl (ActionError ''runtime.action.invalid-output'' ActionFailed))
      | _ \<Rightarrow> Inl (ActionError ''runtime.action.invalid-output'' ActionFailed))"

text \<open>\<open>"UP" in flags\<close>: in an array, a text or the keys of an object; anything else raises.\<close>

definition says_up :: "json \<Rightarrow> ovs_error + bool" where
  "says_up flags =
     (case flags of
        JArr xs \<Rightarrow> Inr (JStr ''UP'' \<in> set xs)
      | JStr s \<Rightarrow> Inr (has_text ''UP'' s)
      | JObj o' \<Rightarrow> Inr (''UP'' \<in> fst ` set o')
      | _ \<Rightarrow> Inl OtherError)"

definition interface_is_up :: "'w network \<Rightarrow> link_end \<Rightarrow> 'w \<Rightarrow> (ovs_error + bool) \<times> 'w" where
  "interface_is_up nw = (\<lambda>(name, on) w.
     case run_command (nw_exec nw) (show_command name) (Some on) None w of
       (Inl e, w') \<Rightarrow> (Inl e, w')
     | (Inr out, w') \<Rightarrow> (bind_res (interface_flags (nw_loads nw) (cr_out out)) says_up, w'))"

fun interfaces_up :: "'w network \<Rightarrow> link_end list \<Rightarrow> 'w \<Rightarrow> (ovs_error + bool list) \<times> 'w" where
  "interfaces_up nw [] w = (Inr [], w)"
| "interfaces_up nw (i # sides) w =
     (case interface_is_up nw i w of
        (Inl e, w') \<Rightarrow> (Inl e, w')
      | (Inr b, w') \<Rightarrow>
          (case interfaces_up nw sides w' of
             (Inl e, w'') \<Rightarrow> (Inl e, w'')
           | (Inr bs, w'') \<Rightarrow> (Inr (b # bs), w'')))"

section \<open>Taking a link up or down\<close>

definition set_command :: "string \<Rightarrow> string \<Rightarrow> string list" where
  "set_command name state = [''ip'', ''link'', ''set'', ''dev'', name, state]"

definition state_name :: "bool \<Rightarrow> string" where
  "state_name up = (if up then ''up'' else ''down'')"

definition set_interface :: "'w network \<Rightarrow> rat \<Rightarrow> bool \<Rightarrow> link_end \<Rightarrow> 'w \<Rightarrow> (ovs_error + command_result) \<times> 'w" where
  "set_interface nw limit up = (\<lambda>(name, on) w.
     run_command (nw_exec nw) (set_command name (state_name up)) (Some on) (Some limit) w)"

text \<open>The changed ends are set one by one until one fails; the failure, if any, and what is done.\<close>

fun set_interfaces ::
  "'w network \<Rightarrow> rat \<Rightarrow> bool \<Rightarrow> link_end list \<Rightarrow> link_end list \<Rightarrow> 'w
   \<Rightarrow> ovs_error option \<times> link_end list \<times> 'w" where
  "set_interfaces nw limit up [] completed w = (None, completed, w)"
| "set_interfaces nw limit up (i # sides) completed w =
     (case set_interface nw limit up i w of
        (Inl e, w') \<Rightarrow> (Some e, completed, w')
      | (Inr _, w') \<Rightarrow> set_interfaces nw limit up sides (completed @ [i]) w')"

text \<open>Undo: a failure of one is passed over.\<close>

fun undo_interfaces :: "'w network \<Rightarrow> rat \<Rightarrow> bool \<Rightarrow> link_end list \<Rightarrow> 'w \<Rightarrow> 'w" where
  "undo_interfaces nw limit up [] w = w"
| "undo_interfaces nw limit up (i # sides) w =
     undo_interfaces nw limit up sides (snd (set_interface nw limit (\<not> up) i w))"

definition changed_ends :: "bool \<Rightarrow> link_end list \<Rightarrow> bool list \<Rightarrow> link_end list" where
  "changed_ends up sides states = map fst (filter (\<lambda>(_, b). b \<noteq> up) (zip sides states))"

definition set_link_state ::
  "'w network \<Rightarrow> planned_resource list \<Rightarrow> bool \<Rightarrow> action_request \<Rightarrow> 'w
   \<Rightarrow> (ovs_error + action_outcome) \<times> 'w" where
  "set_link_state nw rs up r w =
     (if aq_parameters r \<noteq> [] then (Inl reject, w)
      else case require_kind rs (aq_target r) LinkKind of
        Inl e \<Rightarrow> (Inl e, w)
      | Inr link \<Rightarrow>
          (case link_interfaces nw rs link of
             Inl e \<Rightarrow> (Inl e, w)
           | Inr sides \<Rightarrow>
               (case interfaces_up nw sides w of
                  (Inl e, w') \<Rightarrow> (Inl e, w')
                | (Inr states, w') \<Rightarrow>
                    (let changed = changed_ends up sides states in
                     case set_interfaces nw (aq_timeout r) up changed [] w' of
                       (Some e, completed, w'') \<Rightarrow>
                         (Inl e, undo_interfaces nw (aq_timeout r) up (rev completed) w'')
                     | (None, _, w'') \<Rightarrow>
                         (Inr \<lparr>ao_changed = changed \<noteq> [],
                               ao_output = [(''link'', JStr (aq_target r)), (''state'', JStr (state_name up)),
                                            (''interfaces'', JArr (map (JStr \<circ> fst) sides))]\<rparr>, w'')))))"

section \<open>Shaping a link\<close>

definition link_parameter_names :: "string list" where
  "link_parameter_names = [''bandwidth'', ''delay'', ''jitter'', ''loss'', ''maxQueueSize'']"

text \<open>A number that is no \<open>bool\<close>.\<close>

fun plain_rat :: "json \<Rightarrow> rat option" where
  "plain_rat (JInt i) = Some (of_int i)"
| "plain_rat (JFloat q) = Some q"
| "plain_rat _ = None"

definition in_bounds :: "(rat \<Rightarrow> bool) \<Rightarrow> json \<Rightarrow> bool" where
  "in_bounds p v = (case plain_rat v of None \<Rightarrow> False | Some q \<Rightarrow> p q)"

definition valid_link_parameter :: "string \<times> json \<Rightarrow> bool" where
  "valid_link_parameter = (\<lambda>(name, v).
     if name = ''bandwidth'' then in_bounds (\<lambda>q. 0 < q \<and> q \<le> 1000) v
     else if name = ''loss'' then in_bounds (\<lambda>q. 0 \<le> q \<and> q \<le> 100) v
     else if name = ''maxQueueSize'' then (case v of JInt i \<Rightarrow> 0 < i | _ \<Rightarrow> False)
     else if name = ''delay'' \<or> name = ''jitter'' then
       (case v of JNull \<Rightarrow> True | JStr s \<Rightarrow> duration_seconds s \<noteq> None | _ \<Rightarrow> False)
     else False)"

definition validate_link_parameters :: "json_object \<Rightarrow> ovs_error + json_object" where
  "validate_link_parameters ps =
     (if \<not> list_all (\<lambda>(k, _). k \<in> set link_parameter_names) ps then Inl reject
      else if ps = [] then Inl reject
      else if \<not> list_all valid_link_parameter ps then Inl reject
      else Inr ps)"

definition planned_link_parameters :: "planned_link \<Rightarrow> json_object" where
  "planned_link_parameters l =
     [(''bandwidth'', case pk_bandwidth l of None \<Rightarrow> JNull | Some b \<Rightarrow> JFloat b),
      (''delay'', case pk_delay l of None \<Rightarrow> JNull | Some d \<Rightarrow> JStr d),
      (''jitter'', case pk_jitter l of None \<Rightarrow> JNull | Some d \<Rightarrow> JStr d),
      (''loss'', JFloat (pk_loss l)),
      (''maxQueueSize'', case pk_max_queue l of None \<Rightarrow> JNull | Some n \<Rightarrow> JInt (int n))]"

definition mininet_link_parameters :: "json_object \<Rightarrow> json_object" where
  "mininet_link_parameters ps =
     [(''bw'', the (map_of ps ''bandwidth'')), (''delay'', the (map_of ps ''delay'')),
      (''jitter'', the (map_of ps ''jitter'')), (''loss'', the (map_of ps ''loss'')),
      (''max_queue_size'', the (map_of ps ''maxQueueSize''))]"

text \<open>The parameters of every link, as the driver records them.\<close>

type_synonym link_table = "(string \<times> json_object) list"

definition initial_links :: "planned_resource list \<Rightarrow> link_table" where
  "initial_links rs =
     concat (map (\<lambda>r. case r of LinkResource l \<Rightarrow> [(pk_name l, planned_link_parameters l)] | _ \<Rightarrow> []) rs)"

definition merge_parameters :: "json_object \<Rightarrow> json_object \<Rightarrow> json_object" where
  "merge_parameters previous updates = fold (\<lambda>(k, v). AList.update k v) updates previous"

fun config_interfaces ::
  "'w network \<Rightarrow> json_object \<Rightarrow> link_end list \<Rightarrow> link_end list \<Rightarrow> 'w \<Rightarrow> bool \<times> link_end list \<times> 'w" where
  "config_interfaces nw ps [] configured w = (True, configured, w)"
| "config_interfaces nw ps (i # sides) configured w =
     (case nw_config nw (fst i) (mininet_link_parameters ps) w of
        (False, w') \<Rightarrow> (False, configured, w')
      | (True, w') \<Rightarrow> config_interfaces nw ps sides (configured @ [i]) w')"

fun restore_interfaces :: "'w network \<Rightarrow> json_object \<Rightarrow> link_end list \<Rightarrow> 'w \<Rightarrow> 'w" where
  "restore_interfaces nw ps [] w = w"
| "restore_interfaces nw ps (i # sides) w =
     restore_interfaces nw ps sides (snd (nw_config nw (fst i) (mininet_link_parameters ps) w))"

definition configure_link ::
  "'w network \<Rightarrow> planned_resource list \<Rightarrow> link_table \<Rightarrow> action_request \<Rightarrow> 'w
   \<Rightarrow> (ovs_error + action_outcome) \<times> link_table \<times> 'w" where
  "configure_link nw rs links r w =
     (case require_kind rs (aq_target r) LinkKind of
        Inl e \<Rightarrow> (Inl e, links, w)
      | Inr link \<Rightarrow>
          (case validate_link_parameters (aq_parameters r) of
             Inl e \<Rightarrow> (Inl e, links, w)
           | Inr updates \<Rightarrow>
               (let previous = the (map_of links (res_name link));
                    current = merge_parameters previous updates;
                    outcome = (\<lambda>changed. \<lparr>ao_changed = changed,
                      ao_output = [(''link'', JStr (res_name link)), (''parameters'', JObj current)]\<rparr>)
                in if parameter ''jitter'' current \<noteq> None \<and> parameter ''delay'' current = None
                   then (Inl reject, links, w)
                   else if py_eq (JObj current) (JObj previous) then (Inr (outcome False), links, w)
                   else case link_interfaces nw rs link of
                     Inl e \<Rightarrow> (Inl e, links, w)
                   | Inr sides \<Rightarrow>
                       (case config_interfaces nw current sides [] w of
                          (True, _, w') \<Rightarrow> (Inr (outcome True), AList.update (res_name link) current links, w')
                        | (False, configured, w') \<Rightarrow>
                            (Inl action_failed, links, restore_interfaces nw previous (rev configured) w')))))"


section \<open>What was asked of the network\<close>

text \<open>
  The network with a record of the calls: every command with how it ended, and every call of
  \<open>config\<close> with whether it returned. It answers as the network does (\<open>set_link_state_unlogged\<close>,
  \<open>configure_link_unlogged\<close>).
\<close>

datatype network_call =
    CommandRun "string list" command_outcome
  | Configured string json_object bool

definition logged_exec :: "'w executor \<Rightarrow> ('w \<times> network_call list) executor" where
  "logged_exec exec = (\<lambda>(w, calls) argv on limit.
     case exec w argv on limit of (outcome, w') \<Rightarrow> (outcome, (w', calls @ [CommandRun argv outcome])))"

definition logged_config ::
  "(string \<Rightarrow> json_object \<Rightarrow> 'w \<Rightarrow> bool \<times> 'w)
   \<Rightarrow> string \<Rightarrow> json_object \<Rightarrow> 'w \<times> network_call list \<Rightarrow> bool \<times> 'w \<times> network_call list" where
  "logged_config config n ps = (\<lambda>(w, calls).
     case config n ps w of (returned, w') \<Rightarrow> (returned, (w', calls @ [Configured n ps returned])))"

definition logged :: "'w network \<Rightarrow> ('w \<times> network_call list) network" where
  "logged nw =
     \<lparr>nw_exec = logged_exec (nw_exec nw), nw_loads = nw_loads nw, nw_interfaces = nw_interfaces nw,
      nw_node = nw_node nw, nw_config = logged_config (nw_config nw)\<rparr>"

lemma logged_sel [simp]:
  "nw_exec (logged nw) = logged_exec (nw_exec nw)" "nw_loads (logged nw) = nw_loads nw"
  "nw_interfaces (logged nw) = nw_interfaces nw" "nw_node (logged nw) = nw_node nw"
  "nw_config (logged nw) = logged_config (nw_config nw)"
  by (simp_all add: logged_def)

lemma link_interfaces_logged [simp]: "link_interfaces (logged nw) rs link = link_interfaces nw rs link"
proof -
  have "link_end_of (logged nw) rs = link_end_of nw rs"
    by (rule ext) (simp add: link_end_of_def node_name_def split: option.split)
  then show ?thesis by (simp add: link_interfaces_def)
qed

lemma run_command_unlogged:
  "run_command (logged_exec exec) argv on limit (w, calls) = (res, v, calls') \<Longrightarrow>
     run_command exec argv on limit w = (res, v)"
  by (auto simp: run_command_def logged_exec_def split: prod.splits command_outcome.splits)

lemma set_interface_unlogged:
  "set_interface (logged nw) limit b i (w, calls) = (res, v, calls') \<Longrightarrow> set_interface nw limit b i w = (res, v)"
  by (auto simp: set_interface_def split: prod.splits dest: run_command_unlogged)

lemma interface_is_up_unlogged:
  "interface_is_up (logged nw) i (w, calls) = (res, v, calls') \<Longrightarrow> interface_is_up nw i w = (res, v)"
  by (auto simp: interface_is_up_def split: prod.splits sum.splits dest!: run_command_unlogged)

lemma interfaces_up_unlogged:
  "interfaces_up (logged nw) sides (w, calls) = (res, v, calls') \<Longrightarrow> interfaces_up nw sides w = (res, v)"
proof (induction sides arbitrary: w calls res v calls')
  case (Cons i sides)
  obtain one u calls1 where one: "interface_is_up (logged nw) i (w, calls) = (one, u, calls1)"
    by (cases "interface_is_up (logged nw) i (w, calls)")
  note plain = interface_is_up_unlogged [OF one]
  show ?case
  proof (cases one)
    case (Inl e)
    with Cons.prems one plain show ?thesis by simp
  next
    case (Inr b)
    obtain rest u2 calls2 where rest: "interfaces_up (logged nw) sides (u, calls1) = (rest, u2, calls2)"
      by (cases "interfaces_up (logged nw) sides (u, calls1)")
    from Cons.IH [OF rest] Cons.prems one plain Inr rest show ?thesis by (cases rest) auto
  qed
qed simp

lemma set_interfaces_unlogged:
  "set_interfaces (logged nw) limit b sides completed (w, calls) = (failure, all, v, calls') \<Longrightarrow>
     set_interfaces nw limit b sides completed w = (failure, all, v)"
proof (induction sides arbitrary: completed w calls)
  case (Cons i sides)
  obtain one u calls1 where one: "set_interface (logged nw) limit b i (w, calls) = (one, u, calls1)"
    by (cases "set_interface (logged nw) limit b i (w, calls)")
  with Cons set_interface_unlogged [OF one] show ?case by (cases one) auto
qed simp

lemma undo_interfaces_unlogged:
  "undo_interfaces (logged nw) limit b sides (w, calls) = (v, calls') \<Longrightarrow> undo_interfaces nw limit b sides w = v"
proof (induction sides arbitrary: w calls)
  case (Cons i sides)
  obtain one u calls1 where one: "set_interface (logged nw) limit (\<not> b) i (w, calls) = (one, u, calls1)"
    by (cases "set_interface (logged nw) limit (\<not> b) i (w, calls)")
  with Cons set_interface_unlogged [OF one] show ?case by simp
qed simp

lemma set_link_state_unlogged:
  assumes "set_link_state (logged nw) rs b r (w, calls) = (res, v, calls')"
  shows "set_link_state nw rs b r w = (res, v)"
proof (cases "aq_parameters r \<noteq> [] \<or> isl (require_kind rs (aq_target r) LinkKind)
      \<or> isl (link_interfaces nw rs (projr (require_kind rs (aq_target r) LinkKind)))")
  case True
  with assms show ?thesis by (auto simp: set_link_state_def split: sum.splits if_splits)
next
  case False
  then obtain link sides where link: "require_kind rs (aq_target r) LinkKind = Inr link"
    "link_interfaces nw rs link = Inr sides" and given: "aq_parameters r = []"
    by (cases "require_kind rs (aq_target r) LinkKind"; cases "link_interfaces nw rs (projr (require_kind rs (aq_target r) LinkKind))") auto
  obtain read u calls1 where read: "interfaces_up (logged nw) sides (w, calls) = (read, u, calls1)"
    by (cases "interfaces_up (logged nw) sides (w, calls)")
  note plain = interfaces_up_unlogged [OF read]
  show ?thesis
  proof (cases read)
    case (Inl e)
    with assms link given read plain show ?thesis by (simp add: set_link_state_def)
  next
    case (Inr states)
    obtain failure all x calls2 where set:
      "set_interfaces (logged nw) (aq_timeout r) b (changed_ends b sides states) [] (u, calls1) = (failure, all, x, calls2)"
      by (cases "set_interfaces (logged nw) (aq_timeout r) b (changed_ends b sides states) [] (u, calls1)")
    obtain y calls3 where undo: "undo_interfaces (logged nw) (aq_timeout r) b (rev all) (x, calls2) = (y, calls3)"
      by fastforce
    from assms link given read plain Inr set set_interfaces_unlogged [OF set] undo undo_interfaces_unlogged [OF undo]
    show ?thesis by (cases failure) (auto simp: set_link_state_def)
  qed
qed

lemma config_interfaces_unlogged:
  "config_interfaces (logged nw) ps sides configured (w, calls) = (ok, all, v, calls') \<Longrightarrow>
     config_interfaces nw ps sides configured w = (ok, all, v)"
proof (induction sides arbitrary: configured w calls)
  case (Cons i sides)
  obtain one u where one: "nw_config nw (fst i) (mininet_link_parameters ps) w = (one, u)" by fastforce
  with Cons show ?case by (cases one) (auto simp: logged_config_def)
qed simp

lemma restore_interfaces_unlogged:
  "restore_interfaces (logged nw) ps sides (w, calls) = (v, calls') \<Longrightarrow> restore_interfaces nw ps sides w = v"
proof (induction sides arbitrary: w calls)
  case (Cons i sides)
  obtain one u where "nw_config nw (fst i) (mininet_link_parameters ps) w = (one, u)" by fastforce
  with Cons show ?case by (auto simp: logged_config_def)
qed simp

section \<open>All or nothing\<close>

text \<open>
  What \<open>ip link\<close> documents, over the state \<open>up\<close> of the interfaces: a command that sets an
  interface and exits with 0 does just that, one that exits with another code changes nothing, and
  one that was cut off (it ran out of time, or running it broke) may or may not have done it, but
  has not touched another interface; showing an interface changes nothing and tells the truth.
\<close>

definition sets_interfaces :: "'w executor \<Rightarrow> ('w \<Rightarrow> string \<Rightarrow> bool) \<Rightarrow> bool" where
  "sets_interfaces exec up \<longleftrightarrow>
     (\<forall>w name on limit b.
        case exec w (set_command name (state_name b)) (Some on) limit of
          (CommandDone out, w') \<Rightarrow> up w' = (if cr_code out = 0 then (up w)(name := b) else up w)
        | (_, w') \<Rightarrow> \<forall>n. n \<noteq> name \<longrightarrow> up w' n = up w n)"

definition shows_interfaces :: "'w executor \<Rightarrow> loads \<Rightarrow> ('w \<Rightarrow> string \<Rightarrow> bool) \<Rightarrow> bool" where
  "shows_interfaces exec loads up \<longleftrightarrow>
     (\<forall>w name on limit.
        case exec w (show_command name) (Some on) limit of
          (outcome, w') \<Rightarrow> up w' = up w
            \<and> (\<forall>out b. outcome = CommandDone out \<longrightarrow> cr_code out = 0
                  \<longrightarrow> bind_res (interface_flags loads (cr_out out)) says_up = Inr b \<longrightarrow> b = up w name))"

definition obeys_ip :: "'w network \<Rightarrow> ('w \<Rightarrow> string \<Rightarrow> bool) \<Rightarrow> bool" where
  "obeys_ip nw up \<longleftrightarrow> sets_interfaces (nw_exec nw) up \<and> shows_interfaces (nw_exec nw) (nw_loads nw) up"

lemma obeys_ip_logged: "obeys_ip nw up \<Longrightarrow> obeys_ip (logged nw) (\<lambda>x. up (fst x))"
proof -
  assume "obeys_ip nw up"
  then have law: "sets_interfaces (nw_exec nw) up" "shows_interfaces (nw_exec nw) (nw_loads nw) up"
    by (simp_all add: obeys_ip_def)
  have sets: "case nw_exec nw w (set_command name (state_name b)) (Some on) limit of
          (CommandDone out, w') \<Rightarrow> up w' = (if cr_code out = 0 then (up w)(name := b) else up w)
        | (_, w') \<Rightarrow> \<forall>n. n \<noteq> name \<longrightarrow> up w' n = up w n" for w name on limit b
    using law(1) [unfolded sets_interfaces_def, THEN spec, of w, THEN spec, of name, THEN spec, of on,
      THEN spec, of limit, THEN spec, of b] .
  have shown: "case nw_exec nw w (show_command name) (Some on) limit of
          (outcome, w') \<Rightarrow> up w' = up w
            \<and> (\<forall>out b. outcome = CommandDone out \<longrightarrow> cr_code out = 0
                  \<longrightarrow> bind_res (interface_flags (nw_loads nw) (cr_out out)) says_up = Inr b \<longrightarrow> b = up w name)"
    for w name on limit
    using law(2) [unfolded shows_interfaces_def, THEN spec, of w, THEN spec, of name, THEN spec, of on,
      THEN spec, of limit] .
  have "sets_interfaces (nw_exec (logged nw)) (\<lambda>x. up (fst x))"
    unfolding sets_interfaces_def
  proof (intro allI)
    fix x :: "'a \<times> network_call list" and name on limit b
    obtain w calls where x: "x = (w, calls)" by (cases x)
    obtain outcome v where "nw_exec nw w (set_command name (state_name b)) (Some on) limit = (outcome, v)" by fastforce
    with sets [of w name b on limit] show "case nw_exec (logged nw) x (set_command name (state_name b)) (Some on) limit of
          (CommandDone out, w') \<Rightarrow> up (fst w') = (if cr_code out = 0 then (up (fst x))(name := b) else up (fst x))
        | (_, w') \<Rightarrow> \<forall>n. n \<noteq> name \<longrightarrow> up (fst w') n = up (fst x) n"
      by (cases outcome) (simp_all add: x logged_exec_def)
  qed
  moreover have "shows_interfaces (nw_exec (logged nw)) (nw_loads (logged nw)) (\<lambda>x. up (fst x))"
    unfolding shows_interfaces_def
  proof (intro allI)
    fix x :: "'a \<times> network_call list" and name on limit
    obtain w calls where x: "x = (w, calls)" by (cases x)
    obtain outcome v where "nw_exec nw w (show_command name) (Some on) limit = (outcome, v)" by fastforce
    with shown [of w name on limit] show "case nw_exec (logged nw) x (show_command name) (Some on) limit of
          (outcome, w') \<Rightarrow> up (fst w') = up (fst x)
            \<and> (\<forall>out b. outcome = CommandDone out \<longrightarrow> cr_code out = 0
                  \<longrightarrow> bind_res (interface_flags (nw_loads (logged nw)) (cr_out out)) says_up = Inr b
                  \<longrightarrow> b = up (fst x) name)"
      by (simp add: x logged_exec_def)
  qed
  ultimately show "obeys_ip (logged nw) (\<lambda>x. up (fst x))" unfolding obeys_ip_def by blast
qed

text \<open>
  The interfaces whose state the driver cannot answer for after it failed to set them to \<open>b\<close>: the
  command that sets one was cut off, or the command that sets it back did not succeed.
\<close>

definition exits_well :: "command_outcome \<Rightarrow> bool" where
  "exits_well outcome = (case outcome of CommandDone out \<Rightarrow> cr_code out = 0 | _ \<Rightarrow> False)"

definition cut_off :: "command_outcome \<Rightarrow> bool" where
  "cut_off outcome = (case outcome of CommandDone out \<Rightarrow> False | _ \<Rightarrow> True)"

definition in_doubt :: "bool \<Rightarrow> network_call list \<Rightarrow> string \<Rightarrow> bool" where
  "in_doubt b calls n \<longleftrightarrow>
     (\<exists>outcome. CommandRun (set_command n (state_name b)) outcome \<in> set calls \<and> cut_off outcome)
     \<or> (\<exists>outcome. CommandRun (set_command n (state_name (\<not> b))) outcome \<in> set calls \<and> \<not> exits_well outcome)"

lemma in_doubt_append: "in_doubt b (calls @ new) n \<longleftrightarrow> in_doubt b calls n \<or> in_doubt b new n"
  by (auto simp: in_doubt_def)

definition with_state :: "'b \<Rightarrow> link_end list \<Rightarrow> (string \<Rightarrow> 'b) \<Rightarrow> string \<Rightarrow> 'b" where
  "with_state b sides f n = (if n \<in> fst ` set sides then b else f n)"

lemma with_state_Nil [simp]: "with_state b [] f = f"
  by (simp add: with_state_def fun_eq_iff)

text \<open>One command.\<close>

lemma set_interface_result:
  assumes "sets_interfaces (nw_exec nw) up" and "set_interface (logged nw) limit b i (w, calls) = (res, v, calls')"
  obtains outcome where "calls' = calls @ [CommandRun (set_command (fst i) (state_name b)) outcome]"
    "\<And>n. n \<noteq> fst i \<Longrightarrow> up v n = up w n" "\<not> isl res \<longleftrightarrow> exits_well outcome"
    "exits_well outcome \<Longrightarrow> up v (fst i) = b" "\<not> exits_well outcome \<Longrightarrow> \<not> cut_off outcome \<Longrightarrow> up v = up w"
proof -
  obtain name on where i: "i = (name, on)" by (cases i)
  let ?t = "if limit = 0 then 10 else limit"
  obtain outcome u where out: "nw_exec nw w (set_command name (state_name b)) (Some on) ?t = (outcome, u)"
    by (cases "nw_exec nw w (set_command name (state_name b)) (Some on) ?t")
  have law: "case nw_exec nw w (set_command name (state_name b)) (Some on) ?t of
          (CommandDone out, w') \<Rightarrow> up w' = (if cr_code out = 0 then (up w)(name := b) else up w)
        | (_, w') \<Rightarrow> \<forall>n. n \<noteq> name \<longrightarrow> up w' n = up w n"
    using assms(1) [unfolded sets_interfaces_def, THEN spec, of w, THEN spec, of name, THEN spec, of on,
      THEN spec, of ?t, THEN spec, of b] .
  from assms(2) out i have run: "v = u" "calls' = calls @ [CommandRun (set_command name (state_name b)) outcome]"
    "\<not> isl res \<longleftrightarrow> exits_well outcome"
    by (auto simp: set_interface_def run_command_def logged_exec_def exits_well_def
        split: command_outcome.splits if_splits)
  show thesis
  proof (rule that [of outcome])
    show "calls' = calls @ [CommandRun (set_command (fst i) (state_name b)) outcome]" using run i by simp
    show "\<not> isl res \<longleftrightarrow> exits_well outcome" by (rule run(3))
    show "up v n = up w n" if "n \<noteq> fst i" for n
      using law out run(1) i that by (cases outcome) (auto split: if_splits)
    show "up v (fst i) = b" if "exits_well outcome"
      using law out run(1) i that by (cases outcome) (auto simp: exits_well_def)
    show "up v = up w" if "\<not> exits_well outcome" "\<not> cut_off outcome"
      using law out run(1) i that by (cases outcome) (auto simp: exits_well_def cut_off_def)
  qed
qed

lemma interfaces_up_result:
  assumes "shows_interfaces (nw_exec nw) (nw_loads nw) up" and "interfaces_up nw sides w = (res, w')"
  shows "up w' = up w \<and> (\<forall>bs. res = Inr bs \<longrightarrow> bs = map (up w \<circ> fst) sides)"
  using assms(2)
proof (induction sides arbitrary: w res w')
  case (Cons i sides)
  obtain name on where i: "i = (name, on)" by (cases i)
  obtain one v where one: "interface_is_up nw i w = (one, v)" by (cases "interface_is_up nw i w")
  from one obtain t outcome where out: "nw_exec nw w (show_command name) (Some on) t = (outcome, v)"
    and told: "\<And>b. one = Inr b \<Longrightarrow> \<exists>r. outcome = CommandDone r \<and> cr_code r = 0
                 \<and> bind_res (interface_flags (nw_loads nw) (cr_out r)) says_up = Inr b"
    by (auto simp: interface_is_up_def i run_command_def split: prod.splits command_outcome.splits if_splits)
  have law: "up v = up w \<and> (\<forall>b. one = Inr b \<longrightarrow> b = up w name)"
    using assms(1) [unfolded shows_interfaces_def, THEN spec, of w, THEN spec, of name, THEN spec, of on,
      THEN spec, of t] out told by auto
  show ?case
  proof (cases one)
    case (Inl e)
    with Cons.prems one law show ?thesis by auto
  next
    case (Inr b)
    obtain rest u where rest: "interfaces_up nw sides v = (rest, u)" by (cases "interfaces_up nw sides v")
    from Cons.IH [OF this] Cons.prems one Inr law rest i show ?thesis
      by (cases rest) auto
  qed
qed simp

text \<open>Showing only adds commands that show.\<close>

lemma show_not_set: "show_command n \<noteq> set_command m st"
  by (simp add: show_command_def set_command_def)

lemma interfaces_up_log:
  "interfaces_up (logged nw) sides (w, calls) = (res, v, calls') \<Longrightarrow> in_doubt b calls' n = in_doubt b calls n"
proof (induction sides arbitrary: w calls res v calls')
  case (Cons i sides)
  obtain name on where i: "i = (name, on)" by (cases i)
  obtain one u calls1 where one: "interface_is_up (logged nw) i (w, calls) = (one, u, calls1)"
    by (cases "interface_is_up (logged nw) i (w, calls)")
  then obtain outcome where "calls1 = calls @ [CommandRun (show_command name) outcome]"
    by (auto simp: interface_is_up_def i run_command_def logged_exec_def
        split: prod.splits command_outcome.splits if_splits)
  then have doubt: "in_doubt b calls1 n = in_doubt b calls n"
    by (simp add: in_doubt_append) (simp add: in_doubt_def show_not_set [symmetric])
  show ?case
  proof (cases one)
    case (Inl e)
    with Cons.prems one doubt show ?thesis by simp
  next
    case (Inr x)
    obtain rest u2 calls2 where "interfaces_up (logged nw) sides (u, calls1) = (rest, u2, calls2)"
      by (cases "interfaces_up (logged nw) sides (u, calls1)")
    with Cons.IH [OF this] Cons.prems one doubt Inr show ?thesis by (cases rest) auto
  qed
qed simp

lemma set_interfaces_result:
  assumes "sets_interfaces (nw_exec nw) up"
    and "set_interfaces (logged nw) limit b sides completed (w, calls) = (failure, all, v, calls')"
  shows "\<exists>now new. all = completed @ now \<and> set now \<subseteq> set sides \<and> calls' = calls @ new
           \<and> (failure = None \<longrightarrow> now = sides \<and> up v = with_state b now (up w))
           \<and> (\<forall>n. n \<notin> fst ` set sides \<longrightarrow> \<not> in_doubt b new n)
           \<and> (\<forall>n. \<not> in_doubt b new n \<longrightarrow> up v n = with_state b now (up w) n)"
  using assms(2)
proof (induction sides arbitrary: completed w calls)
  case Nil
  then show ?case by (auto simp: in_doubt_def)
next
  case (Cons i sides)
  obtain res u calls1 where one: "set_interface (logged nw) limit b i (w, calls) = (res, u, calls1)"
    by (cases "set_interface (logged nw) limit b i (w, calls)")
  obtain outcome where o: "calls1 = calls @ [CommandRun (set_command (fst i) (state_name b)) outcome]"
    "\<And>n. n \<noteq> fst i \<Longrightarrow> up u n = up w n" "\<not> isl res \<longleftrightarrow> exits_well outcome"
    "exits_well outcome \<Longrightarrow> up u (fst i) = b" "\<not> exits_well outcome \<Longrightarrow> \<not> cut_off outcome \<Longrightarrow> up u = up w"
    by (rule set_interface_result [OF assms(1) one]) (rule that)
  let ?call = "[CommandRun (set_command (fst i) (state_name b)) outcome]"
  have call: "in_doubt b ?call n \<longleftrightarrow> n = fst i \<and> cut_off outcome" for n
    by (cases b) (auto simp: in_doubt_def set_command_def state_name_def)
  show ?case
  proof (cases res)
    case (Inl e)
    then have bad: "\<not> exits_well outcome" using o(3) by simp
    have "up u n = up w n" if "\<not> in_doubt b ?call n" for n
      using that o(2) [of n] o(5) [OF bad] call [of n] by (cases "n = fst i") auto
    moreover have "failure = Some e" "all = completed" "v = u" "calls' = calls @ ?call"
      using Cons.prems one Inl o(1) by auto
    ultimately show ?thesis
      using call by (intro exI [of _ "[]"] exI [of _ ?call]) auto
  next
    case (Inr r)
    then have well: "exits_well outcome" "\<not> cut_off outcome" using o(3) by (auto simp: exits_well_def cut_off_def split: command_outcome.splits)
    from Cons.prems one Inr have "set_interfaces (logged nw) limit b sides (completed @ [i]) (u, calls1) = (failure, all, v, calls')" by simp
    from Cons.IH [OF this] obtain now new where n: "all = (completed @ [i]) @ now" "set now \<subseteq> set sides"
      "calls' = calls1 @ new" "failure = None \<longrightarrow> now = sides \<and> up v = with_state b now (up u)"
      "\<forall>n. n \<notin> fst ` set sides \<longrightarrow> \<not> in_doubt b new n"
      "\<forall>n. \<not> in_doubt b new n \<longrightarrow> up v n = with_state b now (up u) n" by blast
    have step: "with_state b now (up u) n = with_state b (i # now) (up w) n" for n
      using o(2) [of n] o(4) [OF well(1)] by (auto simp: with_state_def)
    have "in_doubt b (?call @ new) n = in_doubt b new n" for n
      unfolding in_doubt_append using call well(2) by simp
    with n o(1) step show ?thesis
      by (intro exI [of _ "i # now"] exI [of _ "?call @ new"]) (auto simp: fun_eq_iff simp del: append_Cons)
  qed
qed

lemma undo_interfaces_result:
  assumes "sets_interfaces (nw_exec nw) up"
    and "undo_interfaces (logged nw) limit b sides (w, calls) = (v, calls')"
  shows "\<exists>new. calls' = calls @ new \<and> (\<forall>n. n \<notin> fst ` set sides \<longrightarrow> \<not> in_doubt b new n)
    \<and> (\<forall>n. \<not> in_doubt b new n \<longrightarrow> up v n = with_state (\<not> b) sides (up w) n)"
  using assms(2)
proof (induction sides arbitrary: w calls)
  case Nil
  then show ?case by (auto simp: in_doubt_def)
next
  case (Cons i sides)
  obtain res u calls1 where one: "set_interface (logged nw) limit (\<not> b) i (w, calls) = (res, u, calls1)"
    by (cases "set_interface (logged nw) limit (\<not> b) i (w, calls)")
  obtain outcome where o: "calls1 = calls @ [CommandRun (set_command (fst i) (state_name (\<not> b))) outcome]"
    "\<And>n. n \<noteq> fst i \<Longrightarrow> up u n = up w n" "exits_well outcome \<Longrightarrow> up u (fst i) = (\<not> b)"
    by (rule set_interface_result [OF assms(1) one]) (rule that)
  let ?call = "[CommandRun (set_command (fst i) (state_name (\<not> b))) outcome]"
  have call: "in_doubt b ?call n \<longleftrightarrow> n = fst i \<and> \<not> exits_well outcome" for n
    by (cases b) (auto simp: in_doubt_def set_command_def state_name_def)
  from Cons.prems one have "undo_interfaces (logged nw) limit b sides (u, calls1) = (v, calls')" by simp
  from Cons.IH [OF this] obtain new where n: "calls' = calls1 @ new"
    "\<forall>n. n \<notin> fst ` set sides \<longrightarrow> \<not> in_doubt b new n"
    "\<forall>n. \<not> in_doubt b new n \<longrightarrow> up v n = with_state (\<not> b) sides (up u) n" by blast
  have "up v n = with_state (\<not> b) (i # sides) (up w) n" if "\<not> in_doubt b (?call @ new) n" for n
    using that n(3) o(2) [of n] o(3) call [of n] unfolding in_doubt_append by (auto simp: with_state_def)
  with n(1,2) o(1) call show ?case
    by (intro exI [of _ "?call @ new"]) (auto simp: in_doubt_append simp del: append_Cons)
qed

lemma link_interfaces_ports:
  assumes "link_interfaces nw rs link = Inr sides"
  shows "map fst sides = link_ports link"
proof -
  have "list_all2 (\<lambda>p i. fst i = p) (link_ports link) sides"
    using assms unfolding link_interfaces_def map_res_Inr_iff
    by (rule list_all2_mono) (auto simp: link_end_of_def bind_res_Inr_iff split: option.splits if_splits)
  then show ?thesis by (induction rule: list_all2_induct) auto
qed

lemma changed_ends_map: "changed_ends b sides (map f sides) = filter (\<lambda>i. f i \<noteq> b) sides"
  unfolding changed_ends_def by (induction sides) auto

text \<open>The ends that are not in the state are set, or, after a failure, set back.\<close>

lemma change_or_undo:
  assumes "sets_interfaces (nw_exec nw) up"
    and "set_interfaces (logged nw) limit b (filter (\<lambda>i. up w (fst i) \<noteq> b) sides) [] (v, calls) = (failure, all, u, calls1)"
    and "up v = up w" and "\<And>n. \<not> in_doubt b calls n"
  shows "failure = None \<Longrightarrow> up u n = (if n \<in> fst ` set sides then b else up w n)"
    and "failure = Some e \<Longrightarrow> undo_interfaces (logged nw) limit b (rev all) (u, calls1) = (x, calls2)
           \<Longrightarrow> up x n = up w n \<or> in_doubt b calls2 n \<and> n \<in> fst ` set sides"
proof -
  let ?changed = "filter (\<lambda>i. up w (fst i) \<noteq> b) sides"
  from set_interfaces_result [OF assms(1,2)] assms(3) obtain new where now: "set all \<subseteq> set ?changed"
    "calls1 = calls @ new" "failure = None \<longrightarrow> all = ?changed \<and> up u = with_state b all (up w)"
    "\<forall>n. n \<notin> fst ` set ?changed \<longrightarrow> \<not> in_doubt b new n"
    "\<forall>n. \<not> in_doubt b new n \<longrightarrow> up u n = with_state b all (up w) n" by auto
  show "up u n = (if n \<in> fst ` set sides then b else up w n)" if "failure = None"
    using now(3) that by (auto simp: with_state_def)
  show "up x n = up w n \<or> in_doubt b calls2 n \<and> n \<in> fst ` set sides"
    if "failure = Some e" "undo_interfaces (logged nw) limit b (rev all) (u, calls1) = (x, calls2)"
  proof -
    from undo_interfaces_result [OF assms(1) that(2)] obtain undone where un: "calls2 = calls1 @ undone"
      "\<forall>n. n \<notin> fst ` set (rev all) \<longrightarrow> \<not> in_doubt b undone n"
      "\<forall>n. \<not> in_doubt b undone n \<longrightarrow> up x n = with_state (\<not> b) (rev all) (up u) n" by blast
    have doubt: "in_doubt b calls2 n \<longleftrightarrow> in_doubt b new n \<or> in_doubt b undone n"
      by (simp add: un(1) now(2) in_doubt_append assms(4))
    show ?thesis
    proof (cases "in_doubt b calls2 n")
      case True
      have "fst ` set all \<subseteq> fst ` set sides" "fst ` set ?changed \<subseteq> fst ` set sides" using now(1) by auto
      moreover have "n \<in> fst ` set ?changed \<or> n \<in> fst ` set all" using True doubt now(4) un(2) by auto
      ultimately have "n \<in> fst ` set sides" by blast
      with True show ?thesis by simp
    next
      case False
      then have "up x n = with_state (\<not> b) (rev all) (with_state b all (up w)) n"
        using doubt now(5) un(3) by (auto simp: with_state_def)
      also have "\<dots> = up w n" using now(1) by (auto simp: with_state_def)
      finally show ?thesis by simp
    qed
  qed
qed


text \<open>C14. Enabling or disabling a link is all or nothing, except for an end whose command was cut off or
  could not be undone. When it succeeds both ends are in the asked state, no other interface has
  changed, and it says that it changed something exactly when some end was not in that state. When
  it fails, every interface is as it was before, but for an end of the link of which the driver
  cannot know it: the command that set it ran out of time or broke, or the command that was to
  set it back, which is tried once and whose failure the driver passes over, did not succeed.
\<close>

theorem link_state_all_or_nothing:
  assumes "obeys_ip nw up" and "set_link_state (logged nw) rs b r (w, []) = (res, w', calls)"
  shows "set_link_state nw rs b r w = (res, w') \<and>
    (case res of
      Inr out \<Rightarrow> \<exists>link. require_kind rs (aq_target r) LinkKind = Inr link
        \<and> (\<forall>n. up w' n = (if n \<in> set (link_ports link) then b else up w n))
        \<and> (ao_changed out \<longleftrightarrow> (\<exists>n\<in>set (link_ports link). up w n \<noteq> b))
    | Inl e \<Rightarrow> \<forall>n. up w' n = up w n
        \<or> in_doubt b calls n
          \<and> (\<exists>link. require_kind rs (aq_target r) LinkKind = Inr link \<and> n \<in> set (link_ports link)))"
proof (intro conjI)
  show "set_link_state nw rs b r w = (res, w')" by (rule set_link_state_unlogged [OF assms(2)])
  have sets: "sets_interfaces (nw_exec nw) up" using assms(1) by (simp add: obeys_ip_def)
  have truth: "shows_interfaces (nw_exec (logged nw)) (nw_loads (logged nw)) (\<lambda>x. up (fst x))"
    using obeys_ip_logged [OF assms(1)] unfolding obeys_ip_def by blast
  let ?goal = "\<lambda>res w' calls. case res of
      Inr out \<Rightarrow> \<exists>link. require_kind rs (aq_target r) LinkKind = Inr link
        \<and> (\<forall>n. up w' n = (if n \<in> set (link_ports link) then b else up w n))
        \<and> (ao_changed out \<longleftrightarrow> (\<exists>n\<in>set (link_ports link). up w n \<noteq> b))
    | Inl e \<Rightarrow> \<forall>n. up w' n = up w n
        \<or> in_doubt b calls n
          \<and> (\<exists>link. require_kind rs (aq_target r) LinkKind = Inr link \<and> n \<in> set (link_ports link))"
  show "?goal res w' calls"
  proof (cases "aq_parameters r \<noteq> [] \<or> isl (require_kind rs (aq_target r) LinkKind)
      \<or> isl (link_interfaces nw rs (projr (require_kind rs (aq_target r) LinkKind)))")
    case True
    with assms(2) show ?thesis by (auto simp: set_link_state_def split: sum.splits if_splits)
  next
    case False
    then obtain link sides where link: "require_kind rs (aq_target r) LinkKind = Inr link"
      "link_interfaces nw rs link = Inr sides" and given: "aq_parameters r = []"
      by (cases "require_kind rs (aq_target r) LinkKind"; cases "link_interfaces nw rs (projr (require_kind rs (aq_target r) LinkKind))") auto
    have ports: "fst ` set sides = set (link_ports link)"
      using link_interfaces_ports [OF link(2)] by (metis set_map)
    obtain read v calls1 where read: "interfaces_up (logged nw) sides (w, []) = (read, v, calls1)"
      by (cases "interfaces_up (logged nw) sides (w, [])")
    from interfaces_up_result [OF truth read] have seen_up: "up v = up w"
      "\<And>bs. read = Inr bs \<Longrightarrow> bs = map (up w \<circ> fst) sides" by auto
    have doubt: "\<not> in_doubt b calls1 n" for n
      using interfaces_up_log [OF read, of b n] by (simp add: in_doubt_def)
    show ?thesis
    proof (cases read)
      case (Inl e)
      with assms(2) link given read seen_up show ?thesis by (auto simp: set_link_state_def)
    next
      case (Inr states)
      let ?changed = "filter (\<lambda>i. up w (fst i) \<noteq> b) sides"
      from Inr seen_up have changed: "changed_ends b sides states = ?changed"
        by (simp add: changed_ends_map comp_def)
      obtain failure all u calls2 where
        set: "set_interfaces (logged nw) (aq_timeout r) b ?changed [] (v, calls1) = (failure, all, u, calls2)"
        by (cases "set_interfaces (logged nw) (aq_timeout r) b ?changed [] (v, calls1)")
      note effect = change_or_undo [OF sets set seen_up(1) doubt]
      show ?thesis
      proof (cases failure)
        case None
        with assms(2) link given read Inr changed set have "w' = u"
          "\<exists>out. res = Inr out \<and> (ao_changed out \<longleftrightarrow> ?changed \<noteq> [])"
          by (auto simp: set_link_state_def)
        moreover have "?changed \<noteq> [] \<longleftrightarrow> (\<exists>n\<in>set (link_ports link). up w n \<noteq> b)"
          by (auto simp: filter_empty_conv ports [symmetric])
        ultimately show ?thesis using effect(1) [OF None] link(1) ports by auto
      next
        case (Some e)
        with assms(2) link given read Inr changed set have "res = Inl e"
          "undo_interfaces (logged nw) (aq_timeout r) b (rev all) (u, calls2) = (w', calls)"
          by (auto simp: set_link_state_def)
        with effect(2) [OF Some this(2)] link(1) ports show ?thesis by auto
      qed
    qed
  qed
qed

section \<open>The recorded parameters are the configured ones\<close>

text \<open>The last call of \<open>config\<close> on an interface, with whether it returned.\<close>

fun config_calls :: "network_call list \<Rightarrow> (string \<times> json_object \<times> bool) list" where
  "config_calls [] = []"
| "config_calls (Configured n ps returned # calls) = (n, ps, returned) # config_calls calls"
| "config_calls (CommandRun _ _ # calls) = config_calls calls"

definition last_config :: "network_call list \<Rightarrow> string \<Rightarrow> (json_object \<times> bool) option" where
  "last_config calls n = map_of (rev (config_calls calls)) n"

text \<open>
  The record agrees with the calls: on each interface of a link, the last call carried the
  parameters that are recorded, if it returned; and where there was none yet, the record is the
  plan's.
\<close>

definition calls_agree :: "planned_resource list \<Rightarrow> link_table \<Rightarrow> network_call list \<Rightarrow> bool" where
  "calls_agree rs links calls \<longleftrightarrow>
     (\<forall>l. LinkResource l \<in> set rs \<longrightarrow>
        (\<exists>ps. map_of links (pk_name l) = Some ps
          \<and> (\<forall>n\<in>set (link_ports (LinkResource l)).
               case last_config calls n of
                 None \<Rightarrow> ps = planned_link_parameters l
               | Some (sent, returned) \<Rightarrow> returned \<longrightarrow> sent = mininet_link_parameters ps)))"

text \<open>The driver works through a list of requests.\<close>

fun configure_links ::
  "'w network \<Rightarrow> planned_resource list \<Rightarrow> link_table \<Rightarrow> 'w \<Rightarrow> action_request list \<Rightarrow> link_table \<times> 'w" where
  "configure_links nw rs links w [] = (links, w)"
| "configure_links nw rs links w (r # requests) =
     (case configure_link nw rs links r w of (_, links', w') \<Rightarrow> configure_links nw rs links' w' requests)"

definition separate_links :: "planned_resource list \<Rightarrow> bool" where
  "separate_links rs \<longleftrightarrow>
     distinct (map res_name rs)
     \<and> (\<forall>l\<in>set rs. \<forall>m\<in>set rs. l \<noteq> m \<longrightarrow> set (link_ports l) \<inter> set (link_ports m) = {})"

lemma config_calls_append [simp]: "config_calls (xs @ ys) = config_calls xs @ config_calls ys"
  by (induction xs rule: config_calls.induct) simp_all

lemma last_config_snoc [simp]:
  "last_config (calls @ [Configured n ps returned]) = (last_config calls)(n \<mapsto> (ps, returned))"
  by (simp add: last_config_def fun_eq_iff)

lemma last_config_Nil [simp]: "last_config [] n = None"
  by (simp add: last_config_def)

text \<open>The calls of a configuration: after it each end was given the parameters, up to the one that raised.\<close>

lemma config_interfaces_calls:
  assumes "config_interfaces (logged nw) ps sides configured (w, calls) = (ok, all, v, calls')"
  shows "ok \<and> all = configured @ sides
      \<and> (\<forall>n. last_config calls' n =
           (if n \<in> fst ` set sides then Some (mininet_link_parameters ps, True) else last_config calls n))
    \<or> (\<exists>now i rest. \<not> ok \<and> all = configured @ now \<and> sides = now @ i # rest
        \<and> (\<forall>n. last_config calls' n =
             (if n = fst i then Some (mininet_link_parameters ps, False)
              else if n \<in> fst ` set now then Some (mininet_link_parameters ps, True) else last_config calls n)))"
  using assms
proof (induction sides arbitrary: configured w calls)
  case (Cons i sides)
  obtain one u where one: "nw_config nw (fst i) (mininet_link_parameters ps) w = (one, u)" by fastforce
  show ?case
  proof (cases one)
    case False
    with Cons.prems one have "\<not> ok" "all = configured"
      "calls' = calls @ [Configured (fst i) (mininet_link_parameters ps) False]"
      by (auto simp: logged_config_def)
    then show ?thesis by (intro disjI2 exI [of _ "[]"] exI [of _ i] exI [of _ sides]) auto
  next
    case True
    let ?calls = "calls @ [Configured (fst i) (mininet_link_parameters ps) True]"
    from True Cons.prems one have "config_interfaces (logged nw) ps sides (configured @ [i]) (u, ?calls) = (ok, all, v, calls')"
      by (simp add: logged_config_def)
    from Cons.IH [OF this] show ?thesis
    proof
      assume "ok \<and> all = (configured @ [i]) @ sides
        \<and> (\<forall>n. last_config calls' n =
             (if n \<in> fst ` set sides then Some (mininet_link_parameters ps, True) else last_config ?calls n))"
      then show ?thesis by (intro disjI1) auto
    next
      assume "\<exists>now j rest. \<not> ok \<and> all = (configured @ [i]) @ now \<and> sides = now @ j # rest
        \<and> (\<forall>n. last_config calls' n =
             (if n = fst j then Some (mininet_link_parameters ps, False)
              else if n \<in> fst ` set now then Some (mininet_link_parameters ps, True) else last_config ?calls n))"
      then obtain now j rest where "\<not> ok" "all = (configured @ [i]) @ now" "sides = now @ j # rest"
        "\<forall>n. last_config calls' n =
             (if n = fst j then Some (mininet_link_parameters ps, False)
              else if n \<in> fst ` set now then Some (mininet_link_parameters ps, True) else last_config ?calls n)" by blast
      then show ?thesis by (intro disjI2 exI [of _ "i # now"] exI [of _ j] exI [of _ rest]) auto
    qed
  qed
qed simp

lemma restore_interfaces_calls:
  "restore_interfaces (logged nw) ps sides (w, calls) = (v, calls') \<Longrightarrow>
     if n \<in> fst ` set sides then \<exists>returned. last_config calls' n = Some (mininet_link_parameters ps, returned)
     else last_config calls' n = last_config calls n"
proof (induction sides arbitrary: w calls)
  case (Cons i sides)
  obtain one u where one: "nw_config nw (fst i) (mininet_link_parameters ps) w = (one, u)" by fastforce
  from Cons.prems one have "restore_interfaces (logged nw) ps sides
      (u, calls @ [Configured (fst i) (mininet_link_parameters ps) one]) = (v, calls')"
    by (simp add: logged_config_def)
  from Cons.IH [OF this] show ?case by (auto split: if_splits)
qed simp

lemma require_kind_Inr:
  assumes "require_kind rs name kind = Inr x"
  shows "x \<in> set rs \<and> res_name x = name \<and> res_kind x = kind"
proof -
  from assms have "map_of (rev (map (\<lambda>r. (res_name r, r)) rs)) name = Some x" "res_kind x = kind"
    by (auto simp: require_kind_def resource_table_def split: option.splits if_splits)
  from map_of_SomeD [OF this(1)] this(2) show ?thesis by auto
qed

text \<open>The ways a configuration can go.\<close>

lemma configure_link_cases:
  assumes "configure_link nw rs links r w = (res, links', w')"
  obtains (untouched) "links' = links" "w' = w" "\<And>out. res = Inr out \<Longrightarrow> \<not> ao_changed out"
  | (accepted) link ps sides all out where "require_kind rs (aq_target r) LinkKind = Inr link"
      "link_interfaces nw rs link = Inr sides" "config_interfaces nw ps sides [] w = (True, all, w')"
      "links' = AList.update (aq_target r) ps links" "res = Inr out" "ao_changed out"
  | (undone) link ps sides all v where "require_kind rs (aq_target r) LinkKind = Inr link"
      "link_interfaces nw rs link = Inr sides" "config_interfaces nw ps sides [] w = (False, all, v)"
      "links' = links" "w' = restore_interfaces nw (the (map_of links (aq_target r))) (rev all) v"
      "res = Inl action_failed"
proof (cases "isl (require_kind rs (aq_target r) LinkKind) \<or> isl (validate_link_parameters (aq_parameters r))")
  case True
  then show thesis using assms by (intro untouched) (auto simp: configure_link_def split: sum.splits)
next
  case False
  then obtain link updates where l: "require_kind rs (aq_target r) LinkKind = Inr link"
    "validate_link_parameters (aq_parameters r) = Inr updates"
    by (cases "require_kind rs (aq_target r) LinkKind"; cases "validate_link_parameters (aq_parameters r)") auto
  have name: "res_name link = aq_target r" using require_kind_Inr [OF l(1)] by simp
  let ?previous = "the (map_of links (aq_target r))"
  let ?ps = "merge_parameters ?previous updates"
  show thesis
  proof (cases "parameter ''jitter'' ?ps \<noteq> None \<and> parameter ''delay'' ?ps = None
        \<or> py_eq (JObj ?ps) (JObj ?previous) \<or> isl (link_interfaces nw rs link)")
    case True
    then show thesis using assms l name
      by (intro untouched) (auto simp: configure_link_def Let_def simp del: py_eq.simps split: sum.splits if_splits)
  next
    case late: False
    define sides where "sides = projr (link_interfaces nw rs link)"
    have sides: "link_interfaces nw rs link = Inr sides" using late by (cases "link_interfaces nw rs link") (simp_all add: sides_def)
    obtain ok all v where run: "config_interfaces nw ?ps sides [] w = (ok, all, v)"
      by (cases "config_interfaces nw ?ps sides [] w")
    show thesis
    proof (cases ok)
      case True
      with assms l name late sides run show thesis
        by (intro accepted [of link sides ?ps all]) (auto simp: configure_link_def Let_def simp del: py_eq.simps)
    next
      case False
      with assms l name late sides run show thesis
        by (intro undone [of link sides ?ps all v]) (auto simp: configure_link_def Let_def simp del: py_eq.simps)
    qed
  qed
qed


lemma configure_link_unlogged:
  assumes "configure_link (logged nw) rs links r (w, calls) = (res, links', v, calls')"
  shows "configure_link nw rs links r w = (res, links', v)"
proof (cases "isl (require_kind rs (aq_target r) LinkKind) \<or> isl (validate_link_parameters (aq_parameters r))")
  case True
  then show ?thesis using assms by (auto simp: configure_link_def split: sum.splits)
next
  case False
  then obtain link updates where l: "require_kind rs (aq_target r) LinkKind = Inr link"
    "validate_link_parameters (aq_parameters r) = Inr updates"
    by (cases "require_kind rs (aq_target r) LinkKind"; cases "validate_link_parameters (aq_parameters r)") auto
  let ?previous = "the (map_of links (res_name link))"
  let ?ps = "merge_parameters ?previous updates"
  show ?thesis
  proof (cases "parameter ''jitter'' ?ps \<noteq> None \<and> parameter ''delay'' ?ps = None
        \<or> py_eq (JObj ?ps) (JObj ?previous) \<or> isl (link_interfaces nw rs link)")
    case True
    then show ?thesis using assms l
      by (auto simp: configure_link_def Let_def simp del: py_eq.simps split: sum.splits if_splits)
  next
    case late: False
    define sides where "sides = projr (link_interfaces nw rs link)"
    have sides: "link_interfaces nw rs link = Inr sides" using late by (cases "link_interfaces nw rs link") (simp_all add: sides_def)
    obtain ok all u calls1 where run: "config_interfaces (logged nw) ?ps sides [] (w, calls) = (ok, all, u, calls1)"
      by (cases "config_interfaces (logged nw) ?ps sides [] (w, calls)")
    obtain x calls2 where undo: "restore_interfaces (logged nw) ?previous (rev all) (u, calls1) = (x, calls2)" by fastforce
    from assms l late sides run config_interfaces_unlogged [OF run] undo restore_interfaces_unlogged [OF undo]
    show ?thesis by (cases ok) (auto simp: configure_link_def Let_def simp del: py_eq.simps)
  qed
qed

lemma initial_links_of:
  assumes "distinct (map res_name rs)" "LinkResource l \<in> set rs"
  shows "map_of (initial_links rs) (pk_name l) = Some (planned_link_parameters l)"
  using assms
proof (induction rs)
  case (Cons x rs)
  have names: "map_of (initial_links ys) n = None" if "n \<notin> res_name ` set ys" for n and ys :: "planned_resource list"
    using that by (induction ys) (auto simp: initial_links_def split: planned_resource.splits)
  show ?case
  proof (cases "x = LinkResource l")
    case True
    then show ?thesis by (simp add: initial_links_def)
  next
    case False
    with Cons.prems have inside: "LinkResource l \<in> set rs" by simp
    then have "pk_name l \<in> res_name ` set rs" by force
    with Cons.prems(1) have "res_name x \<noteq> pk_name l" by auto
    with Cons.IH [OF _ inside] Cons.prems(1) show ?thesis
      by (cases x) (auto simp: initial_links_def)
  qed
qed simp

lemma calls_agree_initial:
  assumes "separate_links rs"
  shows "calls_agree rs (initial_links rs) []"
  using assms initial_links_of [of rs] by (auto simp: calls_agree_def separate_links_def)

text \<open>Two links have different names and no interface in common.\<close>

lemma separate_linksD:
  assumes "separate_links rs" "l \<in> set rs" "m \<in> set rs" "m \<noteq> l"
  shows "res_name m \<noteq> res_name l" and "n \<in> set (link_ports m) \<Longrightarrow> n \<notin> set (link_ports l)"
proof -
  have "inj_on res_name (set rs)" using assms(1) by (simp add: separate_links_def distinct_map)
  then show "res_name m \<noteq> res_name l" using assms(2-4) by (auto dest: inj_onD)
  have "set (link_ports m) \<inter> set (link_ports l) = {}" using assms by (simp add: separate_links_def)
  then show "n \<in> set (link_ports m) \<Longrightarrow> n \<notin> set (link_ports l)" by blast
qed

text \<open>
  One link gets new calls, and perhaps a new record: the others agree as before, so that only its
  own record is to be looked at.
\<close>

lemma calls_agree_other:
  assumes "separate_links rs" "calls_agree rs links calls" "link \<in> set rs"
    and "\<And>n. n \<noteq> res_name link \<Longrightarrow> map_of links' n = map_of links n"
    and "\<And>n. n \<notin> set (link_ports link) \<Longrightarrow> last_config calls' n = last_config calls n"
    and own: "\<And>l. link = LinkResource l \<Longrightarrow>
          \<exists>ps. map_of links' (pk_name l) = Some ps
            \<and> (\<forall>n\<in>set (link_ports link). case last_config calls' n of
                 None \<Rightarrow> ps = planned_link_parameters l
               | Some (sent, returned) \<Rightarrow> returned \<longrightarrow> sent = mininet_link_parameters ps)"
  shows "calls_agree rs links' calls'"
  unfolding calls_agree_def
proof (intro allI impI)
  fix l assume l: "LinkResource l \<in> set rs"
  show "\<exists>ps. map_of links' (pk_name l) = Some ps
      \<and> (\<forall>n\<in>set (link_ports (LinkResource l)). case last_config calls' n of
           None \<Rightarrow> ps = planned_link_parameters l
         | Some (sent, returned) \<Rightarrow> returned \<longrightarrow> sent = mininet_link_parameters ps)"
  proof (cases "link = LinkResource l")
    case True
    with own [OF this] show ?thesis by simp
  next
    case False
    then have other: "LinkResource l \<noteq> link" by simp
    have "pk_name l \<noteq> res_name link" using separate_linksD(1) [OF assms(1,3) l other] by simp
    with assms(4) have entry: "map_of links' (pk_name l) = map_of links (pk_name l)" by blast
    have same: "last_config calls' n = last_config calls n" if "n \<in> set (link_ports (LinkResource l))" for n
      by (rule assms(5)) (rule separate_linksD(2) [OF assms(1,3) l other that])
    from assms(2) l obtain ps where "map_of links (pk_name l) = Some ps"
      "\<forall>n\<in>set (link_ports (LinkResource l)). case last_config calls n of
           None \<Rightarrow> ps = planned_link_parameters l
         | Some (sent, returned) \<Rightarrow> returned \<longrightarrow> sent = mininet_link_parameters ps"
      unfolding calls_agree_def by blast
    then show ?thesis using entry same by (intro exI [of _ ps]) (simp del: link_ports.simps)
  qed
qed

lemma configure_link_agrees:
  assumes "separate_links rs" "calls_agree rs links calls"
    and "configure_link (logged nw) rs links r (w, calls) = (res, links', v, calls')"
  shows "calls_agree rs links' calls' \<and> (case res of
        Inl e \<Rightarrow> links' = links
      | Inr out \<Rightarrow> if ao_changed out
          then \<exists>link ps. require_kind rs (aq_target r) LinkKind = Inr link \<and> map_of links' (aq_target r) = Some ps
            \<and> (\<forall>n\<in>set (link_ports link). last_config calls' n = Some (mininet_link_parameters ps, True))
          else links' = links \<and> v = w \<and> calls' = calls)"
  using assms(3)
proof (cases rule: configure_link_cases)
  case untouched
  then show ?thesis using assms(2) by (cases res) auto
next
  case (accepted link ps sides all out)
  have link: "link \<in> set rs" "res_name link = aq_target r" using require_kind_Inr [OF accepted(1)] by simp_all
  have ports: "fst ` set sides = set (link_ports link)"
    using link_interfaces_ports [OF accepted(2)] by (metis set_map)
  have after: "last_config calls' n =
      (if n \<in> set (link_ports link) then Some (mininet_link_parameters ps, True) else last_config calls n)" for n
    using config_interfaces_calls [OF accepted(3)] by (simp add: ports)
  have "calls_agree rs links' calls'"
  proof (rule calls_agree_other [OF assms(1,2) link(1)])
    fix l assume "link = LinkResource l"
    with link(2) show "\<exists>ps. map_of links' (pk_name l) = Some ps
        \<and> (\<forall>n\<in>set (link_ports link). case last_config calls' n of
             None \<Rightarrow> ps = planned_link_parameters l
           | Some (sent, returned) \<Rightarrow> returned \<longrightarrow> sent = mininet_link_parameters ps)"
      by (intro exI [of _ ps]) (simp add: accepted(4) after update_conv del: link_ports.simps)
  qed (simp_all add: accepted(4) after link(2) update_conv)
  then show ?thesis using accepted after by (simp add: update_conv)
next
  case (undone link ps sides all u)
  have link: "link \<in> set rs" "res_name link = aq_target r" using require_kind_Inr [OF undone(1)] by simp_all
  have ports: "fst ` set sides = set (link_ports link)"
    using link_interfaces_ports [OF undone(2)] by (metis set_map)
  obtain x calls1 where u: "u = (x, calls1)" by (cases u)
  from config_interfaces_calls [OF undone(3) [unfolded u]] obtain now i rest where run: "all = now" "sides = now @ i # rest"
    "\<forall>n. last_config calls1 n =
       (if n = fst i then Some (mininet_link_parameters ps, False)
        else if n \<in> fst ` set now then Some (mininet_link_parameters ps, True) else last_config calls n)" by auto
  have inside: "fst ` set now \<subseteq> set (link_ports link)" "fst i \<in> set (link_ports link)"
    using run(2) by (auto simp: ports [symmetric])
  obtain l where l: "link = LinkResource l" using inside(2) by (cases link) auto
  from assms(2) link(1) obtain old where old: "map_of links (aq_target r) = Some old"
    "\<forall>n\<in>set (link_ports link). case last_config calls n of
         None \<Rightarrow> old = planned_link_parameters l
       | Some (sent, returned) \<Rightarrow> returned \<longrightarrow> sent = mininet_link_parameters old"
    using link(2) unfolding calls_agree_def l by auto
  from undone(5) have restore: "restore_interfaces (logged nw) old (rev all) (x, calls1) = (v, calls')"
    by (simp add: old(1) u)
  have after: "last_config calls' n = last_config calls n
      \<or> (\<exists>returned. last_config calls' n = Some (mininet_link_parameters old, returned))
      \<or> (\<exists>sent. last_config calls' n = Some (sent, False))" for n
    using restore_interfaces_calls [OF restore, of n] run(1,3) by (auto split: if_splits)
  have outside: "last_config calls' n = last_config calls n" if "n \<notin> set (link_ports link)" for n
    using restore_interfaces_calls [OF restore, of n] run(1,3) inside that by (auto split: if_splits)
  have "calls_agree rs links calls'"
  proof (rule calls_agree_other [OF assms(1,2) link(1) _ outside])
    fix k assume k: "link = LinkResource k"
    have "case last_config calls' n of
           None \<Rightarrow> old = planned_link_parameters l
         | Some (sent, returned) \<Rightarrow> returned \<longrightarrow> sent = mininet_link_parameters old"
      if n: "n \<in> set (link_ports link)" for n
      using after [of n] bspec [OF old(2) n] by auto
    moreover have "k = l" "map_of links (pk_name k) = Some old" using k l old(1) link(2) by simp_all
    ultimately show "\<exists>ps. map_of links (pk_name k) = Some ps
        \<and> (\<forall>n\<in>set (link_ports link). case last_config calls' n of
             None \<Rightarrow> ps = planned_link_parameters k
           | Some (sent, returned) \<Rightarrow> returned \<longrightarrow> sent = mininet_link_parameters ps)"
      by (intro exI [of _ old]) blast
  qed simp_all
  then show ?thesis using undone by simp
qed

lemma configure_links_agree:
  assumes "separate_links rs" "calls_agree rs links calls"
    and "configure_links (logged nw) rs links (w, calls) requests = (links', v, calls')"
  shows "calls_agree rs links' calls'"
  using assms(2,3)
proof (induction requests arbitrary: links w calls)
  case (Cons r requests)
  obtain res links1 u calls1 where one: "configure_link (logged nw) rs links r (w, calls) = (res, links1, u, calls1)"
    by (cases "configure_link (logged nw) rs links r (w, calls)")
  from Cons.IH [OF conjunct1 [OF configure_link_agrees [OF assms(1) Cons.prems(1) one]]] Cons.prems(2) one show ?case by simp
qed simp

text \<open>C25. The parameters the driver records of a link are those its interfaces were last given. Whatever
  requests came before and whatever \<open>config\<close> does: after a request, on every interface of every
  link the last call of \<open>config\<close> carried the recorded parameters, unless it raised (what such a
  call leaves is not known, and restoring after it is best effort); an interface that has had no
  call yet is of a link whose record is still the plan's. An accepted change was given to both
  interfaces by calls that returned, and it is recorded; a request that is refused or fails leaves
  the record alone, and one that changes nothing makes no call.
\<close>

theorem recorded_parameters_are_configured:
  assumes "separate_links rs"
    and "configure_links (logged nw) rs (initial_links rs) (w, []) requests = (links, v, calls)"
    and "configure_link (logged nw) rs links r (v, calls) = (res, links', v', calls')"
  shows "configure_link nw rs links r v = (res, links', v')
    \<and> calls_agree rs links' calls'
    \<and> (case res of
         Inl e \<Rightarrow> links' = links
       | Inr out \<Rightarrow> if ao_changed out
           then \<exists>link ps. require_kind rs (aq_target r) LinkKind = Inr link \<and> map_of links' (aq_target r) = Some ps
             \<and> (\<forall>n\<in>set (link_ports link). last_config calls' n = Some (mininet_link_parameters ps, True))
           else links' = links \<and> v' = v \<and> calls' = calls)"
proof -
  have "calls_agree rs links calls"
    by (rule configure_links_agree [OF assms(1) calls_agree_initial [OF assms(1)] assms(2)])
  from configure_link_agrees [OF assms(1) this assms(3)] configure_link_unlogged [OF assms(3)] show ?thesis by simp
qed


section \<open>A concrete network\<close>

text \<open>The world is the list of interfaces that are up; \<open>s1-eth1\<close> cannot be taken up.\<close>

definition sample_ip :: "string list executor" where
  "sample_ip w argv on limit =
     (let ok = (\<lambda>out w'. (CommandDone \<lparr>cr_out = out, cr_err = [], cr_code = 0\<rparr>, w')) in
      if argv = show_command (last argv) then ok (if last argv \<in> set w then ''up'' else []) w
      else if argv = set_command (argv ! 4) ''up'' then
        (if argv ! 4 = ''s1-eth1'' then (CommandDone \<lparr>cr_out = [], cr_err = ''no'', cr_code = 2\<rparr>, w)
         else ok [] (List.insert (argv ! 4) w))
      else if argv = set_command (argv ! 4) ''down'' then ok [] (removeAll (argv ! 4) w)
      else (CommandBroken, w))"

definition sample_loads :: loads where
  "sample_loads s =
     Some (JArr [JObj [(''flags'', JArr (if s = ''up'' then [JStr ''UP''] else []))]])"

definition sample_network :: "string list network" where
  "sample_network =
     \<lparr>nw_exec = sample_ip, nw_loads = sample_loads, nw_interfaces = [''h1-eth0'', ''s1-eth1''],
      nw_node = (\<lambda>n. n = ''h1'' \<or> n = ''s1''), nw_config = (\<lambda>_ _ w. (True, w))\<rparr>"

definition sample_link_resources :: "planned_resource list" where
  "sample_link_resources =
     [PortResource \<lparr>pp_name = ''h1-eth0'', pp_parent = ''h1'', pp_role = HostInterface, pp_number = 0,
        pp_ipv4 = None, pp_mac = None, pp_mtu = 1500\<rparr>,
      PortResource \<lparr>pp_name = ''s1-eth1'', pp_parent = ''s1'', pp_role = SwitchPort, pp_number = 1,
        pp_ipv4 = None, pp_mac = None, pp_mtu = 1500\<rparr>,
      LinkResource \<lparr>pk_name = ''l1'', pk_labels = [], pk_attributes = [], pk_endpoints = (''h1-eth0'', ''s1-eth1''),
        pk_bandwidth = None, pk_delay = None, pk_jitter = None, pk_loss = 0, pk_max_queue = None\<rparr>]"

definition sample_link_request :: action_request where
  "sample_link_request = \<lparr>aq_id = ''p1'', aq_name = ''link.enable'', aq_target = ''l1'', aq_parameters = [],
     aq_timeout = 30\<rparr>"

lemma sample_obeys: "obeys_ip sample_network (\<lambda>w n. n \<in> set w)"
proof -
  have "sets_interfaces sample_ip (\<lambda>w n. n \<in> set w)"
    by (auto simp: sets_interfaces_def sample_ip_def set_command_def show_command_def state_name_def Let_def fun_eq_iff)
  moreover have "shows_interfaces sample_ip sample_loads (\<lambda>w n. n \<in> set w)"
    by (auto simp: shows_interfaces_def sample_ip_def set_command_def show_command_def Let_def
        sample_loads_def interface_flags_def says_up_def)
  ultimately show ?thesis by (simp add: obeys_ip_def sample_network_def)
qed

lemma sample_failed:
  "set_link_state (logged sample_network) sample_link_resources True sample_link_request ([''s1-eth2''], [])
     = (Inl action_failed, [''s1-eth2''],
        [CommandRun (show_command ''h1-eth0'') (CommandDone \<lparr>cr_out = [], cr_err = [], cr_code = 0\<rparr>),
         CommandRun (show_command ''s1-eth1'') (CommandDone \<lparr>cr_out = [], cr_err = [], cr_code = 0\<rparr>),
         CommandRun (set_command ''h1-eth0'' ''up'') (CommandDone \<lparr>cr_out = [], cr_err = [], cr_code = 0\<rparr>),
         CommandRun (set_command ''s1-eth1'' ''up'') (CommandDone \<lparr>cr_out = [], cr_err = ''no'', cr_code = 2\<rparr>),
         CommandRun (set_command ''h1-eth0'' ''down'') (CommandDone \<lparr>cr_out = [], cr_err = [], cr_code = 0\<rparr>)])"
  by code_simp

text \<open>The end that was taken up is taken down again, and nothing has changed.\<close>

theorem link_state_all_or_nothing_witness:
  "(\<lambda>n. n \<in> set (snd (set_link_state sample_network sample_link_resources True sample_link_request [''s1-eth2''])))
     = (\<lambda>n. n \<in> set [''s1-eth2''])"
  using link_state_all_or_nothing [OF sample_obeys sample_failed]
  by (auto simp: in_doubt_def set_command_def show_command_def state_name_def exits_well_def cut_off_def fun_eq_iff)

text \<open>A network of which \<open>s1-eth1\<close> refuses a bandwidth of 900; the world is what is configured.\<close>

definition sample_shape :: "string \<Rightarrow> json_object \<Rightarrow> (string \<times> json_object) list \<Rightarrow> bool \<times> (string \<times> json_object) list" where
  "sample_shape n ps w =
     (if n = ''s1-eth1'' \<and> map_of ps ''bw'' = Some (JInt 900) then (False, w) else (True, AList.update n ps w))"

definition sample_shaper :: "(string \<times> json_object) list network" where
  "sample_shaper =
     \<lparr>nw_exec = (\<lambda>w _ _ _. (CommandBroken, w)), nw_loads = sample_loads,
      nw_interfaces = [''h1-eth0'', ''s1-eth1''], nw_node = (\<lambda>n. n = ''h1'' \<or> n = ''s1''),
      nw_config = sample_shape\<rparr>"

definition sample_shaping :: action_request where
  "sample_shaping = \<lparr>aq_id = ''p2'', aq_name = ''link.configure'', aq_target = ''l1'',
     aq_parameters = [(''bandwidth'', JInt 900)], aq_timeout = 30\<rparr>"

lemma sample_separate: "separate_links sample_link_resources"
  by (simp add: separate_links_def sample_link_resources_def)

text \<open>The first end takes the change, the second refuses it, and the first gets its old parameters again.\<close>

theorem recorded_parameters_are_configured_witness:
  "case configure_link (logged sample_shaper) sample_link_resources (initial_links sample_link_resources)
       sample_shaping ([], []) of
     (res, links, w, calls) \<Rightarrow>
       calls_agree sample_link_resources links calls \<and> links = initial_links sample_link_resources
       \<and> last_config calls ''h1-eth0'' = Some (mininet_link_parameters (snd (hd links)), True)
       \<and> last_config calls ''s1-eth1''
           = Some (mininet_link_parameters (merge_parameters (snd (hd links)) [(''bandwidth'', JInt 900)]), False)"
proof -
  let ?run = "configure_link (logged sample_shaper) sample_link_resources (initial_links sample_link_resources)
       sample_shaping ([], [])"
  have none: "configure_links (logged sample_shaper) sample_link_resources (initial_links sample_link_resources)
      ([], []) [] = (initial_links sample_link_resources, [], [])" by simp
  obtain res links w calls where run: "?run = (res, links, w, calls)" by (cases ?run)
  have "case ?run of (res, links, w, calls) \<Rightarrow> isl res
       \<and> last_config calls ''h1-eth0'' = Some (mininet_link_parameters (snd (hd links)), True)
       \<and> last_config calls ''s1-eth1''
           = Some (mininet_link_parameters (merge_parameters (snd (hd links)) [(''bandwidth'', JInt 900)]), False)"
    by code_simp
  with recorded_parameters_are_configured [OF sample_separate none run] run show ?thesis
    by (auto split: sum.splits)
qed

end
