(* ===== verification/Process_Actions.thy ===== *)
theory Process_Actions
  imports Link_Actions
begin

text \<open>
  The processes that the Open vSwitch driver starts on hosts
  (\<open>mininet_ai/substrates/mininet_ovs/actions.py\<close>): starting and stopping one
  (\<open>_start_process\<close>, \<open>_stop_process\<close>), the way it is terminated (\<open>_terminate\<close>), the
  processes a run still owns (\<open>owned_pids\<close>, \<open>release_pids\<close>, \<open>close\<close>), and the dispatch of an action
  to its handler (\<open>execute\<close>).

  The operating system is an argument, a record of the calls that are made, each a function of the
  state of the world. A \<open>Popen\<close> object is a number. The two loops that wait for a process group have
  no bound of their own: they are partial functions, \<open>None\<close> when they never end.
\<close>

section \<open>The operating system\<close>

datatype group_answer = InGroup int | NoProcess | GroupRaised

datatype wait_answer = Waited | WaitExpired | WaitRaised

datatype kill_answer = Signalled | NoGroup | NotPermitted | KillRaised

datatype group_signal = Probe | Terminate | Kill

record 'w os =
  os_popen :: "string \<Rightarrow> string list \<Rightarrow> 'w \<Rightarrow> nat option \<times> 'w"
  os_poll :: "nat \<Rightarrow> 'w \<Rightarrow> int option \<times> 'w"
  os_pid :: "nat \<Rightarrow> int"
  os_code :: "nat \<Rightarrow> 'w \<Rightarrow> int option"
  os_group :: "nat \<Rightarrow> 'w \<Rightarrow> group_answer"
  os_own :: int
  os_wait :: "nat \<Rightarrow> rat \<Rightarrow> 'w \<Rightarrow> wait_answer \<times> 'w"
  os_terminate :: "nat \<Rightarrow> 'w \<Rightarrow> bool \<times> 'w"
  os_kill :: "nat \<Rightarrow> 'w \<Rightarrow> bool \<times> 'w"
  os_killpg :: "int \<Rightarrow> group_signal \<Rightarrow> 'w \<Rightarrow> kill_answer \<times> 'w"
  os_now :: "'w \<Rightarrow> rat \<times> 'w"
  os_sleep :: "rat \<Rightarrow> 'w \<Rightarrow> 'w"

section \<open>Terminating a process\<close>

text \<open>How the body of \<open>_terminate\<close> may leave: with an error of its own, with an expired wait, or
  with any other exception.\<close>

datatype stop_exception = StopError ovs_error | StopExpired | StopRaised

definition group_exists :: "'w os \<Rightarrow> int \<Rightarrow> 'w \<Rightarrow> (stop_exception + bool) \<times> 'w" where
  "group_exists os g w =
     (case os_killpg os g Probe w of
        (NoGroup, w') \<Rightarrow> (Inr False, w')
      | (KillRaised, w') \<Rightarrow> (Inl StopRaised, w')
      | (_, w') \<Rightarrow> (Inr True, w'))"

definition short_sleep :: "'w os \<Rightarrow> rat \<Rightarrow> 'w \<Rightarrow> 'w" where
  "short_sleep os deadline w =
     (case os_now os w of (t, w') \<Rightarrow> os_sleep os (min (1 / 20) (max 0 (deadline - t))) w')"

text \<open>Waiting for the group until the deadline.\<close>

partial_function (option) await_group ::
  "'w os \<Rightarrow> nat \<Rightarrow> int \<Rightarrow> rat \<Rightarrow> 'w \<Rightarrow> ((stop_exception + unit) \<times> 'w) option" where
  "await_group os p g deadline w =
     (case group_exists os g w of
        (Inl e, w1) \<Rightarrow> Some (Inl e, w1)
      | (Inr there, w1) \<Rightarrow>
          if \<not> there then Some (Inr (), w1)
          else (case os_poll os p w1 of (_, w2) \<Rightarrow>
               (case os_now os w2 of (t, w3) \<Rightarrow>
                  if deadline \<le> t then Some (Inr (), w3)
                  else await_group os p g deadline (short_sleep os deadline w3))))"

text \<open>After the group was killed: here the deadline is an error.\<close>

partial_function (option) await_killed ::
  "'w os \<Rightarrow> int \<Rightarrow> rat \<Rightarrow> 'w \<Rightarrow> ((stop_exception + unit) \<times> 'w) option" where
  "await_killed os g deadline w =
     (case group_exists os g w of
        (Inl e, w1) \<Rightarrow> Some (Inl e, w1)
      | (Inr there, w1) \<Rightarrow>
          if \<not> there then Some (Inr (), w1)
          else (case os_now os w1 of (t, w2) \<Rightarrow>
                  if deadline \<le> t then Some (Inl (StopError action_timeout), w2)
                  else await_killed os g deadline (short_sleep os deadline w2)))"

definition wait_process :: "'w os \<Rightarrow> nat \<Rightarrow> rat \<Rightarrow> 'w \<Rightarrow> (stop_exception + unit) \<times> 'w" where
  "wait_process os p timeout w =
     (case os_wait os p timeout w of
        (Waited, w') \<Rightarrow> (Inr (), w')
      | (WaitExpired, w') \<Rightarrow> (Inl StopExpired, w')
      | (WaitRaised, w') \<Rightarrow> (Inl StopRaised, w'))"

definition kill_group ::
  "'w os \<Rightarrow> nat \<Rightarrow> int \<Rightarrow> rat \<Rightarrow> 'w \<Rightarrow> ((stop_exception + unit) \<times> 'w) option" where
  "kill_group os p g timeout w =
     (case os_killpg os g Kill w of
        (Signalled, w1) \<Rightarrow>
          (case os_wait os p timeout w1 of
             (Waited, w2) \<Rightarrow>
               (case os_now os w2 of (t, w3) \<Rightarrow> await_killed os g (t + timeout) w3)
           | (WaitExpired, w2) \<Rightarrow> Some (Inl (StopError action_timeout), w2)
           | (WaitRaised, w2) \<Rightarrow> Some (Inl StopRaised, w2))
      | (_, w1) \<Rightarrow> Some (Inl StopRaised, w1))"

definition stop_group ::
  "'w os \<Rightarrow> nat \<Rightarrow> int \<Rightarrow> rat \<Rightarrow> 'w \<Rightarrow> ((stop_exception + unit) \<times> 'w) option" where
  "stop_group os p g timeout w =
     (case os_killpg os g Terminate w of
        (Signalled, w1) \<Rightarrow>
          (case os_now os w1 of (t, w2) \<Rightarrow>
          (case await_group os p g (t + timeout) w2 of
             None \<Rightarrow> None
           | Some (Inl e, w3) \<Rightarrow> Some (Inl e, w3)
           | Some (Inr _, w3) \<Rightarrow>
               (case group_exists os g w3 of
                  (Inl e, w4) \<Rightarrow> Some (Inl e, w4)
                | (Inr there, w4) \<Rightarrow>
                    if \<not> there then Some (Inr (), snd (os_poll os p w4))
                    else kill_group os p g timeout w4)))
      | (_, w1) \<Rightarrow> Some (Inl StopRaised, w1))"

definition terminate_body ::
  "'w os \<Rightarrow> nat \<Rightarrow> rat \<Rightarrow> 'w \<Rightarrow> ((stop_exception + unit) \<times> 'w) option" where
  "terminate_body os p timeout w =
     (case os_group os p w of
        NoProcess \<Rightarrow> Some (wait_process os p timeout w)
      | GroupRaised \<Rightarrow> Some (Inl StopRaised, w)
      | InGroup g \<Rightarrow>
          if g = os_own os then
            (case os_terminate os p w of
               (True, w1) \<Rightarrow> Some (wait_process os p timeout w1)
             | (False, w1) \<Rightarrow> Some (Inl StopRaised, w1))
          else stop_group os p g timeout w)"

text \<open>An expired wait: the process, or its group, is killed and waited for once more. An exception
  here leaves the driver as it is.\<close>

definition kill_expired :: "'w os \<Rightarrow> nat \<Rightarrow> int option \<Rightarrow> rat \<Rightarrow> 'w \<Rightarrow> (ovs_error + unit) \<times> 'w" where
  "kill_expired os p pg timeout w =
     (case (case pg of
              None \<Rightarrow> os_kill os p w
            | Some g \<Rightarrow>
                if g = os_own os then os_kill os p w
                else (case os_killpg os g Kill w of (a, w') \<Rightarrow> (a = Signalled, w'))) of
        (False, w1) \<Rightarrow> (Inl OtherError, w1)
      | (True, w1) \<Rightarrow>
          (case os_wait os p timeout w1 of
             (Waited, w2) \<Rightarrow> (Inr (), w2)
           | (WaitExpired, w2) \<Rightarrow> (Inl action_timeout, w2)
           | (WaitRaised, w2) \<Rightarrow> (Inl OtherError, w2)))"

definition terminate_process ::
  "'w os \<Rightarrow> nat \<Rightarrow> rat \<Rightarrow> 'w \<Rightarrow> ((ovs_error + unit) \<times> 'w) option" where
  "terminate_process os p timeout w =
     (case terminate_body os p timeout w of
        None \<Rightarrow> None
      | Some (Inr _, w') \<Rightarrow> Some (Inr (), w')
      | Some (Inl e, w') \<Rightarrow>
          (case e of
             StopError e' \<Rightarrow> Some (Inl e', w')
           | StopExpired \<Rightarrow>
               Some (kill_expired os p (case os_group os p w of InGroup g \<Rightarrow> Some g | _ \<Rightarrow> None) timeout w')
           | StopRaised \<Rightarrow> Some (Inl action_failed, w')))"

section \<open>The processes of a run\<close>

record managed =
  mg_host :: string
  mg_process :: nat

type_synonym process_table = "(string \<times> managed) list"

text \<open>\<open>process.poll() is None\<close>.\<close>

definition still_running :: "'w os \<Rightarrow> nat \<Rightarrow> 'w \<Rightarrow> bool \<times> 'w" where
  "still_running os p w = (case os_poll os p w of (code, w') \<Rightarrow> (code = None, w'))"

definition stop_running :: "'w os \<Rightarrow> nat \<Rightarrow> rat \<Rightarrow> 'w \<Rightarrow> ((ovs_error + bool) \<times> 'w) option" where
  "stop_running os p timeout w =
     (case still_running os p w of
        (False, w1) \<Rightarrow> Some (Inr False, w1)
      | (True, w1) \<Rightarrow>
          (case terminate_process os p timeout w1 of
             None \<Rightarrow> None
           | Some (Inl e, w2) \<Rightarrow> Some (Inl e, w2)
           | Some (Inr _, w2) \<Rightarrow> Some (Inr True, w2)))"

fun close_all :: "'w os \<Rightarrow> process_table \<Rightarrow> 'w \<Rightarrow> ((ovs_error + unit) \<times> 'w) option" where
  "close_all os [] w = Some (Inr (), w)"
| "close_all os ((_, m) # ps) w =
     (case stop_running os (mg_process m) 2 w of
        None \<Rightarrow> None
      | Some (Inl e, w') \<Rightarrow> Some (Inl e, w')
      | Some (Inr _, w') \<Rightarrow> close_all os ps w')"

definition close_processes ::
  "'w os \<Rightarrow> process_table \<Rightarrow> 'w \<Rightarrow> ((ovs_error + unit) \<times> process_table \<times> 'w) option" where
  "close_processes os ps w =
     (case close_all os ps w of
        None \<Rightarrow> None
      | Some (Inl e, w') \<Rightarrow> Some (Inl e, ps, w')
      | Some (Inr _, w') \<Rightarrow> Some (Inr (), [], w'))"

fun live_pids :: "'w os \<Rightarrow> process_table \<Rightarrow> 'w \<Rightarrow> int list \<times> 'w" where
  "live_pids os [] w = ([], w)"
| "live_pids os ((_, m) # ps) w =
     (case still_running os (mg_process m) w of
        (live, w1) \<Rightarrow>
          (case live_pids os ps w1 of
             (pids, w2) \<Rightarrow> (if live then os_pid os (mg_process m) # pids else pids, w2)))"

definition owned_pids :: "'w os \<Rightarrow> process_table \<Rightarrow> 'w \<Rightarrow> int list \<times> 'w" where
  "owned_pids os ps w = (case live_pids os ps w of (pids, w') \<Rightarrow> (sort pids, w'))"

text \<open>The loop runs over a copy of the table; what it deletes is deleted one by one.\<close>

fun release_each ::
  "'w os \<Rightarrow> int list \<Rightarrow> process_table \<Rightarrow> process_table \<Rightarrow> 'w
   \<Rightarrow> ((ovs_error + unit) \<times> process_table \<times> 'w) option" where
  "release_each os pids [] ps w = Some (Inr (), ps, w)"
| "release_each os pids ((name, m) # rest) ps w =
     (if os_pid os (mg_process m) \<notin> set pids then release_each os pids rest ps w
      else case stop_running os (mg_process m) 2 w of
             None \<Rightarrow> None
           | Some (Inl e, w') \<Rightarrow> Some (Inl e, ps, w')
           | Some (Inr _, w') \<Rightarrow> release_each os pids rest (AList.delete name ps) w')"

definition release_pids ::
  "'w os \<Rightarrow> int list \<Rightarrow> process_table \<Rightarrow> 'w \<Rightarrow> ((ovs_error + unit) \<times> process_table \<times> 'w) option" where
  "release_pids os pids ps w = release_each os pids ps ps w"

section \<open>Starting and stopping\<close>

definition no_nul :: "string \<Rightarrow> bool" where
  "no_nul s = (CHR 0x00 \<notin> set s)"

text \<open>The command and its arguments, if the parameters are valid.\<close>

definition process_command :: "json_object \<Rightarrow> ovs_error + string list" where
  "process_command ps =
     (if \<not> list_all (\<lambda>(k, _). k = ''command'' \<or> k = ''arguments'') ps then Inl reject
      else case map_of ps ''command'' of
             Some (JStr c) \<Rightarrow>
               if c = [] \<or> \<not> no_nul c then Inl reject
               else (case map_of ps ''arguments'' of
                       None \<Rightarrow> Inr [c]
                     | Some (JArr xs) \<Rightarrow>
                         bind_res (map_res (\<lambda>x. case x of
                             JStr s \<Rightarrow> if no_nul s then Inr s else Inl reject | _ \<Rightarrow> Inl reject) xs)
                           (\<lambda>arguments. Inr (c # arguments))
                     | Some _ \<Rightarrow> Inl reject)
           | _ \<Rightarrow> Inl reject)"

definition start_process ::
  "'w network \<Rightarrow> 'w os \<Rightarrow> planned_resource list \<Rightarrow> process_table \<Rightarrow> action_request \<Rightarrow> 'w
   \<Rightarrow> (ovs_error + action_outcome) \<times> process_table \<times> 'w" where
  "start_process nw os rs ps r w =
     (case require_kind rs (aq_target r) HostKind of
        Inl e \<Rightarrow> (Inl e, ps, w)
      | Inr _ \<Rightarrow>
          (case process_command (aq_parameters r) of
             Inl e \<Rightarrow> (Inl e, ps, w)
           | Inr command \<Rightarrow>
               if map_of ps (aq_id r) \<noteq> None then (Inl reject, ps, w)
               else case node_name nw (aq_target r) of
                 Inl e \<Rightarrow> (Inl e, ps, w)
               | Inr on \<Rightarrow>
                   (case os_popen os on command w of
                      (None, w1) \<Rightarrow> (Inl action_failed, ps, w1)
                    | (Some p, w1) \<Rightarrow>
                        (case still_running os p w1 of
                           (False, w2) \<Rightarrow> (Inl action_failed, ps, w2)
                         | (True, w2) \<Rightarrow>
                             (Inr \<lparr>ao_changed = True,
                                   ao_output = [(''processId'', JStr (aq_id r)), (''host'', JStr (aq_target r)),
                                                (''pid'', JInt (os_pid os p)),
                                                (''command'', JArr (map JStr command))]\<rparr>,
                              AList.update (aq_id r) \<lparr>mg_host = aq_target r, mg_process = p\<rparr> ps, w2)))))"

definition stop_process ::
  "'w os \<Rightarrow> planned_resource list \<Rightarrow> process_table \<Rightarrow> action_request \<Rightarrow> 'w
   \<Rightarrow> ((ovs_error + action_outcome) \<times> 'w) option" where
  "stop_process os rs ps r w =
     (case require_kind rs (aq_target r) HostKind of
        Inl e \<Rightarrow> Some (Inl e, w)
      | Inr _ \<Rightarrow>
          if \<not> list_all (\<lambda>(k, _). k = ''processId'') (aq_parameters r) then Some (Inl reject, w)
          else case map_of (aq_parameters r) ''processId'' of
            Some (JStr name) \<Rightarrow>
              if name = [] then Some (Inl reject, w)
              else (case map_of ps name of
                      None \<Rightarrow> Some (Inl (ActionError ''runtime.action.process-unknown'' ActionRejected), w)
                    | Some m \<Rightarrow>
                        if mg_host m \<noteq> aq_target r then Some (Inl reject, w)
                        else (case stop_running os (mg_process m) (aq_timeout r) w of
                                None \<Rightarrow> None
                              | Some (Inl e, w') \<Rightarrow> Some (Inl e, w')
                              | Some (Inr running, w') \<Rightarrow>
                                  Some (Inr \<lparr>ao_changed = running,
                                     ao_output = [(''processId'', JStr name), (''host'', JStr (aq_target r)),
                                       (''returnCode'', case os_code os (mg_process m) w' of
                                           None \<Rightarrow> JNull | Some c \<Rightarrow> JInt c)]\<rparr>, w')))
          | _ \<Rightarrow> Some (Inl reject, w))"

section \<open>Dispatch\<close>

record driver_state =
  ds_links :: link_table
  ds_processes :: process_table

definition dispatch_action ::
  "(json \<Rightarrow> string) \<Rightarrow> 'w network \<Rightarrow> 'w os \<Rightarrow> planned_resource list \<Rightarrow> driver_state \<Rightarrow> action_request \<Rightarrow> 'w
   \<Rightarrow> ((ovs_error + action_outcome) \<times> driver_state \<times> 'w) option" where
  "dispatch_action shown nw os rs st r w =
     (let same = (\<lambda>(res, w'). (res, st, w')) in
      if aq_name r = ''link.enable'' then Some (same (set_link_state nw rs True r w))
      else if aq_name r = ''link.disable'' then Some (same (set_link_state nw rs False r w))
      else if aq_name r = ''link.configure'' then
        Some (case configure_link nw rs (ds_links st) r w of
                (res, links, w') \<Rightarrow> (res, st\<lparr>ds_links := links\<rparr>, w'))
      else if aq_name r = ''openflow.flow.install'' then Some (same (install_flow shown (nw_exec nw) rs r w))
      else if aq_name r = ''openflow.flow.remove'' then Some (same (remove_flow shown (nw_exec nw) rs r w))
      else if aq_name r = ''host.process.start'' then
        Some (case start_process nw os rs (ds_processes st) r w of
                (res, ps, w') \<Rightarrow> (res, st\<lparr>ds_processes := ps\<rparr>, w'))
      else if aq_name r = ''host.process.stop'' then
        map_option same (stop_process os rs (ds_processes st) r w)
      else Some (Inl (ActionError ''runtime.action.unsupported'' ActionRejected), st, w))"

section \<open>Stopping ends\<close>

text \<open>
  A clock that runs: reading it tells a time between before and after, sleeping takes at least as
  long as asked, and no call turns it back.
\<close>

definition clock_runs :: "'w os \<Rightarrow> ('w \<Rightarrow> rat) \<Rightarrow> bool" where
  "clock_runs os clock \<longleftrightarrow>
     (\<forall>w. clock w \<le> fst (os_now os w) \<and> fst (os_now os w) \<le> clock (snd (os_now os w)))
     \<and> (\<forall>d w. 0 \<le> d \<longrightarrow> clock w + d \<le> clock (os_sleep os d w))
     \<and> (\<forall>p w. clock w \<le> clock (snd (os_poll os p w)))
     \<and> (\<forall>g s w. clock w \<le> clock (snd (os_killpg os g s w)))"

lemma clock_facts:
  assumes "clock_runs os clock"
  shows "os_now os w = (t, w') \<Longrightarrow> clock w \<le> t \<and> t \<le> clock w'"
    and "0 \<le> d \<Longrightarrow> clock w + d \<le> clock (os_sleep os d w)"
    and "os_poll os p w = (c, w') \<Longrightarrow> clock w \<le> clock w'"
    and "group_exists os g w = (b, w') \<Longrightarrow> clock w \<le> clock w'"
proof -
  show "clock w \<le> t \<and> t \<le> clock w'" if "os_now os w = (t, w')"
    using assms that by (auto simp: clock_runs_def dest: spec [of _ w])
  show "clock w + d \<le> clock (os_sleep os d w)" if "0 \<le> d"
    using assms that by (simp add: clock_runs_def)
  show "clock w \<le> clock w'" if "os_poll os p w = (c, w')"
    using assms that unfolding clock_runs_def by (metis snd_conv)
  have "clock w \<le> clock (snd (os_killpg os g Probe w))" using assms by (simp add: clock_runs_def)
  then show "clock w \<le> clock w'" if "group_exists os g w = (b, w')"
    using that by (auto simp: group_exists_def split: prod.splits kill_answer.splits)
qed

lemma short_sleep_passes:
  assumes "clock_runs os clock"
  shows "min deadline (clock w + 1 / 20) \<le> clock (short_sleep os deadline w)"
proof -
  obtain t v where now: "os_now os w = (t, v)" by (cases "os_now os w")
  let ?d = "min (1 / 20) (max 0 (deadline - t))"
  from clock_facts(1) [OF assms now] have "clock w \<le> t" "t \<le> clock v" by auto
  moreover have "clock v + ?d \<le> clock (os_sleep os ?d v)" by (rule clock_facts(2) [OF assms]) simp
  ultimately show ?thesis by (auto simp: short_sleep_def now min_def max_def split: if_splits)
qed

text \<open>The rounds a loop may still make.\<close>

definition rounds :: "rat \<Rightarrow> rat \<Rightarrow> nat" where
  "rounds deadline t = nat \<lceil>(deadline - t) * 20\<rceil>"

lemma rounds_less:
  assumes "t < deadline" and "min deadline (t + 1 / 20) \<le> u"
  shows "rounds deadline u < rounds deadline t"
proof -
  have pos: "0 < \<lceil>(deadline - t) * 20\<rceil>" using assms(1) by simp
  show ?thesis
  proof (cases "deadline \<le> u")
    case True
    then have "\<lceil>(deadline - u) * 20\<rceil> \<le> 0" by simp
    with pos show ?thesis by (simp add: rounds_def)
  next
    case False
    with assms(2) have "t + 1 / 20 \<le> u" by (simp add: min_def split: if_splits)
    then have "(deadline - u) * 20 \<le> (deadline - t) * 20 - 1" by (simp add: algebra_simps)
    then have "\<lceil>(deadline - u) * 20\<rceil> \<le> \<lceil>(deadline - t) * 20 - 1\<rceil>" by (rule ceiling_mono)
    also have "\<dots> = \<lceil>(deadline - t) * 20\<rceil> - 1" by simp
    finally show ?thesis using pos by (simp add: rounds_def)
  qed
qed

lemma await_group_ends:
  assumes "clock_runs os clock"
  shows "\<exists>r. await_group os p g deadline w = Some r"
proof (induction "rounds deadline (clock w)" arbitrary: w rule: less_induct)
  case less
  obtain b w1 where exists: "group_exists os g w = (b, w1)" by (cases "group_exists os g w")
  obtain c w2 where poll: "os_poll os p w1 = (c, w2)" by (cases "os_poll os p w1")
  obtain t w3 where now: "os_now os w2 = (t, w3)" by (cases "os_now os w2")
  note unfold = await_group.simps [of os p g deadline w, unfolded exists]
  show ?case
  proof (cases b)
    case (Inl e)
    then show ?thesis by (simp add: unfold)
  next
    case (Inr there)
    show ?thesis
    proof (cases "\<not> there \<or> deadline \<le> t")
      case True
      with Inr poll now show ?thesis by (auto simp: unfold)
    next
      case False
      have before: "clock w \<le> clock w3" "clock w \<le> t"
        using clock_facts(4) [OF assms exists] clock_facts(3) [OF assms poll] clock_facts(1) [OF assms now] by auto
      with short_sleep_passes [OF assms, of deadline w3]
      have "min deadline (clock w + 1 / 20) \<le> clock (short_sleep os deadline w3)" by (auto simp: min_def split: if_splits)
      moreover have "clock w < deadline" using before(2) False by simp
      ultimately have "rounds deadline (clock (short_sleep os deadline w3)) < rounds deadline (clock w)"
        by (intro rounds_less)
      from less [OF this] False Inr poll now show ?thesis by (simp add: unfold)
    qed
  qed
qed

lemma await_killed_ends:
  assumes "clock_runs os clock"
  shows "\<exists>r. await_killed os g deadline w = Some r"
proof (induction "rounds deadline (clock w)" arbitrary: w rule: less_induct)
  case less
  obtain b w1 where exists: "group_exists os g w = (b, w1)" by (cases "group_exists os g w")
  obtain t w3 where now: "os_now os w1 = (t, w3)" by (cases "os_now os w1")
  note unfold = await_killed.simps [of os g deadline w, unfolded exists]
  show ?case
  proof (cases b)
    case (Inl e)
    then show ?thesis by (simp add: unfold)
  next
    case (Inr there)
    show ?thesis
    proof (cases "\<not> there \<or> deadline \<le> t")
      case True
      with Inr now show ?thesis by (auto simp: unfold)
    next
      case False
      have before: "clock w \<le> clock w3" "clock w \<le> t"
        using clock_facts(4) [OF assms exists] clock_facts(1) [OF assms now] by auto
      with short_sleep_passes [OF assms, of deadline w3]
      have "min deadline (clock w + 1 / 20) \<le> clock (short_sleep os deadline w3)" by (auto simp: min_def split: if_splits)
      moreover have "clock w < deadline" using before(2) False by simp
      ultimately have "rounds deadline (clock (short_sleep os deadline w3)) < rounds deadline (clock w)"
        by (intro rounds_less)
      from less [OF this] False Inr now show ?thesis by (simp add: unfold)
    qed
  qed
qed

lemma terminate_process_ends:
  assumes "clock_runs os clock"
  shows "\<exists>r. terminate_process os p timeout w = Some r"
proof -
  have "\<exists>r. kill_group os p g timeout v = Some r" for g v
    using await_killed_ends [OF assms, of g]
    by (auto simp: kill_group_def split: prod.splits kill_answer.splits wait_answer.splits)
  then have "\<exists>r. stop_group os p g timeout v = Some r" for g v
  proof -
    obtain a w1 where kill: "os_killpg os g Terminate v = (a, w1)" by (cases "os_killpg os g Terminate v")
    obtain t w2 where now: "os_now os w1 = (t, w2)" by (cases "os_now os w1")
    obtain x w3 where wait: "await_group os p g (t + timeout) w2 = Some (x, w3)"
      using await_group_ends [OF assms] by (metis surj_pair)
    obtain y w4 where there: "group_exists os g w3 = (y, w4)" by (cases "group_exists os g w3")
    obtain r where "kill_group os p g timeout w4 = Some r"
      using \<open>\<And>v g. \<exists>r. kill_group os p g timeout v = Some r\<close> by blast
    with kill now wait there show ?thesis
      by (cases a; cases x; cases y) (simp_all add: stop_group_def)
  qed
  then have "\<exists>r. terminate_body os p timeout w = Some r"
    by (auto simp: terminate_body_def split: prod.splits group_answer.splits bool.splits)
  then show ?thesis
    by (auto simp: terminate_process_def split: prod.splits sum.splits stop_exception.splits)
qed

lemma stop_running_ends:
  assumes "clock_runs os clock"
  shows "\<exists>r. stop_running os p timeout w = Some r"
proof -
  obtain b w1 where live: "still_running os p w = (b, w1)" by (cases "still_running os p w")
  obtain x w2 where "terminate_process os p timeout w1 = Some (x, w2)"
    using terminate_process_ends [OF assms] by (metis surj_pair)
  with live show ?thesis by (cases b; cases x) (simp_all add: stop_running_def)
qed

lemma close_all_ends:
  assumes "clock_runs os clock"
  shows "\<exists>r. close_all os ps w = Some r"
proof (induction ps arbitrary: w)
  case (Cons m ps)
  obtain name mg where m: "m = (name, mg)" by (cases m)
  obtain x w1 where "stop_running os (mg_process mg) 2 w = Some (x, w1)"
    using stop_running_ends [OF assms] by (metis surj_pair)
  with Cons.IH [of w1] m show ?case by (cases x) auto
qed simp

lemma release_each_ends:
  assumes "clock_runs os clock"
  shows "\<exists>r. release_each os pids rest ps w = Some r"
proof (induction rest arbitrary: ps w)
  case (Cons m rest)
  obtain name mg where m: "m = (name, mg)" by (cases m)
  obtain x w1 where "stop_running os (mg_process mg) 2 w = Some (x, w1)"
    using stop_running_ends [OF assms] by (metis surj_pair)
  with Cons.IH [of "AList.delete name ps" w1] Cons.IH [of ps w] m show ?case by (cases x) auto
qed simp

lemma stop_process_ends:
  assumes "clock_runs os clock"
  shows "\<exists>r'. stop_process os rs ps r w = Some r'"
proof -
  have "\<exists>x w'. stop_running os p t w = Some (x, w')" for p t
    using stop_running_ends [OF assms] by (metis surj_pair)
  then show ?thesis
    by (auto simp: stop_process_def split: sum.split option.split json.split) (metis not_None_eq)
qed

section \<open>Who is running\<close>

text \<open>
  Over the started processes that run in a state of the world, and the group of each: only starting
  a process adds one, a process with a return code or that was waited for does not run, and a
  group of which a probe finds no process has none that runs.
\<close>

definition start_law :: "'w os \<Rightarrow> ('w \<Rightarrow> nat set) \<Rightarrow> bool" where
  "start_law os run \<longleftrightarrow>
     (\<forall>h c w q w'. os_popen os h c w = (q, w') \<longrightarrow> run w' \<subseteq> run w \<union> set_option q)"

definition poll_law :: "'w os \<Rightarrow> ('w \<Rightarrow> nat set) \<Rightarrow> bool" where
  "poll_law os run \<longleftrightarrow>
     (\<forall>p w c w'. os_poll os p w = (c, w') \<longrightarrow> run w' \<subseteq> run w \<and> (c \<noteq> None \<longrightarrow> p \<notin> run w'))"

definition wait_law :: "'w os \<Rightarrow> ('w \<Rightarrow> nat set) \<Rightarrow> bool" where
  "wait_law os run \<longleftrightarrow>
     (\<forall>p t w a w'. os_wait os p t w = (a, w') \<longrightarrow> run w' \<subseteq> run w \<and> (a = Waited \<longrightarrow> p \<notin> run w'))"

definition group_law :: "'w os \<Rightarrow> ('w \<Rightarrow> nat set) \<Rightarrow> (nat \<Rightarrow> int) \<Rightarrow> bool" where
  "group_law os run grp \<longleftrightarrow>
     (\<forall>p w g. os_group os p w = InGroup g \<longrightarrow> g = grp p)
     \<and> (\<forall>g s w a w'. os_killpg os g s w = (a, w') \<longrightarrow> run w' \<subseteq> run w
            \<and> (s = Probe \<and> a = NoGroup \<longrightarrow> (\<forall>p\<in>run w'. grp p \<noteq> g)))"

definition quiet_law :: "'w network \<Rightarrow> 'w os \<Rightarrow> ('w \<Rightarrow> nat set) \<Rightarrow> bool" where
  "quiet_law nw os run \<longleftrightarrow>
     (\<forall>p w. run (snd (os_terminate os p w)) \<subseteq> run w) \<and> (\<forall>p w. run (snd (os_kill os p w)) \<subseteq> run w)
     \<and> (\<forall>w. run (snd (os_now os w)) \<subseteq> run w) \<and> (\<forall>d w. run (os_sleep os d w) \<subseteq> run w)
     \<and> (\<forall>w argv on limit. run (snd (nw_exec nw w argv on limit)) \<subseteq> run w)
     \<and> (\<forall>n ps w. run (snd (nw_config nw n ps w)) \<subseteq> run w)"

definition lawful :: "'w network \<Rightarrow> 'w os \<Rightarrow> ('w \<Rightarrow> nat set) \<Rightarrow> (nat \<Rightarrow> int) \<Rightarrow> bool" where
  "lawful nw os run grp \<longleftrightarrow>
     start_law os run \<and> poll_law os run \<and> wait_law os run \<and> group_law os run grp \<and> quiet_law nw os run"

lemma lawful_facts:
  assumes "lawful nw os run grp"
  shows "os_popen os h c w = (q, w') \<Longrightarrow> run w' \<subseteq> run w \<union> set_option q"
    and "os_poll os p w = (x, w') \<Longrightarrow> run w' \<subseteq> run w \<and> (x \<noteq> None \<longrightarrow> p \<notin> run w')"
    and "os_wait os p t w = (a, w') \<Longrightarrow> run w' \<subseteq> run w \<and> (a = Waited \<longrightarrow> p \<notin> run w')"
    and "os_killpg os g s w = (k, w') \<Longrightarrow> run w' \<subseteq> run w \<and> (s = Probe \<and> k = NoGroup \<longrightarrow> (\<forall>p\<in>run w'. grp p \<noteq> g))"
    and "os_group os p w = InGroup g \<Longrightarrow> g = grp p"
proof -
  have l: "start_law os run" "poll_law os run" "wait_law os run" "group_law os run grp"
    using assms by (simp_all add: lawful_def)
  show "os_popen os h c w = (q, w') \<Longrightarrow> run w' \<subseteq> run w \<union> set_option q"
    using l(1) [unfolded start_law_def, rule_format, of h c w q w'] .
  show "os_poll os p w = (x, w') \<Longrightarrow> run w' \<subseteq> run w \<and> (x \<noteq> None \<longrightarrow> p \<notin> run w')"
    using l(2) unfolding poll_law_def by simp
  show "os_wait os p t w = (a, w') \<Longrightarrow> run w' \<subseteq> run w \<and> (a = Waited \<longrightarrow> p \<notin> run w')"
    using l(3) unfolding wait_law_def by simp
  show "os_killpg os g s w = (k, w') \<Longrightarrow> run w' \<subseteq> run w \<and> (s = Probe \<and> k = NoGroup \<longrightarrow> (\<forall>p\<in>run w'. grp p \<noteq> g))"
    using l(4) unfolding group_law_def by simp
  show "os_group os p w = InGroup g \<Longrightarrow> g = grp p"
    using l(4) unfolding group_law_def by simp
qed

lemma quiet_facts:
  assumes "lawful nw os run grp"
  shows "os_terminate os p w = (b, w') \<Longrightarrow> run w' \<subseteq> run w"
    and "os_kill os p w = (b, w') \<Longrightarrow> run w' \<subseteq> run w"
    and "os_now os w = (t, w') \<Longrightarrow> run w' \<subseteq> run w"
    and "run (os_sleep os d w) \<subseteq> run w"
    and "run (snd (nw_exec nw w argv on limit)) \<subseteq> run w"
    and "run (snd (nw_config nw n ps w)) \<subseteq> run w"
proof -
  have l: "quiet_law nw os run" using assms by (simp add: lawful_def)
  then have "run (snd (os_terminate os p w)) \<subseteq> run w" "run (snd (os_kill os p w)) \<subseteq> run w"
    "run (snd (os_now os w)) \<subseteq> run w"
    unfolding quiet_law_def by simp_all
  then show "os_terminate os p w = (b, w') \<Longrightarrow> run w' \<subseteq> run w" "os_kill os p w = (b, w') \<Longrightarrow> run w' \<subseteq> run w"
    "os_now os w = (t, w') \<Longrightarrow> run w' \<subseteq> run w" by simp_all
  show "run (os_sleep os d w) \<subseteq> run w" "run (snd (nw_exec nw w argv on limit)) \<subseteq> run w"
    "run (snd (nw_config nw n ps w)) \<subseteq> run w"
    using l unfolding quiet_law_def by simp_all
qed

lemma group_exists_law:
  assumes "lawful nw os run grp" and "group_exists os g w = (b, w')"
  shows "run w' \<subseteq> run w \<and> (b = Inr False \<longrightarrow> (\<forall>p\<in>run w'. grp p \<noteq> g))"
proof -
  obtain k v where k: "os_killpg os g Probe w = (k, v)" by (cases "os_killpg os g Probe w")
  from lawful_facts(4) [OF assms(1) k] assms(2) k show ?thesis by (cases k) (auto simp: group_exists_def)
qed

lemma short_sleep_law:
  assumes "lawful nw os run grp"
  shows "run (short_sleep os d w) \<subseteq> run w"
proof -
  obtain t v where now: "os_now os w = (t, v)" by (cases "os_now os w")
  have "run (os_sleep os (min (1 / 20) (max 0 (d - t))) v) \<subseteq> run v" by (rule quiet_facts(4) [OF assms])
  also have "run v \<subseteq> run w" by (rule quiet_facts(3) [OF assms now])
  finally show ?thesis by (simp add: short_sleep_def now)
qed

text \<open>What the waiting loops leave: no process more, and after a kill none of the group.\<close>

lemma await_group_law:
  assumes "lawful nw os run grp" and "await_group os p g deadline w = Some out"
  shows "run (snd out) \<subseteq> run w"
proof (rule await_group.raw_induct [where P = "\<lambda>os' p g deadline w out. os' = os \<longrightarrow> run (snd out) \<subseteq> run w",
      OF _ assms(2), THEN mp, OF _ refl], goal_cases)
  case (1 loop os' p g deadline w out)
  show ?case
  proof
    assume os: "os' = os"
    obtain b w1 where exists: "group_exists os g w = (b, w1)" by (cases "group_exists os g w")
    obtain c w2 where poll: "os_poll os p w1 = (c, w2)" by (cases "os_poll os p w1")
    obtain t w3 where now: "os_now os w2 = (t, w3)" by (cases "os_now os w2")
    have shrink: "run w1 \<subseteq> run w" "run w3 \<subseteq> run w"
      using group_exists_law [OF assms(1) exists] lawful_facts(2) [OF assms(1) poll] quiet_facts(3) [OF assms(1) now]
      by blast+
    from 1(2) exists poll now os
    have "snd out = w1 \<or> snd out = w3 \<or> loop os p g deadline (short_sleep os deadline w3) = Some out"
      by (auto split: if_splits sum.splits)
    then show "run (snd out) \<subseteq> run w"
    proof (elim disjE)
      assume "loop os p g deadline (short_sleep os deadline w3) = Some out"
      with 1(1) os have "run (snd out) \<subseteq> run (short_sleep os deadline w3)" by blast
      with short_sleep_law [OF assms(1), of deadline w3] shrink(2) show ?thesis by blast
    qed (use shrink in simp_all)
  qed
qed

lemma await_killed_law:
  assumes "lawful nw os run grp" and "await_killed os g deadline w = Some out"
  shows "run (snd out) \<subseteq> run w \<and> (fst out = Inr () \<longrightarrow> (\<forall>p\<in>run (snd out). grp p \<noteq> g))"
proof (rule await_killed.raw_induct [where P = "\<lambda>os' g deadline w out. os' = os \<longrightarrow>
        run (snd out) \<subseteq> run w \<and> (fst out = Inr () \<longrightarrow> (\<forall>p\<in>run (snd out). grp p \<noteq> g))",
      OF _ assms(2), THEN mp, OF _ refl], goal_cases)
  case (1 loop os' g deadline w out)
  show ?case
  proof
    assume os: "os' = os"
    obtain b w1 where exists: "group_exists os g w = (b, w1)" by (cases "group_exists os g w")
    obtain t w3 where now: "os_now os w1 = (t, w3)" by (cases "os_now os w1")
    have shrink: "run w1 \<subseteq> run w" "run w3 \<subseteq> run w" "b = Inr False \<longrightarrow> (\<forall>p\<in>run w1. grp p \<noteq> g)"
      using group_exists_law [OF assms(1) exists] quiet_facts(3) [OF assms(1) now] by blast+
    from 1(2) exists now os
    have "(snd out = w1 \<and> (fst out = Inr () \<longrightarrow> b = Inr False)) \<or> (snd out = w3 \<and> fst out \<noteq> Inr ())
        \<or> loop os g deadline (short_sleep os deadline w3) = Some out"
      by (auto split: if_splits sum.splits)
    then show "run (snd out) \<subseteq> run w \<and> (fst out = Inr () \<longrightarrow> (\<forall>p\<in>run (snd out). grp p \<noteq> g))"
    proof (elim disjE)
      assume "loop os g deadline (short_sleep os deadline w3) = Some out"
      with 1(1) os have "run (snd out) \<subseteq> run (short_sleep os deadline w3)
          \<and> (fst out = Inr () \<longrightarrow> (\<forall>p\<in>run (snd out). grp p \<noteq> g))" by blast
      with short_sleep_law [OF assms(1), of deadline w3] shrink(2) show ?thesis by blast
    qed (use shrink in auto)
  qed
qed

text \<open>An attempt to stop a process that says it succeeded has ended it, and no attempt adds one.\<close>

definition ended :: "('w \<Rightarrow> nat set) \<Rightarrow> nat \<Rightarrow> 'w \<Rightarrow> ('e + 'a) \<times> 'w \<Rightarrow> bool" where
  "ended run p w out \<longleftrightarrow> run (snd out) \<subseteq> run w \<and> (\<not> isl (fst out) \<longrightarrow> p \<notin> run (snd out))"

lemma ended_after: "run v \<subseteq> run w \<Longrightarrow> ended run p v out \<Longrightarrow> ended run p w out"
  by (auto simp: ended_def)

lemma ended_error: "run v \<subseteq> run w \<Longrightarrow> ended run p w (Inl e, v)"
  by (simp add: ended_def)

lemma wait_process_law: "lawful nw os run grp \<Longrightarrow> ended run p w (wait_process os p timeout w)"
  using lawful_facts(3) by (fastforce simp: ended_def wait_process_def split: prod.splits wait_answer.splits)

lemma kill_group_law:
  assumes "lawful nw os run grp" and "kill_group os p (grp p) timeout w = Some out"
  shows "ended run p w out"
proof -
  obtain k w1 where kill: "os_killpg os (grp p) Kill w = (k, w1)" by (cases "os_killpg os (grp p) Kill w")
  obtain a w2 where wait: "os_wait os p timeout w1 = (a, w2)" by (cases "os_wait os p timeout w1")
  obtain t w3 where now: "os_now os w2 = (t, w3)" by (cases "os_now os w2")
  have shrink: "run w1 \<subseteq> run w" "run w2 \<subseteq> run w" "run w3 \<subseteq> run w"
    using lawful_facts(4) [OF assms(1) kill] lawful_facts(3) [OF assms(1) wait] quiet_facts(3) [OF assms(1) now] by blast+
  from assms(2) kill wait now
  have "(\<exists>e. out = (Inl e, w1) \<or> out = (Inl e, w2)) \<or> await_killed os (grp p) (t + timeout) w3 = Some out"
    by (auto simp: kill_group_def split: kill_answer.splits wait_answer.splits)
  then show ?thesis
  proof
    assume "await_killed os (grp p) (t + timeout) w3 = Some out"
    from await_killed_law [OF assms(1) this] shrink(3) show ?thesis
      by (cases "fst out") (auto simp: ended_def)
  qed (use shrink in \<open>auto intro: ended_error\<close>)
qed

lemma stop_group_law:
  assumes "lawful nw os run grp" and "stop_group os p (grp p) timeout w = Some out"
  shows "ended run p w out"
proof -
  obtain k w1 where kill: "os_killpg os (grp p) Terminate w = (k, w1)" by (cases "os_killpg os (grp p) Terminate w")
  obtain t w2 where now: "os_now os w1 = (t, w2)" by (cases "os_now os w1")
  have first: "run w1 \<subseteq> run w" "run w2 \<subseteq> run w"
    using lawful_facts(4) [OF assms(1) kill] quiet_facts(3) [OF assms(1) now] by blast+
  show ?thesis
  proof (cases "k = Signalled")
    case False
    with assms(2) kill obtain e where "out = (Inl e, w1)" by (auto simp: stop_group_def split: kill_answer.splits)
    with first show ?thesis by (simp add: ended_error)
  next
    case True
    with assms(2) kill now obtain x w3 where wait: "await_group os p (grp p) (t + timeout) w2 = Some (x, w3)"
      by (auto simp: stop_group_def split: option.splits)
    with await_group_law [OF assms(1) wait] first(2) have w3: "run w3 \<subseteq> run w" by auto
    obtain y w4 where exists: "group_exists os (grp p) w3 = (y, w4)" by (cases "group_exists os (grp p) w3")
    with group_exists_law [OF assms(1) exists] w3
    have w4: "run w4 \<subseteq> run w" "y = Inr False \<longrightarrow> p \<notin> run w4" by auto
    obtain c w5 where poll: "os_poll os p w4 = (c, w5)" by (cases "os_poll os p w4")
    note w5 = lawful_facts(2) [OF assms(1) poll]
    from assms(2) kill now wait exists poll True
    have "(\<exists>e. out = (Inl e, w3) \<or> out = (Inl e, w4)) \<or> (y = Inr False \<and> out = (Inr (), w5))
        \<or> kill_group os p (grp p) timeout w4 = Some out"
      by (auto simp: stop_group_def split: sum.splits if_splits)
    then show ?thesis
    proof (elim disjE exE)
      assume "kill_group os p (grp p) timeout w4 = Some out"
      from kill_group_law [OF assms(1) this] w4(1) show ?thesis by (blast intro: ended_after)
    qed (use w3 w4 w5 in \<open>auto simp: ended_def\<close>)
  qed
qed

lemma terminate_body_law:
  assumes "lawful nw os run grp" and "terminate_body os p timeout w = Some out"
  shows "ended run p w out"
proof (cases "os_group os p w")
  case (InGroup g)
  with lawful_facts(5) [OF assms(1)] have g: "g = grp p" by blast
  obtain b w1 where stop: "os_terminate os p w = (b, w1)" by (cases "os_terminate os p w")
  note w1 = quiet_facts(1) [OF assms(1) stop]
  show ?thesis
  proof (cases "g = os_own os")
    case True
    with assms(2) InGroup stop w1 wait_process_law [OF assms(1), of p w1 timeout] show ?thesis
      by (cases b) (auto simp: terminate_body_def intro: ended_after ended_error)
  next
    case False
    with assms(2) InGroup g have "stop_group os p (grp p) timeout w = Some out"
      by (simp add: terminate_body_def)
    then show ?thesis by (rule stop_group_law [OF assms(1)])
  qed
qed (use assms wait_process_law [OF assms(1), of p w timeout] in \<open>auto simp: terminate_body_def ended_def\<close>)

lemma kill_expired_law:
  assumes "lawful nw os run grp"
  shows "ended run p w (kill_expired os p pg timeout w)"
proof -
  define killed where "killed = (case pg of None \<Rightarrow> os_kill os p w
      | Some g \<Rightarrow> if g = os_own os then os_kill os p w
                  else (case os_killpg os g Kill w of (a, w') \<Rightarrow> (a = Signalled, w')))"
  obtain b w1 where one: "killed = (b, w1)" by (cases killed)
  have w1: "run w1 \<subseteq> run w"
    using one quiet_facts(2) [OF assms] lawful_facts(4) [OF assms]
    unfolding killed_def by (auto split: option.splits if_splits prod.splits)
  obtain a w2 where wait: "os_wait os p timeout w1 = (a, w2)" by (cases "os_wait os p timeout w1")
  note w2 = lawful_facts(3) [OF assms wait]
  have "kill_expired os p pg timeout w = (if b then (case a of Waited \<Rightarrow> Inr () | WaitExpired \<Rightarrow> Inl action_timeout
      | WaitRaised \<Rightarrow> Inl OtherError, w2) else (Inl OtherError, w1))"
    unfolding kill_expired_def killed_def [symmetric] one by (cases b; cases a) (simp_all add: wait)
  with w1 w2 show ?thesis by (cases b; cases a) (auto simp: ended_def)
qed

lemma terminate_process_law:
  assumes "lawful nw os run grp" and "terminate_process os p timeout w = Some out"
  shows "ended run p w out"
proof -
  from assms(2) obtain x w1 where body: "terminate_body os p timeout w = Some (x, w1)"
    by (auto simp: terminate_process_def split: option.splits)
  note law = terminate_body_law [OF assms(1) body]
  then have w1: "run w1 \<subseteq> run w" by (simp add: ended_def)
  show ?thesis
  proof (cases "x = Inl StopExpired")
    case True
    with assms(2) body have "out = kill_expired os p (case os_group os p w of InGroup g \<Rightarrow> Some g | _ \<Rightarrow> None) timeout w1"
      by (simp add: terminate_process_def)
    with kill_expired_law [OF assms(1)] w1 show ?thesis by (blast intro: ended_after)
  next
    case False
    with assms(2) body law show ?thesis
      by (auto simp: terminate_process_def ended_def split: sum.splits stop_exception.splits)
  qed
qed

lemma stop_running_law:
  assumes "lawful nw os run grp" and "stop_running os p timeout w = Some out"
  shows "ended run p w out"
proof -
  obtain c w1 where poll: "os_poll os p w = (c, w1)" by (cases "os_poll os p w")
  note w1 = lawful_facts(2) [OF assms(1) poll]
  show ?thesis
  proof (cases c)
    case (Some code)
    with assms(2) poll w1 show ?thesis by (auto simp: stop_running_def still_running_def ended_def)
  next
    case None
    with assms(2) poll obtain x w2 where stop: "terminate_process os p timeout w1 = Some (x, w2)"
      by (auto simp: stop_running_def still_running_def split: option.splits)
    from terminate_process_law [OF assms(1) stop] w1 assms(2) poll None stop show ?thesis
      by (auto simp: stop_running_def still_running_def ended_def split: sum.splits)
  qed
qed

section \<open>Actions that start nothing\<close>

lemma run_command_law:
  assumes "lawful nw os run grp"
  shows "run_command (nw_exec nw) argv on limit w = (res, w') \<Longrightarrow> run w' \<subseteq> run w"
proof -
  assume "run_command (nw_exec nw) argv on limit w = (res, w')"
  then have "w' = snd (nw_exec nw w argv on (case limit of None \<Rightarrow> 10 | Some t \<Rightarrow> if t = 0 then 10 else t))"
    by (auto simp: run_command_def split: prod.splits command_outcome.splits)
  with quiet_facts(5) [OF assms] show ?thesis by simp
qed

lemma interfaces_up_law:
  assumes "lawful nw os run grp"
  shows "interfaces_up nw sides w = (res, w') \<Longrightarrow> run w' \<subseteq> run w"
proof (induction sides arbitrary: w res w')
  case (Cons i sides)
  obtain b w1 where one: "interface_is_up nw i w = (b, w1)" by (cases "interface_is_up nw i w")
  then have "run w1 \<subseteq> run w"
    using run_command_law [OF assms] by (auto simp: interface_is_up_def split: prod.splits sum.splits)
  moreover obtain bs w2 where rest: "interfaces_up nw sides w1 = (bs, w2)" by (cases "interfaces_up nw sides w1")
  moreover have "run w2 \<subseteq> run w1" by (rule Cons.IH [OF rest])
  moreover have "w' = w1 \<or> w' = w2" using Cons.prems one rest by (auto split: sum.splits)
  ultimately show ?case by blast
qed simp

lemma set_interface_law:
  assumes "lawful nw os run grp"
  shows "set_interface nw limit b i w = (res, w') \<Longrightarrow> run w' \<subseteq> run w"
  using run_command_law [OF assms] by (auto simp: set_interface_def split: prod.splits)

lemma set_interfaces_law:
  assumes "lawful nw os run grp"
  shows "set_interfaces nw limit b sides completed w = (e, all, w') \<Longrightarrow> run w' \<subseteq> run w"
proof (induction sides arbitrary: completed w)
  case (Cons i sides)
  obtain res w1 where one: "set_interface nw limit b i w = (res, w1)" by (cases "set_interface nw limit b i w")
  note w1 = set_interface_law [OF assms one]
  show ?case
  proof (cases res)
    case (Inl x)
    with Cons.prems one w1 show ?thesis by simp
  next
    case (Inr x)
    with Cons.prems one have "set_interfaces nw limit b sides (completed @ [i]) w1 = (e, all, w')" by simp
    from Cons.IH [OF this] w1 show ?thesis by blast
  qed
qed simp

lemma undo_interfaces_law:
  assumes "lawful nw os run grp"
  shows "run (undo_interfaces nw limit b sides w) \<subseteq> run w"
proof (induction sides arbitrary: w)
  case (Cons i sides)
  have "run (snd (set_interface nw limit (\<not> b) i w)) \<subseteq> run w"
    by (rule set_interface_law [OF assms prod.collapse [symmetric]])
  with Cons.IH [of "snd (set_interface nw limit (\<not> b) i w)"] show ?case by auto
qed simp

lemma set_link_state_law:
  assumes "lawful nw os run grp" and "set_link_state nw rs b r w = (res, w')"
  shows "run w' \<subseteq> run w"
proof (cases "w' = w")
  case False
  with assms(2) obtain link sides where link: "require_kind rs (aq_target r) LinkKind = Inr link"
    "link_interfaces nw rs link = Inr sides" "aq_parameters r = []"
    by (auto simp: set_link_state_def split: sum.splits if_splits)
  obtain read w1 where read: "interfaces_up nw sides w = (read, w1)" by (cases "interfaces_up nw sides w")
  note w1 = interfaces_up_law [OF assms(1) read]
  show ?thesis
  proof (cases read)
    case (Inl e)
    with assms(2) link read w1 show ?thesis by (simp add: set_link_state_def)
  next
    case (Inr states)
    obtain e all w2 where set: "set_interfaces nw (aq_timeout r) b (changed_ends b sides states) [] w1 = (e, all, w2)"
      by (cases "set_interfaces nw (aq_timeout r) b (changed_ends b sides states) [] w1")
    have "w' = w2 \<or> w' = undo_interfaces nw (aq_timeout r) b (rev all) w2"
      using assms(2) link read Inr set by (cases e) (auto simp: set_link_state_def)
    with undo_interfaces_law [OF assms(1), of "aq_timeout r" b "rev all" w2] set_interfaces_law [OF assms(1) set] w1
    show ?thesis by blast
  qed
qed simp

lemma config_interfaces_law:
  assumes "lawful nw os run grp"
  shows "config_interfaces nw ps sides configured w = (b, all, w') \<Longrightarrow> run w' \<subseteq> run w"
proof (induction sides arbitrary: configured w)
  case (Cons i sides)
  obtain ok w1 where one: "nw_config nw (fst i) (mininet_link_parameters ps) w = (ok, w1)"
    by (cases "nw_config nw (fst i) (mininet_link_parameters ps) w")
  have w1: "run w1 \<subseteq> run w"
    using quiet_facts(6) [OF assms, of "fst i" "mininet_link_parameters ps" w] one by simp
  show ?case
  proof (cases ok)
    case False
    with Cons.prems one w1 show ?thesis by simp
  next
    case True
    with Cons.prems one have "config_interfaces nw ps sides (configured @ [i]) w1 = (b, all, w')" by simp
    from Cons.IH [OF this] w1 show ?thesis by blast
  qed
qed simp

lemma restore_interfaces_law:
  assumes "lawful nw os run grp"
  shows "run (restore_interfaces nw ps sides w) \<subseteq> run w"
proof (induction sides arbitrary: w)
  case (Cons i sides)
  let ?v = "snd (nw_config nw (fst i) (mininet_link_parameters ps) w)"
  have "run ?v \<subseteq> run w" by (rule quiet_facts(6) [OF assms])
  with Cons.IH [of ?v] show ?case by auto
qed simp

lemma configure_link_law:
  assumes "lawful nw os run grp" and "configure_link nw rs links r w = (res, links', w')"
  shows "run w' \<subseteq> run w"
proof (cases "w' = w")
  case False
  with assms(2) obtain link updates sides where link: "require_kind rs (aq_target r) LinkKind = Inr link"
    "validate_link_parameters (aq_parameters r) = Inr updates" "link_interfaces nw rs link = Inr sides"
    by (auto simp: configure_link_def Let_def split: sum.splits if_splits)
  let ?previous = "the (map_of links (res_name link))"
  obtain ok all v where run: "config_interfaces nw (merge_parameters ?previous updates) sides [] w = (ok, all, v)"
    by (cases "config_interfaces nw (merge_parameters ?previous updates) sides [] w")
  have "w' = v \<or> w' = restore_interfaces nw ?previous (rev all) v"
    using False assms(2) link run by (cases ok) (auto simp: configure_link_def Let_def split: if_splits)
  with restore_interfaces_law [OF assms(1), of ?previous "rev all" v] config_interfaces_law [OF assms(1) run]
  show ?thesis by blast
qed simp

lemma flow_actions_law:
  assumes "lawful nw os run grp"
  shows "install_flow shown (nw_exec nw) rs r w = (res, w') \<Longrightarrow> run w' \<subseteq> run w"
    and "remove_flow shown (nw_exec nw) rs r w = (res, w') \<Longrightarrow> run w' \<subseteq> run w"
proof -
  show "run w' \<subseteq> run w" if "install_flow shown (nw_exec nw) rs r w = (res, w')"
    using that run_command_law [OF assms] by (auto simp: install_flow_def split: sum.splits prod.splits)
  show "run w' \<subseteq> run w" if "remove_flow shown (nw_exec nw) rs r w = (res, w')"
    using that run_command_law [OF assms]
    by (fastforce simp: remove_flow_def Let_def split: sum.splits prod.splits json.splits option.splits)
qed

section \<open>Every running process is owned\<close>

definition owned :: "('w \<Rightarrow> nat set) \<Rightarrow> process_table \<Rightarrow> 'w \<Rightarrow> bool" where
  "owned run ps w \<longleftrightarrow> distinct (map fst ps) \<and> run w \<subseteq> (mg_process \<circ> snd) ` set ps"

lemma owned_shrink: "owned run ps w \<Longrightarrow> run w' \<subseteq> run w \<Longrightarrow> owned run ps w'"
  by (auto simp: owned_def)

lemma start_process_owned:
  assumes "lawful nw os run grp" and "owned run ps w" and "start_process nw os rs ps r w = (res, ps', w')"
  shows "owned run ps' w'"
proof (cases "ps' = ps \<and> w' = w")
  case True
  with assms(2) show ?thesis by simp
next
  case False
  with assms(3) obtain command on where go: "process_command (aq_parameters r) = Inr command"
    "map_of ps (aq_id r) = None" "node_name nw (aq_target r) = Inr on" "\<not> isl (require_kind rs (aq_target r) HostKind)"
    by (auto simp: start_process_def split: sum.splits if_splits)
  obtain q w1 where popen: "os_popen os on command w = (q, w1)" by (cases "os_popen os on command w")
  note w1 = lawful_facts(1) [OF assms(1) popen]
  show ?thesis
  proof (cases q)
    case None
    with assms(3) go popen have "ps' = ps" "w' = w1" by (auto simp: start_process_def split: sum.splits)
    with w1 None assms(2) show ?thesis by (auto intro: owned_shrink)
  next
    case (Some p)
    obtain c w2 where poll: "os_poll os p w1 = (c, w2)" by (cases "os_poll os p w1")
    note w2 = lawful_facts(2) [OF assms(1) poll]
    show ?thesis
    proof (cases c)
      case None
      with assms(3) go popen Some poll
      have "ps' = AList.update (aq_id r) \<lparr>mg_host = aq_target r, mg_process = p\<rparr> ps" "w' = w2"
        by (auto simp: start_process_def still_running_def split: sum.splits)
      moreover have "aq_id r \<notin> fst ` set ps" using go(2) by (simp add: map_of_eq_None_iff)
      ultimately show ?thesis using w1 w2 Some assms(2) go(2) by (auto simp: owned_def update_fresh)
    next
      case (Some code)
      with assms(3) go popen \<open>q = Some p\<close> poll have "ps' = ps" "w' = w2"
        by (auto simp: start_process_def still_running_def split: sum.splits)
      moreover have "run w2 \<subseteq> run w" using w1 w2 Some \<open>q = Some p\<close> by auto
      ultimately show ?thesis using assms(2) by (auto intro: owned_shrink)
    qed
  qed
qed

lemma stop_process_law:
  assumes "lawful nw os run grp" and "stop_process os rs ps r w = Some (res, w')"
  shows "run w' \<subseteq> run w"
proof (cases "w' = w")
  case False
  with assms(2) have "\<exists>p x. stop_running os p (aq_timeout r) w = Some (x, w')"
    by (auto simp: stop_process_def split: sum.splits if_splits option.splits json.splits) blast+
  then obtain p x where "stop_running os p (aq_timeout r) w = Some (x, w')" by blast
  from stop_running_law [OF assms(1) this] show ?thesis by (simp add: ended_def)
qed simp

lemma dispatch_action_owned:
  assumes "lawful nw os run grp" and "owned run (ds_processes st) w"
    and "dispatch_action shown nw os rs st r w = Some (res, st', w')"
  shows "owned run (ds_processes st') w'"
proof (cases "aq_name r = ''host.process.start''")
  case True
  with assms(3) obtain ps where "start_process nw os rs (ds_processes st) r w = (res, ps, w')" "ds_processes st' = ps"
    by (auto simp: dispatch_action_def split: prod.splits)
  with start_process_owned [OF assms(1,2)] show ?thesis by blast
next
  case False
  with assms(3) have "ds_processes st' = ds_processes st"
    "(\<exists>b. set_link_state nw rs b r w = (res, w')) \<or> (\<exists>links. configure_link nw rs (ds_links st) r w = (res, links, w'))
     \<or> install_flow shown (nw_exec nw) rs r w = (res, w') \<or> remove_flow shown (nw_exec nw) rs r w = (res, w')
     \<or> stop_process os rs (ds_processes st) r w = Some (res, w') \<or> w' = w"
    by (auto simp: dispatch_action_def Let_def split: if_splits prod.splits)
  moreover from this(2) have "run w' \<subseteq> run w"
    by (elim disjE exE)
      (erule set_link_state_law [OF assms(1)] configure_link_law [OF assms(1)] flow_actions_law [OF assms(1)]
        stop_process_law [OF assms(1)] | simp)+
  ultimately show ?thesis using assms(2) by (auto intro: owned_shrink)
qed

lemma close_all_law:
  assumes "lawful nw os run grp"
  shows "close_all os ps w = Some (res, w') \<Longrightarrow>
    run w' \<subseteq> run w \<and> (res = Inr () \<longrightarrow> (\<forall>m\<in>set ps. mg_process (snd m) \<notin> run w'))"
proof (induction ps arbitrary: w)
  case (Cons m ps)
  obtain name mg where m: "m = (name, mg)" by (cases m)
  from Cons.prems m obtain x w1 where stop: "stop_running os (mg_process mg) 2 w = Some (x, w1)"
    by (auto split: option.splits)
  note law = stop_running_law [OF assms stop, unfolded ended_def fst_conv snd_conv]
  show ?case
  proof (cases x)
    case (Inl e)
    with Cons.prems m stop law show ?thesis by auto
  next
    case (Inr b)
    with Cons.prems m stop have "close_all os ps w1 = Some (res, w')" by simp
    from Cons.IH [OF this] law Inr m show ?thesis by auto
  qed
qed simp

lemma close_processes_owned:
  assumes "lawful nw os run grp" and "owned run ps w" and "close_processes os ps w = Some (res, ps', w')"
  shows "owned run ps' w'"
proof -
  from assms(3) obtain x where all: "close_all os ps w = Some (x, w')" "ps' = (if isl x then ps else [])"
    by (auto simp: close_processes_def split: option.splits sum.splits)
  from close_all_law [OF assms(1) all(1)] assms(2) all(2) show ?thesis
    by (cases x) (auto simp: owned_def)
qed

lemma release_each_owned:
  assumes "lawful nw os run grp"
  shows "release_each os pids rest ps w = Some (res, ps', w') \<Longrightarrow> owned run ps w \<Longrightarrow> set rest \<subseteq> set ps
    \<Longrightarrow> distinct (map fst rest) \<Longrightarrow> owned run ps' w'"
proof (induction rest arbitrary: ps w)
  case (Cons m rest)
  obtain name mg where m: "m = (name, mg)" by (cases m)
  show ?case
  proof (cases "os_pid os (mg_process mg) \<in> set pids")
    case False
    with Cons.prems m show ?thesis by (auto intro: Cons.IH)
  next
    case True
    with Cons.prems(1) m obtain x w1 where stop: "stop_running os (mg_process mg) 2 w = Some (x, w1)"
      by (auto split: option.splits)
    note law = stop_running_law [OF assms stop, unfolded ended_def fst_conv snd_conv]
    show ?thesis
    proof (cases x)
      case (Inl e)
      with Cons.prems m stop law True show ?thesis by (auto intro: owned_shrink)
    next
      case (Inr b)
      with Cons.prems m stop True have rest: "release_each os pids rest (AList.delete name ps) w1 = Some (res, ps', w')"
        by simp
      have d: "distinct (map fst ps)" using Cons.prems(2) by (simp add: owned_def)
      have kept: "set (AList.delete name ps) = set ps - {(name, mg)}"
      proof -
        have "(name, v) \<in> set ps \<Longrightarrow> v = mg" for v
          using Cons.prems(3) m d by (auto dest: eq_key_imp_eq_value)
        then show ?thesis by (auto simp: AList.delete_eq)
      qed
      have "owned run (AList.delete name ps) w1"
        using Cons.prems(2) law Inr d AList.distinct_delete [OF d, of name] unfolding owned_def kept by force
      moreover have "set rest \<subseteq> set (AList.delete name ps)"
        using Cons.prems(3,4) m by (force simp: kept)
      ultimately show ?thesis using Cons.IH [OF rest] Cons.prems(4) by simp
    qed
  qed
qed simp

lemma release_pids_owned:
  assumes "lawful nw os run grp" and "owned run ps w" and "release_pids os pids ps w = Some (res, ps', w')"
  shows "owned run ps' w'"
  using release_each_owned [OF assms(1), of pids ps ps w] assms(2,3) by (simp add: release_pids_def owned_def)

lemma live_pids_law:
  assumes "lawful nw os run grp"
  shows "live_pids os ps w = (pids, w') \<Longrightarrow>
    run w' \<subseteq> run w \<and> (\<forall>m\<in>set ps. mg_process (snd m) \<in> run w' \<longrightarrow> os_pid os (mg_process (snd m)) \<in> set pids)"
proof (induction ps arbitrary: w w' pids)
  case (Cons m ps)
  obtain name mg where m: "m = (name, mg)" by (cases m)
  obtain c w1 where poll: "os_poll os (mg_process mg) w = (c, w1)" by (cases "os_poll os (mg_process mg) w")
  obtain qs w2 where rest: "live_pids os ps w1 = (qs, w2)" by (cases "live_pids os ps w1")
  from lawful_facts(2) [OF assms poll] Cons.IH [OF rest] Cons.prems m poll rest show ?case
    by (cases c) (auto simp: still_running_def)
qed simp

text \<open>
  The life of the driver of a run: its actions, the releasing and closing of processes, the
  questions that are asked of it, and what the world does by itself, where processes may end.
\<close>

inductive driver_step ::
  "(json \<Rightarrow> string) \<Rightarrow> 'w network \<Rightarrow> 'w os \<Rightarrow> planned_resource list \<Rightarrow> ('w \<Rightarrow> nat set)
   \<Rightarrow> driver_state \<times> 'w \<Rightarrow> driver_state \<times> 'w \<Rightarrow> bool"
  for shown nw os rs run where
  acts: "dispatch_action shown nw os rs st r w = Some (res, st', w')
         \<Longrightarrow> driver_step shown nw os rs run (st, w) (st', w')"
| releases: "release_pids os pids (ds_processes st) w = Some (res, ps, w')
         \<Longrightarrow> driver_step shown nw os rs run (st, w) (st\<lparr>ds_processes := ps\<rparr>, w')"
| closes: "close_processes os (ds_processes st) w = Some (res, ps, w')
         \<Longrightarrow> driver_step shown nw os rs run (st, w) (st\<lparr>ds_processes := ps\<rparr>, w')"
| asked: "owned_pids os (ds_processes st) w = (pids, w')
         \<Longrightarrow> driver_step shown nw os rs run (st, w) (st, w')"
| goes_on: "run w' \<subseteq> run w \<Longrightarrow> driver_step shown nw os rs run (st, w) (st, w')"

inductive_cases driver_stepE: "driver_step shown nw os rs run (st, w) (st', w')"

definition fresh_driver :: "planned_resource list \<Rightarrow> driver_state" where
  "fresh_driver rs = \<lparr>ds_links = initial_links rs, ds_processes = []\<rparr>"

lemma driver_step_owned:
  assumes "lawful nw os run grp" and "driver_step shown nw os rs run (st, w) (st', w')"
    and "owned run (ds_processes st) w"
  shows "owned run (ds_processes st') w'"
  using assms(2)
proof (rule driver_stepE)
  fix r res assume "dispatch_action shown nw os rs st r w = Some (res, st', w')"
  with dispatch_action_owned [OF assms(1,3)] show ?thesis by blast
next
  fix pids res ps
  assume "st' = st\<lparr>ds_processes := ps\<rparr>" "release_pids os pids (ds_processes st) w = Some (res, ps, w')"
  with release_pids_owned [OF assms(1,3)] show ?thesis by simp
next
  fix res ps
  assume "st' = st\<lparr>ds_processes := ps\<rparr>" "close_processes os (ds_processes st) w = Some (res, ps, w')"
  with close_processes_owned [OF assms(1,3)] show ?thesis by simp
next
  fix pids assume "st' = st" "owned_pids os (ds_processes st) w = (pids, w')"
  then obtain qs where "live_pids os (ds_processes st) w = (qs, w')" and "st' = st"
    by (auto simp: owned_pids_def split: prod.splits)
  with live_pids_law [OF assms(1)] assms(3) show ?thesis by (blast intro: owned_shrink)
next
  assume "st' = st" "run w' \<subseteq> run w"
  with assms(3) show ?thesis by (blast intro: owned_shrink)
qed

lemma driver_reach_owned:
  assumes "lawful nw os run grp" and "(driver_step shown nw os rs run)\<^sup>*\<^sup>* s s'"
    and "owned run (ds_processes (fst s)) (snd s)"
  shows "owned run (ds_processes (fst s')) (snd s')"
  using assms(2)
proof (induction rule: rtranclp_induct)
  case base
  show ?case by (rule assms(3))
next
  case (step y z)
  with driver_step_owned [OF assms(1), of shown rs "fst y" "snd y" "fst z" "snd z"] show ?case by simp
qed

text \<open>C27. No process is lost: whatever a driver has done since it was made, and in whatever order, every
  process it started that still runs is among those it reports as owned, so that
  recovery can find it.\<close>

theorem running_processes_are_owned:
  assumes "lawful nw os run grp" and "run w0 = {}"
    and "(driver_step shown nw os rs run)\<^sup>*\<^sup>* (fresh_driver rs, w0) (st, w)"
    and "owned_pids os (ds_processes st) w = (pids, w')"
  shows "\<forall>p\<in>run w'. os_pid os p \<in> set pids"
proof
  fix p assume p: "p \<in> run w'"
  have "owned run (ds_processes st) w"
    using driver_reach_owned [OF assms(1,3)] assms(2) by (simp add: fresh_driver_def owned_def)
  moreover obtain qs where qs: "live_pids os (ds_processes st) w = (qs, w')" "pids = sort qs"
    using assms(4) by (auto simp: owned_pids_def split: prod.splits)
  note law = live_pids_law [OF assms(1) qs(1)]
  ultimately obtain m where "m \<in> set (ds_processes st)" "mg_process (snd m) = p"
    using p by (auto simp: owned_def)
  with law p qs(2) show "os_pid os p \<in> set pids" by auto
qed

text \<open>C30. The driver always comes back: when the clock runs, every action returns a result or an
  error, and so do releasing processes and closing, whatever the processes and their groups do.\<close>

theorem driver_always_returns:
  assumes "clock_runs os clock"
  shows "(\<exists>out. dispatch_action shown nw os rs st r w = Some out)
    \<and> (\<exists>out. release_pids os pids (ds_processes st) w = Some out)
    \<and> (\<exists>out. close_processes os (ds_processes st) w = Some out)"
proof (intro conjI)
  obtain out where "stop_process os rs (ds_processes st) r w = Some out"
    using stop_process_ends [OF assms] by blast
  then have "dispatch_action shown nw os rs st r w \<noteq> None"
    by (simp add: dispatch_action_def Let_def del: not_None_eq)
  then show "\<exists>out. dispatch_action shown nw os rs st r w = Some out" by blast
  show "\<exists>out. release_pids os pids (ds_processes st) w = Some out"
    unfolding release_pids_def by (rule release_each_ends [OF assms])
  obtain x v where "close_all os (ds_processes st) w = Some (x, v)"
    using close_all_ends [OF assms] by (metis surj_pair)
  then show "\<exists>out. close_processes os (ds_processes st) w = Some out"
    by (cases x) (simp_all add: close_processes_def)
qed

section \<open>A concrete system\<close>

text \<open>The world is the running processes and the time; every process leads a group of its own
  number, and a signal ends a group at once.\<close>

type_synonym os_world = "nat list \<times> rat"

definition sample_os :: "os_world os" where
  "sample_os =
     \<lparr>os_popen = (\<lambda>_ _ (l, t). (Some 7, (List.insert 7 l, t))),
      os_poll = (\<lambda>p (l, t). (if p \<in> set l then None else Some 0, (l, t))),
      os_pid = (\<lambda>p. 1000 + int p),
      os_code = (\<lambda>p (l, t). if p \<in> set l then None else Some 0),
      os_group = (\<lambda>p (l, t). if p \<in> set l then InGroup (int p) else NoProcess),
      os_own = 1,
      os_wait = (\<lambda>p d (l, t). (if p \<in> set l then WaitExpired else Waited, (l, t + d))),
      os_terminate = (\<lambda>p (l, t). (True, (removeAll p l, t))),
      os_kill = (\<lambda>p (l, t). (True, (removeAll p l, t))),
      os_killpg = (\<lambda>g s (l, t).
        if nat g \<notin> set l \<or> g < 0 then (NoGroup, (l, t))
        else (Signalled, (if s = Probe then l else removeAll (nat g) l, t))),
      os_now = (\<lambda>(l, t). (t, (l, t))),
      os_sleep = (\<lambda>d (l, t). (l, t + d))\<rparr>"

definition sample_quiet :: "os_world network" where
  "sample_quiet =
     \<lparr>nw_exec = (\<lambda>w _ _ _. (CommandBroken, w)), nw_loads = sample_loads, nw_interfaces = [],
      nw_node = (\<lambda>n. n = ''h1''), nw_config = (\<lambda>_ _ w. (False, w))\<rparr>"

definition sample_hosts_planned :: "planned_resource list" where
  "sample_hosts_planned =
     [NodeResource \<lparr>pn_name = ''h1'', pn_labels = [], pn_parent = None, pn_attributes = [], pn_body = PlannedHost None\<rparr>]"

definition sample_start :: action_request where
  "sample_start = \<lparr>aq_id = ''p1'', aq_name = ''host.process.start'', aq_target = ''h1'',
     aq_parameters = [(''command'', JStr ''ping'')], aq_timeout = 30\<rparr>"

definition sample_driver :: driver_state where
  "sample_driver = \<lparr>ds_links = [], ds_processes = [(''p1'', \<lparr>mg_host = ''h1'', mg_process = 7\<rparr>)]\<rparr>"

lemma sample_lawful: "lawful sample_quiet sample_os (\<lambda>w. set (fst w)) int"
proof -
  have "start_law sample_os (\<lambda>w. set (fst w))"
    by (auto simp: start_law_def sample_os_def)
  moreover have "poll_law sample_os (\<lambda>w. set (fst w))"
    by (auto simp: poll_law_def sample_os_def)
  moreover have "wait_law sample_os (\<lambda>w. set (fst w))"
    by (auto simp: wait_law_def sample_os_def)
  moreover have "group_law sample_os (\<lambda>w. set (fst w)) int"
    by (auto simp: group_law_def sample_os_def split: if_splits)
  moreover have "quiet_law sample_quiet sample_os (\<lambda>w. set (fst w))"
    by (auto simp: quiet_law_def sample_os_def sample_quiet_def)
  ultimately show ?thesis by (simp add: lawful_def)
qed

lemma sample_started:
  "\<exists>res. dispatch_action sample_text sample_quiet sample_os sample_hosts_planned (fresh_driver sample_hosts_planned)
     sample_start ([], 0) = Some (res, sample_driver, ([7], 0))"
  by (simp add: dispatch_action_def sample_start_def start_process_def require_kind_def resource_table_def
      sample_hosts_planned_def process_command_def no_nul_def fresh_driver_def initial_links_def node_name_def
      sample_quiet_def sample_os_def still_running_def sample_driver_def Let_def)

theorem running_processes_are_owned_witness:
  "os_pid sample_os 7 \<in> set (fst (owned_pids sample_os (ds_processes sample_driver) ([7], 0)))"
proof -
  obtain res where "dispatch_action sample_text sample_quiet sample_os sample_hosts_planned
      (fresh_driver sample_hosts_planned) sample_start ([], 0) = Some (res, sample_driver, ([7], 0))"
    using sample_started by blast
  then have step: "(driver_step sample_text sample_quiet sample_os sample_hosts_planned (\<lambda>w. set (fst w)))\<^sup>*\<^sup>*
      (fresh_driver sample_hosts_planned, ([], 0)) (sample_driver, ([7], 0))"
    by (intro r_into_rtranclp driver_step.acts)
  have owned: "owned_pids sample_os (ds_processes sample_driver) ([7], 0) = ([1007], ([7], 0))"
    by (simp add: owned_pids_def sample_driver_def still_running_def sample_os_def)
  from running_processes_are_owned [OF sample_lawful _ step owned] show ?thesis by (simp add: owned)
qed

lemma sample_clock_runs: "clock_runs sample_os snd"
  by (auto simp: clock_runs_def sample_os_def)

theorem driver_always_returns_witness:
  "(\<exists>out. dispatch_action sample_text sample_quiet sample_os sample_hosts_planned sample_driver sample_start ([7], 0) = Some out)
    \<and> (\<exists>out. release_pids sample_os [1007] (ds_processes sample_driver) ([7], 0) = Some out)
    \<and> (\<exists>out. close_processes sample_os (ds_processes sample_driver) ([7], 0) = Some out)"
  by (rule driver_always_returns [OF sample_clock_runs])

end
