(* ===== verification/Spec2Isabelle.thy ===== *)
theory Spec2Isabelle
  imports Channel Events Graph Sdk Arbitration Admission Leases Commit Routing Shared_State Supervision
  Catalog Registry Verification Engine Topology Addresses Resources Scenario Deployment Compile Continuous Telemetry Bounded Invocations Text Flows Rule_Inspection Link_Actions
  Process_Actions
begin

text \<open>
  A verification library for \<open>mininet_ai\<close>: a runtime in which agents observe an emulated network
  and act on it under the control of a compiled deployment plan. The sources are the files under
  \<open>src/mininet_ai/\<close>; names in this header are names there unless they are called theories.

  \<^bold>\<open>The program.\<close> A YAML experiment is read (\<open>specification/\<close>) and compiled
  (\<open>compiler/compiler.py\<close>) into a plan: resources with addresses, agents with their targets,
  capabilities and privileges, coordination edges. A substrate deploys the plan. At run time a
  telemetry pipeline samples the substrate and publishes events; the continuous runtime turns
  events, intervals and intents into queued work for the agents; the coordination runtime routes
  each request along the edges of the plan; the one-shot agent runtime prepares the context of one
  invocation, lets the agent reason, and executes what it proposes through the capability engine,
  which authorizes, executes, verifies and rolls back; conflicting actions of different
  invocations are arbitrated and admitted one at a time; shared state is committed at the end.
  Bounded agents choose from a closed list through a decision service, under a deadline, and
  their recoveries are checked against the rules that are really installed.

  \<^bold>\<open>Theories.\<close> In the order in which they import each other:
  \<^item> \<open>Prelude\<close>: results of operations that may raise, loops over lists, dictionaries.
  \<^item> \<open>Messages\<close> (\<open>coordination/contracts.py\<close>), \<open>Bounded_Queue\<close> with \<open>Channel\<close>
    (\<open>coordination/channel.py\<close>) and \<open>Events\<close> (\<open>runtime/events.py\<close>): the two bounded queues share the
    locale \<open>bounded_queue\<close>, which both interpret.
  \<^item> \<open>Sdk\<close> (\<open>sdk/contracts.py\<close>, \<open>substrates/runtime.py\<close>, \<open>outcomes.py\<close>): the values all parts exchange,
    each with the checks of its constructor; \<open>Specification\<close> (\<open>specification/models.py\<close>,
    \<open>durations.py\<close>): what the runtime reads back from a plan.
  \<^item> \<open>Graph\<close>, \<open>Arbitration\<close>, \<open>Admission\<close>, \<open>Leases\<close>, \<open>Commit\<close>, \<open>Routing\<close> (\<open>coordination/\<close>): the graph and
    its validation; which actions conflict and who wins; the critical sections that keep
    conflicting actions apart; the budget of invocations; the commit of one invocation; the loop
    that routes one request.
  \<^item> \<open>Shared_State\<close> (\<open>runtime/state.py\<close>): the in-memory and the SQLite store behind the locales
    \<open>shared_state_store\<close> and \<open>readable_store\<close>, interpreted for both. \<open>Supervision\<close>
    (\<open>runtime/supervision.py\<close>): life cycle, retries and restarts, as threads that take the lock
    section by section and report the transitions they made after it.
  \<^item> \<open>Catalog\<close> (\<open>sdk/catalog.py\<close>), \<open>Registry\<close> (\<open>plugins/\<close>, the two substrate registries; locale
    \<open>name_table\<close>), \<open>Verification\<close> and \<open>Engine\<close> (\<open>capabilities/\<close>).
  \<^item> \<open>Topology\<close>, \<open>Addresses\<close>, \<open>Resources\<close>, \<open>Scenario\<close>, \<open>Deployment\<close>, \<open>Compile\<close> (\<open>compiler/\<close> and the topology,
    placement and scenario sections of \<open>specification/models.py\<close>): the passes of the compiler in
    their order, up to \<open>compile_experiment\<close>.
  \<^item> \<open>Continuous\<close> (\<open>runtime/continuous.py\<close>), \<open>Aggregation\<close> and \<open>Telemetry\<close> (\<open>runtime/telemetry.py\<close>).
  \<^item> \<open>Decision_Client\<close> and \<open>Bounded\<close> (\<open>agents/bounded.py\<close>, \<open>agents/reconciliation.py\<close>,
    \<open>agents/bounded_contracts.py\<close>); \<open>Agent_Runtime\<close> and \<open>Invocations\<close> (\<open>agents/runtime.py\<close>).
  \<^item> \<open>Text\<close> (the text functions of Python), \<open>Flows\<close>, \<open>Link_Actions\<close> and \<open>Process_Actions\<close>
    (\<open>substrates/mininet_ovs/actions.py\<close>): OpenFlow rules as they are written, read and compared; links
    with undo, over a network that keeps a record of what was asked of it; the processes of a run and the dispatch of an action. \<open>Rule_Inspection\<close>: this driver as the inspector of \<open>Bounded\<close>.

  \<^bold>\<open>How code becomes definitions.\<close> A class is a record of its fields, an enumeration a datatype, a
  method a function of the state that gives back its result and the state afterwards; a method
  under a lock is one function, and one that waits is split at its waits. An exception is the left
  value of a sum type; the stable code of an error is kept and the text of its message left out.
  A pydantic model is a record with a function \<open>new_...\<close> that runs the field constraints and
  validators in order. A \<open>datetime\<close> is a number of microseconds and a finite float the rational
  number it stands for. Threads are step relations (\<open>adm_step\<close>, \<open>lease_step\<close>, \<open>sup_act\<close>,
  \<open>authority_step\<close>, \<open>oneshot_step\<close>, \<open>driver_step\<close>, the steps of \<open>Continuous\<close>): a property of every reachable state
  holds for every interleaving. Code that is not in the repository is an argument: clocks, id
  factories, the substrate, the decision service, HTTP, SHA-256, the JSON-schema package, the
  text forms of JSON.

  \<^bold>\<open>What the lemmas show.\<close> Each component theory proves that its operations keep its invariant
  (lemmas \<open>..._inv\<close>, \<open>..._ok\<close>, \<open>..._keeps\<close>), what an operation returns on each branch (\<open>..._Inr\<close>,
  \<open>..._iff\<close>), and its properties, which stand at the end of the theory: routing stays inside the
  plan and handles every message once; conflicting actions never run together and some waiting
  one can always go on; every action of an invocation is accounted for; the engine calls a
  provider only for what the plan authorizes; both state stores behave alike and commit
  atomically; a compiled plan can be started; queues, windows and budgets stay within their
  limits; a bounded decision starts nothing after it is cancelled or expired, proposes exactly the
  missing steps of a recovery, and a recovery reported as successful is in place; a rule that is written
  reads back as it was meant; a link action that fails is undone as far as its commands succeed, and
  the parameters recorded of a link are those its interfaces were last given; no process the driver
  started is lost. Each property with a hypothesis has a witness, the property applied to a concrete run of the definitions.

  \<^bold>\<open>Bounds and fuel.\<close> The probe for a free datapath id gets \<open>probe_steps\<close> steps (\<open>Addresses\<close>), more than
  there are ids in use, which suffices (\<open>probe_found\<close>). The polling loop of \<open>Verification\<close>
  is a partial function, and \<open>polling_ends\<close> shows that it returns when the clock
  moves; so are the loops of \<open>Process_Actions\<close> that wait for a process group, which
  \<open>driver_always_returns\<close> shows to end. The retry loop of \<open>Supervision\<close> is bounded by the restart budget. All other recursion is over lists or
  justified by a measure. Machine integers occur only as datapath ids, MAC suffixes and IPv4
  addresses, whose ranges are proved.

  \<^bold>\<open>Not modelled.\<close> The command line, assembling an experiment from files, YAML loading, saved runs,
  inspection and export, the audit log, the local socket endpoint, the adapters of Agno and of
  model services, and of the Mininet substrate the deployment of a run and the observations: their
  content is input and output, formats, or calls of packages that are not in the repository. Of
  modelled components the texts of messages, provenance constants, digests and file handling are left out.
\<close>

end
